(* ===== verification/Prelude.thy ===== *)
theory Prelude
  imports Main "HOL-Library.Word"
begin

unbundle bit_operations_syntax

text \<open>
  Shared by every component: the C types (a char is a byte, a C string is the list of
  its bytes before the terminating zero), the functions of the C library that the
  sources call (ctype.h, string.h), and the loops that shift the cells of an array,
  with the list lemmas about them.
  \<^item> a C \<open>int\<close> used as a size, index or result is an \<open>int\<close> or a \<open>nat\<close>:
    the containers abort when memory runs out, long before such a value overflows;
  \<^item> a value whose bits matter (hashes, checksums, header fields) is a word of its width;
  \<^item> a pointer to a user's object is the object, NULL is \<open>None\<close>.
\<close>

section \<open>Types\<close>

type_synonym byte = "8 word"
type_synonym u16 = "16 word"
type_synonym u32 = "32 word"
type_synonym u64 = "64 word"

text \<open>A C string: its bytes up to, and without, the terminating zero.\<close>

type_synonym cstr = "byte list"

definition lit :: "string \<Rightarrow> cstr" where
  "lit s = map of_char s"

definition c_string :: "byte list \<Rightarrow> bool" where
  "c_string s \<longleftrightarrow> 0 \<notin> set s"

text \<open>What a C function sees of a byte buffer that it reads as a string.\<close>

definition cstr_of :: "byte list \<Rightarrow> cstr" where
  "cstr_of buf = takeWhile (\<lambda>c. c \<noteq> 0) buf"

lemma c_string_Nil [simp]: "c_string []"
  by (simp add: c_string_def)

lemma c_string_Cons [simp]: "c_string (c # s) \<longleftrightarrow> c \<noteq> 0 \<and> c_string s"
  by (auto simp: c_string_def)

lemma c_string_append [simp]: "c_string (s @ t) \<longleftrightarrow> c_string s \<and> c_string t"
  by (auto simp: c_string_def)

lemma c_string_cstr_of [simp]: "c_string (cstr_of buf)"
  by (auto simp: c_string_def cstr_of_def dest: set_takeWhileD)

lemma cstr_of_id [simp]: "c_string s \<Longrightarrow> cstr_of s = s"
  by (induction s) (auto simp: cstr_of_def)

lemma cstr_of_c_string [simp]: "c_string s \<Longrightarrow> cstr_of (s @ 0 # t) = s"
  by (induction s) (auto simp: cstr_of_def)

named_theorems acl_seq "what a container operation does to the list it holds"
named_theorems acl_inv "operations keep the well-formedness of their container"

section \<open>ctype.h in the C locale\<close>

definition isdigit :: "byte \<Rightarrow> bool" where
  "isdigit c \<longleftrightarrow> 48 \<le> c \<and> c \<le> 57"

definition isupper :: "byte \<Rightarrow> bool" where
  "isupper c \<longleftrightarrow> 65 \<le> c \<and> c \<le> 90"

definition islower :: "byte \<Rightarrow> bool" where
  "islower c \<longleftrightarrow> 97 \<le> c \<and> c \<le> 122"

definition isalpha :: "byte \<Rightarrow> bool" where
  "isalpha c \<longleftrightarrow> isupper c \<or> islower c"

definition isalnum :: "byte \<Rightarrow> bool" where
  "isalnum c \<longleftrightarrow> isalpha c \<or> isdigit c"

definition isspace :: "byte \<Rightarrow> bool" where
  "isspace c \<longleftrightarrow> c = 32 \<or> (9 \<le> c \<and> c \<le> 13)"

definition tolower :: "byte \<Rightarrow> byte" where
  "tolower c = (if isupper c then c + 32 else c)"

definition toupper :: "byte \<Rightarrow> byte" where
  "toupper c = (if islower c then c - 32 else c)"

section \<open>string.h\<close>

definition strspn :: "cstr \<Rightarrow> byte set \<Rightarrow> nat" where
  "strspn s A = length (takeWhile (\<lambda>c. c \<in> A) s)"

definition strcspn :: "cstr \<Rightarrow> byte set \<Rightarrow> nat" where
  "strcspn s A = length (takeWhile (\<lambda>c. c \<notin> A) s)"

text \<open>The index that \<open>strchr\<close> (first) and \<open>strrchr\<close> (last occurrence) point to.\<close>

fun strchr_idx :: "cstr \<Rightarrow> byte \<Rightarrow> nat option" where
  "strchr_idx [] c = None"
| "strchr_idx (x # xs) c = (if x = c then Some 0 else map_option Suc (strchr_idx xs c))"

fun strrchr_idx :: "cstr \<Rightarrow> byte \<Rightarrow> nat option" where
  "strrchr_idx [] c = None"
| "strrchr_idx (x # xs) c =
     (case strrchr_idx xs c of
        Some i \<Rightarrow> Some (Suc i)
      | None \<Rightarrow> if x = c then Some 0 else None)"

text \<open>The index that \<open>strstr\<close> points to: the first place where the needle is a prefix.\<close>

fun strstr_idx :: "cstr \<Rightarrow> cstr \<Rightarrow> nat option" where
  "strstr_idx s needle =
     (if take (length needle) s = needle then Some 0
      else case s of [] \<Rightarrow> None | c # cs \<Rightarrow> map_option Suc (strstr_idx cs needle))"

declare strstr_idx.simps [simp del]

lemma strstr_idx_Some:
  "strstr_idx s needle = Some i \<Longrightarrow>
   take (length needle) (drop i s) = needle \<and> i \<le> length s \<and>
   (\<forall>j < i. take (length needle) (drop j s) \<noteq> needle)"
proof (induction s arbitrary: i)
  case (Cons c s)
  from Cons.prems show ?case
    by (subst (asm) strstr_idx.simps)
       (auto split: if_splits dest!: Cons.IH simp: less_Suc_eq_0_disj)
qed (auto simp: strstr_idx.simps split: if_splits)

lemma strstr_idx_None:
  "strstr_idx s needle = None \<Longrightarrow> take (length needle) (drop j s) \<noteq> needle"
proof (induction s arbitrary: j)
  case (Cons c s)
  from Cons.prems have "take (length needle) (c # s) \<noteq> needle" "strstr_idx s needle = None"
    by (subst (asm) strstr_idx.simps, auto split: if_splits)+
  with Cons.IH show ?case by (cases j) auto
qed (auto simp: strstr_idx.simps split: if_splits)

lemma strchr_idx_Some:
  "strchr_idx s c = Some i \<Longrightarrow> i < length s \<and> s ! i = c \<and> c \<notin> set (take i s)"
  by (induction s arbitrary: i) (auto split: if_splits)

lemma strchr_idx_None: "strchr_idx s c = None \<longleftrightarrow> c \<notin> set s"
  by (induction s) auto

section \<open>Array cell loops\<close>

text \<open>\<^verbatim>\<open>for (idx = i; idx > p; idx--) items[idx] = items[idx - 1];\<close>\<close>

fun shift_up :: "nat \<Rightarrow> nat \<Rightarrow> 'a list \<Rightarrow> 'a list" where
  "shift_up p 0 xs = xs"
| "shift_up p (Suc i) xs = (if p < Suc i then shift_up p i (xs[Suc i := xs ! i]) else xs)"

text \<open>\<^verbatim>\<open>for (idx = i; idx < n; idx++) items[idx] = items[idx + 1];\<close>\<close>

function shift_down :: "nat \<Rightarrow> nat \<Rightarrow> 'a list \<Rightarrow> 'a list" where
  "shift_down i n xs = (if i < n then shift_down (Suc i) n (xs[i := xs ! Suc i]) else xs)"
  by pat_completeness auto
termination
  by (relation "measure (\<lambda>(i, n, xs). n - i)") auto

text \<open>\<^verbatim>\<open>for (; src < lim; src++) items[dst++] = items[src];\<close>\<close>

function move_down :: "nat \<Rightarrow> nat \<Rightarrow> nat \<Rightarrow> 'a list \<Rightarrow> 'a list" where
  "move_down dst src lim xs =
     (if src < lim then move_down (Suc dst) (Suc src) lim (xs[dst := xs ! src]) else xs)"
  by pat_completeness auto
termination
  by (relation "measure (\<lambda>(dst, src, lim, xs). lim - src)") auto

declare shift_down.simps [simp del] move_down.simps [simp del]

text \<open>
  \<^verbatim>\<open>for (k = 0; k < n; k++, i++) { if (items[i] != NULL) free_fn(items[i]); items[i] = NULL; }\<close>:
  the objects handed to \<open>free_fn\<close>, in order, and the cleared cells.
\<close>

fun free_cells :: "nat \<Rightarrow> nat \<Rightarrow> 'a option list \<Rightarrow> 'a list \<times> 'a option list" where
  "free_cells 0 i xs = ([], xs)"
| "free_cells (Suc n) i xs =
     (case free_cells n (Suc i) (xs[i := None]) of
        (fs, ys) \<Rightarrow> ((case xs ! i of None \<Rightarrow> fs | Some x \<Rightarrow> x # fs), ys))"

lemma length_shift_up [simp]: "length (shift_up p i xs) = length xs"
  by (induction p i xs rule: shift_up.induct) auto

lemma length_shift_down [simp]: "length (shift_down i n xs) = length xs"
  by (induction i n xs rule: shift_down.induct) (subst shift_down.simps, simp)

lemma length_move_down [simp]: "length (move_down d s l xs) = length xs"
  by (induction d s l xs rule: move_down.induct) (subst move_down.simps, simp)

lemma nth_shift_up:
  "i < length xs \<Longrightarrow> k < length xs \<Longrightarrow>
   shift_up p i xs ! k = (if p < k \<and> k \<le> i then xs ! (k - 1) else xs ! k)"
proof (induction p i xs rule: shift_up.induct)
  case (2 p i xs)
  then show ?case by (auto simp: nth_list_update less_Suc_eq_le le_Suc_eq)
qed simp

lemma nth_shift_down:
  "n < length xs \<Longrightarrow> k < length xs \<Longrightarrow>
   shift_down i n xs ! k = (if i \<le> k \<and> k < n then xs ! Suc k else xs ! k)"
proof (induction i n xs rule: shift_down.induct)
  case (1 i n xs)
  then show ?case
    by (subst shift_down.simps) (auto simp: nth_list_update not_less_eq_eq intro!: arg_cong [where f = "nth xs"])
qed

lemma nth_move_down:
  "d \<le> s \<Longrightarrow> l \<le> length xs \<Longrightarrow> k < length xs \<Longrightarrow>
   move_down d s l xs ! k = (if d \<le> k \<and> k + s < l + d then xs ! (k + (s - d)) else xs ! k)"
proof (induction d s l xs rule: move_down.induct)
  case (1 d s l xs)
  show ?case
  proof (cases "s < l")
    case True
    with 1 show ?thesis
      by (subst move_down.simps) (auto simp: nth_list_update intro!: arg_cong [where f = "nth xs"])
  next
    case False
    with 1 show ?thesis by (subst move_down.simps) auto
  qed
qed

lemma shift_up_insert:
  assumes "n < length xs" "p \<le> n"
  shows "take (Suc n) ((shift_up p n xs)[p := x]) = take p (take n xs) @ x # drop p (take n xs)"
  using assms by (intro nth_equalityI) (auto simp: nth_shift_up nth_list_update nth_append nth_Cons')

lemma shift_down_delete:
  assumes "n < length xs" "i \<le> n"
  shows "take n (shift_down i n xs) = take i xs @ drop (Suc i) (take (Suc n) xs)"
  using assms by (intro nth_equalityI) (auto simp: nth_shift_down nth_append min_def)

lemma move_down_delete:
  assumes "d \<le> s" "s \<le> l" "l \<le> length xs"
  shows "take (d + (l - s)) (move_down d s l xs) = take d xs @ drop s (take l xs)"
    (is "?lhs = ?rhs")
proof (rule nth_equalityI)
  show len: "length ?lhs = length ?rhs"
    using assms by simp
  fix k
  assume "k < length ?lhs"
  with assms have k: "k < d + (l - s)" "k < length xs" by auto
  then show "?lhs ! k = ?rhs ! k"
    using assms
    by (auto simp: nth_move_down nth_append min_def intro!: arg_cong [where f = "nth xs"])
qed

lemma free_cells_eq:
  "i + n \<le> length xs \<Longrightarrow>
   free_cells n i xs =
     (List.map_filter id (take n (drop i xs)), take i xs @ replicate n None @ drop (i + n) xs)"
proof (induction n arbitrary: i xs)
  case (Suc n)
  from Suc.prems have "drop i xs = xs ! i # drop (Suc i) xs"
    by (simp add: Cons_nth_drop_Suc)
  moreover have "take (Suc i) (xs[i := None]) = take i xs @ [None]"
    using Suc.prems by (simp add: take_Suc_conv_app_nth take_update_cancel)
  ultimately show ?case
    using Suc by (auto simp: map_filter_simps split: option.splits)
qed (simp add: map_filter_simps)

end
