(* ===== verification/Acl_Interfaces.thy ===== *)
theory Acl_Interfaces
  imports Prelude
begin

text \<open>
  The interfaces that acllib's containers share. Every sequence container of the
  library carries the same four function pointers (\<open>push_back\<close>, \<open>push_front\<close>,
  \<open>pop_back\<close>, \<open>pop_front\<close>), every container carries iterator functions that the
  \<open>ACL_FOREACH\<close> macro of \<^verbatim>\<open>acl_iterator.h\<close> drives, every keyed store has
  enter/find/delete, and the codecs come as encode/decode pairs. Each interface is a
  locale; the lemmas proved inside it hold of every provider. The providers interpret
  them in their own theories.
\<close>

section \<open>The iterator and the foreach macro\<close>

record ('p, 'd) acl_iter =
  it_ptr :: "'p option"
  it_data :: "'d option"
  it_dlen :: int
  it_key :: "cstr option"
  it_klen :: int
  it_i :: int
  it_size :: int

definition iter_blank :: "('p, 'd) acl_iter" where
  "iter_blank = \<lparr>it_ptr = None, it_data = None, it_dlen = 0, it_key = None, it_klen = 0,
     it_i = 0, it_size = 0\<rparr>"

text \<open>
  \<^verbatim>\<open>for (c->iter_head(&it, c); it.ptr; c->iter_next(&it, c)) body\<close>: the pointers that
  the body sees, in order; \<open>None\<close> when the fuel runs out before the iterator ends.
\<close>

fun foreach_loop ::
  "nat \<Rightarrow> (('p, 'd) acl_iter \<Rightarrow> ('p, 'd) acl_iter) \<Rightarrow> ('p, 'd) acl_iter \<Rightarrow> 'p list option"
where
  "foreach_loop 0 next_fn it = None"
| "foreach_loop (Suc fuel) next_fn it =
     (case it_ptr it of
        None \<Rightarrow> Some []
      | Some p \<Rightarrow> map_option (Cons p) (foreach_loop fuel next_fn (next_fn it)))"

definition acl_foreach ::
  "nat \<Rightarrow> (('p, 'd) acl_iter \<Rightarrow> 'c \<Rightarrow> ('p, 'd) acl_iter) \<Rightarrow>
   (('p, 'd) acl_iter \<Rightarrow> 'c \<Rightarrow> ('p, 'd) acl_iter) \<Rightarrow> 'c \<Rightarrow> 'p list option"
where
  "acl_foreach fuel head_fn next_fn c =
     foreach_loop fuel (\<lambda>it. next_fn it c) (head_fn iter_blank c)"

text \<open>
  What an iterator promises: \<open>at c n it\<close> says that \<open>it\<close> stands on the n-th element of
  \<open>c\<close>, or has run off the end when n is the number of elements.
\<close>

locale iteration =
  fixes head_fn :: "('p, 'd) acl_iter \<Rightarrow> 'c \<Rightarrow> ('p, 'd) acl_iter"
    and next_fn :: "('p, 'd) acl_iter \<Rightarrow> 'c \<Rightarrow> ('p, 'd) acl_iter"
    and elems :: "'c \<Rightarrow> 'p list"
    and wf :: "'c \<Rightarrow> bool"
    and at :: "'c \<Rightarrow> nat \<Rightarrow> ('p, 'd) acl_iter \<Rightarrow> bool"
  assumes head_at: "wf c \<Longrightarrow> at c 0 (head_fn it c)"
    and next_at: "wf c \<Longrightarrow> at c n it \<Longrightarrow> n < length (elems c) \<Longrightarrow> at c (Suc n) (next_fn it c)"
    and at_ptr: "wf c \<Longrightarrow> at c n it \<Longrightarrow> n \<le> length (elems c) \<Longrightarrow>
      it_ptr it = (if n < length (elems c) then Some (elems c ! n) else None)"
begin

lemma foreach_loop_from:
  "wf c \<Longrightarrow> at c n it \<Longrightarrow> n \<le> length (elems c) \<Longrightarrow> length (elems c) - n < fuel \<Longrightarrow>
   foreach_loop fuel (\<lambda>it. next_fn it c) it = Some (drop n (elems c))"
proof (induction fuel arbitrary: n it)
  case (Suc fuel)
  show ?case
  proof (cases "n < length (elems c)")
    case True
    with Suc have "foreach_loop fuel (\<lambda>it. next_fn it c) (next_fn it c)
        = Some (drop (Suc n) (elems c))"
      by (intro Suc.IH next_at) auto
    with True Suc.prems show ?thesis
      by (simp add: at_ptr Cons_nth_drop_Suc)
  next
    case False
    with Suc.prems show ?thesis by (simp add: at_ptr)
  qed
qed simp

lemma foreach_elems:
  "wf c \<Longrightarrow> length (elems c) < fuel \<Longrightarrow> acl_foreach fuel head_fn next_fn c = Some (elems c)"
  unfolding acl_foreach_def
  by (subst foreach_loop_from [where n = 0]) (simp_all add: head_at)

end

section \<open>Sequence containers\<close>

datatype 'a seq_op = PushBack 'a | PushFront 'a | PopBack | PopFront

text \<open>A run of operations through the function pointers: the results of the pops, and the
  final container.\<close>

fun seq_run ::
  "('s \<Rightarrow> 'a \<Rightarrow> 's) \<Rightarrow> ('s \<Rightarrow> 'a \<Rightarrow> 's) \<Rightarrow> ('s \<Rightarrow> 'a option \<times> 's) \<Rightarrow> ('s \<Rightarrow> 'a option \<times> 's) \<Rightarrow>
   's \<Rightarrow> 'a seq_op list \<Rightarrow> 'a option list \<times> 's"
where
  "seq_run pb pf ob of' s [] = ([], s)"
| "seq_run pb pf ob of' s (PushBack x # ops) = seq_run pb pf ob of' (pb s x) ops"
| "seq_run pb pf ob of' s (PushFront x # ops) = seq_run pb pf ob of' (pf s x) ops"
| "seq_run pb pf ob of' s (PopBack # ops) =
     (case ob s of (r, s') \<Rightarrow> (case seq_run pb pf ob of' s' ops of (rs, t) \<Rightarrow> (r # rs, t)))"
| "seq_run pb pf ob of' s (PopFront # ops) =
     (case of' s of (r, s') \<Rightarrow> (case seq_run pb pf ob of' s' ops of (rs, t) \<Rightarrow> (r # rs, t)))"

text \<open>The same operations on lists: the abstract specification.\<close>

definition list_push_back :: "'a list \<Rightarrow> 'a \<Rightarrow> 'a list" where
  "list_push_back xs x = xs @ [x]"

definition list_push_front :: "'a list \<Rightarrow> 'a \<Rightarrow> 'a list" where
  "list_push_front xs x = x # xs"

definition list_pop_back :: "'a list \<Rightarrow> 'a option \<times> 'a list" where
  "list_pop_back xs = (if xs = [] then (None, []) else (Some (last xs), butlast xs))"

definition list_pop_front :: "'a list \<Rightarrow> 'a option \<times> 'a list" where
  "list_pop_front xs = (case xs of [] \<Rightarrow> (None, []) | y # ys \<Rightarrow> (Some y, ys))"

abbreviation list_run :: "'a list \<Rightarrow> 'a seq_op list \<Rightarrow> 'a option list \<times> 'a list" where
  "list_run \<equiv> seq_run list_push_back list_push_front list_pop_back list_pop_front"

fun back_only :: "'a seq_op \<Rightarrow> bool" where
  "back_only (PushFront x) = False"
| "back_only _ = True"

locale back_queue =
  fixes push_back :: "'s \<Rightarrow> 'a \<Rightarrow> 's"
    and pop_back :: "'s \<Rightarrow> 'a option \<times> 's"
    and pop_front :: "'s \<Rightarrow> 'a option \<times> 's"
    and seq :: "'s \<Rightarrow> 'a list"
    and wf :: "'s \<Rightarrow> bool"
  assumes push_back_wf: "wf s \<Longrightarrow> wf (push_back s x)"
    and push_back_seq: "wf s \<Longrightarrow> seq (push_back s x) = list_push_back (seq s) x"
    and pop_back_wf: "wf s \<Longrightarrow> wf (snd (pop_back s))"
    and pop_back_seq: "wf s \<Longrightarrow> map_prod id seq (pop_back s) = list_pop_back (seq s)"
    and pop_front_wf: "wf s \<Longrightarrow> wf (snd (pop_front s))"
    and pop_front_seq: "wf s \<Longrightarrow> map_prod id seq (pop_front s) = list_pop_front (seq s)"
begin

lemma pop_backD:
  "pop_back s = (r, t) \<Longrightarrow> wf s \<Longrightarrow> wf t \<and> list_pop_back (seq s) = (r, seq t)"
  using pop_back_wf [of s] pop_back_seq [of s] by simp

lemma pop_frontD:
  "pop_front s = (r, t) \<Longrightarrow> wf s \<Longrightarrow> wf t \<and> list_pop_front (seq s) = (r, seq t)"
  using pop_front_wf [of s] pop_front_seq [of s] by simp

lemma run_refines_with:
  assumes "wf s"
    and "\<And>s x. PushFront x \<in> set ops \<Longrightarrow> wf s \<Longrightarrow>
      wf (pf s x) \<and> seq (pf s x) = list_push_front (seq s) x"
    and "seq_run push_back pf pop_back pop_front s ops = (rs, t)"
  shows "wf t \<and> list_run (seq s) ops = (rs, seq t)"
  using assms
proof (induction ops arbitrary: s rs)
  case (Cons op ops)
  show ?case
  proof (cases op)
    case (PushBack x)
    with Cons.prems Cons.IH [of "push_back s x" rs] show ?thesis
      by (simp add: push_back_wf push_back_seq)
  next
    case (PushFront x)
    with Cons.prems Cons.IH [of "pf s x" rs] show ?thesis by simp
  next
    case PopBack
    with Cons.prems Cons.IH show ?thesis
      by (force dest: pop_backD split: prod.splits)
  next
    case PopFront
    with Cons.prems Cons.IH show ?thesis
      by (force dest: pop_frontD split: prod.splits)
  qed
qed simp

lemma back_run_refines:
  assumes "wf s" "list_all back_only ops" "seq_run push_back pf pop_back pop_front s ops = (rs, t)"
  shows "wf t \<and> list_run (seq s) ops = (rs, seq t)"
  using assms by (intro run_refines_with [where pf = pf]) (auto simp: list_all_iff)

lemma back_run_results:
  assumes "wf s" "list_all back_only ops"
  shows "fst (seq_run push_back pf pop_back pop_front s ops) = fst (list_run (seq s) ops)"
  using back_run_refines [OF assms, of pf]
  by (cases "seq_run push_back pf pop_back pop_front s ops") auto

text \<open>First in, first out; last in, first out.\<close>

lemma list_run_pushes: "list_run ys (map PushBack xs @ ops) = list_run (ys @ xs) ops"
  by (induction xs arbitrary: ys) (simp_all add: list_push_back_def)

lemma fifo_order:
  assumes "wf s" "seq s = []"
  shows "fst (seq_run push_back pf pop_back pop_front s
           (map PushBack xs @ replicate (length xs) PopFront)) = map Some xs"
proof -
  have pop: "fst (list_run xs (replicate (length xs) PopFront)) = map Some xs"
    by (induction xs) (simp_all add: list_pop_front_def split_beta)
  have "list_all back_only (map PushBack xs @ replicate (length xs) PopFront)"
    by (auto simp: list_all_iff)
  from back_run_results [OF assms(1) this] assms(2) pop show ?thesis
    by (simp add: list_run_pushes)
qed

lemma lifo_order:
  assumes "wf s" "seq s = []"
  shows "fst (seq_run push_back pf pop_back pop_front s
           (map PushBack xs @ replicate (length xs) PopBack)) = map Some (rev xs)"
proof -
  have pop: "fst (list_run xs (replicate (length xs) PopBack)) = map Some (rev xs)"
    by (induction xs rule: rev_induct) (simp_all add: list_pop_back_def split_beta)
  have "list_all back_only (map PushBack xs @ replicate (length xs) PopBack)"
    by (auto simp: list_all_iff)
  from back_run_results [OF assms(1) this] assms(2) pop show ?thesis
    by (simp add: list_run_pushes)
qed

end

locale deque = back_queue +
  fixes push_front :: "'s \<Rightarrow> 'a \<Rightarrow> 's"
  assumes push_front_wf: "wf s \<Longrightarrow> wf (push_front s x)"
    and push_front_seq: "wf s \<Longrightarrow> seq (push_front s x) = list_push_front (seq s) x"
begin

lemma run_refines:
  assumes "wf s" "seq_run push_back push_front pop_back pop_front s ops = (rs, t)"
  shows "wf t \<and> list_run (seq s) ops = (rs, seq t)"
  using assms by (intro run_refines_with [where pf = push_front]) (auto simp: push_front_wf push_front_seq)

end

section \<open>Keyed stores\<close>

text \<open>
  A store from keys to values with enter, find and delete. An entered key keeps its first
  value; \<open>norm\<close> is what the store does to a key before it uses it (a table of lower-case
  keys converts them), \<open>abs\<close> the map that the store stands for.
\<close>

datatype ('k, 'v) kv_op = Enter 'k 'v | Find 'k | Delete 'k

datatype 'v kv_res = Entered | Found "'v option" | Deleted bool

fun kv_run ::
  "('s \<Rightarrow> 'k \<Rightarrow> 'v \<Rightarrow> 's) \<Rightarrow> ('s \<Rightarrow> 'k \<Rightarrow> 'v option \<times> 's) \<Rightarrow> ('s \<Rightarrow> 'k \<Rightarrow> bool \<times> 's) \<Rightarrow>
   's \<Rightarrow> ('k, 'v) kv_op list \<Rightarrow> 'v kv_res list \<times> 's"
where
  "kv_run en fi de s [] = ([], s)"
| "kv_run en fi de s (Enter k v # ops) =
     (case kv_run en fi de (en s k v) ops of (rs, t) \<Rightarrow> (Entered # rs, t))"
| "kv_run en fi de s (Find k # ops) =
     (case fi s k of (r, s') \<Rightarrow> (case kv_run en fi de s' ops of (rs, t) \<Rightarrow> (Found r # rs, t)))"
| "kv_run en fi de s (Delete k # ops) =
     (case de s k of (r, s') \<Rightarrow> (case kv_run en fi de s' ops of (rs, t) \<Rightarrow> (Deleted r # rs, t)))"

text \<open>The specification: the same operations on a map.\<close>

definition map_enter :: "('k \<rightharpoonup> 'v) \<Rightarrow> 'k \<Rightarrow> 'v \<Rightarrow> ('k \<rightharpoonup> 'v)" where
  "map_enter m k v = (case m k of None \<Rightarrow> m(k \<mapsto> v) | Some _ \<Rightarrow> m)"

definition map_find :: "('k \<rightharpoonup> 'v) \<Rightarrow> 'k \<Rightarrow> 'v option \<times> ('k \<rightharpoonup> 'v)" where
  "map_find m k = (m k, m)"

definition map_delete :: "('k \<rightharpoonup> 'v) \<Rightarrow> 'k \<Rightarrow> bool \<times> ('k \<rightharpoonup> 'v)" where
  "map_delete m k = (m k \<noteq> None, m(k := None))"

abbreviation map_run :: "('k \<rightharpoonup> 'v) \<Rightarrow> ('k, 'v) kv_op list \<Rightarrow> 'v kv_res list \<times> ('k \<rightharpoonup> 'v)" where
  "map_run \<equiv> kv_run map_enter map_find map_delete"

fun kv_norm :: "('k \<Rightarrow> 'k) \<Rightarrow> ('k, 'v) kv_op \<Rightarrow> ('k, 'v) kv_op" where
  "kv_norm f (Enter k v) = Enter (f k) v"
| "kv_norm f (Find k) = Find (f k)"
| "kv_norm f (Delete k) = Delete (f k)"

locale kv_store =
  fixes enter :: "'s \<Rightarrow> 'k \<Rightarrow> 'v \<Rightarrow> 's"
    and find :: "'s \<Rightarrow> 'k \<Rightarrow> 'v option \<times> 's"
    and delete :: "'s \<Rightarrow> 'k \<Rightarrow> bool \<times> 's"
    and norm :: "'s \<Rightarrow> 'k \<Rightarrow> 'k"
    and abs :: "'s \<Rightarrow> 'k \<rightharpoonup> 'v"
    and wf :: "'s \<Rightarrow> bool"
  assumes enter_wf: "wf s \<Longrightarrow> wf (enter s k v) \<and> norm (enter s k v) = norm s"
    and enter_abs: "wf s \<Longrightarrow> abs (enter s k v) = map_enter (abs s) (norm s k) v"
    and find_wf: "wf s \<Longrightarrow> wf (snd (find s k)) \<and> norm (snd (find s k)) = norm s"
    and find_abs: "wf s \<Longrightarrow> map_prod id abs (find s k) = map_find (abs s) (norm s k)"
    and delete_wf: "wf s \<Longrightarrow> wf (snd (delete s k)) \<and> norm (snd (delete s k)) = norm s"
    and delete_abs: "wf s \<Longrightarrow> map_prod id abs (delete s k) = map_delete (abs s) (norm s k)"
begin

lemma run_refines:
  "wf s \<Longrightarrow> kv_run enter find delete s ops = (rs, t) \<Longrightarrow>
   wf t \<and> norm t = norm s \<and> map_run (abs s) (map (kv_norm (norm s)) ops) = (rs, abs t)"
proof (induction ops arbitrary: s rs)
  case (Cons op ops)
  show ?case
  proof (cases op)
    case (Enter k v)
    with Cons.prems obtain rs' where rs': "kv_run enter find delete (enter s k v) ops = (rs', t)"
      "rs = Entered # rs'" by (auto split: prod.splits)
    with Cons.IH [OF _ rs'(1)] enter_wf [OF Cons.prems(1), of k v] enter_abs [OF Cons.prems(1), of k v] Enter
    show ?thesis by simp
  next
    case (Find k)
    obtain r s' where f: "find s k = (r, s')" by (cases "find s k")
    with Cons.prems Find obtain rs' where rs': "kv_run enter find delete s' ops = (rs', t)"
      "rs = Found r # rs'" by (auto split: prod.splits)
    from find_abs [OF Cons.prems(1), of k] f have spec: "map_find (abs s) (norm s k) = (r, abs s')" by simp
    with Cons.IH [OF _ rs'(1)] find_wf [OF Cons.prems(1), of k] rs'(2) f Find
    show ?thesis by simp
  next
    case (Delete k)
    obtain r s' where f: "delete s k = (r, s')" by (cases "delete s k")
    with Cons.prems Delete obtain rs' where rs': "kv_run enter find delete s' ops = (rs', t)"
      "rs = Deleted r # rs'" by (auto split: prod.splits)
    from delete_abs [OF Cons.prems(1), of k] f have spec: "map_delete (abs s) (norm s k) = (r, abs s')" by simp
    with Cons.IH [OF _ rs'(1)] delete_wf [OF Cons.prems(1), of k] rs'(2) f Delete
    show ?thesis by simp
  qed
qed simp

lemma run_results:
  assumes "wf s"
  shows "fst (kv_run enter find delete s ops) = fst (map_run (abs s) (map (kv_norm (norm s)) ops))"
  using run_refines [OF assms, of ops]
  by (cases "kv_run enter find delete s ops") auto

lemma found_after_enter:
  "wf s \<Longrightarrow> abs s (norm s k) = None \<Longrightarrow> fst (find (enter s k v) k) = Some v"
  using find_abs [of "enter s k v" k] enter_wf [of s k v] enter_abs [of s k v]
  by (cases "find (enter s k v) k") (simp add: map_find_def map_enter_def)

lemma lost_after_delete:
  "wf s \<Longrightarrow> fst (find (snd (delete s k)) k) = None"
  using find_abs [of "snd (delete s k)" k] delete_wf [of s k] delete_abs [of s k]
  by (cases "find (snd (delete s k)) k"; cases "delete s k") (simp add: map_find_def map_delete_def)

end

section \<open>Codecs\<close>

text \<open>
  An encoder and the decoder that undoes it, on the inputs that \<open>ok\<close> accepts.
\<close>

locale codec =
  fixes encode :: "'a \<Rightarrow> 'b"
    and decode :: "'b \<Rightarrow> 'a option"
    and ok :: "'a \<Rightarrow> bool"
  assumes decode_encode: "ok x \<Longrightarrow> decode (encode x) = Some x"
begin

lemma encode_inj: "ok x \<Longrightarrow> ok y \<Longrightarrow> encode x = encode y \<Longrightarrow> x = y"
  by (metis decode_encode option.inject)

end

end
