(* ===== verification/Acl_Array.thy ===== *)
theory Acl_Array
  imports Acl_Interfaces
begin

text \<open>
  The growable pointer array of \<^verbatim>\<open>acllib/src/stdlib/common/acl_array.c\<close>. The state is the
  allocated cells, the number of cells in use and the number allocated; a cell holds a
  pointer, NULL is \<open>None\<close>. Every operation is the C function of the same name: it
  returns what the function returns, the objects it hands to \<open>free_fn\<close> (in order, when
  one is given), and the array after it. \<open>array_ok\<close> is the well-formedness that all
  operations keep; \<open>array_seq\<close> is the sequence the array stands for.
\<close>

record 'a acl_array =
  arr_items :: "'a option list"
  arr_count :: nat
  arr_capacity :: nat

definition array_ok :: "'a acl_array \<Rightarrow> bool" where
  "array_ok a \<longleftrightarrow> length (arr_items a) = arr_capacity a \<and> arr_count a \<le> arr_capacity a"

definition array_seq :: "'a acl_array \<Rightarrow> 'a option list" where
  "array_seq a = take (arr_count a) (arr_items a)"

section \<open>Operations\<close>

definition acl_array_grow :: "'a acl_array \<Rightarrow> nat \<Rightarrow> 'a acl_array" where
  "acl_array_grow a min_capacity =
     (if min_capacity \<le> arr_capacity a then a
      else
        let min_delta = 16;
            delta = (min_capacity + (min_delta - 1)) div min_delta * min_delta;
            cap = arr_capacity a + delta
        in if delta = 0 then a
           else a\<lparr>arr_capacity := cap,
                  arr_items := take (arr_count a) (arr_items a)
                    @ replicate (cap - arr_count a) None\<rparr>)"

text \<open>\<open>None\<close>: \<open>acl_msg_fatal\<close> ended the process.\<close>

definition acl_array_pre_append :: "'a acl_array \<Rightarrow> int \<Rightarrow> 'a acl_array option" where
  "acl_array_pre_append a app_count =
     (if app_count \<le> 0 then None
      else if arr_count a + nat app_count > arr_capacity a
           then Some (acl_array_grow a (arr_count a + nat app_count))
           else Some a)"

definition acl_array_create :: "int \<Rightarrow> 'a acl_array option" where
  "acl_array_create init_size =
     (let a = \<lparr>arr_items = [], arr_count = 0, arr_capacity = 0\<rparr>;
          init_size = (if init_size \<le> 0 then 100 else init_size)
      in acl_array_pre_append a init_size)"

definition acl_array_clean :: "'a acl_array \<Rightarrow> bool \<Rightarrow> 'a list \<times> 'a acl_array" where
  "acl_array_clean a free_fn =
     (case free_cells (arr_count a) 0 (arr_items a) of
        (fs, xs) \<Rightarrow> (if free_fn then fs else [], a\<lparr>arr_items := xs, arr_count := 0\<rparr>))"

definition acl_array_append :: "'a acl_array \<Rightarrow> 'a option \<Rightarrow> int \<times> 'a acl_array" where
  "acl_array_append a obj =
     (let a = (if arr_count a \<ge> arr_capacity a then acl_array_grow a (arr_count a + 16) else a)
      in (int (arr_count a),
          a\<lparr>arr_items := (arr_items a)[arr_count a := obj], arr_count := Suc (arr_count a)\<rparr>))"

definition acl_array_pred_insert ::
  "'a acl_array \<Rightarrow> int \<Rightarrow> 'a option \<Rightarrow> int \<times> 'a acl_array" where
  "acl_array_pred_insert a position obj =
     (if position < 0 \<or> position \<ge> int (arr_count a) then (-1, a)
      else
        let a = (if arr_count a \<ge> arr_capacity a then acl_array_grow a (arr_count a + 1) else a);
            xs = shift_up (nat position) (arr_count a) (arr_items a)
        in (position,
            a\<lparr>arr_items := xs[nat position := obj], arr_count := Suc (arr_count a)\<rparr>))"

definition acl_array_succ_insert ::
  "'a acl_array \<Rightarrow> int \<Rightarrow> 'a option \<Rightarrow> int \<times> 'a acl_array" where
  "acl_array_succ_insert a position obj =
     (if position < 0 \<or> position \<ge> int (arr_count a) then (-1, a)
      else
        let a = (if arr_count a \<ge> arr_capacity a then acl_array_grow a (arr_count a + 1) else a);
            position_succ = nat position + 1;
            xs = shift_up position_succ (arr_count a) (arr_items a)
        in (int position_succ,
            a\<lparr>arr_items := xs[position_succ := obj], arr_count := Suc (arr_count a)\<rparr>))"

definition acl_array_prepend :: "'a acl_array \<Rightarrow> 'a option \<Rightarrow> int \<times> 'a acl_array" where
  "acl_array_prepend a obj = acl_array_pred_insert a 0 obj"

definition freed :: "bool \<Rightarrow> 'a option \<Rightarrow> 'a list" where
  "freed free_fn obj = (if free_fn then (case obj of None \<Rightarrow> [] | Some x \<Rightarrow> [x]) else [])"

definition acl_array_delete_idx ::
  "'a acl_array \<Rightarrow> int \<Rightarrow> bool \<Rightarrow> int \<times> 'a list \<times> 'a acl_array" where
  "acl_array_delete_idx a position free_fn =
     (if position < 0 \<or> position \<ge> int (arr_count a) then (-1, [], a)
      else
        let fs = freed free_fn (arr_items a ! nat position);
            xs = (arr_items a)[nat position := None];
            xs = shift_down (nat position) (arr_count a - 1) xs
        in (0, fs, a\<lparr>arr_items := xs, arr_count := arr_count a - 1\<rparr>))"

definition acl_array_delete ::
  "'a acl_array \<Rightarrow> int \<Rightarrow> bool \<Rightarrow> int \<times> 'a list \<times> 'a acl_array" where
  "acl_array_delete a idx free_fn =
     (if idx < 0 \<or> idx \<ge> int (arr_count a) then (-1, [], a)
      else
        let fs = freed free_fn (arr_items a ! nat idx);
            n = arr_count a - 1;
            xs = (if n > 0 then (arr_items a)[nat idx := arr_items a ! n] else arr_items a)
        in (0, fs, a\<lparr>arr_items := xs, arr_count := n\<rparr>))"

text \<open>The search loop of \<open>acl_array_delete_obj\<close>: the first index below \<open>n\<close> that holds \<open>obj\<close>.\<close>

function find_obj :: "'a option list \<Rightarrow> 'a option \<Rightarrow> nat \<Rightarrow> nat \<Rightarrow> int" where
  "find_obj xs obj idx n =
     (if idx < n then if xs ! idx = obj then int idx else find_obj xs obj (Suc idx) n else -1)"
  by pat_completeness auto
termination
  by (relation "measure (\<lambda>(xs, obj, idx, n). n - idx)") auto

declare find_obj.simps [simp del]

definition acl_array_delete_obj ::
  "'a acl_array \<Rightarrow> 'a option \<Rightarrow> bool \<Rightarrow> int \<times> 'a list \<times> 'a acl_array" where
  "acl_array_delete_obj a obj free_fn =
     (let position = find_obj (arr_items a) obj 0 (arr_count a);
          fs = freed free_fn obj
      in if position = -1 then (-1, fs, a)
         else
           let a = a\<lparr>arr_items := (arr_items a)[nat position := None]\<rparr>
           in case acl_array_delete_idx a position False of
                (ret, _, a') \<Rightarrow> (if ret < 0 then -1 else ret, fs, a'))"

definition acl_array_delete_range ::
  "'a acl_array \<Rightarrow> int \<Rightarrow> int \<Rightarrow> bool \<Rightarrow> int \<times> 'a list \<times> 'a acl_array" where
  "acl_array_delete_range a ibegin iend free_fn =
     (if ibegin < 0 \<or> iend < 0 \<or> arr_count a = 0 then (-1, [], a)
      else if ibegin > iend then (-1, [], a)
      else
        let imax = int (arr_count a) - 1;
            iend = (if iend > imax then imax else iend);
            (fs, xs) = (if free_fn
              then free_cells (nat (iend - ibegin + 1)) (nat ibegin) (arr_items a)
              else ([], arr_items a));
            n = int (arr_count a) - (iend - ibegin + 1);
            xs = move_down (nat ibegin) (nat (iend + 1)) (nat (imax + 1)) xs
        in (0, fs, a\<lparr>arr_items := xs, arr_count := nat n\<rparr>))"

definition acl_array_mv_idx ::
  "'a acl_array \<Rightarrow> int \<Rightarrow> int \<Rightarrow> bool \<Rightarrow> int \<times> 'a list \<times> 'a acl_array" where
  "acl_array_mv_idx a ito ifrom free_fn =
     (if ito < 0 \<or> ifrom < 0 then (-1, [], a)
      else if arr_count a = 0 \<or> ito \<ge> ifrom \<or> ifrom \<ge> int (arr_count a) then (0, [], a)
      else
        let (fs, xs) = (if free_fn
              then free_cells (nat (ifrom - ito)) (nat ito) (arr_items a)
              else ([], arr_items a));
            xs = move_down (nat ito) (nat ifrom) (arr_count a) xs
        in (0, fs, a\<lparr>arr_items := xs, arr_count := arr_count a - nat (ifrom - ito)\<rparr>))"

definition acl_array_index :: "'a acl_array \<Rightarrow> int \<Rightarrow> 'a option" where
  "acl_array_index a idx =
     (if idx < 0 \<or> idx > int (arr_count a) - 1 then None else arr_items a ! nat idx)"

definition acl_array_size :: "'a acl_array \<Rightarrow> int" where
  "acl_array_size a = int (arr_count a)"

subsection \<open>The function pointers\<close>

definition array_push_back :: "'a acl_array \<Rightarrow> 'a option \<Rightarrow> 'a acl_array" where
  "array_push_back a obj = snd (acl_array_append a obj)"

definition array_push_front :: "'a acl_array \<Rightarrow> 'a option \<Rightarrow> 'a acl_array" where
  "array_push_front a obj = snd (acl_array_prepend a obj)"

definition array_pop_back :: "'a acl_array \<Rightarrow> 'a option \<times> 'a acl_array" where
  "array_pop_back a =
     (if arr_count a = 0 then (None, a)
      else
        let n = arr_count a - 1
        in (arr_items a ! n, a\<lparr>arr_count := n\<rparr>))"

definition array_pop_front :: "'a acl_array \<Rightarrow> 'a option \<times> 'a acl_array" where
  "array_pop_front a =
     (if arr_count a = 0 then (None, a)
      else
        let obj = arr_items a ! 0;
            n = arr_count a - 1
        in (obj, a\<lparr>arr_items := shift_down 0 n (arr_items a), arr_count := n\<rparr>))"

definition array_iter_head ::
  "('a, 'a) acl_iter \<Rightarrow> 'a acl_array \<Rightarrow> ('a, 'a) acl_iter" where
  "array_iter_head it a =
     (let p = (if arr_items a = [] \<or> arr_count a = 0 then None else arr_items a ! 0)
      in it\<lparr>it_dlen := -1, it_key := None, it_klen := 0, it_i := 0,
            it_size := int (arr_count a), it_ptr := p, it_data := p\<rparr>)"

definition array_iter_next ::
  "('a, 'a) acl_iter \<Rightarrow> 'a acl_array \<Rightarrow> ('a, 'a) acl_iter" where
  "array_iter_next it a =
     (let i = it_i it + 1;
          p = (if i \<ge> int (arr_count a) then None else arr_items a ! nat i)
      in it\<lparr>it_i := i, it_ptr := p, it_data := p\<rparr>)"

definition array_iter_tail ::
  "('a, 'a) acl_iter \<Rightarrow> 'a acl_array \<Rightarrow> ('a, 'a) acl_iter" where
  "array_iter_tail it a =
     (let i = int (arr_count a) - 1;
          p = (if arr_items a = [] \<or> i < 0 then None else arr_items a ! nat i)
      in it\<lparr>it_dlen := -1, it_key := None, it_klen := 0, it_i := i,
            it_size := int (arr_count a), it_ptr := p, it_data := p\<rparr>)"

definition array_iter_prev ::
  "('a, 'a) acl_iter \<Rightarrow> 'a acl_array \<Rightarrow> ('a, 'a) acl_iter" where
  "array_iter_prev it a =
     (let i = it_i it - 1;
          p = (if i < 0 then None else arr_items a ! nat i)
      in it\<lparr>it_i := i, it_ptr := p, it_data := p\<rparr>)"

subsection \<open>Freeing\<close>

text \<open>The objects that \<open>acl_array_free\<close> hands to \<open>free_fn\<close> before the array is gone.\<close>

definition acl_array_free :: "'a acl_array \<Rightarrow> bool \<Rightarrow> 'a list" where
  "acl_array_free a free_fn = fst (acl_array_clean a free_fn)"

section \<open>Well-formedness and the list of elements\<close>

lemma array_okD:
  "array_ok a \<Longrightarrow> length (arr_items a) = arr_capacity a"
  "array_ok a \<Longrightarrow> arr_count a \<le> arr_capacity a"
  by (simp_all add: array_ok_def)

lemma length_array_seq [simp]: "array_ok a \<Longrightarrow> length (array_seq a) = arr_count a"
  by (simp add: array_seq_def array_ok_def)

lemma nth_array_seq: "i < arr_count a \<Longrightarrow> array_seq a ! i = arr_items a ! i"
  by (simp add: array_seq_def)

lemma grow_delta: "(m::nat) \<le> (m + 15) div 16 * 16"
  by presburger

lemma array_grow [simp]:
  assumes "array_ok a"
  shows "array_ok (acl_array_grow a m)" "arr_count (acl_array_grow a m) = arr_count a"
    "array_seq (acl_array_grow a m) = array_seq a" "m \<le> arr_capacity (acl_array_grow a m)"
  using assms grow_delta [of m] by (auto simp: acl_array_grow_def array_ok_def array_seq_def Let_def)

text \<open>The array that an insertion works on, after its call of \<open>acl_array_grow\<close>.\<close>

abbreviation array_room :: "'a acl_array \<Rightarrow> nat \<Rightarrow> 'a acl_array" where
  "array_room a k \<equiv> (if arr_count a \<ge> arr_capacity a then acl_array_grow a (arr_count a + k) else a)"

lemma array_room_facts:
  assumes "array_ok a" "0 < k"
  shows "array_ok (array_room a k)" "arr_count (array_room a k) = arr_count a"
    "array_seq (array_room a k) = array_seq a"
    "arr_count a < length (arr_items (array_room a k))"
proof -
  have "arr_count a < arr_capacity (acl_array_grow a (arr_count a + k))"
    using array_grow(4) [OF assms(1), of "arr_count a + k"] assms(2) by linarith
  then show "arr_count a < length (arr_items (array_room a k))"
    using array_grow(1) [OF assms(1), of "arr_count a + k"] assms(1)
    by (auto simp: array_ok_def)
qed (use assms in simp_all)

lemma acl_array_append:
  assumes "array_ok a"
  shows "array_ok (snd (acl_array_append a obj))"
    "array_seq (snd (acl_array_append a obj)) = array_seq a @ [obj]"
    "fst (acl_array_append a obj) = int (arr_count a)"
  using array_room_facts [OF assms, of 16]
  by (auto simp: acl_array_append_def Let_def array_ok_def array_seq_def take_Suc_conv_app_nth
      split del: if_split)

lemma acl_array_pred_insert_out:
  "position < 0 \<or> int (arr_count a) \<le> position \<Longrightarrow> acl_array_pred_insert a position obj = (-1, a)"
  by (auto simp: acl_array_pred_insert_def)

lemma acl_array_pred_insert:
  assumes "array_ok a" "0 \<le> position" "position < int (arr_count a)"
  shows "array_ok (snd (acl_array_pred_insert a position obj))"
    "array_seq (snd (acl_array_pred_insert a position obj))
      = take (nat position) (array_seq a) @ obj # drop (nat position) (array_seq a)"
    "fst (acl_array_pred_insert a position obj) = position"
  using array_room_facts [OF assms(1), of 1] assms
  by (auto simp: acl_array_pred_insert_def Let_def array_ok_def array_seq_def shift_up_insert
      split del: if_split)

lemma acl_array_succ_insert:
  assumes "array_ok a" "0 \<le> position" "position < int (arr_count a)"
  shows "array_ok (snd (acl_array_succ_insert a position obj))"
    "array_seq (snd (acl_array_succ_insert a position obj))
      = take (Suc (nat position)) (array_seq a) @ obj # drop (Suc (nat position)) (array_seq a)"
    "fst (acl_array_succ_insert a position obj) = position + 1"
  using array_room_facts [OF assms(1), of 1] assms
  by (auto simp: acl_array_succ_insert_def Let_def array_ok_def array_seq_def shift_up_insert
      split del: if_split)

lemma acl_array_delete_idx:
  assumes "array_ok a" "0 \<le> position" "position < int (arr_count a)"
  shows "array_ok (snd (snd (acl_array_delete_idx a position free_fn)))"
    "array_seq (snd (snd (acl_array_delete_idx a position free_fn)))
      = take (nat position) (array_seq a) @ drop (Suc (nat position)) (array_seq a)"
    "fst (acl_array_delete_idx a position free_fn) = 0"
    "fst (snd (acl_array_delete_idx a position free_fn))
      = freed free_fn (array_seq a ! nat position)"
  using assms
  by (auto simp: acl_array_delete_idx_def Let_def array_ok_def array_seq_def shift_down_delete
      drop_update_cancel drop_take)

lemma acl_array_delete:
  assumes "array_ok a" "0 \<le> idx" "idx < int (arr_count a)"
  shows "array_ok (snd (snd (acl_array_delete a idx free_fn)))"
    "array_seq (snd (snd (acl_array_delete a idx free_fn)))
      = butlast ((array_seq a)[nat idx := last (array_seq a)])"
proof -
  from assms have n: "0 < arr_count a" "arr_count a \<le> length (arr_items a)" "nat idx < arr_count a"
    by (auto simp: array_ok_def)
  show "array_ok (snd (snd (acl_array_delete a idx free_fn)))"
    using assms by (auto simp: acl_array_delete_def Let_def array_ok_def)
  have last: "last (array_seq a) = arr_items a ! (arr_count a - 1)"
    using n by (subst last_conv_nth) (auto simp: array_seq_def min_def)
  show "array_seq (snd (snd (acl_array_delete a idx free_fn)))
      = butlast ((array_seq a)[nat idx := last (array_seq a)])"
    unfolding last using assms n
    by (auto simp: acl_array_delete_def Let_def array_seq_def butlast_take butlast_conv_take
        simp flip: take_update_swap)
qed

lemma acl_array_index:
  "array_ok a \<Longrightarrow> acl_array_index a idx =
     (if 0 \<le> idx \<and> idx < int (arr_count a) then array_seq a ! nat idx else None)"
  by (auto simp: acl_array_index_def nth_array_seq)

lemma acl_array_size: "array_ok a \<Longrightarrow> acl_array_size a = int (length (array_seq a))"
  by (simp add: acl_array_size_def)

lemma acl_array_create:
  "\<exists>a. acl_array_create n = Some a \<and> array_ok a \<and> array_seq a = [] \<and> int (arr_capacity a) \<ge> n"
proof -
  let ?e = "\<lparr>arr_items = [], arr_count = 0, arr_capacity = 0\<rparr> :: 'a acl_array"
  have ok: "array_ok ?e" and seq: "array_seq ?e = []"
    by (simp_all add: array_ok_def array_seq_def)
  have "n \<le> int (arr_capacity (acl_array_grow ?e (nat n)))"
    using array_grow(4) [OF ok, of "nat n"] by linarith
  with ok seq show ?thesis
    by (auto simp: acl_array_create_def acl_array_pre_append_def)
qed

lemma acl_array_clean:
  assumes "array_ok a"
  shows "array_ok (snd (acl_array_clean a free_fn))" "array_seq (snd (acl_array_clean a free_fn)) = []"
    "fst (acl_array_clean a free_fn) = (if free_fn then List.map_filter id (array_seq a) else [])"
  using assms by (auto simp: acl_array_clean_def array_ok_def array_seq_def free_cells_eq)


subsection \<open>Cutting a range out\<close>

text \<open>What \<open>acl_array_delete_range\<close> and \<open>acl_array_mv_idx\<close> both come down to: cells
  \<open>b .. e - 1\<close> go, the rest moves down.\<close>

definition array_cut :: "bool \<Rightarrow> nat \<Rightarrow> nat \<Rightarrow> 'a acl_array \<Rightarrow> 'a list \<times> 'a acl_array" where
  "array_cut free_fn b e a =
     (let (fs, xs) = (if free_fn then free_cells (e - b) b (arr_items a) else ([], arr_items a))
      in (fs, a\<lparr>arr_items := move_down b e (arr_count a) xs, arr_count := b + (arr_count a - e)\<rparr>))"

lemma cut_free_cells:
  assumes "b \<le> e" "e \<le> n" "n \<le> length xs"
  shows "take b (snd (free_cells (e - b) b xs)) = take b xs"
    "drop e (take n (snd (free_cells (e - b) b xs))) = drop e (take n xs)"
    "length (snd (free_cells (e - b) b xs)) = length xs"
  using assms by (auto simp: free_cells_eq drop_take)

lemma array_cut:
  assumes "array_ok a" "b \<le> e" "e \<le> arr_count a"
  shows "array_ok (snd (array_cut free_fn b e a))"
    "array_seq (snd (array_cut free_fn b e a)) = take b (array_seq a) @ drop e (array_seq a)"
    "fst (array_cut free_fn b e a)
      = (if free_fn then List.map_filter id (take (e - b) (drop b (array_seq a))) else [])"
proof -
  have n: "arr_count a \<le> length (arr_items a)" using assms by (simp add: array_ok_def)
  note cut = cut_free_cells [OF assms(2,3) n]
  show "array_ok (snd (array_cut free_fn b e a))"
    using assms cut by (auto simp: array_cut_def array_ok_def split_beta Let_def)
  show "array_seq (snd (array_cut free_fn b e a)) = take b (array_seq a) @ drop e (array_seq a)"
    using move_down_delete [of b e "arr_count a" "arr_items a"]
      move_down_delete [of b e "arr_count a" "snd (free_cells (e - b) b (arr_items a))"] assms n cut
    by (auto simp: array_cut_def array_seq_def split_beta Let_def)
  have "b + (e - b) \<le> length (arr_items a)" using assms n by simp
  then show "fst (array_cut free_fn b e a)
      = (if free_fn then List.map_filter id (take (e - b) (drop b (array_seq a))) else [])"
    using assms by (auto simp: array_cut_def array_seq_def free_cells_eq drop_take min_absorb1)
qed

lemma acl_array_delete_range_cut:
  assumes "0 \<le> ibegin" "ibegin \<le> iend" "ibegin < int (arr_count a)"
  shows "acl_array_delete_range a ibegin iend free_fn
    = (0, array_cut free_fn (nat ibegin) (min (nat (iend + 1)) (arr_count a)) a)"
proof -
  let ?m = "if iend > int (arr_count a) - 1 then int (arr_count a) - 1 else iend"
  define e where "e = min (nat (iend + 1)) (arr_count a)"
  have "nat (?m + 1) = e" "nat (?m - ibegin + 1) = e - nat ibegin"
    "nat (int (arr_count a) - (?m - ibegin + 1)) = nat ibegin + (arr_count a - e)"
    "nat (int (arr_count a) - 1 + 1) = arr_count a"
    "\<not> (ibegin < 0 \<or> iend < 0 \<or> arr_count a = 0)" "\<not> ibegin > iend"
    using assms by (auto simp: e_def)
  then show ?thesis
    unfolding acl_array_delete_range_def array_cut_def Let_def e_def [symmetric]
    by (simp only: if_False split_beta fst_conv snd_conv)
qed

lemma acl_array_mv_idx_cut:
  assumes "0 \<le> ito" "ito < ifrom" "ifrom < int (arr_count a)"
  shows "acl_array_mv_idx a ito ifrom free_fn = (0, array_cut free_fn (nat ito) (nat ifrom) a)"
proof -
  have "nat (ifrom - ito) = nat ifrom - nat ito"
    "arr_count a - (nat ifrom - nat ito) = nat ito + (arr_count a - nat ifrom)"
    "\<not> (ito < 0 \<or> ifrom < 0)" "\<not> (arr_count a = 0 \<or> ito \<ge> ifrom \<or> ifrom \<ge> int (arr_count a))"
    using assms by auto
  then show ?thesis
    unfolding acl_array_mv_idx_def array_cut_def Let_def
    by (simp only: if_False split_beta fst_conv snd_conv)
qed

subsection \<open>Searching and popping\<close>

lemma find_obj_bounds:
  "find_obj xs obj i n = int k \<Longrightarrow> i \<le> k \<and> k < n \<and> xs ! k = obj"
proof (induction xs obj i n rule: find_obj.induct)
  case (1 xs obj i n)
  from "1.prems" show ?case
    by (subst (asm) find_obj.simps) (auto dest: "1.IH" split: if_splits)
qed

lemma find_obj_cases: "find_obj xs obj i n = -1 \<or> (\<exists>k. find_obj xs obj i n = int k)"
proof (induction xs obj i n rule: find_obj.induct)
  case (1 xs obj i n)
  then show ?case by (subst (1 2) find_obj.simps) auto
qed

lemma find_obj_remove1:
  "n \<le> length xs \<Longrightarrow>
   (case find_obj xs obj i n of p \<Rightarrow>
     if p = -1 then obj \<notin> set (drop i (take n xs))
     else remove1 obj (drop i (take n xs))
       = take (nat p - i) (drop i (take n xs)) @ drop (Suc (nat p)) (take n xs))"
proof (induction xs obj i n rule: find_obj.induct)
  case (1 xs obj i n)
  show ?case
  proof (cases "i < n \<and> xs ! i \<noteq> obj")
    case True
    with "1.prems" have dr: "drop i (take n xs) = xs ! i # drop (Suc i) (take n xs)"
      by (simp add: Cons_nth_drop_Suc [symmetric])
    from True have eq: "find_obj xs obj i n = find_obj xs obj (Suc i) n"
      by (subst find_obj.simps) simp
    from find_obj_cases [of xs obj "Suc i" n] show ?thesis
    proof
      assume "\<exists>k. find_obj xs obj (Suc i) n = int k"
      then obtain k where k: "find_obj xs obj (Suc i) n = int k" by blast
      from find_obj_bounds [OF k] have "k - i = Suc (k - Suc i)" by auto
      with 1 True dr k show ?thesis unfolding eq by auto
    qed (use 1 True dr in \<open>auto simp: eq\<close>)
  next
    case False
    then have "find_obj xs obj i n = (if i < n then int i else -1)"
      by (subst find_obj.simps) auto
    with "1.prems" False show ?thesis
      by (auto simp: Cons_nth_drop_Suc [symmetric])
  qed
qed

lemma acl_array_delete_obj:
  assumes "array_ok a"
  shows "array_ok (snd (snd (acl_array_delete_obj a obj free_fn)))"
    "array_seq (snd (snd (acl_array_delete_obj a obj free_fn))) = remove1 obj (array_seq a)"
    "fst (acl_array_delete_obj a obj free_fn) = (if obj \<in> set (array_seq a) then 0 else -1)"
proof -
  have n: "arr_count a \<le> length (arr_items a)" using assms by (simp add: array_ok_def)
  note rm = find_obj_remove1 [OF n, of obj 0]
  have "array_ok (snd (snd (acl_array_delete_obj a obj free_fn))) \<and>
    array_seq (snd (snd (acl_array_delete_obj a obj free_fn))) = remove1 obj (array_seq a) \<and>
    fst (acl_array_delete_obj a obj free_fn) = (if obj \<in> set (array_seq a) then 0 else -1)"
    using find_obj_cases [of "arr_items a" obj 0 "arr_count a"]
  proof
    assume "find_obj (arr_items a) obj 0 (arr_count a) = -1"
    with rm assms show ?thesis
      by (simp add: acl_array_delete_obj_def array_seq_def remove1_idem)
  next
    assume "\<exists>k. find_obj (arr_items a) obj 0 (arr_count a) = int k"
    then obtain k where k: "find_obj (arr_items a) obj 0 (arr_count a) = int k" by blast
    from find_obj_bounds [OF k] n have kn: "k < arr_count a" "arr_items a ! k = obj"
      "array_seq a ! k = obj" by (simp_all add: nth_array_seq)
    then have mem: "obj \<in> set (array_seq a)"
      using assms by (metis length_array_seq nth_mem)
    let ?b = "a\<lparr>arr_items := (arr_items a)[k := None]\<rparr>"
    have ok: "array_ok ?b" "k < arr_count ?b" using assms kn by (simp_all add: array_ok_def)
    have "take k (array_seq ?b) @ drop (Suc k) (array_seq ?b) = remove1 obj (array_seq a)"
      using rm k kn by (simp add: array_seq_def take_update_swap list_update_beyond)
    with ok k mem show ?thesis
      using acl_array_delete_idx [OF ok(1), of "int k" False]
      by (simp add: acl_array_delete_obj_def split_beta Let_def)
  qed
  then show "array_ok (snd (snd (acl_array_delete_obj a obj free_fn)))"
    "array_seq (snd (snd (acl_array_delete_obj a obj free_fn))) = remove1 obj (array_seq a)"
    "fst (acl_array_delete_obj a obj free_fn) = (if obj \<in> set (array_seq a) then 0 else -1)"
    by blast+
qed

lemma array_pop_back:
  assumes "array_ok a"
  shows "array_ok (snd (array_pop_back a))"
    "array_seq (snd (array_pop_back a)) = butlast (array_seq a)"
    "fst (array_pop_back a) = (if array_seq a = [] then None else last (array_seq a))"
  using assms
  by (auto simp: array_pop_back_def array_ok_def array_seq_def butlast_take last_conv_nth Let_def min_def)

lemma array_pop_front:
  assumes "array_ok a"
  shows "array_ok (snd (array_pop_front a))"
    "array_seq (snd (array_pop_front a)) = tl (array_seq a)"
    "fst (array_pop_front a) = (if array_seq a = [] then None else hd (array_seq a))"
  using assms
  by (auto simp: array_pop_front_def array_ok_def array_seq_def shift_down_delete hd_conv_nth
      Let_def drop_Suc tl_take)

section \<open>The interfaces\<close>

text \<open>As a queue of objects: no cell in use is NULL.\<close>

definition array_full :: "'a acl_array \<Rightarrow> bool" where
  "array_full a \<longleftrightarrow> array_ok a \<and> None \<notin> set (array_seq a)"

definition array_objs :: "'a acl_array \<Rightarrow> 'a list" where
  "array_objs a = map the (array_seq a)"

lemma array_objs_hd: "array_full a \<Longrightarrow> array_seq a = x # xs \<Longrightarrow> x = Some (the x)"
  by (cases x) (auto simp: array_full_def)

interpretation array_queue: back_queue "\<lambda>a x. array_push_back a (Some x)"
  array_pop_back array_pop_front array_objs array_full
proof unfold_locales
  fix s :: "'a acl_array" and x
  assume full: "array_full s"
  then have ok: "array_ok s" by (simp add: array_full_def)
  note pops = array_pop_back [OF ok] array_pop_front [OF ok]
  show "array_full (array_push_back s (Some x))"
    using full ok by (simp add: array_full_def array_push_back_def acl_array_append)
  show "array_objs (array_push_back s (Some x)) = list_push_back (array_objs s) x"
    using ok by (simp add: array_objs_def array_push_back_def acl_array_append list_push_back_def)
  show "array_full (snd (array_pop_back s))"
    using full pops by (auto simp: array_full_def dest: in_set_butlastD)
  show "array_full (snd (array_pop_front s))"
    using full pops by (cases "array_seq s") (auto simp: array_full_def)
  show "map_prod id array_objs (array_pop_front s) = list_pop_front (array_objs s)"
    using full pops by (cases "array_seq s")
      (auto simp: array_objs_def list_pop_front_def map_prod_def split_beta dest: array_objs_hd)
  have "last (array_seq s) = Some (the (last (array_seq s)))" if "array_seq s \<noteq> []"
    using full that by (metis array_full_def last_in_set option.collapse)
  then show "map_prod id array_objs (array_pop_back s) = list_pop_back (array_objs s)"
    using pops by (auto simp: array_objs_def list_pop_back_def map_prod_def split_beta last_map map_butlast)
qed

definition array_iter_at :: "'a acl_array \<Rightarrow> nat \<Rightarrow> ('a, 'a) acl_iter \<Rightarrow> bool" where
  "array_iter_at a n it \<longleftrightarrow>
     it_i it = int n \<and> it_ptr it = (if n < arr_count a then arr_items a ! n else None)"

definition array_riter_at :: "'a acl_array \<Rightarrow> nat \<Rightarrow> ('a, 'a) acl_iter \<Rightarrow> bool" where
  "array_riter_at a n it \<longleftrightarrow>
     it_i it = int (arr_count a) - 1 - int n \<and>
     it_ptr it = (if n < arr_count a then arr_items a ! (arr_count a - 1 - n) else None)"

lemma array_full_nth:
  "array_full a \<Longrightarrow> n < arr_count a \<Longrightarrow> arr_items a ! n = Some (array_objs a ! n)"
  unfolding array_full_def array_objs_def
  by (metis length_array_seq nth_array_seq nth_map nth_mem option.collapse)

lemma length_array_objs [simp]: "array_full a \<Longrightarrow> length (array_objs a) = arr_count a"
  by (simp add: array_full_def array_objs_def)

lemma array_full_items: "array_full a \<Longrightarrow> 0 < arr_count a \<Longrightarrow> arr_items a \<noteq> []"
  by (auto simp: array_full_def array_ok_def)

interpretation array_iter: iteration array_iter_head array_iter_next array_objs array_full array_iter_at
  by unfold_locales
    (auto simp: array_iter_head_def array_iter_next_def array_iter_at_def Let_def array_full_nth
      nat_add_distrib dest: array_full_items)

interpretation array_riter: iteration array_iter_tail array_iter_prev "\<lambda>a. rev (array_objs a)"
  array_full array_riter_at
  by unfold_locales
    (auto simp: array_iter_tail_def array_iter_prev_def array_riter_at_def Let_def array_full_nth
      rev_nth nat_diff_distrib dest: array_full_items intro!: arg_cong [where f = "nth (arr_items _)"])

section \<open>The array as a list of objects\<close>

text \<open>The same facts for arrays without NULL cells, as the components built on the array use
  them.\<close>

lemma array_full_ok: "array_full a \<Longrightarrow> array_ok a"
  by (simp add: array_full_def)

lemma array_size_objs: "array_full a \<Longrightarrow> acl_array_size a = int (length (array_objs a))"
  by (simp add: acl_array_size_def)

lemma array_index_objs:
  "array_full a \<Longrightarrow> acl_array_index a idx =
     (if 0 \<le> idx \<and> idx < int (length (array_objs a)) then Some (array_objs a ! nat idx) else None)"
  by (auto simp: acl_array_index array_full_ok array_full_nth nth_array_seq)

lemma array_objs_update:
  assumes "array_full a"
  shows "array_full (a\<lparr>arr_items := (arr_items a)[k := Some x]\<rparr>)"
    "array_objs (a\<lparr>arr_items := (arr_items a)[k := Some x]\<rparr>) = (array_objs a)[k := x]"
  using assms
  by (auto simp: array_full_def array_objs_def array_ok_def array_seq_def take_update_swap map_update
      dest!: set_update_subset_insert [THEN subsetD])

lemma array_append_objs [acl_seq]:
  assumes "array_full a"
  shows "array_full (snd (acl_array_append a (Some x)))"
    "array_objs (snd (acl_array_append a (Some x))) = array_objs a @ [x]"
    "fst (acl_array_append a (Some x)) = int (length (array_objs a))"
  using assms acl_array_append [of a "Some x"] by (auto simp: array_full_def array_objs_def)

lemma array_pred_insert_objs [acl_seq]:
  assumes "array_full a" "k < length (array_objs a)"
  shows "array_full (snd (acl_array_pred_insert a (int k) (Some x)))"
    "array_objs (snd (acl_array_pred_insert a (int k) (Some x)))
      = take k (array_objs a) @ x # drop k (array_objs a)"
    "fst (acl_array_pred_insert a (int k) (Some x)) = int k"
  using assms acl_array_pred_insert [of a "int k" "Some x"]
  by (auto simp: array_full_def array_objs_def take_map drop_map dest: in_set_takeD in_set_dropD)

lemma array_succ_insert_objs [acl_seq]:
  assumes "array_full a" "k < length (array_objs a)"
  shows "array_full (snd (acl_array_succ_insert a (int k) (Some x)))"
    "array_objs (snd (acl_array_succ_insert a (int k) (Some x)))
      = take (Suc k) (array_objs a) @ x # drop (Suc k) (array_objs a)"
    "fst (acl_array_succ_insert a (int k) (Some x)) = int k + 1"
  using assms acl_array_succ_insert [of a "int k" "Some x"]
  by (auto simp: array_full_def array_objs_def take_map drop_map dest: in_set_takeD in_set_dropD)

lemma array_delete_idx_objs [acl_seq]:
  assumes "array_full a" "k < length (array_objs a)"
  shows "array_full (snd (snd (acl_array_delete_idx a (int k) fr)))"
    "array_objs (snd (snd (acl_array_delete_idx a (int k) fr)))
      = take k (array_objs a) @ drop (Suc k) (array_objs a)"
  using assms acl_array_delete_idx [of a "int k" fr]
  by (auto simp: array_full_def array_objs_def take_map drop_map dest: in_set_takeD in_set_dropD)

lemma array_cut_objs:
  assumes "array_full a" "b \<le> e" "e \<le> length (array_objs a)"
  shows "array_full (snd (array_cut fr b e a))"
    "array_objs (snd (array_cut fr b e a)) = take b (array_objs a) @ drop e (array_objs a)"
  using assms array_cut [of a b e fr]
  by (auto simp: array_full_def array_objs_def take_map drop_map dest: in_set_takeD in_set_dropD)

lemma array_mv_idx_objs [acl_seq]:
  assumes "array_full a" "i < j" "j < length (array_objs a)"
  shows "array_full (snd (snd (acl_array_mv_idx a (int i) (int j) fr)))"
    "array_objs (snd (snd (acl_array_mv_idx a (int i) (int j) fr)))
      = take i (array_objs a) @ drop j (array_objs a)"
    "fst (acl_array_mv_idx a (int i) (int j) fr) = 0"
  using assms array_cut_objs [of a i j fr] by (simp_all add: acl_array_mv_idx_cut)

lemma array_delete_range_objs [acl_seq]:
  assumes "array_full a" "i \<le> j" "j < length (array_objs a)"
  shows "array_full (snd (snd (acl_array_delete_range a (int i) (int j) fr)))"
    "array_objs (snd (snd (acl_array_delete_range a (int i) (int j) fr)))
      = take i (array_objs a) @ drop (Suc j) (array_objs a)"
    "fst (acl_array_delete_range a (int i) (int j) fr) = 0"
  using assms array_cut_objs [of a i "Suc j" fr]
  by (simp_all add: acl_array_delete_range_cut nat_add_distrib min_absorb1)

lemma array_delete_obj_objs [acl_seq]:
  assumes "array_full a"
  shows "array_full (snd (snd (acl_array_delete_obj a (Some x) fr)))"
    "array_objs (snd (snd (acl_array_delete_obj a (Some x) fr))) = remove1 x (array_objs a)"
    "fst (acl_array_delete_obj a (Some x) fr) = (if x \<in> set (array_objs a) then 0 else -1)"
proof -
  have ok: "array_ok a" and nn: "None \<notin> set (array_seq a)"
    using assms by (auto simp: array_full_def)
  have rm: "map the (remove1 (Some x) xs) = remove1 x (map the xs)" "Some x \<in> set xs \<longleftrightarrow> x \<in> the ` set xs"
    if "None \<notin> set xs" for xs :: "'a option list"
    using that by (induction xs) (auto simp: image_iff)
  show "array_full (snd (snd (acl_array_delete_obj a (Some x) fr)))"
    using acl_array_delete_obj [OF ok, of "Some x" fr] nn
    by (auto simp: array_full_def dest: set_remove1_subset [THEN subsetD])
  show "array_objs (snd (snd (acl_array_delete_obj a (Some x) fr))) = remove1 x (array_objs a)"
    "fst (acl_array_delete_obj a (Some x) fr) = (if x \<in> set (array_objs a) then 0 else -1)"
    using acl_array_delete_obj [OF ok, of "Some x" fr] rm [OF nn] by (simp_all add: array_objs_def)
qed

section \<open>Properties\<close>

text \<open>C33: the array's function pointers implement a list: on a fresh array, whatever its
  initial size, every run of \<open>push_back\<close>, \<open>pop_back\<close> and \<open>pop_front\<close> returns exactly what
  the same run returns on the empty list.\<close>

theorem array_runs_as_list:
  assumes "acl_array_create n = Some a" "list_all back_only ops"
  shows "fst (seq_run (\<lambda>a x. array_push_back a (Some x)) (\<lambda>a x. array_push_front a (Some x))
      array_pop_back array_pop_front a ops) = fst (list_run [] ops)"
proof -
  have "array_ok a" "array_seq a = []"
    using acl_array_create [of n, where 'a = 'a] assms(1) by auto
  then have "array_full a" "array_objs a = []" by (simp_all add: array_full_def array_objs_def)
  with array_queue.back_run_results [OF _ assms(2)] show ?thesis by metis
qed

theorem array_runs_as_list_witness:
  "\<exists>a. acl_array_create 1 = Some a \<and>
     fst (seq_run (\<lambda>a x. array_push_back a (Some x)) (\<lambda>a x. array_push_front a (Some x))
       array_pop_back array_pop_front a [PushBack (1::nat), PushBack 2, PopFront, PopBack, PopBack])
     = [Some 1, Some 2, None]"
proof -
  obtain a :: "nat acl_array" where a: "acl_array_create 1 = Some a"
    using acl_array_create [of 1] by blast
  show ?thesis
    using array_runs_as_list [OF a, of "[PushBack 1, PushBack 2, PopFront, PopBack, PopBack]"] a
    by (simp add: list_push_back_def list_pop_front_def list_pop_back_def)
qed

text \<open>\<open>acl_array_pred_insert\<close> puts the object before the given position, keeps every
  other object in order, growing the cells when they are all in use, and returns the position;
  a position outside the array is refused with -1 and leaves the array as it was.\<close>

theorem array_pred_insert_places:
  assumes "array_ok a"
  shows "case acl_array_pred_insert a position obj of (ret, b) \<Rightarrow>
    if 0 \<le> position \<and> position < acl_array_size a
    then ret = position \<and> array_ok b \<and>
      array_seq b = take (nat position) (array_seq a) @ obj # drop (nat position) (array_seq a)
    else ret = -1 \<and> b = a"
  using acl_array_pred_insert [OF assms, of position obj] acl_array_pred_insert_out [of position a obj]
  by (cases "acl_array_pred_insert a position obj") (auto simp: acl_array_size_def)

definition array_sample :: "nat acl_array" where
  "array_sample = \<lparr>arr_items = [Some 10, Some 20], arr_count = 2, arr_capacity = 2\<rparr>"

theorem array_pred_insert_places_witness:
  "array_seq (snd (acl_array_pred_insert array_sample 1 (Some 15))) = [Some 10, Some 15, Some 20]"
  using array_pred_insert_places [of array_sample 1 "Some 15"]
  by (simp add: array_sample_def array_ok_def array_seq_def acl_array_size_def split_beta)

text \<open>\<open>acl_array_delete_obj\<close> removes the first cell that holds the object and returns 0,
  or returns -1 and leaves the array as it was when no cell does; the object goes to
  \<open>free_fn\<close> in both cases.\<close>

theorem array_delete_obj_first:
  assumes "array_ok a"
  shows "case acl_array_delete_obj a (Some x) True of (ret, fs, b) \<Rightarrow>
    array_ok b \<and> array_seq b = remove1 (Some x) (array_seq a) \<and> fs = [x] \<and>
    ret = (if Some x \<in> set (array_seq a) then 0 else -1)"
proof -
  have "fst (snd (acl_array_delete_obj a (Some x) True)) = [x]"
    by (simp add: acl_array_delete_obj_def freed_def Let_def split_beta)
  with acl_array_delete_obj [OF assms, of "Some x" True] show ?thesis
    by (cases "acl_array_delete_obj a (Some x) True") (auto simp: split_beta)
qed

theorem array_delete_obj_first_witness:
  "fst (acl_array_delete_obj array_sample (Some 10) True) = 0 \<and>
   array_seq (snd (snd (acl_array_delete_obj array_sample (Some 10) True))) = [Some 20]"
  using array_delete_obj_first [of array_sample 10]
  by (simp add: array_sample_def array_ok_def array_seq_def split_beta)

end
