(* ===== verification/Acl_Dlink.thy ===== *)
theory Acl_Dlink
  imports Acl_Array
begin

text \<open>
  The sorted chain of disjoint ranges of \<^verbatim>\<open>acllib/src/stdlib/common/acl_dlink.c\<close>, built on
  the pointer array of \<open>Acl_Array\<close>. An \<open>ACL_DITEM\<close> is reached only through the array,
  so the array cell holds the item itself and a write through an item pointer is an update
  of its cell. Range ends (\<open>acl_int64\<close>) are integers; the sums \<open>end + 1\<close> with which
  \<open>dlink_add\<close> looks for a neighbour wrap at 64 bits (\<open>succ64\<close>). The differences and sums
  of \<open>acl_dlink_delete_range\<close> cannot overflow on 64-bit arguments: each \<open>e + 1\<close> is taken
  where \<open>e\<close> is below an end or a begin of an item, each \<open>b - 1\<close> where \<open>b\<close> is above one. The lemmas
  on additions ask that no range ends at the last 64-bit number (\<open>dlink_small\<close>), and
  \<open>dlink_int64_max\<close> shows what happens to the chain otherwise.
  \<open>dlink_ok\<close> is the order the searches rely on; \<open>dlink_set\<close> is the set of numbers the
  chain covers.
\<close>

record 'p ditem =
  di_begin :: int
  di_end :: int
  di_pnode :: "'p option"

type_synonym 'p acl_dlink = "'p ditem acl_array"

definition dlink_item :: "'p acl_dlink \<Rightarrow> int \<Rightarrow> 'p ditem" where
  "dlink_item a idx = the (acl_array_index a idx)"

definition dlink_write :: "'p acl_dlink \<Rightarrow> int \<Rightarrow> 'p ditem \<Rightarrow> 'p acl_dlink" where
  "dlink_write a idx p = a\<lparr>arr_items := (arr_items a)[nat idx := Some p]\<rparr>"

definition new_ditem :: "int \<Rightarrow> int \<Rightarrow> 'p ditem" where
  "new_ditem b e = \<lparr>di_begin = b, di_end = e, di_pnode = None\<rparr>"

section \<open>Where a number belongs\<close>

function scope_loop :: "'p acl_dlink \<Rightarrow> int \<Rightarrow> int \<Rightarrow> int \<Rightarrow> int" where
  "scope_loop a n lidx hidx =
     (if lidx \<le> hidx then
        let midx = (lidx + hidx) div 2; ridx = midx + 1 in
        if ridx > hidx then
          (if hidx = 0 then 0
           else if hidx = acl_array_size a - 1 then acl_array_size a - 1
           else -1)
        else
          let left = dlink_item a midx; right = dlink_item a ridx in
          if n \<ge> di_begin left \<and> n < di_begin right then midx
          else if n \<ge> di_begin right then scope_loop a n ridx hidx
          else if n < di_begin left then scope_loop a n lidx midx
          else -1
      else 0)"
  by pat_completeness auto
termination
  by (relation "measure (\<lambda>(a, n, lidx, hidx). nat (hidx - lidx))") auto

declare scope_loop.simps [simp del]

definition scope_pos :: "'p acl_dlink \<Rightarrow> int \<Rightarrow> int" where
  "scope_pos a n = scope_loop a n 0 (acl_array_size a - 1)"

definition begin_pos :: "'p acl_dlink \<Rightarrow> int \<Rightarrow> int" where
  "begin_pos a n = scope_pos a n"

definition end_pos :: "'p acl_dlink \<Rightarrow> int \<Rightarrow> int" where
  "end_pos a n = scope_pos a n"

section \<open>Adding a range\<close>

text \<open>The results are the item returned (\<open>None\<close> for NULL) and the chain.\<close>

definition dlink_succ_insert ::
  "'p acl_dlink \<Rightarrow> int \<Rightarrow> int \<Rightarrow> int \<Rightarrow> 'p ditem option \<times> 'p acl_dlink" where
  "dlink_succ_insert a idx b e =
     (let pitem = new_ditem b e;
          (ret, a') = acl_array_succ_insert a idx (Some pitem)
      in if ret < 0 then (None, a') else (Some pitem, a'))"

definition dlink_append :: "'p acl_dlink \<Rightarrow> int \<Rightarrow> int \<Rightarrow> 'p ditem option \<times> 'p acl_dlink" where
  "dlink_append a b e =
     (let pitem = new_ditem b e;
          (ret, a') = acl_array_append a (Some pitem)
      in if ret < 0 then (None, a') else (Some pitem, a'))"

definition dlink_prepend :: "'p acl_dlink \<Rightarrow> int \<Rightarrow> int \<Rightarrow> 'p ditem option \<times> 'p acl_dlink" where
  "dlink_prepend a b e =
     (let pitem = new_ditem b e;
          (ret, a') = acl_array_prepend a (Some pitem)
      in if ret < 0 then (None, a') else (Some pitem, a'))"

definition dlink_node_merge :: "'p acl_dlink \<Rightarrow> int \<Rightarrow> int \<Rightarrow> int \<times> 'p acl_dlink" where
  "dlink_node_merge a idx_obj idx_src =
     (if idx_obj \<ge> idx_src then (0, a)
      else
        case acl_array_mv_idx a idx_obj idx_src True of
          (ret, _, a') \<Rightarrow> (if ret < 0 then (-1, a') else (0, a')))"

text \<open>\<open>n + 1\<close> on \<open>acl_int64\<close>.\<close>

definition succ64 :: "int \<Rightarrow> int" where
  "succ64 n = signed_take_bit 63 (n + 1)"

text \<open>Both ends belong to the same item.\<close>

definition dlink_add_same ::
  "'p acl_dlink \<Rightarrow> int \<Rightarrow> int \<Rightarrow> int \<Rightarrow> 'p ditem option \<times> 'p acl_dlink" where
  "dlink_add_same a idx b e =
     (let left = dlink_item a idx in
      if succ64 e < di_begin left then dlink_prepend a b e
      else if b > succ64 (di_end left) then dlink_succ_insert a idx b e
      else
        let left = (if b < di_begin left then left\<lparr>di_begin := b\<rparr> else left);
            left = (if e > di_end left then left\<lparr>di_end := e\<rparr> else left)
        in (Some left, dlink_write a idx left))"

text \<open>The ends belong to different items, \<open>idx_begin < idx_end\<close>.\<close>

definition dlink_add_span ::
  "'p acl_dlink \<Rightarrow> int \<Rightarrow> int \<Rightarrow> int \<Rightarrow> int \<Rightarrow> 'p ditem option \<times> 'p acl_dlink" where
  "dlink_add_span a idx_begin idx_end b e =
     (let left = dlink_item a idx_begin;
          right = dlink_item a idx_end;
          left = (if b < di_begin left then left\<lparr>di_begin := b\<rparr> else left);
          a = dlink_write a idx_begin left;
          right = (if e > di_end right then right\<lparr>di_end := e\<rparr> else right)
      in if b \<le> succ64 (di_end left) then
           let right = right\<lparr>di_begin := di_begin left\<rparr>;
               (ret, a) = dlink_node_merge (dlink_write a idx_end right) idx_begin idx_end
           in if ret < 0 then (None, a) else (Some right, a)
         else
           let right = right\<lparr>di_begin := b\<rparr>;
               (ret, a) = dlink_node_merge (dlink_write a idx_end right) (idx_begin + 1) idx_end
           in if ret < 0 then (None, a) else (Some right, a))"

definition dlink_add :: "'p acl_dlink \<Rightarrow> int \<Rightarrow> int \<Rightarrow> 'p ditem option \<times> 'p acl_dlink" where
  "dlink_add a b e =
     (if b > e then (None, a)
      else
        let idx_begin = begin_pos a b in
        if idx_begin < 0 \<or> idx_begin \<ge> acl_array_size a then (None, a)
        else
          let idx_end = end_pos a e in
          if idx_end < 0 \<or> idx_end \<ge> acl_array_size a then (None, a)
          else if idx_begin > idx_end then (None, a)
          else if acl_array_size a = 0 then dlink_append a b e
          else if idx_begin = idx_end then dlink_add_same a idx_begin b e
          else dlink_add_span a idx_begin idx_end b e)"

definition acl_dlink_create :: "int \<Rightarrow> 'p acl_dlink option" where
  "acl_dlink_create nsize = acl_array_create (if nsize > 0 then nsize else 1)"

definition acl_dlink_insert :: "'p acl_dlink \<Rightarrow> int \<Rightarrow> int \<Rightarrow> 'p ditem option \<times> 'p acl_dlink" where
  "acl_dlink_insert plink b e =
     (let (b, e) = (if b > e then (e, b) else (b, e)) in
      if acl_array_size plink = 0 then dlink_append plink b e
      else dlink_add plink b e)"

definition acl_dlink_modify :: "'p acl_dlink \<Rightarrow> int \<Rightarrow> int \<Rightarrow> 'p ditem option \<times> 'p acl_dlink" where
  "acl_dlink_modify plink b e =
     (let (b, e) = (if b > e then (e, b) else (b, e)) in dlink_add plink b e)"

definition acl_dlink_index :: "'p acl_dlink \<Rightarrow> int \<Rightarrow> 'p ditem option" where
  "acl_dlink_index plink idx = acl_array_index plink idx"

definition acl_dlink_size :: "'p acl_dlink \<Rightarrow> int" where
  "acl_dlink_size plink = acl_array_size plink"

section \<open>Searching\<close>

text \<open>The index and the item found (the index is what the code stores at \<open>pidx\<close>).\<close>

function lookup2_loop :: "'p acl_dlink \<Rightarrow> int \<Rightarrow> int \<Rightarrow> int \<Rightarrow> (int \<times> 'p ditem) option" where
  "lookup2_loop a n lidx hidx =
     (if lidx \<le> hidx then
        let midx = (lidx + hidx) div 2; pitem = dlink_item a midx in
        if n \<ge> di_begin pitem \<and> n \<le> di_end pitem then Some (midx, pitem)
        else if n < di_begin pitem then lookup2_loop a n lidx (midx - 1)
        else if n > di_end pitem then lookup2_loop a n (midx + 1) hidx
        else None
      else None)"
  by pat_completeness auto
termination
  by (relation "measure (\<lambda>(a, n, lidx, hidx). nat (hidx - lidx + 1))") auto

declare lookup2_loop.simps [simp del]

definition acl_dlink_lookup2 :: "'p acl_dlink \<Rightarrow> int \<Rightarrow> (int \<times> 'p ditem) option" where
  "acl_dlink_lookup2 plink n = lookup2_loop plink n 0 (acl_array_size plink - 1)"

definition acl_dlink_lookup :: "'p acl_dlink \<Rightarrow> int \<Rightarrow> 'p ditem option" where
  "acl_dlink_lookup plink n = map_option snd (acl_dlink_lookup2 plink n)"

definition acl_dlink_lookup_range :: "'p acl_dlink \<Rightarrow> int \<Rightarrow> int \<Rightarrow> (int \<times> 'p ditem) option" where
  "acl_dlink_lookup_range plink b e =
     (if e < b then None
      else
        case acl_dlink_lookup2 plink b of
          None \<Rightarrow> None
        | Some (i, ditem) \<Rightarrow> if di_end ditem \<ge> e then Some (i, ditem) else None)"

text \<open>\<^verbatim>\<open>for (i = 0; i < size; i++)\<close> with the first item that ends at or after \<open>off\<close>.\<close>

function lookup_larger_loop :: "'p acl_dlink \<Rightarrow> int \<Rightarrow> int \<Rightarrow> (int \<times> 'p ditem) option" where
  "lookup_larger_loop a off i =
     (if i < acl_array_size a then
        let pitem = dlink_item a i in
        if di_end pitem \<ge> off then Some (i, pitem) else lookup_larger_loop a off (i + 1)
      else None)"
  by pat_completeness auto
termination
  by (relation "measure (\<lambda>(a, off, i). nat (acl_array_size a - i))") auto

declare lookup_larger_loop.simps [simp del]

definition acl_dlink_lookup_larger :: "'p acl_dlink \<Rightarrow> int \<Rightarrow> (int \<times> 'p ditem) option" where
  "acl_dlink_lookup_larger plink off = lookup_larger_loop plink off 0"

function lookup_lower_loop :: "'p acl_dlink \<Rightarrow> int \<Rightarrow> int \<Rightarrow> (int \<times> 'p ditem) option" where
  "lookup_lower_loop a off i =
     (if i \<ge> 0 then
        let pitem = dlink_item a i in
        if di_begin pitem \<le> off then Some (i, pitem) else lookup_lower_loop a off (i - 1)
      else None)"
  by pat_completeness auto
termination
  by (relation "measure (\<lambda>(a, off, i). nat (i + 1))") auto

declare lookup_lower_loop.simps [simp del]

definition acl_dlink_lookup_lower :: "'p acl_dlink \<Rightarrow> int \<Rightarrow> (int \<times> 'p ditem) option" where
  "acl_dlink_lookup_lower plink off = lookup_lower_loop plink off (acl_array_size plink - 1)"

function lookup2_by_item_loop :: "'p acl_dlink \<Rightarrow> 'p ditem \<Rightarrow> int \<Rightarrow> (int \<times> 'p ditem) option" where
  "lookup2_by_item_loop a pitem i =
     (if i < acl_array_size a - 1 then
        if acl_array_index a i = Some pitem then Some (i, pitem)
        else lookup2_by_item_loop a pitem (i + 1)
      else None)"
  by pat_completeness auto
termination
  by (relation "measure (\<lambda>(a, p, i). nat (acl_array_size a - i))") auto

declare lookup2_by_item_loop.simps [simp del]

definition acl_dlink_lookup2_by_item :: "'p acl_dlink \<Rightarrow> 'p ditem \<Rightarrow> (int \<times> 'p ditem) option" where
  "acl_dlink_lookup2_by_item plink pitem = lookup2_by_item_loop plink pitem 0"

definition acl_dlink_lookup_by_item :: "'p acl_dlink \<Rightarrow> 'p ditem \<Rightarrow> 'p ditem option" where
  "acl_dlink_lookup_by_item plink pitem = map_option snd (acl_dlink_lookup2_by_item plink pitem)"

section \<open>Deleting\<close>

definition acl_dlink_delete :: "'p acl_dlink \<Rightarrow> int \<Rightarrow> int \<times> 'p acl_dlink" where
  "acl_dlink_delete plink n =
     (case acl_dlink_lookup2 plink n of
        None \<Rightarrow> (-1, plink)
      | Some (idx, _) \<Rightarrow> (0, snd (snd (acl_array_delete_idx plink idx True))))"

definition acl_dlink_delete_by_item :: "'p acl_dlink \<Rightarrow> 'p ditem \<Rightarrow> int \<times> 'p acl_dlink" where
  "acl_dlink_delete_by_item plink pitem =
     (case acl_array_delete_obj plink (Some pitem) True of
        (ret, _, a) \<Rightarrow> (if ret < 0 then (-1, a) else (0, a)))"

text \<open>
  The first loop of \<open>acl_dlink_delete_range\<close>: either the function returns from inside it
  (\<open>Inr\<close>) or it is left with a value of \<open>low\<close> and the chain (\<open>Inl\<close>).
\<close>

function delete_range_low ::
  "'p acl_dlink \<Rightarrow> int \<Rightarrow> int \<Rightarrow> int \<Rightarrow> int \<Rightarrow> (int \<times> 'p acl_dlink) + (int \<times> 'p acl_dlink)" where
  "delete_range_low a b e sz i =
     (if i < sz then
        let pitem = dlink_item a i in
        if b > di_end pitem then delete_range_low a b e sz (i + 1)
        else if b \<le> di_begin pitem then
          (if e < di_end pitem then Inr (0, dlink_write a i (pitem\<lparr>di_begin := e + 1\<rparr>))
           else if e = di_end pitem then Inr (0, snd (snd (acl_array_delete_idx a i True)))
           else Inl (i, a))
        else if e = di_end pitem then Inr (0, dlink_write a i (pitem\<lparr>di_end := b - 1\<rparr>))
        else if e < di_end pitem then
          Inr (0, snd (dlink_add (dlink_write a i (pitem\<lparr>di_end := b - 1\<rparr>)) (e + 1) (di_end pitem)))
        else
          let a = dlink_write a i (pitem\<lparr>di_end := b - 1\<rparr>);
              low = i + 1
          in if low \<ge> sz then Inr (0, a)
             else
               let pitem_low = dlink_item a low in
               if di_begin pitem_low > e then Inr (0, a)
               else if e < di_end pitem_low then
                 Inr (0, dlink_write a low (pitem_low\<lparr>di_begin := e + 1\<rparr>))
               else if e = di_end pitem_low then Inr (0, snd (snd (acl_array_delete_idx a low True)))
               else Inl (low, a)
      else Inl (0, a))"
  by pat_completeness auto
termination
  by (relation "measure (\<lambda>(a, b, e, sz, i). nat (sz - i))") auto

declare delete_range_low.simps [simp del]

text \<open>The second loop: the value of \<open>high\<close> and the chain after it.\<close>

function delete_range_high :: "'p acl_dlink \<Rightarrow> int \<Rightarrow> int \<Rightarrow> int \<Rightarrow> int \<times> 'p acl_dlink" where
  "delete_range_high a e sz i =
     (if i < sz then
        let pitem = dlink_item a i in
        if e > di_end pitem then delete_range_high a e sz (i + 1)
        else if e < di_begin pitem then (i - 1, a)
        else if e = di_begin pitem then
          (if di_begin pitem = di_end pitem then (i, a)
           else (i - 1, dlink_write a i (pitem\<lparr>di_begin := e + 1\<rparr>)))
        else if e = di_end pitem then (i, a)
        else (i - 1, dlink_write a i (pitem\<lparr>di_begin := e + 1\<rparr>))
      else (sz - 1, a))"
  by pat_completeness auto
termination
  by (relation "measure (\<lambda>(a, e, sz, i). nat (sz - i))") auto

declare delete_range_high.simps [simp del]

definition acl_dlink_delete_range :: "'p acl_dlink \<Rightarrow> int \<Rightarrow> int \<Rightarrow> int \<times> 'p acl_dlink" where
  "acl_dlink_delete_range plink b e =
     (let sz = acl_array_size plink in
      case delete_range_low plink b e sz 0 of
        Inr r \<Rightarrow> r
      | Inl (low, a) \<Rightarrow>
          (case delete_range_high a e sz (low + 1) of
             (high, a) \<Rightarrow>
               if low > high then (0, a)
               else (case acl_array_delete_range a low high True of (ret, _, a) \<Rightarrow> (ret, a))))"

section \<open>The order of the chain and the numbers it covers\<close>

definition dl_sorted :: "'p ditem list \<Rightarrow> bool" where
  "dl_sorted ds \<longleftrightarrow>
     list_all (\<lambda>p. di_begin p \<le> di_end p) ds \<and> sorted_wrt (\<lambda>p q. di_end p < di_begin q) ds"

definition dl_cover :: "'p ditem list \<Rightarrow> int set" where
  "dl_cover ds = (\<Union>p \<in> set ds. {di_begin p .. di_end p})"

definition dlink_ok :: "'p acl_dlink \<Rightarrow> bool" where
  "dlink_ok a \<longleftrightarrow> array_full a \<and> dl_sorted (array_objs a)"

definition dlink_set :: "'p acl_dlink \<Rightarrow> int set" where
  "dlink_set a = dl_cover (array_objs a)"

lemma dl_sorted_Nil [simp]: "dl_sorted []"
  by (simp add: dl_sorted_def)

lemma dl_sorted_Cons:
  "dl_sorted (p # ds) \<longleftrightarrow>
     di_begin p \<le> di_end p \<and> (\<forall>q \<in> set ds. di_end p < di_begin q) \<and> dl_sorted ds"
  by (auto simp: dl_sorted_def)

lemma dl_sorted_append:
  "dl_sorted (xs @ ys) \<longleftrightarrow>
     dl_sorted xs \<and> dl_sorted ys \<and> (\<forall>p \<in> set xs. \<forall>q \<in> set ys. di_end p < di_begin q)"
  by (auto simp: dl_sorted_def sorted_wrt_append)

lemmas dl_sorted_simps = dl_sorted_Cons dl_sorted_append

lemma dl_sorted_item: "dl_sorted ds \<Longrightarrow> p \<in> set ds \<Longrightarrow> di_begin p \<le> di_end p"
  by (auto simp: dl_sorted_def list_all_iff)

lemma dl_sorted_nth:
  "dl_sorted ds \<Longrightarrow> i < j \<Longrightarrow> j < length ds \<Longrightarrow> di_end (ds ! i) < di_begin (ds ! j)"
  by (auto simp: dl_sorted_def sorted_wrt_iff_nth_less)

lemma dl_sorted_begin_less:
  "dl_sorted ds \<Longrightarrow> i < j \<Longrightarrow> j < length ds \<Longrightarrow> di_begin (ds ! i) < di_begin (ds ! j)"
  using dl_sorted_nth [of ds i j] dl_sorted_item [of ds "ds ! i"] by fastforce

lemma dl_cover_simps [simp]:
  "dl_cover [] = {}"
  "dl_cover (p # ds) = {di_begin p .. di_end p} \<union> dl_cover ds"
  "dl_cover (xs @ ys) = dl_cover xs \<union> dl_cover ys"
  by (auto simp: dl_cover_def)

lemma dl_cover_iff: "n \<in> dl_cover ds \<longleftrightarrow> (\<exists>p \<in> set ds. di_begin p \<le> n \<and> n \<le> di_end p)"
  by (auto simp: dl_cover_def)

section \<open>Items read and written through their cells\<close>

lemma dlink_item_objs: "array_full a \<Longrightarrow> k < length (array_objs a) \<Longrightarrow> dlink_item a (int k) = array_objs a ! k"
  by (simp add: dlink_item_def array_index_objs)

lemma dlink_write_objs:
  "array_full a \<Longrightarrow> array_full (dlink_write a (int k) p)"
  "array_full a \<Longrightarrow> array_objs (dlink_write a (int k) p) = (array_objs a)[k := p]"
  by (simp_all add: dlink_write_def array_objs_update)

lemma dlink_append_objs:
  assumes "array_full a"
  shows "array_full (snd (dlink_append a b e))"
    "array_objs (snd (dlink_append a b e)) = array_objs a @ [new_ditem b e]"
    "fst (dlink_append a b e) = Some (new_ditem b e)"
  using array_append_objs [OF assms, of "new_ditem b e"]
  by (auto simp: dlink_append_def Let_def split_beta)

lemma dlink_prepend_objs:
  assumes "array_full a" "array_objs a \<noteq> []"
  shows "array_full (snd (dlink_prepend a b e))"
    "array_objs (snd (dlink_prepend a b e)) = new_ditem b e # array_objs a"
    "fst (dlink_prepend a b e) = Some (new_ditem b e)"
  using array_pred_insert_objs [OF assms(1), of 0 "new_ditem b e"] assms(2)
  by (auto simp: dlink_prepend_def acl_array_prepend_def Let_def split_beta)

lemma dlink_succ_insert_objs:
  assumes "array_full a" "k < length (array_objs a)"
  shows "array_full (snd (dlink_succ_insert a (int k) b e))"
    "array_objs (snd (dlink_succ_insert a (int k) b e))
      = take (Suc k) (array_objs a) @ new_ditem b e # drop (Suc k) (array_objs a)"
    "fst (dlink_succ_insert a (int k) b e) = Some (new_ditem b e)"
  using array_succ_insert_objs [OF assms, of "new_ditem b e"]
  by (auto simp: dlink_succ_insert_def Let_def split_beta)

lemma dlink_node_merge_objs:
  assumes "array_full a" "i \<le> j" "j < length (array_objs a)"
  shows "array_full (snd (dlink_node_merge a (int i) (int j)))"
    "array_objs (snd (dlink_node_merge a (int i) (int j))) = take i (array_objs a) @ drop j (array_objs a)"
    "fst (dlink_node_merge a (int i) (int j)) = 0"
proof -
  have "array_full (snd (dlink_node_merge a (int i) (int j))) \<and>
    array_objs (snd (dlink_node_merge a (int i) (int j))) = take i (array_objs a) @ drop j (array_objs a) \<and>
    fst (dlink_node_merge a (int i) (int j)) = 0"
  proof (cases "i < j")
    case True
    with array_mv_idx_objs [OF assms(1) _ assms(3), of i True] show ?thesis
      by (auto simp: dlink_node_merge_def split_beta)
  next
    case False
    with assms show ?thesis by (simp add: dlink_node_merge_def)
  qed
  then show "array_full (snd (dlink_node_merge a (int i) (int j)))"
    "array_objs (snd (dlink_node_merge a (int i) (int j))) = take i (array_objs a) @ drop j (array_objs a)"
    "fst (dlink_node_merge a (int i) (int j)) = 0"
    by blast+
qed

section \<open>The binary searches\<close>

lemma int_half: "(int l + int h) div 2 = int ((l + h) div 2)"
  by linarith

lemma scope_loop:
  assumes "array_full a" "dl_sorted (array_objs a)" "l \<le> h" "h < length (array_objs a)"
    and "l = 0 \<or> di_begin (array_objs a ! l) \<le> n"
    and "Suc h = length (array_objs a) \<or> n < di_begin (array_objs a ! h)"
  shows "\<exists>k. scope_loop a n (int l) (int h) = int k \<and> k < length (array_objs a) \<and>
    (k = 0 \<or> di_begin (array_objs a ! k) \<le> n) \<and>
    (Suc k < length (array_objs a) \<longrightarrow> n < di_begin (array_objs a ! Suc k))"
  using assms(3-)
proof (induction "h - l" arbitrary: l h rule: less_induct)
  case less
  note sim = array_size_objs [OF assms(1)]
  let ?ds = "array_objs a"
  define m where "m = (l + h) div 2"
  have half: "(int l + int h) div 2 = int m" by (simp add: m_def int_half)
  show ?case
  proof (cases "l = h")
    case True
    have "h = 0 \<or> Suc h = length ?ds"
      using less.prems True by auto
    moreover have "Suc h < length ?ds \<Longrightarrow> n < di_begin (?ds ! Suc h)" if "h = 0"
      using less.prems dl_sorted_begin_less [OF assms(2), of h "Suc h"] by force
    moreover have "scope_loop a n (int h) (int h) = int h" if "h = 0 \<or> Suc h = length ?ds"
      using that sim by (subst scope_loop.simps) (auto simp: Let_def)
    ultimately show ?thesis
      using True less.prems by (intro exI [of _ h]) auto
  next
    case False
    with less.prems have m: "l \<le> m" "Suc m \<le> h" by (auto simp: m_def)
    then have idx: "m < length ?ds" "Suc m < length ?ds" using less.prems by auto
    have item: "dlink_item a (int m) = ?ds ! m" "dlink_item a (int m + 1) = ?ds ! Suc m"
      using dlink_item_objs [OF assms(1) idx(1)] dlink_item_objs [OF assms(1) idx(2)]
      by (simp_all add: add.commute [of "int m"])
    have lt: "di_begin (?ds ! m) < di_begin (?ds ! Suc m)"
      using dl_sorted_begin_less [OF assms(2)] idx by simp
    note unf = scope_loop.simps [of a n "int l" "int h"]
    consider "di_begin (?ds ! m) \<le> n" "n < di_begin (?ds ! Suc m)"
      | "di_begin (?ds ! Suc m) \<le> n" | "n < di_begin (?ds ! m)" by linarith
    then show ?thesis
    proof cases
      case 1
      then show ?thesis
        using m idx lt unfolding unf by (intro exI [of _ m]) (simp add: half item Let_def)
    next
      case 2
      then have "scope_loop a n (int l) (int h) = scope_loop a n (int m + 1) (int h)"
        using m idx lt unfolding unf by (simp add: half item Let_def)
      with less.hyps [of h "Suc m"] less.prems 2 m show ?thesis by (simp add: add.commute [of 1])
    next
      case 3
      then have "scope_loop a n (int l) (int h) = scope_loop a n (int l) (int m)"
        using m idx lt unfolding unf by (simp add: half item Let_def)
      with less.hyps [of m l] less.prems 3 m show ?thesis by simp
    qed
  qed
qed

lemma scope_pos:
  assumes "dlink_ok a" "array_objs a \<noteq> []"
  obtains k where "scope_pos a n = int k" "k < length (array_objs a)"
    "k = 0 \<or> di_begin (array_objs a ! k) \<le> n"
    "Suc k < length (array_objs a) \<Longrightarrow> n < di_begin (array_objs a ! Suc k)"
proof -
  have full: "array_full a" using assms by (simp add: dlink_ok_def)
  have "acl_array_size a - 1 = int (length (array_objs a) - 1)"
    using assms(2) by (cases "array_objs a") (simp_all add: array_size_objs [OF full])
  then have "scope_pos a n = scope_loop a n (int 0) (int (length (array_objs a) - 1))"
    by (simp add: scope_pos_def)
  moreover have "length (array_objs a) - 1 < length (array_objs a)"
    "Suc (length (array_objs a) - 1) = length (array_objs a)"
    using assms(2) by (cases "array_objs a"; simp)+
  ultimately show ?thesis
    using scope_loop [OF full, of 0 "length (array_objs a) - 1" n] assms(1) that
    by (auto simp: dlink_ok_def)
qed

section \<open>Adding a range is set union\<close>

lemma add_before_list:
  assumes "dl_sorted (xs @ l # ys)" "b \<le> e" "xs = [] \<or> di_begin l \<le> b" "e + 1 < di_begin l"
    "di_begin p = b" "di_end p = e"
  shows "xs = []" "dl_sorted (p # l # ys)"
  using assms by (auto simp: dl_sorted_simps)

lemma add_after_list:
  assumes "dl_sorted (xs @ l # ys)" "b \<le> e" "\<forall>q \<in> set ys. e < di_begin q" "di_end l + 1 < b"
    "di_begin p = b" "di_end p = e"
  shows "dl_sorted (xs @ l # p # ys)"
  using assms by (force simp: dl_sorted_simps)

lemma add_widen_list:
  assumes "dl_sorted (xs @ l # ys)" "xs = [] \<or> di_begin l \<le> b" "\<forall>q \<in> set ys. e < di_begin q"
    "di_begin l \<le> e + 1" "b \<le> di_end l + 1" "b \<le> e"
    "di_begin p = min (di_begin l) b" "di_end p = max (di_end l) e"
  shows "dl_sorted (xs @ p # ys)" "dl_cover (xs @ p # ys) = dl_cover (xs @ l # ys) \<union> {b .. e}"
  using assms by (auto simp: dl_sorted_simps)

lemma add_span_merge_list:
  assumes "dl_sorted (xs @ l # ms @ r # ys)" "xs = [] \<or> di_begin l \<le> b"
    "\<forall>q \<in> set ms. b < di_begin q" "b < di_begin r" "di_begin r \<le> e" "\<forall>q \<in> set ys. e < di_begin q"
    "b \<le> di_end l + 1" "di_begin p = min (di_begin l) b" "di_end p = max (di_end r) e"
  shows "dl_sorted (xs @ p # ys)"
    "dl_cover (xs @ p # ys) = dl_cover (xs @ l # ms @ r # ys) \<union> {b .. e}"
proof -
  show "dl_sorted (xs @ p # ys)"
    using assms by (auto simp: dl_sorted_simps)
  have "dl_cover ms \<subseteq> {b .. e}"
    using assms by (fastforce simp: dl_cover_iff dl_sorted_simps)
  moreover have "{di_begin l .. di_end l} \<union> {di_begin r .. di_end r} \<union> {b .. e} = {di_begin p .. di_end p}"
    using assms by (auto simp: dl_sorted_simps)
  ultimately show "dl_cover (xs @ p # ys) = dl_cover (xs @ l # ms @ r # ys) \<union> {b .. e}"
    unfolding dl_cover_simps by blast
qed

lemma add_span_right_list:
  assumes "dl_sorted (xs @ l # ms @ r # ys)"
    "\<forall>q \<in> set ms. b < di_begin q" "b < di_begin r" "di_begin r \<le> e" "\<forall>q \<in> set ys. e < di_begin q"
    "di_end l + 1 < b" "di_begin p = b" "di_end p = max (di_end r) e"
  shows "dl_sorted (xs @ l # p # ys)"
    "dl_cover (xs @ l # p # ys) = dl_cover (xs @ l # ms @ r # ys) \<union> {b .. e}"
proof -
  show "dl_sorted (xs @ l # p # ys)"
    using assms by (fastforce simp: dl_sorted_simps)
  have "dl_cover ms \<subseteq> {b .. e}"
    using assms by (fastforce simp: dl_cover_iff dl_sorted_simps)
  moreover have "{di_begin r .. di_end r} \<union> {b .. e} = {di_begin p .. di_end p}"
    using assms by (auto simp: dl_sorted_simps)
  ultimately show "dl_cover (xs @ l # p # ys) = dl_cover (xs @ l # ms @ r # ys) \<union> {b .. e}"
    unfolding dl_cover_simps by blast
qed

text \<open>What a successful addition leaves behind.\<close>

definition dlink_added :: "'p acl_dlink \<Rightarrow> int \<Rightarrow> int \<Rightarrow> 'p ditem option \<times> 'p acl_dlink \<Rightarrow> bool" where
  "dlink_added a b e res \<longleftrightarrow>
     dlink_ok (snd res) \<and> dlink_set (snd res) = dlink_set a \<union> {b .. e} \<and>
     (\<exists>p. fst res = Some p \<and> p \<in> set (array_objs (snd res)) \<and> di_begin p \<le> b \<and> e \<le> di_end p)"

lemma sorted_after:
  assumes "dl_sorted ds" "Suc k < length ds \<Longrightarrow> n < di_begin (ds ! Suc k)" "q \<in> set (drop (Suc k) ds)"
  shows "n < di_begin q"
proof -
  from assms(3) obtain j where j: "j < length ds - Suc k" "q = ds ! (Suc k + j)"
    by (auto simp: in_set_conv_nth)
  then have n: "n < di_begin (ds ! Suc k)" by (intro assms(2)) simp
  show ?thesis
  proof (cases j)
    case 0
    with n j show ?thesis by simp
  next
    case (Suc i)
    with j have "di_begin (ds ! Suc k) < di_begin q"
      using dl_sorted_begin_less [OF assms(1), of "Suc k" "Suc k + j"] by simp
    with n j show ?thesis by simp
  qed
qed

text \<open>The numbers whose successor is a 64-bit number too.\<close>

definition has_succ64 :: "int \<Rightarrow> bool" where
  "has_succ64 n \<longleftrightarrow> - (2 ^ 63) \<le> n \<and> n < 2 ^ 63 - 1"

lemma succ64 [simp]: "has_succ64 n \<Longrightarrow> succ64 n = n + 1"
  by (simp add: has_succ64_def succ64_def signed_take_bit_int_eq_self)

text \<open>A chain that reaches neither below the 64-bit numbers nor up to the last of them.\<close>

definition dlink_small :: "'p acl_dlink \<Rightarrow> bool" where
  "dlink_small a \<longleftrightarrow> (\<forall>n \<in> dlink_set a. has_succ64 n)"

lemma dlink_small_end:
  "dlink_ok a \<Longrightarrow> dlink_small a \<Longrightarrow> p \<in> set (array_objs a) \<Longrightarrow> has_succ64 (di_end p)"
  using dl_sorted_item [of "array_objs a" p]
  by (fastforce simp: dlink_small_def dlink_ok_def dlink_set_def dl_cover_iff)

lemma dlink_add_same:
  assumes "dlink_ok a" "k < length (array_objs a)" "b \<le> e"
    and small: "dlink_small a" "has_succ64 e"
    and left: "k = 0 \<or> di_begin (array_objs a ! k) \<le> b"
    and right: "Suc k < length (array_objs a) \<Longrightarrow> e < di_begin (array_objs a ! Suc k)"
  shows "dlink_added a b e (dlink_add_same a (int k) b e)"
proof -
  let ?ds = "array_objs a" and ?l = "array_objs a ! k"
  let ?xs = "take k ?ds" and ?ys = "drop (Suc k) ?ds"
  have full: "array_full a" and sorted: "dl_sorted ?ds" using assms(1) by (auto simp: dlink_ok_def)
  have ds: "?ds = ?xs @ ?l # ?ys" using assms(2) by (rule id_take_nth_drop)
  then have sorted': "dl_sorted (?xs @ ?l # ?ys)" using sorted by simp
  have xs: "?xs = [] \<or> di_begin ?l \<le> b" using left by auto
  have ys: "\<forall>q \<in> set ?ys. e < di_begin q" using sorted_after [OF sorted right] by blast
  have new: "di_begin (new_ditem b e :: 'a ditem) = b" "di_end (new_ditem b e :: 'a ditem) = e"
    by (simp_all add: new_ditem_def)
  note item = dlink_item_objs [OF full assms(2)]
    succ64 [OF dlink_small_end [OF assms(1) small(1) nth_mem [OF assms(2)]]] succ64 [OF small(2)]
  consider (before) "e + 1 < di_begin ?l" | (after) "di_end ?l + 1 < b" "\<not> e + 1 < di_begin ?l"
    | (widen) "di_begin ?l \<le> e + 1" "b \<le> di_end ?l + 1" by linarith
  then show ?thesis
  proof cases
    case before
    note r = add_before_list [OF sorted' assms(3) xs before new]
    have ne: "?ds \<noteq> []" using assms(2) by auto
    have "?ds = ?l # ?ys" using ds r(1) by simp
    with before r dlink_prepend_objs [OF full ne, of b e] new show ?thesis
      by (auto simp: dlink_add_same_def item dlink_added_def dlink_ok_def dlink_set_def Let_def)
  next
    case after
    have "dl_cover ?ds = dl_cover (?xs @ ?l # ?ys)" using arg_cong [OF ds, of dl_cover] .
    with dlink_succ_insert_objs [OF full assms(2), of b e]
      add_after_list [OF sorted' assms(3) ys after(1) new] after new assms(3)
    show ?thesis
      by (auto simp: dlink_add_same_def item dlink_added_def dlink_ok_def dlink_set_def Let_def
          take_Suc_conv_app_nth [OF assms(2)])
  next
    case widen
    let ?l1 = "if b < di_begin ?l then ?l\<lparr>di_begin := b\<rparr> else ?l"
    define p where "p = (if e > di_end ?l1 then ?l1\<lparr>di_end := e\<rparr> else ?l1)"
    have p: "di_begin p = min (di_begin ?l) b" "di_end p = max (di_end ?l) e"
      by (auto simp: p_def)
    have eq: "dlink_add_same a (int k) b e = (Some p, dlink_write a (int k) p)"
      using widen by (simp add: dlink_add_same_def item p_def Let_def)
    have upd: "?ds[k := p] = ?xs @ p # ?ys" using assms(2) by (simp add: upd_conv_take_nth_drop)
    from add_widen_list [OF sorted' xs ys widen assms(3) p] dlink_write_objs [OF full, of k p] p upd
    show ?thesis
      unfolding eq dlink_added_def dlink_ok_def dlink_set_def using ds by simp
  qed
qed

lemma dlink_add_span_shape:
  fixes a :: "'p acl_dlink"
  assumes "array_full a" "i < j" "j < length (array_objs a)"
    and l: "l = (array_objs a) ! i" and r: "r = (array_objs a) ! j"
    and lr: "di_begin l \<le> di_end l" and small: "has_succ64 (di_end l)"
  defines "xs \<equiv> take i (array_objs a)" and "ys \<equiv> drop (Suc j) (array_objs a)"
  obtains p where "di_end p = max (di_end r) e"
    "fst (dlink_add_span a (int i) (int j) b e) = Some p"
    "array_full (snd (dlink_add_span a (int i) (int j) b e))"
    "b \<le> di_end l + 1 \<Longrightarrow> di_begin p = min (di_begin l) b \<and>
       array_objs (snd (dlink_add_span a (int i) (int j) b e)) = xs @ p # ys"
    "di_end l + 1 < b \<Longrightarrow> di_begin p = b \<and>
       array_objs (snd (dlink_add_span a (int i) (int j) b e)) = xs @ l # p # ys"
proof -
  have il: "i < length (array_objs a)" using assms by simp
  have item: "dlink_item a (int i) = l" "dlink_item a (int j) = r"
    using dlink_item_objs [OF assms(1)] il assms by simp_all
  define l1 where "l1 = (if b < di_begin l then l\<lparr>di_begin := b\<rparr> else l)"
  define r1 where "r1 = (if e > di_end r then r\<lparr>di_end := e\<rparr> else r)"
  let ?a1 = "dlink_write a (int i) l1"
  have a1: "array_full ?a1" "array_objs ?a1 = (array_objs a)[i := l1]"
    using dlink_write_objs [OF assms(1)] by auto
  have l1: "di_begin l1 = min (di_begin l) b" "di_end l1 = di_end l" by (auto simp: l1_def)
  have r1: "di_end r1 = max (di_end r) e" by (auto simp: r1_def)
  have shape: "dlink_add_span a (int i) (int j) b e =
     (if b \<le> di_end l + 1 then
        (let m = dlink_node_merge (dlink_write ?a1 (int j) (r1\<lparr>di_begin := di_begin l1\<rparr>)) (int i) (int j)
         in if fst m < 0 then (None, snd m) else (Some (r1\<lparr>di_begin := di_begin l1\<rparr>), snd m))
      else
        (let m = dlink_node_merge (dlink_write ?a1 (int j) (r1\<lparr>di_begin := b\<rparr>)) (int (Suc i)) (int j)
         in if fst m < 0 then (None, snd m) else (Some (r1\<lparr>di_begin := b\<rparr>), snd m)))"
    by (simp add: dlink_add_span_def item l1_def [symmetric] r1_def [symmetric] Let_def split_beta l1
        succ64 [OF small] add.commute)
  have cells: "take i ((array_objs a)[i := l1, j := p]) = xs"
    "take (Suc i) ((array_objs a)[i := l1, j := p]) = xs @ [l1]"
    "drop j ((array_objs a)[i := l1, j := p]) = p # ys" for p
    using assms(2,3) il
    by (simp_all add: xs_def ys_def take_Suc_conv_app_nth drop_update_swap drop_update_cancel
        Cons_nth_drop_Suc [symmetric])
  note wr = dlink_write_objs [OF a1(1), of j]
  show ?thesis
  proof (cases "b \<le> di_end l + 1")
    case True
    with dlink_node_merge_objs [OF wr(1) [of "r1\<lparr>di_begin := di_begin l1\<rparr>"], of i j] wr(2) a1(2) cells assms(2,3)
    show ?thesis
      by (intro that [of "r1\<lparr>di_begin := di_begin l1\<rparr>"]) (simp_all add: shape Let_def l1 r1)
  next
    case False
    then have "l1 = l" using lr by (simp add: l1_def)
    with False dlink_node_merge_objs [OF wr(1) [of "r1\<lparr>di_begin := b\<rparr>"], of "Suc i" j] wr(2) a1(2) cells assms(2,3)
    show ?thesis
      by (intro that [of "r1\<lparr>di_begin := b\<rparr>"]) (simp_all add: shape Let_def r1)
  qed
qed

lemma span_decomp:
  assumes "i < j" "j < length ds"
  shows "ds = take i ds @ ds ! i # take (j - Suc i) (drop (Suc i) ds) @ ds ! j # drop (Suc j) ds"
proof -
  have "drop (Suc i) ds = take (j - Suc i) (drop (Suc i) ds) @ drop j ds"
    using assms append_take_drop_id [of "j - Suc i" "drop (Suc i) ds"] by simp
  moreover have "drop j ds = ds ! j # drop (Suc j) ds"
    using assms by (simp add: Cons_nth_drop_Suc)
  ultimately show ?thesis
    using assms id_take_nth_drop [of i ds] by simp
qed

lemma dlink_add_span:
  assumes "dlink_ok a" "i < j" "j < length (array_objs a)" "b \<le> e"
    and small: "dlink_small a"
    and left: "i = 0 \<or> di_begin (array_objs a ! i) \<le> b"
      "b < di_begin (array_objs a ! Suc i)"
    and right: "di_begin (array_objs a ! j) \<le> e"
      "Suc j < length (array_objs a) \<Longrightarrow> e < di_begin (array_objs a ! Suc j)"
  shows "dlink_added a b e (dlink_add_span a (int i) (int j) b e)"
proof -
  let ?ds = "array_objs a"
  let ?xs = "take i ?ds" and ?l = "?ds ! i" and ?ms = "take (j - Suc i) (drop (Suc i) ?ds)"
  let ?r = "?ds ! j" and ?ys = "drop (Suc j) ?ds"
  have full: "array_full a" and sorted: "dl_sorted ?ds" using assms(1) by (auto simp: dlink_ok_def)
  have ds: "?ds = ?xs @ ?l # ?ms @ ?r # ?ys" using assms(2,3) by (rule span_decomp)
  then have sorted': "dl_sorted (?xs @ ?l # ?ms @ ?r # ?ys)" using sorted by simp
  have cov: "dl_cover ?ds = dl_cover (?xs @ ?l # ?ms @ ?r # ?ys)" using arg_cong [OF ds, of dl_cover] .
  have lr: "di_begin ?l \<le> di_end ?l" using sorted' by (simp add: dl_sorted_simps)
  have le: "has_succ64 (di_end ?l)"
    using dlink_small_end [OF assms(1) small, of ?l] assms(2,3) by simp
  have xs: "?xs = [] \<or> di_begin ?l \<le> b" using left by auto
  have after: "\<forall>q \<in> set (drop (Suc i) ?ds). b < di_begin q"
    using sorted_after [OF sorted, of i b] left(2) by blast
  have "set (drop (Suc i) ?ds) = set ?ms \<union> {?r} \<union> set ?ys"
    using assms(2,3) arg_cong [OF ds, of "\<lambda>x. set (drop (Suc i) x)"] by (simp add: Suc_diff_le)
  with after have ms: "\<forall>q \<in> set ?ms. b < di_begin q" "b < di_begin ?r" by auto
  have ys: "\<forall>q \<in> set ?ys. e < di_begin q" using sorted_after [OF sorted right(2)] by blast
  obtain p where p: "di_end p = max (di_end ?r) e"
    "fst (dlink_add_span a (int i) (int j) b e) = Some p"
    "array_full (snd (dlink_add_span a (int i) (int j) b e))"
    "b \<le> di_end ?l + 1 \<Longrightarrow> di_begin p = min (di_begin ?l) b \<and>
       array_objs (snd (dlink_add_span a (int i) (int j) b e)) = ?xs @ p # ?ys"
    "di_end ?l + 1 < b \<Longrightarrow> di_begin p = b \<and>
       array_objs (snd (dlink_add_span a (int i) (int j) b e)) = ?xs @ ?l # p # ?ys"
    using dlink_add_span_shape [OF full assms(2,3) refl refl lr le] by metis
  show ?thesis
  proof (cases "b \<le> di_end ?l + 1")
    case True
    with add_span_merge_list [OF sorted' xs ms right(1) ys True _ p(1)] p cov show ?thesis
      unfolding dlink_added_def dlink_ok_def dlink_set_def by (auto simp del: dl_cover_simps)
  next
    case False
    then have "di_end ?l + 1 < b" by simp
    with add_span_right_list [OF sorted' ms right(1) ys this _ p(1)] p cov show ?thesis
      unfolding dlink_added_def dlink_ok_def dlink_set_def by (auto simp del: dl_cover_simps)
  qed
qed

lemma dlink_add_union:
  assumes ok: "dlink_ok a" and ne: "array_objs a \<noteq> []" and be: "b \<le> e"
    and small: "dlink_small a" "has_succ64 e"
  shows "dlink_added a b e (dlink_add a b e)"
proof -
  let ?ds = "array_objs a"
  have full: "array_full a" and sorted: "dl_sorted ?ds" using ok by (auto simp: dlink_ok_def)
  note size = array_size_objs [OF full]
  obtain i where i: "scope_pos a b = int i" "i < length ?ds" "i = 0 \<or> di_begin (?ds ! i) \<le> b"
    "Suc i < length ?ds \<Longrightarrow> b < di_begin (?ds ! Suc i)"
    using scope_pos [OF ok ne] by metis
  obtain j where j: "scope_pos a e = int j" "j < length ?ds" "j = 0 \<or> di_begin (?ds ! j) \<le> e"
    "Suc j < length ?ds \<Longrightarrow> e < di_begin (?ds ! Suc j)"
    using scope_pos [OF ok ne] by metis
  have ij: "i \<le> j"
  proof (rule ccontr)
    assume "\<not> i \<le> j"
    then have "e < di_begin (?ds ! Suc j)" "di_begin (?ds ! i) \<le> b" "Suc j \<le> i" using i j by auto
    moreover have "di_begin (?ds ! Suc j) \<le> di_begin (?ds ! i)"
      using dl_sorted_begin_less [OF sorted, of "Suc j" i] i(2) \<open>Suc j \<le> i\<close> by (cases "Suc j = i") auto
    ultimately show False using be by linarith
  qed
  have "dlink_add a b e = (if i = j then dlink_add_same a (int i) b e else dlink_add_span a (int i) (int j) b e)"
    using be i j ij ne by (simp add: dlink_add_def begin_pos_def end_pos_def size Let_def)
  moreover have "dlink_added a b e (dlink_add_same a (int i) b e)" if "i = j"
    using dlink_add_same [OF ok i(2) be small i(3)] j(4) that by blast
  moreover have "dlink_added a b e (dlink_add_span a (int i) (int j) b e)" if "i \<noteq> j"
    using that ij i j be by (intro dlink_add_span ok small) auto
  ultimately show ?thesis by simp
qed

lemma acl_dlink_insert_union:
  assumes ok: "dlink_ok a" and small: "dlink_small a" "has_succ64 (max b e)"
  shows "dlink_added a (min b e) (max b e) (acl_dlink_insert a b e)"
proof -
  have full: "array_full a" using ok by (simp add: dlink_ok_def)
  have insert: "acl_dlink_insert a b e =
    (if array_objs a = [] then dlink_append a (min b e) (max b e) else dlink_add a (min b e) (max b e))"
    by (auto simp: acl_dlink_insert_def array_size_objs [OF full] min_def max_def)
  show ?thesis
  proof (cases "array_objs a = []")
    case True
    with dlink_append_objs [OF full, of "min b e" "max b e"] insert show ?thesis
      by (simp add: dlink_added_def dlink_ok_def dlink_set_def new_ditem_def dl_sorted_simps)
  next
    case False
    with dlink_add_union [OF ok False _ small, of "min b e"] insert show ?thesis by simp
  qed
qed

section \<open>Lookup\<close>

lemma lookup2_loop:
  assumes "array_full a" "dl_sorted (array_objs a)"
  shows "0 \<le> l \<Longrightarrow> h < int (length (array_objs a)) \<Longrightarrow>
    \<forall>k < length (array_objs a). int k < l \<longrightarrow> di_end (array_objs a ! k) < n \<Longrightarrow>
    \<forall>k < length (array_objs a). h < int k \<longrightarrow> n < di_begin (array_objs a ! k) \<Longrightarrow>
    (case lookup2_loop a n l h of
       None \<Rightarrow> n \<notin> dl_cover (array_objs a)
     | Some (i, p) \<Rightarrow> 0 \<le> i \<and> i < int (length (array_objs a)) \<and> p = array_objs a ! nat i \<and>
         di_begin p \<le> n \<and> n \<le> di_end p)"
proof (induction "nat (h - l + 1)" arbitrary: l h rule: less_induct)
  case less
  let ?ds = "array_objs a"
  note unf = lookup2_loop.simps [of a n l h]
  show ?case
  proof (cases "l \<le> h")
    case False
    have "n \<notin> dl_cover ?ds"
    proof
      assume "n \<in> dl_cover ?ds"
      then obtain k where k: "k < length ?ds" "di_begin (?ds ! k) \<le> n" "n \<le> di_end (?ds ! k)"
        by (auto simp: dl_cover_iff in_set_conv_nth)
      from False have "int k < l \<or> h < int k" by linarith
      with k less.prems(3,4) show False by fastforce
    qed
    with False show ?thesis unfolding unf by simp
  next
    case True
    define m where "m = nat ((l + h) div 2)"
    have m: "(l + h) div 2 = int m" "l \<le> int m" "int m \<le> h" "m < length ?ds"
      using True less.prems(1,2) by (auto simp: m_def)
    have item: "dlink_item a (int m) = ?ds ! m" by (rule dlink_item_objs [OF assms(1) m(4)])
    have be: "di_begin (?ds ! m) \<le> di_end (?ds ! m)"
      using dl_sorted_item [OF assms(2), of "?ds ! m"] m(4) by simp
    consider "di_begin (?ds ! m) \<le> n" "n \<le> di_end (?ds ! m)"
      | (left) "n < di_begin (?ds ! m)" | (right) "di_end (?ds ! m) < n" by linarith
    then show ?thesis
    proof cases
      case 1
      with True m show ?thesis unfolding unf by (simp add: Let_def item)
    next
      case left
      have "n < di_begin (?ds ! k)" if "k < length ?ds" "int m - 1 < int k" for k
        using dl_sorted_begin_less [OF assms(2), of m k] that left by (cases "k = m") auto
      moreover have "lookup2_loop a n l h = lookup2_loop a n l (int m - 1)"
        using left True m be unfolding unf by (simp add: Let_def item)
      ultimately show ?thesis using less.hyps [of "int m - 1" l] less.prems m by simp
    next
      case right
      have "di_end (?ds ! k) < n" if "k < length ?ds" "int k < int m + 1" for k
      proof (cases "k = m")
        case False
        with that have "di_end (?ds ! k) < di_begin (?ds ! m)"
          using dl_sorted_nth [OF assms(2), of k m] m(4) by simp
        with be right show ?thesis by linarith
      qed (use right in simp)
      moreover have "lookup2_loop a n l h = lookup2_loop a n (int m + 1) h"
        using right True m be unfolding unf by (simp add: Let_def item)
      ultimately show ?thesis using less.hyps [of h "int m + 1"] less.prems m by simp
    qed
  qed
qed

lemma acl_dlink_lookup2_cases:
  assumes "dlink_ok a"
  obtains (miss) "acl_dlink_lookup2 a n = None" "n \<notin> dlink_set a"
    | (hit) k where "acl_dlink_lookup2 a n = Some (int k, array_objs a ! k)"
      "k < length (array_objs a)" "di_begin (array_objs a ! k) \<le> n" "n \<le> di_end (array_objs a ! k)"
proof -
  from assms have a: "array_full a" "dl_sorted (array_objs a)" by (auto simp: dlink_ok_def)
  have "case acl_dlink_lookup2 a n of
       None \<Rightarrow> n \<notin> dl_cover (array_objs a)
     | Some (i, p) \<Rightarrow> 0 \<le> i \<and> i < int (length (array_objs a)) \<and> p = array_objs a ! nat i \<and>
         di_begin p \<le> n \<and> n \<le> di_end p"
    unfolding acl_dlink_lookup2_def
    by (rule lookup2_loop [OF a]) (auto simp: array_size_objs [OF a(1)])
  then show ?thesis
  proof (cases "acl_dlink_lookup2 a n")
    case None
    with \<open>case acl_dlink_lookup2 a n of None \<Rightarrow> _ | Some _ \<Rightarrow> _\<close> show ?thesis
      by (intro miss) (auto simp: dlink_set_def)
  next
    case (Some ip)
    with \<open>case acl_dlink_lookup2 a n of None \<Rightarrow> _ | Some _ \<Rightarrow> _\<close> show ?thesis
      by (intro hit [of "nat (fst ip)"]) auto
  qed
qed

lemma acl_dlink_lookup_iff:
  assumes "dlink_ok a"
  shows "(\<exists>p. acl_dlink_lookup a n = Some p) \<longleftrightarrow> n \<in> dlink_set a"
proof (cases rule: acl_dlink_lookup2_cases [OF assms, of n])
  case 1
  then show ?thesis by (simp add: acl_dlink_lookup_def)
next
  case (2 k)
  then show ?thesis
    by (auto simp: acl_dlink_lookup_def dlink_set_def dl_cover_iff intro!: bexI [of _ "array_objs a ! k"])
qed

lemma lookup_larger_loop:
  assumes "array_full a"
  shows "k \<le> length (array_objs a) \<Longrightarrow>
    map_option snd (lookup_larger_loop a off (int k)) = List.find (\<lambda>p. off \<le> di_end p) (drop k (array_objs a))"
proof (induction "length (array_objs a) - k" arbitrary: k)
  case 0
  then show ?case by (subst lookup_larger_loop.simps) (simp add: array_size_objs [OF assms])
next
  case (Suc d)
  then have k: "k < length (array_objs a)" by simp
  then have "drop k (array_objs a) = array_objs a ! k # drop (Suc k) (array_objs a)"
    by (simp add: Cons_nth_drop_Suc)
  with k Suc.hyps(1) [of "Suc k"] Suc.hyps(2) show ?case
    by (subst lookup_larger_loop.simps)
       (simp add: array_size_objs [OF assms] dlink_item_objs [OF assms k] Let_def add.commute)
qed

lemma lookup_lower_loop:
  assumes "array_full a"
  shows "k \<le> length (array_objs a) \<Longrightarrow>
    map_option snd (lookup_lower_loop a off (int k - 1))
      = List.find (\<lambda>p. di_begin p \<le> off) (rev (take k (array_objs a)))"
proof (induction k)
  case 0
  then show ?case by (subst lookup_lower_loop.simps) simp
next
  case (Suc k)
  then have k: "k < length (array_objs a)" by simp
  with Suc show ?case
    by (subst lookup_lower_loop.simps)
       (simp add: dlink_item_objs [OF assms k] take_Suc_conv_app_nth Let_def)
qed

text \<open>The search by item stops one short of the last item.\<close>

lemma lookup2_by_item_loop:
  assumes "array_full a"
  shows "k \<le> length (array_objs a) \<Longrightarrow>
    (lookup2_by_item_loop a p (int k) \<noteq> None) = (p \<in> set (drop k (butlast (array_objs a))))"
proof (induction "length (array_objs a) - k" arbitrary: k)
  case 0
  then show ?case by (subst lookup2_by_item_loop.simps) (simp add: array_size_objs [OF assms])
next
  case (Suc d)
  then have k: "k < length (array_objs a)" by simp
  show ?case
  proof (cases "Suc k < length (array_objs a)")
    case True
    then have "k < length (butlast (array_objs a))" by simp
    then have "drop k (butlast (array_objs a)) = array_objs a ! k # drop (Suc k) (butlast (array_objs a))"
      by (metis Cons_nth_drop_Suc nth_butlast)
    with True Suc.hyps(1) [of "Suc k"] Suc.hyps(2) show ?thesis
      by (subst lookup2_by_item_loop.simps)
         (auto simp: array_size_objs [OF assms] array_index_objs [OF assms] add.commute)
  next
    case False
    then show ?thesis
      by (subst lookup2_by_item_loop.simps) (simp add: array_size_objs [OF assms])
  qed
qed

lemma acl_dlink_lookup_by_item_iff:
  "array_full a \<Longrightarrow> acl_dlink_lookup_by_item a p \<noteq> None \<longleftrightarrow> p \<in> set (butlast (array_objs a))"
  using lookup2_by_item_loop [of a 0 p]
  by (auto simp: acl_dlink_lookup_by_item_def acl_dlink_lookup2_by_item_def)

section \<open>Deletion\<close>

lemma dl_sorted_drop_one:
  assumes "dl_sorted ds" "k < length ds"
  shows "dl_sorted (take k ds @ drop (Suc k) ds)"
    "dl_cover (take k ds @ drop (Suc k) ds) = dl_cover ds - {di_begin (ds ! k) .. di_end (ds ! k)}"
proof -
  let ?xs = "take k ds" and ?p = "ds ! k" and ?ys = "drop (Suc k) ds"
  have ds: "ds = ?xs @ ?p # ?ys" using assms(2) by (rule id_take_nth_drop)
  with assms(1) have sorted: "dl_sorted (?xs @ ?p # ?ys)" by simp
  then show "dl_sorted (?xs @ ?ys)" by (auto simp: dl_sorted_simps)
  have "dl_cover ?xs \<inter> {di_begin ?p .. di_end ?p} = {}" "dl_cover ?ys \<inter> {di_begin ?p .. di_end ?p} = {}"
    using sorted by (force simp: dl_sorted_simps dl_cover_iff)+
  moreover have "dl_cover ds = dl_cover (?xs @ ?p # ?ys)" using arg_cong [OF ds, of dl_cover] .
  ultimately show "dl_cover (?xs @ ?ys) = dl_cover ds - {di_begin ?p .. di_end ?p}"
    unfolding dl_cover_simps by blast
qed

lemma acl_dlink_delete_item:
  assumes ok: "dlink_ok a" and k: "acl_dlink_lookup2 a n = Some (int k, p)" "k < length (array_objs a)"
    "p = array_objs a ! k"
  shows "fst (acl_dlink_delete a n) = 0" "dlink_ok (snd (acl_dlink_delete a n))"
    "dlink_set (snd (acl_dlink_delete a n)) = dlink_set a - {di_begin p .. di_end p}"
proof -
  have full: "array_full a" and sorted: "dl_sorted (array_objs a)" using ok by (auto simp: dlink_ok_def)
  note d = array_delete_idx_objs [OF full k(2), of True] dl_sorted_drop_one [OF sorted k(2)]
  show "fst (acl_dlink_delete a n) = 0" by (simp add: acl_dlink_delete_def k(1))
  show "dlink_ok (snd (acl_dlink_delete a n))"
    "dlink_set (snd (acl_dlink_delete a n)) = dlink_set a - {di_begin p .. di_end p}"
    using d by (simp_all add: acl_dlink_delete_def k(1,3) dlink_ok_def dlink_set_def del: dl_cover_simps)
qed

subsection \<open>Deleting a range\<close>

text \<open>What the second loop and the final array deletion leave of the items after \<open>low\<close>.\<close>

fun cut_tail :: "int \<Rightarrow> 'p ditem list \<Rightarrow> 'p ditem list" where
  "cut_tail e [] = []"
| "cut_tail e (v # vs) =
     (if di_end v \<le> e then cut_tail e vs
      else if e < di_begin v then v # vs
      else v\<lparr>di_begin := e + 1\<rparr> # vs)"

lemma cut_tail_id: "\<forall>q \<in> set vs. e < di_begin q \<and> di_begin q \<le> di_end q \<Longrightarrow> cut_tail e vs = vs"
  by (cases vs) auto

lemma cut_tail_all: "\<forall>q \<in> set vs. di_end q \<le> e \<Longrightarrow> cut_tail e vs = []"
  by (induction vs) auto

lemma cut_tail_begins:
  "dl_sorted vs \<Longrightarrow> q \<in> set (cut_tail e vs) \<Longrightarrow> e < di_begin q \<and> (\<exists>r \<in> set vs. di_begin r \<le> di_begin q)"
proof (induction vs)
  case (Cons v vs)
  then show ?case by (fastforce simp: dl_sorted_simps split: if_splits)
qed simp

lemma cut_tail_sorted: "dl_sorted vs \<Longrightarrow> dl_sorted (cut_tail e vs)"
  by (induction vs) (auto simp: dl_sorted_simps)

lemma cut_tail_cover: "dl_sorted vs \<Longrightarrow> dl_cover (cut_tail e vs) = dl_cover vs - {..e}"
proof (induction vs)
  case (Cons v vs)
  consider "di_end v \<le> e" | "e < di_begin v" | "di_begin v \<le> e" "e < di_end v" by linarith
  then show ?case
  proof cases
    case 2
    with Cons.prems have "dl_cover vs \<inter> {..e} = {}"
      by (fastforce simp: dl_sorted_simps dl_cover_iff)
    with Cons 2 show ?thesis by (auto simp: dl_sorted_simps)
  next
    case 3
    with Cons.prems have "dl_cover vs \<inter> {..e} = {}"
      by (fastforce simp: dl_sorted_simps dl_cover_iff)
    with Cons 3 show ?thesis by (auto simp: dl_sorted_simps)
  qed (use Cons in \<open>auto simp: dl_sorted_simps\<close>)
qed simp

lemma delete_range_high:
  assumes "array_full a" "array_objs a = us @ zs" "dl_sorted zs"
    and "delete_range_high a e (acl_array_size a) (int (length us)) = (h, a')"
  shows "array_full a' \<and> length (array_objs a') = length (array_objs a) \<and>
    int (length us) - 1 \<le> h \<and> h < int (length (array_objs a)) \<and>
    take (length us) (array_objs a') = us \<and>
    drop (nat (h + 1)) (array_objs a') = cut_tail e zs"
  using assms(2-)
proof (induction zs arbitrary: us)
  case Nil
  then show ?case using assms(1)
    by (subst (asm) delete_range_high.simps) (auto simp: array_size_objs)
next
  case (Cons v vs)
  let ?k = "length us"
  have k: "?k < length (array_objs a)" "array_objs a ! ?k = v" using Cons.prems(1) by auto
  have item: "dlink_item a (int ?k) = v" using dlink_item_objs [OF assms(1) k(1)] k(2) by simp
  have sz: "acl_array_size a = int (length (array_objs a))" by (rule array_size_objs [OF assms(1)])
  have v: "di_begin v \<le> di_end v" "\<forall>q \<in> set vs. di_end v < di_begin q" "dl_sorted vs"
    using Cons.prems(2) by (auto simp: dl_sorted_simps)
  note unf = delete_range_high.simps [of a e "acl_array_size a" "int ?k"]
  have wr: "array_objs (dlink_write a (int ?k) p) = us @ p # vs" "array_full (dlink_write a (int ?k) p)" for p
    using dlink_write_objs [OF assms(1), of ?k p] Cons.prems(1) by simp_all
  consider (skip) "di_end v < e" | (gap) "e < di_begin v" | (exact) "e = di_end v"
    | (cut) "di_begin v \<le> e" "e < di_end v" using v(1) by linarith
  then show ?case
  proof cases
    case skip
    then have "delete_range_high a e (acl_array_size a) (int (length (us @ [v]))) = (h, a')"
      using Cons.prems(3) k(1) unfolding unf by (simp add: item sz Let_def add.commute)
    with Cons.IH [of "us @ [v]"] Cons.prems(1) v(3) skip k(1) show ?thesis
      by (auto simp: take_Suc_conv_app_nth append_eq_append_conv_if)
  next
    case gap
    with v(1) Cons.prems(3) k(1) have "h = int ?k - 1" "a' = a"
      unfolding unf by (simp_all add: item sz Let_def)
    with gap v(1) Cons.prems(1) assms(1) show ?thesis by simp
  next
    case exact
    with v(1) Cons.prems(3) k(1) have h: "h = int ?k" "a' = a"
      unfolding unf by (simp_all add: item sz Let_def split: if_splits)
    have "cut_tail e vs = vs" using v exact dl_sorted_item [OF v(3)] by (intro cut_tail_id) auto
    with h exact Cons.prems(1) assms(1) show ?thesis by (simp add: nat_add_distrib)
  next
    case cut
    with Cons.prems(3) k(1) have "h = int ?k - 1" "a' = dlink_write a (int ?k) (v\<lparr>di_begin := e + 1\<rparr>)"
      unfolding unf by (auto simp: item sz Let_def split: if_splits)
    with cut wr Cons.prems(1) show ?thesis by simp
  qed
qed

definition delete_range_rest :: "'p acl_dlink \<Rightarrow> int \<Rightarrow> int \<Rightarrow> int \<Rightarrow> int \<times> 'p acl_dlink" where
  "delete_range_rest a e sz low =
     (case delete_range_high a e sz (low + 1) of
        (high, a) \<Rightarrow>
          if low > high then (0, a)
          else (case acl_array_delete_range a low high True of (ret, _, a) \<Rightarrow> (ret, a)))"

lemma delete_range_unfold:
  "acl_dlink_delete_range a b e =
     (case delete_range_low a b e (acl_array_size a) 0 of
        Inr r \<Rightarrow> r | Inl (low, a') \<Rightarrow> delete_range_rest a' e (acl_array_size a) low)"
  unfolding acl_dlink_delete_range_def delete_range_rest_def Let_def by (rule refl)

lemma delete_range_rest:
  assumes "array_full a" "array_objs a = us @ w # zs" "dl_sorted zs"
  shows "fst (delete_range_rest a e (acl_array_size a) (int (length us))) = 0 \<and>
    array_full (snd (delete_range_rest a e (acl_array_size a) (int (length us)))) \<and>
    array_objs (snd (delete_range_rest a e (acl_array_size a) (int (length us)))) = us @ cut_tail e zs"
proof -
  obtain h a' where ha: "delete_range_high a e (acl_array_size a) (int (length us) + 1) = (h, a')"
    by fastforce
  then have "delete_range_high a e (acl_array_size a) (int (length (us @ [w]))) = (h, a')"
    by (simp add: add.commute)
  from delete_range_high [OF assms(1) _ assms(3) this] assms(2)
  have a': "array_full a'" "length (array_objs a') = length (array_objs a)"
    "int (length us) \<le> h" "h < int (length (array_objs a'))"
    "take (Suc (length us)) (array_objs a') = us @ [w]"
    "drop (nat (h + 1)) (array_objs a') = cut_tail e zs"
    by auto
  define n where "n = nat h"
  have n: "h = int n" "length us \<le> n" "n < length (array_objs a')" "nat (h + 1) = Suc n"
    using a'(3,4) by (auto simp: n_def)
  have "take (length us) (array_objs a') = us"
    using arg_cong [OF a'(5), of "take (length us)"] by (simp add: min_def)
  then show ?thesis
    using array_delete_range_objs [OF a'(1) n(2,3), of True] a'(6) n
    by (simp add: delete_range_rest_def ha split_beta)
qed

lemma delete_range_low_skip:
  assumes "array_full a" "i \<le> length (array_objs a)"
    and "\<And>j. j < i \<Longrightarrow> di_end (array_objs a ! j) < b"
  shows "delete_range_low a b e (acl_array_size a) 0 = delete_range_low a b e (acl_array_size a) (int i)"
  using assms(2,3)
proof (induction i)
  case (Suc i)
  then have i: "i < length (array_objs a)" by simp
  have "delete_range_low a b e (acl_array_size a) (int i)
      = delete_range_low a b e (acl_array_size a) (int (Suc i))"
    using Suc.prems(2) [of i] i
    by (subst delete_range_low.simps)
       (simp add: array_size_objs [OF assms(1)] dlink_item_objs [OF assms(1) i] Let_def add.commute)
  with Suc show ?case by simp
qed simp

lemma delete_range_low_end:
  "delete_range_low a b e (acl_array_size a) (acl_array_size a) = Inl (0, a)"
  by (subst delete_range_low.simps) simp

text \<open>The chain splits at the first item that ends at or after \<open>b\<close>.\<close>

lemma delete_range_at:
  assumes "array_full a" "array_objs a = xs @ p # ys" "\<forall>q \<in> set xs. di_end q < b" "b \<le> di_end p"
  shows "delete_range_low a b e (acl_array_size a) 0
    = delete_range_low a b e (acl_array_size a) (int (length xs))"
  using assms by (intro delete_range_low_skip) (auto simp: nth_append)

text \<open>The range reaches no item: the code still changes the chain.\<close>

lemma delete_range_beyond:
  assumes "array_full a" "dl_sorted (array_objs a)" "\<forall>q \<in> set (array_objs a). di_end q < b" "b \<le> e"
    "array_objs a \<noteq> []"
  shows "array_objs (snd (acl_dlink_delete_range a b e)) = []"
proof -
  obtain w zs where wz: "array_objs a = [] @ w # zs" using assms(5) by (cases "array_objs a") auto
  have "delete_range_low a b e (acl_array_size a) 0 = Inl (0, a)"
    using delete_range_low_skip [OF assms(1), of "length (array_objs a)" b e]
      delete_range_low_end [of a b e] assms(3) array_size_objs [OF assms(1)] by simp
  then have "acl_dlink_delete_range a b e = delete_range_rest a e (acl_array_size a) (int (length ([] :: 'a ditem list)))"
    by (simp add: delete_range_unfold)
  moreover have "cut_tail e zs = []"
    using assms(3,4) wz by (intro cut_tail_all) auto
  moreover have "dl_sorted zs" using assms(2) wz by (simp add: dl_sorted_simps)
  ultimately show ?thesis
    using delete_range_rest [OF assms(1) wz] by simp
qed

lemma delete_range_gap:
  assumes "array_full a" "array_objs a = xs @ p # ys" "\<forall>q \<in> set xs. di_end q < b"
    "b \<le> e" "e < di_begin p" "di_begin p \<le> di_end p"
  shows "array_objs (snd (acl_dlink_delete_range a b e)) = xs @ p\<lparr>di_begin := e + 1\<rparr> # ys"
proof -
  let ?k = "length xs"
  have k: "?k < length (array_objs a)" using assms(2) by simp
  have "delete_range_low a b e (acl_array_size a) 0
      = Inr (0, dlink_write a (int ?k) (p\<lparr>di_begin := e + 1\<rparr>))"
    using assms k unfolding delete_range_at [OF assms(1-3) order_trans [OF assms(4) order_trans [OF less_imp_le [OF assms(5)] assms(6)]]]
    by (subst delete_range_low.simps)
       (simp add: array_size_objs [OF assms(1)] dlink_item_objs [OF assms(1) k] Let_def)
  then show ?thesis
    using assms(2) by (simp add: delete_range_unfold dlink_write_objs [OF assms(1)])
qed

text \<open>The range reaches an item: it is cut out of the chain, and nothing else is.\<close>

definition dlink_removed :: "'p acl_dlink \<Rightarrow> int \<Rightarrow> int \<Rightarrow> int \<times> 'p acl_dlink \<Rightarrow> bool" where
  "dlink_removed a b e res \<longleftrightarrow>
     fst res = 0 \<and> dlink_ok (snd res) \<and> dlink_set (snd res) = dlink_set a - {b .. e}"

lemma removed_list:
  assumes "array_full a'" "array_objs a' = ds'" "dl_sorted ds'"
    "dl_cover ds' = dl_cover (array_objs a) - {b .. e}"
  shows "dlink_removed a b e (0, a')"
  using assms by (simp add: dlink_removed_def dlink_ok_def dlink_set_def)

lemma cover_before: "\<forall>q \<in> set xs. di_end q < b \<Longrightarrow> n \<in> dl_cover xs \<Longrightarrow> n < b"
  by (fastforce simp: dl_cover_iff)

lemma cover_after: "\<forall>q \<in> set ys. e < di_begin q \<Longrightarrow> n \<in> dl_cover ys \<Longrightarrow> e < n"
  by (fastforce simp: dl_cover_iff)

text \<open>Cutting \<open>b .. e\<close> out of a middle interval, between a part before it and a part after.\<close>

lemma cut_sets:
  fixes b e pb pe :: int
  assumes "\<And>n. n \<in> X \<Longrightarrow> n < b" "\<And>n. n \<in> Y \<Longrightarrow> pe < n" "b \<le> pb" "pb \<le> e"
  shows "e < pe \<Longrightarrow> X \<union> ({e + 1 .. pe} \<union> Y) = X \<union> ({pb .. pe} \<union> Y) - {b .. e}"
    "e = pe \<Longrightarrow> X \<union> Y = X \<union> ({pb .. pe} \<union> Y) - {b .. e}"
    "pe \<le> e \<Longrightarrow> pb \<le> pe \<Longrightarrow> X \<union> (Y - {..e}) = X \<union> ({pb .. pe} \<union> Y) - {b .. e}"
  using assms by (fastforce intro!: set_eqI)+

text \<open>The item at \<open>i\<close> lies inside the range from its beginning on.\<close>

lemma delete_range_case_from:
  assumes full: "array_full a" and objs: "array_objs a = xs @ p # ys" and sorted: "dl_sorted (xs @ p # ys)"
    and xs: "\<forall>q \<in> set xs. di_end q < b" and p: "b \<le> di_begin p" "di_begin p \<le> e"
  shows "dlink_removed a b e (acl_dlink_delete_range a b e)"
proof -
  let ?k = "length xs"
  have k: "?k < length (array_objs a)" "array_objs a ! ?k = p" using objs by simp_all
  have item: "dlink_item a (int ?k) = p" using dlink_item_objs [OF full k(1)] k(2) by simp
  have pe: "di_begin p \<le> di_end p" "b \<le> di_end p" using sorted p by (simp_all add: dl_sorted_simps)
  note at = delete_range_at [OF full objs xs pe(2)]
  note unf = delete_range_low.simps [of a b e "acl_array_size a" "int ?k"]
  have low: "delete_range_low a b e (acl_array_size a) 0 =
    (if e < di_end p then Inr (0, dlink_write a (int ?k) (p\<lparr>di_begin := e + 1\<rparr>))
     else if e = di_end p then Inr (0, snd (snd (acl_array_delete_idx a (int ?k) True)))
     else Inl (int ?k, a))"
    using k(1) pe p(1) unfolding at unf by (simp add: array_size_objs [OF full] item Let_def)
  have ys': "\<forall>q \<in> set ys. di_end p < di_begin q" "dl_sorted ys" using sorted by (auto simp: dl_sorted_simps)
  have cov: "dl_cover (array_objs a) = dl_cover xs \<union> ({di_begin p .. di_end p} \<union> dl_cover ys)"
    using objs by simp
  note cut = cut_sets [of "dl_cover xs" b "dl_cover ys" "di_end p",
      OF cover_before [OF xs] cover_after [OF ys'(1)] p]
  consider "e < di_end p" | "e = di_end p" | "di_end p < e" by linarith
  then show ?thesis
  proof cases
    case 1
    let ?p = "p\<lparr>di_begin := e + 1\<rparr>"
    have "dl_sorted (xs @ ?p # ys)" using sorted 1 p by (auto simp: dl_sorted_simps)
    then show ?thesis
      using 1 low dlink_write_objs [OF full, of ?k ?p] objs cut(1) cov
      by (simp add: delete_range_unfold removed_list)
  next
    case 2
    have "dl_sorted (xs @ ys)" using sorted by (auto simp: dl_sorted_simps)
    then show ?thesis
      using 2 low array_delete_idx_objs [OF full k(1), of True] objs cut(2) cov
      by (simp add: delete_range_unfold removed_list)
  next
    case 3
    have "dl_sorted (xs @ cut_tail e ys)"
      using sorted cut_tail_sorted [OF ys'(2)] cut_tail_begins [OF ys'(2)]
      by (fastforce simp: dl_sorted_simps)
    moreover have "dl_cover (xs @ cut_tail e ys) = dl_cover (array_objs a) - {b .. e}"
      using 3 pe(1) cut(3) by (simp add: cov cut_tail_cover [OF ys'(2)])
    ultimately show ?thesis
      using 3 low delete_range_rest [OF full objs ys'(2), of e]
      by (simp add: delete_range_unfold dlink_removed_def dlink_ok_def dlink_set_def del: dl_cover_simps)
  qed
qed

lemma keep_sets:
  fixes b e pb pe :: int
  assumes "\<And>n. n \<in> X \<Longrightarrow> n < b" "\<And>n. n \<in> Y \<Longrightarrow> pe < n" "pb < b" "b \<le> pe" "b \<le> e"
  shows "e = pe \<Longrightarrow> X \<union> ({pb .. b - 1} \<union> Y) = X \<union> ({pb .. pe} \<union> Y) - {b .. e}"
    "e < pe \<Longrightarrow> X \<union> ({pb .. b - 1} \<union> Y) \<union> {e + 1 .. pe} = X \<union> ({pb .. pe} \<union> Y) - {b .. e}"
    "pe < e \<Longrightarrow> X \<union> ({pb .. b - 1} \<union> (Y - {..e})) = X \<union> ({pb .. pe} \<union> Y) - {b .. e}"
  using assms by (fastforce intro!: set_eqI)+

text \<open>The range starts inside the item at \<open>i\<close> and runs past its end.\<close>

lemma delete_range_past:
  assumes full: "array_full a" and objs: "array_objs a = xs @ p # ys" and sorted: "dl_sorted (xs @ p # ys)"
    and xs: "\<forall>q \<in> set xs. di_end q < b" and p: "di_begin p < b" "b \<le> di_end p" "di_end p < e"
  shows "fst (acl_dlink_delete_range a b e) = 0 \<and> array_full (snd (acl_dlink_delete_range a b e)) \<and>
    array_objs (snd (acl_dlink_delete_range a b e)) = xs @ p\<lparr>di_end := b - 1\<rparr> # cut_tail e ys"
proof -
  let ?k = "length xs" and ?p = "p\<lparr>di_end := b - 1\<rparr>"
  let ?a = "dlink_write a (int ?k) ?p"
  have k: "?k < length (array_objs a)" "array_objs a ! ?k = p" using objs by simp_all
  have item: "dlink_item a (int ?k) = p" using dlink_item_objs [OF full k(1)] k(2) by simp
  have a': "array_full ?a" "array_objs ?a = (xs @ [?p]) @ ys"
    using dlink_write_objs [OF full, of ?k ?p] objs by simp_all
  have sz: "acl_array_size a = int (?k + 1 + length ys)" "acl_array_size ?a = acl_array_size a"
    using array_size_objs [OF full] array_size_objs [OF a'(1)] a'(2) objs by simp_all
  note at = delete_range_at [OF full objs xs p(2)]
  note unf = delete_range_low.simps [of a b e "acl_array_size a" "int ?k"]
  show ?thesis
  proof (cases ys)
    case Nil
    then have "delete_range_low a b e (acl_array_size a) 0 = Inr (0, ?a)"
      using p unfolding at unf by (simp add: sz(1) item Let_def)
    with a' Nil show ?thesis by (simp add: delete_range_unfold)
  next
    case (Cons q zs)
    let ?q = "q\<lparr>di_begin := e + 1\<rparr>"
    have k1: "Suc ?k < length (array_objs ?a)" "array_objs ?a ! Suc ?k = q"
      using a'(2) Cons by (simp_all add: nth_append)
    have "dlink_item ?a (int ?k + 1) = q"
      using dlink_item_objs [OF a'(1) k1(1)] k1(2) by (simp add: add.commute)
    then have low: "delete_range_low a b e (acl_array_size a) 0 =
      (if di_begin q > e then Inr (0, ?a)
       else if e < di_end q then Inr (0, dlink_write ?a (int (Suc ?k)) ?q)
       else if e = di_end q then Inr (0, snd (snd (acl_array_delete_idx ?a (int (Suc ?k)) True)))
       else Inl (int (length (xs @ [?p])), ?a))"
      using p Cons unfolding at unf by (simp add: sz(1) item Let_def add.commute)
    have q: "di_begin q \<le> di_end q" "dl_sorted zs" "\<forall>r \<in> set zs. di_end q < di_begin r"
      using sorted Cons by (auto simp: dl_sorted_simps)
    consider "e < di_begin q" | "di_begin q \<le> e" "e < di_end q" | "e = di_end q" | "di_end q < e"
      by linarith
    then show ?thesis
    proof cases
      case 1
      with low q a' Cons show ?thesis by (simp add: delete_range_unfold)
    next
      case 2
      with low dlink_write_objs [OF a'(1), of "Suc ?k" ?q] a'(2) Cons show ?thesis
        by (simp add: delete_range_unfold list_update_append)
    next
      case 3
      have "cut_tail e zs = zs"
        using q 3 dl_sorted_item [OF q(2)] by (intro cut_tail_id) auto
      with 3 low q array_delete_idx_objs [OF a'(1) k1(1), of True] a'(2) Cons show ?thesis
        by (simp add: delete_range_unfold)
    next
      case 4
      have objs': "array_objs ?a = (xs @ [?p]) @ q # zs" using a'(2) Cons by simp
      from 4 low q(1) delete_range_rest [OF a'(1) objs' q(2), of e] Cons sz show ?thesis
        by (simp add: delete_range_unfold)
    qed
  qed
qed

lemma delete_range_case_inside:
  assumes full: "array_full a" and objs: "array_objs a = xs @ p # ys" and sorted: "dl_sorted (xs @ p # ys)"
    and xs: "\<forall>q \<in> set xs. di_end q < b" and p: "di_begin p < b" "b \<le> di_end p" "b \<le> e"
    and small: "dlink_small a"
  shows "dlink_removed a b e (acl_dlink_delete_range a b e)"
proof -
  let ?k = "length xs" and ?p = "p\<lparr>di_end := b - 1\<rparr>"
  let ?a = "dlink_write a (int ?k) ?p"
  have k: "?k < length (array_objs a)" "array_objs a ! ?k = p" using objs by simp_all
  have item: "dlink_item a (int ?k) = p" using dlink_item_objs [OF full k(1)] k(2) by simp
  have a': "array_full ?a" "array_objs ?a = xs @ ?p # ys"
    using dlink_write_objs [OF full, of ?k ?p] objs by simp_all
  have sorted': "dl_sorted (xs @ ?p # ys)" using sorted p by (auto simp: dl_sorted_simps)
  have ys: "\<forall>q \<in> set ys. di_end p < di_begin q" "dl_sorted ys" using sorted by (auto simp: dl_sorted_simps)
  have cov: "dl_cover (array_objs a) = dl_cover xs \<union> ({di_begin p .. di_end p} \<union> dl_cover ys)"
    using objs by simp
  note keep = keep_sets [of "dl_cover xs" b "dl_cover ys" "di_end p",
      OF cover_before [OF xs] cover_after [OF ys(1)] p]
  note at = delete_range_at [OF full objs xs p(2)]
  note unf = delete_range_low.simps [of a b e "acl_array_size a" "int ?k"]
  consider "e = di_end p" | "e < di_end p" | "di_end p < e" by linarith
  then show ?thesis
  proof cases
    case 1
    then have "acl_dlink_delete_range a b e = (0, ?a)"
      using k(1) p unfolding delete_range_unfold at unf by (simp add: array_size_objs [OF full] item Let_def)
    with a' sorted' keep(1) 1 cov show ?thesis by (simp add: removed_list)
  next
    case 2
    then have eq: "acl_dlink_delete_range a b e = (0, snd (dlink_add ?a (e + 1) (di_end p)))"
      using k(1) p unfolding delete_range_unfold at unf by (simp add: array_size_objs [OF full] item Let_def)
    have "dlink_added ?a (e + 1) (di_end p) (dlink_add ?a (e + 1) (di_end p))"
    proof (rule dlink_add_union)
      have "dlink_set ?a \<subseteq> dlink_set a"
        using objs a'(2) p by (auto simp: dlink_set_def)
      then show "dlink_small ?a" using small by (auto simp: dlink_small_def)
      show "has_succ64 (di_end p)"
        using dlink_small_end [OF _ small, of p] full objs sorted by (simp add: dlink_ok_def)
    qed (use 2 a' sorted' in \<open>auto simp: dlink_ok_def\<close>)
    with a' keep(2) 2 cov show ?thesis
      unfolding eq dlink_removed_def dlink_added_def dlink_set_def by simp
  next
    case 3
    have "dl_sorted (xs @ ?p # cut_tail e ys)"
      using sorted' cut_tail_sorted [OF ys(2)] cut_tail_begins [OF ys(2)] p
      by (fastforce simp: dl_sorted_simps)
    with delete_range_past [OF full objs sorted xs p(1,2) 3] keep(3) 3 cov show ?thesis
      by (simp add: dlink_removed_def dlink_ok_def dlink_set_def cut_tail_cover [OF ys(2)])
  qed
qed

lemma acl_dlink_delete_range_removes:
  assumes ok: "dlink_ok a" and be: "b \<le> e" and hit: "dlink_set a \<inter> {b .. e} \<noteq> {}"
    and small: "dlink_small a"
  shows "dlink_removed a b e (acl_dlink_delete_range a b e)"
proof -
  have full: "array_full a" and sorted: "dl_sorted (array_objs a)" using ok by (auto simp: dlink_ok_def)
  from hit obtain q n where q: "q \<in> set (array_objs a)" "di_begin q \<le> n" "n \<le> di_end q" "b \<le> n" "n \<le> e"
    by (auto simp: dlink_set_def dl_cover_iff)
  have "\<exists>q \<in> set (array_objs a). b \<le> di_end q" using q by (intro bexI [of _ q]) auto
  from split_list_first_prop [OF this]
  obtain xs p ys where objs: "array_objs a = xs @ p # ys" and p: "b \<le> di_end p"
    and xs: "\<forall>q \<in> set xs. \<not> b \<le> di_end q"
    by auto
  have xs': "\<forall>q \<in> set xs. di_end q < b" using xs by auto
  have "q \<notin> set xs" using xs q by auto
  with q(1) have "di_begin p \<le> di_begin q"
    using sorted unfolding objs by (auto simp: dl_sorted_simps)
  with q have pe: "di_begin p \<le> e" by simp
  have sorted': "dl_sorted (xs @ p # ys)" using sorted objs by simp
  show ?thesis
    using delete_range_case_from [OF full objs sorted' xs'] delete_range_case_inside [OF full objs sorted' xs' _ _ _ small] p pe be
    by (cases "b \<le> di_begin p") auto
qed

section \<open>Iterating, freeing, and what insertion keeps\<close>

definition dlink_iter_head where
  "dlink_iter_head it (a :: 'p acl_dlink) = array_iter_head it a"

definition dlink_iter_next where
  "dlink_iter_next it (a :: 'p acl_dlink) = array_iter_next it a"

definition dlink_iter_tail where
  "dlink_iter_tail it (a :: 'p acl_dlink) = array_iter_tail it a"

definition dlink_iter_prev where
  "dlink_iter_prev it (a :: 'p acl_dlink) = array_iter_prev it a"

text \<open>The items that \<open>acl_dlink_free\<close> frees.\<close>

definition acl_dlink_free :: "'p acl_dlink \<Rightarrow> 'p ditem list" where
  "acl_dlink_free a = acl_array_free a True"

interpretation dlink_iter: iteration dlink_iter_head dlink_iter_next array_objs array_full array_iter_at
  by unfold_locales (simp_all add: dlink_iter_head_def dlink_iter_next_def array_iter.head_at
      array_iter.next_at array_iter.at_ptr)

interpretation dlink_riter: iteration dlink_iter_tail dlink_iter_prev "\<lambda>a. rev (array_objs a)"
  array_full array_riter_at
  by unfold_locales (simp_all add: dlink_iter_tail_def dlink_iter_prev_def array_riter.head_at
      array_riter.next_at array_riter.at_ptr [simplified])

lemma dlink_insert_small:
  "dlink_ok a \<Longrightarrow> dlink_small a \<Longrightarrow> has_succ64 b \<Longrightarrow> has_succ64 e \<Longrightarrow>
   dlink_small (snd (acl_dlink_insert a b e))"
  using acl_dlink_insert_union [of a b e]
  by (auto simp: dlink_small_def dlink_added_def has_succ64_def max_def)

definition dlink_inserts :: "'p acl_dlink \<Rightarrow> (int \<times> int) list \<Rightarrow> 'p acl_dlink" where
  "dlink_inserts a rs = fold (\<lambda>(b, e) c. snd (acl_dlink_insert c b e)) rs a"

lemma dlink_inserts:
  "dlink_ok a \<Longrightarrow> dlink_small a \<Longrightarrow> \<forall>(b, e) \<in> set rs. has_succ64 b \<and> has_succ64 e \<Longrightarrow>
   dlink_ok (dlink_inserts a rs) \<and> dlink_set (dlink_inserts a rs) = dlink_set a \<union> (\<Union>(b, e) \<in> set rs. {min b e .. max b e})"
proof (induction rs arbitrary: a)
  case (Cons r rs)
  obtain b e where r: "r = (b, e)" by (cases r)
  have ends: "has_succ64 b" "has_succ64 e" using Cons.prems(3) by (auto simp: r)
  then have "has_succ64 (max b e)" by (simp add: max_def)
  note one = acl_dlink_insert_union [OF Cons.prems(1,2) this, unfolded dlink_added_def]
  then show ?case
    using Cons.IH [of "snd (acl_dlink_insert a b e)"] dlink_insert_small [OF Cons.prems(1,2) ends] Cons.prems(3)
    by (auto simp: r dlink_inserts_def)
qed (simp add: dlink_inserts_def)

lemma acl_dlink_create:
  "\<exists>a. acl_dlink_create n = Some a \<and> dlink_ok a \<and> array_objs a = []"
  using acl_array_create [of "if n > 0 then n else 1"]
  by (auto simp: acl_dlink_create_def dlink_ok_def array_full_def array_objs_def)

section \<open>Properties\<close>

text \<open>C32: after any sequence of insertions into a fresh chain, of overlapping, nested,
  adjacent or reversed ranges in any order, the items are sorted and disjoint, and a lookup
  finds an item exactly for the numbers that one of the ranges contains. The ranges are of
  64-bit numbers and none ends at the last of them, 2^63 - 1, whose successor the code
  computes (\<open>dlink_int64_max\<close> is that case).\<close>

theorem dlink_inserts_cover:
  assumes "\<forall>(b, e) \<in> set rs. has_succ64 b \<and> has_succ64 e"
  shows "\<exists>a. acl_dlink_create n = Some (a :: 'p acl_dlink) \<and> dlink_ok (dlink_inserts a rs) \<and>
     (\<forall>k. (acl_dlink_lookup (dlink_inserts a rs) k \<noteq> None) = (\<exists>(b, e) \<in> set rs. min b e \<le> k \<and> k \<le> max b e))"
proof -
  obtain a :: "'p acl_dlink" where a: "acl_dlink_create n = Some a" "dlink_ok a" "array_objs a = []"
    using acl_dlink_create [of n] by blast
  have "dlink_small a" using a(3) by (simp add: dlink_small_def dlink_set_def)
  note ins = dlink_inserts [OF a(2) this assms]
  have "acl_dlink_lookup (dlink_inserts a rs) k \<noteq> None \<longleftrightarrow> (\<exists>(b, e) \<in> set rs. min b e \<le> k \<and> k \<le> max b e)" for k
    using acl_dlink_lookup_iff [of "dlink_inserts a rs" k] ins a(3)
    by (simp add: dlink_set_def) force
  with a ins show ?thesis by blast
qed

text \<open>Reversed, nested and adjacent ranges with an end one below the limit.\<close>

theorem dlink_inserts_cover_witness:
  "\<exists>a. acl_dlink_create 4 = Some (a :: unit acl_dlink) \<and>
     acl_dlink_lookup (dlink_inserts a [(9, 3), (4, 5), (10, 12), (100, 2 ^ 63 - 2)]) 12 \<noteq> None \<and>
     acl_dlink_lookup (dlink_inserts a [(9, 3), (4, 5), (10, 12), (100, 2 ^ 63 - 2)]) 13 = None"
proof -
  let ?rs = "[(9, 3), (4, 5), (10, 12), (100, 2 ^ 63 - 2)] :: (int \<times> int) list"
  have "\<forall>(b, e) \<in> set ?rs. has_succ64 b \<and> has_succ64 e" by (simp add: has_succ64_def)
  from dlink_inserts_cover [OF this, of 4] obtain a :: "unit acl_dlink" where
    a: "acl_dlink_create 4 = Some a"
      "\<forall>k. (acl_dlink_lookup (dlink_inserts a ?rs) k \<noteq> None) = (\<exists>(b, e) \<in> set ?rs. min b e \<le> k \<and> k \<le> max b e)"
    by blast
  show ?thesis using a(1) spec [OF a(2), of 12] spec [OF a(2), of 13] by (intro exI [of _ a]) simp
qed

text \<open>A range that ends at the last 64-bit number takes in nothing any more: its \<open>end + 1\<close>
  is the lowest number, so a range inside it is stored as an item of its own, and the chain
  is no longer sorted and disjoint.\<close>

theorem dlink_int64_max:
  "\<exists>a. acl_dlink_create 4 = Some (a :: unit acl_dlink) \<and>
     array_objs (dlink_inserts a [(0, 2 ^ 63 - 1), (5, 6)]) = [new_ditem 0 (2 ^ 63 - 1), new_ditem 5 6] \<and>
     \<not> dlink_ok (dlink_inserts a [(0, 2 ^ 63 - 1), (5, 6)])"
proof -
  obtain a :: "unit acl_dlink" where a: "acl_dlink_create 4 = Some a" "dlink_ok a" "array_objs a = []"
    using acl_dlink_create [of 4] by blast
  define m :: int where "m = 2 ^ 63 - 1"
  define a1 where "a1 = snd (acl_dlink_insert a 0 m)"
  have full: "array_full a" using a(2) by (simp add: dlink_ok_def)
  have "0 \<le> m" by (simp add: m_def)
  then have a1: "array_full a1" "array_objs a1 = [new_ditem 0 m]"
    using dlink_append_objs [OF full, of 0 m] a(3)
    by (simp_all add: a1_def acl_dlink_insert_def array_size_objs [OF full])
  have item: "dlink_item a1 0 = new_ditem 0 m"
    using dlink_item_objs [OF a1(1), of 0] a1(2) by simp
  have pos: "scope_pos a1 n = 0" for n
    unfolding scope_pos_def by (subst scope_loop.simps) (simp add: array_size_objs [OF a1(1)] a1(2) Let_def)
  have wrap: "succ64 m = - (2 ^ 63)" "succ64 6 = 7"
    by (simp_all add: succ64_def m_def signed_take_bit_int_eq_self)
  have "acl_dlink_insert a1 5 6 = dlink_succ_insert a1 0 5 6"
    by (simp add: acl_dlink_insert_def dlink_add_def begin_pos_def end_pos_def pos dlink_add_same_def item
        wrap array_size_objs [OF a1(1)] a1(2) new_ditem_def Let_def)
  then have "array_objs (dlink_inserts a [(0, m), (5, 6)]) = [new_ditem 0 m, new_ditem 5 6]"
    using dlink_succ_insert_objs(2) [OF a1(1), of 0 5 6] a1(2) by (simp add: dlink_inserts_def a1_def)
  moreover from this \<open>0 \<le> m\<close> have "\<not> dlink_ok (dlink_inserts a [(0, m), (5, 6)])"
    by (auto simp: dlink_ok_def dl_sorted_def new_ditem_def m_def)
  ultimately show ?thesis using a(1) unfolding m_def by blast
qed

text \<open>one insertion adds exactly the given range to the numbers covered, whatever the
  chain holds, keeps the chain sorted and disjoint, and returns an item of the chain that
  contains the whole range.\<close>

theorem dlink_insert_covers:
  assumes "dlink_ok a" "dlink_small a" "has_succ64 (max b e)"
  shows "case acl_dlink_insert a b e of (ret, a') \<Rightarrow>
    dlink_ok a' \<and> dlink_set a' = dlink_set a \<union> {min b e .. max b e} \<and>
    (\<exists>p. ret = Some p \<and> p \<in> set (array_objs a') \<and> di_begin p \<le> min b e \<and> max b e \<le> di_end p)"
  using acl_dlink_insert_union [OF assms] by (simp add: dlink_added_def split_beta)

definition dlink_sample :: "unit acl_dlink" where
  "dlink_sample = \<lparr>arr_items = [Some (new_ditem 1 5), Some (new_ditem 10 20), None], arr_count = 2,
     arr_capacity = 3\<rparr>"

lemma dlink_sample: "dlink_ok dlink_sample" "array_objs dlink_sample = [new_ditem 1 5, new_ditem 10 20]"
  by (simp_all add: dlink_sample_def dlink_ok_def array_full_def array_ok_def array_objs_def
      array_seq_def dl_sorted_def new_ditem_def)

lemma dlink_sample_small: "dlink_small dlink_sample"
  by (auto simp: dlink_small_def dlink_set_def dl_cover_def dlink_sample(2) new_ditem_def has_succ64_def)

theorem dlink_insert_covers_witness:
  "dlink_set (snd (acl_dlink_insert dlink_sample 30 4)) = {1 .. 30}"
proof -
  have "{1 .. 5} \<union> {10 .. 20} \<union> {4 .. 30} = {1 .. (30 :: int)}" by auto
  then show ?thesis
    using dlink_insert_covers [OF dlink_sample(1) dlink_sample_small, of 30 4] dlink_sample(2)
    by (simp add: has_succ64_def split_beta dlink_set_def dl_cover_def new_ditem_def)
qed

text \<open>\<open>acl_dlink_delete_range\<close> on a range that meets the chain takes exactly the range
  out of the numbers covered (cutting, splitting and dropping items), returns 0 and keeps the
  chain sorted and disjoint.\<close>

theorem dlink_delete_range_cuts:
  assumes "dlink_ok a" "b \<le> e" "dlink_set a \<inter> {b .. e} \<noteq> {}" "dlink_small a"
  shows "case acl_dlink_delete_range a b e of (ret, a') \<Rightarrow>
    ret = 0 \<and> dlink_ok a' \<and> dlink_set a' = dlink_set a - {b .. e}"
  using acl_dlink_delete_range_removes [OF assms] by (simp add: dlink_removed_def split_beta)

theorem dlink_delete_range_cuts_witness:
  "dlink_set (snd (acl_dlink_delete_range dlink_sample 4 12)) = {1 .. 3} \<union> {13 .. 20}"
proof -
  have set: "dlink_set dlink_sample = {1 .. 5} \<union> {10 .. 20}"
    by (simp add: dlink_set_def dl_cover_def dlink_sample new_ditem_def)
  have "{1 .. 5} \<union> {10 .. 20} - {4 .. 12} = {1 .. 3} \<union> {13 .. (20 :: int)}" by auto
  moreover have "dlink_set dlink_sample \<inter> {4 .. 12} \<noteq> {}" by (rule ex_in_conv [THEN iffD1]) (auto simp: set intro!: exI [of _ 5])
  ultimately show ?thesis
    using dlink_delete_range_cuts [OF dlink_sample(1) _ _ dlink_sample_small, of 4 12] by (simp add: split_beta set)
qed

text \<open>what \<open>acl_dlink_delete_range\<close> does on a range that no item reaches: beyond the last
  item it empties the whole chain.\<close>

theorem dlink_delete_range_beyond:
  assumes "dlink_ok a" "b \<le> e" "\<forall>k \<in> dlink_set a. k < b"
  shows "array_objs (snd (acl_dlink_delete_range a b e)) = []"
proof (cases "array_objs a = []")
  case True
  have "array_full a" using assms(1) by (simp add: dlink_ok_def)
  from array_size_objs [OF this] True length_array_objs [OF this] have sz: "acl_array_size a = 0" "arr_count a = 0"
    by simp_all
  have "delete_range_low a b e (acl_array_size a) 0 = Inl (0, a)"
    using delete_range_low_end [of a b e] by (simp add: sz(1))
  then show ?thesis
    using True sz(2) delete_range_high.simps [of a e 0 1]
    by (simp add: delete_range_unfold delete_range_rest_def sz(1) Let_def acl_array_delete_range_def)
next
  case False
  have "\<forall>q \<in> set (array_objs a). di_end q < b"
  proof
    fix q
    assume q: "q \<in> set (array_objs a)"
    with dl_sorted_item [of "array_objs a" q] assms(1) have "di_end q \<in> dlink_set a"
      by (auto simp: dlink_ok_def dlink_set_def dl_cover_iff)
    with assms(3) show "di_end q < b" by blast
  qed
  with False assms show ?thesis by (intro delete_range_beyond) (auto simp: dlink_ok_def)
qed

theorem dlink_delete_range_beyond_witness:
  "array_objs (snd (acl_dlink_delete_range dlink_sample 100 200)) = []"
proof (rule dlink_delete_range_beyond [OF dlink_sample(1)])
  show "\<forall>k \<in> dlink_set dlink_sample. k < 100"
    by (auto simp: dlink_set_def dl_cover_def dlink_sample new_ditem_def)
qed simp

text \<open>deleting by number returns 0 and removes exactly the item that contains the number;
  it returns -1 and changes nothing when none does.\<close>

theorem dlink_delete_item:
  assumes "dlink_ok a"
  shows "case acl_dlink_delete a n of (ret, a') \<Rightarrow>
    (case acl_dlink_lookup a n of
       None \<Rightarrow> n \<notin> dlink_set a \<and> ret = -1 \<and> a' = a
     | Some p \<Rightarrow> p \<in> set (array_objs a) \<and> di_begin p \<le> n \<and> n \<le> di_end p \<and> ret = 0 \<and> dlink_ok a' \<and>
         dlink_set a' = dlink_set a - {di_begin p .. di_end p})"
proof (cases rule: acl_dlink_lookup2_cases [OF assms, of n])
  case 1
  with acl_dlink_lookup_iff [OF assms, of n] show ?thesis
    by (auto simp: acl_dlink_delete_def acl_dlink_lookup_def)
next
  case (2 k)
  with acl_dlink_delete_item [OF assms 2(1) _ refl] show ?thesis
    by (auto simp: acl_dlink_lookup_def split_beta)
qed

theorem dlink_delete_item_witness:
  "fst (acl_dlink_delete dlink_sample 7) = -1 \<and> snd (acl_dlink_delete dlink_sample 7) = dlink_sample"
proof -
  have "acl_dlink_lookup dlink_sample 7 = None"
    using acl_dlink_lookup_iff [OF dlink_sample(1), of 7]
    by (simp add: dlink_set_def dl_cover_def dlink_sample new_ditem_def)
  with dlink_delete_item [OF dlink_sample(1), of 7] show ?thesis by (simp add: split_beta)
qed

end
