(* ===== verification/Acl_Mystring.thy ===== *)
theory Acl_Mystring
  imports Prelude
begin

text \<open>
  The string functions of \<^verbatim>\<open>acllib/src/stdlib/string/acl_mystring.c\<close>. A function that
  works on a C string in place is a function on the string's bytes; one that fills a
  buffer of a given size returns the bytes that it writes to the buffer, with the final
  zero where the size matters, so that writing past the end shows in the length. NULL
  arguments are \<open>None\<close>. \<open>acl_strline\<close>, which moves bytes about in its buffer, works on the
  whole buffer. A \<open>long long\<close> is a 64-bit word.
\<close>

section \<open>Case conversion\<close>

fun acl_lowercase :: "cstr \<Rightarrow> cstr" where
  "acl_lowercase [] = []"
| "acl_lowercase (c # s) = tolower c # acl_lowercase s"

fun acl_lowercase2 :: "cstr \<Rightarrow> nat \<Rightarrow> cstr" where
  "acl_lowercase2 [] n = []"
| "acl_lowercase2 (c # s) n = (if n > 0 then tolower c # acl_lowercase2 s (n - 1) else c # s)"

fun lowercase3_loop :: "cstr \<Rightarrow> nat \<Rightarrow> byte list" where
  "lowercase3_loop [] sz = [0]"
| "lowercase3_loop (c # s) sz = (if sz > 1 then tolower c # lowercase3_loop s (sz - 1) else [0])"

definition acl_lowercase3 :: "cstr option \<Rightarrow> nat \<Rightarrow> byte list option" where
  "acl_lowercase3 s sz =
     (case s of None \<Rightarrow> None | Some s \<Rightarrow> if s = [] then None else Some (lowercase3_loop s sz))"

fun acl_uppercase :: "cstr \<Rightarrow> cstr" where
  "acl_uppercase [] = []"
| "acl_uppercase (c # s) = toupper c # acl_uppercase s"

fun acl_uppercase2 :: "cstr \<Rightarrow> nat \<Rightarrow> cstr" where
  "acl_uppercase2 [] n = []"
| "acl_uppercase2 (c # s) n = (if n > 0 then toupper c # acl_uppercase2 s (n - 1) else c # s)"

fun uppercase3_loop :: "cstr \<Rightarrow> nat \<Rightarrow> byte list" where
  "uppercase3_loop [] sz = [0]"
| "uppercase3_loop (c # s) sz = (if sz > 1 then toupper c # uppercase3_loop s (sz - 1) else [0])"

definition acl_uppercase3 :: "cstr option \<Rightarrow> nat \<Rightarrow> byte list option" where
  "acl_uppercase3 s sz =
     (case s of None \<Rightarrow> None | Some s \<Rightarrow> if s = [] then None else Some (uppercase3_loop s sz))"

lemma acl_lowercase_map: "acl_lowercase s = map tolower s"
  by (induction s) auto

lemma acl_uppercase_map: "acl_uppercase s = map toupper s"
  by (induction s) auto

lemma acl_lowercase2_take: "acl_lowercase2 s n = map tolower (take n s) @ drop n s"
  by (induction s n rule: acl_lowercase2.induct) (auto simp: take_Cons' drop_Cons')

lemma lowercase3_loop: "0 < sz \<Longrightarrow> lowercase3_loop s sz = map tolower (take (sz - 1) s) @ [0]"
  by (induction s sz rule: lowercase3_loop.induct) (auto simp: take_Cons')

lemma byte_ge_65_induct: "isupper c \<longleftrightarrow> 65 \<le> unat c \<and> unat c \<le> 90"
  by (simp add: isupper_def word_le_nat_alt)

lemma tolower_idem [simp]: "tolower (tolower c) = tolower c"
proof (cases "isupper c")
  case True
  then have "65 \<le> unat c" "unat c \<le> 90" by (simp_all add: byte_ge_65_induct)
  then have "unat (c + 32) = unat c + 32" by (subst unat_word_ariths) simp
  with \<open>65 \<le> unat c\<close> have "\<not> isupper (c + 32)" by (simp add: byte_ge_65_induct)
  then show ?thesis using True by (simp add: tolower_def)
qed (simp add: tolower_def)

lemma acl_lowercase_idem [simp]: "acl_lowercase (acl_lowercase s) = acl_lowercase s"
  by (simp add: acl_lowercase_map)

lemma length_acl_lowercase [simp]: "length (acl_lowercase s) = length s"
  by (simp add: acl_lowercase_map)

section \<open>Splitting off tokens\<close>

text \<open>The token (\<open>None\<close> for the NULL result) and what \<open>*src\<close> points to afterwards.\<close>

definition acl_strtok :: "cstr \<Rightarrow> byte set \<Rightarrow> cstr option \<times> cstr" where
  "acl_strtok src sep =
     (let start = drop (strspn src sep) src in
      if start = [] then (None, start)
      else
        let n = strcspn start sep; rest = drop n start in
        (Some (take n start), if rest \<noteq> [] then tl rest else rest))"

lemma drop_strspn: "drop (strspn s A) s = dropWhile (\<lambda>c. c \<in> A) s"
  unfolding strspn_def by (rule dropWhile_eq_drop [symmetric])

lemma strcspn_split:
  "take (strcspn s A) s = takeWhile (\<lambda>c. c \<notin> A) s" "drop (strcspn s A) s = dropWhile (\<lambda>c. c \<notin> A) s"
  unfolding strcspn_def by (rule takeWhile_eq_take [symmetric], rule dropWhile_eq_drop [symmetric])

lemma acl_strtok_eq:
  "acl_strtok src sep =
     (let start = dropWhile (\<lambda>c. c \<in> sep) src in
      if start = [] then (None, [])
      else (Some (takeWhile (\<lambda>c. c \<notin> sep) start), tl (dropWhile (\<lambda>c. c \<notin> sep) start)))"
proof -
  have tl_if: "(if xs \<noteq> [] then tl xs else xs) = tl xs" for xs :: cstr by simp
  show ?thesis
    by (cases "dropWhile (\<lambda>c. c \<in> sep) src = []")
       (simp_all only: acl_strtok_def drop_strspn strcspn_split Let_def tl_if if_True if_False simp_thms)
qed

lemma acl_strtok_token:
  assumes "acl_strtok src sep = (Some t, rest)"
  shows "t \<noteq> []" "set t \<inter> sep = {}" "length rest < length src"
    "filter (\<lambda>c. c \<notin> sep) src = t @ filter (\<lambda>c. c \<notin> sep) rest"
proof -
  let ?start = "dropWhile (\<lambda>c. c \<in> sep) src"
  from assms have ne: "?start \<noteq> []" and t: "t = takeWhile (\<lambda>c. c \<notin> sep) ?start"
    and rest: "rest = tl (dropWhile (\<lambda>c. c \<notin> sep) ?start)"
    by (auto simp: acl_strtok_eq Let_def split: if_splits)
  then show "t \<noteq> []" using hd_dropWhile [OF ne] by (cases ?start) auto
  show "set t \<inter> sep = {}" unfolding t by (auto dest: set_takeWhileD)
  have "length rest < length ?start"
    unfolding rest using ne length_dropWhile_le [of "\<lambda>c. c \<notin> sep" ?start] by (cases ?start) auto
  also have "\<dots> \<le> length src" by (rule length_dropWhile_le)
  finally show "length rest < length src" .
  have skip: "filter (\<lambda>c. c \<notin> sep) s = filter (\<lambda>c. c \<notin> sep) (dropWhile (\<lambda>c. c \<in> sep) s)" for s
    by (induction s) auto
  have tl: "filter (\<lambda>c. c \<notin> sep) s = takeWhile (\<lambda>c. c \<notin> sep) s @ filter (\<lambda>c. c \<notin> sep) (tl (dropWhile (\<lambda>c. c \<notin> sep) s))"
    for s by (induction s) auto
  show "filter (\<lambda>c. c \<notin> sep) src = t @ filter (\<lambda>c. c \<notin> sep) rest"
    unfolding t rest by (subst skip, subst tl) simp
qed

lemma acl_strtok_none:
  "acl_strtok src sep = (None, rest) \<Longrightarrow> rest = [] \<and> set src \<subseteq> sep"
  by (auto simp: acl_strtok_eq Let_def dropWhile_eq_Nil_conv split: if_splits)

text \<open>\<^verbatim>\<open>while ((t = acl_strtok(&src, sep)) != NULL)\<close>, the loop of every caller: all tokens.\<close>

function strtok_tokens :: "cstr \<Rightarrow> byte set \<Rightarrow> cstr list" where
  "strtok_tokens src sep =
     (case acl_strtok src sep of
        (None, rest) \<Rightarrow> []
      | (Some t, rest) \<Rightarrow> t # strtok_tokens rest sep)"
  by pat_completeness auto
termination
  by (relation "measure (\<lambda>(src, sep). length src)") (auto dest: acl_strtok_token(3) [OF sym])

declare strtok_tokens.simps [simp del]

lemma strtok_tokens_ok:
  "concat (strtok_tokens src sep) = filter (\<lambda>c. c \<notin> sep) src \<and>
   (\<forall>t \<in> set (strtok_tokens src sep). t \<noteq> [] \<and> set t \<inter> sep = {})"
proof (induction src sep rule: strtok_tokens.induct)
  case (1 src sep)
  show ?case
  proof (cases "acl_strtok src sep")
    case (Pair r rest)
    show ?thesis
    proof (cases r)
      case None
      with Pair acl_strtok_none [of src sep rest] have "filter (\<lambda>c. c \<notin> sep) src = []"
        by (auto simp: filter_empty_conv)
      with Pair None show ?thesis by (subst (1 2) strtok_tokens.simps) simp
    next
      case (Some t)
      with Pair 1 acl_strtok_token [of src sep t rest] show ?thesis
        by (subst (1 2) strtok_tokens.simps) auto
    qed
  qed
qed

section \<open>acl_strline: one line out of a buffer\<close>

text \<open>
  \<open>buf\<close> is the whole buffer, \<open>e\<close> the index of \<open>end\<close>. The result is the buffer, and the
  index that \<open>*src\<close> is left at (\<open>None\<close> for NULL). A scan that leaves the buffer, which has no
  zero in it then, reads memory that is not the string's: \<open>None\<close>.
\<close>

definition memmove_str :: "byte list \<Rightarrow> nat \<Rightarrow> nat \<Rightarrow> byte list" where
  "memmove_str buf dst from_idx =
     (let n = length (cstr_of (drop from_idx buf))
      in take dst buf @ take n (drop from_idx buf) @ drop (dst + n) buf)"

lemma length_memmove_str [simp]: "dst \<le> from_idx \<Longrightarrow> from_idx \<le> length buf \<Longrightarrow> length (memmove_str buf dst from_idx) = length buf"
  using length_takeWhile_le [of "\<lambda>c. c \<noteq> 0" "drop from_idx buf"]
  by (auto simp: memmove_str_def Let_def cstr_of_def min_def)

function strline_loop :: "byte list \<Rightarrow> nat \<Rightarrow> nat \<Rightarrow> nat \<Rightarrow> (byte list \<times> nat option) option" where
  "strline_loop buf e backslash nr =
     (if e \<ge> length buf then None
      else
        let c = buf ! e in
        if c = 0 then Some (buf, None)
        else if c = 92 then strline_loop buf (Suc e) 1 nr
        else if c = 13 then strline_loop buf (Suc e) backslash (Suc nr)
        else if c = 10 then
          (if backslash = 0 then Some (buf[e - nr := 0], Some (Suc e))
           else if e < backslash + nr then None
           else strline_loop (memmove_str buf (e - (backslash + nr)) (Suc e)) (Suc e) 0 0)
        else strline_loop buf (Suc e) 0 0)"
  by pat_completeness auto
termination
  by (relation "measure (\<lambda>(buf, e, b, nr). length buf - e)") auto

declare strline_loop.simps [simp del]

definition acl_strline :: "byte list \<Rightarrow> nat \<Rightarrow> (byte list \<times> nat option) option" where
  "acl_strline buf start = strline_loop (drop start buf) 0 0 0"

section \<open>Removing blanks and substrings\<close>

function acl_strtrim :: "cstr \<Rightarrow> cstr" where
  "acl_strtrim s =
     (case s of
        [] \<Rightarrow> []
      | c # t \<Rightarrow>
          if c = 32 \<or> c = 9 then acl_strtrim t
          else if c = 161 \<and> t \<noteq> [] \<and> hd t = 161 then acl_strtrim (tl t)
          else c # acl_strtrim t)"
  by pat_completeness auto
termination
  by (relation "measure length") auto

declare acl_strtrim.simps [simp del]

text \<open>
  The loop of \<open>acl_strstrip\<close>: \<open>out\<close> is the string in the buffer so far (\<open>None\<close> while nothing
  has been written to it), \<open>bsize\<close> the room left.
\<close>

function strstrip_loop :: "cstr \<Rightarrow> cstr \<Rightarrow> cstr option \<Rightarrow> int \<Rightarrow> int \<Rightarrow> int \<times> cstr option" where
  "strstrip_loop src needle out bsize ncpy =
     (case strstr_idx src needle of
        None \<Rightarrow>
          let n = int (length src) in
          if bsize > n then (ncpy + n, Some ((case out of None \<Rightarrow> [] | Some s \<Rightarrow> s) @ src))
          else (ncpy, out)
      | Some n \<Rightarrow>
          if bsize \<le> int n \<or> needle = [] then (ncpy, out)
          else strstrip_loop (drop (n + length needle) src) needle
                 (Some ((case out of None \<Rightarrow> [] | Some s \<Rightarrow> s) @ take n src))
                 (bsize - int n) (ncpy + int n))"
  by pat_completeness auto
termination
proof (relation "measure (\<lambda>(src, needle, out, bsize, ncpy). length src)", goal_cases)
  case (2 src needle out bsize ncpy n)
  then have "src \<noteq> []" using strstr_idx_Some [OF 2(1)] by auto
  with 2 show ?case by simp
qed simp

declare strstrip_loop.simps [simp del]

definition acl_strstrip :: "cstr option \<Rightarrow> cstr option \<Rightarrow> int \<Rightarrow> int \<times> cstr option" where
  "acl_strstrip haystack needle bsize =
     (case (haystack, needle) of
        (Some h, Some s) \<Rightarrow>
          if h = [] \<or> s = [] \<or> bsize \<le> 0 then (-1, None) else strstrip_loop h s None bsize 0
      | _ \<Rightarrow> (-1, None))"

fun acl_strtrunc_byln :: "cstr \<Rightarrow> cstr" where
  "acl_strtrunc_byln [] = []"
| "acl_strtrunc_byln (c # s) = (if c = 13 \<or> c = 10 then [] else c # acl_strtrunc_byln s)"

fun acl_strnlen :: "cstr \<Rightarrow> nat \<Rightarrow> nat" where
  "acl_strnlen s 0 = 0"
| "acl_strnlen [] (Suc count) = 0"
| "acl_strnlen (c # s) (Suc count) = Suc (acl_strnlen s count)"

section \<open>Paths\<close>

text \<open>
  \<open>path_str_strip\<close>: the bytes put into the buffer before the final zero; \<open>None\<close> for the
  NULL result. \<open>PATH_SEP_C\<close> is the slash.
\<close>

fun strip_loop :: "cstr \<Rightarrow> int \<Rightarrow> byte list \<times> int" where
  "strip_loop [] n = ([], n)"
| "strip_loop (c # s) n =
     (if n > 0 then
        if c = 47 \<and> s \<noteq> [] \<and> hd s = 47 then strip_loop s n
        else (case strip_loop s (n - 1) of (out, m) \<Rightarrow> (c # out, m))
      else ([], n))"

definition path_str_strip :: "cstr \<Rightarrow> int \<Rightarrow> cstr option" where
  "path_str_strip psrc sizeb =
     (if psrc = [] \<or> sizeb \<le> 0 then None
      else case strip_loop psrc sizeb of (out, n) \<Rightarrow> if n \<le> 0 then None else Some out)"

text \<open>The bytes that the functions write to the buffer, the final zero included.\<close>

definition acl_file_path_correct :: "cstr \<Rightarrow> int \<Rightarrow> int \<times> byte list" where
  "acl_file_path_correct psrc sizeb =
     (case path_str_strip psrc sizeb of None \<Rightarrow> (-1, []) | Some out \<Rightarrow> (0, out @ [0]))"

definition acl_dir_correct :: "cstr \<Rightarrow> int \<Rightarrow> int \<times> byte list" where
  "acl_dir_correct psrc sizeb =
     (case path_str_strip psrc sizeb of
        None \<Rightarrow> (-1, [])
      | Some out \<Rightarrow>
          if last out \<noteq> 47 then
            (if int (length out) \<ge> sizeb then (-1, out @ [0]) else (0, out @ [47, 0]))
          else (0, out @ [0]))"

definition acl_dir_getpath :: "cstr \<Rightarrow> int \<Rightarrow> int \<times> byte list" where
  "acl_dir_getpath pathname bsize =
     (if bsize \<le> 0 then (-1, [])
      else
        let (n, pbuf) = acl_file_path_correct pathname bsize in
        if n < 0 then (-1, pbuf)
        else
          case strrchr_idx (cstr_of pbuf) 47 of
            None \<Rightarrow> (0, pbuf)
          | Some ptr \<Rightarrow>
              let pbuf = pbuf[ptr := 0] in
              if ptr = 0 \<and> bsize \<ge> 2 then (0, pbuf[ptr + 1 := 0]) else (0, pbuf))"

section \<open>Numbers\<close>

fun atoll_digits :: "u64 \<Rightarrow> cstr \<Rightarrow> u64" where
  "atoll_digits num [] = num"
| "atoll_digits num (c # s) = (if isdigit c then atoll_digits (10 * num + (ucast c - 48)) s else num)"

definition acl_atoll :: "cstr \<Rightarrow> u64" where
  "acl_atoll s =
     (let s = dropWhile isspace s;
          neg = (s \<noteq> [] \<and> hd s = 45);
          s = (if neg then tl s else s);
          num = atoll_digits 0 s
      in if neg then - num else num)"

text \<open>
  The conversion loop of \<open>x64toa\<close> (the digits in the order they are stored) and the loop
  that swaps them round between \<open>firstdig\<close> and \<open>p\<close>.
\<close>

fun x64_digits :: "nat \<Rightarrow> u64 \<Rightarrow> u32 \<Rightarrow> byte list" where
  "x64_digits 0 val radix = []"
| "x64_digits (Suc sz) val radix =
     (let digval = val mod ucast radix;
          val' = val div ucast radix;
          c = (if digval > 9 then ucast digval - 10 + 97 else ucast digval + 48)
      in c # (if val' > 0 then x64_digits sz val' radix else []))"

function swap_loop :: "nat \<Rightarrow> nat \<Rightarrow> byte list \<Rightarrow> byte list" where
  "swap_loop firstdig p buf =
     (let buf = buf[p := buf ! firstdig, firstdig := buf ! p] in
      if Suc firstdig < p - 1 then swap_loop (Suc firstdig) (p - 1) buf else buf)"
  by pat_completeness auto
termination
  by (relation "measure (\<lambda>(f, p, buf). p - f)") auto

declare swap_loop.simps [simp del]

text \<open>The string in the buffer. With no room for a digit the swap runs off the buffer, and a
  radix of zero divides by zero: \<open>None\<close>.\<close>

definition x64toa :: "u64 \<Rightarrow> nat \<Rightarrow> u32 \<Rightarrow> bool \<Rightarrow> cstr option" where
  "x64toa val sz radix is_neg =
     (if sz = 0 \<or> radix = 0 then None
      else
        let sign = (if is_neg then [45] else []);
            val = (if is_neg then - val else val);
            buf = sign @ x64_digits sz val radix
        in Some (swap_loop (length sign) (length buf - 1) buf))"

definition acl_i64toa_radix :: "u64 \<Rightarrow> nat \<Rightarrow> int \<Rightarrow> cstr option" where
  "acl_i64toa_radix val sz radix =
     x64toa val sz (word_of_int radix) (radix = 10 \<and> sint val < 0)"

definition acl_ui64toa_radix :: "u64 \<Rightarrow> nat \<Rightarrow> int \<Rightarrow> cstr option" where
  "acl_ui64toa_radix val sz radix = x64toa val sz (word_of_int radix) False"

section \<open>The blank line that ends a header\<close>

record line_state =
  ls_offset :: int
  ls_finish :: bool
  ls_last_ch :: byte
  ls_last_lf :: byte

text \<open>\<open>get_blank_line\<close> returns how many bytes are left; here, the bytes left.\<close>

fun blank_lf_loop :: "byte list \<Rightarrow> line_state \<Rightarrow> byte list \<times> line_state" where
  "blank_lf_loop [] st = ([], st)"
| "blank_lf_loop (c # s) st =
     (let st = st\<lparr>ls_last_ch := c, ls_offset := ls_offset st + 1\<rparr> in
      if c = 10 then (s, st\<lparr>ls_last_lf := 10\<rparr>) else blank_lf_loop s st)"

definition get_blank_line :: "byte list \<Rightarrow> line_state \<Rightarrow> byte list \<times> line_state" where
  "get_blank_line s st =
     (if ls_last_lf st = 0 then blank_lf_loop s st
      else if hd s = 10 then
        (tl s, st\<lparr>ls_offset := ls_offset st + 1, ls_finish := True, ls_last_ch := 10\<rparr>)
      else if hd s = 13 then
        let st = st\<lparr>ls_offset := ls_offset st + 1\<rparr> in
        if ls_last_ch st = 13 then (tl s, st\<lparr>ls_last_lf := 0\<rparr>)
        else (tl s, st\<lparr>ls_last_ch := 13\<rparr>)
      else (s, st\<lparr>ls_last_lf := 0\<rparr>))"

lemma blank_lf_loop_length: "length (fst (blank_lf_loop s st)) \<le> length s - 1"
proof (induction s st rule: blank_lf_loop.induct)
  case (2 c s st)
  then show ?case by (cases s) (auto simp: Let_def)
qed simp

function acl_find_blank_line :: "byte list \<Rightarrow> line_state \<Rightarrow> byte list \<times> line_state" where
  "acl_find_blank_line s st =
     (if s = [] then ([], st)
      else
        let (rest, st) = get_blank_line s st in
        if ls_finish st then (rest, st)
        else if rest = [] then ([], st)
        else acl_find_blank_line rest st)"
  by pat_completeness auto
termination
  apply (relation "measures [\<lambda>(s, st). length s, \<lambda>(s, st). if ls_last_lf st = 0 then 0 else 1]")
   apply simp
  subgoal for s st x rest st'
    using blank_lf_loop_length [of s st]
    by (cases s) (auto simp: get_blank_line_def Let_def split: if_splits prod.splits)
  done

declare acl_find_blank_line.simps [simp del]

definition acl_line_state_alloc :: line_state where
  "acl_line_state_alloc = \<lparr>ls_offset = 0, ls_finish = False, ls_last_ch = 0, ls_last_lf = 0\<rparr>"

definition acl_line_state_reset :: "int \<Rightarrow> line_state" where
  "acl_line_state_reset offset = acl_line_state_alloc\<lparr>ls_offset := offset\<rparr>"

section \<open>What the functions do\<close>

lemma acl_strnlen: "acl_strnlen s n = min (length s) n"
  by (induction s n rule: acl_strnlen.induct) auto

lemma acl_strtrunc_byln: "acl_strtrunc_byln s = takeWhile (\<lambda>c. c \<noteq> 13 \<and> c \<noteq> 10) s"
  by (induction s) auto

lemma acl_strtrim_ascii: "161 \<notin> set s \<Longrightarrow> acl_strtrim s = filter (\<lambda>c. c \<noteq> 32 \<and> c \<noteq> 9) s"
  by (induction s) (simp_all add: acl_strtrim.simps)

subsection \<open>Paths\<close>

fun slash_collapse :: "cstr \<Rightarrow> cstr" where
  "slash_collapse [] = []"
| "slash_collapse (c # s) = (if c = 47 \<and> s \<noteq> [] \<and> hd s = 47 then slash_collapse s else c # slash_collapse s)"

lemma strip_loop_fits:
  "int (length (slash_collapse s)) < n \<Longrightarrow> strip_loop s n = (slash_collapse s, n - int (length (slash_collapse s)))"
  by (induction s n rule: strip_loop.induct) (auto split: if_splits)

lemma slash_collapse_Nil [simp]: "slash_collapse s = [] \<longleftrightarrow> s = []"
proof (induction s)
  case (Cons c s)
  then show ?case by (cases s) auto
qed simp

lemma slash_collapse_pos [simp]: "s \<noteq> [] \<Longrightarrow> 0 < length (slash_collapse s)"
  by simp

lemma strip_loop_full:
  "n \<le> int (length (slash_collapse s)) \<Longrightarrow> 0 \<le> n \<Longrightarrow> snd (strip_loop s n) = 0"
proof (induction s n rule: strip_loop.induct)
  case (2 c s n)
  show ?case
  proof (cases "n = 0")
    case False
    with 2 show ?thesis by (auto simp: split_beta split: if_splits)
  qed simp
qed simp

lemma path_str_strip:
  "path_str_strip s n = (if s = [] \<or> n \<le> int (length (slash_collapse s)) then None else Some (slash_collapse s))"
proof (cases "n \<le> int (length (slash_collapse s))")
  case True
  with strip_loop_full [of n s] show ?thesis by (auto simp: path_str_strip_def split_beta)
next
  case False
  with strip_loop_fits [of s n] show ?thesis by (auto simp: path_str_strip_def)
qed

lemma slash_collapse_hd [simp]: "s \<noteq> [] \<Longrightarrow> hd (slash_collapse s) = hd s"
proof (induction s)
  case (Cons c s)
  then show ?case by (cases s) auto
qed simp

lemma slash_collapse_last [simp]: "last (slash_collapse s) = last s"
proof (induction s)
  case (Cons c s)
  then show ?case by (cases s) auto
qed simp

lemma slash_collapse_ok:
  "successively (\<lambda>a b. \<not> (a = 47 \<and> b = 47)) (slash_collapse s)"
proof (induction s)
  case (Cons c s)
  then show ?case by (cases "s = []") (auto simp: successively_Cons)
qed simp

lemma slash_collapse_id:
  "successively (\<lambda>a b. \<not> (a = 47 \<and> b = 47)) s \<Longrightarrow> slash_collapse s = s"
  by (induction s) (auto simp: successively_Cons)

lemma slash_collapse_filter: "filter (\<lambda>c. c \<noteq> 47) (slash_collapse s) = filter (\<lambda>c. c \<noteq> 47) s"
  by (induction s) auto

lemma slash_collapse_idem: "slash_collapse (slash_collapse s) = slash_collapse s"
  by (rule slash_collapse_id [OF slash_collapse_ok])

subsection \<open>Numbers\<close>

lemma swap_loop_nth:
  assumes "f \<le> p" "p < length buf" "k < length buf"
  shows "length (swap_loop f p buf) = length buf"
    "swap_loop f p buf ! k = (if f \<le> k \<and> k \<le> p then buf ! (f + p - k) else buf ! k)"
proof -
  have "length (swap_loop f p buf) = length buf \<and>
    swap_loop f p buf ! k = (if f \<le> k \<and> k \<le> p then buf ! (f + p - k) else buf ! k)"
    using assms
  proof (induction f p buf rule: swap_loop.induct)
    case (1 f p buf)
    define buf' where "buf' = buf[p := buf ! f, f := buf ! p]"
    have buf': "length buf' = length buf" "\<And>j. j < length buf \<Longrightarrow>
        buf' ! j = (if j = f then buf ! p else if j = p then buf ! f else buf ! j)"
      using "1.prems" by (auto simp: buf'_def nth_list_update)
    show ?case
    proof (cases "Suc f < p - 1")
      case True
      with 1 have "length (swap_loop (Suc f) (p - 1) buf') = length buf' \<and>
        swap_loop (Suc f) (p - 1) buf' ! k =
          (if Suc f \<le> k \<and> k \<le> p - 1 then buf' ! (Suc f + (p - 1) - k) else buf' ! k)"
        by (intro "1.IH") (auto simp: buf'_def)
      moreover have "swap_loop f p buf = swap_loop (Suc f) (p - 1) buf'"
        using True by (subst swap_loop.simps) (simp add: buf'_def)
      moreover have "Suc f + (p - 1) - k = f + p - k" using True by simp
      ultimately show ?thesis
        using True "1.prems" buf' by (auto simp: Suc_le_eq)
    next
      case False
      have "swap_loop f p buf = buf'"
        using False by (subst swap_loop.simps) (simp add: buf'_def)
      moreover have "f + p - k = k \<or> k = f \<or> k = p" if "f \<le> k" "k \<le> p"
        using that False by arith
      ultimately show ?thesis using buf' "1.prems" by (auto simp: add_diff_cancel_left')
    qed
  qed
  then show "length (swap_loop f p buf) = length buf"
    "swap_loop f p buf ! k = (if f \<le> k \<and> k \<le> p then buf ! (f + p - k) else buf ! k)"
    by blast+
qed

lemma swap_loop_rev:
  assumes "ds \<noteq> []"
  shows "swap_loop (length us) (length (us @ ds) - 1) (us @ ds) = us @ rev ds"
proof -
  have len: "length us \<le> length (us @ ds) - 1" "length (us @ ds) - 1 < length (us @ ds)"
    using assms by (cases ds; simp)+
  show ?thesis
  proof (rule nth_equalityI)
    show "length (swap_loop (length us) (length (us @ ds) - 1) (us @ ds)) = length (us @ rev ds)"
      using swap_loop_nth(1) [OF len, of 0] assms by simp
    fix k
    assume "k < length (swap_loop (length us) (length (us @ ds) - 1) (us @ ds))"
    then have k: "k < length (us @ ds)" using swap_loop_nth(1) [OF len, of 0] assms by simp
    have "length us + (length (us @ ds) - 1) - k - length us = length ds - Suc (k - length us)"
      if "length us \<le> k" using that k by simp
    with swap_loop_nth(2) [OF len k] k
    show "swap_loop (length us) (length (us @ ds) - 1) (us @ ds) ! k = (us @ rev ds) ! k"
      by (auto simp: nth_append rev_nth)
  qed
qed

lemma x64_digits_ne: "x64_digits (Suc n) v r \<noteq> []"
  by (simp add: Let_def)

lemma x64toa_eq:
  assumes "0 < sz" "radix \<noteq> 0"
  shows "x64toa v sz radix neg =
    Some ((if neg then [45] else []) @ rev (x64_digits sz (if neg then - v else v) radix))"
proof -
  obtain n where "sz = Suc n" using assms(1) by (cases sz) auto
  then have ne: "x64_digits sz v' radix \<noteq> []" for v' using x64_digits_ne by simp
  show ?thesis
    using assms swap_loop_rev [OF ne] by (simp add: x64toa_def Let_def)
qed

lemma digit_byte:
  fixes d :: u64
  assumes "unat d < 10"
  shows "isdigit (ucast d + 48)" "ucast (ucast d + 48 :: byte) - 48 = d"
proof -
  have d: "unat (ucast d :: byte) = unat d" using assms by (simp add: unsigned_ucast_eq take_bit_nat_eq_self)
  have c: "unat (ucast d + 48 :: byte) = unat d + 48"
    using assms d by (subst unat_word_ariths) simp
  then show "isdigit (ucast d + 48)" using assms by (simp add: isdigit_def word_le_nat_alt)
  have "unat (ucast (ucast d + 48 :: byte) :: u64) = unat (d + 48)"
    using c assms by (simp add: unsigned_ucast_eq take_bit_nat_eq_self unat_word_ariths)
  then have "(ucast (ucast d + 48 :: byte) :: u64) = d + 48" by (simp only: word_unat_eq_iff)
  then show "ucast (ucast d + 48 :: byte) - 48 = d" by simp
qed

lemma atoll_digits_append:
  "list_all isdigit s \<Longrightarrow> atoll_digits num (s @ t) = atoll_digits (atoll_digits num s) t"
  by (induction s arbitrary: num) auto

lemma x64_digits_ten:
  "unat v < 10 ^ n \<Longrightarrow>
   atoll_digits 0 (rev (x64_digits n v 10)) = v \<and> list_all isdigit (x64_digits n v 10)"
proof (induction n arbitrary: v)
  case 0
  then show ?case by (simp add: unat_eq_0)
next
  case (Suc n)
  let ?d = "v mod 10"
  have d: "unat ?d < 10" by (simp add: unat_mod_distrib)
  then have nd: "\<not> 9 < ?d" by (simp add: word_less_nat_alt)
  have "unat (v div 10) = unat v div 10" by (simp add: unat_div_distrib)
  then have "unat (v div 10) < 10 ^ n" using Suc.prems by simp
  note ih = Suc.IH [OF this]
  have v: "10 * (v div 10) + ?d = v" by (rule mult_div_mod_eq)
  have digits: "x64_digits (Suc n) v 10 = (ucast ?d + 48) # (if 0 < v div 10 then x64_digits n (v div 10) 10 else [])"
    using nd by (simp add: Let_def)
  note db = digit_byte [OF d]
  show ?case
  proof (cases "0 < v div 10")
    case True
    then show ?thesis
      using ih db v unfolding digits by (simp add: atoll_digits_append)
  next
    case False
    then have "v div 10 = 0" by (simp add: word_less_nat_alt unat_eq_0)
    with v have "?d = v" by simp
    with False db show ?thesis unfolding digits by simp
  qed
qed

lemma not_space: "isdigit c \<Longrightarrow> \<not> isspace c" "isdigit c \<Longrightarrow> c \<noteq> 45" "\<not> isspace 45"
  by (auto simp: isdigit_def isspace_def word_le_nat_alt)

lemma acl_atoll_digits:
  assumes "list_all isdigit ds" "ds \<noteq> []"
  shows "acl_atoll ds = atoll_digits 0 ds" "acl_atoll (45 # ds) = - atoll_digits 0 ds"
  using assms not_space
  by (cases ds; auto simp: acl_atoll_def Let_def)+

lemma atoll_x64toa:
  assumes "20 \<le> sz"
  shows "\<exists>s. x64toa v sz 10 neg = Some s \<and> acl_atoll s = v"
proof -
  have "unat v' < 10 ^ sz" for v' :: u64
  proof -
    have "unat v' < 2 ^ 64" using unsigned_less [where w = v'] by simp
    also have "(2::nat) ^ 64 \<le> 10 ^ 20" by simp
    also have "(10::nat) ^ 20 \<le> 10 ^ sz" using assms by (intro power_increasing) auto
    finally show ?thesis .
  qed
  note digs = x64_digits_ten [OF this]
  obtain n where "sz = Suc n" using assms by (cases sz) auto
  then have ne: "rev (x64_digits sz v' 10) \<noteq> []" for v' using x64_digits_ne by (simp del: x64_digits.simps)
  have all: "list_all isdigit (rev (x64_digits sz v' 10))" for v'
    using digs [of v'] by (simp add: list_all_iff)
  show ?thesis
    using assms digs acl_atoll_digits [OF all ne] by (simp add: x64toa_eq)
qed

subsection \<open>The blank line\<close>

text \<open>One byte at a time.\<close>

definition blank_step :: "byte \<Rightarrow> line_state \<Rightarrow> line_state" where
  "blank_step c st =
     (if ls_last_lf st = 0 then
        let st = st\<lparr>ls_last_ch := c, ls_offset := ls_offset st + 1\<rparr>
        in if c = 10 then st\<lparr>ls_last_lf := 10\<rparr> else st
      else if c = 10 then
        st\<lparr>ls_offset := ls_offset st + 1, ls_finish := True, ls_last_ch := 10\<rparr>
      else if c = 13 then
        if ls_last_ch st = 13 then st\<lparr>ls_offset := ls_offset st + 1, ls_last_lf := 0\<rparr>
        else st\<lparr>ls_offset := ls_offset st + 1, ls_last_ch := 13\<rparr>
      else st\<lparr>ls_last_lf := 0, ls_last_ch := c, ls_offset := ls_offset st + 1\<rparr>)"

fun blank_scan :: "byte list \<Rightarrow> line_state \<Rightarrow> byte list \<times> line_state" where
  "blank_scan [] st = ([], st)"
| "blank_scan (c # s) st =
     (if ls_finish (blank_step c st) then (s, blank_step c st) else blank_scan s (blank_step c st))"

lemma blank_lf_loop_scan:
  "ls_last_lf st = 0 \<Longrightarrow> \<not> ls_finish st \<Longrightarrow> s \<noteq> [] \<Longrightarrow>
   (case blank_lf_loop s st of (rest, st') \<Rightarrow> \<not> ls_finish st' \<and> blank_scan s st = blank_scan rest st')"
proof (induction s st rule: blank_lf_loop.induct)
  case (2 c s st)
  show ?case
  proof (cases "c = 10 \<or> s = []")
    case True
    with "2.prems" show ?thesis by (auto simp: blank_step_def Let_def)
  next
    case False
    with 2 show ?thesis by (auto simp: blank_step_def Let_def)
  qed
qed simp

lemma acl_find_blank_line_scan:
  "\<not> ls_finish st \<Longrightarrow> acl_find_blank_line s st = blank_scan s st"
proof (induction s st rule: acl_find_blank_line.induct)
  case (1 s st)
  show ?case
  proof (cases s)
    case Nil
    then show ?thesis by (simp add: acl_find_blank_line.simps [of "[]"])
  next
    case (Cons c t)
    obtain rest st' where g: "get_blank_line s st = (rest, st')" by (cases "get_blank_line s st")
    have step: "ls_finish st' \<and> blank_scan s st = (rest, st') \<or>
      \<not> ls_finish st' \<and> blank_scan s st = blank_scan rest st'"
    proof (cases "ls_last_lf st = 0")
      case True
      with g blank_lf_loop_scan [of st s] Cons "1.prems" show ?thesis
        by (simp add: get_blank_line_def split_beta)
    next
      case False
      with g Cons "1.prems" show ?thesis
        by (auto simp: get_blank_line_def blank_step_def Let_def split: if_splits)
    qed
    have unf: "acl_find_blank_line s st =
      (if ls_finish st' then (rest, st') else if rest = [] then ([], st') else acl_find_blank_line rest st')"
    proof -
      have "s \<noteq> []" using Cons by simp
      then show ?thesis by (subst acl_find_blank_line.simps) (simp add: g)
    qed
    show ?thesis
      using step "1.IH" [of "(rest, st')" rest st'] Cons g unfolding unf by auto
  qed
qed

text \<open>Reading the input in pieces makes no difference.\<close>

lemma blank_scan_append:
  "\<not> ls_finish st \<Longrightarrow>
   blank_scan (s @ t) st =
     (case blank_scan s st of
        (rest, st') \<Rightarrow> if ls_finish st' then (rest @ t, st') else blank_scan t st')"
  by (induction s arbitrary: st) (auto split: prod.splits)

text \<open>What the states mean: the bytes read so far end in a line feed, or in a line feed and
  a carriage return.\<close>

definition ends :: "byte list \<Rightarrow> byte list \<Rightarrow> bool" where
  "ends p t \<longleftrightarrow> (\<exists>q. p = q @ t)"

definition blank_end :: "byte list \<Rightarrow> bool" where
  "blank_end p \<longleftrightarrow> ends p [10, 10] \<or> ends p [10, 13, 10]"

definition blank_inv :: "int \<Rightarrow> byte list \<Rightarrow> line_state \<Rightarrow> bool" where
  "blank_inv off p st \<longleftrightarrow>
     ls_offset st = off + int (length p) \<and> \<not> ls_finish st \<and>
     (if ends p [10] then ls_last_lf st \<noteq> 0 \<and> ls_last_ch st = 10
      else if ends p [10, 13] then ls_last_lf st \<noteq> 0 \<and> ls_last_ch st = 13
      else ls_last_lf st = 0)"

lemma ends_snoc: "ends (p @ [c]) (t @ [d]) \<longleftrightarrow> c = d \<and> ends p t"
  by (auto simp: ends_def)

lemma ends_Nil [simp]: "ends p []"
  by (simp add: ends_def)

lemma ends_simps:
  "ends (p @ [c]) [d] \<longleftrightarrow> c = d"
  "ends (p @ [c]) [d, e] \<longleftrightarrow> c = e \<and> ends p [d]"
  "ends (p @ [c]) [d, e, f] \<longleftrightarrow> c = f \<and> ends p [d, e]"
  using ends_snoc [of p c "[]" d] ends_snoc [of p c "[d]" e] ends_snoc [of p c "[d, e]" f] by auto

lemma ends_disjoint: "ends p [10] \<Longrightarrow> \<not> ends p [10, 13]"
  by (auto simp: ends_def)

lemma blank_step_inv:
  assumes "blank_inv off p st"
  shows "if blank_end (p @ [c]) then ls_finish (blank_step c st) \<and>
           ls_offset (blank_step c st) = off + int (length p) + 1
         else blank_inv off (p @ [c]) (blank_step c st)"
  using assms ends_disjoint [of p]
  by (auto simp: blank_inv_def blank_end_def ends_simps blank_step_def Let_def split: if_splits)

lemma blank_scan_first:
  "blank_inv off p st \<Longrightarrow>
   (case blank_scan s st of (rest, st') \<Rightarrow>
      if ls_finish st' then
        \<exists>k. 0 < k \<and> k \<le> length s \<and> rest = drop k s \<and> blank_end (p @ take k s) \<and>
          (\<forall>j. 0 < j \<and> j < k \<longrightarrow> \<not> blank_end (p @ take j s)) \<and>
          ls_offset st' = off + int (length p) + int k
      else rest = [] \<and> blank_inv off (p @ s) st' \<and> (\<forall>j. 0 < j \<longrightarrow> j \<le> length s \<longrightarrow> \<not> blank_end (p @ take j s)))"
proof (induction s arbitrary: p st)
  case Nil
  then show ?case by (simp add: blank_inv_def)
next
  case (Cons c s)
  note step = blank_step_inv [OF Cons.prems, of c]
  show ?case
  proof (cases "blank_end (p @ [c])")
    case True
    with step show ?thesis by (auto intro!: exI [of _ "Suc 0"])
  next
    case False
    with step have inv: "blank_inv off (p @ [c]) (blank_step c st)" by simp
    then have nf: "\<not> ls_finish (blank_step c st)" by (simp add: blank_inv_def)
    have less: "\<not> blank_end (p @ take j (c # s))" if "0 < j" "j \<le> k"
      "\<And>i. 0 < i \<Longrightarrow> i < k \<Longrightarrow> \<not> blank_end ((p @ [c]) @ take i s)" for j k
      using that(1,2) that(3) [of "j - 1"] False by (cases "j = 1") (auto simp: take_Cons')
    obtain rest st' where b: "blank_scan s (blank_step c st) = (rest, st')"
      by (cases "blank_scan s (blank_step c st)")
    show ?thesis
    proof (cases "ls_finish st'")
      case True
      with Cons.IH [OF inv] b obtain k where k: "0 < k" "k \<le> length s" "rest = drop k s"
        "blank_end ((p @ [c]) @ take k s)" "\<And>j. 0 < j \<Longrightarrow> j < k \<Longrightarrow> \<not> blank_end ((p @ [c]) @ take j s)"
        "ls_offset st' = off + int (length (p @ [c])) + int k"
        by auto
      then show ?thesis
        using True b nf less [of _ k] by (auto intro!: exI [of _ "Suc k"] simp: less_Suc_eq_le)
    next
      case F: False
      with Cons.IH [OF inv] b have r: "rest = []" "blank_inv off (p @ c # s) st'"
        "\<And>j. 0 < j \<Longrightarrow> j \<le> length s \<Longrightarrow> \<not> blank_end ((p @ [c]) @ take j s)"
        by auto
      have "\<not> blank_end (p @ take j (c # s))" if "0 < j" "j \<le> Suc (length s)" for j
        using less [of j "Suc (length s)"] that r(3) by (simp add: less_Suc_eq_le)
      with F b nf r(1,2) show ?thesis by simp
    qed
  qed
qed

lemma blank_end_Nil [simp]: "\<not> blank_end []"
  by (simp add: blank_end_def ends_def)

lemma reset_inv: "blank_inv off [] (acl_line_state_reset off)"
  by (simp add: blank_inv_def acl_line_state_reset_def acl_line_state_alloc_def ends_def)

section \<open>Properties\<close>

text \<open>\<open>acl_find_blank_line\<close> on fresh state stops exactly after the first place where the
  input has a line feed, possibly a carriage return, and a line feed; it then leaves the bytes
  after it and an offset that counts the bytes read, and otherwise it reads all input.\<close>

theorem find_blank_line_first:
  "case acl_find_blank_line s (acl_line_state_reset off) of (rest, st) \<Rightarrow>
     if ls_finish st then
       \<exists>k \<le> length s. rest = drop k s \<and> blank_end (take k s) \<and>
         (\<forall>j < k. \<not> blank_end (take j s)) \<and> ls_offset st = off + int k
     else rest = [] \<and> (\<forall>j. \<not> blank_end (take j s)) \<and> ls_offset st = off + int (length s)"
proof -
  let ?st = "acl_line_state_reset off"
  have nf: "\<not> ls_finish ?st" using reset_inv [of off] by (simp add: blank_inv_def)
  obtain rest st where b: "acl_find_blank_line s ?st = (rest, st)" by (cases "acl_find_blank_line s ?st")
  note first = blank_scan_first [OF reset_inv [of off], of s, folded acl_find_blank_line_scan [OF nf, of s], unfolded b]
  show ?thesis
  proof (cases "ls_finish st")
    case True
    with first obtain k where k: "k \<le> length s" "rest = drop k s" "blank_end (take k s)"
      "\<And>j. 0 < j \<Longrightarrow> j < k \<Longrightarrow> \<not> blank_end (take j s)" "ls_offset st = off + int k"
      by auto
    have "\<not> blank_end (take j s)" if "j < k" for j using k(4) [of j] that by (cases "j = 0") auto
    with k True b show ?thesis by auto
  next
    case False
    with first have r: "rest = []" "blank_inv off s st"
      "\<And>j. 0 < j \<Longrightarrow> j \<le> length s \<Longrightarrow> \<not> blank_end (take j s)" by auto
    have "\<not> blank_end (take j s)" for j
      using r(3) [of j] r(3) [of "length s"] by (cases "j = 0"; cases "j \<le> length s"; cases "s = []") auto
    with False b r show ?thesis by (simp add: blank_inv_def)
  qed
qed

theorem find_blank_line_first_witness:
  "\<not> ls_finish (snd (acl_find_blank_line (lit ''ab'') (acl_line_state_reset 0)))"
proof
  assume "ls_finish (snd (acl_find_blank_line (lit ''ab'') (acl_line_state_reset 0)))"
  with find_blank_line_first [of "lit ''ab''" 0] obtain k where "blank_end (take k (lit ''ab''))"
    by (auto simp: split_beta)
  then have "10 \<in> set (take k (lit ''ab''))" by (auto simp: blank_end_def ends_def)
  then show False by (auto simp: lit_def dest!: in_set_takeD)
qed

text \<open>\<open>acl_find_blank_line\<close> may be fed its input in pieces: reading a first piece and,
  when it does not hold the blank line, a second one with the state left behind is the same as
  reading both at once.\<close>

theorem find_blank_line_pieces:
  assumes "\<not> ls_finish st"
  shows "acl_find_blank_line (s @ t) st =
    (case acl_find_blank_line s st of
       (rest, st') \<Rightarrow> if ls_finish st' then (rest @ t, st') else acl_find_blank_line t st')"
  using blank_scan_append [OF assms, of s t]
  by (auto simp: acl_find_blank_line_scan [OF assms] acl_find_blank_line_scan split: prod.split)

theorem find_blank_line_pieces_witness:
  "acl_find_blank_line [72, 10, 13, 10, 66] (acl_line_state_reset 0) =
     acl_find_blank_line [10, 66] \<lparr>ls_offset = 3, ls_finish = False, ls_last_ch = 13, ls_last_lf = 10\<rparr>"
proof -
  have "acl_find_blank_line [72, 10, 13] (acl_line_state_reset 0)
      = ([], \<lparr>ls_offset = 3, ls_finish = False, ls_last_ch = 13, ls_last_lf = 10\<rparr>)"
    by (simp add: acl_find_blank_line.simps get_blank_line_def acl_line_state_reset_def acl_line_state_alloc_def Let_def)
  then show ?thesis
    using find_blank_line_pieces [of "acl_line_state_reset 0" "[72, 10, 13]" "[10, 66]"]
    by (simp add: acl_line_state_reset_def acl_line_state_alloc_def)
qed

text \<open>printing and reading a 64-bit number are inverse: with room for 20 digits,
  \<open>acl_i64toa_radix\<close> and \<open>acl_ui64toa_radix\<close> in radix ten write a string that
  \<open>acl_atoll\<close> reads back as the same value, for every value, the most negative one included.\<close>

theorem atoll_i64toa_roundtrip:
  assumes "20 \<le> sz"
  shows "\<exists>s t. acl_i64toa_radix v sz 10 = Some s \<and> acl_atoll s = v \<and>
    acl_ui64toa_radix v sz 10 = Some t \<and> acl_atoll t = v"
  using atoll_x64toa [OF assms, of v "sint v < 0"] atoll_x64toa [OF assms, of v False]
  by (simp add: acl_i64toa_radix_def acl_ui64toa_radix_def)

theorem atoll_i64toa_roundtrip_witness:
  "\<exists>s. acl_i64toa_radix (-42) 21 10 = Some s \<and> acl_atoll s = -42"
  using atoll_i64toa_roundtrip [of 21 "-42"] by auto

text \<open>\<open>acl_strtok\<close> called until it returns NULL gives all tokens: none is empty, none
  holds a separator, and together they are the source without its separators.\<close>

theorem strtok_tokens_source:
  "concat (strtok_tokens src sep) = filter (\<lambda>c. c \<notin> sep) src \<and>
   list_all (\<lambda>t. t \<noteq> [] \<and> list_all (\<lambda>c. c \<notin> sep) t) (strtok_tokens src sep)"
  using strtok_tokens_ok [of src sep] by (auto simp: list_all_iff)

text \<open>\<open>acl_file_path_correct\<close> removes exactly the slashes that are followed by a slash,
  or returns -1 when the result with its final zero does not fit in the buffer; it writes
  nothing past the buffer, and a path it has produced it leaves as it is.\<close>

theorem file_path_correct_collapses:
  assumes "path \<noteq> []"
  shows "if int (length (slash_collapse path)) < sizeb
    then acl_file_path_correct path sizeb = (0, slash_collapse path @ [0]) \<and>
      successively (\<lambda>a b. \<not> (a = 47 \<and> b = 47)) (slash_collapse path) \<and>
      filter (\<lambda>c. c \<noteq> 47) (slash_collapse path) = filter (\<lambda>c. c \<noteq> 47) path \<and>
      acl_file_path_correct (slash_collapse path) sizeb = (0, slash_collapse path @ [0])
    else acl_file_path_correct path sizeb = (-1, [])"
  using assms slash_collapse_ok [of path]
  by (simp add: acl_file_path_correct_def path_str_strip slash_collapse_filter slash_collapse_idem)

theorem file_path_correct_collapses_witness:
  "acl_file_path_correct [47, 47, 97, 47, 47, 98] 10 = (0, [47, 97, 47, 98, 0])"
  using file_path_correct_collapses [of "[47, 47, 97, 47, 47, 98]" 10] by simp

text \<open>\<open>acl_dir_correct\<close> ends the path with a slash; when the collapsed path has no final
  slash and just fills the buffer it still adds one, and its final zero goes one byte past the
  buffer.\<close>

theorem dir_correct_overflow:
  assumes "path \<noteq> []" "last path \<noteq> 47" "int (length (slash_collapse path)) = sizeb - 1"
  shows "acl_dir_correct path sizeb = (0, slash_collapse path @ [47, 0]) \<and>
    int (length (snd (acl_dir_correct path sizeb))) = sizeb + 1"
  using assms by (simp add: acl_dir_correct_def path_str_strip)

theorem dir_correct_overflow_witness:
  "acl_dir_correct [47, 97] 3 = (0, [47, 97, 47, 0])"
  using dir_correct_overflow [of "[47, 97]" 3] by simp

end
