(* ===== verification/Acl_Htable.thy ===== *)
theory Acl_Htable
  imports Acl_Interfaces Acl_Mystring "HOL-Library.Multiset"
begin

text \<open>
  The hash table of \<^verbatim>\<open>acllib/src/stdlib/common/acl_htable.c\<close>. A collision chain is owned by
  its bucket and its entries are reached only through it, so a chain is the list of its
  entries, linked at the head; an entry that the code holds by pointer is given by its
  bucket and its place in the chain; the two-way links of an entry stand for that place. Memory comes from the
  slice pool or \<^verbatim>\<open>malloc\<close>, which end the process rather than fail, so \<open>htable_size\<close> and
  \<open>htable_grow\<close> never return -1. The functions that take the lock are single steps; a
  callback that they call is given by the entry or value that it is called on. With both
  \<open>KEY_LOWER\<close> and \<open>KEY_REUSE\<close> a new entry keeps a pointer to the lower-case copy of the key,
  which the function frees when it returns: \<open>acl_htable_enter\<close> is \<open>None\<close> there, and no
  well-formed table (\<open>ht_ok\<close>) has both flags. With \<open>KEY_REUSE\<close> alone the entry points to the
  caller's key, which the caller keeps as it is while the entry lives.
\<close>

record 'v ht_entry =
  he_hash :: u32
  he_key :: cstr
  he_value :: "'v option"

record 'v htable =
  ht_size :: nat
  ht_init_size :: int
  ht_used :: nat
  ht_data :: "'v ht_entry list list"
  ht_flag :: u32
  ht_status :: int
  ht_hash_fn :: "cstr \<Rightarrow> u32"
  ht_rwlock :: bool

abbreviation FLAG_KEY_REUSE :: u32 where "FLAG_KEY_REUSE \<equiv> 1"
abbreviation FLAG_USE_LOCK :: u32 where "FLAG_USE_LOCK \<equiv> 2"
abbreviation FLAG_MSLOOK :: u32 where "FLAG_MSLOOK \<equiv> 4"
abbreviation FLAG_KEY_LOWER :: u32 where "FLAG_KEY_LOWER \<equiv> 8"

abbreviation STAT_OK :: int where "STAT_OK \<equiv> 0"
abbreviation STAT_INVAL :: int where "STAT_INVAL \<equiv> 1"
abbreviation STAT_DUPLEX_KEY :: int where "STAT_DUPLEX_KEY \<equiv> 2"

section \<open>The hash function\<close>

text \<open>\<open>unsigned long\<close> has 64 bits on Unix and 32 bits on Windows.\<close>

fun hash_loop64 :: "u64 \<Rightarrow> cstr \<Rightarrow> u64" where
  "hash_loop64 h [] = h"
| "hash_loop64 h (c # s) =
     (let h = push_bit 4 h + ucast c;
          g = h AND 0xf0000000
      in hash_loop64 (if g \<noteq> 0 then (h XOR drop_bit 24 g) XOR g else h) s)"

fun hash_loop32 :: "u32 \<Rightarrow> cstr \<Rightarrow> u32" where
  "hash_loop32 h [] = h"
| "hash_loop32 h (c # s) =
     (let h = push_bit 4 h + ucast c;
          g = h AND 0xf0000000
      in hash_loop32 (if g \<noteq> 0 then (h XOR drop_bit 24 g) XOR g else h) s)"

definition def_hash_fn :: "cstr \<Rightarrow> u32" where
  "def_hash_fn s = ucast (hash_loop64 0 s)"

section \<open>The table\<close>

definition htable_link :: "'v htable \<Rightarrow> 'v ht_entry \<Rightarrow> nat \<Rightarrow> 'v htable" where
  "htable_link t e n = t\<lparr>ht_data := (ht_data t)[n := e # ht_data t ! n], ht_used := ht_used t + 1\<rparr>"

definition htable_size :: "'v htable \<Rightarrow> nat \<Rightarrow> 'v htable" where
  "htable_size t sz =
     (let sz = sz OR 1 in t\<lparr>ht_data := replicate sz [], ht_size := sz, ht_used := 0\<rparr>)"

definition htable_relink :: "'v ht_entry \<Rightarrow> 'v htable \<Rightarrow> 'v htable" where
  "htable_relink ht t = htable_link t ht (unat (ht_hash_fn t (he_key ht)) mod ht_size t)"

definition htable_grow :: "'v htable \<Rightarrow> 'v htable" where
  "htable_grow t =
     (let old_entries = ht_data t;
          t = htable_size t (2 * ht_size t)
      in fold (\<lambda>chain t. fold htable_relink chain t) old_entries t)"

definition acl_htable_create :: "int \<Rightarrow> u32 \<Rightarrow> 'v htable" where
  "acl_htable_create sz flag =
     (let t = \<lparr>ht_size = 0, ht_init_size = sz, ht_used = 0, ht_data = [], ht_flag = flag,
            ht_status = 0, ht_hash_fn = def_hash_fn, ht_rwlock = False\<rparr>;
          t = htable_size t (nat (if sz < 13 then 13 else sz))
      in t\<lparr>ht_rwlock := flag AND FLAG_USE_LOCK \<noteq> 0\<rparr>)"

datatype ht_ctl = CtlHashFn "(cstr \<Rightarrow> u32) option" | CtlRwlock bool

fun htable_ctl_one :: "ht_ctl \<Rightarrow> 'v htable \<Rightarrow> 'v htable" where
  "htable_ctl_one (CtlHashFn f) t =
     t\<lparr>ht_hash_fn := (case f of None \<Rightarrow> def_hash_fn | Some f \<Rightarrow> f)\<rparr>"
| "htable_ctl_one (CtlRwlock enable) t = t\<lparr>ht_rwlock := enable\<rparr>"

definition acl_htable_ctl :: "'v htable \<Rightarrow> ht_ctl list \<Rightarrow> 'v htable" where
  "acl_htable_ctl t ops = fold htable_ctl_one ops t"

definition acl_htable_errno :: "'v htable option \<Rightarrow> int" where
  "acl_htable_errno t = (case t of None \<Rightarrow> STAT_INVAL | Some t \<Rightarrow> ht_status t)"

definition acl_htable_set_errno :: "'v htable \<Rightarrow> int \<Rightarrow> 'v htable" where
  "acl_htable_set_errno t err = t\<lparr>ht_status := err\<rparr>"

text \<open>The key that the table uses for a caller's key, and the search along a chain.\<close>

definition ht_norm :: "'v htable \<Rightarrow> cstr \<Rightarrow> cstr" where
  "ht_norm t key_in = (if ht_flag t AND FLAG_KEY_LOWER \<noteq> 0 then acl_lowercase key_in else key_in)"

fun chain_pos :: "cstr \<Rightarrow> 'v ht_entry list \<Rightarrow> nat option" where
  "chain_pos key [] = None"
| "chain_pos key (ht # chain) = (if key = he_key ht then Some 0 else map_option Suc (chain_pos key chain))"

text \<open>Both flags: the key of a new entry is the buffer that is freed on return.\<close>

definition key_dangles :: "'v htable \<Rightarrow> bool" where
  "key_dangles t \<longleftrightarrow> ht_flag t AND FLAG_KEY_LOWER \<noteq> 0 \<and> ht_flag t AND FLAG_KEY_REUSE \<noteq> 0"

text \<open>The entry returned (new, or the one that has the key already) and the table; \<open>None\<close>
  when the table is left with an entry whose key is freed memory.\<close>

definition acl_htable_enter :: "'v htable \<Rightarrow> cstr \<Rightarrow> 'v option \<Rightarrow> ('v ht_entry \<times> 'v htable) option" where
  "acl_htable_enter t key_in val =
     (let key = ht_norm t key_in;
          t = t\<lparr>ht_status := STAT_OK\<rparr>;
          hash = ht_hash_fn t key;
          t = (if ht_used t \<ge> ht_size t then htable_grow t else t);
          n = unat hash mod ht_size t
      in case chain_pos key (ht_data t ! n) of
           Some i \<Rightarrow> Some (ht_data t ! n ! i, t\<lparr>ht_status := STAT_DUPLEX_KEY\<rparr>)
         | None \<Rightarrow>
             if key_dangles t then None
             else
               let ht = \<lparr>he_hash = hash, he_key = key, he_value = val\<rparr>
               in Some (ht, htable_link t ht n))"

text \<open>The result, the entry the callback is called on, and the table.\<close>

definition acl_htable_enter_r ::
  "'v htable \<Rightarrow> cstr \<Rightarrow> 'v option \<Rightarrow> (int \<times> 'v ht_entry \<times> 'v htable) option" where
  "acl_htable_enter_r t key_in val =
     (let key = ht_norm t key_in;
          hash = ht_hash_fn t key;
          t = t\<lparr>ht_status := STAT_OK\<rparr>;
          t = (if ht_used t \<ge> ht_size t then htable_grow t else t);
          n = unat hash mod ht_size t
      in case chain_pos key (ht_data t ! n) of
           Some i \<Rightarrow> Some (0, ht_data t ! n ! i, t\<lparr>ht_status := STAT_DUPLEX_KEY\<rparr>)
         | None \<Rightarrow>
             if key_dangles t then None
             else
               let ht = \<lparr>he_hash = hash, he_key = key, he_value = val\<rparr>
               in Some (0, ht, htable_link t ht n))"

text \<open>With \<open>MSLOOK\<close>, the entry found moves to the head of its chain.\<close>

definition ms_look :: "'v htable \<Rightarrow> nat \<Rightarrow> nat \<Rightarrow> 'v htable" where
  "ms_look t n i =
     (let chain = ht_data t ! n; ht = chain ! i in
      if ht_flag t AND FLAG_MSLOOK = 0 then t
      else if i = 0 then t
      else t\<lparr>ht_data := (ht_data t)[n := ht # take i chain @ drop (Suc i) chain]\<rparr>)"

definition acl_htable_locate :: "'v htable \<Rightarrow> cstr \<Rightarrow> 'v ht_entry option \<times> 'v htable" where
  "acl_htable_locate t key_in =
     (let key = ht_norm t key_in;
          n = unat (ht_hash_fn t key) mod ht_size t
      in case chain_pos key (ht_data t ! n) of
           None \<Rightarrow> (None, t)
         | Some i \<Rightarrow> (Some (ht_data t ! n ! i), ms_look t n i))"

definition acl_htable_find :: "'v htable \<Rightarrow> cstr \<Rightarrow> 'v option \<times> 'v htable" where
  "acl_htable_find t key =
     (case acl_htable_locate t key of
        (ht, t) \<Rightarrow> ((case ht of None \<Rightarrow> None | Some ht \<Rightarrow> he_value ht), t))"

text \<open>The result, the value the callback is called on (if it is), and the table.\<close>

definition acl_htable_find_r :: "'v htable \<Rightarrow> cstr \<Rightarrow> int \<times> 'v option option \<times> 'v htable" where
  "acl_htable_find_r t key_in =
     (let key = ht_norm t key_in;
          n = unat (ht_hash_fn t key) mod ht_size t
      in case chain_pos key (ht_data t ! n) of
           None \<Rightarrow> (-1, None, t)
         | Some i \<Rightarrow> (0, Some (he_value (ht_data t ! n ! i)), ms_look t n i))"

definition acl_htable_locate_r :: "'v htable \<Rightarrow> cstr \<Rightarrow> int \<times> 'v ht_entry option" where
  "acl_htable_locate_r t key_in =
     (let key = ht_norm t key_in;
          n = unat (ht_hash_fn t key) mod ht_size t
      in case chain_pos key (ht_data t ! n) of
           None \<Rightarrow> (-1, None)
         | Some i \<Rightarrow> (0, Some (ht_data t ! n ! i)))"

text \<open>
  The entry deleted is the i-th of bucket n. When it is the head of its chain, the rest of
  the chain is stored at the bucket of its hash, whichever that is. The result is the values
  handed to \<open>free_fn\<close>, when one is given, and the table.
\<close>

definition free_value :: "bool \<Rightarrow> 'v option \<Rightarrow> 'v list" where
  "free_value free_fn val = (if free_fn then (case val of None \<Rightarrow> [] | Some v \<Rightarrow> [v]) else [])"

definition acl_htable_delete_entry :: "'v htable \<Rightarrow> nat \<times> nat \<Rightarrow> bool \<Rightarrow> 'v list \<times> 'v htable" where
  "acl_htable_delete_entry t ni free_fn =
     (case ni of (n, i) \<Rightarrow>
        let chain = ht_data t ! n;
            ht = chain ! i;
            h = unat (he_hash ht) mod ht_size t;
            data = (if i > 0 then (ht_data t)[n := take i chain @ drop (Suc i) chain]
                    else (ht_data t)[h := drop (Suc i) chain])
        in (free_value free_fn (he_value ht), t\<lparr>ht_data := data, ht_used := ht_used t - 1\<rparr>))"

definition acl_htable_delete :: "'v htable \<Rightarrow> cstr \<Rightarrow> bool \<Rightarrow> int \<times> 'v list \<times> 'v htable" where
  "acl_htable_delete t key_in free_fn =
     (let key = ht_norm t key_in;
          n = unat (ht_hash_fn t key) mod ht_size t
      in case chain_pos key (ht_data t ! n) of
           None \<Rightarrow> (-1, [], t)
         | Some i \<Rightarrow> (0, acl_htable_delete_entry t (n, i) free_fn))"

definition htable_free_values :: "'v htable \<Rightarrow> bool \<Rightarrow> 'v list" where
  "htable_free_values t free_fn =
     concat (map (\<lambda>chain. concat (map (\<lambda>ht. free_value free_fn (he_value ht)) chain)) (ht_data t))"

definition acl_htable_free :: "'v htable \<Rightarrow> bool \<Rightarrow> 'v list" where
  "acl_htable_free t free_fn = htable_free_values t free_fn"

definition acl_htable_reset :: "'v htable \<Rightarrow> bool \<Rightarrow> int \<times> 'v list \<times> 'v htable" where
  "acl_htable_reset t free_fn =
     (0, htable_free_values t free_fn,
      htable_size t (nat (if ht_init_size t < 13 then 13 else ht_init_size t)))"

text \<open>The entries that \<open>action\<close> is called on, in order.\<close>

definition acl_htable_walk :: "'v htable \<Rightarrow> 'v ht_entry list" where
  "acl_htable_walk t = concat (ht_data t)"

definition acl_htable_list :: "'v htable option \<Rightarrow> 'v ht_entry list" where
  "acl_htable_list t = (case t of None \<Rightarrow> [] | Some t \<Rightarrow> concat (ht_data t))"

definition acl_htable_size :: "'v htable option \<Rightarrow> int" where
  "acl_htable_size t = (case t of None \<Rightarrow> 0 | Some t \<Rightarrow> int (ht_size t))"

definition acl_htable_used :: "'v htable option \<Rightarrow> int" where
  "acl_htable_used t = (case t of None \<Rightarrow> 0 | Some t \<Rightarrow> int (ht_used t))"

section \<open>Iterators\<close>

text \<open>
  An iterator's pointer is the entry it stands on together with the rest of the chain. The
  two loops that look for the next chain that is not empty give its index (or where they
  stop) and the chain.
\<close>

type_synonym 'v chain = "'v ht_entry list"

function scan_up :: "'v chain list \<Rightarrow> int \<Rightarrow> int \<Rightarrow> int \<times> 'v chain option" where
  "scan_up data i sz =
     (if i < sz then
        if data ! nat i \<noteq> [] then (i, Some (data ! nat i)) else scan_up data (i + 1) sz
      else (i, None))"
  by pat_completeness auto
termination
  by (relation "measure (\<lambda>(data, i, sz). nat (sz - i))") auto

function scan_down :: "'v chain list \<Rightarrow> int \<Rightarrow> int \<times> 'v chain option" where
  "scan_down data i =
     (if i \<ge> 0 then
        if data ! nat i \<noteq> [] then (i, Some (data ! nat i)) else scan_down data (i - 1)
      else (i, None))"
  by pat_completeness auto
termination
  by (relation "measure (\<lambda>(data, i). nat (i + 1))") auto

declare scan_up.simps [simp del] scan_down.simps [simp del]

type_synonym 'v ht_iter = "('v chain, 'v) acl_iter"

definition iter_set :: "'v ht_iter \<Rightarrow> int \<times> 'v chain option \<Rightarrow> 'v ht_iter" where
  "iter_set it p =
     (case p of
        (i, None) \<Rightarrow> it\<lparr>it_i := i, it_ptr := None, it_data := None, it_key := None\<rparr>
      | (i, Some c) \<Rightarrow> it\<lparr>it_i := i, it_ptr := Some c, it_data := he_value (hd c), it_key := Some (he_key (hd c))\<rparr>)"

definition htable_iter_head :: "'v ht_iter \<Rightarrow> 'v htable \<Rightarrow> 'v ht_iter" where
  "htable_iter_head it t =
     iter_set (it\<lparr>it_dlen := -1, it_klen := -1, it_size := int (ht_size t)\<rparr>)
       (scan_up (ht_data t) 0 (int (ht_size t)))"

definition htable_iter_next :: "'v ht_iter \<Rightarrow> 'v htable \<Rightarrow> 'v ht_iter" where
  "htable_iter_next it t =
     (case it_ptr it of
        Some (h # r # rest) \<Rightarrow> iter_set it (it_i it, Some (r # rest))
      | _ \<Rightarrow> iter_set it (scan_up (ht_data t) (it_i it + 1) (it_size it)))"

definition htable_iter_tail :: "'v ht_iter \<Rightarrow> 'v htable \<Rightarrow> 'v ht_iter" where
  "htable_iter_tail it t =
     iter_set (it\<lparr>it_dlen := -1, it_klen := -1, it_size := int (ht_size t)\<rparr>)
       (scan_down (ht_data t) (int (ht_size t) - 1))"

definition htable_iter_prev :: "'v ht_iter \<Rightarrow> 'v htable \<Rightarrow> 'v ht_iter" where
  "htable_iter_prev it t =
     (case it_ptr it of
        Some (h # r # rest) \<Rightarrow> iter_set it (it_i it, Some (r # rest))
      | _ \<Rightarrow> iter_set it (scan_down (ht_data t) (it_i it - 1)))"

definition htable_iter_info :: "'v ht_iter \<Rightarrow> 'v ht_entry option" where
  "htable_iter_info it = map_option hd (it_ptr it)"

text \<open>The table's own iterator, \<open>ACL_HTABLE_ITER\<close>, which keeps the bucket array.\<close>

record 'v htable_iter =
  hi_ptr :: "'v chain option"
  hi_i :: int
  hi_size :: int
  hi_h :: "'v chain list"

definition acl_htable_iter_head :: "'v htable \<Rightarrow> 'v htable_iter" where
  "acl_htable_iter_head t =
     (case scan_up (ht_data t) 0 (int (ht_size t)) of
        (i, p) \<Rightarrow> \<lparr>hi_ptr = p, hi_i = i, hi_size = int (ht_size t), hi_h = ht_data t\<rparr>)"

definition acl_htable_iter_next :: "'v htable_iter \<Rightarrow> 'v htable_iter" where
  "acl_htable_iter_next it =
     (case hi_ptr it of
        Some (h # r # rest) \<Rightarrow> it\<lparr>hi_ptr := Some (r # rest)\<rparr>
      | _ \<Rightarrow> (case scan_up (hi_h it) (hi_i it + 1) (hi_size it) of
                (i, p) \<Rightarrow> it\<lparr>hi_i := i, hi_ptr := p\<rparr>))"

definition acl_htable_iter_tail :: "'v htable \<Rightarrow> 'v htable_iter" where
  "acl_htable_iter_tail t =
     (case scan_down (ht_data t) (int (ht_size t) - 1) of
        (i, p) \<Rightarrow> \<lparr>hi_ptr = p, hi_i = i, hi_size = int (ht_size t), hi_h = ht_data t\<rparr>)"

definition acl_htable_iter_prev :: "'v htable_iter \<Rightarrow> 'v htable_iter" where
  "acl_htable_iter_prev it =
     (case hi_ptr it of
        Some (h # r # rest) \<Rightarrow> it\<lparr>hi_ptr := Some (r # rest)\<rparr>
      | _ \<Rightarrow> (case scan_down (hi_h it) (hi_i it - 1) of
                (i, p) \<Rightarrow> it\<lparr>hi_i := i, hi_ptr := p\<rparr>))"

section \<open>Well-formedness and the map\<close>

definition ht_entries :: "'v htable \<Rightarrow> 'v ht_entry list" where
  "ht_entries t = concat (ht_data t)"

definition ht_home :: "'v htable \<Rightarrow> cstr \<Rightarrow> nat" where
  "ht_home t key = unat (ht_hash_fn t key) mod ht_size t"

definition ht_lower :: "'v htable \<Rightarrow> bool" where
  "ht_lower t \<longleftrightarrow> ht_flag t AND FLAG_KEY_LOWER \<noteq> 0"

definition ht_placed :: "'v htable \<Rightarrow> bool" where
  "ht_placed t \<longleftrightarrow> 0 < ht_size t \<and> length (ht_data t) = ht_size t \<and>
     ht_used t = length (ht_entries t) \<and>
     (\<forall>n < ht_size t. \<forall>e \<in> set (ht_data t ! n). ht_home t (he_key e) = n)"

definition ht_ok :: "'v htable \<Rightarrow> bool" where
  "ht_ok t \<longleftrightarrow> ht_placed t \<and> \<not> key_dangles t \<and> ht_used t \<le> ht_size t \<and> distinct (map he_key (ht_entries t)) \<and>
     (\<forall>e \<in> set (ht_entries t). he_hash e = ht_hash_fn t (he_key e) \<and> ht_norm t (he_key e) = he_key e)"

definition ht_map :: "'v htable \<Rightarrow> cstr \<rightharpoonup> 'v option" where
  "ht_map t = map_of (map (\<lambda>e. (he_key e, he_value e)) (ht_entries t))"

lemma ht_norm_idem [simp]: "ht_norm t (ht_norm t k) = ht_norm t k"
  by (simp add: ht_norm_def)

lemma ht_map_Some:
  "ht_ok t \<Longrightarrow> ht_map t k = Some v \<longleftrightarrow> (\<exists>e \<in> set (ht_entries t). he_key e = k \<and> he_value e = v)"
  by (subst ht_map_def, subst map_of_eq_Some_iff) (auto simp: ht_ok_def comp_def)

lemma ht_map_None: "ht_map t k = None \<longleftrightarrow> k \<notin> he_key ` set (ht_entries t)"
  by (simp add: ht_map_def map_of_eq_None_iff image_image)

lemma ht_entries_bucket:
  assumes "ht_placed t"
  shows "e \<in> set (ht_entries t) \<longleftrightarrow> e \<in> set (ht_data t ! ht_home t (he_key e))"
proof -
  have len: "length (ht_data t) = ht_size t" and home: "\<And>n. n < ht_size t \<Longrightarrow> e \<in> set (ht_data t ! n) \<Longrightarrow> ht_home t (he_key e) = n"
    and pos: "0 < ht_size t" using assms by (auto simp: ht_placed_def)
  have less: "ht_home t (he_key e) < ht_size t" using pos by (simp add: ht_home_def)
  show ?thesis
  proof
    assume "e \<in> set (ht_entries t)"
    then obtain n where "n < ht_size t" "e \<in> set (ht_data t ! n)"
      using len by (auto simp: ht_entries_def in_set_conv_nth [of _ "ht_data t"])
    with home [of n] show "e \<in> set (ht_data t ! ht_home t (he_key e))" by simp
  next
    assume "e \<in> set (ht_data t ! ht_home t (he_key e))"
    moreover have "ht_data t ! ht_home t (he_key e) \<in> set (ht_data t)" using less len by simp
    ultimately show "e \<in> set (ht_entries t)" by (auto simp: ht_entries_def)
  qed
qed

text \<open>Writing one bucket changes the entries by what the chain gains and loses.\<close>

lemma mset_concat_update:
  "n < length xss \<Longrightarrow> mset (concat (xss[n := c])) + mset (xss ! n) = mset (concat xss) + mset c"
proof (induction xss arbitrary: n)
  case (Cons xs xss)
  show ?case
  proof (cases n)
    case (Suc m)
    with Cons.IH [of m] Cons.prems show ?thesis by (simp add: add.assoc)
  qed simp
qed simp

lemma chain_pos_Some:
  "chain_pos key chain = Some i \<Longrightarrow> i < length chain \<and> he_key (chain ! i) = key"
  by (induction chain arbitrary: i) (auto split: if_splits)

lemma chain_pos_None: "chain_pos key chain = None \<longleftrightarrow> key \<notin> he_key ` set chain"
  by (induction chain) auto

lemma chain_split: "i < length chain \<Longrightarrow> mset chain = add_mset (chain ! i) (mset (take i chain @ drop (Suc i) chain))"
  by (subst id_take_nth_drop) simp_all

lemma ht_home_less: "ht_placed t \<Longrightarrow> ht_home t k < length (ht_data t)"
  by (simp add: ht_placed_def ht_home_def)

text \<open>The search of a key in its bucket decides whether the map has it.\<close>

lemma chain_pos_map:
  assumes ok: "ht_ok t"
  shows "case chain_pos key (ht_data t ! ht_home t key) of
      None \<Rightarrow> ht_map t key = None
    | Some i \<Rightarrow> i < length (ht_data t ! ht_home t key) \<and>
        he_key (ht_data t ! ht_home t key ! i) = key \<and>
        ht_map t key = Some (he_value (ht_data t ! ht_home t key ! i))"
proof -
  have placed: "ht_placed t" using ok by (simp add: ht_ok_def)
  note bucket = ht_entries_bucket [OF placed]
  show ?thesis
  proof (cases "chain_pos key (ht_data t ! ht_home t key)")
    case None
    have "key \<notin> he_key ` set (ht_entries t)"
      using None [unfolded chain_pos_None] bucket by auto
    with None show ?thesis by (simp add: ht_map_None)
  next
    case (Some i)
    from chain_pos_Some [OF this] have i: "i < length (ht_data t ! ht_home t key)"
      "he_key (ht_data t ! ht_home t key ! i) = key" by auto
    then have "ht_data t ! ht_home t key ! i \<in> set (ht_entries t)" by (simp add: bucket)
    with i Some show ?thesis by (auto simp: ht_map_Some [OF ok])
  qed
qed

text \<open>Two well-formed tables with the same entries, in whatever order, are the same map.\<close>

lemma key_dangles_same: "ht_flag t' = ht_flag t \<Longrightarrow> key_dangles t' = key_dangles t"
  by (simp add: key_dangles_def)

lemma ht_ok_dangles: "ht_ok t \<Longrightarrow> \<not> key_dangles t"
  by (simp add: ht_ok_def)

lemma ht_okI:
  assumes "ht_placed t" "\<not> key_dangles t" "ht_used t \<le> ht_size t" "distinct (map he_key (ht_entries t))"
    "\<And>e. e \<in> set (ht_entries t) \<Longrightarrow> he_hash e = ht_hash_fn t (he_key e) \<and> ht_norm t (he_key e) = he_key e"
  shows "ht_ok t"
  using assms by (simp add: ht_ok_def)

lemma ht_ok_entry:
  "ht_ok t \<Longrightarrow> e \<in> set (ht_entries t) \<Longrightarrow> he_hash e = ht_hash_fn t (he_key e) \<and> ht_norm t (he_key e) = he_key e"
  by (simp add: ht_ok_def)

lemma ht_map_mset:
  assumes "distinct (map he_key (ht_entries t))" "mset (ht_entries t') = mset (ht_entries t)"
  shows "ht_map t' = ht_map t"
proof -
  let ?f = "\<lambda>e. (he_key e, he_value e)"
  have "set (ht_entries t') = set (ht_entries t)" using assms(2) by (rule mset_eq_setD)
  moreover have "mset (map he_key (ht_entries t')) = mset (map he_key (ht_entries t))" using assms(2) by simp
  with assms(1) have "distinct (map he_key (ht_entries t'))" by (metis mset_eq_imp_distinct_iff)
  ultimately show ?thesis
    unfolding ht_map_def using assms(1)
    by (intro map_of_inject_set [THEN iffD2]) (auto simp: comp_def)
qed

lemma ht_ok_mset:
  assumes "ht_ok t" "ht_placed t'" "ht_used t' \<le> ht_size t'" "mset (ht_entries t') = mset (ht_entries t)"
    "ht_hash_fn t' = ht_hash_fn t" "ht_flag t' = ht_flag t"
  shows "ht_ok t' \<and> ht_map t' = ht_map t"
proof -
  have "mset (map he_key (ht_entries t')) = mset (map he_key (ht_entries t))" using assms(4) by simp
  then have d: "distinct (map he_key (ht_entries t')) = distinct (map he_key (ht_entries t))"
    by (metis mset_eq_imp_distinct_iff)
  have s: "set (ht_entries t') = set (ht_entries t)" using assms(4) by (rule mset_eq_setD)
  have "ht_norm t' = ht_norm t" using assms(6) by (simp add: ht_norm_def fun_eq_iff)
  with d s assms(1,2,3,5) ht_map_mset [OF _ assms(4)] key_dangles_same [OF assms(6)]
  show ?thesis by (simp add: ht_ok_def)
qed

section \<open>Growing\<close>

lemma htable_size_facts:
  "ht_placed (htable_size t n)" "ht_entries (htable_size t n) = []"
  "ht_hash_fn (htable_size t n) = ht_hash_fn t" "ht_flag (htable_size t n) = ht_flag t"
  "n \<le> ht_size (htable_size t n)"
  by (auto simp: htable_size_def ht_placed_def ht_entries_def Let_def or_Suc_0_eq odd_pos)

lemma htable_link_placed:
  assumes "ht_placed t" "n = ht_home t (he_key e)"
  shows "ht_placed (htable_link t e n)"
    "mset (ht_entries (htable_link t e n)) = add_mset e (mset (ht_entries t))"
proof -
  have n: "n < length (ht_data t)" using ht_home_less [OF assms(1)] assms(2) by simp
  from mset_concat_update [OF n, of "e # ht_data t ! n"]
  have m: "mset (concat ((ht_data t)[n := e # ht_data t ! n])) = add_mset e (mset (concat (ht_data t)))"
    by simp
  then show "mset (ht_entries (htable_link t e n)) = add_mset e (mset (ht_entries t))"
    by (simp add: ht_entries_def htable_link_def)
  have "length (concat ((ht_data t)[n := e # ht_data t ! n])) = Suc (length (concat (ht_data t)))"
    using arg_cong [OF m, of size] by (simp only: size_mset size_add_mset)
  then show "ht_placed (htable_link t e n)"
    using assms n by (auto simp: ht_placed_def htable_link_def ht_entries_def ht_home_def nth_list_update)
qed

lemma htable_link_same [simp]:
  "ht_hash_fn (htable_link t e n) = ht_hash_fn t" "ht_flag (htable_link t e n) = ht_flag t"
  "ht_size (htable_link t e n) = ht_size t" "ht_status (htable_link t e n) = ht_status t"
  by (simp_all add: htable_link_def)

lemma fold_relink:
  "ht_placed t \<Longrightarrow>
   ht_placed (fold htable_relink es t) \<and>
   mset (ht_entries (fold htable_relink es t)) = mset es + mset (ht_entries t) \<and>
   ht_hash_fn (fold htable_relink es t) = ht_hash_fn t \<and> ht_flag (fold htable_relink es t) = ht_flag t \<and>
   ht_size (fold htable_relink es t) = ht_size t \<and> ht_status (fold htable_relink es t) = ht_status t"
proof (induction es arbitrary: t)
  case (Cons e es)
  note link = htable_link_placed [OF Cons.prems, of "ht_home t (he_key e)" e, OF refl]
  from Cons.IH [OF link(1)] link(2) show ?case
    by (simp add: htable_relink_def ht_home_def [symmetric])
qed simp

lemma fold_fold_concat: "fold (\<lambda>xs t. fold f xs t) xss t = fold f (concat xss) t"
  by (induction xss arbitrary: t) simp_all

lemma htable_grow_facts:
  assumes "ht_ok t"
  shows "ht_ok (htable_grow t)" "ht_map (htable_grow t) = ht_map t"
    "ht_hash_fn (htable_grow t) = ht_hash_fn t" "ht_flag (htable_grow t) = ht_flag t"
    "2 * ht_size t \<le> ht_size (htable_grow t)"
    "mset (ht_entries (htable_grow t)) = mset (ht_entries t)"
    "ht_status (htable_grow t) = ht_status t" "ht_used (htable_grow t) = ht_used t"
proof -
  let ?t0 = "htable_size t (2 * ht_size t)"
  have grow: "htable_grow t = fold htable_relink (ht_entries t) ?t0"
    by (simp add: htable_grow_def Let_def fold_fold_concat ht_entries_def)
  note size = htable_size_facts [where t = t and n = "2 * ht_size t"]
  note relink = fold_relink [OF size(1), of "ht_entries t", folded grow]
  show m: "mset (ht_entries (htable_grow t)) = mset (ht_entries t)"
    "ht_hash_fn (htable_grow t) = ht_hash_fn t" "ht_flag (htable_grow t) = ht_flag t"
    "2 * ht_size t \<le> ht_size (htable_grow t)"
    using relink size by simp_all
  have "ht_placed (htable_grow t)" using relink by blast
  with mset_eq_length [OF m(1)] assms show used: "ht_used (htable_grow t) = ht_used t"
    by (simp add: ht_ok_def ht_placed_def)
  have "ht_used (htable_grow t) \<le> ht_size (htable_grow t)"
    using used m(4) assms by (simp add: ht_ok_def)
  then show "ht_ok (htable_grow t)" "ht_map (htable_grow t) = ht_map t"
    using ht_ok_mset [OF assms, of "htable_grow t"] relink m by simp_all
  show "ht_status (htable_grow t) = ht_status t"
    using relink by (simp add: htable_size_def Let_def)
qed

section \<open>Operations on the map\<close>

lemma ht_norm_same: "ht_flag t' = ht_flag t \<Longrightarrow> ht_norm t' = ht_norm t"
  by (simp add: ht_norm_def fun_eq_iff)

lemma ht_home_norm: "unat (ht_hash_fn t k) mod ht_size t = ht_home t k"
  by (simp add: ht_home_def)

lemma ht_ok_placed: "ht_ok t \<Longrightarrow> ht_placed t"
  by (simp add: ht_ok_def)

lemma ht_ok_distinct: "ht_ok t \<Longrightarrow> distinct (map he_key (ht_entries t))"
  by (simp add: ht_ok_def)

lemma mset_cancel: "X + add_mset e C = Y + C \<Longrightarrow> Y = add_mset e X"
  by (metis add_right_imp_eq union_mset_add_mset_left union_mset_add_mset_right)

lemma mset_add_set: "mset xs = add_mset e (mset ys) \<Longrightarrow> set xs = insert e (set ys) \<and> length xs = Suc (length ys)"
  by (metis mset_eq_length mset_eq_setD length_Cons list.simps(15) mset.simps(2))

lemma mset_add_keys:
  "mset xs = add_mset e (mset ys) \<Longrightarrow>
   distinct (map he_key xs) \<longleftrightarrow> he_key e \<notin> he_key ` set ys \<and> distinct (map he_key ys)"
proof -
  assume "mset xs = add_mset e (mset ys)"
  then have "mset (map he_key xs) = mset (map he_key (e # ys))" by simp
  then have "distinct (map he_key xs) = distinct (map he_key (e # ys))" by (rule mset_eq_imp_distinct_iff)
  then show ?thesis by simp
qed

text \<open>One entry more.\<close>

lemma ht_map_add:
  assumes "mset (ht_entries t') = add_mset e (mset (ht_entries t))" "distinct (map he_key (ht_entries t'))"
  shows "ht_map t' = (ht_map t)(he_key e \<mapsto> he_value e)" "ht_map t = (ht_map t')(he_key e := None)"
proof -
  let ?f = "\<lambda>e. (he_key e, he_value e)"
  have set: "set (ht_entries t') = set (e # ht_entries t)" using mset_add_set [OF assms(1)] by simp
  have key: "he_key e \<notin> he_key ` set (ht_entries t)" "distinct (map he_key (ht_entries t))"
    using mset_add_keys [OF assms(1)] assms(2) by blast+
  have "map_of (map ?f (ht_entries t')) = map_of (map ?f (e # ht_entries t))"
    using set key assms(2) by (intro map_of_inject_set [THEN iffD2]) (auto simp: comp_def)
  then show add: "ht_map t' = (ht_map t)(he_key e \<mapsto> he_value e)" by (simp add: ht_map_def)
  have "ht_map t (he_key e) = None" using key(1) by (simp add: ht_map_None)
  then show "ht_map t = (ht_map t')(he_key e := None)" unfolding add by (simp add: fun_upd_idem)
qed

text \<open>The status does not matter to the entries.\<close>

lemma ht_status_same [simp]:
  "ht_ok (t\<lparr>ht_status := s\<rparr>) = ht_ok t" "ht_map (t\<lparr>ht_status := s\<rparr>) = ht_map t"
  "ht_norm (t\<lparr>ht_status := s\<rparr>) = ht_norm t" "ht_entries (t\<lparr>ht_status := s\<rparr>) = ht_entries t"
  "ht_home (t\<lparr>ht_status := s\<rparr>) = ht_home t"
  by (simp_all add: ht_ok_def ht_map_def ht_norm_def ht_entries_def ht_placed_def ht_home_def key_dangles_def
      fun_eq_iff)

text \<open>The table that \<open>acl_htable_enter\<close> searches, after the status is set and the table has grown.\<close>

definition enter_room :: "'v htable \<Rightarrow> 'v htable" where
  "enter_room t = (let t = t\<lparr>ht_status := STAT_OK\<rparr> in if ht_used t \<ge> ht_size t then htable_grow t else t)"

lemma enter_room:
  assumes "ht_ok t"
  shows "ht_ok (enter_room t)" "ht_map (enter_room t) = ht_map t" "ht_norm (enter_room t) = ht_norm t"
    "ht_hash_fn (enter_room t) = ht_hash_fn t" "ht_flag (enter_room t) = ht_flag t"
    "ht_status (enter_room t) = STAT_OK"
    "mset (ht_entries (enter_room t)) = mset (ht_entries t)" "ht_used (enter_room t) < ht_size (enter_room t)"
proof -
  let ?t = "t\<lparr>ht_status := STAT_OK\<rparr>"
  have ok: "ht_ok ?t" using assms by simp
  note g = htable_grow_facts [OF ok]
  show "ht_ok (enter_room t)" "ht_map (enter_room t) = ht_map t"
    "ht_hash_fn (enter_room t) = ht_hash_fn t" "ht_flag (enter_room t) = ht_flag t"
    "mset (ht_entries (enter_room t)) = mset (ht_entries t)" "ht_status (enter_room t) = STAT_OK"
    using assms g by (simp_all add: enter_room_def Let_def)
  then show "ht_norm (enter_room t) = ht_norm t" by (intro ht_norm_same)
  have "0 < ht_size t" "ht_used t \<le> ht_size t" using assms by (simp_all add: ht_ok_def ht_placed_def)
  then show "ht_used (enter_room t) < ht_size (enter_room t)"
    using g(5,8) by (auto simp: enter_room_def Let_def)
qed

lemma htable_link_fresh:
  assumes ok: "ht_ok t" and key: "ht_map t (he_key e) = None" and norm: "ht_norm t (he_key e) = he_key e"
    and hash: "he_hash e = ht_hash_fn t (he_key e)" and n: "n = ht_home t (he_key e)"
    and room: "ht_used t < ht_size t"
  shows "ht_ok (htable_link t e n)" "ht_map (htable_link t e n) = (ht_map t)(he_key e \<mapsto> he_value e)"
    "ht_norm (htable_link t e n) = ht_norm t"
proof -
  note link = htable_link_placed [OF ht_ok_placed [OF ok] n]
  have set: "set (ht_entries (htable_link t e n)) = insert e (set (ht_entries t))"
    using mset_add_set [OF link(2)] by blast
  have dist: "distinct (map he_key (ht_entries (htable_link t e n)))"
    using mset_add_keys [OF link(2)] ht_ok_distinct [OF ok] key [unfolded ht_map_None] by blast
  show norm': "ht_norm (htable_link t e n) = ht_norm t" by (intro ht_norm_same) simp
  have "ht_used (htable_link t e n) \<le> ht_size (htable_link t e n)"
    using room by (simp add: htable_link_def)
  then show "ht_ok (htable_link t e n)"
  proof (intro ht_okI link(1) dist)
    show "\<not> key_dangles (htable_link t e n)"
      using ht_ok_dangles [OF ok] by (simp add: key_dangles_def)
    fix e'
    assume "e' \<in> set (ht_entries (htable_link t e n))"
    then show "he_hash e' = ht_hash_fn (htable_link t e n) (he_key e') \<and>
        ht_norm (htable_link t e n) (he_key e') = he_key e'"
      using ht_ok_entry [OF ok] hash norm unfolding norm' htable_link_same set by auto
  qed
  show "ht_map (htable_link t e n) = (ht_map t)(he_key e \<mapsto> he_value e)"
    using ht_map_add(1) [OF link(2) dist] .
qed

text \<open>Entering: the first value of a key stays.\<close>

lemma acl_htable_enter_unfold:
  "acl_htable_enter t k v =
     (let t' = enter_room t; key = ht_norm t k; n = ht_home t' key
      in case chain_pos key (ht_data t' ! n) of
           Some i \<Rightarrow> Some (ht_data t' ! n ! i, t'\<lparr>ht_status := STAT_DUPLEX_KEY\<rparr>)
         | None \<Rightarrow>
             let ht = \<lparr>he_hash = ht_hash_fn t key, he_key = key, he_value = v\<rparr>
             in Some (ht, htable_link t' ht n))"
  if "ht_ok t"
  using enter_room(4) [OF that] ht_ok_dangles [OF enter_room(1) [OF that]]
  by (simp add: acl_htable_enter_def enter_room_def Let_def ht_home_def cong: option.case_cong)

definition entered :: "'v htable \<Rightarrow> cstr \<Rightarrow> 'v option \<Rightarrow> 'v ht_entry \<times> 'v htable \<Rightarrow> bool" where
  "entered t key v res \<longleftrightarrow>
     (case res of (e, t') \<Rightarrow>
        ht_ok t' \<and> ht_norm t' = ht_norm t \<and> he_key e = key \<and> e \<in> set (ht_entries t') \<and>
        (case ht_map t key of
           None \<Rightarrow> ht_map t' = (ht_map t)(key \<mapsto> v) \<and> he_value e = v \<and> ht_status t' = STAT_OK
         | Some old \<Rightarrow> ht_map t' = ht_map t \<and> he_value e = old \<and> ht_status t' = STAT_DUPLEX_KEY))"

lemma ht_nth_entry:
  "ht_ok t \<Longrightarrow> n < ht_size t \<Longrightarrow> i < length (ht_data t ! n) \<Longrightarrow> ht_data t ! n ! i \<in> set (ht_entries t)"
  unfolding ht_entries_def ht_ok_def ht_placed_def by (auto intro!: bexI [of _ "ht_data t ! n"])

lemma acl_htable_enter:
  assumes ok: "ht_ok t"
  shows "\<exists>res. acl_htable_enter t k v = Some res \<and> entered t (ht_norm t k) v res"
proof -
  let ?t = "enter_room t" and ?key = "ht_norm t k"
  note room = enter_room [OF ok]
  have home: "ht_home ?t ?key < ht_size ?t" using ht_home_less [OF ht_ok_placed [OF room(1)]] room(1)
    by (simp add: ht_ok_def ht_placed_def)
  show ?thesis
  proof (cases "chain_pos ?key (ht_data ?t ! ht_home ?t ?key)")
    case None
    with chain_pos_map [OF room(1), of ?key] have fresh: "ht_map t ?key = None" by (simp add: room(2))
    let ?e = "\<lparr>he_hash = ht_hash_fn t ?key, he_key = ?key, he_value = v\<rparr>"
    have link: "ht_ok (htable_link ?t ?e (ht_home ?t ?key))"
      "ht_map (htable_link ?t ?e (ht_home ?t ?key)) = (ht_map t)(?key \<mapsto> v)"
      "ht_norm (htable_link ?t ?e (ht_home ?t ?key)) = ht_norm t"
      using htable_link_fresh [OF room(1), of ?e "ht_home ?t ?key"] room fresh by simp_all
    have "mset (ht_entries (htable_link ?t ?e (ht_home ?t ?key))) = mset (?e # ht_entries ?t)"
      using htable_link_placed(2) [OF ht_ok_placed [OF room(1)], of "ht_home ?t ?key" ?e] by simp
    from mset_eq_setD [OF this]
    have "?e \<in> set (ht_entries (htable_link ?t ?e (ht_home ?t ?key)))" by simp
    with link None fresh room(6) show ?thesis
      by (simp add: acl_htable_enter_unfold [OF ok] entered_def Let_def)
  next
    case (Some i)
    with chain_pos_map [OF room(1), of ?key] room(2)
    have i: "i < length (ht_data ?t ! ht_home ?t ?key)" "he_key (ht_data ?t ! ht_home ?t ?key ! i) = ?key"
      "ht_map t ?key = Some (he_value (ht_data ?t ! ht_home ?t ?key ! i))"
      by simp_all
    with Some room ht_nth_entry [OF room(1) home i(1)] show ?thesis
      by (simp add: acl_htable_enter_unfold [OF ok] entered_def Let_def)
  qed
qed

lemma acl_htable_enter_r:
  "acl_htable_enter_r t k v = map_option (\<lambda>(e, t'). (0, e, t')) (acl_htable_enter t k v)"
  by (simp add: acl_htable_enter_r_def acl_htable_enter_def Let_def split: option.split)

text \<open>Finding, and moving to the front.\<close>

lemma ht_update_bucket:
  assumes ok: "ht_ok t" and n: "n < ht_size t" and m: "mset c = mset (ht_data t ! n)"
  shows "ht_ok (t\<lparr>ht_data := (ht_data t)[n := c]\<rparr>)" "ht_map (t\<lparr>ht_data := (ht_data t)[n := c]\<rparr>) = ht_map t"
proof -
  let ?t = "t\<lparr>ht_data := (ht_data t)[n := c]\<rparr>"
  have placed: "ht_placed t" using ok by (simp add: ht_ok_def)
  then have n': "n < length (ht_data t)" using n by (simp add: ht_placed_def)
  from mset_concat_update [OF this, of c] m
  have me: "mset (ht_entries ?t) = mset (ht_entries t)" by (simp add: ht_entries_def)
  have "set c = set (ht_data t ! n)" using m by (rule mset_eq_setD)
  then have "ht_placed ?t"
    using placed n' mset_eq_length [OF me] by (auto simp: ht_placed_def nth_list_update ht_home_def)
  then show "ht_ok ?t" "ht_map ?t = ht_map t"
    using ht_ok_mset [OF ok, of ?t] me ok by (simp_all add: ht_ok_def)
qed

lemma ms_look:
  assumes "ht_ok t" "n < ht_size t" "i < length (ht_data t ! n)"
  shows "ht_ok (ms_look t n i)" "ht_map (ms_look t n i) = ht_map t" "ht_norm (ms_look t n i) = ht_norm t"
    "ht_used (ms_look t n i) = ht_used t"
proof -
  have "mset (ht_data t ! n ! i # take i (ht_data t ! n) @ drop (Suc i) (ht_data t ! n)) = mset (ht_data t ! n)"
    using chain_split [OF assms(3)] by simp
  note up = ht_update_bucket [OF assms(1,2) this]
  show "ht_ok (ms_look t n i)" "ht_map (ms_look t n i) = ht_map t"
    using up assms(1) by (simp_all add: ms_look_def Let_def)
  show "ht_norm (ms_look t n i) = ht_norm t" by (simp add: ms_look_def Let_def ht_norm_def fun_eq_iff)
  show "ht_used (ms_look t n i) = ht_used t" by (simp add: ms_look_def Let_def)
qed

lemma acl_htable_locate:
  assumes ok: "ht_ok t"
  shows "ht_ok (snd (acl_htable_locate t k))" "ht_map (snd (acl_htable_locate t k)) = ht_map t"
    "ht_norm (snd (acl_htable_locate t k)) = ht_norm t"
    "map_option he_value (fst (acl_htable_locate t k)) = ht_map t (ht_norm t k)"
proof -
  let ?n = "ht_home t (ht_norm t k)"
  have n: "?n < ht_size t" using ok by (simp add: ht_ok_def ht_placed_def ht_home_def)
  have locate: "acl_htable_locate t k = (case chain_pos (ht_norm t k) (ht_data t ! ?n) of
      None \<Rightarrow> (None, t) | Some i \<Rightarrow> (Some (ht_data t ! ?n ! i), ms_look t ?n i))"
    unfolding acl_htable_locate_def Let_def ht_home_def by (rule refl)
  note pos = chain_pos_map [OF ok, of "ht_norm t k"]
  show "ht_ok (snd (acl_htable_locate t k))" "ht_map (snd (acl_htable_locate t k)) = ht_map t"
    "ht_norm (snd (acl_htable_locate t k)) = ht_norm t"
    "map_option he_value (fst (acl_htable_locate t k)) = ht_map t (ht_norm t k)"
    using pos ms_look [OF ok n] ok unfolding locate by (auto split: option.splits)
qed

lemma acl_htable_find_r:
  "acl_htable_find_r t k =
     (case acl_htable_locate t k of
        (None, t') \<Rightarrow> (-1, None, t') | (Some e, t') \<Rightarrow> (0, Some (he_value e), t'))"
  by (simp add: acl_htable_find_r_def acl_htable_locate_def Let_def split: option.split)

text \<open>Deleting.\<close>

lemma acl_htable_delete_unfold:
  "acl_htable_delete t k fr =
     (let key = ht_norm t k; n = ht_home t key in
      case chain_pos key (ht_data t ! n) of
        None \<Rightarrow> (-1, [], t)
      | Some i \<Rightarrow> (0, acl_htable_delete_entry t (n, i) fr))"
  unfolding acl_htable_delete_def ht_home_def Let_def by (rule refl)

lemma acl_htable_delete_entry:
  assumes ok: "ht_ok t" and n: "n < ht_size t" and i: "i < length (ht_data t ! n)"
  shows "ht_ok (snd (acl_htable_delete_entry t (n, i) fr))"
    "ht_map (snd (acl_htable_delete_entry t (n, i) fr)) = (ht_map t)(he_key (ht_data t ! n ! i) := None)"
    "ht_norm (snd (acl_htable_delete_entry t (n, i) fr)) = ht_norm t"
    "fst (acl_htable_delete_entry t (n, i) fr) = free_value fr (he_value (ht_data t ! n ! i))"
proof -
  let ?e = "ht_data t ! n ! i" and ?c = "take i (ht_data t ! n) @ drop (Suc i) (ht_data t ! n)"
  let ?t = "t\<lparr>ht_data := (ht_data t)[n := ?c], ht_used := ht_used t - 1\<rparr>"
  have placed: "ht_placed t" using ok by (simp add: ht_ok_def)
  then have n': "n < length (ht_data t)" using n by (simp add: ht_placed_def)
  have e: "?e \<in> set (ht_entries t)" by (rule ht_nth_entry [OF ok n i])
  have "?e \<in> set (ht_data t ! n)" using i by simp
  then have "ht_home t (he_key ?e) = n" using placed n by (auto simp: ht_placed_def)
  moreover have "he_hash ?e = ht_hash_fn t (he_key ?e)" using ok e by (simp add: ht_ok_def)
  ultimately have h: "unat (he_hash ?e) mod ht_size t = n" by (simp add: ht_home_def)
  have del: "acl_htable_delete_entry t (n, i) fr = (free_value fr (he_value ?e), ?t)"
    using h by (cases i) (simp_all add: acl_htable_delete_entry_def Let_def)
  show "fst (acl_htable_delete_entry t (n, i) fr) = free_value fr (he_value ?e)"
    "ht_norm (snd (acl_htable_delete_entry t (n, i) fr)) = ht_norm t"
    by (simp_all add: del ht_norm_def fun_eq_iff)
  have "mset (ht_entries ?t) + mset (ht_data t ! n) = mset (ht_entries t) + mset ?c"
    using mset_concat_update [OF n', of ?c] by (simp add: ht_entries_def)
  then have me: "mset (ht_entries t) = add_mset ?e (mset (ht_entries ?t))"
    unfolding chain_split [OF i] by (rule mset_cancel)
  have set: "set (ht_entries t) = insert ?e (set (ht_entries ?t))"
    and len: "length (ht_entries t) = Suc (length (ht_entries ?t))"
    using mset_add_set [OF me] by blast+
  have dist: "distinct (map he_key (ht_entries ?t))" "he_key ?e \<notin> he_key ` set (ht_entries ?t)"
    using mset_add_keys [OF me] ht_ok_distinct [OF ok] by blast+
  have sub: "set ?c \<subseteq> set (ht_data t ! n)" by (auto dest: in_set_takeD in_set_dropD)
  have "ht_placed ?t"
    using placed n' len sub by (auto simp: ht_placed_def nth_list_update ht_home_def split: if_splits)
  then have "ht_ok ?t"
  proof (intro ht_okI dist(1))
    show "\<not> key_dangles ?t" using ht_ok_dangles [OF ok] by (simp add: key_dangles_def)
    have "ht_used t \<le> ht_size t" using ok by (simp add: ht_ok_def)
    then show "ht_used ?t \<le> ht_size ?t" by simp
    fix e'
    assume "e' \<in> set (ht_entries ?t)"
    then have "e' \<in> set (ht_entries t)" using set by simp
    from ht_ok_entry [OF ok this] show "he_hash e' = ht_hash_fn ?t (he_key e') \<and> ht_norm ?t (he_key e') = he_key e'"
      by (simp add: ht_norm_def)
  qed
  then show "ht_ok (snd (acl_htable_delete_entry t (n, i) fr))" by (simp add: del)
  show "ht_map (snd (acl_htable_delete_entry t (n, i) fr)) = (ht_map t)(he_key ?e := None)"
    unfolding del snd_conv using ht_map_add(2) [OF me ht_ok_distinct [OF ok]] .
qed

lemma acl_htable_delete:
  assumes ok: "ht_ok t"
  shows "ht_ok (snd (snd (acl_htable_delete t k fr)))"
    "ht_map (snd (snd (acl_htable_delete t k fr))) = (ht_map t)(ht_norm t k := None)"
    "ht_norm (snd (snd (acl_htable_delete t k fr))) = ht_norm t"
    "fst (acl_htable_delete t k fr) = (if ht_map t (ht_norm t k) = None then -1 else 0)"
    "fst (snd (acl_htable_delete t k fr)) =
      (case ht_map t (ht_norm t k) of None \<Rightarrow> [] | Some v \<Rightarrow> free_value fr v)"
proof -
  let ?n = "ht_home t (ht_norm t k)"
  have n: "?n < ht_size t" using ok by (simp add: ht_ok_def ht_placed_def ht_home_def)
  note pos = chain_pos_map [OF ok, of "ht_norm t k"]
  show "ht_ok (snd (snd (acl_htable_delete t k fr)))"
    "ht_map (snd (snd (acl_htable_delete t k fr))) = (ht_map t)(ht_norm t k := None)"
    "ht_norm (snd (snd (acl_htable_delete t k fr))) = ht_norm t"
    "fst (acl_htable_delete t k fr) = (if ht_map t (ht_norm t k) = None then -1 else 0)"
    "fst (snd (acl_htable_delete t k fr)) =
      (case ht_map t (ht_norm t k) of None \<Rightarrow> [] | Some v \<Rightarrow> free_value fr v)"
    using pos acl_htable_delete_entry [OF ok n] ok
    by (auto simp: acl_htable_delete_unfold Let_def split: option.splits)
qed

section \<open>Interfaces\<close>

lemma acl_htable_create:
  "flag AND FLAG_KEY_LOWER = 0 \<or> flag AND FLAG_KEY_REUSE = 0 \<Longrightarrow> ht_ok (acl_htable_create n flag :: 'v htable)"
  "ht_entries (acl_htable_create n flag :: 'v htable) = []"
  "ht_flag (acl_htable_create n flag :: 'v htable) = flag" "13 \<le> ht_size (acl_htable_create n flag :: 'v htable)"
proof -
  define t0 where "t0 = (\<lparr>ht_size = 0, ht_init_size = n, ht_used = 0, ht_data = [], ht_flag = flag,
    ht_status = 0, ht_hash_fn = def_hash_fn, ht_rwlock = False\<rparr> :: 'v htable)"
  define t1 where "t1 = htable_size t0 (nat (if n < 13 then 13 else n))"
  note size = htable_size_facts [where t = t0 and n = "nat (if n < 13 then 13 else n)", folded t1_def]
  have create: "(acl_htable_create n flag :: 'v htable) = t1\<lparr>ht_rwlock := flag AND FLAG_USE_LOCK \<noteq> 0\<rparr>"
    unfolding acl_htable_create_def Let_def t1_def t0_def by (rule refl)
  show entries: "ht_entries (acl_htable_create n flag :: 'v htable) = []"
    "ht_flag (acl_htable_create n flag :: 'v htable) = flag"
    "13 \<le> ht_size (acl_htable_create n flag :: 'v htable)"
    using size(2,4,5) by (simp_all add: create ht_entries_def t0_def split: if_splits)
  have "ht_placed (acl_htable_create n flag :: 'v htable)"
    using size(1) by (simp add: create ht_placed_def ht_entries_def ht_home_def)
  moreover have "ht_used (acl_htable_create n flag :: 'v htable) = 0"
    using size(1,2) by (simp add: create ht_placed_def)
  ultimately show "ht_ok (acl_htable_create n flag :: 'v htable)"
    if "flag AND FLAG_KEY_LOWER = 0 \<or> flag AND FLAG_KEY_REUSE = 0"
    using entries(1,2) that by (intro ht_okI) (auto simp: key_dangles_def)
qed

lemma acl_htable_create0: "ht_ok (acl_htable_create n 0 :: 'v htable)"
  by (rule acl_htable_create(1)) simp

text \<open>As a keyed store of values that are not NULL.\<close>

definition ht_full :: "'v htable \<Rightarrow> bool" where
  "ht_full t \<longleftrightarrow> ht_ok t \<and> None \<notin> ran (ht_map t)"

definition ht_abs :: "'v htable \<Rightarrow> cstr \<rightharpoonup> 'v" where
  "ht_abs t k = Option.bind (ht_map t k) id"

definition ht_enter :: "'v htable \<Rightarrow> cstr \<Rightarrow> 'v \<Rightarrow> 'v htable" where
  "ht_enter t k v = snd (the (acl_htable_enter t k (Some v)))"

definition ht_delete :: "'v htable \<Rightarrow> cstr \<Rightarrow> bool \<times> 'v htable" where
  "ht_delete t k = (case acl_htable_delete t k False of (ret, _, t') \<Rightarrow> (ret = 0, t'))"

lemma ht_full_cases:
  assumes "ht_full t"
  obtains (none) "ht_map t k = None" | (some) w where "ht_map t k = Some (Some w)"
  using assms by (cases "ht_map t k"; cases "the (ht_map t k)") (auto simp: ht_full_def ran_def)

lemma acl_htable_find:
  assumes "ht_ok t"
  shows "ht_ok (snd (acl_htable_find t k))" "ht_map (snd (acl_htable_find t k)) = ht_map t"
    "ht_norm (snd (acl_htable_find t k)) = ht_norm t"
    "fst (acl_htable_find t k) = ht_abs t (ht_norm t k)"
  using acl_htable_locate(1-3) [OF assms, of k] acl_htable_locate(4) [OF assms, of k, symmetric]
  by (simp_all add: acl_htable_find_def ht_abs_def split_beta split: option.split)

lemma ht_abs_eq: "ht_map t' = ht_map t \<Longrightarrow> ht_abs t' = ht_abs t"
  by (simp add: ht_abs_def fun_eq_iff)

lemma acl_htable_enter_map:
  assumes "ht_ok t"
  shows "ht_ok (snd (the (acl_htable_enter t k v)))" "ht_norm (snd (the (acl_htable_enter t k v))) = ht_norm t"
    "ht_map (snd (the (acl_htable_enter t k v))) =
      (case ht_map t (ht_norm t k) of None \<Rightarrow> (ht_map t)(ht_norm t k \<mapsto> v) | Some _ \<Rightarrow> ht_map t)"
  using acl_htable_enter [OF assms, of k v]
  by (auto simp: entered_def split_beta split: option.splits)

lemma ran_upd_some: "None \<notin> ran m \<Longrightarrow> None \<notin> ran (m(x \<mapsto> Some y))"
  by (auto simp: ran_def split: if_splits)

lemma ran_upd_none: "None \<notin> ran m \<Longrightarrow> None \<notin> ran (m(x := None))"
  by (auto simp: ran_def split: if_splits)

interpretation htable_store: kv_store ht_enter acl_htable_find ht_delete ht_norm ht_abs ht_full
proof unfold_locales
  fix t :: "'v htable" and k v
  assume full: "ht_full t"
  then have ok: "ht_ok t" and ran: "None \<notin> ran (ht_map t)" by (auto simp: ht_full_def)
  note en = acl_htable_enter_map [OF ok, of k "Some v"]
  note de = acl_htable_delete [OF ok, of k False]
  note fi = acl_htable_find [OF ok, of k]
  note up = ran_upd_some [OF ran] ran_upd_none [OF ran]
  show "ht_full (ht_enter t k v) \<and> ht_norm (ht_enter t k v) = ht_norm t"
    using en up ran by (simp add: ht_full_def ht_enter_def split: option.split)
  show "ht_abs (ht_enter t k v) = map_enter (ht_abs t) (ht_norm t k) v"
  proof (rule ext)
    fix x
    show "ht_abs (ht_enter t k v) x = map_enter (ht_abs t) (ht_norm t k) v x"
      by (rule ht_full_cases [OF full, of "ht_norm t k"])
         (simp_all add: en(3) ht_enter_def map_enter_def ht_abs_def)
  qed
  show "ht_full (snd (acl_htable_find t k)) \<and> ht_norm (snd (acl_htable_find t k)) = ht_norm t"
    using fi ran by (simp add: ht_full_def)
  show "map_prod id ht_abs (acl_htable_find t k) = map_find (ht_abs t) (ht_norm t k)"
    using fi by (simp add: map_prod_def split_beta map_find_def ht_abs_eq [OF fi(2)])
  show "ht_full (snd (ht_delete t k)) \<and> ht_norm (snd (ht_delete t k)) = ht_norm t"
    using de up by (simp add: ht_full_def ht_delete_def split_beta)
  show "map_prod id ht_abs (ht_delete t k) = map_delete (ht_abs t) (ht_norm t k)"
  proof -
    have "ht_abs (snd (ht_delete t k)) x = ((ht_abs t)(ht_norm t k := None)) x" for x
      using de(2) by (simp add: ht_delete_def split_beta ht_abs_def)
    moreover have "fst (ht_delete t k) = (ht_abs t (ht_norm t k) \<noteq> None)"
      by (rule ht_full_cases [OF full, of "ht_norm t k"])
         (simp_all add: de(4) ht_delete_def split_beta ht_abs_def)
    ultimately show ?thesis by (simp add: map_prod_def split_beta map_delete_def fun_eq_iff)
  qed
qed

subsection \<open>Iteration\<close>

text \<open>The pointers an iterator goes through: every entry, with the chain from it on.\<close>

fun chain_tails :: "'v chain \<Rightarrow> 'v chain list" where
  "chain_tails [] = []"
| "chain_tails (e # c) = (e # c) # chain_tails c"

lemma length_chain_tails [simp]: "length (chain_tails c) = length c"
  by (induction c) auto

lemma chain_tails_nth: "j < length c \<Longrightarrow> chain_tails c ! j = drop j c"
  by (induction c arbitrary: j) (auto simp: nth_Cons' drop_Cons')

lemma chain_tails_hd: "map hd (chain_tails c) = c"
  by (induction c) auto

definition ht_tails :: "'v htable \<Rightarrow> 'v chain list" where
  "ht_tails t = concat (map chain_tails (ht_data t))"

lemma ht_tails_hd: "map hd (ht_tails t) = ht_entries t"
proof -
  have "map hd (concat (map chain_tails xss)) = concat xss" for xss :: "'a chain list"
    by (induction xss) (simp_all add: chain_tails_hd)
  then show ?thesis by (simp add: ht_tails_def ht_entries_def)
qed

lemma length_ht_tails [simp]: "length (ht_tails t) = length (ht_entries t)"
  by (metis ht_tails_hd length_map)

lemma ht_tails_nth:
  assumes "i < length (ht_data t)" "j < length (ht_data t ! i)"
  shows "ht_tails t ! (length (concat (take i (ht_data t))) + j) = drop j (ht_data t ! i)"
proof -
  have "ht_data t = take i (ht_data t) @ ht_data t ! i # drop (Suc i) (ht_data t)"
    using assms(1) by (rule id_take_nth_drop)
  then have "ht_tails t = concat (map chain_tails (take i (ht_data t))) @
      chain_tails (ht_data t ! i) @ concat (map chain_tails (drop (Suc i) (ht_data t)))"
    unfolding ht_tails_def by (metis concat.simps(2) concat_append list.simps(9) map_append)
  moreover have "length (concat (map chain_tails xss)) = length (concat xss)" for xss :: "'a chain list"
    by (induction xss) auto
  ultimately show ?thesis using assms(2) by (simp add: nth_append chain_tails_nth)
qed

lemma scan_up:
  assumes "i \<le> length data" "sz = int (length data)"
  shows "case scan_up data (int i) sz of
      (i', None) \<Rightarrow> i' = sz \<and> concat (drop i data) = []
    | (i', Some c) \<Rightarrow> \<exists>k. i' = int k \<and> i \<le> k \<and> k < length data \<and> c = data ! k \<and> c \<noteq> [] \<and>
        concat (take k data) = concat (take i data)"
  using assms
proof (induction "length data - i" arbitrary: i)
  case 0
  then show ?case by (subst scan_up.simps) simp
next
  case (Suc d)
  then have i: "i < length data" by simp
  show ?case
  proof (cases "data ! i = []")
    case True
    have "scan_up data (int i) sz = scan_up data (int (Suc i)) sz"
      using i True Suc.prems by (subst scan_up.simps) (simp add: add.commute)
    moreover have "concat (take (Suc i) data) = concat (take i data)"
      using i True by (simp add: take_Suc_conv_app_nth)
    moreover have "drop i data = [] # drop (Suc i) data" using i True by (metis Cons_nth_drop_Suc)
    moreover obtain i' p where "scan_up data (int (Suc i)) sz = (i', p)" by (cases "scan_up data (int (Suc i)) sz")
    moreover have "case scan_up data (int (Suc i)) sz of
        (i', None) \<Rightarrow> i' = sz \<and> concat (drop (Suc i) data) = []
      | (i', Some c) \<Rightarrow> \<exists>k. i' = int k \<and> Suc i \<le> k \<and> k < length data \<and> c = data ! k \<and> c \<noteq> [] \<and>
          concat (take k data) = concat (take (Suc i) data)"
      using Suc.hyps(2) Suc.prems i by (intro Suc.hyps(1)) auto
    ultimately show ?thesis by (cases p) (auto intro: Suc_leD)
  next
    case False
    then show ?thesis using i Suc.prems by (subst scan_up.simps) auto
  qed
qed

definition ht_iter_at :: "'v htable \<Rightarrow> nat \<Rightarrow> 'v ht_iter \<Rightarrow> bool" where
  "ht_iter_at t n it \<longleftrightarrow> it_size it = int (ht_size t) \<and>
     (it_ptr it = None \<and> n = length (ht_entries t) \<or>
      (\<exists>i j. it_i it = int i \<and> i < length (ht_data t) \<and> j < length (ht_data t ! i) \<and>
         n = length (concat (take i (ht_data t))) + j \<and> it_ptr it = Some (drop j (ht_data t ! i))))"

lemma iter_set_at:
  assumes "ht_placed t" "it_size it = int (ht_size t)" "i \<le> length (ht_data t)"
    "n = length (concat (take i (ht_data t)))"
  shows "ht_iter_at t n (iter_set it (scan_up (ht_data t) (int i) (int (ht_size t))))"
proof -
  have sz: "int (ht_size t) = int (length (ht_data t))" using assms(1) by (simp add: ht_placed_def)
  obtain i' p where s: "scan_up (ht_data t) (int i) (int (ht_size t)) = (i', p)"
    by (cases "scan_up (ht_data t) (int i) (int (ht_size t))")
  note scan = scan_up [OF assms(3) sz, unfolded s]
  show ?thesis
  proof (cases p)
    case None
    with scan have "concat (drop i (ht_data t)) = []" by simp
    then have "ht_entries t = concat (take i (ht_data t))"
      unfolding ht_entries_def by (metis append_Nil2 append_take_drop_id concat_append)
    with None s assms(2,4) show ?thesis by (simp add: ht_iter_at_def iter_set_def)
  next
    case (Some c)
    with scan obtain k where k: "i' = int k" "k < length (ht_data t)" "c = ht_data t ! k" "c \<noteq> []"
      "concat (take k (ht_data t)) = concat (take i (ht_data t))"
      by auto
    let ?it = "iter_set it (i', Some c)"
    have "it_i ?it = int k \<and> k < length (ht_data t) \<and> 0 < length (ht_data t ! k) \<and>
        n = length (concat (take k (ht_data t))) + 0 \<and> it_ptr ?it = Some (drop 0 (ht_data t ! k))"
      using k assms(4) by (simp add: iter_set_def)
    then have "\<exists>a j. it_i ?it = int a \<and> a < length (ht_data t) \<and> j < length (ht_data t ! a) \<and>
        n = length (concat (take a (ht_data t))) + j \<and> it_ptr ?it = Some (drop j (ht_data t ! a))"
      by blast
    moreover have "it_size ?it = int (ht_size t)" using assms(2) by (simp add: iter_set_def)
    ultimately show ?thesis using Some s unfolding ht_iter_at_def by simp
  qed
qed

interpretation htable_iter: iteration htable_iter_head htable_iter_next ht_tails ht_placed ht_iter_at
proof unfold_locales
  fix t :: "'v htable" and it :: "'v ht_iter" and n
  assume placed: "ht_placed t"
  show "ht_iter_at t 0 (htable_iter_head it t)"
    using iter_set_at [OF placed, of _ 0 0] by (simp add: htable_iter_head_def)
  show "it_ptr it = (if n < length (ht_tails t) then Some (ht_tails t ! n) else None)"
    if at: "ht_iter_at t n it" and n: "n \<le> length (ht_tails t)"
  proof -
    from at consider "it_ptr it = None" "n = length (ht_entries t)"
      | i j where "i < length (ht_data t)" "j < length (ht_data t ! i)"
          "n = length (concat (take i (ht_data t))) + j" "it_ptr it = Some (drop j (ht_data t ! i))"
      by (auto simp: ht_iter_at_def)
    then show ?thesis
    proof cases
      case 2
      have "length (concat (take i (ht_data t)) @ (ht_data t ! i)) \<le> length (ht_entries t)"
        unfolding ht_entries_def
        using arg_cong [OF id_take_nth_drop [OF 2(1)], of "\<lambda>x. length (concat x)"] by simp
      with 2 ht_tails_nth [OF 2(1,2)] show ?thesis by simp
    qed simp
  qed
  show "ht_iter_at t (Suc n) (htable_iter_next it t)"
    if at: "ht_iter_at t n it" and n: "n < length (ht_tails t)"
  proof -
    from at n obtain i j where ij: "it_i it = int i" "i < length (ht_data t)" "j < length (ht_data t ! i)"
      "n = length (concat (take i (ht_data t))) + j" "it_ptr it = Some (drop j (ht_data t ! i))"
      and sz: "it_size it = int (ht_size t)"
      by (auto simp: ht_iter_at_def)
    show ?thesis
    proof (cases "Suc j < length (ht_data t ! i)")
      case True
      then have "drop j (ht_data t ! i) = ht_data t ! i ! j # ht_data t ! i ! Suc j # drop (Suc (Suc j)) (ht_data t ! i)"
        "drop (Suc j) (ht_data t ! i) = ht_data t ! i ! Suc j # drop (Suc (Suc j)) (ht_data t ! i)"
        by (simp_all add: Cons_nth_drop_Suc)
      with True ij sz show ?thesis
        by (auto simp: htable_iter_next_def iter_set_def ht_iter_at_def intro!: exI [of _ i] exI [of _ "Suc j"])
    next
      case False
      with ij(3) have j: "Suc j = length (ht_data t ! i)" by simp
      then have "drop j (ht_data t ! i) = [ht_data t ! i ! j]" by (simp add: Cons_nth_drop_Suc [symmetric])
      then have "htable_iter_next it t = iter_set it (scan_up (ht_data t) (int (Suc i)) (int (ht_size t)))"
        using ij sz by (simp add: htable_iter_next_def add.commute)
      moreover have "Suc n = length (concat (take (Suc i) (ht_data t)))"
        using ij j by (simp add: take_Suc_conv_app_nth)
      ultimately show ?thesis using iter_set_at [OF placed sz, of "Suc i" "Suc n"] ij(2) by simp
    qed
  qed
qed

section \<open>The width of the hash accumulator\<close>

lemma ucast_hash_add: "ucast (push_bit 4 h + ucast c :: u64) = (push_bit 4 (ucast h) + ucast c :: u32)" for c :: byte
proof -
  have "push_bit 4 h + ucast c = 16 * h + ucast c" "push_bit 4 (ucast h :: u32) = 16 * ucast h"
    by (simp_all add: push_bit_eq_mult mult.commute)
  then show ?thesis
    by (simp add: unsigned_ucast_eq word_unat_eq_iff take_bit_eq_mod unat_word_ariths mod_mod_cancel
        mod_simps take_bit_nat_def)
qed

lemma ucast_and: "h AND ucast w = ucast (ucast h AND w :: u32)" for h :: u64
  by (auto simp: bit_eq_iff bit_and_iff bit_ucast_iff dest: bit_imp_le_length)

lemma ucast_hash_mask: "h AND 0xf0000000 = ucast (ucast h AND 0xf0000000 :: u32)" for h :: u64
  using ucast_and [of h "0xf0000000"] by simp

lemma hash_loop_widths: "ucast (hash_loop64 h s) = hash_loop32 (ucast h) s"
proof (induction s arbitrary: h)
  case (Cons c s)
  define h1 :: u64 where "h1 = push_bit 4 h + ucast c"
  define g :: u32 where "g = ucast h1 AND 0xf0000000"
  have h32: "push_bit 4 (ucast h) + ucast c = (ucast h1 :: u32)"
    unfolding h1_def by (rule ucast_hash_add [symmetric])
  have g64: "h1 AND 0xf0000000 = ucast g" unfolding g_def by (rule ucast_hash_mask)
  have zero: "(ucast g :: u64) = 0 \<longleftrightarrow> g = 0"
    by (simp add: word_unat_eq_iff unsigned_ucast_eq take_bit_nat_eq_self unsigned_less [THEN order.strict_trans])
  have x: "ucast ((h1 XOR drop_bit 24 (ucast g)) XOR ucast g :: u64) = (ucast h1 XOR drop_bit 24 g) XOR g"
    by (auto simp: bit_eq_iff bit_xor_iff bit_ucast_iff bit_drop_bit_eq dest: bit_imp_le_length)
  show ?case
    using Cons.IH [of "(h1 XOR drop_bit 24 (ucast g)) XOR ucast g"] Cons.IH [of h1] x
    by (simp add: Let_def h1_def [symmetric] h32 g64 g_def [symmetric] zero)
qed simp

section \<open>Properties\<close>

text \<open>The state after some operations, in which the next ones are done.\<close>

lemma kv_run_ht_ok:
  "ht_full t \<Longrightarrow> ht_ok (snd (kv_run ht_enter acl_htable_find ht_delete t ops))"
  using htable_store.run_refines [of t ops]
  by (cases "kv_run ht_enter acl_htable_find ht_delete t ops") (auto simp: ht_full_def)

text \<open>C34: the hash table is a map. On a table made with any initial size and any flags but
  \<open>KEY_LOWER\<close> and \<open>KEY_REUSE\<close> together, every run of enters, finds and deletes returns exactly
  what the same run returns on a map that is empty at first, where a key that is there already
  keeps its value and, with the lower-case flag, all keys are taken in lower case; growing the
  table and moving entries to the front of their chains make no difference. After every run the
  next enter leaves no entry with a freed key.\<close>

theorem htable_runs_as_map:
  assumes "flag AND FLAG_KEY_LOWER = 0 \<or> flag AND FLAG_KEY_REUSE = 0"
  shows "fst (kv_run ht_enter acl_htable_find ht_delete (acl_htable_create n flag) ops) =
     fst (map_run Map.empty
       (map (kv_norm (if flag AND FLAG_KEY_LOWER \<noteq> 0 then acl_lowercase else id)) ops)) \<and>
   acl_htable_enter (snd (kv_run ht_enter acl_htable_find ht_delete (acl_htable_create n flag) ops)) k (Some v) \<noteq> None"
proof -
  let ?t = "acl_htable_create n flag :: 'a htable"
  have map: "ht_map ?t = Map.empty" by (simp add: ht_map_def acl_htable_create)
  then have full: "ht_full ?t" by (simp add: ht_full_def acl_htable_create(1) [OF assms])
  have abs: "ht_abs ?t = Map.empty" by (simp add: ht_abs_def fun_eq_iff map)
  have "ht_norm ?t = (if flag AND FLAG_KEY_LOWER \<noteq> 0 then acl_lowercase else id)"
    by (simp add: ht_norm_def fun_eq_iff acl_htable_create)
  with htable_store.run_results [OF full, of ops] abs acl_htable_enter [OF kv_run_ht_ok [OF full]]
  show ?thesis by fastforce
qed

text \<open>A table of lower-case keys, with \<open>A\<close> (65) and \<open>a\<close> (97) for one key.\<close>

theorem htable_runs_as_map_witness:
  "fst (kv_run ht_enter acl_htable_find ht_delete (acl_htable_create 13 FLAG_KEY_LOWER)
     [Enter [65] (7 :: nat), Enter [97] 8, Find [97], Delete [65], Find [97]]) =
   [Entered, Entered, Found (Some 7), Deleted True, Found None]"
proof -
  let ?ops = "[Enter [65] (7 :: nat), Enter [97] 8, Find [97], Delete [65], Find [97]]"
  have "FLAG_KEY_LOWER AND FLAG_KEY_LOWER = 0 \<or> FLAG_KEY_LOWER AND FLAG_KEY_REUSE = 0"
    by simp
  from htable_runs_as_map [OF this, of 13 ?ops]
  have "fst (kv_run ht_enter acl_htable_find ht_delete (acl_htable_create 13 FLAG_KEY_LOWER) ?ops) =
     fst (map_run Map.empty (map (kv_norm acl_lowercase) ?ops))"
    by (simp del: kv_run.simps kv_norm.simps list.map)
  then show ?thesis
    by (simp del: kv_run.simps(2-) add: kv_run.simps(2-) [of map_enter map_find map_delete]
        map_enter_def map_find_def map_delete_def tolower_def isupper_def)
qed

text \<open>With both flags the first new key is already one that dangles.\<close>

theorem htable_enter_dangles:
  assumes "flag AND FLAG_KEY_LOWER \<noteq> 0" "flag AND FLAG_KEY_REUSE \<noteq> 0"
  shows "acl_htable_enter (acl_htable_create n flag :: 'v htable) k v = None"
proof -
  let ?t = "acl_htable_create n flag :: 'v htable"
  have dat: "ht_data ?t = replicate (ht_size ?t) []" "ht_used ?t = 0" "ht_flag ?t = flag"
    by (simp_all add: acl_htable_create_def htable_size_def Let_def)
  moreover have "0 < ht_size ?t" using acl_htable_create(4) [of n flag, where 'v = 'v] by simp
  ultimately show ?thesis using assms by (simp add: acl_htable_enter_def Let_def key_dangles_def)
qed

text \<open>\<open>acl_htable_enter\<close> returns an entry with the key; a new key gets the value and status
  OK, a key that is there keeps its value and gives the status of a duplicate; the table stays
  well-formed: every entry in the bucket of its hash, no key twice, at most as many entries
  as buckets.\<close>

theorem htable_enter_status:
  assumes "ht_ok t"
  shows "\<exists>e t'. acl_htable_enter t k v = Some (e, t') \<and>
    ht_ok t' \<and> he_key e = ht_norm t k \<and> e \<in> set (ht_entries t') \<and>
    (case ht_map t (ht_norm t k) of
       None \<Rightarrow> ht_map t' = (ht_map t)(ht_norm t k \<mapsto> v) \<and> he_value e = v \<and> ht_status t' = STAT_OK
     | Some old \<Rightarrow> ht_map t' = ht_map t \<and> he_value e = old \<and> ht_status t' = STAT_DUPLEX_KEY)"
  using acl_htable_enter [OF assms, of k v] by (auto simp: entered_def)

theorem htable_enter_status_witness:
  "ht_status (snd (the (acl_htable_enter (acl_htable_create 13 0 :: nat htable) (lit ''key'') (Some 1)))) = STAT_OK"
proof -
  have "ht_map (acl_htable_create 13 0 :: nat htable) = Map.empty"
    by (simp add: ht_map_def acl_htable_create)
  with htable_enter_status [OF acl_htable_create0 [of 13, where 'v = nat], of "lit ''key''" "Some 1"]
  show ?thesis by auto
qed

text \<open>\<open>htable_grow\<close> at least doubles the buckets and keeps every entry: the table stands
  for the same map and stays well-formed.\<close>

theorem htable_grow_keeps:
  assumes "ht_ok t"
  shows "ht_ok (htable_grow t) \<and> ht_map (htable_grow t) = ht_map t \<and>
    mset (ht_entries (htable_grow t)) = mset (ht_entries t) \<and> 2 * ht_size t \<le> ht_size (htable_grow t)"
  using htable_grow_facts [OF assms] by simp

theorem htable_grow_keeps_witness:
  "26 \<le> ht_size (htable_grow (acl_htable_create 13 0 :: nat htable))"
  using htable_grow_keeps [OF acl_htable_create0 [of 13, where 'v = nat]]
    acl_htable_create(4) [of 13 0, where 'v = nat] by linarith

text \<open>\<open>acl_htable_delete\<close> returns 0 when the key is there, hands its value to
  \<open>free_fn\<close> exactly once and takes exactly this key out of the map; otherwise it returns -1, frees
  nothing and the map stays.\<close>

theorem htable_delete_exact:
  assumes "ht_ok t"
  shows "case acl_htable_delete t k True of (ret, freed, t') \<Rightarrow>
    ht_ok t' \<and> ht_map t' = (ht_map t)(ht_norm t k := None) \<and>
    (case ht_map t (ht_norm t k) of
       None \<Rightarrow> ret = -1 \<and> freed = []
     | Some None \<Rightarrow> ret = 0 \<and> freed = []
     | Some (Some v) \<Rightarrow> ret = 0 \<and> freed = [v])"
  using acl_htable_delete [OF assms, of k True]
  by (cases "ht_map t (ht_norm t k)") (auto simp: split_beta free_value_def split: option.splits)

theorem htable_delete_exact_witness:
  "fst (acl_htable_delete (acl_htable_create 13 0 :: nat htable) (lit ''key'') True) = -1"
proof -
  have "ht_map (acl_htable_create 13 0 :: nat htable) = Map.empty"
    by (simp add: ht_map_def acl_htable_create)
  with htable_delete_exact [OF acl_htable_create0 [of 13, where 'v = nat], of "lit ''key''"]
  show ?thesis by (simp add: split_beta)
qed

text \<open>\<open>ACL_FOREACH\<close> over a table ends and goes through every entry exactly once, in the
  order of \<open>acl_htable_walk\<close>: the keys it sees are distinct and are the keys of the map.\<close>

theorem htable_foreach_all:
  assumes "ht_ok t"
  shows "\<exists>ps. acl_foreach (Suc (ht_used t)) htable_iter_head htable_iter_next t = Some ps \<and>
    map hd ps = acl_htable_walk t \<and> distinct (map (\<lambda>p. he_key (hd p)) ps) \<and>
    (\<lambda>p. he_key (hd p)) ` set ps = dom (ht_map t)"
proof -
  have placed: "ht_placed t" using assms by (rule ht_ok_placed)
  then have used: "length (ht_tails t) < Suc (ht_used t)" by (simp add: ht_placed_def)
  have map: "map (\<lambda>p. he_key (hd p)) (ht_tails t) = map he_key (ht_entries t)"
    by (simp add: ht_tails_hd [symmetric] comp_def)
  have dom: "dom (ht_map t) = he_key ` set (ht_entries t)"
    using ht_map_None [of t] by (auto simp: dom_def)
  have "(\<lambda>p. he_key (hd p)) ` set (ht_tails t) = dom (ht_map t)"
    using arg_cong [OF map, of set] by (simp add: dom)
  with htable_iter.foreach_elems [OF placed used] map ht_ok_distinct [OF assms] show ?thesis
    by (simp add: ht_tails_hd acl_htable_walk_def ht_entries_def)
qed

theorem htable_foreach_all_witness:
  "\<exists>ps. acl_foreach (Suc (ht_used (acl_htable_create 13 0 :: nat htable))) htable_iter_head htable_iter_next
     (acl_htable_create 13 0 :: nat htable) = Some ps"
  using htable_foreach_all [OF acl_htable_create0 [of 13, where 'v = nat]] by blast

text \<open>\<open>__def_hash_fn\<close> gives the same hash on every platform: the accumulator is an
  \<open>unsigned long\<close>, whose bits above the 32nd, where it has them, never reach the result.\<close>

theorem def_hash_fn_portable: "def_hash_fn s = hash_loop32 0 s"
  using hash_loop_widths [of 0 s] by (simp add: def_hash_fn_def)

end
