(* ===== verification/Acl_Heap.thy ===== *)
theory Acl_Heap
  imports Acl_Interfaces "HOL-Library.Monad_Syntax"
begin

text \<open>
  Memory as the linked containers use it: nodes with a payload and the two links
  \<open>prev\<close> and \<open>next\<close>, at addresses. A load or store through an address that holds no
  node is a fault, \<open>None\<close>, and every operation is written in the option monad, so a
  lemma that an operation gives \<open>Some\<close> says that it never dereferences NULL or freed
  memory. A NULL pointer is \<open>None\<close>. The allocator hands out addresses in order and never
  reuses one; the containers never compare or compute addresses, so nothing depends on
  which fresh address they get.

  \<open>dll h p as n\<close>: the nodes at the addresses \<open>as\<close> are linked to one another in this
  order, the first one's \<open>prev\<close> is p and the last one's \<open>next\<close> is n. The lemmas are those
  that the pointer moves of \<^verbatim>\<open>acl_fifo.c\<close> and of the chains of \<^verbatim>\<open>acl_htable.c\<close> need: split,
  frame, link in front, link at the back, unlink from the middle.
\<close>

section \<open>Memory\<close>

type_synonym addr = nat

record 'a node =
  nd_data :: 'a
  nd_prev :: "addr option"
  nd_next :: "addr option"

type_synonym 'a heap = "addr \<rightharpoonup> 'a node"

record 'a mem =
  cells :: "'a heap"
  brk :: addr

definition ld :: "'a mem \<Rightarrow> addr \<Rightarrow> 'a node option" where
  "ld m a = cells m a"

definition set_prev :: "'a mem \<Rightarrow> addr \<Rightarrow> addr option \<Rightarrow> 'a mem option" where
  "set_prev m a v = (case cells m a of
     None \<Rightarrow> None
   | Some nd \<Rightarrow> Some (m\<lparr>cells := (cells m)(a \<mapsto> nd\<lparr>nd_prev := v\<rparr>)\<rparr>))"

definition set_next :: "'a mem \<Rightarrow> addr \<Rightarrow> addr option \<Rightarrow> 'a mem option" where
  "set_next m a v = (case cells m a of
     None \<Rightarrow> None
   | Some nd \<Rightarrow> Some (m\<lparr>cells := (cells m)(a \<mapsto> nd\<lparr>nd_next := v\<rparr>)\<rparr>))"

definition node_alloc :: "'a mem \<Rightarrow> 'a \<Rightarrow> addr \<times> 'a mem" where
  "node_alloc m d = (brk m,
     m\<lparr>cells := (cells m)(brk m \<mapsto> \<lparr>nd_data = d, nd_prev = None, nd_next = None\<rparr>),
       brk := Suc (brk m)\<rparr>)"

definition node_free :: "'a mem \<Rightarrow> addr \<Rightarrow> 'a mem option" where
  "node_free m a = (if cells m a = None then None else Some (m\<lparr>cells := (cells m)(a := None)\<rparr>))"

definition mem_ok :: "'a mem \<Rightarrow> bool" where
  "mem_ok m \<longleftrightarrow> (\<forall>a. cells m a \<noteq> None \<longrightarrow> a < brk m)"

definition mem_empty :: "'a mem" where
  "mem_empty = \<lparr>cells = Map.empty, brk = 1\<rparr>"

named_theorems heap_simps "what a load, store, allocation or free does when the node exists"

lemma ld_Some [heap_simps]: "cells m a = Some nd \<Longrightarrow> ld m a = Some nd"
  by (simp add: ld_def)

lemma set_prev_Some [heap_simps]:
  "cells m a = Some nd \<Longrightarrow>
   set_prev m a v = Some (m\<lparr>cells := (cells m)(a \<mapsto> nd\<lparr>nd_prev := v\<rparr>)\<rparr>)"
  by (simp add: set_prev_def)

lemma set_next_Some [heap_simps]:
  "cells m a = Some nd \<Longrightarrow>
   set_next m a v = Some (m\<lparr>cells := (cells m)(a \<mapsto> nd\<lparr>nd_next := v\<rparr>)\<rparr>)"
  by (simp add: set_next_def)

lemma node_free_Some [heap_simps]:
  "cells m a = Some nd \<Longrightarrow> node_free m a = Some (m\<lparr>cells := (cells m)(a := None)\<rparr>)"
  by (simp add: node_free_def)

lemma mem_ok_fresh: "mem_ok m \<Longrightarrow> cells m (brk m) = None"
  by (auto simp: mem_ok_def)

lemma mem_ok_upd:
  "mem_ok m \<Longrightarrow> a < brk m \<Longrightarrow> mem_ok (m\<lparr>cells := (cells m)(a \<mapsto> nd)\<rparr>)"
  by (auto simp: mem_ok_def)

lemma mem_ok_free: "mem_ok m \<Longrightarrow> mem_ok (m\<lparr>cells := (cells m)(a := None)\<rparr>)"
  by (auto simp: mem_ok_def)

lemma mem_ok_alloc: "mem_ok m \<Longrightarrow> mem_ok (snd (node_alloc m d))"
  by (auto simp: mem_ok_def node_alloc_def less_Suc_eq)

lemma mem_ok_empty [simp]: "mem_ok mem_empty"
  by (simp add: mem_ok_def mem_empty_def)

section \<open>Linked segments\<close>

definition hd_or :: "addr list \<Rightarrow> addr option \<Rightarrow> addr option" where
  "hd_or as n = (case as of [] \<Rightarrow> n | a # _ \<Rightarrow> Some a)"

definition last_or :: "addr list \<Rightarrow> addr option \<Rightarrow> addr option" where
  "last_or as p = (if as = [] then p else Some (last as))"

lemma hd_or_simps [simp]: "hd_or [] n = n" "hd_or (a # as) n = Some a"
  by (simp_all add: hd_or_def)

lemma last_or_simps [simp]: "last_or [] p = p" "last_or (a # as) p = last_or as (Some a)"
  by (simp_all add: last_or_def)

lemma last_or_snoc [simp]: "last_or (as @ [a]) p = Some a"
  by (simp add: last_or_def)

lemma last_or_append: "last_or (as @ bs) p = last_or bs (last_or as p)"
  by (simp add: last_or_def)

lemma hd_or_append: "hd_or (as @ bs) n = hd_or as (hd_or bs n)"
  by (cases as) auto

lemma hd_or_None_iff: "hd_or as None = None \<longleftrightarrow> as = []"
  by (cases as) auto

lemma last_or_None_iff: "last_or as None = None \<longleftrightarrow> as = []"
  by (simp add: last_or_def)

fun dll :: "'a heap \<Rightarrow> addr option \<Rightarrow> addr list \<Rightarrow> addr option \<Rightarrow> bool" where
  "dll h p [] n \<longleftrightarrow> True"
| "dll h p (a # as) n \<longleftrightarrow>
     (\<exists>d. h a = Some \<lparr>nd_data = d, nd_prev = p, nd_next = hd_or as n\<rparr>) \<and> dll h (Some a) as n"

lemma dll_append [simp]:
  "dll h p (as @ bs) n \<longleftrightarrow> dll h p as (hd_or bs n) \<and> dll h (last_or as p) bs n"
  by (induction as arbitrary: p) (auto simp: hd_or_append)

lemma dll_frame: "(\<And>a. a \<in> set as \<Longrightarrow> h' a = h a) \<Longrightarrow> dll h' p as n = dll h p as n"
  by (induction as arbitrary: p) auto

lemma dll_upd [simp]: "a \<notin> set as \<Longrightarrow> dll (h(a := x)) p as n = dll h p as n"
  by (rule dll_frame) auto

lemma dll_mapped: "dll h p as n \<Longrightarrow> a \<in> set as \<Longrightarrow> \<exists>nd. h a = Some nd"
  by (induction as arbitrary: p) auto

lemma dll_same: "dll h p as n \<Longrightarrow> dll h p bs n \<Longrightarrow> n \<notin> Some ` set as \<Longrightarrow> n \<notin> Some ` set bs \<Longrightarrow>
  hd_or as n = hd_or bs n \<Longrightarrow> as = bs"
proof (induction as arbitrary: p bs)
  case Nil
  then show ?case by (cases bs) auto
next
  case (Cons a as)
  then show ?case by (cases bs) auto
qed

text \<open>The payloads along a segment.\<close>

definition data_at :: "'a heap \<Rightarrow> addr \<Rightarrow> 'a" where
  "data_at h a = nd_data (the (h a))"

lemma data_at_upd [simp]: "data_at (h(a \<mapsto> nd)) b = (if a = b then nd_data nd else data_at h b)"
  by (simp add: data_at_def)

text \<open>Walking along \<open>next\<close>, at most as many steps as the fuel.\<close>

fun walk :: "nat \<Rightarrow> 'a heap \<Rightarrow> addr option \<Rightarrow> addr list" where
  "walk (Suc fuel) h (Some a) =
     (case h a of None \<Rightarrow> [] | Some nd \<Rightarrow> a # walk fuel h (nd_next nd))"
| "walk _ _ _ = []"

lemma walk_dll:
  "dll h p as None \<Longrightarrow> length as \<le> fuel \<Longrightarrow> walk fuel h (hd_or as None) = as"
proof (induction as arbitrary: p fuel)
  case Nil
  then show ?case by (cases fuel) auto
next
  case (Cons a as)
  then show ?case by (cases fuel) auto
qed

section \<open>Pointer moves\<close>

text \<open>Linking a node in front of, or behind, a list.\<close>

lemma dll_link_front:
  assumes "dll h None as None" "a \<notin> set as" "distinct as"
    and "h' a = Some \<lparr>nd_data = d, nd_prev = None, nd_next = hd_or as None\<rparr>"
    and "\<And>b. b \<in> set (tl as) \<Longrightarrow> h' b = h b"
    and "as \<noteq> [] \<Longrightarrow> h' (hd as) = map_option (nd_prev_update (\<lambda>_. Some a)) (h (hd as))"
  shows "dll h' None (a # as) None"
proof (cases as)
  case (Cons b bs)
  with assms(1) obtain e where b: "h b = Some \<lparr>nd_data = e, nd_prev = None, nd_next = hd_or bs None\<rparr>"
    and bs: "dll h (Some b) bs None" by auto
  have "dll h' (Some b) bs None = dll h (Some b) bs None"
    by (rule dll_frame) (use assms(5) Cons in auto)
  with assms b bs Cons show ?thesis by simp
qed (use assms in simp)

lemma dll_link_back:
  assumes "dll h None as None" "a \<notin> set as" "distinct as"
    and "h' a = Some \<lparr>nd_data = d, nd_prev = last_or as None, nd_next = None\<rparr>"
    and "\<And>b. b \<in> set (butlast as) \<Longrightarrow> h' b = h b"
    and "as \<noteq> [] \<Longrightarrow> h' (last as) = map_option (nd_next_update (\<lambda>_. Some a)) (h (last as))"
  shows "dll h' None (as @ [a]) None"
proof (cases as rule: rev_cases)
  case (snoc bs b)
  with assms(1) obtain e where b: "h b = Some \<lparr>nd_data = e, nd_prev = last_or bs None, nd_next = None\<rparr>"
    and bs: "dll h None bs (Some b)" by auto
  have "dll h' None bs (Some b) = dll h None bs (Some b)"
    by (rule dll_frame) (use assms(5) snoc in auto)
  with assms b bs snoc show ?thesis by simp
qed (use assms in simp)

text \<open>The four stores that take a node out of a list: its neighbours are linked to each
  other. \<open>head\<close> and \<open>tail\<close> are the variables the code updates when there is no neighbour.\<close>

definition node_unlink ::
  "'a mem \<Rightarrow> addr option \<Rightarrow> addr option \<Rightarrow> addr \<Rightarrow> ('a mem \<times> addr option \<times> addr option) option"
where
  "node_unlink m head tail a = do {
     nd \<leftarrow> ld m a;
     (m, head) \<leftarrow> (case nd_prev nd of
        Some p \<Rightarrow> do { m \<leftarrow> set_next m p (nd_next nd); Some (m, head) }
      | None \<Rightarrow> Some (m, nd_next nd));
     nd \<leftarrow> ld m a;
     (m, tail) \<leftarrow> (case nd_next nd of
        Some n \<Rightarrow> do { m \<leftarrow> set_prev m n (nd_prev nd); Some (m, tail) }
      | None \<Rightarrow> Some (m, nd_prev nd));
     Some (m, head, tail) }"

lemma node_unlink_split:
  assumes m: "dll (cells m) None (bs @ a # cs) None" and d: "distinct (bs @ a # cs)"
  obtains m' where
    "node_unlink m (hd_or (bs @ a # cs) None) (last_or (bs @ a # cs) None) a =
       Some (m', hd_or (bs @ cs) None, last_or (bs @ cs) None)"
    "dll (cells m') None (bs @ cs) None" "cells m' a = cells m a" "brk m' = brk m"
    "\<And>b. b \<notin> set (bs @ cs) \<Longrightarrow> cells m' b = cells m b"
    "\<And>b. data_at (cells m') b = data_at (cells m) b"
    "\<And>b. cells m' b = None \<longleftrightarrow> cells m b = None"
proof -
  from m obtain x where a: "cells m a = Some \<lparr>nd_data = x, nd_prev = last_or bs None, nd_next = hd_or cs None\<rparr>"
    by auto
  show ?thesis
  proof (cases bs rule: rev_cases)
    case bs: Nil
    show ?thesis
    proof (cases cs)
      case Nil
      show ?thesis
        by (rule that [of m]) (use a bs Nil m in \<open>simp_all add: node_unlink_def heap_simps\<close>)
    next
      case (Cons c cs')
      from m bs Cons obtain y where c: "cells m c = Some \<lparr>nd_data = y, nd_prev = Some a, nd_next = hd_or cs' None\<rparr>"
        by auto
      show ?thesis
        by (rule that [of "m\<lparr>cells := (cells m)(c \<mapsto> \<lparr>nd_data = y, nd_prev = None, nd_next = hd_or cs' None\<rparr>)\<rparr>"])
          (use a c bs Cons m d in \<open>simp_all add: node_unlink_def heap_simps last_or_def data_at_def\<close>)
    qed
  next
    case bs: (snoc bs' b)
    from m bs obtain z where b: "cells m b = Some \<lparr>nd_data = z, nd_prev = last_or bs' None, nd_next = Some a\<rparr>"
      by auto
    show ?thesis
    proof (cases cs)
      case Nil
      show ?thesis
        by (rule that [of "m\<lparr>cells := (cells m)(b \<mapsto> \<lparr>nd_data = z, nd_prev = last_or bs' None, nd_next = None\<rparr>)\<rparr>"])
          (use a b bs Nil m d in \<open>simp_all add: node_unlink_def heap_simps last_or_append hd_or_append data_at_def\<close>)
    next
      case (Cons c cs')
      from m bs Cons obtain y where c: "cells m c = Some \<lparr>nd_data = y, nd_prev = Some a, nd_next = hd_or cs' None\<rparr>"
        by auto
      show ?thesis
        by (rule that [of "m\<lparr>cells := (cells m)(b \<mapsto> \<lparr>nd_data = z, nd_prev = last_or bs' None, nd_next = Some c\<rparr>,
              c \<mapsto> \<lparr>nd_data = y, nd_prev = Some b, nd_next = hd_or cs' None\<rparr>)\<rparr>"])
          (use a b c bs Cons m d in \<open>simp_all add: node_unlink_def heap_simps last_or_append hd_or_append data_at_def\<close>)
    qed
  qed
qed

end
