(* ===== verification/Acl_Fifo.thy ===== *)
theory Acl_Fifo
  imports Acl_Heap
begin

text \<open>
  \<^verbatim>\<open>acllib/src/stdlib/common/acl_fifo.c\<close>: the queue of linked nodes that the thread pool,
  the event loop and the memory pools keep their work in. The state is the memory and the
  \<open>ACL_FIFO\<close> structure (head, tail, count); the slice pool only changes where a node's
  bytes come from. A datum may be NULL, as in the code.

  \<open>fifo_ok m f as\<close>: the queue's nodes are \<open>as\<close>, linked both ways. Every operation is shown
  to run without a fault on such a queue, to keep it such, and to do to the list of its
  data what its name says; nodes outside the queue keep their contents.
\<close>

section \<open>State\<close>

record fifo =
  f_head :: "addr option"
  f_tail :: "addr option"
  f_cnt :: int

type_synonym 'a fmem = "'a option mem"

definition acl_fifo_init :: fifo where
  "acl_fifo_init = \<lparr>f_head = None, f_tail = None, f_cnt = 0\<rparr>"

definition acl_fifo_new :: fifo where
  "acl_fifo_new = \<lparr>f_head = None, f_tail = None, f_cnt = 0\<rparr>"

section \<open>Operations\<close>

definition acl_fifo_push_info_back :: "'a fmem \<Rightarrow> fifo \<Rightarrow> addr \<Rightarrow> ('a fmem \<times> fifo) option" where
  "acl_fifo_push_info_back m f info = do {
     (m, f) \<leftarrow> (case f_tail f of
        None \<Rightarrow> do {
          m \<leftarrow> set_next m info None;
          m \<leftarrow> set_prev m info None;
          Some (m, f\<lparr>f_head := Some info, f_tail := Some info\<rparr>) }
      | Some t \<Rightarrow> do {
          m \<leftarrow> set_next m t (Some info);
          m \<leftarrow> set_prev m info (Some t);
          m \<leftarrow> set_next m info None;
          Some (m, f\<lparr>f_tail := Some info\<rparr>) });
     Some (m, f\<lparr>f_cnt := f_cnt f + 1\<rparr>) }"

text \<open>\<open>acl_fifo_push_back\<close> makes a node and then runs the statements of
  \<open>acl_fifo_push_info_back\<close> on it; \<open>acl_fifo_pop_front\<close> runs those of \<open>acl_fifo_pop_info\<close>,
  then reads and frees the node.\<close>

definition acl_fifo_push_back :: "'a fmem \<Rightarrow> fifo \<Rightarrow> 'a option \<Rightarrow> (addr \<times> 'a fmem \<times> fifo) option" where
  "acl_fifo_push_back m f d = (case node_alloc m d of (info, m) \<Rightarrow> do {
     (m, f) \<leftarrow> acl_fifo_push_info_back m f info;
     Some (info, m, f) })"

definition acl_fifo_push_front :: "'a fmem \<Rightarrow> fifo \<Rightarrow> 'a option \<Rightarrow> (addr \<times> 'a fmem \<times> fifo) option" where
  "acl_fifo_push_front m f d = (case node_alloc m d of (info, m) \<Rightarrow> do {
     (m, f) \<leftarrow> (case f_head f of
        None \<Rightarrow> do {
          m \<leftarrow> set_next m info None;
          m \<leftarrow> set_prev m info None;
          Some (m, f\<lparr>f_head := Some info, f_tail := Some info\<rparr>) }
      | Some h \<Rightarrow> do {
          m \<leftarrow> set_next m info (Some h);
          m \<leftarrow> set_prev m h (Some info);
          m \<leftarrow> set_prev m info None;
          Some (m, f\<lparr>f_head := Some info\<rparr>) });
     Some (info, m, f\<lparr>f_cnt := f_cnt f + 1\<rparr>) })"

definition acl_fifo_pop_info :: "'a fmem \<Rightarrow> fifo \<Rightarrow> (addr option \<times> 'a fmem \<times> fifo) option" where
  "acl_fifo_pop_info m f = (case f_head f of
     None \<Rightarrow> Some (None, m, f)
   | Some info \<Rightarrow> do {
       nd \<leftarrow> ld m info;
       (m, f) \<leftarrow> (case nd_next nd of
          Some n \<Rightarrow> do {
            m \<leftarrow> set_prev m n None;
            nd \<leftarrow> ld m info;
            Some (m, f\<lparr>f_head := nd_next nd\<rparr>) }
        | None \<Rightarrow> Some (m, f\<lparr>f_head := None, f_tail := None\<rparr>));
       Some (Some info, m, f\<lparr>f_cnt := f_cnt f - 1\<rparr>) })"

definition acl_fifo_pop_front :: "'a fmem \<Rightarrow> fifo \<Rightarrow> ('a option \<times> 'a fmem \<times> fifo) option" where
  "acl_fifo_pop_front m f = do {
     (info, m, f) \<leftarrow> acl_fifo_pop_info m f;
     (case info of
        None \<Rightarrow> Some (None, m, f)
      | Some a \<Rightarrow> do {
          nd \<leftarrow> ld m a;
          m \<leftarrow> node_free m a;
          Some (nd_data nd, m, f) }) }"

definition acl_fifo_pop_back :: "'a fmem \<Rightarrow> fifo \<Rightarrow> ('a option \<times> 'a fmem \<times> fifo) option" where
  "acl_fifo_pop_back m f = (case f_tail f of
     None \<Rightarrow> Some (None, m, f)
   | Some info \<Rightarrow> do {
       nd \<leftarrow> ld m info;
       (m, f) \<leftarrow> (case nd_prev nd of
          Some p \<Rightarrow> do {
            m \<leftarrow> set_next m p None;
            nd \<leftarrow> ld m info;
            Some (m, f\<lparr>f_tail := nd_prev nd\<rparr>) }
        | None \<Rightarrow> Some (m, f\<lparr>f_head := None, f_tail := None\<rparr>));
       nd \<leftarrow> ld m info;
       m \<leftarrow> node_free m info;
       Some (nd_data nd, m, f\<lparr>f_cnt := f_cnt f - 1\<rparr>) })"

definition acl_fifo_delete_info :: "'a fmem \<Rightarrow> fifo \<Rightarrow> addr \<Rightarrow> ('a fmem \<times> fifo) option" where
  "acl_fifo_delete_info m f info = do {
     (m, h, t) \<leftarrow> node_unlink m (f_head f) (f_tail f) info;
     m \<leftarrow> node_free m info;
     Some (m, f\<lparr>f_head := h, f_tail := t, f_cnt := f_cnt f - 1\<rparr>) }"

text \<open>The search of \<open>acl_fifo_delete\<close>; the fuel is the number of nodes it may visit.\<close>

fun fifo_search :: "nat \<Rightarrow> 'a fmem \<Rightarrow> addr option \<Rightarrow> 'a option \<Rightarrow> addr option option" where
  "fifo_search (Suc fuel) m (Some iter) d = do {
     nd \<leftarrow> ld m iter;
     if nd_data nd = d then Some (Some iter) else fifo_search fuel m (nd_next nd) d }"
| "fifo_search fuel m None d = Some None"
| "fifo_search 0 m (Some iter) d = None"

definition acl_fifo_delete :: "nat \<Rightarrow> 'a fmem \<Rightarrow> fifo \<Rightarrow> 'a option \<Rightarrow> (int \<times> 'a fmem \<times> fifo) option" where
  "acl_fifo_delete fuel m f d = do {
     r \<leftarrow> fifo_search fuel m (f_head f) d;
     (case r of
        None \<Rightarrow> Some (0, m, f)
      | Some iter \<Rightarrow> do {
          (m, h, t) \<leftarrow> node_unlink m (f_head f) (f_tail f) iter;
          m \<leftarrow> node_free m iter;
          Some (1, m, f\<lparr>f_head := h, f_tail := t, f_cnt := f_cnt f - 1\<rparr>) }) }"

definition acl_fifo_head :: "'a fmem \<Rightarrow> fifo \<Rightarrow> 'a option option" where
  "acl_fifo_head m f = (case f_head f of None \<Rightarrow> Some None | Some a \<Rightarrow> map_option nd_data (ld m a))"

definition acl_fifo_tail :: "'a fmem \<Rightarrow> fifo \<Rightarrow> 'a option option" where
  "acl_fifo_tail m f = (case f_tail f of None \<Rightarrow> Some None | Some a \<Rightarrow> map_option nd_data (ld m a))"

definition acl_fifo_head_info :: "fifo \<Rightarrow> addr option" where
  "acl_fifo_head_info f = f_head f"

definition acl_fifo_tail_info :: "fifo \<Rightarrow> addr option" where
  "acl_fifo_tail_info f = f_tail f"

definition acl_fifo_size :: "fifo option \<Rightarrow> int" where
  "acl_fifo_size fo = (case fo of Some f \<Rightarrow> f_cnt f | None \<Rightarrow> 0)"

text \<open>\<open>acl_fifo_free\<close> pops until a pop gives NULL: the data handed to \<open>free_fn\<close>, and what is
  left behind. \<open>acl_fifo_free2\<close> does the same with the nodes.\<close>

fun acl_fifo_free :: "nat \<Rightarrow> 'a fmem \<Rightarrow> fifo \<Rightarrow> ('a list \<times> 'a fmem \<times> fifo) option" where
  "acl_fifo_free 0 m f = None"
| "acl_fifo_free (Suc fuel) m f = do {
     (d, m, f) \<leftarrow> acl_fifo_pop_front m f;
     (case d of
        None \<Rightarrow> Some ([], m, f)
      | Some x \<Rightarrow> do {
          (xs, m, f) \<leftarrow> acl_fifo_free fuel m f;
          Some (x # xs, m, f) }) }"

fun acl_fifo_free2 :: "nat \<Rightarrow> 'a fmem \<Rightarrow> fifo \<Rightarrow> (addr list \<times> 'a fmem \<times> fifo) option" where
  "acl_fifo_free2 0 m f = None"
| "acl_fifo_free2 (Suc fuel) m f = do {
     (info, m, f) \<leftarrow> acl_fifo_pop_info m f;
     (case info of
        None \<Rightarrow> Some ([], m, f)
      | Some a \<Rightarrow> do {
          (as, m, f) \<leftarrow> acl_fifo_free2 fuel m f;
          Some (a # as, m, f) }) }"

text \<open>The four iterator functions; a load that faults leaves the iterator at its end.\<close>

definition fifo_at :: "'a fmem \<Rightarrow> addr option \<Rightarrow> 'a option" where
  "fifo_at m p = (case p of None \<Rightarrow> None | Some a \<Rightarrow> data_at (cells m) a)"

definition fifo_iter_head :: "(addr, 'a) acl_iter \<Rightarrow> 'a fmem \<times> fifo \<Rightarrow> (addr, 'a) acl_iter" where
  "fifo_iter_head it mf = (case mf of (m, f) \<Rightarrow>
     it\<lparr>it_dlen := -1, it_key := None, it_klen := -1, it_i := 0, it_size := f_cnt f,
        it_ptr := f_head f, it_data := fifo_at m (f_head f)\<rparr>)"

definition fifo_iter_step ::
  "('a option node \<Rightarrow> addr option) \<Rightarrow> int \<Rightarrow> (addr, 'a) acl_iter \<Rightarrow> 'a fmem \<times> fifo \<Rightarrow> (addr, 'a) acl_iter"
where
  "fifo_iter_step link d it mf = (case mf of (m, f) \<Rightarrow>
     (case (case it_ptr it of None \<Rightarrow> None | Some a \<Rightarrow> (case ld m a of None \<Rightarrow> None | Some nd \<Rightarrow> link nd)) of
        None \<Rightarrow> it\<lparr>it_ptr := None, it_data := None\<rparr>
      | Some b \<Rightarrow> it\<lparr>it_ptr := Some b, it_data := fifo_at m (Some b), it_i := it_i it + d\<rparr>))"

definition fifo_iter_next :: "(addr, 'a) acl_iter \<Rightarrow> 'a fmem \<times> fifo \<Rightarrow> (addr, 'a) acl_iter" where
  "fifo_iter_next = fifo_iter_step nd_next 1"

definition fifo_iter_tail :: "(addr, 'a) acl_iter \<Rightarrow> 'a fmem \<times> fifo \<Rightarrow> (addr, 'a) acl_iter" where
  "fifo_iter_tail it mf = (case mf of (m, f) \<Rightarrow>
     it\<lparr>it_dlen := -1, it_key := None, it_klen := -1, it_i := f_cnt f - 1, it_size := f_cnt f,
        it_ptr := f_tail f, it_data := fifo_at m (f_tail f)\<rparr>)"

definition fifo_iter_prev :: "(addr, 'a) acl_iter \<Rightarrow> 'a fmem \<times> fifo \<Rightarrow> (addr, 'a) acl_iter" where
  "fifo_iter_prev = fifo_iter_step nd_prev (-1)"

definition fifo_iter_info :: "(addr, 'a) acl_iter \<Rightarrow> addr option" where
  "fifo_iter_info it = it_ptr it"

section \<open>The queue invariant\<close>

definition fifo_ok :: "'a fmem \<Rightarrow> fifo \<Rightarrow> addr list \<Rightarrow> bool" where
  "fifo_ok m f as \<longleftrightarrow> mem_ok m \<and> dll (cells m) None as None \<and> distinct as \<and>
     f_head f = hd_or as None \<and> f_tail f = last_or as None \<and> f_cnt f = int (length as)"

definition fifo_data :: "'a fmem \<Rightarrow> addr list \<Rightarrow> 'a option list" where
  "fifo_data m as = map (data_at (cells m)) as"

text \<open>Everything outside the addresses A is as before.\<close>

definition untouched :: "addr set \<Rightarrow> 'a mem \<Rightarrow> 'a mem \<Rightarrow> bool" where
  "untouched A m m' \<longleftrightarrow> (\<forall>b. b \<notin> A \<longrightarrow> cells m' b = cells m b)"

lemma untouchedD: "untouched A m m' \<Longrightarrow> b \<notin> A \<Longrightarrow> cells m' b = cells m b"
  by (simp add: untouched_def)

lemma untouched_trans: "untouched A m m' \<Longrightarrow> untouched B m' m'' \<Longrightarrow> untouched (A \<union> B) m m''"
  by (simp add: untouched_def)

lemma untouched_mono: "untouched A m m' \<Longrightarrow> A \<subseteq> B \<Longrightarrow> untouched B m m'"
  by (auto simp: untouched_def)

lemma fifo_ok_brk: "fifo_ok m f as \<Longrightarrow> a \<in> set as \<Longrightarrow> a < brk m"
  by (auto simp: fifo_ok_def mem_ok_def dest: dll_mapped)

lemma fifo_ok_fresh: "fifo_ok m f as \<Longrightarrow> brk m \<notin> set as \<and> cells m (brk m) = None"
  using fifo_ok_brk by (fastforce simp: fifo_ok_def mem_ok_fresh)

lemma fifo_ok_new [simp]: "fifo_ok mem_empty acl_fifo_new []" "fifo_ok mem_empty acl_fifo_init []"
  by (simp_all add: fifo_ok_def acl_fifo_new_def acl_fifo_init_def)

text \<open>A queue in memory that an operation on something else leaves alone is still a queue.\<close>

lemma fifo_ok_frame:
  assumes "fifo_ok m f as" "untouched A m m'" "set as \<inter> A = {}" "mem_ok m'"
  shows "fifo_ok m' f as \<and> fifo_data m' as = fifo_data m as"
proof -
  have same: "cells m' a = cells m a" if "a \<in> set as" for a
    using that assms(2,3) by (auto simp: untouched_def)
  with assms(1,4) dll_frame [of as "cells m'" "cells m" None None] show ?thesis
    by (auto simp: fifo_ok_def fifo_data_def data_at_def)
qed

section \<open>The operations on a well-formed queue\<close>

lemma fifo_push_info_back_ok:
  assumes ok: "fifo_ok m f as" and a: "a \<notin> set as" "cells m a = Some nd"
  shows "\<exists>m' f'. acl_fifo_push_info_back m f a = Some (m', f') \<and> fifo_ok m' f' (as @ [a]) \<and>
    fifo_data m' (as @ [a]) = fifo_data m as @ [nd_data nd] \<and> untouched (insert a (set as)) m m' \<and>
    brk m' = brk m"
proof (cases as rule: rev_cases)
  case Nil
  with ok a show ?thesis
    by (cases nd) (auto simp: acl_fifo_push_info_back_def fifo_ok_def heap_simps fifo_data_def
        data_at_def untouched_def mem_ok_def)
next
  case (snoc bs t)
  from ok snoc obtain e where
    t: "cells m t = Some \<lparr>nd_data = e, nd_prev = last_or bs None, nd_next = None\<rparr>"
    by (auto simp: fifo_ok_def)
  from ok a snoc t show ?thesis
    by (cases nd) (auto simp: acl_fifo_push_info_back_def fifo_ok_def heap_simps fifo_data_def
        untouched_def mem_ok_def hd_or_append last_or_append data_at_def)
qed

lemma fifo_push_back_ok:
  assumes ok: "fifo_ok m f as"
  shows "\<exists>m' f'. acl_fifo_push_back m f d = Some (brk m, m', f') \<and> fifo_ok m' f' (as @ [brk m]) \<and>
    fifo_data m' (as @ [brk m]) = fifo_data m as @ [d] \<and> untouched (insert (brk m) (set as)) m m'"
proof -
  obtain m1 where m1: "node_alloc m d = (brk m, m1)"
    and c1: "cells m1 = (cells m)(brk m \<mapsto> \<lparr>nd_data = d, nd_prev = None, nd_next = None\<rparr>)"
    by (simp add: node_alloc_def)
  from ok have fresh: "brk m \<notin> set as" by (simp add: fifo_ok_fresh)
  with ok m1 c1 have ok1: "fifo_ok m1 f as" "fifo_data m1 as = fifo_data m as"
    using mem_ok_alloc [of m d] by (auto simp: fifo_ok_def fifo_data_def)
  from fifo_push_info_back_ok [OF ok1(1) fresh, of "\<lparr>nd_data = d, nd_prev = None, nd_next = None\<rparr>"] c1 ok1(2)
  show ?thesis by (auto simp: acl_fifo_push_back_def m1 untouched_def)
qed

lemma fifo_push_front_ok:
  assumes ok: "fifo_ok m f as"
  shows "\<exists>m' f'. acl_fifo_push_front m f d = Some (brk m, m', f') \<and> fifo_ok m' f' (brk m # as) \<and>
    fifo_data m' (brk m # as) = d # fifo_data m as \<and> untouched (insert (brk m) (set as)) m m'"
proof (cases as)
  case Nil
  with ok show ?thesis
    by (auto simp: acl_fifo_push_front_def fifo_ok_def heap_simps fifo_data_def
        data_at_def untouched_def mem_ok_def node_alloc_def less_Suc_eq)
next
  case (Cons h bs)
  from ok Cons obtain e where
    h: "cells m h = Some \<lparr>nd_data = e, nd_prev = None, nd_next = hd_or bs None\<rparr>"
    by (auto simp: fifo_ok_def)
  from ok have fresh: "brk m \<notin> set as" by (simp add: fifo_ok_fresh)
  from ok h Cons fresh show ?thesis
    by (auto simp: acl_fifo_push_front_def fifo_ok_def heap_simps fifo_data_def
        data_at_def untouched_def mem_ok_def node_alloc_def less_Suc_eq last_or_def)
qed

lemma fifo_pop_info_Nil: "fifo_ok m f [] \<Longrightarrow> acl_fifo_pop_info m f = Some (None, m, f)"
  by (simp add: acl_fifo_pop_info_def fifo_ok_def)

lemma fifo_pop_info_ok:
  assumes ok: "fifo_ok m f (a # as)"
  shows "\<exists>m' f'. acl_fifo_pop_info m f = Some (Some a, m', f') \<and> fifo_ok m' f' as \<and>
    fifo_data m' as = fifo_data m as \<and> untouched (set as) m m' \<and> brk m' = brk m"
proof (cases as)
  case Nil
  with ok show ?thesis
    by (auto simp: acl_fifo_pop_info_def fifo_ok_def heap_simps fifo_data_def untouched_def)
next
  case (Cons h bs)
  from ok Cons obtain d e where
    h: "cells m h = Some \<lparr>nd_data = e, nd_prev = Some a, nd_next = hd_or bs None\<rparr>"
    and a: "cells m a = Some \<lparr>nd_data = d, nd_prev = None, nd_next = Some h\<rparr>"
    by (auto simp: fifo_ok_def)
  from ok h a Cons show ?thesis
    by (auto simp: acl_fifo_pop_info_def fifo_ok_def heap_simps fifo_data_def
        data_at_def untouched_def mem_ok_def last_or_def)
qed

lemma fifo_pop_front_Nil: "fifo_ok m f [] \<Longrightarrow> acl_fifo_pop_front m f = Some (None, m, f)"
  by (simp add: acl_fifo_pop_front_def fifo_pop_info_Nil)

lemma fifo_ok_after_free:
  assumes "fifo_ok m f as" "a \<notin> set as" "m' = m\<lparr>cells := (cells m)(a := None)\<rparr>"
  shows "fifo_ok m' f as \<and> fifo_data m' as = fifo_data m as"
  by (rule fifo_ok_frame [where A = "{a}"])
    (use assms in \<open>auto simp: untouched_def mem_ok_free fifo_ok_def\<close>)

lemma fifo_pop_front_ok:
  assumes ok: "fifo_ok m f (a # as)"
  shows "\<exists>m' f'. acl_fifo_pop_front m f = Some (data_at (cells m) a, m', f') \<and> fifo_ok m' f' as \<and>
    fifo_data m' as = fifo_data m as \<and> untouched (set (a # as)) m m' \<and> cells m' a = None"
proof -
  from fifo_pop_info_ok [OF ok] obtain m1 f1 where
    1: "acl_fifo_pop_info m f = Some (Some a, m1, f1)" "fifo_ok m1 f1 as"
      "fifo_data m1 as = fifo_data m as" "untouched (set as) m m1" by blast
  from ok have a: "a \<notin> set as" "\<exists>nd. cells m a = Some nd" by (auto simp: fifo_ok_def)
  with 1(4) obtain nd where nd: "cells m a = Some nd" "cells m1 a = Some nd"
    by (auto simp: untouched_def)
  from fifo_ok_after_free [OF 1(2) a(1) refl] 1 nd show ?thesis
    by (auto simp: acl_fifo_pop_front_def heap_simps untouched_def data_at_def)
qed

lemma fifo_pop_back_Nil: "fifo_ok m f [] \<Longrightarrow> acl_fifo_pop_back m f = Some (None, m, f)"
  by (simp add: acl_fifo_pop_back_def fifo_ok_def)

lemma fifo_pop_back_ok:
  assumes ok: "fifo_ok m f (as @ [a])"
  shows "\<exists>m' f'. acl_fifo_pop_back m f = Some (data_at (cells m) a, m', f') \<and> fifo_ok m' f' as \<and>
    fifo_data m' as = fifo_data m as \<and> untouched (set (a # as)) m m' \<and> cells m' a = None"
proof (cases as rule: rev_cases)
  case Nil
  with ok show ?thesis
    by (auto simp: acl_fifo_pop_back_def fifo_ok_def heap_simps fifo_data_def untouched_def
        data_at_def mem_ok_def)
next
  case (snoc bs t)
  from ok snoc obtain d e where
    t: "cells m t = Some \<lparr>nd_data = e, nd_prev = last_or bs None, nd_next = Some a\<rparr>"
    and a: "cells m a = Some \<lparr>nd_data = d, nd_prev = Some t, nd_next = None\<rparr>"
    by (auto simp: fifo_ok_def)
  from ok t a snoc show ?thesis
    by (auto simp: acl_fifo_pop_back_def fifo_ok_def heap_simps fifo_data_def
        data_at_def untouched_def mem_ok_def hd_or_append last_or_append)
qed

lemma fifo_delete_info_ok:
  assumes ok: "fifo_ok m f (bs @ a # cs)"
  shows "\<exists>m' f'. acl_fifo_delete_info m f a = Some (m', f') \<and> fifo_ok m' f' (bs @ cs) \<and>
    fifo_data m' (bs @ cs) = fifo_data m bs @ fifo_data m cs \<and>
    untouched (set (bs @ a # cs)) m m' \<and> cells m' a = None"
proof -
  from ok have d: "dll (cells m) None (bs @ a # cs) None" "distinct (bs @ a # cs)"
    "f_head f = hd_or (bs @ a # cs) None" "f_tail f = last_or (bs @ a # cs) None" "mem_ok m"
    by (simp_all add: fifo_ok_def)
  from node_unlink_split [OF d(1,2)] obtain m1 where
    u: "node_unlink m (hd_or (bs @ a # cs) None) (last_or (bs @ a # cs) None) a =
       Some (m1, hd_or (bs @ cs) None, last_or (bs @ cs) None)"
    and m1: "dll (cells m1) None (bs @ cs) None" "cells m1 a = cells m a" "brk m1 = brk m"
    "\<And>b. b \<notin> set (bs @ cs) \<Longrightarrow> cells m1 b = cells m b"
    "\<And>b. data_at (cells m1) b = data_at (cells m) b"
    "\<And>b. cells m1 b = None \<longleftrightarrow> cells m b = None" by blast
  let ?f1 = "f\<lparr>f_head := hd_or (bs @ cs) None, f_tail := last_or (bs @ cs) None, f_cnt := f_cnt f - 1\<rparr>"
  from d(5) m1(3,6) have "mem_ok m1" by (simp add: mem_ok_def)
  with ok m1(1) have ok1: "fifo_ok m1 ?f1 (bs @ cs)" by (simp add: fifo_ok_def)
  from d(1) m1(2) obtain nd where "cells m1 a = Some nd" by auto
  moreover from d(2) have "a \<notin> set (bs @ cs)" by simp
  ultimately show ?thesis
    using fifo_ok_after_free [OF ok1, of a] u d(3,4) m1(4,5)
    by (simp add: acl_fifo_delete_info_def heap_simps fifo_data_def untouched_def)
qed

lemma fifo_search_dll:
  "dll (cells m) p as None \<Longrightarrow> length as < fuel \<Longrightarrow>
   fifo_search fuel m (hd_or as None) d =
     Some (List.find (\<lambda>a. data_at (cells m) a = d) as)"
proof (induction as arbitrary: p fuel)
  case Nil
  then show ?case by (cases fuel) auto
next
  case (Cons a as)
  then show ?case by (cases fuel) (auto simp: heap_simps data_at_def)
qed

lemma fifo_delete_ok:
  assumes ok: "fifo_ok m f (bs @ a # cs)" and a: "data_at (cells m) a = d"
    and bs: "d \<notin> set (fifo_data m bs)" and fuel: "length (bs @ a # cs) < fuel"
  shows "acl_fifo_delete fuel m f d = map_option (Pair 1) (acl_fifo_delete_info m f a)"
proof -
  from bs have "List.find (\<lambda>a. data_at (cells m) a = d) (bs @ a # cs) = Some a"
    using a by (induction bs) (auto simp: fifo_data_def)
  with fifo_search_dll [of m None "bs @ a # cs" fuel d] ok fuel
  have "fifo_search fuel m (f_head f) d = Some (Some a)" by (simp add: fifo_ok_def)
  then show ?thesis
    by (simp add: acl_fifo_delete_def acl_fifo_delete_info_def map_option_bind comp_def
        case_prod_unfold)
qed

lemma fifo_delete_absent:
  assumes ok: "fifo_ok m f as" and "d \<notin> set (fifo_data m as)" "length as < fuel"
  shows "acl_fifo_delete fuel m f d = Some (0, m, f)"
proof -
  from assms(2) have "List.find (\<lambda>a. data_at (cells m) a = d) as = None"
    by (auto simp: find_None_iff fifo_data_def)
  with fifo_search_dll [of m None as fuel d] assms show ?thesis
    by (simp add: fifo_ok_def acl_fifo_delete_def)
qed

lemma fifo_reads:
  assumes "fifo_ok m f as"
  shows "acl_fifo_head m f = Some (case as of [] \<Rightarrow> None | a # _ \<Rightarrow> data_at (cells m) a)"
    and "acl_fifo_tail m f = Some (if as = [] then None else data_at (cells m) (last as))"
    and "acl_fifo_size (Some f) = int (length as)"
proof -
  from assms show "acl_fifo_head m f = Some (case as of [] \<Rightarrow> None | a # _ \<Rightarrow> data_at (cells m) a)"
    by (cases as) (auto simp: acl_fifo_head_def fifo_ok_def ld_def data_at_def)
  from assms show "acl_fifo_tail m f = Some (if as = [] then None else data_at (cells m) (last as))"
    by (cases as rule: rev_cases) (auto simp: acl_fifo_tail_def fifo_ok_def ld_def data_at_def)
qed (use assms in \<open>simp add: acl_fifo_size_def fifo_ok_def\<close>)

section \<open>The queue as a list\<close>

definition fifo_addrs :: "'a fmem \<Rightarrow> fifo \<Rightarrow> addr list" where
  "fifo_addrs m f = walk (nat (f_cnt f)) (cells m) (f_head f)"

lemma fifo_addrs_ok: "fifo_ok m f as \<Longrightarrow> fifo_addrs m f = as"
  by (auto simp: fifo_ok_def fifo_addrs_def intro: walk_dll)

text \<open>The four static functions that the structure's function pointers hold, on memory and
  queue together; the state stays when the operation faults, which a well-formed queue
  excludes.\<close>

fun fifo_push_back :: "'a fmem \<times> fifo \<Rightarrow> 'a \<Rightarrow> 'a fmem \<times> fifo" where
  "fifo_push_back (m, f) x =
     (case acl_fifo_push_back m f (Some x) of None \<Rightarrow> (m, f) | Some (_, mf) \<Rightarrow> mf)"

fun fifo_push_front :: "'a fmem \<times> fifo \<Rightarrow> 'a \<Rightarrow> 'a fmem \<times> fifo" where
  "fifo_push_front (m, f) x =
     (case acl_fifo_push_front m f (Some x) of None \<Rightarrow> (m, f) | Some (_, mf) \<Rightarrow> mf)"

fun fifo_pop_back :: "'a fmem \<times> fifo \<Rightarrow> 'a option \<times> 'a fmem \<times> fifo" where
  "fifo_pop_back (m, f) =
     (case acl_fifo_pop_back m f of None \<Rightarrow> (None, m, f) | Some r \<Rightarrow> r)"

fun fifo_pop_front :: "'a fmem \<times> fifo \<Rightarrow> 'a option \<times> 'a fmem \<times> fifo" where
  "fifo_pop_front (m, f) =
     (case acl_fifo_pop_front m f of None \<Rightarrow> (None, m, f) | Some r \<Rightarrow> r)"

definition fifo_wf :: "'a fmem \<times> fifo \<Rightarrow> bool" where
  "fifo_wf mf \<longleftrightarrow> (\<exists>as. fifo_ok (fst mf) (snd mf) as \<and> None \<notin> set (fifo_data (fst mf) as))"

definition fifo_seq :: "'a fmem \<times> fifo \<Rightarrow> 'a list" where
  "fifo_seq mf = map the (fifo_data (fst mf) (fifo_addrs (fst mf) (snd mf)))"

lemma fifo_wfI:
  "fifo_ok m f as \<Longrightarrow> fifo_data m as = map Some xs \<Longrightarrow> fifo_wf (m, f) \<and> fifo_seq (m, f) = xs"
  by (auto simp: fifo_wf_def fifo_seq_def fifo_addrs_ok comp_def)

lemma fifo_wfE:
  assumes "fifo_wf mf"
  obtains m f as xs where "mf = (m, f)" "fifo_ok m f as" "fifo_data m as = map Some xs"
    "fifo_seq mf = xs"
proof -
  obtain m f where mf: "mf = (m, f)" by (cases mf)
  with assms obtain as where as: "fifo_ok m f as" "None \<notin> set (fifo_data m as)"
    by (auto simp: fifo_wf_def)
  have "fifo_data m as = map Some (map the (fifo_data m as))"
    using as(2) by (induction as) (auto simp: fifo_data_def)
  then show ?thesis
    by (rule that [OF mf as(1)]) (simp add: mf fifo_seq_def fifo_addrs_ok [OF as(1)])
qed

lemma fifo_data_Cons [simp]: "fifo_data m (a # as) = data_at (cells m) a # fifo_data m as"
  and fifo_data_Nil [simp]: "fifo_data m [] = []"
  and fifo_data_append [simp]: "fifo_data m (as @ bs) = fifo_data m as @ fifo_data m bs"
  by (simp_all add: fifo_data_def)

lemma fifo_push_back_seq:
  assumes "fifo_wf s"
  shows "fifo_wf (fifo_push_back s x) \<and> fifo_seq (fifo_push_back s x) = list_push_back (fifo_seq s) x"
proof -
  from assms obtain m f as xs where s: "s = (m, f)" "fifo_ok m f as"
    "fifo_data m as = map Some xs" "fifo_seq s = xs" by (rule fifo_wfE)
  from fifo_push_back_ok [OF s(2), of "Some x"] obtain m' f' where
    p: "acl_fifo_push_back m f (Some x) = Some (brk m, m', f')" and
    ok': "fifo_ok m' f' (as @ [brk m])" and
    da: "fifo_data m' (as @ [brk m]) = fifo_data m as @ [Some x]" by blast
  from fifo_wfI [OF ok', of "xs @ [x]"] da s p show ?thesis
    by (simp add: list_push_back_def)
qed

lemma fifo_push_front_seq:
  assumes "fifo_wf s"
  shows "fifo_wf (fifo_push_front s x) \<and> fifo_seq (fifo_push_front s x) = list_push_front (fifo_seq s) x"
proof -
  from assms obtain m f as xs where s: "s = (m, f)" "fifo_ok m f as"
    "fifo_data m as = map Some xs" "fifo_seq s = xs" by (rule fifo_wfE)
  from fifo_push_front_ok [OF s(2), of "Some x"] obtain m' f' where
    p: "acl_fifo_push_front m f (Some x) = Some (brk m, m', f')" and
    ok': "fifo_ok m' f' (brk m # as)" and
    da: "fifo_data m' (brk m # as) = Some x # fifo_data m as" by blast
  from fifo_wfI [OF ok', of "x # xs"] da s p show ?thesis
    by (simp add: list_push_front_def)
qed

lemma fifo_pop_front_seq:
  assumes "fifo_wf s"
  shows "fifo_wf (snd (fifo_pop_front s)) \<and>
    map_prod id fifo_seq (fifo_pop_front s) = list_pop_front (fifo_seq s)"
proof -
  from assms obtain m f as xs where s: "s = (m, f)" "fifo_ok m f as"
    "fifo_data m as = map Some xs" "fifo_seq s = xs" by (rule fifo_wfE)
  show ?thesis
  proof (cases as)
    case Nil
    with s assms fifo_pop_front_Nil [of m f] show ?thesis by (simp add: list_pop_front_def)
  next
    case (Cons a as')
    with s obtain x xs' where x: "xs = x # xs'" "data_at (cells m) a = Some x"
      "fifo_data m as' = map Some xs'" by (cases xs) auto
    from fifo_pop_front_ok [of m f a as'] s(2) Cons obtain m' f' where
      p: "acl_fifo_pop_front m f = Some (data_at (cells m) a, m', f')" and
      ok': "fifo_ok m' f' as'" and da: "fifo_data m' as' = fifo_data m as'" by blast
    from fifo_wfI [OF ok', of xs'] da x s p show ?thesis by (simp add: list_pop_front_def)
  qed
qed

lemma fifo_pop_back_seq:
  assumes "fifo_wf s"
  shows "fifo_wf (snd (fifo_pop_back s)) \<and>
    map_prod id fifo_seq (fifo_pop_back s) = list_pop_back (fifo_seq s)"
proof -
  from assms obtain m f as xs where s: "s = (m, f)" "fifo_ok m f as"
    "fifo_data m as = map Some xs" "fifo_seq s = xs" by (rule fifo_wfE)
  show ?thesis
  proof (cases as rule: rev_cases)
    case Nil
    with s assms fifo_pop_back_Nil [of m f] show ?thesis by (simp add: list_pop_back_def)
  next
    case (snoc as' a)
    with s obtain x xs' where x: "xs = xs' @ [x]" "data_at (cells m) a = Some x"
      "fifo_data m as' = map Some xs'" by (cases xs rule: rev_cases) auto
    from fifo_pop_back_ok [of m f as' a] s(2) snoc obtain m' f' where
      p: "acl_fifo_pop_back m f = Some (data_at (cells m) a, m', f')" and
      ok': "fifo_ok m' f' as'" and da: "fifo_data m' as' = fifo_data m as'" by blast
    from fifo_wfI [OF ok', of xs'] da x s p show ?thesis by (simp add: list_pop_back_def)
  qed
qed

interpretation fq: deque fifo_push_back fifo_pop_back fifo_pop_front fifo_seq fifo_wf fifo_push_front
  by unfold_locales
    (simp_all only: fifo_push_back_seq fifo_push_front_seq fifo_pop_front_seq fifo_pop_back_seq)

lemma fifo_wf_new: "fifo_wf (mem_empty, acl_fifo_new)" "fifo_seq (mem_empty, acl_fifo_new) = []"
  using fifo_wfI [of mem_empty acl_fifo_new "[]" "[]"] by auto

section \<open>The iterator\<close>

definition nth_opt :: "nat \<Rightarrow> 'b list \<Rightarrow> 'b option" where
  "nth_opt n xs = (if n < length xs then Some (xs ! n) else None)"

definition fifo_linked :: "'a fmem \<times> fifo \<Rightarrow> bool" where
  "fifo_linked mf \<longleftrightarrow> (\<exists>as. fifo_ok (fst mf) (snd mf) as)"

lemma dll_nth_next:
  "dll h p as None \<Longrightarrow> n < length as \<Longrightarrow>
   \<exists>nd. h (as ! n) = Some nd \<and> nd_next nd = nth_opt (Suc n) as \<and>
     nd_prev nd = (if n = 0 then p else Some (as ! (n - 1)))"
proof -
  assume d: "dll h p as None" and n: "n < length as"
  let ?l = "take n as" and ?r = "drop (Suc n) as"
  from n have "as = ?l @ as ! n # ?r" by (simp add: id_take_nth_drop)
  with d have "dll h p (?l @ as ! n # ?r) None" by metis
  then obtain e where "h (as ! n) = Some \<lparr>nd_data = e, nd_prev = last_or ?l p, nd_next = hd_or ?r None\<rparr>"
    by (auto simp: hd_or_append)
  moreover from n have "last_or ?l p = (if n = 0 then p else Some (as ! (n - 1)))"
    by (auto simp: last_or_def last_conv_nth)
  moreover have "hd_or ?r None = nth_opt (Suc n) as"
    by (cases "Suc n < length as") (auto simp: nth_opt_def Cons_nth_drop_Suc [symmetric])
  ultimately show ?thesis by simp
qed

definition fifo_fwd_at :: "'a fmem \<times> fifo \<Rightarrow> nat \<Rightarrow> (addr, 'a) acl_iter \<Rightarrow> bool" where
  "fifo_fwd_at mf n it \<longleftrightarrow> it_ptr it = nth_opt n (fifo_addrs (fst mf) (snd mf))"

definition fifo_bwd_at :: "'a fmem \<times> fifo \<Rightarrow> nat \<Rightarrow> (addr, 'a) acl_iter \<Rightarrow> bool" where
  "fifo_bwd_at mf n it \<longleftrightarrow> it_ptr it = nth_opt n (rev (fifo_addrs (fst mf) (snd mf)))"

lemma iter_step_ptr:
  "it_ptr (fifo_iter_step link d it (m, f)) =
     (case it_ptr it of None \<Rightarrow> None | Some a \<Rightarrow> (case ld m a of None \<Rightarrow> None | Some nd \<Rightarrow> link nd))"
  by (simp add: fifo_iter_step_def split: option.split)

interpretation fifo_fwd: iteration fifo_iter_head fifo_iter_next
  "\<lambda>mf. fifo_addrs (fst mf) (snd mf)" fifo_linked fifo_fwd_at
proof
  fix c :: "'a fmem \<times> fifo" and it :: "(addr, 'a) acl_iter" and n
  obtain m f where c: "c = (m, f)" by (cases c)
  assume "fifo_linked c"
  with c obtain as where ok: "fifo_ok m f as" by (auto simp: fifo_linked_def)
  note as = fifo_addrs_ok [OF ok]
  show "fifo_fwd_at c 0 (fifo_iter_head it c)"
    using ok as by (cases as) (auto simp: c fifo_fwd_at_def fifo_iter_head_def fifo_ok_def nth_opt_def)
  assume at: "fifo_fwd_at c n it"
  { assume n: "n < length (fifo_addrs (fst c) (snd c))"
    with ok as c dll_nth_next [of "cells m" None as n] obtain nd where
      "cells m (as ! n) = Some nd" "nd_next nd = nth_opt (Suc n) as" by (auto simp: fifo_ok_def)
    with at n as show "fifo_fwd_at c (Suc n) (fifo_iter_next it c)"
      by (simp add: c fifo_fwd_at_def fifo_iter_next_def iter_step_ptr ld_def nth_opt_def) }
  show "it_ptr it = (if n < length (fifo_addrs (fst c) (snd c))
      then Some (fifo_addrs (fst c) (snd c) ! n) else None)"
    using at by (simp add: fifo_fwd_at_def nth_opt_def)
qed

interpretation fifo_bwd: iteration fifo_iter_tail fifo_iter_prev
  "\<lambda>mf. rev (fifo_addrs (fst mf) (snd mf))" fifo_linked fifo_bwd_at
proof
  fix c :: "'a fmem \<times> fifo" and it :: "(addr, 'a) acl_iter" and n
  obtain m f where c: "c = (m, f)" by (cases c)
  assume "fifo_linked c"
  with c obtain as where ok: "fifo_ok m f as" by (auto simp: fifo_linked_def)
  note as = fifo_addrs_ok [OF ok]
  show "fifo_bwd_at c 0 (fifo_iter_tail it c)"
    using ok as by (cases as rule: rev_cases) (auto simp: c fifo_bwd_at_def fifo_iter_tail_def fifo_ok_def nth_opt_def)
  assume at: "fifo_bwd_at c n it"
  { assume n: "n < length (rev (fifo_addrs (fst c) (snd c)))"
    let ?k = "length as - Suc n"
    from n as c have k: "?k < length as" "rev as ! n = as ! ?k" by (simp_all add: rev_nth)
    with ok dll_nth_next [of "cells m" None as ?k] obtain nd where
      nd: "cells m (as ! ?k) = Some nd" "nd_prev nd = (if ?k = 0 then None else Some (as ! (?k - 1)))"
      by (auto simp: fifo_ok_def)
    moreover from n as c have "nd_prev nd = nth_opt (Suc n) (rev as)"
      unfolding nd(2) by (auto simp: nth_opt_def rev_nth)
    ultimately show "fifo_bwd_at c (Suc n) (fifo_iter_prev it c)"
      using at n as k by (simp add: c fifo_bwd_at_def fifo_iter_prev_def iter_step_ptr ld_def nth_opt_def) }
  show "it_ptr it = (if n < length (rev (fifo_addrs (fst c) (snd c)))
      then Some (rev (fifo_addrs (fst c) (snd c)) ! n) else None)"
    using at by (simp add: fifo_bwd_at_def nth_opt_def)
qed

section \<open>Freeing the queue\<close>

lemma fifo_free_prefix:
  "fifo_ok m f as \<Longrightarrow> length as < fuel \<Longrightarrow>
   \<exists>m' f'. acl_fifo_free fuel m f = Some (map the (takeWhile (\<lambda>d. d \<noteq> None) (fifo_data m as)), m', f') \<and>
     fifo_ok m' f' (drop (Suc (length (takeWhile (\<lambda>d. d \<noteq> None) (fifo_data m as)))) as)"
proof (induction as arbitrary: m f fuel)
  case Nil
  then show ?case by (cases fuel) (auto simp: fifo_pop_front_Nil)
next
  case (Cons a as)
  from Cons.prems obtain fuel' where fuel: "fuel = Suc fuel'" "length as < fuel'" by (cases fuel) auto
  from fifo_pop_front_ok [OF Cons.prems(1)] obtain m' f' where
    p: "acl_fifo_pop_front m f = Some (data_at (cells m) a, m', f')" "fifo_ok m' f' as"
      "fifo_data m' as = fifo_data m as" by blast
  show ?case
  proof (cases "data_at (cells m) a")
    case None
    with p fuel show ?thesis by simp
  next
    case (Some x)
    with Cons.IH [OF p(2) fuel(2)] p(1,3) fuel(1) show ?thesis by auto
  qed
qed

lemma fifo_free2_all:
  "fifo_ok m f as \<Longrightarrow> length as < fuel \<Longrightarrow>
   \<exists>m' f'. acl_fifo_free2 fuel m f = Some (as, m', f') \<and> fifo_ok m' f' []"
proof (induction as arbitrary: m f fuel)
  case Nil
  then show ?case by (cases fuel) (auto simp: fifo_pop_info_Nil)
next
  case (Cons a as)
  from Cons.prems obtain fuel' where fuel: "fuel = Suc fuel'" "length as < fuel'" by (cases fuel) auto
  from fifo_pop_info_ok [OF Cons.prems(1)] obtain m' f' where
    p: "acl_fifo_pop_info m f = Some (Some a, m', f')" "fifo_ok m' f' as" by blast
  from Cons.IH [OF p(2) fuel(2)] p(1) fuel(1) show ?case by auto
qed

section \<open>Properties\<close>

text \<open>A queue of three nodes, for the witnesses.\<close>

definition sample_mem :: "nat fmem" where
  "sample_mem = \<lparr>cells = [1 \<mapsto> \<lparr>nd_data = Some 5, nd_prev = None, nd_next = Some 2\<rparr>,
     2 \<mapsto> \<lparr>nd_data = Some 7, nd_prev = Some 1, nd_next = Some 3\<rparr>,
     3 \<mapsto> \<lparr>nd_data = Some 9, nd_prev = Some 2, nd_next = None\<rparr>,
     4 \<mapsto> \<lparr>nd_data = None, nd_prev = None, nd_next = None\<rparr>], brk = 5\<rparr>"

definition sample_fifo :: fifo where
  "sample_fifo = \<lparr>f_head = Some 1, f_tail = Some 3, f_cnt = 3\<rparr>"

lemma sample_ok: "fifo_ok sample_mem sample_fifo [1, 2, 3]"
  by (simp add: fifo_ok_def sample_mem_def sample_fifo_def mem_ok_def last_or_def)

lemma sample_data: "fifo_data sample_mem [1, 2, 3] = [Some 5, Some 7, Some 9]"
  by (simp add: sample_mem_def data_at_def)

text \<open>C36: Any sequence of pushes and pops at both ends through the queue's function
  pointers, starting from a new queue in empty memory, gives the results that the same
  sequence gives on a list, and leaves a queue whose nodes are linked both ways and hold
  exactly that list.\<close>

theorem fifo_runs_as_list:
  "case seq_run fifo_push_back fifo_push_front fifo_pop_back fifo_pop_front
      (mem_empty, acl_fifo_new) ops of
     (rs, t) \<Rightarrow> fifo_wf t \<and> list_run [] ops = (rs, fifo_seq t)"
  using fq.run_refines [OF fifo_wf_new(1), of ops] by (auto simp: fifo_wf_new(2))

text \<open>\<open>acl_fifo_delete\<close> removes the first node that holds the datum: it runs without
  touching NULL or freed memory, returns 1, links the node's neighbours (or the head and
  tail of the queue) to each other, frees exactly this node, lowers the count, and leaves
  the other nodes' data and all memory outside the queue as they were.\<close>

theorem fifo_delete_first:
  assumes "fifo_ok m f (bs @ a # cs)" "data_at (cells m) a = d" "d \<notin> set (fifo_data m bs)"
    and "length (bs @ a # cs) < fuel"
  shows "\<exists>m' f'. acl_fifo_delete fuel m f d = Some (1, m', f') \<and> fifo_ok m' f' (bs @ cs) \<and>
    fifo_data m' (bs @ cs) = fifo_data m bs @ fifo_data m cs \<and> cells m' a = None \<and>
    untouched (set (bs @ a # cs)) m m'"
  using fifo_delete_info_ok [OF assms(1)] fifo_delete_ok [OF assms] by force

theorem fifo_delete_first_witness:
  "\<exists>m' f'. acl_fifo_delete 4 sample_mem sample_fifo (Some 7) = Some (1, m', f') \<and>
    fifo_ok m' f' [1, 3] \<and> fifo_data m' [1, 3] = [Some 5, Some 9]"
  using fifo_delete_first [of sample_mem sample_fifo "[1]" 2 "[3]" "Some 7" 4] sample_ok sample_data
  by auto

text \<open>Moving the first node of one queue to the back of another one in the same memory,
  \<open>acl_fifo_pop_info\<close> and then \<open>acl_fifo_push_info_back\<close>, runs without a fault: the first
  queue loses its first node, the second gains it with its datum as its last, and neither
  queue's other nodes change their data.\<close>

theorem fifo_move_node:
  assumes "fifo_ok m f (a # as)" "fifo_ok m g bs" "set (a # as) \<inter> set bs = {}"
  shows "\<exists>m1 f1 m2 g2. acl_fifo_pop_info m f = Some (Some a, m1, f1) \<and>
    acl_fifo_push_info_back m1 g a = Some (m2, g2) \<and>
    fifo_ok m2 f1 as \<and> fifo_data m2 as = fifo_data m as \<and>
    fifo_ok m2 g2 (bs @ [a]) \<and> fifo_data m2 (bs @ [a]) = fifo_data m bs @ [data_at (cells m) a]"
proof -
  from fifo_pop_info_ok [OF assms(1)] obtain m1 f1 where
    1: "acl_fifo_pop_info m f = Some (Some a, m1, f1)" "fifo_ok m1 f1 as"
      "fifo_data m1 as = fifo_data m as" "untouched (set as) m m1" by blast
  from assms(1) have a: "a \<notin> set as" "\<exists>nd. cells m a = Some nd" by (auto simp: fifo_ok_def)
  with 1(4) obtain nd where nd: "cells m1 a = Some nd" "data_at (cells m) a = nd_data nd"
    by (auto simp: untouched_def data_at_def)
  from 1(2) assms(3) have g1: "fifo_ok m1 g bs \<and> fifo_data m1 bs = fifo_data m bs"
    by (intro fifo_ok_frame [OF assms(2) 1(4)]) (auto simp: fifo_ok_def)
  from assms(3) nd g1 fifo_push_info_back_ok [of m1 g bs a nd] obtain m2 g2 where
    2: "acl_fifo_push_info_back m1 g a = Some (m2, g2)" "fifo_ok m2 g2 (bs @ [a])"
      "fifo_data m2 (bs @ [a]) = fifo_data m bs @ [nd_data nd]"
      "untouched (insert a (set bs)) m1 m2" by auto
  from 2(2) assms(3) a have "fifo_ok m2 f1 as \<and> fifo_data m2 as = fifo_data m1 as"
    by (intro fifo_ok_frame [OF 1(2) 2(4)]) (auto simp: fifo_ok_def)
  with 1 2 nd show ?thesis by auto
qed

theorem fifo_move_node_witness:
  "\<exists>m1 f1 m2 g2. acl_fifo_pop_info sample_mem sample_fifo = Some (Some 1, m1, f1) \<and>
    acl_fifo_push_info_back m1 \<lparr>f_head = Some 4, f_tail = Some 4, f_cnt = 1\<rparr> 1 = Some (m2, g2) \<and>
    fifo_ok m2 f1 [2, 3] \<and> fifo_ok m2 g2 [4, 1] \<and> fifo_data m2 [4, 1] = [None, Some 5]"
proof -
  have g: "fifo_ok sample_mem \<lparr>f_head = Some 4, f_tail = Some 4, f_cnt = 1\<rparr> [4]"
    "fifo_data sample_mem [4] = [None]"
    by (simp_all add: fifo_ok_def sample_mem_def mem_ok_def data_at_def)
  from fifo_move_node [OF sample_ok g(1)] g(2) sample_data show ?thesis by fastforce
qed

text \<open>\<open>acl_fifo_free\<close> takes a pop that gives NULL for the end of the queue: it hands the
  data before the first NULL datum to \<open>free_fn\<close> and then stops, so the nodes behind a NULL
  datum are never freed; a queue without NULL data is freed in full.\<close>

theorem fifo_free_until_null:
  assumes "fifo_ok m f as" "length as < fuel"
  shows "\<exists>m' f'. acl_fifo_free fuel m f =
      Some (map the (takeWhile (\<lambda>d. d \<noteq> None) (fifo_data m as)), m', f') \<and>
    fifo_ok m' f' (drop (Suc (length (takeWhile (\<lambda>d. d \<noteq> None) (fifo_data m as)))) as)"
  using fifo_free_prefix [OF assms] .

theorem fifo_free_until_null_witness:
  "\<exists>m f. acl_fifo_free 3
      \<lparr>cells = [1 \<mapsto> \<lparr>nd_data = None, nd_prev = None, nd_next = Some 2\<rparr>,
         2 \<mapsto> \<lparr>nd_data = Some (7 :: nat), nd_prev = Some 1, nd_next = None\<rparr>], brk = 3\<rparr>
      \<lparr>f_head = Some 1, f_tail = Some 2, f_cnt = 2\<rparr> = Some ([], m, f) \<and> fifo_ok m f [2]"
  using fifo_free_until_null [of "\<lparr>cells = [1 \<mapsto> \<lparr>nd_data = None, nd_prev = None, nd_next = Some 2\<rparr>,
         2 \<mapsto> \<lparr>nd_data = Some (7 :: nat), nd_prev = Some 1, nd_next = None\<rparr>], brk = 3\<rparr>"
      "\<lparr>f_head = Some 1, f_tail = Some 2, f_cnt = 2\<rparr>" "[1, 2]" 3]
  by (simp add: fifo_ok_def mem_ok_def data_at_def last_or_def)

end
