(* ===== verification/Acl_Stack.thy ===== *)
theory Acl_Stack
  imports Acl_Array "HOL-Library.Monad_Syntax"
begin

text \<open>
  The stack of \<^verbatim>\<open>acllib/src/stdlib/common/acl_stack.c\<close>: an array of pointers with the interfaces of
  the other sequence containers. \<open>items\<close> can be NULL (\<open>None\<close>), which is what \<open>acl_stack_clean\<close> leaves
  behind, so every operation that goes through it is in the option monad: \<open>None\<close> is a NULL
  dereference. NULL objects are refused, so the cells in use hold objects.
\<close>

record 'a acl_stack =
  st_capacity :: nat
  st_count :: nat
  st_items :: "'a option list option"

definition stack_ok :: "'a acl_stack \<Rightarrow> bool" where
  "stack_ok s \<longleftrightarrow> (\<exists>xs. st_items s = Some xs \<and> length xs = st_capacity s \<and> st_count s \<le> st_capacity s \<and>
     (\<forall>i < st_count s. xs ! i \<noteq> None))"

definition stack_seq :: "'a acl_stack \<Rightarrow> 'a list" where
  "stack_seq s = map the (take (st_count s) (the (st_items s)))"

section \<open>Operations\<close>

definition stack_grow :: "'a acl_stack \<Rightarrow> nat \<Rightarrow> 'a acl_stack" where
  "stack_grow s min_capacity =
     (if st_capacity s \<ge> min_capacity then s
      else let delta = (min_capacity + (16 - 1)) div 16 * 16; cap = st_capacity s + delta
      in s\<lparr>st_capacity := cap, st_items := Some (case st_items s of
           Some xs \<Rightarrow> take (st_count s) xs @ replicate (cap - st_count s) None
         | None \<Rightarrow> replicate cap None)\<rparr>)"

definition acl_stack_space :: "'a acl_stack \<Rightarrow> nat \<Rightarrow> 'a acl_stack" where
  "acl_stack_space s n = (if st_count s + n > st_capacity s then stack_grow s (st_count s + n) else s)"

definition acl_stack_create :: "int \<Rightarrow> 'a acl_stack" where
  "acl_stack_create init_size =
     acl_stack_space \<lparr>st_capacity = 0, st_count = 0, st_items = None\<rparr> (if init_size > 0 then nat init_size else 1)"

definition acl_stack_clean :: "'a acl_stack \<Rightarrow> bool \<Rightarrow> ('a list \<times> 'a acl_stack) option" where
  "acl_stack_clean s free_fn =
     (if st_count s = 0 then Some ([], s\<lparr>st_items := None, st_count := 0\<rparr>)
      else do {
        xs \<leftarrow> st_items s;
        Some (if free_fn then fst (free_cells (st_count s) 0 xs) else [], s\<lparr>st_items := None, st_count := 0\<rparr>) })"

definition acl_stack_append :: "'a acl_stack \<Rightarrow> 'a option \<Rightarrow> 'a acl_stack option" where
  "acl_stack_append s obj =
     (if obj = None then Some s
      else do {
        let s = (if st_count s \<ge> st_capacity s then stack_grow s (st_count s + 16) else s);
        xs \<leftarrow> st_items s;
        Some (s\<lparr>st_items := Some (xs[st_count s := obj]), st_count := Suc (st_count s)\<rparr>) })"

definition acl_stack_prepend :: "'a acl_stack \<Rightarrow> 'a option \<Rightarrow> 'a acl_stack option" where
  "acl_stack_prepend s obj =
     (if obj = None then Some s
      else do {
        let s = (if st_count s \<ge> st_capacity s then stack_grow s (st_count s + 1) else s);
        xs \<leftarrow> st_items s;
        Some (s\<lparr>st_items := Some ((shift_up 0 (st_count s) xs)[0 := obj]), st_count := Suc (st_count s)\<rparr>) })"

definition acl_stack_delete :: "'a acl_stack \<Rightarrow> int \<Rightarrow> bool \<Rightarrow> ('a list \<times> 'a acl_stack) option" where
  "acl_stack_delete s position free_fn =
     (if position < 0 \<or> position \<ge> int (st_count s) then Some ([], s)
      else do {
        xs \<leftarrow> st_items s;
        Some (freed free_fn (xs ! nat position),
          s\<lparr>st_items := Some (shift_down (nat position) (st_count s - 1) (xs[nat position := None])),
            st_count := st_count s - 1\<rparr>) })"

definition acl_stack_delete_obj :: "'a acl_stack \<Rightarrow> 'a option \<Rightarrow> bool \<Rightarrow> ('a list \<times> 'a acl_stack) option" where
  "acl_stack_delete_obj s obj free_fn =
     (if obj = None then Some ([], s)
      else if st_count s = 0 then Some ([], s)
      else do {
        xs \<leftarrow> st_items s;
        let position = find_obj xs obj 0 (st_count s);
        if position = -1 then Some ([], s)
        else do {
          (fs, s) \<leftarrow> acl_stack_delete (s\<lparr>st_items := Some (xs[nat position := None])\<rparr>) position False;
          Some (freed free_fn obj, s) } })"

definition acl_stack_index :: "'a acl_stack \<Rightarrow> int \<Rightarrow> 'a option option" where
  "acl_stack_index s idx =
     (if idx < 0 \<or> idx > int (st_count s) - 1 then Some None
      else map_option (\<lambda>xs. xs ! nat idx) (st_items s))"

definition acl_stack_size :: "'a acl_stack option \<Rightarrow> int" where
  "acl_stack_size s = (case s of None \<Rightarrow> -1 | Some s \<Rightarrow> int (st_count s))"

definition acl_stack_pop :: "'a acl_stack \<Rightarrow> ('a option \<times> 'a acl_stack) option" where
  "acl_stack_pop s =
     (if st_count s < 1 then Some (None, s)
      else do { xs \<leftarrow> st_items s; Some (xs ! (st_count s - 1), s\<lparr>st_count := st_count s - 1\<rparr>) })"

definition acl_stack_top :: "'a acl_stack \<Rightarrow> 'a option option" where
  "acl_stack_top s =
     (if st_count s < 1 then Some None else map_option (\<lambda>xs. xs ! (st_count s - 1)) (st_items s))"

definition stack_pop_front :: "'a acl_stack \<Rightarrow> ('a option \<times> 'a acl_stack) option" where
  "stack_pop_front s =
     (if st_count s < 1 then Some (None, s)
      else do {
        xs \<leftarrow> st_items s;
        Some (xs ! 0, s\<lparr>st_items := Some (shift_down 0 (st_count s - 1) xs), st_count := st_count s - 1\<rparr>) })"

definition stack_push_back :: "'a acl_stack \<Rightarrow> 'a option \<Rightarrow> 'a acl_stack option" where
  "stack_push_back s obj = acl_stack_append s obj"

definition stack_push_front :: "'a acl_stack \<Rightarrow> 'a option \<Rightarrow> 'a acl_stack option" where
  "stack_push_front s obj = acl_stack_prepend s obj"

definition stack_pop_back :: "'a acl_stack \<Rightarrow> ('a option \<times> 'a acl_stack) option" where
  "stack_pop_back s = acl_stack_pop s"

text \<open>What an iterator stands on at index \<open>i\<close>, as the four functions read it.\<close>

definition stack_iter_head :: "('a, 'a) acl_iter \<Rightarrow> 'a acl_stack \<Rightarrow> ('a, 'a) acl_iter" where
  "stack_iter_head it s = (let p = (case st_items s of None \<Rightarrow> None | Some xs \<Rightarrow> if st_count s = 0 then None else xs ! 0)
     in it\<lparr>it_dlen := -1, it_key := None, it_klen := -1, it_i := 0, it_size := int (st_count s), it_ptr := p, it_data := p\<rparr>)"

definition stack_iter_next :: "('a, 'a) acl_iter \<Rightarrow> 'a acl_stack \<Rightarrow> ('a, 'a) acl_iter" where
  "stack_iter_next it s = (let i = it_i it + 1;
     p = (if i \<ge> int (st_count s) then None else the (st_items s) ! nat i)
     in it\<lparr>it_i := i, it_ptr := p, it_data := p\<rparr>)"

definition stack_iter_tail :: "('a, 'a) acl_iter \<Rightarrow> 'a acl_stack \<Rightarrow> ('a, 'a) acl_iter" where
  "stack_iter_tail it s = (let i = int (st_count s) - 1;
     p = (case st_items s of None \<Rightarrow> None | Some xs \<Rightarrow> if i < 0 then None else xs ! nat i)
     in it\<lparr>it_dlen := -1, it_key := None, it_klen := -1, it_i := i, it_size := int (st_count s), it_ptr := p, it_data := p\<rparr>)"

definition stack_iter_prev :: "('a, 'a) acl_iter \<Rightarrow> 'a acl_stack \<Rightarrow> ('a, 'a) acl_iter" where
  "stack_iter_prev it s = (let i = it_i it - 1; p = (if i < 0 then None else the (st_items s) ! nat i)
     in it\<lparr>it_i := i, it_ptr := p, it_data := p\<rparr>)"

section \<open>The stack as the array\<close>

text \<open>A stack whose \<open>items\<close> is not NULL is an array, and its operations are the array's on it.\<close>

definition stack_of :: "'a acl_array \<Rightarrow> 'a acl_stack" where
  "stack_of a = \<lparr>st_capacity = arr_capacity a, st_count = arr_count a, st_items = Some (arr_items a)\<rparr>"

lemma stack_okE:
  assumes "stack_ok s"
  obtains a where "s = stack_of a" "array_full a"
proof -
  from assms obtain xs where xs: "st_items s = Some xs" "length xs = st_capacity s" "st_count s \<le> st_capacity s"
    "\<forall>i < st_count s. xs ! i \<noteq> None" by (auto simp: stack_ok_def)
  let ?a = "\<lparr>arr_items = xs, arr_count = st_count s, arr_capacity = st_capacity s\<rparr>"
  have "array_full ?a" using xs by (auto simp: array_full_def array_ok_def array_seq_def in_set_conv_nth)
  with xs(1) show thesis by (intro that [of ?a]) (simp_all add: stack_of_def)
qed

lemma stack_of_ok [simp]: "array_full a \<Longrightarrow> stack_ok (stack_of a)"
  using array_full_nth [of a] by (auto simp: stack_ok_def stack_of_def array_full_def array_ok_def)

lemma stack_of_seq [simp]: "stack_seq (stack_of a) = array_objs a"
  by (simp add: stack_seq_def stack_of_def array_objs_def array_seq_def)

lemma stack_grow_of [simp]: "stack_grow (stack_of a) n = stack_of (acl_array_grow a n)"
  by (auto simp: stack_grow_def stack_of_def acl_array_grow_def Let_def)

lemma stack_append_of [simp]: "acl_stack_append (stack_of a) (Some x) = Some (stack_of (array_push_back a (Some x)))"
  by (auto simp: acl_stack_append_def array_push_back_def acl_array_append_def Let_def) (auto simp: stack_of_def)

lemma stack_pop_of [simp]: "acl_stack_pop (stack_of a) = Some (map_prod id stack_of (array_pop_back a))"
  by (auto simp: acl_stack_pop_def array_pop_back_def stack_of_def Let_def)

lemma stack_pop_front_of [simp]: "stack_pop_front (stack_of a) = Some (map_prod id stack_of (array_pop_front a))"
  by (auto simp: stack_pop_front_def array_pop_front_def stack_of_def Let_def)

text \<open>On a stack whose \<open>items\<close> is not NULL no operation dereferences NULL, and each does to the
  sequence what its name says.\<close>

lemma stack_append:
  assumes "stack_ok s"
  obtains t where "acl_stack_append s (Some x) = Some t" "stack_ok t" "stack_seq t = stack_seq s @ [x]"
proof -
  from assms obtain a where a: "s = stack_of a" "array_full a" by (rule stack_okE)
  show thesis
    by (rule that [of "stack_of (array_push_back a (Some x))"])
      (use a array_queue.push_back_wf [of a x] array_queue.push_back_seq [of a x] in \<open>auto simp: list_push_back_def\<close>)
qed

lemma stack_prepend:
  assumes "stack_ok s"
  obtains t where "acl_stack_prepend s (Some x) = Some t" "stack_ok t" "stack_seq t = x # stack_seq s"
proof -
  from assms obtain a where a: "s = stack_of a" "array_full a" by (rule stack_okE)
  let ?b = "array_room a 1"
  note room = array_room_facts [OF array_full_ok [OF a(2)], of 1]
  define c where "c = ?b\<lparr>arr_items := (shift_up 0 (arr_count a) (arr_items ?b))[0 := Some x], arr_count := Suc (arr_count a)\<rparr>"
  have "acl_stack_prepend s (Some x) = Some (stack_of c)"
    unfolding a(1) c_def using room(2)
    by (auto simp: acl_stack_prepend_def Let_def) (auto simp: stack_of_def stack_grow_of [unfolded stack_of_def])
  moreover have c: "array_seq c = Some x # array_seq a" "array_ok c"
    using room by (simp_all add: c_def array_seq_def shift_up_insert array_ok_def split del: if_split)
  then have "array_full c" "array_objs c = x # array_objs a"
    using a(2) by (simp_all add: array_full_def array_objs_def)
  ultimately show thesis using that [of "stack_of c"] a(1) by simp
qed

lemma stack_delete:
  assumes "stack_ok s" "0 \<le> position" "position < int (st_count s)"
  obtains t where "acl_stack_delete s position free_fn
      = Some (if free_fn then [stack_seq s ! nat position] else [], t)" "stack_ok t"
    "stack_seq t = take (nat position) (stack_seq s) @ drop (Suc (nat position)) (stack_seq s)"
proof -
  from assms(1) obtain a where a: "s = stack_of a" "array_full a" by (rule stack_okE)
  let ?d = "acl_array_delete_idx a position free_fn"
  have n: "nat position < arr_count a" using assms a by (auto simp: stack_of_def)
  have "acl_stack_delete s position free_fn
      = Some (if free_fn then [stack_seq s ! nat position] else [], stack_of (snd (snd ?d)))"
    using assms(2,3) a(1) array_full_nth [OF a(2) n]
    by (auto simp: acl_stack_delete_def acl_array_delete_idx_def Let_def freed_def)
      (auto simp: stack_of_def stack_of_seq [unfolded stack_of_def] freed_def)
  with that [of "stack_of (snd (snd ?d))"] show thesis
    using array_delete_idx_objs [OF a(2), of "nat position" free_fn] n a assms(2) by simp
qed

lemma stack_pop:
  assumes "stack_ok s"
  obtains t where "acl_stack_pop s = Some (fst (list_pop_back (stack_seq s)), t)" "stack_ok t"
    "stack_seq t = snd (list_pop_back (stack_seq s))"
proof -
  from assms obtain a where a: "s = stack_of a" "array_full a" by (rule stack_okE)
  with array_queue.pop_back_wf [OF a(2)] array_queue.pop_back_seq [OF a(2)]
  show thesis by (intro that [of "stack_of (snd (array_pop_back a))"]) (auto simp: map_prod_def split_beta prod_eq_iff)
qed

lemma stack_pop_first:
  assumes "stack_ok s"
  obtains t where "stack_pop_front s = Some (fst (list_pop_front (stack_seq s)), t)" "stack_ok t"
    "stack_seq t = snd (list_pop_front (stack_seq s))"
proof -
  from assms obtain a where a: "s = stack_of a" "array_full a" by (rule stack_okE)
  with array_queue.pop_front_wf [OF a(2)] array_queue.pop_front_seq [OF a(2)]
  show thesis by (intro that [of "stack_of (snd (array_pop_front a))"]) (auto simp: map_prod_def split_beta prod_eq_iff)
qed

lemma stack_items:
  "stack_ok s \<Longrightarrow> length (stack_seq s) = st_count s \<and> st_items s \<noteq> None \<and>
     (\<forall>n < st_count s. the (st_items s) ! n = Some (stack_seq s ! n))"
  by (auto simp: stack_ok_def stack_seq_def)

lemma stack_top:
  assumes "stack_ok s"
  shows "acl_stack_top s = Some (if stack_seq s = [] then None else Some (last (stack_seq s)))"
proof (cases "st_count s")
  case (Suc n)
  with stack_items [OF assms] have "stack_seq s \<noteq> []" by auto
  with Suc stack_items [OF assms] show ?thesis by (auto simp: acl_stack_top_def last_conv_nth)
qed (use stack_items [OF assms] in \<open>simp add: acl_stack_top_def\<close>)

lemma stack_index:
  assumes "stack_ok s"
  shows "acl_stack_index s i
     = Some (if 0 \<le> i \<and> i < int (length (stack_seq s)) then Some (stack_seq s ! nat i) else None)"
  using stack_items [OF assms] by (auto simp: acl_stack_index_def nat_less_iff)

lemma stack_create:
  "stack_ok (acl_stack_create n) \<and> stack_seq (acl_stack_create n) = []"
  by (auto simp: stack_ok_def stack_seq_def acl_stack_create_def acl_stack_space_def stack_grow_def Let_def)

section \<open>The interfaces\<close>

interpretation stack_deque: deque "\<lambda>s x. the (stack_push_back s (Some x))" "\<lambda>s. the (stack_pop_back s)"
  "\<lambda>s. the (stack_pop_front s)" stack_seq stack_ok "\<lambda>s x. the (stack_push_front s (Some x))"
proof unfold_locales
  fix s :: "'a acl_stack" and x :: 'a
  assume ok: "stack_ok s"
  obtain t where "acl_stack_append s (Some x) = Some t" "stack_ok t" "stack_seq t = stack_seq s @ [x]"
    using ok by (rule stack_append)
  then show "stack_ok (the (stack_push_back s (Some x)))"
    "stack_seq (the (stack_push_back s (Some x))) = list_push_back (stack_seq s) x"
    by (simp_all add: stack_push_back_def list_push_back_def)
  obtain t where "acl_stack_prepend s (Some x) = Some t" "stack_ok t" "stack_seq t = x # stack_seq s"
    using ok by (rule stack_prepend)
  then show "stack_ok (the (stack_push_front s (Some x)))"
    "stack_seq (the (stack_push_front s (Some x))) = list_push_front (stack_seq s) x"
    by (simp_all add: stack_push_front_def list_push_front_def)
  obtain t where "acl_stack_pop s = Some (fst (list_pop_back (stack_seq s)), t)" "stack_ok t"
    "stack_seq t = snd (list_pop_back (stack_seq s))"
    using ok by (rule stack_pop)
  then show "stack_ok (snd (the (stack_pop_back s)))"
    "map_prod id stack_seq (the (stack_pop_back s)) = list_pop_back (stack_seq s)"
    by (simp_all add: stack_pop_back_def)
  obtain t where "stack_pop_front s = Some (fst (list_pop_front (stack_seq s)), t)" "stack_ok t"
    "stack_seq t = snd (list_pop_front (stack_seq s))"
    using ok by (rule stack_pop_first)
  then show "stack_ok (snd (the (stack_pop_front s)))"
    "map_prod id stack_seq (the (stack_pop_front s)) = list_pop_front (stack_seq s)"
    by simp_all
qed

definition stack_iter_at :: "'a acl_stack \<Rightarrow> nat \<Rightarrow> ('a, 'a) acl_iter \<Rightarrow> bool" where
  "stack_iter_at s n it \<longleftrightarrow>
     it_i it = int n \<and> it_ptr it = (if n < st_count s then the (st_items s) ! n else None)"

definition stack_riter_at :: "'a acl_stack \<Rightarrow> nat \<Rightarrow> ('a, 'a) acl_iter \<Rightarrow> bool" where
  "stack_riter_at s n it \<longleftrightarrow> it_i it = int (st_count s) - 1 - int n \<and>
     it_ptr it = (if n < st_count s then the (st_items s) ! (st_count s - 1 - n) else None)"

interpretation stack_iter: iteration stack_iter_head stack_iter_next stack_seq stack_ok stack_iter_at
  by unfold_locales
    (auto simp: stack_iter_head_def stack_iter_next_def stack_iter_at_def Let_def nat_add_distrib
      dest: stack_items)

interpretation stack_riter: iteration stack_iter_tail stack_iter_prev "\<lambda>s. rev (stack_seq s)" stack_ok stack_riter_at
  by unfold_locales
    (auto simp: stack_iter_tail_def stack_iter_prev_def stack_riter_at_def Let_def nat_diff_distrib rev_nth
      dest: stack_items intro!: arg_cong [where f = "nth _"])

section \<open>Properties\<close>

text \<open>The stack's function pointers implement a double-ended list: on a fresh stack, whatever its
  initial size, every run of \<open>push_back\<close>, \<open>push_front\<close>, \<open>pop_back\<close> and \<open>pop_front\<close> returns what the same run
  returns on the empty list.\<close>

theorem stack_runs_as_list:
  "fst (seq_run (\<lambda>s x. the (stack_push_back s (Some x))) (\<lambda>s x. the (stack_push_front s (Some x)))
     (\<lambda>s. the (stack_pop_back s)) (\<lambda>s. the (stack_pop_front s)) (acl_stack_create n) ops) = fst (list_run [] ops)"
  using stack_deque.run_refines [of "acl_stack_create n" ops] stack_create [of n]
  by (metis fst_conv surj_pair)

text \<open>\<open>acl_stack_clean\<close> releases the cells and forgets how many there were: it leaves the capacity as it
  was, so the next \<open>acl_stack_append\<close> does not allocate and stores through NULL.\<close>

theorem stack_append_after_clean_faults:
  assumes "stack_ok s" "0 < st_capacity s" "acl_stack_clean s fr = Some (fs, t)"
  shows "acl_stack_append t (Some x) = None"
  using assms by (auto simp: acl_stack_clean_def acl_stack_append_def split: if_splits bind_splits)

theorem stack_append_after_clean_faults_witness:
  "\<exists>fs t. acl_stack_clean (acl_stack_create 4 :: nat acl_stack) True = Some (fs, t) \<and>
     acl_stack_append t (Some 1) = None"
proof -
  have "acl_stack_clean (acl_stack_create 4 :: nat acl_stack) True
      = Some ([], \<lparr>st_capacity = 16, st_count = 0, st_items = None\<rparr>)"
    by (simp add: acl_stack_clean_def acl_stack_create_def acl_stack_space_def stack_grow_def)
  moreover have "0 < st_capacity (acl_stack_create 4 :: nat acl_stack)"
    by (simp add: acl_stack_create_def acl_stack_space_def stack_grow_def)
  ultimately show ?thesis
    using stack_append_after_clean_faults [of "acl_stack_create 4" True "[]" _ 1] stack_create [of 4] by blast
qed

end
