(* ===== verification/Acl_Ypipe.thy ===== *)
theory Acl_Ypipe
  imports Acl_Heap
begin

text \<open>
  \<^verbatim>\<open>acllib/src/stdlib/common/acl_yqueue.c\<close> and \<^verbatim>\<open>acl_ypipe.c\<close>: the pipe through which one thread
  hands pointers to another without a lock. The queue is a chain of chunks of ten cells; its
  front belongs to the reader, its back to the writer. What the two share are the cells behind
  the front and before the flush mark, the spare chunk that the reader gives back, and the
  atomic word \<open>c\<close>: the flush mark, or NULL when the reader has found the pipe empty.

  A pointer to a cell is its chunk's address and the index in it. The atomic operations
  (\<open>acl_atomic_xchg\<close>, \<open>acl_atomic_cas\<close>, \<open>acl_atomic_set\<close>) are single steps; \<open>acl_ypipe_flush\<close>,
  which has two of them on \<open>c\<close>, is cut between them, so that the reader can run there. The
  counters \<open>pushs\<close>, \<open>pops\<close>, \<open>reads\<close> and \<open>writes\<close> are only counted.

  \<open>pipe_run\<close> is any interleaving of the two threads. It is shown never to touch a freed chunk,
  and to give what the same steps give on two lists: the flushed data and the data not flushed.
\<close>

section \<open>The queue\<close>

definition CHUNK_SIZE :: nat where "CHUNK_SIZE = 10"

type_synonym 'a chunk_mem = "'a option list mem"
type_synonym cell_ptr = "addr \<times> nat"

record yqueue =
  yq_begin_chunk :: addr
  yq_begin_pos :: nat
  yq_back_chunk :: "addr option"
  yq_back_pos :: nat
  yq_end_chunk :: addr
  yq_end_pos :: nat
  yq_pushs :: u64
  yq_pops :: u64
  yq_spare_chunk :: "addr option"

definition blank_cells :: "'a option list" where
  "blank_cells = replicate CHUNK_SIZE None"

definition ld_cell :: "'a chunk_mem \<Rightarrow> cell_ptr \<Rightarrow> 'a option option" where
  "ld_cell m p = do {
     nd \<leftarrow> ld m (fst p);
     if snd p < length (nd_data nd) then Some (nd_data nd ! snd p) else None }"

definition set_cell :: "'a chunk_mem \<Rightarrow> cell_ptr \<Rightarrow> 'a option \<Rightarrow> 'a chunk_mem option" where
  "set_cell m p v = do {
     nd \<leftarrow> ld m (fst p);
     if snd p < length (nd_data nd)
     then Some (m\<lparr>cells := (cells m)(fst p \<mapsto> nd\<lparr>nd_data := (nd_data nd)[snd p := v]\<rparr>)\<rparr>)
     else None }"

definition acl_yqueue_new :: "'a chunk_mem \<Rightarrow> yqueue \<times> 'a chunk_mem" where
  "acl_yqueue_new m = (case node_alloc m blank_cells of (chunk, m) \<Rightarrow>
     (\<lparr>yq_begin_chunk = chunk, yq_begin_pos = 0, yq_back_chunk = None, yq_back_pos = 0,
       yq_end_chunk = chunk, yq_end_pos = 0, yq_pushs = 0, yq_pops = 0, yq_spare_chunk = None\<rparr>, m))"

definition acl_yqueue_front :: "yqueue \<Rightarrow> cell_ptr" where
  "acl_yqueue_front q = (yq_begin_chunk q, yq_begin_pos q)"

definition acl_yqueue_back :: "yqueue \<Rightarrow> cell_ptr option" where
  "acl_yqueue_back q = map_option (\<lambda>a. (a, yq_back_pos q)) (yq_back_chunk q)"

definition acl_yqueue_push :: "'a chunk_mem \<Rightarrow> yqueue \<Rightarrow> ('a chunk_mem \<times> yqueue) option" where
  "acl_yqueue_push m q = (let
     q = q\<lparr>yq_pushs := yq_pushs q + 1, yq_back_chunk := Some (yq_end_chunk q), yq_back_pos := yq_end_pos q,
           yq_end_pos := Suc (yq_end_pos q)\<rparr>;
     e = yq_end_chunk q
     in if yq_end_pos q \<noteq> CHUNK_SIZE then Some (m, q)
     else do {
       m \<leftarrow> (case yq_spare_chunk q of
          Some sc \<Rightarrow> do { m \<leftarrow> set_next m e (Some sc); set_prev m sc (Some e) }
        | None \<Rightarrow> (case node_alloc m blank_cells of (sc, m) \<Rightarrow>
            do { m \<leftarrow> set_next m e (Some sc); set_prev m sc (Some e) }));
       nd \<leftarrow> ld m e;
       e' \<leftarrow> nd_next nd;
       Some (m, q\<lparr>yq_spare_chunk := None, yq_end_chunk := e', yq_end_pos := 0\<rparr>) })"

definition acl_yqueue_pop :: "'a chunk_mem \<Rightarrow> yqueue \<Rightarrow> ('a chunk_mem \<times> yqueue) option" where
  "acl_yqueue_pop m q = (let
     q = q\<lparr>yq_begin_pos := Suc (yq_begin_pos q), yq_pops := yq_pops q + 1\<rparr>
     in if yq_begin_pos q \<noteq> CHUNK_SIZE then Some (m, q)
     else do {
       let o' = yq_begin_chunk q;
       nd \<leftarrow> ld m o';
       b \<leftarrow> nd_next nd;
       m \<leftarrow> set_prev m b None;
       let m = m\<lparr>cells := (cells m)(o' \<mapsto> \<lparr>nd_data = blank_cells, nd_prev = None, nd_next = None\<rparr>)\<rparr>;
       m \<leftarrow> (case yq_spare_chunk q of None \<Rightarrow> Some m | Some cs \<Rightarrow> node_free m cs);
       Some (m, q\<lparr>yq_begin_chunk := b, yq_begin_pos := 0, yq_spare_chunk := Some o'\<rparr>) })"

text \<open>The clean-up. \<open>chunk_data_free\<close> gives the data passed to \<open>free_fn\<close>; without \<open>free_fn\<close>, the
  pipe's chunks alone are freed.\<close>

definition chunk_data_free :: "'a chunk_mem \<Rightarrow> addr \<Rightarrow> nat \<Rightarrow> nat \<Rightarrow> 'a list option" where
  "chunk_data_free m chunk b e = do {
     nd \<leftarrow> ld m chunk;
     if e < length (nd_data nd) then Some (List.map_filter (\<lambda>i. nd_data nd ! i) [b..<Suc e]) else None }"

fun free_data_loop :: "nat \<Rightarrow> 'a chunk_mem \<Rightarrow> addr \<Rightarrow> addr \<Rightarrow> nat \<Rightarrow> 'a list option" where
  "free_data_loop 0 m begin_chunk end_chunk begin_pos = None"
| "free_data_loop (Suc fuel) m begin_chunk end_chunk begin_pos =
     (if begin_chunk = end_chunk then Some []
      else do {
        vs \<leftarrow> chunk_data_free m begin_chunk begin_pos (CHUNK_SIZE - 1);
        nd \<leftarrow> ld m begin_chunk;
        nx \<leftarrow> nd_next nd;
        vs' \<leftarrow> free_data_loop fuel m nx end_chunk 0;
        Some (vs @ vs') })"

fun free_chunk_loop :: "nat \<Rightarrow> 'a chunk_mem \<Rightarrow> addr \<Rightarrow> addr \<Rightarrow> 'a chunk_mem option" where
  "free_chunk_loop 0 m begin_chunk end_chunk = None"
| "free_chunk_loop (Suc fuel) m begin_chunk end_chunk =
     (if begin_chunk = end_chunk then node_free m begin_chunk
      else do {
        nd \<leftarrow> ld m begin_chunk;
        nx \<leftarrow> nd_next nd;
        m \<leftarrow> node_free m begin_chunk;
        free_chunk_loop fuel m nx end_chunk })"

definition yqueue_free_data :: "nat \<Rightarrow> 'a chunk_mem \<Rightarrow> yqueue \<Rightarrow> 'a list option" where
  "yqueue_free_data fuel m q = do {
     bc \<leftarrow> yq_back_chunk q;
     if yq_begin_chunk q = bc then chunk_data_free m bc (yq_begin_pos q) (yq_back_pos q)
     else do {
       vs \<leftarrow> free_data_loop fuel m (yq_begin_chunk q) bc (yq_begin_pos q);
       vs' \<leftarrow> chunk_data_free m bc 0 (yq_back_pos q);
       Some (vs @ vs') } }"

definition acl_yqueue_free ::
  "nat \<Rightarrow> 'a chunk_mem \<Rightarrow> yqueue \<Rightarrow> bool \<Rightarrow> ('a list \<times> 'a chunk_mem) option"
where
  "acl_yqueue_free fuel m q free_fn = do {
     vs \<leftarrow> (if free_fn then yqueue_free_data fuel m q else Some []);
     m \<leftarrow> free_chunk_loop fuel m (yq_begin_chunk q) (yq_end_chunk q);
     m \<leftarrow> (case yq_spare_chunk q of None \<Rightarrow> Some m | Some cs \<Rightarrow> node_free m cs);
     Some (vs, m) }"

section \<open>The pipe\<close>

record ypipe =
  yp_queue :: yqueue
  yp_w :: "cell_ptr option"
  yp_r :: "cell_ptr option"
  yp_f :: "cell_ptr option"
  yp_c :: "cell_ptr option"
  yp_reads :: u64
  yp_writes :: u64

definition acl_ypipe_new :: "'a chunk_mem \<Rightarrow> ('a chunk_mem \<times> ypipe) option" where
  "acl_ypipe_new m = (case acl_yqueue_new m of (q, m) \<Rightarrow> do {
     (m, q) \<leftarrow> acl_yqueue_push m q;
     let item = acl_yqueue_back q;
     Some (m, \<lparr>yp_queue = q, yp_w = item, yp_r = item, yp_f = item, yp_c = item,
       yp_reads = 0, yp_writes = 0\<rparr>) })"

definition acl_ypipe_free :: "nat \<Rightarrow> 'a chunk_mem \<Rightarrow> ypipe \<Rightarrow> bool \<Rightarrow> ('a list \<times> 'a chunk_mem) option" where
  "acl_ypipe_free fuel m p free_fn = acl_yqueue_free fuel m (yp_queue p) free_fn"

definition acl_ypipe_write :: "'a chunk_mem \<Rightarrow> ypipe \<Rightarrow> 'a option \<Rightarrow> ('a chunk_mem \<times> ypipe) option" where
  "acl_ypipe_write m p data = do {
     b \<leftarrow> acl_yqueue_back (yp_queue p);
     m \<leftarrow> set_cell m b data;
     (m, q) \<leftarrow> acl_yqueue_push m (yp_queue p);
     Some (m, p\<lparr>yp_queue := q, yp_f := acl_yqueue_back q, yp_writes := yp_writes p + 1\<rparr>) }"

text \<open>\<open>acl_atomic_cas\<close>: the value before, and the word after.\<close>

definition atomic_cas :: "'p option \<Rightarrow> 'p option \<Rightarrow> 'p option \<Rightarrow> 'p option \<times> 'p option" where
  "atomic_cas c old new = (c, if c = old then new else c)"

text \<open>The first part of \<open>acl_ypipe_flush\<close> gives its result, or \<open>None\<close> when it goes on to the
  second.\<close>

definition ypipe_flush_cas :: "ypipe \<Rightarrow> int option \<times> ypipe" where
  "ypipe_flush_cas p =
     (if yp_w p = yp_f p then (Some 0, p)
      else (case atomic_cas (yp_c p) (yp_w p) (yp_f p) of (old, c) \<Rightarrow>
        if old \<noteq> yp_w p then (None, p\<lparr>yp_c := c\<rparr>)
        else (Some 0, p\<lparr>yp_c := c, yp_w := yp_f p\<rparr>)))"

definition ypipe_flush_set :: "ypipe \<Rightarrow> int \<times> ypipe" where
  "ypipe_flush_set p = (1, p\<lparr>yp_c := yp_f p, yp_w := yp_f p\<rparr>)"

definition acl_ypipe_flush :: "ypipe \<Rightarrow> int \<times> ypipe" where
  "acl_ypipe_flush p = (case ypipe_flush_cas p of
     (Some r, p) \<Rightarrow> (r, p) | (None, p) \<Rightarrow> ypipe_flush_set p)"

definition acl_ypipe_check_read :: "'a chunk_mem \<Rightarrow> ypipe \<Rightarrow> (bool \<times> ypipe) option" where
  "acl_ypipe_check_read m p = do {
     let front = Some (acl_yqueue_front (yp_queue p));
     ahead \<leftarrow> (case yp_r p of
        None \<Rightarrow> Some False
      | Some r \<Rightarrow> if front = Some r then Some False else map_option (\<lambda>v. v \<noteq> None) (ld_cell m r));
     if ahead then Some (True, p)
     else (case atomic_cas (yp_c p) front None of (old, c) \<Rightarrow>
       Some (\<not> (front = old \<or> old = None), p\<lparr>yp_c := c, yp_r := old\<rparr>)) }"

text \<open>The flag tells NULL for an empty pipe from a NULL that was written; the code returns NULL
  for both.\<close>

definition acl_ypipe_read ::
  "'a chunk_mem \<Rightarrow> ypipe \<Rightarrow> (bool \<times> 'a option \<times> 'a chunk_mem \<times> ypipe) option"
where
  "acl_ypipe_read m p = do {
     (ok, p) \<leftarrow> acl_ypipe_check_read m p;
     if \<not> ok then Some (False, None, m, p)
     else do {
       v \<leftarrow> ld_cell m (acl_yqueue_front (yp_queue p));
       (m, q) \<leftarrow> acl_yqueue_pop m (yp_queue p);
       Some (True, v, m, p\<lparr>yp_queue := q, yp_reads := yp_reads p + 1\<rparr>) } }"

section \<open>Two threads\<close>

text \<open>The schedule: a step of the writer (write, the two parts of flush) or of the reader. A step
  that the writer's program counter does not allow leaves everything as it is.\<close>

datatype 'a pipe_step = YWrite "'a option" | YFlushCas | YFlushSet | YRead

datatype 'a pipe_res = Skipped | Written | Flushing | Flushed int | Empty | Got "'a option"

fun pipe_exec ::
  "'a pipe_step \<Rightarrow> 'a chunk_mem \<times> ypipe \<times> bool \<Rightarrow> ('a pipe_res \<times> 'a chunk_mem \<times> ypipe \<times> bool) option"
where
  "pipe_exec (YWrite x) (m, p, waiting) =
     (if waiting then Some (Skipped, m, p, waiting)
      else map_option (\<lambda>(m, p). (Written, m, p, False)) (acl_ypipe_write m p x))"
| "pipe_exec YFlushCas (m, p, waiting) =
     (if waiting then Some (Skipped, m, p, waiting)
      else (case ypipe_flush_cas p of
        (Some r, p) \<Rightarrow> Some (Flushed r, m, p, False) | (None, p) \<Rightarrow> Some (Flushing, m, p, True)))"
| "pipe_exec YFlushSet (m, p, waiting) =
     (if \<not> waiting then Some (Skipped, m, p, waiting)
      else (case ypipe_flush_set p of (r, p) \<Rightarrow> Some (Flushed r, m, p, False)))"
| "pipe_exec YRead (m, p, waiting) =
     map_option (\<lambda>(ok, v, m, p). (if ok then Got v else Empty, m, p, waiting)) (acl_ypipe_read m p)"

fun pipe_run ::
  "'a pipe_step list \<Rightarrow> 'a chunk_mem \<times> ypipe \<times> bool \<Rightarrow>
   ('a pipe_res list \<times> 'a chunk_mem \<times> ypipe \<times> bool) option"
where
  "pipe_run [] st = Some ([], st)"
| "pipe_run (s # ss) st = do {
     (r, st) \<leftarrow> pipe_exec s st;
     (rs, st) \<leftarrow> pipe_run ss st;
     Some (r # rs, st) }"

text \<open>The specification: what has been flushed and not read, what has not been flushed, whether
  the reader has found the pipe empty since the last flush, and whether a flush is between its
  two parts.\<close>

record 'a pipe_spec =
  ps_flushed :: "'a option list"
  ps_pending :: "'a option list"
  ps_asleep :: bool
  ps_waiting :: bool

fun spec_exec :: "'a pipe_step \<Rightarrow> 'a pipe_spec \<Rightarrow> 'a pipe_res \<times> 'a pipe_spec" where
  "spec_exec (YWrite x) a =
     (if ps_waiting a then (Skipped, a) else (Written, a\<lparr>ps_pending := ps_pending a @ [x]\<rparr>))"
| "spec_exec YFlushCas a =
     (if ps_waiting a then (Skipped, a)
      else if ps_pending a = [] then (Flushed 0, a)
      else if ps_asleep a then (Flushing, a\<lparr>ps_waiting := True\<rparr>)
      else (Flushed 0, a\<lparr>ps_flushed := ps_flushed a @ ps_pending a, ps_pending := []\<rparr>))"
| "spec_exec YFlushSet a =
     (if \<not> ps_waiting a then (Skipped, a)
      else (Flushed 1, a\<lparr>ps_flushed := ps_flushed a @ ps_pending a, ps_pending := [],
              ps_asleep := False, ps_waiting := False\<rparr>))"
| "spec_exec YRead a =
     (case ps_flushed a of
        [] \<Rightarrow> (Empty, a\<lparr>ps_asleep := True\<rparr>)
      | x # xs \<Rightarrow> (Got x, a\<lparr>ps_flushed := xs\<rparr>))"

fun spec_run :: "'a pipe_step list \<Rightarrow> 'a pipe_spec \<Rightarrow> 'a pipe_res list \<times> 'a pipe_spec" where
  "spec_run [] a = ([], a)"
| "spec_run (s # ss) a =
     (case spec_exec s a of (r, a) \<Rightarrow> (case spec_run ss a of (rs, a) \<Rightarrow> (r # rs, a)))"

definition spec_new :: "'a pipe_spec" where
  "spec_new = \<lparr>ps_flushed = [], ps_pending = [], ps_asleep = False, ps_waiting = False\<rparr>"

section \<open>The chain of chunks\<close>

text \<open>The chunks at the addresses \<open>cs\<close> hold the cells \<open>ds\<close>. Cells are numbered along the chain.\<close>

definition chain :: "'a option list heap \<Rightarrow> addr list \<Rightarrow> 'a option list list \<Rightarrow> bool" where
  "chain h cs ds \<longleftrightarrow> length ds = length cs \<and> distinct cs \<and> (\<forall>j < length cs. length (ds ! j) = 10 \<and>
     (\<exists>p. h (cs ! j) = Some \<lparr>nd_data = ds ! j, nd_prev = p,
        nd_next = if Suc j < length cs then Some (cs ! Suc j) else None\<rparr>))"

definition ptr :: "addr list \<Rightarrow> nat \<Rightarrow> cell_ptr" where
  "ptr cs i = (cs ! (i div 10), i mod 10)"

definition cell :: "'a option list list \<Rightarrow> nat \<Rightarrow> 'a option" where
  "cell ds i = ds ! (i div 10) ! (i mod 10)"

lemma div_less: "i < 10 * length cs \<Longrightarrow> i div 10 < length cs"
  by (simp add: less_mult_imp_div_less mult.commute)

lemma ptr_inj:
  assumes "distinct cs" "i < 10 * length cs" "j < 10 * length cs"
  shows "ptr cs i = ptr cs j \<longleftrightarrow> i = j"
proof
  assume "ptr cs i = ptr cs j"
  then have "i div 10 = j div 10" "i mod 10 = j mod 10"
    using assms by (auto simp: ptr_def nth_eq_iff_index_eq div_less)
  then show "i = j" by (metis div_mult_mod_eq)
qed simp

lemma ptr_tl: "10 \<le> i \<Longrightarrow> cs \<noteq> [] \<Longrightarrow> ptr (tl cs) (i - 10) = ptr cs i"
  by (cases cs) (simp_all add: ptr_def le_div_geq le_mod_geq)

lemma cell_tl: "10 \<le> i \<Longrightarrow> ds \<noteq> [] \<Longrightarrow> cell (tl ds) (i - 10) = cell ds i"
  by (cases ds) (simp_all add: cell_def le_div_geq le_mod_geq)

lemma ptr_append: "i < 10 * length cs \<Longrightarrow> ptr (cs @ cs') i = ptr cs i"
  by (simp add: ptr_def nth_append div_less)

lemma cell_append: "i < 10 * length ds \<Longrightarrow> cell (ds @ ds') i = cell ds i"
  by (simp add: cell_def nth_append div_less)

lemma chain_at:
  assumes "chain h cs ds" "j < length cs"
  obtains p where "h (cs ! j) = Some \<lparr>nd_data = ds ! j, nd_prev = p,
      nd_next = if Suc j < length cs then Some (cs ! Suc j) else None\<rparr>" "length (ds ! j) = 10"
  using assms by (auto simp: chain_def)

lemma ld_cell_chain:
  assumes "chain (cells m) cs ds" "i < 10 * length cs"
  shows "ld_cell m (ptr cs i) = Some (cell ds i)"
  by (rule chain_at [OF assms(1) div_less [OF assms(2)]])
    (simp add: ld_cell_def ptr_def cell_def heap_simps)

text \<open>A store into a cell of the chain.\<close>

lemma set_cell_chain:
  assumes c: "chain (cells m) cs ds" and i: "i < 10 * length cs" and m: "mem_ok m"
  obtains m' ds' where "set_cell m (ptr cs i) v = Some m'" "chain (cells m') cs ds'" "mem_ok m'"
    "\<forall>a. a \<notin> set cs \<longrightarrow> cells m' a = cells m a"
    "\<forall>j < 10 * length cs. cell ds' j = (if j = i then v else cell ds j)"
    "dom (cells m') = dom (cells m)"
proof -
  let ?j = "i div 10"
  have j: "?j < length cs" using i by (rule div_less)
  from c j obtain p where n: "cells m (cs ! ?j) = Some \<lparr>nd_data = ds ! ?j, nd_prev = p,
      nd_next = if Suc ?j < length cs then Some (cs ! Suc ?j) else None\<rparr>" "length (ds ! ?j) = 10"
    by (rule chain_at)
  let ?d = "(ds ! ?j)[i mod 10 := v]"
  let ?m = "m\<lparr>cells := (cells m)(cs ! ?j \<mapsto> \<lparr>nd_data = ?d, nd_prev = p,
      nd_next = if Suc ?j < length cs then Some (cs ! Suc ?j) else None\<rparr>)\<rparr>"
  show ?thesis
  proof (rule that [of ?m "ds[?j := ?d]"])
    show "set_cell m (ptr cs i) v = Some ?m"
      using n by (simp add: set_cell_def ptr_def heap_simps)
    show "chain (cells ?m) cs (ds[?j := ?d])"
      using c j n(2) unfolding chain_def by (auto simp: nth_list_update nth_eq_iff_index_eq)
    show "mem_ok ?m"
      using m n by (auto simp: mem_ok_def)
    show "dom (cells ?m) = dom (cells m)"
      using n by auto
    show "\<forall>a. a \<notin> set cs \<longrightarrow> cells ?m a = cells m a"
      using j by auto
    show "\<forall>q < 10 * length cs. cell (ds[?j := ?d]) q = (if q = i then v else cell ds q)"
    proof (intro allI impI)
      fix q
      have "length ds = length cs" using c by (simp add: chain_def)
      moreover have "q = i \<longleftrightarrow> q div 10 = ?j \<and> q mod 10 = i mod 10"
        by (metis div_mult_mod_eq)
      ultimately show "cell (ds[?j := ?d]) q = (if q = i then v else cell ds q)"
        using j n(2) by (auto simp: cell_def nth_list_update)
    qed
  qed
qed

section \<open>The queue's invariant\<close>

definition spare_ok :: "'a option list heap \<Rightarrow> addr list \<Rightarrow> addr option \<Rightarrow> bool" where
  "spare_ok h cs sc \<longleftrightarrow> (case sc of None \<Rightarrow> True
     | Some s \<Rightarrow> s \<notin> set cs \<and> (\<exists>p. h s = Some \<lparr>nd_data = blank_cells, nd_prev = p, nd_next = None\<rparr>))"

text \<open>The front is cell \<open>b\<close> and the back is cell \<open>k\<close> of the chain.\<close>

definition yqueue_ok ::
  "'a chunk_mem \<Rightarrow> yqueue \<Rightarrow> addr list \<Rightarrow> 'a option list list \<Rightarrow> nat \<Rightarrow> nat \<Rightarrow> bool"
where
  "yqueue_ok m q cs ds b k \<longleftrightarrow>
     chain (cells m) cs ds \<and> mem_ok m \<and> cs \<noteq> [] \<and> b < 10 \<and> b \<le> k \<and>
     yq_begin_chunk q = hd cs \<and> yq_begin_pos q = b \<and>
     yq_end_chunk q = last cs \<and> yq_end_pos q < 10 \<and>
     Suc k = (length cs - 1) * 10 + yq_end_pos q \<and>
     acl_yqueue_back q = Some (ptr cs k) \<and> spare_ok (cells m) cs (yq_spare_chunk q)"

lemma yqueue_ok_D:
  assumes "yqueue_ok m q cs ds b k"
  shows "chain (cells m) cs ds" "mem_ok m" "length ds = length cs" "distinct cs" "k < 10 * length cs"
    "Suc k < 10 * length cs" "b \<le> k" "b < 10" "acl_yqueue_front q = ptr cs b" "acl_yqueue_back q = Some (ptr cs k)"
proof -
  have "cs \<noteq> []" using assms by (simp add: yqueue_ok_def)
  then show "Suc k < 10 * length cs" using assms
    by (cases cs) (auto simp: yqueue_ok_def)
  then show "k < 10 * length cs" by simp
qed (use assms in \<open>auto simp: yqueue_ok_def chain_def acl_yqueue_front_def ptr_def hd_conv_nth\<close>)

text \<open>The chunks are the whole memory, and the cells from number \<open>u\<close> on are NULL.\<close>

definition owns :: "'a chunk_mem \<Rightarrow> yqueue \<Rightarrow> addr list \<Rightarrow> 'a option list list \<Rightarrow> nat \<Rightarrow> bool" where
  "owns m q cs ds u \<longleftrightarrow> dom (cells m) = set cs \<union> set_option (yq_spare_chunk q) \<and>
     (\<forall>j. u \<le> j \<and> j < 10 * length cs \<longrightarrow> cell ds j = None)"

text \<open>A chunk put behind the chain.\<close>

lemma chain_snoc:
  assumes c: "chain h cs ds" and ne: "cs \<noteq> []" and s: "s \<notin> set cs"
    and h: "\<And>a. a \<notin> {last cs, s} \<Longrightarrow> h' a = h a"
    and l: "h' (last cs) = map_option (nd_next_update (\<lambda>_. Some s)) (h (last cs))"
    and n: "h' s = Some \<lparr>nd_data = d, nd_prev = p, nd_next = None\<rparr>" "length d = 10"
  shows "chain h' (cs @ [s]) (ds @ [d])"
proof -
  have len: "length ds = length cs" and dist: "distinct cs" using c by (auto simp: chain_def)
  have "length ((ds @ [d]) ! j) = 10 \<and> (\<exists>p. h' ((cs @ [s]) ! j) = Some \<lparr>nd_data = (ds @ [d]) ! j, nd_prev = p,
      nd_next = if Suc j < length (cs @ [s]) then Some ((cs @ [s]) ! Suc j) else None\<rparr>)"
    if j: "j < length (cs @ [s])" for j
  proof (cases "j = length cs")
    case True
    then show ?thesis using n len by (simp add: nth_append)
  next
    case False
    with j have j: "j < length cs" by simp
    from c j obtain p where e: "h (cs ! j) = Some \<lparr>nd_data = ds ! j, nd_prev = p,
        nd_next = if Suc j < length cs then Some (cs ! Suc j) else None\<rparr>" "length (ds ! j) = 10"
      by (rule chain_at)
    show ?thesis
    proof (cases "Suc j < length cs")
      case True
      then have "cs ! j \<noteq> last cs"
        using dist ne j by (simp add: last_conv_nth nth_eq_iff_index_eq)
      moreover have "cs ! j \<noteq> s" using s j by auto
      ultimately show ?thesis using e h True j len by (simp add: nth_append)
    next
      case False
      then have "j = length cs - 1" using j by simp
      then have "cs ! j = last cs" "Suc j = length cs"
        using j ne by (simp_all add: last_conv_nth)
      then show ?thesis using e l j len by (simp add: nth_append)
    qed
  qed
  then show ?thesis using len dist s by (simp add: chain_def)
qed

lemma spare_ok_upd: "spare_ok h cs sc \<Longrightarrow> (\<And>a. a \<notin> set cs \<Longrightarrow> h' a = h a) \<Longrightarrow> spare_ok h' cs sc"
  by (auto simp: spare_ok_def split: option.splits)

lemma chain_last:
  assumes "chain h cs ds" "cs \<noteq> []"
  obtains p where "h (last cs) = Some \<lparr>nd_data = last ds, nd_prev = p, nd_next = None\<rparr>"
proof -
  have "length cs - 1 < length cs" using assms by simp
  with assms(1) obtain p where "h (cs ! (length cs - 1)) = Some \<lparr>nd_data = ds ! (length cs - 1), nd_prev = p,
      nd_next = if Suc (length cs - 1) < length cs then Some (cs ! Suc (length cs - 1)) else None\<rparr>"
    by (rule chain_at)
  moreover have "length ds = length cs" using assms by (simp add: chain_def)
  moreover from this assms have "ds \<noteq> []" by auto
  ultimately show ?thesis using assms that by (simp add: last_conv_nth)
qed

lemma ptr_last:
  assumes "Suc k = (length cs - 1) * 10 + e" "0 < e" "e \<le> 10" "cs \<noteq> []"
  shows "ptr cs k = (last cs, e - 1)"
proof -
  have k: "k = (length cs - 1) * 10 + (e - 1)" and e: "e - 1 < 10"
    using assms by simp_all
  from e have "k div 10 = length cs - 1" "k mod 10 = e - 1"
    by (simp_all add: k)
  then show ?thesis using assms(4) by (simp add: ptr_def last_conv_nth)
qed

lemma acl_yqueue_push_ok:
  assumes q: "yqueue_ok m q cs ds b k"
  obtains m' q' xs ys where "acl_yqueue_push m q = Some (m', q')"
    "yqueue_ok m' q' (cs @ xs) (ds @ ys) b (Suc k)"
    "owns m q cs ds u \<longrightarrow> owns m' q' (cs @ xs) (ds @ ys) u"
proof (cases "Suc (yq_end_pos q) = CHUNK_SIZE")
  case False
  let ?q = "q\<lparr>yq_pushs := yq_pushs q + 1, yq_back_chunk := Some (yq_end_chunk q), yq_back_pos := yq_end_pos q,
      yq_end_pos := Suc (yq_end_pos q)\<rparr>"
  have "ptr cs (Suc k) = (last cs, yq_end_pos q)"
    using ptr_last [of "Suc k" cs "Suc (yq_end_pos q)"] q by (simp add: yqueue_ok_def)
  then have "yqueue_ok m ?q (cs @ []) (ds @ []) b (Suc k)"
    using q False by (simp add: yqueue_ok_def acl_yqueue_back_def CHUNK_SIZE_def)
  moreover have "owns m q cs ds u \<longrightarrow> owns m ?q (cs @ []) (ds @ []) u"
    by (simp add: owns_def)
  ultimately show ?thesis using False
    by (intro that [of m ?q "[]" "[]"]) (simp_all add: acl_yqueue_push_def)
next
  case True
  note res = that
  have e: "yq_end_chunk q = last cs" and ne: "cs \<noteq> []" and c: "chain (cells m) cs ds" and ok: "mem_ok m"
    and sp: "spare_ok (cells m) cs (yq_spare_chunk q)" and pos: "yq_end_pos q = 9"
    and k: "Suc k = (length cs - 1) * 10 + 9"
    using q True by (auto simp: yqueue_ok_def CHUNK_SIZE_def)
  from c ne obtain p where lst: "cells m (last cs) = Some \<lparr>nd_data = last ds, nd_prev = p, nd_next = None\<rparr>"
    by (rule chain_last)
  have mapped: "cells m a \<noteq> None" if "a \<in> set cs" for a
    using that c unfolding chain_def in_set_conv_nth by force
  have len: "length (blank_cells :: 'a option list) = 10"
    by (simp add: blank_cells_def CHUNK_SIZE_def)
  have fin: thesis
    if s: "s \<notin> set cs" and push: "acl_yqueue_push m q = Some (m', q\<lparr>yq_pushs := yq_pushs q + 1,
        yq_back_chunk := Some (yq_end_chunk q), yq_back_pos := yq_end_pos q, yq_spare_chunk := None,
        yq_end_chunk := s, yq_end_pos := 0\<rparr>)"
      and h: "\<And>a. a \<notin> {last cs, s} \<Longrightarrow> cells m' a = cells m a"
      and l: "cells m' (last cs) = map_option (nd_next_update (\<lambda>_. Some s)) (cells m (last cs))"
      and n: "cells m' s = Some \<lparr>nd_data = blank_cells, nd_prev = Some (last cs), nd_next = None\<rparr>"
      and ok': "mem_ok m'" and d: "dom (cells m') = insert s (dom (cells m))"
      and sub: "set_option (yq_spare_chunk q) \<subseteq> {s}" for s m'
  proof -
    let ?q = "q\<lparr>yq_pushs := yq_pushs q + 1, yq_back_chunk := Some (yq_end_chunk q),
        yq_back_pos := yq_end_pos q, yq_spare_chunk := None, yq_end_chunk := s, yq_end_pos := 0\<rparr>"
    have "owns m' ?q (cs @ [s]) (ds @ [blank_cells]) u" if o: "owns m q cs ds u"
    proof -
      have lens: "length ds = length cs" using c by (simp add: chain_def)
      have "cell (ds @ [blank_cells]) j = None" if j: "u \<le> j" "j < 10 * length (cs @ [s])" for j
      proof (cases "j < 10 * length cs")
        case True
        then show ?thesis using o j lens by (simp add: owns_def cell_append)
      next
        case False
        then have "j div 10 = length ds" using j(2) lens by simp
        then show ?thesis by (simp add: cell_def blank_cells_def CHUNK_SIZE_def)
      qed
      then show ?thesis using o d sub by (auto simp: owns_def)
    qed
    moreover
    have "chain (cells m') (cs @ [s]) (ds @ [blank_cells])"
      by (rule chain_snoc [OF c ne s h l n len])
    moreover have "ptr cs (Suc k) = (last cs, 10 - 1)"
      by (rule ptr_last) (use k ne in simp_all)
    moreover have "Suc k < 10 * length cs" using yqueue_ok_D(6) [OF q] .
    moreover from k ne have "Suc (Suc k) = length cs * 10" by (cases cs) simp_all
    ultimately have "yqueue_ok m' ?q (cs @ [s]) (ds @ [blank_cells]) b (Suc k)"
      "owns m q cs ds u \<longrightarrow> owns m' ?q (cs @ [s]) (ds @ [blank_cells]) u"
      using q ok' pos
      by (simp_all add: yqueue_ok_def acl_yqueue_back_def ptr_append spare_ok_def)
    with push show thesis by (rule res)
  qed
  show ?thesis
  proof (cases "yq_spare_chunk q")
    case (Some s)
    with sp obtain p' where s: "s \<notin> set cs"
      "cells m s = Some \<lparr>nd_data = blank_cells, nd_prev = p', nd_next = None\<rparr>"
      by (auto simp: spare_ok_def)
    have [simp]: "s \<noteq> last cs" "last cs \<noteq> s" using s(1) ne by auto
    show ?thesis
      by (rule fin [OF s(1), of "m\<lparr>cells := (cells m)(last cs \<mapsto> \<lparr>nd_data = last ds, nd_prev = p, nd_next = Some s\<rparr>,
            s \<mapsto> \<lparr>nd_data = blank_cells, nd_prev = Some (last cs), nd_next = None\<rparr>)\<rparr>"])
        (use True Some e lst s ok in \<open>auto simp: acl_yqueue_push_def Let_def heap_simps mem_ok_def\<close>)
  next
    case None
    have s: "brk m \<notin> set cs" using mapped mem_ok_fresh [OF ok] by blast
    have [simp]: "brk m \<noteq> last cs" using s ne by (metis last_in_set)
    then have [simp]: "last cs \<noteq> brk m" by metis
    show ?thesis
      by (rule fin [OF s(1), of "m\<lparr>cells := (cells m)(brk m \<mapsto> \<lparr>nd_data = blank_cells, nd_prev = Some (last cs), nd_next = None\<rparr>,
            last cs \<mapsto> \<lparr>nd_data = last ds, nd_prev = p, nd_next = Some (brk m)\<rparr>), brk := Suc (brk m)\<rparr>"])
        (use True None e lst s ok in \<open>auto simp: acl_yqueue_push_def Let_def heap_simps mem_ok_def node_alloc_def fun_upd_twist less_Suc_eq\<close>)
  qed
qed

text \<open>The chunk in front taken off the chain.\<close>

lemma chain_tl:
  assumes c: "chain h (o' # n # cs) ds"
    and h: "\<And>a. a \<in> set cs \<Longrightarrow> h' a = h a"
    and n: "h' n = map_option (nd_prev_update (\<lambda>_. None)) (h n)"
  shows "chain h' (n # cs) (tl ds)"
proof -
  have len: "length ds = Suc (Suc (length cs))" and dist: "distinct (o' # n # cs)"
    using c by (auto simp: chain_def)
  have "length (tl ds ! j) = 10 \<and> (\<exists>p. h' ((n # cs) ! j) = Some \<lparr>nd_data = tl ds ! j, nd_prev = p,
      nd_next = if Suc j < length (n # cs) then Some ((n # cs) ! Suc j) else None\<rparr>)"
    if j: "j < length (n # cs)" for j
  proof -
    from j have "Suc j < length (o' # n # cs)" by simp
    with c obtain p where e: "h ((o' # n # cs) ! Suc j) = Some \<lparr>nd_data = ds ! Suc j, nd_prev = p,
        nd_next = if Suc (Suc j) < length (o' # n # cs) then Some ((o' # n # cs) ! Suc (Suc j)) else None\<rparr>"
      "length (ds ! Suc j) = 10" by (rule chain_at)
    have "tl ds ! j = ds ! Suc j" using len j by (simp add: nth_tl)
    then show ?thesis
      using e h n j dist by (cases j) auto
  qed
  then show ?thesis using len dist by (simp add: chain_def)
qed

lemma acl_yqueue_pop_ok:
  assumes q: "yqueue_ok m q cs ds b k" and bk: "b < k"
  obtains m' q' cs' ds' d where "acl_yqueue_pop m q = Some (m', q')" "d \<le> Suc b"
    "yqueue_ok m' q' cs' ds' (Suc b - d) (k - d)"
    "\<forall>i \<ge> Suc b. ptr cs' (i - d) = ptr cs i" "\<forall>i \<ge> Suc b. cell ds' (i - d) = cell ds i"
    "\<forall>u \<ge> Suc b. owns m q cs ds u \<longrightarrow> owns m' q' cs' ds' (u - d)"
proof (cases "Suc (yq_begin_pos q) = CHUNK_SIZE")
  case False
  show ?thesis
    by (rule that [of m "q\<lparr>yq_begin_pos := Suc (yq_begin_pos q), yq_pops := yq_pops q + 1\<rparr>" 0 cs ds])
      (use False q bk in \<open>auto simp: acl_yqueue_pop_def yqueue_ok_def CHUNK_SIZE_def acl_yqueue_back_def owns_def\<close>)
next
  case True
  with q have b: "b = 9" by (simp add: yqueue_ok_def CHUNK_SIZE_def)
  have k: "Suc k < 10 * length cs" using yqueue_ok_D(6) [OF q] .
  have kk: "Suc k = (length cs - 1) * 10 + yq_end_pos q" "yq_end_pos q < 10" and c: "chain (cells m) cs ds"
    and ok: "mem_ok m" and beg: "yq_begin_chunk q = hd cs" and sp: "spare_ok (cells m) cs (yq_spare_chunk q)"
    using q by (auto simp: yqueue_ok_def)
  have "1 < length cs" using kk b bk by (cases "length cs - 1") auto
  then obtain o' n cs1 where cs: "cs = o' # n # cs1"
    by (metis One_nat_def length_0_conv length_Cons less_numeral_extra(4) list.exhaust not_one_less_zero)
  have dist: "o' \<noteq> n" "o' \<notin> set cs1" "n \<notin> set cs1" using c cs by (auto simp: chain_def)
  obtain p where o': "cells m o' = Some \<lparr>nd_data = ds ! 0, nd_prev = p, nd_next = Some n\<rparr>"
    by (rule chain_at [OF c, of 0]) (use cs in auto)
  obtain p' nx where n: "cells m n = Some \<lparr>nd_data = ds ! 1, nd_prev = p', nd_next = nx\<rparr>"
    by (rule chain_at [OF c, of 1]) (use cs in auto)
  define h where "h = (cells m)(n \<mapsto> \<lparr>nd_data = ds ! 1, nd_prev = None, nd_next = nx\<rparr>,
      o' \<mapsto> \<lparr>nd_data = blank_cells, nd_prev = None, nd_next = None\<rparr>)"
  define h' where "h' = (case yq_spare_chunk q of None \<Rightarrow> h | Some s \<Rightarrow> h(s := None))"
  let ?q = "q\<lparr>yq_begin_pos := 0, yq_pops := yq_pops q + 1, yq_begin_chunk := n, yq_spare_chunk := Some o'\<rparr>"
  have s: "s \<notin> set cs \<and> h s = cells m s \<and> cells m s \<noteq> None" if "yq_spare_chunk q = Some s" for s
    using sp that cs by (auto simp: spare_ok_def h_def)
  have h': "h' a = h a" if "a \<in> set cs" for a
    using s that by (auto simp: h'_def split: option.splits)
  have pop: "acl_yqueue_pop m q = Some (m\<lparr>cells := h'\<rparr>, ?q)"
  proof (cases "yq_spare_chunk q")
    case None
    then show ?thesis
      using True beg cs o' n dist by (simp add: acl_yqueue_pop_def heap_simps h'_def h_def)
  next
    case (Some s')
    with s [OF Some] obtain nd where "cells m s' = Some nd" "s' \<noteq> o'" "s' \<noteq> n" using cs by auto
    with Some show ?thesis
      using True beg cs o' n dist by (simp add: acl_yqueue_pop_def heap_simps h'_def h_def)
  qed
  have ch: "chain h' (n # cs1) (tl ds)"
    by (rule chain_tl [of "cells m" o']) (use c cs h' n dist in \<open>auto simp: h_def\<close>)
  have ne: "ds \<noteq> []" "cs \<noteq> []" using c cs by (auto simp: chain_def)
  have pt: "ptr (n # cs1) (i - 10) = ptr cs i" if "10 \<le> i" for i
    using ptr_tl [OF that, of cs] cs by simp
  show ?thesis
  proof (rule that [of "m\<lparr>cells := h'\<rparr>" ?q 10 "n # cs1" "tl ds"])
    have "mem_ok (m\<lparr>cells := h'\<rparr>)"
      using ok o' n by (auto simp: mem_ok_def h'_def h_def split: option.splits if_splits)
    moreover have "spare_ok h' (n # cs1) (Some o')"
      using h' [of o'] dist cs by (simp add: spare_ok_def h_def)
    moreover have "length cs = Suc (Suc (length cs1))" using cs by simp
    moreover have "acl_yqueue_back ?q = acl_yqueue_back q" by (simp add: acl_yqueue_back_def)
    moreover have "10 \<le> k" using b bk by simp
    ultimately show "yqueue_ok (m\<lparr>cells := h'\<rparr>) ?q (n # cs1) (tl ds) (Suc b - 10) (k - 10)"
      using q b ch kk pt [of k] cs by (simp add: yqueue_ok_def)
    have "owns (m\<lparr>cells := h'\<rparr>) ?q (n # cs1) (tl ds) (u - 10)" if u: "Suc b \<le> u" and o: "owns m q cs ds u" for u
    proof -
      have "cell (tl ds) j = None" if j: "u - 10 \<le> j" "j < 10 * length (n # cs1)" for j
      proof -
        have "cell (tl ds) (j + 10 - 10) = cell ds (j + 10)" by (rule cell_tl) (use ne in simp_all)
        moreover have "cell ds (j + 10) = None" using o j cs u b by (simp add: owns_def)
        ultimately show ?thesis by simp
      qed
      moreover have "dom h' = set (n # cs1) \<union> {o'}"
        using o cs dist s by (auto simp: owns_def h'_def h_def split: option.splits if_splits)
      ultimately show ?thesis by (simp add: owns_def)
    qed
    then show "\<forall>u \<ge> Suc b. owns m q cs ds u \<longrightarrow> owns (m\<lparr>cells := h'\<rparr>) ?q (n # cs1) (tl ds) (u - 10)" by blast
  qed (use b pop pt cell_tl ne in auto)
qed

section \<open>The pipe refines the two lists\<close>

text \<open>What the words of the pipe are, as numbers of cells: \<open>w\<close> is the flush mark, \<open>f\<close> the back,
  \<open>r\<close> lies between the front and the flush mark.\<close>

definition within :: "addr list \<Rightarrow> nat \<Rightarrow> nat \<Rightarrow> cell_ptr option \<Rightarrow> bool" where
  "within cs b e r \<longleftrightarrow> (\<forall>x. r = Some x \<longrightarrow> x \<in> ptr cs ` {b..e})"

lemma withinI: "b \<le> i \<Longrightarrow> i \<le> e \<Longrightarrow> within cs b e (Some (ptr cs i))"
  by (simp add: within_def)

lemma within_None [simp]: "within cs b e None"
  by (simp add: within_def)

lemma withinE:
  assumes "within cs b e (Some x)"
  obtains i where "b \<le> i" "i \<le> e" "x = ptr cs i"
  using assms by (auto simp: within_def)

lemma within_mono: "within cs b e r \<Longrightarrow> e \<le> e' \<Longrightarrow> within cs b e' r"
  by (force simp: within_def)

definition pipe_rel_at ::
  "'a chunk_mem \<times> ypipe \<times> bool \<Rightarrow> 'a pipe_spec \<Rightarrow> addr list \<Rightarrow> 'a option list list \<Rightarrow> nat \<Rightarrow> nat \<Rightarrow> bool"
where
  "pipe_rel_at st a cs ds b k \<longleftrightarrow> (case st of (m, p, waiting) \<Rightarrow>
     yqueue_ok m (yp_queue p) cs ds b k \<and> owns m (yp_queue p) cs ds k \<and>
     map (cell ds) [b..<k] = ps_flushed a @ ps_pending a \<and>
     yp_w p = Some (ptr cs (b + length (ps_flushed a))) \<and> yp_f p = Some (ptr cs k) \<and>
     yp_c p = (if ps_asleep a then None else yp_w p) \<and>
     within cs b (b + length (ps_flushed a)) (yp_r p) \<and>
     waiting = ps_waiting a \<and> (waiting \<longrightarrow> ps_asleep a) \<and> (ps_asleep a \<longrightarrow> ps_flushed a = []))"

definition pipe_rel :: "'a chunk_mem \<times> ypipe \<times> bool \<Rightarrow> 'a pipe_spec \<Rightarrow> bool" where
  "pipe_rel st a \<longleftrightarrow> (\<exists>cs ds b k. pipe_rel_at st a cs ds b k)"

lemma pipe_relI: "pipe_rel_at st a cs ds b k \<Longrightarrow> pipe_rel st a"
  unfolding pipe_rel_def by blast

lemma pipe_rel_at_D:
  assumes "pipe_rel_at (m, p, wt) a cs ds b k"
  shows "yqueue_ok m (yp_queue p) cs ds b k" "k = b + (length (ps_flushed a) + length (ps_pending a))"
    "map (cell ds) [b..<k] = ps_flushed a @ ps_pending a"
    "yp_w p = Some (ptr cs (b + length (ps_flushed a)))" "yp_f p = Some (ptr cs k)"
    "yp_c p = (if ps_asleep a then None else yp_w p)" "wt = ps_waiting a"
    "ps_asleep a \<Longrightarrow> ps_flushed a = []"
proof -
  have e: "map (cell ds) [b..<k] = ps_flushed a @ ps_pending a" and "b \<le> k"
    using assms by (auto simp: pipe_rel_at_def yqueue_ok_def)
  then show "k = b + (length (ps_flushed a) + length (ps_pending a))"
    by (metis (no_types) add_diff_inverse_nat length_append length_map length_upt not_less)
qed (use assms in \<open>auto simp: pipe_rel_at_def\<close>)

lemma pipe_rel_at_r:
  assumes "pipe_rel_at (m, p, wt) a cs ds b k"
  shows "within cs b (b + (length (ps_flushed a) + length (ps_pending a))) (yp_r p)"
  by (rule within_mono [of _ _ "b + length (ps_flushed a)"]) (use assms in \<open>simp_all add: pipe_rel_at_def\<close>)

lemma pipe_rel_new: "\<exists>m p. acl_ypipe_new mem_empty = Some (m, p) \<and> pipe_rel (m, p, False) spec_new"
proof -
  let ?m = "mem_empty\<lparr>cells := [1 \<mapsto> \<lparr>nd_data = blank_cells, nd_prev = None, nd_next = None\<rparr>], brk := 2\<rparr> :: 'a chunk_mem"
  let ?q = "\<lparr>yq_begin_chunk = 1, yq_begin_pos = 0, yq_back_chunk = Some 1, yq_back_pos = 0,
       yq_end_chunk = 1, yq_end_pos = 1, yq_pushs = 1, yq_pops = 0, yq_spare_chunk = None\<rparr>"
  let ?p = "\<lparr>yp_queue = ?q, yp_w = Some (1, 0), yp_r = Some (1, 0), yp_f = Some (1, 0), yp_c = Some (1, 0),
       yp_reads = 0, yp_writes = 0\<rparr>"
  have "acl_ypipe_new mem_empty = Some (?m, ?p)"
    by (simp add: acl_ypipe_new_def acl_yqueue_new_def node_alloc_def mem_empty_def acl_yqueue_push_def
        Let_def CHUNK_SIZE_def acl_yqueue_back_def)
  moreover have "pipe_rel_at (?m, ?p, False) spec_new [1] [blank_cells] 0 0"
    using withinI [of 0 0 0 "[1]"]
    by (auto simp: pipe_rel_at_def spec_new_def yqueue_ok_def chain_def mem_ok_def mem_empty_def ptr_def
        acl_yqueue_back_def spare_ok_def blank_cells_def CHUNK_SIZE_def owns_def cell_def)
  ultimately show ?thesis unfolding pipe_rel_def by blast
qed

lemma write_refines:
  assumes R: "pipe_rel_at (m, p, False) a cs ds b k"
  shows "\<exists>m' p'. acl_ypipe_write m p x = Some (m', p') \<and>
    pipe_rel (m', p', False) (a\<lparr>ps_pending := ps_pending a @ [x]\<rparr>)"
proof -
  note D = pipe_rel_at_D [OF R]
  note Q = yqueue_ok_D [OF D(1)]
  obtain m1 ds1 where set: "set_cell m (ptr cs k) x = Some m1" and c1: "chain (cells m1) cs ds1"
    and ok1: "mem_ok m1" and out: "\<forall>a. a \<notin> set cs \<longrightarrow> cells m1 a = cells m a"
    and val: "\<forall>j < 10 * length cs. cell ds1 j = (if j = k then x else cell ds j)"
    and d1: "dom (cells m1) = dom (cells m)"
    by (rule set_cell_chain [OF Q(1,5,2), where v = x])
  have "yqueue_ok m1 (yp_queue p) cs ds1 b k"
    using D(1) c1 ok1 spare_ok_upd out by (auto simp: yqueue_ok_def)
  then obtain m2 q2 xs ys where push: "acl_yqueue_push m1 (yp_queue p) = Some (m2, q2)"
    and q2: "yqueue_ok m2 q2 (cs @ xs) (ds1 @ ys) b (Suc k)"
    and o2: "owns m1 (yp_queue p) cs ds1 (Suc k) \<longrightarrow> owns m2 q2 (cs @ xs) (ds1 @ ys) (Suc k)"
    by (rule acl_yqueue_push_ok [where u = "Suc k"])
  have "owns m1 (yp_queue p) cs ds1 (Suc k)"
    using R val d1 by (auto simp: pipe_rel_at_def owns_def)
  with o2 have o2: "owns m2 q2 (cs @ xs) (ds1 @ ys) (Suc k)" by blast
  let ?p = "p\<lparr>yp_queue := q2, yp_f := acl_yqueue_back q2, yp_writes := yp_writes p + 1\<rparr>"
  have len: "length ds1 = length cs" using c1 by (simp add: chain_def)
  have vals: "cell (ds1 @ ys) j = (if j = k then x else cell ds j)" if "j \<le> k" for j
    using that Q(5) val len by (simp add: cell_append)
  have pt: "ptr (cs @ xs) j = ptr cs j" if "j \<le> k" for j
    using that Q(5) by (simp add: ptr_append)
  have "map (cell (ds1 @ ys)) [b..<k] = map (cell ds) [b..<k]"
    using vals by simp
  then have "map (cell (ds1 @ ys)) [b..<Suc k] = ps_flushed a @ ps_pending a @ [x]"
    using D(3) Q(7) vals [of k] by simp
  moreover have "acl_yqueue_back q2 = Some (ptr (cs @ xs) (Suc k))" using yqueue_ok_D(10) [OF q2] .
  moreover have "within (cs @ xs) b (b + length (ps_flushed a)) (yp_r p)"
    using R D(2) pt by (force simp: pipe_rel_at_def within_def)
  ultimately have "pipe_rel_at (m2, ?p, False) (a\<lparr>ps_pending := ps_pending a @ [x]\<rparr>) (cs @ xs) (ds1 @ ys) b (Suc k)"
    using R q2 o2 pt D(2) by (auto simp: pipe_rel_at_def)
  moreover have "acl_ypipe_write m p x = Some (m2, ?p)"
    using set push Q(10) by (simp add: acl_ypipe_write_def)
  ultimately show ?thesis unfolding pipe_rel_def by blast
qed

lemma w_eq_f:
  assumes R: "pipe_rel_at (m, p, wt) a cs ds b k"
  shows "yp_w p = yp_f p \<longleftrightarrow> ps_pending a = []"
proof -
  note D = pipe_rel_at_D [OF R]
  note Q = yqueue_ok_D [OF D(1)]
  show ?thesis using D(2,4,5) Q(4,5) by (simp add: ptr_inj)
qed

lemma flush_cas_refines:
  assumes R: "pipe_rel_at (m, p, False) a cs ds b k"
  shows "\<exists>r p' wt. pipe_exec YFlushCas (m, p, False) = Some (r, m, p', wt) \<and>
    r = fst (spec_exec YFlushCas a) \<and> pipe_rel (m, p', wt) (snd (spec_exec YFlushCas a))"
proof -
  note D = pipe_rel_at_D [OF R]
  note W = w_eq_f [OF R]
  note r = pipe_rel_at_r [OF R]
  consider "ps_pending a = []" | "ps_pending a \<noteq> []" "ps_asleep a" | "ps_pending a \<noteq> []" "\<not> ps_asleep a" by blast
  then show ?thesis
  proof cases
    case 1
    then have "pipe_rel (m, p, False) a" using R unfolding pipe_rel_def by blast
    moreover have "pipe_exec YFlushCas (m, p, False) = Some (Flushed 0, m, p, False)"
      using 1 W by (simp add: ypipe_flush_cas_def)
    ultimately show ?thesis using 1 D(7) by (auto simp del: pipe_exec.simps)
  next
    case 2
    then have "pipe_rel_at (m, p, True) (a\<lparr>ps_waiting := True\<rparr>) cs ds b k"
      using R by (auto simp: pipe_rel_at_def)
    moreover have "pipe_exec YFlushCas (m, p, False) = Some (Flushing, m, p, True)"
      using 2 W D(4,6) by (simp add: ypipe_flush_cas_def atomic_cas_def)
    ultimately show ?thesis using 2 D(7) by (auto intro: pipe_relI simp del: pipe_exec.simps)
  next
    case 3
    let ?p = "p\<lparr>yp_c := yp_f p, yp_w := yp_f p\<rparr>"
    have "pipe_rel_at (m, ?p, False) (a\<lparr>ps_flushed := ps_flushed a @ ps_pending a, ps_pending := []\<rparr>) cs ds b k"
      using R D(2,5) 3 r by (auto simp: pipe_rel_at_def)
    moreover have "pipe_exec YFlushCas (m, p, False) = Some (Flushed 0, m, ?p, False)"
      using 3 W D(6) by (simp add: ypipe_flush_cas_def atomic_cas_def)
    ultimately show ?thesis using 3 D(7) by (auto intro: pipe_relI simp del: pipe_exec.simps)
  qed
qed

lemma flush_set_refines:
  assumes R: "pipe_rel_at (m, p, True) a cs ds b k"
  shows "pipe_rel (m, snd (ypipe_flush_set p), False) (snd (spec_exec YFlushSet a))"
proof -
  note D = pipe_rel_at_D [OF R]
  note r = pipe_rel_at_r [OF R]
  have "pipe_rel_at (m, snd (ypipe_flush_set p), False) (snd (spec_exec YFlushSet a)) cs ds b k"
    using R D(2,5) r by (auto simp: pipe_rel_at_def ypipe_flush_set_def)
  then show ?thesis unfolding pipe_rel_def by blast
qed

lemma check_read_refines:
  assumes R: "pipe_rel_at (m, p, wt) a cs ds b k"
  shows "\<exists>p'. acl_ypipe_check_read m p = Some (ps_flushed a \<noteq> [], p') \<and> yp_queue p' = yp_queue p \<and>
    pipe_rel_at (m, p', wt) (if ps_flushed a = [] then a\<lparr>ps_asleep := True\<rparr> else a) cs ds b k \<and>
    (ps_flushed a \<noteq> [] \<longrightarrow> within cs (Suc b) (b + length (ps_flushed a)) (yp_r p'))"
proof -
  note D = pipe_rel_at_D [OF R]
  note Q = yqueue_ok_D [OF D(1)]
  have fw: "ptr cs b = ptr cs (b + length (ps_flushed a)) \<longleftrightarrow> ps_flushed a = []"
    using D(2) Q(4,5) by (simp add: ptr_inj)
  have cas: "\<exists>p'. (case atomic_cas (yp_c p) (Some (ptr cs b)) None of (old, c) \<Rightarrow>
        Some (\<not> (Some (ptr cs b) = old \<or> old = None), p\<lparr>yp_c := c, yp_r := old\<rparr>)) = Some (ps_flushed a \<noteq> [], p') \<and>
      yp_queue p' = yp_queue p \<and>
      pipe_rel_at (m, p', wt) (if ps_flushed a = [] then a\<lparr>ps_asleep := True\<rparr> else a) cs ds b k \<and>
      (ps_flushed a \<noteq> [] \<longrightarrow> within cs (Suc b) (b + length (ps_flushed a)) (yp_r p'))"
  proof (cases "ps_flushed a = []")
    case True
    then show ?thesis
      using R D(4,6) withinI [of b b b cs] by (auto simp: atomic_cas_def pipe_rel_at_def)
  next
    case False
    then have c: "yp_c p = Some (ptr cs (b + length (ps_flushed a)))" "\<not> ps_asleep a"
      using D(4,6,8) by auto
    have r: "within cs b' (b + length (ps_flushed a)) (yp_c p)" if "b' \<le> Suc b" for b'
      unfolding c by (rule withinI) (use that False in \<open>cases "ps_flushed a"; simp\<close>)+
    with R have "pipe_rel_at (m, p\<lparr>yp_c := Some (ptr cs (b + length (ps_flushed a))),
        yp_r := Some (ptr cs (b + length (ps_flushed a)))\<rparr>, wt) a cs ds b k"
      using c r [of b] D(4) by (auto simp: pipe_rel_at_def)
    then show ?thesis using False fw c r [of "Suc b"] by (simp add: atomic_cas_def)
  qed
  show ?thesis
  proof (cases "yp_r p")
    case None
    then show ?thesis using cas Q(9) by (simp add: acl_ypipe_check_read_def Let_def)
  next
    case (Some r)
    with R have "within cs b (b + length (ps_flushed a)) (Some r)"
      by (simp add: pipe_rel_at_def)
    then obtain i where i: "b \<le> i" "i \<le> b + length (ps_flushed a)" "r = ptr cs i" by (rule withinE)
    have "i < 10 * length cs" using i D(2) Q(5) by simp
    then have ld: "ld_cell m r = Some (cell ds i)" using Q(1) i(3) by (simp add: ld_cell_chain)
    have eq: "ptr cs b = r \<longleftrightarrow> b = i" using i Q(4,5) \<open>i < 10 * length cs\<close> by (simp add: ptr_inj)
    show ?thesis
    proof (cases "b \<noteq> i \<and> cell ds i \<noteq> None")
      case True
      then have "ps_flushed a \<noteq> []" using i by auto
      then show ?thesis
        using True R Some ld eq Q(9) i withinI [of "Suc b" i]
        by (simp add: acl_ypipe_check_read_def Let_def)
    next
      case False
      then show ?thesis using cas Some ld eq Q(9) by (auto simp: acl_ypipe_check_read_def Let_def)
    qed
  qed
qed

lemma read_refines:
  assumes R: "pipe_rel_at (m, p, wt) a cs ds b k"
  shows "\<exists>r m' p'. pipe_exec YRead (m, p, wt) = Some (r, m', p', wt) \<and>
    r = fst (spec_exec YRead a) \<and> pipe_rel (m', p', wt) (snd (spec_exec YRead a))"
proof -
  obtain p1 where chk: "acl_ypipe_check_read m p = Some (ps_flushed a \<noteq> [], p1)"
    and R1: "pipe_rel_at (m, p1, wt) (if ps_flushed a = [] then a\<lparr>ps_asleep := True\<rparr> else a) cs ds b k"
    and r1: "ps_flushed a \<noteq> [] \<Longrightarrow> within cs (Suc b) (b + length (ps_flushed a)) (yp_r p1)"
    using check_read_refines [OF R] by blast
  show ?thesis
  proof (cases "ps_flushed a")
    case Nil
    with chk R1 show ?thesis
      unfolding pipe_rel_def by (auto simp: acl_ypipe_read_def)
  next
    case (Cons x fl)
    with R1 have R1: "pipe_rel_at (m, p1, wt) a cs ds b k" by simp
    note D = pipe_rel_at_D [OF R1]
    note Q = yqueue_ok_D [OF D(1)]
    have bk: "b < k" using D(2) Cons by simp
    have vals: "cell ds b = x" "map (cell ds) [Suc b..<k] = fl @ ps_pending a"
      using D(3) Cons bk by (simp_all add: upt_conv_Cons)
    obtain m2 q2 cs2 ds2 d where pop: "acl_yqueue_pop m (yp_queue p1) = Some (m2, q2)" and d: "d \<le> Suc b"
      and q2: "yqueue_ok m2 q2 cs2 ds2 (Suc b - d) (k - d)"
      and pt: "\<forall>i \<ge> Suc b. ptr cs2 (i - d) = ptr cs i"
      and ce: "\<forall>i \<ge> Suc b. cell ds2 (i - d) = cell ds i"
      and o2: "\<forall>u \<ge> Suc b. owns m (yp_queue p1) cs ds u \<longrightarrow> owns m2 q2 cs2 ds2 (u - d)"
      by (rule acl_yqueue_pop_ok [OF D(1) bk])
    have "map (cell ds2) [Suc b - d..<k - d] = map (cell ds) [Suc b..<k]"
      by (rule nth_equalityI) (use d bk ce in \<open>auto simp: Suc_diff_le algebra_simps\<close>)
    then have m2: "map (cell ds2) [Suc b - d..<k - d] = fl @ ps_pending a" using vals by simp
    have kk: "Suc b - d + length fl = b + length (ps_flushed a) - d"
      using Cons d by simp
    let ?p = "p1\<lparr>yp_queue := q2, yp_reads := yp_reads p1 + 1\<rparr>"
    have "ptr cs2 (Suc b - d + length fl) = ptr cs (b + length (ps_flushed a))" "ptr cs2 (k - d) = ptr cs k"
      using kk pt [rule_format, of "b + length (ps_flushed a)"] pt [rule_format, of k] Cons bk by simp_all
    moreover have "\<not> ps_asleep a" using D(8) Cons by auto
    moreover have "within cs2 (Suc b - d) (Suc b - d + length fl) (yp_r p1)"
    proof (cases "yp_r p1")
      case (Some r)
      with r1 Cons have "within cs (Suc b) (b + length (ps_flushed a)) (Some r)" by simp
      then obtain i where "Suc b \<le> i" "i \<le> b + length (ps_flushed a)" "r = ptr cs i" by (rule withinE)
      with Some kk pt withinI [of "Suc b - d" "i - d" "Suc b - d + length fl" cs2] show ?thesis by simp
    qed simp
    ultimately have "pipe_rel_at (m2, ?p, wt) (a\<lparr>ps_flushed := fl\<rparr>) cs2 ds2 (Suc b - d) (k - d)"
      using R1 q2 m2 o2 bk D(4-7) by (simp add: pipe_rel_at_def)
    moreover have "acl_ypipe_read m p = Some (True, x, m2, ?p)"
      using chk Cons pop Q(9) ld_cell_chain [OF Q(1), of b] Q(5,7) vals(1) by (simp add: acl_ypipe_read_def)
    ultimately show ?thesis using Cons unfolding pipe_rel_def by auto
  qed
qed

lemma pipe_exec_refines:
  assumes "pipe_rel st a"
  shows "\<exists>st'. pipe_exec s st = Some (fst (spec_exec s a), st') \<and> pipe_rel st' (snd (spec_exec s a))"
proof -
  obtain m p wt where st: "st = (m, p, wt)" by (cases st)
  with assms obtain cs ds b k where R: "pipe_rel_at (m, p, wt) a cs ds b k" by (auto simp: pipe_rel_def)
  have wt: "ps_waiting a = wt" using pipe_rel_at_D(7) [OF R] by simp
  show ?thesis
  proof (cases s)
    case (YWrite x)
    show ?thesis
    proof (cases wt)
      case True
      then show ?thesis using YWrite st wt assms by simp
    next
      case False
      with R have "pipe_rel_at (m, p, False) a cs ds b k" by simp
      from write_refines [OF this, of x] show ?thesis using False YWrite st wt by auto
    qed
  next
    case YFlushCas
    show ?thesis
    proof (cases wt)
      case True
      then show ?thesis using YFlushCas st wt assms by simp
    next
      case False
      with R have "pipe_rel_at (m, p, False) a cs ds b k" by simp
      from flush_cas_refines [OF this] show ?thesis unfolding st YFlushCas using False
      by (auto simp del: pipe_exec.simps spec_exec.simps)
    qed
  next
    case YFlushSet
    show ?thesis
    proof (cases wt)
      case False
      then show ?thesis using YFlushSet st wt assms by simp
    next
      case True
      with R have "pipe_rel_at (m, p, True) a cs ds b k" by simp
      from flush_set_refines [OF this] show ?thesis
        using True YFlushSet st wt by (auto simp: ypipe_flush_set_def)
    qed
  next
    case YRead
    from read_refines [OF R] show ?thesis unfolding st YRead by (auto simp del: pipe_exec.simps spec_exec.simps)
  qed
qed

lemma pipe_run_refines:
  "pipe_rel st a \<Longrightarrow> \<exists>st'. pipe_run ss st = Some (fst (spec_run ss a), st') \<and> pipe_rel st' (snd (spec_run ss a))"
proof (induction ss arbitrary: st a)
  case (Cons s ss)
  from pipe_exec_refines [OF Cons.prems, of s] obtain st1
    where st1: "pipe_exec s st = Some (fst (spec_exec s a), st1)" "pipe_rel st1 (snd (spec_exec s a))" by blast
  from Cons.IH [OF st1(2)] obtain st2 where
    "pipe_run ss st1 = Some (fst (spec_run ss (snd (spec_exec s a))), st2)"
    "pipe_rel st2 (snd (spec_run ss (snd (spec_exec s a))))" by blast
  with st1 show ?case by (simp add: case_prod_beta)
qed simp

section \<open>Clean-up\<close>

lemma map_filter_append: "List.map_filter f (xs @ ys) = List.map_filter f xs @ List.map_filter f ys"
  by (simp add: List.map_filter_def)

lemma map_filter_shift: "List.map_filter f [a + p..<a + e] = List.map_filter (\<lambda>i. f (a + i)) [p..<e]"
proof -
  have "[a + p..<a + e] = map ((+) a) [p..<e]" by (induction e) auto
  then show ?thesis by (simp add: List.map_filter_def filter_map comp_def)
qed

lemma map_filter_cong: "(\<And>x. x \<in> set xs \<Longrightarrow> f x = g x) \<Longrightarrow> List.map_filter f xs = List.map_filter g xs"
  by (induction xs) (simp_all add: List.map_filter_simps split: option.split)

lemma chunk_data_free_chain:
  assumes c: "chain (cells m) cs ds" and j: "j < length cs" and e: "e < 10"
  shows "chunk_data_free m (cs ! j) p e = Some (List.map_filter (cell ds) [10 * j + p..<10 * j + Suc e])"
proof -
  obtain pr nx where n: "cells m (cs ! j) = Some \<lparr>nd_data = ds ! j, nd_prev = pr, nd_next = nx\<rparr>"
    and l: "length (ds ! j) = 10"
    by (rule chain_at [OF c j]) blast
  have "List.map_filter (\<lambda>i. cell ds (10 * j + i)) [p..<Suc e] = List.map_filter (\<lambda>i. ds ! j ! i) [p..<Suc e]"
    by (rule map_filter_cong) (use e in \<open>auto simp: cell_def\<close>)
  then show ?thesis
    unfolding map_filter_shift using n l e by (simp add: chunk_data_free_def heap_simps)
qed

lemma free_data_loop_chain:
  assumes c: "chain (cells m) cs ds"
  shows "j \<le> e \<Longrightarrow> e < length cs \<Longrightarrow> e - j < fuel \<Longrightarrow> p < 10 \<Longrightarrow> (j = e \<longrightarrow> p = 0) \<Longrightarrow>
    free_data_loop fuel m (cs ! j) (cs ! e) p = Some (List.map_filter (cell ds) [10 * j + p..<10 * e])"
proof (induction fuel arbitrary: j p)
  case (Suc fuel)
  have dist: "distinct cs" using c by (simp add: chain_def)
  show ?case
  proof (cases "j = e")
    case True
    then show ?thesis using Suc.prems by (simp add: List.map_filter_def)
  next
    case False
    with Suc.prems have j: "j < length cs" "Suc j \<le> e" "Suc j < length cs" by auto
    obtain pr where n: "cells m (cs ! j) = Some \<lparr>nd_data = ds ! j, nd_prev = pr, nd_next = Some (cs ! Suc j)\<rparr>"
      by (rule chain_at [OF c j(1)]) (use j in auto)
    have "free_data_loop fuel m (cs ! Suc j) (cs ! e) 0 = Some (List.map_filter (cell ds) [10 * Suc j + 0..<10 * e])"
      by (rule Suc.IH) (use Suc.prems j False in auto)
    moreover have "[10 * j + p..<10 * e] = [10 * j + p..<10 * j + Suc 9] @ [10 * Suc j + 0..<10 * e]"
    proof -
      have "[10 * j + p..<10 * Suc j + (10 * e - 10 * Suc j)] =
          [10 * j + p..<10 * Suc j] @ [10 * Suc j..<10 * Suc j + (10 * e - 10 * Suc j)]"
        by (rule upt_add_eq_append) (use Suc.prems in simp)
      moreover have "10 * Suc j + (10 * e - 10 * Suc j) = 10 * e" "10 * Suc j = 10 * j + Suc 9"
        using j(2) by simp_all
      ultimately show ?thesis by (simp only: add_0_right)
    qed
    moreover have "cs ! j \<noteq> cs ! e" using dist j Suc.prems False by (simp add: nth_eq_iff_index_eq)
    ultimately show ?thesis
      using chunk_data_free_chain [OF c j(1), of 9 p] n
      by (simp add: CHUNK_SIZE_def heap_simps map_filter_append del: upt_Suc)
  qed
qed simp

lemma chain_ConsD:
  assumes "chain h (a # cs) ds"
  shows "\<exists>p. h a = Some \<lparr>nd_data = hd ds, nd_prev = p, nd_next = hd_or cs None\<rparr>" "chain h cs (tl ds)" "a \<notin> set cs"
proof -
  have l: "length ds = Suc (length cs)" and d: "distinct (a # cs)" using assms by (auto simp: chain_def)
  then have ds: "ds \<noteq> []" by auto
  obtain p where "h ((a # cs) ! 0) = Some \<lparr>nd_data = ds ! 0, nd_prev = p,
      nd_next = if Suc 0 < length (a # cs) then Some ((a # cs) ! Suc 0) else None\<rparr>"
    by (rule chain_at [OF assms, of 0]) auto
  then show "\<exists>p. h a = Some \<lparr>nd_data = hd ds, nd_prev = p, nd_next = hd_or cs None\<rparr>"
    using ds by (cases cs) (auto simp: hd_conv_nth)
  show "a \<notin> set cs" using d by simp
  have "length (tl ds ! j) = 10 \<and> (\<exists>p. h (cs ! j) = Some \<lparr>nd_data = tl ds ! j, nd_prev = p,
      nd_next = if Suc j < length cs then Some (cs ! Suc j) else None\<rparr>)" if "j < length cs" for j
    using assms that ds l unfolding chain_def
    by (elim conjE allE [of _ "Suc j"]) (auto simp: nth_tl)
  then show "chain h cs (tl ds)" using l d by (simp add: chain_def)
qed

lemma chain_frame: "chain h cs ds \<Longrightarrow> (\<And>a. a \<in> set cs \<Longrightarrow> h' a = h a) \<Longrightarrow> chain h' cs ds"
  by (auto simp: chain_def)

lemma free_chunk_loop_chain:
  "chain (cells m) cs ds \<Longrightarrow> cs \<noteq> [] \<Longrightarrow> length cs \<le> fuel \<Longrightarrow>
   free_chunk_loop fuel m (hd cs) (last cs) = Some (m\<lparr>cells := cells m |` (- set cs)\<rparr>)"
proof (induction cs arbitrary: fuel m ds)
  case (Cons a cs)
  note D = chain_ConsD [OF Cons.prems(1)]
  from Cons.prems(3) obtain f where f: "fuel = Suc f" by (cases fuel) auto
  from D(1) obtain p where n: "cells m a = Some \<lparr>nd_data = hd ds, nd_prev = p, nd_next = hd_or cs None\<rparr>" by blast
  show ?case
  proof (cases "cs = []")
    case True
    have "(cells m)(a := None) = cells m |` (- {a})" by (auto simp: restrict_map_def)
    with True n f show ?thesis by (simp add: heap_simps)
  next
    case False
    then have "a \<noteq> last cs" using D(3) by (metis last_in_set)
    let ?m = "m\<lparr>cells := (cells m)(a := None)\<rparr>"
    have "free_chunk_loop f ?m (hd cs) (last cs) = Some (?m\<lparr>cells := cells ?m |` (- set cs)\<rparr>)"
    proof (rule Cons.IH)
      show "chain (cells ?m) cs (tl ds)" by (rule chain_frame [OF D(2)]) (use D(3) in auto)
    qed (use False Cons.prems(3) f in auto)
    moreover have "(cells m)(a := None) |` (- set cs) = cells m |` (- set (a # cs))"
      by (auto simp: restrict_map_def)
    moreover have "hd_or cs None = Some (hd cs)" using False by (cases cs) auto
    ultimately show ?thesis using False n f \<open>a \<noteq> last cs\<close> by (simp add: heap_simps)
  qed
qed simp

lemma acl_yqueue_free_ok:
  assumes q: "yqueue_ok m q cs ds b k" and o: "owns m q cs ds k" and fuel: "length cs \<le> fuel"
  shows "\<exists>m'. acl_yqueue_free fuel m q True = Some (List.map_filter (cell ds) [b..<k], m') \<and> cells m' = Map.empty"
proof -
  note Q = yqueue_ok_D [OF q]
  have ne: "cs \<noteq> []" and hd: "yq_begin_chunk q = hd cs" "yq_begin_pos q = b" "yq_end_chunk q = last cs"
    using q by (auto simp: yqueue_ok_def)
  have first: "hd cs = cs ! 0" using ne by (simp add: hd_conv_nth)
  have e: "k div 10 < length cs" using Q(5) by (rule div_less)
  have bck: "yq_back_chunk q = Some (cs ! (k div 10))" "yq_back_pos q = k mod 10"
    using Q(10) by (auto simp: acl_yqueue_back_def ptr_def)
  have nul: "List.map_filter (cell ds) [b..<Suc k] = List.map_filter (cell ds) [b..<k]"
    using o Q(5,7) by (simp add: map_filter_append owns_def List.map_filter_def)
  have k: "10 * (k div 10) + k mod 10 = k" by simp
  have lst: "chunk_data_free m (cs ! (k div 10)) p (k mod 10) =
      Some (List.map_filter (cell ds) [10 * (k div 10) + p..<Suc k])" for p
    using chunk_data_free_chain [OF Q(1) e, of "k mod 10" p] k by simp
  have data: "yqueue_free_data fuel m q = Some (List.map_filter (cell ds) [b..<k])"
  proof (cases "k div 10 = 0")
    case True
    then show ?thesis using hd first bck lst [of b] nul by (simp add: yqueue_free_data_def del: upt_Suc)
  next
    case False
    then have "hd cs \<noteq> cs ! (k div 10)" using e Q(4) ne first by (simp add: nth_eq_iff_index_eq)
    moreover have "free_data_loop fuel m (cs ! 0) (cs ! (k div 10)) b =
        Some (List.map_filter (cell ds) [10 * 0 + b..<10 * (k div 10)])"
      by (rule free_data_loop_chain [OF Q(1)]) (use e fuel Q(8) False in auto)
    moreover have "b \<le> 10 * (k div 10)" using False Q(8) by simp
    then have "[b..<Suc k] = [b..<10 * (k div 10)] @ [10 * (k div 10)..<Suc k]"
      using upt_add_eq_append [of b "10 * (k div 10)" "Suc k - 10 * (k div 10)"] k by simp
    ultimately show ?thesis using hd first bck lst [of 0] nul
      by (simp add: yqueue_free_data_def map_filter_append del: upt_Suc)
  qed
  let ?m = "m\<lparr>cells := cells m |` (- set cs)\<rparr>"
  have loop: "free_chunk_loop fuel m (yq_begin_chunk q) (yq_end_chunk q) = Some ?m"
    using free_chunk_loop_chain [OF Q(1) ne fuel] hd by simp
  show ?thesis
  proof (cases "yq_spare_chunk q")
    case None
    with o have "dom (cells m) = set cs" by (simp add: owns_def)
    then have "cells ?m = Map.empty" by (auto simp: fun_eq_iff restrict_map_def)
    with None data loop show ?thesis by (simp add: acl_yqueue_free_def)
  next
    case (Some s)
    with q obtain nd where s: "s \<notin> set cs" "cells m s = Some nd" by (auto simp: yqueue_ok_def spare_ok_def)
    from Some o have "dom (cells m) = insert s (set cs)" by (simp add: owns_def)
    then have "(cells m |` (- set cs))(s := None) = Map.empty" by (auto simp: fun_eq_iff restrict_map_def)
    with Some data loop s show ?thesis by (simp add: acl_yqueue_free_def heap_simps)
  qed
qed

lemma chain_length: "chain (cells m) cs ds \<Longrightarrow> mem_ok m \<Longrightarrow> length cs \<le> brk m"
proof -
  assume c: "chain (cells m) cs ds" and m: "mem_ok m"
  have "set cs \<subseteq> {..<brk m}"
    using c m unfolding chain_def mem_ok_def in_set_conv_nth subset_iff by force
  then have "card (set cs) \<le> brk m" using card_mono [of "{..<brk m}" "set cs"] by simp
  then show ?thesis using c by (simp add: chain_def distinct_card)
qed

lemma acl_ypipe_free_ok:
  assumes "pipe_rel (m, p, wt) a"
  shows "\<exists>m'. acl_ypipe_free (brk m) m p True = Some (List.map_filter (\<lambda>x. x) (ps_flushed a @ ps_pending a), m') \<and>
    cells m' = Map.empty"
proof -
  from assms obtain cs ds b k where R: "pipe_rel_at (m, p, wt) a cs ds b k" by (auto simp: pipe_rel_def)
  note D = pipe_rel_at_D [OF R]
  have "owns m (yp_queue p) cs ds k" using R by (simp add: pipe_rel_at_def)
  moreover have "length cs \<le> brk m" using yqueue_ok_D(1,2) [OF D(1)] by (rule chain_length)
  moreover have "List.map_filter (cell ds) [b..<k] = List.map_filter (\<lambda>x. x) (map (cell ds) [b..<k])"
    by (simp add: List.map_filter_def filter_map comp_def)
  ultimately show ?thesis
    using acl_yqueue_free_ok [OF D(1)] D(3) by (simp add: acl_ypipe_free_def)
qed

text \<open>C15: the pipe of \<^verbatim>\<open>acl_ypipe.c\<close> is a queue, under every interleaving of a writer and a reader.
  From a new pipe, whatever the order in which the writer writes and flushes and the reader reads,
  and wherever the reader runs between the two atomic operations of a flush, the run never touches
  a chunk that was freed and never leaves the bounds of one, and every step answers as on two
  lists: a read gives the oldest flushed datum not read yet, or says that there is none; a flush
  makes all that was written readable, and answers 1, the reader has to be woken, exactly when the
  reader has found the pipe empty since the last flush that made data readable.\<close>

theorem ypipe_is_a_queue:
  "\<exists>st. do { (m, p) \<leftarrow> acl_ypipe_new mem_empty; pipe_run ss (m, p, False) } = Some (fst (spec_run ss spec_new), st)"
proof -
  obtain m :: "'a chunk_mem" and p where "acl_ypipe_new mem_empty = Some (m, p)" "pipe_rel (m, p, False) spec_new"
    using pipe_rel_new by blast
  then show ?thesis using pipe_run_refines [of "(m, p, False)" spec_new ss] by auto
qed

text \<open>C16: the pipe leaks nothing. After any interleaving from a new pipe, \<open>acl_ypipe_free\<close> hands to
  \<open>free_data_fun\<close> exactly the data (other than NULL) that were written and not read, flushed or not,
  each once and in order, and leaves no chunk allocated: neither one of the chain nor the spare.\<close>

theorem ypipe_free_all:
  "\<exists>rs m p wt m'. do { (m, p) \<leftarrow> acl_ypipe_new mem_empty; pipe_run ss (m, p, False) } = Some (rs, m, p, wt) \<and>
     acl_ypipe_free (brk m) m p True =
       Some (List.map_filter (\<lambda>x. x) (ps_flushed (snd (spec_run ss spec_new)) @ ps_pending (snd (spec_run ss spec_new))), m') \<and>
     cells m' = Map.empty"
proof -
  obtain m :: "'a chunk_mem" and p where new: "acl_ypipe_new mem_empty = Some (m, p)" "pipe_rel (m, p, False) spec_new"
    using pipe_rel_new by blast
  obtain m1 p1 wt where run: "pipe_run ss (m, p, False) = Some (fst (spec_run ss spec_new), m1, p1, wt)"
    "pipe_rel (m1, p1, wt) (snd (spec_run ss spec_new))"
    using pipe_run_refines [OF new(2), of ss] by auto
  then show ?thesis using acl_ypipe_free_ok [OF run(2)] new by auto
qed

end
