(* ===== verification/Acl_Strings.thy ===== *)
theory Acl_Strings
  imports Prelude
begin

text \<open>
  The small files of \<^verbatim>\<open>acllib/src/stdlib/string/\<close>: comparing without regard to case and from the
  end (\<^verbatim>\<open>strcasecmp.c\<close>), searching (\<^verbatim>\<open>strcasestr.c\<close>, and the loop it shares with
  \<^verbatim>\<open>acl_vstring.c\<close>), splitting at a delimiter or into a name and a value, digits. A pointer into
  the string is its offset.

  The searches go forward with one partial match at a time and never go back, so they can miss an
  occurrence: shown right for needles whose first byte does not come again, and wrong in general.
\<close>

section \<open>charmap.h\<close>

definition maptolower :: "byte list" where
  "maptolower = map of_nat ([0 ..< 65] @ [97 ..< 123] @ [91 ..< 256])"

definition cm :: "byte \<Rightarrow> byte" where
  "cm c = maptolower ! unat c"

section \<open>strcasecmp.c\<close>

fun acl_strcasecmp :: "cstr \<Rightarrow> cstr \<Rightarrow> int" where
  "acl_strcasecmp (x # xs) (y # ys) =
     (if cm x = cm y then acl_strcasecmp xs ys else uint (cm x) - uint (cm y))"
| "acl_strcasecmp [] [] = 0"
| "acl_strcasecmp (x # xs) [] = uint (cm x) - uint (cm 0)"
| "acl_strcasecmp [] (y # ys) = uint (cm 0) - uint (cm y)"

fun acl_strncasecmp :: "cstr \<Rightarrow> cstr \<Rightarrow> nat \<Rightarrow> int" where
  "acl_strncasecmp s1 s2 0 = 0"
| "acl_strncasecmp (x # xs) (y # ys) (Suc n) =
     (if cm x \<noteq> cm y then uint (cm x) - uint (cm y) else acl_strncasecmp xs ys n)"
| "acl_strncasecmp [] [] (Suc n) = 0"
| "acl_strncasecmp (x # xs) [] (Suc n) = uint (cm x) - uint (cm 0)"
| "acl_strncasecmp [] (y # ys) (Suc n) = uint (cm 0) - uint (cm y)"

text \<open>The loop of \<open>acl_strrncmp\<close> and \<open>acl_strrncasecmp\<close>, on what is left of the strings, last byte
  first; \<open>f\<close> is the mapping of a byte.\<close>

fun rncmp_loop :: "(byte \<Rightarrow> byte) \<Rightarrow> cstr \<Rightarrow> cstr \<Rightarrow> nat \<Rightarrow> int" where
  "rncmp_loop f (x # xs) (y # ys) n =
     (if f x \<noteq> f y then uint (f x) - uint (f y)
      else if xs = [] then (if ys = [] \<or> n = 1 then 0 else - uint (f (hd ys)))
      else if ys = [] then (if n = 1 then 0 else - uint (f (hd xs)))
      else if n - 1 \<noteq> 0 then rncmp_loop f xs ys (n - 1) else 0)"
| "rncmp_loop f _ _ n = 0"

definition rncmp :: "(byte \<Rightarrow> byte) \<Rightarrow> cstr \<Rightarrow> cstr \<Rightarrow> nat \<Rightarrow> int" where
  "rncmp f s1 s2 n =
     (if n = 0 then 0
      else if s1 = [] then (if s2 = [] then 0 else - sint (hd s2))
      else if s2 = [] then - sint (hd s1)
      else rncmp_loop f (rev s1) (rev s2) n)"

definition acl_strrncasecmp :: "cstr \<Rightarrow> cstr \<Rightarrow> nat \<Rightarrow> int" where
  "acl_strrncasecmp = rncmp cm"

definition acl_strrncmp :: "cstr \<Rightarrow> cstr \<Rightarrow> nat \<Rightarrow> int" where
  "acl_strrncmp = rncmp (\<lambda>c. c)"

section \<open>strcasestr.c\<close>

text \<open>The search loop at offset \<open>p\<close>: \<open>st\<close> is \<open>None\<close> when \<open>np\<close> is NULL, otherwise the rest of the needle
  at \<open>np\<close> and where the partial match began. The result is where the match begins and ends. \<open>fh\<close> and
  \<open>fn\<close> are the mappings of a byte of the string and of the needle.\<close>

fun search_loop ::
  "(byte \<Rightarrow> byte) \<Rightarrow> (byte \<Rightarrow> byte) \<Rightarrow> cstr \<Rightarrow> byte list \<Rightarrow> nat \<Rightarrow> (cstr \<times> nat) option \<Rightarrow> (nat \<times> nat) option"
where
  "search_loop fh fn needle [] p st = None"
| "search_loop fh fn needle (c # s) p st =
     (case st of
        Some (np, startn) \<Rightarrow>
          if fh c = fn (hd np)
          then (if tl np = [] then Some (startn, p) else search_loop fh fn needle s (Suc p) (Some (tl np, startn)))
          else if fh c = fn (hd needle)
          then (if tl needle = [] then Some (p, p) else search_loop fh fn needle s (Suc p) (Some (tl needle, p)))
          else search_loop fh fn needle s (Suc p) None
      | None \<Rightarrow>
          if fh c = fn (hd needle)
          then (if tl needle = [] then Some (p, p) else search_loop fh fn needle s (Suc p) (Some (tl needle, p)))
          else search_loop fh fn needle s (Suc p) None)"

text \<open>From the end: the strings reversed.\<close>

definition rsearch :: "(byte \<Rightarrow> byte) \<Rightarrow> (byte \<Rightarrow> byte) \<Rightarrow> cstr \<Rightarrow> byte list \<Rightarrow> nat option" where
  "rsearch fh fn needle s =
     map_option (\<lambda>(b, e). length s - 1 - e) (search_loop fh fn (rev needle) (rev s) 0 None)"

definition acl_rstrstr :: "cstr option \<Rightarrow> cstr option \<Rightarrow> nat option" where
  "acl_rstrstr haystack needle = (case (haystack, needle) of
     (Some h, Some n) \<Rightarrow> if h = [] \<or> n = [] then None else rsearch (\<lambda>c. c) (\<lambda>c. c) n h
   | _ \<Rightarrow> None)"

definition acl_rstrcasestr :: "cstr option \<Rightarrow> cstr option \<Rightarrow> nat option" where
  "acl_rstrcasestr haystack needle = (case (haystack, needle) of
     (Some h, Some n) \<Rightarrow> if h = [] \<or> n = [] then None else rsearch (\<lambda>c. c) cm n h
   | _ \<Rightarrow> None)"

text \<open>With an empty needle the code compares with the needle's terminating zero, which no byte of
  the string is.\<close>

definition acl_strcasestr :: "cstr \<Rightarrow> cstr \<Rightarrow> nat option" where
  "acl_strcasestr haystack needle =
     (if needle = [] then None else map_option fst (search_loop cm cm needle haystack 0 None))"

section \<open>Small files\<close>

definition acl_alldig :: "cstr option \<Rightarrow> bool" where
  "acl_alldig s = (case s of None \<Rightarrow> False | Some s \<Rightarrow> s \<noteq> [] \<and> list_all isdigit s)"

text \<open>The first loop of \<open>acl_is_double\<close>: \<open>None\<close> is a return of 0, otherwise what is left at \<open>break\<close> or
  at the end.\<close>

fun double_loop :: "cstr \<Rightarrow> cstr option" where
  "double_loop [] = Some []"
| "double_loop (c # s) =
     (if c = 46 then (if s = [] then None else Some s)
      else if \<not> isdigit c then None else double_loop s)"

definition acl_is_double :: "cstr option \<Rightarrow> bool" where
  "acl_is_double s = (case s of
     None \<Rightarrow> False
   | Some [] \<Rightarrow> False
   | Some (c # s) \<Rightarrow>
       (let s = (if c = 45 \<or> c = 43 then s else c # s)
        in if s = [] \<or> hd s = 46 then False
           else case double_loop s of None \<Rightarrow> False | Some r \<Rightarrow> list_all isdigit r))"

definition acl_safe_basename :: "cstr \<Rightarrow> cstr" where
  "acl_safe_basename path = (case strrchr_idx path 47 of
     Some i \<Rightarrow> drop (Suc i) path
   | None \<Rightarrow> (case strrchr_idx path 92 of Some i \<Rightarrow> drop (Suc i) path | None \<Rightarrow> path))"

definition acl_concatenate :: "cstr \<Rightarrow> cstr list \<Rightarrow> cstr" where
  "acl_concatenate arg0 args = fold (\<lambda>arg result. result @ arg) args arg0"

text \<open>Splitting writes a zero over the delimiter: what the string is now, and the remainder.\<close>

definition split_by :: "nat option \<Rightarrow> cstr \<Rightarrow> cstr \<times> cstr option" where
  "split_by i s = (case i of None \<Rightarrow> (s, None) | Some i \<Rightarrow> (take i s, Some (drop (Suc i) s)))"

definition acl_split_at :: "cstr \<Rightarrow> byte \<Rightarrow> cstr \<times> cstr option" where
  "acl_split_at s delimiter = split_by (strchr_idx s delimiter) s"

definition acl_split_at_right :: "cstr \<Rightarrow> byte \<Rightarrow> cstr \<times> cstr option" where
  "acl_split_at_right s delimiter = split_by (strrchr_idx s delimiter) s"

datatype nameval_error = Missing_Name | Missing_Equal

text \<open>The offsets of \<open>np\<close>, \<open>ep\<close>, \<open>vp\<close> and of the zero that \<open>TRIM\<close> writes.\<close>

definition trim_end :: "cstr \<Rightarrow> nat" where
  "trim_end s = length s - length (takeWhile isspace (rev s))"

definition split_nameval_at :: "cstr \<Rightarrow> nameval_error + nat \<times> nat \<times> nat \<times> nat" where
  "split_nameval_at buf =
     (let np = length (takeWhile isspace buf)
      in if drop np buf = [] then Inl Missing_Name
         else let
           ep = np + length (takeWhile (\<lambda>c. \<not> isspace c \<and> c \<noteq> 61) (drop np buf));
           cp = ep + length (takeWhile isspace (drop ep buf))
         in if cp \<ge> length buf \<or> buf ! cp \<noteq> 61 then Inl Missing_Equal
         else let vp = Suc cp + length (takeWhile isspace (drop (Suc cp) buf))
         in Inr (np, ep, vp, vp + trim_end (drop vp buf)))"

text \<open>The name, the value, and the buffer after the two zeros are written.\<close>

definition acl_split_nameval :: "cstr \<Rightarrow> nameval_error + cstr \<times> cstr \<times> byte list" where
  "acl_split_nameval buf = (case split_nameval_at buf of
     Inl e \<Rightarrow> Inl e
   | Inr (np, ep, vp, e) \<Rightarrow> Inr (drop np (take ep buf), drop vp (take e buf), (buf @ [0])[ep := 0, e := 0]))"

section \<open>Comparing\<close>

lemma isupper_unat: "isupper c \<longleftrightarrow> 65 \<le> unat c \<and> unat c < 91"
  by (auto simp: isupper_def word_le_nat_alt)

lemma cm_tolower [simp]: "cm c = tolower c"
proof -
  have n: "unat c < 256" using unsigned_less [where w = c] by simp
  show ?thesis
  proof (cases "isupper c")
    case True
    then have u: "65 \<le> unat c" "unat c < 91" by (simp_all add: isupper_unat)
    then have "cm c = of_nat (97 + (unat c - 65))"
      unfolding cm_def maptolower_def map_append
      by (subst nth_append_right; simp add: nth_append del: upt_rec_numeral) linarith
    also have "97 + (unat c - 65) = unat c + 32" using u by simp
    finally show ?thesis using True by (simp add: tolower_def)
  next
    case False
    then consider "unat c < 65" | "91 \<le> unat c" by (force simp: isupper_unat)
    then have "cm c = of_nat (unat c)"
    proof cases
      case 2
      then have "\<not> unat c - 65 < 26" by simp
      with 2 n show ?thesis by (simp add: cm_def maptolower_def nth_append del: upt_rec_numeral)
    qed (simp add: cm_def maptolower_def nth_append del: upt_rec_numeral)
    then show ?thesis using False by (simp add: tolower_def)
  qed
qed

lemma cm_eq: "cm = tolower"
  by (simp add: fun_eq_iff)

lemma tolower_0 [simp]: "tolower 0 = 0"
  by (simp add: tolower_def isupper_def)

lemma tolower_eq_0 [simp]: "tolower c = 0 \<longleftrightarrow> c = 0"
proof
  assume t: "tolower c = 0"
  show "c = 0"
  proof (cases "isupper c")
    case True
    with t have "c + 32 = 0" by (simp add: tolower_def)
    then have "unat (c + 32) = 0" by simp
    with True show ?thesis by (simp add: isupper_unat unat_add_lem [THEN iffD1])
  qed (use t in \<open>simp add: tolower_def\<close>)
qed simp

lemma uint_eq [simp]: "uint (x :: byte) = uint y \<longleftrightarrow> x = y" "uint (x :: byte) = 0 \<longleftrightarrow> x = 0"
  by (simp_all add: word_uint_eq_iff)

lemma acl_strcasecmp_zero:
  "c_string s1 \<Longrightarrow> c_string s2 \<Longrightarrow> acl_strcasecmp s1 s2 = 0 \<longleftrightarrow> map tolower s1 = map tolower s2"
  by (induction s1 s2 rule: acl_strcasecmp.induct) auto

lemma acl_strncasecmp_zero:
  "c_string s1 \<Longrightarrow> c_string s2 \<Longrightarrow>
   acl_strncasecmp s1 s2 n = 0 \<longleftrightarrow> map tolower (take n s1) = map tolower (take n s2)"
  by (induction s1 s2 n rule: acl_strncasecmp.induct) auto

lemma rncmp_loop_zero:
  "\<forall>c. f c = 0 \<longleftrightarrow> c = 0 \<Longrightarrow> c_string xs \<Longrightarrow> c_string ys \<Longrightarrow> xs \<noteq> [] \<Longrightarrow> ys \<noteq> [] \<Longrightarrow> 0 < n \<Longrightarrow>
    rncmp_loop f xs ys n = 0 \<longleftrightarrow> map f (take n xs) = map f (take n ys)"
proof (induction f xs ys n rule: rncmp_loop.induct)
  case (1 f x xs y ys n)
  then show ?case
    by (cases n; cases xs; cases ys) (auto simp: neq_Nil_conv)
qed simp_all

lemma c_string_rev [simp]: "c_string (rev s) = c_string s"
  by (simp add: c_string_def)

lemma rncmp_zero:
  assumes "\<forall>c. f c = 0 \<longleftrightarrow> c = 0" "c_string s1" "c_string s2"
  shows "rncmp f s1 s2 n = 0 \<longleftrightarrow> map f (take n (rev s1)) = map f (take n (rev s2))"
proof (cases "n = 0 \<or> s1 = [] \<or> s2 = []")
  case True
  moreover have "sint c = 0 \<longleftrightarrow> c = 0" for c :: byte by (metis signed_0 signed_word_eqI)
  ultimately show ?thesis using assms by (cases s1; cases s2) (auto simp: rncmp_def)
next
  case False
  then show ?thesis using rncmp_loop_zero [OF assms(1), of "rev s1" "rev s2" n] assms by (simp add: rncmp_def)
qed

section \<open>Searching\<close>

text \<open>The needle stands at offset \<open>b\<close>, byte for byte under the two mappings.\<close>

definition occurs :: "(byte \<Rightarrow> byte) \<Rightarrow> (byte \<Rightarrow> byte) \<Rightarrow> cstr \<Rightarrow> byte list \<Rightarrow> nat \<Rightarrow> bool" where
  "occurs fh fn needle s b \<longleftrightarrow> map fh (take (length needle) (drop b s)) = map fn needle"

definition partial_match ::
  "(byte \<Rightarrow> byte) \<Rightarrow> (byte \<Rightarrow> byte) \<Rightarrow> cstr \<Rightarrow> byte list \<Rightarrow> (cstr \<times> nat) option \<Rightarrow> bool"
where
  "partial_match fh fn needle pre st \<longleftrightarrow> (case st of None \<Rightarrow> True
     | Some (np, b) \<Rightarrow> np \<noteq> [] \<and> b < length pre \<and> (\<exists>dn. needle = dn @ np \<and> map fh (drop b pre) = map fn dn))"

lemma partial_match_start:
  "tl needle \<noteq> [] \<Longrightarrow> fh c = fn (hd needle) \<Longrightarrow> partial_match fh fn needle (pre @ [c]) (Some (tl needle, length pre))"
  by (cases needle) (auto simp: partial_match_def intro!: exI [of _ "[hd needle]"])

lemma partial_match_step:
  assumes "partial_match fh fn needle pre (Some (np, b))" "fh c = fn (hd np)" "tl np \<noteq> []"
  shows "partial_match fh fn needle (pre @ [c]) (Some (tl np, b))"
proof -
  from assms obtain dn where "needle = dn @ np" "map fh (drop b pre) = map fn dn" "b < length pre" "np \<noteq> []"
    by (auto simp: partial_match_def)
  with assms(2,3) show ?thesis
    by (cases np) (auto simp: partial_match_def intro!: exI [of _ "dn @ [hd np]"])
qed

lemma partial_match_done:
  assumes "partial_match fh fn needle pre (Some (np, b))" "fh c = fn (hd np)" "tl np = []"
  shows "occurs fh fn needle (pre @ c # s) b" "b + length needle = Suc (length pre)"
proof -
  from assms obtain dn where d: "needle = dn @ np" "map fh (drop b pre) = map fn dn" "b < length pre" "np \<noteq> []"
    by (auto simp: partial_match_def)
  with assms(3) obtain x where np: "np = [x]" by (cases np) auto
  from d(2) have l: "length pre - b = length dn" by (metis length_drop length_map)
  with d np show "b + length needle = Suc (length pre)" by simp
  have "take (length needle) (drop b (pre @ c # s)) = drop b pre @ [c]"
    using d(1,3) np l by simp
  then show "occurs fh fn needle (pre @ c # s) b"
    using d np assms(2) by (simp add: occurs_def)
qed

lemma search_loop_sound:
  "search_loop fh fn needle s (length pre) st = Some (b, e) \<Longrightarrow> needle \<noteq> [] \<Longrightarrow> partial_match fh fn needle pre st \<Longrightarrow>
   occurs fh fn needle (pre @ s) b \<and> b + length needle = Suc e \<and> e < length (pre @ s)"
proof (induction s arbitrary: pre st)
  case (Cons c s)
  note IH = Cons.IH [of "pre @ [c]", simplified]
  have restart: ?case
    if "(if fh c = fn (hd needle)
          then (if tl needle = [] then Some (length pre, length pre)
            else search_loop fh fn needle s (Suc (length pre)) (Some (tl needle, length pre)))
          else search_loop fh fn needle s (Suc (length pre)) None) = Some (b, e)"
  proof (cases "fh c = fn (hd needle) \<and> tl needle = []")
    case True
    with Cons.prems(2) obtain x where "needle = [x]" by (cases needle) auto
    with True that show ?thesis by (auto simp: occurs_def)
  next
    case False
    with that IH [OF _ Cons.prems(2)] partial_match_start show ?thesis
      by (auto simp: partial_match_def [of _ _ _ _ None] split: if_splits)
  qed
  show ?case
  proof (cases st)
    case None
    with Cons.prems(1) restart show ?thesis by simp
  next
    case (Some x)
    obtain np b' where st: "st = Some (np, b')" using Some by (cases x) auto
    show ?thesis
    proof (cases "fh c = fn (hd np)")
      case True
      with st Cons.prems partial_match_done [of fh fn needle pre np b' c] partial_match_step [of fh fn needle pre np b' c]
      show ?thesis using IH [OF _ Cons.prems(2)] by (auto split: if_splits)
    next
      case False
      with st Cons.prems(1) restart show ?thesis by simp
    qed
  qed
qed simp


text \<open>When the needle's first byte does not come again, nothing is missed.\<close>

definition restart_free :: "(byte \<Rightarrow> byte) \<Rightarrow> cstr \<Rightarrow> bool" where
  "restart_free fn needle \<longleftrightarrow> needle \<noteq> [] \<and> fn (hd needle) \<notin> fn ` set (tl needle)"

lemma occurs_nth:
  "occurs fh fn needle s j \<Longrightarrow> i < length needle \<Longrightarrow> j + i < length s \<and> fh (s ! (j + i)) = fn (needle ! i)"
proof -
  assume o: "occurs fh fn needle s j" and i: "i < length needle"
  then have l: "length (take (length needle) (drop j s)) = length needle"
    unfolding occurs_def by (metis length_map)
  with i have b: "j + i < length s" by simp
  have "map fh (take (length needle) (drop j s)) ! i = map fn needle ! i" using o by (simp add: occurs_def)
  then show ?thesis using b i l by simp
qed

lemma partial_match_fail:
  assumes p: "partial_match fh fn needle pre (Some (np, b))" and r: "restart_free fn needle"
    and c: "fh c \<noteq> fn (hd np)" and j: "b \<le> j" "j < length pre"
  shows "\<not> occurs fh fn needle (pre @ c # s) j"
proof
  assume o: "occurs fh fn needle (pre @ c # s) j"
  from p obtain dn where d: "needle = dn @ np" "map fh (drop b pre) = map fn dn" "b < length pre" "np \<noteq> []"
    by (auto simp: partial_match_def)
  have l: "length dn = length pre - b" using d(2) by (metis length_drop length_map)
  show False
  proof (cases "j = b")
    case True
    have "fh ((pre @ c # s) ! (j + length dn)) = fn (needle ! length dn)"
      using occurs_nth [OF o, of "length dn"] d by simp
    with True l d c show False by (simp add: nth_append hd_conv_nth)
  next
    case False
    have "fh (pre ! j) = fn (hd needle)"
      using occurs_nth [OF o, of 0] r j by (simp add: nth_append restart_free_def hd_conv_nth)
    moreover have "fh (pre ! j) = fn (dn ! (j - b))"
    proof -
      have "map fh (drop b pre) ! (j - b) = map fn dn ! (j - b)" using d(2) by simp
      then show ?thesis using j l by simp
    qed
    moreover have "dn ! (j - b) \<in> set (tl needle)"
    proof -
      have "0 < j - b" "j - b < length dn" using False j l by auto
      then have "tl needle ! (j - b - 1) = dn ! (j - b)" "j - b - 1 < length (tl needle)"
        using d(1) by (auto simp: nth_tl nth_append Suc_diff_Suc)
      then show ?thesis by (metis nth_mem)
    qed
    ultimately have "fn (hd needle) \<in> fn ` set (tl needle)" by (metis imageI)
    with r show False by (simp add: restart_free_def)
  qed
qed

definition searched :: "nat \<Rightarrow> (cstr \<times> nat) option \<Rightarrow> nat" where
  "searched p st = (case st of None \<Rightarrow> p | Some (np, b) \<Rightarrow> b)"

lemma search_loop_complete:
  assumes r: "restart_free fn needle"
  shows "partial_match fh fn needle pre st \<Longrightarrow> (\<forall>j < searched (length pre) st. \<not> occurs fh fn needle (pre @ s) j) \<Longrightarrow>
    (case search_loop fh fn needle s (length pre) st of
       None \<Rightarrow> \<forall>j. \<not> occurs fh fn needle (pre @ s) j
     | Some (b, e) \<Rightarrow> \<forall>j < b. \<not> occurs fh fn needle (pre @ s) j)"
proof (induction s arbitrary: pre st)
  case Nil
  have ne: "0 < length needle" using r by (simp add: restart_free_def)
  have "\<not> occurs fh fn needle pre j" for j
  proof
    assume o: "occurs fh fn needle pre j"
    have "j + 0 < length pre" using occurs_nth [OF o ne] by blast
    moreover have "j + (length needle - 1) < length pre" 
      by (rule occurs_nth [OF o, THEN conjunct1]) (use ne in simp)
    moreover have "searched (length pre) st \<le> j" using Nil.prems(2) o by (metis append_Nil2 not_less)
    ultimately show False
    proof (cases st)
      case (Some x)
      obtain np b where st: "st = Some (np, b)" using Some by (cases x) auto
      with Nil.prems(1) obtain dn where d: "needle = dn @ np" "map fh (drop b pre) = map fn dn" "np \<noteq> []" "b < length pre"
        by (auto simp: partial_match_def)
      from d(2) have "length dn = length pre - b" by (metis length_drop length_map)
      moreover obtain l where "length np = Suc l" using d(3) by (cases np) auto
      ultimately show False
        using \<open>j + (length needle - 1) < length pre\<close> \<open>searched (length pre) st \<le> j\<close> d(1,4) st
        by (simp add: searched_def)
    qed (simp add: searched_def)
  qed
  then show ?case by simp
next
  case (Cons c s)
  note IH = Cons.IH [of "pre @ [c]", unfolded append_assoc append.simps length_append_singleton]
  have ne: "0 < length needle" and hd: "hd needle = needle ! 0" using r by (auto simp: restart_free_def hd_conv_nth)
  have restart: "(case (if fh c = fn (hd needle)
          then (if tl needle = [] then Some (length pre, length pre)
            else search_loop fh fn needle s (Suc (length pre)) (Some (tl needle, length pre)))
          else search_loop fh fn needle s (Suc (length pre)) None) of
       None \<Rightarrow> \<forall>j. \<not> occurs fh fn needle (pre @ c # s) j
     | Some (b, e) \<Rightarrow> \<forall>j < b. \<not> occurs fh fn needle (pre @ c # s) j)"
    if no: "\<forall>j < length pre. \<not> occurs fh fn needle (pre @ c # s) j"
  proof (cases "fh c = fn (hd needle)")
    case True
    show ?thesis
    proof (cases "tl needle = []")
      case False
      have "partial_match fh fn needle (pre @ [c]) (Some (tl needle, length pre))"
        using partial_match_start [of needle fh c fn pre] False True by simp
      from IH [OF this] show ?thesis using True False no by (simp add: searched_def)
    qed (use True no in simp)
  next
    case False
    have "\<not> occurs fh fn needle (pre @ c # s) (length pre)"
      using occurs_nth [OF _ ne, of fh fn "pre @ c # s" "length pre"] False hd by auto
    with no have "\<forall>j < Suc (length pre). \<not> occurs fh fn needle (pre @ c # s) j" by (auto simp: less_Suc_eq)
    with IH [of None] False show ?thesis by (simp add: searched_def partial_match_def)
  qed
  show ?case
  proof (cases st)
    case None
    with Cons.prems(2) restart show ?thesis by (simp add: searched_def)
  next
    case (Some x)
    obtain np b where st: "st = Some (np, b)" using Some by (cases x) auto
    note pm = Cons.prems(1) [unfolded st]
    show ?thesis
    proof (cases "fh c = fn (hd np)")
      case True
      show ?thesis
      proof (cases "tl np = []")
        case False
        from IH [OF partial_match_step [where fh = fh and fn = fn, OF pm True False]] st True False Cons.prems(2)
        show ?thesis by (simp add: searched_def)
      qed (use st True Cons.prems(2) in \<open>simp add: searched_def\<close>)
    next
      case False
      have "\<forall>j < length pre. \<not> occurs fh fn needle (pre @ c # s) j"
        using partial_match_fail [where np = np, OF pm r False] Cons.prems(2) st
        by (simp add: searched_def) (meson not_less)
      with restart st False show ?thesis by simp
    qed
  qed
qed


lemma search_loop_first:
  assumes "restart_free fn needle"
  shows "search_loop fh fn needle s 0 None = Some (b, e) \<longleftrightarrow>
    occurs fh fn needle s b \<and> (\<forall>j < b. \<not> occurs fh fn needle s j) \<and> Suc e = b + length needle"
proof -
  have ne: "needle \<noteq> []" using assms by (simp add: restart_free_def)
  have pm: "partial_match fh fn needle [] None" by (simp add: partial_match_def)
  note sound = search_loop_sound [where pre = "[]", simplified, OF _ ne pm]
  note comp = search_loop_complete [OF assms pm, of s, simplified, unfolded searched_def, simplified]
  show ?thesis
  proof
    assume "search_loop fh fn needle s 0 None = Some (b, e)"
    with sound comp show "occurs fh fn needle s b \<and> (\<forall>j < b. \<not> occurs fh fn needle s j) \<and> Suc e = b + length needle"
      by auto
  next
    assume r: "occurs fh fn needle s b \<and> (\<forall>j < b. \<not> occurs fh fn needle s j) \<and> Suc e = b + length needle"
    show "search_loop fh fn needle s 0 None = Some (b, e)"
    proof (cases "search_loop fh fn needle s 0 None")
      case None
      with comp r show ?thesis by auto
    next
      case (Some x)
      obtain b' e' where x: "x = (b', e')" by (cases x)
      with Some have s: "search_loop fh fn needle s 0 None = Some (b', e')" by simp
      from sound [OF s] have o: "occurs fh fn needle s b'" "b' + length needle = Suc e'" by auto
      from comp s have "\<forall>j < b'. \<not> occurs fh fn needle s j" by simp
      with o(1) r have "b' = b" by (metis linorder_neqE_nat)
      with s o(2) r show ?thesis by simp
    qed
  qed
qed

lemma acl_strcasestr_sound:
  assumes "acl_strcasestr haystack needle = Some b"
  shows "occurs tolower tolower needle haystack b"
proof -
  from assms obtain e where "search_loop cm cm needle haystack (length ([] :: byte list)) None = Some (b, e)" "needle \<noteq> []"
    by (auto simp: acl_strcasestr_def split: if_splits)
  from search_loop_sound [OF this] show ?thesis
    by (simp add: partial_match_def cm_eq)
qed

text \<open>a forward search without regard to case that finds nothing missed nothing, and one that
  finds something found the first occurrence, when the needle's first byte does not come again in
  it: then \<open>acl_strcasestr\<close> points to the first place where the needle stands.\<close>

theorem acl_strcasestr_first:
  assumes "restart_free tolower needle"
  shows "acl_strcasestr haystack needle = Some b \<longleftrightarrow>
    occurs tolower tolower needle haystack b \<and> (\<forall>j < b. \<not> occurs tolower tolower needle haystack j)"
proof -
  have ne: "needle \<noteq> []" using assms by (simp add: restart_free_def)
  have "\<exists>e. Suc e = b + length needle" using ne by (cases needle) auto
  then show ?thesis
    using search_loop_first [OF assms, of tolower haystack b] ne by (auto simp: acl_strcasestr_def cm_eq)
qed

lemma acl_strcasestr_first_witness:
  "acl_strcasestr (lit ''a=B; path=/'') (lit ''PATH'') = Some 5"
proof -
  have "restart_free tolower (lit ''PATH'')" by code_simp
  from acl_strcasestr_first [OF this] show ?thesis by (rule iffD2) code_simp
qed

text \<open>in general the search misses occurrences. It keeps one partial match and starts over after
  the byte where that fails, so in \<open>aaab\<close> it does not find \<open>aab\<close>, which is there.\<close>

theorem acl_strcasestr_misses:
  "acl_strcasestr (lit ''aaab'') (lit ''aab'') = None \<and> occurs tolower tolower (lit ''aab'') (lit ''aaab'') 1"
  by code_simp

text \<open>\<open>acl_rstrcasestr\<close> is documented to search without regard to case. It maps the bytes of the
  needle to lower case and not those of the string, so it is the search for the lower-case needle
  exactly as it is written: an upper-case letter of the string is never found.\<close>

theorem acl_rstrcasestr_sensitive:
  "acl_rstrcasestr haystack needle = acl_rstrstr haystack (map_option (map tolower) needle)"
proof -
  have "search_loop (\<lambda>c. c) cm n s p st = search_loop (\<lambda>c. c) (\<lambda>c. c) (map tolower n) s p (map_option (map_prod (map tolower) id) st)"
    if "n \<noteq> []" "\<forall>np b. st = Some (np, b) \<longrightarrow> np \<noteq> []" for n s p st
    using that(2)
  proof (induction s arbitrary: p st)
    case (Cons c s)
    then show ?case using that(1)
      by (cases st; cases n) (auto simp: hd_map map_tl [symmetric])
  qed simp
  then show ?thesis
    by (auto simp: acl_rstrcasestr_def acl_rstrstr_def rsearch_def rev_map split: option.splits)
qed

text \<open>\<open>acl_strrncmp\<close> compares at most \<open>n\<close> bytes from the end: it gives 0 exactly when the last \<open>n\<close>
  bytes, or the whole strings, are the same.\<close>

theorem acl_strrncmp_zero:
  assumes "c_string s1" "c_string s2"
  shows "acl_strrncmp s1 s2 n = 0 \<longleftrightarrow> take n (rev s1) = take n (rev s2)"
  using rncmp_zero [of "\<lambda>c. c", OF _ assms] by (simp add: acl_strrncmp_def)

lemma acl_strrncmp_zero_witness: "acl_strrncmp (lit ''mail.txt'') (lit ''old.txt'') 4 = 0"
proof -
  have "c_string (lit ''mail.txt'')" "c_string (lit ''old.txt'')" by code_simp+
  from acl_strrncmp_zero [OF this] show ?thesis by (rule iffD2) code_simp
qed

text \<open>other than for equality its sign says nothing: of \<open>a\<close> and \<open>ba\<close> each is less than the other.\<close>

theorem acl_strrncmp_not_an_order:
  "acl_strrncmp (lit ''a'') (lit ''ba'') 2 < 0 \<and> acl_strrncmp (lit ''ba'') (lit ''a'') 2 < 0"
  by code_simp

section \<open>Name and value\<close>

lemma takeWhile_all_append: "(\<forall>x \<in> set xs. P x) \<Longrightarrow> takeWhile P (xs @ ys) = xs @ takeWhile P ys"
  by (induction xs) auto

text \<open>\<open>acl_split_nameval\<close> reads back what was written as a name, an equal sign and a value, with
  any blanks around them.\<close>

theorem acl_split_nameval_roundtrip:
  assumes name: "name \<noteq> []" "\<forall>c \<in> set name. \<not> isspace c \<and> c \<noteq> 61"
    and val: "v \<noteq> []" "\<not> isspace (hd v)" "\<not> isspace (last v)"
    and b: "\<forall>c \<in> set (b1 @ b2 @ b3 @ b4). isspace c"
  shows "\<exists>buf. acl_split_nameval (b1 @ name @ b2 @ 61 # b3 @ v @ b4) = Inr (name, v, buf)"
proof -
  let ?buf = "b1 @ name @ b2 @ 61 # b3 @ v @ b4"
  have eq: "\<not> isspace 61" by (simp add: isspace_def)
  have hn: "\<not> isspace (hd name)" using name by (cases name) auto
  have t1: "takeWhile isspace ?buf = b1"
    using b hn name(1) by (cases name) (auto simp: takeWhile_all_append)
  have t2: "takeWhile (\<lambda>c. \<not> isspace c \<and> c \<noteq> 61) (name @ b2 @ 61 # b3 @ v @ b4) = name"
    using name b by (cases b2) (auto simp: takeWhile_all_append)
  have t3: "takeWhile isspace (b2 @ 61 # b3 @ v @ b4) = b2"
    using b eq by (auto simp: takeWhile_all_append)
  have t4: "takeWhile isspace (b3 @ v @ b4) = b3"
    using b val by (cases v) (auto simp: takeWhile_all_append)
  have t5: "takeWhile isspace (rev (v @ b4)) = rev b4"
    using b val by (cases v rule: rev_cases) (auto simp: takeWhile_all_append)
  have "trim_end (v @ b4) = length v" using t5 by (simp add: trim_end_def)
  then have "split_nameval_at ?buf = Inr (length b1, length b1 + length name,
      length b1 + length name + length b2 + 1 + length b3, length b1 + length name + length b2 + 1 + length b3 + length v)"
    using name(1) t1 t2 t3 t4 by (simp add: split_nameval_at_def Let_def nth_append)
  then show ?thesis by (simp add: acl_split_nameval_def)
qed

lemma acl_split_nameval_roundtrip_witness:
  "\<exists>buf. acl_split_nameval (lit '' port = 6379 '') = Inr (lit ''port'', lit ''6379'', buf)"
proof -
  have "lit '' port = 6379 '' = lit '' '' @ lit ''port'' @ lit '' '' @ 61 # lit '' '' @ lit ''6379'' @ lit '' ''"
    by code_simp
  then show ?thesis
    by (simp only:) (rule acl_split_nameval_roundtrip; code_simp)
qed

end
