(* ===== verification/Acl_Vstring.thy ===== *)
theory Acl_Vstring
  imports Acl_Strings "HOL-Library.Monad_Syntax"
begin

text \<open>
  \<^verbatim>\<open>acllib/src/stdlib/acl_vstring.c\<close>, the growing string under \<open>acl::string\<close>, and the part of
  \<^verbatim>\<open>acl_vbuf.c\<close> that writes. A string is its buffer (\<open>vbuf.data\<close>, as long as \<open>vbuf.len\<close>), the offset
  of \<open>vbuf.ptr\<close>, the end-of-data flag and \<open>maxlen\<close>. \<open>vbuf.cnt\<close> is what is left of the buffer: every
  statement of the file that sets one of \<open>ptr\<close>, \<open>len\<close> and \<open>cnt\<close> keeps it so. \<open>vs_junk\<close> is what fresh
  memory holds. Strings in a slice or dbuf pool are the same with other bytes; strings mapped to a
  file and fixed buffers are left out, and so are buffers of 2^31 bytes and more at the start, whose
  length is cast to \<open>int\<close>. Three functions cast an offset to \<open>int\<close> (\<open>vs_at_int\<close>), and \<open>prepend\<close> a length;
  their lemmas ask for fewer than 2^31 bytes.

  Operations are in the option monad: \<open>None\<close> is an access outside of the buffer, the use of memory
  that was freed, or \<open>acl_msg_panic\<close>. A source pointer is bytes from elsewhere or an offset in the
  string's own buffer, because the code does both.

  Without \<open>maxlen\<close>, \<open>vs_ok\<close> (terminated, room for the terminator) is kept by every operation, none
  of them fails, and each does to \<open>vs_text\<close> what it should.
\<close>

section \<open>The buffer\<close>

record vstring =
  vs_data :: "byte list"
  vs_pos :: nat
  vs_eof :: bool
  vs_maxlen :: int
  vs_junk :: "nat \<Rightarrow> byte"

abbreviation vs_size :: "vstring \<Rightarrow> nat" where
  "vs_size v \<equiv> length (vs_data v)"

definition vs_cnt :: "vstring \<Rightarrow> int" where
  "vs_cnt v = int (vs_size v) - int (vs_pos v)"

definition vs_at_offset :: "vstring \<Rightarrow> nat \<Rightarrow> vstring" where
  "vs_at_offset v off = v\<lparr>vs_pos := off\<rparr>"

text \<open>With the offset cast to \<open>int\<close>: a negative one points before the buffer.\<close>

definition vs_at_int :: "vstring \<Rightarrow> nat \<Rightarrow> vstring option" where
  "vs_at_int v off =
     (let n = signed_take_bit 31 (int off) in if n < 0 then None else Some (vs_at_offset v (nat n)))"

lemma vs_at_int [simp]: "off < 2 ^ 31 \<Longrightarrow> vs_at_int v off = Some (vs_at_offset v off)"
  by (simp add: vs_at_int_def Let_def signed_take_bit_int_eq_self)

definition vs_reset :: "vstring \<Rightarrow> vstring" where
  "vs_reset v = v\<lparr>vs_pos := 0, vs_eof := False\<rparr>"

text \<open>A copy of bytes into the buffer.\<close>

definition put_bytes :: "vstring \<Rightarrow> nat \<Rightarrow> byte list \<Rightarrow> vstring option" where
  "put_bytes v off bs =
     (if off + length bs \<le> vs_size v
      then Some (v\<lparr>vs_data := take off (vs_data v) @ bs @ drop (off + length bs) (vs_data v)\<rparr>)
      else None)"

text \<open>The second half of \<open>vstring_extend\<close>.\<close>

definition vs_grow :: "vstring \<Rightarrow> int \<Rightarrow> vstring" where
  "vs_grow v incr =
     (let len = int (vs_size v);
          new_len = len + (if len > incr then len else incr);
          new_len = nat (if vs_maxlen v > 0 \<and> new_len > vs_maxlen v then vs_maxlen v else new_len)
      in v\<lparr>vs_data := take new_len (vs_data v) @ map (vs_junk v) [vs_size v..<new_len]\<rparr>)"

text \<open>The macros \<open>ACL_VSTRING_SPACE\<close> and \<open>ACL_VSTRING_TERMINATE\<close> call the extension through the
  buffer's \<open>space\<close>, so here they take it as an argument.\<close>

definition space_by :: "(vstring \<Rightarrow> int \<Rightarrow> (int \<times> vstring) option) \<Rightarrow> vstring \<Rightarrow> int \<Rightarrow> (int \<times> vstring) option" where
  "space_by ext v len =
     (if len < 0 then None
      else let need = len - vs_cnt v in if need > 0 then ext v need else Some (0, v))"

definition terminate_by :: "(vstring \<Rightarrow> int \<Rightarrow> (int \<times> vstring) option) \<Rightarrow> vstring \<Rightarrow> vstring option" where
  "terminate_by ext v = do {
     v \<leftarrow> (if vs_cnt v \<le> 0 then map_option snd (space_by ext v 1) else Some v);
     if vs_cnt v > 0 then put_bytes v (vs_pos v) [0]
     else if vs_pos v > 0 then put_bytes (vs_at_offset v (vs_pos v - 1)) (vs_pos v - 1) [0]
     else Some v }"

text \<open>When the text has reached \<open>maxlen\<close> it is cut to \<open>maxlen - 1\<close> and terminated, so that a further
  extension inside of that passes the test.\<close>

definition vstring_extend :: "vstring \<Rightarrow> int \<Rightarrow> (int \<times> vstring) option" where
  "vstring_extend v incr =
     (if vs_maxlen v > 0 \<and> int (vs_pos v) \<ge> vs_maxlen v
      then do {
        v \<leftarrow> terminate_by (\<lambda>v incr. Some (0, vs_grow v incr)) (vs_at_offset v (nat (vs_maxlen v - 1)));
        Some (-1, v\<lparr>vs_eof := True\<rparr>) }
      else Some (0, vs_grow v incr))"

definition vstring_buf_space :: "vstring \<Rightarrow> int \<Rightarrow> (int \<times> vstring) option" where
  "vstring_buf_space = space_by vstring_extend"

definition vs_terminate :: "vstring \<Rightarrow> vstring option" where
  "vs_terminate = terminate_by vstring_extend"

text \<open>\<open>ACL_VBUF_PUT\<close> and \<open>acl_vbuf_put\<close>, which call each other.\<close>

partial_function (option) vs_addch :: "vstring \<Rightarrow> byte \<Rightarrow> (int \<times> vstring) option" where
  "vs_addch v c =
     (if vs_cnt v > 0
      then do { v \<leftarrow> put_bytes v (vs_pos v) [c]; Some (uint c, vs_at_offset v (Suc (vs_pos v))) }
      else do {
        (r, v) \<leftarrow> vstring_extend v 0;
        if r \<noteq> 0 then Some (-1, v) else vs_addch v c })"

text \<open>\<open>acl_vbuf_write\<close>: how many bytes were written. A negative \<open>n\<close> makes the copy run off.\<close>

partial_function (option) vbuf_write_loop :: "vstring \<Rightarrow> byte list \<Rightarrow> nat \<Rightarrow> (nat \<times> vstring) option" where
  "vbuf_write_loop v buf done =
     (if buf = [] then Some (done, v)
      else do {
        (r, v) \<leftarrow> (if vs_cnt v \<le> 0 then vstring_extend v 0 else Some (0, v));
        if r \<noteq> 0 then Some (done, v)
        else if vs_cnt v < 0 then None
        else do {
          let n = min (length buf) (nat (vs_cnt v));
          v \<leftarrow> put_bytes v (vs_pos v) (take n buf);
          vbuf_write_loop (vs_at_offset v (vs_pos v + n)) (drop n buf) (done + n) } })"

definition acl_vbuf_write :: "vstring \<Rightarrow> byte list \<Rightarrow> (nat \<times> vstring) option" where
  "acl_vbuf_write v buf = vbuf_write_loop v buf 0"

section \<open>Making strings\<close>

definition vs_new :: "(nat \<Rightarrow> byte) \<Rightarrow> nat \<Rightarrow> vstring" where
  "vs_new junk len = \<lparr>vs_data = 0 # map junk [1..<len], vs_pos = 0, vs_eof = False, vs_maxlen = 0, vs_junk = junk\<rparr>"

definition acl_vstring_init :: "(nat \<Rightarrow> byte) \<Rightarrow> nat \<Rightarrow> vstring option" where
  "acl_vstring_init junk len = (if len < 1 then None else Some (vs_new junk len))"

definition acl_vstring_alloc :: "(nat \<Rightarrow> byte) \<Rightarrow> nat \<Rightarrow> vstring" where
  "acl_vstring_alloc junk len = vs_new junk (if len < 1 then 64 else len)"

text \<open>\<open>acl_vstring_ctl\<close> with a list of \<open>ACL_VSTRING_CTL_MAXLEN\<close> settings.\<close>

fun acl_vstring_ctl :: "vstring \<Rightarrow> int list \<Rightarrow> vstring option" where
  "acl_vstring_ctl v [] = Some v"
| "acl_vstring_ctl v (m # ms) = (if m < 0 then None else acl_vstring_ctl (v\<lparr>vs_maxlen := m\<rparr>) ms)"

text \<open>\<open>acl_vstring_glue\<close> on a buffer; one of no bytes is written to all the same.\<close>

definition acl_vstring_glue :: "vstring \<Rightarrow> byte list \<Rightarrow> vstring option" where
  "acl_vstring_glue v buf =
     put_bytes (v\<lparr>vs_data := buf, vs_pos := 0, vs_eof := False, vs_maxlen := 0\<rparr>) 0 [0]"

section \<open>Copying and appending\<close>

datatype vs_src = Ext "byte list" | Own nat

text \<open>\<open>len\<close> bytes at the source. \<open>moved\<close>: the string's buffer was reallocated since the pointer was
  taken.\<close>

definition src_bytes :: "bool \<Rightarrow> vstring \<Rightarrow> vs_src \<Rightarrow> nat \<Rightarrow> byte list option" where
  "src_bytes moved v src len = (case src of
     Ext bs \<Rightarrow> if len \<le> length bs then Some (take len bs) else None
   | Own off \<Rightarrow> if moved \<or> off + len > vs_size v then None else Some (take len (drop off (vs_data v))))"

text \<open>\<open>memcpy\<close> of overlapping ranges that are not the same is undefined.\<close>

definition overlaps :: "vs_src \<Rightarrow> nat \<Rightarrow> nat \<Rightarrow> bool" where
  "overlaps src dst n = (case src of
     Ext bs \<Rightarrow> False | Own off \<Rightarrow> off \<noteq> dst \<and> off < dst + n \<and> dst < off + n)"

definition acl_vstring_truncate :: "vstring \<Rightarrow> nat \<Rightarrow> vstring option" where
  "acl_vstring_truncate v len = (if len < vs_pos v then vs_at_int v len \<bind> vs_terminate else Some v)"

definition acl_vstring_memcpy :: "vstring \<Rightarrow> vs_src \<Rightarrow> nat \<Rightarrow> vstring option" where
  "acl_vstring_memcpy v src len = do {
     let v = vs_reset v;
     v \<leftarrow> (if len > 0
       then do {
         let moved = (int len > vs_cnt v);
         (r, v) \<leftarrow> vstring_buf_space v (int len);
         let n = min (int len) (vs_cnt v);
         if n > 0
         then do {
           bs \<leftarrow> src_bytes moved v src (nat n);
           if overlaps src 0 (nat n) then None
           else do { v \<leftarrow> put_bytes v 0 bs; Some (vs_at_offset v (nat n)) } }
         else Some v }
       else Some v);
     vs_terminate v }"

definition acl_vstring_strcpy :: "vstring \<Rightarrow> cstr \<Rightarrow> vstring option" where
  "acl_vstring_strcpy v src = acl_vstring_memcpy v (Ext src) (length src)"

definition acl_vstring_strncpy :: "vstring \<Rightarrow> cstr \<Rightarrow> nat \<Rightarrow> vstring option" where
  "acl_vstring_strncpy v src len = acl_vstring_memcpy v (Ext src) (min (length src) len)"

definition acl_vstring_memcat :: "vstring \<Rightarrow> vs_src \<Rightarrow> nat \<Rightarrow> vstring option" where
  "acl_vstring_memcat v src len = do {
     v \<leftarrow> (if len > 0
       then do {
         let moved = (int len > vs_cnt v);
         (r, v) \<leftarrow> vstring_buf_space v (int len);
         let n = min (int len) (vs_cnt v);
         if n > 0
         then do {
           bs \<leftarrow> src_bytes moved v src (nat n);
           if overlaps src (vs_pos v) (nat n) then None
           else do { v \<leftarrow> put_bytes v (vs_pos v) bs; Some (vs_at_offset v (nat n + vs_pos v)) } }
         else Some v }
       else Some v);
     vs_terminate v }"

definition acl_vstring_strcat :: "vstring \<Rightarrow> cstr \<Rightarrow> vstring option" where
  "acl_vstring_strcat v src = acl_vstring_memcat v (Ext src) (length src)"

definition acl_vstring_strncat :: "vstring \<Rightarrow> cstr \<Rightarrow> nat \<Rightarrow> vstring option" where
  "acl_vstring_strncat v src len = acl_vstring_memcat v (Ext src) (min (length src) len)"

text \<open>\<open>memmove\<close>: inside of the own buffer, or into a new buffer, after the old one is freed.\<close>

definition acl_vstring_memmove :: "vstring \<Rightarrow> vs_src \<Rightarrow> nat \<Rightarrow> vstring option" where
  "acl_vstring_memmove v src len =
     (if len = 0 then Some v
      else case src of
        Own off \<Rightarrow>
          if off + len \<le> vs_size v
          then do {
            v \<leftarrow> put_bytes v 0 (take len (drop off (vs_data v)));
            v \<leftarrow> vs_at_int v len;
            vs_terminate v }
          else None
      | Ext bs \<Rightarrow>
          if len \<le> length bs then vs_terminate (vs_at_offset (v\<lparr>vs_data := take len bs\<rparr>) len) else None)"

text \<open>The room made by \<open>insert\<close> and \<open>prepend\<close> at \<open>start\<close>, and the text put there. \<open>at\<close> sets the new
  end and \<open>space_len\<close> is the cast of the length, which differ in the two.\<close>

definition insert_at ::
  "(vstring \<Rightarrow> nat \<Rightarrow> vstring option) \<Rightarrow> (int \<Rightarrow> int) \<Rightarrow> vstring \<Rightarrow> nat \<Rightarrow> byte list \<Rightarrow> vstring option"
where
  "insert_at at space_len v start buf = do {
     let len = length buf;
     let new_len = vs_pos v + len;
     (r, v) \<leftarrow> vstring_buf_space v (space_len (int len));
     let n = nat (vs_cnt v);
     let len = (if len > n then n else len);
     if len > 0
     then do {
       v \<leftarrow> put_bytes v (start + len) (take (vs_pos v - start) (drop start (vs_data v)));
       v \<leftarrow> put_bytes v start (take len buf);
       v \<leftarrow> at v new_len;
       vs_terminate v }
     else Some v }"

definition acl_vstring_insert :: "vstring \<Rightarrow> nat \<Rightarrow> byte list \<Rightarrow> vstring option" where
  "acl_vstring_insert v start buf = (if start \<ge> vs_pos v then None else insert_at vs_at_int id v start buf)"

definition acl_vstring_prepend :: "vstring \<Rightarrow> byte list \<Rightarrow> vstring option" where
  "acl_vstring_prepend v buf = insert_at (\<lambda>v n. Some (vs_at_offset v n)) (signed_take_bit 31) v 0 buf"

definition acl_vstring_charat :: "vstring \<Rightarrow> nat \<Rightarrow> byte option" where
  "acl_vstring_charat v offset =
     (if offset \<ge> vs_pos v \<or> offset \<ge> vs_size v then None else Some (vs_data v ! offset))"

section \<open>Searching\<close>

text \<open>The bytes from \<open>data\<close> up to \<open>ptr\<close>.\<close>

definition vs_text :: "vstring \<Rightarrow> byte list" where
  "vs_text v = take (vs_pos v) (vs_data v)"

definition acl_vstring_memchr :: "vstring \<Rightarrow> byte \<Rightarrow> nat option" where
  "acl_vstring_memchr v c = strchr_idx (vs_text v) c"

definition vs_search :: "(byte \<Rightarrow> byte) \<Rightarrow> vstring \<Rightarrow> cstr option \<Rightarrow> nat option" where
  "vs_search f v needle = (case needle of
     None \<Rightarrow> None
   | Some n \<Rightarrow> if n = [] then None else map_option fst (search_loop f f n (vs_text v) 0 None))"

definition acl_vstring_strstr :: "vstring \<Rightarrow> cstr option \<Rightarrow> nat option" where
  "acl_vstring_strstr = vs_search (\<lambda>c. c)"

definition acl_vstring_strcasestr :: "vstring \<Rightarrow> cstr option \<Rightarrow> nat option" where
  "acl_vstring_strcasestr = vs_search cm"

definition vs_rsearch :: "(byte \<Rightarrow> byte) \<Rightarrow> vstring \<Rightarrow> cstr option \<Rightarrow> nat option" where
  "vs_rsearch fn v needle = (case needle of
     None \<Rightarrow> None | Some n \<Rightarrow> if n = [] then None else rsearch (\<lambda>c. c) fn n (vs_text v))"

definition acl_vstring_rstrstr :: "vstring \<Rightarrow> cstr option \<Rightarrow> nat option" where
  "acl_vstring_rstrstr = vs_rsearch (\<lambda>c. c)"

definition acl_vstring_rstrcasestr :: "vstring \<Rightarrow> cstr option \<Rightarrow> nat option" where
  "acl_vstring_rstrcasestr = vs_rsearch cm"

section \<open>Lines of a buffer\<close>

text \<open>\<open>acl_buffer_gets_nonl\<close> and \<open>acl_buffer_gets\<close>: whether there was a line, the string, and what
  \<open>*src\<close> points to afterwards. The first goes back over the carriage returns and line feeds in front
  of the line feed it found.\<close>

definition acl_buffer_gets_nonl :: "vstring \<Rightarrow> byte list \<Rightarrow> (bool \<times> vstring \<times> byte list) option" where
  "acl_buffer_gets_nonl v src =
     (if src = [] then Some (False, v, src)
      else case strchr_idx src 10 of
        None \<Rightarrow> do {
          v \<leftarrow> acl_vstring_memcat v (Ext src) (length src);
          v \<leftarrow> vs_terminate v;
          Some (False, v, []) }
      | Some i \<Rightarrow> do {
          let line = rev (dropWhile (\<lambda>c. c = 13 \<or> c = 10) (rev (take (Suc i) src)));
          v \<leftarrow> (if line = [] then Some v else acl_vstring_memcat v (Ext src) (length line));
          v \<leftarrow> vs_terminate v;
          Some (True, v, drop (Suc i) src) })"

definition acl_buffer_gets :: "vstring \<Rightarrow> byte list \<Rightarrow> (bool \<times> vstring \<times> byte list) option" where
  "acl_buffer_gets v src =
     (if src = [] then Some (False, v, src)
      else case strchr_idx src 10 of
        None \<Rightarrow> do {
          v \<leftarrow> acl_vstring_memcat v (Ext src) (length src);
          v \<leftarrow> vs_terminate v;
          Some (False, v, []) }
      | Some i \<Rightarrow> do {
          v \<leftarrow> acl_vstring_memcat v (Ext src) (Suc i);
          v \<leftarrow> vs_terminate v;
          Some (True, v, drop (Suc i) src) })"

section \<open>Strings without a limit\<close>

definition vs_ok :: "vstring \<Rightarrow> bool" where
  "vs_ok v \<longleftrightarrow> vs_maxlen v = 0 \<and> vs_pos v < vs_size v \<and> vs_data v ! vs_pos v = 0"

text \<open>As it is in the middle of an operation: not terminated.\<close>

definition vs_open :: "vstring \<Rightarrow> bool" where
  "vs_open v \<longleftrightarrow> vs_maxlen v = 0 \<and> vs_pos v \<le> vs_size v \<and> 0 < vs_size v"

named_theorems vs_simps "what an operation does to the text"

lemma vs_okD: "vs_ok v \<Longrightarrow> vs_open v"
  by (auto simp: vs_ok_def vs_open_def)

lemma length_vs_text: "vs_open v \<Longrightarrow> length (vs_text v) = vs_pos v"
  by (simp add: vs_open_def vs_text_def)

lemma vs_grow_open:
  assumes "vs_open v"
  shows "vs_open (vs_grow v incr)" "vs_text (vs_grow v incr) = vs_text v" "vs_pos (vs_grow v incr) = vs_pos v"
    "int (vs_size v) < int (vs_size (vs_grow v incr))" "int (vs_size v) + incr \<le> int (vs_size (vs_grow v incr))"
    "take (vs_size v) (vs_data (vs_grow v incr)) = vs_data v"
  using assms by (auto simp: vs_grow_def vs_open_def vs_text_def Let_def simp del: length_greater_0_conv)

lemma vstring_extend_open: "vs_open v \<Longrightarrow> vstring_extend v incr = Some (0, vs_grow v incr)"
  by (simp add: vstring_extend_def vs_open_def)

lemma vstring_buf_space_open:
  assumes "vs_open v"
  obtains v' where "vstring_buf_space v (int len) = Some (0, v')" "vs_open v'" "vs_text v' = vs_text v"
    "vs_pos v' = vs_pos v" "vs_pos v + len \<le> vs_size v'" "int len \<le> vs_cnt v \<longrightarrow> v' = v"
    "take (vs_size v) (vs_data v') = vs_data v" "vs_size v \<le> vs_size v'"
proof (cases "int len - vs_cnt v > 0")
  case True
  then show ?thesis
    using vs_grow_open [OF assms, of "int len - vs_cnt v"] vstring_extend_open [OF assms]
    by (intro that [of "vs_grow v (int len - vs_cnt v)"])
      (auto simp: vstring_buf_space_def space_by_def vs_cnt_def Let_def)
next
  case False
  then show ?thesis
    using assms by (intro that [of v]) (auto simp: vstring_buf_space_def space_by_def vs_cnt_def Let_def vs_open_def)
qed

lemma vs_terminate_open:
  assumes "vs_open v"
  obtains v' where "vs_terminate v = Some v'" "vs_ok v'" "vs_text v' = vs_text v" "vs_pos v' = vs_pos v"
proof -
  have sp: "space_by vstring_extend v 1 = vstring_buf_space v (int 1)" by (simp add: vstring_buf_space_def)
  define w where "w = (if vs_cnt v \<le> 0 then vs_grow v (1 - vs_cnt v) else v)"
  have w: "vs_open w" "vs_text w = vs_text v" "vs_pos w = vs_pos v" "vs_pos w < vs_size w"
    using vs_grow_open [OF assms, of "1 - vs_cnt v"] assms by (auto simp: w_def vs_cnt_def vs_open_def)
  have "vs_terminate v = put_bytes w (vs_pos w) [0]"
    using w assms vstring_extend_open [OF assms]
    by (auto simp: vs_terminate_def terminate_by_def space_by_def w_def Let_def vs_cnt_def)
  moreover define u where "u = w\<lparr>vs_data := take (vs_pos w) (vs_data w) @ [0] @ drop (Suc (vs_pos w)) (vs_data w)\<rparr>"
  moreover have "vs_ok u" "vs_text u = vs_text w" "vs_pos u = vs_pos w"
    using w(1,4) by (simp_all add: u_def vs_ok_def vs_open_def vs_text_def nth_append)
  ultimately show ?thesis
    using w(2-4) by (intro that [of u]) (simp_all add: put_bytes_def)
qed

lemma src_bytes_Ext [simp]: "len \<le> length bs \<Longrightarrow> src_bytes moved v (Ext bs) len = Some (take len bs)"
  by (simp add: src_bytes_def)

lemma overlaps_Ext [simp]: "\<not> overlaps (Ext bs) dst n"
  by (simp add: overlaps_def)

lemma vs_open_reset [simp]: "vs_open v \<Longrightarrow> vs_open (vs_reset v)" "vs_pos (vs_reset v) = 0"
  "vs_text (vs_reset v) = []" "vs_size (vs_reset v) = vs_size v"
  by (auto simp: vs_open_def vs_reset_def vs_text_def)

text \<open>Bytes put at the end of the text.\<close>

lemma put_at_end:
  assumes "vs_open v" "vs_pos v + length bs \<le> vs_size v"
  obtains v' where "put_bytes v (vs_pos v) bs = Some v'" "vs_open (vs_at_offset v' (vs_pos v + length bs))"
    "vs_text (vs_at_offset v' (vs_pos v + length bs)) = vs_text v @ bs"
  using assms
  by (intro that [of "v\<lparr>vs_data := take (vs_pos v) (vs_data v) @ bs @ drop (vs_pos v + length bs) (vs_data v)\<rparr>"])
    (auto simp: put_bytes_def vs_open_def vs_at_offset_def vs_text_def)

lemma acl_vstring_memcat_ok [vs_simps]:
  assumes v: "vs_open v" and len: "len \<le> length src"
  shows "\<exists>v'. acl_vstring_memcat v (Ext src) len = Some v' \<and> vs_ok v' \<and> vs_text v' = vs_text v @ take len src"
proof (cases "len = 0")
  case True
  from v obtain v' where "vs_terminate v = Some v'" "vs_ok v'" "vs_text v' = vs_text v"
    by (rule vs_terminate_open)
  with True show ?thesis by (simp add: acl_vstring_memcat_def)
next
  case False
  obtain w where w: "vstring_buf_space v (int len) = Some (0, w)" "vs_open w" "vs_text w = vs_text v"
    "vs_pos w = vs_pos v" "vs_pos v + len \<le> vs_size w"
    by (rule vstring_buf_space_open [OF v, of len]) blast
  have n: "min (int len) (vs_cnt w) = int len" "vs_cnt w > 0" using w(4,5) False by (simp_all add: vs_cnt_def)
  have l: "length (take len src) = len" using len by simp
  obtain u where u: "put_bytes w (vs_pos w) (take len src) = Some u" "vs_open (vs_at_offset u (vs_pos w + len))"
    "vs_text (vs_at_offset u (vs_pos w + len)) = vs_text w @ take len src"
    using put_at_end [OF w(2), of "take len src"] w(4,5) l by auto
  have pos: "vs_pos u = vs_pos w" using u(1) by (auto simp: put_bytes_def split: if_splits)
  from u(2) obtain v' where "vs_terminate (vs_at_offset u (vs_pos w + len)) = Some v'" "vs_ok v'"
    "vs_text v' = vs_text (vs_at_offset u (vs_pos w + len))" by (rule vs_terminate_open)
  with False w(1,3) n len u(1,3) pos show ?thesis
    by (simp add: acl_vstring_memcat_def Let_def add.commute)
qed

lemma acl_vstring_memcpy_ok [vs_simps]:
  assumes v: "vs_open v" and len: "len \<le> length src"
  shows "\<exists>v'. acl_vstring_memcpy v (Ext src) len = Some v' \<and> vs_ok v' \<and> vs_text v' = take len src"
proof -
  have "acl_vstring_memcpy v (Ext src) len = acl_vstring_memcat (vs_reset v) (Ext src) len"
  proof (cases "len = 0")
    case False
    obtain w where w: "vstring_buf_space (vs_reset v) (int len) = Some (0, w)" "vs_pos w = vs_pos (vs_reset v)"
      by (rule vstring_buf_space_open [of "vs_reset v" len]) (use v in auto)
    then have "vs_pos w = 0" by simp
    with w(1) show ?thesis
      by (simp add: acl_vstring_memcpy_def acl_vstring_memcat_def Let_def)
        (auto simp: put_bytes_def intro!: Option.bind_cong split: if_splits)
  qed (simp add: acl_vstring_memcpy_def acl_vstring_memcat_def)
  with acl_vstring_memcat_ok [of "vs_reset v" len src] v len show ?thesis by simp
qed

lemma acl_vstring_memmove_ok [vs_simps]:
  assumes v: "vs_ok v"
  shows "0 < len \<Longrightarrow> len \<le> length bs \<Longrightarrow>
      \<exists>v'. acl_vstring_memmove v (Ext bs) len = Some v' \<and> vs_ok v' \<and> vs_text v' = take len bs"
    "0 < len \<Longrightarrow> off + len \<le> vs_pos v \<Longrightarrow> len < 2 ^ 31 \<Longrightarrow>
      \<exists>v'. acl_vstring_memmove v (Own off) len = Some v' \<and> vs_ok v' \<and> vs_text v' = take len (drop off (vs_text v))"
proof -
  assume l: "0 < len" "len \<le> length bs"
  let ?v = "vs_at_offset (v\<lparr>vs_data := take len bs\<rparr>) len"
  have "vs_open ?v" "vs_text ?v = take len bs"
    using v l by (auto simp: vs_open_def vs_ok_def vs_at_offset_def vs_text_def)
  with l vs_terminate_open [of ?v] show "\<exists>v'. acl_vstring_memmove v (Ext bs) len = Some v' \<and> vs_ok v' \<and> vs_text v' = take len bs"
    by (simp add: acl_vstring_memmove_def) metis
next
  assume l: "0 < len" "off + len \<le> vs_pos v" "len < 2 ^ 31"
  let ?d = "take len (drop off (vs_data v))"
  let ?v = "v\<lparr>vs_data := ?d @ drop len (vs_data v)\<rparr>"
  have ld: "length ?d = len" using v l by (auto simp: vs_ok_def)
  then have put: "put_bytes v 0 ?d = Some ?v" using v l by (simp add: put_bytes_def vs_ok_def)
  have "vs_open (vs_at_offset ?v len)" "vs_text (vs_at_offset ?v len) = take len (drop off (vs_text v))"
    using v l ld by (auto simp: vs_open_def vs_ok_def vs_at_offset_def vs_text_def drop_take min_def)
  with l v put vs_terminate_open [of "vs_at_offset ?v len"]
  show "\<exists>v'. acl_vstring_memmove v (Own off) len = Some v' \<and> vs_ok v' \<and> vs_text v' = take len (drop off (vs_text v))"
    by (simp add: acl_vstring_memmove_def vs_ok_def) metis
qed

lemma acl_vstring_truncate_ok [vs_simps]:
  assumes v: "vs_ok v" and len: "len < vs_pos v \<Longrightarrow> len < 2 ^ 31"
  shows "\<exists>v'. acl_vstring_truncate v len = Some v' \<and> vs_ok v' \<and> vs_text v' = take len (vs_text v)"
proof (cases "len < vs_pos v")
  case True
  have "vs_open (vs_at_offset v len)" "vs_text (vs_at_offset v len) = take len (vs_text v)"
    using v True by (auto simp: vs_open_def vs_ok_def vs_at_offset_def vs_text_def min_def)
  with True vs_terminate_open [of "vs_at_offset v len"] show ?thesis
    using len by (simp add: acl_vstring_truncate_def) metis
next
  case False
  then show ?thesis using v by (simp add: acl_vstring_truncate_def vs_text_def)
qed

text \<open>Room made in the middle of the buffer.\<close>

lemma insert_at_ok:
  assumes v: "vs_ok v" and start: "start \<le> vs_pos v"
    and at: "\<And>w. at w (vs_pos v + length buf) = Some (vs_at_offset w (vs_pos v + length buf))"
    and sp: "space_len (int (length buf)) = int (length buf)"
  shows "\<exists>v'. insert_at at space_len v start buf = Some v' \<and> vs_ok v' \<and>
    vs_text v' = take start (vs_text v) @ buf @ drop start (vs_text v)"
proof (cases "buf = []")
  case True
  from vstring_buf_space_open [OF vs_okD [OF v], of 0]
  obtain w where "vstring_buf_space v (int 0) = Some (0, w)" "int 0 \<le> vs_cnt v \<longrightarrow> w = v" by metis
  with True v sp show ?thesis by (simp add: insert_at_def Let_def vs_cnt_def vs_ok_def)
next
  case False
  let ?len = "length buf"
  obtain w where w: "vstring_buf_space v (int ?len) = Some (0, w)" "vs_open w" "vs_text w = vs_text v"
    "vs_pos w = vs_pos v" "vs_pos v + ?len \<le> vs_size w"
    by (rule vstring_buf_space_open [OF vs_okD [OF v], of ?len]) blast
  let ?t = "vs_text v"
  have lt: "length ?t = vs_pos v" using length_vs_text [OF vs_okD [OF v]] .
  have mid: "take (vs_pos w - start) (drop start (vs_data w)) = drop start ?t"
    using arg_cong [OF w(3), of "drop start"] w(4) by (simp add: vs_text_def drop_take)
  obtain r where r: "vs_data w = ?t @ r" using w(3) by (metis append_take_drop_id vs_text_def)
  define u where "u = w\<lparr>vs_data := take (start + ?len) (vs_data w) @ drop start ?t @ drop (vs_pos v + ?len) (vs_data w)\<rparr>"
  have p1: "put_bytes w (start + ?len) (drop start ?t) = Some u"
    using w(5) start lt by (simp add: put_bytes_def u_def add.commute)
  define x where "x = u\<lparr>vs_data := take start (vs_data u) @ buf @ drop (start + ?len) (vs_data u)\<rparr>"
  have p2: "put_bytes u start buf = Some x"
    using w(5) start lt by (simp add: put_bytes_def u_def x_def)
  have dx: "vs_data x = take start ?t @ buf @ drop start ?t @ drop (vs_pos v + ?len) (vs_data w)"
    using w(5) start lt r by (simp add: x_def u_def)
  have "vs_open (vs_at_offset x (vs_pos v + ?len))"
    "vs_text (vs_at_offset x (vs_pos v + ?len)) = take start ?t @ buf @ drop start ?t"
    using w(2,5) start lt dx by (auto simp: vs_open_def vs_at_offset_def vs_text_def x_def u_def)
  then obtain v' where "vs_terminate (vs_at_offset x (vs_pos v + ?len)) = Some v'" "vs_ok v'"
    "vs_text v' = take start ?t @ buf @ drop start ?t" by (metis vs_terminate_open)
  moreover have "\<not> ?len > nat (vs_cnt w)" using w(4,5) by (simp add: vs_cnt_def)
  ultimately show ?thesis
    using False w(1) p1 p2 mid at sp by (simp add: insert_at_def Let_def)
qed

lemma acl_vstring_prepend_ok [vs_simps]:
  "vs_ok v \<Longrightarrow> length buf < 2 ^ 31 \<Longrightarrow>
   \<exists>v'. acl_vstring_prepend v buf = Some v' \<and> vs_ok v' \<and> vs_text v' = buf @ vs_text v"
  using insert_at_ok [of v 0 _ buf "signed_take_bit 31"]
  by (simp add: acl_vstring_prepend_def signed_take_bit_int_eq_self)

lemma acl_vstring_insert_ok [vs_simps]:
  "vs_ok v \<Longrightarrow> start < vs_pos v \<Longrightarrow> vs_pos v + length buf < 2 ^ 31 \<Longrightarrow>
   \<exists>v'. acl_vstring_insert v start buf = Some v' \<and> vs_ok v' \<and>
     vs_text v' = take start (vs_text v) @ buf @ drop start (vs_text v)"
  using insert_at_ok [of v start vs_at_int buf id] by (simp add: acl_vstring_insert_def)

lemma vs_addch_open [vs_simps]:
  assumes v: "vs_open v"
  shows "\<exists>v'. vs_addch v c = Some (uint c, v') \<and> vs_open v' \<and> vs_text v' = vs_text v @ [c]"
proof -
  have room: "\<exists>v'. vs_addch w c = Some (uint c, v') \<and> vs_open v' \<and> vs_text v' = vs_text w @ [c]"
    if w: "vs_open w" "vs_cnt w > 0" for w
  proof -
    obtain u where u: "put_bytes w (vs_pos w) [c] = Some u" "vs_open (vs_at_offset u (vs_pos w + length [c]))"
      "vs_text (vs_at_offset u (vs_pos w + length [c])) = vs_text w @ [c]"
      by (rule put_at_end [OF w(1), of "[c]"]) (use w in \<open>simp add: vs_cnt_def\<close>)
    moreover from u(1) have "vs_pos u = vs_pos w" by (auto simp: put_bytes_def split: if_splits)
    ultimately show ?thesis using w(2) by (subst vs_addch.simps) simp
  qed
  show ?thesis
  proof (cases "vs_cnt v > 0")
    case True
    with room v show ?thesis by blast
  next
    case False
    have "vs_cnt (vs_grow v 0) > 0" using vs_grow_open [OF v, of 0] v by (simp add: vs_cnt_def vs_open_def)
    with room [of "vs_grow v 0"] vs_grow_open [OF v, of 0] False vstring_extend_open [OF v]
    show ?thesis by (subst vs_addch.simps) simp
  qed
qed

lemma vbuf_write_loop_open:
  "vs_open v \<Longrightarrow> \<exists>v'. vbuf_write_loop v buf done = Some (done + length buf, v') \<and> vs_open v' \<and> vs_text v' = vs_text v @ buf"
proof (induction "length buf" arbitrary: v buf "done" rule: less_induct)
  case less
  show ?case
  proof (cases "buf = []")
    case True
    with less.prems show ?thesis by (subst vbuf_write_loop.simps) simp
  next
    case False
    define w where "w = (if vs_cnt v \<le> 0 then vs_grow v 0 else v)"
    have w: "vs_open w" "vs_text w = vs_text v" "vs_cnt w > 0"
      using vs_grow_open [OF less.prems, of 0] less.prems by (auto simp: w_def vs_cnt_def vs_open_def)
    let ?n = "min (length buf) (nat (vs_cnt w))"
    have ln: "length (take ?n buf) = ?n" by simp
    have "vs_pos w + length (take ?n buf) \<le> vs_size w" using w(3) by (simp add: vs_cnt_def)
    then obtain u where u: "put_bytes w (vs_pos w) (take ?n buf) = Some u" "vs_open (vs_at_offset u (vs_pos w + ?n))"
      "vs_text (vs_at_offset u (vs_pos w + ?n)) = vs_text w @ take ?n buf"
      using put_at_end [OF w(1), of "take ?n buf"] ln by metis
    have pos: "vs_pos u = vs_pos w" using u(1) by (auto simp: put_bytes_def split: if_splits)
    have "length (drop ?n buf) < length buf" using False w(3) by simp
    from less.hyps [OF this u(2), of "done + ?n"] obtain v' where
      v': "vbuf_write_loop (vs_at_offset u (vs_pos w + ?n)) (drop ?n buf) (done + ?n) =
          Some (done + ?n + length (drop ?n buf), v')" "vs_open v'"
        "vs_text v' = vs_text w @ take ?n buf @ drop ?n buf" using u(3) by auto
    have "(if vs_cnt v \<le> 0 then vstring_extend v 0 else Some (0, v)) = Some (0, w)"
      using vstring_extend_open [OF less.prems] by (simp add: w_def)
    moreover have "done + ?n + length (drop ?n buf) = done + length buf" by simp
    ultimately show ?thesis
      using False w(2,3) u(1) pos v' by (subst vbuf_write_loop.simps) (simp add: Let_def)
  qed
qed

lemma acl_vbuf_write_ok [vs_simps]:
  "vs_open v \<Longrightarrow> \<exists>v'. acl_vbuf_write v buf = Some (length buf, v') \<and> vs_open v' \<and> vs_text v' = vs_text v @ buf"
  using vbuf_write_loop_open [of v buf 0] by (simp add: acl_vbuf_write_def)

section \<open>Strings with a limit\<close>

text \<open>The buffer is no longer than the limit.\<close>

definition vs_limited :: "vstring \<Rightarrow> bool" where
  "vs_limited v \<longleftrightarrow> vs_pos v \<le> vs_size v \<and> 0 < vs_size v \<and> int (vs_size v) \<le> vs_maxlen v"

lemma vs_grow_limited:
  assumes v: "vs_limited v" and pos: "int (vs_size v) < vs_maxlen v" and incr: "0 \<le> incr"
  shows "vs_limited (vs_grow v incr)" "vs_text (vs_grow v incr) = vs_text v" "vs_pos (vs_grow v incr) = vs_pos v"
    "vs_maxlen (vs_grow v incr) = vs_maxlen v" "vs_size v < vs_size (vs_grow v incr)"
    "int (vs_size (vs_grow v incr)) \<ge> min (vs_maxlen v) (int (vs_size v) + incr)"
proof -
  obtain k where k: "vs_size v = Suc k" using v by (cases "vs_size v") (auto simp: vs_limited_def)
  show "vs_limited (vs_grow v incr)" "vs_text (vs_grow v incr) = vs_text v" "vs_pos (vs_grow v incr) = vs_pos v"
    "vs_maxlen (vs_grow v incr) = vs_maxlen v" "vs_size v < vs_size (vs_grow v incr)"
    "int (vs_size (vs_grow v incr)) \<ge> min (vs_maxlen v) (int (vs_size v) + incr)"
    using assms k by (auto simp: vs_grow_def vs_limited_def vs_text_def Let_def)
qed

lemma put_zero:
  assumes "vs_pos v < vs_size v"
  obtains v' where "put_bytes v (vs_pos v) [0] = Some v'" "vs_text v' = vs_text v" "vs_pos v' = vs_pos v"
    "vs_size v' = vs_size v" "vs_maxlen v' = vs_maxlen v" "vs_data v' ! vs_pos v = 0"
  using assms
  by (intro that [of "v\<lparr>vs_data := take (vs_pos v) (vs_data v) @ [0] @ drop (Suc (vs_pos v)) (vs_data v)\<rparr>"])
    (auto simp: put_bytes_def vs_text_def nth_append)

lemma vs_terminate_limited:
  assumes v: "vs_limited v"
  shows "\<exists>v'. vs_terminate v = Some v' \<and> vs_limited v' \<and> vs_maxlen v' = vs_maxlen v \<and> vs_pos v' < vs_size v' \<and>
    vs_data v' ! vs_pos v' = 0 \<and> vs_text v' = take (nat (vs_maxlen v - 1)) (vs_text v)"
proof -
  have lt: "length (vs_text v) = vs_pos v" using v by (simp add: vs_text_def vs_limited_def)
  consider "vs_pos v < vs_size v" | "vs_pos v = vs_size v" "int (vs_size v) < vs_maxlen v"
    | "vs_pos v = vs_size v" "int (vs_size v) = vs_maxlen v"
    using v unfolding vs_limited_def by linarith
  then show ?thesis
  proof cases
    case 1
    obtain u where u: "put_bytes v (vs_pos v) [0] = Some u" "vs_text u = vs_text v" "vs_pos u = vs_pos v"
      "vs_size u = vs_size v" "vs_maxlen u = vs_maxlen v" "vs_data u ! vs_pos v = 0"
      by (rule put_zero [OF 1])
    have "vs_limited u" using v u(3-5) unfolding vs_limited_def by metis
    moreover have "length (vs_text v) \<le> nat (vs_maxlen v - 1)" using 1 v lt by (auto simp: vs_limited_def)
    ultimately show ?thesis
      using 1 u by (simp add: vs_terminate_def terminate_by_def vs_cnt_def)
  next
    case 2
    define w where "w = vs_grow v (1 - vs_cnt v)"
    have w: "vs_limited w" "vs_text w = vs_text v" "vs_pos w = vs_pos v" "vs_maxlen w = vs_maxlen v" "vs_pos w < vs_size w"
      using vs_grow_limited [OF v 2(2), of "1 - vs_cnt v"] 2 by (auto simp: w_def vs_cnt_def)
    obtain u where u: "put_bytes w (vs_pos w) [0] = Some u" "vs_text u = vs_text w" "vs_pos u = vs_pos w"
      "vs_size u = vs_size w" "vs_maxlen u = vs_maxlen w" "vs_data u ! vs_pos w = 0"
      by (rule put_zero [OF w(5)])
    have "vs_terminate v = Some u"
      using 2 u(1) w(3,5)
      by (auto simp: vs_terminate_def terminate_by_def space_by_def vstring_extend_def vs_cnt_def w_def Let_def)
    moreover have "vs_limited u" using w(1) u(3-5) unfolding vs_limited_def by metis
    moreover have "length (vs_text v) \<le> nat (vs_maxlen v - 1)" using 2 lt by simp
    ultimately show ?thesis using u w by simp
  next
    case 3
    define w where "w = vs_at_offset v (nat (vs_maxlen v - 1))"
    have pw: "vs_pos w = vs_size w - 1" "vs_size w = vs_size v" "0 < vs_size v" "vs_maxlen w = vs_maxlen v"
      using 3 v by (auto simp: w_def vs_at_offset_def vs_limited_def)
    then have lw: "vs_pos w < vs_size w" by simp
    obtain u where u: "put_bytes w (vs_pos w) [0] = Some u" "vs_text u = vs_text w" "vs_pos u = vs_pos w"
      "vs_size u = vs_size w" "vs_maxlen u = vs_maxlen w" "vs_data u ! vs_pos w = 0"
      by (rule put_zero [OF lw])
    let ?u = "u\<lparr>vs_eof := True\<rparr>"
    obtain x where x: "put_bytes ?u (vs_pos ?u) [0] = Some x" "vs_text x = vs_text ?u" "vs_pos x = vs_pos ?u"
      "vs_size x = vs_size ?u" "vs_maxlen x = vs_maxlen ?u" "vs_data x ! vs_pos ?u = 0"
      by (rule put_zero [of ?u]) (use u lw in simp)
    have "terminate_by (\<lambda>v incr. Some (0, vs_grow v incr)) w = Some u"
      using lw u(1) by (simp add: terminate_by_def vs_cnt_def)
    moreover have "0 < vs_maxlen v" using 3 pw(3) by linarith
    ultimately have "vstring_extend v (1 - vs_cnt v) = Some (-1, ?u)"
      using 3 by (simp add: vstring_extend_def vs_limited_def w_def)
    then have "vs_terminate v = Some x"
      using 3 x(1) u(3,4) lw by (simp add: vs_terminate_def terminate_by_def space_by_def vs_cnt_def Let_def)
    moreover have "vs_text ?u = take (nat (vs_maxlen v - 1)) (vs_text v)"
    proof -
      have "vs_text ?u = vs_text u" by (simp add: vs_text_def)
      also have "\<dots> = take (nat (vs_maxlen v - 1)) (vs_data v)" using u(2) by (simp add: w_def vs_text_def vs_at_offset_def)
      also have "\<dots> = take (nat (vs_maxlen v - 1)) (vs_text v)" using 3 by (simp add: vs_text_def)
      finally show ?thesis .
    qed
    moreover have "vs_size x = vs_size v" "vs_pos x = vs_size v - 1" "vs_maxlen x = vs_maxlen v"
      using x(3-5) u(3-5) pw by simp_all
    moreover from this have "vs_limited x" using v pw(3) unfolding vs_limited_def by linarith
    ultimately show ?thesis
      using x(2,6) u(3) pw by simp
  qed
qed

lemma vstring_buf_space_limited:
  assumes v: "vs_limited v" and pos: "vs_pos v < vs_size v"
  shows "\<exists>r w. vstring_buf_space v (int len) = Some (r, w) \<and> vs_limited w \<and> vs_text w = vs_text v \<and>
    vs_pos w = vs_pos v \<and> vs_maxlen w = vs_maxlen v \<and> vs_pos w < vs_size w \<and>
    min (vs_maxlen v) (int (vs_pos v + len)) \<le> int (vs_size w)"
proof (cases "int len - vs_cnt v > 0 \<and> int (vs_size v) < vs_maxlen v")
  case True
  let ?i = "int len - vs_cnt v"
  have "\<not> (vs_maxlen v > 0 \<and> int (vs_pos v) \<ge> vs_maxlen v)" using v pos by (auto simp: vs_limited_def)
  then have "vstring_buf_space v (int len) = Some (0, vs_grow v ?i)"
    using True by (simp add: vstring_buf_space_def space_by_def vstring_extend_def Let_def)
  moreover have "0 \<le> ?i" "int (vs_size v) + ?i = int (vs_pos v + len)" using True by (auto simp: vs_cnt_def)
  ultimately show ?thesis
    using vs_grow_limited [OF v, of ?i] True pos by auto
next
  case False
  show ?thesis
  proof (cases "int len - vs_cnt v > 0")
    case True
    with False v have m: "int (vs_size v) = vs_maxlen v" by (auto simp: vs_limited_def)
    have "vs_grow v (int len - vs_cnt v) = v"
      using m v pos by (auto simp: vs_grow_def vs_limited_def Let_def)
    moreover have "\<not> (vs_maxlen v > 0 \<and> int (vs_pos v) \<ge> vs_maxlen v)" using m pos by simp
    ultimately have "vstring_buf_space v (int len) = Some (0, v)"
      using True by (auto simp: vstring_buf_space_def space_by_def vstring_extend_def Let_def)
    with m v pos show ?thesis by auto
  next
    case False
    then have "vstring_buf_space v (int len) = Some (0, v)" by (simp add: vstring_buf_space_def space_by_def Let_def)
    with False v pos show ?thesis by (auto simp: vs_cnt_def)
  qed
qed

text \<open>with a limit that the buffer does not exceed yet, appending never writes outside of the
  buffer, never fails, and keeps the first \<open>maxlen - 1\<close> bytes of the text and what is appended to it,
  terminated.\<close>

theorem memcat_limited:
  assumes v: "vs_limited v" and pos: "vs_pos v < vs_size v" and len: "len \<le> length src"
  shows "\<exists>v'. acl_vstring_memcat v (Ext src) len = Some v' \<and> vs_limited v' \<and> vs_pos v' < vs_size v' \<and>
    vs_data v' ! vs_pos v' = 0 \<and> vs_text v' = take (nat (vs_maxlen v - 1)) (vs_text v @ take len src)"
proof (cases "len = 0")
  case True
  with vs_terminate_limited [OF v] show ?thesis by (auto simp: acl_vstring_memcat_def)
next
  case False
  obtain r w where w: "vstring_buf_space v (int len) = Some (r, w)" "vs_limited w" "vs_text w = vs_text v"
    "vs_pos w = vs_pos v" "vs_maxlen w = vs_maxlen v" "vs_pos w < vs_size w"
    "min (vs_maxlen v) (int (vs_pos v + len)) \<le> int (vs_size w)"
    using vstring_buf_space_limited [OF v pos, of len] by blast
  define n where "n = nat (min (int len) (vs_cnt w))"
  have n: "0 < n" "n \<le> len" "vs_pos w + n \<le> vs_size w" "min (int len) (vs_cnt w) = int n" "vs_cnt w > 0"
    using w(6) False by (auto simp: n_def vs_cnt_def)
  have ln: "length (take n src) = n" using n(2) len by simp
  define u where "u = w\<lparr>vs_data := take (vs_pos w) (vs_data w) @ take n src @ drop (vs_pos w + n) (vs_data w), vs_pos := vs_pos w + n\<rparr>"
  have put: "put_bytes w (vs_pos w) (take n src) = Some (w\<lparr>vs_data := take (vs_pos w) (vs_data w) @ take n src @ drop (vs_pos w + n) (vs_data w)\<rparr>)"
    using n(3) ln by (simp add: put_bytes_def)
  have su: "vs_size u = vs_size w" using n(3) ln w(6) by (simp add: u_def)
  then have u: "vs_limited u" using w(2) n(3) unfolding vs_limited_def by (simp add: u_def)
  have tu: "vs_text u = vs_text v @ take n src"
  proof -
    have "vs_text u = take (vs_pos w) (vs_data w) @ take n src"
      using w(6) ln by (simp add: u_def vs_text_def min_def)
    with w(3) show ?thesis by (simp add: vs_text_def)
  qed
  have "acl_vstring_memcat v (Ext src) len = vs_terminate u"
    using False w(1) n len put
    by (simp add: acl_vstring_memcat_def Let_def u_def vs_at_offset_def add.commute)
  moreover have "take (nat (vs_maxlen v - 1)) (vs_text u) = take (nat (vs_maxlen v - 1)) (vs_text v @ take len src)"
  proof (cases "n = len")
    case False
    then have "int (vs_size w) \<ge> vs_maxlen v" "n = vs_size w - vs_pos w" using n w(4,6,7) by (auto simp: vs_cnt_def)
    moreover have "length (vs_text v) = vs_pos v" using v by (simp add: vs_text_def vs_limited_def)
    ultimately have "nat (vs_maxlen v - 1) \<le> length (vs_text v) + n" using n w(4) by simp
    then have "nat (vs_maxlen v - 1) - length (vs_text v) \<le> n" by linarith
    moreover from this n(2) have "nat (vs_maxlen v - 1) - length (vs_text v) \<le> len" by linarith
    ultimately show ?thesis by (simp add: tu min_absorb1)
  qed (simp add: tu)
  moreover have "vs_maxlen u = vs_maxlen v" using w(5) by (simp add: u_def)
  ultimately show ?thesis using vs_terminate_limited [OF u] by auto
qed

lemma memcat_limited_witness:
  "\<exists>v'. acl_vstring_memcat ((vs_new (\<lambda>i. 0) 4)\<lparr>vs_maxlen := 6\<rparr>) (Ext (lit ''abcdefgh'')) 8 = Some v' \<and>
     vs_text v' = lit ''abcde''"
proof -
  have c: "vs_limited ((vs_new (\<lambda>i. 0) 4)\<lparr>vs_maxlen := 6\<rparr>)" "vs_pos ((vs_new (\<lambda>i. 0) 4)\<lparr>vs_maxlen := 6\<rparr>) < vs_size ((vs_new (\<lambda>i. 0) 4)\<lparr>vs_maxlen := 6\<rparr>)"
    "8 \<le> length (lit ''abcdefgh'')"
    by (simp_all add: vs_limited_def vs_new_def lit_def)
  have "take (nat (6 - 1)) (vs_text ((vs_new (\<lambda>i. 0) 4)\<lparr>vs_maxlen := 6\<rparr>) @ take 8 (lit ''abcdefgh'')) = lit ''abcde''"
    by (simp add: vs_text_def vs_new_def lit_def)
  with memcat_limited [OF c] show ?thesis by auto
qed

text \<open>the limit is looked at when the buffer has to grow and nowhere else: a string whose buffer is
  longer than its limit takes more than the limit.\<close>

theorem limit_not_enforced:
  "map_option vs_text (acl_vstring_memcpy ((acl_vstring_alloc junk 64)\<lparr>vs_maxlen := 4\<rparr>) (Ext (lit ''0123456789'')) 10)
     = Some (lit ''0123456789'')"
  by (simp add: acl_vstring_memcpy_def vs_reset_def acl_vstring_alloc_def vs_new_def vs_cnt_def vstring_buf_space_def
      space_by_def Let_def lit_def put_bytes_def vs_at_offset_def vs_terminate_def terminate_by_def vs_text_def
      del: upt_rec_numeral)

section \<open>Any sequence of operations\<close>

datatype vs_op = VCopy "byte list" | VAppend "byte list" | VPrepend "byte list" | VInsert nat "byte list"
  | VTruncate nat | VMove nat nat | VWrite "byte list"

fun vs_step :: "vstring \<Rightarrow> vs_op \<Rightarrow> vstring option" where
  "vs_step v (VCopy bs) = acl_vstring_memcpy v (Ext bs) (length bs)"
| "vs_step v (VAppend bs) = acl_vstring_memcat v (Ext bs) (length bs)"
| "vs_step v (VPrepend bs) = acl_vstring_prepend v bs"
| "vs_step v (VInsert start bs) = acl_vstring_insert v start bs"
| "vs_step v (VTruncate n) = acl_vstring_truncate v n"
| "vs_step v (VMove off n) = acl_vstring_memmove v (Own off) n"
| "vs_step v (VWrite bs) = do { (n, v) \<leftarrow> acl_vbuf_write v bs; vs_terminate v }"

fun vs_run :: "vstring \<Rightarrow> vs_op list \<Rightarrow> vstring option" where
  "vs_run v [] = Some v"
| "vs_run v (op # ops) = do { v \<leftarrow> vs_step v op; vs_run v ops }"

text \<open>The same on a list; \<open>None\<close> where the operation is not allowed or an offset does not fit an
  \<open>int\<close>.\<close>

fun text_step :: "byte list \<Rightarrow> vs_op \<Rightarrow> byte list option" where
  "text_step t (VCopy bs) = Some bs"
| "text_step t (VAppend bs) = Some (t @ bs)"
| "text_step t (VPrepend bs) = (if int (length bs) < 2 ^ 31 then Some (bs @ t) else None)"
| "text_step t (VInsert start bs) =
     (if start < length t \<and> int (length t + length bs) < 2 ^ 31 then Some (take start t @ bs @ drop start t)
      else None)"
| "text_step t (VTruncate n) = (if n < length t \<and> int n \<ge> 2 ^ 31 then None else Some (take n t))"
| "text_step t (VMove off n) =
     (if n = 0 then Some t else if off + n \<le> length t \<and> int n < 2 ^ 31 then Some (take n (drop off t)) else None)"
| "text_step t (VWrite bs) = Some (t @ bs)"

fun text_run :: "byte list \<Rightarrow> vs_op list \<Rightarrow> byte list option" where
  "text_run t [] = Some t"
| "text_run t (op # ops) = do { t \<leftarrow> text_step t op; text_run t ops }"

lemma vs_step_refines:
  assumes "vs_ok v" "text_step (vs_text v) op = Some t"
  shows "\<exists>v'. vs_step v op = Some v' \<and> vs_ok v' \<and> vs_text v' = t"
proof -
  have o: "vs_open v" and lt: "length (vs_text v) = vs_pos v"
    using assms(1) by (auto simp: vs_okD length_vs_text)
  show ?thesis
  proof (cases op)
    case (VCopy bs)
    with assms acl_vstring_memcpy_ok [OF o, of "length bs" bs] show ?thesis by simp
  next
    case (VAppend bs)
    with assms acl_vstring_memcat_ok [OF o, of "length bs" bs] show ?thesis by simp
  next
    case (VPrepend bs)
    with assms acl_vstring_prepend_ok [of v bs] show ?thesis by (auto split: if_splits)
  next
    case (VInsert start bs)
    with assms lt acl_vstring_insert_ok [of v start bs] show ?thesis by (auto split: if_splits)
  next
    case (VTruncate n)
    with assms lt acl_vstring_truncate_ok [of v n] show ?thesis by (auto split: if_splits)
  next
    case (VMove off n)
    with assms lt acl_vstring_memmove_ok(2) [OF assms(1), of n off] show ?thesis
      by (auto simp: acl_vstring_memmove_def split: if_splits)
  next
    case (VWrite bs)
    obtain w where w: "acl_vbuf_write v bs = Some (length bs, w)" "vs_open w" "vs_text w = vs_text v @ bs"
      using acl_vbuf_write_ok [OF o, of bs] by blast
    from w(2) obtain v' where "vs_terminate w = Some v'" "vs_ok v'" "vs_text v' = vs_text w"
      by (rule vs_terminate_open)
    with w VWrite assms show ?thesis by simp
  qed
qed

lemma vs_run_refines:
  "vs_ok v \<Longrightarrow> text_run (vs_text v) ops = Some t \<Longrightarrow> \<exists>v'. vs_run v ops = Some v' \<and> vs_ok v' \<and> vs_text v' = t"
proof (induction ops arbitrary: v)
  case (Cons op ops)
  then obtain u where u: "text_step (vs_text v) op = Some u" "text_run u ops = Some t"
    by (auto simp: bind_eq_Some_conv)
  from vs_step_refines [OF Cons.prems(1) u(1)] obtain v1 where "vs_step v op = Some v1" "vs_ok v1" "vs_text v1 = u" by blast
  with Cons.IH [of v1] u(2) show ?case by simp
qed simp

text \<open>any sequence of operations on a string without a limit does to its text what it does to a
  list, whatever fresh memory holds: no write goes outside of the buffer as it grows and shrinks, and
  the text stays terminated. Offsets and lengths that the code casts to \<open>int\<close> are below 2^31.\<close>

theorem vstring_runs_as_list:
  assumes "text_run [] ops = Some t"
  shows "\<exists>v. vs_run (acl_vstring_alloc junk len) ops = Some v \<and> vs_ok v \<and> vs_text v = t"
proof -
  have "vs_ok (acl_vstring_alloc junk len)" "vs_text (acl_vstring_alloc junk len) = []"
    by (auto simp: acl_vstring_alloc_def vs_new_def vs_ok_def vs_text_def)
  with vs_run_refines assms show ?thesis by metis
qed

lemma vstring_runs_as_list_witness:
  "\<exists>v. vs_run (acl_vstring_alloc (\<lambda>i. 255) 1) [VAppend (lit ''world''), VPrepend (lit ''hello ''), VInsert 5 (lit '','')] = Some v \<and>
     vs_text v = lit ''hello, world''"
proof -
  have "text_run [] [VAppend (lit ''world''), VPrepend (lit ''hello ''), VInsert 5 (lit '','')] = Some (lit ''hello, world'')"
    by code_simp
  from vstring_runs_as_list [OF this] show ?thesis by blast
qed

text \<open>appending a string to itself (\<open>s += s\<close>) reads memory that was freed whenever the buffer has to
  grow: the source pointer is taken before the buffer is reallocated.\<close>

theorem append_self_faults:
  assumes "vs_open v" "2 * vs_pos v > vs_size v"
  shows "acl_vstring_memcat v (Own 0) (vs_pos v) = None"
proof -
  have l: "0 < vs_pos v" using assms by (auto simp: vs_open_def)
  obtain w where w: "vstring_buf_space v (int (vs_pos v)) = Some (0, w)" "vs_pos w = vs_pos v" "vs_pos v + vs_pos v \<le> vs_size w"
    by (rule vstring_buf_space_open [OF assms(1), of "vs_pos v"]) blast
  have "int (vs_pos v) > vs_cnt v" using assms(2) by (simp add: vs_cnt_def)
  moreover have "min (int (vs_pos v)) (vs_cnt w) > 0" using w(2,3) l by (simp add: vs_cnt_def)
  ultimately show ?thesis
    using w(1) l by (simp add: acl_vstring_memcat_def Let_def src_bytes_def)
qed

lemma append_self_faults_witness:
  "acl_vstring_memcat \<lparr>vs_data = lit ''abc'' @ [0], vs_pos = 3, vs_eof = False, vs_maxlen = 0, vs_junk = \<lambda>i. 0\<rparr> (Own 0) 3 = None"
  using append_self_faults [of "\<lparr>vs_data = lit ''abc'' @ [0], vs_pos = 3, vs_eof = False, vs_maxlen = 0, vs_junk = \<lambda>i. 0\<rparr>"]
  by (simp add: vs_open_def lit_def)

section \<open>Searching and lines\<close>

lemma occurs_strstr: "occurs (\<lambda>c. c) (\<lambda>c. c) needle s j \<longleftrightarrow> take (length needle) (drop j s) = needle"
  by (simp add: occurs_def)

text \<open>\<open>acl_vstring_strstr\<close> finds what \<open>strstr\<close> finds when the needle's first byte does not come
  again in it. (Otherwise it may miss it: \<open>acl_strcasestr_misses\<close> is about the same loop.)\<close>

theorem vstring_strstr_is_strstr:
  assumes "restart_free (\<lambda>c. c) needle"
  shows "acl_vstring_strstr v (Some needle) = strstr_idx (vs_text v) needle"
proof -
  have ne: "needle \<noteq> []" using assms by (simp add: restart_free_def)
  have loop: "acl_vstring_strstr v (Some needle) = map_option fst (search_loop (\<lambda>c. c) (\<lambda>c. c) needle (vs_text v) 0 None)"
    using ne by (simp add: acl_vstring_strstr_def vs_search_def)
  show ?thesis
  proof (cases "strstr_idx (vs_text v) needle")
    case (Some b)
    obtain e where "Suc e = b + length needle" using ne by (cases needle) auto
    with strstr_idx_Some [OF Some] search_loop_first [OF assms, of "\<lambda>c. c" "vs_text v" b e]
    show ?thesis using Some loop by (simp add: occurs_strstr)
  next
    case None
    show ?thesis
    proof (cases "search_loop (\<lambda>c. c) (\<lambda>c. c) needle (vs_text v) 0 None")
      case (Some x)
      with search_loop_first [OF assms, of "\<lambda>c. c" "vs_text v" "fst x" "snd x"]
      have "take (length needle) (drop (fst x) (vs_text v)) = needle" by (simp add: occurs_strstr)
      with strstr_idx_None [OF None] show ?thesis by blast
    qed (use None loop in simp)
  qed
qed

lemma vstring_strstr_is_strstr_witness:
  "acl_vstring_strstr ((vs_new (\<lambda>i. 0) 4)\<lparr>vs_data := lit ''key: value'', vs_pos := 10\<rparr>) (Some (lit '': '')) = Some 3"
proof -
  have "restart_free (\<lambda>c. c) (lit '': '')" by code_simp
  from vstring_strstr_is_strstr [OF this] show ?thesis
    by (rule trans) (simp add: vs_text_def, code_simp)
qed

lemma strchr_idx_app: "c \<notin> set xs \<Longrightarrow> strchr_idx (xs @ c # ys) c = Some (length xs)"
  by (induction xs) auto

text \<open>\<open>acl_buffer_gets_nonl\<close> strips the end of a line, but of the piece it is given: when the
  network cuts a line between the carriage return and the line feed, the carriage return stays in
  the text.\<close>

theorem buffer_gets_nonl_cut:
  assumes v: "vs_ok v" and line: "10 \<notin> set line" "13 \<notin> set line"
  shows "\<exists>v1 v2. acl_buffer_gets_nonl v (line @ [13, 10]) = Some (True, v1, []) \<and> vs_text v1 = vs_text v @ line \<and>
      (do { (ok, w, rest) \<leftarrow> acl_buffer_gets_nonl v (line @ [13]); acl_buffer_gets_nonl w [10] }) = Some (True, v2, []) \<and>
      vs_text v2 = vs_text v @ line @ [13]"
proof -
  have idx: "strchr_idx (line @ [13, 10]) 10 = Some (Suc (length line))"
    using strchr_idx_app [of 10 "line @ [13]" "[]"] line by simp
  have none: "strchr_idx (line @ [13]) 10 = None" using line by (simp add: strchr_idx_None)
  have strip: "rev (dropWhile (\<lambda>c. c = 13 \<or> c = 10) (rev (take (Suc (Suc (length line))) (line @ [13, 10])))) = line"
    using line by (cases line rule: rev_cases) auto
  obtain w where w: "acl_vstring_memcat v (Ext (line @ [13, 10])) (length line) = Some w" "vs_ok w" "vs_text w = vs_text v @ line"
    using acl_vstring_memcat_ok [OF vs_okD [OF v], of "length line" "line @ [13, 10]"] by auto
  obtain v1 where v1: "vs_terminate w = Some v1" "vs_text v1 = vs_text w"
    using vs_terminate_open [OF vs_okD [OF w(2)]] by metis
  have one: "acl_buffer_gets_nonl v (line @ [13, 10]) = Some (True, v1, [])"
  proof (cases "line = []")
    case True
    obtain u where u: "vs_terminate v = Some u" using vs_terminate_open [OF vs_okD [OF v]] by metis
    have "acl_vstring_memcat v (Ext (line @ [13, 10])) (length line) = vs_terminate v"
      using True by (simp add: acl_vstring_memcat_def)
    moreover have "vs_terminate w = Some w" if "vs_terminate v = Some w" for w
    proof -
      have "take (vs_pos v) (vs_data v) @ 0 # drop (Suc (vs_pos v)) (vs_data v) = vs_data v"
        using id_take_nth_drop [of "vs_pos v" "vs_data v"] v by (simp add: vs_ok_def)
      then have "vs_cnt v > 0" "put_bytes v (vs_pos v) [0] = Some v"
        using v by (auto simp: vs_cnt_def put_bytes_def vs_ok_def)
      then have "vs_terminate v = Some v" by (simp add: vs_terminate_def terminate_by_def)
      with that show ?thesis by simp
    qed
    ultimately show ?thesis using w(1) v1 True by (simp add: acl_buffer_gets_nonl_def)
  next
    case False
    then show ?thesis using idx strip w(1) v1 by (simp add: acl_buffer_gets_nonl_def Let_def)
  qed
  obtain x where x: "acl_vstring_memcat v (Ext (line @ [13])) (Suc (length line)) = Some x" "vs_ok x"
    "vs_text x = vs_text v @ line @ [13]"
    using acl_vstring_memcat_ok [OF vs_okD [OF v], of "Suc (length line)" "line @ [13]"] by auto
  obtain y where y: "vs_terminate x = Some y" "vs_ok y" "vs_text y = vs_text x"
    using vs_terminate_open [OF vs_okD [OF x(2)]] by metis
  obtain v2 where v2: "vs_terminate y = Some v2" "vs_text v2 = vs_text y"
    using vs_terminate_open [OF vs_okD [OF y(2)]] by metis
  have "acl_buffer_gets_nonl v (line @ [13]) = Some (False, y, [])"
    using none x(1) y(1) by (simp add: acl_buffer_gets_nonl_def)
  moreover have "acl_buffer_gets_nonl y [10] = Some (True, v2, [])"
    using v2(1) by (simp add: acl_buffer_gets_nonl_def)
  ultimately show ?thesis using one w(3) v1(2) x(3) y(3) v2(2) by simp
qed

lemma buffer_gets_nonl_cut_witness:
  "\<exists>v2. (do { (ok, w, rest) \<leftarrow> acl_buffer_gets_nonl (vs_new (\<lambda>i. 0) 4) (lit ''+OK'' @ [13]); acl_buffer_gets_nonl w [10] }) =
     Some (True, v2, []) \<and> vs_text v2 = lit ''+OK'' @ [13]"
proof -
  have c: "vs_ok (vs_new (\<lambda>i. 0) 4)" "10 \<notin> set (lit ''+OK'')" "13 \<notin> set (lit ''+OK'')"
    by (simp_all add: vs_ok_def vs_new_def lit_def)
  have "vs_text (vs_new (\<lambda>i. 0) 4) = []" by (simp add: vs_text_def vs_new_def)
  with buffer_gets_nonl_cut [OF c] show ?thesis by auto
qed

end
