(* ===== verification/Acl_Argv.thy ===== *)
theory Acl_Argv
  imports Acl_Interfaces Acl_Vstring Acl_Mystring
begin

text \<open>
  The string vector of \<^verbatim>\<open>acllib/src/stdlib/common/acl_argv.c\<close> and the functions of
  \<^verbatim>\<open>acl_argv_split.c\<close> that split a text into one. A cell of the vector holds a string, NULL, or
  whatever fresh memory holds (\<open>Junk\<close>); the vector is meant to be closed by a NULL, as
  \<open>execve\<close> wants it. Strings are copied in, so a cell holds the bytes. The dbuf pool that a vector
  may be allocated in is left out.

  The pushes and pops make it a double-ended queue (the interface \<open>deque\<close>). They do not all keep the
  closing NULL, and \<open>iter_head\<close> reads the first cell of an empty vector, which is why \<open>iteration\<close>
  holds of vectors with a string in them or a NULL in the first cell only.
\<close>

datatype argv_cell = Junk | Null | Str cstr

record acl_argv =
  av_cells :: "argv_cell list"
  av_len :: nat
  av_argc :: nat

definition argv_ok :: "acl_argv \<Rightarrow> bool" where
  "argv_ok a \<longleftrightarrow> length (av_cells a) = Suc (av_len a) \<and> av_argc a < av_len a \<and>
     (\<forall>i < av_argc a. \<exists>s. av_cells a ! i = Str s)"

text \<open>The vector as the code promises it: closed by NULL.\<close>

definition argv_closed :: "acl_argv \<Rightarrow> bool" where
  "argv_closed a \<longleftrightarrow> argv_ok a \<and> av_cells a ! av_argc a = Null"

fun cell_str :: "argv_cell \<Rightarrow> cstr" where
  "cell_str (Str s) = s"
| "cell_str _ = []"

definition argv_strings :: "acl_argv \<Rightarrow> cstr list" where
  "argv_strings a = map cell_str (take (av_argc a) (av_cells a))"

section \<open>acl\_argv.c\<close>

definition argv_extend :: "acl_argv \<Rightarrow> acl_argv" where
  "argv_extend a = (let new_len = av_len a * 2
     in a\<lparr>av_cells := av_cells a @ replicate (Suc new_len - length (av_cells a)) Junk, av_len := new_len\<rparr>)"

definition argv_room :: "acl_argv \<Rightarrow> acl_argv" where
  "argv_room a = (if int (av_len a) - int (av_argc a) - 1 \<le> 0 then argv_extend a else a)"

definition acl_argv_alloc :: "int \<Rightarrow> acl_argv" where
  "acl_argv_alloc len = (let sane_len = (if len < 2 then 2 else nat len)
     in \<lparr>av_cells = Null # replicate sane_len Junk, av_len = sane_len, av_argc = 0\<rparr>)"

fun argv_add_loop :: "acl_argv \<Rightarrow> cstr list \<Rightarrow> acl_argv" where
  "argv_add_loop a [] = a"
| "argv_add_loop a (s # ss) =
     (let a = argv_room a
      in argv_add_loop (a\<lparr>av_cells := (av_cells a)[av_argc a := Str s], av_argc := Suc (av_argc a)\<rparr>) ss)"

definition acl_argv_terminate :: "acl_argv \<Rightarrow> acl_argv" where
  "acl_argv_terminate a = a\<lparr>av_cells := (av_cells a)[av_argc a := Null]\<rparr>"

definition acl_argv_add :: "acl_argv \<Rightarrow> cstr list \<Rightarrow> acl_argv" where
  "acl_argv_add a args = acl_argv_terminate (argv_add_loop a args)"

text \<open>\<open>acl_argv_addn\<close>: strings with lengths; \<open>None\<close> is the panic at a negative one.\<close>

fun argv_addn_loop :: "acl_argv \<Rightarrow> (cstr \<times> int) list \<Rightarrow> acl_argv option" where
  "argv_addn_loop a [] = Some a"
| "argv_addn_loop a ((s, len) # ss) =
     (if len < 0 then None
      else let a = argv_room a
      in argv_addn_loop (a\<lparr>av_cells := (av_cells a)[av_argc a := Str (take (nat len) s)], av_argc := Suc (av_argc a)\<rparr>) ss)"

definition acl_argv_addn :: "acl_argv \<Rightarrow> (cstr \<times> int) list \<Rightarrow> acl_argv option" where
  "acl_argv_addn a args = map_option acl_argv_terminate (argv_addn_loop a args)"

definition argv_push_back :: "acl_argv \<Rightarrow> cstr \<Rightarrow> acl_argv" where
  "argv_push_back a s = acl_argv_add a [s]"

definition argv_push_front :: "acl_argv \<Rightarrow> cstr \<Rightarrow> acl_argv" where
  "argv_push_front a s = (let a = argv_room a
     in a\<lparr>av_cells := (shift_up 0 (av_argc a) (av_cells a))[0 := Str s], av_argc := Suc (av_argc a)\<rparr>)"

definition argv_pop_back :: "acl_argv \<Rightarrow> argv_cell option \<times> acl_argv" where
  "argv_pop_back a =
     (if av_argc a = 0 then (None, a)
      else (Some (av_cells a ! (av_argc a - 1)), a\<lparr>av_argc := av_argc a - 1\<rparr>))"

definition argv_pop_front :: "acl_argv \<Rightarrow> argv_cell option \<times> acl_argv" where
  "argv_pop_front a =
     (if av_argc a = 0 then (None, a)
      else (Some (av_cells a ! 0),
        a\<lparr>av_cells := shift_down 0 (av_argc a - 1) (av_cells a), av_argc := av_argc a - 1\<rparr>))"

text \<open>What is freed: the strings in use.\<close>

definition acl_argv_free :: "acl_argv \<Rightarrow> argv_cell list" where
  "acl_argv_free a = take (av_argc a) (av_cells a)"

definition acl_argv_set :: "acl_argv \<Rightarrow> int \<Rightarrow> cstr option \<Rightarrow> int \<times> acl_argv" where
  "acl_argv_set a idx val =
     (if idx < 0 \<or> idx \<ge> int (av_argc a) then (-1, a)
      else case val of None \<Rightarrow> (-1, a) | Some s \<Rightarrow> (0, a\<lparr>av_cells := (av_cells a)[nat idx := Str s]\<rparr>))"

definition acl_argv_index :: "acl_argv option \<Rightarrow> int \<Rightarrow> argv_cell option" where
  "acl_argv_index a idx = (case a of
     None \<Rightarrow> None
   | Some a \<Rightarrow> if idx < 0 \<or> idx > int (av_argc a) - 1 then None else Some (av_cells a ! nat idx))"

definition acl_argv_size :: "acl_argv option \<Rightarrow> int" where
  "acl_argv_size a = (case a of None \<Rightarrow> -1 | Some a \<Rightarrow> int (av_argc a))"

text \<open>A cell as a pointer.\<close>

definition cell_ptr :: "argv_cell \<Rightarrow> argv_cell option" where
  "cell_ptr c = (if c = Null then None else Some c)"

definition argv_at :: "acl_argv \<Rightarrow> int \<Rightarrow> argv_cell option" where
  "argv_at a i = cell_ptr (av_cells a ! nat i)"

definition argv_iter_head :: "(argv_cell, argv_cell) acl_iter \<Rightarrow> acl_argv \<Rightarrow> (argv_cell, argv_cell) acl_iter" where
  "argv_iter_head it a = it\<lparr>it_dlen := -1, it_key := None, it_klen := -1, it_i := 0, it_size := int (av_argc a),
     it_ptr := argv_at a 0, it_data := argv_at a 0\<rparr>"

definition argv_iter_next :: "(argv_cell, argv_cell) acl_iter \<Rightarrow> acl_argv \<Rightarrow> (argv_cell, argv_cell) acl_iter" where
  "argv_iter_next it a = (let i = it_i it + 1;
     p = (if i \<ge> int (av_argc a) then None else argv_at a i)
     in it\<lparr>it_i := i, it_ptr := p, it_data := p\<rparr>)"

definition argv_iter_tail :: "(argv_cell, argv_cell) acl_iter \<Rightarrow> acl_argv \<Rightarrow> (argv_cell, argv_cell) acl_iter" where
  "argv_iter_tail it a = (let i = int (av_argc a) - 1; p = (if i < 0 then None else argv_at a i)
     in it\<lparr>it_dlen := -1, it_key := None, it_klen := -1, it_i := i, it_size := int (av_argc a),
       it_ptr := p, it_data := p\<rparr>)"

definition argv_iter_prev :: "(argv_cell, argv_cell) acl_iter \<Rightarrow> acl_argv \<Rightarrow> (argv_cell, argv_cell) acl_iter" where
  "argv_iter_prev it a = (let i = it_i it - 1; p = (if i < 0 then None else argv_at a i)
     in it\<lparr>it_i := i, it_ptr := p, it_data := p\<rparr>)"

section \<open>acl\_argv\_split.c\<close>

text \<open>The loop over the tokens, with and without a limit on their number.\<close>

function split_loop :: "acl_argv \<Rightarrow> cstr \<Rightarrow> byte set \<Rightarrow> acl_argv" where
  "split_loop a bp delim = (case acl_strtok bp delim of
     (None, bp) \<Rightarrow> a
   | (Some arg, bp) \<Rightarrow> split_loop (acl_argv_add a [arg]) bp delim)"
  by pat_completeness auto
termination
  by (relation "measure (\<lambda>(a, bp, delim). length bp)") (auto dest: acl_strtok_token(3) [OF sym])

declare split_loop.simps [simp del]

fun splitn_loop :: "nat \<Rightarrow> acl_argv \<Rightarrow> cstr \<Rightarrow> byte set \<Rightarrow> acl_argv" where
  "splitn_loop 0 a bp delim = a"
| "splitn_loop (Suc n) a bp delim = (case acl_strtok bp delim of
     (None, bp) \<Rightarrow> a
   | (Some arg, bp) \<Rightarrow> splitn_loop n (acl_argv_add a [arg]) bp delim)"

definition acl_argv_split_append :: "acl_argv \<Rightarrow> cstr \<Rightarrow> cstr \<Rightarrow> acl_argv" where
  "acl_argv_split_append a str delim = acl_argv_terminate (split_loop a str (set delim))"

definition acl_argv_split :: "cstr \<Rightarrow> cstr \<Rightarrow> acl_argv" where
  "acl_argv_split str delim = acl_argv_terminate (split_loop (acl_argv_alloc 1) str (set delim))"

definition acl_argv_splitn_append :: "acl_argv \<Rightarrow> cstr \<Rightarrow> cstr \<Rightarrow> nat \<Rightarrow> acl_argv" where
  "acl_argv_splitn_append a str delim n = acl_argv_terminate (splitn_loop n a str (set delim))"

definition acl_argv_splitn :: "cstr \<Rightarrow> cstr \<Rightarrow> nat \<Rightarrow> acl_argv" where
  "acl_argv_splitn str delim n =
     acl_argv_terminate (splitn_loop n (acl_argv_alloc (if n > 0 then int n else 1)) str (set delim))"

text \<open>\<open>acl_argv_quote_split\<close>: the text of the current item is gathered in a growing string. The quote
  character is \<open>None\<close> outside of quotes.\<close>

definition qs_add :: "vstring \<Rightarrow> byte \<Rightarrow> vstring option" where
  "qs_add buf c = do { (r, buf) \<leftarrow> vs_addch buf c; vs_terminate buf }"

text \<open>\<open>if (LEN(buf) > 0) { acl_argv_add(argvp, STR(buf), NULL); RESET(buf); }\<close>, where the text is read
  as a C string.\<close>

definition qs_flush :: "acl_argv \<Rightarrow> vstring \<Rightarrow> acl_argv \<times> vstring" where
  "qs_flush a buf = (if vs_pos buf > 0 then (acl_argv_add a [cstr_of (vs_data buf)], vs_reset buf) else (a, buf))"

fun quote_loop :: "acl_argv \<Rightarrow> vstring \<Rightarrow> byte option \<Rightarrow> bool \<Rightarrow> byte set \<Rightarrow> cstr \<Rightarrow> (acl_argv \<times> vstring) option" where
  "quote_loop a buf qt bs delim [] = Some (a, buf)"
| "quote_loop a buf qt bs delim (c # s) =
     (case qt of
        Some q \<Rightarrow>
          if bs then do { buf \<leftarrow> qs_add buf c; quote_loop a buf qt False delim s }
          else if c = 92 then quote_loop a buf qt True delim s
          else if c = q then (case qs_flush a buf of (a, buf) \<Rightarrow> quote_loop a buf None bs delim s)
          else do { buf \<leftarrow> qs_add buf c; quote_loop a buf qt bs delim s }
      | None \<Rightarrow>
          if bs then do { buf \<leftarrow> qs_add buf c; quote_loop a buf qt False delim s }
          else if c = 92 then quote_loop a buf qt True delim s
          else if c = 39 \<or> c = 34 then quote_loop a buf (Some c) bs delim s
          else if c \<in> delim then (case qs_flush a buf of (a, buf) \<Rightarrow> quote_loop a buf qt bs delim s)
          else do { buf \<leftarrow> qs_add buf c; quote_loop a buf qt bs delim s })"

definition acl_argv_quote_split :: "(nat \<Rightarrow> byte) \<Rightarrow> cstr \<Rightarrow> cstr \<Rightarrow> acl_argv option" where
  "acl_argv_quote_split junk str delim = do {
     (a, buf) \<leftarrow> quote_loop (acl_argv_alloc 1) (acl_vstring_alloc junk 128) None False (set delim) str;
     let a = (if vs_pos buf > 0 then acl_argv_add a [cstr_of (vs_data buf)] else a);
     Some (acl_argv_terminate a) }"

section \<open>The vector\<close>

lemma argv_ok_nth: "argv_ok a \<Longrightarrow> i < av_argc a \<Longrightarrow> av_cells a ! i = Str (cell_str (av_cells a ! i))"
  by (auto simp: argv_ok_def)

lemma argv_eqI:
  "argv_ok a \<Longrightarrow> length xs = av_argc a \<Longrightarrow> (\<And>i. i < av_argc a \<Longrightarrow> cell_str (av_cells a ! i) = xs ! i) \<Longrightarrow>
   argv_strings a = xs"
  by (rule nth_equalityI) (auto simp: argv_strings_def argv_ok_def)

lemma argv_room_ok:
  assumes "argv_ok a"
  shows "argv_ok (argv_room a)" "argv_strings (argv_room a) = argv_strings a" "av_argc (argv_room a) = av_argc a"
    "Suc (av_argc a) < av_len (argv_room a)"
  using assms by (auto simp: argv_ok_def argv_room_def argv_extend_def argv_strings_def Let_def nth_append)

lemma argv_put_ok:
  assumes "argv_ok a" "Suc (av_argc a) < av_len a"
  shows "argv_ok (a\<lparr>av_cells := (av_cells a)[av_argc a := Str s], av_argc := Suc (av_argc a)\<rparr>)"
    "argv_strings (a\<lparr>av_cells := (av_cells a)[av_argc a := Str s], av_argc := Suc (av_argc a)\<rparr>) = argv_strings a @ [s]"
  using assms by (auto simp: argv_ok_def argv_strings_def nth_list_update less_Suc_eq take_Suc_conv_app_nth)

lemma argv_add_loop_ok:
  "argv_ok a \<Longrightarrow> argv_ok (argv_add_loop a ss) \<and> argv_strings (argv_add_loop a ss) = argv_strings a @ ss"
proof (induction ss arbitrary: a)
  case (Cons s ss)
  note R = argv_room_ok [OF Cons.prems]
  note P = argv_put_ok [OF R(1), of s, unfolded R(3), OF R(4)]
  from Cons.IH [OF P(1)] P(2) R(2,3) show ?case by (simp add: Let_def)
qed simp

lemma acl_argv_terminate_ok:
  "argv_ok a \<Longrightarrow> argv_closed (acl_argv_terminate a) \<and> argv_strings (acl_argv_terminate a) = argv_strings a"
  by (auto simp: argv_ok_def argv_closed_def acl_argv_terminate_def argv_strings_def nth_list_update)

lemma argv_closedD: "argv_closed a \<Longrightarrow> argv_ok a"
  by (simp add: argv_closed_def)

lemma acl_argv_add_ok:
  "argv_ok a \<Longrightarrow> argv_closed (acl_argv_add a ss) \<and> argv_strings (acl_argv_add a ss) = argv_strings a @ ss"
  using argv_add_loop_ok [of a ss] acl_argv_terminate_ok [of "argv_add_loop a ss"] by (simp add: acl_argv_add_def)

lemma acl_argv_alloc_ok [simp]: "argv_closed (acl_argv_alloc len)" "argv_strings (acl_argv_alloc len) = []"
  by (auto simp: argv_closed_def argv_ok_def acl_argv_alloc_def argv_strings_def Let_def)

lemma argv_push_front_ok:
  assumes "argv_ok a"
  shows "argv_ok (argv_push_front a s) \<and> argv_strings (argv_push_front a s) = s # argv_strings a"
proof -
  note R = argv_room_ok [OF assms]
  define b where "b = argv_room a"
  let ?x = "b\<lparr>av_cells := (shift_up 0 (av_argc b) (av_cells b))[0 := Str s], av_argc := Suc (av_argc b)\<rparr>"
  have b: "argv_ok b" "argv_strings b = argv_strings a" "Suc (av_argc b) < av_len b"
    using R by (simp_all add: b_def)
  have cell: "av_cells ?x ! i = (if i = 0 then Str s else av_cells b ! (i - 1))" if "i < av_argc ?x" for i
    using that b by (auto simp: argv_ok_def nth_shift_up nth_list_update)
  have ok: "argv_ok ?x"
    unfolding argv_ok_def
  proof (intro conjI allI impI)
    fix i assume "i < av_argc ?x"
    with cell [of i] b(1) show "\<exists>s. av_cells ?x ! i = Str s" by (cases i) (auto simp: argv_ok_def)
  qed (use b in \<open>auto simp: argv_ok_def\<close>)
  have "argv_strings ?x = s # argv_strings b"
  proof (rule argv_eqI [OF ok])
    show "length (s # argv_strings b) = av_argc ?x" using b(1) by (simp add: argv_strings_def argv_ok_def)
    fix i assume i: "i < av_argc ?x"
    with cell [of i] b(1) show "cell_str (av_cells ?x ! i) = (s # argv_strings b) ! i"
      by (cases i) (auto simp: argv_strings_def argv_ok_def)
  qed
  with ok b(2) show ?thesis by (simp add: argv_push_front_def b_def Let_def)
qed

lemma argv_pop_back_ok:
  assumes "argv_ok a"
  shows "argv_ok (snd (argv_pop_back a))"
    "map_prod (map_option cell_str) argv_strings (argv_pop_back a) = list_pop_back (argv_strings a)"
proof -
  have l: "length (argv_strings a) = av_argc a" using assms by (simp add: argv_strings_def argv_ok_def)
  show "argv_ok (snd (argv_pop_back a))" using assms by (auto simp: argv_ok_def argv_pop_back_def)
  show "map_prod (map_option cell_str) argv_strings (argv_pop_back a) = list_pop_back (argv_strings a)"
  proof (cases "av_argc a = 0")
    case True
    then show ?thesis using l by (simp add: argv_pop_back_def list_pop_back_def)
  next
    case False
    have "argv_strings (a\<lparr>av_argc := av_argc a - 1\<rparr>) = butlast (argv_strings a)"
      using assms by (simp add: argv_strings_def argv_ok_def butlast_conv_take min_def take_map [symmetric])
    moreover have "cell_str (av_cells a ! (av_argc a - 1)) = last (argv_strings a)"
      using False l assms by (subst last_conv_nth) (auto simp: argv_strings_def argv_ok_def)
    moreover have "argv_strings a \<noteq> []" using False l by auto
    ultimately show ?thesis using False by (simp add: argv_pop_back_def list_pop_back_def)
  qed
qed

lemma argv_pop_front_ok:
  assumes "argv_ok a"
  shows "argv_ok (snd (argv_pop_front a))"
    "map_prod (map_option cell_str) argv_strings (argv_pop_front a) = list_pop_front (argv_strings a)"
proof -
  have l: "length (argv_strings a) = av_argc a" using assms by (simp add: argv_strings_def argv_ok_def)
  let ?x = "a\<lparr>av_cells := shift_down 0 (av_argc a - 1) (av_cells a), av_argc := av_argc a - 1\<rparr>"
  have cell: "av_cells ?x ! i = av_cells a ! Suc i" if "i < av_argc ?x" for i
    using nth_shift_down [of "av_argc a - 1" "av_cells a" i 0] that assms by (auto simp: argv_ok_def)
  have ok: "argv_ok ?x"
    using assms cell unfolding argv_ok_def by auto
  then show "argv_ok (snd (argv_pop_front a))" using assms by (simp add: argv_pop_front_def)
  show "map_prod (map_option cell_str) argv_strings (argv_pop_front a) = list_pop_front (argv_strings a)"
  proof (cases "argv_strings a")
    case Nil
    then show ?thesis using l by (simp add: argv_pop_front_def list_pop_front_def)
  next
    case (Cons x xs)
    then have pos: "0 < av_argc a" using l by auto
    have "argv_strings ?x = xs"
    proof (rule argv_eqI [OF ok])
      show "length xs = av_argc ?x" using Cons l by simp
      fix i assume i: "i < av_argc ?x"
      then have "cell_str (av_cells a ! Suc i) = argv_strings a ! Suc i"
        using assms by (simp add: argv_strings_def argv_ok_def)
      with cell [OF i] Cons show "cell_str (av_cells ?x ! i) = xs ! i" by simp
    qed
    moreover have "cell_str (av_cells a ! 0) = argv_strings a ! 0"
      using pos assms by (simp add: argv_strings_def argv_ok_def)
    ultimately show ?thesis using Cons pos by (simp add: argv_pop_front_def list_pop_front_def)
  qed
qed

section \<open>The interfaces\<close>

abbreviation argv_pop_b :: "acl_argv \<Rightarrow> cstr option \<times> acl_argv" where
  "argv_pop_b a \<equiv> map_prod (map_option cell_str) id (argv_pop_back a)"

abbreviation argv_pop_f :: "acl_argv \<Rightarrow> cstr option \<times> acl_argv" where
  "argv_pop_f a \<equiv> map_prod (map_option cell_str) id (argv_pop_front a)"

interpretation argv_deque: deque argv_push_back argv_pop_b argv_pop_f argv_strings argv_ok argv_push_front
proof unfold_locales
  fix a s
  assume a: "argv_ok a"
  show "argv_ok (argv_push_back a s)" "argv_strings (argv_push_back a s) = list_push_back (argv_strings a) s"
    using acl_argv_add_ok [OF a, of "[s]"] by (auto simp: argv_push_back_def list_push_back_def argv_closedD)
  show "argv_ok (argv_push_front a s)" "argv_strings (argv_push_front a s) = list_push_front (argv_strings a) s"
    using argv_push_front_ok [OF a, of s] by (auto simp: list_push_front_def)
  show "argv_ok (snd (argv_pop_b a))" "argv_ok (snd (argv_pop_f a))"
    using argv_pop_back_ok(1) [OF a] argv_pop_front_ok(1) [OF a] by simp_all
  show "map_prod id argv_strings (argv_pop_b a) = list_pop_back (argv_strings a)"
    "map_prod id argv_strings (argv_pop_f a) = list_pop_front (argv_strings a)"
    using argv_pop_back_ok(2) [OF a] argv_pop_front_ok(2) [OF a] by (simp_all add: map_prod.compositionality comp_def id_def)
qed

text \<open>The iterator needs a string, or a NULL, in the first cell.\<close>

definition argv_iter_ok :: "acl_argv \<Rightarrow> bool" where
  "argv_iter_ok a \<longleftrightarrow> argv_ok a \<and> (av_argc a = 0 \<longrightarrow> av_cells a ! 0 = Null)"

definition argv_iter_at :: "acl_argv \<Rightarrow> nat \<Rightarrow> (argv_cell, argv_cell) acl_iter \<Rightarrow> bool" where
  "argv_iter_at a n it \<longleftrightarrow> it_i it = int n \<and> it_ptr it = (if n < av_argc a then Some (av_cells a ! n) else None)"

abbreviation argv_items :: "acl_argv \<Rightarrow> argv_cell list" where
  "argv_items a \<equiv> take (av_argc a) (av_cells a)"

lemma argv_cell_ptr: "argv_ok a \<Longrightarrow> n < av_argc a \<Longrightarrow> cell_ptr (av_cells a ! n) = Some (av_cells a ! n)"
  using argv_ok_nth [of a n] by (metis argv_cell.distinct(5) cell_ptr_def)

interpretation argv_iter: iteration argv_iter_head argv_iter_next argv_items argv_iter_ok argv_iter_at
proof unfold_locales
  fix a :: acl_argv and it :: "(argv_cell, argv_cell) acl_iter" and n :: nat
  assume a: "argv_iter_ok a"
  then have ok: "argv_ok a" by (simp add: argv_iter_ok_def)
  have l: "length (argv_items a) = av_argc a" using ok by (simp add: argv_ok_def)
  show "argv_iter_at a 0 (argv_iter_head it a)"
    using a argv_cell_ptr [OF ok, of 0]
    by (auto simp: argv_iter_at_def argv_iter_head_def argv_at_def argv_iter_ok_def cell_ptr_def)
  show "argv_iter_at a (Suc n) (argv_iter_next it a)" if "argv_iter_at a n it" "n < length (argv_items a)"
    using that l argv_cell_ptr [OF ok, of "Suc n"]
    by (auto simp: argv_iter_at_def argv_iter_next_def argv_at_def Let_def nat_add_distrib)
  show "it_ptr it = (if n < length (argv_items a) then Some (argv_items a ! n) else None)"
    if "argv_iter_at a n it" "n \<le> length (argv_items a)"
    using that l by (auto simp: argv_iter_at_def)
qed

section \<open>Properties of the vector\<close>

text \<open>any run of the function pointers on a vector, from an empty one, gives what the same run gives
  on a list.\<close>

theorem argv_runs_as_list:
  "fst (seq_run argv_push_back argv_push_front argv_pop_b argv_pop_f (acl_argv_alloc len) ops) = fst (list_run [] ops)"
proof -
  have ok: "argv_ok (acl_argv_alloc len)" using acl_argv_alloc_ok(1) by (rule argv_closedD)
  show ?thesis
    using argv_deque.run_refines [OF ok, of ops]
    by (cases "seq_run argv_push_back argv_push_front argv_pop_b argv_pop_f (acl_argv_alloc len) ops") auto
qed

text \<open>a string pushed in front of an empty vector takes the place of the NULL that closes it, and no
  other is written: who goes through \<open>argv\<close> up to the NULL runs into what was not initialised.\<close>

theorem argv_push_front_not_closed:
  "av_cells (argv_push_front (acl_argv_alloc len) s) ! av_argc (argv_push_front (acl_argv_alloc len) s) = Junk"
  by (auto simp: argv_push_front_def acl_argv_alloc_def argv_room_def Let_def)

text \<open>the iterator's head reads the first cell of an empty vector too. When the last string was popped
  it is still there: \<open>acl_foreach\<close> over the empty vector visits it.\<close>

theorem argv_foreach_popped:
  "acl_foreach 2 argv_iter_head argv_iter_next (snd (argv_pop_back (argv_push_back (acl_argv_alloc len) s))) = Some [Str s]"
  by (auto simp: acl_foreach_def argv_iter_head_def argv_iter_next_def argv_pop_back_def argv_push_back_def
      acl_argv_add_def acl_argv_terminate_def argv_room_def acl_argv_alloc_def Let_def argv_at_def cell_ptr_def
      numeral_2_eq_2)

section \<open>Splitting\<close>

lemma split_loop_ok:
  "argv_ok a \<Longrightarrow> argv_ok (split_loop a bp d) \<and> argv_strings (split_loop a bp d) = argv_strings a @ strtok_tokens bp d"
proof (induction a bp d rule: split_loop.induct)
  case (1 a bp d)
  obtain r rest where tok: "acl_strtok bp d = (r, rest)" by (cases "acl_strtok bp d")
  show ?case
  proof (cases r)
    case None
    then show ?thesis using tok 1(2) by (subst (1 2) split_loop.simps, subst strtok_tokens.simps) simp
  next
    case (Some arg)
    have "argv_ok (acl_argv_add a [arg])" "argv_strings (acl_argv_add a [arg]) = argv_strings a @ [arg]"
      using acl_argv_add_ok [OF 1(2), of "[arg]"] by (auto dest: argv_closedD)
    then show ?thesis using tok Some 1(1) by (subst (1 2) split_loop.simps, subst strtok_tokens.simps) simp
  qed
qed

lemma splitn_loop_ok:
  "argv_ok a \<Longrightarrow> argv_ok (splitn_loop n a bp d) \<and> argv_strings (splitn_loop n a bp d) = argv_strings a @ take n (strtok_tokens bp d)"
proof (induction n a bp d rule: splitn_loop.induct)
  case (2 n a bp d)
  obtain r rest where tok: "acl_strtok bp d = (r, rest)" by (cases "acl_strtok bp d")
  show ?case
  proof (cases r)
    case None
    then show ?thesis using tok 2(2) by (subst strtok_tokens.simps) simp
  next
    case (Some arg)
    have "argv_ok (acl_argv_add a [arg])" "argv_strings (acl_argv_add a [arg]) = argv_strings a @ [arg]"
      using acl_argv_add_ok [OF 2(2), of "[arg]"] by (auto dest: argv_closedD)
    then show ?thesis using tok Some 2(1) by (subst strtok_tokens.simps) simp
  qed
qed simp

text \<open>splitting gives a closed vector with the tokens of the text in order: none is empty, none
  holds a delimiter, and together they are the text without its delimiters. With a limit it is the
  first \<open>n\<close> of them.\<close>

theorem argv_split_tokens:
  "argv_closed (acl_argv_split str delim) \<and> argv_closed (acl_argv_splitn str delim n) \<and>
   concat (argv_strings (acl_argv_split str delim)) = filter (\<lambda>c. c \<notin> set delim) str \<and>
   (\<forall>t \<in> set (argv_strings (acl_argv_split str delim)). t \<noteq> [] \<and> set t \<inter> set delim = {}) \<and>
   argv_strings (acl_argv_splitn str delim n) = take n (argv_strings (acl_argv_split str delim))"
proof -
  have ok: "argv_ok (acl_argv_alloc k)" for k using acl_argv_alloc_ok(1) by (rule argv_closedD)
  have s: "argv_closed (acl_argv_split str delim)" "argv_strings (acl_argv_split str delim) = strtok_tokens str (set delim)"
    using split_loop_ok [OF ok, of 1 str "set delim"] acl_argv_terminate_ok by (auto simp: acl_argv_split_def)
  let ?k = "if n > 0 then int n else 1"
  have "argv_closed (acl_argv_splitn str delim n)" "argv_strings (acl_argv_splitn str delim n) = take n (strtok_tokens str (set delim))"
    using splitn_loop_ok [OF ok, of n ?k str "set delim"] acl_argv_terminate_ok
    by (auto simp: acl_argv_splitn_def)
  with s strtok_tokens_ok [of str "set delim"] show ?thesis by auto
qed

lemma argv_split_tokens_witness:
  "argv_strings (acl_argv_splitn (lit ''a, b,,c'') (lit '', '') 2) = take 2 (argv_strings (acl_argv_split (lit ''a, b,,c'') (lit '', '')))"
  using argv_split_tokens [of "lit ''a, b,,c''" "lit '', ''" 2] by simp

text \<open>Splitting with quotes, on lists: \<open>cur\<close> is the text of the current item.\<close>

definition qs_item :: "cstr \<Rightarrow> cstr list" where
  "qs_item cur = (if cur = [] then [] else [cur])"

fun quote_spec :: "cstr \<Rightarrow> byte option \<Rightarrow> bool \<Rightarrow> byte set \<Rightarrow> cstr \<Rightarrow> cstr list" where
  "quote_spec cur qt bs delim [] = qs_item cur"
| "quote_spec cur qt bs delim (c # s) =
     (if bs then quote_spec (cur @ [c]) qt False delim s
      else if c = 92 then quote_spec cur qt True delim s
      else case qt of
        Some q \<Rightarrow>
          if c = q then qs_item cur @ quote_spec [] None False delim s else quote_spec (cur @ [c]) qt False delim s
      | None \<Rightarrow>
          if c = 39 \<or> c = 34 then quote_spec cur (Some c) False delim s
          else if c \<in> delim then qs_item cur @ quote_spec [] None False delim s
          else quote_spec (cur @ [c]) None False delim s)"

definition qs_state :: "vstring \<Rightarrow> cstr \<Rightarrow> bool" where
  "qs_state buf cur \<longleftrightarrow> vs_open buf \<and> vs_text buf = cur \<and> c_string cur \<and> (cur \<noteq> [] \<longrightarrow> vs_ok buf)"

lemma qs_add_ok:
  assumes "qs_state buf cur" "c \<noteq> 0"
  obtains buf' where "qs_add buf c = Some buf'" "qs_state buf' (cur @ [c])"
proof -
  obtain u where u: "vs_addch buf c = Some (uint c, u)" "vs_open u" "vs_text u = cur @ [c]"
    using vs_addch_open [of buf c] assms by (auto simp: qs_state_def)
  from u(2) obtain w where "vs_terminate u = Some w" "vs_ok w" "vs_text w = vs_text u" by (rule vs_terminate_open)
  with u assms that [of w] show thesis by (simp add: qs_add_def qs_state_def vs_okD)
qed

lemma qs_state_text: "qs_state buf cur \<Longrightarrow> cur \<noteq> [] \<Longrightarrow> cstr_of (vs_data buf) = cur"
proof -
  assume s: "qs_state buf cur" and ne: "cur \<noteq> []"
  then have v: "vs_ok buf" "vs_text buf = cur" "c_string cur" by (auto simp: qs_state_def)
  then have "vs_data buf = cur @ 0 # drop (Suc (vs_pos buf)) (vs_data buf)"
    using id_take_nth_drop [of "vs_pos buf" "vs_data buf"] by (simp add: vs_ok_def vs_text_def)
  with v(3) show ?thesis by (metis cstr_of_c_string)
qed

lemma qs_state_pos: "qs_state buf cur \<Longrightarrow> vs_pos buf > 0 \<longleftrightarrow> cur \<noteq> []"
  using length_vs_text [of buf] by (auto simp: qs_state_def simp flip: length_greater_0_conv)

lemma qs_state_reset: "qs_state buf cur \<Longrightarrow> qs_state (vs_reset buf) []"
  by (simp add: qs_state_def)

lemma qs_flush_ok:
  assumes "qs_state buf cur" "argv_ok a"
  obtains a' buf' where "qs_flush a buf = (a', buf')" "argv_ok a'" "argv_strings a' = argv_strings a @ qs_item cur"
    "qs_state buf' []"
proof (cases "cur = []")
  case True
  then show ?thesis using assms qs_state_pos [OF assms(1)] by (intro that [of a buf]) (simp_all add: qs_flush_def qs_item_def)
next
  case False
  then show ?thesis
    using qs_state_pos [OF assms(1)] qs_state_text [OF assms(1)] qs_state_reset [OF assms(1)] acl_argv_add_ok [OF assms(2), of "[cur]"]
    by (intro that [of "acl_argv_add a [cur]" "vs_reset buf"]) (simp_all add: qs_flush_def qs_item_def argv_closedD)
qed

lemma quote_loop_ok:
  "c_string s \<Longrightarrow> argv_ok a \<Longrightarrow> qs_state buf cur \<Longrightarrow>
   \<exists>a' buf' cur'. quote_loop a buf qt bs d s = Some (a', buf') \<and> argv_ok a' \<and> qs_state buf' cur' \<and>
     argv_strings a @ quote_spec cur qt bs d s = argv_strings a' @ qs_item cur'"
proof (induction s arbitrary: a buf cur qt bs)
  case (Cons c s)
  from Cons.prems have c: "c \<noteq> 0" "c_string s" by auto
  obtain b1 where b1: "qs_add buf c = Some b1" "qs_state b1 (cur @ [c])" by (rule qs_add_ok [OF Cons.prems(3) c(1)])
  obtain a2 b2 where f: "qs_flush a buf = (a2, b2)" "argv_ok a2" "argv_strings a2 = argv_strings a @ qs_item cur" "qs_state b2 []"
    by (rule qs_flush_ok [OF Cons.prems(3,2)])
  note add = Cons.IH [OF c(2) Cons.prems(2) b1(2)]
  note stay = Cons.IH [OF c(2) Cons.prems(2,3)]
  note flush = Cons.IH [OF c(2) f(2,4)]
  consider "bs" | "\<not> bs" "c = 92" | q where "\<not> bs" "c \<noteq> 92" "qt = Some q" "c = q"
    | q where "\<not> bs" "c \<noteq> 92" "qt = Some q" "c \<noteq> q" | "\<not> bs" "c \<noteq> 92" "qt = None" "c = 39 \<or> c = 34"
    | "\<not> bs" "c \<noteq> 92" "qt = None" "c \<noteq> 39" "c \<noteq> 34" "c \<in> d" | "\<not> bs" "c \<noteq> 92" "qt = None" "c \<noteq> 39" "c \<noteq> 34" "c \<notin> d"
    by (cases qt) auto
  then show ?case
  proof cases
    case 1
    with b1 add [of qt False] show ?thesis by (cases qt) simp_all
  next
    case 2
    with stay [of qt True] show ?thesis by (cases qt) simp_all
  next
    case 3
    with f flush [of None False] show ?thesis by simp
  next
    case 4
    with b1 add [of qt False] show ?thesis by simp
  next
    case 5
    then have "quote_loop a buf qt bs d (c # s) = quote_loop a buf (Some c) False d s"
      "quote_spec cur qt bs d (c # s) = quote_spec cur (Some c) False d s" by simp_all
    with stay [of "Some c" False] show ?thesis by simp
  next
    case 6
    with f flush [of None False] show ?thesis by simp
  next
    case 7
    with b1 add [of None False] show ?thesis by simp
  qed
qed auto

text \<open>splitting with quotes and backslashes never fails, gives a closed vector, and its strings
  are those of a scan that collects an item up to a delimiter outside of quotes or to a closing quote,
  takes the byte after a backslash as it is, and drops empty items.\<close>

theorem argv_quote_split_items:
  assumes "c_string str"
  shows "\<exists>a. acl_argv_quote_split junk str delim = Some a \<and> argv_closed a \<and>
    argv_strings a = quote_spec [] None False (set delim) str"
proof -
  have a: "argv_ok (acl_argv_alloc 1)" using acl_argv_alloc_ok(1) by (rule argv_closedD)
  have b: "qs_state (acl_vstring_alloc junk 128) []"
    by (simp add: qs_state_def acl_vstring_alloc_def vs_new_def vs_open_def vs_text_def)
  obtain a' buf' cur' where l: "quote_loop (acl_argv_alloc 1) (acl_vstring_alloc junk 128) None False (set delim) str = Some (a', buf')"
    "argv_ok a'" "qs_state buf' cur'" "quote_spec [] None False (set delim) str = argv_strings a' @ qs_item cur'"
    using quote_loop_ok [OF assms a b, of None False "set delim"] by auto
  have "argv_ok (acl_argv_add a' [cur'])" using acl_argv_add_ok [OF l(2)] by (blast dest: argv_closedD)
  with l qs_state_pos [OF l(3)] qs_state_text [OF l(3)] acl_argv_add_ok [OF l(2), of "[cur']"] acl_argv_terminate_ok
  show ?thesis by (auto simp: acl_argv_quote_split_def qs_item_def Let_def)
qed

lemma argv_quote_split_items_witness:
  "\<exists>a. acl_argv_quote_split (\<lambda>i. 0) (lit ''set key '' @ [34] @ lit ''a b'' @ [34] @ lit '' c'' @ [92] @ lit '' d'') (lit '' '') = Some a \<and>
     argv_strings a = [lit ''set'', lit ''key'', lit ''a b'', lit ''c d'']"
proof -
  have c: "c_string (lit ''set key '' @ [34] @ lit ''a b'' @ [34] @ lit '' c'' @ [92] @ lit '' d'')" by code_simp
  have "quote_spec [] None False (set (lit '' '')) (lit ''set key '' @ [34] @ lit ''a b'' @ [34] @ lit '' c'' @ [92] @ lit '' d'') = [lit ''set'', lit ''key'', lit ''a b'', lit ''c d'']"
    by code_simp
  with argv_quote_split_items [OF c] show ?thesis by metis
qed

end
