(* ===== verification/Cstdlib.thy ===== *)
theory Cstdlib
  imports Acl_Mystring
begin

text \<open>
  Decimal numbers as the C library writes and reads them: \<open>printf\<close>'s \<open>%d\<close> and \<open>%lu\<close>, a
  \<open>snprintf\<close> into a buffer of a given size, \<open>strtol\<close> with its limits and \<open>atoi\<close> as glibc has
  it (the low 32 bits of \<open>strtol\<close>), and \<open>strcasecmp\<close>/\<open>strncasecmp\<close>. The lemmas: a number that
  fits is read back as it was written, and \<open>acl_ui64toa_radix\<close> writes what \<open>%lu\<close> does.
\<close>

section \<open>Writing\<close>

fun dec_of_nat :: "nat \<Rightarrow> cstr" where
  "dec_of_nat n = (if n < 10 then [48 + of_nat n] else dec_of_nat (n div 10) @ [48 + of_nat (n mod 10)])"

declare dec_of_nat.simps [simp del]

definition dec_of_int :: "int \<Rightarrow> cstr" where
  "dec_of_int i = (if i < 0 then 45 # dec_of_nat (nat (- i)) else dec_of_nat (nat i))"

text \<open>\<open>snprintf(buf, size, ...)\<close> of a text: what is in the buffer, read as a string.\<close>

definition c_snprintf :: "nat \<Rightarrow> cstr \<Rightarrow> cstr" where
  "c_snprintf sz s = take (sz - 1) s"

section \<open>Reading\<close>

definition dec_value :: "cstr \<Rightarrow> nat" where
  "dec_value = foldl (\<lambda>n c. 10 * n + (unat c - 48)) 0"

text \<open>\<open>strtol\<close> in base ten: blanks, a sign, digits; out of range it gives the limit.\<close>

definition c_sign :: "cstr \<Rightarrow> bool \<times> cstr" where
  "c_sign s = (case dropWhile isspace s of
     [] \<Rightarrow> (False, [])
   | c # cs \<Rightarrow> if c = 45 then (True, cs) else if c = 43 then (False, cs) else (False, c # cs))"

definition c_strtol :: "cstr \<Rightarrow> int" where
  "c_strtol s = (case c_sign s of (neg, ds) \<Rightarrow>
     (let v = int (dec_value (takeWhile isdigit ds)); r = (if neg then - v else v)
      in max (- (2 ^ 63)) (min (2 ^ 63 - 1) r)))"

definition c_atoi :: "cstr \<Rightarrow> int" where
  "c_atoi s = signed_take_bit 31 (c_strtol s)"

text \<open>\<open>strtoull\<close>, read as a signed 64-bit number (\<open>acl_atoi64\<close> on Unix).\<close>

definition c_strtoull :: "cstr \<Rightarrow> u64" where
  "c_strtoull s = (case c_sign s of (neg, ds) \<Rightarrow>
     (let v = dec_value (takeWhile isdigit ds)
      in if v \<ge> 2 ^ 64 then - 1 else if neg then - of_nat v else of_nat v))"

definition acl_atoi64 :: "cstr \<Rightarrow> int" where
  "acl_atoi64 s = sint (c_strtoull s)"

section \<open>Comparing\<close>

definition c_strcasecmp_eq :: "cstr \<Rightarrow> cstr \<Rightarrow> bool" where
  "c_strcasecmp_eq s t \<longleftrightarrow> map tolower s = map tolower t"

definition c_strncasecmp_eq :: "cstr \<Rightarrow> cstr \<Rightarrow> nat \<Rightarrow> bool" where
  "c_strncasecmp_eq s t n \<longleftrightarrow> map tolower (take n s) = map tolower (take n t)"

section \<open>Lemmas\<close>

lemma dec_value_append: "dec_value (s @ [c]) = 10 * dec_value s + (unat c - 48)"
  by (simp add: dec_value_def)

lemma dec_value_Nil [simp]: "dec_value [] = 0"
  by (simp add: dec_value_def)

lemma unat_digit: "n < 10 \<Longrightarrow> unat (48 + of_nat n :: byte) = 48 + n"
  by (subst unat_word_ariths) (simp add: unsigned_of_nat take_bit_nat_eq_self)

lemma isdigit_digit: "n < 10 \<Longrightarrow> isdigit (48 + of_nat n)"
  by (simp add: isdigit_def word_le_nat_alt unat_digit)

lemma dec_of_nat_ne [simp]: "dec_of_nat n \<noteq> []"
  by (subst dec_of_nat.simps) simp

lemma dec_of_nat_digits: "list_all isdigit (dec_of_nat n)"
proof (induction n rule: dec_of_nat.induct)
  case (1 n)
  then show ?case
    by (subst dec_of_nat.simps) (simp add: isdigit_digit)
qed

lemma dec_value_of_nat [simp]: "dec_value (dec_of_nat n) = n"
proof (induction n rule: dec_of_nat.induct)
  case (1 n)
  show ?case
  proof (cases "n < 10")
    case True
    then show ?thesis
      by (subst dec_of_nat.simps) (simp add: dec_value_def unat_digit)
  next
    case False
    then have "dec_value (dec_of_nat n) = 10 * (n div 10) + n mod 10"
      using 1 by (subst dec_of_nat.simps) (simp add: dec_value_append unat_digit)
    then show ?thesis by simp
  qed
qed

lemma takeWhile_digits [simp]: "takeWhile isdigit (dec_of_nat n) = dec_of_nat n"
  using dec_of_nat_digits [of n] by (simp add: list_all_iff takeWhile_eq_all_conv)

lemma c_sign_nat [simp]: "c_sign (dec_of_nat n) = (False, dec_of_nat n)"
proof -
  obtain c cs where n: "dec_of_nat n = c # cs" by (cases "dec_of_nat n") auto
  with dec_of_nat_digits [of n] have "isdigit c" by simp
  then have "\<not> isspace c" "c \<noteq> 45" "c \<noteq> 43"
    using not_space by (auto simp: isdigit_def word_le_nat_alt)
  with n show ?thesis by (simp add: c_sign_def)
qed

lemma c_sign_neg [simp]: "c_sign (45 # s) = (True, s)"
  by (simp add: c_sign_def not_space)

lemma c_strtol_nat: "n < 2 ^ 63 \<Longrightarrow> c_strtol (dec_of_nat n) = int n"
  by (simp add: c_strtol_def)

lemma c_atoi_nat [simp]: "n < 2 ^ 31 \<Longrightarrow> c_atoi (dec_of_nat n) = int n"
  by (simp add: c_atoi_def c_strtol_nat signed_take_bit_int_eq_self_iff)

lemma c_atoi_int: "- (2 ^ 31) \<le> i \<Longrightarrow> i < 2 ^ 31 \<Longrightarrow> c_atoi (dec_of_int i) = i"
  by (cases "i < 0")
    (simp_all add: dec_of_int_def c_atoi_def c_strtol_def Let_def signed_take_bit_int_eq_self_iff)

lemma dec_not_in: "isdigit c = False \<Longrightarrow> c \<notin> set (dec_of_nat n)"
  using dec_of_nat_digits [of n] by (auto simp: list_all_iff)

lemma dec_length:
  "n < 10 ^ Suc k \<Longrightarrow> length (dec_of_nat n) \<le> Suc k"
proof (induction k arbitrary: n)
  case 0
  then show ?case by (subst dec_of_nat.simps) simp
next
  case (Suc k)
  show ?case
  proof (cases "n < 10")
    case True
    then show ?thesis by (subst dec_of_nat.simps) simp
  next
    case False
    have "n div 10 < 10 ^ Suc k" using Suc.prems by (simp add: less_mult_imp_div_less mult.commute)
    with False Suc.IH show ?thesis by (subst dec_of_nat.simps) simp
  qed
qed

lemma x64_digits_dec:
  "unat v < 10 ^ n \<Longrightarrow> n > 0 \<Longrightarrow> rev (x64_digits n v 10) = dec_of_nat (unat v)"
proof (induction n arbitrary: v)
  case (Suc n)
  let ?d = "v mod 10"
  have d: "unat ?d = unat v mod 10" by (simp add: unat_mod_distrib)
  then have nd: "\<not> 9 < ?d" by (simp add: word_less_nat_alt)
  have q: "unat (v div 10) = unat v div 10" by (simp add: unat_div_distrib)
  have c: "ucast ?d + 48 = (48 + of_nat (unat v mod 10) :: byte)"
    by (simp add: word_unat_eq_iff unsigned_ucast_eq unat_word_ariths unsigned_of_nat take_bit_nat_eq_self d)
  have digits: "x64_digits (Suc n) v 10 = (ucast ?d + 48) # (if 0 < v div 10 then x64_digits n (v div 10) 10 else [])"
    using nd by (simp add: Let_def)
  have pos: "0 < v div 10 \<longleftrightarrow> \<not> unat v < 10"
    by (simp add: word_less_nat_alt q div_greater_zero_iff not_less)
  show ?case
  proof (cases "unat v < 10")
    case True
    then show ?thesis
      unfolding digits using c pos by (subst dec_of_nat.simps) simp
  next
    case False
    with Suc.prems have "unat (v div 10) < 10 ^ n" "n > 0"
      by (auto simp: q less_mult_imp_div_less mult.commute intro!: gr0I)
    from Suc.IH [OF this] False show ?thesis
      unfolding digits using c pos q by (subst dec_of_nat.simps) simp
  qed
qed simp

text \<open>\<open>acl_ui64toa_radix\<close> in radix ten writes what \<open>%lu\<close> does.\<close>

lemma ui64toa_dec:
  assumes "20 \<le> sz" "n < 2 ^ 64"
  shows "acl_ui64toa_radix (of_nat n) sz 10 = Some (dec_of_nat n)"
proof -
  have n: "unat (of_nat n :: u64) = n" using assms(2) by (simp add: unsigned_of_nat take_bit_nat_eq_self)
  have "n < 2 ^ 64" by (rule assms(2))
  also have "(2::nat) ^ 64 \<le> 10 ^ 20" by simp
  also have "(10::nat) ^ 20 \<le> 10 ^ sz" using assms(1) by (intro power_increasing) auto
  finally have "unat (of_nat n :: u64) < 10 ^ sz" by (simp only: n)
  with x64_digits_dec [OF this] assms(1) n show ?thesis
    by (simp add: acl_ui64toa_radix_def x64toa_eq)
qed

end
