(* ===== verification/Acl_Vprint.thy ===== *)
theory Acl_Vprint
  imports Acl_Vstring Cstdlib
begin

text \<open>
  \<^verbatim>\<open>acllib/src/stdlib/acl_vbuf_print.c\<close>, the printf of acllib, and the four printing functions of
  \<^verbatim>\<open>acl_vstring.c\<close> over it. The code cuts the format into single conversions, makes room in the buffer
  and leaves the conversion to the C library's \<open>sprintf\<close>, which writes wherever its output ends:
  that it stays inside of the room is what there is to show.

  \<open>c_sprintf\<close> is C's \<open>sprintf\<close> for a format that is one conversion. \<open>None\<close> is what the C standard
  leaves undefined, an output longer than an \<open>int\<close> can say, a write outside of a buffer, or
  \<open>acl_msg_panic\<close> and \<open>acl_msg_fatal\<close>, which end the process. A floating point argument is the function
  that prints it.
\<close>

section \<open>One conversion of sprintf\<close>

datatype va = VInt u32 | VLong u64 | VStr "cstr option" | VPtr u64 | VDbl "cstr \<Rightarrow> cstr"

fun base_digits :: "nat \<Rightarrow> byte \<Rightarrow> nat \<Rightarrow> cstr" where
  "base_digits b ten n =
     (let d = (\<lambda>k. if k < 10 then 48 + of_nat k else ten + of_nat (k - 10))
      in if b < 2 \<or> n < b then [d n] else base_digits b ten (n div b) @ [d (n mod b)])"

declare base_digits.simps [simp del]

definition sp_pad :: "cstr \<Rightarrow> nat \<Rightarrow> cstr \<Rightarrow> cstr" where
  "sp_pad fl w t = (if 45 \<in> set fl then t @ replicate (w - length t) 32 else replicate (w - length t) 32 @ t)"

text \<open>A sign, and digits that a precision fills with zeros; the flag \<open>0\<close> fills the width.\<close>

definition sp_number :: "cstr \<Rightarrow> nat \<Rightarrow> nat option \<Rightarrow> cstr \<Rightarrow> cstr \<Rightarrow> cstr" where
  "sp_number fl w p sign ds =
     (let ds = (if p = Some 0 \<and> ds = [48] then [] else ds);
          ds = replicate ((case p of None \<Rightarrow> 0 | Some k \<Rightarrow> k) - length ds) 48 @ ds
      in if p = None \<and> 48 \<in> set fl \<and> 45 \<notin> set fl
         then sign @ replicate (w - length sign - length ds) 48 @ ds
         else sp_pad fl w (sign @ ds))"

definition sp_signed :: "cstr \<Rightarrow> nat \<Rightarrow> nat option \<Rightarrow> int \<Rightarrow> cstr" where
  "sp_signed fl w p i =
     sp_number fl w p (if i < 0 then [45] else if 43 \<in> set fl then [43] else []) (dec_of_nat (nat \<bar>i\<bar>))"

definition sp_unsigned :: "cstr \<Rightarrow> nat \<Rightarrow> nat option \<Rightarrow> byte \<Rightarrow> nat \<Rightarrow> cstr" where
  "sp_unsigned fl w p c n = sp_number fl w p []
     (if c = 117 then dec_of_nat n else if c = 111 then base_digits 8 97 n
      else if c = 120 then base_digits 16 97 n else base_digits 16 65 n)"

definition is_length :: "byte \<Rightarrow> bool" where
  "is_length c \<longleftrightarrow> c = 108 \<or> c = 122"

definition is_flag :: "byte \<Rightarrow> bool" where
  "is_flag c \<longleftrightarrow> c = 45 \<or> c = 43 \<or> c = 48"

definition sp_conv :: "cstr \<Rightarrow> cstr \<Rightarrow> nat \<Rightarrow> nat option \<Rightarrow> cstr \<Rightarrow> byte \<Rightarrow> va \<Rightarrow> cstr option" where
  "sp_conv fmt fl w p ln c a = (case a of
     VInt n \<Rightarrow>
       if ln \<noteq> [] then None
       else if c = 100 then Some (sp_signed fl w p (sint n))
       else if c \<in> {117, 111, 120, 88} then Some (sp_unsigned fl w p c (unat n))
       else if c = 99 then Some (sp_pad fl w [ucast n])
       else None
   | VLong n \<Rightarrow>
       if ln \<notin> {[108], [108, 108], [122]} then None
       else if c = 100 then Some (sp_signed fl w p (sint n))
       else if c \<in> {117, 111, 120, 88} then Some (sp_unsigned fl w p c (unat n))
       else None
   | VStr s \<Rightarrow>
       if ln \<noteq> [] \<or> c \<noteq> 115 then None
       else map_option (\<lambda>s. sp_pad fl w (case p of None \<Rightarrow> s | Some k \<Rightarrow> take k s)) s
   | VPtr n \<Rightarrow>
       if ln \<noteq> [] \<or> c \<noteq> 112 then None
       else Some (sp_pad fl w (if n = 0 then lit ''(nil)'' else lit ''0x'' @ base_digits 16 97 (unat n)))
   | VDbl f \<Rightarrow> if ln \<noteq> [] \<or> c \<notin> {101, 102, 103} then None else Some (f fmt))"

definition c_sprintf :: "cstr \<Rightarrow> va \<Rightarrow> cstr option" where
  "c_sprintf fmt a =
     (let s = tl fmt;
          fl = takeWhile is_flag s; s = dropWhile is_flag s;
          w = dec_value (takeWhile isdigit s); s = dropWhile isdigit s;
          dot = (s \<noteq> [] \<and> hd s = 46); s = (if dot then tl s else s);
          p = (if dot then Some (dec_value (takeWhile isdigit s)) else None);
          s = (if dot then dropWhile isdigit s else s);
          ln = takeWhile is_length s; s = dropWhile is_length s
      in if fmt = [] \<or> hd fmt \<noteq> 37 then None
         else if w \<ge> 2 ^ 31 \<or> (\<exists>k. p = Some k \<and> k \<ge> 2 ^ 31) then None
         else case s of [c] \<Rightarrow> sp_conv fmt fl w p ln c a | _ \<Rightarrow> None)"

section \<open>Cutting the format\<close>

text \<open>\<open>fmt\<close> has \<open>MAX_LEN + 1\<close> bytes; the digit loops check it, nothing else does.\<close>

definition take_char :: "byte \<Rightarrow> cstr \<times> cstr \<Rightarrow> cstr \<times> cstr" where
  "take_char c fs = (case fs of (f, s) \<Rightarrow> if s \<noteq> [] \<and> hd s = c then (f @ [c], tl s) else (f, s))"

fun digit_loop :: "cstr \<Rightarrow> u32 \<Rightarrow> cstr \<Rightarrow> (cstr \<times> u32 \<times> cstr) option" where
  "digit_loop f w [] = Some (f, w, [])"
| "digit_loop f w (c # s) =
     (if isdigit c
      then if length f + 1 \<ge> 128 then None else digit_loop (f @ [c]) (w * 10 + ucast c - 48) s
      else Some (f, w, c # s))"

text \<open>A width or a precision: the next argument, or digits.\<close>

definition num_field :: "cstr \<Rightarrow> cstr \<Rightarrow> va list \<Rightarrow> (cstr \<times> u32 \<times> cstr \<times> va list) option" where
  "num_field f s args =
     (if s \<noteq> [] \<and> hd s = 42
      then (case args of
        VInt n # args \<Rightarrow>
          if length f + length (dec_of_int (sint n)) + 1 > 129 then None
          else Some (f @ dec_of_int (sint n), n, tl s, args)
      | _ \<Rightarrow> None)
      else map_option (\<lambda>(f, w, s). (f, w, s, args)) (digit_loop f 0 s))"

definition take_long :: "cstr \<Rightarrow> cstr \<Rightarrow> cstr \<times> nat \<times> cstr" where
  "take_long f s =
     (if s \<noteq> [] \<and> hd s = 108
      then if tl s \<noteq> [] \<and> hd (tl s) = 108 then (f @ [108, 108], 2, tl (tl s)) else (f @ [108], 1, tl s)
      else if s \<noteq> [] \<and> hd s = 122 then (f @ [122], 1, tl s)
      else (f, 0, s))"

definition parse_spec :: "cstr \<Rightarrow> va list \<Rightarrow> (cstr \<times> u32 \<times> u32 \<times> nat \<times> cstr \<times> va list) option" where
  "parse_spec s args = do {
     let (f, s) = take_char 48 (take_char 43 (take_char 45 ([37], s)));
     (f, width, s, args) \<leftarrow> num_field f s args;
     let (f, s) = take_char 46 (f, s);
     (f, prec, s, args) \<leftarrow> num_field f s args;
     let (f, long_flag, s) = take_long f s;
     Some (f, width, prec, long_flag, s, args) }"

section \<open>Printing\<close>

definition vbuf_skip :: "vstring \<Rightarrow> vstring" where
  "vbuf_skip v = vs_at_offset v (vs_pos v + length (takeWhile (\<lambda>c. c \<noteq> 0) (drop (vs_pos v) (vs_data v))))"

fun vbuf_strcat :: "vstring \<Rightarrow> cstr \<Rightarrow> vstring option" where
  "vbuf_strcat v [] = Some v"
| "vbuf_strcat v (c # s) = do { (r, v) \<leftarrow> vs_addch v c; vbuf_strcat v s }"

text \<open>Room for \<open>max width prec + slack\<close> bytes and a call of \<open>sprintf\<close>. \<open>False\<close>: the code returns.\<close>

definition sprintf_at :: "vstring \<Rightarrow> u32 \<Rightarrow> u32 \<Rightarrow> nat \<Rightarrow> cstr \<Rightarrow> va \<Rightarrow> (bool \<times> vstring) option" where
  "sprintf_at v w p slack fmt a = do {
     (r, v) \<leftarrow> vstring_buf_space v (int (max (unat w) (unat p) + slack));
     if r \<noteq> 0 then Some (False, v)
     else do {
       out \<leftarrow> c_sprintf fmt a;
       v \<leftarrow> put_bytes v (vs_pos v) (out @ [0]);
       Some (True, vbuf_skip v) } }"

definition str_of_arg :: "cstr option \<Rightarrow> cstr" where
  "str_of_arg s = (case s of None \<Rightarrow> lit ''(null)'' | Some t \<Rightarrow> t)"

fun fetch_int :: "nat \<Rightarrow> va list \<Rightarrow> (va \<times> va list) option" where
  "fetch_int 0 (VInt n # args) = Some (VInt n, args)"
| "fetch_int (Suc k) (VLong n # args) = Some (VLong n, args)"
| "fetch_int k args = None"

text \<open>The switch on the type. The text of the last error is an argument.\<close>

definition print_conv ::
  "cstr \<Rightarrow> vstring \<Rightarrow> cstr \<Rightarrow> u32 \<Rightarrow> u32 \<Rightarrow> nat \<Rightarrow> byte \<Rightarrow> va list \<Rightarrow> ((bool \<times> vstring) \<times> va list) option"
where
  "print_conv serror v fmt w p lf c args =
     (if c = 115 then (case args of
        VStr s # args \<Rightarrow>
          let s = str_of_arg s in
          if p > 0 \<or> (w > 0 \<and> unat w > length s)
          then map_option (\<lambda>bv. (bv, args)) (sprintf_at v w p 32 fmt (VStr (Some s)))
          else map_option (\<lambda>v. ((True, v), args)) (vbuf_strcat v s)
      | _ \<Rightarrow> None)
      else if c \<in> {99, 100, 117, 111, 120, 88} then do {
        (a, args) \<leftarrow> fetch_int lf args;
        map_option (\<lambda>bv. (bv, args)) (sprintf_at v w p 32 fmt a) }
      else if c \<in> {101, 102, 103} then (case args of
        VDbl f # args \<Rightarrow> map_option (\<lambda>bv. (bv, args)) (sprintf_at v w p 340 fmt (VDbl f))
      | _ \<Rightarrow> None)
      else if c = 109 then map_option (\<lambda>v. ((True, v), args)) (vbuf_strcat v serror)
      else if c = 112 then (case args of
        VPtr n # args \<Rightarrow> map_option (\<lambda>bv. (bv, args)) (sprintf_at v w p 32 fmt (VPtr n))
      | _ \<Rightarrow> None)
      else None)"

lemma digit_loop_shorter: "digit_loop f w s = Some (f', w', s') \<Longrightarrow> length s' \<le> length s"
  by (induction f w s rule: digit_loop.induct) (auto split: if_splits)

lemma num_field_shorter: "num_field f s args = Some (f', w, s', args') \<Longrightarrow> length s' \<le> length s"
  by (auto simp: num_field_def split: if_splits list.splits va.splits dest: digit_loop_shorter)

lemma take_char_shorter: "take_char c (f, s) = (f', s') \<Longrightarrow> length s' \<le> length s"
  by (auto simp: take_char_def split: if_splits)

lemma take_long_shorter: "take_long f s = (f', k, s') \<Longrightarrow> length s' \<le> length s"
  by (auto simp: take_long_def split: if_splits)

lemma parse_spec_shorter:
  assumes "parse_spec s args = Some (f, w, p, k, s', args')"
  shows "length s' \<le> length s"
proof -
  obtain f0 s0 where a: "take_char 48 (take_char 43 (take_char 45 ([37], s))) = (f0, s0)" by fastforce
  then have l0: "length s0 \<le> length s"
    by (auto simp: take_char_def split: if_splits)
  from assms a obtain f1 s1 args1 f2 s2 f3 s3 p1 where
    "num_field f0 s0 args = Some (f1, w, s1, args1)" "take_char 46 (f1, s1) = (f2, s2)"
    "num_field f2 s2 args1 = Some (f3, p1, s3, args')" "take_long f3 s3 = (f, k, s')"
    by (auto simp: parse_spec_def split: prod.splits bind_splits)
  with l0 show ?thesis
    by (meson num_field_shorter take_char_shorter take_long_shorter order_trans)
qed

function acl_vbuf_print :: "cstr \<Rightarrow> vstring \<Rightarrow> cstr \<Rightarrow> va list \<Rightarrow> vstring option" where
  "acl_vbuf_print serror v [] args = Some v"
| "acl_vbuf_print serror v (c # s) args =
     (if c \<noteq> 37 then do { (r, v) \<leftarrow> vs_addch v c; acl_vbuf_print serror v s args }
      else if s \<noteq> [] \<and> hd s = 37 then do { (r, v) \<leftarrow> vs_addch v c; acl_vbuf_print serror v (tl s) args }
      else do {
        (f, w, p, lf, s, args) \<leftarrow> parse_spec s args;
        if s = [] then Some v
        else if length f + 2 > 129 then None
        else do {
          ((ok, v), args) \<leftarrow> print_conv serror v (f @ [hd s]) w p lf (hd s) args;
          if ok then acl_vbuf_print serror v (tl s) args else Some v } })"
  by pat_completeness auto
termination
  by (relation "measure (\<lambda>(_, _, s, _). length s)")
    (auto simp: less_Suc_eq_le dest!: parse_spec_shorter)

declare acl_vbuf_print.simps [simp del]

definition acl_vstring_vsprintf :: "cstr \<Rightarrow> vstring \<Rightarrow> cstr \<Rightarrow> va list \<Rightarrow> vstring option" where
  "acl_vstring_vsprintf serror v fmt args = do {
     v \<leftarrow> acl_vbuf_print serror (vs_reset v) fmt args; vs_terminate v }"

definition acl_vstring_vsprintf_append :: "cstr \<Rightarrow> vstring \<Rightarrow> cstr \<Rightarrow> va list \<Rightarrow> vstring option" where
  "acl_vstring_vsprintf_append serror v fmt args = do {
     v \<leftarrow> acl_vbuf_print serror v fmt args; vs_terminate v }"

text \<open>The text is printed behind the old text, the old text is copied behind it, and all but the
  old text in front is moved down.\<close>

definition acl_vstring_sprintf_prepend :: "cstr \<Rightarrow> vstring \<Rightarrow> cstr \<Rightarrow> va list \<Rightarrow> vstring option" where
  "acl_vstring_sprintf_prepend serror v fmt args = do {
     let old_len = vs_pos v;
     v \<leftarrow> acl_vstring_vsprintf_append serror v fmt args;
     let result_len = vs_pos v;
     (r, v) \<leftarrow> vstring_buf_space v (int old_len);
     v \<leftarrow> acl_vstring_memcat v (Own 0) old_len;
     if old_len + result_len > vs_size v then None
     else do {
       v \<leftarrow> put_bytes v 0 (take result_len (drop old_len (vs_data v)));
       vs_terminate (vs_at_offset v result_len) } }"

section \<open>The output fits the room\<close>

lemma base_digits_length:
  "2 \<le> b \<Longrightarrow> n < b ^ Suc k \<Longrightarrow> length (base_digits b t n) \<le> Suc k"
proof (induction k arbitrary: n)
  case 0
  then show ?case by (subst base_digits.simps) simp
next
  case (Suc k)
  show ?case
  proof (cases "n < b")
    case True
    then show ?thesis by (subst base_digits.simps) simp
  next
    case False
    have "n div b < b ^ Suc k" using Suc.prems by (simp add: less_mult_imp_div_less mult.commute)
    with False Suc show ?thesis by (subst base_digits.simps) (simp add: Let_def)
  qed
qed

text \<open>No number of 64 bits has more than 22 digits in any of the bases.\<close>

lemma digits64:
  assumes "n < 2 ^ 64"
  shows "length (dec_of_nat n) \<le> 22" "length (base_digits 8 t n) \<le> 22" "length (base_digits 16 t n) \<le> 22"
proof -
  have "n < 10 ^ Suc 21" "n < 8 ^ Suc 21" "n < 16 ^ Suc 21" using assms by simp_all
  then show "length (dec_of_nat n) \<le> 22" "length (base_digits 8 t n) \<le> 22" "length (base_digits 16 t n) \<le> 22"
    using dec_length [of n 21] base_digits_length [of 8 n 21 t] base_digits_length [of 16 n 21 t] by simp_all
qed

definition prec_of :: "nat option \<Rightarrow> nat" where
  "prec_of p = (case p of None \<Rightarrow> 0 | Some k \<Rightarrow> k)"

lemma sp_pad_length: "length (sp_pad fl w t) = max w (length t)"
  by (auto simp: sp_pad_def)

lemma sp_number_length:
  assumes "length ds \<le> 22" "length sign \<le> 1"
  shows "length (sp_number fl w p sign ds) \<le> max w (prec_of p) + 31"
proof -
  let ?ds = "if p = Some 0 \<and> ds = [48] then [] else ds"
  have "length ?ds \<le> 22" using assms by auto
  then show ?thesis
    using assms(2) by (auto simp: sp_number_def Let_def sp_pad_length prec_of_def split: option.splits)
qed

lemma sp_conv_length:
  assumes "sp_conv fmt fl w p ln c a = Some out" "\<forall>f. a \<noteq> VDbl f"
    "\<forall>s. a = VStr (Some s) \<longrightarrow> p \<noteq> None \<or> length s \<le> m"
  shows "length out \<le> max (max w (prec_of p)) m + 31"
proof -
  have num: "nat \<bar>sint (n :: u32)\<bar> < 2 ^ 64" "nat \<bar>sint (m :: u64)\<bar> < 2 ^ 64" "unat n < 2 ^ 64" "unat m < 2 ^ 64" for n m
    using sint_greater_eq [of n] sint_less [of n] sint_greater_eq [of m] sint_less [of m]
      unsigned_less [of n, where ?'a = nat] unsigned_less [of m, where ?'a = nat]
    by (simp_all add: nat_less_iff abs_less_iff)
  have sg: "length (sp_signed fl w p i) \<le> max (max w (prec_of p)) m + 31" if "nat \<bar>i\<bar> < 2 ^ 64" for i
    unfolding sp_signed_def by (intro le_trans [OF sp_number_length] digits64 that) simp_all
  have us: "length (sp_unsigned fl w p c k) \<le> max (max w (prec_of p)) m + 31" if "k < 2 ^ 64" for k c
    unfolding sp_unsigned_def using digits64 [OF that] by (intro le_trans [OF sp_number_length]) simp_all
  show ?thesis
  proof (cases a)
    case (VInt n)
    with assms(1) sg [OF num(1), of n] us [OF num(3)] show ?thesis
      by (auto simp: sp_conv_def sp_pad_length split: if_splits)
  next
    case (VLong n)
    with assms(1) sg [OF num(2), of n] us [OF num(4)] show ?thesis
      by (auto simp: sp_conv_def split: if_splits)
  next
    case (VStr s)
    with assms(1) obtain t where t: "s = Some t" "out = sp_pad fl w (case p of None \<Rightarrow> t | Some k \<Rightarrow> take k t)"
      by (auto simp: sp_conv_def split: if_splits)
    with assms(3) VStr show ?thesis by (auto simp: sp_pad_length prec_of_def split: option.splits)
  next
    case (VPtr n)
    with assms(1) have "out = sp_pad fl w (if n = 0 then lit ''(nil)'' else lit ''0x'' @ base_digits 16 97 (unat n))"
      by (auto simp: sp_conv_def split: if_splits)
    with digits64(3) [OF num(4) [of n], of 97] show ?thesis by (auto simp: sp_pad_length lit_def)
  next
    case (VDbl f)
    with assms(2) show ?thesis by simp
  qed
qed

section \<open>What sprintf reads in the format is what the code has read\<close>

text \<open>The text of a width or precision that the code takes for the number \<open>w\<close>: digits, or a number
  that it has printed itself.\<close>

definition field_text :: "cstr \<Rightarrow> u32 \<Rightarrow> bool" where
  "field_text t w \<longleftrightarrow> list_all isdigit t \<and> w = of_nat (dec_value t) \<or> t = dec_of_int (sint w)"

lemma digit_loop_text:
  assumes "digit_loop f w s = Some (f', w', s')" "w = of_nat (dec_value t)"
  shows "\<exists>ds. f' = f @ ds \<and> list_all isdigit ds \<and> w' = of_nat (dec_value (t @ ds)) \<and>
    (s' = [] \<or> \<not> isdigit (hd s'))"
  using assms
proof (induction s arbitrary: f w t)
  case (Cons c s)
  show ?case
  proof (cases "isdigit c")
    case True
    then have "(48::nat) \<le> unat c" by (simp add: isdigit_def word_le_nat_alt)
    then have "(of_nat (unat c - 48) :: u32) = ucast c - 48"
      by (simp add: of_nat_diff)
    then have "w * 10 + ucast c - 48 = of_nat (dec_value (t @ [c]))"
      using Cons.prems(2) by (simp add: dec_value_append)
    with True Cons show ?thesis by (fastforce split: if_splits)
  next
    case False
    with Cons.prems show ?thesis by auto
  qed
qed auto

lemma num_field_text:
  assumes "num_field f s args = Some (f', w, s', args')"
  shows "\<exists>t. f' = f @ t \<and> field_text t w \<and> (s \<noteq> [] \<and> hd s = 42 \<or> s' = [] \<or> \<not> isdigit (hd s'))"
proof (cases "s \<noteq> [] \<and> hd s = 42")
  case True
  with assms show ?thesis
    by (auto simp: num_field_def field_text_def split: list.splits va.splits if_splits)
next
  case False
  with assms have "digit_loop f 0 s = Some (f', w, s')" by (auto simp: num_field_def split: if_splits)
  from digit_loop_text [OF this, of "[]"] show ?thesis by (auto simp: field_text_def)
qed

lemma flag_not_digit: "is_flag c \<Longrightarrow> isdigit c \<Longrightarrow> c = 48"
  by (auto simp: is_flag_def isdigit_def)

lemma flags_of_digits:
  "list_all isdigit ds \<Longrightarrow>
   list_all isdigit (dropWhile is_flag ds) \<and> dec_value (dropWhile is_flag ds) = dec_value ds"
proof (induction ds)
  case (Cons c ds)
  then show ?case
    using flag_not_digit [of c] by (auto simp: dec_value_def)
qed simp

lemma dropWhile_before:
  "rest = [] \<or> \<not> P (hd rest) \<Longrightarrow> dropWhile P (xs @ rest) = dropWhile P xs @ rest"
  by (induction xs) (cases rest, auto)

lemma digits_before:
  assumes "list_all isdigit ds" "rest = [] \<or> \<not> isdigit (hd rest)"
  shows "takeWhile isdigit (ds @ rest) = ds" "dropWhile isdigit (ds @ rest) = rest"
  using assms by (induction ds) (cases rest, auto)+

lemma field_value:
  assumes f: "field_text t w" and rest: "rest = [] \<or> \<not> isdigit (hd rest) \<and> \<not> is_flag (hd rest)"
  shows "\<exists>ds. dropWhile is_flag (t @ rest) = ds @ rest \<and> list_all isdigit ds \<and>
    (dec_value ds < 2 ^ 31 \<longrightarrow> dec_value ds \<le> unat w)"
proof -
  have drop: "dropWhile is_flag (t @ rest) = dropWhile is_flag t @ rest"
    using rest by (intro dropWhile_before) auto
  show ?thesis
  proof (cases "list_all isdigit t \<and> w = of_nat (dec_value t)")
    case True
    with flags_of_digits [of t] drop show ?thesis
      by (auto simp: unsigned_of_nat take_bit_nat_eq_self)
  next
    case False
    with f have t: "t = dec_of_int (sint w)" by (simp add: field_text_def)
    let ?n = "nat \<bar>sint w\<bar>"
    have "dropWhile is_flag t = dropWhile is_flag (dec_of_nat ?n)"
      using t by (auto simp: dec_of_int_def is_flag_def)
    with flags_of_digits [OF dec_of_nat_digits, of ?n] drop
    have "dropWhile is_flag (t @ rest) = dropWhile is_flag (dec_of_nat ?n) @ rest"
      "list_all isdigit (dropWhile is_flag (dec_of_nat ?n))"
      "dec_value (dropWhile is_flag (dec_of_nat ?n)) = ?n" by simp_all
    moreover have "?n \<le> unat w" if "?n < 2 ^ 31"
    proof -
      have u: "uint w = sint w mod 2 ^ 32" by (simp add: uint_sint take_bit_eq_mod)
      have b: "- (2 ^ 31) \<le> sint w" "sint w < 2 ^ 31" using sint_greater_eq [of w] sint_less [of w] by simp_all
      have "sint w mod 2 ^ 32 = (if sint w < 0 then sint w + 2 ^ 32 else sint w)"
      proof (cases "sint w < 0")
        case True
        have "sint w mod 2 ^ 32 = (sint w + 2 ^ 32) mod 2 ^ 32" by (rule mod_add_self2 [symmetric])
        also have "\<dots> = sint w + 2 ^ 32" using True b by (intro mod_pos_pos_trivial) simp_all
        finally show ?thesis using True by simp
      qed (use b in \<open>simp add: mod_pos_pos_trivial\<close>)
      with u b have "\<bar>sint w\<bar> \<le> uint w" by (auto split: if_splits)
      then show ?thesis by (simp add: nat_le_iff)
    qed
    ultimately show ?thesis by metis
  qed
qed

text \<open>A precision that the code has printed as a negative number makes \<open>sprintf\<close>'s format invalid.\<close>

lemma field_prec:
  assumes f: "field_text t w" and rest: "rest = [] \<or> \<not> isdigit (hd rest)" and s: "dropWhile isdigit (t @ rest) = u"
  shows "u = rest \<and> (dec_value (takeWhile isdigit (t @ rest)) < 2 ^ 31 \<longrightarrow>
      dec_value (takeWhile isdigit (t @ rest)) \<le> unat w) \<or> (u \<noteq> [] \<and> hd u = 45)"
proof (cases "list_all isdigit t")
  case True
  note d = digits_before [OF True rest]
  have "dec_value t < 2 ^ 31 \<longrightarrow> dec_value t \<le> unat w"
  proof (cases "w = of_nat (dec_value t)")
    case True
    then show ?thesis by (simp add: unsigned_of_nat take_bit_nat_eq_self)
  next
    case False
    with f \<open>list_all isdigit t\<close> have t: "t = dec_of_int (sint w)" by (simp add: field_text_def)
    then have "0 \<le> sint w" using \<open>list_all isdigit t\<close> by (auto simp: dec_of_int_def isdigit_def split: if_splits)
    with t have "dec_value t = nat (sint w)" by (simp add: dec_of_int_def)
    moreover have "uint w = sint w"
      using \<open>0 \<le> sint w\<close> sint_less [of w] by (simp add: uint_sint take_bit_int_eq_self)
    ultimately show ?thesis by (simp add: nat_le_iff)
  qed
  with d s show ?thesis by simp
next
  case False
  with f have "t = dec_of_int (sint w)" by (auto simp: field_text_def)
  with False dec_of_nat_digits have "\<exists>ds. t = 45 # ds" by (auto simp: dec_of_int_def split: if_splits)
  with s show ?thesis by (auto simp: isdigit_def)
qed

section \<open>Printing to a list\<close>

text \<open>The same formats without a buffer: the output is what \<open>sprintf\<close> gives, up to its first zero byte.
  A precision needs its dot: the code takes digits or a star behind a width of the other kind for
  a precision, while \<open>sprintf\<close> reads both as one width. A floating point output must fit the room
  of \<open>DBL_SPACE\<close>.\<close>

definition strict_prec :: "cstr \<Rightarrow> bool" where
  "strict_prec s \<longleftrightarrow> s = [] \<or> hd s = 46 \<or> (hd s \<noteq> 42 \<and> \<not> isdigit (hd s))"

definition strict_spec :: "cstr \<Rightarrow> va list \<Rightarrow> bool" where
  "strict_spec s args =
     (let (f, s) = take_char 48 (take_char 43 (take_char 45 ([37], s)))
      in case num_field f s args of None \<Rightarrow> False | Some (f, w, s, args) \<Rightarrow> strict_prec s)"

definition until_zero :: "cstr \<Rightarrow> cstr" where
  "until_zero = takeWhile (\<lambda>c. c \<noteq> 0)"

definition list_conv ::
  "cstr \<Rightarrow> cstr \<Rightarrow> u32 \<Rightarrow> u32 \<Rightarrow> nat \<Rightarrow> byte \<Rightarrow> va list \<Rightarrow> (cstr \<times> va list) option"
where
  "list_conv serror fmt w p lf c args =
     (if c = 115 then (case args of
        VStr s # args \<Rightarrow>
          let s = str_of_arg s in
          if p > 0 \<or> (w > 0 \<and> unat w > length s)
          then map_option (\<lambda>t. (until_zero t, args)) (c_sprintf fmt (VStr (Some s)))
          else Some (s, args)
      | _ \<Rightarrow> None)
      else if c \<in> {99, 100, 117, 111, 120, 88} then do {
        (a, args) \<leftarrow> fetch_int lf args;
        map_option (\<lambda>t. (until_zero t, args)) (c_sprintf fmt a) }
      else if c \<in> {101, 102, 103} then (case args of
        VDbl f # args \<Rightarrow> (case c_sprintf fmt (VDbl f) of
          None \<Rightarrow> None
        | Some t \<Rightarrow> if length t < max (unat w) (unat p) + 340 then Some (until_zero t, args) else None)
      | _ \<Rightarrow> None)
      else if c = 109 then Some (serror, args)
      else if c = 112 then (case args of
        VPtr n # args \<Rightarrow> map_option (\<lambda>t. (until_zero t, args)) (c_sprintf fmt (VPtr n))
      | _ \<Rightarrow> None)
      else None)"

function list_print :: "cstr \<Rightarrow> cstr \<Rightarrow> va list \<Rightarrow> cstr option" where
  "list_print serror [] args = Some []"
| "list_print serror (c # s) args =
     (if c \<noteq> 37 then map_option (Cons c) (list_print serror s args)
      else if s \<noteq> [] \<and> hd s = 37 then map_option (Cons c) (list_print serror (tl s) args)
      else if \<not> strict_spec s args then None
      else do {
        (f, w, p, lf, s, args) \<leftarrow> parse_spec s args;
        if s = [] then Some []
        else if length f + 2 > 129 then None
        else do {
          (t, args) \<leftarrow> list_conv serror (f @ [hd s]) w p lf (hd s) args;
          map_option (append t) (list_print serror (tl s) args) } })"
  by pat_completeness auto
termination
  by (relation "measure (\<lambda>(_, s, _). length s)")
    (auto simp: less_Suc_eq_le dest!: parse_spec_shorter)

declare list_print.simps [simp del]

lemma take_char_eq:
  "take_char c (f, s) = (f', s') \<Longrightarrow> \<exists>t. f' = f @ t \<and> (t = [c] \<and> s = c # s' \<or> t = [] \<and> s' = s \<and> (s = [] \<or> hd s \<noteq> c))"
  by (cases s) (auto simp: take_char_def split: if_splits)

lemma take_long_eq:
  "take_long f s = (f', k, s') \<Longrightarrow> \<exists>t. f' = f @ t \<and> list_all is_length t"
  by (auto simp: take_long_def is_length_def split: if_splits)

lemma num_field_none:
  "s = [] \<or> (hd s \<noteq> 42 \<and> \<not> isdigit (hd s)) \<Longrightarrow> num_field f s args = Some (f, 0, s, args)"
  by (cases s) (auto simp: num_field_def)

text \<open>What the parser has put together.\<close>

lemma parse_spec_text:
  assumes "parse_spec s args = Some (f, w, p, k, s', args')" "strict_spec s args"
  shows "\<exists>fl wt dot pt ln. f = 37 # fl @ wt @ (if dot then 46 # pt else []) @ ln \<and> list_all is_flag fl \<and>
    field_text wt w \<and> (if dot then field_text pt p else p = 0) \<and> list_all is_length ln"
proof -
  obtain f1 s1 where c1: "take_char 45 ([37], s) = (f1, s1)" by fastforce
  obtain f2 s2 where c2: "take_char 43 (f1, s1) = (f2, s2)" by fastforce
  obtain f0 s0 where c3: "take_char 48 (f2, s2) = (f0, s0)" by fastforce
  note c = c1 c2 c3
  have "take_char 48 (take_char 43 (take_char 45 ([37], s))) = (f0, s0)" using c by simp
  with assms(1) obtain f1' s1' args1 f2' s2' f3 s3 where n:
    "num_field f0 s0 args = Some (f1', w, s1', args1)" "take_char 46 (f1', s1') = (f2', s2')"
    "num_field f2' s2' args1 = Some (f3, p, s3, args')" "take_long f3 s3 = (f, k, s')"
    by (auto simp: parse_spec_def split: prod.splits bind_splits)
  have strict: "strict_prec s1'" using assms(2) c n(1) by (simp add: strict_spec_def)
  obtain fl where fl: "f0 = 37 # fl" "list_all is_flag fl"
    using take_char_eq [OF c1] take_char_eq [OF c2] take_char_eq [OF c3] by (auto simp: is_flag_def)
  obtain wt where wt: "f1' = f0 @ wt" "field_text wt w" using num_field_text [OF n(1)] by blast
  obtain ln where ln: "f = f3 @ ln" "list_all is_length ln" using take_long_eq [OF n(4)] by blast
  from take_char_eq [OF n(2)] consider "f2' = f1' @ [46]" | "f2' = f1'" "s2' = s1'" "s1' = [] \<or> hd s1' \<noteq> 46" by auto
  then show ?thesis
  proof cases
    case 1
    obtain pt where "f3 = f2' @ pt" "field_text pt p" using num_field_text [OF n(3)] by blast
    with 1 fl wt ln show ?thesis
      by (intro exI [of _ fl] exI [of _ wt] exI [of _ True] exI [of _ pt] exI [of _ ln]) simp
  next
    case 2
    with strict have "num_field f2' s2' args1 = Some (f2', 0, s2', args1)"
      by (intro num_field_none) (auto simp: strict_prec_def)
    with n(3) have "f3 = f2'" "p = 0" by simp_all
    with 2 fl wt ln show ?thesis
      by (intro exI [of _ fl] exI [of _ wt] exI [of _ False] exI [of _ "[]"] exI [of _ ln]) simp
  qed
qed

definition type_char :: "byte \<Rightarrow> bool" where
  "type_char c \<longleftrightarrow> c \<in> {115, 99, 100, 117, 111, 120, 88, 101, 102, 103, 112}"

lemma type_char: "type_char c \<Longrightarrow> \<not> isdigit c \<and> \<not> is_flag c \<and> \<not> is_length c \<and> c \<noteq> 46 \<and> c \<noteq> 45"
  by (auto simp: type_char_def isdigit_def is_flag_def is_length_def)

lemma length_then_type:
  "list_all is_length ln \<Longrightarrow> type_char c \<Longrightarrow>
   \<not> isdigit (hd (ln @ [c])) \<and> \<not> is_flag (hd (ln @ [c])) \<and> hd (ln @ [c]) \<noteq> 46 \<and> hd (ln @ [c]) \<noteq> 45 \<and>
   takeWhile is_length (ln @ [c]) = ln \<and> dropWhile is_length (ln @ [c]) = [c]"
  using type_char [of c]
  by (cases ln) (auto simp: list_all_iff is_length_def isdigit_def is_flag_def takeWhile_append2 dropWhile_append2)

lemma sprintf_fits:
  assumes f: "f = 37 # fl @ wt @ (if dot then 46 # pt else []) @ ln" "list_all is_flag fl" "field_text wt w"
      "if dot then field_text pt p else p = 0" "list_all is_length ln"
    and c: "type_char c" and out: "c_sprintf (f @ [c]) a = Some out" and a: "\<forall>g. a \<noteq> VDbl g"
      "\<forall>t. a = VStr (Some t) \<longrightarrow> p > 0 \<or> length t \<le> unat w"
  shows "length out \<le> max (unat w) (unat p) + 31"
proof -
  let ?rest = "(if dot then 46 # pt else []) @ ln @ [c]"
  note lc = length_then_type [OF f(5) c]
  have "?rest = [] \<or> \<not> isdigit (hd ?rest) \<and> \<not> is_flag (hd ?rest)"
    using lc by (auto simp: isdigit_def is_flag_def)
  from field_value [OF f(3) this] obtain ds where ds: "dropWhile is_flag (wt @ ?rest) = ds @ ?rest"
    "list_all isdigit ds" "dec_value ds < 2 ^ 31 \<longrightarrow> dec_value ds \<le> unat w" by blast
  have fl: "dropWhile is_flag (fl @ wt @ ?rest) = ds @ ?rest"
    using f(2) ds(1) by (simp add: list_all_iff dropWhile_append2)
  note dig = digits_before [OF ds(2), of ?rest]
  have tl: "tl (f @ [c]) = fl @ wt @ ?rest" "hd (f @ [c]) = 37" using f(1) by simp_all
  show ?thesis
  proof (cases dot)
    case False
    with out tl fl dig lc ds(3) obtain W where W: "W \<le> unat w"
      "sp_conv (f @ [c]) (takeWhile is_flag (fl @ wt @ ln @ [c])) W None ln c a = Some out"
      by (auto simp: c_sprintf_def Let_def split: if_splits)
    with sp_conv_length [OF W(2) a(1), of "unat w"] a(2) f(4) False show ?thesis
      by (auto simp: prec_of_def)
  next
    case True
    let ?pr = "pt @ ln @ [c]"
    let ?P = "dec_value (takeWhile isdigit ?pr)"
    let ?u = "dropWhile isdigit ?pr"
    have nd: "\<not> isdigit (46 :: byte)" by (simp add: isdigit_def)
    have "\<exists>d. dropWhile is_length ?u = [d] \<and> dec_value ds \<le> unat w \<and> ?P < 2 ^ 31 \<and>
      sp_conv (f @ [c]) (takeWhile is_flag (fl @ wt @ 46 # ?pr)) (dec_value ds) (Some ?P) (takeWhile is_length ?u) d a = Some out"
      using out tl fl dig ds(3) True nd by (simp add: c_sprintf_def Let_def split: if_splits list.splits)
    then obtain d where W: "dropWhile is_length ?u = [d]" "dec_value ds \<le> unat w" "?P < 2 ^ 31"
      "sp_conv (f @ [c]) (takeWhile is_flag (fl @ wt @ 46 # ?pr)) (dec_value ds) (Some ?P) (takeWhile is_length ?u) d a = Some out"
      by blast
    have "field_text pt p" using f(4) True by simp
    from field_prec [OF this _ refl, of "ln @ [c]"] lc W(3)
    consider "?u = ln @ [c]" "?P \<le> unat p" | "?u \<noteq> []" "hd ?u = 45" by auto
    then show ?thesis
    proof cases
      case 1
      with sp_conv_length [OF W(4) a(1), of 0] W(2) show ?thesis by (simp add: prec_of_def)
    next
      case 2
      then obtain u where "?u = 45 # u" by (cases ?u) auto
      with W(1) have "d = 45" "takeWhile is_length ?u = []" by (simp_all add: is_length_def)
      with W(4) have False by (auto simp: sp_conv_def split: va.splits if_splits)
      then show ?thesis ..
    qed
  qed
qed

section \<open>Printing into the buffer is printing to a list\<close>

lemma takeWhile_zero: "takeWhile (\<lambda>c. c \<noteq> 0) (out @ 0 # r) = until_zero out"
  by (induction out) (auto simp: until_zero_def)

lemma sprintf_at_ok:
  assumes v: "vs_open v" and out: "c_sprintf fmt a = Some out" "length out < max (unat w) (unat p) + slack"
  shows "\<exists>v'. sprintf_at v w p slack fmt a = Some (True, v') \<and> vs_open v' \<and>
    vs_text v' = vs_text v @ until_zero out"
proof -
  let ?n = "max (unat w) (unat p) + slack"
  let ?t = "until_zero out"
  obtain u where u: "vstring_buf_space v (int ?n) = Some (0, u)" "vs_open u" "vs_text u = vs_text v"
    "vs_pos u = vs_pos v" "vs_pos v + ?n \<le> vs_size u" by (rule vstring_buf_space_open [OF v, of ?n]) blast
  define d where "d = take (vs_pos u) (vs_data u) @ (out @ [0]) @ drop (vs_pos u + length (out @ [0])) (vs_data u)"
  have put: "put_bytes u (vs_pos u) (out @ [0]) = Some (u\<lparr>vs_data := d\<rparr>)"
    using u(4,5) out(2) by (simp add: put_bytes_def d_def)
  have ld: "length d = vs_size u" "vs_pos u \<le> vs_size u" using u(4,5) out(2) by (simp_all add: d_def)
  have lt: "length ?t \<le> length out" by (simp add: until_zero_def length_takeWhile_le)
  have drop: "drop (vs_pos u) d = out @ 0 # drop (vs_pos u + length (out @ [0])) (vs_data u)"
    using ld(2) by (simp add: d_def)
  then have skip: "vbuf_skip (u\<lparr>vs_data := d\<rparr>) = vs_at_offset (u\<lparr>vs_data := d\<rparr>) (vs_pos u + length ?t)"
    by (simp add: vbuf_skip_def takeWhile_zero)
  have "take (vs_pos u + length ?t) d = take (vs_pos u) (vs_data u) @ take (length ?t) (drop (vs_pos u) d)"
    using ld(2) by (simp add: d_def)
  also have "take (length ?t) (drop (vs_pos u) d) = ?t"
    using lt by (simp add: drop until_zero_def takeWhile_eq_take [symmetric])
  finally have "vs_text (vbuf_skip (u\<lparr>vs_data := d\<rparr>)) = vs_text v @ ?t"
    using u(3) by (simp add: skip vs_text_def vs_at_offset_def)
  moreover have "vs_open (vbuf_skip (u\<lparr>vs_data := d\<rparr>))"
    using u(2,4,5) ld lt out(2) by (simp add: skip vs_open_def vs_at_offset_def)
  ultimately show ?thesis
    using u(1) out(1) put by (simp add: sprintf_at_def)
qed

lemma vbuf_strcat_ok:
  "vs_open v \<Longrightarrow> \<exists>v'. vbuf_strcat v s = Some v' \<and> vs_open v' \<and> vs_text v' = vs_text v @ s"
proof (induction s arbitrary: v)
  case (Cons c s)
  obtain u where "vs_addch v c = Some (uint c, u)" "vs_open u" "vs_text u = vs_text v @ [c]"
    using vs_addch_open [OF Cons.prems] by blast
  with Cons.IH [of u] show ?case by auto
qed simp

text \<open>One conversion.\<close>

lemma print_conv_ok:
  assumes v: "vs_open v" and parse: "parse_spec s args = Some (f, w, p, lf, s', args1)" "strict_spec s args"
    and l: "list_conv serror (f @ [c]) w p lf c args1 = Some (t, args2)"
  shows "\<exists>v'. print_conv serror v (f @ [c]) w p lf c args1 = Some ((True, v'), args2) \<and> vs_open v' \<and>
    vs_text v' = vs_text v @ t"
proof -
  obtain fl wt dot pt ln where f: "f = 37 # fl @ wt @ (if dot then 46 # pt else []) @ ln"
    "list_all is_flag fl" "field_text wt w" "if dot then field_text pt p else p = 0" "list_all is_length ln"
    using parse_spec_text [OF parse] by blast
  note fits = sprintf_fits [OF f]
  note into = sprintf_at_ok [OF v, where w = w and p = p]
  consider (str) "c = 115" | (num) "c \<in> {99, 100, 117, 111, 120, 88}" | (dbl) "c \<in> {101, 102, 103}"
    | (err) "c = 109" | (ptr) "c = 112"
    using l by (auto simp: list_conv_def split: if_splits)
  then show ?thesis
  proof cases
    case str
    with l obtain x args' where x: "args1 = VStr x # args'"
      by (auto simp: list_conv_def split: list.splits va.splits)
    let ?s = "str_of_arg x"
    show ?thesis
    proof (cases "p > 0 \<or> (w > 0 \<and> unat w > length ?s)")
      case True
      with l str x obtain out where c: "c_sprintf (f @ [c]) (VStr (Some ?s)) = Some out" "t = until_zero out" "args' = args2"
        by (auto simp: list_conv_def)
      with fits [of c "VStr (Some ?s)" out] str True have "length out \<le> max (unat w) (unat p) + 31"
        by (auto simp: type_char_def)
      with into [OF c(1), of 32] str x True c(2,3) show ?thesis by (auto simp: print_conv_def)
    next
      case False
      with l str x have "t = ?s" "args' = args2" by (auto simp: list_conv_def)
      with vbuf_strcat_ok [OF v, of ?s] str x False show ?thesis by (auto simp: print_conv_def)
    qed
  next
    case num
    with l obtain a out where a: "fetch_int lf args1 = Some (a, args2)" "c_sprintf (f @ [c]) a = Some out"
      "t = until_zero out"
      by (auto simp: list_conv_def split: bind_splits)
    have "(\<forall>g. a \<noteq> VDbl g) \<and> (\<forall>t. a \<noteq> VStr t)"
      using a(1) by (cases "(lf, args1)" rule: fetch_int.cases) auto
    with fits [of c a out] a(2) num have "length out \<le> max (unat w) (unat p) + 31" by (auto simp: type_char_def)
    with into [OF a(2), of 32] num a(1,3) show ?thesis by (auto simp: print_conv_def)
  next
    case dbl
    with l obtain g args' out where "args1 = VDbl g # args'" "c_sprintf (f @ [c]) (VDbl g) = Some out"
      "length out < max (unat w) (unat p) + 340" "args' = args2" "t = until_zero out"
      by (auto simp: list_conv_def split: list.splits va.splits option.splits if_splits)
    with into [of "f @ [c]" "VDbl g" out 340] dbl show ?thesis by (auto simp: print_conv_def)
  next
    case err
    with l have "t = serror" "args1 = args2" by (auto simp: list_conv_def)
    with vbuf_strcat_ok [OF v, of serror] err show ?thesis by (auto simp: print_conv_def)
  next
    case ptr
    with l obtain n args' out where n: "args1 = VPtr n # args'" "c_sprintf (f @ [c]) (VPtr n) = Some out"
      "args' = args2" "t = until_zero out"
      by (auto simp: list_conv_def split: list.splits va.splits)
    with fits [of c "VPtr n" out] ptr have "length out \<le> max (unat w) (unat p) + 31" by (auto simp: type_char_def)
    with into [OF n(2), of 32] ptr n show ?thesis by (auto simp: print_conv_def)
  qed
qed

lemma vbuf_print_refines:
  "vs_open v \<Longrightarrow> list_print serror s args = Some out \<Longrightarrow>
   \<exists>v'. acl_vbuf_print serror v s args = Some v' \<and> vs_open v' \<and> vs_text v' = vs_text v @ out"
proof (induction serror s args arbitrary: v out rule: list_print.induct)
  case (1 serror args)
  then show ?case by (simp add: list_print.simps acl_vbuf_print.simps)
next
  case (2 serror c s args)
  obtain u where u: "vs_addch v c = Some (uint c, u)" "vs_open u" "vs_text u = vs_text v @ [c]"
    using vs_addch_open [OF 2(4)] by blast
  consider (plain) "c \<noteq> 37" | (pct) "c = 37" "s \<noteq> [] \<and> hd s = 37" | (spec) "c = 37" "\<not> (s \<noteq> [] \<and> hd s = 37)"
    by blast
  then show ?case
  proof cases
    case plain
    with 2(5) obtain o1 where o: "list_print serror s args = Some o1" "out = c # o1"
      by (auto simp: list_print.simps(2))
    with 2(1) [OF plain u(2) o(1)] u plain show ?thesis by (auto simp: acl_vbuf_print.simps(2))
  next
    case pct
    with 2(5) obtain o1 where o: "list_print serror (tl s) args = Some o1" "out = c # o1"
      by (auto simp: list_print.simps(2))
    from pct have "\<not> c \<noteq> 37" by simp
    from 2(2) [OF this pct(2) u(2) o(1)] u pct o(2) show ?thesis by (auto simp: acl_vbuf_print.simps(2))
  next
    case spec
    with 2(5) obtain f w p lf s' args1 where p: "strict_spec s args" "parse_spec s args = Some (f, w, p, lf, s', args1)"
      by (auto simp: list_print.simps(2) split: if_splits bind_splits)
    show ?thesis
    proof (cases "s' = []")
      case True
      with p spec 2(4,5) show ?thesis by (auto simp: list_print.simps(2) acl_vbuf_print.simps(2))
    next
      case False
      with p spec 2(5) obtain t args2 o1 where l: "length f + 2 \<le> 129"
        "list_conv serror (f @ [hd s']) w p lf (hd s') args1 = Some (t, args2)"
        "list_print serror (tl s') args2 = Some o1" "out = t @ o1"
        by (auto simp: list_print.simps(2) split: if_splits bind_splits)
      obtain x where x: "print_conv serror v (f @ [hd s']) w p lf (hd s') args1 = Some ((True, x), args2)"
        "vs_open x" "vs_text x = vs_text v @ t"
        using print_conv_ok [OF 2(4) p(2,1) l(2)] by blast
      have "\<exists>v'. acl_vbuf_print serror x (tl s') args2 = Some v' \<and> vs_open v' \<and> vs_text v' = vs_text x @ o1"
        by (rule 2(3)) (use spec p False l x in auto)
      with spec p False l x show ?thesis by (auto simp: acl_vbuf_print.simps(2))
    qed
  qed
qed

text \<open>The whole functions.\<close>

lemma vsprintf_append_ok:
  assumes "vs_ok v" "list_print serror fmt args = Some out"
  shows "\<exists>v'. acl_vstring_vsprintf_append serror v fmt args = Some v' \<and> vs_ok v' \<and> vs_text v' = vs_text v @ out"
proof -
  from vbuf_print_refines [OF vs_okD [OF assms(1)] assms(2)] obtain u where
    u: "acl_vbuf_print serror v fmt args = Some u" "vs_open u" "vs_text u = vs_text v @ out" by blast
  from u(2) obtain v' where "vs_terminate u = Some v'" "vs_ok v'" "vs_text v' = vs_text u" by (rule vs_terminate_open)
  with u show ?thesis by (simp add: acl_vstring_vsprintf_append_def)
qed

lemma vsprintf_ok:
  assumes "vs_open v" "list_print serror fmt args = Some out"
  shows "\<exists>v'. acl_vstring_vsprintf serror v fmt args = Some v' \<and> vs_ok v' \<and> vs_text v' = out"
proof -
  have "vs_open (vs_reset v)" using assms(1) by simp
  from vbuf_print_refines [OF this assms(2)] obtain u where
    u: "acl_vbuf_print serror (vs_reset v) fmt args = Some u" "vs_open u" "vs_text u = out" using assms(1) by auto
  from u(2) obtain v' where "vs_terminate u = Some v'" "vs_ok v'" "vs_text v' = vs_text u" by (rule vs_terminate_open)
  with u show ?thesis by (simp add: acl_vstring_vsprintf_def)
qed

text \<open>Appending a front part of the own text when there is room for it.\<close>

lemma memcat_own:
  assumes v: "vs_open v" and room: "n \<le> vs_pos v" "vs_pos v + n \<le> vs_size v"
  shows "\<exists>v'. acl_vstring_memcat v (Own 0) n = Some v' \<and> vs_ok v' \<and> vs_text v' = vs_text v @ take n (vs_text v)"
proof (cases "n = 0")
  case True
  from v obtain v' where "vs_terminate v = Some v'" "vs_ok v'" "vs_text v' = vs_text v" by (rule vs_terminate_open)
  with True show ?thesis by (simp add: acl_vstring_memcat_def)
next
  case False
  have sp: "vstring_buf_space v (int n) = Some (0, v)" "\<not> int n > vs_cnt v"
    using room by (simp_all add: vstring_buf_space_def space_by_def vs_cnt_def)
  have src: "src_bytes False v (Own 0) n = Some (take n (vs_text v))" "length (take n (vs_text v)) = n"
    using room by (simp_all add: src_bytes_def vs_text_def min_def)
  obtain u where u: "put_bytes v (vs_pos v) (take n (vs_text v)) = Some u" "vs_open (vs_at_offset u (vs_pos v + n))"
    "vs_text (vs_at_offset u (vs_pos v + n)) = vs_text v @ take n (vs_text v)"
    using put_at_end [OF v, of "take n (vs_text v)"] room(2) src(2) by auto
  have pos: "vs_pos u = vs_pos v" using u(1) by (auto simp: put_bytes_def split: if_splits)
  from u(2) obtain v' where "vs_terminate (vs_at_offset u (vs_pos v + n)) = Some v'" "vs_ok v'"
    "vs_text v' = vs_text (vs_at_offset u (vs_pos v + n))" by (rule vs_terminate_open)
  moreover have "min (int n) (vs_cnt v) = int n" "\<not> overlaps (Own 0) (vs_pos v) n"
    using room by (simp_all add: vs_cnt_def overlaps_def)
  ultimately show ?thesis
    using False sp src u(1,3) pos by (simp add: acl_vstring_memcat_def Let_def add.commute)
qed

lemma sprintf_prepend_ok:
  assumes v: "vs_ok v" and out: "list_print serror fmt args = Some out"
  shows "\<exists>v'. acl_vstring_sprintf_prepend serror v fmt args = Some v' \<and> vs_ok v' \<and> vs_text v' = out @ vs_text v"
proof -
  let ?n = "vs_pos v"
  obtain u where u: "acl_vstring_vsprintf_append serror v fmt args = Some u" "vs_ok u" "vs_text u = vs_text v @ out"
    using vsprintf_append_ok [OF v out] by blast
  have len: "length (vs_text v) = ?n" "length (vs_text u) = vs_pos u"
    using length_vs_text [OF vs_okD] v u(2) by auto
  then have m: "vs_pos u = ?n + length out" using u(3) by simp
  obtain w where w: "vstring_buf_space u (int ?n) = Some (0, w)" "vs_open w" "vs_text w = vs_text u"
    "vs_pos w = vs_pos u" "vs_pos u + ?n \<le> vs_size w"
    by (rule vstring_buf_space_open [OF vs_okD [OF u(2)], of ?n]) blast
  obtain x where x: "acl_vstring_memcat w (Own 0) ?n = Some x" "vs_ok x" "vs_text x = vs_text v @ out @ vs_text v"
    using memcat_own [OF w(2), of ?n] w(3-5) m u(3) len by auto
  have sx: "vs_pos x = ?n + vs_pos u" "vs_pos x < vs_size x"
    using length_vs_text [OF vs_okD [OF x(2)]] x(2,3) len m by (simp_all add: vs_ok_def)
  have tk: "take (vs_pos u) (drop ?n (vs_data x)) = out @ vs_text v"
  proof -
    have "take (vs_pos u) (drop ?n (vs_data x)) = drop ?n (vs_text x)"
      using sx(1) by (simp add: vs_text_def drop_take)
    then show ?thesis using x(3) len by simp
  qed
  define y where "y = x\<lparr>vs_data := (out @ vs_text v) @ drop (vs_pos u) (vs_data x)\<rparr>"
  have lo: "length (out @ vs_text v) = vs_pos u" using m len by simp
  have put: "put_bytes x 0 (out @ vs_text v) = Some y"
    using sx lo by (simp add: put_bytes_def y_def)
  have dy: "vs_data y = (out @ vs_text v) @ drop (vs_pos u) (vs_data x)" by (simp add: y_def)
  have "vs_text (vs_at_offset y (vs_pos u)) = take (length (out @ vs_text v)) (vs_data y)"
    unfolding lo by (subst vs_text_def) (simp add: vs_at_offset_def)
  then have "vs_text (vs_at_offset y (vs_pos u)) = out @ vs_text v" unfolding dy by simp
  moreover have "vs_size y = vs_size x" "vs_maxlen y = vs_maxlen x" using sx lo by (simp_all add: y_def)
  then have "vs_open (vs_at_offset y (vs_pos u))"
    using x(2) sx by (auto simp: vs_open_def vs_ok_def vs_at_offset_def)
  ultimately obtain v' where "vs_terminate (vs_at_offset y (vs_pos u)) = Some v'" "vs_ok v'" "vs_text v' = out @ vs_text v"
    by (metis vs_terminate_open)
  moreover have "\<not> ?n + vs_pos u > vs_size x" using sx by simp
  ultimately show ?thesis
    using u(1) w(1) x(1) put tk by (simp add: acl_vstring_sprintf_prepend_def)
qed

section \<open>Numbers\<close>

lemma list_print_plain: "c \<noteq> 37 \<Longrightarrow> list_print e (c # s) args = map_option (Cons c) (list_print e s args)"
  by (simp add: list_print.simps(2))

lemma fetch_long [simp]: "fetch_int 1 (VLong n # args) = Some (VLong n, args)"
  "fetch_int 2 (VLong n # args) = Some (VLong n, args)"
  by (simp_all add: numeral_2_eq_2)

lemma list_print_number:
  "list_print e (lit ''%d'') [VInt n] = Some (dec_of_int (sint n))"
  "list_print e (lit ''%u'') [VInt n] = Some (dec_of_nat (unat n))"
  "list_print e (lit ''%ld'') [VLong m] = Some (dec_of_int (sint m))"
  "list_print e (lit ''%lld'') [VLong m] = Some (dec_of_int (sint m))"
  "list_print e (lit ''%lu'') [VLong m] = Some (dec_of_nat (unat m))"
  "list_print e (lit ''%llu'') [VLong m] = Some (dec_of_nat (unat m))"
proof -
  have z: "until_zero (dec_of_nat k) = dec_of_nat k" "until_zero (45 # dec_of_nat k) = 45 # dec_of_nat k" for k
    using dec_not_in [of 0 k] by (auto simp: until_zero_def takeWhile_eq_all_conv isdigit_def)
  note defs = list_print.simps strict_spec_def strict_prec_def parse_spec_def take_char_def num_field_def take_long_def
    list_conv_def c_sprintf_def sp_conv_def sp_signed_def sp_unsigned_def sp_number_def sp_pad_def
    is_flag_def is_length_def isdigit_def lit_def dec_of_int_def z
  show "list_print e (lit ''%d'') [VInt n] = Some (dec_of_int (sint n))"
    "list_print e (lit ''%u'') [VInt n] = Some (dec_of_nat (unat n))"
    "list_print e (lit ''%ld'') [VLong m] = Some (dec_of_int (sint m))"
    "list_print e (lit ''%lld'') [VLong m] = Some (dec_of_int (sint m))"
    "list_print e (lit ''%lu'') [VLong m] = Some (dec_of_nat (unat m))"
    "list_print e (lit ''%llu'') [VLong m] = Some (dec_of_nat (unat m))"
    by (simp_all add: defs)
qed

section \<open>Properties\<close>

text \<open>C30: the printf of acllib. Without a limit on the string, and when every precision has
  its dot, every format prints into the buffer exactly what the conversions give one after the other,
  from nothing, behind the old text or in front of it: no \<open>sprintf\<close> writes outside of the room that was made for it,
  whatever the widths, precisions and arguments, and the result is terminated.\<close>

theorem vprint_refines:
  assumes "vs_ok v" "list_print serror fmt args = Some out"
  shows "(\<exists>v'. acl_vstring_vsprintf serror v fmt args = Some v' \<and> vs_ok v' \<and> vs_text v' = out) \<and>
    (\<exists>v'. acl_vstring_vsprintf_append serror v fmt args = Some v' \<and> vs_ok v' \<and> vs_text v' = vs_text v @ out) \<and>
    (\<exists>v'. acl_vstring_sprintf_prepend serror v fmt args = Some v' \<and> vs_ok v' \<and> vs_text v' = out @ vs_text v)"
  using vsprintf_ok [OF vs_okD [OF assms(1)] assms(2)] vsprintf_append_ok [OF assms] sprintf_prepend_ok [OF assms]
  by blast

theorem vprint_refines_witness:
  "\<exists>v'. acl_vstring_sprintf_prepend [] (vs_new (\<lambda>i. 0) 1) (lit ''%s=%*d;'') [VStr (Some (lit ''n'')), VInt 4, VInt (- 7)]
     = Some v' \<and> vs_text v' = lit ''n=  -7;''"
proof -
  have d: "dec_of_nat 7 = [55]" "dec_of_nat 4 = [52]" by (simp_all add: dec_of_nat.simps)
  have r: "replicate 2 x = [x, x]" for x :: byte by (simp add: numeral_2_eq_2)
  have i: "sint (4 :: u32) = 4" "sint (- 7 :: u32) = - 7" by simp_all
  note defs = list_print.simps strict_spec_def strict_prec_def parse_spec_def take_char_def num_field_def take_long_def
    list_conv_def c_sprintf_def sp_conv_def sp_signed_def sp_number_def sp_pad_def str_of_arg_def dec_value_def
    is_flag_def is_length_def isdigit_def dec_of_int_def until_zero_def d i r
  have 1: "list_print [] [37, 42, 100, 59] [VInt 4, VInt (- 7)] = Some [32, 32, 45, 55, 59]"
    by (simp add: defs)
  have "list_print [] [37, 115, 61, 37, 42, 100, 59] [VStr (Some [110]), VInt 4, VInt (- 7)] = Some [110, 61, 32, 32, 45, 55, 59]"
    by (subst list_print.simps) (simp add: defs(3-) list_print_plain 1)
  then have "list_print [] (lit ''%s=%*d;'') [VStr (Some (lit ''n'')), VInt 4, VInt (- 7)] = Some (lit ''n=  -7;'')"
    by (simp add: lit_def)
  moreover have "vs_ok (vs_new (\<lambda>i. 0) 1)" "vs_text (vs_new (\<lambda>i. 0) 1) = []"
    by (simp_all add: vs_new_def vs_ok_def vs_text_def)
  ultimately show ?thesis using vprint_refines [of "vs_new (\<lambda>i. 0) 1" "[]"] by (metis append_Nil2)
qed

text \<open>Printing a number and reading it back.\<close>

theorem vsprintf_atoi:
  assumes "vs_open v"
  shows "\<exists>v'. acl_vstring_vsprintf serror v (lit ''%d'') [VInt n] = Some v' \<and> vs_ok v' \<and>
    vs_text v' = dec_of_int (sint n) \<and> c_atoi (vs_text v') = sint n"
  using vsprintf_ok [OF assms list_print_number(1), of serror n] c_atoi_int [of "sint n"]
    sint_greater_eq [of n] sint_less [of n] by auto

theorem vsprintf_atoi_witness:
  "\<exists>v'. acl_vstring_vsprintf [] (vs_new (\<lambda>i. 0) 1) (lit ''%d'') [VInt (- 1)] = Some v' \<and> c_atoi (vs_text v') = - 1"
  using vsprintf_atoi [of "vs_new (\<lambda>i. 0) 1" "[]" "- 1"] by (auto simp: vs_new_def vs_open_def)

text \<open>A precision of zero, which prints nothing of a string in C, prints all of it here:
  the precision is taken for absent.\<close>

theorem zero_precision_ignored:
  assumes "vs_open v"
  shows "(\<exists>v'. acl_vstring_vsprintf serror v (lit ''%.0s'') [VStr (Some t)] = Some v' \<and> vs_text v' = t) \<and>
    c_sprintf (lit ''%.0s'') (VStr (Some t)) = Some []"
proof -
  have "list_print serror (lit ''%.0s'') [VStr (Some t)] = Some t"
    by (simp add: list_print.simps strict_spec_def strict_prec_def parse_spec_def take_char_def num_field_def take_long_def
      list_conv_def str_of_arg_def is_flag_def is_length_def isdigit_def lit_def)
  moreover have "c_sprintf (lit ''%.0s'') (VStr (Some t)) = Some []"
    by (simp add: c_sprintf_def sp_conv_def sp_pad_def is_flag_def is_length_def isdigit_def lit_def dec_value_def)
  ultimately show ?thesis using vsprintf_ok [OF assms] by blast
qed

theorem zero_precision_ignored_witness:
  "\<exists>v'. acl_vstring_vsprintf [] (vs_new (\<lambda>i. 0) 1) (lit ''%.0s'') [VStr (Some (lit ''ab''))] = Some v' \<and>
     vs_text v' = lit ''ab''"
  using zero_precision_ignored [of "vs_new (\<lambda>i. 0) 1" "[]" "lit ''ab''"] by (auto simp: vs_new_def vs_open_def)

text \<open>The two ways to write outside of the buffer. A star behind a width of digits is taken for a
  precision, and \<open>sprintf\<close> reads the digits and the number put for the star as one width.\<close>

theorem width_and_star_overrun:
  assumes "vs_open v" "vs_size v \<le> 400"
  shows "acl_vbuf_print serror v (lit ''%9*d'') [VInt 99, VInt n] = None"
proof -
  have d: "dec_of_nat 99 = [57, 57]" by (simp add: dec_of_nat.simps)
  have p: "parse_spec [57, 42, 100] [VInt 99, VInt n] = Some ([37, 57, 57, 57], 9, 99, 0, [100], [VInt n])"
    by (simp add: parse_spec_def take_char_def num_field_def take_long_def isdigit_def dec_of_int_def d)
  obtain out where out: "c_sprintf [37, 57, 57, 57, 100] (VInt n) = Some out" "999 \<le> length out"
    by (simp add: c_sprintf_def sp_conv_def sp_signed_def sp_number_def sp_pad_length is_flag_def is_length_def isdigit_def dec_value_def)
  have "sprintf_at v 9 99 32 [37, 57, 57, 57, 100] (VInt n) = None"
  proof -
    define need where "need = 131 - vs_cnt v"
    have "vstring_buf_space v 131 = (if need > 0 then Some (0, vs_grow v need) else Some (0, v))"
      using vstring_extend_open [OF assms(1)] by (simp add: vstring_buf_space_def space_by_def need_def Let_def)
    then obtain u where u: "vstring_buf_space v 131 = Some (0, u)" "u = v \<or> u = vs_grow v need" by (cases "need > 0") auto
    have "vs_size (vs_grow v need) \<le> 931"
      using assms by (auto simp: vs_grow_def vs_open_def need_def vs_cnt_def Let_def)
    then have "vs_size u \<le> 931" using u(2) assms(2) by auto
    then have "put_bytes u (vs_pos u) (out @ [0]) = None" using out(2) by (simp add: put_bytes_def)
    with u(1) out(1) show ?thesis by (simp add: sprintf_at_def)
  qed
  with p show ?thesis by (simp add: acl_vbuf_print.simps lit_def print_conv_def)
qed

theorem width_and_star_overrun_witness:
  "acl_vbuf_print [] (vs_new (\<lambda>i. 0) 1) (lit ''%9*d'') [VInt 99, VInt 5] = None"
  using width_and_star_overrun [of "vs_new (\<lambda>i. 0) 1" "[]" 5] by (simp add: vs_new_def vs_open_def)

text \<open>On a string with a limit the extension gives less room than was asked for and reports success:
  a number printed near the limit is written past the end of the buffer.\<close>

theorem limit_print_overruns:
  assumes "vs_maxlen v = int (vs_size v)" "vs_pos v < vs_size v"
    "vs_size v \<le> vs_pos v + length (dec_of_int (sint n))"
  shows "acl_vstring_vsprintf_append serror v (lit ''%d'') [VInt n] = None"
proof -
  have p: "parse_spec [100] [VInt n] = Some ([37], 0, 0, 0, [100], [VInt n])"
    by (simp add: parse_spec_def take_char_def num_field_def take_long_def isdigit_def)
  have c: "c_sprintf [37, 100] (VInt n) = Some (dec_of_int (sint n))"
    by (simp add: c_sprintf_def sp_conv_def sp_signed_def sp_number_def sp_pad_def dec_of_int_def is_flag_def is_length_def isdigit_def dec_value_def)
  have "int (vs_pos v) < int (vs_size v)" using assms(2) by simp
  then have "vstring_extend v k = Some (0, vs_grow v k)" for k
    using assms(1) by (simp add: vstring_extend_def)
  moreover have "vs_grow v k = v" if "k > 0" for k
    using assms(1,2) that by (auto simp: vs_grow_def Let_def)
  ultimately have "vstring_buf_space v 32 = Some (0, v)"
    by (simp add: vstring_buf_space_def space_by_def Let_def)
  moreover have "put_bytes v (vs_pos v) (dec_of_int (sint n) @ [0]) = None"
    using assms(3) by (simp add: put_bytes_def)
  ultimately have "sprintf_at v 0 0 32 [37, 100] (VInt n) = None" using c by (simp add: sprintf_at_def)
  with p show ?thesis by (simp add: acl_vstring_vsprintf_append_def acl_vbuf_print.simps lit_def print_conv_def)
qed

theorem limit_print_overruns_witness:
  "acl_vstring_vsprintf_append [] (vs_new (\<lambda>i. 0) 2\<lparr>vs_pos := 1, vs_maxlen := 2\<rparr>) (lit ''%d'') [VInt 7] = None"
  by (rule limit_print_overruns) (simp_all add: vs_new_def dec_of_int_def dec_of_nat.simps)

end
