(* ===== verification/Acl_Vstream.thy ===== *)
theory Acl_Vstream
  imports Prelude
begin

text \<open>
  The reading side of a connection: the buffered reads of \<^verbatim>\<open>acllib/src/stdlib/acl_vstream.c\<close>
  and the line and block reads of \<^verbatim>\<open>aclredis/src/stream/istream.cpp\<close> over them.

  What the peer sends reaches the program as the results of the successive calls of the
  socket's \<open>read_fn\<close>: some bytes, a closed connection, or an error code. This is the list
  \<open>net\<close> of the state. The rest of the state is the stream's: the unread part of its buffer,
  the size of the buffer, the error number and the flags. \<open>errnum\<close> also stands for \<open>errno\<close>,
  which \<open>sys_read\<close> clears first and the failing call sets. The byte counters are left out.

  The lemmas show that the reads see one sequence of bytes, \<open>pending\<close>, whatever way the
  network has cut it into segments.
\<close>

section \<open>State\<close>

datatype net_event = Bytes "byte list" | Closed | Err int

record vstream =
  rd_buf :: "byte list"
  rd_len :: nat
  net :: "net_event list"
  errnum :: int
  tagyes :: bool
  flag_eof :: bool
  flag_timeout :: bool
  flag_err :: bool
  is_eof :: bool

definition EINTR :: int where "EINTR = 4"
definition EAGAIN :: int where "EAGAIN = 11"
definition ETIMEDOUT :: int where "ETIMEDOUT = 110"

section \<open>Reading from the socket\<close>

text \<open>\<open>sys_read\<close>: the bytes read, or \<open>None\<close> for -1; no bytes is the end of the stream. An
  interrupted read is tried again, five times at most.\<close>

fun sys_read :: "nat \<Rightarrow> vstream \<Rightarrow> nat \<Rightarrow> byte list option \<times> vstream" where
  "sys_read again s sz =
     (case net s of
        Bytes (b # bs) # es \<Rightarrow>
          (Some (take sz (b # bs)),
           s\<lparr>net := (if sz < length (b # bs) then Bytes (drop sz (b # bs)) # es else es),
             errnum := 0, flag_eof := False, flag_timeout := False, flag_err := False\<rparr>)
      | Err e # es \<Rightarrow>
          (if e = EINTR then
             (case again of
                Suc n \<Rightarrow> sys_read n (s\<lparr>net := es, errnum := e\<rparr>) sz
              | 0 \<Rightarrow> (None, s\<lparr>net := es, errnum := e\<rparr>))
           else if e = ETIMEDOUT then
             (None, s\<lparr>net := es, errnum := e, flag_timeout := True\<rparr>)
           else if e \<noteq> EAGAIN then
             (None, s\<lparr>net := es, errnum := e, flag_err := True\<rparr>)
           else (None, s\<lparr>net := es, errnum := e\<rparr>))
      | _ \<Rightarrow> (Some [], s\<lparr>errnum := 0, tagyes := False, flag_eof := True,
                flag_timeout := False, flag_err := False\<rparr>))"

declare sys_read.simps [simp del]

definition read_to_buffer :: "vstream \<Rightarrow> nat \<Rightarrow> byte list option \<times> vstream" where
  "read_to_buffer s sz =
     (case sys_read 5 s sz of
        (Some (b # bs), s) \<Rightarrow> (Some (b # bs), s)
      | (_, s) \<Rightarrow> (None, s))"

definition read_buffed :: "vstream \<Rightarrow> bool \<times> vstream" where
  "read_buffed s =
     (case read_to_buffer s (rd_len s) of
        (Some bs, s) \<Rightarrow> (True, s\<lparr>rd_buf := bs\<rparr>)
      | (None, s) \<Rightarrow> (False, s\<lparr>rd_buf := []\<rparr>))"

definition acl_vstream_getc :: "vstream \<Rightarrow> byte option \<times> vstream" where
  "acl_vstream_getc s =
     (case rd_buf s of
        c # cs \<Rightarrow> (Some c, s\<lparr>rd_buf := cs\<rparr>)
      | [] \<Rightarrow>
          (case read_buffed s of
             (True, s) \<Rightarrow> (Some (hd (rd_buf s)), s\<lparr>rd_buf := tl (rd_buf s)\<rparr>)
           | (False, s) \<Rightarrow> (None, s)))"

definition acl_vstream_bfcp_some :: "vstream \<Rightarrow> nat \<Rightarrow> byte list \<times> vstream" where
  "acl_vstream_bfcp_some s maxlen = (take maxlen (rd_buf s), s\<lparr>rd_buf := drop maxlen (rd_buf s)\<rparr>)"

section \<open>Lines\<close>

text \<open>The common loop of \<open>acl_vstream_gets\<close> and \<open>acl_vstream_gets_nonl\<close>: how it ended, and
  the characters stored. The first argument is how many more times the loop may run.\<close>

datatype line_end = Full | Newline | Eof

fun gets_loop :: "nat \<Rightarrow> vstream \<Rightarrow> line_end \<times> byte list \<times> vstream" where
  "gets_loop 0 s = (Full, [], s)"
| "gets_loop (Suc n) s =
     (case acl_vstream_getc s of
        (None, s) \<Rightarrow> (Eof, [], s)
      | (Some ch, s) \<Rightarrow>
          (if ch = 10 then (Newline, [ch], s\<lparr>tagyes := True\<rparr>)
           else (case gets_loop n s of (e, cs, s) \<Rightarrow> (e, ch # cs, s))))"

text \<open>The value of the loop counter \<open>n\<close> after the loop.\<close>

definition line_count :: "line_end \<Rightarrow> byte list \<Rightarrow> nat" where
  "line_count e cs = (if e = Newline then length cs else Suc (length cs))"

text \<open>Both functions give the result (\<open>None\<close> is \<open>ACL_VSTREAM_EOF\<close>) and the buffer as far as
  they have written it.\<close>

definition acl_vstream_gets :: "vstream \<Rightarrow> nat \<Rightarrow> (nat \<times> byte list) option \<times> vstream" where
  "acl_vstream_gets s maxlen =
     (if maxlen = 0 then (None, s)
      else (case gets_loop (maxlen - 1) (s\<lparr>tagyes := False\<rparr>) of
        (e, cs, s) \<Rightarrow>
          (if e = Eof \<and> cs = [] then (None, s)
           else (Some (line_count e cs, cs @ [0]), s))))"

definition crlf_only :: "byte list \<Rightarrow> nat" where
  "crlf_only cs = length (takeWhile (\<lambda>c. c = 13 \<or> c = 10) (rev cs))"

definition acl_vstream_gets_nonl :: "vstream \<Rightarrow> nat \<Rightarrow> (nat \<times> byte list) option \<times> vstream" where
  "acl_vstream_gets_nonl s maxlen =
     (if maxlen = 0 then (None, s)
      else (case gets_loop (maxlen - 1) (s\<lparr>tagyes := False\<rparr>) of
        (e, cs, s) \<Rightarrow>
          (if e = Eof \<and> cs = [] then (None, s)
           else (let k = crlf_only cs in
             (Some (line_count e cs - k, take (length cs - k) cs @ replicate (Suc k) 0), s)))))"

section \<open>Blocks\<close>

text \<open>The two loops of \<open>acl_vstream_readn\<close>: through the buffer for a small read, straight
  into the caller's memory for a large one. Every round reads at least one byte, so
  \<open>size\<close> rounds are enough.\<close>

fun readn_buffed :: "nat \<Rightarrow> vstream \<Rightarrow> nat \<Rightarrow> byte list option \<times> vstream" where
  "readn_buffed 0 s sz = (Some [], s)"
| "readn_buffed (Suc n) s sz =
     (if sz = 0 then (Some [], s)
      else (case read_buffed s of
        (False, s) \<Rightarrow> (None, s)
      | (True, s) \<Rightarrow>
          (case acl_vstream_bfcp_some s sz of (bs, s) \<Rightarrow>
             (case readn_buffed n s (sz - length bs) of
                (None, s) \<Rightarrow> (None, s)
              | (Some cs, s) \<Rightarrow> (Some (bs @ cs), s)))))"

fun readn_direct :: "nat \<Rightarrow> vstream \<Rightarrow> nat \<Rightarrow> byte list option \<times> vstream" where
  "readn_direct 0 s sz = (Some [], s)"
| "readn_direct (Suc n) s sz =
     (if sz = 0 then (Some [], s)
      else (case read_to_buffer s sz of
        (None, s) \<Rightarrow> (None, s)
      | (Some bs, s) \<Rightarrow>
          (case readn_direct n s (sz - length bs) of
             (None, s) \<Rightarrow> (None, s)
           | (Some cs, s) \<Rightarrow> (Some (bs @ cs), s))))"

definition acl_vstream_readn :: "vstream \<Rightarrow> nat \<Rightarrow> byte list option \<times> vstream" where
  "acl_vstream_readn s sz =
     (if sz = 0 then (None, s)
      else (case (if rd_buf s \<noteq> [] then acl_vstream_bfcp_some s sz else ([], s)) of (bs, s) \<Rightarrow>
        (let left = sz - length bs in
         if left = 0 then (Some bs, s)
         else (case (if sz < rd_len s div 4 then readn_buffed left s left
                     else readn_direct left s left) of
           (None, s) \<Rightarrow> (None, s)
         | (Some cs, s) \<Rightarrow> (Some (bs @ cs), s)))))"

definition acl_vstream_read :: "vstream \<Rightarrow> nat \<Rightarrow> byte list option \<times> vstream" where
  "acl_vstream_read s sz =
     (if sz = 0 then (None, s)
      else if rd_buf s \<noteq> [] then apfst Some (acl_vstream_bfcp_some s sz)
      else if sz \<ge> rd_len s div 4 then read_to_buffer s sz
      else (case read_buffed s of
        (False, s) \<Rightarrow> (None, s)
      | (True, s) \<Rightarrow> apfst Some (acl_vstream_bfcp_some s sz)))"

section \<open>istream\<close>

text \<open>\<open>CHECK_ERROR\<close>.\<close>

definition check_error :: "vstream \<Rightarrow> vstream" where
  "check_error s =
     (if errnum s \<noteq> EINTR \<and> errnum s \<noteq> ETIMEDOUT \<and> errnum s \<noteq> EAGAIN then s\<lparr>is_eof := True\<rparr> else s)"

definition istream_read :: "vstream \<Rightarrow> nat \<Rightarrow> byte list option \<times> vstream" where
  "istream_read s sz =
     (case (if sz > 1 then acl_vstream_readn s sz else acl_vstream_read s sz) of
        (None, s) \<Rightarrow> (None, check_error s)
      | (Some bs, s) \<Rightarrow> (Some bs, s))"

definition istream_read_char :: "vstream \<Rightarrow> byte option \<times> vstream" where
  "istream_read_char s =
     (case acl_vstream_read s 1 of
        (None, s) \<Rightarrow> (None, check_error s)
      | (Some bs, s) \<Rightarrow> (if length bs = 1 then Some (hd bs) else None, s))"

text \<open>\<open>istream::gets(void*, size_t*, nonl)\<close>: the result, and the \<open>size\<close> bytes at the start of
  the buffer.\<close>

definition istream_gets_buf :: "vstream \<Rightarrow> nat \<Rightarrow> bool \<Rightarrow> bool \<times> byte list \<times> vstream" where
  "istream_gets_buf s sz nonl =
     (case (if nonl then acl_vstream_gets_nonl s sz else acl_vstream_gets s sz) of
        (None, s) \<Rightarrow> (False, [], check_error s)
      | (Some (n, buf), s) \<Rightarrow> (tagyes s, take n buf, s))"


text \<open>How many bytes can still come: the measure of the loop in \<open>istream::gets\<close>.\<close>

fun net_bytes :: "net_event list \<Rightarrow> nat" where
  "net_bytes [] = 0"
| "net_bytes (Bytes bs # es) = length bs + net_bytes es"
| "net_bytes (_ # es) = net_bytes es"

definition bytes_left :: "vstream \<Rightarrow> nat" where
  "bytes_left s = length (rd_buf s) + net_bytes (net s)"

lemma sys_read_left:
  "sys_read again s sz = (r, s') \<Longrightarrow>
   rd_buf s' = rd_buf s \<and> rd_len s' = rd_len s \<and>
   net_bytes (net s') + (case r of None \<Rightarrow> 0 | Some bs \<Rightarrow> length bs) = net_bytes (net s)"
proof (induction again s sz arbitrary: r s' rule: sys_read.induct)
  case (1 again s sz)
  show ?case
  proof (cases "net s")
    case Nil
    with "1.prems" show ?thesis by (subst (asm) sys_read.simps) auto
  next
    case (Cons e es)
    show ?thesis
    proof (cases e)
      case (Bytes bs)
      with Cons "1.prems" show ?thesis
        by (cases bs) (subst (asm) (1) sys_read.simps, auto split: if_splits)+
    next
      case Closed
      with Cons "1.prems" show ?thesis by (subst (asm) sys_read.simps) auto
    next
      case (Err x)
      show ?thesis
      proof (cases "x = EINTR \<and> again \<noteq> 0")
        case True
        then obtain n where n: "again = Suc n" by (cases again) auto
        with True Cons Err "1.prems" have
          "sys_read n (s\<lparr>net := es, errnum := x\<rparr>) sz = (r, s')"
          by (subst (asm) sys_read.simps) simp
        from "1.IH" [OF Cons Err _ n this] True Cons Err show ?thesis by simp
      next
        case False
        with Cons Err "1.prems" show ?thesis
          by (subst (asm) sys_read.simps) (auto split: if_splits nat.splits)
      qed
    qed
  qed
qed

lemma read_to_buffer_left:
  "read_to_buffer s sz = (r, s') \<Longrightarrow>
   rd_buf s' = rd_buf s \<and> rd_len s' = rd_len s \<and> r \<noteq> Some [] \<and>
   net_bytes (net s') + (case r of None \<Rightarrow> 0 | Some bs \<Rightarrow> length bs) = net_bytes (net s)"
  by (auto simp: read_to_buffer_def split: prod.splits option.splits list.splits
      dest!: sys_read_left)

lemma read_buffed_left:
  "read_buffed s = (b, s') \<Longrightarrow>
   rd_len s' = rd_len s \<and> (b \<longleftrightarrow> rd_buf s' \<noteq> []) \<and>
   bytes_left s' = net_bytes (net s)"
  by (auto simp: read_buffed_def bytes_left_def split: prod.splits option.splits
      dest!: read_to_buffer_left)

lemma getc_left:
  "acl_vstream_getc s = (r, s') \<Longrightarrow>
   rd_len s' = rd_len s \<and> bytes_left s' + (if r = None then 0 else 1) = bytes_left s"
  by (auto simp: acl_vstream_getc_def bytes_left_def neq_Nil_conv
      split: prod.splits list.splits bool.splits dest!: read_buffed_left)

lemma gets_loop_left:
  "gets_loop n s = (e, cs, s') \<Longrightarrow>
   rd_len s' = rd_len s \<and> bytes_left s' + length cs = bytes_left s \<and>
   (e = Full \<longrightarrow> length cs = n) \<and> length cs \<le> n \<and> (e = Newline \<longrightarrow> cs \<noteq> [])"
proof (induction n arbitrary: s cs e s')
  case (Suc n)
  obtain r s1 where g: "acl_vstream_getc s = (r, s1)" by (cases "acl_vstream_getc s")
  show ?case
  proof (cases r)
    case None
    with g Suc.prems getc_left [OF g] show ?thesis by auto
  next
    case (Some c)
    show ?thesis
    proof (cases "c = 10")
      case True
      with g Some Suc.prems getc_left [OF g] show ?thesis by (auto simp: bytes_left_def)
    next
      case False
      obtain e' cs' s2 where "gets_loop n s1 = (e', cs', s2)" by (cases "gets_loop n s1") auto
      with False g Some Suc.prems getc_left [OF g] Suc.IH [of s1 e' cs' s2] show ?thesis by auto
    qed
  qed
qed simp

text \<open>\<open>istream::gets(string&, nonl)\<close> without a limit: reads of 8192 bytes are joined until
  the line has ended. It returns, because every round that goes on has taken a byte.\<close>

lemma gets_buf_left:
  assumes "istream_gets_buf s 8192 nonl = (False, bs, s')" "bs \<noteq> []"
  shows "bytes_left s' < bytes_left s"
proof -
  obtain e cs t where l: "gets_loop 8191 (s\<lparr>tagyes := False\<rparr>) = (e, cs, t)"
    by (cases "gets_loop 8191 (s\<lparr>tagyes := False\<rparr>)") auto
  from gets_loop_left [OF l] have left: "bytes_left t + length cs = bytes_left s" "e = Full \<longrightarrow> length cs = 8191"
    by (auto simp: bytes_left_def)
  have "cs \<noteq> [] \<and> s' = t"
    using assms left(2)
    by (cases e; cases "cs = []"; cases nonl)
      (auto simp: istream_gets_buf_def acl_vstream_gets_nonl_def acl_vstream_gets_def l
        check_error_def Let_def line_count_def crlf_only_def split: if_splits)
  with left show ?thesis by (cases cs) auto
qed

function istream_gets :: "vstream \<Rightarrow> bool \<Rightarrow> bool \<times> byte list \<times> vstream" where
  "istream_gets s nonl =
     (if is_eof s then (False, [], s)
      else (case istream_gets_buf s 8192 nonl of
        (ok, bs, s') \<Rightarrow>
          (if ok then (True, bs, s')
           else if bs = [] then (False, [], s')
           else (case istream_gets s' nonl of (ok, cs, s'') \<Rightarrow> (ok, bs @ cs, s'')))))"
  by pat_completeness auto
termination
  by (relation "measure (\<lambda>(s, nonl). bytes_left s)") (auto dest!: gets_buf_left [OF sym])

declare istream_gets.simps [simp del]

section \<open>The reads see one sequence of bytes\<close>

fun avail :: "net_event list \<Rightarrow> byte list" where
  "avail (Bytes (b # bs) # es) = b # bs @ avail es"
| "avail _ = []"

definition pending :: "vstream \<Rightarrow> byte list" where
  "pending s = rd_buf s @ avail (net s)"

text \<open>What the reads leave alone.\<close>

definition same_stream :: "vstream \<Rightarrow> vstream \<Rightarrow> bool" where
  "same_stream s s' \<longleftrightarrow> rd_len s' = rd_len s \<and> is_eof s' = is_eof s"

lemma same_stream_refl [simp]: "same_stream s s"
  by (simp add: same_stream_def)

lemma same_stream_trans [trans]: "same_stream s t \<Longrightarrow> same_stream t u \<Longrightarrow> same_stream s u"
  by (simp add: same_stream_def)

lemma same_streamD: "same_stream s s' \<Longrightarrow> rd_len s' = rd_len s" "same_stream s s' \<Longrightarrow> is_eof s' = is_eof s"
  by (simp_all add: same_stream_def)

lemma avail_Bytes: "bs \<noteq> [] \<Longrightarrow> avail (Bytes bs # es) = bs @ avail es"
  by (cases bs) auto

lemma avail_Cons:
  assumes "avail es = c # r"
  obtains bs es' where "es = Bytes (c # bs) # es'" "r = bs @ avail es'"
  using assms by (cases es rule: avail.cases) auto

lemma read_to_buffer_pending:
  assumes "avail (net s) = c # r" "sz > 0"
  shows "\<exists>bs s'. read_to_buffer s sz = (Some bs, s') \<and> bs \<noteq> [] \<and> length bs \<le> sz \<and>
    bs @ avail (net s') = c # r \<and> rd_buf s' = rd_buf s \<and> tagyes s' = tagyes s \<and> same_stream s s'"
proof -
  from assms(1) obtain bs es where n: "net s = Bytes (c # bs) # es" "r = bs @ avail es"
    by (rule avail_Cons)
  from assms(2) obtain m where sz: "sz = Suc m" by (cases sz) auto
  show ?thesis
  proof (cases "sz < length (c # bs)")
    case True
    then obtain d ds where d: "drop sz (c # bs) = d # ds"
      by (cases "drop sz (c # bs)") auto
    have "take sz (c # bs) @ drop sz (c # bs) = c # bs" by (rule append_take_drop_id)
    with True n sz d show ?thesis
      by (simp add: read_to_buffer_def sys_read.simps same_stream_def)
  next
    case False
    with n sz show ?thesis
      by (simp add: read_to_buffer_def sys_read.simps same_stream_def)
  qed
qed

lemma read_buffed_pending:
  assumes "rd_buf s = []" "pending s = c # r" "rd_len s > 0"
  shows "\<exists>s'. read_buffed s = (True, s') \<and> pending s' = c # r \<and> rd_buf s' \<noteq> [] \<and>
    tagyes s' = tagyes s \<and> same_stream s s'"
proof -
  from assms have "avail (net s) = c # r" by (simp add: pending_def)
  from read_to_buffer_pending [OF this assms(3)] show ?thesis
    by (auto simp: read_buffed_def pending_def same_stream_def)
qed

lemma getc_pending:
  assumes "pending s = c # r" "rd_len s > 0"
  shows "\<exists>s'. acl_vstream_getc s = (Some c, s') \<and> pending s' = r \<and> tagyes s' = tagyes s \<and> same_stream s s'"
proof (cases "rd_buf s")
  case Nil
  from read_buffed_pending [OF Nil assms] obtain s' where
    "read_buffed s = (True, s')" "pending s' = c # r" "rd_buf s' \<noteq> []"
    "tagyes s' = tagyes s" "same_stream s s'" by blast
  with Nil show ?thesis
    by (cases "rd_buf s'") (auto simp: acl_vstream_getc_def pending_def same_stream_def)
qed (use assms in \<open>auto simp: acl_vstream_getc_def pending_def same_stream_def\<close>)

lemma gets_loop_newline:
  "pending s = l @ 10 # r \<Longrightarrow> 10 \<notin> set l \<Longrightarrow> length l < n \<Longrightarrow> rd_len s > 0 \<Longrightarrow>
   \<exists>s'. gets_loop n s = (Newline, l @ [10], s') \<and> pending s' = r \<and> tagyes s' \<and> same_stream s s'"
proof (induction l arbitrary: s n)
  case Nil
  then obtain m where n: "n = Suc m" by (cases n) auto
  from Nil getc_pending [of s 10 r] obtain s' where
    "acl_vstream_getc s = (Some 10, s')" "pending s' = r" "same_stream s s'" by auto
  then show ?case by (simp add: n pending_def same_stream_def)
next
  case (Cons c l)
  then obtain m where n: "n = Suc m" by (cases n) auto
  from Cons.prems getc_pending [of s c "l @ 10 # r"] obtain s1 where
    s1: "acl_vstream_getc s = (Some c, s1)" "pending s1 = l @ 10 # r" "same_stream s s1" by auto
  with Cons.prems n Cons.IH [OF s1(2), of m] obtain s2 where
    "gets_loop m s1 = (Newline, l @ [10], s2)" "pending s2 = r" "tagyes s2" "same_stream s1 s2"
    by (auto simp: same_stream_def)
  with s1 n Cons.prems(2) show ?case by (auto simp: same_stream_def)
qed

lemma gets_loop_full:
  "pending s = l @ r \<Longrightarrow> 10 \<notin> set l \<Longrightarrow> length l = n \<Longrightarrow> rd_len s > 0 \<Longrightarrow>
   \<exists>s'. gets_loop n s = (Full, l, s') \<and> pending s' = r \<and> tagyes s' = tagyes s \<and> same_stream s s'"
proof (induction l arbitrary: s n)
  case (Cons c l)
  then obtain m where n: "n = Suc m" "length l = m" by (cases n) auto
  from Cons.prems getc_pending [of s c "l @ r"] obtain s1 where
    s1: "acl_vstream_getc s = (Some c, s1)" "pending s1 = l @ r" "tagyes s1 = tagyes s" "same_stream s s1"
    by auto
  with Cons.prems n Cons.IH [OF s1(2)] obtain s2 where
    "gets_loop m s1 = (Full, l, s2)" "pending s2 = r" "tagyes s2 = tagyes s1" "same_stream s1 s2"
    by (auto simp: same_stream_def)
  with s1 n Cons.prems(2) show ?case by (auto simp: same_stream_def)
qed simp

lemma readn_buffed_pending:
  "rd_buf s = [] \<Longrightarrow> pending s = bs @ r \<Longrightarrow> length bs = sz \<Longrightarrow> sz \<le> n \<Longrightarrow> rd_len s > 0 \<Longrightarrow>
   \<exists>s'. readn_buffed n s sz = (Some bs, s') \<and> pending s' = r \<and> same_stream s s'"
proof (induction n arbitrary: s bs sz)
  case (Suc n)
  show ?case
  proof (cases bs)
    case (Cons c cs)
    with read_buffed_pending [OF Suc.prems(1), of c "cs @ r"] Suc.prems obtain s1 where
      s1: "read_buffed s = (True, s1)" "pending s1 = bs @ r" "rd_buf s1 \<noteq> []" "same_stream s s1" by auto
    let ?a = "take sz (rd_buf s1)" and ?s2 = "s1\<lparr>rd_buf := drop sz (rd_buf s1)\<rparr>"
    have a: "?a = take (length ?a) bs"
    proof -
      have "take sz (pending s1) = bs" using s1(2) Suc.prems(3) by simp
      then have "take (length ?a) bs = take (length ?a) (take sz (rd_buf s1 @ avail (net s1)))"
        by (simp add: pending_def)
      then show ?thesis by (simp add: min_def)
    qed
    from s1(3) Cons Suc.prems(3) have alen: "0 < length ?a" "length ?a \<le> sz" by auto
    have p2: "pending ?s2 = drop (length ?a) bs @ r"
    proof -
      have "pending s1 = ?a @ pending ?s2" by (simp add: pending_def)
      with s1(2) a have "?a @ pending ?s2 = ?a @ drop (length ?a) bs @ r"
        by (metis append.assoc append_take_drop_id)
      then show ?thesis by simp
    qed
    show ?thesis
    proof (cases "length ?a = sz")
      case True
      with s1 p2 a Suc.prems Cons show ?thesis
        by (cases n) (auto simp: acl_vstream_bfcp_some_def same_stream_def)
    next
      case False
      with alen have "drop sz (rd_buf s1) = []" by simp
      moreover have "length (drop (length ?a) bs) = sz - length ?a" using Suc.prems(3) by simp
      moreover have "sz - length ?a \<le> n" using alen Suc.prems(4) by linarith
      ultimately obtain s3 where
        "readn_buffed n ?s2 (sz - length ?a) = (Some (drop (length ?a) bs), s3)"
        "pending s3 = r" "same_stream ?s2 s3"
        using Suc.IH [OF _ p2, of "sz - length ?a"] s1(4) Suc.prems(5) by (auto simp: same_stream_def)
      moreover have "?a @ drop (length ?a) bs = bs" using a by (metis append_take_drop_id)
      ultimately show ?thesis
        using s1 Cons Suc.prems(3) by (auto simp: acl_vstream_bfcp_some_def same_stream_def)
    qed
  qed (use Suc.prems in auto)
qed simp

lemma readn_direct_pending:
  "rd_buf s = [] \<Longrightarrow> pending s = bs @ r \<Longrightarrow> length bs = sz \<Longrightarrow> sz \<le> n \<Longrightarrow>
   \<exists>s'. readn_direct n s sz = (Some bs, s') \<and> pending s' = r \<and> same_stream s s'"
proof (induction n arbitrary: s bs sz)
  case (Suc n)
  show ?case
  proof (cases bs)
    case (Cons c cs)
    from Suc.prems(1,2) Cons have "avail (net s) = c # (cs @ r)" by (simp add: pending_def)
    from read_to_buffer_pending [OF this, of sz] Suc.prems Cons obtain a s1 where
      s1: "read_to_buffer s sz = (Some a, s1)" "a \<noteq> []" "length a \<le> sz"
        "a @ avail (net s1) = bs @ r" "rd_buf s1 = []" "same_stream s s1" by auto
    have a: "a = take (length a) bs" "avail (net s1) = drop (length a) bs @ r"
      using s1(3,4) Suc.prems(3) by (auto simp: append_eq_append_conv_if)
    from s1(2,3) Suc.prems(4) have "sz - length a \<le> n" by (cases a) auto
    with Suc.IH [OF s1(5), of "drop (length a) bs" "sz - length a"] a s1(5) Suc.prems(3) obtain s2 where
      "readn_direct n s1 (sz - length a) = (Some (drop (length a) bs), s2)"
      "pending s2 = r" "same_stream s1 s2" by (auto simp: pending_def)
    moreover have "a @ drop (length a) bs = bs" using a(1) by (metis append_take_drop_id)
    ultimately show ?thesis
      using s1 Cons Suc.prems(3) by (auto simp: same_stream_def)
  qed (use Suc.prems in auto)
qed simp

lemma readn_pending:
  assumes "pending s = bs @ r" "bs \<noteq> []" "rd_len s > 0"
  shows "\<exists>s'. acl_vstream_readn s (length bs) = (Some bs, s') \<and> pending s' = r \<and> same_stream s s'"
proof (cases "length bs \<le> length (rd_buf s)")
  case True
  have "take (length bs) (pending s) = bs" "drop (length bs) (pending s) = r" by (simp_all add: assms(1))
  with True have "take (length bs) (rd_buf s) = bs" "drop (length bs) (rd_buf s) @ avail (net s) = r"
    by (simp_all add: pending_def)
  with assms(2) True show ?thesis
    by (cases "rd_buf s") (auto simp: acl_vstream_readn_def acl_vstream_bfcp_some_def pending_def same_stream_def)
next
  case False
  let ?k = "length (rd_buf s)" and ?s0 = "s\<lparr>rd_buf := []\<rparr>"
  from False assms(1) have bs: "rd_buf s = take ?k bs" "avail (net s) = drop ?k bs @ r"
    by (auto simp: pending_def append_eq_append_conv_if)
  have p0: "pending ?s0 = drop ?k bs @ r" using bs(2) by (simp add: pending_def)
  have len: "length (drop ?k bs) = length bs - ?k" by simp
  from readn_buffed_pending [OF _ p0 len order_refl] readn_direct_pending [OF _ p0 len order_refl] assms(3)
  obtain s1 s2 where
    1: "readn_buffed (length bs - ?k) ?s0 (length bs - ?k) = (Some (drop ?k bs), s1)"
      "pending s1 = r" "same_stream ?s0 s1" and
    2: "readn_direct (length bs - ?k) ?s0 (length bs - ?k) = (Some (drop ?k bs), s2)"
      "pending s2 = r" "same_stream ?s0 s2" by auto
  have join: "rd_buf s @ drop ?k bs = bs" using bs(1) by (metis append_take_drop_id)
  have first: "(if rd_buf s \<noteq> [] then acl_vstream_bfcp_some s (length bs) else ([], s)) = (rd_buf s, ?s0)"
    using False by (auto simp: acl_vstream_bfcp_some_def)
  have more: "length bs \<noteq> 0" "length bs - ?k \<noteq> 0" using False by auto
  show ?thesis
    unfolding acl_vstream_readn_def first Let_def prod.case if_not_P [OF more(1)] if_not_P [OF more(2)]
    using 1 2 join by (simp add: same_stream_def)
qed

lemma istream_read_pending:
  assumes "pending s = bs @ r" "bs \<noteq> []" "rd_len s > 0"
  shows "\<exists>s'. istream_read s (length bs) = (Some bs, s') \<and> pending s' = r \<and> same_stream s s'"
proof (cases "length bs > 1")
  case True
  with readn_pending [OF assms] show ?thesis by (auto simp: istream_read_def)
next
  case False
  with assms(2) obtain c where bs: "bs = [c]" by (cases bs) (auto simp: Suc_le_eq)
  show ?thesis
  proof (cases "rd_buf s")
    case Nil
    with assms(1) bs have av: "avail (net s) = c # r" by (simp add: pending_def)
    from read_to_buffer_pending [OF av, of 1] Nil obtain x s1 where
      1: "read_to_buffer s 1 = (Some x, s1)" "x \<noteq> []" "length x \<le> 1" "x @ avail (net s1) = c # r"
        "rd_buf s1 = []" "same_stream s s1" by auto
    then have x: "x = [c]" "avail (net s1) = r" by (cases x; auto)+
    from assms bs Nil read_buffed_pending [OF Nil, of c r] obtain s2 where
      2: "read_buffed s = (True, s2)" "pending s2 = c # r" "rd_buf s2 \<noteq> []" "same_stream s s2" by auto
    with 1 x bs Nil show ?thesis
      by (cases "rd_buf s2")
        (auto simp: istream_read_def acl_vstream_read_def acl_vstream_bfcp_some_def pending_def same_stream_def)
  qed (use assms bs in \<open>auto simp: istream_read_def acl_vstream_read_def acl_vstream_bfcp_some_def
        pending_def same_stream_def\<close>)
qed

lemma istream_read_char_pending:
  assumes "pending s = c # r" "rd_len s > 0"
  shows "\<exists>s'. istream_read_char s = (Some c, s') \<and> pending s' = r \<and> same_stream s s'"
proof -
  from assms istream_read_pending [of s "[c]" r] obtain s' where
    r: "istream_read s 1 = (Some [c], s')" "pending s' = r" "same_stream s s'" by auto
  then have "acl_vstream_read s 1 = (Some [c], s')"
    by (auto simp: istream_read_def split: prod.splits option.splits)
  with r show ?thesis by (simp add: istream_read_char_def)
qed

lemma crlf_only_append_nl [simp]: "crlf_only (l @ [10]) = Suc (crlf_only l)"
  and crlf_only_append_cr [simp]: "crlf_only (l @ [13]) = Suc (crlf_only l)"
  and crlf_only_Nil [simp]: "crlf_only [] = 0"
  by (simp_all add: crlf_only_def)

lemma crlf_only_le: "crlf_only l \<le> length l"
  using length_takeWhile_le [of _ "rev l"] by (simp add: crlf_only_def)

lemma crlf_only_0: "l = [] \<or> last l \<notin> {10, 13} \<Longrightarrow> crlf_only l = 0"
  by (cases l rule: rev_cases) (auto simp: crlf_only_def)

lemma gets_nonl_line:
  assumes "pending s = l @ 10 # r" "10 \<notin> set l" "length l + 1 < maxlen" "rd_len s > 0"
  shows "\<exists>s'. istream_gets_buf s maxlen True = (True, take (length l - crlf_only l) l, s') \<and>
    pending s' = r \<and> same_stream s s'"
proof -
  from assms(3) have "length l < maxlen - 1" by simp
  with gets_loop_newline [of "s\<lparr>tagyes := False\<rparr>" l r "maxlen - 1"] assms obtain s' where
    "gets_loop (maxlen - 1) (s\<lparr>tagyes := False\<rparr>) = (Newline, l @ [10], s')"
    "pending s' = r" "tagyes s'" "same_stream s s'"
    by (auto simp: pending_def same_stream_def)
  with assms(3) crlf_only_le [of l] show ?thesis
    by (auto simp: istream_gets_buf_def acl_vstream_gets_nonl_def Let_def line_count_def)
qed

lemma gets_nonl_full:
  assumes "pending s = l @ r" "10 \<notin> set l" "Suc (length l) = maxlen" "rd_len s > 0" "crlf_only l = 0"
  shows "\<exists>s'. istream_gets_buf s maxlen True = (False, l @ [0], s') \<and>
    pending s' = r \<and> same_stream s s'"
proof -
  from gets_loop_full [of "s\<lparr>tagyes := False\<rparr>" l r "maxlen - 1"] assms obtain s' where
    "gets_loop (maxlen - 1) (s\<lparr>tagyes := False\<rparr>) = (Full, l, s')"
    "pending s' = r" "\<not> tagyes s'" "same_stream s s'"
    by (auto simp: pending_def same_stream_def)
  with assms(3,5) show ?thesis
    by (auto simp: istream_gets_buf_def acl_vstream_gets_nonl_def Let_def line_count_def)
qed

text \<open>The usual line, which ends in CR LF and fits in the buffer.\<close>

lemma istream_gets_crlf:
  assumes "pending s = l @ 13 # 10 # r" "10 \<notin> set l" "l = [] \<or> last l \<noteq> 13" "length l < 8190"
    and "rd_len s > 0" "\<not> is_eof s"
  shows "\<exists>s'. istream_gets s True = (True, l, s') \<and> pending s' = r \<and> same_stream s s'"
proof -
  have "crlf_only l = 0" using assms(2,3) by (intro crlf_only_0) (metis empty_iff insert_iff last_in_set)
  with gets_nonl_line [of s "l @ [13]" r 8192] assms obtain s' where
    "istream_gets_buf s 8192 True = (True, l, s')" "pending s' = r" "same_stream s s'" by auto
  with assms(6) show ?thesis by (subst istream_gets.simps) simp
qed

section \<open>Properties\<close>

text \<open>C17: However the network cuts what the peer sends into segments, \<open>istream::gets\<close> on a
  line of fewer than 8190 bytes that ends in CR LF returns true with exactly the line,
  without its line end, and the next read goes on with the byte behind it.\<close>

theorem gets_line_any_segments:
  assumes "pending s = l @ [13, 10] @ rest" "10 \<notin> set l" "l = [] \<or> last l \<noteq> 13" "length l < 8190"
    and "rd_len s > 0" "\<not> is_eof s"
  shows "\<exists>s'. istream_gets s True = (True, l, s') \<and> pending s' = rest"
  using istream_gets_crlf [of s l rest] assms by auto

definition sample_stream :: "net_event list \<Rightarrow> vstream" where
  "sample_stream es = \<lparr>rd_buf = [], rd_len = 8192, net = es, errnum = 0, tagyes = False,
     flag_eof = False, flag_timeout = False, flag_err = False, is_eof = False\<rparr>"

theorem gets_line_any_segments_witness:
  "\<exists>s'. istream_gets (sample_stream [Bytes (lit ''+O''), Bytes (lit ''K'' @ [13]), Bytes [10, 58]]) True
      = (True, lit ''+OK'', s') \<and> pending s' = [58]"
  using gets_line_any_segments [of "sample_stream [Bytes (lit ''+O''), Bytes (lit ''K'' @ [13]), Bytes [10, 58]]"
      "lit ''+OK''" "[58]"]
  by (simp add: sample_stream_def pending_def lit_def)

text \<open>\<open>istream::gets\<close> damages a line that does not fit in its 8192-byte buffer: on a line
  of 8191 bytes and a second part it puts a zero byte between the two, because
  \<open>acl_vstream_gets_nonl\<close> returns one more than the number of bytes it has stored when the
  buffer is full.\<close>

theorem gets_long_line_zero:
  assumes "pending s = l @ m @ [13, 10] @ rest" "10 \<notin> set (l @ m)" "length l = 8191" "last l \<noteq> 13"
    and "m = [] \<or> last m \<noteq> 13" "length m < 8190" "rd_len s > 0" "\<not> is_eof s"
  shows "\<exists>s'. istream_gets s True = (True, l @ [0] @ m, s') \<and> pending s' = rest"
proof -
  have "crlf_only l = 0"
    using assms(2,3,4) by (intro crlf_only_0) (metis Un_iff empty_iff insert_iff last_in_set set_append)
  with gets_nonl_full [of s l "m @ [13, 10] @ rest" 8192] assms obtain s1 where
    1: "istream_gets_buf s 8192 True = (False, l @ [0], s1)" "pending s1 = m @ [13, 10] @ rest"
      "same_stream s s1" by auto
  from istream_gets_crlf [of s1 m rest] 1 assms obtain s2 where
    "istream_gets s1 True = (True, m, s2)" "pending s2 = rest" by (auto simp: same_stream_def)
  with 1(1) assms(8) show ?thesis by (subst istream_gets.simps) simp
qed

theorem gets_long_line_zero_witness:
  "\<exists>s'. istream_gets (sample_stream [Bytes (replicate 8191 97 @ [98, 13, 10])]) True
      = (True, replicate 8191 97 @ [0, 98], s') \<and> pending s' = []"
proof -
  have "pending (sample_stream [Bytes (replicate 8191 97 @ [98, 13, 10])]) = replicate 8191 97 @ [98] @ [13, 10] @ []"
    by (simp add: sample_stream_def pending_def avail_Bytes)
  from gets_long_line_zero [OF this] show ?thesis by (simp add: sample_stream_def)
qed

end
