(* ===== verification/Acl_Vwrite.thy ===== *)
theory Acl_Vwrite
  imports Acl_Vstream Acl_Vprint
begin

text \<open>
  The writing side of \<^verbatim>\<open>acllib/src/stdlib/acl_vstream.c\<close>: \<open>write_once\<close> and \<open>loop_writen\<close> over one
  call of the operating system, the direct and the buffered writes, the gathering writes, and the
  functions that print a text into a stream.

  The stream is a socket or a file. What the system does with the successive calls is the list
  \<open>ws_io\<close> of the state: a call that is carried out, for at most so many bytes, or one that fails
  with an error number; when the list is used up every call is carried out in full. A socket
  collects what it has taken in \<open>ws_sent\<close>. A file has its bytes \<open>ws_data\<close> and the system's position
  \<open>ws_pos\<close>; the stream's own idea of the two positions is \<open>ws_offset\<close> and \<open>ws_sys\<close>.
  \<open>ws_errnum\<close> stands for the stream's \<open>errnum\<close> and for \<open>errno\<close>. The byte counters, the error text
  and the timeouts, which only the system's functions look at, are left out; the stream has the
  system's own read and write functions, and is used on Unix.

  The lemmas show that a file or a socket gets the bytes that were written, in order and once, as
  long as no write fails; that a failed write has sent a prefix; and what goes wrong after that.
\<close>

section \<open>State\<close>

datatype io_reply = Done nat | Fail int

record wstream =
  ws_file :: bool
  ws_open :: bool
  ws_io :: "io_reply list"
  ws_sent :: "byte list"
  ws_data :: "byte list"
  ws_pos :: nat
  ws_append :: bool
  ws_cache :: bool
  ws_offset :: int
  ws_sys :: int
  ws_cnt :: int
  ws_wbuf :: "byte list option"
  ws_errnum :: int
  ws_timeout :: bool
  ws_err :: bool

definition EINVAL :: int where "EINVAL = 22"

definition wbuf_size :: nat where "wbuf_size = 8192"

text \<open>The bytes waiting in the buffer: \<open>wbuf_dlen\<close> is their number.\<close>

definition ws_held :: "wstream \<Rightarrow> byte list" where
  "ws_held s = (case ws_wbuf s of None \<Rightarrow> [] | Some bs \<Rightarrow> bs)"

section \<open>The calls of the system\<close>

text \<open>A write into a file behind its end leaves a hole of zeros; a write of nothing does nothing.\<close>

definition put_at :: "byte list \<Rightarrow> nat \<Rightarrow> byte list \<Rightarrow> byte list" where
  "put_at d p bs =
     (if bs = [] then d else take p d @ replicate (p - length d) 0 @ bs @ drop (p + length bs) d)"

definition dev_put :: "wstream \<Rightarrow> byte list \<Rightarrow> wstream" where
  "dev_put s bs =
     (if bs = [] then s
      else if ws_file s then
        (let p = (if ws_append s then length (ws_data s) else ws_pos s) in
         s\<lparr>ws_data := put_at (ws_data s) p bs, ws_pos := p + length bs\<rparr>)
      else s\<lparr>ws_sent := ws_sent s @ bs\<rparr>)"

text \<open>A write: how many bytes were taken, or the error number.\<close>

definition sys_write :: "wstream \<Rightarrow> byte list \<Rightarrow> (int + nat) \<times> wstream" where
  "sys_write s bs =
     (case ws_io s of
        [] \<Rightarrow> (Inr (length bs), dev_put s bs)
      | Done n # es \<Rightarrow> (Inr (min n (length bs)), dev_put (s\<lparr>ws_io := es\<rparr>) (take n bs))
      | Fail e # es \<Rightarrow> (Inl e, s\<lparr>ws_io := es\<rparr>))"

datatype whence = SEEK_SET | SEEK_CUR | SEEK_END

text \<open>\<open>lseek\<close>: the new position, or the error number.\<close>

definition acl_lseek :: "wstream \<Rightarrow> int \<Rightarrow> whence \<Rightarrow> (int + int) \<times> wstream" where
  "acl_lseek s off w =
     (let base = (case w of SEEK_SET \<Rightarrow> 0 | SEEK_CUR \<Rightarrow> int (ws_pos s) | SEEK_END \<Rightarrow> int (length (ws_data s)));
          moved = (\<lambda>s. if base + off < 0 then (Inl EINVAL, s)
                       else (Inr (base + off), s\<lparr>ws_pos := nat (base + off)\<rparr>)) in
      case ws_io s of
        [] \<Rightarrow> moved s
      | Done _ # es \<Rightarrow> moved (s\<lparr>ws_io := es\<rparr>)
      | Fail e # es \<Rightarrow> (Inl e, s\<lparr>ws_io := es\<rparr>))"

section \<open>One write\<close>

text \<open>In a file that is not open for appending, and whose seeks are cached, the system's position is
  set first when the two positions differ.\<close>

definition seek_before :: "wstream \<Rightarrow> bool \<times> wstream" where
  "seek_before s =
     (if ws_file s \<and> \<not> ws_append s \<and> ws_cache s \<and> ws_offset s \<noteq> ws_sys s then
        (case acl_lseek s (ws_offset s) SEEK_SET of
           (Inl e, s) \<Rightarrow> (False, s\<lparr>ws_sys := -1, ws_errnum := e, ws_err := True\<rparr>)
         | (Inr p, s) \<Rightarrow> (True, s\<lparr>ws_sys := p, ws_offset := p\<rparr>))
      else (True, s))"

definition file_moved :: "wstream \<Rightarrow> nat \<Rightarrow> wstream" where
  "file_moved s n =
     (if ws_file s then s\<lparr>ws_sys := ws_sys s + int n, ws_offset := ws_sys s + int n, ws_cnt := 0\<rparr> else s)"

text \<open>A write that was interrupted is tried again, four times at most. The error number of a write
  that took nothing and did not fail is 0, which counts as an error.\<close>

fun write_try :: "nat \<Rightarrow> wstream \<Rightarrow> byte list \<Rightarrow> nat option \<times> wstream" where
  "write_try k s bs =
     (case seek_before s of
        (False, s) \<Rightarrow> (None, s)
      | (True, s) \<Rightarrow>
          (case sys_write s bs of
             (Inr (Suc n), s) \<Rightarrow> (Some (Suc n), file_moved s (Suc n))
           | (r, s) \<Rightarrow>
               (let e = (case r of Inl e \<Rightarrow> e | Inr _ \<Rightarrow> 0); s = s\<lparr>ws_errnum := e\<rparr> in
                if e = EINTR then
                  (case k of 0 \<Rightarrow> (None, s\<lparr>ws_err := True\<rparr>) | Suc k \<Rightarrow> write_try k s bs)
                else if e = EAGAIN then (None, s)
                else if e = ETIMEDOUT then (None, s\<lparr>ws_timeout := True\<rparr>)
                else (None, s\<lparr>ws_err := True\<rparr>))))"

declare write_try.simps [simp del]

definition write_once :: "wstream \<Rightarrow> byte list \<Rightarrow> nat option \<times> wstream" where
  "write_once s bs =
     (if bs = [] then (None, s)
      else if \<not> ws_open s then (None, s\<lparr>ws_errnum := EINVAL\<rparr>)
      else write_try 4 s bs)"

lemma write_try_cases:
  assumes "write_try k s bs = (r, t)" "bs \<noteq> []"
  shows "case r of Some n \<Rightarrow> 0 < n \<and> n \<le> length bs | None \<Rightarrow> True"
  using assms
proof (induction k arbitrary: s)
  case (0 s)
  then show ?case
    by (subst (asm) write_try.simps)
      (auto simp: sys_write_def Let_def split: prod.splits bool.splits sum.splits nat.splits list.splits io_reply.splits if_splits)
next
  case (Suc k s)
  from Suc.prems show ?case
    by (subst (asm) write_try.simps)
      (auto simp: sys_write_def Let_def split: prod.splits bool.splits sum.splits nat.splits list.splits io_reply.splits if_splits
        dest: Suc.IH)
qed

lemma write_once_bound: "write_once s bs = (Some n, t) \<Longrightarrow> 0 < n \<and> n \<le> length bs"
  using write_try_cases [of 4 s bs "Some n" t] by (auto simp: write_once_def split: if_splits)

section \<open>Writing all of it\<close>

definition once_dlen :: nat where "once_dlen = 67108864"

text \<open>The loop over the bytes that are left.\<close>

function writen_loop :: "wstream \<Rightarrow> byte list \<Rightarrow> bool \<times> wstream" where
  "writen_loop s bs =
     (if bs = [] then (True, s)
      else (case write_once s (take once_dlen bs) of
        (None, s) \<Rightarrow> (False, s)
      | (Some n, s) \<Rightarrow> writen_loop s (drop n bs)))"
  by pat_completeness auto
termination
  by (relation "measure (length o snd)") (auto dest!: write_once_bound [OF sym])

declare writen_loop.simps [simp del]

text \<open>The size becomes an \<open>int\<close>: a size of 2 GB or more can become negative, and nothing is
  written.\<close>

definition loop_writen :: "wstream \<Rightarrow> byte list \<Rightarrow> int option \<times> wstream" where
  "loop_writen s bs =
     (let nleft = signed_take_bit 31 (int (length bs)) in
      if nleft \<le> 0 then (Some 0, s)
      else (case writen_loop s (take (nat nleft) bs) of
        (True, s) \<Rightarrow> (Some nleft, s)
      | (False, s) \<Rightarrow> (None, s)))"

text \<open>What is taken off the buffer is all of it or nothing; the check that stops the process when
  more was written than there was can not fail.\<close>

definition acl_vstream_fflush :: "wstream \<Rightarrow> int option \<times> wstream" where
  "acl_vstream_fflush s =
     (if ws_held s = [] then (Some 0, s)
      else (case loop_writen s (ws_held s) of
        (None, s) \<Rightarrow> (None, s)
      | (Some n, s) \<Rightarrow> (Some n, s\<lparr>ws_wbuf := map_option (take (length (ws_held s) - nat n)) (ws_wbuf s)\<rparr>)))"

definition flush_first :: "(wstream \<Rightarrow> int option \<times> wstream) \<Rightarrow> wstream \<Rightarrow> int option \<times> wstream" where
  "flush_first f s =
     (if ws_held s = [] then f s
      else (case acl_vstream_fflush s of
        (None, s) \<Rightarrow> (None, s)
      | (Some _, s) \<Rightarrow> f s))"

definition acl_vstream_write :: "wstream \<Rightarrow> byte list \<Rightarrow> int option \<times> wstream" where
  "acl_vstream_write s bs =
     (if bs = [] then (None, s) else flush_first (\<lambda>s. map_prod (map_option int) id (write_once s bs)) s)"

definition acl_vstream_writen :: "wstream \<Rightarrow> byte list \<Rightarrow> int option \<times> wstream" where
  "acl_vstream_writen s bs = (if bs = [] then (None, s) else flush_first (\<lambda>s. loop_writen s bs) s)"

definition acl_vstream_buffed_space :: "wstream \<Rightarrow> wstream" where
  "acl_vstream_buffed_space s = (if ws_wbuf s = None then s\<lparr>ws_wbuf := Some []\<rparr> else s)"

definition hold :: "wstream \<Rightarrow> byte list \<Rightarrow> int option \<times> wstream" where
  "hold s bs =
     (Some (signed_take_bit 31 (int (length bs))), s\<lparr>ws_wbuf := Some (ws_held s @ bs)\<rparr>)"

definition acl_vstream_buffed_writen :: "wstream \<Rightarrow> byte list \<Rightarrow> int option \<times> wstream" where
  "acl_vstream_buffed_writen s bs =
     (if bs = [] then (None, s)
      else (let s = acl_vstream_buffed_space s in
        if wbuf_size \<le> length bs then
          (case acl_vstream_fflush s of
             (None, s) \<Rightarrow> (None, s)
           | (Some _, s) \<Rightarrow>
               (case loop_writen s bs of
                  (None, s) \<Rightarrow> (None, s)
                | (Some _, s) \<Rightarrow> (Some (signed_take_bit 31 (int (length bs))), s)))
        else if wbuf_size \<le> length bs + length (ws_held s) then
          (case acl_vstream_fflush s of
             (None, s) \<Rightarrow> (None, s)
           | (Some _, s) \<Rightarrow> hold s bs)
        else hold s bs))"

definition acl_vstream_buffed_fputs :: "cstr \<Rightarrow> wstream \<Rightarrow> int option \<times> wstream" where
  "acl_vstream_buffed_fputs str s =
     (case (if str \<noteq> [] then acl_vstream_buffed_writen s str else (Some 0, s)) of
        (None, s) \<Rightarrow> (None, s)
      | (Some _, s) \<Rightarrow>
          (case acl_vstream_buffed_writen s [13, 10] of
             (None, s) \<Rightarrow> (None, s)
           | (Some _, s) \<Rightarrow> (Some 0, s)))"

definition acl_vstream_fputs :: "cstr \<Rightarrow> wstream \<Rightarrow> int option \<times> wstream" where
  "acl_vstream_fputs str s =
     (case acl_vstream_buffed_fputs str s of
        (None, s) \<Rightarrow> (None, s)
      | (Some _, s) \<Rightarrow>
          (case acl_vstream_fflush s of
             (None, s) \<Rightarrow> (None, s)
           | (Some _, s) \<Rightarrow> (Some 0, s)))"

text \<open>The macro that writes one byte.\<close>

definition ACL_VSTREAM_PUTC :: "byte \<Rightarrow> wstream \<Rightarrow> int option \<times> wstream" where
  "ACL_VSTREAM_PUTC ch s =
     (let put = (\<lambda>s. (Some (uint ch), s\<lparr>ws_wbuf := Some (ws_held s @ [ch])\<rparr>)) in
      case ws_wbuf s of
        None \<Rightarrow> put (acl_vstream_buffed_space s)
      | Some bs \<Rightarrow>
          (if length bs = wbuf_size then
             (case acl_vstream_fflush s of
                (None, s) \<Rightarrow> (None, s)
              | (Some _, s) \<Rightarrow> put s)
           else put s))"

text \<open>The length the file will have after the flush.\<close>

definition acl_vstream_fsize :: "wstream \<Rightarrow> int" where
  "acl_vstream_fsize s = (if ws_file s then int (length (ws_data s)) + int (length (ws_held s)) else -1)"

text \<open>\<open>fsync\<close> itself is a call of the system: its result is an argument.\<close>

definition acl_vstream_fsync :: "wstream \<Rightarrow> bool \<Rightarrow> int option \<times> wstream" where
  "acl_vstream_fsync s synced =
     (if \<not> ws_file s then (None, s)
      else (case acl_vstream_fflush s of
        (None, s) \<Rightarrow> (None, s)
      | (Some _, s) \<Rightarrow> (if synced then (Some 0, s) else (None, s))))"


section \<open>Gathering writes\<close>

text \<open>The default functions are used: \<open>writev\<close> of the system writes the items as one text, and may
  take nothing without failing. An interrupted call is tried again, four times at most.\<close>

fun writev_try :: "nat \<Rightarrow> wstream \<Rightarrow> byte list list \<Rightarrow> nat option \<times> wstream" where
  "writev_try k s vec =
     (case seek_before s of
        (False, s) \<Rightarrow> (None, s)
      | (True, s) \<Rightarrow>
          (case sys_write s (concat vec) of
             (Inr n, s) \<Rightarrow> (Some n, if 0 < n then file_moved s n else s)
           | (Inl e, s) \<Rightarrow>
               (let s = s\<lparr>ws_errnum := e\<rparr> in
                if e = EINTR then (case k of 0 \<Rightarrow> (None, s) | Suc k \<Rightarrow> writev_try k s vec)
                else if e = EAGAIN then (None, s)
                else (None, s\<lparr>ws_err := True\<rparr>))))"

declare writev_try.simps [simp del]

definition writev_once :: "wstream \<Rightarrow> byte list list \<Rightarrow> nat option \<times> wstream" where
  "writev_once s vec =
     (if vec = [] then (None, s)
      else if \<not> ws_open s then (None, s\<lparr>ws_errnum := EINVAL\<rparr>)
      else writev_try 4 s vec)"

definition acl_vstream_writev :: "wstream \<Rightarrow> byte list list \<Rightarrow> int option \<times> wstream" where
  "acl_vstream_writev s vec =
     (if vec = [] then (None, s)
      else flush_first (\<lambda>s. map_prod (map_option int) id (writev_once s vec)) s)"

text \<open>What is left of the items after \<open>n\<close> bytes: nothing when the loop has reached the end.\<close>

fun skip_iov :: "int \<Rightarrow> byte list list \<Rightarrow> byte list list" where
  "skip_iov n [] = []"
| "skip_iov n (v # vs) =
     (let len = signed_take_bit 31 (int (length v)) in
      if len \<le> n then skip_iov (n - len) vs else drop (nat n) v # vs)"

text \<open>The loop goes on when nothing was taken, and so may run for ever.\<close>

partial_function (option) writevn_loop :: "wstream \<Rightarrow> byte list list \<Rightarrow> int \<Rightarrow> (int option \<times> wstream) option" where
  "writevn_loop s vec nwrite =
     (case writev_once s vec of
        (None, s) \<Rightarrow> Some (None, s)
      | (Some n, s) \<Rightarrow>
          (if n = 0 then writevn_loop s vec nwrite
           else (let nwrite = signed_take_bit 31 (nwrite + int n); rest = skip_iov (int n) vec in
             if rest = [] then Some (Some nwrite, s) else writevn_loop s rest nwrite)))"

definition acl_vstream_writevn :: "wstream \<Rightarrow> byte list list \<Rightarrow> (int option \<times> wstream) option" where
  "acl_vstream_writevn s vec =
     (if vec = [] then Some (None, s)
      else if ws_held s = [] then writevn_loop s vec 0
      else (case acl_vstream_fflush s of
        (None, s) \<Rightarrow> Some (None, s)
      | (Some _, s) \<Rightarrow> writevn_loop s vec 0))"

section \<open>Printing into a stream\<close>

text \<open>How a print ends: outside of its buffer, with the process, or with a result.\<close>

datatype print_end = Strayed | Exits | Printed "int option" wstream

definition vprint_with ::
  "(wstream \<Rightarrow> byte list \<Rightarrow> int option \<times> wstream) \<Rightarrow> (nat \<Rightarrow> byte) \<Rightarrow> cstr \<Rightarrow> wstream \<Rightarrow> cstr \<Rightarrow> va list \<Rightarrow> print_end" where
  "vprint_with writen junk serror s fmt args =
     (if fmt = [] then Printed None s
      else (case acl_vstring_vsprintf serror (acl_vstring_alloc junk 4096) fmt args of
        None \<Rightarrow> Strayed
      | Some buf \<Rightarrow>
          (let n = signed_take_bit 31 (int (vs_pos buf)) in
           if n \<le> 0 then Exits
           else (case writen s (take (nat n) (vs_text buf)) of (r, s) \<Rightarrow> Printed r s))))"

definition acl_vstream_vfprintf :: "(nat \<Rightarrow> byte) \<Rightarrow> cstr \<Rightarrow> wstream \<Rightarrow> cstr \<Rightarrow> va list \<Rightarrow> print_end" where
  "acl_vstream_vfprintf = vprint_with acl_vstream_writen"

definition acl_vstream_buffed_vfprintf :: "(nat \<Rightarrow> byte) \<Rightarrow> cstr \<Rightarrow> wstream \<Rightarrow> cstr \<Rightarrow> va list \<Rightarrow> print_end" where
  "acl_vstream_buffed_vfprintf = vprint_with acl_vstream_buffed_writen"

section \<open>Where the bytes go\<close>

lemma put_at_append: "put_at (put_at d p a) (p + length a) b = put_at d p (a @ b)"
proof (cases "a = [] \<or> b = []")
  case False
  have l: "length (put_at d p a) = p + length a + (length d - (p + length a))"
    using False by (simp add: put_at_def)
  have "take (p + length a) (put_at d p a) = take p d @ replicate (p - length d) 0 @ a"
    using False by (cases a) (auto simp: put_at_def min_def)
  moreover have "drop (p + length a + length b) (put_at d p a) = drop (p + length a + length b) d"
    using False by (simp add: put_at_def min_def ac_simps)
  moreover have "p + length a - length (put_at d p a) = 0" using l by simp
  ultimately show ?thesis using False by (simp add: put_at_def [of "put_at d p a"]) (simp add: put_at_def, metis add.assoc add.commute)
qed (auto simp: put_at_def)

lemma length_put_at: "bs \<noteq> [] \<Longrightarrow> length (put_at d p bs) = max (length d) (p + length bs)"
  by (simp add: put_at_def)

text \<open>The place in the file where the next byte goes.\<close>

definition dev_at :: "wstream \<Rightarrow> nat" where
  "dev_at s =
     (if ws_append s then length (ws_data s)
      else if ws_cache s \<and> ws_offset s \<noteq> ws_sys s then nat (ws_offset s)
      else ws_pos s)"

definition ws_ok :: "wstream \<Rightarrow> bool" where
  "ws_ok s \<longleftrightarrow> 0 \<le> ws_offset s \<and> -1 \<le> ws_sys s"

definition wrote :: "wstream \<Rightarrow> wstream \<Rightarrow> byte list \<Rightarrow> bool" where
  "wrote s t bs \<longleftrightarrow>
     ws_file t = ws_file s \<and> ws_open t = ws_open s \<and> ws_append t = ws_append s \<and> ws_cache t = ws_cache s \<and> ws_ok t \<and>
     (if ws_file s then ws_data t = put_at (ws_data s) (dev_at s) bs \<and> dev_at t = dev_at s + length bs
      else ws_sent t = ws_sent s @ bs)"

lemma wrote_refl: "ws_ok s \<Longrightarrow> wrote s s []"
  by (simp add: wrote_def put_at_def)

lemma wrote_trans: "wrote s t a \<Longrightarrow> wrote t u b \<Longrightarrow> wrote s u (a @ b)"
  by (auto simp: wrote_def put_at_append split: if_splits)

lemma wrote_ok: "wrote s t bs \<Longrightarrow> ws_ok t"
  by (simp add: wrote_def)

text \<open>Fields that do not matter.\<close>

lemma wrote_fields [simp]:
  "wrote s (t\<lparr>ws_errnum := e\<rparr>) bs = wrote s t bs"
  "wrote s (t\<lparr>ws_err := b\<rparr>) bs = wrote s t bs"
  "wrote s (t\<lparr>ws_timeout := b\<rparr>) bs = wrote s t bs"
  "wrote s (t\<lparr>ws_io := es\<rparr>) bs = wrote s t bs"
  "wrote s (t\<lparr>ws_wbuf := w\<rparr>) bs = wrote s t bs"
  "wrote (s\<lparr>ws_errnum := e\<rparr>) t bs = wrote s t bs"
  "wrote (s\<lparr>ws_io := es\<rparr>) t bs = wrote s t bs"
  "wrote (s\<lparr>ws_wbuf := w\<rparr>) t bs = wrote s t bs"
  by (simp_all add: wrote_def dev_at_def ws_ok_def)


lemma seek_before_wrote:
  assumes "seek_before s = (b, t)" "ws_ok s"
  shows "wrote s t [] \<and> ws_wbuf t = ws_wbuf s \<and> (b \<and> ws_file s \<longrightarrow> dev_at t = (if ws_append t then length (ws_data t) else ws_pos t))"
  using assms
  by (auto simp: seek_before_def acl_lseek_def wrote_def put_at_def dev_at_def ws_ok_def Let_def
    split: prod.splits sum.splits if_splits list.splits io_reply.splits)

lemma dev_put_wrote:
  assumes "ws_ok s" "bs \<noteq> []"
    "ws_file s \<longrightarrow> dev_at s = (if ws_append s then length (ws_data s) else ws_pos s)"
  shows "wrote s (file_moved (dev_put s bs) (length bs)) bs"
proof -
  have "1 \<le> int (length bs)" using assms(2) by (cases bs) auto
  with assms show ?thesis
    by (simp add: dev_put_def file_moved_def wrote_def Let_def ws_ok_def)
      (auto simp: dev_at_def length_put_at)
qed

lemma dev_put_wbuf [simp]:
  "ws_wbuf (dev_put s bs) = ws_wbuf s" "ws_wbuf (file_moved s n) = ws_wbuf s" "dev_put s [] = s"
  "dev_at (s\<lparr>ws_io := es\<rparr>) = dev_at s" "ws_ok (s\<lparr>ws_io := es\<rparr>) = ws_ok s"
  by (simp_all add: dev_put_def file_moved_def Let_def dev_at_def ws_ok_def)

lemma sys_write_wrote:
  assumes "sys_write s bs = (r, t)" "ws_ok s" "bs \<noteq> []"
    "ws_file s \<longrightarrow> dev_at s = (if ws_append s then length (ws_data s) else ws_pos s)"
  shows "ws_wbuf t = ws_wbuf s \<and> (case r of
      Inl e \<Rightarrow> wrote s t []
    | Inr n \<Rightarrow> n \<le> length bs \<and> (n = 0 \<longrightarrow> wrote s t []) \<and> (0 < n \<longrightarrow> wrote s (file_moved t n) (take n bs)))"
proof (cases "ws_io s")
  case Nil
  with assms dev_put_wrote [OF assms(2,3,4)] show ?thesis by (auto simp: sys_write_def)
next
  case (Cons x es)
  show ?thesis
  proof (cases x)
    case (Fail e)
    with Cons assms wrote_refl show ?thesis by (auto simp: sys_write_def)
  next
    case (Done n)
    define u where "u = s\<lparr>ws_io := es\<rparr>"
    define m where "m = min n (length bs)"
    have t: "r = Inr m" "t = dev_put u (take m bs)" "take n bs = take m bs"
      using Cons Done assms(1) by (auto simp: sys_write_def u_def m_def min_def)
    have u: "ws_ok u" "ws_wbuf u = ws_wbuf s" "ws_file u = ws_file s" "dev_at u = dev_at s" "ws_append u = ws_append s"
      "ws_data u = ws_data s" "ws_pos u = ws_pos s" "\<And>v a. wrote u v a = wrote s v a"
      using assms(2) by (simp_all add: u_def)
    show ?thesis
    proof (cases m)
      case 0
      with t u wrote_refl [OF u(1)] show ?thesis by simp
    next
      case (Suc k)
      with assms(3) have "take m bs \<noteq> []" "length (take m bs) = m" by (auto simp: m_def)
      with dev_put_wrote [OF u(1), of "take m bs"] assms(4) u t Suc show ?thesis by (simp add: m_def)
    qed
  qed
qed

lemma write_round:
  assumes "write_try k s bs = (r, t)" "ws_ok s" "bs \<noteq> []"
  shows "(ws_wbuf t = ws_wbuf s \<and> wrote s t (case r of Some n \<Rightarrow> take n bs | None \<Rightarrow> [])) \<or>
    (\<exists>j v. k = Suc j \<and> write_try j v bs = (r, t) \<and> wrote s v [] \<and> ws_wbuf v = ws_wbuf s)"
proof -
  obtain b u where u: "seek_before s = (b, u)" by fastforce
  note su = seek_before_wrote [OF u assms(2)]
  obtain q v where v: "sys_write u bs = (q, v)" by fastforce
  have w: "wrote s u []" "ws_ok u" using su wrote_ok by auto
  show ?thesis
  proof (cases b)
    case False
    with assms(1) u su show ?thesis by (subst (asm) write_try.simps) auto
  next
    case True
    have "ws_file u \<longrightarrow> dev_at u = (if ws_append u then length (ws_data u) else ws_pos u)"
      using su True by (auto simp: wrote_def)
    note sv = sys_write_wrote [OF v w(2) assms(3) this]
    show ?thesis
    proof (cases "\<exists>n. q = Inr (Suc n)")
      case True
      then obtain n where n: "q = Inr (Suc n)" by blast
      with assms(1) u v \<open>b\<close> have "r = Some (Suc n)" "t = file_moved v (Suc n)"
        by (auto simp: write_try.simps [of k s bs])
      with sv n su wrote_trans [OF w(1)] show ?thesis by fastforce
    next
      case False
      define e where "e = (case q of Inl e \<Rightarrow> e | Inr _ \<Rightarrow> 0)"
      define v' where "v' = v\<lparr>ws_errnum := e\<rparr>"
      have "wrote u v []" "ws_wbuf v = ws_wbuf u" using sv False by (cases q; auto; case_tac b; auto)+
      then have vw: "wrote s v' []" "ws_wbuf v' = ws_wbuf s" using wrote_trans [OF w(1)] su by (fastforce simp: v'_def)+
      have "write_try k s bs =
        (if e = EINTR then (case k of 0 \<Rightarrow> (None, v'\<lparr>ws_err := True\<rparr>) | Suc k \<Rightarrow> write_try k v' bs)
         else if e = EAGAIN then (None, v')
         else if e = ETIMEDOUT then (None, v'\<lparr>ws_timeout := True\<rparr>)
         else (None, v'\<lparr>ws_err := True\<rparr>))"
        using False u v \<open>b\<close>
        by (subst write_try.simps) (auto simp: e_def v'_def Let_def split: sum.splits nat.splits)
      with assms(1) vw show ?thesis by (auto split: if_splits nat.splits)
    qed
  qed
qed

lemma write_try_wrote:
  assumes "write_try k s bs = (r, t)" "ws_ok s" "bs \<noteq> []"
  shows "ws_wbuf t = ws_wbuf s \<and> wrote s t (case r of Some n \<Rightarrow> take n bs | None \<Rightarrow> [])"
  using assms(1,2)
proof (induction k arbitrary: s)
  case 0
  then show ?case using write_round [OF 0(1) 0(2) assms(3)] by auto
next
  case (Suc k)
  from write_round [OF Suc(2) Suc(3) assms(3)] show ?case
  proof (elim disjE exE conjE)
    fix j v
    assume j: "Suc k = Suc j" "write_try j v bs = (r, t)" "wrote s v []" "ws_wbuf v = ws_wbuf s"
    with Suc.IH [of v] wrote_ok [OF j(3)] wrote_trans [OF j(3)] show ?thesis by fastforce
  qed auto
qed

lemma write_once_wrote:
  assumes "write_once s bs = (r, t)" "ws_ok s"
  shows "ws_wbuf t = ws_wbuf s \<and> wrote s t (case r of Some n \<Rightarrow> take n bs | None \<Rightarrow> [])"
  using assms write_try_wrote [of 4 s bs r t] wrote_refl [OF assms(2)]
  by (auto simp: write_once_def split: if_splits)

lemma writen_loop_wrote:
  assumes "writen_loop s bs = (b, t)" "ws_ok s"
  shows "ws_wbuf t = ws_wbuf s \<and>
    (\<exists>a. wrote s t a \<and> (if b then a = bs else \<exists>c. bs = a @ c \<and> c \<noteq> []))"
  using assms
proof (induction s bs rule: writen_loop.induct)
  case (1 s bs)
  show ?case
  proof (cases "bs = []")
    case True
    with 1(2) have "b" "t = s" by (auto simp: writen_loop.simps [of s "[]"])
    with True wrote_refl [OF 1(3)] show ?thesis by auto
  next
    case False
    obtain r u where u: "write_once s (take once_dlen bs) = (r, u)" by fastforce
    note w = write_once_wrote [OF u 1(3)]
    show ?thesis
    proof (cases r)
      case None
      with 1(2) u False w show ?thesis by (auto simp: writen_loop.simps [of s bs])
    next
      case (Some n)
      have n: "n \<le> once_dlen" "n \<le> length bs" using write_once_bound u Some by fastforce+
      have sw: "wrote s u (take n bs)" "ws_wbuf u = ws_wbuf s" using w Some n(1) by (auto simp: min_def)
      have "writen_loop u (drop n bs) = (b, t)" using 1(2) u Some False by (simp add: writen_loop.simps [of s bs])
      from 1(1) [OF False u [symmetric] Some this wrote_ok [OF sw(1)]] obtain a where
        a: "ws_wbuf t = ws_wbuf u" "wrote u t a" "if b then a = drop n bs else \<exists>c. drop n bs = a @ c \<and> c \<noteq> []" by blast
      have "wrote s t (take n bs @ a)" using sw(1) a(2) by (rule wrote_trans)
      moreover have "if b then take n bs @ a = bs else \<exists>c. bs = (take n bs @ a) @ c \<and> c \<noteq> []"
        using a(3) by (auto split: if_splits) (metis append_take_drop_id append.assoc)
      ultimately show ?thesis using a(1) sw(2) by auto
    qed
  qed
qed

lemma stb31: "n < 2 ^ 31 \<Longrightarrow> signed_take_bit 31 (int n) = int n"
  by (rule signed_take_bit_int_eq_self) auto

lemma loop_writen_wrote:
  assumes "loop_writen s bs = (r, t)" "ws_ok s" "length bs < 2 ^ 31"
  shows "ws_wbuf t = ws_wbuf s \<and>
    (\<exists>a. wrote s t a \<and> (case r of Some n \<Rightarrow> a = bs \<and> n = int (length bs) | None \<Rightarrow> \<exists>c. bs = a @ c \<and> c \<noteq> []))"
proof (cases "bs = []")
  case True
  with assms(1,2) wrote_refl show ?thesis by (auto simp: loop_writen_def)
next
  case False
  obtain b u where u: "writen_loop s bs = (b, u)" by fastforce
  from assms(1,3) False u have "t = u" "r = (if b then Some (int (length bs)) else None)"
    by (auto simp: loop_writen_def stb31 Let_def split: if_splits bool.splits)
  with writen_loop_wrote [OF u assms(2)] show ?thesis by (cases b) auto
qed


section \<open>In order, and once\<close>

definition ws_fits :: "wstream \<Rightarrow> bool" where
  "ws_fits s \<longleftrightarrow> ws_ok s \<and> length (ws_held s) \<le> wbuf_size"

text \<open>What an operation that writes \<open>bs\<close> may do: the bytes that went out are the first of those that
  were waiting or are new, and when it succeeds the others wait.\<close>

definition sends :: "wstream \<Rightarrow> byte list \<Rightarrow> int option \<times> wstream \<Rightarrow> bool" where
  "sends s bs rt \<longleftrightarrow>
     ws_fits (snd rt) \<and>
     (\<exists>a. wrote s (snd rt) a \<and>
        (if fst rt \<noteq> None then ws_held s @ bs = a @ ws_held (snd rt) else \<exists>c. ws_held s @ bs = a @ c))"

lemma ws_held_wbuf: "ws_wbuf t = ws_wbuf s \<Longrightarrow> ws_held t = ws_held s"
  by (simp add: ws_held_def)

lemma sends_none: "ws_fits s \<Longrightarrow> sends s bs (None, s)"
  using wrote_refl [of s] by (auto simp: sends_def ws_fits_def)

lemma sends_trans:
  assumes "sends s a (Some n, t)" "sends t b rt"
  shows "sends s (a @ b) rt"
proof -
  from assms(1) obtain x where x: "wrote s t x" "ws_held s @ a = x @ ws_held t" by (auto simp: sends_def)
  from assms(2) obtain y where y: "ws_fits (snd rt)" "wrote t (snd rt) y"
    "if fst rt \<noteq> None then ws_held t @ b = y @ ws_held (snd rt) else \<exists>c. ws_held t @ b = y @ c"
    by (auto simp: sends_def)
  have "ws_held s @ a @ b = x @ ws_held t @ b" using x(2) by (metis append.assoc)
  moreover have "x @ ws_held t @ b = x @ y @ c" if "ws_held t @ b = y @ c" for c using that by simp
  ultimately have "if fst rt \<noteq> None then ws_held s @ a @ b = (x @ y) @ ws_held (snd rt) else \<exists>c. ws_held s @ a @ b = (x @ y) @ c"
    using y(3) by (metis append.assoc)
  with y(1) wrote_trans [OF x(1) y(2)] show ?thesis unfolding sends_def by blast
qed

lemma sends_prefix:
  assumes "sends s a (None, t)"
  shows "sends s (a @ b) (None, t)"
proof -
  from assms obtain x c where x: "ws_fits t" "wrote s t x" "ws_held s @ a = x @ c" by (auto simp: sends_def)
  then have "ws_held s @ a @ b = x @ (c @ b)" by (metis append.assoc)
  then have "\<exists>c. ws_held s @ a @ b = x @ c" ..
  with x(1,2) show ?thesis unfolding sends_def by auto
qed

lemma sends_done: "sends s bs (Some n, t) \<Longrightarrow> sends s bs (Some m, t)"
  by (simp add: sends_def)

lemma fflush_sends:
  assumes "acl_vstream_fflush s = (r, t)" "ws_fits s"
  shows "sends s [] (r, t) \<and> (r \<noteq> None \<longrightarrow> ws_held t = []) \<and> (r = None \<longrightarrow> ws_held t = ws_held s)"
proof (cases "ws_held s = []")
  case True
  with assms wrote_refl show ?thesis by (auto simp: acl_vstream_fflush_def sends_def ws_fits_def)
next
  case False
  obtain q u where u: "loop_writen s (ws_held s) = (q, u)" by fastforce
  have ok: "ws_ok s" "length (ws_held s) < 2 ^ 31" using assms(2) by (auto simp: ws_fits_def wbuf_size_def)
  from loop_writen_wrote [OF u ok] obtain a where
    a: "ws_wbuf u = ws_wbuf s" "wrote s u a"
      "case q of Some n \<Rightarrow> a = ws_held s \<and> n = int (length (ws_held s)) | None \<Rightarrow> \<exists>c. ws_held s = a @ c \<and> c \<noteq> []" by blast
  show ?thesis
  proof (cases q)
    case None
    with assms(1) u False have t: "r = None" "t = u" by (auto simp: acl_vstream_fflush_def)
    with a None ws_held_wbuf [OF a(1)] wrote_ok [OF a(2)] assms(2) show ?thesis
      by (auto simp: sends_def ws_fits_def)
  next
    case (Some n)
    with assms(1) u False a(3) have t: "r = Some n" "t = u\<lparr>ws_wbuf := map_option (take 0) (ws_wbuf u)\<rparr>"
      using ws_held_wbuf [OF a(1)] by (auto simp: acl_vstream_fflush_def)
    have "ws_held t = []" by (simp add: t ws_held_def split: option.splits)
    moreover have "wrote s t a" using a(2) by (simp add: t)
    moreover have "ws_ok t" using wrote_ok [OF a(2)] by (simp add: t ws_ok_def)
    ultimately show ?thesis using a(3) Some t(1) by (auto simp: sends_def ws_fits_def wbuf_size_def)
  qed
qed

lemma loop_writen_sends:
  assumes "loop_writen s bs = (r, t)" "ws_fits s" "ws_held s = []" "length bs < 2 ^ 31"
  shows "sends s bs (r, t) \<and> ws_held t = []"
proof -
  have "ws_ok s" using assms(2) by (simp add: ws_fits_def)
  from loop_writen_wrote [OF assms(1) this assms(4)] obtain a where
    a: "ws_wbuf t = ws_wbuf s" "wrote s t a" "case r of Some n \<Rightarrow> a = bs \<and> n = int (length bs) | None \<Rightarrow> \<exists>c. bs = a @ c \<and> c \<noteq> []" by blast
  with ws_held_wbuf [OF a(1)] wrote_ok [OF a(2)] assms(2,3) show ?thesis
    by (cases r) (auto simp: sends_def ws_fits_def)
qed

lemma flush_first_sends:
  assumes "flush_first f s = (r, t)" "ws_fits s"
    "\<And>u. ws_fits u \<Longrightarrow> ws_held u = [] \<Longrightarrow> sends u bs (f u)"
  shows "sends s bs (r, t)"
proof (cases "ws_held s = []")
  case True
  with assms(1) have "f s = (r, t)" by (simp add: flush_first_def)
  with assms(3) [OF assms(2) True] show ?thesis by simp
next
  case False
  obtain q u where u: "acl_vstream_fflush s = (q, u)" by fastforce
  note fl = fflush_sends [OF u assms(2)]
  show ?thesis
  proof (cases q)
    case None
    with assms(1) u False fl sends_prefix [of s "[]" u bs] show ?thesis by (auto simp: flush_first_def)
  next
    case (Some n)
    have "sends u bs (f u)" by (rule assms(3)) (use fl Some in \<open>auto simp: sends_def\<close>)
    with fl Some sends_trans [of s "[]" n u bs] assms(1) u False show ?thesis by (auto simp: flush_first_def)
  qed
qed

lemma writen_sends:
  assumes "acl_vstream_writen s bs = (r, t)" "ws_fits s" "length bs < 2 ^ 31"
  shows "sends s bs (r, t)"
proof (cases "bs = []")
  case True
  with assms sends_none show ?thesis by (auto simp: acl_vstream_writen_def)
next
  case False
  with assms(1) have "flush_first (\<lambda>s. loop_writen s bs) s = (r, t)" by (simp add: acl_vstream_writen_def)
  then show ?thesis
  proof (rule flush_first_sends [OF _ assms(2)])
    fix u
    assume "ws_fits u" "ws_held u = []"
    with loop_writen_sends [of u bs _ _] assms(3) show "sends u bs (loop_writen u bs)" by (metis surj_pair)
  qed
qed

lemma hold_sends:
  assumes "ws_fits s" "length (ws_held s) + length bs < wbuf_size"
  shows "sends s bs (hold s bs)"
  using assms wrote_refl [of s]
  by (auto simp: hold_def sends_def ws_fits_def ws_held_def ws_ok_def intro!: exI [of _ "[]"])

lemma buffed_writen_sends:
  assumes "acl_vstream_buffed_writen s bs = (r, t)" "ws_fits s" "length bs < 2 ^ 31"
  shows "sends s bs (r, t)"
proof (cases "bs = []")
  case True
  with assms sends_none show ?thesis by (auto simp: acl_vstream_buffed_writen_def)
next
  case False
  define s' where "s' = acl_vstream_buffed_space s"
  have s': "ws_fits s'" "\<And>b rt. sends s' b rt = sends s b rt"
    using assms(2) by (auto simp: s'_def acl_vstream_buffed_space_def ws_fits_def ws_held_def ws_ok_def sends_def)
  obtain q u where u: "acl_vstream_fflush s' = (q, u)" by fastforce
  note fl = fflush_sends [OF u s'(1)]
  have d: "acl_vstream_buffed_writen s bs =
     (if wbuf_size \<le> length bs + length (ws_held s') then
       (case q of None \<Rightarrow> (None, u) | Some _ \<Rightarrow>
         (if wbuf_size \<le> length bs then
            (case loop_writen u bs of (None, s) \<Rightarrow> (None, s) | (Some _, s) \<Rightarrow> (Some (signed_take_bit 31 (int (length bs))), s))
          else hold u bs))
      else hold s' bs)"
    using False u by (auto simp: acl_vstream_buffed_writen_def Let_def s'_def split: option.splits)
  consider (keep) "\<not> wbuf_size \<le> length bs + length (ws_held s')"
    | (lost) "wbuf_size \<le> length bs + length (ws_held s')" "q = None"
    | (flushed) n where "wbuf_size \<le> length bs + length (ws_held s')" "q = Some n" by fastforce
  then have "sends s' bs (r, t)"
  proof cases
    case keep
    with d assms(1) hold_sends [OF s'(1), of bs] show ?thesis by simp
  next
    case lost
    with d assms(1) fl sends_prefix [of s' "[]" u bs] show ?thesis by auto
  next
    case flushed
    have uf: "ws_fits u" "ws_held u = []" "sends s' [] (Some n, u)" using fl flushed by (auto simp: sends_def)
    have "sends u bs (r, t)"
    proof (cases "wbuf_size \<le> length bs")
      case True
      obtain p v where v: "loop_writen u bs = (p, v)" by fastforce
      with loop_writen_sends [OF v uf(1,2) assms(3)] d assms(1) flushed True show ?thesis
        by (auto split: option.splits intro: sends_done)
    next
      case False
      with d assms(1) flushed hold_sends [OF uf(1), of bs] uf(2) show ?thesis by simp
    qed
    with sends_trans [OF uf(3)] show ?thesis by fastforce
  qed
  with s'(2) show ?thesis by simp
qed

lemma buffed_fputs_sends:
  assumes "acl_vstream_buffed_fputs str s = (r, t)" "ws_fits s" "length str < 2 ^ 31"
  shows "sends s (str @ [13, 10]) (r, t)"
proof -
  obtain q u where u: "(if str \<noteq> [] then acl_vstream_buffed_writen s str else (Some 0, s)) = (q, u)" by fastforce
  have su: "sends s str (q, u)"
  proof (cases "str = []")
    case True
    with u assms(2) wrote_refl [of s] show ?thesis by (auto simp: sends_def ws_fits_def)
  next
    case False
    with u buffed_writen_sends [OF _ assms(2,3)] show ?thesis by auto
  qed
  show ?thesis
  proof (cases q)
    case None
    with u assms(1) su sends_prefix [of s str u] show ?thesis by (auto simp: acl_vstream_buffed_fputs_def)
  next
    case (Some n)
    obtain p v where v: "acl_vstream_buffed_writen u [13, 10] = (p, v)" by fastforce
    have "ws_fits u" using su by (simp add: sends_def)
    from buffed_writen_sends [OF v this] have "sends s (str @ [13, 10]) (p, v)"
      using sends_trans su Some by auto
    moreover have "(r, t) = (map_option (\<lambda>_. 0) p, v)"
      using assms(1) u v Some by (auto simp: acl_vstream_buffed_fputs_def split: option.splits)
    ultimately show ?thesis by (cases p) (auto intro: sends_done)
  qed
qed

lemma fputs_sends:
  assumes "acl_vstream_fputs str s = (r, t)" "ws_fits s" "length str < 2 ^ 31"
  shows "sends s (str @ [13, 10]) (r, t) \<and> (r \<noteq> None \<longrightarrow> ws_held t = [])"
proof -
  obtain q u where u: "acl_vstream_buffed_fputs str s = (q, u)" by fastforce
  note su = buffed_fputs_sends [OF u assms(2,3)]
  show ?thesis
  proof (cases q)
    case None
    with u assms(1) su show ?thesis by (auto simp: acl_vstream_fputs_def)
  next
    case (Some n)
    obtain p v where v: "acl_vstream_fflush u = (p, v)" by fastforce
    have "ws_fits u" using su by (simp add: sends_def)
    note fl = fflush_sends [OF v this]
    have "(r, t) = (map_option (\<lambda>_. 0) p, v)"
      using assms(1) u v Some by (auto simp: acl_vstream_fputs_def split: option.splits)
    with fl sends_trans [of s "str @ [13, 10]" n u "[]" "(p, v)"] su Some show ?thesis
      by (cases p) (auto intro: sends_done)
  qed
qed

lemma putc_sends:
  assumes "ACL_VSTREAM_PUTC ch s = (r, t)" "ws_fits s"
  shows "sends s [ch] (r, t)"
proof -
  define put where "put = (\<lambda>s :: wstream. (Some (uint ch), s\<lparr>ws_wbuf := Some (ws_held s @ [ch])\<rparr>))"
  have put: "sends u [ch] (put u)" if "ws_fits u" "length (ws_held u) \<noteq> wbuf_size" for u
    using that wrote_refl [of u]
    by (auto simp: put_def sends_def ws_fits_def ws_held_def ws_ok_def intro!: exI [of _ "[]"])
  show ?thesis
  proof (cases "length (ws_held s) = wbuf_size")
    case True
    then obtain bs where bs: "ws_wbuf s = Some bs" "length bs = wbuf_size"
      by (cases "ws_wbuf s") (auto simp: ws_held_def wbuf_size_def)
    obtain q u where u: "acl_vstream_fflush s = (q, u)" by fastforce
    note fl = fflush_sends [OF u assms(2)]
    show ?thesis
    proof (cases q)
      case None
      with assms(1) bs u fl sends_prefix [of s "[]" u "[ch]"] show ?thesis by (auto simp: ACL_VSTREAM_PUTC_def)
    next
      case (Some n)
      with assms(1) bs u have "put u = (r, t)" by (simp add: ACL_VSTREAM_PUTC_def put_def)
      moreover have "ws_fits u" "length (ws_held u) \<noteq> wbuf_size" "sends s [] (Some n, u)"
        using fl Some by (auto simp: sends_def wbuf_size_def)
      ultimately show ?thesis using put [of u] sends_trans [of s "[]" n u "[ch]"] by simp
    qed
  next
    case False
    from put [OF assms(2) False] have s1: "sends s [ch] (put s)" .
    show ?thesis
    proof (cases "ws_wbuf s")
      case None
      with assms(1) have "(r, t) = put (s\<lparr>ws_wbuf := Some []\<rparr>)"
        by (simp add: ACL_VSTREAM_PUTC_def acl_vstream_buffed_space_def put_def)
      moreover have "put (s\<lparr>ws_wbuf := Some []\<rparr>) = put s" using None by (simp add: put_def ws_held_def)
      ultimately show ?thesis using s1 by simp
    next
      case (Some bs)
      with assms(1) False have "(r, t) = put s" by (auto simp: ACL_VSTREAM_PUTC_def put_def ws_held_def)
      with s1 show ?thesis by simp
    qed
  qed
qed

text \<open>A program that writes into a stream.\<close>

datatype wop = Writen "byte list" | BuffedWriten "byte list" | Fputs cstr | BuffedFputs cstr | Putc byte | Fflush

fun wop_text :: "wop \<Rightarrow> byte list" where
  "wop_text (Writen bs) = bs"
| "wop_text (BuffedWriten bs) = bs"
| "wop_text (Fputs str) = str @ [13, 10]"
| "wop_text (BuffedFputs str) = str @ [13, 10]"
| "wop_text (Putc ch) = [ch]"
| "wop_text Fflush = []"

fun wop_do :: "wop \<Rightarrow> wstream \<Rightarrow> int option \<times> wstream" where
  "wop_do (Writen bs) s = acl_vstream_writen s bs"
| "wop_do (BuffedWriten bs) s = acl_vstream_buffed_writen s bs"
| "wop_do (Fputs str) s = acl_vstream_fputs str s"
| "wop_do (BuffedFputs str) s = acl_vstream_buffed_fputs str s"
| "wop_do (Putc ch) s = ACL_VSTREAM_PUTC ch s"
| "wop_do Fflush s = acl_vstream_fflush s"

text \<open>It stops at the first operation that fails.\<close>

fun wop_run :: "wop list \<Rightarrow> wstream \<Rightarrow> int option \<times> wstream" where
  "wop_run [] s = (Some 0, s)"
| "wop_run (x # xs) s = (case wop_do x s of (None, s) \<Rightarrow> (None, s) | (Some _, s) \<Rightarrow> wop_run xs s)"

lemma wop_sends:
  assumes "wop_do x s = (r, t)" "ws_fits s" "length (wop_text x) < 2 ^ 31"
  shows "sends s (wop_text x) (r, t)"
  using assms
  by (cases x) (auto simp: writen_sends buffed_writen_sends buffed_fputs_sends fputs_sends putc_sends fflush_sends)

lemma wop_run_sends:
  assumes "wop_run xs s = (r, t)" "ws_fits s" "\<forall>x\<in>set xs. length (wop_text x) < 2 ^ 31"
  shows "sends s (concat (map wop_text xs)) (r, t)"
  using assms
proof (induction xs arbitrary: s)
  case Nil
  with wrote_refl [of s] show ?case by (auto simp: sends_def ws_fits_def)
next
  case (Cons x xs)
  obtain q u where u: "wop_do x s = (q, u)" by fastforce
  have su: "sends s (wop_text x) (q, u)" using wop_sends [OF u Cons.prems(2)] Cons.prems(3) by simp
  show ?case
  proof (cases q)
    case None
    with Cons.prems(1) u su sends_prefix show ?thesis by auto
  next
    case (Some n)
    have "sends u (concat (map wop_text xs)) (r, t)"
      by (rule Cons.IH) (use Cons.prems u Some su in \<open>auto simp: sends_def\<close>)
    with su Some sends_trans show ?thesis by auto
  qed
qed


text \<open>C22: A program makes direct and buffered writes, lines, single bytes and flushes of a stream, each of less than
  2 GB, and stops when one of them fails. Whatever the system does with its calls (fails, interrupts, takes a part): what
  reaches the socket, or the file from its position on (from its end when it is opened for appending), is a
  front part of the bytes that were waiting in the buffer and those that were written, in
  the order of the writes and each once; and when all operations succeed, the rest of them is what
  waits in the buffer, of 8192 bytes at most. The stream is one whose buffer has at most that, whose own position is not negative and
  whose record of the system's position is -1 at least.\<close>

theorem writes_in_order:
  assumes "wop_run ops s = (r, t)" "ws_ok s" "length (ws_held s) \<le> wbuf_size"
    "\<forall>x \<in> set ops. length (wop_text x) < 2 ^ 31"
  shows "length (ws_held t) \<le> wbuf_size \<and>
    (\<exists>a. (if ws_file s then ws_data t = put_at (ws_data s) (dev_at s) a else ws_sent t = ws_sent s @ a) \<and>
      (if r \<noteq> None then ws_held s @ concat (map wop_text ops) = a @ ws_held t
       else \<exists>c. ws_held s @ concat (map wop_text ops) = a @ c))"
proof -
  have "ws_fits s" using assms(2,3) by (simp add: ws_fits_def)
  from wop_run_sends [OF assms(1) this assms(4)] show ?thesis
    by (auto simp: sends_def wrote_def ws_fits_def)
qed

text \<open>A stream as it is opened.\<close>

definition fresh_stream :: "bool \<Rightarrow> io_reply list \<Rightarrow> wstream" where
  "fresh_stream file io =
     \<lparr>ws_file = file, ws_open = True, ws_io = io, ws_sent = [], ws_data = [], ws_pos = 0,
      ws_append = False, ws_cache = False, ws_offset = 0, ws_sys = 0, ws_cnt = 0, ws_wbuf = None,
      ws_errnum = 0, ws_timeout = False, ws_err = False\<rparr>"

theorem writes_in_order_witness:
  "\<exists>r t a. wop_run [BuffedWriten [1, 2], Fputs [3], BuffedWriten [4]] (fresh_stream False [Done 1, Fail 4]) = (r, t) \<and>
     ws_sent t = a \<and> (if r \<noteq> None then [1, 2, 3, 13, 10, 4] = a @ ws_held t else \<exists>c. [1, 2, 3, 13, 10, 4] = a @ c)"
proof -
  obtain r t where "wop_run [BuffedWriten [1, 2], Fputs [3], BuffedWriten [4]] (fresh_stream False [Done 1, Fail 4]) = (r, t)"
    by fastforce
  with writes_in_order [OF this] show ?thesis
    by (auto simp: fresh_stream_def ws_ok_def ws_held_def wbuf_size_def)
qed

section \<open>What goes wrong\<close>

text \<open>A flush that fails half-way has sent a part of the buffer and keeps the whole of it: the next
  flush sends that part again.\<close>

lemma loop_writen_short:
  assumes "bs \<noteq> []" "length bs \<le> once_dlen"
  shows "loop_writen s bs = (case writen_loop s bs of (True, s) \<Rightarrow> (Some (int (length bs)), s) | (False, s) \<Rightarrow> (None, s))"
proof -
  have "length bs < 2 ^ 31" using assms(2) by (simp add: once_dlen_def)
  with assms(1) show ?thesis by (simp add: loop_writen_def stb31 Let_def)
qed

lemma socket_writen:
  assumes "\<not> ws_file s" "ws_open s" "ws_io s = []" "length bs \<le> once_dlen"
  shows "writen_loop s bs = (True, s\<lparr>ws_sent := ws_sent s @ bs\<rparr>)"
proof (cases bs)
  case (Cons b bs')
  have "write_once s bs = (Some (length bs), s\<lparr>ws_sent := ws_sent s @ bs\<rparr>)"
    using assms Cons
    by (simp add: write_once_def write_try.simps seek_before_def sys_write_def dev_put_def file_moved_def)
  with assms(4) Cons show ?thesis
    by (simp add: writen_loop.simps [of s bs]) (simp add: writen_loop.simps)
qed (simp add: writen_loop.simps)

theorem flush_again_sends_twice:
  assumes "\<not> ws_file s" "ws_open s" "ws_wbuf s = Some (a @ b)" "a \<noteq> []" "b \<noteq> []"
    "length (a @ b) < wbuf_size" "ws_io s = [Done (length a), Fail EAGAIN]"
  shows "\<exists>t. acl_vstream_fflush s = (None, t) \<and> ws_sent t = ws_sent s @ a \<and>
    (\<exists>u. acl_vstream_fflush t = (Some (int (length (a @ b))), u) \<and> ws_sent u = ws_sent s @ a @ a @ b)"
proof -
  have small: "length (a @ b) \<le> once_dlen" using assms(6) by (simp add: wbuf_size_def once_dlen_def)
  define s1 where "s1 = s\<lparr>ws_io := [Fail EAGAIN], ws_sent := ws_sent s @ a\<rparr>"
  define t where "t = s1\<lparr>ws_io := [], ws_errnum := EAGAIN\<rparr>"
  obtain n where n: "length a = Suc n" using assms(4) by (cases a) auto
  have w1: "write_once s (a @ b) = (Some (length a), s1)"
    using assms n
    by (simp add: write_once_def write_try.simps seek_before_def sys_write_def dev_put_def file_moved_def s1_def)
  have w2: "write_once s1 b = (None, t)"
    using assms
    by (simp add: write_once_def write_try.simps seek_before_def sys_write_def s1_def t_def EAGAIN_def EINTR_def)
  have l1: "writen_loop s (a @ b) = writen_loop s1 b"
    using small w1 assms(4) by (subst writen_loop.simps) simp
  have l2: "writen_loop s1 b = (False, t)"
    using small w2 assms(5) by (subst writen_loop.simps) simp
  have f1: "acl_vstream_fflush s = (None, t)"
    using loop_writen_short [OF _ small, of s] l1 l2 assms(3,4)
    by (simp add: acl_vstream_fflush_def ws_held_def)
  have "writen_loop t (a @ b) = (True, t\<lparr>ws_sent := ws_sent t @ a @ b\<rparr>)"
    by (rule socket_writen) (use assms small in \<open>simp_all add: t_def s1_def\<close>)
  then have "acl_vstream_fflush t = (Some (int (length (a @ b))), t\<lparr>ws_sent := ws_sent t @ a @ b, ws_wbuf := Some []\<rparr>)"
    using loop_writen_short [OF _ small, of t] assms(3,4)
    by (simp add: acl_vstream_fflush_def ws_held_def t_def s1_def)
  with f1 show ?thesis by (simp add: t_def s1_def)
qed

theorem flush_again_sends_twice_witness:
  "\<exists>t u. acl_vstream_fflush ((fresh_stream False [Done 2, Fail EAGAIN])\<lparr>ws_wbuf := Some [1, 2, 3]\<rparr>) = (None, t) \<and>
     acl_vstream_fflush t = (Some 3, u) \<and> ws_sent u = [1, 2, 1, 2, 3]"
  using flush_again_sends_twice [of "(fresh_stream False [Done 2, Fail EAGAIN])\<lparr>ws_wbuf := Some [1, 2, 3]\<rparr>" "[1, 2]" "[3]"]
  by (auto simp: fresh_stream_def wbuf_size_def)

text \<open>From 2 GB on the size is negative as an \<open>int\<close>: nothing is written, and the write says that it
  has written 0 bytes; the buffered write says that it has written all of them, as far as an \<open>int\<close>
  can say it.\<close>

lemma stb31_big:
  assumes "2 ^ 31 \<le> n" "n < 2 ^ 32"
  shows "signed_take_bit 31 (int n) = int n - 2 ^ 32"
proof -
  have "int n + 2147483648 = (int n - 2147483648) + 4294967296" by simp
  moreover have "((int n - 2147483648) + 4294967296) mod 4294967296 = int n - 2147483648"
    using assms by (subst mod_add_self2) simp
  ultimately have "(int n + 2147483648) mod 4294967296 = int n - 2147483648" by metis
  then show ?thesis by (simp add: signed_take_bit_eq_take_bit_shift take_bit_eq_mod)
qed

theorem huge_write_does_nothing:
  assumes "ws_wbuf s = Some []" "2 ^ 31 \<le> length bs" "length bs < 2 ^ 32"
  shows "acl_vstream_writen s bs = (Some 0, s) \<and>
    acl_vstream_buffed_writen s bs = (Some (int (length bs) - 2 ^ 32), s)"
proof -
  have n: "signed_take_bit 31 (int (length bs)) = int (length bs) - 2 ^ 32" "bs \<noteq> []" "wbuf_size \<le> length bs"
    using assms(2,3) stb31_big by (auto simp: wbuf_size_def)
  then have "loop_writen s bs = (Some 0, s)" using assms(3) by (simp add: loop_writen_def)
  with n assms(1) show ?thesis
    by (simp add: acl_vstream_writen_def flush_first_def ws_held_def acl_vstream_buffed_writen_def
        acl_vstream_buffed_space_def acl_vstream_fflush_def)
qed

theorem huge_write_does_nothing_witness:
  "let s = (fresh_stream False [])\<lparr>ws_wbuf := Some []\<rparr> in
   acl_vstream_writen s (replicate (2 ^ 31) 7) = (Some 0, s) \<and> ws_sent s = []"
  using huge_write_does_nothing [of "(fresh_stream False [])\<lparr>ws_wbuf := Some []\<rparr>" "replicate (2 ^ 31) 7"]
  by (simp add: fresh_stream_def)

section \<open>Gathering writes\<close>

lemma writev_round:
  assumes "writev_try k s vec = (r, t)" "ws_ok s" "concat vec \<noteq> []"
  shows "(ws_wbuf t = ws_wbuf s \<and> (case r of Some n \<Rightarrow> n \<le> length (concat vec) \<and> wrote s t (take n (concat vec)) | None \<Rightarrow> wrote s t [])) \<or>
    (\<exists>j v. k = Suc j \<and> writev_try j v vec = (r, t) \<and> wrote s v [] \<and> ws_wbuf v = ws_wbuf s)"
proof -
  obtain b u where u: "seek_before s = (b, u)" by fastforce
  note su = seek_before_wrote [OF u assms(2)]
  obtain q v where v: "sys_write u (concat vec) = (q, v)" by fastforce
  have w: "wrote s u []" "ws_ok u" using su wrote_ok by auto
  show ?thesis
  proof (cases b)
    case False
    with assms(1) u su show ?thesis by (subst (asm) writev_try.simps) auto
  next
    case True
    have "ws_file u \<longrightarrow> dev_at u = (if ws_append u then length (ws_data u) else ws_pos u)"
      using su True by (auto simp: wrote_def)
    note sv = sys_write_wrote [OF v w(2) assms(3) this]
    show ?thesis
    proof (cases q)
      case (Inr n)
      with assms(1) u v \<open>b\<close> have r: "r = Some n" "t = (if 0 < n then file_moved v n else v)"
        by (auto simp: writev_try.simps [of k s vec])
      have "n \<le> length (concat vec)" "wrote u t (take n (concat vec))" "ws_wbuf t = ws_wbuf s"
        using sv Inr r su by (cases n; auto)+
      with r wrote_trans [OF w(1), of t "take n (concat vec)"] show ?thesis by auto
    next
      case (Inl e)
      define v' where "v' = v\<lparr>ws_errnum := e\<rparr>"
      have vw: "wrote s v' []" "ws_wbuf v' = ws_wbuf s"
        using sv Inl wrote_trans [OF w(1)] su by (fastforce simp: v'_def)+
      have "writev_try k s vec =
        (if e = EINTR then (case k of 0 \<Rightarrow> (None, v') | Suc k \<Rightarrow> writev_try k v' vec)
         else if e = EAGAIN then (None, v')
         else (None, v'\<lparr>ws_err := True\<rparr>))"
        using Inl u v \<open>b\<close> by (subst writev_try.simps) (auto simp: v'_def Let_def split: nat.splits)
      with assms(1) vw show ?thesis by (auto split: if_splits nat.splits)
    qed
  qed
qed

lemma writev_try_wrote:
  assumes "writev_try k s vec = (r, t)" "ws_ok s" "concat vec \<noteq> []"
  shows "ws_wbuf t = ws_wbuf s \<and> (case r of Some n \<Rightarrow> n \<le> length (concat vec) \<and> wrote s t (take n (concat vec)) | None \<Rightarrow> wrote s t [])"
  using assms(1,2)
proof (induction k arbitrary: s)
  case 0
  then show ?case using writev_round [OF 0(1) 0(2) assms(3)] by auto
next
  case (Suc k)
  from writev_round [OF Suc(2) Suc(3) assms(3)] show ?case
  proof (elim disjE exE conjE)
    fix j v
    assume j: "Suc k = Suc j" "writev_try j v vec = (r, t)" "wrote s v []" "ws_wbuf v = ws_wbuf s"
    with Suc.IH [of v] wrote_ok [OF j(3)] wrote_trans [OF j(3)] show ?thesis
      by (cases r) fastforce+
  qed auto
qed

lemma writev_once_wrote:
  assumes "writev_once s vec = (r, t)" "ws_ok s" "concat vec \<noteq> []"
  shows "ws_wbuf t = ws_wbuf s \<and> (case r of Some n \<Rightarrow> n \<le> length (concat vec) \<and> wrote s t (take n (concat vec)) | None \<Rightarrow> wrote s t [])"
  using assms writev_try_wrote [of 4 s vec r t] wrote_refl [OF assms(2)]
  by (auto simp: writev_once_def split: if_splits)

lemma skip_iov_cons:
  "length v < 2 ^ 31 \<Longrightarrow>
   skip_iov (int n) (v # vs) = (if length v \<le> n then skip_iov (int (n - length v)) vs else drop n v # vs)"
  by (simp add: stb31 Let_def of_nat_diff)

lemma skip_iov_drop:
  assumes "length (concat vec) < 2 ^ 31"
  shows "concat (skip_iov (int n) vec) = drop n (concat vec) \<and>
    (n \<le> length (concat vec) \<longrightarrow> (skip_iov (int n) vec = [] \<longleftrightarrow> n = length (concat vec))) \<and>
    (skip_iov (int n) vec \<noteq> [] \<longrightarrow> concat (skip_iov (int n) vec) \<noteq> [])"
  using assms
proof (induction vec arbitrary: n)
  case (Cons v vs)
  have small: "length v < 2 ^ 31" "length (concat vs) < 2 ^ 31" using Cons.prems by simp_all
  note e = skip_iov_cons [OF small(1)]
  show ?case
  proof (cases "length v \<le> n")
    case True
    then have q: "n \<le> length (concat (v # vs)) \<longleftrightarrow> n - length v \<le> length (concat vs)"
      "n = length (concat (v # vs)) \<longleftrightarrow> n - length v = length (concat vs)"
      "drop n (concat (v # vs)) = drop (n - length v) (concat vs)" by auto
    show ?thesis unfolding e q if_P [OF True] by (rule Cons.IH [OF small(2)])
  next
    case False
    then show ?thesis unfolding e by auto
  qed
qed simp

lemmas concat_skip_iov = skip_iov_drop [THEN conjunct1]
lemmas skip_iov_done = skip_iov_drop [THEN conjunct2, THEN conjunct1, rule_format]
lemmas skip_iov_bytes = skip_iov_drop [THEN conjunct2, THEN conjunct2, rule_format]


text \<open>Every call uses up a reply of the system, and without one it takes everything.\<close>

lemma seek_before_io:
  "seek_before s = (b, t) \<Longrightarrow> length (ws_io t) \<le> length (ws_io s)"
  by (auto simp: seek_before_def acl_lseek_def Let_def split: prod.splits sum.splits if_splits list.splits io_reply.splits)

lemma dev_put_io [simp]: "ws_io (dev_put s bs) = ws_io s" "ws_io (file_moved s n) = ws_io s"
  by (simp_all add: dev_put_def file_moved_def Let_def)

lemma sys_write_io:
  "sys_write s bs = (r, t) \<Longrightarrow> (if ws_io s = [] then r = Inr (length bs) \<and> ws_io t = [] else length (ws_io t) < length (ws_io s))"
  by (auto simp: sys_write_def split: list.splits io_reply.splits if_splits)

lemma writev_try_io:
  "writev_try k s vec = (Some n, t) \<Longrightarrow>
   (length (ws_io t) < length (ws_io s)) \<or> (ws_io t = [] \<and> n = length (concat vec))"
proof (induction k arbitrary: s)
  case (0 s)
  obtain b u where u: "seek_before s = (b, u)" by fastforce
  obtain q v where v: "sys_write u (concat vec) = (q, v)" by fastforce
  from 0 u v seek_before_io [OF u] sys_write_io [OF v] show ?case
    by (subst (asm) writev_try.simps) (auto simp: Let_def split: bool.splits sum.splits if_splits)
next
  case (Suc k s)
  obtain b u where u: "seek_before s = (b, u)" by fastforce
  obtain q v where v: "sys_write u (concat vec) = (q, v)" by fastforce
  show ?case
  proof (cases "\<exists>e. q = Inl e \<and> e = EINTR \<and> b")
    case True
    then have "writev_try (Suc k) s vec = writev_try k (v\<lparr>ws_errnum := EINTR\<rparr>) vec"
      using u v by (subst writev_try.simps) (auto simp: Let_def)
    with Suc have "length (ws_io (v\<lparr>ws_errnum := EINTR\<rparr>)) > length (ws_io t) \<or> (ws_io t = [] \<and> n = length (concat vec))"
      by metis
    with seek_before_io [OF u] sys_write_io [OF v] show ?thesis by (auto split: if_splits)
  next
    case False
    with Suc.prems u v seek_before_io [OF u] sys_write_io [OF v] show ?thesis
      by (subst (asm) writev_try.simps) (auto simp: Let_def split: bool.splits sum.splits if_splits)
  qed
qed

lemma writev_once_io:
  "writev_once s vec = (Some n, t) \<Longrightarrow>
   length (ws_io t) < length (ws_io s) \<or> (ws_io t = [] \<and> n = length (concat vec))"
  by (auto simp: writev_once_def dest: writev_try_io split: if_splits)

lemma writevn_loop_total:
  assumes "concat vec \<noteq> []" "ws_ok s" "k + length (concat vec) < 2 ^ 31"
  shows "\<exists>r t a. writevn_loop s vec (int k) = Some (r, t) \<and> ws_wbuf t = ws_wbuf s \<and> wrote s t a \<and>
    (case r of Some n \<Rightarrow> n = int (k + length (concat vec)) \<and> a = concat vec | None \<Rightarrow> \<exists>c. concat vec = a @ c)"
  using assms
proof (induction "length (ws_io s)" arbitrary: s vec k rule: less_induct)
  case less
  obtain r u where u: "writev_once s vec = (r, u)" by fastforce
  note w = writev_once_wrote [OF u less.prems(2,1)]
  show ?case
  proof (cases r)
    case None
    with u w show ?thesis by (subst writevn_loop.simps) auto
  next
    case (Some n)
    have n: "ws_wbuf u = ws_wbuf s" "n \<le> length (concat vec)" "wrote s u (take n (concat vec))" using w Some by auto
    note ok = wrote_ok [OF n(3)]
    have small: "length (concat vec) < 2 ^ 31" using less.prems(3) by simp
    have sum: "signed_take_bit 31 (int k + int n) = int (k + n)" using stb31 [of "k + n"] n(2) less.prems(3) by simp
    show ?thesis
    proof (cases "skip_iov (int n) vec = []")
      case True
      then have "n = length (concat vec)" using skip_iov_done [OF small n(2)] by simp
      with less.prems(1) True u Some n sum show ?thesis by (subst writevn_loop.simps) auto
    next
      case False
      then have "n \<noteq> length (concat vec)" using skip_iov_done [OF small n(2)] by simp
      with writev_once_io u Some have io: "length (ws_io u) < length (ws_io s)" by blast
      define vec' where "vec' = (if n = 0 then vec else skip_iov (int n) vec)"
      have c: "concat vec' = drop n (concat vec)" "concat vec' \<noteq> []"
        using less.prems(1) skip_iov_bytes [OF small False]
        by (auto simp: vec'_def concat_skip_iov [OF small] simp del: concat_eq_Nil_conv drop_eq_Nil drop_eq_Nil2)
      have e: "writevn_loop s vec (int k) = writevn_loop u vec' (int (k + n))"
        using u Some False sum by (subst writevn_loop.simps) (simp add: vec'_def)
      have b: "(k + n) + length (concat vec') < 2 ^ 31" using less.prems(3) n(2) c(1) by simp
      from less.hyps [OF io c(2) ok b] obtain r' t a where
        a: "writevn_loop u vec' (int (k + n)) = Some (r', t)" "ws_wbuf t = ws_wbuf u" "wrote u t a"
          "case r' of Some m \<Rightarrow> m = int ((k + n) + length (concat vec')) \<and> a = concat vec' | None \<Rightarrow> \<exists>c. concat vec' = a @ c" by blast
      have "wrote s t (take n (concat vec) @ a)" using n(3) a(3) by (rule wrote_trans)
      moreover have "case r' of Some m \<Rightarrow> m = int (k + length (concat vec)) \<and> take n (concat vec) @ a = concat vec
          | None \<Rightarrow> \<exists>x. concat vec = (take n (concat vec) @ a) @ x"
      proof (cases r')
        case None
        with a(4) c(1) obtain x where "drop n (concat vec) = a @ x" by auto
        then have "concat vec = (take n (concat vec) @ a) @ x" by (metis append_take_drop_id append.assoc)
        with None show ?thesis by auto
      next
        case (Some m)
        with a(4) c(1) n(2) show ?thesis by simp
      qed
      ultimately show ?thesis using e a(1,2) n(1) by auto
    qed
  qed
qed

text \<open>C23: A gathering write of items that together hold a byte at least, and less than 2 GB, returns, whatever
  the system does with a finite number of calls (interruptions and calls that take nothing or a part among them),
  when the calls after those are carried out. When it succeeds it returns the number of the bytes, and the socket, or the file from
  its position on, has what was waiting in the buffer and then the items, in order and without a gap;
  when it fails, a front part of that. (The stream has at most 8192 bytes in its buffer, an own position that is not
  negative and a record of the system's position of -1 at least.)\<close>

theorem writevn_returns:
  assumes "concat vec \<noteq> []" "length (concat vec) < 2 ^ 31" "ws_ok s" "length (ws_held s) \<le> wbuf_size"
  shows "\<exists>r t a. acl_vstream_writevn s vec = Some (r, t) \<and>
    (if ws_file s then ws_data t = put_at (ws_data s) (dev_at s) a else ws_sent t = ws_sent s @ a) \<and>
    (case r of Some n \<Rightarrow> n = int (length (concat vec)) \<and> a = ws_held s @ concat vec \<and> ws_held t = []
     | None \<Rightarrow> \<exists>c. ws_held s @ concat vec = a @ c)"
proof -
  have v: "vec \<noteq> []" using assms(1) by auto
  show ?thesis
  proof (cases "ws_held s = []")
    case True
    from writevn_loop_total [OF assms(1,3), of 0, unfolded add_0 of_nat_0, OF assms(2)] obtain r t a where
      a: "writevn_loop s vec 0 = Some (r, t)" "ws_wbuf t = ws_wbuf s" "wrote s t a"
        "case r of Some n \<Rightarrow> n = int (length (concat vec)) \<and> a = concat vec | None \<Rightarrow> \<exists>c. concat vec = a @ c" by auto
    have "if ws_file s then ws_data t = put_at (ws_data s) (dev_at s) a else ws_sent t = ws_sent s @ a"
      using a(3) by (simp add: wrote_def split: if_splits)
    moreover have "acl_vstream_writevn s vec = Some (r, t)" using a(1) v True by (simp add: acl_vstream_writevn_def)
    moreover have "case r of Some n \<Rightarrow> n = int (length (concat vec)) \<and> a = ws_held s @ concat vec \<and> ws_held t = []
     | None \<Rightarrow> \<exists>c. ws_held s @ concat vec = a @ c"
      using a(4) ws_held_wbuf [OF a(2)] True by (simp split: option.splits)
    ultimately show ?thesis by blast
  next
    case False
    obtain q u where u: "acl_vstream_fflush s = (q, u)" by fastforce
    have "ws_fits s" using assms(3,4) by (simp add: ws_fits_def)
    note fl = fflush_sends [OF u this]
    show ?thesis
    proof (cases q)
      case None
      from fl None obtain a c where a: "wrote s u a" "ws_held s = a @ c" by (auto simp: sends_def)
      then have "if ws_file s then ws_data u = put_at (ws_data s) (dev_at s) a else ws_sent u = ws_sent s @ a"
        by (simp add: wrote_def split: if_splits)
      moreover have "acl_vstream_writevn s vec = Some (None, u)" using u None v False by (simp add: acl_vstream_writevn_def)
      moreover have "ws_held s @ concat vec = a @ (c @ concat vec)" using a(2) by simp
      ultimately show ?thesis by (intro exI [of _ None] exI [of _ u] exI [of _ a]) auto
    next
      case (Some m)
      have a: "wrote s u (ws_held s)" "ws_held u = []" using fl Some by (auto simp: sends_def)
      from writevn_loop_total [OF assms(1) wrote_ok [OF a(1)], of 0, unfolded add_0 of_nat_0, OF assms(2)] obtain r t b where
        b: "writevn_loop u vec 0 = Some (r, t)" "ws_wbuf t = ws_wbuf u" "wrote u t b"
          "case r of Some n \<Rightarrow> n = int (length (concat vec)) \<and> b = concat vec | None \<Rightarrow> \<exists>c. concat vec = b @ c" by auto
      have "wrote s t (ws_held s @ b)" using a(1) b(3) by (rule wrote_trans)
      then have "if ws_file s then ws_data t = put_at (ws_data s) (dev_at s) (ws_held s @ b) else ws_sent t = ws_sent s @ (ws_held s @ b)"
        by (simp add: wrote_def split: if_splits)
      moreover have "acl_vstream_writevn s vec = Some (r, t)"
        using u Some v False b(1) by (simp add: acl_vstream_writevn_def)
      moreover have "case r of Some n \<Rightarrow> n = int (length (concat vec)) \<and> ws_held s @ b = ws_held s @ concat vec \<and> ws_held t = []
        | None \<Rightarrow> \<exists>c. ws_held s @ concat vec = (ws_held s @ b) @ c"
        using b(4) ws_held_wbuf [OF b(2)] a(2) by (simp split: option.splits)
      ultimately show ?thesis by blast
    qed
  qed
qed

lemma fresh_stream_simps [simp]:
  "ws_file (fresh_stream f io) = f" "ws_open (fresh_stream f io)" "ws_io (fresh_stream f io) = io"
  "ws_sent (fresh_stream f io) = []" "ws_wbuf (fresh_stream f io) = None" "ws_held (fresh_stream f io) = []"
  "ws_ok (fresh_stream f io)"
  by (simp_all add: fresh_stream_def ws_held_def ws_ok_def)

theorem writevn_returns_witness:
  "\<exists>r t a. acl_vstream_writevn (fresh_stream False [Done 0, Done 2, Fail 4]) [[1], [], [2, 3]] = Some (r, t) \<and>
     ws_sent t = a \<and> (case r of Some n \<Rightarrow> n = 3 \<and> a = [1, 2, 3] \<and> ws_held t = [] | None \<Rightarrow> \<exists>c. [1, 2, 3] = a @ c)"
  using writevn_returns [of "[[1], [], [2, 3]]" "fresh_stream False [Done 0, Done 2, Fail 4]"]
  by (simp add: wbuf_size_def numeral_3_eq_3 cong: option.case_cong)

lemma writevn_loop_stuck:
  "writevn_loop s vec k = Some x \<Longrightarrow> writev_once s vec \<noteq> (Some 0, s)"
proof (induction rule: writevn_loop.raw_induct [rotated, consumes 1, case_names step])
  case (step loop s vec k x)
  then show ?case by (cases x) (auto split: prod.splits option.splits)
qed

text \<open>Items that are all empty are never written: the system takes nothing, and the loop does not end.\<close>

theorem writevn_of_nothing_hangs:
  assumes "concat vec = []" "vec \<noteq> []" "\<not> ws_file s" "ws_open s" "ws_io s = []" "ws_wbuf s = None"
  shows "acl_vstream_writevn s vec = None"
proof -
  have once: "writev_once s vec = (Some 0, s)"
    using assms by (simp add: writev_once_def writev_try.simps seek_before_def sys_write_def del: concat_eq_Nil_conv)
  then have "writevn_loop s vec 0 = None" using writevn_loop_stuck by (metis not_Some_eq)
  with assms(2,6) show ?thesis by (simp add: acl_vstream_writevn_def ws_held_def)
qed

theorem writevn_of_nothing_hangs_witness:
  "acl_vstream_writevn (fresh_stream False []) [[], []] = None"
  by (rule writevn_of_nothing_hangs) simp_all

section \<open>Printing\<close>

lemma vprint_with_text:
  assumes "list_print serror fmt args = Some out" "fmt \<noteq> []" "length out < 2 ^ 31"
  shows "vprint_with f junk serror s fmt args = (if out = [] then Exits else (case f s out of (r, t) \<Rightarrow> Printed r t))"
proof -
  have "vs_open (acl_vstring_alloc junk 4096)" by (simp add: acl_vstring_alloc_def vs_new_def vs_open_def)
  from vsprintf_ok [OF this assms(1)] obtain v where
    v: "acl_vstring_vsprintf serror (acl_vstring_alloc junk 4096) fmt args = Some v" "vs_ok v" "vs_text v = out" by blast
  then have p: "vs_pos v = length out" by (auto simp: vs_text_def vs_ok_def)
  then have n: "signed_take_bit 31 (int (vs_pos v)) = int (length out)" using assms(3) by (simp add: stb31)
  then show ?thesis using v(1,3) assms(2) by (simp add: vprint_with_def)
qed

text \<open>A formatted print that the list semantics of the formats describes writes exactly that text,
  through the write or the buffered write; but when the text is empty it ends the process.\<close>

theorem fprintf_writes_text:
  assumes "list_print serror fmt args = Some out" "fmt \<noteq> []" "length out < 2 ^ 31"
  shows "acl_vstream_vfprintf junk serror s fmt args =
      (if out = [] then Exits else (case acl_vstream_writen s out of (r, t) \<Rightarrow> Printed r t)) \<and>
    acl_vstream_buffed_vfprintf junk serror s fmt args =
      (if out = [] then Exits else (case acl_vstream_buffed_writen s out of (r, t) \<Rightarrow> Printed r t))"
  using vprint_with_text [OF assms] by (simp add: acl_vstream_vfprintf_def acl_vstream_buffed_vfprintf_def)

theorem fprintf_writes_text_witness:
  "acl_vstream_vfprintf (\<lambda>i. 0) [] s (lit ''%%'') [] = (case acl_vstream_writen s [37] of (r, t) \<Rightarrow> Printed r t)"
proof -
  have "list_print [] (lit ''%%'') [] = Some [37]" by (simp add: lit_def list_print.simps)
  from fprintf_writes_text [OF this, of "\<lambda>i. 0" s] show ?thesis by (simp add: lit_def)
qed


text \<open>So printing an empty text, here an empty string, ends the process.\<close>

theorem print_empty_exits:
  "acl_vstream_vfprintf junk serror s (lit ''%s'') [VStr (Some [])] = Exits \<and>
   acl_vstream_buffed_vfprintf junk serror s (lit ''%s'') [VStr (Some [])] = Exits"
proof -
  have p: "parse_spec [115] [VStr (Some [])] = Some ([37], 0, 0, 0, [115], [VStr (Some [])])"
    by (simp add: parse_spec_def take_char_def num_field_def take_long_def isdigit_def)
  have "list_print serror (lit ''%s'') [VStr (Some [])] = Some []"
    by (simp add: lit_def list_print.simps p strict_spec_def take_char_def num_field_def isdigit_def strict_prec_def list_conv_def str_of_arg_def until_zero_def)
  from vprint_with_text [OF this] show ?thesis
    by (simp add: acl_vstream_vfprintf_def acl_vstream_buffed_vfprintf_def lit_def)
qed

text \<open>A gathering write that times out marks the stream as broken, where a plain write marks it as
  timed out.\<close>

theorem writev_timeout_is_error:
  assumes "\<not> ws_file s" "ws_open s" "ws_io s = Fail ETIMEDOUT # es" "bs \<noteq> []"
  shows "write_once s bs = (None, s\<lparr>ws_io := es, ws_errnum := ETIMEDOUT, ws_timeout := True\<rparr>) \<and>
    writev_once s [bs] = (None, s\<lparr>ws_io := es, ws_errnum := ETIMEDOUT, ws_err := True\<rparr>)"
  using assms
  by (simp add: write_once_def write_try.simps writev_once_def writev_try.simps seek_before_def sys_write_def
      ETIMEDOUT_def EINTR_def EAGAIN_def)

theorem writev_timeout_is_error_witness:
  "ws_err (snd (writev_once (fresh_stream False [Fail ETIMEDOUT]) [[1]]))"
  using writev_timeout_is_error [of "fresh_stream False [Fail ETIMEDOUT]" "[]" "[1]"] by simp

end
