(* ===== verification/Cpp_String.thy ===== *)
theory Cpp_String
  imports Acl_Vprint Acl_Argv
begin

text \<open>
  \<^verbatim>\<open>acl::string\<close> (\<^verbatim>\<open>aclredis/src/stdlib/string.cpp\<close>), the string class of the client: a growing
  string of \<open>Acl_Vstring\<close> and a pointer \<open>scan_ptr_\<close> into its buffer, which \<open>scan_line\<close> and
  \<open>scan_buf\<close> move on and \<open>c_str\<close>, \<open>length\<close> and \<open>append\<close> start at. \<open>ScanFreed\<close> is that pointer after the buffer it
  points into was reallocated or freed (a buffer that is reallocated to the same size stays where
  it is).

  Operations are in the option monad, \<open>None\<close> being what it is in \<open>Acl_Vstring\<close>, or a read at a freed
  pointer. An argument that is another string, a C string or a pointer and a length is given by its
  bytes; where the code must also work on the string itself, there is a definition of its own for
  that. A method that returns \<open>*this\<close> gives the string afterwards. The line state of
  \<open>find_blank_line\<close>, the strings cached by \<open>split\<close> and mapped files, the codec members, \<open>parse_int\<close> and the file names are left out. The casts of
  lengths and offsets to \<open>int\<close> in \<open>compare\<close> and in the functions of \<open>Acl_Vstring\<close> are there; the others
  (\<open>operator[]\<close>, \<open>set_offset\<close>, \<open>space\<close>, \<open>find\<close>) are written for strings of fewer than 2^31 bytes.
\<close>

section \<open>The object\<close>

datatype scan_ptr = ScanNull | ScanAt nat | ScanFreed

record cpp_string =
  cs_vbf :: vstring
  cs_scan :: scan_ptr
  cs_bin :: bool

text \<open>The object with what its buffer has become, in place or in new memory.\<close>

definition new_buf :: "cpp_string \<Rightarrow> vstring \<Rightarrow> cpp_string" where
  "new_buf s v = s\<lparr>cs_vbf := v, cs_scan := (case cs_scan s of ScanNull \<Rightarrow> ScanNull | _ \<Rightarrow> ScanFreed)\<rparr>"

definition with_buf :: "cpp_string \<Rightarrow> vstring \<Rightarrow> cpp_string" where
  "with_buf s v = (if vs_size v = vs_size (cs_vbf s) then s\<lparr>cs_vbf := v\<rparr> else new_buf s v)"

definition on_buf :: "cpp_string \<Rightarrow> (vstring \<Rightarrow> vstring option) \<Rightarrow> cpp_string option" where
  "on_buf s f = map_option (with_buf s) (f (cs_vbf s))"

definition cs_text :: "cpp_string \<Rightarrow> byte list" where
  "cs_text s = vs_text (cs_vbf s)"

abbreviation cs_len :: "cpp_string \<Rightarrow> nat" where
  "cs_len s \<equiv> vs_pos (cs_vbf s)"

text \<open>The buffer read as a C string.\<close>

definition cs_cstr :: "cpp_string \<Rightarrow> cstr option" where
  "cs_cstr s = (if 0 \<in> set (vs_data (cs_vbf s)) then Some (cstr_of (vs_data (cs_vbf s))) else None)"

section \<open>Constructors\<close>

definition cs_init :: "(nat \<Rightarrow> byte) \<Rightarrow> nat \<Rightarrow> cpp_string" where
  "cs_init junk len =
     \<lparr>cs_vbf = acl_vstring_alloc junk (if len < 1 then 1 else len), cs_scan = ScanNull, cs_bin = False\<rparr>"

definition cs_sized :: "(nat \<Rightarrow> byte) \<Rightarrow> nat \<Rightarrow> cpp_string option" where
  "cs_sized junk len = on_buf (cs_init junk len) vs_terminate"

definition cs_new :: "(nat \<Rightarrow> byte) \<Rightarrow> cpp_string option" where
  "cs_new junk = cs_sized junk 64"

definition cs_of_bytes :: "(nat \<Rightarrow> byte) \<Rightarrow> byte list \<Rightarrow> cpp_string option" where
  "cs_of_bytes junk bs = do {
     s \<leftarrow> (if bs = [] then Some (cs_init junk 1)
           else on_buf (cs_init junk (length bs + 1)) (\<lambda>v. acl_vstring_memcpy v (Ext bs) (length bs)));
     on_buf s vs_terminate }"

text \<open>From a C string or NULL, and from another string: its text, whatever its scan pointer.\<close>

definition cs_of_cstr :: "(nat \<Rightarrow> byte) \<Rightarrow> cstr option \<Rightarrow> cpp_string option" where
  "cs_of_cstr junk p = (case p of
     None \<Rightarrow> cs_sized junk 128
   | Some t \<Rightarrow> do {
       s \<leftarrow> on_buf (cs_init junk (length t + 1)) (\<lambda>v. acl_vstring_memcpy v (Ext t) (length t));
       on_buf s vs_terminate })"

section \<open>Access\<close>

definition cs_clear :: "cpp_string \<Rightarrow> cpp_string option" where
  "cs_clear s = do { s \<leftarrow> on_buf (s\<lparr>cs_vbf := vs_reset (cs_vbf s)\<rparr>) vs_terminate; Some (s\<lparr>cs_scan := ScanNull\<rparr>) }"

definition cs_empty :: "cpp_string \<Rightarrow> bool" where
  "cs_empty s = (\<not> 0 < cs_len s)"

text \<open>Where \<open>c_str()\<close> points, and the \<open>length()\<close> from there, a difference of unsigned numbers.\<close>

definition c_str_at :: "cpp_string \<Rightarrow> nat option" where
  "c_str_at s = (case cs_scan s of ScanNull \<Rightarrow> Some 0 | ScanAt o' \<Rightarrow> Some o' | ScanFreed \<Rightarrow> None)"

definition length_of :: "cpp_string \<Rightarrow> u64 option" where
  "length_of s = map_option (\<lambda>p. of_nat (cs_len s) - of_nat p) (c_str_at s)"

definition c_str :: "cpp_string \<Rightarrow> cstr option" where
  "c_str s = (case c_str_at s of
     None \<Rightarrow> None
   | Some p \<Rightarrow> (let d = drop p (vs_data (cs_vbf s)) in if 0 \<in> set d then Some (cstr_of d) else None))"

text \<open>\<open>operator[]\<close> on a string that may be changed: the string after it; the reference is to byte \<open>n\<close>
  of its buffer. \<open>cs_store\<close> is an assignment through it.\<close>

definition subscript :: "cpp_string \<Rightarrow> nat \<Rightarrow> cpp_string option" where
  "subscript s n =
     (let v = cs_vbf s in
      if n \<ge> vs_size v
      then do {
        (r, w) \<leftarrow> space_by vstring_extend v (int (n + 1));
        w \<leftarrow> (if vs_size w > vs_size v then put_bytes w (vs_pos w) (replicate (vs_size w - vs_size v) 0) else Some w);
        Some (with_buf s (vs_at_offset w n)) }
      else if n \<ge> vs_pos v
      then do {
        (r, w) \<leftarrow> vs_addch (vs_at_offset v n) 0;
        on_buf (with_buf s w) vs_terminate }
      else Some s)"

definition cs_store :: "cpp_string \<Rightarrow> nat \<Rightarrow> byte \<Rightarrow> cpp_string option" where
  "cs_store s n c = do {
     s \<leftarrow> subscript s n;
     if n < vs_size (cs_vbf s) then Some (s\<lparr>cs_vbf := (cs_vbf s)\<lparr>vs_data := (vs_data (cs_vbf s))[n := c]\<rparr>\<rparr>) else None }"

definition set_offset :: "cpp_string \<Rightarrow> nat \<Rightarrow> cpp_string option" where
  "set_offset s n = on_buf s (\<lambda>v. do {
     (r, v) \<leftarrow> space_by vstring_extend (vs_reset v) (int n);
     vs_terminate (vs_at_offset v n) })"

definition cs_space :: "cpp_string \<Rightarrow> nat \<Rightarrow> cpp_string option" where
  "cs_space s n = on_buf s (\<lambda>v. map_option snd (space_by vstring_extend v (int n)))"

section \<open>Assigning and appending\<close>

definition copy_cstr :: "cpp_string \<Rightarrow> cstr option \<Rightarrow> cpp_string option" where
  "copy_cstr s p = (case p of None \<Rightarrow> Some s | Some t \<Rightarrow> on_buf s (\<lambda>v. acl_vstring_strcpy v t))"

definition copy_bytes :: "cpp_string \<Rightarrow> byte list \<Rightarrow> cpp_string option" where
  "copy_bytes s bs = (if bs = [] then Some s
     else do { s \<leftarrow> on_buf s (\<lambda>v. acl_vstring_memcpy v (Ext bs) (length bs)); on_buf s vs_terminate })"

text \<open>From another string, and from the string itself.\<close>

definition assign_string :: "cpp_string \<Rightarrow> cpp_string \<Rightarrow> cpp_string option" where
  "assign_string s t = do {
     s \<leftarrow> on_buf s (\<lambda>v. acl_vstring_memcpy v (Ext (cs_text t)) (cs_len t)); on_buf s vs_terminate }"

definition assign_self :: "cpp_string \<Rightarrow> cpp_string option" where
  "assign_self s = do {
     s \<leftarrow> on_buf s (\<lambda>v. acl_vstring_memcpy v (Own 0) (cs_len s)); on_buf s vs_terminate }"

definition append_cstr :: "cpp_string \<Rightarrow> cstr option \<Rightarrow> cpp_string option" where
  "append_cstr s p = (case p of None \<Rightarrow> Some s | Some t \<Rightarrow> on_buf s (\<lambda>v. acl_vstring_strcat v t))"

definition append_bytes :: "cpp_string \<Rightarrow> byte list \<Rightarrow> cpp_string option" where
  "append_bytes s bs = (if bs = [] then Some s
     else do { s \<leftarrow> on_buf s (\<lambda>v. acl_vstring_memcat v (Ext bs) (length bs)); on_buf s vs_terminate })"

definition add_string :: "cpp_string \<Rightarrow> cpp_string \<Rightarrow> cpp_string option" where
  "add_string s t = do {
     s \<leftarrow> on_buf s (\<lambda>v. acl_vstring_memcat v (Ext (cs_text t)) (cs_len t)); on_buf s vs_terminate }"

definition add_self :: "cpp_string \<Rightarrow> cpp_string option" where
  "add_self s = do {
     s \<leftarrow> on_buf s (\<lambda>v. acl_vstring_memcat v (Own 0) (cs_len s)); on_buf s vs_terminate }"

text \<open>\<open>append(const string&)\<close> takes what is left of the other string behind its scan pointer; a
  length that has wrapped around reads far outside of it.\<close>

definition append_string :: "cpp_string \<Rightarrow> cpp_string \<Rightarrow> cpp_string option" where
  "append_string s t = do {
     p \<leftarrow> c_str_at t; n \<leftarrow> length_of t;
     if unat n > vs_size (cs_vbf t) - p then None
     else append_bytes s (take (unat n) (drop p (vs_data (cs_vbf t)))) }"

definition push_back :: "cpp_string \<Rightarrow> byte \<Rightarrow> cpp_string option" where
  "push_back s c = append_bytes s [c]"

definition memmove_of :: "cpp_string \<Rightarrow> vs_src \<Rightarrow> nat \<Rightarrow> cpp_string option" where
  "memmove_of s src len = (if len = 0 then Some s
     else case src of
       Own off \<Rightarrow> on_buf s (\<lambda>v. acl_vstring_memmove v src len)
     | Ext bs \<Rightarrow> map_option (new_buf s) (acl_vstring_memmove (cs_vbf s) src len))"

definition cs_prepend :: "cpp_string \<Rightarrow> byte list \<Rightarrow> cpp_string option" where
  "cs_prepend s bs = (if bs = [] then Some s else on_buf s (\<lambda>v. acl_vstring_prepend v bs))"

definition insert_bytes :: "cpp_string \<Rightarrow> nat \<Rightarrow> byte list \<Rightarrow> cpp_string option" where
  "insert_bytes s start bs = (if bs = [] then Some s else on_buf s (\<lambda>v. acl_vstring_insert v start bs))"

definition truncate_at :: "cpp_string \<Rightarrow> nat \<Rightarrow> cpp_string option" where
  "truncate_at s n = do { s \<leftarrow> on_buf s (\<lambda>v. acl_vstring_truncate v n); on_buf s vs_terminate }"

section \<open>Numbers and formats\<close>

definition cs_format :: "cstr \<Rightarrow> cpp_string \<Rightarrow> cstr \<Rightarrow> va list \<Rightarrow> cpp_string option" where
  "cs_format serror s fmt args = (if fmt = [] then Some s else on_buf s (\<lambda>v. acl_vstring_vsprintf serror v fmt args))"

definition cs_format_append :: "cstr \<Rightarrow> cpp_string \<Rightarrow> cstr \<Rightarrow> va list \<Rightarrow> cpp_string option" where
  "cs_format_append serror s fmt args =
     (if fmt = [] then Some s else on_buf s (\<lambda>v. acl_vstring_vsprintf_append serror v fmt args))"

text \<open>The bytes of a number in memory, least significant first.\<close>

fun le_bytes :: "nat \<Rightarrow> nat \<Rightarrow> byte list" where
  "le_bytes 0 n = []"
| "le_bytes (Suc k) n = of_nat (n mod 256) # le_bytes k (n div 256)"

definition assign_num :: "cstr \<Rightarrow> cpp_string \<Rightarrow> nat \<Rightarrow> nat \<Rightarrow> cstr \<Rightarrow> va \<Rightarrow> cpp_string option" where
  "assign_num e s width bits fmt a =
     (if cs_bin s then copy_bytes s (le_bytes width bits) else cs_format e s fmt [a])"

definition add_num :: "cstr \<Rightarrow> cpp_string \<Rightarrow> nat \<Rightarrow> nat \<Rightarrow> cstr \<Rightarrow> va \<Rightarrow> cpp_string option" where
  "add_num e s width bits fmt a =
     (if cs_bin s then append_bytes s (le_bytes width bits) else cs_format_append e s fmt [a])"

definition assign_int64 :: "cstr \<Rightarrow> cpp_string \<Rightarrow> u64 \<Rightarrow> cpp_string option" where
  "assign_int64 e s n = assign_num e s 8 (unat n) (lit ''%lld'') (VLong n)"

definition assign_uint64 :: "cstr \<Rightarrow> cpp_string \<Rightarrow> u64 \<Rightarrow> cpp_string option" where
  "assign_uint64 e s n = assign_num e s 8 (unat n) (lit ''%llu'') (VLong n)"

definition assign_long :: "cstr \<Rightarrow> cpp_string \<Rightarrow> u64 \<Rightarrow> cpp_string option" where
  "assign_long e s n = assign_num e s 8 (unat n) (lit ''%ld'') (VLong n)"

definition assign_ulong :: "cstr \<Rightarrow> cpp_string \<Rightarrow> u64 \<Rightarrow> cpp_string option" where
  "assign_ulong e s n = assign_num e s 8 (unat n) (lit ''%lu'') (VLong n)"

definition assign_int :: "cstr \<Rightarrow> cpp_string \<Rightarrow> u32 \<Rightarrow> cpp_string option" where
  "assign_int e s n = assign_num e s 4 (unat n) (lit ''%d'') (VInt n)"

definition assign_uint :: "cstr \<Rightarrow> cpp_string \<Rightarrow> u32 \<Rightarrow> cpp_string option" where
  "assign_uint e s n = assign_num e s 4 (unat n) (lit ''%u'') (VInt n)"

definition assign_short :: "cstr \<Rightarrow> cpp_string \<Rightarrow> 16 word \<Rightarrow> cpp_string option" where
  "assign_short e s n = assign_num e s 2 (unat n) (lit ''%d'') (VInt (scast n))"

definition assign_ushort :: "cstr \<Rightarrow> cpp_string \<Rightarrow> 16 word \<Rightarrow> cpp_string option" where
  "assign_ushort e s n = assign_num e s 2 (unat n) (lit ''%d'') (VInt (ucast n))"

definition assign_char :: "cstr \<Rightarrow> cpp_string \<Rightarrow> byte \<Rightarrow> cpp_string option" where
  "assign_char e s n = assign_num e s 1 (unat n) (lit ''%c'') (VInt (scast n))"

definition assign_uchar :: "cstr \<Rightarrow> cpp_string \<Rightarrow> byte \<Rightarrow> cpp_string option" where
  "assign_uchar e s n = assign_num e s 1 (unat n) (lit ''%c'') (VInt (ucast n))"

definition add_int64 :: "cstr \<Rightarrow> cpp_string \<Rightarrow> u64 \<Rightarrow> cpp_string option" where
  "add_int64 e s n = add_num e s 8 (unat n) (lit ''%lld'') (VLong n)"

definition add_uint64 :: "cstr \<Rightarrow> cpp_string \<Rightarrow> u64 \<Rightarrow> cpp_string option" where
  "add_uint64 e s n = add_num e s 8 (unat n) (lit ''%llu'') (VLong n)"

definition add_long :: "cstr \<Rightarrow> cpp_string \<Rightarrow> u64 \<Rightarrow> cpp_string option" where
  "add_long e s n = add_num e s 8 (unat n) (lit ''%ld'') (VLong n)"

definition add_ulong :: "cstr \<Rightarrow> cpp_string \<Rightarrow> u64 \<Rightarrow> cpp_string option" where
  "add_ulong e s n = add_num e s 8 (unat n) (lit ''%lu'') (VLong n)"

definition add_int :: "cstr \<Rightarrow> cpp_string \<Rightarrow> u32 \<Rightarrow> cpp_string option" where
  "add_int e s n = add_num e s 4 (unat n) (lit ''%d'') (VInt n)"

definition add_uint :: "cstr \<Rightarrow> cpp_string \<Rightarrow> u32 \<Rightarrow> cpp_string option" where
  "add_uint e s n = add_num e s 4 (unat n) (lit ''%u'') (VInt n)"

definition add_short :: "cstr \<Rightarrow> cpp_string \<Rightarrow> 16 word \<Rightarrow> cpp_string option" where
  "add_short e s n = add_num e s 2 (unat n) (lit ''%d'') (VInt (scast n))"

definition add_ushort :: "cstr \<Rightarrow> cpp_string \<Rightarrow> 16 word \<Rightarrow> cpp_string option" where
  "add_ushort e s n = add_num e s 2 (unat n) (lit ''%u'') (VInt (ucast n))"

definition add_uchar :: "cstr \<Rightarrow> cpp_string \<Rightarrow> byte \<Rightarrow> cpp_string option" where
  "add_uchar e s n = add_num e s 1 (unat n) (lit ''%c'') (VInt (ucast n))"

definition add_char :: "cstr \<Rightarrow> cpp_string \<Rightarrow> byte \<Rightarrow> cpp_string option" where
  "add_char e s ch = add_uchar e s ch"

text \<open>\<open>operator<<\<close>, one constructor per overload: all of them are \<open>+=\<close>; a NULL pointer is no change.\<close>

datatype shl_arg =
    ShlString cpp_string | ShlStringPtr "cpp_string option" | ShlStd "byte list" | ShlStdPtr "byte list option"
  | ShlCstr "cstr option" | ShlInt64 u64 | ShlUint64 u64 | ShlInt u32 | ShlUint u32 | ShlLong u64 | ShlUlong u64
  | ShlShort "16 word" | ShlUshort "16 word" | ShlChar byte | ShlUchar byte

definition add_std :: "cpp_string \<Rightarrow> byte list \<Rightarrow> cpp_string option" where
  "add_std s t = do {
     s \<leftarrow> on_buf s (\<lambda>v. acl_vstring_memcat v (Ext t) (length t)); on_buf s vs_terminate }"

definition shl :: "cstr \<Rightarrow> cpp_string \<Rightarrow> shl_arg \<Rightarrow> cpp_string option" where
  "shl e s a = (case a of
     ShlString t \<Rightarrow> add_string s t
   | ShlStringPtr p \<Rightarrow> (case p of None \<Rightarrow> Some s | Some t \<Rightarrow> add_string s t)
   | ShlStd t \<Rightarrow> add_std s t
   | ShlStdPtr p \<Rightarrow> (case p of None \<Rightarrow> Some s | Some t \<Rightarrow> add_std s t)
   | ShlCstr p \<Rightarrow> append_cstr s p
   | ShlInt64 n \<Rightarrow> add_int64 e s n
   | ShlUint64 n \<Rightarrow> add_uint64 e s n
   | ShlInt n \<Rightarrow> add_int e s n
   | ShlUint n \<Rightarrow> add_uint e s n
   | ShlLong n \<Rightarrow> add_long e s n
   | ShlUlong n \<Rightarrow> add_ulong e s n
   | ShlShort n \<Rightarrow> add_short e s n
   | ShlUshort n \<Rightarrow> add_ushort e s n
   | ShlChar n \<Rightarrow> add_char e s n
   | ShlUchar n \<Rightarrow> add_uchar e s n)"

section \<open>Scanning\<close>

text \<open>\<open>buf_end\<close>: whether there is something left to scan.\<close>

definition buf_end :: "cpp_string \<Rightarrow> (bool \<times> cpp_string) option" where
  "buf_end s =
     (let s = (if cs_scan s = ScanNull then s\<lparr>cs_scan := ScanAt 0\<rparr> else s) in
      case cs_scan s of
        ScanAt p \<Rightarrow>
          if p \<ge> cs_len s
          then map_option (\<lambda>s. (False, s)) (if \<not> cs_empty s then cs_clear s else Some s)
          else Some (True, s)
      | _ \<Rightarrow> None)"

text \<open>Move what is left behind \<open>next\<close> to the front of the buffer.\<close>

definition move_down_to :: "cpp_string \<Rightarrow> nat \<Rightarrow> nat \<Rightarrow> cpp_string option" where
  "move_down_to s next len = do {
     s \<leftarrow> on_buf s (\<lambda>v. acl_vstring_memmove v (Own next) len);
     s \<leftarrow> on_buf s vs_terminate;
     Some (s\<lparr>cs_scan := ScanAt 0\<rparr>) }"

text \<open>The result, the bytes appended to \<open>out\<close> (whose number is \<open>*n\<close>), and the string.\<close>

definition scan_line :: "cpp_string \<Rightarrow> bool \<Rightarrow> bool \<Rightarrow> (bool \<times> byte list \<times> cpp_string) option" where
  "scan_line s nonl mv = do {
     (left, s) \<leftarrow> buf_end s;
     if \<not> left then Some (False, [], s)
     else case cs_scan s of
       ScanAt p \<Rightarrow>
         (let t = drop p (cs_text s) in
          case strchr_idx t 10 of
            None \<Rightarrow> Some (False, [], s)
          | Some i \<Rightarrow> do {
              let next = p + i + 1;
              let line = (if nonl then (let l = take i t in if l \<noteq> [] \<and> last l = 13 then butlast l else l)
                else take (i + 1) t);
              s \<leftarrow> (if mv then if cs_len s > next then move_down_to s next (cs_len s - next) else cs_clear s
                else if next \<ge> cs_len s then cs_clear s else Some (s\<lparr>cs_scan := ScanAt next\<rparr>));
              Some (True, line, s) })
     | _ \<Rightarrow> None }"

definition scan_buf :: "cpp_string \<Rightarrow> nat \<Rightarrow> bool \<Rightarrow> (byte list \<times> cpp_string) option" where
  "scan_buf s n mv =
     (if n = 0 then Some ([], s)
      else do {
        (left, s) \<leftarrow> buf_end s;
        if \<not> left then Some ([], s)
        else case cs_scan s of
          ScanAt p \<Rightarrow> do {
            let len = min (cs_len s - p) n;
            let bs = take len (drop p (cs_text s));
            s \<leftarrow> (if mv then move_down_to s p len else Some (s\<lparr>cs_scan := ScanAt (p + len)\<rparr>));
            Some (bs, s) }
        | _ \<Rightarrow> None })"

definition scan_move :: "cpp_string \<Rightarrow> (nat \<times> cpp_string) option" where
  "scan_move s = (case cs_scan s of
     ScanNull \<Rightarrow> Some (0, s)
   | ScanFreed \<Rightarrow> None
   | ScanAt p \<Rightarrow>
       if p \<ge> cs_len s then map_option (\<lambda>s. (0, s)) (cs_clear s)
       else map_option (\<lambda>s'. (cs_len s - p, s')) (move_down_to s p (cs_len s - p)))"

text \<open>\<open>operator>>\<close>. Into another string: what \<open>length()\<close> is, the other string with the whole text, and this
  string cleared. Into a \<open>std::string\<close>: the C string at the scan pointer. Into a number of \<open>width\<close> bytes: how many
  bytes were read, and the number's bytes, of which the rest stay as they were.\<close>

definition shr_string :: "cpp_string \<Rightarrow> cpp_string \<Rightarrow> (u64 \<times> cpp_string \<times> cpp_string) option" where
  "shr_string s out = do {
     n \<leftarrow> length_of s; out \<leftarrow> assign_string out s; s \<leftarrow> cs_clear s; Some (n, out, s) }"

definition shr_std :: "cpp_string \<Rightarrow> (u64 \<times> byte list \<times> cpp_string) option" where
  "shr_std s = do { n \<leftarrow> length_of s; t \<leftarrow> c_str s; s \<leftarrow> cs_clear s; Some (n, t, s) }"

definition shr_num :: "cpp_string \<Rightarrow> byte list \<Rightarrow> (nat \<times> byte list \<times> cpp_string) option" where
  "shr_num s old = do {
     (bs, s) \<leftarrow> scan_buf s (length old) False; Some (length bs, bs @ drop (length bs) old, s) }"

section \<open>Comparing\<close>

text \<open>\<open>memcmp\<close> of two pieces of the same length, and \<open>strncmp\<close>; only the signs count.\<close>

fun c_memcmp :: "byte list \<Rightarrow> byte list \<Rightarrow> int" where
  "c_memcmp (x # xs) (y # ys) = (if x = y then c_memcmp xs ys else uint x - uint y)"
| "c_memcmp _ _ = 0"

fun c_strncmp :: "cstr \<Rightarrow> cstr \<Rightarrow> nat \<Rightarrow> int" where
  "c_strncmp s t 0 = 0"
| "c_strncmp (x # xs) (y # ys) (Suc n) = (if x = y then c_strncmp xs ys n else uint x - uint y)"
| "c_strncmp [] [] (Suc n) = 0"
| "c_strncmp (x # xs) [] (Suc n) = uint x"
| "c_strncmp [] (y # ys) (Suc n) = - uint y"

definition compare_bytes :: "cpp_string \<Rightarrow> byte list \<Rightarrow> int" where
  "compare_bytes s bs =
     (let n = min (cs_len s) (length bs); ret = c_memcmp (take n (cs_text s)) (take n bs)
      in if ret \<noteq> 0 then ret else signed_take_bit 31 (int (cs_len s) - int (length bs)))"

definition compare_string :: "cpp_string \<Rightarrow> cpp_string \<Rightarrow> int" where
  "compare_string s t =
     (let n = min (cs_len s) (cs_len t); ret = c_memcmp (take n (cs_text s)) (take n (cs_text t))
      in if ret \<noteq> 0 then ret else signed_take_bit 31 (int (cs_len s) - int (cs_len t)))"

definition compare_cstr :: "cpp_string \<Rightarrow> cstr option \<Rightarrow> bool \<Rightarrow> int option" where
  "compare_cstr s p case_sensitive = (case p of
     None \<Rightarrow> Some 1
   | Some t \<Rightarrow> if case_sensitive then Some (compare_bytes s t) else map_option (\<lambda>c. acl_strcasecmp c t) (cs_cstr s))"

definition ncompare :: "cpp_string \<Rightarrow> cstr option \<Rightarrow> nat \<Rightarrow> bool \<Rightarrow> int option" where
  "ncompare s p len case_sensitive = (case p of
     None \<Rightarrow> Some 1
   | Some t \<Rightarrow> map_option (\<lambda>c. if case_sensitive then c_strncmp c t len else acl_strncasecmp c t len) (cs_cstr s))"

definition rncompare :: "cpp_string \<Rightarrow> cstr option \<Rightarrow> nat \<Rightarrow> bool \<Rightarrow> int option" where
  "rncompare s p len case_sensitive = (case p of
     None \<Rightarrow> Some 1
   | Some t \<Rightarrow> map_option (\<lambda>c. if case_sensitive then acl_strrncmp c t len else acl_strrncasecmp c t len) (cs_cstr s))"

definition equals_string :: "cpp_string \<Rightarrow> cpp_string \<Rightarrow> bool" where
  "equals_string s t \<longleftrightarrow> compare_string s t = 0"

definition less_string :: "cpp_string \<Rightarrow> cpp_string \<Rightarrow> bool" where
  "less_string s t =
     (let n = (if cs_len s > cs_len t then cs_len t else cs_len s);
          ret = c_memcmp (take n (cs_text s)) (take n (cs_text t))
      in if ret < 0 then True else if ret > 0 then False else cs_len s < cs_len t)"

definition greater_string :: "cpp_string \<Rightarrow> cpp_string \<Rightarrow> bool" where
  "greater_string s t =
     (let n = (if cs_len s > cs_len t then cs_len t else cs_len s);
          ret = c_memcmp (take n (cs_text s)) (take n (cs_text t))
      in if ret > 0 then True else if ret < 0 then False else cs_len s > cs_len t)"

definition equal_string :: "cpp_string \<Rightarrow> cpp_string \<Rightarrow> bool \<Rightarrow> bool option" where
  "equal_string s t case_sensitive =
     (if cs_len s \<noteq> cs_len t then Some False
      else if case_sensitive then Some (c_memcmp (cs_text s) (cs_text t) = 0)
      else do { a \<leftarrow> cs_cstr s; b \<leftarrow> cs_cstr t; Some (acl_strcasecmp a b = 0) })"

definition begin_with :: "cpp_string \<Rightarrow> cstr \<Rightarrow> bool \<Rightarrow> bool option" where
  "begin_with s t case_sensitive = map_option (\<lambda>r. r = 0) (ncompare s (Some t) (length t) case_sensitive)"

definition begin_with_bytes :: "cpp_string \<Rightarrow> byte list option \<Rightarrow> bool" where
  "begin_with_bytes s p = (case p of
     None \<Rightarrow> False
   | Some bs \<Rightarrow>
       if bs = [] then False
       else if length bs > cs_len s then False
       else c_memcmp (take (length bs) (cs_text s)) bs = 0)"

definition end_with :: "cpp_string \<Rightarrow> cstr \<Rightarrow> bool \<Rightarrow> bool option" where
  "end_with s t case_sensitive = map_option (\<lambda>r. r = 0) (rncompare s (Some t) (length t) case_sensitive)"

text \<open>\<open>memcpy\<close> in a method that is \<open>const\<close>: its result, the address it wrote to, is not 0.\<close>

definition end_with_bytes :: "cpp_string \<Rightarrow> byte list option \<Rightarrow> bool \<times> cpp_string" where
  "end_with_bytes s p = (case p of
     None \<Rightarrow> (False, s)
   | Some bs \<Rightarrow>
       if bs = [] then (False, s)
       else if length bs > cs_len s then (False, s)
       else (let skip = cs_len s - length bs; v = cs_vbf s in
         (False, s\<lparr>cs_vbf := v\<lparr>vs_data := take skip (vs_data v) @ bs @ drop (skip + length bs) (vs_data v)\<rparr>\<rparr>)))"

section \<open>Searching and cutting\<close>

definition find_char :: "cpp_string \<Rightarrow> byte \<Rightarrow> int" where
  "find_char s c = (case acl_vstring_memchr (cs_vbf s) c of None \<Rightarrow> -1 | Some i \<Rightarrow> int i)"

definition find_str :: "cpp_string \<Rightarrow> cstr option \<Rightarrow> bool \<Rightarrow> nat option" where
  "find_str s needle case_sensitive =
     (if needle = None \<or> needle = Some [] then None
      else if case_sensitive then acl_vstring_strstr (cs_vbf s) needle
      else acl_vstring_strcasestr (cs_vbf s) needle)"

definition rfind_str :: "cpp_string \<Rightarrow> cstr option \<Rightarrow> bool \<Rightarrow> nat option" where
  "rfind_str s needle case_sensitive =
     (if needle = None \<or> needle = Some [] then None
      else if case_sensitive then acl_vstring_rstrstr (cs_vbf s) needle
      else acl_vstring_rstrcasestr (cs_vbf s) needle)"

definition left :: "(nat \<Rightarrow> byte) \<Rightarrow> cpp_string \<Rightarrow> nat \<Rightarrow> cpp_string option" where
  "left junk s npos =
     (if npos \<ge> cs_len s then cs_of_bytes junk (cs_text s) else cs_of_bytes junk (take npos (cs_text s)))"

text \<open>\<open>npos\<close> is a \<open>size_t\<close>, and \<open>npos++\<close> wraps around.\<close>

definition right :: "(nat \<Rightarrow> byte) \<Rightarrow> cpp_string \<Rightarrow> u64 \<Rightarrow> cpp_string option" where
  "right junk s npos =
     (let npos = npos + 1 in
      if unat npos \<ge> cs_len s then cs_sized junk 1
      else cs_of_bytes junk (take (cs_len s - unat npos) (drop (unat npos) (cs_text s))))"

text \<open>The result of \<open>substr\<close>, and what it appends to \<open>out\<close>.\<close>

definition substr :: "cpp_string \<Rightarrow> nat \<Rightarrow> nat \<Rightarrow> nat \<times> byte list" where
  "substr s pos len =
     (let n = cs_len s in
      if pos \<ge> n then (0, [])
      else let n = n - pos; len = (if len = 0 \<or> len > n then n else len)
        in (n, take len (drop pos (cs_text s))))"

text \<open>\<open>split\<close> and \<open>split2\<close>: the items as the loop over the vector finds them.\<close>

definition split_items :: "(nat \<Rightarrow> byte) \<Rightarrow> cpp_string \<Rightarrow> cstr option \<Rightarrow> bool \<Rightarrow> cstr list option" where
  "split_items junk s sep quoted =
     (if sep = None \<or> sep = Some [] then Some []
      else do {
        text \<leftarrow> cs_cstr s;
        argv \<leftarrow> (if quoted then acl_argv_quote_split junk text (the sep) else Some (acl_argv_split text (the sep)));
        map_option (map cell_str) (acl_foreach (Suc (av_argc argv)) argv_iter_head argv_iter_next argv) })"

text \<open>\<open>split_nameval\<close>: name and value, and the string, in which \<open>acl_split_nameval\<close> has put zeros.\<close>

definition split_nameval :: "cpp_string \<Rightarrow> ((cstr \<times> cstr) \<times> cpp_string) option" where
  "split_nameval s = do {
     text \<leftarrow> cs_cstr s;
     case acl_split_nameval text of
       Inl e \<Rightarrow> Some (([], []), s)
     | Inr (name, value, buf) \<Rightarrow>
         (let v = cs_vbf s in
          Some ((name, value), s\<lparr>cs_vbf := v\<lparr>vs_data := buf @ drop (length buf) (vs_data v)\<rparr>\<rparr>)) }"

section \<open>Changing in place\<close>

definition replace_char :: "cpp_string \<Rightarrow> byte \<Rightarrow> byte \<Rightarrow> cpp_string" where
  "replace_char s old new =
     (let v = cs_vbf s in s\<lparr>cs_vbf := v\<lparr>vs_data :=
        map (\<lambda>c. if c = old then new else c) (take (cs_len s) (vs_data v)) @ drop (cs_len s) (vs_data v)\<rparr>\<rparr>)"

definition on_cstr :: "(cstr \<Rightarrow> cstr) \<Rightarrow> cpp_string \<Rightarrow> cpp_string option" where
  "on_cstr f s = map_option (\<lambda>t. s\<lparr>cs_vbf := (cs_vbf s)\<lparr>vs_data := f t @ drop (length t) (vs_data (cs_vbf s))\<rparr>\<rparr>)
     (cs_cstr s)"

definition lower :: "cpp_string \<Rightarrow> cpp_string option" where
  "lower = on_cstr acl_lowercase"

definition upper :: "cpp_string \<Rightarrow> cpp_string option" where
  "upper = on_cstr acl_uppercase"

text \<open>\<open>strip\<close>. With \<open>each\<close> the tokens between the bytes of the needle are joined in a new buffer.\<close>

fun strcat_all :: "vstring \<Rightarrow> cstr list \<Rightarrow> vstring option" where
  "strcat_all v [] = Some v"
| "strcat_all v (t # ts) = do { v \<leftarrow> acl_vstring_strcat v t; strcat_all v ts }"

definition strip_each :: "(nat \<Rightarrow> byte) \<Rightarrow> cpp_string \<Rightarrow> cstr \<Rightarrow> cpp_string option" where
  "strip_each junk s needle = do {
     text \<leftarrow> cs_cstr s;
     let ts = strtok_tokens text (set needle);
     if ts = [] then on_buf (s\<lparr>cs_vbf := vs_reset (cs_vbf s)\<rparr>) vs_terminate
     else map_option (new_buf s) (strcat_all (acl_vstring_alloc junk (cs_len s + 1)) ts) }"

lemma strstr_idx_room: "strstr_idx s n = Some i \<Longrightarrow> i + length n \<le> length s"
  using strstr_idx_Some [of s n i] by (auto simp: take_eq_Nil dest: arg_cong [where f = length])

lemma strstr_idx_shorter: "strstr_idx s n = Some i \<Longrightarrow> n \<noteq> [] \<Longrightarrow> length s - (i + length n) < length s"
  using strstr_idx_room [of s n i] by (cases n) auto

text \<open>Without it, \<open>pv\<close> is the new buffer once there is one, and \<open>src\<close> what is left of the text.\<close>

function strip_str :: "(nat \<Rightarrow> byte) \<Rightarrow> nat \<Rightarrow> cstr \<Rightarrow> vstring option \<Rightarrow> cstr \<Rightarrow> vstring option option" where
  "strip_str junk len needle pv src =
     (if needle = [] then Some pv
      else case strstr_idx src needle of
        None \<Rightarrow> (case pv of None \<Rightarrow> Some None | Some v \<Rightarrow> map_option Some (acl_vstring_strcat v src))
      | Some n \<Rightarrow> do {
          let v = (case pv of None \<Rightarrow> acl_vstring_alloc junk len | Some v \<Rightarrow> v);
          v \<leftarrow> (if n > 0 then acl_vstring_memcat v (Ext src) n else Some v);
          v \<leftarrow> vs_terminate v;
          strip_str junk len needle (Some v) (drop (n + length needle) src) })"
  by pat_completeness auto

termination
  by (relation "measure (\<lambda>(_, _, _, _, src). length src)") (auto dest: strstr_idx_shorter)

declare strip_str.simps [simp del]

definition strip :: "(nat \<Rightarrow> byte) \<Rightarrow> cpp_string \<Rightarrow> cstr option \<Rightarrow> bool \<Rightarrow> cpp_string option" where
  "strip junk s needle each =
     (case needle of
        None \<Rightarrow> Some s
      | Some nd \<Rightarrow>
          if nd = [] then Some s
          else if each then strip_each junk s nd
          else do {
            text \<leftarrow> cs_cstr s;
            pv \<leftarrow> strip_str junk (cs_len s) nd None text;
            Some (case pv of None \<Rightarrow> s | Some v \<Rightarrow> new_buf s v) })"

definition is_blank :: "byte \<Rightarrow> bool" where
  "is_blank c \<longleftrightarrow> c = 32 \<or> c = 9"

text \<open>The text without its first \<open>n\<close> bytes, moved to the front; \<open>clear\<close> when nothing is left.\<close>

definition cut_front :: "cpp_string \<Rightarrow> nat \<Rightarrow> cpp_string option" where
  "cut_front s n =
     (if n = cs_len s then cs_clear s
      else if n > 0
      then do {
        s \<leftarrow> on_buf s (\<lambda>v. acl_vstring_memmove v (Own n) (cs_len s - n)); on_buf s vs_terminate }
      else Some s)"

definition trim_left_space :: "cpp_string \<Rightarrow> cpp_string option" where
  "trim_left_space s =
     (if cs_len s = 0 then Some s else cut_front s (length (takeWhile is_blank (cs_text s))))"

definition trim_right_space :: "cpp_string \<Rightarrow> cpp_string option" where
  "trim_right_space s =
     (if cs_len s = 0 then Some s
      else let n = length (takeWhile is_blank (rev (cs_text s)))
        in if n > 0 then truncate_at s (cs_len s - n) else Some s)"

definition trim_space :: "(nat \<Rightarrow> byte) \<Rightarrow> cpp_string \<Rightarrow> cpp_string option" where
  "trim_space junk s = strip junk s (Some [32, 9]) True"

text \<open>The line ends at the front, and those at the back, with what is behind each (read backwards).\<close>

fun line_ends :: "byte list \<Rightarrow> nat" where
  "line_ends (c # d # t) =
     (if c = 10 then 1 + line_ends (d # t) else if c = 13 \<and> d = 10 then 2 + line_ends t else 0)"
| "line_ends [c] = (if c = 10 then 1 else 0)"
| "line_ends [] = 0"

fun line_ends_back :: "byte list \<Rightarrow> nat" where
  "line_ends_back (c # d # t) =
     (if c = 10 then if d = 13 then 2 + line_ends_back t else 1 + line_ends_back (d # t) else 0)"
| "line_ends_back [c] = (if c = 10 then 1 else 0)"
| "line_ends_back [] = 0"

definition trim_left_line :: "cpp_string \<Rightarrow> cpp_string option" where
  "trim_left_line s = (if cs_len s = 0 then Some s else cut_front s (line_ends (cs_text s)))"

definition trim_right_line :: "cpp_string \<Rightarrow> cpp_string option" where
  "trim_right_line s =
     (if cs_len s = 0 then Some s
      else let n = line_ends_back (rev (cs_text s)) in if n > 0 then truncate_at s (cs_len s - n) else Some s)"

definition trim_line :: "(nat \<Rightarrow> byte) \<Rightarrow> cpp_string \<Rightarrow> cpp_string option" where
  "trim_line junk s = strip junk s (Some [13, 10]) True"

section \<open>Well-formed strings\<close>

text \<open>The buffer is terminated and the scan pointer is inside of the text.\<close>

definition cs_ok :: "cpp_string \<Rightarrow> bool" where
  "cs_ok s \<longleftrightarrow> vs_ok (cs_vbf s) \<and>
     (case cs_scan s of ScanNull \<Rightarrow> True | ScanAt p \<Rightarrow> p \<le> cs_len s | ScanFreed \<Rightarrow> False)"

definition cs_plain :: "cpp_string \<Rightarrow> bool" where
  "cs_plain s \<longleftrightarrow> vs_ok (cs_vbf s) \<and> cs_scan s = ScanNull"

text \<open>What is left to scan.\<close>

definition cs_rest :: "cpp_string \<Rightarrow> byte list" where
  "cs_rest s = (case cs_scan s of ScanAt p \<Rightarrow> drop p (cs_text s) | _ \<Rightarrow> cs_text s)"

lemma cs_plain_ok: "cs_plain s \<Longrightarrow> cs_ok s"
  by (simp add: cs_plain_def cs_ok_def)

lemma cs_plain_rest [simp]: "cs_plain s \<Longrightarrow> cs_rest s = cs_text s"
  by (simp add: cs_plain_def cs_rest_def)

lemma cs_len_text: "vs_ok (cs_vbf s) \<Longrightarrow> length (cs_text s) = cs_len s"
  using length_vs_text [OF vs_okD] by (simp add: cs_text_def)

lemma with_buf_simps [simp]:
  "cs_vbf (with_buf s v) = v" "cs_text (with_buf s v) = vs_text v" "cs_bin (with_buf s v) = cs_bin s"
  "cs_scan s = ScanNull \<Longrightarrow> cs_scan (with_buf s v) = ScanNull"
  "vs_size v = vs_size (cs_vbf s) \<Longrightarrow> cs_scan (with_buf s v) = cs_scan s"
  by (auto simp: with_buf_def new_buf_def cs_text_def)

lemma on_buf_ok:
  assumes "\<exists>v. f (cs_vbf s) = Some v \<and> vs_ok v \<and> vs_text v = t"
  shows "\<exists>s'. on_buf s f = Some s' \<and> vs_ok (cs_vbf s') \<and> cs_text s' = t \<and> cs_bin s' = cs_bin s \<and>
    (cs_scan s = ScanNull \<longrightarrow> cs_scan s' = ScanNull)"
proof -
  from assms obtain v where "f (cs_vbf s) = Some v" "vs_ok v" "vs_text v = t" by blast
  then show ?thesis by (intro exI [of _ "with_buf s v"]) (simp add: on_buf_def)
qed

text \<open>Terminating a text that is terminated changes nothing that is seen of it.\<close>

lemma terminate_again:
  assumes "vs_ok v"
  shows "\<exists>v'. vs_terminate v = Some v' \<and> vs_ok v' \<and> vs_text v' = vs_text v \<and> vs_size v' = vs_size v"
proof -
  from assms have "vs_terminate v = put_bytes v (vs_pos v) [0]"
    by (simp add: vs_terminate_def terminate_by_def vs_cnt_def vs_ok_def)
  with assms show ?thesis
    by (auto simp: put_bytes_def vs_ok_def vs_text_def nth_append)
qed

lemma on_buf_terminate:
  assumes "vs_ok (cs_vbf s)"
  shows "\<exists>s'. on_buf s vs_terminate = Some s' \<and> vs_ok (cs_vbf s') \<and> cs_text s' = cs_text s \<and> cs_bin s' = cs_bin s \<and>
    cs_scan s' = cs_scan s"
proof -
  from terminate_again [OF assms] obtain v where "vs_terminate (cs_vbf s) = Some v" "vs_ok v"
    "vs_text v = vs_text (cs_vbf s)" "vs_size v = vs_size (cs_vbf s)" by blast
  then show ?thesis by (intro exI [of _ "with_buf s v"]) (simp add: on_buf_def cs_text_def)
qed

lemma on_buf_twice:
  assumes "\<exists>v. f (cs_vbf s) = Some v \<and> vs_ok v \<and> vs_text v = t"
  shows "\<exists>s'. (do { s \<leftarrow> on_buf s f; on_buf s vs_terminate }) = Some s' \<and> vs_ok (cs_vbf s') \<and> cs_text s' = t \<and>
    cs_bin s' = cs_bin s \<and> (cs_scan s = ScanNull \<longrightarrow> cs_scan s' = ScanNull)"
proof -
  obtain u where u: "on_buf s f = Some u" "vs_ok (cs_vbf u)" "cs_text u = t" "cs_bin u = cs_bin s"
    "cs_scan s = ScanNull \<longrightarrow> cs_scan u = ScanNull"
    using on_buf_ok [where f = f and s = s and t = t] assms by blast
  obtain w where "on_buf u vs_terminate = Some w" "vs_ok (cs_vbf w)" "cs_text w = cs_text u" "cs_bin w = cs_bin u"
    "cs_scan w = cs_scan u"
    using on_buf_terminate [OF u(2)] by blast
  with u show ?thesis by auto
qed

section \<open>What the operations do to the text\<close>

definition does :: "cpp_string option \<Rightarrow> cpp_string \<Rightarrow> byte list \<Rightarrow> bool" where
  "does r s t \<longleftrightarrow> (\<exists>s'. r = Some s' \<and> vs_ok (cs_vbf s') \<and> cs_text s' = t \<and> cs_bin s' = cs_bin s \<and>
     (cs_scan s = ScanNull \<longrightarrow> cs_scan s' = ScanNull))"

lemma does_plain: "does r s t \<Longrightarrow> cs_plain s \<Longrightarrow> \<exists>s'. r = Some s' \<and> cs_plain s' \<and> cs_text s' = t"
  by (auto simp: does_def cs_plain_def)

named_theorems cs_simps "what an operation of acl::string does to its text"

lemma does_self: "vs_ok (cs_vbf s) \<Longrightarrow> does (Some s) s (cs_text s)"
  by (simp add: does_def)

lemma does_buf: "\<exists>v. f (cs_vbf s) = Some v \<and> vs_ok v \<and> vs_text v = t \<Longrightarrow> does (on_buf s f) s t"
  unfolding does_def by (rule on_buf_ok)

lemma does_buf2:
  "\<exists>v. f (cs_vbf s) = Some v \<and> vs_ok v \<and> vs_text v = t \<Longrightarrow>
   does (do { s \<leftarrow> on_buf s f; on_buf s vs_terminate }) s t"
  unfolding does_def by (rule on_buf_twice)

lemma cs_ops [cs_simps]:
  assumes ok: "vs_ok (cs_vbf s)"
  shows "does (copy_cstr s (Some c)) s c"
    "bs \<noteq> [] \<Longrightarrow> does (copy_bytes s bs) s bs"
    "does (append_cstr s (Some c)) s (cs_text s @ c)"
    "does (append_bytes s bs) s (cs_text s @ bs)"
    "does (push_back s b) s (cs_text s @ [b])"
    "length bs < 2 ^ 31 \<Longrightarrow> does (cs_prepend s bs) s (bs @ cs_text s)"
    "start < cs_len s \<Longrightarrow> cs_len s + length bs < 2 ^ 31 \<Longrightarrow> does (insert_bytes s start bs) s (take start (cs_text s) @ bs @ drop start (cs_text s))"
    "(n < cs_len s \<Longrightarrow> n < 2 ^ 31) \<Longrightarrow> does (truncate_at s n) s (take n (cs_text s))"
proof -
  note op = vs_okD [OF ok]
  show "does (copy_cstr s (Some c)) s c"
    using acl_vstring_memcpy_ok [OF op, of "length c" c]
    by (auto simp: copy_cstr_def acl_vstring_strcpy_def intro!: does_buf)
  show "does (copy_bytes s bs) s bs" if "bs \<noteq> []"
    using acl_vstring_memcpy_ok [OF op, of "length bs" bs] that
    by (auto simp: copy_bytes_def intro!: does_buf2)
  show "does (append_cstr s (Some c)) s (cs_text s @ c)"
    using acl_vstring_memcat_ok [OF op, of "length c" c]
    by (auto simp: append_cstr_def acl_vstring_strcat_def cs_text_def intro!: does_buf)
  show app: "does (append_bytes s bs) s (cs_text s @ bs)" for bs
    using acl_vstring_memcat_ok [OF op, of "length bs" bs] does_self [OF ok]
    by (auto simp: append_bytes_def cs_text_def intro!: does_buf2)
  show "does (push_back s b) s (cs_text s @ [b])" unfolding push_back_def by (rule app)
  show "does (cs_prepend s bs) s (bs @ cs_text s)" if "length bs < 2 ^ 31"
    using acl_vstring_prepend_ok [OF ok that] does_self [OF ok]
    by (auto simp: cs_prepend_def cs_text_def intro!: does_buf)
  show "does (insert_bytes s start bs) s (take start (cs_text s) @ bs @ drop start (cs_text s))"
    if "start < cs_len s" "cs_len s + length bs < 2 ^ 31"
    using acl_vstring_insert_ok [OF ok that] does_self [OF ok]
    by (auto simp: insert_bytes_def cs_text_def intro!: does_buf)
  show "does (truncate_at s n) s (take n (cs_text s))" if "n < cs_len s \<Longrightarrow> n < 2 ^ 31"
    using acl_vstring_truncate_ok [OF ok that]
    by (auto simp: truncate_at_def cs_text_def intro!: does_buf2)
qed

lemma cs_clear_ok:
  assumes "vs_ok (cs_vbf s)"
  obtains s' where "cs_clear s = Some s'" "cs_plain s'" "cs_text s' = []" "cs_bin s' = cs_bin s"
proof -
  let ?s = "s\<lparr>cs_vbf := vs_reset (cs_vbf s)\<rparr>"
  from assms have "vs_open (cs_vbf ?s)" by (simp add: vs_okD)
  then obtain v where "vs_terminate (cs_vbf ?s) = Some v" "vs_ok v" "vs_text v = vs_text (cs_vbf ?s)"
    by (rule vs_terminate_open)
  with that [of "with_buf ?s v\<lparr>cs_scan := ScanNull\<rparr>"] assms show thesis
    by (simp add: cs_clear_def on_buf_def cs_plain_def cs_text_def vs_okD)
qed

section \<open>Scanning a string\<close>

lemma cs_rest_at: "cs_scan s = ScanAt p \<Longrightarrow> cs_rest s = drop p (cs_text s)"
  by (simp add: cs_rest_def)

lemma scan_same [simp]: "cs_scan s = ScanAt p \<Longrightarrow> s\<lparr>cs_scan := ScanAt p\<rparr> = s"
  by (cases s) simp

lemma scan_upd [simp]: "cs_text (s\<lparr>cs_scan := p\<rparr>) = cs_text s" "cs_rest (s\<lparr>cs_scan := ScanAt k\<rparr>) = drop k (cs_text s)"
  by (simp_all add: cs_text_def cs_rest_def)

lemma buf_end_left:
  assumes ok: "cs_ok s" and left: "cs_rest s \<noteq> []"
  obtains p where "buf_end s = Some (True, s\<lparr>cs_scan := ScanAt p\<rparr>)" "cs_rest s = drop p (cs_text s)" "p < cs_len s"
    "cs_ok (s\<lparr>cs_scan := ScanAt p\<rparr>)"
proof -
  have l: "length (cs_text s) = cs_len s" using ok by (simp add: cs_ok_def cs_len_text)
  define p where "p = (case cs_scan s of ScanAt p \<Rightarrow> p | _ \<Rightarrow> 0)"
  have r: "cs_rest s = drop p (cs_text s)" "cs_scan s \<noteq> ScanFreed"
    using ok by (auto simp: cs_rest_def p_def cs_ok_def split: scan_ptr.splits)
  with left l have "p < cs_len s" by (simp add: not_le [symmetric])
  moreover from this have "buf_end s = Some (True, s\<lparr>cs_scan := ScanAt p\<rparr>)"
    using r(2) by (cases "cs_scan s") (auto simp: buf_end_def p_def Let_def)
  moreover have "cs_ok (s\<lparr>cs_scan := ScanAt p\<rparr>)" using ok \<open>p < cs_len s\<close> by (simp add: cs_ok_def)
  ultimately show thesis using that r(1) by blast
qed

lemma buf_end_done:
  assumes ok: "cs_ok s" and left: "cs_rest s = []"
  obtains s' where "buf_end s = Some (False, s')" "cs_ok s'" "cs_rest s' = []" "cs_bin s' = cs_bin s"
proof -
  have l: "length (cs_text s) = cs_len s" using ok by (simp add: cs_ok_def cs_len_text)
  define p where "p = (case cs_scan s of ScanAt p \<Rightarrow> p | _ \<Rightarrow> 0)"
  have r: "cs_rest s = drop p (cs_text s)" "cs_scan s \<noteq> ScanFreed"
    using ok by (auto simp: cs_rest_def p_def cs_ok_def split: scan_ptr.splits)
  with left l have p: "cs_len s \<le> p" by simp
  let ?s = "s\<lparr>cs_scan := ScanAt p\<rparr>"
  have b: "buf_end s = map_option (\<lambda>s. (False, s)) (if \<not> cs_empty ?s then cs_clear ?s else Some ?s)"
    using r(2) p by (cases "cs_scan s") (auto simp: buf_end_def p_def Let_def)
  show thesis
  proof (cases "cs_empty ?s")
    case True
    then have "cs_len s = 0" "cs_text s = []" using l by (simp_all add: cs_empty_def)
    moreover from this have "p = 0" using ok by (auto simp: p_def cs_ok_def split: scan_ptr.splits)
    ultimately show thesis using that [of ?s] b True ok by (simp add: cs_ok_def cs_rest_def cs_text_def)
  next
    case False
    have "vs_ok (cs_vbf ?s)" using ok by (simp add: cs_ok_def)
    then obtain s' where "cs_clear ?s = Some s'" "cs_plain s'" "cs_text s' = []" "cs_bin s' = cs_bin ?s"
      by (rule cs_clear_ok)
    with that [of s'] b False show thesis by (simp add: cs_plain_ok)
  qed
qed

text \<open>Moving the text down.\<close>

lemma size_put:
  "i < vs_size w \<Longrightarrow> vs_size (w\<lparr>vs_data := take i (vs_data w) @ [x] @ drop (Suc i) (vs_data w)\<rparr>) = vs_size w"
  by auto

lemma memmove_in_place:
  assumes v: "vs_ok v" and len: "0 < len" "off + len \<le> vs_pos v" "len < 2 ^ 31"
  shows "\<exists>v'. acl_vstring_memmove v (Own off) len = Some v' \<and> vs_ok v' \<and>
    vs_text v' = take len (drop off (vs_text v)) \<and> vs_size v' = vs_size v"
proof -
  let ?d = "take len (drop off (vs_data v))"
  let ?w = "vs_at_offset (v\<lparr>vs_data := ?d @ drop len (vs_data v)\<rparr>) len"
  have ld: "length ?d = len" using v len by (auto simp: vs_ok_def)
  have put: "put_bytes v 0 ?d = Some (v\<lparr>vs_data := ?d @ drop len (vs_data v)\<rparr>)"
    using v len ld by (simp add: put_bytes_def vs_ok_def)
  have sz: "vs_size ?w = vs_size v" "vs_pos ?w = len" using v len ld by (simp_all add: vs_at_offset_def vs_ok_def)
  have "vs_terminate ?w = put_bytes ?w len [0]"
    using sz v len by (simp add: vs_terminate_def terminate_by_def vs_cnt_def vs_ok_def)
  moreover have "put_bytes ?w len [0] = Some (?w\<lparr>vs_data := take len (vs_data ?w) @ [0] @ drop (Suc len) (vs_data ?w)\<rparr>)"
    using sz v len by (simp add: put_bytes_def vs_ok_def)
  moreover have "vs_ok (?w\<lparr>vs_data := take len (vs_data ?w) @ [0] @ drop (Suc len) (vs_data ?w)\<rparr>)"
    using sz v len ld by (auto simp: vs_ok_def vs_at_offset_def nth_append)
  ultimately have "acl_vstring_memmove v (Own off) len
      = Some (?w\<lparr>vs_data := take len (vs_data ?w) @ [0] @ drop (Suc len) (vs_data ?w)\<rparr>)"
    "vs_ok (?w\<lparr>vs_data := take len (vs_data ?w) @ [0] @ drop (Suc len) (vs_data ?w)\<rparr>)"
    using len v put by (simp_all add: acl_vstring_memmove_def vs_ok_def)
  moreover have "vs_text (?w\<lparr>vs_data := take len (vs_data ?w) @ [0] @ drop (Suc len) (vs_data ?w)\<rparr>)
      = take len (drop off (vs_text v))"
    using len ld by (simp add: vs_text_def vs_at_offset_def drop_take min_def)
  moreover have "vs_size (?w\<lparr>vs_data := take len (vs_data ?w) @ [0] @ drop (Suc len) (vs_data ?w)\<rparr>) = vs_size v"
  proof -
    have "len < vs_size ?w" using sz v len by (simp add: vs_ok_def)
    from size_put [OF this, of 0] sz(1) show ?thesis by (rule trans)
  qed
  ultimately show ?thesis by blast
qed

lemma move_down_to_ok:
  assumes ok: "vs_ok (cs_vbf s)" and len: "0 < len" "off + len \<le> cs_len s" "len < 2 ^ 31"
  shows "\<exists>s'. move_down_to s off len = Some s' \<and> cs_ok s' \<and> cs_rest s' = take len (drop off (cs_text s)) \<and>
    cs_text s' = take len (drop off (cs_text s)) \<and> cs_bin s' = cs_bin s"
proof -
  obtain v where v: "acl_vstring_memmove (cs_vbf s) (Own off) len = Some v" "vs_ok v"
    "vs_text v = take len (drop off (cs_text s))" using memmove_in_place [OF ok len] by (auto simp: cs_text_def)
  let ?s = "with_buf s v"
  obtain s' where s': "on_buf ?s vs_terminate = Some s'" "vs_ok (cs_vbf s')" "cs_text s' = cs_text ?s" "cs_bin s' = cs_bin ?s"
    using on_buf_terminate [of ?s] v(2) by auto
  moreover have "on_buf s (\<lambda>v. acl_vstring_memmove v (Own off) len) = Some ?s" using v(1) by (simp add: on_buf_def)
  ultimately show ?thesis
    using v(3) by (intro exI [of _ "s'\<lparr>cs_scan := ScanAt 0\<rparr>"]) (simp add: move_down_to_def cs_ok_def)
qed

definition chop_cr :: "byte list \<Rightarrow> byte list" where
  "chop_cr l = (if l \<noteq> [] \<and> last l = 13 then butlast l else l)"

lemma scan_line_none:
  assumes ok: "cs_ok s" and lf: "strchr_idx (cs_rest s) 10 = None"
  obtains s' where "scan_line s nonl mv = Some (False, [], s')" "cs_ok s'" "cs_rest s' = cs_rest s" "cs_bin s' = cs_bin s"
proof (cases "cs_rest s = []")
  case True
  with ok obtain s' where "buf_end s = Some (False, s')" "cs_ok s'" "cs_rest s' = []" "cs_bin s' = cs_bin s"
    by (rule buf_end_done)
  with that [of s'] True show thesis by (simp add: scan_line_def)
next
  case False
  with ok obtain p where p: "buf_end s = Some (True, s\<lparr>cs_scan := ScanAt p\<rparr>)" "cs_rest s = drop p (cs_text s)"
    "p < cs_len s" "cs_ok (s\<lparr>cs_scan := ScanAt p\<rparr>)" by (rule buf_end_left)
  have "scan_line s nonl mv = Some (False, [], s\<lparr>cs_scan := ScanAt p\<rparr>)"
    using p(1) lf [unfolded p(2)] by (simp add: scan_line_def)
  with that [of "s\<lparr>cs_scan := ScanAt p\<rparr>"] p(2,4) show thesis by simp
qed

lemma strchr_idx_less: "strchr_idx t c = Some i \<Longrightarrow> i < length t"
  by (induction t arbitrary: i) (auto split: if_splits)

lemma scan_line_some:
  assumes ok: "cs_ok s" and lf: "strchr_idx (cs_rest s) 10 = Some i" and mv: "mv \<longrightarrow> length (cs_rest s) \<le> 2 ^ 31"
  obtains s' where "scan_line s nonl mv = Some (True, if nonl then chop_cr (take i (cs_rest s)) else take (i + 1) (cs_rest s), s')"
    "cs_ok s'" "cs_rest s' = drop (i + 1) (cs_rest s)" "cs_bin s' = cs_bin s"
proof -
  from lf have ne: "cs_rest s \<noteq> []" by auto
  with ok obtain p where p: "buf_end s = Some (True, s\<lparr>cs_scan := ScanAt p\<rparr>)" "cs_rest s = drop p (cs_text s)"
    "p < cs_len s" "cs_ok (s\<lparr>cs_scan := ScanAt p\<rparr>)" by (rule buf_end_left)
  let ?s = "s\<lparr>cs_scan := ScanAt p\<rparr>"
  let ?line = "if nonl then chop_cr (take i (cs_rest s)) else take (i + 1) (cs_rest s)"
  let ?n = "p + i + 1"
  have ts: "cs_text ?s = cs_text s" by (simp add: cs_text_def)
  have vok: "vs_ok (cs_vbf ?s)" using p(4) by (simp add: cs_ok_def)
  then have l: "length (cs_text s) = cs_len s" by (simp add: cs_len_text)
  have i: "i < cs_len s - p" using strchr_idx_less [OF lf] p(2) l by simp
  have step: "scan_line s nonl mv = 
      (if mv then if cs_len s > ?n then move_down_to ?s ?n (cs_len s - ?n) else cs_clear ?s
       else if ?n \<ge> cs_len s then cs_clear ?s else Some (?s\<lparr>cs_scan := ScanAt ?n\<rparr>)) \<bind> (\<lambda>s. Some (True, ?line, s))"
    using p(1) lf unfolding p(2) by (simp add: scan_line_def Let_def chop_cr_def)
  show thesis
  proof (cases "?n < cs_len s")
    case True
    show thesis
    proof (cases mv)
      case m: True
      have "0 < cs_len s - ?n" "?n + (cs_len s - ?n) \<le> cs_len ?s" "cs_len s - ?n < 2 ^ 31"
        using True mv m l p(2) i by simp_all
      from move_down_to_ok [OF vok this] obtain s' where
        "move_down_to ?s ?n (cs_len s - ?n) = Some s'" "cs_ok s'"
        "cs_rest s' = take (cs_len s - ?n) (drop ?n (cs_text s))" "cs_bin s' = cs_bin s"
        using ts by auto
      with that [of s'] step True m l p(2) show thesis by (simp add: add.commute)
    next
      case False
      have "cs_ok (?s\<lparr>cs_scan := ScanAt ?n\<rparr>)" using vok True by (simp add: cs_ok_def)
      with that [of "?s\<lparr>cs_scan := ScanAt ?n\<rparr>"] step True False p(2) show thesis
        by (simp add: add.commute)
    qed
  next
    case False
    obtain s' where "cs_clear ?s = Some s'" "cs_plain s'" "cs_text s' = []" "cs_bin s' = cs_bin ?s"
      using vok by (rule cs_clear_ok)
    moreover have "drop (i + 1) (cs_rest s) = []" using False p(2) l by simp
    ultimately show thesis using that [of s'] step False by (simp add: cs_plain_ok)
  qed
qed

text \<open>The loop that the callers write around \<open>scan_line\<close>, and the lines of a text: those that end
  with a line feed, without it and a carriage return before it, and what is behind the last.\<close>

fun scan_lines :: "nat \<Rightarrow> cpp_string \<Rightarrow> bool \<Rightarrow> (byte list list \<times> cpp_string) option" where
  "scan_lines 0 s mv = None"
| "scan_lines (Suc fuel) s mv = do {
     (ok, line, s) \<leftarrow> scan_line s True mv;
     if \<not> ok then Some ([], s)
     else do { (ls, s) \<leftarrow> scan_lines fuel s mv; Some (line # ls, s) } }"

function lines_of :: "byte list \<Rightarrow> byte list list \<times> byte list" where
  "lines_of t = (case strchr_idx t 10 of
     None \<Rightarrow> ([], t)
   | Some i \<Rightarrow> (case lines_of (drop (i + 1) t) of (ls, r) \<Rightarrow> (chop_cr (take i t) # ls, r)))"
  by pat_completeness auto
termination
  by (relation "measure length") (auto dest: strchr_idx_less)

declare lines_of.simps [simp del]

lemma scan_lines_ok:
  "cs_ok s \<Longrightarrow> mv \<longrightarrow> length (cs_rest s) \<le> 2 ^ 31 \<Longrightarrow> length (cs_rest s) < fuel \<Longrightarrow>
   \<exists>s'. scan_lines fuel s mv = Some (fst (lines_of (cs_rest s)), s') \<and> cs_ok s' \<and> cs_rest s' = snd (lines_of (cs_rest s))"
proof (induction fuel arbitrary: s)
  case (Suc fuel)
  show ?case
  proof (cases "strchr_idx (cs_rest s) 10")
    case None
    from scan_line_none [OF Suc.prems(1) None] obtain s' where
      "scan_line s True mv = Some (False, [], s')" "cs_ok s'" "cs_rest s' = cs_rest s" by blast
    moreover have "lines_of (cs_rest s) = ([], cs_rest s)" using None by (subst lines_of.simps) simp
    ultimately show ?thesis by simp
  next
    case (Some i)
    obtain s1 where s1: "scan_line s True mv = Some (True, chop_cr (take i (cs_rest s)), s1)" "cs_ok s1"
      "cs_rest s1 = drop (i + 1) (cs_rest s)"
      using scan_line_some [OF Suc.prems(1) Some Suc.prems(2), of True] by (metis (full_types))
    have "mv \<longrightarrow> length (cs_rest s1) \<le> 2 ^ 31" "length (cs_rest s1) < fuel"
      using s1(3) Suc.prems(2,3) strchr_idx_less [OF Some] by auto
    from Suc.IH [OF s1(2) this] obtain s' where s': "scan_lines fuel s1 mv = Some (fst (lines_of (cs_rest s1)), s')"
      "cs_ok s'" "cs_rest s' = snd (lines_of (cs_rest s1))" by blast
    have "lines_of (cs_rest s) = (chop_cr (take i (cs_rest s)) # fst (lines_of (cs_rest s1)), snd (lines_of (cs_rest s1)))"
      using Some s1(3) by (subst lines_of.simps) (simp add: split_beta)
    with s1(1) s' show ?thesis by simp
  qed
qed simp

lemma cs_of_bytes_ok:
  "\<exists>s. cs_of_bytes junk bs = Some s \<and> cs_plain s \<and> cs_text s = bs"
proof -
  have open': "vs_open (cs_vbf (cs_init junk n))" "cs_text (cs_init junk n) = []" "cs_scan (cs_init junk n) = ScanNull" for n
    by (auto simp: cs_init_def acl_vstring_alloc_def vs_new_def vs_open_def vs_text_def cs_text_def)
  show ?thesis
  proof (cases "bs = []")
    case True
    from open'(1) [of 1] obtain v where "vs_terminate (cs_vbf (cs_init junk 1)) = Some v" "vs_ok v"
      "vs_text v = vs_text (cs_vbf (cs_init junk 1))" by (rule vs_terminate_open)
    with True open'(2,3) [of 1] show ?thesis
      by (intro exI [of _ "with_buf (cs_init junk 1) v"]) (simp add: cs_of_bytes_def on_buf_def cs_plain_def cs_text_def)
  next
    case False
    have "does (do { s \<leftarrow> on_buf (cs_init junk (length bs + 1)) (\<lambda>v. acl_vstring_memcpy v (Ext bs) (length bs)); on_buf s vs_terminate })
        (cs_init junk (length bs + 1)) bs"
      using acl_vstring_memcpy_ok [OF open'(1), of "length bs" bs "length bs + 1"] by (intro does_buf2) auto
    with False open'(3) show ?thesis by (auto simp: cs_of_bytes_def does_def cs_plain_def)
  qed
qed

section \<open>Comparing strings\<close>

abbreviation byte_order :: "(byte \<times> byte) set" where
  "byte_order \<equiv> {(a, b). a < b}"

lemma uint_byte_eq: "uint x = uint y \<longleftrightarrow> x = (y :: byte)"
  using word_uint_eq_iff [of x y] by blast

lemma c_memcmp_zero: "length xs = length ys \<Longrightarrow> c_memcmp xs ys = 0 \<longleftrightarrow> xs = ys"
  by (induction xs ys rule: c_memcmp.induct) (auto simp: uint_byte_eq)

lemma memcmp_lexord:
  fixes xs ys :: "byte list"
  defines "n \<equiv> min (length xs) (length ys)"
  shows "(xs, ys) \<in> lexord byte_order \<longleftrightarrow>
    c_memcmp (take n xs) (take n ys) < 0 \<or> c_memcmp (take n xs) (take n ys) = 0 \<and> length xs < length ys"
  unfolding n_def
proof (induction xs arbitrary: ys)
  case Nil
  then show ?case by (cases ys) auto
next
  case (Cons x xs)
  show ?case
  proof (cases ys)
    case (Cons y zs)
    show ?thesis
    proof (cases "x = y")
      case True
      with Cons.IH [of zs] Cons show ?thesis by simp
    next
      case False
      then have "uint x \<noteq> uint y" by (simp add: uint_byte_eq)
      with False Cons show ?thesis by (simp add: word_less_def)
    qed
  qed simp
qed

lemma c_memcmp_swap: "c_memcmp ys xs = - c_memcmp xs ys"
  by (induction xs ys rule: c_memcmp.induct) auto

section \<open>Properties\<close>

text \<open>C25: the scanning loop. Whatever part of the string has been scanned, with or without moving the
  rest down, \<open>scan_line\<close> gives exactly the complete lines of what is left, in order and without their
  line ends, then returns false and leaves the incomplete line to be scanned; the call that returns
  false is at the latest the one after as many calls as there are bytes, and none reads outside of the
  buffer. When the rest is moved down, it has at most 2^31 bytes.\<close>

theorem scan_lines_all:
  assumes "cs_ok s" "length (cs_rest s) < fuel" "mv \<longrightarrow> length (cs_rest s) \<le> 2 ^ 31"
  shows "\<exists>s'. scan_lines fuel s mv = Some (fst (lines_of (cs_rest s)), s') \<and> cs_ok s' \<and>
    cs_rest s' = snd (lines_of (cs_rest s))"
  using assms(1,3,2) by (rule scan_lines_ok)

theorem scan_lines_all_witness:
  "\<exists>s s'. cs_of_bytes (\<lambda>i. 0) (lit ''a'' @ [13, 10, 10] @ lit ''b'') = Some s \<and>
     scan_lines 9 s True = Some ([lit ''a'', []], s') \<and> cs_rest s' = lit ''b''"
proof -
  let ?t = "lit ''a'' @ [13, 10, 10] @ lit ''b''"
  obtain s where s: "cs_of_bytes (\<lambda>i. 0) ?t = Some s" "cs_plain s" "cs_text s = ?t" using cs_of_bytes_ok by blast
  have "lines_of ?t = ([lit ''a'', []], lit ''b'')"
    by (simp add: lines_of.simps lit_def chop_cr_def)
  moreover have "length ?t < 9" "length ?t \<le> 2 ^ 31" by (simp_all add: lit_def)
  ultimately show ?thesis
    using s scan_lines_all [of s 9 True] cs_plain_ok [OF s(2)] by auto
qed

text \<open>C31: the comparisons of two strings are those of the lexicographic order of their bytes:
  \<open>operator<\<close> and \<open>operator>\<close> are it and its converse, the sign of \<open>compare\<close> agrees with both, and
  it is 0, and \<open>operator==\<close> true, exactly for equal texts. The strings have fewer than 2^31 bytes:
  \<open>compare\<close> returns the difference of the lengths as an \<open>int\<close> (\<open>compare_wraps\<close>).\<close>

theorem compare_is_lexicographic:
  assumes "vs_ok (cs_vbf s)" "vs_ok (cs_vbf t)" "cs_len s < 2 ^ 31" "cs_len t < 2 ^ 31"
  shows "(less_string s t \<longleftrightarrow> (cs_text s, cs_text t) \<in> lexord byte_order) \<and>
    (greater_string s t \<longleftrightarrow> (cs_text t, cs_text s) \<in> lexord byte_order) \<and>
    (compare_string s t < 0 \<longleftrightarrow> less_string s t) \<and> (compare_string s t > 0 \<longleftrightarrow> greater_string s t) \<and>
    (equals_string s t \<longleftrightarrow> cs_text s = cs_text t)"
proof (intro conjI)
  have l: "length (cs_text s) = cs_len s" "length (cs_text t) = cs_len t" using assms by (simp_all add: cs_len_text)
  let ?n = "min (cs_len s) (cs_len t)"
  let ?c = "c_memcmp (take ?n (cs_text s)) (take ?n (cs_text t))"
  have n: "(if cs_len s > cs_len t then cs_len t else cs_len s) = ?n" by simp
  have less: "less_string s t \<longleftrightarrow> ?c < 0 \<or> ?c = 0 \<and> cs_len s < cs_len t"
    unfolding less_string_def n Let_def by auto
  have greater: "greater_string s t \<longleftrightarrow> ?c > 0 \<or> ?c = 0 \<and> cs_len t < cs_len s"
    unfolding greater_string_def n Let_def by auto
  show "less_string s t \<longleftrightarrow> (cs_text s, cs_text t) \<in> lexord byte_order"
    unfolding less memcmp_lexord l ..
  have "c_memcmp (take ?n (cs_text t)) (take ?n (cs_text s)) = - ?c" by (rule c_memcmp_swap)
  then show "greater_string s t \<longleftrightarrow> (cs_text t, cs_text s) \<in> lexord byte_order"
    unfolding greater memcmp_lexord l by (simp add: min.commute)
  have d: "signed_take_bit 31 (int (cs_len s) - int (cs_len t)) = int (cs_len s) - int (cs_len t)"
    using assms(3,4) by (simp add: signed_take_bit_int_eq_self)
  show "compare_string s t < 0 \<longleftrightarrow> less_string s t" "compare_string s t > 0 \<longleftrightarrow> greater_string s t"
    unfolding less greater by (auto simp: compare_string_def Let_def d)
  have "length (take ?n (cs_text s)) = length (take ?n (cs_text t))" using l by simp
  then have z: "?c = 0 \<longleftrightarrow> take ?n (cs_text s) = take ?n (cs_text t)" by (rule c_memcmp_zero)
  have "compare_string s t = 0 \<longleftrightarrow> ?c = 0 \<and> cs_len s = cs_len t" by (auto simp: compare_string_def Let_def d)
  then show "equals_string s t \<longleftrightarrow> cs_text s = cs_text t"
    using z l by (auto simp: equals_string_def)
qed

theorem compare_is_lexicographic_witness:
  "\<exists>s t. cs_of_bytes (\<lambda>i. 0) [1, 0, 2] = Some s \<and> cs_of_bytes (\<lambda>i. 0) [1, 0] = Some t \<and> less_string t s"
proof -
  obtain s where s: "cs_of_bytes (\<lambda>i. 0) [1, 0, 2] = Some s" "cs_plain s" "cs_text s = [1, 0, 2]"
    using cs_of_bytes_ok by blast
  obtain t where t: "cs_of_bytes (\<lambda>i. 0) [1, 0] = Some t" "cs_plain t" "cs_text t = [1, 0]"
    using cs_of_bytes_ok by blast
  have "less_string t s \<longleftrightarrow> ([1, 0], [1, 0, 2]) \<in> lexord byte_order"
    using compare_is_lexicographic [of t s] s t cs_len_text [of s] cs_len_text [of t] by (simp add: cs_plain_def)
  with s(1) t(1) show ?thesis by auto
qed

text \<open>A string and the one that goes on after it for 2^32 bytes compare equal.\<close>

theorem compare_wraps:
  assumes "vs_ok (cs_vbf s)" "vs_ok (cs_vbf t)" "cs_text s = cs_text t @ r" "length r = 2 ^ 32"
  shows "compare_string s t = 0 \<and> equals_string s t \<and> cs_text s \<noteq> cs_text t"
proof -
  have l: "cs_len s = cs_len t + 2 ^ 32" "length (cs_text t) = cs_len t"
    using assms cs_len_text [of s] cs_len_text [of t] by simp_all
  have t: "take (cs_len t) (cs_text s) = cs_text t" "take (cs_len t) (cs_text t) = cs_text t"
    using assms(3) l(2) by simp_all
  have "c_memcmp (cs_text t) (cs_text t) = 0" by (simp add: c_memcmp_zero)
  moreover have "signed_take_bit 31 (2 ^ 32 :: int) = 0" by simp
  ultimately have "compare_string s t = 0"
    unfolding compare_string_def Let_def l(1) by (simp add: t)
  moreover have "r \<noteq> []" using assms(4) by auto
  ultimately show ?thesis using assms(3) by (simp add: equals_string_def)
qed

text \<open>reading lines as they arrive. When the string holds a part of a line, \<open>scan_line\<close> returns
  false but leaves \<open>scan_ptr_\<close> in the buffer; if the data appended next make the buffer grow, the pointer is into the
  old buffer, and \<open>c_str\<close>, \<open>length\<close> and the next \<open>scan_line\<close> read freed memory.\<close>

theorem append_after_scan_dangles:
  assumes ok: "cs_ok s" and part: "cs_rest s \<noteq> []" "strchr_idx (cs_rest s) 10 = None"
    and grow: "int (length bs) > vs_cnt (cs_vbf s)"
  shows "\<exists>s1 s2. scan_line s nonl mv = Some (False, [], s1) \<and> append_bytes s1 bs = Some s2 \<and>
    cs_text s2 = cs_text s @ bs \<and> c_str s2 = None \<and> length_of s2 = None \<and> scan_line s2 nonl mv = None"
proof -
  obtain p where p: "buf_end s = Some (True, s\<lparr>cs_scan := ScanAt p\<rparr>)" "cs_rest s = drop p (cs_text s)"
    using ok part(1) by (rule buf_end_left)
  let ?s = "s\<lparr>cs_scan := ScanAt p\<rparr>"
  have scan: "scan_line s nonl mv = Some (False, [], ?s)"
    using p(1) part(2) [unfolded p(2)] by (simp add: scan_line_def)
  have vok: "vs_ok (cs_vbf s)" using ok by (simp add: cs_ok_def)
  have room: "0 < vs_cnt (cs_vbf s)" using vok by (simp add: vs_ok_def vs_cnt_def)
  then have ne: "bs \<noteq> []" using grow by auto
  obtain v where v: "acl_vstring_memcat (cs_vbf s) (Ext bs) (length bs) = Some v" "vs_ok v" "vs_text v = cs_text s @ bs"
    using acl_vstring_memcat_ok [OF vs_okD [OF vok], of "length bs" bs] by (auto simp: cs_text_def)
  have "length (cs_text s @ bs) < vs_size v"
    using v(2,3) length_vs_text [OF vs_okD [OF v(2)]] by (simp add: vs_ok_def)
  moreover have "int (vs_size (cs_vbf s)) < int (length (cs_text s @ bs))"
    using grow cs_len_text [OF vok] by (simp add: vs_cnt_def)
  ultimately have bigger: "vs_size v \<noteq> vs_size (cs_vbf ?s)" by simp
  obtain w where w: "vs_terminate v = Some w" "vs_ok w" "vs_text w = vs_text v"
    using terminate_again [OF v(2)] by blast
  let ?s2 = "with_buf (with_buf ?s v) w"
  have "cs_scan ?s2 = ScanFreed" using bigger by (simp add: with_buf_def new_buf_def)
  moreover from this have "c_str ?s2 = None" "length_of ?s2 = None" "buf_end ?s2 = None"
    by (simp_all add: c_str_def length_of_def c_str_at_def buf_end_def)
  moreover have "append_bytes ?s bs = Some ?s2"
    using ne v(1) w(1) by (simp add: append_bytes_def on_buf_def)
  moreover have "cs_text ?s2 = cs_text s @ bs" using v(3) w(3) by simp
  ultimately show ?thesis using scan by (auto simp: scan_line_def)
qed

theorem append_after_scan_dangles_witness:
  "\<exists>s s1 s2. cs_of_bytes (\<lambda>i. 0) (lit ''par'') = Some s \<and> scan_line s True False = Some (False, [], s1) \<and>
     append_bytes s1 (lit ''tial'') = Some s2 \<and> c_str s2 = None"
proof -
  obtain s where s: "cs_of_bytes (\<lambda>i. 0) (lit ''par'') = Some s" "cs_plain s" "cs_text s = lit ''par''"
    using cs_of_bytes_ok by blast
  have "map_option (\<lambda>s. vs_cnt (cs_vbf s)) (cs_of_bytes (\<lambda>i. 0) (lit ''par'')) = Some 1"
    by code_simp
  with s(1) have cnt: "vs_cnt (cs_vbf s) = 1" by simp
  have "strchr_idx (lit ''par'') 10 = None" "lit ''par'' \<noteq> []" "length (lit ''tial'') = 4" by (simp_all add: lit_def)
  with append_after_scan_dangles [of s "lit ''tial''" True False] s cnt cs_plain_ok [OF s(2)] show ?thesis by auto
qed

text \<open>Assigning to a string that is being scanned leaves the scan pointer where it was; when the new
  text is shorter than what was scanned, \<open>length()\<close> is the difference of the two as an unsigned
  number, just below \<open>2 ^ 64\<close>.\<close>

lemma memcpy_in_place:
  assumes v: "vs_ok v" and len: "length bs < vs_size v"
  shows "\<exists>v'. acl_vstring_memcpy v (Ext bs) (length bs) = Some v' \<and> vs_ok v' \<and> vs_text v' = bs \<and> vs_size v' = vs_size v"
proof -
  obtain v' where v': "acl_vstring_memcpy v (Ext bs) (length bs) = Some v'" "vs_ok v'" "vs_text v' = take (length bs) bs"
    using acl_vstring_memcpy_ok [OF vs_okD [OF v] le_refl, of bs] by blast
  let ?r = "vs_reset v"
  have r: "vs_size ?r = vs_size v" "vs_pos ?r = 0" by (simp_all add: vs_reset_def)
  have term_size: "vs_size w = vs_size u" if "vs_terminate u = Some w" "vs_pos u < vs_size u" for u w
    using that by (auto simp: vs_terminate_def terminate_by_def vs_cnt_def put_bytes_def split: if_splits)
  have "vs_size v' = vs_size v"
  proof (cases "bs = []")
    case True
    then have "vs_terminate ?r = Some v'" using v'(1) by (simp add: acl_vstring_memcpy_def Let_def)
    with term_size [OF this] r len True show ?thesis by simp
  next
    case False
    let ?w = "?r\<lparr>vs_data := take 0 (vs_data ?r) @ bs @ drop (0 + length bs) (vs_data ?r)\<rparr>"
    have sp: "vstring_buf_space ?r (int (length bs)) = Some (0, ?r)"
      using r len by (simp add: vstring_buf_space_def space_by_def vs_cnt_def)
    have "min (int (length bs)) (vs_cnt ?r) = int (length bs)" using r len by (simp add: vs_cnt_def)
    moreover have "\<not> vs_cnt ?r \<le> 0" using r len by (auto simp: vs_cnt_def)
    moreover have "put_bytes ?r 0 bs = Some ?w" using r len by (simp add: put_bytes_def)
    ultimately have "vs_terminate (vs_at_offset ?w (length bs)) = Some v'"
      using v'(1) False sp by (simp add: acl_vstring_memcpy_def Let_def)
    moreover have "vs_size (vs_at_offset ?w (length bs)) = vs_size v" "vs_pos (vs_at_offset ?w (length bs)) = length bs"
      using r len by (simp_all add: vs_at_offset_def)
    ultimately show ?thesis using term_size len by metis
  qed
  with v' show ?thesis by auto
qed

theorem assign_after_scan_wraps:
  assumes ok: "vs_ok (cs_vbf s)" and scan: "cs_scan s = ScanAt p" "p < 2 ^ 64"
    and new: "length t < p" "length t < vs_size (cs_vbf s)"
  shows "\<exists>s' n. copy_cstr s (Some t) = Some s' \<and> cs_text s' = t \<and> length_of s' = Some n \<and>
    unat n = 2 ^ 64 - (p - length t)"
proof -
  obtain v where v: "acl_vstring_memcpy (cs_vbf s) (Ext t) (length t) = Some v" "vs_ok v" "vs_text v = t"
    "vs_size v = vs_size (cs_vbf s)" using memcpy_in_place [OF ok new(2)] by blast
  let ?s = "with_buf s v"
  have len: "cs_len ?s = length t" using v length_vs_text [OF vs_okD [OF v(2)]] by simp
  have "cs_scan ?s = ScanAt p" using v(4) scan(1) by simp
  then have "length_of ?s = Some (of_nat (length t) - of_nat p)"
    using len by (simp add: length_of_def c_str_at_def)
  moreover have "unat (of_nat (length t) - of_nat p :: u64) = 2 ^ 64 - (p - length t)"
  proof -
    define d where "d = p - length t"
    have d: "0 < d" "d < 2 ^ 64" using new(1) scan(2) by (auto simp: d_def)
    have "(of_nat (length t) - of_nat p :: u64) = - of_nat d"
      using new(1) by (simp add: d_def of_nat_diff)
    moreover have "unat (- of_nat d :: u64) = 2 ^ 64 - d"
    proof -
      have "(of_nat (2 ^ 64 - d) :: u64) = - of_nat d" using d by (simp add: of_nat_diff)
      then have "unat (- of_nat d :: u64) = unat (of_nat (2 ^ 64 - d) :: u64)" by simp
      also have "\<dots> = 2 ^ 64 - d" using d by (simp add: unsigned_of_nat take_bit_nat_eq_self del: of_nat_diff of_nat_diff_if)
      finally show ?thesis .
    qed
    ultimately show ?thesis by (simp add: d_def)
  qed
  moreover have "copy_cstr s (Some t) = Some ?s" using v(1) by (simp add: copy_cstr_def acl_vstring_strcpy_def on_buf_def)
  ultimately show ?thesis using v(3) by auto
qed

text \<open>\<open>scan_buf\<close> with \<open>move\<close> keeps in the string the bytes that it has just given out, and
  drops the others: what is left to scan is what was read. Without \<open>move\<close> it is the rest.\<close>

theorem scan_buf_keeps_read:
  assumes ok: "cs_ok s" and n: "0 < n" "n < length (cs_rest s)" "n < 2 ^ 31"
  shows "(\<exists>s'. scan_buf s n True = Some (take n (cs_rest s), s') \<and> cs_ok s' \<and> cs_rest s' = take n (cs_rest s)) \<and>
    (\<exists>s'. scan_buf s n False = Some (take n (cs_rest s), s') \<and> cs_ok s' \<and> cs_rest s' = drop n (cs_rest s))"
proof -
  have ne: "cs_rest s \<noteq> []" using n by auto
  with ok obtain p where p: "buf_end s = Some (True, s\<lparr>cs_scan := ScanAt p\<rparr>)" "cs_rest s = drop p (cs_text s)"
    "p < cs_len s" "cs_ok (s\<lparr>cs_scan := ScanAt p\<rparr>)" by (rule buf_end_left)
  let ?s = "s\<lparr>cs_scan := ScanAt p\<rparr>"
  have vok: "vs_ok (cs_vbf ?s)" using ok by (simp add: cs_ok_def)
  then have l: "length (cs_text s) = cs_len s" by (simp add: cs_len_text)
  then have m: "min (cs_len s - p) n = n" "p + n \<le> cs_len ?s" using n(2) p(2) by simp_all
  from move_down_to_ok [OF vok n(1) m(2) n(3)] obtain s' where
    s': "move_down_to ?s p n = Some s'" "cs_ok s'" "cs_rest s' = take n (drop p (cs_text s))" by auto
  have "scan_buf s n True = Some (take n (cs_rest s), s')"
    using n(1) p(1,2) s'(1) m(1) by (simp add: scan_buf_def)
  moreover have "scan_buf s n False = Some (take n (cs_rest s), s\<lparr>cs_scan := ScanAt (p + n)\<rparr>)"
    using n(1) p(1,2) m(1) by (simp add: scan_buf_def)
  moreover have "cs_ok (s\<lparr>cs_scan := ScanAt (p + n)\<rparr>)" using vok m(2) by (simp add: cs_ok_def)
  ultimately show ?thesis using s'(2,3) p(2) by (auto simp: add.commute)
qed

theorem scan_buf_keeps_read_witness:
  "\<exists>s s'. cs_of_bytes (\<lambda>i. 0) [1, 2, 3] = Some s \<and> scan_buf s 2 True = Some ([1, 2], s') \<and> cs_rest s' = [1, 2]"
proof -
  obtain s where s: "cs_of_bytes (\<lambda>i. 0) [1, 2, 3] = Some s" "cs_plain s" "cs_text s = [1, 2, 3]"
    using cs_of_bytes_ok by blast
  with scan_buf_keeps_read [OF cs_plain_ok [OF s(2)], of 2] show ?thesis by auto
qed

text \<open>\<open>end_with(const void*, size_t)\<close> copies the bytes over the end of the string instead of comparing
  them, and then returns false for every string.\<close>

theorem end_with_bytes_overwrites:
  assumes "vs_ok (cs_vbf s)" "bs \<noteq> []" "length bs \<le> cs_len s"
  shows "fst (end_with_bytes s (Some bs)) = False \<and>
    cs_text (snd (end_with_bytes s (Some bs))) = take (cs_len s - length bs) (cs_text s) @ bs"
proof -
  let ?v = "cs_vbf s" let ?k = "cs_len s - length bs"
  have "take (cs_len s) (take ?k (vs_data ?v) @ bs @ drop (?k + length bs) (vs_data ?v)) = take ?k (take (cs_len s) (vs_data ?v)) @ bs"
    using assms by (cases bs) (auto simp: vs_ok_def min_def)
  with assms(2,3) show ?thesis by (simp add: end_with_bytes_def Let_def cs_text_def vs_text_def)
qed

theorem end_with_bytes_overwrites_witness:
  "\<exists>s. cs_of_bytes (\<lambda>i. 0) (lit ''.txt'') = Some s \<and>
     cs_text (snd (end_with_bytes s (Some (lit ''exe'')))) = lit ''.exe''"
proof -
  obtain s where s: "cs_of_bytes (\<lambda>i. 0) (lit ''.txt'') = Some s" "cs_plain s" "cs_text s = lit ''.txt''"
    using cs_of_bytes_ok by blast
  then have "cs_len s = 4" using cs_len_text [of s] by (simp add: cs_plain_def lit_def)
  with s end_with_bytes_overwrites [of s "lit ''exe''"] show ?thesis by (simp add: cs_plain_def lit_def)
qed

text \<open>An assignment through \<open>operator[]\<close> behind the text: inside of the buffer it makes the text one
  byte longer than the index, so that it ends with the byte; beyond the buffer the length is the index, and
  the byte is not part of the text.\<close>

theorem subscript_beyond_capacity:
  assumes ok: "vs_ok (cs_vbf s)"
  shows "(cs_len s \<le> n \<and> n < vs_size (cs_vbf s) \<longrightarrow>
      (\<exists>s'. cs_store s n c = Some s' \<and> length (cs_text s') = n + 1 \<and> last (cs_text s') = c)) \<and>
    (vs_size (cs_vbf s) \<le> n \<longrightarrow> (\<exists>s'. cs_store s n c = Some s' \<and> length (cs_text s') = n))"
proof (intro conjI impI; (elim conjE)?)
  let ?v = "cs_vbf s"
  assume n: "cs_len s \<le> n" "n < vs_size ?v"
  let ?w = "vs_at_offset ?v n"
  have "vs_open ?w" "vs_text ?w = take n (vs_data ?v)"
    using ok n(2) by (auto simp: vs_open_def vs_at_offset_def vs_ok_def vs_text_def)
  then obtain u where u: "vs_addch ?w 0 = Some (uint (0 :: byte), u)" "vs_open u" "vs_text u = take n (vs_data ?v) @ [0]"
    using vs_addch_open by metis
  from u(2) obtain x where x: "vs_terminate u = Some x" "vs_ok x" "vs_text x = vs_text u" by (rule vs_terminate_open)
  let ?s = "with_buf (with_buf s u) x"
  have len: "vs_pos x = n + 1" "n + 1 < vs_size x"
    using length_vs_text [OF vs_okD [OF x(2)]] x(2,3) u(3) n(2) by (simp_all add: vs_ok_def)
  have "subscript s n = Some ?s"
    using n u(1) x(1) by (simp add: subscript_def Let_def on_buf_def)
  then have st: "cs_store s n c = Some (?s\<lparr>cs_vbf := x\<lparr>vs_data := (vs_data x)[n := c]\<rparr>\<rparr>)"
    using len by (simp add: cs_store_def)
  have "take (n + 1) ((vs_data x)[n := c]) = (take (n + 1) (vs_data x))[n := c]" by (simp add: take_update_swap)
  also have "take (n + 1) (vs_data x) = take n (vs_data ?v) @ [0]" using x(3) u(3) len by (simp add: vs_text_def)
  also have "\<dots>[n := c] = take n (vs_data ?v) @ [c]" using n(2) by (simp add: list_update_append)
  finally show "\<exists>s'. cs_store s n c = Some s' \<and> length (cs_text s') = n + 1 \<and> last (cs_text s') = c"
    using st len n(2) by (simp add: cs_text_def vs_text_def)
next
  let ?v = "cs_vbf s"
  assume n: "vs_size ?v \<le> n"
  obtain w where w: "vstring_buf_space ?v (int (n + 1)) = Some (0, w)" "vs_open w" "vs_pos w = vs_pos ?v"
    "vs_pos ?v + (n + 1) \<le> vs_size w" by (rule vstring_buf_space_open [OF vs_okD [OF ok], of "n + 1"]) blast
  have pos: "vs_pos ?v < vs_size ?v" using ok by (simp add: vs_ok_def)
  let ?z = "replicate (vs_size w - vs_size ?v) (0 :: byte)"
  let ?d = "take (vs_pos w) (vs_data w) @ ?z @ drop (vs_pos w + length ?z) (vs_data w)"
  have put: "put_bytes w (vs_pos w) ?z = Some (w\<lparr>vs_data := ?d\<rparr>)"
    using w(3,4) pos n by (simp add: put_bytes_def)
  have ld: "length ?d = vs_size w" using w(3,4) pos n by simp
  let ?s = "with_buf s (vs_at_offset (w\<lparr>vs_data := ?d\<rparr>) n)"
  have "subscript s n = Some ?s"
    using n w(1,4) put by (simp add: subscript_def vstring_buf_space_def [symmetric] Let_def)
  then have "cs_store s n c = Some (?s\<lparr>cs_vbf := (vs_at_offset (w\<lparr>vs_data := ?d\<rparr>) n)\<lparr>vs_data := ?d[n := c]\<rparr>\<rparr>)"
    using ld w(4) by (simp add: cs_store_def vs_at_offset_def)
  then show "\<exists>s'. cs_store s n c = Some s' \<and> length (cs_text s') = n"
    using ld w(4) by (simp add: cs_text_def vs_text_def vs_at_offset_def)
qed

theorem subscript_beyond_capacity_witness:
  "\<exists>s s'. cs_of_bytes (\<lambda>i. 0) [1] = Some s \<and> cs_store s 9 7 = Some s' \<and> length (cs_text s') = 9"
proof -
  obtain s where s: "cs_of_bytes (\<lambda>i. 0) [1] = Some s" "cs_plain s" "cs_text s = [1]" using cs_of_bytes_ok by blast
  have "map_option (\<lambda>s. vs_size (cs_vbf s)) (cs_of_bytes (\<lambda>i. 0) [1]) = Some 2" by code_simp
  with s subscript_beyond_capacity [of s 9 7] show ?thesis by (auto simp: cs_plain_def)
qed

text \<open>\<open>substr\<close> appends the bytes it was asked for and returns how many there are from the position on.\<close>

theorem substr_counts_rest:
  assumes "vs_ok (cs_vbf s)" "pos < cs_len s" "0 < len" "len \<le> cs_len s - pos"
  shows "snd (substr s pos len) = take len (drop pos (cs_text s)) \<and> length (snd (substr s pos len)) = len \<and>
    fst (substr s pos len) = cs_len s - pos"
  using assms cs_len_text [OF assms(1)] by (auto simp: substr_def Let_def)

theorem substr_counts_rest_witness:
  "\<exists>s. cs_of_bytes (\<lambda>i. 0) (lit ''hello'') = Some s \<and> substr s 0 2 = (5, lit ''he'')"
proof -
  obtain s where s: "cs_of_bytes (\<lambda>i. 0) (lit ''hello'') = Some s" "cs_plain s" "cs_text s = lit ''hello''"
    using cs_of_bytes_ok by blast
  then have "cs_len s = 5" using cs_len_text [of s] by (simp add: cs_plain_def lit_def)
  with s substr_counts_rest [of s 0 2] show ?thesis by (auto simp: cs_plain_def lit_def prod_eq_iff)
qed

text \<open>Numbers. A string that is not binary takes the decimal digits of the number, in place of its
  text or behind it; adding a character that is zero adds nothing, where \<open>push_back\<close> adds it.\<close>

lemma format_ok [cs_simps]:
  assumes "vs_ok (cs_vbf s)" "list_print e fmt args = Some out" "fmt \<noteq> []"
  shows "does (cs_format e s fmt args) s out" "does (cs_format_append e s fmt args) s (cs_text s @ out)"
  using vsprintf_ok [OF vs_okD [OF assms(1)] assms(2)] vsprintf_append_ok [OF assms(1,2)] assms(3)
  by (auto simp: cs_format_def cs_format_append_def cs_text_def intro!: does_buf)

lemma sint_short: "sint (scast (n :: 16 word) :: u32) = sint n" "sint (ucast n :: u32) = int (unat n)"
proof -
  show "sint (scast n :: u32) = sint n" by (simp add: sint_up_scast is_up_def source_size_def target_size_def word_size)
  have b: "uint n < 2 ^ 16" using unsigned_less [of n, where ?'a = int] by simp
  then have "uint (ucast n :: u32) = uint n" by (simp add: unsigned_ucast_eq take_bit_int_eq_self_iff)
  moreover have "- 2147483648 \<le> uint n" by (rule order_trans [OF _ unsigned_greater_eq]) simp
  ultimately show "sint (ucast n :: u32) = int (unat n)"
    using b by (simp add: sint_uint signed_take_bit_int_eq_self_iff)
qed

lemma add_numbers [cs_simps]:
  assumes ok: "vs_ok (cs_vbf s)" and bin: "\<not> cs_bin s"
  shows "does (assign_int e s i) s (dec_of_int (sint i))" "does (add_int e s i) s (cs_text s @ dec_of_int (sint i))"
    "does (assign_uint e s i) s (dec_of_nat (unat i))" "does (add_uint e s i) s (cs_text s @ dec_of_nat (unat i))"
    "does (assign_int64 e s l) s (dec_of_int (sint l))" "does (add_int64 e s l) s (cs_text s @ dec_of_int (sint l))"
    "does (assign_uint64 e s l) s (dec_of_nat (unat l))" "does (add_uint64 e s l) s (cs_text s @ dec_of_nat (unat l))"
    "does (assign_long e s l) s (dec_of_int (sint l))" "does (add_long e s l) s (cs_text s @ dec_of_int (sint l))"
    "does (assign_ulong e s l) s (dec_of_nat (unat l))" "does (add_ulong e s l) s (cs_text s @ dec_of_nat (unat l))"
    "does (assign_short e s h) s (dec_of_int (sint h))" "does (add_short e s h) s (cs_text s @ dec_of_int (sint h))"
    "does (assign_ushort e s h) s (dec_of_int (int (unat h)))"
proof -
  note defs = assign_int_def add_int_def assign_uint_def add_uint_def assign_int64_def add_int64_def
    assign_uint64_def add_uint64_def assign_long_def add_long_def assign_ulong_def add_ulong_def
    assign_short_def add_short_def assign_ushort_def assign_num_def add_num_def
  note f = format_ok [OF ok list_print_number(1)] format_ok [OF ok list_print_number(2)] format_ok [OF ok list_print_number(3)]
    format_ok [OF ok list_print_number(4)] format_ok [OF ok list_print_number(5)] format_ok [OF ok list_print_number(6)]
  have ne: "lit ''%d'' \<noteq> []" "lit ''%u'' \<noteq> []" "lit ''%ld'' \<noteq> []" "lit ''%lld'' \<noteq> []" "lit ''%lu'' \<noteq> []" "lit ''%llu'' \<noteq> []"
    by (simp_all add: lit_def)
  show "does (assign_int e s i) s (dec_of_int (sint i))" "does (add_int e s i) s (cs_text s @ dec_of_int (sint i))"
    "does (assign_uint e s i) s (dec_of_nat (unat i))" "does (add_uint e s i) s (cs_text s @ dec_of_nat (unat i))"
    "does (assign_int64 e s l) s (dec_of_int (sint l))" "does (add_int64 e s l) s (cs_text s @ dec_of_int (sint l))"
    "does (assign_uint64 e s l) s (dec_of_nat (unat l))" "does (add_uint64 e s l) s (cs_text s @ dec_of_nat (unat l))"
    "does (assign_long e s l) s (dec_of_int (sint l))" "does (add_long e s l) s (cs_text s @ dec_of_int (sint l))"
    "does (assign_ulong e s l) s (dec_of_nat (unat l))" "does (add_ulong e s l) s (cs_text s @ dec_of_nat (unat l))"
    using bin f ne by (simp_all add: defs)
  show "does (assign_short e s h) s (dec_of_int (sint h))" "does (add_short e s h) s (cs_text s @ dec_of_int (sint h))"
    "does (assign_ushort e s h) s (dec_of_int (int (unat h)))"
    using bin f(1,2) [of e "scast h"] f(1) [of e "ucast h"] ne by (simp_all add: defs sint_short)
qed

theorem add_char_zero:
  assumes "vs_ok (cs_vbf s)" "\<not> cs_bin s"
  shows "(\<exists>s'. add_char e s 0 = Some s' \<and> cs_text s' = cs_text s) \<and>
    (\<exists>s'. push_back s 0 = Some s' \<and> cs_text s' = cs_text s @ [0])"
proof -
  have "list_print e (lit ''%c'') [VInt 0] = Some []"
    by (simp add: list_print.simps strict_spec_def strict_prec_def parse_spec_def take_char_def num_field_def take_long_def
      list_conv_def c_sprintf_def sp_conv_def sp_pad_def is_flag_def is_length_def isdigit_def lit_def dec_value_def until_zero_def)
  from format_ok(2) [OF assms(1) this] assms(2) have "does (add_char e s 0) s (cs_text s)"
    by (simp add: add_char_def add_uchar_def add_num_def lit_def)
  with cs_ops(5) [OF assms(1), of 0] show ?thesis by (auto simp: does_def)
qed

theorem add_char_zero_witness:
  "\<exists>s s'. cs_of_bytes (\<lambda>i. 0) [1] = Some s \<and> add_char [] s 0 = Some s' \<and> cs_text s' = [1]"
proof -
  obtain s where s: "cs_of_bytes (\<lambda>i. 0) [1] = Some s" "cs_plain s" "cs_text s = [1]" using cs_of_bytes_ok by blast
  have "map_option cs_bin (cs_of_bytes (\<lambda>i. 0) [1]) = Some False" by code_simp
  with s add_char_zero [of s "[]"] show ?thesis by (auto simp: cs_plain_def)
qed

text \<open>\<open>right\<close> of the largest index, behind which there is nothing, is the whole string: the index
  wraps around.\<close>

theorem right_of_max:
  assumes "vs_ok (cs_vbf s)" "cs_len s > 0"
  shows "\<exists>s'. right junk s (2 ^ 64 - 1) = Some s' \<and> cs_text s' = cs_text s"
proof -
  have "(2 ^ 64 - 1 :: u64) + 1 = 0" by simp
  then have "right junk s (2 ^ 64 - 1) = cs_of_bytes junk (take (cs_len s) (cs_text s))"
    using assms(2) by (simp add: right_def)
  moreover have "take (cs_len s) (cs_text s) = cs_text s" using cs_len_text [OF assms(1)] by simp
  ultimately show ?thesis using cs_of_bytes_ok [of junk "cs_text s"] by auto
qed

theorem right_of_max_witness:
  "\<exists>s s'. cs_of_bytes (\<lambda>i. 0) [1] = Some s \<and> right (\<lambda>i. 0) s (2 ^ 64 - 1) = Some s' \<and> cs_text s' = [1]"
proof -
  obtain s where s: "cs_of_bytes (\<lambda>i. 0) [1] = Some s" "cs_plain s" "cs_text s = [1]" using cs_of_bytes_ok by blast
  then have "cs_len s > 0" using cs_len_text [of s] by (simp add: cs_plain_def)
  with s right_of_max [of s "\<lambda>i. 0"] show ?thesis by (auto simp: cs_plain_def)
qed

text \<open>Adding a string to itself reads its old buffer after it was reallocated, whenever the text
  does not fit twice.\<close>

theorem add_self_faults:
  assumes "vs_ok (cs_vbf s)" "2 * cs_len s > vs_size (cs_vbf s)"
  shows "add_self s = None"
proof -
  let ?v = "cs_vbf s" let ?n = "vs_pos ?v"
  have l: "0 < ?n" "int ?n > vs_cnt ?v" using assms by (auto simp: vs_ok_def vs_cnt_def)
  obtain w where w: "vstring_buf_space ?v (int ?n) = Some (0, w)" "vs_pos w = ?n" "?n + ?n \<le> vs_size w"
    by (rule vstring_buf_space_open [OF vs_okD [OF assms(1)], of ?n]) blast
  have "min (int ?n) (vs_cnt w) > 0" using w(2,3) l by (simp add: vs_cnt_def)
  with l w have "acl_vstring_memcat ?v (Own 0) ?n = None"
    by (simp add: acl_vstring_memcat_def src_bytes_def Let_def)
  then show ?thesis by (simp add: add_self_def on_buf_def)
qed

theorem add_self_faults_witness: "\<exists>s. cs_of_bytes (\<lambda>i. 0) [1, 2, 3] = Some s \<and> add_self s = None"
proof -
  obtain s where s: "cs_of_bytes (\<lambda>i. 0) [1, 2, 3] = Some s" "cs_plain s" "cs_text s = [1, 2, 3]"
    using cs_of_bytes_ok by blast
  have "map_option (\<lambda>s. (vs_size (cs_vbf s), cs_len s)) (cs_of_bytes (\<lambda>i. 0) [1, 2, 3]) = Some (4, 3)" by code_simp
  with s add_self_faults [of s] show ?thesis by (auto simp: cs_plain_def)
qed

section \<open>Prefixes, tokens and trimming\<close>

text \<open>A string without zero bytes, which is the same text as a C string.\<close>

lemma cs_cstr_text:
  assumes "vs_ok (cs_vbf s)" "c_string (cs_text s)"
  shows "cs_cstr s = Some (cs_text s)"
proof -
  let ?v = "cs_vbf s"
  have p: "vs_pos ?v < vs_size ?v" "vs_data ?v ! vs_pos ?v = 0" using assms(1) by (simp_all add: vs_ok_def)
  then have d: "vs_data ?v = cs_text s @ 0 # drop (Suc (vs_pos ?v)) (vs_data ?v)"
    by (metis Cons_nth_drop_Suc append_take_drop_id cs_text_def vs_text_def)
  then have "0 \<in> set (vs_data ?v)" using p by (metis nth_mem)
  moreover have "cstr_of (vs_data ?v) = cs_text s" using assms(2) by (subst d) simp
  ultimately show ?thesis by (simp add: cs_cstr_def)
qed

lemma c_strncmp_prefix:
  "c_string s \<Longrightarrow> c_string t \<Longrightarrow> c_strncmp s t (length t) = 0 \<longleftrightarrow> take (length t) s = t"
proof (induction t arbitrary: s)
  case (Cons y t)
  show ?case
  proof (cases s)
    case Nil
    with Cons.prems show ?thesis using uint_byte_eq [of y 0] by simp
  next
    case (Cons x s')
    with Cons.prems Cons.IH [of s'] show ?thesis by (simp add: uint_byte_eq)
  qed
qed simp

text \<open>\<open>begin_with\<close> and \<open>end_with\<close> on such strings are the prefix and the suffix test.\<close>

theorem begin_end_with:
  assumes "vs_ok (cs_vbf s)" "c_string (cs_text s)" "c_string t"
  shows "begin_with s t True = Some (\<exists>r. cs_text s = t @ r) \<and> end_with s t True = Some (\<exists>r. cs_text s = r @ t)"
proof -
  note c = cs_cstr_text [OF assms(1,2)]
  have "take (length t) (cs_text s) = t \<longleftrightarrow> (\<exists>r. cs_text s = t @ r)"
    by (metis append_eq_conv_conj append_take_drop_id)
  moreover have "take (length t) (rev (cs_text s)) = take (length t) (rev t) \<longleftrightarrow> (\<exists>r. cs_text s = r @ t)"
  proof
    assume "take (length t) (rev (cs_text s)) = take (length t) (rev t)"
    then have "rev (cs_text s) = rev t @ drop (length t) (rev (cs_text s))"
      by (metis append_take_drop_id length_rev take_all_iff order_refl)
    then show "\<exists>r. cs_text s = r @ t" by (metis rev_append rev_rev_ident)
  qed auto
  moreover have "acl_strrncmp (cs_text s) t (length t) = 0
      \<longleftrightarrow> take (length t) (rev (cs_text s)) = take (length t) (rev t)"
    using rncmp_zero [of "\<lambda>c. c", OF _ assms(2,3)] by (simp add: acl_strrncmp_def)
  ultimately show ?thesis
    using c c_strncmp_prefix [OF assms(2,3)]
    by (simp add: begin_with_def ncompare_def end_with_def rncompare_def)
qed

theorem begin_end_with_witness:
  "\<exists>s. cs_of_bytes (\<lambda>i. 0) (lit ''redis.conf'') = Some s \<and> end_with s (lit ''.conf'') True = Some True"
proof -
  obtain s where s: "cs_of_bytes (\<lambda>i. 0) (lit ''redis.conf'') = Some s" "cs_plain s" "cs_text s = lit ''redis'' @ lit ''.conf''"
    using cs_of_bytes_ok [of "\<lambda>i. 0" "lit ''redis.conf''"] by (auto simp: lit_def)
  have "c_string (lit ''redis'' @ lit ''.conf'')" "c_string (lit ''.conf'')" by code_simp+
  with s begin_end_with [of s "lit ''.conf''"] show ?thesis by (auto simp: cs_plain_def)
qed

text \<open>Splitting gives the tokens of the text.\<close>

lemma split_items_ok:
  assumes "vs_ok (cs_vbf s)" "c_string (cs_text s)" "sep \<noteq> []"
  shows "split_items junk s (Some sep) False = Some (strtok_tokens (cs_text s) (set sep))"
proof -
  let ?a = "acl_argv_split (cs_text s) sep"
  have ok: "argv_ok (acl_argv_alloc k)" for k using acl_argv_alloc_ok(1) by (rule argv_closedD)
  have a: "argv_closed ?a" "argv_strings ?a = strtok_tokens (cs_text s) (set sep)"
    using split_loop_ok [OF ok, of 1 "cs_text s" "set sep"] acl_argv_terminate_ok by (auto simp: acl_argv_split_def)
  then have it: "argv_iter_ok ?a" by (auto simp: argv_iter_ok_def argv_closed_def)
  have "length (argv_items ?a) < Suc (av_argc ?a)" by simp
  from argv_iter.foreach_elems [OF it this]
  have "acl_foreach (Suc (av_argc ?a)) argv_iter_head argv_iter_next ?a = Some (argv_items ?a)" .
  with assms(3) a(2) cs_cstr_text [OF assms(1,2)] show ?thesis by (simp add: split_items_def argv_strings_def)
qed

text \<open>\<open>strip\<close> byte by byte removes every byte of the needle from the text and keeps the others in
  order; so do \<open>trim_space\<close> and \<open>trim_line\<close> with theirs.\<close>

lemma strcat_all_ok:
  "vs_ok v \<Longrightarrow> \<exists>v'. strcat_all v ts = Some v' \<and> vs_ok v' \<and> vs_text v' = vs_text v @ concat ts"
proof (induction ts arbitrary: v)
  case (Cons t ts)
  obtain u where "acl_vstring_strcat v t = Some u" "vs_ok u" "vs_text u = vs_text v @ t"
    using acl_vstring_memcat_ok [OF vs_okD [OF Cons.prems] le_refl, of t] by (auto simp: acl_vstring_strcat_def)
  with Cons.IH [of u] show ?case by auto
qed simp

lemma strip_each_ok [cs_simps]:
  assumes ok: "vs_ok (cs_vbf s)" and c: "c_string (cs_text s)"
  shows "does (strip_each junk s needle) s (filter (\<lambda>b. b \<notin> set needle) (cs_text s))"
proof -
  let ?ts = "strtok_tokens (cs_text s) (set needle)"
  have cc: "concat ?ts = filter (\<lambda>b. b \<notin> set needle) (cs_text s)" using strtok_tokens_ok by blast
  show ?thesis
  proof (cases "?ts = []")
    case True
    let ?s = "s\<lparr>cs_vbf := vs_reset (cs_vbf s)\<rparr>"
    have "vs_open (vs_reset (cs_vbf s))" using ok by (simp add: vs_okD)
    then obtain v where "vs_terminate (vs_reset (cs_vbf s)) = Some v" "vs_ok v" "vs_text v = vs_text (vs_reset (cs_vbf s))"
      by (rule vs_terminate_open)
    then have "does (on_buf ?s vs_terminate) ?s []"
      using ok by (intro does_buf) (simp add: vs_okD)
    with True cc cs_cstr_text [OF ok c] show ?thesis by (simp add: strip_each_def does_def)
  next
    case False
    have n: "vs_ok (acl_vstring_alloc junk (cs_len s + 1))" "vs_text (acl_vstring_alloc junk (cs_len s + 1)) = []"
      by (simp_all add: acl_vstring_alloc_def vs_new_def vs_ok_def vs_text_def)
    obtain v where "strcat_all (acl_vstring_alloc junk (cs_len s + 1)) ?ts = Some v" "vs_ok v" "vs_text v = concat ?ts"
      using strcat_all_ok [OF n(1), of ?ts] n(2) by auto
    with False cc cs_cstr_text [OF ok c] show ?thesis
      by (auto simp: strip_each_def does_def new_buf_def cs_text_def)
  qed
qed

theorem strip_bytes:
  assumes s: "cs_plain s" and c: "c_string (cs_text s)" and n: "needle \<noteq> []"
  shows "(\<exists>s'. strip junk s (Some needle) True = Some s' \<and> cs_plain s' \<and>
      cs_text s' = filter (\<lambda>b. b \<notin> set needle) (cs_text s)) \<and>
    (\<exists>s'. trim_space junk s = Some s' \<and> cs_plain s' \<and> cs_text s' = filter (\<lambda>b. \<not> is_blank b) (cs_text s))"
proof -
  have e: "\<exists>s'. strip_each junk s nd = Some s' \<and> cs_plain s' \<and> cs_text s' = filter (\<lambda>b. b \<notin> set nd) (cs_text s)" for nd
    using s c by (intro does_plain [OF strip_each_ok]) (simp_all add: cs_plain_def)
  have "(\<lambda>b :: byte. b \<notin> set [32, 9]) = (\<lambda>b. \<not> is_blank b)" by (simp add: is_blank_def fun_eq_iff)
  with e [of needle] e [of "[32, 9]"] n show ?thesis by (simp add: strip_def trim_space_def)
qed

theorem strip_bytes_witness:
  "\<exists>s s'. cs_of_bytes (\<lambda>i. 0) (lit ''a b'') = Some s \<and> trim_space (\<lambda>i. 0) s = Some s' \<and> cs_text s' = lit ''ab''"
proof -
  obtain s where s: "cs_of_bytes (\<lambda>i. 0) (lit ''a b'') = Some s" "cs_plain s" "cs_text s = lit ''a b''"
    using cs_of_bytes_ok by blast
  with strip_bytes [of s "[32]" "\<lambda>i. 0"] show ?thesis by (auto simp: c_string_def lit_def is_blank_def)
qed

text \<open>Numbers in a binary string: what \<open><<\<close> wrote, \<open>>>\<close> reads back, in order.\<close>

fun of_le :: "byte list \<Rightarrow> nat" where
  "of_le [] = 0"
| "of_le (b # bs) = unat b + 256 * of_le bs"

lemma length_le_bytes [simp]: "length (le_bytes k n) = k"
  by (induction k arbitrary: n) auto

lemma of_le_bytes: "n < 256 ^ k \<Longrightarrow> of_le (le_bytes k n) = n"
proof (induction k arbitrary: n)
  case (Suc k)
  have "n div 256 < 256 ^ k" using Suc.prems by (simp add: less_mult_imp_div_less mult.commute)
  with Suc.IH have "of_le (le_bytes k (n div 256)) = n div 256" by blast
  moreover have "unat (of_nat (n mod 256) :: byte) = n mod 256" by (simp add: unat_of_nat)
  ultimately show ?case by simp
qed simp

fun shl_all :: "cstr \<Rightarrow> cpp_string \<Rightarrow> u64 list \<Rightarrow> cpp_string option" where
  "shl_all e s [] = Some s"
| "shl_all e s (n # ns) = do { s \<leftarrow> shl e s (ShlInt64 n); shl_all e s ns }"

fun shr_all :: "cpp_string \<Rightarrow> nat \<Rightarrow> (nat list \<times> cpp_string) option" where
  "shr_all s 0 = Some ([], s)"
| "shr_all s (Suc k) = do {
     (m, bs, s) \<leftarrow> shr_num s (replicate 8 0);
     (r, s) \<leftarrow> shr_all s k;
     Some (of_le bs # r, s) }"

lemma shl_all_ok:
  "cs_plain s \<Longrightarrow> cs_bin s \<Longrightarrow> \<exists>s'. shl_all e s ns = Some s' \<and> cs_plain s' \<and>
     cs_text s' = cs_text s @ concat (map (\<lambda>n. le_bytes 8 (unat n)) ns)"
proof (induction ns arbitrary: s)
  case (Cons n ns)
  have "le_bytes 8 (unat n) \<noteq> []" by (metis length_le_bytes list.size(3) zero_neq_numeral)
  then have "shl e s (ShlInt64 n) = append_bytes s (le_bytes 8 (unat n))"
    using Cons.prems(2) by (simp add: shl_def add_int64_def add_num_def)
  moreover have "does (append_bytes s (le_bytes 8 (unat n))) s (cs_text s @ le_bytes 8 (unat n))"
    using Cons.prems(1) by (intro cs_ops) (simp add: cs_plain_def)
  ultimately obtain u where "shl e s (ShlInt64 n) = Some u" "cs_plain u" "cs_bin u"
    "cs_text u = cs_text s @ le_bytes 8 (unat n)"
    using Cons.prems by (auto simp: does_def cs_plain_def)
  with Cons.IH [of u] show ?case by auto
qed simp

lemma scan_buf_ok:
  assumes ok: "cs_ok s" and n: "0 < n" "n \<le> length (cs_rest s)"
  shows "\<exists>s'. scan_buf s n False = Some (take n (cs_rest s), s') \<and> cs_ok s' \<and> cs_rest s' = drop n (cs_rest s)"
proof -
  from n have "cs_rest s \<noteq> []" by auto
  with ok obtain p where p: "buf_end s = Some (True, s\<lparr>cs_scan := ScanAt p\<rparr>)" "cs_rest s = drop p (cs_text s)"
    "p < cs_len s" "cs_ok (s\<lparr>cs_scan := ScanAt p\<rparr>)" by (rule buf_end_left)
  then have v: "vs_ok (cs_vbf s)" by (simp add: cs_ok_def)
  have l: "n \<le> cs_len s - p" using n p(2) cs_len_text [OF v] by simp
  let ?t = "s\<lparr>cs_scan := ScanAt (p + n)\<rparr>"
  have "scan_buf s n False = Some (take n (cs_rest s), ?t)"
    using n(1) l p(1,2) by (simp add: scan_buf_def Let_def min_absorb2)
  moreover have "cs_ok ?t" using v l p(3) by (simp add: cs_ok_def)
  ultimately show ?thesis using p(2) by (auto simp: add.commute)
qed

lemma shr_all_ok:
  "cs_ok s \<Longrightarrow> cs_rest s = concat (map (\<lambda>n :: u64. le_bytes 8 (unat n)) ns) \<Longrightarrow>
   \<exists>s'. shr_all s (length ns) = Some (map unat ns, s') \<and> cs_ok s' \<and> cs_rest s' = []"
proof (induction ns arbitrary: s)
  case (Cons n ns)
  let ?b = "le_bytes 8 (unat n)"
  obtain u where u: "scan_buf s 8 False = Some (?b, u)" "cs_ok u" "cs_rest u = concat (map (\<lambda>n. le_bytes 8 (unat n)) ns)"
    using scan_buf_ok [OF Cons.prems(1), of 8] Cons.prems(2) by auto
  have "unat n < 2 ^ 64" using unsigned_less [of n, where ?'a = nat] by simp
  then have "unat n < 256 ^ 8" by simp
  then have "of_le ?b = unat n" by (rule of_le_bytes)
  moreover have "shr_num s (replicate 8 0) = Some (8, ?b, u)" using u(1) by (simp add: shr_num_def)
  ultimately show ?case using Cons.IH [OF u(2,3)] by auto
qed simp

theorem binary_numbers_roundtrip:
  assumes "cs_plain s" "cs_bin s" "cs_text s = []"
  shows "\<exists>s1 s2. shl_all e s ns = Some s1 \<and> shr_all s1 (length ns) = Some (map unat ns, s2) \<and> cs_rest s2 = []"
proof -
  from shl_all_ok [OF assms(1,2), of e ns] assms(3) obtain s1 where
    s1: "shl_all e s ns = Some s1" "cs_plain s1" "cs_text s1 = concat (map (\<lambda>n. le_bytes 8 (unat n)) ns)" by auto
  with shr_all_ok [OF cs_plain_ok, of s1 ns] show ?thesis by auto
qed

theorem binary_numbers_roundtrip_witness:
  "\<exists>s s1 s2. cs_of_bytes (\<lambda>i. 0) [] = Some s \<and> shl_all [] (s\<lparr>cs_bin := True\<rparr>) [7, 300, 5] = Some s1 \<and>
     shr_all s1 3 = Some ([7, 300, 5], s2)"
proof -
  obtain s where s: "cs_of_bytes (\<lambda>i. 0) [] = Some s" "cs_plain s" "cs_text s = []" using cs_of_bytes_ok by blast
  then have "cs_plain (s\<lparr>cs_bin := True\<rparr>)" "cs_text (s\<lparr>cs_bin := True\<rparr>) = []"
    by (simp_all add: cs_plain_def cs_text_def)
  from binary_numbers_roundtrip [OF this(1) _ this(2), of "[]" "[7, 300, 5]"] s(1)
  show ?thesis by (auto simp: numeral_3_eq_3 [symmetric] eval_nat_numeral(3) [symmetric])
qed

end
