(* ===== verification/Acl_Codec.thy ===== *)
theory Acl_Codec
  imports Acl_Interfaces
begin

text \<open>
  The text codecs: base64 (\<^verbatim>\<open>code/acl_base64.c\<close>, \<^verbatim>\<open>code/acl_vstring_base64.c\<close>), URL
  (\<^verbatim>\<open>code/acl_urlcode.c\<close>) and hexadecimal (\<^verbatim>\<open>stdlib/string/acl_hex_code.c\<close>). An \<open>int\<close> that
  holds bits is a 32-bit word; storing it in a buffer keeps its low byte. A decoder that
  fills a buffer returns all bytes that it stores, on failure too, so that the bytes can be
  compared with the size of the buffer. The reverse tables have 255 entries: looking up the
  byte 255 reads past them.
\<close>

section \<open>The base64 tables\<close>

definition to_b64_tab :: "byte list" where
  "to_b64_tab = map of_nat ([65 ..< 91] @ [97 ..< 123] @ [48 ..< 58] @ [43, 47])"

definition un_b64_tab :: "byte list" where
  "un_b64_tab =
     replicate 43 255 @ [62] @ replicate 3 255 @ [63] @ map of_nat [52 ..< 62] @ replicate 7 255
     @ map of_nat [0 ..< 26] @ replicate 6 255 @ map of_nat [26 ..< 52] @ replicate 132 255"

definition b64 :: "u32 \<Rightarrow> byte" where
  "b64 i = to_b64_tab ! unat i"

section \<open>acl\_base64.c\<close>

fun base64_encode_loop :: "byte list \<Rightarrow> byte list" where
  "base64_encode_loop [] = []"
| "base64_encode_loop (a # s) =
     (let x = ucast a :: u32 in
      b64 (drop_bit 2 x AND 63) #
      (case s of
         [] \<Rightarrow> [b64 (push_bit 4 x AND 63), 61, 61]
       | b # s \<Rightarrow>
           let y = ucast b :: u32 in
           b64 ((push_bit 4 x OR (drop_bit 4 y AND 15)) AND 63) #
           (case s of
              [] \<Rightarrow> [b64 (push_bit 2 y AND 63), 61]
            | c # s \<Rightarrow>
                let x = ucast c :: u32 in
                b64 ((push_bit 2 y OR (drop_bit 6 x AND 3)) AND 63) #
                b64 (x AND 63) # base64_encode_loop s)))"

definition acl_base64_encode :: "byte list \<Rightarrow> cstr" where
  "acl_base64_encode inp = base64_encode_loop inp"

datatype b64_end = B64_Done | B64_Error | B64_Overread

text \<open>\<open>un_b64_tab[x]\<close>; the argument of the continuation is the entry found.\<close>

definition un_b64 :: "byte \<Rightarrow> (u32 \<Rightarrow> b64_end \<times> byte list) \<Rightarrow> b64_end \<times> byte list" where
  "un_b64 x k =
     (if unat x \<ge> length un_b64_tab then (B64_Overread, [])
      else if un_b64_tab ! unat x = 255 then (B64_Error, [])
      else k (ucast (un_b64_tab ! unat x)))"

definition store :: "u32 \<Rightarrow> b64_end \<times> byte list \<Rightarrow> b64_end \<times> byte list" where
  "store w r = (case r of (e, out) \<Rightarrow> (e, ucast w # out))"

text \<open>\<open>*code++\<close> on the rest of a C string: its head, or the final zero.\<close>

definition ch :: "cstr \<Rightarrow> byte" where
  "ch s = (case s of [] \<Rightarrow> 0 | c # t \<Rightarrow> c)"

function base64_decode_loop :: "cstr \<Rightarrow> b64_end \<times> byte list" where
  "base64_decode_loop code =
     (if code = [] then (B64_Done, [])
      else if ch code > 127 then (B64_Error, [])
      else un_b64 (ch code) (\<lambda>x.
        let code = tl code in
        if ch code = 0 then (B64_Error, [])
        else un_b64 (ch code) (\<lambda>y.
          let code = tl code in
          store (push_bit 2 x OR drop_bit 4 y)
            (if ch code = 61 then
               (if ch (tl code) \<noteq> 61 \<or> tl (tl code) \<noteq> [] then (B64_Error, []) else (B64_Done, []))
             else if ch code > 127 then (B64_Error, [])
             else un_b64 (ch code) (\<lambda>x.
               let code = tl code in
               store (push_bit 4 y OR drop_bit 2 x)
                 (if ch code = 61 then
                    (if tl code \<noteq> [] then (B64_Error, []) else (B64_Done, []))
                  else if ch code > 127 then (B64_Error, [])
                  else un_b64 (ch code) (\<lambda>y.
                    store (push_bit 6 x OR y) (base64_decode_loop (tl code)))))))))"
  by pat_completeness auto
termination
  by (relation "measure length") auto

declare base64_decode_loop.simps [simp del]

text \<open>The result (the decoded bytes, or \<open>None\<close> for -1), every byte stored, and the size of the
  buffer that was allocated for them.\<close>

definition acl_base64_decode :: "cstr \<Rightarrow> byte list option \<times> byte list \<times> nat" where
  "acl_base64_decode inp =
     (case base64_decode_loop inp of
        (e, out) \<Rightarrow>
          (if e = B64_Done then Some out else None,
           if e = B64_Done then out @ [0] else out,
           3 * (length inp div 4) + 1))"

section \<open>acl\_vstring\_base64.c\<close>

fun acl_vstring_base64_encode :: "byte list \<Rightarrow> byte list" where
  "acl_vstring_base64_encode [] = []"
| "acl_vstring_base64_encode [a] =
     [b64 (drop_bit 2 (ucast a)), b64 (push_bit 4 (ucast a AND 3)), 61, 61]"
| "acl_vstring_base64_encode [a, b] =
     [b64 (drop_bit 2 (ucast a)), b64 (push_bit 4 (ucast a AND 3) OR drop_bit 4 (ucast b)),
      b64 (push_bit 2 (ucast b AND 15)), 61]"
| "acl_vstring_base64_encode (a # b # c # s) =
     b64 (drop_bit 2 (ucast a)) # b64 (push_bit 4 (ucast a AND 3) OR drop_bit 4 (ucast b)) #
     b64 (push_bit 2 (ucast b AND 15) OR drop_bit 6 (ucast c)) # b64 (ucast c AND 63) #
     acl_vstring_base64_encode s"

text \<open>The loop reads four bytes at a time of an input whose length is a multiple of four.\<close>

fun vstring_decode_loop :: "byte list \<Rightarrow> b64_end \<times> byte list" where
  "vstring_decode_loop (c0 # c1 # c2 # c3 # s) =
     un_b64 c0 (\<lambda>ch0. un_b64 c1 (\<lambda>ch1.
       store (push_bit 2 ch0 OR drop_bit 4 ch1)
         (if c2 = 61 then (B64_Done, [])
          else un_b64 c2 (\<lambda>ch2.
            store (push_bit 4 ch1 OR drop_bit 2 ch2)
              (if c3 = 61 then (B64_Done, [])
               else un_b64 c3 (\<lambda>ch3.
                 store (push_bit 6 ch2 OR ch3) (vstring_decode_loop s)))))))"
| "vstring_decode_loop _ = (B64_Done, [])"

definition acl_vstring_base64_decode :: "byte list \<Rightarrow> byte list option" where
  "acl_vstring_base64_decode inp =
     (if length inp mod 4 \<noteq> 0 then None
      else case vstring_decode_loop inp of (e, out) \<Rightarrow> if e = B64_Done then Some out else None)"

section \<open>acl\_urlcode.c\<close>

definition enc_tab :: "byte list" where
  "enc_tab = map of_nat ([48 ..< 58] @ [65 ..< 71])"

definition url_plain :: "byte \<Rightarrow> bool" where
  "url_plain c \<longleftrightarrow> isalnum c \<or> c \<in> {95, 45, 46}"

fun acl_url_encode :: "cstr \<Rightarrow> cstr" where
  "acl_url_encode [] = []"
| "acl_url_encode (c # s) =
     (if \<not> url_plain c
      then 37 # enc_tab ! unat (drop_bit 4 c) # enc_tab ! unat (c AND 15) # acl_url_encode s
      else c # acl_url_encode s)"

definition dec_tab :: "byte list" where
  "dec_tab = replicate 48 0 @ map of_nat [0 ..< 10] @ replicate 7 0 @ map of_nat [10 ..< 16]
     @ replicate 26 0 @ map of_nat [10 ..< 16] @ replicate 153 0"

text \<open>
  At the boundary, with at most one byte left after the percent sign, that byte is stored
  without moving on, so that the final zero overwrites it.
\<close>

fun acl_url_decode :: "cstr \<Rightarrow> byte list" where
  "acl_url_decode [] = []"
| "acl_url_decode (c # s) =
     (if c \<noteq> 37 then c # acl_url_decode s
      else case s of
        a # b # t \<Rightarrow>
          if isalnum a \<and> isalnum b
          then (push_bit 4 (dec_tab ! unat a) + dec_tab ! unat b) # acl_url_decode t
          else c # acl_url_decode s
      | _ \<Rightarrow> [37])"

section \<open>acl\_hex\_code.c\<close>

fun acl_hex_encode :: "byte list \<Rightarrow> byte list" where
  "acl_hex_encode [] = []"
| "acl_hex_encode (c # s) =
     enc_tab ! unat (drop_bit 4 c AND 15) # enc_tab ! unat (c AND 15) # acl_hex_encode s"

definition hex_digit :: "byte \<Rightarrow> u32 option" where
  "hex_digit h =
     (if h \<ge> 48 \<and> h \<le> 57 then Some (ucast h - 48)
      else if h \<ge> 65 \<and> h \<le> 70 then Some (ucast h - 65 + 10)
      else if h \<ge> 97 \<and> h \<le> 102 then Some (ucast h - 97 + 10)
      else None)"

fun acl_hex_decode :: "byte list \<Rightarrow> byte list option" where
  "acl_hex_decode [] = Some []"
| "acl_hex_decode [a] = None"
| "acl_hex_decode (a # b # s) =
     (case (hex_digit a, hex_digit b) of
        (Some hi, Some lo) \<Rightarrow> map_option (Cons (ucast (push_bit 4 hi OR lo))) (acl_hex_decode s)
      | _ \<Rightarrow> None)"

section \<open>Bits\<close>

lemma masks: "(63 :: u32) = mask 6" "(15 :: u32) = mask 4" "(3 :: u32) = mask 2" "(15 :: byte) = mask 4"
  by (simp_all add: mask_eq_exp_minus_1)

lemma Suc_Suc_diff: "2 \<le> n \<Longrightarrow> Suc (Suc (n - 2)) = n"
  by simp

lemma unat_and_63: "unat (w AND 63 :: u32) < 64"
  using take_bit_nat_less_exp [of 6 "unat w"]
  by (simp add: masks flip: take_bit_eq_mask) (simp add: unsigned_take_bit_eq)

lemma b64_first:
  fixes a b :: byte
  shows "ucast (push_bit 2 (drop_bit 2 (ucast a :: u32) AND 63) OR
      drop_bit 4 ((push_bit 4 (ucast a) OR (drop_bit 4 (ucast b) AND 15)) AND 63)) = a"
    "ucast (push_bit 2 (drop_bit 2 (ucast a :: u32) AND 63) OR drop_bit 4 (push_bit 4 (ucast a) AND 63)) = a"
  unfolding masks
  by (rule bit_eqI, auto simp: bit_simps not_le not_less Suc_Suc_diff dest: bit_imp_le_length)+

lemma b64_second:
  fixes a b c :: byte
  shows "ucast (push_bit 4 ((push_bit 4 (ucast a) OR (drop_bit 4 (ucast b) AND 15)) AND 63) OR
      drop_bit 2 ((push_bit 2 (ucast b) OR (drop_bit 6 (ucast c) AND 3)) AND 63) :: u32) = b"
    "ucast (push_bit 4 ((push_bit 4 (ucast a) OR (drop_bit 4 (ucast b) AND 15)) AND 63) OR
      drop_bit 2 (push_bit 2 (ucast b) AND 63) :: u32) = b"
  unfolding masks
  by (rule bit_eqI, auto simp: bit_simps not_le not_less dest: bit_imp_le_length)+

lemma b64_third:
  fixes b c :: byte
  shows "ucast (push_bit 6 ((push_bit 2 (ucast b) OR (drop_bit 6 (ucast c) AND 3)) AND 63) OR
      (ucast c AND 63) :: u32) = c"
  unfolding masks
  by (rule bit_eqI) (auto simp: bit_simps not_le not_less dest: bit_imp_le_length)

text \<open>The indices of \<^verbatim>\<open>acl_vstring_base64.c\<close> are those of \<^verbatim>\<open>acl_base64.c\<close>.\<close>

lemma b64_indices:
  fixes a b c :: byte
  shows "(drop_bit 2 (ucast a) :: u32) = drop_bit 2 (ucast a) AND 63"
    "(push_bit 4 (ucast a AND 3) :: u32) = push_bit 4 (ucast a) AND 63"
    "(push_bit 4 (ucast a AND 3) OR drop_bit 4 (ucast b) :: u32)
      = (push_bit 4 (ucast a) OR (drop_bit 4 (ucast b) AND 15)) AND 63"
    "(push_bit 2 (ucast b AND 15) :: u32) = push_bit 2 (ucast b) AND 63"
    "(push_bit 2 (ucast b AND 15) OR drop_bit 6 (ucast c) :: u32)
      = (push_bit 2 (ucast b) OR (drop_bit 6 (ucast c) AND 3)) AND 63"
proof -
  have bit: "bit x n \<Longrightarrow> n < 8" for x :: byte and n using bit_imp_le_length by force
  show "(drop_bit 2 (ucast a) :: u32) = drop_bit 2 (ucast a) AND 63"
    unfolding masks by (rule bit_eqI) (auto simp: bit_simps dest: bit)
  show "(push_bit 4 (ucast a AND 3) :: u32) = push_bit 4 (ucast a) AND 63"
    unfolding masks by (rule bit_eqI) (auto simp: bit_simps dest: bit)
  show "(push_bit 4 (ucast a AND 3) OR drop_bit 4 (ucast b) :: u32)
      = (push_bit 4 (ucast a) OR (drop_bit 4 (ucast b) AND 15)) AND 63"
    unfolding masks by (rule bit_eqI) (auto simp: bit_simps dest: bit)
  show "(push_bit 2 (ucast b AND 15) :: u32) = push_bit 2 (ucast b) AND 63"
    unfolding masks by (rule bit_eqI) (auto simp: bit_simps dest: bit)
  show "(push_bit 2 (ucast b AND 15) OR drop_bit 6 (ucast c) :: u32)
      = (push_bit 2 (ucast b) OR (drop_bit 6 (ucast c) AND 3)) AND 63"
    unfolding masks by (rule bit_eqI) (auto simp: bit_simps dest: bit)
qed

section \<open>Base64 round trip\<close>

lemma b64_tab_all:
  "list_all (\<lambda>n. unat (to_b64_tab ! n) < 128 \<and> to_b64_tab ! n \<noteq> 0 \<and> to_b64_tab ! n \<noteq> 61 \<and>
     un_b64_tab ! unat (to_b64_tab ! n) = of_nat n) [0 ..< 64]"
  by code_simp

lemma b64_facts:
  assumes "unat i < 64"
  shows "b64 i \<noteq> 0" "b64 i \<noteq> 61" "\<not> b64 i > 127" "un_b64 (b64 i) k = k i"
proof -
  from b64_tab_all assms have tab: "unat (b64 i) < 128" "b64 i \<noteq> 0" "b64 i \<noteq> 61"
    "un_b64_tab ! unat (b64 i) = of_nat (unat i)"
    by (auto simp: list_all_iff b64_def)
  then show "b64 i \<noteq> 0" "b64 i \<noteq> 61" "\<not> b64 i > 127" by (simp_all add: word_less_nat_alt)
  have len: "length un_b64_tab = 255" by (simp add: un_b64_tab_def)
  have w: "unat (of_nat (unat i) :: byte) = unat i"
    using assms by (subst unsigned_of_nat) (simp add: take_bit_nat_eq_self)
  then have ne: "(of_nat (unat i) :: byte) \<noteq> 255" using assms by (auto simp: word_unat_eq_iff)
  have "ucast (of_nat (unat i) :: byte) = i"
    by (rule word_unat_eq_iff [THEN iffD2])
       (simp only: unsigned_ucast_eq w, use assms in \<open>simp add: take_bit_nat_eq_self\<close>)
  with ne show "un_b64 (b64 i) k = k i" using tab(1,4) by (simp add: un_b64_def len)
qed

lemmas b64_idx = b64_facts [OF unat_and_63]

lemma base64_encode_ne: "base64_encode_loop s = [] \<longleftrightarrow> s = []"
  by (cases s) (simp_all add: Let_def)

lemma ch_Cons [simp]: "ch (c # s) = c"
  by (simp add: ch_def)

lemma ch_Nil [simp]: "ch [] = 0"
  by (simp add: ch_def)

lemma base64_decode_step:
  fixes i0 i1 :: u32
  assumes "unat i0 < 64" "unat i1 < 64"
  shows "base64_decode_loop (b64 i0 # b64 i1 # rest) =
     store (push_bit 2 i0 OR drop_bit 4 i1)
            (if ch rest = 61 then
               (if ch (tl rest) \<noteq> 61 \<or> tl (tl rest) \<noteq> [] then (B64_Error, []) else (B64_Done, []))
             else if ch rest > 127 then (B64_Error, [])
             else un_b64 (ch rest) (\<lambda>x.
               let code = tl rest in
               store (push_bit 4 i1 OR drop_bit 2 x)
                 (if ch code = 61 then
                    (if tl code \<noteq> [] then (B64_Error, []) else (B64_Done, []))
                  else if ch code > 127 then (B64_Error, [])
                  else un_b64 (ch code) (\<lambda>y.
                    store (push_bit 6 x OR y) (base64_decode_loop (tl code))))))"
  by (subst base64_decode_loop.simps) (simp add: b64_facts [OF assms(1)] b64_facts [OF assms(2)] Let_def)

text \<open>The encoder in terms of the indices.\<close>

lemma base64_encode_shape:
  fixes a b c :: byte
  obtains i0 i1 where "base64_encode_loop [a] = [b64 i0, b64 i1, 61, 61]" "unat i0 < 64" "unat i1 < 64"
    "ucast (push_bit 2 i0 OR drop_bit 4 i1) = a"
proof
  show "base64_encode_loop [a]
      = [b64 (drop_bit 2 (ucast a) AND 63), b64 (push_bit 4 (ucast a) AND 63), 61, 61]"
    by (simp only: base64_encode_loop.simps list.case Let_def)
qed (rule unat_and_63 b64_first)+

lemma base64_encode_shape2:
  fixes a b c :: byte
  obtains i0 i1 i2 where "base64_encode_loop [a, b] = [b64 i0, b64 i1, b64 i2, 61]"
    "unat i0 < 64" "unat i1 < 64" "unat i2 < 64"
    "ucast (push_bit 2 i0 OR drop_bit 4 i1) = a" "ucast (push_bit 4 i1 OR drop_bit 2 i2) = b"
proof
  show "base64_encode_loop [a, b] =
    [b64 (drop_bit 2 (ucast a) AND 63), b64 ((push_bit 4 (ucast a) OR (drop_bit 4 (ucast b) AND 15)) AND 63),
     b64 (push_bit 2 (ucast b) AND 63), 61]"
    by (simp only: base64_encode_loop.simps list.case Let_def)
qed (rule unat_and_63 b64_first b64_second)+

lemma base64_encode_shape3:
  fixes a b c :: byte
  obtains i0 i1 i2 i3 where
    "base64_encode_loop (a # b # c # s) = b64 i0 # b64 i1 # b64 i2 # b64 i3 # base64_encode_loop s"
    "unat i0 < 64" "unat i1 < 64" "unat i2 < 64" "unat i3 < 64"
    "ucast (push_bit 2 i0 OR drop_bit 4 i1) = a" "ucast (push_bit 4 i1 OR drop_bit 2 i2) = b"
    "ucast (push_bit 6 i2 OR i3) = c"
proof
  show "base64_encode_loop (a # b # c # s) =
     b64 (drop_bit 2 (ucast a) AND 63) # b64 ((push_bit 4 (ucast a) OR (drop_bit 4 (ucast b) AND 15)) AND 63) #
     b64 ((push_bit 2 (ucast b) OR (drop_bit 6 (ucast c) AND 3)) AND 63) # b64 (ucast c AND 63) # base64_encode_loop s"
    by (simp only: base64_encode_loop.simps list.case Let_def)
qed (rule unat_and_63 b64_first b64_second b64_third)+

fun triples :: "'a list \<Rightarrow> bool" where
  "triples [] = True"
| "triples [a] = True"
| "triples [a, b] = True"
| "triples (a # b # c # s) = triples s"

lemma base64_roundtrip_loop: "base64_decode_loop (base64_encode_loop s) = (B64_Done, s)"
proof (induction s rule: triples.induct)
  case 1
  then show ?case by (simp add: base64_decode_loop.simps)
next
  case (2 a)
  show ?case
  proof (rule base64_encode_shape [of a])
    fix i0 i1
    assume i: "base64_encode_loop [a] = [b64 i0, b64 i1, 61, 61]" "unat i0 < 64" "unat i1 < 64"
      "ucast (push_bit 2 i0 OR drop_bit 4 i1) = a"
    show ?thesis unfolding i(1) base64_decode_step [OF i(2,3)] by (simp add: store_def i(4))
  qed
next
  case (3 a b)
  show ?case
  proof (rule base64_encode_shape2 [of a b])
    fix i0 i1 i2
    assume i: "base64_encode_loop [a, b] = [b64 i0, b64 i1, b64 i2, 61]"
      "unat i0 < 64" "unat i1 < 64" "unat i2 < 64"
      "ucast (push_bit 2 i0 OR drop_bit 4 i1) = a" "ucast (push_bit 4 i1 OR drop_bit 2 i2) = b"
    note i2 = b64_facts [OF i(4)]
    show ?thesis unfolding i(1) base64_decode_step [OF i(2,3)] by (simp add: store_def i(5,6) i2)
  qed
next
  case (4 a b c s)
  show ?case
  proof (rule base64_encode_shape3 [of a b c s])
    fix i0 i1 i2 i3
    assume i: "base64_encode_loop (a # b # c # s) = b64 i0 # b64 i1 # b64 i2 # b64 i3 # base64_encode_loop s"
      "unat i0 < 64" "unat i1 < 64" "unat i2 < 64" "unat i3 < 64"
      "ucast (push_bit 2 i0 OR drop_bit 4 i1) = a" "ucast (push_bit 4 i1 OR drop_bit 2 i2) = b"
      "ucast (push_bit 6 i2 OR i3) = c"
    note i23 = b64_facts [OF i(4)] b64_facts [OF i(5)]
    show ?thesis unfolding i(1) base64_decode_step [OF i(2,3)] by (simp add: store_def i(6-8) i23 4)
  qed
qed

lemma acl_base64_encode_vstring: "acl_vstring_base64_encode s = acl_base64_encode s"
proof -
  have "acl_vstring_base64_encode s = base64_encode_loop s"
    by (induction s rule: acl_vstring_base64_encode.induct)
       (simp_all only: acl_vstring_base64_encode.simps base64_encode_loop.simps list.case Let_def b64_indices [symmetric])
  then show ?thesis by (simp add: acl_base64_encode_def)
qed

lemma vstring_roundtrip_loop: "vstring_decode_loop (base64_encode_loop s) = (B64_Done, s)"
proof (induction s rule: triples.induct)
  case (2 a)
  show ?case
  proof (rule base64_encode_shape [of a])
    fix i0 i1
    assume i: "base64_encode_loop [a] = [b64 i0, b64 i1, 61, 61]" "unat i0 < 64" "unat i1 < 64"
      "ucast (push_bit 2 i0 OR drop_bit 4 i1) = a"
    show ?thesis unfolding i(1) by (simp add: store_def i(4) b64_facts i(2,3))
  qed
next
  case (3 a b)
  show ?case
  proof (rule base64_encode_shape2 [of a b])
    fix i0 i1 i2
    assume i: "base64_encode_loop [a, b] = [b64 i0, b64 i1, b64 i2, 61]"
      "unat i0 < 64" "unat i1 < 64" "unat i2 < 64"
      "ucast (push_bit 2 i0 OR drop_bit 4 i1) = a" "ucast (push_bit 4 i1 OR drop_bit 2 i2) = b"
    show ?thesis unfolding i(1) by (simp add: store_def i(5,6) b64_facts i(2-4))
  qed
next
  case (4 a b c s)
  show ?case
  proof (rule base64_encode_shape3 [of a b c s])
    fix i0 i1 i2 i3
    assume i: "base64_encode_loop (a # b # c # s) = b64 i0 # b64 i1 # b64 i2 # b64 i3 # base64_encode_loop s"
      "unat i0 < 64" "unat i1 < 64" "unat i2 < 64" "unat i3 < 64"
      "ucast (push_bit 2 i0 OR drop_bit 4 i1) = a" "ucast (push_bit 4 i1 OR drop_bit 2 i2) = b"
      "ucast (push_bit 6 i2 OR i3) = c"
    show ?thesis unfolding i(1) by (simp add: store_def i(6-8) b64_facts i(2-5) 4)
  qed
qed simp

lemma length_base64_encode: "length (base64_encode_loop s) = 4 * ((length s + 2) div 3)"
proof (induction s rule: triples.induct)
  case (4 a b c s)
  have "4 * ((5 + n) div 3) = 4 + 4 * ((n + 2) div 3)" for n :: nat by presburger
  from this [of "length s"] 4 show ?case by (simp add: Let_def)
qed (simp_all add: Let_def)

interpretation base64: codec acl_base64_encode "\<lambda>s. fst (acl_base64_decode s)" "\<lambda>_. True"
  by unfold_locales (simp add: acl_base64_encode_def acl_base64_decode_def base64_roundtrip_loop)

interpretation vstring_base64: codec acl_vstring_base64_encode acl_vstring_base64_decode "\<lambda>_. True"
proof unfold_locales
  fix s
  have "length (base64_encode_loop s) mod 4 = 0" by (simp add: length_base64_encode)
  then show "acl_vstring_base64_decode (acl_vstring_base64_encode s) = Some s"
    by (simp add: acl_base64_encode_vstring acl_base64_encode_def acl_vstring_base64_decode_def vstring_roundtrip_loop)
qed

section \<open>Hexadecimal and URL round trips\<close>

lemma enc_tab_all:
  "list_all (\<lambda>n. isalnum (enc_tab ! n) \<and> dec_tab ! unat (enc_tab ! n) = of_nat n \<and>
     hex_digit (enc_tab ! n) = Some (of_nat n)) [0 ..< 16]"
  by code_simp

lemma enc_tab:
  fixes i :: byte
  assumes "unat i < 16"
  shows "isalnum (enc_tab ! unat i)" "dec_tab ! unat (enc_tab ! unat i) = i"
    "hex_digit (enc_tab ! unat i) = Some (ucast i)"
proof -
  have w: "of_nat (unat i) = i" by simp
  from enc_tab_all assms have t: "isalnum (enc_tab ! unat i)" "dec_tab ! unat (enc_tab ! unat i) = of_nat (unat i)"
    "hex_digit (enc_tab ! unat i) = Some (of_nat (unat i))"
    by (auto simp: list_all_iff)
  then show "isalnum (enc_tab ! unat i)" "dec_tab ! unat (enc_tab ! unat i) = i" by simp_all
  show "hex_digit (enc_tab ! unat i) = Some (ucast i)" using t(3) by simp
qed

lemma nibbles: "unat (drop_bit 4 c) < 16" "unat (c AND 15) < 16" "drop_bit 4 c AND 15 = drop_bit 4 c" for c :: byte
proof -
  have less: "unat c < 256" using unsigned_less [where w = c] by simp
  then have "unat (drop_bit 4 c) = drop_bit 4 (unat c)"
    by (simp add: unsigned_drop_bit_eq take_bit_nat_eq_self)
  with less show "unat (drop_bit 4 c) < 16"
    by (simp add: drop_bit_eq_div)
  have "unat (c AND 15) = take_bit 4 (unat c)"
    by (simp add: masks flip: take_bit_eq_mask) (simp add: unsigned_take_bit_eq)
  then show "unat (c AND 15) < 16" using take_bit_nat_less_exp [of 4 "unat c"] by simp
  show "drop_bit 4 c AND 15 = drop_bit 4 c"
    unfolding masks by (rule bit_eqI) (auto simp: bit_simps dest: bit_imp_le_length)
qed

lemma nibbles_join:
  "push_bit 4 (drop_bit 4 c) + (c AND 15) = c" "ucast (push_bit 4 (ucast (drop_bit 4 c)) OR ucast (c AND 15) :: u32) = c"
  for c :: byte
proof -
  have "push_bit 4 (drop_bit 4 c) + take_bit 4 c = c" by (rule bits_ident)
  then show "push_bit 4 (drop_bit 4 c) + (c AND 15) = c" by (simp add: masks take_bit_eq_mask)
  show "ucast (push_bit 4 (ucast (drop_bit 4 c)) OR ucast (c AND 15) :: u32) = c"
    unfolding masks by (rule bit_eqI) (auto simp: bit_simps dest: bit_imp_le_length)
qed

lemma hex_roundtrip: "acl_hex_decode (acl_hex_encode s) = Some s"
proof (induction s)
  case (Cons c s)
  then show ?case
    by (simp add: enc_tab [OF nibbles(1)] enc_tab [OF nibbles(2)] nibbles(3) nibbles_join(2))
qed simp

lemma url_roundtrip: "acl_url_decode (acl_url_encode s) = s"
proof (induction s)
  case (Cons c s)
  show ?case
  proof (cases "url_plain c")
    case True
    then have "c \<noteq> 37" by (auto simp: url_plain_def isalnum_def isalpha_def isupper_def islower_def isdigit_def)
    with True Cons show ?thesis by simp
  next
    case False
    with Cons show ?thesis
      by (simp add: enc_tab [OF nibbles(1)] enc_tab [OF nibbles(2)] nibbles_join(1))
  qed
qed simp

interpretation url: codec acl_url_encode "\<lambda>s. Some (acl_url_decode s)" "\<lambda>_. True"
  by unfold_locales (simp add: url_roundtrip)

interpretation hex: codec acl_hex_encode acl_hex_decode "\<lambda>_. True"
  by unfold_locales (rule hex_roundtrip)

lemma acl_url_encode_plain: "list_all (\<lambda>c. url_plain c \<or> c = 37) (acl_url_encode s)"
  by (induction s) (auto simp: url_plain_def enc_tab [OF nibbles(1)] enc_tab [OF nibbles(2)])

section \<open>Properties\<close>

text \<open>C39: \<open>acl_base64_decode\<close> gives back any bytes that \<open>acl_base64_encode\<close> has encoded,
  zeros included, and on such input everything it stores, the final zero too, fits in the
  buffer that it has allocated; \<open>acl_vstring_base64_encode\<close> makes the same text, and
  \<open>acl_vstring_base64_decode\<close> decodes it as well.\<close>

theorem base64_roundtrip:
  "(case acl_base64_decode (acl_base64_encode s) of
      (res, stored, room) \<Rightarrow> res = Some s \<and> stored = s @ [0] \<and> length stored \<le> room) \<and>
   acl_vstring_base64_encode s = acl_base64_encode s \<and>
   acl_vstring_base64_decode (acl_base64_encode s) = Some s"
proof -
  have "length s + 1 \<le> 3 * ((length s + 2) div 3) + 1" by presburger
  then have "case acl_base64_decode (acl_base64_encode s) of
      (res, stored, room) \<Rightarrow> res = Some s \<and> stored = s @ [0] \<and> length stored \<le> room"
    by (simp add: acl_base64_decode_def acl_base64_encode_def base64_roundtrip_loop length_base64_encode)
  with vstring_base64.decode_encode [of s] show ?thesis by (simp add: acl_base64_encode_vstring)
qed

text \<open>C40: \<open>acl_base64_decode\<close> on three characters of the base64 alphabet returns -1, as it should,
  but before that it stores two bytes in a buffer of one: the buffer is allocated for whole
  groups of four characters only.\<close>

theorem base64_decode_overflow:
  assumes "unat i0 < 64" "unat i1 < 64" "unat i2 < 64"
  shows "case acl_base64_decode [b64 i0, b64 i1, b64 i2] of
    (res, stored, room) \<Rightarrow> res = None \<and> length stored = 2 \<and> room = 1"
proof -
  have "un_b64_tab ! 0 = 255 \<and> length un_b64_tab = 255" by code_simp
  then have "un_b64 0 k = (B64_Error, [])" for k by (simp add: un_b64_def)
  then have "base64_decode_loop [b64 i0, b64 i1, b64 i2] =
      store (push_bit 2 i0 OR drop_bit 4 i1) (store (push_bit 4 i1 OR drop_bit 2 i2) (B64_Error, []))"
    unfolding base64_decode_step [OF assms(1,2)] by (simp add: b64_facts [OF assms(3)])
  then show ?thesis by (simp add: acl_base64_decode_def store_def)
qed

theorem base64_decode_overflow_witness:
  "fst (snd (acl_base64_decode (lit ''QQQ''))) \<noteq> [] \<and> fst (acl_base64_decode (lit ''QQQ'')) = None"
proof -
  have "[b64 16, b64 16, b64 16] = lit ''QQQ''" by (simp add: b64_def to_b64_tab_def lit_def)
  with base64_decode_overflow [of 16 16 16] show ?thesis by (auto simp: split_beta)
qed

text \<open>\<open>acl_url_decode\<close> gives back any string that \<open>acl_url_encode\<close> has encoded, and the
  encoder writes only letters, digits, underscores, minuses, dots and percent signs.\<close>

theorem url_encode_roundtrip:
  "acl_url_decode (acl_url_encode s) = s \<and> list_all (\<lambda>c. url_plain c \<or> c = 37) (acl_url_encode s)"
  using url_roundtrip acl_url_encode_plain by blast

text \<open>\<open>acl_url_decode\<close> drops the last character of a string that has its only percent sign
  in the place before it: the character is stored but the final zero overwrites it.\<close>

theorem url_decode_drops_last:
  assumes "37 \<notin> set s"
  shows "acl_url_decode (s @ [37, c]) = s @ [37]"
  using assms by (induction s) auto

theorem url_decode_drops_last_witness: "acl_url_decode (lit ''50%x'') = lit ''50%''"
  using url_decode_drops_last [of "lit ''50''" "120"] by (simp add: lit_def)

text \<open>\<open>acl_hex_decode\<close> gives back any bytes that \<open>acl_hex_encode\<close> has encoded, with two
  digits for each byte.\<close>

theorem hex_encode_roundtrip:
  "acl_hex_decode (acl_hex_encode s) = Some s \<and> length (acl_hex_encode s) = 2 * length s"
proof -
  have "length (acl_hex_encode s) = 2 * length s" by (induction s) auto
  then show ?thesis using hex_roundtrip by blast
qed

end
