(* ===== verification/Acl_Rfc1035.thy ===== *)
theory Acl_Rfc1035
  imports Acl_Mystring
begin

text \<open>
  DNS messages: \<^verbatim>\<open>acllib/src/net/dns/rfc1035.c\<close>. A message is the list of its octets. What
  is packed in network byte order is two or four octets, the high one first; a bit field is
  a word of its width. Outcomes are values:
  \<^item> \<open>Good\<close> and \<open>Bad\<close>, where the code returns success or its error code;
  \<^item> \<open>Fatal\<close>, where it calls \<open>acl_msg_fatal\<close>, which ends the process;
  \<^item> \<open>Overrun\<close>, where it reads or writes outside the buffer it was given;
  \<^item> \<open>DoubleFree\<close>, where it frees a block a second time.
  A packing function is given the room that its caller passes as \<open>sz\<close> and returns the octets
  it writes. \<open>inet_addr\<close> is the C library's: an address as its four octets, a parameter.
\<close>

datatype 'a outcome = Good 'a | Bad int | Fatal | Overrun | DoubleFree

fun bind_out :: "'a outcome \<Rightarrow> ('a \<Rightarrow> 'b outcome) \<Rightarrow> 'b outcome" where
  "bind_out (Good x) f = f x"
| "bind_out (Bad n) f = Bad n"
| "bind_out Fatal f = Fatal"
| "bind_out Overrun f = Overrun"
| "bind_out DoubleFree f = DoubleFree"

lemma bind_out_Good: "bind_out m f = Good y \<longleftrightarrow> (\<exists>x. m = Good x \<and> f x = Good y)"
  by (cases m) auto

section \<open>Data\<close>

record rfc1035_rr =
  rr_name :: cstr
  rr_type :: u16
  rr_tclass :: u16
  rr_ttl :: u32
  rr_rdlength :: u16
  rr_rdata :: "byte list"

record rfc1035_query =
  q_name :: cstr
  q_qtype :: u16
  q_qclass :: u16

record rfc1035_header =
  h_id :: u16
  h_qr :: "1 word"
  h_opcode :: "4 word"
  h_aa :: "1 word"
  h_tc :: "1 word"
  h_rd :: "1 word"
  h_ra :: "1 word"
  h_rcode :: "4 word"
  h_qdcount :: u16
  h_ancount :: u16
  h_nscount :: u16
  h_arcount :: u16

record rfc1035_message = rfc1035_header +
  m_query :: "rfc1035_query list"
  m_answer :: "rfc1035_rr list"

abbreviation MAXHOSTNAMESZ :: nat where "MAXHOSTNAMESZ \<equiv> 256"
abbreviation MAXLABELSZ :: nat where "MAXLABELSZ \<equiv> 63"
abbreviation TYPE_A :: u16 where "TYPE_A \<equiv> 1"
abbreviation TYPE_NS :: u16 where "TYPE_NS \<equiv> 2"
abbreviation TYPE_PTR :: u16 where "TYPE_PTR \<equiv> 12"
abbreviation CLASS_IN :: u16 where "CLASS_IN \<equiv> 1"
abbreviation unpack_error :: int where "unpack_error \<equiv> 15"

text \<open>\<open>htons\<close>/\<open>htonl\<close> with \<open>memcpy\<close>, and back.\<close>

definition be16 :: "u16 \<Rightarrow> byte list" where
  "be16 w = [ucast (drop_bit 8 w), ucast w]"

definition be32 :: "u32 \<Rightarrow> byte list" where
  "be32 w = [ucast (drop_bit 24 w), ucast (drop_bit 16 w), ucast (drop_bit 8 w), ucast w]"

definition get16 :: "byte list \<Rightarrow> nat \<Rightarrow> u16" where
  "get16 buf off = push_bit 8 (ucast (buf ! off)) OR ucast (buf ! (off + 1))"

definition get32 :: "byte list \<Rightarrow> nat \<Rightarrow> u32" where
  "get32 buf off =
     push_bit 24 (ucast (buf ! off)) OR push_bit 16 (ucast (buf ! (off + 1)))
     OR push_bit 8 (ucast (buf ! (off + 2))) OR ucast (buf ! (off + 3))"

section \<open>Packing\<close>

definition header_flags :: "('a) rfc1035_header_scheme \<Rightarrow> u16" where
  "header_flags h =
     push_bit 15 (ucast (h_qr h)) OR push_bit 11 (ucast (h_opcode h)) OR push_bit 10 (ucast (h_aa h))
     OR push_bit 9 (ucast (h_tc h)) OR push_bit 8 (ucast (h_rd h)) OR push_bit 7 (ucast (h_ra h))
     OR ucast (h_rcode h)"

definition rfc1035HeaderPack :: "nat \<Rightarrow> 'a rfc1035_header_scheme \<Rightarrow> byte list outcome" where
  "rfc1035HeaderPack sz h =
     (if sz < 12 then Fatal
      else Good (be16 (h_id h) @ be16 (header_flags h) @ be16 (h_qdcount h) @ be16 (h_ancount h)
             @ be16 (h_nscount h) @ be16 (h_arcount h)))"

definition rfc1035LabelPack :: "nat \<Rightarrow> cstr option \<Rightarrow> byte list outcome" where
  "rfc1035LabelPack sz label =
     (let s = (case label of None \<Rightarrow> [] | Some s \<Rightarrow> s);
          len = min (length s) MAXLABELSZ
      in if 46 \<in> set s then Fatal
         else if sz < len + 1 then Fatal
         else Good (of_nat len # take len s))"

fun labels_pack :: "nat \<Rightarrow> cstr list \<Rightarrow> byte list outcome" where
  "labels_pack sz [] = rfc1035LabelPack sz None"
| "labels_pack sz (t # ts) =
     bind_out (rfc1035LabelPack sz (Some t)) (\<lambda>b.
     bind_out (labels_pack (sz - length b) ts) (\<lambda>bs. Good (b @ bs)))"

definition rfc1035NamePack :: "nat \<Rightarrow> cstr \<Rightarrow> byte list outcome" where
  "rfc1035NamePack sz name = labels_pack sz (strtok_tokens name {46})"

text \<open>The type and class are written before the size is checked.\<close>

definition rfc1035QuestionPack :: "nat \<Rightarrow> cstr \<Rightarrow> u16 \<Rightarrow> u16 \<Rightarrow> byte list outcome" where
  "rfc1035QuestionPack sz name type tclass =
     bind_out (rfc1035NamePack sz name) (\<lambda>n.
       let out = n @ be16 type @ be16 tclass
       in if length out > sz then Overrun else Good out)"

text \<open>
  The size is checked last, and the name of an NS or PTR record is packed with the whole
  \<open>sz\<close> as its room, though it does not start at the beginning of the buffer.
  \<open>Bad 0\<close> is the result 0.
\<close>

definition rfc1035RRPack :: "nat \<Rightarrow> rfc1035_rr \<Rightarrow> byte list outcome" where
  "rfc1035RRPack sz RR =
     bind_out (rfc1035NamePack sz (rr_name RR)) (\<lambda>n.
       let fixed = n @ be16 (rr_type RR) @ be16 (rr_tclass RR) @ be32 (rr_ttl RR) in
       if length fixed > sz then Overrun
       else if rr_type RR = TYPE_PTR \<or> rr_type RR = TYPE_NS then
         (if length (cstr_of (rr_rdata RR)) > MAXHOSTNAMESZ then Bad 0
          else bind_out (rfc1035NamePack sz (cstr_of (rr_rdata RR))) (\<lambda>d.
            let out = fixed @ be16 (of_nat (length d)) @ d
            in if length out > sz then Overrun else Good out))
       else
         let out = fixed @ be16 (rr_rdlength RR) @ take (unat (rr_rdlength RR)) (rr_rdata RR)
         in if length out > sz then Overrun else Good out)"

section \<open>Unpacking\<close>

definition rfc1035HeaderUnpack :: "byte list \<Rightarrow> (rfc1035_header \<times> nat) outcome" where
  "rfc1035HeaderUnpack buf =
     (if length buf < 12 then Bad 1
      else
        let t = get16 buf 2
        in Good (\<lparr>h_id = get16 buf 0,
                  h_qr = ucast (drop_bit 15 t AND 1),
                  h_opcode = ucast (drop_bit 11 t AND 15),
                  h_aa = ucast (drop_bit 10 t AND 1),
                  h_tc = ucast (drop_bit 9 t AND 1),
                  h_rd = ucast (drop_bit 8 t AND 1),
                  h_ra = ucast (drop_bit 7 t AND 1),
                  h_rcode = ucast (t AND 15),
                  h_qdcount = get16 buf 4, h_ancount = get16 buf 6,
                  h_nscount = get16 buf 8, h_arcount = get16 buf 10\<rparr>, 12))"

text \<open>
  \<open>rfc1035NameUnpack\<close>: \<open>out\<close> is what the loop has put into \<open>name\<close> so far, \<open>rd\<close> the value of
  \<open>*rdlength\<close>. The result is the name (its C string), the offset and \<open>*rdlength\<close>.
\<close>

definition name_end :: "byte list \<Rightarrow> cstr" where
  "name_end out = (if out \<noteq> [] then butlast out else [])"

function rfc1035NameUnpack ::
  "byte list \<Rightarrow> nat \<Rightarrow> u16 \<Rightarrow> byte list \<Rightarrow> nat \<Rightarrow> nat \<Rightarrow> (cstr \<times> nat \<times> u16) outcome" where
  "rfc1035NameUnpack buf off rd out ns rdepth =
     (if ns = 0 \<or> off \<ge> length buf then Fatal
      else
        let c = unat (buf ! off) in
        if c > 191 then
          (if rdepth > 64 then Bad 1
           else if off + 1 \<ge> length buf then Overrun
           else
             let s = get16 buf off; off = off + 2 in
             if off \<ge> length buf then Bad 1
             else
               let ptr = unat (s AND 0x3FFF) in
               if ptr \<ge> length buf then Bad 1
               else bind_out (rfc1035NameUnpack buf ptr rd [] (ns - length out) (rdepth + 1))
                      (\<lambda>(name, _, rd). Good (out @ name, off, rd)))
        else if c > MAXLABELSZ then Bad 1
        else
          let off = off + 1 in
          if c = 0 then Good (name_end out, off, rd)
          else if c > ns - length out - 1 then Bad 1
          else if off + c \<ge> length buf then Bad 1
          else
            let out = out @ take c (drop off buf) @ [46];
                off = off + c;
                rd = rd + of_nat c + 1
            in if length out < ns then rfc1035NameUnpack buf off rd out ns rdepth
               else Good (name_end out, off, rd))"
  by pat_completeness auto
termination
  by (relation "measures [\<lambda>(buf, off, rd, out, ns, d). 66 - d, \<lambda>(buf, off, rd, out, ns, d). length buf - off]")
     auto

declare rfc1035NameUnpack.simps [simp del]

definition rfc1035QueryUnpack :: "byte list \<Rightarrow> nat \<Rightarrow> (rfc1035_query \<times> nat) outcome" where
  "rfc1035QueryUnpack buf off =
     bind_out (rfc1035NameUnpack buf off 0 [] MAXHOSTNAMESZ 0) (\<lambda>(name, off, _).
       if off + 4 > length buf then Bad 1
       else Good (\<lparr>q_name = name, q_qtype = get16 buf off, q_qclass = get16 buf (off + 2)\<rparr>, off + 4))"

definition rfc1035RRUnpack :: "byte list \<Rightarrow> nat \<Rightarrow> (rfc1035_rr \<times> nat) outcome" where
  "rfc1035RRUnpack buf off =
     bind_out (rfc1035NameUnpack buf off 0 [] MAXHOSTNAMESZ 0) (\<lambda>(name, off, _).
       if off + 10 > length buf then Bad 1
       else
         let type = get16 buf off;
             tclass = get16 buf (off + 2);
             ttl = get32 buf (off + 4);
             rdlength = get16 buf (off + 8);
             off = off + 10;
             RR = \<lparr>rr_name = name, rr_type = type, rr_tclass = tclass, rr_ttl = ttl,
                   rr_rdlength = rdlength, rr_rdata = []\<rparr>
         in if off + unat rdlength > length buf then Bad 1
            else if type = TYPE_PTR then
              bind_out (rfc1035NameUnpack buf off 0 [] MAXHOSTNAMESZ 0) (\<lambda>(rdata, rdata_off, rd).
                if rdata_off > off + unat rdlength then Bad 1
                else Good (RR\<lparr>rr_rdlength := rd, rr_rdata := rdata\<rparr>, off + unat rdlength))
            else Good (RR\<lparr>rr_rdata := take (unat rdlength) (drop off buf)\<rparr>, off + unat rdlength))"

text \<open>The loop over the answers: the records unpacked when it is left.\<close>

fun answers_loop :: "nat \<Rightarrow> byte list \<Rightarrow> nat \<Rightarrow> rfc1035_rr list outcome" where
  "answers_loop 0 buf off = Good []"
| "answers_loop (Suc n) buf off =
     (if off \<ge> length buf then Good []
      else case rfc1035RRUnpack buf off of
             Good (rr, off) \<Rightarrow> bind_out (answers_loop n buf off) (\<lambda>rrs. Good (rr # rrs))
           | Bad _ \<Rightarrow> Good []
           | Fatal \<Rightarrow> Fatal | Overrun \<Rightarrow> Overrun | DoubleFree \<Rightarrow> DoubleFree)"

text \<open>
  The number of records and the message (with the records that were unpacked), \<open>None\<close> when
  \<open>*answer\<close> is left NULL. Two error paths call \<open>rfc1035MessageDestroy\<close>, which frees the
  query and the message, and then free both again.
\<close>

definition rfc1035MessageUnpack :: "byte list \<Rightarrow> (int \<times> rfc1035_message option) outcome" where
  "rfc1035MessageUnpack buf =
     (case rfc1035HeaderUnpack buf of
        Good (h, off) \<Rightarrow>
          if unat (h_qdcount h) \<noteq> 1 then Bad (- unpack_error)
          else (case rfc1035QueryUnpack buf off of
             Good (q, off) \<Rightarrow>
               if h_rcode h \<noteq> 0 then Bad (- int (unat (h_rcode h)))
               else if h_ancount h = 0 then Good (0, None)
               else bind_out (answers_loop (unat (h_ancount h)) buf off) (\<lambda>recs.
                 if recs = [] then DoubleFree
                 else Good (int (length recs),
                        Some (rfc1035_header.extend h \<lparr>m_query = [q], m_answer = recs\<rparr>)))
           | Bad _ \<Rightarrow> DoubleFree
           | Fatal \<Rightarrow> Fatal | Overrun \<Rightarrow> Overrun | DoubleFree \<Rightarrow> DoubleFree)
      | Bad _ \<Rightarrow> Bad (- unpack_error)
      | Fatal \<Rightarrow> Fatal | Overrun \<Rightarrow> Overrun | DoubleFree \<Rightarrow> DoubleFree)"

section \<open>Building messages\<close>

text \<open>\<open>offset += f (buf + offset, sz - offset, ...)\<close>: the octets so far and those of \<open>f\<close>.\<close>

definition put :: "nat \<Rightarrow> byte list \<Rightarrow> (nat \<Rightarrow> byte list outcome) \<Rightarrow> byte list outcome" where
  "put sz buf f = bind_out (f (sz - length buf)) (\<lambda>b. Good (buf @ b))"

text \<open>\<^verbatim>\<open>snprintf(rr.name, sizeof(rr.name), "%s", s)\<close>.\<close>

definition rr_name_of :: "cstr \<Rightarrow> cstr" where
  "rr_name_of s = take (MAXHOSTNAMESZ - 1) s"

definition query_header :: "u16 \<Rightarrow> rfc1035_header" where
  "query_header qid =
     \<lparr>h_id = qid, h_qr = 0, h_opcode = 0, h_aa = 0, h_tc = 0, h_rd = 1, h_ra = 0, h_rcode = 0,
      h_qdcount = 1, h_ancount = 0, h_nscount = 0, h_arcount = 0\<rparr>"

definition reply_header :: "u16 \<Rightarrow> cstr list \<Rightarrow> cstr option \<Rightarrow> cstr option \<Rightarrow> rfc1035_header" where
  "reply_header qid ips dnsname dns_ip =
     (let ns = (if dnsname \<noteq> None \<and> dnsname \<noteq> Some [] then 1 else 0);
          ar = (if ns \<noteq> 0 \<and> dns_ip \<noteq> None \<and> dns_ip \<noteq> Some [] then 1 else 0)
      in (query_header qid)\<lparr>h_qr := 1, h_ancount := of_nat (length ips), h_nscount := ns, h_arcount := ar\<rparr>)"

definition a_record :: "(cstr \<Rightarrow> byte \<times> byte \<times> byte \<times> byte) \<Rightarrow> cstr \<Rightarrow> cstr \<Rightarrow> rfc1035_rr" where
  "a_record inet_addr name ip =
     (case inet_addr ip of (a, b, c, d) \<Rightarrow>
        \<lparr>rr_name = rr_name_of name, rr_type = TYPE_A, rr_tclass = CLASS_IN, rr_ttl = 600,
         rr_rdlength = 4, rr_rdata = [a, b, c, d]\<rparr>)"

text \<open>The records are packed one after the other; \<open>rfc1035RRPack\<close> returning 0 adds nothing.\<close>

fun put_rrs :: "nat \<Rightarrow> byte list \<Rightarrow> rfc1035_rr list \<Rightarrow> byte list outcome" where
  "put_rrs sz buf [] = Good buf"
| "put_rrs sz buf (rr # rrs) =
     (case rfc1035RRPack (sz - length buf) rr of
        Good b \<Rightarrow> put_rrs sz (buf @ b) rrs
      | Bad _ \<Rightarrow> put_rrs sz buf rrs
      | Fatal \<Rightarrow> Fatal | Overrun \<Rightarrow> Overrun | DoubleFree \<Rightarrow> DoubleFree)"

definition rfc1035BuildAReply ::
  "(cstr \<Rightarrow> byte \<times> byte \<times> byte \<times> byte) \<Rightarrow> cstr \<Rightarrow> cstr list \<Rightarrow> cstr \<Rightarrow> cstr option \<Rightarrow> cstr option \<Rightarrow> u16
   \<Rightarrow> nat \<Rightarrow> byte list outcome"
where
  "rfc1035BuildAReply inet_addr hostname ips domain_root dnsname dns_ip qid sz =
     (let h = reply_header qid ips dnsname dns_ip;
          ns = (if h_nscount h \<noteq> 0
                then [\<lparr>rr_name = rr_name_of domain_root, rr_type = TYPE_NS, rr_tclass = CLASS_IN,
                       rr_ttl = 600, rr_rdlength = of_nat (length (the dnsname)),
                       rr_rdata = the dnsname @ [0]\<rparr>] else []);
          ar = (if h_arcount h \<noteq> 0 then [a_record inet_addr (the dnsname) (the dns_ip)] else [])
      in bind_out (put sz [] (\<lambda>n. rfc1035HeaderPack n h)) (\<lambda>buf.
         bind_out (put sz buf (\<lambda>n. rfc1035QuestionPack n hostname TYPE_A CLASS_IN)) (\<lambda>buf.
         put_rrs sz buf (map (a_record inet_addr hostname) ips @ ns @ ar))))"

text \<open>The message and the query filled in for the caller (\<open>ACL_SAFE_STRNCPY\<close> cuts the name).\<close>

definition build_query :: "cstr \<Rightarrow> u16 \<Rightarrow> nat \<Rightarrow> u16 \<Rightarrow> (byte list \<times> rfc1035_query) outcome" where
  "build_query name type sz qid =
     bind_out (put sz [] (\<lambda>n. rfc1035HeaderPack n (query_header qid))) (\<lambda>buf.
     bind_out (put sz buf (\<lambda>n. rfc1035QuestionPack n name type CLASS_IN)) (\<lambda>buf.
     Good (buf, \<lparr>q_name = take (MAXHOSTNAMESZ - 1) name, q_qtype = type, q_qclass = CLASS_IN\<rparr>)))"

definition rfc1035BuildAQuery :: "cstr \<Rightarrow> nat \<Rightarrow> u16 \<Rightarrow> (byte list \<times> rfc1035_query) outcome" where
  "rfc1035BuildAQuery hostname sz qid = build_query hostname TYPE_A sz qid"

text \<open>\<^verbatim>\<open>"%u.%u.%u.%u.in-addr.arpa."\<close> of the octets of the address, the last one first.\<close>

fun octet_digits :: "nat \<Rightarrow> cstr" where
  "octet_digits n =
     (if n < 10 then [of_nat (48 + n)]
      else if n < 100 then [of_nat (48 + n div 10), of_nat (48 + n mod 10)]
      else [of_nat (48 + n div 100), of_nat (48 + n div 10 mod 10), of_nat (48 + n mod 10)])"

definition ptr_name :: "u32 \<Rightarrow> cstr" where
  "ptr_name i =
     octet_digits (unat (i AND 255)) @ [46] @ octet_digits (unat (drop_bit 8 i AND 255)) @ [46] @
     octet_digits (unat (drop_bit 16 i AND 255)) @ [46] @ octet_digits (unat (drop_bit 24 i AND 255)) @ [46] @
     lit ''in-addr.arpa.''"

definition rfc1035BuildPTRQuery :: "u32 \<Rightarrow> nat \<Rightarrow> u16 \<Rightarrow> (byte list \<times> rfc1035_query) outcome" where
  "rfc1035BuildPTRQuery addr sz qid = build_query (ptr_name addr) TYPE_PTR sz qid"

definition rfc1035SetQueryID :: "byte list \<Rightarrow> u16 \<Rightarrow> byte list" where
  "rfc1035SetQueryID buf qid = be16 qid @ drop 2 buf"

section \<open>Comparing queries\<close>

fun trim_len :: "cstr \<Rightarrow> nat \<Rightarrow> nat" where
  "trim_len name 0 = 0"
| "trim_len name (Suc l) = (if name ! l = 46 then trim_len name l else Suc l)"

text \<open>\<open>strncasecmp\<close>: the difference of the first two characters that differ.\<close>

fun strncasecmp :: "cstr \<Rightarrow> cstr \<Rightarrow> nat \<Rightarrow> int" where
  "strncasecmp s t 0 = 0"
| "strncasecmp s t (Suc n) =
     (let a = (case s of [] \<Rightarrow> 0 | c # _ \<Rightarrow> tolower c); b = (case t of [] \<Rightarrow> 0 | c # _ \<Rightarrow> tolower c) in
      if a \<noteq> b then int (unat a) - int (unat b)
      else if a = 0 then 0
      else strncasecmp (tl s) (tl t) n)"

definition rfc1035QueryCompare :: "rfc1035_query \<Rightarrow> rfc1035_query \<Rightarrow> int" where
  "rfc1035QueryCompare a b =
     (if q_qtype a \<noteq> q_qtype b then 1
      else if q_qclass a \<noteq> q_qclass b then 1
      else
        let la = length (q_name a); lb = length (q_name b);
            (la, lb) = (if la \<noteq> lb then (trim_len (q_name a) la, trim_len (q_name b) lb) else (la, lb))
        in if la \<noteq> lb then 1 else strncasecmp (q_name a) (q_name b) la)"

definition rfc1035Strerror :: "int \<Rightarrow> string" where
  "rfc1035Strerror errnum =
     (if - errnum = 0 then ''No error condition''
      else if - errnum = 1 then ''Format Error: The name server was unable to interpret the query.''
      else if - errnum = 2 then ''Server Failure: The name server was unable to process this query.''
      else if - errnum = 3 then ''Name Error: The domain name does not exist.''
      else if - errnum = 4 then ''Not Implemented: The name server does not support the requested kind of query.''
      else if - errnum = 5 then ''Refused: The name server refuses to perform the specified operation.''
      else if - errnum = unpack_error
      then ''The DNS reply message is corrupt or could not be safely parsed.''
      else ''Unknown Error'')"

section \<open>Octets\<close>

lemma get16_be16: "get16 (pre @ be16 w @ post) (length pre) = w"
proof -
  have "push_bit 8 (ucast (ucast (drop_bit 8 w) :: byte)) OR ucast (ucast w :: byte) = w"
    by (rule bit_eqI) (auto simp: bit_simps not_less dest: bit_imp_le_length)
  then show ?thesis by (simp add: get16_def be16_def nth_append)
qed

lemma get32_be32: "get32 (pre @ be32 w @ post) (length pre) = w"
proof -
  have "push_bit 24 (ucast (ucast (drop_bit 24 w) :: byte)) OR push_bit 16 (ucast (ucast (drop_bit 16 w) :: byte))
      OR push_bit 8 (ucast (ucast (drop_bit 8 w) :: byte)) OR ucast (ucast w :: byte) = w"
  proof (rule bit_word_eqI)
    fix n
    assume "n < LENGTH(32)"
    then show "bit ((push_bit 24 (ucast (ucast (drop_bit 24 w) :: byte)) OR push_bit 16 (ucast (ucast (drop_bit 16 w) :: byte))
      OR push_bit 8 (ucast (ucast (drop_bit 8 w) :: byte)) OR ucast (ucast w :: byte)) :: u32) n = bit w n"
      by (cases "n < 8"; cases "n < 16"; cases "n < 24") (auto simp: bit_simps)
  qed
  then show ?thesis by (simp add: get32_def be32_def nth_append)
qed

lemma length_be [simp]: "length (be16 w) = 2" "length (be32 v) = 4"
  by (simp_all add: be16_def be32_def)

lemma get16_at: "off = length pre \<Longrightarrow> buf = pre @ be16 w @ post \<Longrightarrow> get16 buf off = w"
  by (simp add: get16_be16)

lemma get32_at: "off = length pre \<Longrightarrow> buf = pre @ be32 w @ post \<Longrightarrow> get32 buf off = w"
  by (simp add: get32_be32)

section \<open>The header\<close>

lemma header_flags_unpack:
  "(ucast (drop_bit 15 (header_flags h) AND 1) :: 1 word) = h_qr h"
  "(ucast (drop_bit 11 (header_flags h) AND 15) :: 4 word) = h_opcode h"
  "(ucast (drop_bit 10 (header_flags h) AND 1) :: 1 word) = h_aa h"
  "(ucast (drop_bit 9 (header_flags h) AND 1) :: 1 word) = h_tc h"
  "(ucast (drop_bit 8 (header_flags h) AND 1) :: 1 word) = h_rd h"
  "(ucast (drop_bit 7 (header_flags h) AND 1) :: 1 word) = h_ra h"
  "(ucast (header_flags h AND 15) :: 4 word) = h_rcode h"
proof -
  have m: "(15 :: u16) = mask 4" by (simp add: mask_eq_exp_minus_1)
  have bit1: "1 \<le> n \<Longrightarrow> \<not> bit x n" for x :: "1 word" and n using bit_imp_le_length by force
  have bit4: "4 \<le> n \<Longrightarrow> \<not> bit x n" for x :: "4 word" and n using bit_imp_le_length by force
  note simps = header_flags_def m bit_simps bit1 bit4
  have eq1: "x = y" if "bit x 0 = bit y 0" for x y :: "1 word"
    using that by (intro bit_eqI) auto
  have eq4: "x = y" if "bit x 0 = bit y 0" "bit x 1 = bit y 1" "bit x 2 = bit y 2" "bit x 3 = bit y 3"
    for x y :: "4 word"
  proof (rule bit_word_eqI)
    fix n
    assume "n < LENGTH(4)"
    then have "n = 0 \<or> n = 1 \<or> n = 2 \<or> n = 3" by auto
    with that show "bit x n = bit y n" by auto
  qed
  show "(ucast (drop_bit 15 (header_flags h) AND 1) :: 1 word) = h_qr h" by (rule eq1) (simp add: simps)
  show "(ucast (drop_bit 11 (header_flags h) AND 15) :: 4 word) = h_opcode h"
    by (rule eq4) (simp_all add: simps)
  show "(ucast (drop_bit 10 (header_flags h) AND 1) :: 1 word) = h_aa h" by (rule eq1) (simp add: simps)
  show "(ucast (drop_bit 9 (header_flags h) AND 1) :: 1 word) = h_tc h" by (rule eq1) (simp add: simps)
  show "(ucast (drop_bit 8 (header_flags h) AND 1) :: 1 word) = h_rd h" by (rule eq1) (simp add: simps)
  show "(ucast (drop_bit 7 (header_flags h) AND 1) :: 1 word) = h_ra h" by (rule eq1) (simp add: simps)
  show "(ucast (header_flags h AND 15) :: 4 word) = h_rcode h"
    by (rule eq4) (simp_all add: simps)
qed

definition header_octets :: "'a rfc1035_header_scheme \<Rightarrow> byte list" where
  "header_octets h = be16 (h_id h) @ be16 (header_flags h) @ be16 (h_qdcount h) @ be16 (h_ancount h)
     @ be16 (h_nscount h) @ be16 (h_arcount h)"

lemma length_header_octets [simp]: "length (header_octets h) = 12"
  by (simp add: header_octets_def)

lemma rfc1035HeaderPack_eq: "rfc1035HeaderPack sz h = (if sz < 12 then Fatal else Good (header_octets h))"
  by (simp add: rfc1035HeaderPack_def header_octets_def)

lemma header_get16:
  "get16 (header_octets h @ rest) 0 = h_id h" "get16 (header_octets h @ rest) 2 = header_flags h"
  "get16 (header_octets h @ rest) 4 = h_qdcount h" "get16 (header_octets h @ rest) 6 = h_ancount h"
  "get16 (header_octets h @ rest) 8 = h_nscount h" "get16 (header_octets h @ rest) 10 = h_arcount h"
proof -
  let ?i = "be16 (h_id h)" and ?f = "be16 (header_flags h)" and ?q = "be16 (h_qdcount h)"
    and ?a = "be16 (h_ancount h)" and ?n = "be16 (h_nscount h)"
  show "get16 (header_octets h @ rest) 0 = h_id h" by (rule get16_at [of _ "[]"]) (auto simp: header_octets_def)
  show "get16 (header_octets h @ rest) 2 = header_flags h"
    by (rule get16_at [of _ ?i]) (auto simp: header_octets_def)
  show "get16 (header_octets h @ rest) 4 = h_qdcount h"
    by (rule get16_at [of _ "?i @ ?f"]) (auto simp: header_octets_def)
  show "get16 (header_octets h @ rest) 6 = h_ancount h"
    by (rule get16_at [of _ "?i @ ?f @ ?q"]) (auto simp: header_octets_def)
  show "get16 (header_octets h @ rest) 8 = h_nscount h"
    by (rule get16_at [of _ "?i @ ?f @ ?q @ ?a"]) (auto simp: header_octets_def)
  show "get16 (header_octets h @ rest) 10 = h_arcount h"
    by (rule get16_at [of _ "?i @ ?f @ ?q @ ?a @ ?n"]) (auto simp: header_octets_def)
qed

lemma rfc1035HeaderUnpack_octets:
  "rfc1035HeaderUnpack (header_octets h @ rest) = Good (rfc1035_header.truncate h, 12)"
  by (simp add: rfc1035HeaderUnpack_def header_get16 header_flags_unpack rfc1035_header.truncate_def Let_def)

section \<open>Names\<close>

text \<open>A label as it is packed, and a name of labels that fit.\<close>

definition label_ok :: "cstr \<Rightarrow> bool" where
  "label_ok l \<longleftrightarrow> l \<noteq> [] \<and> length l \<le> MAXLABELSZ \<and> 46 \<notin> set l"

definition label_octets :: "cstr \<Rightarrow> byte list" where
  "label_octets l = of_nat (length l) # l"

definition name_octets :: "cstr list \<Rightarrow> byte list" where
  "name_octets ls = concat (map label_octets ls) @ [0]"

definition dotted :: "cstr list \<Rightarrow> cstr" where
  "dotted ls = concat (map (\<lambda>l. l @ [46]) ls)"

lemma length_dotted: "length (concat (map label_octets ls)) = length (dotted ls)"
  by (induction ls) (simp_all add: label_octets_def dotted_def)

lemma name_octets_length: "length (name_octets ls) = Suc (length (dotted ls))"
  by (simp add: name_octets_def length_dotted)

lemma labels_pack:
  "list_all label_ok ls \<Longrightarrow> length (name_octets ls) \<le> sz \<Longrightarrow> labels_pack sz ls = Good (name_octets ls)"
proof (induction ls arbitrary: sz)
  case Nil
  then show ?case by (simp add: rfc1035LabelPack_def name_octets_def)
next
  case (Cons l ls)
  then have l: "label_ok l" "list_all label_ok ls" by simp_all
  have "rfc1035LabelPack sz (Some l) = Good (label_octets l)"
    using l(1) Cons.prems(2)
    by (simp add: rfc1035LabelPack_def label_ok_def label_octets_def name_octets_def min_absorb1)
  moreover have "labels_pack (sz - length (label_octets l)) ls = Good (name_octets ls)"
    using Cons.prems(2) l(2) by (intro Cons.IH) (auto simp: name_octets_def)
  ultimately show ?case by (simp add: name_octets_def)
qed

lemma labels_pack_fits: "labels_pack sz ls = Good b \<Longrightarrow> length b \<le> sz"
proof (induction ls arbitrary: sz b)
  case Nil
  then show ?case by (auto simp: rfc1035LabelPack_def split: if_splits)
next
  case (Cons l ls)
  then obtain a c where a: "rfc1035LabelPack sz (Some l) = Good a" "labels_pack (sz - length a) ls = Good c"
    "b = a @ c" by (auto simp: bind_out_Good)
  from a(1) have "length a \<le> sz" by (auto simp: rfc1035LabelPack_def Let_def split: if_splits)
  with Cons.IH [OF a(2)] a(3) show ?case by simp
qed

text \<open>One label at the offset.\<close>

lemma unat_of_nat_byte: "n < 256 \<Longrightarrow> unat (of_nat n :: byte) = n"
  by (subst unsigned_of_nat) (simp add: take_bit_nat_eq_self)

lemma name_unpack_label:
  assumes buf: "buf = pre @ label_octets l @ rest" and ok: "label_ok l" and rest: "rest \<noteq> []"
    and room: "length out + length l + 1 < ns"
  shows "rfc1035NameUnpack buf (length pre) rd out ns d =
    rfc1035NameUnpack buf (length pre + Suc (length l)) (rd + of_nat (length l) + 1) (out @ l @ [46]) ns d"
proof -
  have c: "unat (buf ! length pre) = length l" "\<not> 191 < length l" "0 < length l" "length l \<le> MAXLABELSZ"
    using ok buf unat_of_nat_byte [of "length l"] by (simp_all add: label_ok_def label_octets_def nth_append)
  have "take (length l) (drop (Suc (length pre)) buf) = l" using buf by (simp add: label_octets_def)
  moreover have "0 < length rest" "length l \<le> ns - length out - 1" using rest room by simp_all
  ultimately show ?thesis
    using c room buf
    by (subst rfc1035NameUnpack.simps) (simp add: Let_def label_octets_def not_le)
qed

lemma name_unpack_end:
  assumes "buf = pre @ 0 # rest" "length out < ns"
  shows "rfc1035NameUnpack buf (length pre) rd out ns d = Good (name_end out, Suc (length pre), rd)"
  using assms by (subst rfc1035NameUnpack.simps) (simp add: nth_append Let_def)

lemma name_unpack_labels:
  "list_all label_ok ls \<Longrightarrow> buf = pre @ name_octets ls @ rest \<Longrightarrow> length out + length (dotted ls) < ns \<Longrightarrow>
   rfc1035NameUnpack buf (length pre) rd out ns d =
     Good (name_end (out @ dotted ls), length pre + length (name_octets ls),
       rd + of_nat (length (dotted ls)))"
proof (induction ls arbitrary: pre out rd)
  case Nil
  then show ?case
    using name_unpack_end [of buf pre rest out ns rd d] by (simp add: name_octets_def dotted_def)
next
  case (Cons l ls)
  have one: "rfc1035NameUnpack buf (length pre) rd out ns d =
    rfc1035NameUnpack buf (length pre + Suc (length l)) (rd + of_nat (length l) + 1) (out @ l @ [46]) ns d"
    using Cons.prems
    by (intro name_unpack_label [of buf pre l "name_octets ls @ rest"]) (auto simp: name_octets_def dotted_def)
  have "rfc1035NameUnpack buf (length (pre @ label_octets l)) (rd + of_nat (length l) + 1) (out @ l @ [46]) ns d
      = Good (name_end ((out @ l @ [46]) @ dotted ls), length (pre @ label_octets l) + length (name_octets ls),
          rd + of_nat (length l) + 1 + of_nat (length (dotted ls)))"
    using Cons.prems by (intro Cons.IH) (auto simp: name_octets_def dotted_def)
  then show ?case
    unfolding one by (simp add: label_octets_def name_octets_def dotted_def algebra_simps)
qed

text \<open>The names that survive packing and unpacking: written without empty labels or a final
  dot, with labels of at most 63 octets, and short enough for the name buffers.\<close>

definition dns_name :: "cstr \<Rightarrow> bool" where
  "dns_name host \<longleftrightarrow>
     (let ls = strtok_tokens host {46} in
      list_all label_ok ls \<and> name_end (dotted ls) = host \<and> length (dotted ls) < MAXHOSTNAMESZ)"

abbreviation labels :: "cstr \<Rightarrow> cstr list" where
  "labels host \<equiv> strtok_tokens host {46}"

lemma dns_nameD:
  "dns_name host \<Longrightarrow> list_all label_ok (labels host)" "dns_name host \<Longrightarrow> name_end (dotted (labels host)) = host"
  "dns_name host \<Longrightarrow> length (dotted (labels host)) < MAXHOSTNAMESZ"
  by (simp_all add: dns_name_def Let_def)

lemma dns_name_length: "dns_name host \<Longrightarrow> length host < MAXHOSTNAMESZ"
proof -
  have "length (name_end xs) \<le> length xs" for xs by (simp add: name_end_def)
  from this [of "dotted (labels host)"] show "dns_name host \<Longrightarrow> ?thesis"
    using dns_nameD(2,3) [of host] by simp
qed

lemma name_unpack_host:
  assumes "dns_name host" "buf = pre @ name_octets (labels host) @ rest"
  shows "rfc1035NameUnpack buf (length pre) rd [] MAXHOSTNAMESZ d =
    Good (host, length pre + length (name_octets (labels host)), rd + of_nat (length (dotted (labels host))))"
  using name_unpack_labels [OF dns_nameD(1) [OF assms(1)] assms(2), of "[]" MAXHOSTNAMESZ rd d]
    dns_nameD(2,3) [OF assms(1)]
  by simp

lemma name_pack_host:
  assumes "dns_name host" "rfc1035NamePack sz host = Good b"
  shows "b = name_octets (labels host)"
proof -
  have "list_all label_ok ls \<Longrightarrow> labels_pack n ls = Good c \<Longrightarrow> c = name_octets ls" for n c ls
  proof (induction ls arbitrary: n c)
    case Nil
    then show ?case by (auto simp: rfc1035LabelPack_def name_octets_def split: if_splits)
  next
    case (Cons l ls)
    then obtain x y where x: "rfc1035LabelPack n (Some l) = Good x" "labels_pack (n - length x) ls = Good y"
      "c = x @ y" by (auto simp: bind_out_Good)
    from x(1) Cons.prems(1) have "x = label_octets l"
      by (auto simp: rfc1035LabelPack_def label_ok_def label_octets_def Let_def min_absorb1 split: if_splits)
    with x(3) Cons.IH [OF _ x(2)] Cons.prems(1) show ?case by (simp add: name_octets_def)
  qed
  from this [OF dns_nameD(1) [OF assms(1)]] assms(2) show ?thesis by (simp add: rfc1035NamePack_def)
qed

section \<open>Questions and records\<close>

definition question_octets :: "cstr \<Rightarrow> u16 \<Rightarrow> byte list" where
  "question_octets host type = name_octets (labels host) @ be16 type @ be16 CLASS_IN"

definition rr_octets :: "rfc1035_rr \<Rightarrow> byte list" where
  "rr_octets rr = name_octets (labels (rr_name rr)) @ be16 (rr_type rr) @ be16 (rr_tclass rr) @ be32 (rr_ttl rr)
     @ be16 (rr_rdlength rr) @ rr_rdata rr"

definition plain_rr :: "rfc1035_rr \<Rightarrow> bool" where
  "plain_rr rr \<longleftrightarrow> dns_name (rr_name rr) \<and> rr_type rr \<noteq> TYPE_PTR \<and> rr_type rr \<noteq> TYPE_NS \<and>
     unat (rr_rdlength rr) = length (rr_rdata rr)"

lemma question_pack:
  assumes "dns_name host" "rfc1035QuestionPack sz host type CLASS_IN = Good b"
  shows "b = question_octets host type"
proof -
  from assms(2) obtain n where n: "rfc1035NamePack sz host = Good n" "b = n @ be16 type @ be16 CLASS_IN"
    by (auto simp: rfc1035QuestionPack_def bind_out_Good Let_def split: if_splits)
  with name_pack_host [OF assms(1) n(1)] show ?thesis by (simp add: question_octets_def)
qed

lemma rr_pack:
  assumes "plain_rr rr" "rfc1035RRPack sz rr = Good b"
  shows "b = rr_octets rr"
proof -
  have name: "dns_name (rr_name rr)" using assms(1) by (simp add: plain_rr_def)
  from assms obtain n where n: "rfc1035NamePack sz (rr_name rr) = Good n"
    "b = n @ be16 (rr_type rr) @ be16 (rr_tclass rr) @ be32 (rr_ttl rr) @ be16 (rr_rdlength rr) @ rr_rdata rr"
    by (auto simp: rfc1035RRPack_def plain_rr_def bind_out_Good Let_def split: if_splits)
  with name_pack_host [OF name n(1)] show ?thesis by (simp add: rr_octets_def)
qed

lemma rr_pack_not_bad: "plain_rr rr \<Longrightarrow> rfc1035RRPack sz rr \<noteq> Bad k"
proof -
  have bad: "rfc1035LabelPack n l \<noteq> Bad k" for n l by (simp add: rfc1035LabelPack_def Let_def)
  have "labels_pack n ls \<noteq> Bad k" for n ls
  proof (induction ls arbitrary: n)
    case (Cons l ls)
    then show ?case
      using bad [of n "Some l"] by (cases "rfc1035LabelPack n (Some l)"; cases "labels_pack (n - length (case rfc1035LabelPack n (Some l) of Good b \<Rightarrow> b | _ \<Rightarrow> [])) ls") auto
  qed (simp add: bad)
  then have name: "rfc1035NamePack sz (rr_name rr) \<noteq> Bad k" by (simp add: rfc1035NamePack_def)
  assume "plain_rr rr"
  with name show ?thesis
    by (cases "rfc1035NamePack sz (rr_name rr)") (auto simp: rfc1035RRPack_def plain_rr_def Let_def)
qed

lemma query_unpack:
  assumes "dns_name host" "buf = pre @ question_octets host type @ rest"
  shows "rfc1035QueryUnpack buf (length pre) =
    Good (\<lparr>q_name = host, q_qtype = type, q_qclass = CLASS_IN\<rparr>, length pre + length (question_octets host type))"
proof -
  let ?n = "name_octets (labels host)"
  have buf: "buf = pre @ ?n @ be16 type @ be16 CLASS_IN @ rest" using assms(2) by (simp add: question_octets_def)
  have "get16 buf (length (pre @ ?n)) = type"
    by (rule get16_at [of _ "pre @ ?n"]) (simp_all add: buf)
  moreover have "get16 buf (length (pre @ ?n @ be16 type)) = CLASS_IN"
    by (rule get16_at [of _ "pre @ ?n @ be16 type"]) (simp_all add: buf)
  ultimately show ?thesis
    using name_unpack_host [OF assms(1) buf, of 0 0]
    by (simp add: rfc1035QueryUnpack_def question_octets_def buf add.assoc)
qed

lemma rr_unpack:
  assumes rr: "plain_rr rr" and buf: "buf = pre @ rr_octets rr @ rest"
  shows "rfc1035RRUnpack buf (length pre) = Good (rr, length pre + length (rr_octets rr))"
proof -
  let ?n = "name_octets (labels (rr_name rr))"
  let ?t = "be16 (rr_type rr)" and ?c = "be16 (rr_tclass rr)" and ?l = "be32 (rr_ttl rr)" and ?r = "be16 (rr_rdlength rr)"
  have len: "unat (rr_rdlength rr) = length (rr_rdata rr)" using rr by (simp add: plain_rr_def)
  have b: "buf = pre @ ?n @ ?t @ ?c @ ?l @ ?r @ rr_rdata rr @ rest" using buf by (simp add: rr_octets_def)
  have "get16 buf (length (pre @ ?n)) = rr_type rr"
    by (rule get16_at [of _ "pre @ ?n"]) (simp_all add: b)
  moreover have "get16 buf (length (pre @ ?n @ ?t)) = rr_tclass rr"
    by (rule get16_at [of _ "pre @ ?n @ ?t"]) (simp_all add: b)
  moreover have "get32 buf (length (pre @ ?n @ ?t @ ?c)) = rr_ttl rr"
    by (rule get32_at [of _ "pre @ ?n @ ?t @ ?c"]) (simp_all add: b)
  moreover have "get16 buf (length (pre @ ?n @ ?t @ ?c @ ?l)) = rr_rdlength rr"
    by (rule get16_at [of _ "pre @ ?n @ ?t @ ?c @ ?l"]) (simp_all add: b)
  moreover have "take (length (rr_rdata rr)) (drop (length (pre @ ?n @ ?t @ ?c @ ?l @ ?r)) buf) = rr_rdata rr"
    by (simp add: b)
  ultimately have fields: "get16 buf (length pre + length ?n) = rr_type rr"
    "get16 buf (length pre + length ?n + 2) = rr_tclass rr" "get32 buf (length pre + length ?n + 4) = rr_ttl rr"
    "get16 buf (length pre + length ?n + 8) = rr_rdlength rr"
    "take (length (rr_rdata rr)) (drop (length pre + length ?n + 10) buf) = rr_rdata rr"
    by (simp_all add: add.assoc)
  have name: "dns_name (rr_name rr)" using rr by (simp add: plain_rr_def)
  note nm = name_unpack_host [OF name b, of 0 0]
  have "length pre + length ?n + 10 \<le> length buf"
    "length pre + length ?n + 10 + length (rr_rdata rr) \<le> length buf" by (simp_all add: b)
  then show ?thesis
    using fields rr by (simp add: rfc1035RRUnpack_def nm rr_octets_def plain_rr_def Let_def len)
qed

lemma rr_octets_pos: "0 < length (rr_octets rr)"
  by (simp add: rr_octets_def)

lemma answers_loop_rrs:
  "list_all plain_rr rrs \<Longrightarrow> buf = pre @ concat (map rr_octets rrs) @ rest \<Longrightarrow>
   answers_loop (length rrs) buf (length pre) = Good rrs"
proof (induction rrs arbitrary: pre)
  case (Cons rr rrs)
  have b: "buf = pre @ rr_octets rr @ concat (map rr_octets rrs) @ rest" using Cons.prems(2) by simp
  have one: "rfc1035RRUnpack buf (length pre) = Good (rr, length (pre @ rr_octets rr))"
    using rr_unpack [OF _ b] Cons.prems(1) by simp
  have "answers_loop (length rrs) buf (length (pre @ rr_octets rr)) = Good rrs"
    using Cons.prems by (intro Cons.IH) auto
  moreover have "\<not> length buf \<le> length pre" using b rr_octets_pos [of rr] by auto
  ultimately show ?case using one by simp
qed simp

section \<open>Replies\<close>

lemma a_record_plain: "dns_name host \<Longrightarrow> plain_rr (a_record inet_addr host ip)"
  using dns_name_length [of host]
  by (simp add: plain_rr_def a_record_def rr_name_of_def split: prod.split)

lemma put_rrs_extends: "put_rrs sz buf rrs = Good out \<Longrightarrow> \<exists>post. out = buf @ post"
proof (induction rrs arbitrary: buf)
  case (Cons rr rrs)
  then show ?case by (cases "rfc1035RRPack (sz - length buf) rr") fastforce+
qed simp

lemma put_rrs_plain:
  "list_all plain_rr rrs \<Longrightarrow> put_rrs sz buf (rrs @ others) = Good out \<Longrightarrow>
   \<exists>post. out = buf @ concat (map rr_octets rrs) @ post"
proof (induction rrs arbitrary: buf)
  case Nil
  then show ?case using put_rrs_extends [of sz buf others out] by simp
next
  case (Cons rr rrs)
  have rr: "plain_rr rr" using Cons.prems(1) by simp
  from Cons.prems(2) rr_pack_not_bad [OF rr] obtain b where
    b: "rfc1035RRPack (sz - length buf) rr = Good b" "put_rrs sz (buf @ b) (rrs @ others) = Good out"
    by (auto split: outcome.splits)
  with Cons.IH [OF _ b(2)] Cons.prems(1) rr_pack [OF rr b(1)] show ?case by simp
qed

lemma header_question_put:
  assumes "dns_name host"
    "bind_out (put sz [] (\<lambda>n. rfc1035HeaderPack n h)) (\<lambda>buf.
       bind_out (put sz buf (\<lambda>n. rfc1035QuestionPack n host type CLASS_IN)) f) = Good res"
  shows "f (header_octets h @ question_octets host type) = Good res"
  using assms question_pack [OF assms(1)]
  by (auto simp: put_def bind_out_Good rfc1035HeaderPack_eq split: if_splits)

lemma build_reply_octets:
  assumes "dns_name host" "rfc1035BuildAReply inet_addr host ips domain_root dnsname dns_ip qid sz = Good buf"
  shows "\<exists>post. buf = header_octets (reply_header qid ips dnsname dns_ip) @ question_octets host TYPE_A
    @ concat (map rr_octets (map (a_record inet_addr host) ips)) @ post"
proof -
  have "list_all plain_rr (map (a_record inet_addr host) ips)"
    using a_record_plain [OF assms(1)] by (simp add: list_all_iff)
  with header_question_put [OF assms(1) assms(2) [unfolded rfc1035BuildAReply_def Let_def]]
  show ?thesis by (auto dest: put_rrs_plain)
qed

section \<open>Hostile messages\<close>

lemma name_unpack_bounds:
  "rfc1035NameUnpack buf off rd out ns d = Good (name, off', rd') \<Longrightarrow> length out < ns \<Longrightarrow>
   length name < ns \<and> off < off' \<and> off' \<le> length buf"
proof (induction buf off rd out ns d arbitrary: name off' rd' rule: rfc1035NameUnpack.induct)
  case (1 buf off rd out ns d)
  let ?c = "unat (buf ! off)"
  from "1.prems" have off: "off < length buf" by (subst (asm) rfc1035NameUnpack.simps) (auto split: if_splits)
  consider "191 < ?c" | "?c \<le> 191" "?c \<noteq> 0" | "?c = 0" by linarith
  then show ?case
  proof cases
    case 1
    let ?ptr = "unat (get16 buf off AND 0x3FFF)"
    from "1.prems" off 1 have ok: "d \<le> 64" "off + 2 < length buf" "?ptr < length buf" and
      "bind_out (rfc1035NameUnpack buf ?ptr rd [] (ns - length out) (d + 1))
         (\<lambda>(name, _, rd). Good (out @ name, off + 2, rd)) = Good (name, off', rd')"
      by (subst (asm) rfc1035NameUnpack.simps, auto simp: Let_def split: if_splits)+
    then obtain n o' r where n: "rfc1035NameUnpack buf ?ptr rd [] (ns - length out) (d + 1) = Good (n, o', r)"
      "name = out @ n" "off' = off + 2"
      by (auto simp: bind_out_Good)
    have "length n < ns - length out \<and> ?ptr < o' \<and> o' \<le> length buf"
      using "1.IH"(1) [of ?c "get16 buf off" "off + 2" ?ptr n o' r] 1 ok off n(1) "1.prems"(2) by simp
    then have "length out + length n < ns" by arith
    with n ok show ?thesis by simp
  next
    case 2
    let ?out = "out @ take ?c (drop (Suc off) buf) @ [46]"
    from "1.prems" off 2 have ok: "?c \<le> MAXLABELSZ" "?c \<le> ns - length out - 1" "Suc off + ?c < length buf"
      and res: "(if length ?out < ns then rfc1035NameUnpack buf (Suc off + ?c) (rd + of_nat ?c + 1) ?out ns d
        else Good (name_end ?out, Suc off + ?c, rd + of_nat ?c + 1)) = Good (name, off', rd')"
      by (subst (asm) rfc1035NameUnpack.simps, auto simp: Let_def split: if_splits)+
    have len: "length ?out = length out + ?c + 1" using ok by simp
    show ?thesis
    proof (cases "length ?out < ns")
      case True
      with res have "length name < ns \<and> Suc off + ?c < off' \<and> off' \<le> length buf"
        using "1.IH"(2) [of ?c "Suc off" ?out "Suc off + ?c" "rd + of_nat ?c + 1" name off' rd'] 2 ok off "1.prems"(2)
        by simp
      then show ?thesis by simp
    next
      case False
      with res len ok "1.prems"(2) show ?thesis by (auto simp: name_end_def)
    qed
  next
    case 3
    with "1.prems" off show ?thesis
      by (subst (asm) rfc1035NameUnpack.simps) (auto simp: name_end_def Let_def split: if_splits)
  qed
qed

section \<open>Properties\<close>

text \<open>C37: a reply that \<open>rfc1035BuildAReply\<close> builds is understood by \<open>rfc1035MessageUnpack\<close>: for
  a host name in its usual form and any addresses (at least one, and as many as the count of
  16 bits holds) it returns their number and a message with the query's id, the question, and
  one A record for each address, in order, whatever name server records follow.\<close>

theorem dns_reply_roundtrip:
  assumes "dns_name host" "ips \<noteq> []" "length ips < 2 ^ 16"
    and "rfc1035BuildAReply inet_addr host ips domain_root dnsname dns_ip qid sz = Good buf"
  shows "\<exists>msg. rfc1035MessageUnpack buf = Good (int (length ips), Some msg) \<and> h_id msg = qid \<and>
    m_query msg = [\<lparr>q_name = host, q_qtype = TYPE_A, q_qclass = CLASS_IN\<rparr>] \<and>
    m_answer msg = map (a_record inet_addr host) ips"
proof -
  let ?h = "reply_header qid ips dnsname dns_ip" and ?rrs = "map (a_record inet_addr host) ips"
  obtain post where buf: "buf = header_octets ?h @ question_octets host TYPE_A @ concat (map rr_octets ?rrs) @ post"
    using build_reply_octets [OF assms(1,4)] by blast
  have h: "h_id ?h = qid" "h_qdcount ?h = 1" "h_rcode ?h = 0" "h_ancount ?h = of_nat (length ips)"
    by (simp_all add: reply_header_def query_header_def Let_def)
  have n: "unat (of_nat (length ips) :: u16) = length ips"
    using assms(3) by (subst unsigned_of_nat) (simp add: take_bit_nat_eq_self)
  then have nz: "(of_nat (length ips) :: u16) \<noteq> 0" using assms(2) by (auto simp: word_unat_eq_iff)
  have q: "rfc1035QueryUnpack buf 12 = Good (\<lparr>q_name = host, q_qtype = TYPE_A, q_qclass = CLASS_IN\<rparr>,
      12 + length (question_octets host TYPE_A))"
    using query_unpack [OF assms(1) buf] by simp
  have "list_all plain_rr ?rrs" using a_record_plain [OF assms(1)] by (simp add: list_all_iff)
  from answers_loop_rrs [OF this, of buf "header_octets ?h @ question_octets host TYPE_A" post]
  have a: "answers_loop (length ips) buf (12 + length (question_octets host TYPE_A)) = Good ?rrs"
    using buf by simp
  have hd: "rfc1035HeaderUnpack buf = Good (rfc1035_header.truncate ?h, 12)"
    unfolding buf by (rule rfc1035HeaderUnpack_octets)
  show ?thesis
    using assms(2) h n nz q a hd
    by (simp add: rfc1035MessageUnpack_def rfc1035_header.truncate_def rfc1035_header.extend_def)
qed

theorem dns_reply_roundtrip_witness:
  "\<exists>buf msg. rfc1035BuildAReply (\<lambda>_. (10, 0, 0, 1)) [97] [[49]] [] None None 7 512 = Good buf \<and>
     rfc1035MessageUnpack buf = Good (1, Some msg) \<and> h_id msg = 7"
proof -
  have labels: "strtok_tokens [97] {46} = [[97]]"
    by (simp add: strtok_tokens.simps [of "[97]"] strtok_tokens.simps [of "[]"] acl_strtok_eq Let_def)
  then have name: "dns_name [97]" by (simp add: dns_name_def label_ok_def dotted_def name_end_def)
  have "\<exists>buf. rfc1035BuildAReply (\<lambda>_. (10, 0, 0, 1)) [97] [[49]] [] None None 7 512 = Good buf"
    by (simp add: rfc1035BuildAReply_def reply_header_def query_header_def put_def rfc1035HeaderPack_eq
        rfc1035QuestionPack_def rfc1035RRPack_def rfc1035NamePack_def rfc1035LabelPack_def labels
        a_record_def rr_name_of_def Let_def)
  then show ?thesis
    using dns_reply_roundtrip [OF name, of "[[49]]" "\<lambda>_. (10, 0, 0, 1)" "[]" None None 7 512] by auto
qed

text \<open>\<open>rfc1035HeaderUnpack\<close> reads back every header that \<open>rfc1035HeaderPack\<close> writes, all
  flags and counts with their bits, whatever follows it.\<close>

theorem dns_header_roundtrip:
  assumes "12 \<le> sz"
  shows "\<exists>b. rfc1035HeaderPack sz h = Good b \<and> length b = 12 \<and>
    rfc1035HeaderUnpack (b @ rest) = Good (h :: rfc1035_header, 12)"
proof -
  have "rfc1035_header.truncate h = h" by (simp add: rfc1035_header.truncate_def)
  with assms rfc1035HeaderUnpack_octets [of h rest] show ?thesis by (simp add: rfc1035HeaderPack_eq)
qed

theorem dns_header_roundtrip_witness:
  "\<exists>b. rfc1035HeaderPack 512 (query_header 7) = Good b \<and> rfc1035HeaderUnpack b = Good (query_header 7, 12)"
  using dns_header_roundtrip [of 512 "query_header 7" "[]"] by auto

text \<open>whatever the message, a name that \<open>rfc1035NameUnpack\<close> accepts fits in the name buffer
  with its final zero, and the offset moves forward and stays inside the message, however
  compression pointers lead around in it.\<close>

theorem dns_name_unpack_bounds:
  assumes "rfc1035NameUnpack buf off rd [] MAXHOSTNAMESZ d = Good (name, off', rd')"
  shows "length name < MAXHOSTNAMESZ \<and> off < off' \<and> off' \<le> length buf"
  using name_unpack_bounds [OF assms] by simp

theorem dns_name_unpack_bounds_witness:
  "\<exists>off'. rfc1035NameUnpack [1, 97, 0, 192, 0, 0] 3 0 [] MAXHOSTNAMESZ 0 = Good ([97], off', 2) \<and> off' = 5 \<and> off' \<le> 6"
proof -
  have "rfc1035NameUnpack [1, 97, 0, 192, 0, 0] 3 0 [] MAXHOSTNAMESZ 0 = Good ([97], 5, 2)"
    by (simp add: rfc1035NameUnpack.simps get16_def Let_def name_end_def)
  with dns_name_unpack_bounds [OF this] show ?thesis by simp
qed

text \<open>C38: a reply that is cut off right after a header with one question ends the process, by
  \<open>acl_msg_fatal\<close>; one whose question has a reserved label length makes
  \<open>rfc1035MessageUnpack\<close> free the message twice.\<close>

theorem dns_hostile_reply:
  assumes "h_qdcount h = 1" "63 < unat c" "unat c \<le> 191"
  shows "rfc1035MessageUnpack (header_octets h) = Fatal \<and>
    rfc1035MessageUnpack (header_octets h @ c # rest) = DoubleFree"
proof -
  have hd: "rfc1035HeaderUnpack (header_octets h @ s) = Good (rfc1035_header.truncate h, 12)" for s
    by (rule rfc1035HeaderUnpack_octets)
  have q: "h_qdcount (rfc1035_header.truncate h) = 1" using assms(1) by (simp add: rfc1035_header.truncate_def)
  have "rfc1035QueryUnpack (header_octets h) 12 = Fatal"
    by (simp add: rfc1035QueryUnpack_def rfc1035NameUnpack.simps)
  moreover have "rfc1035QueryUnpack (header_octets h @ c # rest) 12 = Bad 1"
    using assms by (simp add: rfc1035QueryUnpack_def rfc1035NameUnpack.simps nth_append)
  ultimately show ?thesis
    using hd [of "[]"] hd [of "c # rest"] q by (simp add: rfc1035MessageUnpack_def)
qed

theorem dns_hostile_reply_witness:
  "rfc1035MessageUnpack (header_octets (query_header 7)) = Fatal"
  using dns_hostile_reply [of "query_header 7" 64 "[]"] by (simp add: query_header_def)

end
