(* ===== verification/Redis_Result.thy ===== *)
theory Redis_Result
  imports Cstdlib
begin

text \<open>
  \<^verbatim>\<open>aclredis/src/redis/redis_result.cpp\<close>: the object that a reply of the server becomes. A
  reply that is not an array keeps its bytes in one or more pieces (\<open>argv_\<close>, \<open>lens_\<close>; the
  first \<open>idx_\<close> of \<open>size_\<close> are set), an array its elements. \<open>argv_\<close> is allocated by the first
  \<open>put\<close> that is accepted, so it is NULL exactly when there is no piece, and \<open>children_\<close> is
  NULL exactly when there is no element; the spare room of both is not modelled. A piece has a
  zero byte behind it, so a reader that takes it for a C string sees \<open>cstr_of\<close> of it.
  \<open>get_double\<close> (floating point) is left out.
\<close>

section \<open>The object\<close>

datatype redis_result_t = REDIS_RESULT_UNKOWN | REDIS_RESULT_NIL | REDIS_RESULT_ERROR
  | REDIS_RESULT_STATUS | REDIS_RESULT_INTEGER | REDIS_RESULT_STRING | REDIS_RESULT_ARRAY

datatype redis_result = RedisResult (result_type: redis_result_t) (rr_size: nat)
  (rr_argv: "byte list list") (rr_children: "redis_result list")

definition redis_result_new :: redis_result where
  "redis_result_new = RedisResult REDIS_RESULT_NIL 0 [] []"

fun rr_clear :: "redis_result \<Rightarrow> redis_result" where
  "rr_clear (RedisResult t n av ch) = RedisResult t n av []"

fun rr_set_size :: "redis_result \<Rightarrow> nat \<Rightarrow> redis_result" where
  "rr_set_size (RedisResult t n av ch) sz =
     (if length av > 0 then RedisResult t n av ch else RedisResult t sz av ch)"

fun rr_set_type :: "redis_result \<Rightarrow> redis_result_t \<Rightarrow> redis_result" where
  "rr_set_type (RedisResult t n av ch) ty = RedisResult ty n av ch"

fun rr_put :: "redis_result \<Rightarrow> byte list \<Rightarrow> redis_result" where
  "rr_put (RedisResult t n av ch) buf =
     (if n = 0 then RedisResult t n av ch
      else if length av \<ge> n then RedisResult t n av ch
      else RedisResult t n (av @ [buf]) ch)"

fun rr_put_child :: "redis_result \<Rightarrow> redis_result \<Rightarrow> nat \<Rightarrow> redis_result" where
  "rr_put_child (RedisResult t n av ch) rr idx =
     (let ch = (if ch \<noteq> [] \<and> idx = 0 then [] else ch) in RedisResult t n av (ch @ [rr]))"

section \<open>Reading it\<close>

fun rr_get_size :: "redis_result \<Rightarrow> nat" where
  "rr_get_size (RedisResult t n av ch) =
     (if t = REDIS_RESULT_ARRAY then length ch
      else if t = REDIS_RESULT_STRING then (if av = [] then 0 else n)
      else n)"

definition rr_get :: "redis_result \<Rightarrow> nat \<Rightarrow> byte list option" where
  "rr_get rr i = (if i \<ge> length (rr_argv rr) then None else Some (rr_argv rr ! i))"

text \<open>The integer readers give the value and the \<open>success\<close> flag.\<close>

definition rr_get_integer :: "redis_result \<Rightarrow> int \<times> bool" where
  "rr_get_integer rr =
     (if result_type rr \<noteq> REDIS_RESULT_INTEGER then (-1, False)
      else case rr_get rr 0 of
        None \<Rightarrow> (-1, False)
      | Some buf \<Rightarrow> if cstr_of buf = [] then (-1, False) else (c_atoi (cstr_of buf), True))"

definition rr_get_integer64 :: "redis_result \<Rightarrow> int \<times> bool" where
  "rr_get_integer64 rr =
     (if result_type rr \<noteq> REDIS_RESULT_INTEGER then (-1, False)
      else case rr_get rr 0 of
        None \<Rightarrow> (-1, False)
      | Some buf \<Rightarrow> if cstr_of buf = [] then (-1, False) else (acl_atoi64 (cstr_of buf), True))"

definition rr_get_status :: "redis_result \<Rightarrow> cstr" where
  "rr_get_status rr =
     (if result_type rr \<noteq> REDIS_RESULT_STATUS then []
      else case rr_get rr 0 of None \<Rightarrow> [] | Some buf \<Rightarrow> cstr_of buf)"

definition rr_get_error :: "redis_result \<Rightarrow> cstr" where
  "rr_get_error rr =
     (if result_type rr \<noteq> REDIS_RESULT_ERROR then []
      else case rr_get rr 0 of None \<Rightarrow> [] | Some buf \<Rightarrow> cstr_of buf)"

definition rr_get_length :: "redis_result \<Rightarrow> nat" where
  "rr_get_length rr = sum_list (map length (rr_argv rr))"

text \<open>\<open>argv_to_string(string&)\<close>: the bytes, and the result, a sum of the lengths as \<open>int\<close>. The
  commands that look at the result are modelled with the number of bytes: the reader takes
  the length of a string as an \<open>int\<close>, so its results have fewer than 2^31 bytes, and there
  the two agree (\<open>rr_argv_total_length\<close>).\<close>

fun add_lens :: "int \<Rightarrow> byte list list \<Rightarrow> int" where
  "add_lens len [] = len"
| "add_lens len (a # av) = add_lens (signed_take_bit 31 (len + signed_take_bit 31 (int (length a)))) av"

definition rr_argv_total :: "redis_result \<Rightarrow> int" where
  "rr_argv_total rr = add_lens 0 (rr_argv rr)"

definition rr_argv_to_string :: "redis_result \<Rightarrow> byte list" where
  "rr_argv_to_string rr = concat (rr_argv rr)"

text \<open>\<open>argv_to_string(char*, size_t)\<close>: what is written to the buffer, with the final zero
  byte; \<open>None\<close> when it returns without writing to the buffer. Its result is the number of
  bytes before the zero, or 0.\<close>

fun copy_pieces :: "nat \<Rightarrow> byte list list \<Rightarrow> byte list" where
  "copy_pieces sz [] = []"
| "copy_pieces sz (a # av) =
     (let n = (if sz > length a then length a else sz)
      in take n a @ (if sz - n = 0 then [] else copy_pieces (sz - n) av))"

definition rr_argv_to_buf :: "redis_result \<Rightarrow> nat \<Rightarrow> byte list option" where
  "rr_argv_to_buf rr sz =
     (if rr_argv rr = [] \<or> sz = 0 then None
      else if sz - 1 = 0 then None
      else Some (copy_pieces (sz - 1) (rr_argv rr) @ [0]))"

definition rr_get_child :: "redis_result \<Rightarrow> nat \<Rightarrow> redis_result option" where
  "rr_get_child rr i = (if i \<ge> length (rr_children rr) then None else Some (rr_children rr ! i))"

fun rr_to_string :: "redis_result \<Rightarrow> byte list" where
  "rr_to_string (RedisResult t n av ch) =
     (if t \<noteq> REDIS_RESULT_ARRAY then concat av @ [13, 10]
      else concat (map rr_to_string ch))"

section \<open>Well-formed results\<close>

text \<open>What the constructor and the setters keep: never more pieces than announced.\<close>

definition rr_ok :: "redis_result \<Rightarrow> bool" where
  "rr_ok rr \<longleftrightarrow> length (rr_argv rr) \<le> rr_size rr"

named_theorems rr_keeps "the setters keep a result well formed"

lemma rr_ok_new [rr_keeps]: "rr_ok redis_result_new"
  by (simp add: rr_ok_def redis_result_new_def)

lemma rr_ok_set_size [rr_keeps]: "rr_ok rr \<Longrightarrow> rr_ok (rr_set_size rr n)"
  by (cases rr) (auto simp: rr_ok_def)

lemma rr_ok_set_type [rr_keeps]: "rr_ok rr \<Longrightarrow> rr_ok (rr_set_type rr t)"
  by (cases rr) (auto simp: rr_ok_def)

lemma rr_ok_put [rr_keeps]: "rr_ok rr \<Longrightarrow> rr_ok (rr_put rr buf)"
  by (cases rr) (auto simp: rr_ok_def)

lemma rr_ok_put_child [rr_keeps]: "rr_ok rr \<Longrightarrow> rr_ok (rr_put_child rr c i)"
  by (cases rr) (auto simp: rr_ok_def Let_def)

text \<open>The buffer copy is the string copy, cut to the buffer.\<close>

lemma copy_pieces_take: "copy_pieces sz av = take sz (concat av)"
  by (induction sz av rule: copy_pieces.induct) (auto simp: Let_def)

lemma rr_argv_to_buf_take:
  "rr_argv rr \<noteq> [] \<Longrightarrow> 1 < sz \<Longrightarrow> rr_argv_to_buf rr sz = Some (take (sz - 1) (rr_argv_to_string rr) @ [0])"
  by (simp add: rr_argv_to_buf_def rr_argv_to_string_def copy_pieces_take)

lemma add_lens_sum: "n + length (concat av) < 2 ^ 31 \<Longrightarrow> add_lens (int n) av = int (n + length (concat av))"
proof (induction av arbitrary: n)
  case (Cons a av)
  have "signed_take_bit 31 (int (length a)) = int (length a)"
    "signed_take_bit 31 (int n + int (length a)) = int (n + length a)"
    using Cons.prems by (simp_all add: signed_take_bit_int_eq_self_iff)
  with Cons.IH [of "n + length a"] Cons.prems show ?case by (simp add: add.assoc)
qed simp

lemma rr_argv_total_length:
  "length (rr_argv_to_string rr) < 2 ^ 31 \<Longrightarrow> rr_argv_total rr = int (length (rr_argv_to_string rr))"
  using add_lens_sum [of 0 "rr_argv rr"] by (simp add: rr_argv_total_def rr_argv_to_string_def)

lemma rr_get_length_string: "rr_get_length rr = length (rr_argv_to_string rr)"
  by (simp add: rr_get_length_def rr_argv_to_string_def length_concat)

end
