(* ===== verification/Redis_Client.thy ===== *)
theory Redis_Client
  imports Redis_Result Acl_Vstream
begin

text \<open>
  \<^verbatim>\<open>aclredis/src/redis/redis_client.cpp\<close>: one connection to a redis server. First the reader
  of replies (\<open>get_redis_*\<close>), which is checked against the wire format of the protocol
  (\<open>resp_encode\<close>): whatever reply the server sends, in whatever segments it arrives, is read
  as that reply and nothing behind it is touched. Then a request's life: opening the
  connection, writing, reading the reply and trying once more.

  The reader calls itself for the elements of an array, on the stack of the process; the
  fuel of \<open>get_redis_object\<close> is the depth of nesting that the stack allows, and a deeper
  reply is the outcome \<open>Deep\<close>. The memory pool never fails.
\<close>

section \<open>Reading a reply\<close>

text \<open>The outcomes: the stack is exhausted, the NULL result, a result.\<close>

datatype 'a reply = Deep | Nul vstream | Got 'a vstream

definition put_data :: "redis_result \<Rightarrow> byte list \<Rightarrow> redis_result" where
  "put_data rr bytes = rr_put rr bytes"

definition get_redis_error :: "vstream \<Rightarrow> redis_result reply" where
  "get_redis_error s = (case istream_gets s True of
     (False, _, s) \<Rightarrow> Nul s
   | (True, line, s) \<Rightarrow>
       Got (put_data (rr_set_size (rr_set_type redis_result_new REDIS_RESULT_ERROR) 1) line) s)"

definition get_redis_status :: "vstream \<Rightarrow> redis_result reply" where
  "get_redis_status s = (case istream_gets s True of
     (False, _, s) \<Rightarrow> Nul s
   | (True, line, s) \<Rightarrow>
       Got (put_data (rr_set_size (rr_set_type redis_result_new REDIS_RESULT_STATUS) 1) line) s)"

definition get_redis_integer :: "vstream \<Rightarrow> redis_result reply" where
  "get_redis_integer s = (case istream_gets s True of
     (False, _, s) \<Rightarrow> Nul s
   | (True, line, s) \<Rightarrow>
       Got (put_data (rr_set_size (rr_set_type redis_result_new REDIS_RESULT_INTEGER) 1) line) s)"

text \<open>The loop that reads a large string in pieces of at most 8191 bytes.\<close>

function slice_loop :: "nat \<Rightarrow> redis_result \<Rightarrow> vstream \<Rightarrow> redis_result reply" where
  "slice_loop len rr s =
     (if len > 0 then
        (let n = (if len > 8191 then 8191 else len) in
         case istream_read s n of
           (None, s) \<Rightarrow> Nul s
         | (Some buf, s) \<Rightarrow> slice_loop (len - n) (rr_put rr buf) s)
      else Got rr s)"
  by pat_completeness auto
termination by (relation "measure fst") (auto split: if_splits)

declare slice_loop.simps [simp del]

text \<open>The CR LF behind the bytes of a string.\<close>

definition string_end :: "redis_result \<Rightarrow> vstream \<Rightarrow> redis_result reply" where
  "string_end rr s = (case istream_gets s True of (False, _, s) \<Rightarrow> Nul s | (True, _, s) \<Rightarrow> Got rr s)"

definition get_redis_string :: "bool \<Rightarrow> vstream \<Rightarrow> redis_result reply" where
  "get_redis_string slice_res s = (case istream_gets s True of
     (False, _, s) \<Rightarrow> Nul s
   | (True, line, s) \<Rightarrow>
       (let rr = rr_set_type redis_result_new REDIS_RESULT_STRING;
            len = c_atoi (cstr_of line)
        in if len < 0 then Got rr s
           else if \<not> slice_res then
             (let rr = rr_set_size rr 1 in
              case (if len > 0 then istream_read s (nat len) else (Some [], s)) of
                (None, s) \<Rightarrow> Nul s
              | (Some buf, s) \<Rightarrow> string_end (rr_put rr buf) s)
           else
             (let n = nat len;
                  rr = rr_set_size rr (n div 8192 + (if n mod 8192 \<noteq> 0 then 1 else 0))
              in case slice_loop n rr s of
                   Got rr s \<Rightarrow> string_end rr s
                 | other \<Rightarrow> other)))"

text \<open>The elements of an array: \<open>count\<close> of them are still to come, the next is number i.\<close>

fun children_loop ::
  "(vstream \<Rightarrow> redis_result reply) \<Rightarrow> nat \<Rightarrow> nat \<Rightarrow> redis_result \<Rightarrow> vstream \<Rightarrow> redis_result reply"
where
  "children_loop element 0 i rr s = Got rr s"
| "children_loop element (Suc count) i rr s =
     (case element s of
        Got child s \<Rightarrow> children_loop element count (Suc i) (rr_put_child rr child i) s
      | other \<Rightarrow> other)"

definition get_redis_array :: "(vstream \<Rightarrow> redis_result reply) \<Rightarrow> vstream \<Rightarrow> redis_result reply" where
  "get_redis_array element s = (case istream_gets s True of
     (False, _, s) \<Rightarrow> Nul s
   | (True, line, s) \<Rightarrow>
       (let rr = rr_set_type redis_result_new REDIS_RESULT_ARRAY;
            count = c_atoi (cstr_of line)
        in if count \<le> 0 then Got rr s
           else children_loop element (nat count) 0 (rr_set_size rr (nat count)) s))"

fun get_redis_object :: "nat \<Rightarrow> bool \<Rightarrow> vstream \<Rightarrow> redis_result reply" where
  "get_redis_object 0 slice_res s = Deep"
| "get_redis_object (Suc depth) slice_res s =
     (case istream_read_char s of
        (None, s) \<Rightarrow> Nul s
      | (Some ch, s) \<Rightarrow>
          (if ch = 45 then get_redis_error s
           else if ch = 43 then get_redis_status s
           else if ch = 58 then get_redis_integer s
           else if ch = 36 then get_redis_string slice_res s
           else if ch = 42 then get_redis_array (get_redis_object depth slice_res) s
           else Nul s))"

definition get_redis_objects :: "nat \<Rightarrow> bool \<Rightarrow> nat \<Rightarrow> vstream \<Rightarrow> redis_result reply" where
  "get_redis_objects depth slice_res nobjs s =
     children_loop (get_redis_object depth slice_res) nobjs 0
       (rr_set_size (rr_set_type redis_result_new REDIS_RESULT_ARRAY) nobjs) s"

section \<open>The wire format\<close>

text \<open>What a server may reply, how the protocol writes it, and the result that stands for it.\<close>

datatype resp = RError cstr | RStatus cstr | RInteger cstr | RBulk "byte list" | RNull
  | RArray "resp list" | RNullArray

definition crlf :: "byte list" where
  "crlf = [13, 10]"

fun resp_encode :: "resp \<Rightarrow> byte list" where
  "resp_encode (RError l) = 45 # l @ crlf"
| "resp_encode (RStatus l) = 43 # l @ crlf"
| "resp_encode (RInteger l) = 58 # l @ crlf"
| "resp_encode (RBulk b) = 36 # dec_of_nat (length b) @ crlf @ b @ crlf"
| "resp_encode RNull = 36 # dec_of_int (-1) @ crlf"
| "resp_encode (RArray vs) = 42 # dec_of_nat (length vs) @ crlf @ concat (map resp_encode vs)"
| "resp_encode RNullArray = 42 # dec_of_int (-1) @ crlf"

fun resp_result :: "resp \<Rightarrow> redis_result" where
  "resp_result (RError l) = RedisResult REDIS_RESULT_ERROR 1 [l] []"
| "resp_result (RStatus l) = RedisResult REDIS_RESULT_STATUS 1 [l] []"
| "resp_result (RInteger l) = RedisResult REDIS_RESULT_INTEGER 1 [l] []"
| "resp_result (RBulk b) = RedisResult REDIS_RESULT_STRING 1 [b] []"
| "resp_result RNull = RedisResult REDIS_RESULT_STRING 0 [] []"
| "resp_result (RArray vs) = RedisResult REDIS_RESULT_ARRAY (length vs) [] (map resp_result vs)"
| "resp_result RNullArray = RedisResult REDIS_RESULT_ARRAY 0 [] []"

text \<open>A line of the protocol has no line end inside; the client reads up to 8189 bytes of it
  at once. Strings and arrays are shorter than \<open>2^31\<close>.\<close>

definition line_ok :: "cstr \<Rightarrow> bool" where
  "line_ok l \<longleftrightarrow> 10 \<notin> set l \<and> (l = [] \<or> last l \<noteq> 13) \<and> length l < 8190"

fun resp_ok :: "resp \<Rightarrow> bool" where
  "resp_ok (RError l) = line_ok l"
| "resp_ok (RStatus l) = line_ok l"
| "resp_ok (RInteger l) = line_ok l"
| "resp_ok (RBulk b) = (length b < 2 ^ 31)"
| "resp_ok (RArray vs) = (length vs < 2 ^ 31 \<and> list_all resp_ok vs)"
| "resp_ok _ = True"

fun resp_depth :: "resp \<Rightarrow> nat" where
  "resp_depth (RArray vs) = Suc (foldr max (map resp_depth vs) 0)"
| "resp_depth _ = 1"

lemma resp_depth_element: "v \<in> set vs \<Longrightarrow> resp_depth v \<le> foldr max (map resp_depth vs) 0"
  by (induction vs) auto

section \<open>The reader reads what the server writes\<close>

text \<open>A stream that is ready: it has a buffer and is not at its end.\<close>

definition ready :: "vstream \<Rightarrow> byte list \<Rightarrow> bool" where
  "ready s bytes \<longleftrightarrow> pending s = bytes \<and> rd_len s > 0 \<and> \<not> is_eof s"

lemma ready_line:
  assumes "ready s (l @ crlf @ rest)" "line_ok l"
  shows "\<exists>s'. istream_gets s True = (True, l, s') \<and> ready s' rest"
  using istream_gets_crlf [of s l rest] assms
  by (auto simp: ready_def crlf_def line_ok_def same_stream_def)

lemma ready_char:
  assumes "ready s (c # rest)"
  shows "\<exists>s'. istream_read_char s = (Some c, s') \<and> ready s' rest"
  using istream_read_char_pending [of s c rest] assms by (auto simp: ready_def same_stream_def)

lemma ready_read:
  assumes "ready s (bs @ rest)" "bs \<noteq> []"
  shows "\<exists>s'. istream_read s (length bs) = (Some bs, s') \<and> ready s' rest"
  using istream_read_pending [of s bs rest] assms by (auto simp: ready_def same_stream_def)

lemma line_ok_dec: "n < 2 ^ 31 \<Longrightarrow> line_ok (dec_of_nat n)"
proof -
  assume "n < 2 ^ 31"
  then have "length (dec_of_nat n) \<le> 10" using dec_length [of n 9] by simp
  moreover have "isdigit c" if "c \<in> set (dec_of_nat n)" for c
    using dec_of_nat_digits [of n] that by (auto simp: list_all_iff)
  then have "10 \<notin> set (dec_of_nat n)" "last (dec_of_nat n) \<noteq> 13"
    using last_in_set [of "dec_of_nat n"] by (fastforce simp: isdigit_def)+
  ultimately show ?thesis by (simp add: line_ok_def)
qed

lemma dec_minus_one: "dec_of_int (-1) = [45, 49]"
  by (simp add: dec_of_int_def dec_of_nat.simps)

lemma line_ok_minus_one: "line_ok (dec_of_int (-1))"
  by (simp add: dec_minus_one line_ok_def)

lemma line_ok_Nil [simp]: "line_ok []"
  by (simp add: line_ok_def)

lemma cstr_of_dec: "cstr_of (dec_of_nat n) = dec_of_nat n"
  using dec_of_nat_digits [of n]
  by (auto simp: cstr_of_def takeWhile_eq_all_conv list_all_iff isdigit_def)

lemma atoi_len: "n < 2 ^ 31 \<Longrightarrow> c_atoi (cstr_of (dec_of_nat n)) = int n"
  by (simp add: cstr_of_dec)

lemma atoi_minus_one: "c_atoi (cstr_of (dec_of_int (-1))) = -1"
proof -
  have "cstr_of (dec_of_int (-1)) = dec_of_int (-1)" by (simp add: dec_minus_one cstr_of_def)
  then show ?thesis by (simp add: c_atoi_int)
qed

lemma ready_string_end:
  assumes "ready s (crlf @ rest)"
  shows "\<exists>s'. string_end rr s = Got rr s' \<and> ready s' rest"
  using ready_line [of s "[]" rest] assms by (auto simp: string_end_def)

lemma get_string_bulk:
  assumes "ready s (dec_of_nat (length b) @ crlf @ b @ crlf @ rest)" "length b < 2 ^ 31"
  shows "\<exists>s'. get_redis_string False s = Got (resp_result (RBulk b)) s' \<and> ready s' rest"
proof -
  from ready_line [OF assms(1) line_ok_dec [OF assms(2)]] obtain s1 where
    1: "istream_gets s True = (True, dec_of_nat (length b), s1)" "ready s1 (b @ crlf @ rest)" by blast
  obtain s2 where
    2: "(if int (length b) > 0 then istream_read s1 (nat (int (length b))) else (Some [], s1)) = (Some b, s2)"
      "ready s2 (crlf @ rest)"
    using ready_read [OF 1(2)] 1(2) by (cases "b = []") auto
  from ready_string_end [OF 2(2)] obtain s3 where
    3: "string_end (RedisResult REDIS_RESULT_STRING 1 [b] []) s2 =
        Got (RedisResult REDIS_RESULT_STRING 1 [b] []) s3" "ready s3 rest" by blast
  show ?thesis
    unfolding get_redis_string_def 1(1) prod.case bool.case Let_def atoi_len [OF assms(2)]
    using 2(1) 3 by (simp add: redis_result_new_def)
qed

lemma get_string_null:
  assumes "ready s (dec_of_int (-1) @ crlf @ rest)"
  shows "\<exists>s'. get_redis_string sl s = Got (resp_result RNull) s' \<and> ready s' rest"
proof -
  from ready_line [OF assms line_ok_minus_one] obtain s1 where
    1: "istream_gets s True = (True, dec_of_int (-1), s1)" "ready s1 rest" by blast
  then show ?thesis
    unfolding get_redis_string_def 1(1) prod.case bool.case Let_def atoi_minus_one
    by (simp add: redis_result_new_def)
qed

lemma children_loop_encode:
  assumes "\<And>v s rest. v \<in> set vs \<Longrightarrow> ready s (resp_encode v @ rest) \<Longrightarrow>
      \<exists>s'. element s = Got (resp_result v) s' \<and> ready s' rest"
    and "ready s (concat (map resp_encode vs) @ rest)" "i = length ch"
  shows "\<exists>s'. children_loop element (length vs) i (RedisResult t n av ch) s =
      Got (RedisResult t n av (ch @ map resp_result vs)) s' \<and> ready s' rest"
  using assms
proof (induction vs arbitrary: s i ch)
  case (Cons v vs)
  from Cons.prems(1) [of v s "concat (map resp_encode vs) @ rest"] Cons.prems(2) obtain s1 where
    1: "element s = Got (resp_result v) s1" "ready s1 (concat (map resp_encode vs) @ rest)" by auto
  have put: "rr_put_child (RedisResult t n av ch) (resp_result v) i =
      RedisResult t n av (ch @ [resp_result v])" using Cons.prems(3) by (simp add: Let_def)
  from Cons.IH [of s1 "Suc i" "ch @ [resp_result v]"] 1 Cons.prems(1,3) show ?case
    by (simp add: put)
qed simp

lemma get_object_encode:
  "resp_ok v \<Longrightarrow> resp_depth v \<le> depth \<Longrightarrow> ready s (resp_encode v @ rest) \<Longrightarrow>
   \<exists>s'. get_redis_object depth False s = Got (resp_result v) s' \<and> ready s' rest"
proof (induction v arbitrary: depth s rest)
  case (RArray vs)
  from RArray.prems(2) obtain d where d: "depth = Suc d" "foldr max (map resp_depth vs) 0 \<le> d"
    by (cases depth) auto
  from RArray.prems(3) ready_char [of s 42] obtain s1 where
    1: "istream_read_char s = (Some 42, s1)"
      "ready s1 (dec_of_nat (length vs) @ crlf @ concat (map resp_encode vs) @ rest)" by auto
  from RArray.prems(1) have len: "length vs < 2 ^ 31" by simp
  from ready_line [OF 1(2) line_ok_dec [OF len]] obtain s2 where
    2: "istream_gets s1 True = (True, dec_of_nat (length vs), s2)"
      "ready s2 (concat (map resp_encode vs) @ rest)" by blast
  have elem: "\<exists>s'. get_redis_object d False s = Got (resp_result v) s' \<and> ready s' rest'"
    if "v \<in> set vs" "ready s (resp_encode v @ rest')" for v s rest'
    using RArray.IH [OF that(1) _ _ that(2)] RArray.prems(1) that(1) d(2) resp_depth_element [OF that(1)]
    by (auto simp: list_all_iff)
  from children_loop_encode [where element = "get_redis_object d False" and i = 0 and ch = "[]"
      and t = REDIS_RESULT_ARRAY and n = "length vs" and av = "[]", OF elem 2(2)] obtain s3 where
    3: "children_loop (get_redis_object d False) (length vs) 0
          (RedisResult REDIS_RESULT_ARRAY (length vs) [] []) s2 =
        Got (RedisResult REDIS_RESULT_ARRAY (length vs) [] (map resp_result vs)) s3" "ready s3 rest"
    by auto
  have "get_redis_array (get_redis_object d False) s1 =
      Got (RedisResult REDIS_RESULT_ARRAY (length vs) [] (map resp_result vs)) s3"
    if "vs \<noteq> []"
    unfolding get_redis_array_def 2(1) prod.case bool.case Let_def atoi_len [OF len]
    using that 3(1) by (simp add: redis_result_new_def)
  moreover have "get_redis_array (get_redis_object d False) s1 =
      Got (RedisResult REDIS_RESULT_ARRAY 0 [] []) s2" "ready s2 rest" if "vs = []"
    unfolding get_redis_array_def 2(1) prod.case bool.case Let_def atoi_len [OF len]
    using that 2(2) by (simp_all add: redis_result_new_def)
  ultimately show ?case
    using 1(1) 3(2) d(1) by (cases "vs = []") auto
next
  case RNullArray
  then obtain d where d: "depth = Suc d" by (cases depth) auto
  from RNullArray.prems(3) ready_char [of s 42] obtain s1 where
    1: "istream_read_char s = (Some 42, s1)" "ready s1 (dec_of_int (-1) @ crlf @ rest)" by auto
  from ready_line [OF 1(2) line_ok_minus_one] obtain s2 where
    2: "istream_gets s1 True = (True, dec_of_int (-1), s2)" "ready s2 rest" by blast
  have "get_redis_array (get_redis_object d False) s1 = Got (resp_result RNullArray) s2"
    unfolding get_redis_array_def 2(1) prod.case bool.case Let_def atoi_minus_one
    by (simp add: redis_result_new_def)
  with 1 2 d show ?case by simp
next
  case (RBulk b)
  then obtain d where d: "depth = Suc d" by (cases depth) auto
  from RBulk.prems(3) ready_char [of s 36] obtain s1 where
    1: "istream_read_char s = (Some 36, s1)" "ready s1 (dec_of_nat (length b) @ crlf @ b @ crlf @ rest)" by auto
  from get_string_bulk [OF 1(2)] RBulk.prems(1) 1(1) d show ?case by auto
next
  case RNull
  then obtain d where d: "depth = Suc d" by (cases depth) auto
  from RNull.prems(3) ready_char [of s 36] obtain s1 where
    1: "istream_read_char s = (Some 36, s1)" "ready s1 (dec_of_int (-1) @ crlf @ rest)" by auto
  from get_string_null [OF 1(2)] 1(1) d show ?case by auto
next
  case (RError l)
  then obtain d where d: "depth = Suc d" by (cases depth) auto
  from RError.prems(3) ready_char [of s 45] obtain s1 where
    1: "istream_read_char s = (Some 45, s1)" "ready s1 (l @ crlf @ rest)" by auto
  from ready_line [OF 1(2)] RError.prems(1) 1(1) d show ?case
    by (auto simp: get_redis_error_def put_data_def redis_result_new_def)
next
  case (RStatus l)
  then obtain d where d: "depth = Suc d" by (cases depth) auto
  from RStatus.prems(3) ready_char [of s 43] obtain s1 where
    1: "istream_read_char s = (Some 43, s1)" "ready s1 (l @ crlf @ rest)" by auto
  from ready_line [OF 1(2)] RStatus.prems(1) 1(1) d show ?case
    by (auto simp: get_redis_status_def put_data_def redis_result_new_def)
next
  case (RInteger l)
  then obtain d where d: "depth = Suc d" by (cases depth) auto
  from RInteger.prems(3) ready_char [of s 58] obtain s1 where
    1: "istream_read_char s = (Some 58, s1)" "ready s1 (l @ crlf @ rest)" by auto
  from ready_line [OF 1(2)] RInteger.prems(1) 1(1) d show ?case
    by (auto simp: get_redis_integer_def put_data_def redis_result_new_def)
qed

section \<open>Large strings in pieces\<close>

text \<open>The pieces that arrive, and what \<open>put\<close> keeps of them.\<close>

definition pieces_kept :: "nat \<Rightarrow> byte list \<Rightarrow> byte list" where
  "pieces_kept n b = take (8191 * n) b"

lemma slice_loop_kept:
  "ready s (b @ rest) \<Longrightarrow> rr_argv rr = av \<Longrightarrow> rr_size rr = k \<Longrightarrow> length av \<le> k \<Longrightarrow>
   result_type rr = t \<Longrightarrow> rr_children rr = ch \<Longrightarrow>
   \<exists>s' av'. slice_loop (length b) rr s = Got (RedisResult t k av' ch) s' \<and> ready s' rest \<and>
     concat av' = concat av @ pieces_kept (k - length av) b"
proof (induction "length b" arbitrary: b rr s av rule: less_induct)
  case less
  obtain rr_eq: "rr = RedisResult t k av ch"
    using less.prems by (cases rr) auto
  show ?case
  proof (cases "b = []")
    case True
    with less.prems rr_eq show ?thesis
      by (subst slice_loop.simps) (simp add: pieces_kept_def)
  next
    case False
    let ?n = "if length b > 8191 then 8191 else length b"
    let ?p = "take ?n b" and ?q = "drop ?n b"
    have n: "length ?p = ?n" "?p \<noteq> []" using False by auto
    have "ready s (?p @ ?q @ rest)" using less.prems(1) by (metis append.assoc append_take_drop_id)
    from ready_read [OF this n(2)] obtain s1 where
      1: "istream_read s ?n = (Some ?p, s1)" "ready s1 (?q @ rest)" unfolding n(1) by blast
    have loop: "slice_loop (length b) rr s = slice_loop (length ?q) (rr_put rr ?p) s1"
      using False 1(1) by (subst slice_loop.simps) (simp add: Let_def)
    have dec: "length ?q < length b" using False by auto
    show ?thesis
    proof (cases "length av < k")
      case True
      then have put: "rr_put rr ?p = RedisResult t k (av @ [?p]) ch" by (simp add: rr_eq)
      from less.hyps [OF dec 1(2), of "RedisResult t k (av @ [?p]) ch" "av @ [?p]"] True obtain s2 av' where
        2: "slice_loop (length ?q) (rr_put rr ?p) s1 = Got (RedisResult t k av' ch) s2" "ready s2 rest"
          "concat av' = concat av @ ?p @ pieces_kept (k - Suc (length av)) ?q"
        by (auto simp: put)
      obtain j where j: "k - length av = Suc j" "k - Suc (length av) = j"
        using True by (metis Suc_diff_Suc)
      have "?p @ pieces_kept j ?q = pieces_kept (Suc j) b"
      proof (cases "length b > 8191")
        case True
        then show ?thesis
          by (simp add: pieces_kept_def take_add [symmetric] del: take_append)
      qed (simp add: pieces_kept_def)
      with 2 loop j show ?thesis by auto
    next
      case False
      then have put: "rr_put rr ?p = RedisResult t k av ch" by (simp add: rr_eq)
      from less.hyps [OF dec 1(2), of "RedisResult t k av ch" av] less.prems(4) obtain s2 av' where
        "slice_loop (length ?q) (rr_put rr ?p) s1 = Got (RedisResult t k av' ch) s2" "ready s2 rest"
          "concat av' = concat av @ pieces_kept (k - length av) ?q"
        by (auto simp: put)
      with loop False show ?thesis by (auto simp: pieces_kept_def)
    qed
  qed
qed

definition slice_count :: "nat \<Rightarrow> nat" where
  "slice_count n = n div 8192 + (if n mod 8192 \<noteq> 0 then 1 else 0)"

lemma get_string_sliced:
  assumes "ready s (dec_of_nat (length b) @ crlf @ b @ crlf @ rest)" "length b < 2 ^ 31"
  shows "\<exists>s' av. get_redis_string True s = Got (RedisResult REDIS_RESULT_STRING (slice_count (length b)) av []) s' \<and>
    ready s' rest \<and> concat av = take (8191 * slice_count (length b)) b"
proof -
  from ready_line [OF assms(1) line_ok_dec [OF assms(2)]] obtain s1 where
    1: "istream_gets s True = (True, dec_of_nat (length b), s1)" "ready s1 (b @ crlf @ rest)" by blast
  let ?rr = "RedisResult REDIS_RESULT_STRING (slice_count (length b)) [] []"
  from slice_loop_kept [OF 1(2), of ?rr "[]" "slice_count (length b)" REDIS_RESULT_STRING "[]"]
  obtain s2 av where
    2: "slice_loop (length b) ?rr s1 =
          Got (RedisResult REDIS_RESULT_STRING (slice_count (length b)) av []) s2"
      "ready s2 (crlf @ rest)" "concat av = take (8191 * slice_count (length b)) b"
    by (auto simp: pieces_kept_def)
  from ready_string_end [OF 2(2)] obtain s3 where
    3: "string_end (RedisResult REDIS_RESULT_STRING (slice_count (length b)) av []) s2 =
        Got (RedisResult REDIS_RESULT_STRING (slice_count (length b)) av []) s3" "ready s3 rest" by blast
  have rr: "rr_set_size (rr_set_type redis_result_new REDIS_RESULT_STRING)
      (nat (int (length b)) div 8192 + (if nat (int (length b)) mod 8192 \<noteq> 0 then 1 else 0)) = ?rr"
    by (simp add: redis_result_new_def slice_count_def)
  show ?thesis
    unfolding get_redis_string_def 1(1) prod.case bool.case Let_def atoi_len [OF assms(2)] rr
    using 2 3 by simp
qed

section \<open>Nested arrays\<close>

definition nested_arrays :: "nat \<Rightarrow> byte list" where
  "nested_arrays n = concat (replicate n [42, 49, 13, 10])"

lemma nested_arrays_deep: "ready s (nested_arrays n @ rest) \<Longrightarrow> get_redis_object n sl s = Deep"
proof (induction n arbitrary: s)
  case (Suc n)
  have one: "dec_of_nat (Suc 0) = [49]" by (simp add: dec_of_nat.simps)
  from Suc.prems ready_char [of s 42] obtain s1 where
    1: "istream_read_char s = (Some 42, s1)" "ready s1 (dec_of_nat 1 @ crlf @ nested_arrays n @ rest)"
    by (auto simp: nested_arrays_def one crlf_def)
  from ready_line [OF 1(2) line_ok_dec] obtain s2 where
    2: "istream_gets s1 True = (True, dec_of_nat 1, s2)" "ready s2 (nested_arrays n @ rest)" by auto
  have "get_redis_array (get_redis_object n sl) s1 = Deep"
    unfolding get_redis_array_def 2(1) prod.case bool.case Let_def
    using Suc.IH [OF 2(2)] atoi_len [of 1] by (simp add: redis_result_new_def)
  with 1(1) show ?case by simp
qed simp

section \<open>Properties\<close>

text \<open>C11: A reply of the server (an error, a status, a number, a string of any bytes, nil, an
  array of replies nested as deep as the stack allows), in whatever segments it arrives, is
  returned by \<open>get_redis_object\<close> with exactly this content, and the next reply starts at the
  next byte: a byte of one reply never becomes part of another. This holds without
  \<open>set_slice_respond\<close>, for strings and arrays of fewer than 2^31 bytes or elements and for
  errors, statuses and numbers of fewer than 8190 bytes that hold no line feed and do not end
  in a carriage return (\<open>line_ok\<close>); \<open>sliced_reply_cut\<close> and \<open>gets_long_line_zero\<close> show the bytes that are
  lost or added otherwise.\<close>

theorem redis_reply_read:
  assumes "resp_ok v" "resp_depth v \<le> depth" "pending s = resp_encode v @ rest"
    and "rd_len s > 0" "\<not> is_eof s"
  shows "\<exists>s'. get_redis_object depth False s = Got (resp_result v) s' \<and> pending s' = rest \<and>
    rd_len s' > 0 \<and> \<not> is_eof s'"
  using get_object_encode [OF assms(1,2), of s rest] assms(3-5) by (auto simp: ready_def)

theorem redis_reply_read_witness:
  "\<exists>s'. get_redis_object 2 False (sample_stream [Bytes (lit ''*2'' @ [13]), Bytes ([10] @ lit ''$3'' @ [13, 10, 13]),
      Bytes ([10, 0, 13, 10] @ lit '':7'' @ [13, 10, 43])]) =
    Got (RedisResult REDIS_RESULT_ARRAY 2 [] [RedisResult REDIS_RESULT_STRING 1 [[13, 10, 0]] [],
      RedisResult REDIS_RESULT_INTEGER 1 [[55]] []]) s' \<and> pending s' = [43]"
  using redis_reply_read [of "RArray [RBulk [13, 10, 0], RInteger [55]]" 2
      "sample_stream [Bytes (lit ''*2'' @ [13]), Bytes ([10] @ lit ''$3'' @ [13, 10, 13]),
        Bytes ([10, 0, 13, 10] @ lit '':7'' @ [13, 10, 43])]" "[43]"]
  by (auto simp: sample_stream_def pending_def lit_def crlf_def dec_of_nat.simps line_ok_def)

text \<open>With \<open>set_slice_respond(true)\<close> a string is kept in pieces of 8191 bytes, but the
  number of pieces is computed with 8192: of a string of n bytes only the first
  8191 * ceil(n / 8192) are kept, and the call still returns a result. A string of 8192
  bytes loses its last byte.\<close>

theorem sliced_reply_cut:
  assumes "pending s = dec_of_nat (length b) @ [13, 10] @ b @ [13, 10] @ rest" "length b < 2 ^ 31"
    and "rd_len s > 0" "\<not> is_eof s"
  shows "\<exists>rr s'. get_redis_string True s = Got rr s' \<and> pending s' = rest \<and>
    rr_argv_to_string rr = take (8191 * (length b div 8192 + (if length b mod 8192 \<noteq> 0 then 1 else 0))) b"
  using get_string_sliced [of s b rest] assms
  by (fastforce simp: ready_def crlf_def slice_count_def rr_argv_to_string_def)

theorem sliced_reply_cut_witness:
  "\<exists>rr s'. get_redis_string True (sample_stream [Bytes (dec_of_nat 8192 @ [13, 10] @ replicate 8192 97 @ [13, 10])])
      = Got rr s' \<and> length (rr_argv_to_string rr) = 8191"
proof -
  have "pending (sample_stream [Bytes (dec_of_nat 8192 @ [13, 10] @ replicate 8192 97 @ [13, 10])]) =
      dec_of_nat (length (replicate 8192 (97 :: byte))) @ [13, 10] @ replicate 8192 97 @ [13, 10] @ []"
    by (simp add: sample_stream_def pending_def avail_Bytes)
  from sliced_reply_cut [OF this] show ?thesis by (fastforce simp: sample_stream_def)
qed

text \<open>C28: A server (or anyone who answers in its place) decides how deep the client's recursion
  goes: four bytes per level are enough to exceed any depth of stack.\<close>

theorem nested_reply_exhausts_stack:
  assumes "pending s = nested_arrays depth @ rest" "rd_len s > 0" "\<not> is_eof s"
  shows "get_redis_object depth slice_res s = Deep"
  using assms by (intro nested_arrays_deep [of s depth rest]) (simp add: ready_def)

theorem nested_reply_exhausts_stack_witness:
  "get_redis_object 2 False (sample_stream [Bytes [42, 49, 13, 10, 42, 49, 13, 10]]) = Deep"
  using nested_reply_exhausts_stack [of "sample_stream [Bytes [42, 49, 13, 10, 42, 49, 13, 10]]" 2 "[]" False]
  by (simp add: sample_stream_def pending_def nested_arrays_def numeral_2_eq_2)

end
