(* ===== verification/Acl_Crc16.thy ===== *)
theory Acl_Crc16
  imports Prelude
begin

text \<open>
  \<open>acl_hash_crc16\<close> of \<^verbatim>\<open>acllib/src/stdlib/common/acl_hash.c\<close>, which chooses the hash slot of a
  key. It reads a table; the reference is the definition of the checksum, eight steps of
  shifting and adding the polynomial \<open>0x1021\<close> for every byte (CRC-16/XMODEM, which the
  redis cluster protocol prescribes).
\<close>

definition crc16tab :: "u16 list" where
  "crc16tab = [
     0x0000, 0x1021, 0x2042, 0x3063, 0x4084, 0x50a5, 0x60c6, 0x70e7,
     0x8108, 0x9129, 0xa14a, 0xb16b, 0xc18c, 0xd1ad, 0xe1ce, 0xf1ef,
     0x1231, 0x0210, 0x3273, 0x2252, 0x52b5, 0x4294, 0x72f7, 0x62d6,
     0x9339, 0x8318, 0xb37b, 0xa35a, 0xd3bd, 0xc39c, 0xf3ff, 0xe3de,
     0x2462, 0x3443, 0x0420, 0x1401, 0x64e6, 0x74c7, 0x44a4, 0x5485,
     0xa56a, 0xb54b, 0x8528, 0x9509, 0xe5ee, 0xf5cf, 0xc5ac, 0xd58d,
     0x3653, 0x2672, 0x1611, 0x0630, 0x76d7, 0x66f6, 0x5695, 0x46b4,
     0xb75b, 0xa77a, 0x9719, 0x8738, 0xf7df, 0xe7fe, 0xd79d, 0xc7bc,
     0x48c4, 0x58e5, 0x6886, 0x78a7, 0x0840, 0x1861, 0x2802, 0x3823,
     0xc9cc, 0xd9ed, 0xe98e, 0xf9af, 0x8948, 0x9969, 0xa90a, 0xb92b,
     0x5af5, 0x4ad4, 0x7ab7, 0x6a96, 0x1a71, 0x0a50, 0x3a33, 0x2a12,
     0xdbfd, 0xcbdc, 0xfbbf, 0xeb9e, 0x9b79, 0x8b58, 0xbb3b, 0xab1a,
     0x6ca6, 0x7c87, 0x4ce4, 0x5cc5, 0x2c22, 0x3c03, 0x0c60, 0x1c41,
     0xedae, 0xfd8f, 0xcdec, 0xddcd, 0xad2a, 0xbd0b, 0x8d68, 0x9d49,
     0x7e97, 0x6eb6, 0x5ed5, 0x4ef4, 0x3e13, 0x2e32, 0x1e51, 0x0e70,
     0xff9f, 0xefbe, 0xdfdd, 0xcffc, 0xbf1b, 0xaf3a, 0x9f59, 0x8f78,
     0x9188, 0x81a9, 0xb1ca, 0xa1eb, 0xd10c, 0xc12d, 0xf14e, 0xe16f,
     0x1080, 0x00a1, 0x30c2, 0x20e3, 0x5004, 0x4025, 0x7046, 0x6067,
     0x83b9, 0x9398, 0xa3fb, 0xb3da, 0xc33d, 0xd31c, 0xe37f, 0xf35e,
     0x02b1, 0x1290, 0x22f3, 0x32d2, 0x4235, 0x5214, 0x6277, 0x7256,
     0xb5ea, 0xa5cb, 0x95a8, 0x8589, 0xf56e, 0xe54f, 0xd52c, 0xc50d,
     0x34e2, 0x24c3, 0x14a0, 0x0481, 0x7466, 0x6447, 0x5424, 0x4405,
     0xa7db, 0xb7fa, 0x8799, 0x97b8, 0xe75f, 0xf77e, 0xc71d, 0xd73c,
     0x26d3, 0x36f2, 0x0691, 0x16b0, 0x6657, 0x7676, 0x4615, 0x5634,
     0xd94c, 0xc96d, 0xf90e, 0xe92f, 0x99c8, 0x89e9, 0xb98a, 0xa9ab,
     0x5844, 0x4865, 0x7806, 0x6827, 0x18c0, 0x08e1, 0x3882, 0x28a3,
     0xcb7d, 0xdb5c, 0xeb3f, 0xfb1e, 0x8bf9, 0x9bd8, 0xabbb, 0xbb9a,
     0x4a75, 0x5a54, 0x6a37, 0x7a16, 0x0af1, 0x1ad0, 0x2ab3, 0x3a92,
     0xfd2e, 0xed0f, 0xdd6c, 0xcd4d, 0xbdaa, 0xad8b, 0x9de8, 0x8dc9,
     0x7c26, 0x6c07, 0x5c64, 0x4c45, 0x3ca2, 0x2c83, 0x1ce0, 0x0cc1,
     0xef1f, 0xff3e, 0xcf5d, 0xdf7c, 0xaf9b, 0xbfba, 0x8fd9, 0x9ff8,
     0x6e17, 0x7e36, 0x4e55, 0x5e74, 0x2e93, 0x3eb2, 0x0ed1, 0x1ef0]"

text \<open>One round of the loop. The C expression is computed in \<open>int\<close> and cut to 16 bits when it
  is assigned, so it is \<open>(crc << 8)\<close> on 16 bits.\<close>

definition crc16_step :: "u16 \<Rightarrow> byte \<Rightarrow> u16" where
  "crc16_step crc b =
     push_bit 8 crc XOR crc16tab ! unat ((drop_bit 8 crc XOR ucast b) AND 0x00FF)"

definition acl_hash_crc16 :: "byte list \<Rightarrow> u16" where
  "acl_hash_crc16 buf = foldl crc16_step 0 buf"

section \<open>The reference\<close>

definition crc_shift :: "u16 \<Rightarrow> u16" where
  "crc_shift crc = (if bit crc 15 then push_bit 1 crc XOR 0x1021 else push_bit 1 crc)"

definition crc_byte :: "u16 \<Rightarrow> byte \<Rightarrow> u16" where
  "crc_byte crc b = (crc_shift ^^ 8) (crc XOR push_bit 8 (ucast b))"

definition crc16_xmodem :: "byte list \<Rightarrow> u16" where
  "crc16_xmodem buf = foldl crc_byte 0 buf"

section \<open>The table is right\<close>

text \<open>The checksum is linear, so the table is spanned by its entries at the powers of two.\<close>

definition crc_entry :: "u16 \<Rightarrow> u16" where
  "crc_entry a = (crc_shift ^^ 8) (push_bit 8 a)"

fun xor_span :: "u16 list \<Rightarrow> u16 list" where
  "xor_span [] = [0]"
| "xor_span (t # ts) = (let r = xor_span ts in r @ map (\<lambda>a. a XOR t) r)"

lemma crc_shift_xor: "crc_shift (a XOR b) = crc_shift a XOR crc_shift b"
  by (rule bit_word_eqI) (auto simp: crc_shift_def bit_simps)

lemma crc_shift_pow_xor: "(crc_shift ^^ n) (a XOR b) = (crc_shift ^^ n) a XOR (crc_shift ^^ n) b"
  by (induction n) (simp_all add: crc_shift_xor)

lemma crc_entry_xor: "crc_entry (a XOR b) = crc_entry a XOR crc_entry b"
  by (simp add: crc_entry_def push_bit_xor crc_shift_pow_xor)

lemma crc_entry_0: "crc_entry 0 = 0"
  using crc_entry_xor [of 0 0] by simp

lemma word_xor_power:
  assumes "i < 2 ^ n" "n < 16"
  shows "(word_of_nat i XOR 2 ^ n :: u16) = word_of_nat (2 ^ n + i)"
proof -
  have "unat (word_of_nat i :: u16) \<le> i" by (simp add: unsigned_of_nat take_bit_nat_less_eq_self)
  then have "unat (word_of_nat i :: u16) div 2 ^ n = 0" using assms(1) by simp
  then have "\<not> bit (unat (word_of_nat i :: u16)) n" by (simp add: bit_iff_odd)
  then have "\<not> bit (word_of_nat i :: u16) n" by (simp add: bit_unsigned_iff)
  then have "(word_of_nat i :: u16) AND 2 ^ n = 0" by (simp add: and_exp_eq_0_iff_not_bit)
  then have "(word_of_nat i :: u16) + 2 ^ n = word_of_nat i XOR 2 ^ n"
    by (rule disjunctive_add_eq_xor)
  then show ?thesis by (simp add: add.commute)
qed

lemma crc_entries_span:
  "n \<le> 16 \<Longrightarrow>
   xor_span (map (\<lambda>k. crc_entry (2 ^ k)) (rev [0 ..< n])) = map (\<lambda>i. crc_entry (word_of_nat i)) [0 ..< 2 ^ n]"
proof (induction n)
  case 0
  show ?case by (simp add: crc_entry_0)
next
  case (Suc n)
  have "map (\<lambda>a. a XOR crc_entry (2 ^ n)) (map (\<lambda>i. crc_entry (word_of_nat i)) [0 ..< 2 ^ n])
      = map (\<lambda>i. crc_entry (word_of_nat (2 ^ n + i))) [0 ..< 2 ^ n]"
    using Suc.prems by (simp add: crc_entry_xor [symmetric] word_xor_power)
  also have "\<dots> = map (\<lambda>i. crc_entry (word_of_nat i)) [2 ^ n ..< 2 ^ Suc n]"
    by (rule nth_equalityI) simp_all
  finally have hi: "map (\<lambda>a. a XOR crc_entry (2 ^ n)) (map (\<lambda>i. crc_entry (word_of_nat i)) [0 ..< 2 ^ n])
      = map (\<lambda>i. crc_entry (word_of_nat i)) [2 ^ n ..< 2 ^ Suc n]" .
  have "[0 ..< 2 ^ Suc n] = [0 ..< 2 ^ n] @ [(2::nat) ^ n ..< 2 ^ Suc n]"
    using upt_add_eq_append [of 0 "2 ^ n" "2 ^ n"] by (simp add: mult_2)
  with Suc hi show ?case by (simp add: Let_def)
qed

lemma crc_entry_powers:
  "map (\<lambda>k. crc_entry (2 ^ k)) (rev [0 ..< 8]) =
     [0x9188, 0x48c4, 0x2462, 0x1231, 0x8108, 0x4084, 0x2042, 0x1021]"
  unfolding crc_entry_def crc_shift_def by code_simp

lemma crc16tab_span:
  "xor_span [0x9188, 0x48c4, 0x2462, 0x1231, 0x8108, 0x4084, 0x2042, 0x1021] = crc16tab"
  unfolding crc16tab_def by (simp add: Let_def)

lemma crc16tab_map: "crc16tab = map (\<lambda>i. crc_entry (word_of_nat i)) [0 ..< 256]"
proof -
  have "crc16tab = xor_span (map (\<lambda>k. crc_entry (2 ^ k)) (rev [0 ..< 8]))"
    unfolding crc_entry_powers by (rule crc16tab_span [symmetric])
  also have "\<dots> = map (\<lambda>i. crc_entry (word_of_nat i)) [0 ..< 2 ^ 8]"
    by (rule crc_entries_span) simp
  finally show ?thesis by simp
qed

lemma crc16tab_entry: "i < 256 \<Longrightarrow> crc16tab ! i = crc_entry (word_of_nat i)"
  unfolding crc16tab_map by simp

section \<open>One byte\<close>

lemma crc_shift_low:
  assumes "k \<le> 8" "a < 256"
  shows "(crc_shift ^^ k) a = push_bit k a"
  using assms(1)
proof (induction k)
  case (Suc k)
  have "\<not> bit a (15 - k)"
  proof
    assume "bit a (15 - k)"
    then have "bit (unat a) (15 - k)" by (simp add: bit_unsigned_iff)
    then have "odd (unat a div 2 ^ (15 - k))" by (rule bit_iff_odd [THEN iffD1])
    then have "\<not> unat a < 2 ^ (15 - k)" by auto
    then have "2 ^ (15 - k) \<le> unat a" by simp
    moreover have "(2::nat) ^ 8 \<le> 2 ^ (15 - k)" using Suc.prems by (intro power_increasing) auto
    moreover have "unat a < 256" using assms(2) by (simp add: word_less_nat_alt)
    ultimately show False by simp
  qed
  then have "\<not> bit (push_bit k a) 15" by (simp add: bit_simps)
  with Suc show ?case by (simp add: crc_shift_def)
qed simp

lemma crc16_step_byte: "crc16_step crc b = crc_byte crc b"
proof -
  let ?i = "(drop_bit 8 crc XOR ucast b) AND 0xFF" and ?lo = "crc AND 0xFF"
  have "uint (x AND 0xFF) < 256" for x :: u16
    using AND_upper2 [of 255 "uint x"] by (simp add: unsigned_and_eq)
  then have i: "?i < 256" "?lo < 256" by (simp_all only: word_less_def) simp_all
  have m: "(0xFF :: u16) = mask 8" by (simp add: mask_eq_exp_minus_1)
  have split: "crc XOR push_bit 8 (ucast b) = push_bit 8 ?i XOR ?lo"
    unfolding m by (rule bit_word_eqI) (auto simp: bit_simps dest: bit_imp_le_length)
  have low: "push_bit 8 ?lo = push_bit 8 crc"
    unfolding m by (rule bit_word_eqI) (auto simp: bit_simps dest: bit_imp_le_length)
  have "unat ?i < 256" using i(1) by (simp add: word_less_nat_alt)
  then have "crc16tab ! unat ?i = crc_entry ?i" by (simp add: crc16tab_entry)
  then show ?thesis
    using crc_shift_low [OF order_refl i(2)] low
    by (simp add: crc16_step_def crc_byte_def split crc_shift_pow_xor crc_entry_def xor.commute)
qed

section \<open>Properties\<close>

text \<open>C18: \<open>acl_hash_crc16\<close>, which picks a key's hash slot from a table, computes the
  CRC-16/XMODEM checksum of the redis cluster protocol for every key: the table has the
  right 256 entries, and one look-up does the eight shifts of the definition.\<close>

theorem hash_crc16_is_xmodem: "acl_hash_crc16 buf = crc16_xmodem buf"
proof -
  have "crc16_step = crc_byte" by (intro ext) (rule crc16_step_byte)
  then show ?thesis by (simp add: acl_hash_crc16_def crc16_xmodem_def)
qed

end
