(* ===== verification/Redis_Request.thy ===== *)
theory Redis_Request
  imports Redis_Client Acl_Interfaces Acl_Crc16
begin

text \<open>
  The requests: \<^verbatim>\<open>aclredis/src/redis/redis_request.cpp\<close>, the vector of memory pieces that is
  written with one \<open>writev\<close>, and from \<^verbatim>\<open>aclredis/src/redis/redis_command.cpp\<close> the functions
  that put a command and its arguments into the wire format, as one string
  (\<open>build_request1\<close>) or as such a vector (\<open>build_request2\<close>), and the \<open>build\<close> functions that
  lay out the arguments first. An argument is given by its bytes; the arguments that the code
  passes as a C string end at their first zero byte (\<open>cstr_of\<close>).

  The request of a command is one array of strings, whatever bytes the arguments hold, so the
  server gets back exactly the arguments: the encoder is an interpretation of the interface
  \<open>codec\<close> with the client's own reader as its decoder.
\<close>

section \<open>redis_request\<close>

text \<open>The pieces put so far and the room reserved. A \<open>put\<close> behind the room writes outside the
  array: \<open>None\<close>.\<close>

record redis_request =
  rq_iov :: "byte list list"
  rq_size :: nat

definition redis_request_new :: redis_request where
  "redis_request_new = \<lparr>rq_iov = [], rq_size = 0\<rparr>"

definition request_clear :: "redis_request \<Rightarrow> redis_request" where
  "request_clear rq = rq\<lparr>rq_iov := []\<rparr>"

definition request_reserve :: "redis_request \<Rightarrow> nat \<Rightarrow> redis_request" where
  "request_reserve rq sz = (if rq_size rq \<ge> sz then rq else rq\<lparr>rq_size := sz\<rparr>)"

definition request_put :: "redis_request \<Rightarrow> byte list \<Rightarrow> redis_request option" where
  "request_put rq d =
     (if length (rq_iov rq) < rq_size rq then Some (rq\<lparr>rq_iov := rq_iov rq @ [d]\<rparr>) else None)"

section \<open>Building a request\<close>

text \<open>\<open>acl_ui64toa_radix\<close> into the buffer of 64 bytes.\<close>

definition lu64 :: "nat \<Rightarrow> cstr" where
  "lu64 n = the (acl_ui64toa_radix (of_nat n) 64 10)"

fun build_args1 :: "byte list list \<Rightarrow> byte list" where
  "build_args1 [] = []"
| "build_args1 (a # argv) = [36] @ lu64 (length a) @ [13, 10] @ a @ [13, 10] @ build_args1 argv"

definition build_request1 :: "byte list list \<Rightarrow> byte list" where
  "build_request1 argv = [42] @ lu64 (length argv) @ [13, 10] @ build_args1 argv"

text \<open>\<open>safe_snprintf\<close> into \<open>BLEN\<close> = 32 bytes; the pieces keep the whole text and its length.\<close>

fun build_args2 :: "redis_request \<Rightarrow> byte list list \<Rightarrow> redis_request option" where
  "build_args2 rq [] = Some rq"
| "build_args2 rq (a # argv) =
     Option.bind (request_put rq (c_snprintf 32 ([36] @ dec_of_nat (length a) @ [13, 10]))) (\<lambda>rq.
     Option.bind (request_put rq a) (\<lambda>rq.
     Option.bind (request_put rq [13, 10]) (\<lambda>rq. build_args2 rq argv)))"

definition build_request2 :: "redis_request option \<Rightarrow> byte list list \<Rightarrow> redis_request option" where
  "build_request2 obj argv =
     (let rq = (case obj of None \<Rightarrow> redis_request_new | Some rq \<Rightarrow> request_clear rq);
          rq = request_reserve rq (1 + length argv * 3)
      in Option.bind (request_put rq (c_snprintf 32 ([42] @ dec_of_nat (length argv) @ [13, 10])))
           (\<lambda>rq. build_args2 rq argv))"

section \<open>Laying out the arguments\<close>

text \<open>The head that all the \<open>build\<close> functions share: the command, and the key if there is one.\<close>

definition build_head :: "cstr \<Rightarrow> cstr option \<Rightarrow> byte list list" where
  "build_head cmd key = cmd # (case key of None \<Rightarrow> [] | Some k \<Rightarrow> [k])"

text \<open>\<open>%d\<close> into a buffer of \<open>INT_LEN\<close> = 11 bytes.\<close>

definition int_arg :: "int \<Rightarrow> cstr" where
  "int_arg n = c_snprintf 11 (dec_of_int n)"

text \<open>One argument after another for each pair.\<close>

definition flatten_pairs :: "('a \<Rightarrow> byte list) \<Rightarrow> ('b \<Rightarrow> byte list) \<Rightarrow> ('a \<times> 'b) list \<Rightarrow> byte list list" where
  "flatten_pairs f g ps = concat (map (\<lambda>(a, b). [f a, g b]) ps)"

text \<open>A \<open>std::map\<close> is given by its entries in the order of its iterator.\<close>

definition build_map :: "cstr \<Rightarrow> cstr option \<Rightarrow> (byte list \<times> byte list) list \<Rightarrow> byte list list" where
  "build_map cmd key attrs = build_head cmd key @ flatten_pairs id id attrs"

definition build_map_cstr :: "cstr \<Rightarrow> cstr option \<Rightarrow> (byte list \<times> byte list) list \<Rightarrow> byte list list" where
  "build_map_cstr cmd key attrs = build_head cmd key @ flatten_pairs id cstr_of attrs"

text \<open>Names and values in two vectors; \<open>logger_fatal\<close> ends the process when they differ in
  length.\<close>

definition build_pairs ::
  "cstr \<Rightarrow> cstr option \<Rightarrow> byte list list \<Rightarrow> byte list list \<Rightarrow> byte list list option"
where
  "build_pairs cmd key names values =
     (if length names \<noteq> length values then None
      else Some (build_head cmd key @ flatten_pairs id id (zip names values)))"

definition build_pairs_cstr ::
  "cstr \<Rightarrow> cstr option \<Rightarrow> byte list list \<Rightarrow> byte list list \<Rightarrow> byte list list option"
where
  "build_pairs_cstr cmd key names values =
     (if length names \<noteq> length values then None
      else Some (build_head cmd key @ flatten_pairs cstr_of cstr_of (zip names values)))"

text \<open>The same with plain arrays of \<open>argc\<close> elements each: as strings, with numbers for names,
  with explicit lengths.\<close>

definition build_arrays :: "cstr \<Rightarrow> cstr option \<Rightarrow> (byte list \<times> byte list) list \<Rightarrow> byte list list" where
  "build_arrays cmd key ps = build_head cmd key @ flatten_pairs cstr_of cstr_of ps"

definition build_int_names :: "cstr \<Rightarrow> cstr option \<Rightarrow> (int \<times> byte list) list \<Rightarrow> byte list list" where
  "build_int_names cmd key ps = build_head cmd key @ flatten_pairs int_arg cstr_of ps"

definition build_arrays_len :: "cstr \<Rightarrow> cstr option \<Rightarrow> (byte list \<times> byte list) list \<Rightarrow> byte list list" where
  "build_arrays_len cmd key ps = build_head cmd key @ flatten_pairs id id ps"

text \<open>A list of names: strings, C strings, numbers.\<close>

definition build_names :: "cstr \<Rightarrow> cstr option \<Rightarrow> byte list list \<Rightarrow> byte list list" where
  "build_names cmd key names = build_head cmd key @ names"

definition build_names_cstr :: "cstr \<Rightarrow> cstr option \<Rightarrow> byte list list \<Rightarrow> byte list list" where
  "build_names_cstr cmd key names = build_head cmd key @ map cstr_of names"

definition build_ints :: "cstr \<Rightarrow> cstr option \<Rightarrow> int list \<Rightarrow> byte list list" where
  "build_ints cmd key names = build_head cmd key @ map int_arg names"

section \<open>The hash slot\<close>

text \<open>\<open>hash_slot\<close>: the slot kept in the command, for a cluster of \<open>max_slot\<close> slots (\<open>None\<close>:
  the command does not use a cluster). A slot that has been set is not computed again.\<close>

definition hash_slot :: "int option \<Rightarrow> int \<Rightarrow> byte list \<Rightarrow> int" where
  "hash_slot max_slot slot key =
     (case max_slot of
        None \<Rightarrow> slot
      | Some m \<Rightarrow>
          if m \<le> 0 then slot
          else if slot \<ge> 0 \<and> slot < m then slot
          else uint (acl_hash_crc16 key) mod m)"

lemma hash_slot_range: "0 < m \<Longrightarrow> 0 \<le> hash_slot (Some m) slot key \<and> hash_slot (Some m) slot key < m"
  by (simp add: hash_slot_def)

section \<open>What is built\<close>

definition small_args :: "byte list list \<Rightarrow> bool" where
  "small_args argv \<longleftrightarrow> length argv < 2 ^ 31 \<and> (\<forall>a \<in> set argv. length a < 2 ^ 31)"

lemma lu64_dec: "n < 2 ^ 64 \<Longrightarrow> lu64 n = dec_of_nat n"
  by (simp add: lu64_def ui64toa_dec)

lemma build_args1_encode:
  "\<forall>a \<in> set argv. length a < 2 ^ 64 \<Longrightarrow>
   build_args1 argv = concat (map (resp_encode \<circ> RBulk) argv)"
  by (induction argv) (simp_all add: lu64_dec crlf_def)

lemma build_request1_encode:
  assumes "small_args argv"
  shows "build_request1 argv = resp_encode (RArray (map RBulk argv))"
proof -
  have "\<forall>a \<in> set argv. length a < 2 ^ 64" "length argv < 2 ^ 64"
    using assms by (auto simp: small_args_def)
  then show ?thesis
    by (simp add: build_request1_def build_args1_encode lu64_dec crlf_def comp_def)
qed

lemma request_put_room:
  "length (rq_iov rq) < rq_size rq \<Longrightarrow>
   request_put rq d = Some (rq\<lparr>rq_iov := rq_iov rq @ [d]\<rparr>)"
  by (simp add: request_put_def)

lemma snprintf_room: "n < 2 ^ 64 \<Longrightarrow> c_snprintf 32 (c # dec_of_nat n @ [13, 10]) = c # dec_of_nat n @ [13, 10]"
proof -
  assume "n < 2 ^ 64"
  also have "(2::nat) ^ 64 \<le> 10 ^ Suc 19" by simp
  finally have "length (dec_of_nat n) \<le> Suc 19" by (rule dec_length)
  then show ?thesis by (simp add: c_snprintf_def)
qed

lemma build_args2_iov:
  "\<forall>a \<in> set argv. length a < 2 ^ 64 \<Longrightarrow> length (rq_iov rq) + 3 * length argv \<le> rq_size rq \<Longrightarrow>
   \<exists>rq'. build_args2 rq argv = Some rq' \<and> rq_size rq' = rq_size rq \<and>
     concat (rq_iov rq') = concat (rq_iov rq) @ build_args1 argv \<and>
     length (rq_iov rq') = length (rq_iov rq) + 3 * length argv"
proof (induction argv arbitrary: rq)
  case (Cons a argv)
  let ?p = "c_snprintf 32 ([36] @ dec_of_nat (length a) @ [13, 10])"
  let ?r = "rq\<lparr>rq_iov := rq_iov rq @ [?p, a, [13, 10]]\<rparr>"
  from Cons.prems Cons.IH [of ?r] obtain rq' where
    "build_args2 ?r argv = Some rq'" "rq_size rq' = rq_size rq"
    "concat (rq_iov rq') = concat (rq_iov ?r) @ build_args1 argv"
    "length (rq_iov rq') = length (rq_iov ?r) + 3 * length argv" by auto
  moreover have "build_args2 rq (a # argv) = build_args2 ?r argv"
    using Cons.prems(2) by (simp add: request_put_room)
  ultimately show ?case
    using Cons.prems(1) snprintf_room [of "length a" 36] by (simp add: lu64_dec)
qed simp

lemma build_request2_iov:
  assumes "\<forall>a \<in> set argv. length a < 2 ^ 64" "length argv < 2 ^ 64"
  shows "\<exists>rq. build_request2 obj argv = Some rq \<and> concat (rq_iov rq) = build_request1 argv \<and>
    length (rq_iov rq) = 1 + 3 * length argv"
proof -
  let ?p = "c_snprintf 32 ([42] @ dec_of_nat (length argv) @ [13, 10])"
  obtain r where r: "r = request_reserve (case obj of None \<Rightarrow> redis_request_new
      | Some rq \<Rightarrow> request_clear rq) (1 + length argv * 3)" by simp
  then have room: "rq_iov r = []" "rq_size r \<ge> 1 + length argv * 3"
    by (auto simp: request_reserve_def redis_request_new_def request_clear_def split: option.split)
  from build_args2_iov [OF assms(1), of "r\<lparr>rq_iov := [?p]\<rparr>"] room obtain rq where
    "build_args2 (r\<lparr>rq_iov := [?p]\<rparr>) argv = Some rq"
    "concat (rq_iov rq) = ?p @ build_args1 argv"
    "length (rq_iov rq) = 1 + 3 * length argv" by auto
  moreover have "request_put r ?p = Some (r\<lparr>rq_iov := [?p]\<rparr>)"
    using room by (simp add: request_put_room)
  ultimately show ?thesis
    using assms(2) snprintf_room [of "length argv" 42]
    unfolding build_request2_def Let_def r [symmetric]
    by (simp add: build_request1_def lu64_dec)
qed

section \<open>The request as a codec\<close>

text \<open>A stream on which some bytes arrive, and the arguments that the reader finds there.\<close>

definition stream_of :: "byte list \<Rightarrow> vstream" where
  "stream_of bs = \<lparr>rd_buf = [], rd_len = 8192, net = [Bytes bs], errnum = 0, tagyes = False,
     flag_eof = False, flag_timeout = False, flag_err = False, is_eof = False\<rparr>"

lemma ready_stream_of [simp]: "ready (stream_of bs) bs"
  by (cases "bs = []") (simp_all add: ready_def stream_of_def pending_def avail_Bytes)

definition read_args :: "byte list \<Rightarrow> byte list list option" where
  "read_args bs = (case get_redis_object 2 False (stream_of bs) of
     Got rr s \<Rightarrow> if pending s = [] then Some (map rr_argv_to_string (rr_children rr)) else None
   | _ \<Rightarrow> None)"

lemma resp_depth_args: "resp_depth (RArray (map RBulk argv)) \<le> 2"
  by (simp add: comp_def) (induction argv; simp)

lemma resp_ok_args: "small_args argv \<Longrightarrow> resp_ok (RArray (map RBulk argv))"
  by (auto simp: small_args_def list_all_iff)

lemma read_args_request:
  assumes "small_args argv"
  shows "read_args (build_request1 argv) = Some argv"
proof -
  from get_object_encode [OF resp_ok_args [OF assms] resp_depth_args, of "stream_of (build_request1 argv)" "[]"]
  obtain s where "get_redis_object 2 False (stream_of (build_request1 argv)) =
      Got (resp_result (RArray (map RBulk argv))) s" "ready s []"
    using build_request1_encode [OF assms] by auto
  then show ?thesis
    by (simp add: read_args_def ready_def rr_argv_to_string_def comp_def)
qed

interpretation request: codec build_request1 read_args small_args
  by unfold_locales (rule read_args_request)

section \<open>Properties\<close>

text \<open>C10: The request that a command writes is read back, by the rules of the protocol, as
  exactly its arguments, whatever bytes they hold (line ends, zero bytes, protocol
  characters): no argument can smuggle in another argument or another command. In
  particular two commands with different arguments never send the same bytes.\<close>

theorem request_arguments_exact:
  assumes "small_args argv"
  shows "read_args (build_request1 argv) = Some argv \<and>
    (\<forall>argv'. small_args argv' \<and> build_request1 argv' = build_request1 argv \<longrightarrow> argv' = argv)"
  using request.decode_encode [OF assms] request.encode_inj [OF _ assms] by auto

theorem request_arguments_exact_witness:
  "read_args (build_request1 [lit ''SET'', lit ''k'', [13, 10, 0, 42]]) = Some [lit ''SET'', lit ''k'', [13, 10, 0, 42]]"
  using request_arguments_exact [of "[lit ''SET'', lit ''k'', [13, 10, 0, 42]]"]
  by (simp add: small_args_def lit_def)

text \<open>C14: The two ways to build a request agree: the pieces of \<open>build_request2\<close>, written one
  after the other, are the string of \<open>build_request1\<close>. The vector has room for every piece,
  also when the object is reused from an earlier request, so no \<open>put\<close> writes outside it.\<close>

theorem build_requests_agree:
  assumes "small_args argv"
  shows "\<exists>rq. build_request2 obj argv = Some rq \<and> concat (rq_iov rq) = build_request1 argv \<and>
    length (rq_iov rq) = 1 + 3 * length argv"
proof -
  have "\<forall>a \<in> set argv. length a < 2 ^ 64" "length argv < 2 ^ 64"
    using assms by (auto simp: small_args_def)
  then show ?thesis by (rule build_request2_iov)
qed

theorem build_requests_agree_witness:
  "\<exists>rq. build_request2 (Some \<lparr>rq_iov = [[1]], rq_size = 2\<rparr>) [lit ''GET'', lit ''k''] = Some rq \<and>
    length (rq_iov rq) = 7"
  using build_requests_agree [of "[lit ''GET'', lit ''k'']" "Some \<lparr>rq_iov = [[1]], rq_size = 2\<rparr>"]
  by (auto simp: small_args_def lit_def)

text \<open>A number that is passed as an argument by the \<open>build\<close> functions for numbers goes
  through a buffer of 11 bytes: from -999999999 upwards it arrives as it is, but a smaller
  one loses its last digit, so the command works on another key or field.\<close>

theorem int_argument_cut:
  assumes "- (2 ^ 31) \<le> n" "n < 2 ^ 31"
  shows "int_arg n = (if n > - (10 ^ 9) then dec_of_int n else dec_of_int (- ((- n) div 10)))"
proof (cases "n > - (10 ^ 9)")
  case True
  then have "length (dec_of_int n) \<le> 10"
    using dec_length [of "nat n" 9] dec_length [of "nat (- n)" 8] assms
    by (auto simp: dec_of_int_def)
  with True show ?thesis by (simp add: int_arg_def c_snprintf_def)
next
  case False
  let ?m = "nat (- n)"
  have m: "10 ^ 9 \<le> ?m" "?m < 10 ^ 10" using False assms by auto
  have "dec_of_nat ?m = dec_of_nat (?m div 10) @ [48 + of_nat (?m mod 10)]"
    using m by (subst dec_of_nat.simps) simp
  moreover have "length (dec_of_nat (?m div 10)) = 9"
  proof -
    have "dec_of_nat k = dec_of_nat (k div 10) @ [48 + of_nat (k mod 10)]" if "10 \<le> k" for k
      using that by (subst dec_of_nat.simps) simp
    then have len: "length (dec_of_nat k) = Suc (length (dec_of_nat (k div 10)))" if "10 \<le> k" for k
      using that by (metis length_append_singleton)
    have len1: "length (dec_of_nat k) = 1" if "k < 10" for k
      using that by (subst dec_of_nat.simps) simp
    have "length (dec_of_nat k) = Suc j" if "10 ^ j \<le> k" "k < 10 ^ Suc j" for j k
      using that
    proof (induction j arbitrary: k)
      case (Suc j)
      have "10 ^ j \<le> k div 10" using Suc.prems(1) by (simp add: less_eq_div_iff_mult_less_eq mult.commute)
      moreover have "k div 10 < 10 ^ Suc j" using Suc.prems(2) by (simp add: less_mult_imp_div_less mult.commute)
      moreover have "10 \<le> k" using Suc.prems(1) order_trans [of 10 "10 ^ Suc j" k] by simp
      ultimately show ?case using Suc.IH len by simp
    qed (simp add: len1)
    from this [of 8 "?m div 10"] m show ?thesis by simp
  qed
  moreover have "nat ((- n) div 10) = ?m div 10" by (simp add: nat_div_distrib)
  moreover have "- ((- n) div 10) < 0" using m by simp
  ultimately show ?thesis
    using False m by (simp add: int_arg_def c_snprintf_def dec_of_int_def)
qed

theorem int_argument_cut_witness:
  "int_arg (-1000000007) = dec_of_int (-100000000)"
  using int_argument_cut [of "-1000000007"] by simp

end
