(* ===== verification/Redis_Run.thy ===== *)
theory Redis_Run
  imports Redis_Request "HOL-Library.Monad_Syntax"
begin

text \<open>
  The life of a request on one connection: \<open>redis_client::open\<close> and \<open>redis_client::run\<close> of
  \<^verbatim>\<open>aclredis/src/redis/redis_client.cpp\<close>, and the commands of
  \<^verbatim>\<open>aclredis/src/redis/redis_connection.cpp\<close>, two of which \<open>open\<close> itself sends (AUTH and
  SELECT). \<open>open\<close> and \<open>run\<close> call each other.

  The network is a function from the number of a connection attempt to its outcome: no
  connection, or one with its input, the outcomes of its writes and whether its peer has the
  expected address (\<open>check_connection\<close>). The requests given to \<open>write\<close> are logged in
  \<open>rc_sent\<close>. Timeouts of the socket are in its input (\<open>Err\<close>).

  The outcome \<open>None\<close> is a call that does not return because the stack is used up: by the
  fuel of these two functions, which bounds their recursion, or by the nesting of a reply.
\<close>

section \<open>State\<close>

record conn =
  c_in :: vstream
  c_wr :: "bool list"
  c_peer_ok :: bool

type_synonym network = "nat \<Rightarrow> conn option"

record rclient =
  rc_pass :: "cstr option"
  rc_db :: int
  rc_retry :: bool
  rc_check_addr :: bool
  rc_slice_res :: bool
  rc_authing :: bool
  rc_conn :: "conn option"
  rc_tries :: nat
  rc_sent :: "byte list list"

definition redis_client_new :: "bool \<Rightarrow> rclient" where
  "redis_client_new retry = \<lparr>rc_pass = None, rc_db = 0, rc_retry = retry, rc_check_addr = False,
     rc_slice_res = False, rc_authing = False, rc_conn = None, rc_tries = 0, rc_sent = []\<rparr>"

definition client_set_password :: "rclient \<Rightarrow> cstr option \<Rightarrow> rclient" where
  "client_set_password c pass =
     (case pass of None \<Rightarrow> c\<lparr>rc_pass := None\<rparr>
      | Some p \<Rightarrow> if p \<noteq> [] then c\<lparr>rc_pass := Some p\<rparr> else c\<lparr>rc_pass := None\<rparr>)"

definition client_set_db :: "rclient \<Rightarrow> int \<Rightarrow> rclient" where
  "client_set_db c dbnum = (if dbnum > 0 then c\<lparr>rc_db := dbnum\<rparr> else c)"

definition client_close :: "rclient \<Rightarrow> rclient" where
  "client_close c = c\<lparr>rc_conn := None\<rparr>"

text \<open>A closed connection is at its end.\<close>

definition client_eof :: "rclient \<Rightarrow> bool" where
  "client_eof c = (case rc_conn c of None \<Rightarrow> True | Some k \<Rightarrow> is_eof (c_in k))"

definition client_write :: "rclient \<Rightarrow> byte list \<Rightarrow> bool \<times> rclient" where
  "client_write c req =
     (let c = c\<lparr>rc_sent := rc_sent c @ [req]\<rparr> in
      case rc_conn c of
        None \<Rightarrow> (False, c)
      | Some k \<Rightarrow>
          (case c_wr k of
             [] \<Rightarrow> (True, c)
           | ok # ws \<Rightarrow> (ok, c\<lparr>rc_conn := Some (k\<lparr>c_wr := ws\<rparr>)\<rparr>)))"

definition client_read :: "nat \<Rightarrow> nat \<Rightarrow> rclient \<Rightarrow> redis_result reply" where
  "client_read depth nchildren c =
     (case rc_conn c of
        None \<Rightarrow> Nul (stream_of [])
      | Some k \<Rightarrow>
          if nchildren \<ge> 1 then get_redis_objects depth (rc_slice_res c) nchildren (c_in k)
          else get_redis_object depth (rc_slice_res c) (c_in k))"

definition client_at :: "rclient \<Rightarrow> vstream \<Rightarrow> rclient" where
  "client_at c s = c\<lparr>rc_conn := map_option (\<lambda>k. k\<lparr>c_in := s\<rparr>) (rc_conn c)\<rparr>"

text \<open>\<open>redis_command::check_status\<close> on the result of \<open>run\<close>.\<close>

definition status_is :: "redis_result option \<Rightarrow> cstr \<Rightarrow> bool" where
  "status_is result success =
     (case result of
        None \<Rightarrow> False
      | Some rr \<Rightarrow>
          result_type rr = REDIS_RESULT_STATUS \<and> rr_get_status rr \<noteq> [] \<and>
          c_strcasecmp_eq (rr_get_status rr) success)"

section \<open>The commands of a connection\<close>

definition auth_request :: "cstr \<Rightarrow> byte list" where
  "auth_request passwd = build_request1 [lit ''AUTH'', passwd]"

definition select_request :: "int \<Rightarrow> byte list" where
  "select_request dbnum = build_request1 [lit ''SELECT'', c_snprintf 21 (dec_of_int dbnum)]"

definition ping_request :: "byte list" where
  "ping_request = build_request1 [lit ''PING'']"

definition echo_request :: "cstr \<Rightarrow> byte list" where
  "echo_request s = build_request1 [lit ''ECHO'', s]"

definition quit_request :: "byte list" where
  "quit_request = build_request1 [lit ''QUIT'']"

section \<open>open and run\<close>

text \<open>\<open>client_run\<close> is the loop of \<open>run\<close> from its head on; its last argument is \<open>retried\<close>.\<close>

fun client_open :: "nat \<Rightarrow> network \<Rightarrow> nat \<Rightarrow> rclient \<Rightarrow> (bool \<times> rclient) option"
and client_run :: "nat \<Rightarrow> network \<Rightarrow> nat \<Rightarrow> rclient \<Rightarrow> byte list \<Rightarrow> nat \<Rightarrow> bool \<Rightarrow>
  (redis_result option \<times> rclient) option"
where
  "client_open 0 nw depth c = None"
| "client_open (Suc fuel) nw depth c =
     (case rc_conn c of
        Some _ \<Rightarrow> Some (True, c)
      | None \<Rightarrow>
          (case nw (rc_tries c) of
             None \<Rightarrow> Some (False, c\<lparr>rc_tries := Suc (rc_tries c)\<rparr>)
           | Some k \<Rightarrow>
               Option.bind
                 (let c = c\<lparr>rc_tries := Suc (rc_tries c), rc_conn := Some k\<rparr> in
                  case rc_pass c of
                    None \<Rightarrow> Some (True, c)
                  | Some p \<Rightarrow>
                      Option.bind (client_run fuel nw depth (c\<lparr>rc_authing := True\<rparr>) (auth_request p) 0 False)
                        (\<lambda>(r, c). if status_is r (lit ''OK'') then Some (True, c\<lparr>rc_authing := False\<rparr>)
                          else Some (False, client_close (c\<lparr>rc_authing := False\<rparr>))))
                 (\<lambda>(ok, c).
                    if \<not> ok then Some (False, c)
                    else if rc_db c > 0 then
                      Option.bind (client_run fuel nw depth c (select_request (rc_db c)) 0 False)
                        (\<lambda>(r, c). if status_is r (lit ''OK'') then Some (True, c)
                          else Some (False, client_close c))
                    else Some (True, c))))"
| "client_run 0 nw depth c req nchildren retried = None"
| "client_run (Suc fuel) nw depth c req nchildren retried =
     Option.bind (client_open fuel nw depth c) (\<lambda>(ok, c).
       if \<not> ok then Some (None, c)
       else if rc_check_addr c \<and> \<not> (case rc_conn c of None \<Rightarrow> False | Some k \<Rightarrow> c_peer_ok k) then
         Some (None, client_close c)
       else
         (case (if req \<noteq> [] then client_write c req else (True, c)) of
            (False, c) \<Rightarrow>
              (if rc_retry c \<and> \<not> retried then client_run fuel nw depth (client_close c) req nchildren True
               else Some (None, client_close c))
          | (True, c) \<Rightarrow>
              (case client_read depth nchildren c of
                 Deep \<Rightarrow> None
               | Got rr s \<Rightarrow> Some (Some rr, client_at c s)
               | Nul s \<Rightarrow>
                   (if req = [] then Some (None, client_close c)
                    else if \<not> rc_retry c \<or> retried then Some (None, client_close c)
                    else client_run fuel nw depth (client_close c) req nchildren True))))"

declare client_open.simps [simp del] client_run.simps [simp del]

text \<open>A request in pieces is written with one \<open>writev\<close>; otherwise this is the same loop.\<close>

definition client_run_iov ::
  "nat \<Rightarrow> network \<Rightarrow> nat \<Rightarrow> rclient \<Rightarrow> redis_request \<Rightarrow> nat \<Rightarrow> (redis_result option \<times> rclient) option"
where
  "client_run_iov fuel nw depth c rq nchildren =
     client_run fuel nw depth c (concat (rq_iov rq)) nchildren False"

definition conn_auth :: "nat \<Rightarrow> network \<Rightarrow> nat \<Rightarrow> rclient \<Rightarrow> cstr \<Rightarrow> (bool \<times> rclient) option" where
  "conn_auth fuel nw depth c passwd =
     map_option (map_prod (\<lambda>r. status_is r (lit ''OK'')) id) (client_run fuel nw depth c (auth_request passwd) 0 False)"

definition conn_select :: "nat \<Rightarrow> network \<Rightarrow> nat \<Rightarrow> rclient \<Rightarrow> int \<Rightarrow> (bool \<times> rclient) option" where
  "conn_select fuel nw depth c dbnum =
     map_option (map_prod (\<lambda>r. status_is r (lit ''OK'')) id) (client_run fuel nw depth c (select_request dbnum) 0 False)"

definition conn_ping :: "nat \<Rightarrow> network \<Rightarrow> nat \<Rightarrow> rclient \<Rightarrow> (bool \<times> rclient) option" where
  "conn_ping fuel nw depth c =
     map_option (map_prod (\<lambda>r. status_is r (lit ''PONG'')) id) (client_run fuel nw depth c ping_request 0 False)"

definition conn_quit :: "nat \<Rightarrow> network \<Rightarrow> nat \<Rightarrow> rclient \<Rightarrow> (bool \<times> rclient) option" where
  "conn_quit fuel nw depth c =
     map_option (map_prod (\<lambda>r. status_is r (lit ''OK'')) id) (client_run fuel nw depth c quit_request 0 False)"

text \<open>\<open>get_string(buf) >= 0\<close> holds exactly when the result is a string.\<close>

definition conn_echo :: "nat \<Rightarrow> network \<Rightarrow> nat \<Rightarrow> rclient \<Rightarrow> cstr \<Rightarrow> (bool \<times> rclient) option" where
  "conn_echo fuel nw depth c s =
     map_option (map_prod (\<lambda>r. case r of None \<Rightarrow> False | Some rr \<Rightarrow> result_type rr = REDIS_RESULT_STRING) id)
       (client_run fuel nw depth c (echo_request s) 0 False)"

section \<open>Without a password and a database\<close>

text \<open>What the two functions do not change.\<close>

definition plain :: "rclient \<Rightarrow> bool" where
  "plain c \<longleftrightarrow> rc_pass c = None \<and> rc_db c \<le> 0"

lemma plain_simps [simp]:
  "plain (client_close c) = plain c" "rc_sent (client_close c) = rc_sent c"
  "rc_retry (client_close c) = rc_retry c" "rc_conn (client_close c) = None"
  "plain (client_at c s) = plain c" "rc_sent (client_at c s) = rc_sent c"
  by (simp_all add: plain_def client_close_def client_at_def)

lemma open_plain:
  assumes "plain c"
  shows "client_open (Suc fuel) nw depth c =
    (case rc_conn c of Some _ \<Rightarrow> Some (True, c)
     | None \<Rightarrow> Some (nw (rc_tries c) \<noteq> None, c\<lparr>rc_tries := Suc (rc_tries c), rc_conn := nw (rc_tries c)\<rparr>))"
  using assms
  by (cases "rc_conn c"; cases "nw (rc_tries c)")
    (simp_all add: client_open.simps(2) plain_def)

lemma client_write_simps:
  "client_write c req = (ok, c') \<Longrightarrow> plain c' = plain c \<and> rc_sent c' = rc_sent c @ [req] \<and> rc_retry c' = rc_retry c"
  by (auto simp: client_write_def plain_def Let_def split: option.splits list.splits)

lemma open_plainD:
  assumes "client_open fuel nw depth c = Some (ok, c')" "plain c"
  shows "plain c' \<and> rc_sent c' = rc_sent c \<and> rc_retry c' = rc_retry c"
proof (cases fuel)
  case 0
  with assms show ?thesis by (simp add: client_open.simps)
next
  case (Suc n)
  with assms open_plain [OF assms(2)] show ?thesis
    by (auto simp: plain_def split: option.splits)
qed

text \<open>The last round and the first: the request is given to \<open>write\<close> at most once in each.\<close>

lemma run_retried:
  assumes "client_run fuel nw depth c req n True = Some (r, c')" "plain c"
  shows "\<exists>k \<le> 1. rc_sent c' = rc_sent c @ replicate k req"
proof -
  from assms(1) obtain m where m: "fuel = Suc m" by (cases fuel) (auto simp: client_run.simps)
  from assms(1) obtain ok c1 where o: "client_open m nw depth c = Some (ok, c1)"
    by (auto simp: m client_run.simps bind_eq_Some_conv)
  note c1 = open_plainD [OF o assms(2)]
  obtain w c2 where w: "client_write c1 req = (w, c2)" by (cases "client_write c1 req")
  note c2 = client_write_simps [OF w]
  have "rc_sent c' = rc_sent c1 \<or> rc_sent c' = rc_sent c1 @ [req]"
    using assms(1) c2
    by (cases "req = []") (auto simp: m client_run.simps o w split: if_splits bool.splits reply.splits)
  with c1 show ?thesis
    by (metis append_Nil2 le_refl replicate_0 replicate_Suc One_nat_def zero_le)
qed

lemma run_first:
  assumes "client_run fuel nw depth c req n False = Some (r, c')" "plain c"
  shows "\<exists>k \<le> 2. rc_sent c' = rc_sent c @ replicate k req \<and> (\<not> rc_retry c \<longrightarrow> k \<le> 1)"
proof -
  from assms(1) obtain m where m: "fuel = Suc m" by (cases fuel) (auto simp: client_run.simps)
  from assms(1) obtain ok c1 where o: "client_open m nw depth c = Some (ok, c1)"
    by (auto simp: m client_run.simps bind_eq_Some_conv)
  note c1 = open_plainD [OF o assms(2)]
  obtain w c2 where w: "client_write c1 req = (w, c2)" by (cases "client_write c1 req")
  note c2 = client_write_simps [OF w]
  consider (once) "rc_sent c' = rc_sent c1 \<or> rc_sent c' = rc_sent c1 @ [req]"
    | (again) "rc_retry c" "client_run m nw depth (client_close c2) req n True = Some (r, c')"
    using assms(1) c1 c2
    by (cases "req = []") (auto simp: m client_run.simps o w split: if_splits bool.splits reply.splits)
  then show ?thesis
  proof cases
    case once
    with c1 show ?thesis
      by (metis One_nat_def append_Nil2 le_refl one_le_numeral replicate_0 replicate_Suc zero_le)
  next
    case again
    with run_retried [OF again(2)] c1 c2 assms(2) obtain k where
      "k \<le> 1" "rc_sent c' = rc_sent c @ replicate (Suc k) req" by auto
    with again(1) show ?thesis by (intro exI [of _ "Suc k"]) auto
  qed
qed

text \<open>The read of a reply on a connection fits the stack: the reply is not nested deeper than
  it, or never comes.\<close>

definition fits_stack :: "nat \<Rightarrow> bool \<Rightarrow> nat \<Rightarrow> conn \<Rightarrow> bool" where
  "fits_stack depth slice_res nchildren k \<longleftrightarrow>
     (if nchildren \<ge> 1 then get_redis_objects depth slice_res nchildren (c_in k)
      else get_redis_object depth slice_res (c_in k)) \<noteq> Deep"

definition all_fit :: "network \<Rightarrow> nat \<Rightarrow> nat \<Rightarrow> rclient \<Rightarrow> bool" where
  "all_fit nw depth nchildren c \<longleftrightarrow>
     (\<forall>k. rc_conn c = Some k \<or> (\<exists>n. nw n = Some k) \<longrightarrow> fits_stack depth (rc_slice_res c) nchildren k)"

lemma all_fit_close: "all_fit nw depth n c \<Longrightarrow> all_fit nw depth n (client_close c)"
  by (simp add: all_fit_def client_close_def)

lemma open_fit:
  assumes "plain c" "all_fit nw depth n c"
  obtains ok c1 where "client_open (Suc fuel) nw depth c = Some (ok, c1)" "plain c1" "all_fit nw depth n c1"
proof -
  obtain ok c1 where o: "client_open (Suc fuel) nw depth c = Some (ok, c1)"
    using open_plain [OF assms(1)] by (cases "rc_conn c") auto
  moreover have "all_fit nw depth n c1"
    using o assms(2) open_plain [OF assms(1)] by (auto simp: all_fit_def split: option.splits)
  ultimately show ?thesis using open_plainD [OF o assms(1)] that by blast
qed

lemma write_fit:
  assumes "client_write c req = (w, c1)" "all_fit nw depth n c"
  shows "all_fit nw depth n c1"
  using assms by (auto simp: client_write_def all_fit_def fits_stack_def Let_def split: option.splits list.splits)

lemma read_fit:
  "all_fit nw depth n c \<Longrightarrow> client_read depth n c \<noteq> Deep"
  by (cases "rc_conn c") (simp_all add: client_read_def all_fit_def fits_stack_def)

lemma run_round:
  assumes "plain c" "all_fit nw depth n c"
    and "\<And>c'. plain c' \<Longrightarrow> all_fit nw depth n c' \<Longrightarrow> \<not> retried \<Longrightarrow>
      client_run (Suc fuel) nw depth c' req n True \<noteq> None"
  shows "client_run (Suc (Suc fuel)) nw depth c req n retried \<noteq> None"
proof -
  obtain ok c1 where o: "client_open (Suc fuel) nw depth c = Some (ok, c1)" "plain c1" "all_fit nw depth n c1"
    using open_fit [OF assms(1,2)] by blast
  obtain w c2 where w: "client_write c1 req = (w, c2)" by (cases "client_write c1 req")
  have c2: "plain (client_close c2)" "all_fit nw depth n (client_close c2)"
    using client_write_simps [OF w] o(2) all_fit_close [OF write_fit [OF w o(3)]] by simp_all
  note again = assms(3) [OF c2]
  note reads = read_fit [OF o(3)] read_fit [OF write_fit [OF w o(3)]]
  show ?thesis
    using again reads o(1) w
    by (cases "req = []"; cases w) (auto simp: client_run.simps(2) [of "Suc fuel"] split: reply.split)
qed

lemma run_ends:
  assumes "plain c" "all_fit nw depth n c" "3 \<le> fuel"
  shows "\<exists>r c'. client_run fuel nw depth c req n False = Some (r, c')"
proof -
  have "fuel = Suc (Suc (Suc (fuel - 3)))" using assms(3) by simp
  then obtain f where f: "fuel = Suc (Suc (Suc f))" ..
  have "client_run (Suc (Suc f)) nw depth c' req n True \<noteq> None" if "plain c'" "all_fit nw depth n c'" for c'
    by (rule run_round [OF that]) simp
  then have "client_run fuel nw depth c req n False \<noteq> None"
    unfolding f by (rule run_round [OF assms(1,2)])
  then show ?thesis by (metis not_None_eq surj_pair)
qed

section \<open>Properties\<close>

text \<open>C12: \<open>run\<close> on an open connection whose server answers: it writes the request once, returns
  the server's reply, leaves the connection open, and the next reply on it starts where
  this one ends.\<close>

theorem run_returns_reply:
  assumes "rc_conn c = Some k" "c_wr k = []" "\<not> rc_check_addr c" "\<not> rc_slice_res c" "req \<noteq> []"
    and "pending (c_in k) = resp_encode v @ rest" "rd_len (c_in k) > 0" "\<not> is_eof (c_in k)"
    and "resp_ok v" "resp_depth v \<le> depth" "2 \<le> fuel"
  shows "\<exists>s c'. client_run fuel nw depth c req 0 False = Some (Some (resp_result v), c') \<and>
    rc_conn c' = Some (k\<lparr>c_in := s\<rparr>) \<and> pending s = rest \<and> rc_sent c' = rc_sent c @ [req]"
proof -
  from assms(11) obtain f where f: "fuel = Suc (Suc f)"
    using le_Suc_ex [of 2 fuel] by auto
  from get_object_encode [OF assms(9,10), of "c_in k" rest] assms(6-8) obtain s where
    "get_redis_object depth False (c_in k) = Got (resp_result v) s" "pending s = rest"
    by (auto simp: ready_def)
  with assms show ?thesis
    by (simp add: f client_run.simps client_open.simps client_write_def client_read_def client_at_def)
      (rule exI [of _ s], simp)
qed

lemma hang_up_read:
  "\<exists>s. get_redis_object (Suc d) slice_res (sample_stream []) = Nul s"
  "\<exists>s. get_redis_object (Suc d) slice_res (sample_stream [Closed]) = Nul s"
  by (simp_all add: sample_stream_def istream_read_char_def acl_vstream_read_def read_buffed_def
      read_to_buffer_def sys_read.simps)

definition sample_conn :: "net_event list \<Rightarrow> conn" where
  "sample_conn es = \<lparr>c_in = sample_stream es, c_wr = [], c_peer_ok = True\<rparr>"

theorem run_returns_reply_witness:
  "\<exists>c'. client_run 2 (\<lambda>n. None) 1 (redis_client_new True\<lparr>rc_conn := Some (sample_conn [Bytes (lit ''+PONG'' @ [13, 10])])\<rparr>)
      ping_request 0 False = Some (Some (RedisResult REDIS_RESULT_STATUS 1 [lit ''PONG''] []), c') \<and>
    rc_sent c' = [ping_request]"
  using run_returns_reply [of "redis_client_new True\<lparr>rc_conn := Some (sample_conn [Bytes (lit ''+PONG'' @ [13, 10])])\<rparr>"
      "sample_conn [Bytes (lit ''+PONG'' @ [13, 10])]" ping_request "RStatus (lit ''PONG'')" "[]" 1 2 "\<lambda>n. None"]
  by (auto simp: redis_client_new_def sample_conn_def sample_stream_def pending_def lit_def crlf_def
      line_ok_def ping_request_def build_request1_def)

text \<open>C13: Without a password and a database number, \<open>run\<close> returns, and it has given the request
  to \<open>write\<close> at most twice, and at most once when \<open>retry\<close> is off, whatever the network does:
  connections that fail, break in a write or close before or in a reply. Three units of fuel are
  enough. (It is assumed that no reply nests deeper than the stack, which would
  end the process. Twice does happen: when the reply to the first writing is
  lost, the server may execute the command twice.)\<close>

theorem run_writes_at_most_twice:
  assumes "rc_pass c = None" "rc_db c \<le> 0" "all_fit nw depth nchildren c" "3 \<le> fuel"
  shows "\<exists>r c' k. client_run fuel nw depth c req nchildren False = Some (r, c') \<and> k \<le> 2 \<and>
    rc_sent c' = rc_sent c @ replicate k req \<and> (\<not> rc_retry c \<longrightarrow> k \<le> 1)"
proof -
  have "plain c" using assms(1,2) by (simp add: plain_def)
  from run_ends [OF this assms(3,4)] obtain r c' where
    run: "client_run fuel nw depth c req nchildren False = Some (r, c')" by blast
  with run_first [OF run \<open>plain c\<close>] show ?thesis by blast
qed

text \<open>A connection on which nothing comes, and a network without another.\<close>

theorem run_writes_at_most_twice_witness:
  "\<exists>r c' k. client_run 3 (\<lambda>n. None) 1 (redis_client_new True\<lparr>rc_conn := Some (sample_conn [])\<rparr>)
      ping_request 0 False = Some (r, c') \<and> k \<le> 2 \<and> rc_sent c' = replicate k ping_request"
proof -
  from hang_up_read(1) [of 0 False] obtain s where
    s: "get_redis_object 1 False (sample_stream []) = Nul s" by auto
  let ?c = "redis_client_new True\<lparr>rc_conn := Some (sample_conn [])\<rparr>"
  have "all_fit (\<lambda>n. None) 1 0 ?c"
    using s by (simp add: all_fit_def fits_stack_def sample_conn_def redis_client_new_def)
  from run_writes_at_most_twice [OF _ _ this, of 3 ping_request] show ?thesis
    by (simp add: redis_client_new_def)
qed

section \<open>A server that hangs up\<close>

text \<open>A network on which every connection succeeds and is closed before a reply comes.\<close>

definition hangs_up :: "network \<Rightarrow> nat \<Rightarrow> bool \<Rightarrow> bool" where
  "hangs_up nw depth slice_res \<longleftrightarrow>
     (\<forall>n. \<exists>k s. nw n = Some k \<and> c_wr k = [] \<and> get_redis_object depth slice_res (c_in k) = Nul s)"

definition hung :: "network \<Rightarrow> nat \<Rightarrow> rclient \<Rightarrow> bool" where
  "hung nw depth c \<longleftrightarrow> rc_pass c \<noteq> None \<and> rc_retry c \<and> \<not> rc_check_addr c \<and>
     hangs_up nw depth (rc_slice_res c)"

lemma auth_request_ne [simp]: "auth_request p \<noteq> []"
  by (simp add: auth_request_def build_request1_def)

lemma run_hung:
  assumes "\<And>c retried. hung nw depth c \<Longrightarrow> rc_conn c = None \<Longrightarrow>
      client_run fuel nw depth c req 0 retried = None"
    and "hung nw depth c" "rc_conn c = Some k" "c_wr k = []"
      "get_redis_object depth (rc_slice_res c) (c_in k) = Nul s" "req \<noteq> []"
  shows "client_run (Suc fuel) nw depth c req 0 False = None"
proof -
  have "hung nw depth (client_close (c\<lparr>rc_sent := x\<rparr>))" for x
    using assms(2) by (simp add: hung_def client_close_def)
  then have again: "client_run fuel nw depth (client_close (c\<lparr>rc_sent := x\<rparr>)) req 0 r = None" for x r
    using assms(1) by simp
  show ?thesis
  proof (cases fuel)
    case 0
    then show ?thesis by (simp add: client_run.simps client_open.simps)
  next
    case (Suc n)
    with assms again show ?thesis
      by (simp add: client_run.simps(2) [of "Suc n"] client_open.simps client_write_def client_read_def hung_def)
  qed
qed

lemma hung_no_return:
  "(\<forall>c. hung nw depth c \<and> rc_conn c = None \<longrightarrow> client_open fuel nw depth c = None) \<and>
   (\<forall>c req retried. hung nw depth c \<and> rc_conn c = None \<longrightarrow> client_run fuel nw depth c req 0 retried = None) \<and>
   (\<forall>c k s req. hung nw depth c \<and> rc_conn c = Some k \<and> c_wr k = [] \<and> req \<noteq> [] \<and>
      get_redis_object depth (rc_slice_res c) (c_in k) = Nul s \<longrightarrow>
      client_run fuel nw depth c req 0 False = None)"
proof (induction fuel)
  case 0
  show ?case by (simp add: client_open.simps client_run.simps)
next
  case (Suc fuel)
  have "client_open (Suc fuel) nw depth c = None" if h: "hung nw depth c" "rc_conn c = None" for c
  proof -
    from h(1) obtain p where p: "rc_pass c = Some p" by (auto simp: hung_def)
    from h(1) obtain k s where k: "nw (rc_tries c) = Some k" "c_wr k = []"
      "get_redis_object depth (rc_slice_res c) (c_in k) = Nul s"
      unfolding hung_def hangs_up_def by metis
    let ?c = "c\<lparr>rc_tries := Suc (rc_tries c), rc_conn := Some k, rc_authing := True\<rparr>"
    have "hung nw depth ?c" using h(1) by (simp add: hung_def)
    with Suc k have "client_run fuel nw depth ?c (auth_request p) 0 False = None" by simp
    with h(2) p k(1) show ?thesis by (simp add: client_open.simps)
  qed
  moreover have "client_run (Suc fuel) nw depth c req 0 retried = None"
    if "hung nw depth c" "rc_conn c = None" for c req retried
    using Suc that by (simp add: client_run.simps)
  moreover have "client_run (Suc fuel) nw depth c req 0 False = None"
    if "hung nw depth c" "rc_conn c = Some k" "c_wr k = []" "req \<noteq> []"
      "get_redis_object depth (rc_slice_res c) (c_in k) = Nul s" for c k s req
    using Suc that by (intro run_hung [of nw depth fuel req c k s]) auto
  ultimately show ?case by blast
qed

text \<open>C27: With a password and \<open>retry\<close> on, \<open>run\<close> never returns when the server accepts every
  connection and closes it without an answer: \<open>open\<close> sends AUTH through \<open>run\<close>, which finds
  the connection closed and retries, which opens a connection and sends AUTH, and so on;
  however large the stack, it is used up. (The guard \<open>authing_\<close> against this is commented
  out in \<open>open\<close>.)\<close>

theorem auth_recursion_endless:
  assumes "rc_pass c = Some p" "rc_retry c" "\<not> rc_check_addr c" "rc_conn c = None"
    and "\<forall>n. \<exists>k s. nw n = Some k \<and> c_wr k = [] \<and> get_redis_object depth (rc_slice_res c) (c_in k) = Nul s"
  shows "client_run fuel nw depth c req 0 False = None"
  using hung_no_return [of nw depth fuel] assms by (simp add: hung_def hangs_up_def)

theorem auth_recursion_endless_witness:
  "client_run 1000000 (\<lambda>n. Some (sample_conn [Closed])) 10
     (client_set_password (redis_client_new True) (Some (lit ''secret''))) ping_request 0 False = None"
proof -
  have "\<exists>s. get_redis_object 10 False (sample_stream [Closed]) = Nul s"
    using hang_up_read(2) [of 9 False] by simp
  then show ?thesis
    by (intro auth_recursion_endless [of _ "lit ''secret''"])
      (simp_all add: client_set_password_def redis_client_new_def sample_conn_def lit_def)
qed

end
