(* ===== verification/Redis_Command.thy ===== *)
theory Redis_Command
  imports Redis_Request
begin

text \<open>
  The middle of \<^verbatim>\<open>aclredis/src/redis/redis_command.cpp\<close>: how the result of a request is turned
  into a number, a status, a string, a list, or a map, and the command SCAN and its kin.
  These functions call \<open>run\<close> and look at its result; here the result is their argument
  (\<open>None\<close> is NULL), and a command is a function of the server: given the bytes of a request
  and its state, the server gives the result that \<open>run\<close> returns and its next state. An
  output parameter that the code leaves alone is \<open>None\<close>.
\<close>

section \<open>Sending a command\<close>

type_synonym 's server = "byte list \<Rightarrow> 's \<Rightarrow> redis_result option \<times> 's"

definition run_request :: "'s server \<Rightarrow> byte list list \<Rightarrow> 's \<Rightarrow> redis_result option \<times> 's" where
  "run_request srv argv s = srv (build_request1 argv) s"

definition run_with :: "(redis_result option \<Rightarrow> 'r) \<Rightarrow> 's server \<Rightarrow> byte list list \<Rightarrow> 's \<Rightarrow> 'r \<times> 's" where
  "run_with decode srv argv s = apfst decode (run_request srv argv s)"

section \<open>Looking at the result\<close>

definition is_type :: "redis_result_t \<Rightarrow> redis_result option \<Rightarrow> bool" where
  "is_type t r \<longleftrightarrow> (case r of None \<Rightarrow> False | Some rr \<Rightarrow> result_type rr = t)"

text \<open>The value and the \<open>success\<close> flag.\<close>

definition get_number :: "redis_result option \<Rightarrow> int \<times> bool" where
  "get_number r = (case r of
     None \<Rightarrow> (-1, False)
   | Some rr \<Rightarrow> if result_type rr \<noteq> REDIS_RESULT_INTEGER then (-1, False) else (fst (rr_get_integer rr), True))"

definition get_number64 :: "redis_result option \<Rightarrow> int \<times> bool" where
  "get_number64 r = (case r of
     None \<Rightarrow> (-1, False)
   | Some rr \<Rightarrow> if result_type rr \<noteq> REDIS_RESULT_INTEGER then (-1, False) else (fst (rr_get_integer64 rr), True))"

text \<open>The functions that fill a vector: their result and the vector.\<close>

definition get_numbers :: "redis_result option \<Rightarrow> int \<times> int list" where
  "get_numbers r =
     (if \<not> is_type REDIS_RESULT_ARRAY r then (-1, [])
      else let ch = rr_children (the r) in (int (length ch), map (\<lambda>rr. fst (rr_get_integer rr)) ch))"

definition get_numbers64 :: "redis_result option \<Rightarrow> int \<times> int list" where
  "get_numbers64 r =
     (if \<not> is_type REDIS_RESULT_ARRAY r then (-1, [])
      else let ch = rr_children (the r) in (int (length ch), map (\<lambda>rr. fst (rr_get_integer64 rr)) ch))"

definition check_status :: "redis_result option \<Rightarrow> cstr option \<Rightarrow> bool" where
  "check_status r success =
     (if \<not> is_type REDIS_RESULT_STATUS r then False
      else let status = rr_get_status (the r) in
        if status = [] then False
        else case success of None \<Rightarrow> True | Some t \<Rightarrow> c_strcasecmp_eq status t)"

definition get_statuses :: "redis_result option \<Rightarrow> int \<times> bool list" where
  "get_statuses r =
     (if \<not> is_type REDIS_RESULT_ARRAY r then (-1, [])
      else let ch = rr_children (the r) in (int (length ch), map (\<lambda>rr. fst (rr_get_integer rr) > 0) ch))"

definition get_status :: "redis_result option \<Rightarrow> cstr" where
  "get_status r = (if \<not> is_type REDIS_RESULT_STATUS r then [] else rr_get_status (the r))"

definition get_string :: "redis_result option \<Rightarrow> int \<times> byte list option" where
  "get_string r =
     (if \<not> is_type REDIS_RESULT_STRING r then (-1, None)
      else let b = rr_argv_to_string (the r) in (int (length b), Some b))"

text \<open>With a NULL string the function only gives the length.\<close>

definition get_string_length :: "redis_result option \<Rightarrow> int" where
  "get_string_length r =
     (if \<not> is_type REDIS_RESULT_STRING r then -1 else int (rr_get_length (the r)))"

text \<open>\<open>get_string(char*, size_t)\<close>: the result, and the bytes written with their zero byte.\<close>

definition get_string_buf :: "redis_result option \<Rightarrow> nat \<Rightarrow> int \<times> byte list option" where
  "get_string_buf r sz =
     (if \<not> is_type REDIS_RESULT_STRING r then (-1, None)
      else case rr_argv_to_buf (the r) sz of
        None \<Rightarrow> (0, None)
      | Some b \<Rightarrow> (int (length b) - 1, Some b))"

definition string_element :: "redis_result \<Rightarrow> byte list" where
  "string_element rr =
     (if result_type rr \<noteq> REDIS_RESULT_STRING then []
      else if rr_get_size rr = 0 then []
      else rr_argv_to_string rr)"

text \<open>\<open>get_strings\<close> into a vector or a list (the two have the same body).\<close>

definition get_strings :: "redis_result option \<Rightarrow> int \<times> byte list list option" where
  "get_strings r =
     (if \<not> is_type REDIS_RESULT_ARRAY r then (-1, None)
      else let ch = rr_children (the r) in (int (length ch), Some (map string_element ch)))"

definition get_strings_count :: "redis_result option \<Rightarrow> int" where
  "get_strings_count r =
     (if \<not> is_type REDIS_RESULT_ARRAY r then -1 else int (rr_get_size (the r)))"

text \<open>The loop over names and values, two elements at a time; a pair with an element that is
  not a string is left out.\<close>

fun string_pairs :: "redis_result list \<Rightarrow> (redis_result \<times> redis_result) list" where
  "string_pairs (n # v # ch) =
     (if result_type n \<noteq> REDIS_RESULT_STRING then string_pairs ch
      else if result_type v \<noteq> REDIS_RESULT_STRING then string_pairs ch
      else (n, v) # string_pairs ch)"
| "string_pairs _ = []"

text \<open>\<open>None\<close> is the result -1, with cleared outputs.\<close>

definition result_pairs :: "redis_result option \<Rightarrow> (redis_result \<times> redis_result) list option" where
  "result_pairs r =
     (if \<not> is_type REDIS_RESULT_ARRAY r then None
      else let ch = rr_children (the r) in
        if length ch mod 2 \<noteq> 0 then None else Some (string_pairs ch))"

text \<open>Into a map: a later value of the same name replaces an earlier one; the result is the
  number of names.\<close>

definition get_string_map :: "redis_result option \<Rightarrow> (byte list \<rightharpoonup> byte list) option" where
  "get_string_map r =
     map_option (\<lambda>ps. map_of (rev (map (\<lambda>(n, v). (rr_argv_to_string n, rr_argv_to_string v)) ps)))
       (result_pairs r)"

definition get_string_lists :: "redis_result option \<Rightarrow> (byte list list \<times> byte list list) option" where
  "get_string_lists r =
     map_option (\<lambda>ps. (map (rr_argv_to_string \<circ> fst) ps, map (rr_argv_to_string \<circ> snd) ps)) (result_pairs r)"

text \<open>Into vectors of C strings: each is \<open>get_length() + 1\<close> bytes from the pool, filled by
  \<open>argv_to_string(char*, size_t)\<close>. \<open>None\<close> is memory that nothing has been written to.\<close>

definition pool_string :: "redis_result \<Rightarrow> byte list option" where
  "pool_string rr = rr_argv_to_buf rr (rr_get_length rr + 1)"

definition get_string_ptrs ::
  "redis_result option \<Rightarrow> (byte list option list \<times> byte list option list) option"
where
  "get_string_ptrs r =
     map_option (\<lambda>ps. (map (pool_string \<circ> fst) ps, map (pool_string \<circ> snd) ps)) (result_pairs r)"

text \<open>\<open>result_value\<close>: the i-th element; \<open>None\<close> is NULL.\<close>

definition result_value :: "redis_result option \<Rightarrow> nat \<Rightarrow> byte list option" where
  "result_value r i =
     (if \<not> is_type REDIS_RESULT_ARRAY r then None
      else case rr_get_child (the r) i of
        None \<Rightarrow> None
      | Some child \<Rightarrow>
          (if rr_get_size child = 0 then None
           else if rr_get_size child = 1 then rr_get child 0
           else map_option butlast (rr_argv_to_buf child (rr_get_length child + 1))))"

definition result_error :: "redis_result option \<Rightarrow> cstr \<Rightarrow> cstr" where
  "result_error r last_serror =
     (let e = (case r of None \<Rightarrow> [] | Some rr \<Rightarrow> rr_get_error rr)
      in if e \<noteq> [] then e else last_serror)"

section \<open>Where a redirection points\<close>

text \<open>\<open>get_addr\<close> on \<open>MOVED <slot> <addr>\<close>: what is behind the second blank.\<close>

definition get_addr :: "cstr \<Rightarrow> cstr option" where
  "get_addr info =
     (case dropWhile (\<lambda>c. c \<noteq> 32) info of
        [] \<Rightarrow> None
      | _ # slot \<Rightarrow>
          (case dropWhile (\<lambda>c. c \<noteq> 32) slot of
             [] \<Rightarrow> None
           | _ # addr \<Rightarrow> if addr = [] then None else Some addr))"

section \<open>scan_keys\<close>

definition scan_request ::
  "cstr \<Rightarrow> cstr option \<Rightarrow> int \<Rightarrow> cstr option \<Rightarrow> nat option \<Rightarrow> byte list list"
where
  "scan_request cmd key cursor pattern cnt =
     [cmd] @ (case key of Some k \<Rightarrow> if k \<noteq> [] then [k] else [] | None \<Rightarrow> [])
     @ [c_snprintf 11 (dec_of_int cursor)]
     @ (case pattern of Some p \<Rightarrow> if p \<noteq> [] then [lit ''MATCH'', p] else [] | None \<Rightarrow> [])
     @ (case cnt of Some n \<Rightarrow> if n > 0 then [lit ''COUNT'', c_snprintf 21 (dec_of_nat n)] else []
        | None \<Rightarrow> [])"

text \<open>The new cursor, and the elements (\<open>None\<close> for NULL).\<close>

definition scan_result :: "redis_result option \<Rightarrow> int \<times> redis_result list option" where
  "scan_result r =
     (case r of
        None \<Rightarrow> (-1, None)
      | Some rr \<Rightarrow>
          if rr_get_size rr \<noteq> 2 then (-1, None)
          else (case rr_get_child rr 0 of
            None \<Rightarrow> (-1, None)
          | Some c0 \<Rightarrow>
              if rr_argv_to_string c0 = [] then (-1, None)
              else (let cursor = c_atoi (cstr_of (rr_argv_to_string c0)) in
                if cursor < 0 then (-1, None)
                else case rr_get_child rr 1 of
                  None \<Rightarrow> (-1, None)
                | Some c1 \<Rightarrow> (cursor, if rr_children c1 = [] then None else Some (rr_children c1)))))"

definition scan_keys ::
  "'s server \<Rightarrow> cstr \<Rightarrow> cstr option \<Rightarrow> int \<Rightarrow> cstr option \<Rightarrow> nat option \<Rightarrow> 's \<Rightarrow>
   (int \<times> redis_result list option) \<times> 's"
where
  "scan_keys srv cmd key cursor pattern cnt s =
     (if cursor < 0 then ((cursor, None), s)
      else run_with scan_result srv (scan_request cmd key cursor pattern cnt) s)"

section \<open>Decoders on what the reader delivers\<close>

lemma number_reply:
  "n < 2 ^ 31 \<Longrightarrow> get_number (Some (resp_result (RInteger (dec_of_nat n)))) = (int n, True)"
  by (simp add: get_number_def rr_get_integer_def rr_get_def cstr_of_dec)

lemma string_reply: "get_string (Some (resp_result (RBulk b))) = (int (length b), Some b)"
  by (simp add: get_string_def is_type_def rr_argv_to_string_def)

lemma nil_reply: "get_string (Some (resp_result RNull)) = (0, Some [])"
  by (simp add: get_string_def is_type_def rr_argv_to_string_def)

lemma strings_reply:
  "get_strings (Some (resp_result (RArray (map RBulk bs)))) = (int (length bs), Some bs)"
  by (simp add: get_strings_def is_type_def string_element_def rr_argv_to_string_def comp_def)

lemma string_element_nil: "string_element (resp_result RNull) = []"
  by (simp add: string_element_def)

lemma string_pairs_bulk:
  "string_pairs (concat (map (\<lambda>(n, v). [resp_result (RBulk n), resp_result (RBulk v)]) ps)) =
   map (\<lambda>(n, v). (resp_result (RBulk n), resp_result (RBulk v))) ps"
  by (induction ps) auto

lemma result_pairs_bulk:
  "result_pairs (Some (resp_result (RArray (concat (map (\<lambda>(n, v). [RBulk n, RBulk v]) ps))))) =
   Some (map (\<lambda>(n, v). (resp_result (RBulk n), resp_result (RBulk v))) ps)"
proof -
  let ?vs = "concat (map (\<lambda>(n, v). [RBulk n, RBulk v]) ps)"
  have ch: "map resp_result ?vs = concat (map (\<lambda>(n, v). [resp_result (RBulk n), resp_result (RBulk v)]) ps)"
    by (induction ps) auto
  have len: "length (map resp_result ?vs) mod 2 = 0"
    by (induction ps) auto
  have sp: "string_pairs (map resp_result ?vs) =
      map (\<lambda>(n, v). (resp_result (RBulk n), resp_result (RBulk v))) ps"
    unfolding ch by (rule string_pairs_bulk)
  have "result_pairs (Some (RedisResult REDIS_RESULT_ARRAY n [] chs)) =
      (if length chs mod 2 \<noteq> 0 then None else Some (string_pairs chs))" for n chs
    by (simp add: result_pairs_def is_type_def)
  with len sp show ?thesis by (simp only: resp_result.simps(6) if_False simp_thms)
qed

section \<open>Properties\<close>

text \<open>A reply of names and values (HGETALL, CONFIG GET) is decoded into the map of exactly
  these names and values; when a name comes twice, its last value counts.\<close>

theorem string_map_reply:
  "get_string_map (Some (resp_result (RArray (concat (map (\<lambda>(n, v). [RBulk n, RBulk v]) ps))))) =
   Some (map_of (rev ps))"
  unfolding get_string_map_def result_pairs_bulk
  by (simp add: comp_def split_beta rr_argv_to_string_def)

text \<open>The variant of \<open>get_strings\<close> that gives C strings never writes the terminating zero of
  an empty name or value: it allocates one byte for it, \<open>argv_to_string\<close> returns before
  writing, and the caller gets a pointer to memory of unknown content. Every other name or
  value is its bytes and a zero.\<close>

theorem empty_string_unterminated:
  "pool_string (resp_result (RBulk b)) = (if b = [] then None else Some (b @ [0]))"
  by (cases b) (simp_all add: pool_string_def rr_argv_to_buf_def rr_get_length_def copy_pieces_take)

end
