(* ===== verification/Redis_List.thy ===== *)
theory Redis_List
  imports Redis_Command
begin

text \<open>
  \<^verbatim>\<open>aclredis/src/redis/redis_list.cpp\<close> and \<^verbatim>\<open>aclredis/src/redis/redis_script.cpp\<close>: the list
  commands and the script commands. Each lays out its arguments, runs the request and decodes
  the result. A key is a C string; a value is given by its bytes where the code passes a
  length or an \<open>acl::string\<close>, and is cut at its first zero byte (\<open>cstr_of\<close>) where it passes a
  C string. The variants with a list of arguments (\<open>...\<close>) build the vector of the others and
  call them. \<open>hash_slot\<close>, which most of them call first, only chooses the node.

  \<open>list_server\<close> states what the redis documentation promises of the list commands.
\<close>

section \<open>Lists\<close>

definition lu21 :: "nat \<Rightarrow> cstr" where
  "lu21 n = c_snprintf 21 (dec_of_nat n)"

definition int21 :: "int \<Rightarrow> cstr" where
  "int21 n = c_snprintf 21 (dec_of_int n)"

definition llen :: "'s server \<Rightarrow> cstr \<Rightarrow> 's \<Rightarrow> int \<times> 's" where
  "llen srv key = run_with (fst \<circ> get_number) srv [lit ''LLEN'', key]"

definition lindex :: "'s server \<Rightarrow> cstr \<Rightarrow> nat \<Rightarrow> 's \<Rightarrow> (bool \<times> byte list option) \<times> 's" where
  "lindex srv key idx =
     run_with (\<lambda>r. (fst (get_string r) \<ge> 0, snd (get_string r))) srv [lit ''LINDEX'', key, lu21 idx]"

text \<open>The index is an \<open>int\<close>, printed as an \<open>unsigned long\<close>.\<close>

definition lset :: "'s server \<Rightarrow> cstr \<Rightarrow> int \<Rightarrow> byte list \<Rightarrow> 's \<Rightarrow> bool \<times> 's" where
  "lset srv key idx v =
     run_with (\<lambda>r. check_status r (Some (lit ''OK''))) srv
       [lit ''LSET'', key, lu21 (unat (word_of_int idx :: u64)), v]"

definition linsert :: "'s server \<Rightarrow> cstr \<Rightarrow> cstr \<Rightarrow> byte list \<Rightarrow> byte list \<Rightarrow> 's \<Rightarrow> int \<times> 's" where
  "linsert srv key pos pivot v = run_with (fst \<circ> get_number) srv [lit ''LINSERT'', key, pos, pivot, v]"

definition linsert_before :: "'s server \<Rightarrow> cstr \<Rightarrow> byte list \<Rightarrow> byte list \<Rightarrow> 's \<Rightarrow> int \<times> 's" where
  "linsert_before srv key pivot v = linsert srv key (lit ''BEFORE'') pivot v"

definition linsert_after :: "'s server \<Rightarrow> cstr \<Rightarrow> byte list \<Rightarrow> byte list \<Rightarrow> 's \<Rightarrow> int \<times> 's" where
  "linsert_after srv key pivot v = linsert srv key (lit ''AFTER'') pivot v"

definition lpush :: "'s server \<Rightarrow> cstr \<Rightarrow> byte list list \<Rightarrow> 's \<Rightarrow> int \<times> 's" where
  "lpush srv key values = run_with (fst \<circ> get_number) srv (build_names (lit ''LPUSH'') (Some key) values)"

definition lpush_cstr :: "'s server \<Rightarrow> cstr \<Rightarrow> byte list list \<Rightarrow> 's \<Rightarrow> int \<times> 's" where
  "lpush_cstr srv key values =
     run_with (fst \<circ> get_number) srv (build_names_cstr (lit ''LPUSH'') (Some key) values)"

definition rpush :: "'s server \<Rightarrow> cstr \<Rightarrow> byte list list \<Rightarrow> 's \<Rightarrow> int \<times> 's" where
  "rpush srv key values = run_with (fst \<circ> get_number) srv (build_names (lit ''RPUSH'') (Some key) values)"

definition rpush_cstr :: "'s server \<Rightarrow> cstr \<Rightarrow> byte list list \<Rightarrow> 's \<Rightarrow> int \<times> 's" where
  "rpush_cstr srv key values =
     run_with (fst \<circ> get_number) srv (build_names_cstr (lit ''RPUSH'') (Some key) values)"

definition pushx :: "'s server \<Rightarrow> cstr \<Rightarrow> cstr \<Rightarrow> byte list \<Rightarrow> 's \<Rightarrow> int \<times> 's" where
  "pushx srv cmd key v = run_with (fst \<circ> get_number) srv [cmd, key, v]"

definition lpushx :: "'s server \<Rightarrow> cstr \<Rightarrow> byte list \<Rightarrow> 's \<Rightarrow> int \<times> 's" where
  "lpushx srv key v = pushx srv (lit ''LPUSHX'') key v"

definition rpushx :: "'s server \<Rightarrow> cstr \<Rightarrow> byte list \<Rightarrow> 's \<Rightarrow> int \<times> 's" where
  "rpushx srv key v = pushx srv (lit ''RPUSHX'') key v"

text \<open>The result and what the output string holds then (\<open>None\<close>: unchanged).\<close>

definition pop :: "'s server \<Rightarrow> cstr \<Rightarrow> cstr \<Rightarrow> 's \<Rightarrow> (int \<times> byte list option) \<times> 's" where
  "pop srv cmd key = run_with get_string srv [cmd, key]"

definition lpop :: "'s server \<Rightarrow> cstr \<Rightarrow> 's \<Rightarrow> (int \<times> byte list option) \<times> 's" where
  "lpop srv key = pop srv (lit ''LPOP'') key"

definition rpop :: "'s server \<Rightarrow> cstr \<Rightarrow> 's \<Rightarrow> (int \<times> byte list option) \<times> 's" where
  "rpop srv key = pop srv (lit ''RPOP'') key"

definition bpop_result :: "redis_result option \<Rightarrow> (byte list \<times> byte list) option" where
  "bpop_result r =
     (case r of
        None \<Rightarrow> None
      | Some rr \<Rightarrow>
          if result_type rr \<noteq> REDIS_RESULT_ARRAY then None
          else if rr_get_size rr = 0 then None
          else if rr_get_size rr \<noteq> 2 then None
          else (case (rr_get_child rr 0, rr_get_child rr 1) of
            (Some a, Some b) \<Rightarrow>
              if result_type a \<noteq> REDIS_RESULT_STRING \<or> result_type b \<noteq> REDIS_RESULT_STRING then None
              else Some (rr_argv_to_string a, rr_argv_to_string b)
          | _ \<Rightarrow> None))"

definition bpop :: "'s server \<Rightarrow> cstr \<Rightarrow> byte list list \<Rightarrow> nat \<Rightarrow> 's \<Rightarrow> (byte list \<times> byte list) option \<times> 's" where
  "bpop srv cmd keys timeout = run_with bpop_result srv ([cmd] @ keys @ [lu21 timeout])"

definition bpop_cstr :: "'s server \<Rightarrow> cstr \<Rightarrow> byte list list \<Rightarrow> nat \<Rightarrow> 's \<Rightarrow> (byte list \<times> byte list) option \<times> 's" where
  "bpop_cstr srv cmd keys timeout = run_with bpop_result srv ([cmd] @ map cstr_of keys @ [lu21 timeout])"

definition blpop :: "'s server \<Rightarrow> byte list list \<Rightarrow> nat \<Rightarrow> 's \<Rightarrow> (byte list \<times> byte list) option \<times> 's" where
  "blpop srv keys timeout = bpop srv (lit ''BLPOP'') keys timeout"

definition brpop :: "'s server \<Rightarrow> byte list list \<Rightarrow> nat \<Rightarrow> 's \<Rightarrow> (byte list \<times> byte list) option \<times> 's" where
  "brpop srv keys timeout = bpop srv (lit ''BRPOP'') keys timeout"

text \<open>With a NULL output string the length is asked for instead; both tell success.\<close>

definition rpoplpush :: "'s server \<Rightarrow> cstr \<Rightarrow> cstr \<Rightarrow> 's \<Rightarrow> (bool \<times> byte list option) \<times> 's" where
  "rpoplpush srv src dst =
     run_with (\<lambda>r. (fst (get_string r) \<ge> 0, snd (get_string r))) srv [lit ''RPOPLPUSH'', src, dst]"

definition brpoplpush :: "'s server \<Rightarrow> cstr \<Rightarrow> cstr \<Rightarrow> nat \<Rightarrow> 's \<Rightarrow> (bool \<times> byte list option) \<times> 's" where
  "brpoplpush srv src dst timeout =
     run_with (\<lambda>r. (fst (get_string r) \<ge> 0, snd (get_string r))) srv [lit ''BRPOPLPUSH'', src, dst, lu21 timeout]"

definition lrange :: "'s server \<Rightarrow> cstr \<Rightarrow> int \<Rightarrow> int \<Rightarrow> 's \<Rightarrow> (bool \<times> byte list list option) \<times> 's" where
  "lrange srv key start stop =
     run_with (\<lambda>r. (\<not> fst (get_strings r) < 0, snd (get_strings r))) srv
       [lit ''LRANGE'', key, int21 start, int21 stop]"

definition lrem :: "'s server \<Rightarrow> cstr \<Rightarrow> int \<Rightarrow> byte list \<Rightarrow> 's \<Rightarrow> int \<times> 's" where
  "lrem srv key cnt v = run_with (fst \<circ> get_number) srv [lit ''LREM'', key, int_arg cnt, v]"

definition ltrim :: "'s server \<Rightarrow> cstr \<Rightarrow> int \<Rightarrow> int \<Rightarrow> 's \<Rightarrow> bool \<times> 's" where
  "ltrim srv key start stop =
     run_with (\<lambda>r. check_status r (Some (lit ''OK''))) srv [lit ''LTRIM'', key, int21 start, int21 stop]"

section \<open>Scripts\<close>

definition eval_request :: "cstr \<Rightarrow> cstr \<Rightarrow> byte list list \<Rightarrow> byte list list \<Rightarrow> byte list list" where
  "eval_request cmd script keys args = [cmd, script, lu21 (length keys)] @ keys @ args"

definition eval_cmd :: "'s server \<Rightarrow> cstr \<Rightarrow> cstr \<Rightarrow> byte list list \<Rightarrow> byte list list \<Rightarrow> 's \<Rightarrow> redis_result option \<times> 's" where
  "eval_cmd srv cmd script keys args = run_request srv (eval_request cmd script keys args)"

definition eval_cmd_cstr :: "'s server \<Rightarrow> cstr \<Rightarrow> cstr \<Rightarrow> byte list list \<Rightarrow> byte list list \<Rightarrow> 's \<Rightarrow> redis_result option \<times> 's" where
  "eval_cmd_cstr srv cmd script keys args =
     run_request srv (eval_request cmd script (map cstr_of keys) (map cstr_of args))"

text \<open>What the \<open>eval_*\<close> functions make of the result; \<open>evalsha_*\<close> are the same with another
  command.\<close>

definition eval_status_of :: "cstr \<Rightarrow> redis_result option \<Rightarrow> bool" where
  "eval_status_of success r =
     (case r of None \<Rightarrow> False | Some rr \<Rightarrow> c_strcasecmp_eq (rr_get_status rr) success)"

definition eval_number_of :: "redis_result option \<Rightarrow> bool \<times> int option" where
  "eval_number_of r =
     (case r of None \<Rightarrow> (False, None) | Some rr \<Rightarrow> (snd (rr_get_integer rr), Some (fst (rr_get_integer rr))))"

definition eval_number64_of :: "redis_result option \<Rightarrow> bool \<times> int option" where
  "eval_number64_of r =
     (case r of None \<Rightarrow> (False, None) | Some rr \<Rightarrow> (snd (rr_get_integer64 rr), Some (fst (rr_get_integer64 rr))))"

definition eval_string_of :: "redis_result option \<Rightarrow> int \<times> byte list option" where
  "eval_string_of r =
     (case r of None \<Rightarrow> (-1, None)
      | Some rr \<Rightarrow> (int (length (rr_argv_to_string rr)), Some (rr_argv_to_string rr)))"

text \<open>The variants that fill vectors; \<open>None\<close> is a vector left as it was.\<close>

definition eval_statuses_of :: "cstr \<Rightarrow> redis_result option \<Rightarrow> int \<times> bool list option" where
  "eval_statuses_of success r =
     (case r of None \<Rightarrow> (-1, None)
      | Some rr \<Rightarrow>
          if rr_children rr = [] then (-1, None)
          else (int (length (rr_children rr)),
            Some (map (\<lambda>c. c_strcasecmp_eq (rr_get_status c) success) (rr_children rr))))"

definition eval_numbers_of :: "redis_result option \<Rightarrow> int \<times> (int \<times> bool) list option" where
  "eval_numbers_of r =
     (case r of None \<Rightarrow> (-1, None)
      | Some rr \<Rightarrow>
          if rr_children rr = [] then (0, None)
          else (int (length (rr_children rr)), Some (map rr_get_integer (rr_children rr))))"

definition eval_numbers64_of :: "redis_result option \<Rightarrow> int \<times> (int \<times> bool) list option" where
  "eval_numbers64_of r =
     (case r of None \<Rightarrow> (-1, None)
      | Some rr \<Rightarrow>
          if rr_children rr = [] then (0, None)
          else (int (length (rr_children rr)), Some (map rr_get_integer64 (rr_children rr))))"

definition eval_strings_of :: "redis_result option \<Rightarrow> int \<times> byte list list option" where
  "eval_strings_of r =
     (case r of None \<Rightarrow> (-1, None)
      | Some rr \<Rightarrow>
          if rr_children rr = [] then (0, None)
          else (int (length (rr_children rr)), Some (map rr_argv_to_string (rr_children rr))))"

definition eval_with ::
  "(redis_result option \<Rightarrow> 'r) \<Rightarrow> 's server \<Rightarrow> cstr \<Rightarrow> cstr \<Rightarrow> byte list list \<Rightarrow> byte list list \<Rightarrow> 's \<Rightarrow> 'r \<times> 's"
where
  "eval_with decode srv cmd script keys args s = apfst decode (eval_cmd srv cmd script keys args s)"

definition script_exists :: "'s server \<Rightarrow> byte list list \<Rightarrow> 's \<Rightarrow> (int \<times> bool list) \<times> 's" where
  "script_exists srv scripts =
     run_with (\<lambda>r. case get_statuses r of (ret, out) \<Rightarrow> (if ret \<noteq> int (length scripts) then -1 else ret, out))
       srv (build_names (lit ''SCRIPT'') (Some (lit ''EXISTS'')) scripts)"

definition script_flush :: "'s server \<Rightarrow> 's \<Rightarrow> bool \<times> 's" where
  "script_flush srv = run_with (\<lambda>r. check_status r (Some (lit ''OK''))) srv [lit ''SCRIPT'', lit ''FLUSH'']"

definition script_load :: "'s server \<Rightarrow> byte list \<Rightarrow> 's \<Rightarrow> (bool \<times> byte list) \<times> 's" where
  "script_load srv script =
     run_with (\<lambda>r. case get_string r of (ret, out) \<Rightarrow> (ret > 0, case out of None \<Rightarrow> [] | Some b \<Rightarrow> b))
       srv [lit ''SCRIPT'', lit ''LOAD'', cstr_of script]"

definition script_kill :: "'s server \<Rightarrow> 's \<Rightarrow> bool \<times> 's" where
  "script_kill srv = run_with (\<lambda>r. check_status r (Some (lit ''OK''))) srv [lit ''SCRIPT'', lit ''KILL'']"

section \<open>What redis promises\<close>

text \<open>\<open>view s key\<close> is the list at the key, empty when there is none. The promises are those of
  the documentation of LLEN, RPUSH, LPOP and RPOP, for requests that the protocol can carry;
  the lists stay shorter than \<open>2^31\<close>, as the 32-bit result of \<open>get_number\<close> needs.\<close>

definition list_server :: "'s server \<Rightarrow> ('s \<Rightarrow> byte list \<Rightarrow> byte list list) \<Rightarrow> bool" where
  "list_server srv view \<longleftrightarrow> (\<forall>s key.
     length key < 2 ^ 31 \<longrightarrow>
       (length (view s key) < 2 ^ 31 \<longrightarrow>
          fst (run_request srv [lit ''LLEN'', key] s) = Some (resp_result (RInteger (dec_of_nat (length (view s key)))))) \<and>
       view (snd (run_request srv [lit ''LLEN'', key] s)) = view s \<and>
       (\<forall>vs. vs \<noteq> [] \<and> small_args (lit ''RPUSH'' # key # vs) \<and> length (view s key) + length vs < 2 ^ 31 \<longrightarrow>
          fst (run_request srv (lit ''RPUSH'' # key # vs) s) =
            Some (resp_result (RInteger (dec_of_nat (length (view s key) + length vs)))) \<and>
          view (snd (run_request srv (lit ''RPUSH'' # key # vs) s)) = (view s)(key := view s key @ vs)) \<and>
       fst (run_request srv [lit ''LPOP'', key] s) =
         Some (resp_result (case view s key of [] \<Rightarrow> RNull | x # _ \<Rightarrow> RBulk x)) \<and>
       view (snd (run_request srv [lit ''LPOP'', key] s)) = (view s)(key := tl (view s key)) \<and>
       fst (run_request srv [lit ''RPOP'', key] s) =
         Some (resp_result (if view s key = [] then RNull else RBulk (last (view s key)))) \<and>
       view (snd (run_request srv [lit ''RPOP'', key] s)) = (view s)(key := butlast (view s key)))"

section \<open>The list commands on such a server\<close>

lemma llen_server:
  assumes "list_server srv view" "length key < 2 ^ 31" "length (view s key) < 2 ^ 31"
  shows "fst (llen srv key s) = int (length (view s key)) \<and> view (snd (llen srv key s)) = view s"
  using assms number_reply [OF assms(3)]
  by (simp add: list_server_def llen_def run_with_def)

lemma rpush_server:
  assumes "list_server srv view" "small_args (lit ''RPUSH'' # key # vs)" "vs \<noteq> []" "length (view s key) + length vs < 2 ^ 31"
  shows "fst (rpush srv key vs s) = int (length (view s key) + length vs) \<and>
    view (snd (rpush srv key vs s)) = (view s)(key := view s key @ vs)"
proof -
  from assms(2) have "length key < 2 ^ 31" by (auto simp: small_args_def)
  with assms number_reply [OF assms(4)] show ?thesis
    by (simp add: list_server_def rpush_def run_with_def build_names_def build_head_def)
qed

lemma lpop_server:
  assumes "list_server srv view" "length key < 2 ^ 31"
  shows "fst (lpop srv key s) = (case view s key of [] \<Rightarrow> (0, Some []) | x # _ \<Rightarrow> (int (length x), Some x)) \<and>
    view (snd (lpop srv key s)) = (view s)(key := tl (view s key))"
  using assms string_reply nil_reply
  by (auto simp: list_server_def lpop_def pop_def run_with_def split: list.splits)

lemma rpop_server:
  assumes "list_server srv view" "length key < 2 ^ 31"
  shows "fst (rpop srv key s) =
      (if view s key = [] then (0, Some []) else (int (length (last (view s key))), Some (last (view s key)))) \<and>
    view (snd (rpop srv key s)) = (view s)(key := butlast (view s key))"
  using assms string_reply nil_reply
  by (auto simp: list_server_def rpop_def pop_def run_with_def)

section \<open>A server for the witnesses\<close>

text \<open>Lists in a function from keys; it reads the request with the protocol's reader.\<close>

fun demo_answer :: "byte list list \<Rightarrow> (byte list \<Rightarrow> byte list list) \<Rightarrow> resp \<times> (byte list \<Rightarrow> byte list list)" where
  "demo_answer (cmd # key # vs) s =
     (if cmd = lit ''LLEN'' then (RInteger (dec_of_nat (length (s key))), s)
      else if cmd = lit ''RPUSH'' then
        (RInteger (dec_of_nat (length (s key) + length vs)), s(key := s key @ vs))
      else if cmd = lit ''LPOP'' then
        (case s key of [] \<Rightarrow> RNull | x # _ \<Rightarrow> RBulk x, s(key := tl (s key)))
      else if cmd = lit ''RPOP'' then
        (if s key = [] then RNull else RBulk (last (s key)), s(key := butlast (s key)))
      else (RError (lit ''ERR''), s))"
| "demo_answer _ s = (RError (lit ''ERR''), s)"

definition demo_server :: "(byte list \<Rightarrow> byte list list) server" where
  "demo_server bytes s =
     (case read_args bytes of
        None \<Rightarrow> (None, s)
      | Some argv \<Rightarrow> map_prod (Some \<circ> resp_result) id (demo_answer argv s))"

lemma demo_run:
  "small_args argv \<Longrightarrow> run_request demo_server argv s = map_prod (Some \<circ> resp_result) id (demo_answer argv s)"
  by (simp add: run_request_def demo_server_def read_args_request)

lemma lit_commands [simp]:
  "lit ''LLEN'' \<noteq> lit ''RPUSH''" "lit ''LLEN'' \<noteq> lit ''LPOP''" "lit ''LLEN'' \<noteq> lit ''RPOP''"
  "lit ''RPUSH'' \<noteq> lit ''LLEN''" "lit ''RPUSH'' \<noteq> lit ''LPOP''" "lit ''RPUSH'' \<noteq> lit ''RPOP''"
  "lit ''LPOP'' \<noteq> lit ''LLEN''" "lit ''LPOP'' \<noteq> lit ''RPUSH''" "lit ''LPOP'' \<noteq> lit ''RPOP''"
  "lit ''RPOP'' \<noteq> lit ''LLEN''" "lit ''RPOP'' \<noteq> lit ''RPUSH''" "lit ''RPOP'' \<noteq> lit ''LPOP''"
  by (simp_all add: lit_def)

lemma small_args_key: "length key < 2 ^ 31 \<Longrightarrow> length c < 2 ^ 31 \<Longrightarrow> small_args [lit c, key]"
  by (simp add: small_args_def lit_def)

lemma demo_list_server: "list_server demo_server id"
  unfolding list_server_def by (simp add: demo_run small_args_key split: list.split)

section \<open>Properties\<close>

lemma dec_length_64: "n < 2 ^ 64 \<Longrightarrow> length (dec_of_nat n) \<le> 20"
  by (rule dec_length [where k = 19, simplified]) (erule less_le_trans, simp)

lemma lu21_dec: "n < 2 ^ 64 \<Longrightarrow> lu21 n = dec_of_nat n"
  using dec_length_64 [of n] by (simp add: lu21_def c_snprintf_def)

lemma int_as_u64:
  assumes "- (2 ^ 31) \<le> idx" "idx < 2 ^ 31"
  shows "unat (word_of_int idx :: u64) = (if idx < 0 then 2 ^ 64 - nat (- idx) else nat idx)"
proof -
  have "uint (word_of_int idx :: u64) = (if idx < 0 then 2 ^ 64 + idx else idx)"
  proof (cases "idx < 0")
    case True
    have "idx mod 2 ^ 64 = (idx + 2 ^ 64) mod 2 ^ 64" by simp
    also have "\<dots> = idx + 2 ^ 64" using True assms by (intro mod_pos_pos_trivial) auto
    finally show ?thesis using True by (simp add: uint_word_of_int)
  next
    case False
    then show ?thesis using assms by (simp add: uint_word_of_int)
  qed
  then show ?thesis using assms by (auto simp flip: uint_nat simp: unat_eq_nat_uint nat_diff_distrib nat_add_distrib)
qed

text \<open>LSET of redis counts a negative index from the end of the list, but
  \<open>redis_list::lset\<close> prints its \<open>int\<close> index as an \<open>unsigned long\<close>: for an index that is not
  negative the server is sent that number, for a negative one it is sent \<open>2^64\<close> less its
  absolute value, so with any server that refuses an index out of range the call fails and
  the last elements cannot be set.\<close>

theorem lset_negative_index:
  assumes "- (2 ^ 31) \<le> idx" "idx < 2 ^ 31"
  shows "lset srv key idx v s =
    run_with (\<lambda>r. check_status r (Some (lit ''OK''))) srv
      [lit ''LSET'', key, dec_of_nat (if idx < 0 then 2 ^ 64 - nat (- idx) else nat idx), v] s"
proof -
  have "(if idx < 0 then 2 ^ 64 - nat (- idx) else nat idx) < 2 ^ 64"
    using assms by (auto intro: le_less_trans)
  then show ?thesis using assms by (simp only: lset_def int_as_u64 lu21_dec)
qed

lemma lset_negative_index_witness:
  "lset (\<lambda>b s. (None, b)) (lit ''k'') (-1) (lit ''v'') [] =
   (False, build_request1 [lit ''LSET'', lit ''k'', dec_of_nat 18446744073709551615, lit ''v''])"
  using lset_negative_index [of "- 1" "\<lambda>b s. (None, b)" "lit ''k''" "lit ''v''" "[]"]
  by (simp add: run_with_def run_request_def check_status_def is_type_def)

end
