(* ===== verification/Mw_Redis.thy ===== *)
theory Mw_Redis
  imports Redis_List
begin

text \<open>
  \<^verbatim>\<open>aclredis/include/mw/mwredisimpl.cpp\<close>, \<open>MWRedisRedisImpl\<close>: the client that the library's
  callers see. This theory has its state and its life cycle, the list operations and the
  scripts. Each operation makes a fresh command object on the cluster of the client, so it is
  a function of the server (see \<open>Redis_Command\<close>) and the server's state.

  A \<open>std::string\<close> key is its bytes; where the code passes \<open>key.c_str()\<close> it ends at its first
  zero byte. An operation gives its result and what it has written to its output (\<open>None\<close>: the
  output is as before). The text in \<open>error\<close>, an output of its own, is left out. The asserts
  are those of a release build: nothing.
\<close>

section \<open>The client\<close>

record mw =
  mw_cluster :: "byte list"
  mw_pwd :: "byte list"
  mw_conn_timeout :: int
  mw_rw_timeout :: int
  mw_retry_limit :: int
  mw_retry_interval :: int
  mw_retry_sleep :: int
  mw_pool_size :: int
  mw_preset :: bool
  mw_inited :: bool

definition mw_new :: mw where
  "mw_new = \<lparr>mw_cluster = [], mw_pwd = [], mw_conn_timeout = 3, mw_rw_timeout = 3,
     mw_retry_limit = 3, mw_retry_interval = 1, mw_retry_sleep = 500, mw_pool_size = 8,
     mw_preset = True, mw_inited = False\<rparr>"

definition ping :: "'s server \<Rightarrow> 's \<Rightarrow> bool \<times> 's" where
  "ping srv = run_with (\<lambda>r. check_status r (Some (lit ''PONG''))) srv [lit ''PING'']"

text \<open>\<open>initRedis\<close>: the settings are kept also when the server does not answer. A cluster object
  that cannot be allocated (-3) is left out; the slot table that \<open>bPreset\<close> asks for is part of
  the cluster.\<close>

definition initRedis ::
  "'s server \<Rightarrow> mw \<Rightarrow> byte list \<Rightarrow> byte list \<Rightarrow> int \<Rightarrow> int \<Rightarrow> int \<Rightarrow> int \<Rightarrow> int \<Rightarrow> int \<Rightarrow> bool \<Rightarrow> 's \<Rightarrow>
   int \<times> mw \<times> 's"
where
  "initRedis srv m cluster pwd conn_t rw_t retry_limit retry_interval retry_sleep pool preset s =
     (if mw_inited m then (-1, m, s)
      else if cluster = [] then (-2, m, s)
      else let
        m = m\<lparr>mw_cluster := cluster, mw_pwd := pwd\<rparr>;
        m = (if conn_t \<ge> 0 then m\<lparr>mw_conn_timeout := if conn_t > 60 then 60 else conn_t\<rparr> else m);
        m = (if rw_t \<ge> 0 then m\<lparr>mw_rw_timeout := if rw_t > 60 then 60 else rw_t\<rparr> else m);
        m = (if retry_limit \<ge> 0 then m\<lparr>mw_retry_limit := if retry_limit > 30 then 30 else retry_limit\<rparr> else m);
        m = m\<lparr>mw_retry_interval := retry_interval, mw_retry_sleep := retry_sleep,
              mw_pool_size := pool, mw_preset := preset\<rparr>
        in (case ping srv s of
          (False, s) \<Rightarrow> (-4, m, s)
        | (True, s) \<Rightarrow> (0, m\<lparr>mw_inited := True\<rparr>, s)))"

definition unintRedis :: "mw \<Rightarrow> mw" where
  "unintRedis m = (if mw_inited m then m\<lparr>mw_inited := False\<rparr> else m)"

definition mw_ping :: "'s server \<Rightarrow> mw \<Rightarrow> 's \<Rightarrow> bool \<times> 's" where
  "mw_ping srv m s = (if \<not> mw_inited m then (False, s) else ping srv s)"

section \<open>Lists\<close>

text \<open>The key is a C string here; it is not NULL.\<close>

definition mw_lpush :: "'s server \<Rightarrow> mw \<Rightarrow> cstr \<Rightarrow> byte list list \<Rightarrow> 's \<Rightarrow> int \<times> 's" where
  "mw_lpush srv m key values s =
     (if \<not> mw_inited m then (-1, s)
      else if values = [] then (-2, s)
      else lpush srv key values s)"

definition mw_rpush :: "'s server \<Rightarrow> mw \<Rightarrow> cstr \<Rightarrow> byte list list \<Rightarrow> 's \<Rightarrow> int \<times> 's" where
  "mw_rpush srv m key values s =
     (if \<not> mw_inited m then (-1, s)
      else if values = [] then (-2, s)
      else rpush srv key values s)"

text \<open>The pops copy the command's string, empty until the command has filled it, into the
  output unless the result is negative.\<close>

definition pop_out :: "int \<times> byte list option \<Rightarrow> int \<times> byte list option" where
  "pop_out = (\<lambda>(ret, out). (ret, if ret < 0 then None else Some (case out of None \<Rightarrow> [] | Some b \<Rightarrow> b)))"

definition mw_lpop :: "'s server \<Rightarrow> mw \<Rightarrow> cstr \<Rightarrow> 's \<Rightarrow> (int \<times> byte list option) \<times> 's" where
  "mw_lpop srv m key s =
     (if \<not> mw_inited m then ((-1, None), s) else apfst pop_out (lpop srv key s))"

definition mw_rpop :: "'s server \<Rightarrow> mw \<Rightarrow> cstr \<Rightarrow> 's \<Rightarrow> (int \<times> byte list option) \<times> 's" where
  "mw_rpop srv m key s =
     (if \<not> mw_inited m then ((-1, None), s) else apfst pop_out (rpop srv key s))"

text \<open>\<open>lrange\<close> adds to the vector it is given, and returns the length of the whole vector.\<close>

definition mw_lrange ::
  "'s server \<Rightarrow> mw \<Rightarrow> cstr \<Rightarrow> int \<Rightarrow> int \<Rightarrow> byte list list \<Rightarrow> 's \<Rightarrow> (int \<times> byte list list) \<times> 's"
where
  "mw_lrange srv m key start stop result s =
     (if \<not> mw_inited m then ((-1, result), s)
      else apfst (\<lambda>(ok, res).
          if \<not> ok then (-3, result)
          else let result = result @ (case res of None \<Rightarrow> [] | Some bs \<Rightarrow> bs)
               in (signed_take_bit 31 (int (length result)), result))
        (lrange srv key start stop s))"

definition mw_llen :: "'s server \<Rightarrow> mw \<Rightarrow> byte list \<Rightarrow> 's \<Rightarrow> int \<times> 's" where
  "mw_llen srv m key s = (if \<not> mw_inited m then (-1, s) else llen srv (cstr_of key) s)"

section \<open>Scripts\<close>

definition mw_eval_number ::
  "'s server \<Rightarrow> mw \<Rightarrow> cstr \<Rightarrow> byte list list \<Rightarrow> byte list list \<Rightarrow> 's \<Rightarrow> (int \<times> int option) \<times> 's"
where
  "mw_eval_number srv m script keys args s =
     (if \<not> mw_inited m then ((-1, None), s)
      else apfst (\<lambda>(ok, out). (if ok then 0 else -2, out))
        (eval_with eval_number_of srv (lit ''EVAL'') script keys args s))"

text \<open>It adds to the vector it is given.\<close>

definition mw_eval_strings ::
  "'s server \<Rightarrow> mw \<Rightarrow> cstr \<Rightarrow> byte list list \<Rightarrow> byte list list \<Rightarrow> byte list list \<Rightarrow> 's \<Rightarrow>
   (int \<times> byte list list) \<times> 's"
where
  "mw_eval_strings srv m script keys args out s =
     (if \<not> mw_inited m then ((-1, out), s)
      else apfst (\<lambda>(ret, tmp).
          if ret < 0 then (-2, out)
          else (0, out @ (case tmp of None \<Rightarrow> [] | Some bs \<Rightarrow> bs)))
        (eval_with eval_strings_of srv (lit ''EVAL'') script keys args s))"

text \<open>\<open>zlpop_list\<close> and \<open>zpop_queue\<close>: one script that reads and removes, so that it is atomic.\<close>

definition zlpop_script :: cstr where
  "zlpop_script = lit ''local e = redis.call('LRANGE', KEYS[1], ARGV[1], ARGV[2]) for k, v in ipairs(e) do redis.call('LPOP', KEYS[1]) end return e''"

definition zpop_script :: cstr where
  "zpop_script = lit ''local e = redis.call('ZRANGEBYSCORE', KEYS[1], ARGV[1], ARGV[2], 'withscores', 'limit', 0, ARGV[3]) if e[1] ~= nil then for k,v in ipairs(e) do if k%2==1 then redis.call('ZREM', KEYS[1], v) end end end return e''"

definition mw_zlpop_list ::
  "'s server \<Rightarrow> mw \<Rightarrow> byte list \<Rightarrow> int \<Rightarrow> byte list list \<Rightarrow> 's \<Rightarrow> (int \<times> byte list list) \<times> 's"
where
  "mw_zlpop_list srv m key batchsize out s =
     (if \<not> mw_inited m then ((-1, out), s)
      else if batchsize \<le> 0 then ((-2, out), s)
      else mw_eval_strings srv m zlpop_script [key] [lit ''0'', dec_of_int (batchsize - 1)] [] s)"

definition mw_zpop_queue ::
  "'s server \<Rightarrow> mw \<Rightarrow> byte list \<Rightarrow> byte list \<Rightarrow> byte list \<Rightarrow> int \<Rightarrow> byte list list \<Rightarrow> 's \<Rightarrow>
   (int \<times> byte list list) \<times> 's"
where
  "mw_zpop_queue srv m key minpos maxpos batchsize out s =
     (if \<not> mw_inited m then ((-1, out), s)
      else if batchsize \<le> 0 then ((-2, out), s)
      else mw_eval_strings srv m zpop_script [key] [minpos, maxpos, dec_of_int batchsize] [] s)"

section \<open>Lemmas\<close>

definition mw_timeouts_ok :: "mw \<Rightarrow> bool" where
  "mw_timeouts_ok m \<longleftrightarrow> 0 \<le> mw_conn_timeout m \<and> mw_conn_timeout m \<le> 60 \<and>
     0 \<le> mw_rw_timeout m \<and> mw_rw_timeout m \<le> 60 \<and> 0 \<le> mw_retry_limit m \<and> mw_retry_limit m \<le> 30"

lemma mw_new_timeouts: "mw_timeouts_ok mw_new"
  by (simp add: mw_timeouts_ok_def mw_new_def)

lemma initRedis_timeouts:
  "mw_timeouts_ok m \<Longrightarrow>
   mw_timeouts_ok (fst (snd (initRedis srv m cluster pwd ct rt rl ri rs pool preset s)))"
  by (auto simp: initRedis_def mw_timeouts_ok_def Let_def split: prod.splits bool.splits)

lemma initRedis_result:
  "fst (initRedis srv m cluster pwd ct rt rl ri rs pool preset s) = 0 \<longleftrightarrow>
   \<not> mw_inited m \<and> cluster \<noteq> [] \<and> fst (ping srv s)"
  by (auto simp: initRedis_def Let_def split: prod.splits bool.splits)

lemma initRedis_inited:
  "mw_inited (fst (snd (initRedis srv m cluster pwd ct rt rl ri rs pool preset s))) \<longleftrightarrow>
   mw_inited m \<or> cluster \<noteq> [] \<and> fst (ping srv s)"
  by (auto simp: initRedis_def Let_def split: prod.splits bool.splits)

text \<open>The list operations on a client that is set up.\<close>

lemma mw_rpush_server:
  assumes "list_server srv view" "small_args (lit ''RPUSH'' # key # vs)" "vs \<noteq> []"
    "length (view s key) + length vs < 2 ^ 31" "mw_inited m"
  shows "fst (mw_rpush srv m key vs s) = int (length (view s key) + length vs) \<and>
    view (snd (mw_rpush srv m key vs s)) = (view s)(key := view s key @ vs)"
  using rpush_server [OF assms(1-4)] assms(3,5) by (simp add: mw_rpush_def)

lemma mw_lpop_server:
  assumes "list_server srv view" "length key < 2 ^ 31" "mw_inited m"
  shows "fst (mw_lpop srv m key s) =
      (case view s key of [] \<Rightarrow> (0, Some []) | x # _ \<Rightarrow> (int (length x), Some x)) \<and>
    view (snd (mw_lpop srv m key s)) = (view s)(key := tl (view s key))"
  using lpop_server [OF assms(1,2), of s] assms(3)
  by (auto simp: mw_lpop_def pop_out_def split: list.splits prod.splits)

lemma mw_llen_server:
  assumes "list_server srv view" "length (cstr_of key) < 2 ^ 31" "length (view s (cstr_of key)) < 2 ^ 31"
    "mw_inited m"
  shows "fst (mw_llen srv m key s) = int (length (view s (cstr_of key))) \<and>
    view (snd (mw_llen srv m key s)) = view s"
  using llen_server [OF assms(1,2,3)] assms(4) by (simp add: mw_llen_def)

text \<open>\<open>eval_strings\<close> gives 0 and no elements when the server answers with an error: an error
  has no children, so \<open>redis_script::eval_strings\<close> takes it for an empty array.\<close>

lemma eval_strings_of_error: "eval_strings_of (Some (resp_result (RError e))) = (0, None)"
  by (simp add: eval_strings_of_def)

lemma mw_eval_strings_error:
  assumes "mw_inited m"
    "fst (run_request srv (eval_request (lit ''EVAL'') script keys args) s) = Some (resp_result (RError e))"
  shows "fst (mw_eval_strings srv m script keys args out s) = (0, out)"
  using assms eval_strings_of_error [of e]
  by (simp add: mw_eval_strings_def eval_with_def eval_cmd_def)

end
