(* ===== verification/Mw_SliceList.thy ===== *)
theory Mw_SliceList
  imports Mw_Redis
begin

text \<open>
  \<^verbatim>\<open>aclredis/include/mw/mwredisslicelist.cpp\<close>, \<open>MWRedisSliceList\<close>: one queue spread over
  several redis lists, the slices, with the keys \<open>topic:0\<close>, \<open>topic:1\<close> and so on, and the
  \<open>slicelist_\<close> operations of \<^verbatim>\<open>aclredis/include/mw/mwredisimpl.cpp\<close>, which keep one such
  object for each topic. A push goes to the slices in turn; a pop starts behind a counter of
  its own and tries one slice after the other.

  The \<open>weak_ptr\<close> to the client is an argument: \<open>None\<close> when the client is gone. The operations
  are given for a caller that has the object alone; the counters are the atomic 64-bit
  numbers of the code, which wrap around. The loop of \<open>listlpop\<close> has the number of slices as
  fuel, and \<open>lpop_loop_pop_first\<close> shows that this is enough.

  On a server that keeps the promises of \<open>list_server\<close>, a pop is \<open>pop_first\<close> on the slices, and
  along any sequence of pushes and pops (\<open>slice_run\<close>) each slice is a queue that loses nothing.
\<close>

section \<open>The object\<close>

record slice_list =
  sl_topic :: "byte list"
  sl_num :: u32
  sl_push :: u64
  sl_pop :: u64

definition slice_list_new :: slice_list where
  "slice_list_new = \<lparr>sl_topic = [], sl_num = 1, sl_push = 0, sl_pop = 0\<rparr>"

definition listinit :: "mw option \<Rightarrow> slice_list \<Rightarrow> byte list \<Rightarrow> int \<Rightarrow> int \<times> slice_list" where
  "listinit cl sl topic slicenum =
     (if topic = [] \<or> slicenum \<le> 0 then (-1, sl)
      else case cl of
        None \<Rightarrow> (-2, sl)
      | Some _ \<Rightarrow> (0, sl\<lparr>sl_push := 0, sl_pop := 0, sl_num := word_of_int slicenum, sl_topic := topic\<rparr>))"

definition getlisttopic :: "slice_list \<Rightarrow> byte list" where
  "getlisttopic sl = sl_topic sl"

definition getlistslicenum :: "slice_list \<Rightarrow> int" where
  "getlistslicenum sl = sint (sl_num sl)"

definition is_available :: "'s server \<Rightarrow> mw option \<Rightarrow> 's \<Rightarrow> int \<times> 's" where
  "is_available srv cl s =
     (case cl of None \<Rightarrow> (-1, s)
      | Some m \<Rightarrow> (case mw_ping srv m s of (False, s) \<Rightarrow> (-2, s) | (True, s) \<Rightarrow> (0, s)))"

definition slice_key :: "byte list \<Rightarrow> nat \<Rightarrow> byte list" where
  "slice_key topic index = topic @ [58] @ dec_of_nat index"

definition slices :: "slice_list \<Rightarrow> nat" where
  "slices sl = unat (sl_num sl)"

text \<open>The loops over all slices go down in the number of slices left.\<close>

fun totallen_loop :: "nat \<Rightarrow> 's server \<Rightarrow> mw \<Rightarrow> byte list \<Rightarrow> nat \<Rightarrow> int \<Rightarrow> 's \<Rightarrow> int \<times> 's" where
  "totallen_loop 0 srv m topic index tot s = (tot, s)"
| "totallen_loop (Suc n) srv m topic index tot s =
     (case mw_llen srv m (slice_key topic index) s of
        (len, s) \<Rightarrow>
          if len < 0 then (len, s)
          else totallen_loop n srv m topic (index + 1) (signed_take_bit 31 (tot + len)) s)"

definition list_totallen :: "'s server \<Rightarrow> mw option \<Rightarrow> slice_list \<Rightarrow> 's \<Rightarrow> int \<times> 's" where
  "list_totallen srv cl sl s =
     (case cl of None \<Rightarrow> (-1, s) | Some m \<Rightarrow> totallen_loop (slices sl) srv m (sl_topic sl) 0 0 s)"

definition list_len :: "'s server \<Rightarrow> mw option \<Rightarrow> slice_list \<Rightarrow> u32 \<Rightarrow> 's \<Rightarrow> int \<times> 's" where
  "list_len srv cl sl slotindex s =
     (case cl of None \<Rightarrow> (-1, s)
      | Some m \<Rightarrow>
          if slotindex \<ge> sl_num sl then (-2, s)
          else mw_llen srv m (slice_key (sl_topic sl) (unat slotindex)) s)"

section \<open>Pushing\<close>

text \<open>The result, the slice that \<open>slotindex\<close> is set to (\<open>None\<close>: not set), and the object.\<close>

definition push_next ::
  "'s server \<Rightarrow> mw option \<Rightarrow> slice_list \<Rightarrow> byte list list \<Rightarrow> 's \<Rightarrow> (int \<times> nat option) \<times> slice_list \<times> 's"
where
  "push_next srv cl sl values s =
     (case cl of None \<Rightarrow> ((-2, None), sl, s)
      | Some m \<Rightarrow>
          let index = unat (sl_push sl) mod slices sl in
          (case mw_rpush srv m (cstr_of (slice_key (sl_topic sl) index)) values s of
             (ret, s) \<Rightarrow> ((ret, Some index), sl\<lparr>sl_push := sl_push sl + 1\<rparr>, s)))"

definition listrpush ::
  "'s server \<Rightarrow> mw option \<Rightarrow> slice_list \<Rightarrow> byte list \<Rightarrow> 's \<Rightarrow> (int \<times> nat option) \<times> slice_list \<times> 's"
where
  "listrpush srv cl sl buf s =
     (if sl_topic sl = [] \<or> buf = [] then ((-1, None), sl, s) else push_next srv cl sl [buf] s)"

definition listrpush_values ::
  "'s server \<Rightarrow> mw option \<Rightarrow> slice_list \<Rightarrow> byte list list \<Rightarrow> 's \<Rightarrow> (int \<times> nat option) \<times> slice_list \<times> 's"
where
  "listrpush_values srv cl sl values s =
     (if sl_topic sl = [] \<or> values = [] then ((-1, None), sl, s) else push_next srv cl sl values s)"

definition push_at :: "'s server \<Rightarrow> mw option \<Rightarrow> slice_list \<Rightarrow> u32 \<Rightarrow> byte list list \<Rightarrow> 's \<Rightarrow> int \<times> 's" where
  "push_at srv cl sl slotindex values s =
     (case cl of None \<Rightarrow> (-2, s)
      | Some m \<Rightarrow>
          if slotindex \<ge> sl_num sl then (-3, s)
          else mw_rpush srv m (cstr_of (slice_key (sl_topic sl) (unat slotindex))) values s)"

definition list_rpush_by_index ::
  "'s server \<Rightarrow> mw option \<Rightarrow> slice_list \<Rightarrow> u32 \<Rightarrow> byte list \<Rightarrow> 's \<Rightarrow> int \<times> 's"
where
  "list_rpush_by_index srv cl sl slotindex buf s =
     (if sl_topic sl = [] \<or> buf = [] then (-1, s) else push_at srv cl sl slotindex [buf] s)"

definition list_rpush_values_by_index ::
  "'s server \<Rightarrow> mw option \<Rightarrow> slice_list \<Rightarrow> u32 \<Rightarrow> byte list list \<Rightarrow> 's \<Rightarrow> int \<times> 's"
where
  "list_rpush_values_by_index srv cl sl slotindex values s =
     (if sl_topic sl = [] \<or> values = [] then (-1, s) else push_at srv cl sl slotindex values s)"

section \<open>Popping\<close>

text \<open>The loop of \<open>listlpop\<close>: the result, the output string (\<open>None\<close>: as before) and the slice
  that was popped from. Out of fuel is \<open>None\<close>.\<close>

fun lpop_loop ::
  "nat \<Rightarrow> 's server \<Rightarrow> mw \<Rightarrow> byte list \<Rightarrow> nat \<Rightarrow> nat \<Rightarrow> nat \<Rightarrow> byte list option \<Rightarrow> 's \<Rightarrow>
   ((int \<times> byte list option \<times> nat option) \<times> 's) option"
where
  "lpop_loop 0 srv m topic num start index buf s = None"
| "lpop_loop (Suc fuel) srv m topic num start index buf s =
     (let index = (index + 1) mod num in
      case mw_lpop srv m (cstr_of (slice_key topic index)) s of
        ((ret, out), s) \<Rightarrow>
          let buf = (case out of None \<Rightarrow> buf | Some b \<Rightarrow> Some b) in
          if ret > 0 then Some ((ret, buf, Some index), s)
          else if ret < 0 then Some ((ret, buf, None), s)
          else if index = start then Some ((0, buf, None), s)
          else lpop_loop fuel srv m topic num start index buf s)"

definition listlpop ::
  "'s server \<Rightarrow> mw option \<Rightarrow> slice_list \<Rightarrow> 's \<Rightarrow>
   ((int \<times> byte list option \<times> nat option) \<times> slice_list \<times> 's) option"
where
  "listlpop srv cl sl s =
     (if sl_topic sl = [] then Some ((-1, None, None), sl, s)
      else case cl of
        None \<Rightarrow> Some ((-2, None, None), sl, s)
      | Some m \<Rightarrow>
          let start = unat (sl_pop sl) mod slices sl;
              sl = sl\<lparr>sl_pop := sl_pop sl + 1\<rparr>
          in map_option (map_prod id (Pair sl))
               (lpop_loop (slices sl) srv m (sl_topic sl) (slices sl) start start None s))"

text \<open>\<open>listbatchlpop\<close>: the same loop around \<open>zlpop_list\<close>, which clears the vector.\<close>

fun batchlpop_loop ::
  "nat \<Rightarrow> 's server \<Rightarrow> mw \<Rightarrow> byte list \<Rightarrow> nat \<Rightarrow> nat \<Rightarrow> nat \<Rightarrow> int \<Rightarrow> byte list list \<Rightarrow> 's \<Rightarrow>
   ((int \<times> byte list list \<times> nat option) \<times> 's) option"
where
  "batchlpop_loop 0 srv m topic num start index batchsize buflist s = None"
| "batchlpop_loop (Suc fuel) srv m topic num start index batchsize buflist s =
     (let index = (index + 1) mod num in
      case mw_zlpop_list srv m (slice_key topic index) batchsize buflist s of
        ((ret, buflist), s) \<Rightarrow>
          if ret < 0 then Some ((ret, buflist, None), s)
          else if ret = 0 \<and> buflist \<noteq> [] then Some ((ret, buflist, Some index), s)
          else if index = start then Some ((0, buflist, None), s)
          else batchlpop_loop fuel srv m topic num start index batchsize buflist s)"

definition listbatchlpop ::
  "'s server \<Rightarrow> mw option \<Rightarrow> slice_list \<Rightarrow> int \<Rightarrow> byte list list \<Rightarrow> 's \<Rightarrow>
   ((int \<times> byte list list \<times> nat option) \<times> slice_list \<times> 's) option"
where
  "listbatchlpop srv cl sl batchsize buflist s =
     (if sl_topic sl = [] \<or> batchsize < 1 then Some ((-1, buflist, None), sl, s)
      else case cl of
        None \<Rightarrow> Some ((-2, buflist, None), sl, s)
      | Some m \<Rightarrow>
          let start = unat (sl_pop sl) mod slices sl;
              sl = sl\<lparr>sl_pop := sl_pop sl + 1\<rparr>
          in map_option (map_prod id (Pair sl))
               (batchlpop_loop (slices sl) srv m (sl_topic sl) (slices sl) start start batchsize buflist s))"

definition list_robin_lpop ::
  "'s server \<Rightarrow> mw option \<Rightarrow> slice_list \<Rightarrow> 's \<Rightarrow> (int \<times> byte list option \<times> nat option) \<times> slice_list \<times> 's"
where
  "list_robin_lpop srv cl sl s =
     (if sl_topic sl = [] then ((-1, None, None), sl, s)
      else case cl of
        None \<Rightarrow> ((-2, None, None), sl, s)
      | Some m \<Rightarrow>
          let index = unat (sl_pop sl) mod slices sl in
          (case mw_lpop srv m (cstr_of (slice_key (sl_topic sl) index)) s of
             ((ret, out), s) \<Rightarrow> ((ret, out, Some index), sl\<lparr>sl_pop := sl_pop sl + 1\<rparr>, s)))"

definition list_lpop_by_index ::
  "'s server \<Rightarrow> mw option \<Rightarrow> slice_list \<Rightarrow> u32 \<Rightarrow> 's \<Rightarrow> (int \<times> byte list option) \<times> 's"
where
  "list_lpop_by_index srv cl sl slotindex s =
     (if sl_topic sl = [] then ((-1, None), s)
      else case cl of
        None \<Rightarrow> ((-2, None), s)
      | Some m \<Rightarrow>
          if slotindex \<ge> sl_num sl then ((-3, None), s)
          else mw_lpop srv m (cstr_of (slice_key (sl_topic sl) (unat slotindex))) s)"

section \<open>Reading\<close>

text \<open>The bounds are \<open>uint32_t\<close> here and \<open>int\<close> in \<open>lrange\<close>.\<close>

definition list_lrange_by_index ::
  "'s server \<Rightarrow> mw option \<Rightarrow> slice_list \<Rightarrow> u32 \<Rightarrow> u32 \<Rightarrow> u32 \<Rightarrow> byte list list \<Rightarrow> 's \<Rightarrow>
   (int \<times> byte list list) \<times> 's"
where
  "list_lrange_by_index srv cl sl slotindex start stop result s =
     (if sl_topic sl = [] \<or> start \<le> stop then ((-1, result), s)
      else case cl of
        None \<Rightarrow> ((-2, result), s)
      | Some m \<Rightarrow>
          if slotindex \<ge> sl_num sl then ((-3, result), s)
          else mw_lrange srv m (cstr_of (slice_key (sl_topic sl) (unat slotindex)))
                 (sint start) (sint stop) result s)"

fun lrange_loop ::
  "nat \<Rightarrow> 's server \<Rightarrow> mw \<Rightarrow> byte list \<Rightarrow> nat \<Rightarrow> u32 \<Rightarrow> u32 \<Rightarrow> int \<Rightarrow> byte list list \<Rightarrow> 's \<Rightarrow>
   (int \<times> byte list list) \<times> 's"
where
  "lrange_loop 0 srv m topic index start stop ret result s = ((ret, result), s)"
| "lrange_loop (Suc n) srv m topic index start stop ret result s =
     (case mw_lrange srv m (cstr_of (slice_key topic index)) (sint start) (sint stop) result s of
        ((ret, result), s) \<Rightarrow>
          if ret < 0 then ((ret, result), s)
          else if ret \<ge> 0 \<and> result \<noteq> [] then ((ret, result), s)
          else lrange_loop n srv m topic (index + 1) start stop ret result s)"

definition list_lrange ::
  "'s server \<Rightarrow> mw option \<Rightarrow> slice_list \<Rightarrow> u32 \<Rightarrow> u32 \<Rightarrow> byte list list \<Rightarrow> 's \<Rightarrow>
   (int \<times> byte list list) \<times> 's"
where
  "list_lrange srv cl sl start stop result s =
     (if sl_topic sl = [] \<or> start \<le> stop then ((-1, result), s)
      else case cl of
        None \<Rightarrow> ((-2, result), s)
      | Some m \<Rightarrow> lrange_loop (slices sl) srv m (sl_topic sl) 0 start stop 0 result s)"

section \<open>One object for each topic\<close>

text \<open>\<open>m_sliceTopicMap\<close> maps a topic to its object. The client is alive while its own method
  runs.\<close>

definition get_slicelist ::
  "mw \<Rightarrow> (byte list \<rightharpoonup> slice_list) \<Rightarrow> byte list \<Rightarrow> int \<Rightarrow> (int + slice_list) \<times> (byte list \<rightharpoonup> slice_list)"
where
  "get_slicelist m topics topic slicenum =
     (if topic = [] \<or> slicenum \<le> 0 then (Inl (-1), topics)
      else case topics topic of
        Some sl \<Rightarrow> (Inr sl, topics)
      | None \<Rightarrow>
          (case listinit (Some m) slice_list_new topic slicenum of
             (ret, sl) \<Rightarrow> if ret \<noteq> 0 then (Inl ret, topics) else (Inr sl, topics(topic \<mapsto> sl))))"

definition slicelist_rpush ::
  "'s server \<Rightarrow> mw \<Rightarrow> (byte list \<rightharpoonup> slice_list) \<Rightarrow> byte list \<Rightarrow> int \<Rightarrow> byte list \<Rightarrow> 's \<Rightarrow>
   (int \<times> nat option) \<times> (byte list \<rightharpoonup> slice_list) \<times> 's"
where
  "slicelist_rpush srv m topics topic slicenum buf s =
     (case get_slicelist m topics topic slicenum of
        (Inl ret, topics) \<Rightarrow> ((ret, None), topics, s)
      | (Inr sl, topics) \<Rightarrow>
          (case listrpush srv (Some m) sl buf s of (r, sl, s) \<Rightarrow> (r, topics(topic \<mapsto> sl), s)))"

definition slicelist_lpop ::
  "'s server \<Rightarrow> mw \<Rightarrow> (byte list \<rightharpoonup> slice_list) \<Rightarrow> byte list \<Rightarrow> int \<Rightarrow> 's \<Rightarrow>
   ((int \<times> byte list option \<times> nat option) \<times> (byte list \<rightharpoonup> slice_list) \<times> 's) option"
where
  "slicelist_lpop srv m topics topic slicenum s =
     (case get_slicelist m topics topic slicenum of
        (Inl ret, topics) \<Rightarrow> Some ((ret, None, None), topics, s)
      | (Inr sl, topics) \<Rightarrow>
          map_option (\<lambda>(r, sl, s). (r, topics(topic \<mapsto> sl), s)) (listlpop srv (Some m) sl s))"

definition slicelist_batchlpop ::
  "'s server \<Rightarrow> mw \<Rightarrow> (byte list \<rightharpoonup> slice_list) \<Rightarrow> byte list \<Rightarrow> int \<Rightarrow> int \<Rightarrow> byte list list \<Rightarrow> 's \<Rightarrow>
   ((int \<times> byte list list \<times> nat option) \<times> (byte list \<rightharpoonup> slice_list) \<times> 's) option"
where
  "slicelist_batchlpop srv m topics topic slicenum batchsize buflist s =
     (case get_slicelist m topics topic slicenum of
        (Inl ret, topics) \<Rightarrow> Some ((ret, buflist, None), topics, s)
      | (Inr sl, topics) \<Rightarrow>
          map_option (\<lambda>(r, sl, s). (r, topics(topic \<mapsto> sl), s)) (listbatchlpop srv (Some m) sl batchsize buflist s))"

definition slicelist_totallen ::
  "'s server \<Rightarrow> mw \<Rightarrow> (byte list \<rightharpoonup> slice_list) \<Rightarrow> byte list \<Rightarrow> int \<Rightarrow> 's \<Rightarrow>
   int \<times> (byte list \<rightharpoonup> slice_list) \<times> 's"
where
  "slicelist_totallen srv m topics topic slicenum s =
     (case get_slicelist m topics topic slicenum of
        (Inl ret, topics) \<Rightarrow> (ret, topics, s)
      | (Inr sl, topics) \<Rightarrow> (case list_totallen srv (Some m) sl s of (r, s) \<Rightarrow> (r, topics, s)))"

definition slicelist_len ::
  "'s server \<Rightarrow> mw \<Rightarrow> (byte list \<rightharpoonup> slice_list) \<Rightarrow> byte list \<Rightarrow> int \<Rightarrow> u32 \<Rightarrow> 's \<Rightarrow>
   int \<times> (byte list \<rightharpoonup> slice_list) \<times> 's"
where
  "slicelist_len srv m topics topic slicenum slotindex s =
     (case get_slicelist m topics topic slicenum of
        (Inl ret, topics) \<Rightarrow> (ret, topics, s)
      | (Inr sl, topics) \<Rightarrow> (case list_len srv (Some m) sl slotindex s of (r, s) \<Rightarrow> (r, topics, s)))"

definition slicelist_lrange ::
  "'s server \<Rightarrow> mw \<Rightarrow> (byte list \<rightharpoonup> slice_list) \<Rightarrow> byte list \<Rightarrow> int \<Rightarrow> u32 \<Rightarrow> u32 \<Rightarrow> byte list list \<Rightarrow> 's \<Rightarrow>
   (int \<times> byte list list) \<times> (byte list \<rightharpoonup> slice_list) \<times> 's"
where
  "slicelist_lrange srv m topics topic slicenum start stop result s =
     (case get_slicelist m topics topic slicenum of
        (Inl ret, topics) \<Rightarrow> ((ret, result), topics, s)
      | (Inr sl, topics) \<Rightarrow>
          (case list_lrange srv (Some m) sl start stop result s of (r, s) \<Rightarrow> (r, topics, s)))"

section \<open>The keys\<close>

lemma dec_of_nat_inj: "dec_of_nat i = dec_of_nat j \<longleftrightarrow> i = j"
  by (metis dec_value_of_nat)

lemma slice_key_inj: "slice_key t i = slice_key t j \<longleftrightarrow> i = j"
  by (simp add: slice_key_def dec_of_nat_inj)

lemma c_string_key: "c_string t \<Longrightarrow> c_string (slice_key t i)"
  using dec_not_in [of 0 i] by (auto simp: c_string_def slice_key_def isdigit_def word_le_nat_alt)

lemma cstr_of_key: "c_string t \<Longrightarrow> cstr_of (slice_key t i) = slice_key t i"
  by (simp add: cstr_of_id c_string_key)

lemma length_key: "i < 2 ^ 32 \<Longrightarrow> length (slice_key t i) \<le> length t + 11"
  using dec_length [of i 9] by (simp add: slice_key_def)

lemma slices_bound: "slices sl < 2 ^ 32"
  unfolding slices_def using unsigned_less [of "sl_num sl"] by simp

section \<open>A pop on the slices\<close>

fun pop_first :: "nat list \<Rightarrow> (nat \<Rightarrow> byte list list) \<Rightarrow> (byte list \<times> nat) option \<times> (nat \<Rightarrow> byte list list)" where
  "pop_first [] q = (None, q)"
| "pop_first (i # is) q =
     (case q i of
        [] \<Rightarrow> pop_first is q
      | x # xs \<Rightarrow> if x \<noteq> [] then (Some (x, i), q(i := xs)) else pop_first is (q(i := xs)))"

definition probes :: "nat \<Rightarrow> nat \<Rightarrow> nat \<Rightarrow> nat list" where
  "probes num start k = map (\<lambda>j. (start + j) mod num) [Suc k..<Suc num]"

definition slice_view :: "('s \<Rightarrow> byte list \<Rightarrow> byte list list) \<Rightarrow> byte list \<Rightarrow> 's \<Rightarrow> nat \<Rightarrow> byte list list" where
  "slice_view view topic s = (\<lambda>i. view s (slice_key topic i))"

lemma probes_Cons:
  "k < num \<Longrightarrow> probes num start k = (start + Suc k) mod num # probes num start (Suc k)"
  unfolding probes_def by (subst upt_conv_Cons) auto

lemma probes_Nil [simp]: "probes num start num = []"
  by (simp add: probes_def)

lemma set_probes:
  assumes "start < num"
  shows "set (probes num start 0) = {..<num}"
proof -
  have "i \<in> set (probes num start 0)" if i: "i < num" for i
  proof -
    let ?j = "if start < i then i - start else i + num - start"
    have "(start + ?j) mod num = i" using i assms by (cases "start < i") simp_all
    moreover have "?j \<in> {Suc 0..<Suc num}" using i assms by auto
    ultimately show ?thesis unfolding probes_def set_map set_upt by (intro image_eqI [of _ _ ?j]) simp_all
  qed
  moreover have "set (probes num start 0) \<subseteq> {..<num}" using assms by (auto simp: probes_def)
  ultimately show ?thesis by auto
qed

lemma slice_view_upd:
  "view s' = (view s)(slice_key t i := xs) \<Longrightarrow> slice_view view t s' = (slice_view view t s)(i := xs)"
  by (auto simp: slice_view_def slice_key_inj)

text \<open>What \<open>listlpop\<close> gives for it.\<close>

definition pop_result :: "(byte list \<times> nat) option \<Rightarrow> int \<times> byte list option \<times> nat option" where
  "pop_result r = (case r of None \<Rightarrow> (0, Some [], None) | Some (x, i) \<Rightarrow> (int (length x), Some x, Some i))"

lemma lpop_loop_pop_first:
  assumes srv: "list_server srv view" and m: "mw_inited m" and t: "c_string t" "length t + 11 < 2 ^ 31"
    and num: "num < 2 ^ 32" "start < num"
  shows "k < num \<Longrightarrow> num - k \<le> fuel \<Longrightarrow> \<exists>s'.
    lpop_loop fuel srv m t num start ((start + k) mod num) buf s =
      Some (pop_result (fst (pop_first (probes num start k) (slice_view view t s))), s') \<and>
    slice_view view t s' = snd (pop_first (probes num start k) (slice_view view t s))"
proof (induction fuel arbitrary: k buf s)
  case 0
  then show ?case by simp
next
  case (Suc fuel)
  let ?i = "(start + Suc k) mod num"
  have i: "?i < num" using num by simp
  have idx: "((start + k) mod num + 1) mod num = ?i" by (simp add: mod_Suc_eq)
  have len: "length (slice_key t ?i) < 2 ^ 31"
    using length_key [of ?i t] i num t by linarith
  obtain ret out s1 where p: "mw_lpop srv m (slice_key t ?i) s = ((ret, out), s1)" by (metis surj_pair)
  from mw_lpop_server [OF srv len m, of s] p
  have r: "(ret, out) = (case slice_view view t s ?i of [] \<Rightarrow> (0, Some []) | x # _ \<Rightarrow> (int (length x), Some x))"
    and v: "slice_view view t s1 = (slice_view view t s)(?i := tl (slice_view view t s ?i))"
    by (auto simp: slice_view_def slice_key_inj fun_eq_iff)
  have step: "lpop_loop (Suc fuel) srv m t num start ((start + k) mod num) buf s =
      (let buf = (case out of None \<Rightarrow> buf | Some b \<Rightarrow> Some b) in
       if ret > 0 then Some ((ret, buf, Some ?i), s1)
       else if ret < 0 then Some ((ret, buf, None), s1)
       else if ?i = start then Some ((0, buf, None), s1)
       else lpop_loop fuel srv m t num start ?i buf s1)"
    by (simp only: lpop_loop.simps Let_def idx cstr_of_key [OF t(1)] p prod.case)
  have last: "?i = start \<longleftrightarrow> Suc k = num"
  proof (cases "start + Suc k < num")
    case True
    then show ?thesis by auto
  next
    case False
    then have "?i = start + Suc k - num"
      using Suc.prems(1) num by (simp add: mod_if) 
    then show ?thesis using Suc.prems(1) num False by auto
  qed
  show ?case
  proof (cases "Suc k = num")
    case True
    then show ?thesis unfolding step probes_Cons [OF Suc.prems(1)] using r v last
      by (auto simp: pop_result_def split: list.splits)
  next
    case False
    then have k: "Suc k < num" "num - Suc k \<le> fuel" using Suc.prems by auto
    let ?r = "pop_first (probes num start (Suc k)) (slice_view view t s1)"
    obtain s' where IH: "lpop_loop fuel srv m t num start ?i (Some []) s1 = Some (pop_result (fst ?r), s')"
      "slice_view view t s' = snd ?r"
      using Suc.IH [OF k, of "Some []" s1] by auto
    show ?thesis
    proof (cases "slice_view view t s ?i")
      case Nil
      then have "slice_view view t s1 = slice_view view t s"
        by (simp only: v fun_upd_idem list.sel)
      with IH Nil r last False show ?thesis
        unfolding step probes_Cons [OF Suc.prems(1)] pop_first.simps by simp
    next
      case (Cons x xs)
      then have "slice_view view t s1 = (slice_view view t s)(?i := xs)"
        by (simp only: v list.sel)
      with IH Cons r last False show ?thesis
        unfolding step probes_Cons [OF Suc.prems(1)] pop_first.simps
        by (cases "x = []") (simp_all add: pop_result_def fun_upd_def)
    qed
  qed
qed


section \<open>The operations on a server that keeps its promises\<close>

definition slice_ready ::
  "'s server \<Rightarrow> ('s \<Rightarrow> byte list \<Rightarrow> byte list list) \<Rightarrow> mw \<Rightarrow> slice_list \<Rightarrow> bool"
where
  "slice_ready srv view m sl \<longleftrightarrow> list_server srv view \<and> mw_inited m \<and> sl_topic sl \<noteq> [] \<and>
     c_string (sl_topic sl) \<and> length (sl_topic sl) + 11 < 2 ^ 31 \<and> slices sl > 0"

lemma slice_ready_upd [simp]:
  "slice_ready srv view m (sl\<lparr>sl_push := a\<rparr>) = slice_ready srv view m sl"
  "slice_ready srv view m (sl\<lparr>sl_pop := a\<rparr>) = slice_ready srv view m sl"
  by (simp_all add: slice_ready_def slices_def)

lemma slices_upd [simp]: "slices (sl\<lparr>sl_push := a\<rparr>) = slices sl" "slices (sl\<lparr>sl_pop := a\<rparr>) = slices sl"
  by (simp_all add: slices_def)

definition next_pop :: "slice_list \<Rightarrow> nat" where
  "next_pop sl = unat (sl_pop sl) mod slices sl"

definition next_push :: "slice_list \<Rightarrow> nat" where
  "next_push sl = unat (sl_push sl) mod slices sl"

lemma listlpop_pop_first:
  assumes "slice_ready srv view m sl"
  shows "\<exists>s'. listlpop srv (Some m) sl s =
      Some (pop_result (fst (pop_first (probes (slices sl) (next_pop sl) 0) (slice_view view (sl_topic sl) s))),
        sl\<lparr>sl_pop := sl_pop sl + 1\<rparr>, s') \<and>
    slice_view view (sl_topic sl) s' =
      snd (pop_first (probes (slices sl) (next_pop sl) 0) (slice_view view (sl_topic sl) s))"
proof -
  from assms have ready: "list_server srv view" "mw_inited m" "c_string (sl_topic sl)"
    "length (sl_topic sl) + 11 < 2 ^ 31" "slices sl > 0" "sl_topic sl \<noteq> []"
    by (auto simp: slice_ready_def)
  have "next_pop sl < slices sl" using ready by (simp add: next_pop_def)
  from lpop_loop_pop_first [OF ready(1-4) slices_bound this, of 0 "slices sl" None s] ready
  show ?thesis by (auto simp: listlpop_def next_pop_def)
qed

lemma listrpush_server:
  assumes "slice_ready srv view m sl" "buf \<noteq> []" "length buf < 2 ^ 31"
    "length (slice_view view (sl_topic sl) s (next_push sl)) + 1 < 2 ^ 31"
  shows "\<exists>s'. listrpush srv (Some m) sl buf s =
      ((int (length (slice_view view (sl_topic sl) s (next_push sl)) + 1), Some (next_push sl)),
       sl\<lparr>sl_push := sl_push sl + 1\<rparr>, s') \<and>
    slice_view view (sl_topic sl) s' = (slice_view view (sl_topic sl) s)
      (next_push sl := slice_view view (sl_topic sl) s (next_push sl) @ [buf])"
proof -
  let ?k = "slice_key (sl_topic sl) (next_push sl)"
  from assms(1) have ready: "list_server srv view" "mw_inited m" "c_string (sl_topic sl)"
    "length (sl_topic sl) + 11 < 2 ^ 31" "slices sl > 0" "sl_topic sl \<noteq> []"
    by (auto simp: slice_ready_def)
  have "next_push sl < 2 ^ 32"
    using ready slices_bound [of sl] by (simp add: next_push_def) (meson less_trans mod_less_divisor)
  from length_key [OF this, of "sl_topic sl"] ready have "length ?k < 2 ^ 31" by simp
  with assms(3) have "small_args (lit ''RPUSH'' # ?k # [buf])" by (simp add: small_args_def lit_def)
  from mw_rpush_server [OF ready(1) this _ _ ready(2), of s] assms(4)
  have "fst (mw_rpush srv m ?k [buf] s) = int (length (view s ?k) + 1)"
    "view (snd (mw_rpush srv m ?k [buf] s)) = (view s)(?k := view s ?k @ [buf])"
    by (simp_all add: slice_view_def)
  moreover have "listrpush srv (Some m) sl buf s = ((fst (mw_rpush srv m ?k [buf] s), Some (next_push sl)),
      sl\<lparr>sl_push := sl_push sl + 1\<rparr>, snd (mw_rpush srv m ?k [buf] s))"
    using assms(2) ready
    by (simp add: listrpush_def push_next_def next_push_def cstr_of_key Let_def split_beta)
  ultimately show ?thesis
    by (simp only: slice_view_def) (auto simp: slice_key_inj fun_eq_iff)
qed

text \<open>What \<open>pop_first\<close> does when no element is the empty string.\<close>

lemma pop_first_none:
  assumes "\<forall>i \<in> set is. q i = []"
  shows "pop_first is q = (None, q)"
  using assms by (induction "is") auto

lemma pop_first_some:
  assumes "i \<in> set is" "q i \<noteq> []" "\<forall>i. [] \<notin> set (q i)"
  obtains pre k post x xs where "is = pre @ k # post" "\<forall>j \<in> set pre. q j = []" "q k = x # xs"
    "pop_first is q = (Some (x, k), q(k := xs))"
proof -
  obtain pre k post where is': "is = pre @ k # post" and k: "q k \<noteq> []" and pre: "\<forall>j \<in> set pre. q j = []"
    using split_list_first_prop [of "is" "\<lambda>j. q j \<noteq> []"] assms(1,2) by blast
  obtain x xs where x: "q k = x # xs" using k by (cases "q k") auto
  with assms(3) have "x \<noteq> []" by (metis list.set_intros(1))
  with x have hd: "pop_first (k # post) q = (Some (x, k), q(k := xs))" by simp
  have "pop_first (pre @ k # post) q = pop_first (k # post) q"
    using pre by (induction pre) simp_all
  with is' pre x hd that show thesis by simp
qed

section \<open>Sequences of pushes and pops\<close>

text \<open>A caller pushes non-empty strings and pops; \<open>slice_run\<close> collects what happened.\<close>

datatype slice_event = Pushed nat "byte list" | Popped nat "byte list" | Found_empty

inductive slice_run ::
  "'s server \<Rightarrow> mw \<Rightarrow> slice_list \<times> 's \<Rightarrow> slice_event list \<Rightarrow> slice_list \<times> 's \<Rightarrow> bool"
  for srv m c
where
  slice_run_start: "slice_run srv m c [] c"
| slice_run_push: "slice_run srv m c es (sl, s) \<Longrightarrow> x \<noteq> [] \<Longrightarrow> length x < 2 ^ 31 \<Longrightarrow>
    listrpush srv (Some m) sl x s = ((ret, Some i), sl', s') \<Longrightarrow> ret > 0 \<Longrightarrow>
    slice_run srv m c (es @ [Pushed i x]) (sl', s')"
| slice_run_pop: "slice_run srv m c es (sl, s) \<Longrightarrow>
    listlpop srv (Some m) sl s = Some ((ret, Some x, Some i), sl', s') \<Longrightarrow> ret > 0 \<Longrightarrow>
    slice_run srv m c (es @ [Popped i x]) (sl', s')"
| slice_run_empty: "slice_run srv m c es (sl, s) \<Longrightarrow>
    listlpop srv (Some m) sl s = Some ((0, out, None), sl', s') \<Longrightarrow>
    slice_run srv m c (es @ [Found_empty]) (sl', s')"

fun pushed :: "nat \<Rightarrow> slice_event list \<Rightarrow> byte list list" where
  "pushed i [] = []"
| "pushed i (Pushed j x # es) = (if i = j then x # pushed i es else pushed i es)"
| "pushed i (e # es) = pushed i es"

fun popped :: "nat \<Rightarrow> slice_event list \<Rightarrow> byte list list" where
  "popped i [] = []"
| "popped i (Popped j x # es) = (if i = j then x # popped i es else popped i es)"
| "popped i (e # es) = popped i es"

fun push_slices :: "slice_event list \<Rightarrow> nat list" where
  "push_slices [] = []"
| "push_slices (Pushed i x # es) = i # push_slices es"
| "push_slices (e # es) = push_slices es"

lemma pushed_append [simp]: "pushed i (es @ fs) = pushed i es @ pushed i fs"
  by (induction i es rule: pushed.induct) auto

lemma popped_append [simp]: "popped i (es @ fs) = popped i es @ popped i fs"
  by (induction i es rule: popped.induct) auto

lemma push_slices_append [simp]: "push_slices (es @ fs) = push_slices es @ push_slices fs"
  by (induction es rule: push_slices.induct) auto

definition slice_fifo ::
  "('s \<Rightarrow> byte list \<Rightarrow> byte list list) \<Rightarrow> slice_list \<times> 's \<Rightarrow> slice_event list \<Rightarrow> slice_list \<times> 's \<Rightarrow> bool"
where
  "slice_fifo view c es c' \<longleftrightarrow>
     sl_topic (fst c') = sl_topic (fst c) \<and> sl_num (fst c') = sl_num (fst c) \<and>
     (\<forall>i. slice_view view (sl_topic (fst c)) (snd c) i @ pushed i es =
          popped i es @ slice_view view (sl_topic (fst c)) (snd c') i \<and>
          [] \<notin> set (slice_view view (sl_topic (fst c)) (snd c') i) \<and>
          length (slice_view view (sl_topic (fst c)) (snd c') i) \<le>
            length (slice_view view (sl_topic (fst c)) (snd c) i) + length es)"

lemma slice_ready_cong:
  "sl_topic a = sl_topic b \<Longrightarrow> sl_num a = sl_num b \<Longrightarrow> slice_ready srv view m a = slice_ready srv view m b"
  by (simp add: slice_ready_def slices_def)

lemma run_shorter: "\<forall>i. f i + length (es @ [e]) < n \<Longrightarrow> \<forall>i. f i + length es < (n::nat)"
  by (simp add: Suc_lessD)

lemma slice_run_fifo:
  assumes "slice_run srv m c es c'"
    and "slice_ready srv view m (fst c)"
    and "\<forall>i. [] \<notin> set (slice_view view (sl_topic (fst c)) (snd c) i)"
    and "\<forall>i. length (slice_view view (sl_topic (fst c)) (snd c) i) + length es < 2 ^ 31"
  shows "slice_fifo view c es c'"
  using assms
proof (induction rule: slice_run.induct)
  case slice_run_start
  then show ?case by (simp add: slice_fifo_def)
next
  case (slice_run_push es sl s x ret i sl' s')
  let ?q = "slice_view view (sl_topic (fst c))"
  have fifo: "slice_fifo view c es (sl, s)" 
    using slice_run_push.IH [OF slice_run_push.prems(1,2) run_shorter [OF slice_run_push.prems(3)]] .
  then have same: "sl_topic sl = sl_topic (fst c)" "sl_num sl = sl_num (fst c)"
    by (simp_all add: slice_fifo_def)
  have ready: "slice_ready srv view m sl"
    using slice_run_push.prems(1) by (simp only: slice_ready_cong [OF same])
  have "length (?q s (next_push sl)) + 1 < 2 ^ 31"
    using fifo slice_run_push.prems(3) [rule_format, of "next_push sl"]
    by (auto simp: slice_fifo_def intro: le_less_trans)
  from listrpush_server [OF ready slice_run_push.hyps(2,3), unfolded same, OF this]
  have "i = next_push sl" "sl' = sl\<lparr>sl_push := sl_push sl + 1\<rparr>" "?q s' = (?q s)(i := ?q s i @ [x])"
    using slice_run_push.hyps(4) by auto
  with fifo slice_run_push.hyps(2) show ?case by (auto simp: slice_fifo_def intro: le_SucI)
next
  case (slice_run_pop es sl s ret x i sl' s')
  let ?q = "slice_view view (sl_topic (fst c))"
  have fifo: "slice_fifo view c es (sl, s)" 
    using slice_run_pop.IH [OF slice_run_pop.prems(1,2) run_shorter [OF slice_run_pop.prems(3)]] .
  then have same: "sl_topic sl = sl_topic (fst c)" "sl_num sl = sl_num (fst c)" and ne: "\<forall>i. [] \<notin> set (?q s i)"
    by (simp_all add: slice_fifo_def)
  have ready: "slice_ready srv view m sl"
    using slice_run_pop.prems(1) by (simp only: slice_ready_cong [OF same])
  let ?ps = "probes (slices sl) (next_pop sl) 0"
  from listlpop_pop_first [OF ready, of s, unfolded same] slice_run_pop.hyps(2)
  have r: "(ret, Some x, Some i) = pop_result (fst (pop_first ?ps (?q s)))" "sl' = sl\<lparr>sl_pop := sl_pop sl + 1\<rparr>"
    "?q s' = snd (pop_first ?ps (?q s))" by auto
  have "\<not> (\<forall>j \<in> set ?ps. ?q s j = [])"
  proof
    assume "\<forall>j \<in> set ?ps. ?q s j = []"
    from pop_first_none [OF this] r(1) show False by (simp add: pop_result_def)
  qed
  then obtain j where "j \<in> set ?ps" "?q s j \<noteq> []" by blast
  then obtain pre k post y ys where "?q s k = y # ys" "pop_first ?ps (?q s) = (Some (y, k), (?q s)(k := ys))"
    using pop_first_some [OF _ _ ne] by metis
  with r have qi: "?q s i = x # ys" and q': "?q s' = (?q s)(i := ys)" by (auto simp: pop_result_def)
  have "[] \<notin> set ys" using ne qi by (metis list.set_intros(2))
  moreover have "length (?q s i) \<le> length (?q (snd c) i) + length es"
    using fifo by (simp add: slice_fifo_def)
  ultimately show ?case using fifo r(2) qi q' by (auto simp: slice_fifo_def intro: le_SucI)
next
  case (slice_run_empty es sl s out sl' s')
  let ?q = "slice_view view (sl_topic (fst c))"
  have fifo: "slice_fifo view c es (sl, s)" 
    using slice_run_empty.IH [OF slice_run_empty.prems(1,2) run_shorter [OF slice_run_empty.prems(3)]] .
  then have same: "sl_topic sl = sl_topic (fst c)" "sl_num sl = sl_num (fst c)" and ne: "\<forall>i. [] \<notin> set (?q s i)"
    by (simp_all add: slice_fifo_def)
  have ready: "slice_ready srv view m sl"
    using slice_run_empty.prems(1) by (simp only: slice_ready_cong [OF same])
  let ?ps = "probes (slices sl) (next_pop sl) 0"
  from listlpop_pop_first [OF ready, of s, unfolded same] slice_run_empty.hyps(2)
  have r: "(0, out, None) = pop_result (fst (pop_first ?ps (?q s)))" "sl' = sl\<lparr>sl_pop := sl_pop sl + 1\<rparr>"
    "?q s' = snd (pop_first ?ps (?q s))" by auto
  have "\<forall>j \<in> set ?ps. ?q s j = []"
  proof (rule ballI, rule ccontr)
    fix j assume "j \<in> set ?ps" "?q s j \<noteq> []"
    then obtain k y ys where "pop_first ?ps (?q s) = (Some (y, k), (?q s)(k := ys))"
      using pop_first_some [OF _ _ ne] by metis
    with r(1) show False by (simp add: pop_result_def)
  qed
  from pop_first_none [OF this] r(3) have "?q s' = ?q s" by simp
  with fifo r(2) show ?case by (auto simp: slice_fifo_def intro: le_SucI)
qed

lemma slice_run_turns:
  assumes "slice_run srv m c es c'" "slice_ready srv view m (fst c)"
    and "unat (sl_push (fst c)) + length es < 2 ^ 64"
  shows "sl_num (fst c') = sl_num (fst c) \<and>
    unat (sl_push (fst c')) = unat (sl_push (fst c)) + length (push_slices es) \<and>
    push_slices es = map (\<lambda>k. (unat (sl_push (fst c)) + k) mod slices (fst c)) [0..<length (push_slices es)] \<and>
    length (push_slices es) \<le> length es"
  using assms
proof (induction rule: slice_run.induct)
  case (slice_run_push es sl s x ret i sl' s')
  from slice_run_push.hyps(4) have i: "i = next_push sl" "sl' = sl\<lparr>sl_push := sl_push sl + 1\<rparr>"
    by (auto simp: listrpush_def push_next_def next_push_def Let_def split: if_splits prod.splits)
  let ?n = "length (push_slices es)"
  have IH: "sl_num sl = sl_num (fst c)" "unat (sl_push sl) = unat (sl_push (fst c)) + ?n"
    "push_slices es = map (\<lambda>k. (unat (sl_push (fst c)) + k) mod slices (fst c)) [0..<?n]" "?n \<le> length es"
    using slice_run_push.IH slice_run_push.prems by auto
  have "unat (sl_push sl + 1) = unat (sl_push sl) + 1"
    using IH slice_run_push.prems(2) by (subst unat_word_ariths) simp
  with IH i show ?case by (simp add: next_push_def slices_def)
qed (auto simp: listlpop_def Let_def split: if_splits)

section \<open>Properties\<close>

text \<open>C2: \<open>listlpop\<close> returns, whatever the slices hold. When all are empty it gives 0 and
  changes nothing but its counter; otherwise it takes the first element of the first slice
  that is not empty, in the order that starts behind the counter and goes round all slices
  once, and leaves the other slices alone. No element is the empty string.\<close>

theorem slicelist_pop:
  assumes "slice_ready srv view m sl"
    and "\<forall>i. [] \<notin> set (slice_view view (sl_topic sl) s i)"
  defines "q \<equiv> slice_view view (sl_topic sl)"
  shows "\<exists>r s'. listlpop srv (Some m) sl s = Some (r, sl\<lparr>sl_pop := sl_pop sl + 1\<rparr>, s') \<and>
    ((\<forall>i < slices sl. q s i = []) \<and> r = (0, Some [], None) \<and> q s' = q s \<or>
     (\<exists>d x xs. let i = (next_pop sl + d) mod slices sl in
        0 < d \<and> d \<le> slices sl \<and> q s i = x # xs \<and>
        (\<forall>e. 0 < e \<and> e < d \<longrightarrow> q s ((next_pop sl + e) mod slices sl) = []) \<and>
        r = (int (length x), Some x, Some i) \<and> q s' = (q s)(i := xs)))"
proof -
  let ?n = "slices sl" and ?ps = "probes (slices sl) (next_pop sl) 0"
  have n: "next_pop sl < ?n" using assms(1) by (simp add: slice_ready_def next_pop_def)
  obtain s' where s': "listlpop srv (Some m) sl s =
      Some (pop_result (fst (pop_first ?ps (q s))), sl\<lparr>sl_pop := sl_pop sl + 1\<rparr>, s')"
    "q s' = snd (pop_first ?ps (q s))"
    using listlpop_pop_first [OF assms(1), of s] unfolding q_def by blast
  show ?thesis
  proof (cases "\<forall>i \<in> set ?ps. q s i = []")
    case True
    with s' pop_first_none [OF True] set_probes [OF n] show ?thesis
      by (auto simp: pop_result_def)
  next
    case False
    then obtain j where "j \<in> set ?ps" "q s j \<noteq> []" by blast
    then obtain pre k post x xs where ps: "?ps = pre @ k # post" and pre: "\<forall>j \<in> set pre. q s j = []"
      and k: "q s k = x # xs" "pop_first ?ps (q s) = (Some (x, k), (q s)(k := xs))"
      using pop_first_some [of j ?ps "q s"] assms(2) unfolding q_def by metis
    have at: "?ps ! e = (next_pop sl + Suc e) mod ?n" if "e < ?n" for e
      using that by (simp add: probes_def del: upt_Suc)
    have len: "length pre < ?n" using arg_cong [OF ps, of length] by (simp add: probes_def del: upt_Suc)
    have kd: "k = (next_pop sl + Suc (length pre)) mod ?n"
      using at [OF len] ps by simp
    have "q s ((next_pop sl + e) mod ?n) = []" if "0 < e" "e < Suc (length pre)" for e
    proof -
      have lt: "e - 1 < length pre" using that by simp
      then have "pre ! (e - 1) = ?ps ! (e - 1)" by (simp add: ps nth_append)
      also have "\<dots> = (next_pop sl + e) mod ?n" using at [of "e - 1"] lt len that by simp
      finally show ?thesis using pre nth_mem [OF lt] by simp
    qed
    with s' k kd len show ?thesis
      by (intro exI [of _ "pop_result (Some (x, k))"] exI [of _ s'] conjI disjI2
          exI [of _ "Suc (length pre)"] exI [of _ x] exI [of _ xs])
        (simp_all add: pop_result_def Let_def)
  qed
qed

definition demo_client :: mw where
  "demo_client = mw_new\<lparr>mw_inited := True\<rparr>"

definition demo_slices :: slice_list where
  "demo_slices = \<lparr>sl_topic = lit ''q'', sl_num = 3, sl_push = 0, sl_pop = 0\<rparr>"

lemma demo_ready: "slice_ready demo_server id demo_client demo_slices"
  using demo_list_server
  by (simp add: slice_ready_def demo_client_def demo_slices_def slices_def lit_def c_string_def)

lemma slicelist_pop_witness:
  "\<exists>s'. listlpop demo_server (Some demo_client) demo_slices ((\<lambda>k. [])(slice_key (lit ''q'') 0 := [lit ''x''])) =
     Some ((1, Some (lit ''x''), Some 0), demo_slices\<lparr>sl_pop := 1\<rparr>, s')"
proof -
  let ?s = "(\<lambda>k. [])(slice_key (lit ''q'') 0 := [lit ''x''])"
  have q: "slice_view id (sl_topic demo_slices) ?s = (\<lambda>i. [])(0 := [lit ''x''])"
    by (auto simp: slice_view_def demo_slices_def slice_key_inj fun_eq_iff)
  have n: "slices demo_slices = 3" "next_pop demo_slices = 0"
    by (simp_all add: demo_slices_def slices_def next_pop_def)
  obtain r s' where l: "listlpop demo_server (Some demo_client) demo_slices ?s =
      Some (r, demo_slices\<lparr>sl_pop := sl_pop demo_slices + 1\<rparr>, s')"
    and "\<exists>d x xs. let i = d mod 3 in 0 < d \<and> d \<le> 3 \<and> ((\<lambda>i. [])(0 := [lit ''x''])) i = x # xs \<and>
        r = (int (length x), Some x, Some i)"
    using slicelist_pop [OF demo_ready, of ?s] unfolding q n by (fastforce simp: lit_def Let_def)
  then have "r = (1, Some (lit ''x''), Some 0)"
    by (auto simp: Let_def lit_def split: if_splits)
  with l show ?thesis by (auto simp: demo_slices_def)
qed

text \<open>C1: Along any sequence of non-empty pushes and pops each slice is a queue: what it held
  at first and what was pushed to it is what was popped from it and what it holds now, in this
  order. So the elements of the whole list are neither lost nor doubled, and those of one slice
  come out in the order they went in.\<close>

theorem slicelist_fifo:
  assumes "slice_run srv m (sl, s) es (sl', s')" "slice_ready srv view m sl"
    and "\<forall>i. [] \<notin> set (slice_view view (sl_topic sl) s i)"
    and "\<forall>i. length (slice_view view (sl_topic sl) s i) + length es < 2 ^ 31"
  shows "slice_view view (sl_topic sl) s i @ pushed i es = popped i es @ slice_view view (sl_topic sl) s' i"
  using slice_run_fifo [OF assms(1), of view] assms(2-4) by (auto simp: slice_fifo_def)

lemma demo_push:
  "listrpush demo_server (Some demo_client) demo_slices (lit ''x'') (\<lambda>k. []) =
   ((1, Some 0), demo_slices\<lparr>sl_push := 1\<rparr>, (\<lambda>k. [])(slice_key (lit ''q'') 0 := [lit ''x'']))"
proof -
  obtain s' where s': "listrpush demo_server (Some demo_client) demo_slices (lit ''x'') (\<lambda>k. []) =
      ((1, Some 0), demo_slices\<lparr>sl_push := 1\<rparr>, s')"
    using listrpush_server [OF demo_ready, of "lit ''x''" "\<lambda>k. []"]
    by (auto simp: slice_view_def next_push_def demo_slices_def lit_def)
  have k: "cstr_of (slice_key (lit ''q'') 0) = slice_key (lit ''q'') 0"
    by (rule cstr_of_key) (simp add: c_string_def lit_def)
  have "small_args (lit ''RPUSH'' # slice_key (lit ''q'') 0 # [lit ''x''])"
    using length_key [of 0 "lit ''q''"] by (simp add: small_args_def lit_def)
  from demo_run [OF this, of "\<lambda>k. []"] s' k show ?thesis
    by (auto simp: listrpush_def push_next_def mw_rpush_def rpush_def run_with_def build_names_def build_head_def
        demo_slices_def demo_client_def mw_new_def slices_def lit_def Let_def)
qed

lemma slicelist_fifo_witness:
  "slice_run demo_server demo_client (demo_slices, \<lambda>k. []) [Pushed 0 (lit ''x'')]
     (demo_slices\<lparr>sl_push := 1\<rparr>, (\<lambda>k. [])(slice_key (lit ''q'') 0 := [lit ''x''])) \<and>
   slice_view id (lit ''q'') ((\<lambda>k. [])(slice_key (lit ''q'') 0 := [lit ''x''])) 0 = [lit ''x'']"
proof -
  have run: "slice_run demo_server demo_client (demo_slices, \<lambda>k. []) ([] @ [Pushed 0 (lit ''x'')])
     (demo_slices\<lparr>sl_push := 1\<rparr>, (\<lambda>k. [])(slice_key (lit ''q'') 0 := [lit ''x'']))"
    by (rule slice_run_push [OF slice_run_start _ _ demo_push]) (simp_all add: lit_def)
  from slicelist_fifo [OF this demo_ready, of 0] run show ?thesis
    by (simp add: slice_view_def demo_slices_def)
qed

text \<open>The pushes of such a sequence go to the slices in turn: the k-th of them goes to slice
  \<open>(m_last_push_index + k) mod slicenum\<close>, as long as the 64-bit counter does not wrap around.\<close>

theorem slicelist_push_turns:
  assumes "slice_run srv m (sl, s) es (sl', s')" "slice_ready srv view m sl"
    and "unat (sl_push sl) + length es < 2 ^ 64"
  shows "push_slices es = map (\<lambda>k. (unat (sl_push sl) + k) mod slices sl) [0..<length (push_slices es)]"
  using slice_run_turns [OF assms(1), of view] assms(2,3) by simp

lemma slicelist_push_turns_witness: "push_slices [Pushed 0 (lit ''x'')] = [0]"
proof -
  have "slice_run demo_server demo_client (demo_slices, \<lambda>k. []) ([] @ [Pushed 0 (lit ''x'')])
     (demo_slices\<lparr>sl_push := 1\<rparr>, (\<lambda>k. [])(slice_key (lit ''q'') 0 := [lit ''x'']))"
    by (rule slice_run_push [OF slice_run_start _ _ demo_push]) (simp_all add: lit_def)
  from slicelist_push_turns [OF this demo_ready] show ?thesis
    by (simp add: demo_slices_def slices_def)
qed

text \<open>\<open>list_lrange\<close> refuses every range of the closed interval it documents: when \<open>start\<close> is
  not above \<open>end\<close> it gives -1, leaves the result alone and sends nothing. The check is the wrong
  way round; \<open>list_lrange_by_index\<close> has the same.\<close>

theorem slicelist_lrange_refuses:
  assumes "start \<le> stop"
  shows "list_lrange srv cl sl start stop result s = ((-1, result), s) \<and>
    list_lrange_by_index srv cl sl slotindex start stop result s = ((-1, result), s)"
  using assms by (simp add: list_lrange_def list_lrange_by_index_def)

lemma slicelist_lrange_refuses_witness:
  "list_lrange demo_server (Some demo_client) demo_slices 0 9 [] (\<lambda>k. [lit ''x'']) = ((-1, []), \<lambda>k. [lit ''x''])"
  by (rule slicelist_lrange_refuses [THEN conjunct1]) simp

text \<open>The number of slices of a topic is the one of the first call for it: a later call with
  another number gets the object with the first number, and no error. So a caller that gives
  the topic more slices than the first one did reaches only the first ones.\<close>

theorem slicenum_of_first_call:
  assumes "topic \<noteq> []" "0 < n" "n < 2 ^ 31" "topics topic = None" "0 < n'"
  shows "\<exists>sl. get_slicelist m topics topic n = (Inr sl, topics(topic \<mapsto> sl)) \<and>
    sl_topic sl = topic \<and> int (slices sl) = n \<and>
    get_slicelist m' (topics(topic \<mapsto> sl)) topic n' = (Inr sl, topics(topic \<mapsto> sl))"
  using assms by (simp add: get_slicelist_def listinit_def slices_def unsigned_of_int take_bit_int_eq_self)

lemma slicenum_of_first_call_witness:
  "\<exists>sl. get_slicelist demo_client [lit ''q'' \<mapsto> sl] (lit ''q'') 8 = (Inr sl, [lit ''q'' \<mapsto> sl]) \<and> slices sl = 2"
  using slicenum_of_first_call [of "lit ''q''" 2 Map.empty 8 demo_client demo_client] by (auto simp: lit_def)

text \<open>A batch pop on a server that refuses the script, for whatever reason, ends with 0 and
  an empty vector, which is what it gives for an empty list: \<open>redis_script::eval_strings\<close> takes
  an error reply for an empty array.\<close>

theorem batch_pop_hides_errors:
  assumes "sl_topic sl \<noteq> []" "mw_inited m" "0 < batchsize" "slices sl > 0"
    and "\<forall>s key args. \<exists>e. srv (build_request1 (eval_request (lit ''EVAL'') zlpop_script key args)) s =
      (Some (resp_result (RError e)), s)"
  shows "listbatchlpop srv (Some m) sl batchsize buflist s =
    Some ((0, [], None), sl\<lparr>sl_pop := sl_pop sl + 1\<rparr>, s)"
proof -
  have z: "mw_zlpop_list srv m key batchsize out s = ((0, []), s)" for key out
  proof -
    obtain e where "srv (build_request1 (eval_request (lit ''EVAL'') zlpop_script [key] [lit ''0'', dec_of_int (batchsize - 1)])) s
        = (Some (resp_result (RError e)), s)" using assms(5) by blast
    with assms(2,3) eval_strings_of_error [of e] show ?thesis
      by (simp add: mw_zlpop_list_def mw_eval_strings_def eval_with_def eval_cmd_def run_request_def)
  qed
  have loop: "k < num \<Longrightarrow> start < num \<Longrightarrow> num - k \<le> fuel \<Longrightarrow>
      batchlpop_loop fuel srv m t num start ((start + k) mod num) batchsize out s = Some ((0, [], None), s)"
    for k num start fuel t out
  proof (induction fuel arbitrary: k out)
    case (Suc fuel)
    have i: "((start + k) mod num + 1) mod num = (start + Suc k) mod num" by (simp add: mod_Suc_eq)
    show ?case
    proof (cases "Suc k = num")
      case True
      then have "(start + Suc k) mod num = start" using Suc.prems by simp
      then show ?thesis by (simp only: batchlpop_loop.simps i Let_def z prod.case) simp
    next
      case False
      with Suc.IH [of "Suc k" "[]"] Suc.prems show ?thesis
        by (simp only: batchlpop_loop.simps i Let_def z prod.case) simp
    qed
  qed simp
  from loop [of 0 "slices sl" "next_pop sl" "slices sl" "sl_topic sl" buflist] assms(1,3,4)
  show ?thesis by (simp add: listbatchlpop_def next_pop_def Let_def)
qed

lemma batch_pop_hides_errors_witness:
  "listbatchlpop (\<lambda>b s. (Some (resp_result (RError (lit ''NOAUTH''))), s)) (Some demo_client) demo_slices 10 [] () =
   Some ((0, [], None), demo_slices\<lparr>sl_pop := 1\<rparr>, ())"
proof -
  have r: "sl_topic demo_slices \<noteq> []" "mw_inited demo_client" "0 < (10::int)" "slices demo_slices > 0"
    by (simp_all add: demo_slices_def demo_client_def slices_def lit_def)
  show ?thesis
    by (subst batch_pop_hides_errors [OF r]) (auto simp: demo_slices_def)
qed

text \<open>An empty string that is at the head of a slice, where \<open>listrpush\<close> of a vector can put
  it, is removed by the next \<open>listlpop\<close> that looks at this slice and not given to the caller:
  LPOP's length 0 is taken for an empty slice. When the other slices are empty the call says
  that there was nothing.\<close>

theorem slicelist_pop_loses_empty_string:
  assumes "slice_ready srv view m sl" "i < slices sl"
    and "slice_view view (sl_topic sl) s = (\<lambda>j. [])(i := [] # xs)"
  shows "\<exists>s'. listlpop srv (Some m) sl s = Some ((0, Some [], None), sl\<lparr>sl_pop := sl_pop sl + 1\<rparr>, s') \<and>
    slice_view view (sl_topic sl) s' = (\<lambda>j. [])(i := xs)"
proof -
  have n: "next_pop sl < slices sl" using assms(1) by (simp add: slice_ready_def next_pop_def)
  let ?ps = "probes (slices sl) (next_pop sl) 0"
  have skip: "pop_first is ((\<lambda>j. [])(i := [] # xs)) = (None, (\<lambda>j. [])(i := xs))"
    if "i \<in> set is" "distinct is" for "is"
    using that
  proof (induction "is")
    case (Cons j js)
    show ?case
    proof (cases "j = i")
      case True
      with Cons.prems have "\<forall>k \<in> set js. ((\<lambda>j. [])(i := xs)) k = []" by auto
      from pop_first_none [OF this] True show ?thesis by (simp add: fun_upd_def cong: if_cong)
    next
      case False
      with Cons show ?thesis by simp
    qed
  qed simp
  have "distinct ?ps"
    by (rule card_distinct) (simp add: set_probes [OF n], simp add: probes_def)
  with skip [of ?ps] set_probes [OF n] assms(2) listlpop_pop_first [OF assms(1), of s] assms(3)
  show ?thesis by (auto simp: pop_result_def)
qed

lemma slicelist_pop_loses_empty_string_witness:
  "\<exists>s'. listlpop demo_server (Some demo_client) demo_slices ((\<lambda>k. [])(slice_key (lit ''q'') 1 := [[]])) =
     Some ((0, Some [], None), demo_slices\<lparr>sl_pop := 1\<rparr>, s') \<and>
   slice_view id (lit ''q'') s' = (\<lambda>i. [])"
proof -
  have q: "slice_view id (sl_topic demo_slices) ((\<lambda>k. [])(slice_key (lit ''q'') 1 := [[]])) = (\<lambda>i. [])(1 := [[]])"
    by (auto simp: slice_view_def demo_slices_def slice_key_inj fun_eq_iff)
  have i: "1 < slices demo_slices" by (simp add: demo_slices_def slices_def)
  from slicelist_pop_loses_empty_string [OF demo_ready i q] show ?thesis
    by (auto simp: demo_slices_def fun_eq_iff)
qed

end
