(* ===== verification/Redis_Hash.thy ===== *)
theory Redis_Hash
  imports Redis_List "HOL-Library.AList"
begin

text \<open>
  \<^verbatim>\<open>aclredis/src/redis/redis_hash.cpp\<close>: the hash commands, in the manner of \<open>Redis_List\<close>. A
  \<open>std::map\<close> given to a command is the list of its entries in the order of its iterator, one
  filled by a command is a map. With a NULL vector the HMGET variants only look at the number
  of elements; both tell the same success. HINCRBYFLOAT (floating point) is left out.

  \<open>hash_server\<close> states what the redis documentation promises of the hash commands. The rest of
  the theory derives what the commands return on such a server, for every key, field and value
  that the protocol can carry.
\<close>

section \<open>Commands\<close>

text \<open>The success and the output of a command that gives a string or a vector of strings.\<close>

definition got_string :: "redis_result option \<Rightarrow> bool \<times> byte list option" where
  "got_string r = (fst (get_string r) \<ge> 0, snd (get_string r))"

definition got_strings :: "redis_result option \<Rightarrow> bool \<times> byte list list option" where
  "got_strings r = (fst (get_strings r) \<ge> 0, snd (get_strings r))"

definition status_ok :: "redis_result option \<Rightarrow> bool" where
  "status_ok r = check_status r (Some (lit ''OK''))"

definition hmset :: "'s server \<Rightarrow> cstr \<Rightarrow> (byte list \<times> byte list) list \<Rightarrow> 's \<Rightarrow> bool \<times> 's" where
  "hmset srv key attrs = run_with status_ok srv (build_map (lit ''HMSET'') (Some key) attrs)"

definition hmset_cstr :: "'s server \<Rightarrow> cstr \<Rightarrow> (byte list \<times> byte list) list \<Rightarrow> 's \<Rightarrow> bool \<times> 's" where
  "hmset_cstr srv key attrs = run_with status_ok srv (build_map_cstr (lit ''HMSET'') (Some key) attrs)"

text \<open>Names and values in two vectors; when they differ in length the process ends (\<open>None\<close>).\<close>

definition hmset_names ::
  "'s server \<Rightarrow> cstr \<Rightarrow> byte list list \<Rightarrow> byte list list \<Rightarrow> 's \<Rightarrow> (bool \<times> 's) option"
where
  "hmset_names srv key names values s =
     map_option (\<lambda>argv. run_with status_ok srv argv s) (build_pairs (lit ''HMSET'') (Some key) names values)"

definition hmset_names_cstr ::
  "'s server \<Rightarrow> cstr \<Rightarrow> byte list list \<Rightarrow> byte list list \<Rightarrow> 's \<Rightarrow> (bool \<times> 's) option"
where
  "hmset_names_cstr srv key names values s =
     map_option (\<lambda>argv. run_with status_ok srv argv s)
       (build_pairs_cstr (lit ''HMSET'') (Some key) names values)"

definition hmset_arrays :: "'s server \<Rightarrow> cstr \<Rightarrow> (byte list \<times> byte list) list \<Rightarrow> 's \<Rightarrow> bool \<times> 's" where
  "hmset_arrays srv key ps = run_with status_ok srv (build_arrays (lit ''HMSET'') (Some key) ps)"

definition hmset_arrays_len :: "'s server \<Rightarrow> cstr \<Rightarrow> (byte list \<times> byte list) list \<Rightarrow> 's \<Rightarrow> bool \<times> 's" where
  "hmset_arrays_len srv key ps = run_with status_ok srv (build_arrays_len (lit ''HMSET'') (Some key) ps)"

definition hmget :: "'s server \<Rightarrow> cstr \<Rightarrow> byte list list \<Rightarrow> 's \<Rightarrow> (bool \<times> byte list list option) \<times> 's" where
  "hmget srv key names = run_with got_strings srv (build_names (lit ''HMGET'') (Some key) names)"

definition hmget_cstr :: "'s server \<Rightarrow> cstr \<Rightarrow> byte list list \<Rightarrow> 's \<Rightarrow> (bool \<times> byte list list option) \<times> 's" where
  "hmget_cstr srv key names = run_with got_strings srv (build_names_cstr (lit ''HMGET'') (Some key) names)"

definition hset :: "'s server \<Rightarrow> cstr \<Rightarrow> byte list \<Rightarrow> byte list \<Rightarrow> 's \<Rightarrow> int \<times> 's" where
  "hset srv key name v = run_with (fst \<circ> get_number) srv [lit ''HSET'', key, name, v]"

definition hsetnx :: "'s server \<Rightarrow> cstr \<Rightarrow> byte list \<Rightarrow> byte list \<Rightarrow> 's \<Rightarrow> int \<times> 's" where
  "hsetnx srv key name v = run_with (fst \<circ> get_number) srv [lit ''HSETNX'', key, name, v]"

definition hget :: "'s server \<Rightarrow> cstr \<Rightarrow> byte list \<Rightarrow> 's \<Rightarrow> (bool \<times> byte list option) \<times> 's" where
  "hget srv key name = run_with got_string srv [lit ''HGET'', key, name]"

text \<open>The output is cleared first; \<open>None\<close> is the failure, with an empty output.\<close>

definition hgetall :: "'s server \<Rightarrow> cstr \<Rightarrow> 's \<Rightarrow> (byte list \<rightharpoonup> byte list) option \<times> 's" where
  "hgetall srv key = run_with get_string_map srv (build_names_cstr (lit ''HGETALL'') None [key])"

definition hgetall_lists :: "'s server \<Rightarrow> cstr \<Rightarrow> 's \<Rightarrow> (byte list list \<times> byte list list) option \<times> 's" where
  "hgetall_lists srv key = run_with get_string_lists srv (build_names_cstr (lit ''HGETALL'') None [key])"

definition hgetall_ptrs ::
  "'s server \<Rightarrow> cstr \<Rightarrow> 's \<Rightarrow> (byte list option list \<times> byte list option list) option \<times> 's"
where
  "hgetall_ptrs srv key = run_with get_string_ptrs srv (build_names_cstr (lit ''HGETALL'') None [key])"

definition hdel :: "'s server \<Rightarrow> cstr \<Rightarrow> byte list list \<Rightarrow> 's \<Rightarrow> int \<times> 's" where
  "hdel srv key names = run_with (fst \<circ> get_number) srv (build_names (lit ''HDEL'') (Some key) names)"

definition hdel_cstr :: "'s server \<Rightarrow> cstr \<Rightarrow> byte list list \<Rightarrow> 's \<Rightarrow> int \<times> 's" where
  "hdel_cstr srv key names = run_with (fst \<circ> get_number) srv (build_names_cstr (lit ''HDEL'') (Some key) names)"

text \<open>A 64-bit number, written by \<open>acl_i64toa\<close> (\<open>%lld\<close>) into \<open>INT64_LEN\<close> = 21 bytes. The name is
  passed as a C string. The result and, for a result pointer that is not NULL, the number.\<close>

definition i64_arg :: "u64 \<Rightarrow> cstr" where
  "i64_arg n = c_snprintf 21 (dec_of_int (sint n))"

definition got_number64 :: "redis_result option \<Rightarrow> bool \<times> int" where
  "got_number64 r = (snd (get_number64 r), fst (get_number64 r))"

definition hincrby :: "'s server \<Rightarrow> cstr \<Rightarrow> byte list \<Rightarrow> u64 \<Rightarrow> 's \<Rightarrow> (bool \<times> int) \<times> 's" where
  "hincrby srv key name inc =
     run_with got_number64 srv (build_arrays (lit ''HINCRBY'') (Some key) [(name, i64_arg inc)])"

text \<open>The vector is cleared first.\<close>

definition hkeys :: "'s server \<Rightarrow> cstr \<Rightarrow> 's \<Rightarrow> (bool \<times> byte list list option) \<times> 's" where
  "hkeys srv key = run_with got_strings srv (build_names_cstr (lit ''HKEYS'') None [key])"

definition hexists :: "'s server \<Rightarrow> cstr \<Rightarrow> byte list \<Rightarrow> 's \<Rightarrow> bool \<times> 's" where
  "hexists srv key name =
     run_with (\<lambda>r. fst (get_number r) > 0) srv (build_names (lit ''HEXISTS'') (Some key) [name])"

definition hlen :: "'s server \<Rightarrow> cstr \<Rightarrow> 's \<Rightarrow> int \<times> 's" where
  "hlen srv key = run_with (fst \<circ> get_number) srv (build_names_cstr (lit ''HLEN'') None [key])"

definition hstrlen :: "'s server \<Rightarrow> cstr \<Rightarrow> byte list \<Rightarrow> 's \<Rightarrow> int \<times> 's" where
  "hstrlen srv key name = run_with (fst \<circ> get_number) srv (build_names (lit ''HSTRLEN'') (Some key) [name])"

text \<open>The elements that a scan has found, two at a time into the map that the caller gives.\<close>

fun scan_pairs :: "redis_result list \<Rightarrow> (byte list \<rightharpoonup> byte list) \<Rightarrow> (byte list \<rightharpoonup> byte list)" where
  "scan_pairs (n # v # ch) out = scan_pairs ch (out(rr_argv_to_string n \<mapsto> rr_argv_to_string v))"
| "scan_pairs _ out = out"

definition hscan ::
  "'s server \<Rightarrow> cstr \<Rightarrow> int \<Rightarrow> (byte list \<rightharpoonup> byte list) \<Rightarrow> cstr option \<Rightarrow> nat option \<Rightarrow> 's \<Rightarrow>
   (int \<times> (byte list \<rightharpoonup> byte list)) \<times> 's"
where
  "hscan srv key cursor out pattern cnt s =
     (if key = [] \<or> cursor < 0 then ((-1, out), s)
      else apfst (\<lambda>(cursor, ch). (case ch of
            None \<Rightarrow> (cursor, out)
          | Some ch \<Rightarrow> if length ch mod 2 \<noteq> 0 then (-1, out) else (cursor, scan_pairs ch out)))
        (scan_keys srv (lit ''HSCAN'') (Some key) cursor pattern cnt s))"

section \<open>What redis promises\<close>

text \<open>\<open>view s key\<close> is the hash at the key, empty when there is none. It stays smaller than
  \<open>2^31\<close>, as the 32-bit result of \<open>get_number\<close> needs.\<close>

definition pairs_reply :: "(byte list \<times> byte list) list \<Rightarrow> resp" where
  "pairs_reply ps = RArray (concat (map (\<lambda>(n, v). [RBulk n, RBulk v]) ps))"

definition bulk_reply :: "byte list option \<Rightarrow> resp" where
  "bulk_reply r = (case r of None \<Rightarrow> RNull | Some v \<Rightarrow> RBulk v)"

definition answers ::
  "'s server \<Rightarrow> ('s \<Rightarrow> byte list \<Rightarrow> 'a) \<Rightarrow> byte list list \<Rightarrow> 's \<Rightarrow> byte list \<Rightarrow> resp \<Rightarrow> 'a \<Rightarrow> bool"
where
  "answers srv view argv s key reply h \<longleftrightarrow>
     fst (run_request srv argv s) = Some (resp_result reply) \<and>
     view (snd (run_request srv argv s)) = (view s)(key := h)"

definition hash_server ::
  "'s server \<Rightarrow> ('s \<Rightarrow> byte list \<Rightarrow> byte list \<rightharpoonup> byte list) \<Rightarrow> bool"
where
  "hash_server srv view \<longleftrightarrow> (\<forall>s key.
     (\<forall>f v. small_args [lit ''HSET'', key, f, v] \<longrightarrow>
        answers srv view [lit ''HSET'', key, f, v] s key
          (RInteger (dec_of_nat (if view s key f = None then 1 else 0))) ((view s key)(f \<mapsto> v))) \<and>
     (\<forall>ps. ps \<noteq> [] \<and> small_args (lit ''HMSET'' # key # flatten_pairs id id ps) \<longrightarrow>
        answers srv view (lit ''HMSET'' # key # flatten_pairs id id ps) s key
          (RStatus (lit ''OK'')) (view s key ++ map_of (rev ps))) \<and>
     (\<forall>f. small_args [lit ''HGET'', key, f] \<longrightarrow>
        answers srv view [lit ''HGET'', key, f] s key (bulk_reply (view s key f)) (view s key)) \<and>
     (\<forall>fs. fs \<noteq> [] \<and> small_args (lit ''HMGET'' # key # fs) \<longrightarrow>
        answers srv view (lit ''HMGET'' # key # fs) s key
          (RArray (map (\<lambda>f. bulk_reply (view s key f)) fs)) (view s key)) \<and>
     (small_args [lit ''HGETALL'', key] \<longrightarrow> (\<exists>ps. distinct (map fst ps) \<and> map_of ps = view s key \<and>
        answers srv view [lit ''HGETALL'', key] s key (pairs_reply ps) (view s key))) \<and>
     (\<forall>fs. fs \<noteq> [] \<and> small_args (lit ''HDEL'' # key # fs) \<longrightarrow>
        answers srv view (lit ''HDEL'' # key # fs) s key
          (RInteger (dec_of_nat (card (set fs \<inter> dom (view s key))))) (view s key |` (- set fs))) \<and>
     (small_args [lit ''HLEN'', key] \<longrightarrow>
        answers srv view [lit ''HLEN'', key] s key
          (RInteger (dec_of_nat (card (dom (view s key))))) (view s key)))"

section \<open>The commands on such a server\<close>

lemma answers_run:
  "answers srv view argv s key reply h \<Longrightarrow>
   fst (run_with d srv argv s) = d (Some (resp_result reply)) \<and>
   view (snd (run_with d srv argv s)) = (view s)(key := h)"
  by (simp add: answers_def run_with_def)

lemma status_reply [simp]: "status_ok (Some (resp_result (RStatus (lit ''OK''))))"
  by (simp add: status_ok_def check_status_def is_type_def rr_get_status_def rr_get_def lit_def
      cstr_of_def c_strcasecmp_eq_def)

lemma bulk_reply_string [simp]:
  "got_string (Some (resp_result (bulk_reply r))) = (True, Some (case r of None \<Rightarrow> [] | Some v \<Rightarrow> v))"
  using string_reply nil_reply by (cases r) (simp_all del: resp_result.simps add: bulk_reply_def got_string_def)

lemma number_01: "get_number (Some (resp_result (RInteger (dec_of_nat (if b then 1 else 0))))) =
    (if b then 1 else 0, True)"
  using number_reply [of 0] number_reply [of 1] by (cases b) (simp_all del: resp_result.simps)

lemma hset_server:
  assumes "hash_server srv view" "small_args [lit ''HSET'', key, f, v]"
  shows "fst (hset srv key f v s) = (if view s key f = None then 1 else 0) \<and>
    view (snd (hset srv key f v s)) = (view s)(key := (view s key)(f \<mapsto> v))"
proof -
  have "answers srv view [lit ''HSET'', key, f, v] s key
      (RInteger (dec_of_nat (if view s key f = None then 1 else 0))) ((view s key)(f \<mapsto> v))"
    using assms by (simp only: hash_server_def)
  from answers_run [OF this, of "fst \<circ> get_number"] show ?thesis
    unfolding hset_def comp_apply number_01 fst_conv .
qed

lemma hmset_server:
  assumes "hash_server srv view" "small_args (lit ''HMSET'' # key # flatten_pairs id id ps)" "ps \<noteq> []"
  shows "fst (hmset srv key ps s) \<and>
    view (snd (hmset srv key ps s)) = (view s)(key := view s key ++ map_of (rev ps))"
proof -
  have "answers srv view (lit ''HMSET'' # key # flatten_pairs id id ps) s key
      (RStatus (lit ''OK'')) (view s key ++ map_of (rev ps))"
    using assms unfolding hash_server_def by blast
  from answers_run [OF this, of status_ok] show ?thesis
    by (simp del: resp_result.simps add: hmset_def build_map_def build_head_def)
qed

lemma hget_server:
  assumes "hash_server srv view" "small_args [lit ''HGET'', key, f]"
  shows "fst (hget srv key f s) = (True, Some (case view s key f of None \<Rightarrow> [] | Some v \<Rightarrow> v)) \<and>
    view (snd (hget srv key f s)) = view s"
proof -
  have "answers srv view [lit ''HGET'', key, f] s key (bulk_reply (view s key f)) (view s key)"
    using assms unfolding hash_server_def by blast
  from answers_run [OF this, of got_string] show ?thesis by (simp add: hget_def)
qed

lemma hgetall_server:
  assumes "hash_server srv view" "small_args [lit ''HGETALL'', key]" "c_string key"
  shows "fst (hgetall srv key s) = Some (view s key) \<and> view (snd (hgetall srv key s)) = view s"
proof -
  obtain ps where ps: "distinct (map fst ps)" "map_of ps = view s key"
    "answers srv view [lit ''HGETALL'', key] s key (pairs_reply ps) (view s key)"
    using assms(1,2) unfolding hash_server_def by metis
  have "map_of (rev ps) = view s key"
    using ps(1,2) by (metis map_of_inject_set distinct_rev rev_map set_rev)
  then have "get_string_map (Some (resp_result (pairs_reply ps))) = Some (view s key)"
    unfolding get_string_map_def pairs_reply_def result_pairs_bulk
    by (simp add: comp_def split_beta rr_argv_to_string_def)
  with answers_run [OF ps(3), of get_string_map] assms(3) show ?thesis
    by (simp add: hgetall_def build_names_cstr_def build_head_def)
qed

lemma hdel_server:
  assumes "hash_server srv view" "small_args (lit ''HDEL'' # key # fs)" "fs \<noteq> []"
  shows "fst (hdel srv key fs s) = int (card (set fs \<inter> dom (view s key))) \<and>
    view (snd (hdel srv key fs s)) = (view s)(key := view s key |` (- set fs))"
proof -
  have a: "answers srv view (lit ''HDEL'' # key # fs) s key
      (RInteger (dec_of_nat (card (set fs \<inter> dom (view s key))))) (view s key |` (- set fs))"
    using assms unfolding hash_server_def by blast
  have "card (set fs \<inter> dom (view s key)) \<le> length fs"
    by (meson card_length card_mono finite_set inf_le1 le_trans)
  then have "card (set fs \<inter> dom (view s key)) < 2 ^ 31"
    using assms(2) by (simp add: small_args_def)
  from answers_run [OF a, of "fst \<circ> get_number"] show ?thesis
    unfolding hdel_def comp_apply number_reply [OF \<open>card _ < _\<close>] build_names_def build_head_def
    by simp
qed

lemma hlen_server:
  assumes "hash_server srv view" "small_args [lit ''HLEN'', key]" "c_string key" "card (dom (view s key)) < 2 ^ 31"
  shows "fst (hlen srv key s) = int (card (dom (view s key))) \<and> view (snd (hlen srv key s)) = view s"
proof -
  have "answers srv view [lit ''HLEN'', key] s key
      (RInteger (dec_of_nat (card (dom (view s key))))) (view s key)"
    using assms unfolding hash_server_def by blast
  from answers_run [OF this, of "fst \<circ> get_number"] cstr_of_id [OF assms(3)] show ?thesis
    unfolding hlen_def comp_apply number_reply [OF assms(4)] build_names_cstr_def build_head_def
    by simp
qed

section \<open>A server for the witnesses\<close>

text \<open>A hash is an association list whose first entry for a field counts.\<close>

fun unflatten :: "byte list list \<Rightarrow> (byte list \<times> byte list) list" where
  "unflatten (f # v # xs) = (f, v) # unflatten xs"
| "unflatten _ = []"

lemma unflatten_flatten [simp]: "unflatten (flatten_pairs id id ps) = ps"
  by (induction ps) (auto simp: flatten_pairs_def)

type_synonym hash_store = "byte list \<Rightarrow> (byte list \<times> byte list) list"

definition hash_view :: "hash_store \<Rightarrow> byte list \<Rightarrow> byte list \<rightharpoonup> byte list" where
  "hash_view s key = map_of (s key)"

fun hash_answer :: "byte list list \<Rightarrow> hash_store \<Rightarrow> resp \<times> hash_store" where
  "hash_answer (cmd # key # args) s =
     (if cmd = lit ''HSET'' then
        (case args of [f, v] \<Rightarrow>
           (RInteger (dec_of_nat (if map_of (s key) f = None then 1 else 0)), s(key := (f, v) # s key))
         | _ \<Rightarrow> (RError (lit ''ERR''), s))
      else if cmd = lit ''HMSET'' then (RStatus (lit ''OK''), s(key := rev (unflatten args) @ s key))
      else if cmd = lit ''HGET'' then
        (case args of [f] \<Rightarrow> (bulk_reply (map_of (s key) f), s) | _ \<Rightarrow> (RError (lit ''ERR''), s))
      else if cmd = lit ''HMGET'' then (RArray (map (\<lambda>f. bulk_reply (map_of (s key) f)) args), s)
      else if cmd = lit ''HGETALL'' then (pairs_reply (AList.clearjunk (s key)), s)
      else if cmd = lit ''HDEL'' then
        (RInteger (dec_of_nat (card (set args \<inter> fst ` set (s key)))),
         s(key := filter (\<lambda>(f, _). f \<notin> set args) (s key)))
      else if cmd = lit ''HLEN'' then (RInteger (dec_of_nat (card (fst ` set (s key)))), s)
      else (RError (lit ''ERR''), s))"
| "hash_answer _ s = (RError (lit ''ERR''), s)"

definition hash_demo :: "hash_store server" where
  "hash_demo bytes s =
     (case read_args bytes of
        None \<Rightarrow> (None, s)
      | Some argv \<Rightarrow> map_prod (Some \<circ> resp_result) id (hash_answer argv s))"

lemma hash_demo_answers:
  assumes "small_args argv" "fst (hash_answer argv s) = reply"
    "hash_view (snd (hash_answer argv s)) = (hash_view s)(key := h)"
  shows "answers hash_demo hash_view argv s key reply h"
  using assms by (simp add: answers_def run_request_def hash_demo_def read_args_request)

lemma hash_view_filter:
  "map_of (filter (\<lambda>(f, _). f \<notin> F) xs) = map_of xs |` (- F)"
  by (induction xs) (auto simp: restrict_map_def fun_eq_iff)

lemma hash_demo_server: "hash_server hash_demo hash_view"
proof -
  have view: "hash_view (s(key := x)) = (hash_view s)(key := map_of x)" for s key x
    by (auto simp: hash_view_def)
  have lits: "lit ''HMSET'' \<noteq> lit ''HSET''" "lit ''HGET'' \<noteq> lit ''HSET''" "lit ''HGET'' \<noteq> lit ''HMSET''"
    "lit ''HMGET'' \<noteq> lit ''HSET''" "lit ''HMGET'' \<noteq> lit ''HMSET''" "lit ''HMGET'' \<noteq> lit ''HGET''"
    "lit ''HGETALL'' \<noteq> lit ''HSET''" "lit ''HGETALL'' \<noteq> lit ''HMSET''" "lit ''HGETALL'' \<noteq> lit ''HGET''"
    "lit ''HGETALL'' \<noteq> lit ''HMGET''" "lit ''HDEL'' \<noteq> lit ''HSET''" "lit ''HDEL'' \<noteq> lit ''HMSET''"
    "lit ''HDEL'' \<noteq> lit ''HGET''" "lit ''HDEL'' \<noteq> lit ''HMGET''" "lit ''HDEL'' \<noteq> lit ''HGETALL''"
    "lit ''HLEN'' \<noteq> lit ''HSET''" "lit ''HLEN'' \<noteq> lit ''HMSET''" "lit ''HLEN'' \<noteq> lit ''HGET''"
    "lit ''HLEN'' \<noteq> lit ''HMGET''" "lit ''HLEN'' \<noteq> lit ''HGETALL''" "lit ''HLEN'' \<noteq> lit ''HDEL''"
    by (simp_all add: lit_def)
  have same: "(hash_view s)(key := hash_view s key) = hash_view s" for s key by simp
  show ?thesis
    unfolding hash_server_def
    apply (intro allI conjI impI; (elim conjE)?)
    subgoal by (rule hash_demo_answers) (simp_all add: view, auto simp: hash_view_def)
    subgoal by (rule hash_demo_answers) (simp_all add: lits view, simp_all add: hash_view_def)
    subgoal by (rule hash_demo_answers) (simp_all add: lits, simp_all add: hash_view_def)
    subgoal by (rule hash_demo_answers) (simp_all add: lits, simp_all add: hash_view_def)
    subgoal for s key
      by (intro exI [of _ "AList.clearjunk (s key)"] conjI hash_demo_answers)
        (simp_all add: lits distinct_clearjunk map_of_clearjunk, simp_all add: hash_view_def)
    subgoal by (rule hash_demo_answers)
        (simp_all add: lits view hash_view_filter, simp_all add: hash_view_def dom_map_of_conv_image_fst)
    subgoal by (rule hash_demo_answers) (simp_all add: lits, simp_all add: hash_view_def dom_map_of_conv_image_fst)
    done
qed

end
