(* ===== verification/Redis_Key.thy ===== *)
theory Redis_Key
  imports Redis_Hash
begin

text \<open>
  \<^verbatim>\<open>aclredis/src/redis/redis_key.cpp\<close>, \<^verbatim>\<open>redis_set.cpp\<close> and \<^verbatim>\<open>redis_string.cpp\<close>: the commands on
  keys of any type, on sets and on strings, in the manner of \<open>Redis_List\<close>. The variants with a
  variable number of arguments fill the vector of C strings of another; those with two arrays
  (strings and lengths) send the same as the vector of strings. A NULL output vector changes
  nothing but that the elements are only counted. INCRBYFLOAT (floating point) is left out.
\<close>

section \<open>Keys\<close>

definition del_one :: "'s server \<Rightarrow> byte list \<Rightarrow> 's \<Rightarrow> int \<times> 's" where
  "del_one srv key = run_with (fst \<circ> get_number) srv [lit ''DEL'', key]"

definition del_keys :: "'s server \<Rightarrow> byte list list \<Rightarrow> 's \<Rightarrow> int \<times> 's" where
  "del_keys srv keys = run_with (fst \<circ> get_number) srv (build_names (lit ''DEL'') None keys)"

definition del_keys_cstr :: "'s server \<Rightarrow> byte list list \<Rightarrow> 's \<Rightarrow> int \<times> 's" where
  "del_keys_cstr srv keys = run_with (fst \<circ> get_number) srv (build_names_cstr (lit ''DEL'') None keys)"

definition dump :: "'s server \<Rightarrow> cstr \<Rightarrow> 's \<Rightarrow> (int \<times> byte list option) \<times> 's" where
  "dump srv key = run_with get_string srv [lit ''DUMP'', key]"

definition key_exists :: "'s server \<Rightarrow> cstr \<Rightarrow> 's \<Rightarrow> bool \<times> 's" where
  "key_exists srv key = run_with (\<lambda>r. fst (get_number r) > 0) srv [lit ''EXISTS'', key]"

definition expire :: "'s server \<Rightarrow> cstr \<Rightarrow> int \<Rightarrow> 's \<Rightarrow> int \<times> 's" where
  "expire srv key n = run_with (fst \<circ> get_number) srv [lit ''EXPIRE'', key, int_arg n]"

definition expireat :: "'s server \<Rightarrow> cstr \<Rightarrow> u64 \<Rightarrow> 's \<Rightarrow> int \<times> 's" where
  "expireat srv key stamp = run_with (fst \<circ> get_number) srv [lit ''EXPIREAT'', key, lu21 (unat stamp)]"

definition keys_pattern :: "'s server \<Rightarrow> cstr \<Rightarrow> 's \<Rightarrow> (int \<times> byte list list option) \<times> 's" where
  "keys_pattern srv pattern = run_with get_strings srv [lit ''KEYS'', pattern]"

definition persist :: "'s server \<Rightarrow> cstr \<Rightarrow> 's \<Rightarrow> int \<times> 's" where
  "persist srv key = run_with (fst \<circ> get_number) srv [lit ''PERSIST'', key]"

definition pexpire :: "'s server \<Rightarrow> cstr \<Rightarrow> int \<Rightarrow> 's \<Rightarrow> int \<times> 's" where
  "pexpire srv key n = run_with (fst \<circ> get_number) srv [lit ''PEXPIRE'', key, int_arg n]"

definition pexpireat :: "'s server \<Rightarrow> cstr \<Rightarrow> u64 \<Rightarrow> 's \<Rightarrow> int \<times> 's" where
  "pexpireat srv key stamp = run_with (fst \<circ> get_number) srv [lit ''PEXPIREAT'', key, i64_arg stamp]"

text \<open>-3 when there is no number; redis itself answers -1 and -2.\<close>

definition pttl :: "'s server \<Rightarrow> cstr \<Rightarrow> 's \<Rightarrow> int \<times> 's" where
  "pttl srv key =
     run_with (\<lambda>r. case get_number64 r of (n, ok) \<Rightarrow> if \<not> ok then -3 else n) srv [lit ''PTTL'', key]"

definition ttl :: "'s server \<Rightarrow> cstr \<Rightarrow> 's \<Rightarrow> int \<times> 's" where
  "ttl srv key =
     run_with (\<lambda>r. case get_number r of (n, ok) \<Rightarrow> if \<not> ok then -3 else n) srv [lit ''TTL'', key]"

definition randmkey :: "'s server \<Rightarrow> 's \<Rightarrow> (bool \<times> byte list option) \<times> 's" where
  "randmkey srv = run_with (\<lambda>r. (fst (get_string r) > 0, snd (get_string r))) srv [lit ''RANDOMKEY'']"

definition rename_key :: "'s server \<Rightarrow> cstr \<Rightarrow> cstr \<Rightarrow> 's \<Rightarrow> bool \<times> 's" where
  "rename_key srv key newkey = run_with status_ok srv [lit ''RENAME'', key, newkey]"

definition renamenx_result :: "redis_result option \<Rightarrow> int" where
  "renamenx_result r =
     (case r of None \<Rightarrow> -2
      | Some rr \<Rightarrow>
          if result_type rr = REDIS_RESULT_INTEGER then fst (rr_get_integer rr)
          else if result_type rr = REDIS_RESULT_ERROR then -1 else -3)"

definition renamenx :: "'s server \<Rightarrow> cstr \<Rightarrow> cstr \<Rightarrow> 's \<Rightarrow> int \<times> 's" where
  "renamenx srv key newkey = run_with renamenx_result srv [lit ''RENAMENX'', key, newkey]"

definition restore :: "'s server \<Rightarrow> cstr \<Rightarrow> byte list \<Rightarrow> int \<Rightarrow> bool \<Rightarrow> 's \<Rightarrow> bool \<times> 's" where
  "restore srv key v nttl replace =
     run_with status_ok srv
       ([lit ''RESTORE'', key, int_arg nttl, v] @ (if replace then [lit ''REPLACE''] else []))"

datatype redis_key_t = REDIS_KEY_NONE | REDIS_KEY_STRING | REDIS_KEY_HASH | REDIS_KEY_LIST
  | REDIS_KEY_SET | REDIS_KEY_ZSET

definition type_of_status :: "cstr \<Rightarrow> redis_key_t" where
  "type_of_status p =
     (if p = [] \<or> c_strcasecmp_eq p (lit ''none'') then REDIS_KEY_NONE
      else if c_strcasecmp_eq p (lit ''string'') then REDIS_KEY_STRING
      else if c_strcasecmp_eq p (lit ''hash'') then REDIS_KEY_HASH
      else if c_strcasecmp_eq p (lit ''list'') then REDIS_KEY_LIST
      else if c_strcasecmp_eq p (lit ''set'') then REDIS_KEY_SET
      else if c_strcasecmp_eq p (lit ''zset'') then REDIS_KEY_ZSET
      else REDIS_KEY_NONE)"

definition key_type :: "'s server \<Rightarrow> cstr \<Rightarrow> 's \<Rightarrow> redis_key_t \<times> 's" where
  "key_type srv key = run_with (type_of_status \<circ> get_status) srv [lit ''TYPE'', key]"

text \<open>The address is cut to the 63 characters of \<open>addrbuf\<close>; a port of 65535 is refused. The two
  unsigned numbers are written into 11 bytes. An option may be NULL.\<close>

definition uint_arg :: "u32 \<Rightarrow> cstr" where
  "uint_arg n = c_snprintf 11 (dec_of_nat (unat n))"

definition migrate :: "'s server \<Rightarrow> cstr \<Rightarrow> cstr \<Rightarrow> u32 \<Rightarrow> u32 \<Rightarrow> cstr option \<Rightarrow> 's \<Rightarrow> bool \<times> 's" where
  "migrate srv key addr dest_db timeout opt s =
     (let buf = c_snprintf 64 addr; ip = takeWhile (\<lambda>c. c \<noteq> 58) buf in
      case dropWhile (\<lambda>c. c \<noteq> 58) buf of
        [] \<Rightarrow> (False, s)
      | _ # port \<Rightarrow>
          if port = [] then (False, s)
          else if c_atoi port \<ge> 65535 \<or> c_atoi port \<le> 0 then (False, s)
          else run_with status_ok srv
            ([lit ''MIGRATE'', ip, port, key, uint_arg dest_db, uint_arg timeout]
             @ (case opt of Some o' \<Rightarrow> if o' \<noteq> [] then [o'] else [] | None \<Rightarrow> [])) s)"

definition key_move :: "'s server \<Rightarrow> cstr \<Rightarrow> u32 \<Rightarrow> 's \<Rightarrow> int \<times> 's" where
  "key_move srv key dest_db = run_with (fst \<circ> get_number) srv [lit ''MOVE'', key, uint_arg dest_db]"

definition object_refcount :: "'s server \<Rightarrow> cstr \<Rightarrow> 's \<Rightarrow> int \<times> 's" where
  "object_refcount srv key = run_with (fst \<circ> get_number) srv [lit ''OBJECT'', lit ''REFCOUNT'', key]"

definition object_encoding :: "'s server \<Rightarrow> cstr \<Rightarrow> 's \<Rightarrow> (bool \<times> byte list option) \<times> 's" where
  "object_encoding srv key =
     run_with (\<lambda>r. (fst (get_string r) > 0, snd (get_string r))) srv [lit ''OBJECT'', lit ''ENCODING'', key]"

definition object_idletime :: "'s server \<Rightarrow> cstr \<Rightarrow> 's \<Rightarrow> int \<times> 's" where
  "object_idletime srv key = run_with (fst \<circ> get_number) srv [lit ''OBJECT'', lit ''IDLETIME'', key]"

text \<open>The elements that a scan has found are added to the vector of the caller.\<close>

definition scan_names :: "byte list list \<Rightarrow> int \<times> redis_result list option \<Rightarrow> int \<times> byte list list" where
  "scan_names out = (\<lambda>(cursor, ch). case ch of
     None \<Rightarrow> (cursor, out) | Some ch \<Rightarrow> (cursor, out @ map rr_argv_to_string ch))"

definition key_scan ::
  "'s server \<Rightarrow> int \<Rightarrow> byte list list \<Rightarrow> cstr option \<Rightarrow> nat option \<Rightarrow> 's \<Rightarrow> (int \<times> byte list list) \<times> 's"
where
  "key_scan srv cursor out pattern cnt s =
     (if cursor < 0 then ((-1, out), s)
      else apfst (scan_names out) (scan_keys srv (lit ''SCAN'') None cursor pattern cnt s))"

section \<open>Sets\<close>

definition sadd :: "'s server \<Rightarrow> cstr \<Rightarrow> byte list list \<Rightarrow> 's \<Rightarrow> int \<times> 's" where
  "sadd srv key members = run_with (fst \<circ> get_number) srv (build_names (lit ''SADD'') (Some key) members)"

definition sadd_cstr :: "'s server \<Rightarrow> cstr \<Rightarrow> byte list list \<Rightarrow> 's \<Rightarrow> int \<times> 's" where
  "sadd_cstr srv key members =
     run_with (fst \<circ> get_number) srv (build_names_cstr (lit ''SADD'') (Some key) members)"

definition spop :: "'s server \<Rightarrow> cstr \<Rightarrow> 's \<Rightarrow> (bool \<times> byte list option) \<times> 's" where
  "spop srv key = run_with got_string srv [lit ''SPOP'', key]"

definition scard :: "'s server \<Rightarrow> cstr \<Rightarrow> 's \<Rightarrow> int \<times> 's" where
  "scard srv key = run_with (fst \<circ> get_number) srv [lit ''SCARD'', key]"

definition smembers :: "'s server \<Rightarrow> cstr \<Rightarrow> 's \<Rightarrow> (int \<times> byte list list option) \<times> 's" where
  "smembers srv key = run_with get_strings srv [lit ''SMEMBERS'', key]"

definition smove :: "'s server \<Rightarrow> cstr \<Rightarrow> cstr \<Rightarrow> byte list \<Rightarrow> 's \<Rightarrow> int \<times> 's" where
  "smove srv src dst member = run_with (fst \<circ> get_number) srv [lit ''SMOVE'', src, dst, member]"

definition sdiff :: "'s server \<Rightarrow> byte list list \<Rightarrow> 's \<Rightarrow> (int \<times> byte list list option) \<times> 's" where
  "sdiff srv keys = run_with get_strings srv (build_names (lit ''SDIFF'') None keys)"

definition sdiff_cstr :: "'s server \<Rightarrow> byte list list \<Rightarrow> 's \<Rightarrow> (int \<times> byte list list option) \<times> 's" where
  "sdiff_cstr srv keys = run_with get_strings srv (build_names_cstr (lit ''SDIFF'') None keys)"

definition sinter :: "'s server \<Rightarrow> byte list list \<Rightarrow> 's \<Rightarrow> (int \<times> byte list list option) \<times> 's" where
  "sinter srv keys = run_with get_strings srv (build_names (lit ''SINTER'') None keys)"

definition sinter_cstr :: "'s server \<Rightarrow> byte list list \<Rightarrow> 's \<Rightarrow> (int \<times> byte list list option) \<times> 's" where
  "sinter_cstr srv keys = run_with get_strings srv (build_names_cstr (lit ''SINTER'') None keys)"

definition sunion :: "'s server \<Rightarrow> byte list list \<Rightarrow> 's \<Rightarrow> (int \<times> byte list list option) \<times> 's" where
  "sunion srv keys = run_with get_strings srv (build_names (lit ''SUNION'') None keys)"

definition sunion_cstr :: "'s server \<Rightarrow> byte list list \<Rightarrow> 's \<Rightarrow> (int \<times> byte list list option) \<times> 's" where
  "sunion_cstr srv keys = run_with get_strings srv (build_names_cstr (lit ''SUNION'') None keys)"

definition sdiffstore :: "'s server \<Rightarrow> cstr \<Rightarrow> byte list list \<Rightarrow> 's \<Rightarrow> int \<times> 's" where
  "sdiffstore srv dst keys = run_with (fst \<circ> get_number) srv (build_names (lit ''SDIFFSTORE'') (Some dst) keys)"

definition sdiffstore_cstr :: "'s server \<Rightarrow> cstr \<Rightarrow> byte list list \<Rightarrow> 's \<Rightarrow> int \<times> 's" where
  "sdiffstore_cstr srv dst keys =
     run_with (fst \<circ> get_number) srv (build_names_cstr (lit ''SDIFFSTORE'') (Some dst) keys)"

definition sinterstore :: "'s server \<Rightarrow> cstr \<Rightarrow> byte list list \<Rightarrow> 's \<Rightarrow> int \<times> 's" where
  "sinterstore srv dst keys = run_with (fst \<circ> get_number) srv (build_names (lit ''SINTERSTORE'') (Some dst) keys)"

definition sinterstore_cstr :: "'s server \<Rightarrow> cstr \<Rightarrow> byte list list \<Rightarrow> 's \<Rightarrow> int \<times> 's" where
  "sinterstore_cstr srv dst keys =
     run_with (fst \<circ> get_number) srv (build_names_cstr (lit ''SINTERSTORE'') (Some dst) keys)"

definition sunionstore :: "'s server \<Rightarrow> cstr \<Rightarrow> byte list list \<Rightarrow> 's \<Rightarrow> int \<times> 's" where
  "sunionstore srv dst keys = run_with (fst \<circ> get_number) srv (build_names (lit ''SUNIONSTORE'') (Some dst) keys)"

definition sunionstore_cstr :: "'s server \<Rightarrow> cstr \<Rightarrow> byte list list \<Rightarrow> 's \<Rightarrow> int \<times> 's" where
  "sunionstore_cstr srv dst keys =
     run_with (fst \<circ> get_number) srv (build_names_cstr (lit ''SUNIONSTORE'') (Some dst) keys)"

definition sismember :: "'s server \<Rightarrow> cstr \<Rightarrow> byte list \<Rightarrow> 's \<Rightarrow> bool \<times> 's" where
  "sismember srv key member = run_with (\<lambda>r. fst (get_number r) > 0) srv [lit ''SISMEMBER'', key, member]"

definition srandmember :: "'s server \<Rightarrow> cstr \<Rightarrow> 's \<Rightarrow> (int \<times> byte list option) \<times> 's" where
  "srandmember srv key = run_with get_string srv [lit ''SRANDMEMBER'', key]"

definition srandmember_n :: "'s server \<Rightarrow> cstr \<Rightarrow> nat \<Rightarrow> 's \<Rightarrow> (int \<times> byte list list option) \<times> 's" where
  "srandmember_n srv key n = run_with get_strings srv [lit ''SRANDMEMBER'', key, lu21 n]"

definition srem :: "'s server \<Rightarrow> cstr \<Rightarrow> byte list list \<Rightarrow> 's \<Rightarrow> int \<times> 's" where
  "srem srv key members = run_with (fst \<circ> get_number) srv (build_names (lit ''SREM'') (Some key) members)"

definition srem_cstr :: "'s server \<Rightarrow> cstr \<Rightarrow> byte list list \<Rightarrow> 's \<Rightarrow> int \<times> 's" where
  "srem_cstr srv key members =
     run_with (fst \<circ> get_number) srv (build_names_cstr (lit ''SREM'') (Some key) members)"

definition sscan ::
  "'s server \<Rightarrow> cstr \<Rightarrow> int \<Rightarrow> byte list list \<Rightarrow> cstr option \<Rightarrow> nat option \<Rightarrow> 's \<Rightarrow>
   (int \<times> byte list list) \<times> 's"
where
  "sscan srv key cursor out pattern cnt s =
     (if key = [] \<or> cursor < 0 then ((-1, out), s)
      else apfst (scan_names out) (scan_keys srv (lit ''SSCAN'') (Some key) cursor pattern cnt s))"

section \<open>Strings\<close>

definition set_str :: "'s server \<Rightarrow> byte list \<Rightarrow> byte list \<Rightarrow> 's \<Rightarrow> bool \<times> 's" where
  "set_str srv key v = run_with status_ok srv [lit ''SET'', key, v]"

definition setex :: "'s server \<Rightarrow> byte list \<Rightarrow> byte list \<Rightarrow> int \<Rightarrow> 's \<Rightarrow> bool \<times> 's" where
  "setex srv key v timeout = run_with status_ok srv [lit ''SETEX'', key, int_arg timeout, v]"

definition psetex :: "'s server \<Rightarrow> byte list \<Rightarrow> byte list \<Rightarrow> int \<Rightarrow> 's \<Rightarrow> bool \<times> 's" where
  "psetex srv key v timeout = run_with status_ok srv [lit ''PSETEX'', key, int_arg timeout, v]"

definition setnx :: "'s server \<Rightarrow> byte list \<Rightarrow> byte list \<Rightarrow> 's \<Rightarrow> int \<times> 's" where
  "setnx srv key v = run_with (fst \<circ> get_number) srv [lit ''SETNX'', key, v]"

definition append_str :: "'s server \<Rightarrow> cstr \<Rightarrow> byte list \<Rightarrow> 's \<Rightarrow> int \<times> 's" where
  "append_str srv key v = run_with (fst \<circ> get_number) srv [lit ''APPEND'', key, v]"

definition get_str :: "'s server \<Rightarrow> byte list \<Rightarrow> 's \<Rightarrow> (bool \<times> byte list option) \<times> 's" where
  "get_str srv key = run_with got_string srv [lit ''GET'', key]"

definition get_result :: "'s server \<Rightarrow> byte list \<Rightarrow> 's \<Rightarrow> redis_result option \<times> 's" where
  "get_result srv key =
     run_with (\<lambda>r. case r of None \<Rightarrow> None
       | Some rr \<Rightarrow> if result_type rr \<noteq> REDIS_RESULT_STRING then None else Some rr)
       srv [lit ''GET'', key]"

definition getset :: "'s server \<Rightarrow> byte list \<Rightarrow> byte list \<Rightarrow> 's \<Rightarrow> (bool \<times> byte list option) \<times> 's" where
  "getset srv key v = run_with got_string srv [lit ''GETSET'', key, v]"

definition get_strlen :: "'s server \<Rightarrow> byte list \<Rightarrow> 's \<Rightarrow> int \<times> 's" where
  "get_strlen srv key = run_with (fst \<circ> get_number) srv [lit ''STRLEN'', key]"

definition setrange :: "'s server \<Rightarrow> byte list \<Rightarrow> u32 \<Rightarrow> byte list \<Rightarrow> 's \<Rightarrow> int \<times> 's" where
  "setrange srv key offset v =
     run_with (fst \<circ> get_number) srv [lit ''SETRANGE'', key, i64_arg (ucast offset), v]"

definition getrange :: "'s server \<Rightarrow> byte list \<Rightarrow> int \<Rightarrow> int \<Rightarrow> 's \<Rightarrow> (bool \<times> byte list option) \<times> 's" where
  "getrange srv key start stop =
     run_with got_string srv [lit ''GETRANGE'', key, int_arg start, int_arg stop]"

text \<open>The offset is an \<open>unsigned\<close>, written with \<open>%d\<close> into 11 bytes.\<close>

definition setbit :: "'s server \<Rightarrow> byte list \<Rightarrow> u32 \<Rightarrow> bool \<Rightarrow> 's \<Rightarrow> bool \<times> 's" where
  "setbit srv key offset b =
     run_with (\<lambda>r. fst (get_number r) \<ge> 0) srv
       [lit ''SETBIT'', key, int_arg (sint offset), if b then lit ''1'' else lit ''0'']"

text \<open>The success and the bit.\<close>

definition getbit :: "'s server \<Rightarrow> byte list \<Rightarrow> u32 \<Rightarrow> 's \<Rightarrow> (bool \<times> int option) \<times> 's" where
  "getbit srv key offset =
     run_with (\<lambda>r. let ret = fst (get_number r) in
         if ret < 0 then (False, None) else (True, Some (if ret = 0 then 0 else 1)))
       srv [lit ''GETBIT'', key, int_arg (sint offset)]"

definition bitcount :: "'s server \<Rightarrow> byte list \<Rightarrow> 's \<Rightarrow> int \<times> 's" where
  "bitcount srv key = run_with (fst \<circ> get_number) srv [lit ''BITCOUNT'', key]"

definition bitcount_range :: "'s server \<Rightarrow> byte list \<Rightarrow> int \<Rightarrow> int \<Rightarrow> 's \<Rightarrow> int \<times> 's" where
  "bitcount_range srv key start stop =
     run_with (fst \<circ> get_number) srv [lit ''BITCOUNT'', key, int_arg start, int_arg stop]"

text \<open>Keys are cut at a zero byte, those in a vector of strings too.\<close>

definition bitop :: "'s server \<Rightarrow> cstr \<Rightarrow> cstr \<Rightarrow> byte list list \<Rightarrow> 's \<Rightarrow> int \<times> 's" where
  "bitop srv op destkey keys =
     run_with (fst \<circ> get_number) srv ([lit ''BITOP'', op, destkey] @ map cstr_of keys)"

definition bitop_and :: "'s server \<Rightarrow> cstr \<Rightarrow> byte list list \<Rightarrow> 's \<Rightarrow> int \<times> 's" where
  "bitop_and srv destkey keys = bitop srv (lit ''AND'') destkey keys"

definition bitop_or :: "'s server \<Rightarrow> cstr \<Rightarrow> byte list list \<Rightarrow> 's \<Rightarrow> int \<times> 's" where
  "bitop_or srv destkey keys = bitop srv (lit ''OR'') destkey keys"

definition bitop_xor :: "'s server \<Rightarrow> cstr \<Rightarrow> byte list list \<Rightarrow> 's \<Rightarrow> int \<times> 's" where
  "bitop_xor srv destkey keys = bitop srv (lit ''XOR'') destkey keys"

definition mset :: "'s server \<Rightarrow> (byte list \<times> byte list) list \<Rightarrow> 's \<Rightarrow> bool \<times> 's" where
  "mset srv objs = run_with status_ok srv (build_map (lit ''MSET'') None objs)"

definition mset_names :: "'s server \<Rightarrow> byte list list \<Rightarrow> byte list list \<Rightarrow> 's \<Rightarrow> (bool \<times> 's) option" where
  "mset_names srv keys values s =
     map_option (\<lambda>argv. run_with status_ok srv argv s) (build_pairs (lit ''MSET'') None keys values)"

definition mset_arrays :: "'s server \<Rightarrow> (byte list \<times> byte list) list \<Rightarrow> 's \<Rightarrow> bool \<times> 's" where
  "mset_arrays srv ps = run_with status_ok srv (build_arrays (lit ''MSET'') None ps)"

definition mset_arrays_len :: "'s server \<Rightarrow> (byte list \<times> byte list) list \<Rightarrow> 's \<Rightarrow> bool \<times> 's" where
  "mset_arrays_len srv ps = run_with status_ok srv (build_arrays_len (lit ''MSET'') None ps)"

definition msetnx :: "'s server \<Rightarrow> (byte list \<times> byte list) list \<Rightarrow> 's \<Rightarrow> int \<times> 's" where
  "msetnx srv objs = run_with (fst \<circ> get_number) srv (build_map (lit ''MSETNX'') None objs)"

definition msetnx_names :: "'s server \<Rightarrow> byte list list \<Rightarrow> byte list list \<Rightarrow> 's \<Rightarrow> (int \<times> 's) option" where
  "msetnx_names srv keys values s =
     map_option (\<lambda>argv. run_with (fst \<circ> get_number) srv argv s) (build_pairs (lit ''MSETNX'') None keys values)"

definition msetnx_arrays :: "'s server \<Rightarrow> (byte list \<times> byte list) list \<Rightarrow> 's \<Rightarrow> int \<times> 's" where
  "msetnx_arrays srv ps = run_with (fst \<circ> get_number) srv (build_arrays (lit ''MSETNX'') None ps)"

definition msetnx_arrays_len :: "'s server \<Rightarrow> (byte list \<times> byte list) list \<Rightarrow> 's \<Rightarrow> int \<times> 's" where
  "msetnx_arrays_len srv ps = run_with (fst \<circ> get_number) srv (build_arrays_len (lit ''MSETNX'') None ps)"

definition mget :: "'s server \<Rightarrow> byte list list \<Rightarrow> 's \<Rightarrow> (bool \<times> byte list list option) \<times> 's" where
  "mget srv keys = run_with got_strings srv (build_names (lit ''MGET'') None keys)"

definition mget_cstr :: "'s server \<Rightarrow> byte list list \<Rightarrow> 's \<Rightarrow> (bool \<times> byte list list option) \<times> 's" where
  "mget_cstr srv keys = run_with got_strings srv (build_names_cstr (lit ''MGET'') None keys)"

definition incoper :: "'s server \<Rightarrow> cstr \<Rightarrow> cstr \<Rightarrow> u64 option \<Rightarrow> 's \<Rightarrow> (bool \<times> int) \<times> 's" where
  "incoper srv cmd key n =
     run_with got_number64 srv ([cmd, key] @ (case n of None \<Rightarrow> [] | Some n \<Rightarrow> [i64_arg n]))"

definition incr :: "'s server \<Rightarrow> cstr \<Rightarrow> 's \<Rightarrow> (bool \<times> int) \<times> 's" where
  "incr srv key = incoper srv (lit ''INCR'') key None"

definition incrby :: "'s server \<Rightarrow> cstr \<Rightarrow> u64 \<Rightarrow> 's \<Rightarrow> (bool \<times> int) \<times> 's" where
  "incrby srv key inc = incoper srv (lit ''INCRBY'') key (Some inc)"

definition decr :: "'s server \<Rightarrow> cstr \<Rightarrow> 's \<Rightarrow> (bool \<times> int) \<times> 's" where
  "decr srv key = incoper srv (lit ''DECR'') key None"

definition decrby :: "'s server \<Rightarrow> cstr \<Rightarrow> u64 \<Rightarrow> 's \<Rightarrow> (bool \<times> int) \<times> 's" where
  "decrby srv key d = incoper srv (lit ''DECRBY'') key (Some d)"

section \<open>What redis promises of strings\<close>

text \<open>\<open>view s\<close> is the map from keys to the strings stored there.\<close>

definition value_server :: "'s server \<Rightarrow> ('s \<Rightarrow> byte list \<rightharpoonup> byte list) \<Rightarrow> bool" where
  "value_server srv view \<longleftrightarrow> (\<forall>s.
     (\<forall>key v. small_args [lit ''SET'', key, v] \<longrightarrow>
        answers srv view [lit ''SET'', key, v] s key (RStatus (lit ''OK'')) (Some v)) \<and>
     (\<forall>key. small_args [lit ''GET'', key] \<longrightarrow>
        answers srv view [lit ''GET'', key] s key (bulk_reply (view s key)) (view s key)) \<and>
     (\<forall>keys. keys \<noteq> [] \<and> small_args (lit ''DEL'' # keys) \<longrightarrow>
        fst (run_request srv (lit ''DEL'' # keys) s) =
          Some (resp_result (RInteger (dec_of_nat (card (set keys \<inter> dom (view s)))))) \<and>
        view (snd (run_request srv (lit ''DEL'' # keys) s)) = view s |` (- set keys)))"

lemma set_server:
  assumes "value_server srv view" "small_args [lit ''SET'', key, v]"
  shows "fst (set_str srv key v s) \<and> view (snd (set_str srv key v s)) = (view s)(key \<mapsto> v)"
proof -
  have "answers srv view [lit ''SET'', key, v] s key (RStatus (lit ''OK'')) (Some v)"
    using assms unfolding value_server_def by blast
  from answers_run [OF this, of status_ok] show ?thesis
    by (simp del: resp_result.simps add: set_str_def)
qed

lemma get_server:
  assumes "value_server srv view" "small_args [lit ''GET'', key]"
  shows "fst (get_str srv key s) = (True, Some (case view s key of None \<Rightarrow> [] | Some v \<Rightarrow> v)) \<and>
    view (snd (get_str srv key s)) = view s"
proof -
  have "answers srv view [lit ''GET'', key] s key (bulk_reply (view s key)) (view s key)"
    using assms unfolding value_server_def by blast
  from answers_run [OF this, of got_string] show ?thesis by (simp add: get_str_def)
qed

lemma del_server:
  assumes "value_server srv view" "small_args (lit ''DEL'' # keys)" "keys \<noteq> []"
  shows "fst (del_keys srv keys s) = int (card (set keys \<inter> dom (view s))) \<and>
    view (snd (del_keys srv keys s)) = view s |` (- set keys)"
proof -
  have a: "fst (run_request srv (lit ''DEL'' # keys) s) =
          Some (resp_result (RInteger (dec_of_nat (card (set keys \<inter> dom (view s))))))"
    "view (snd (run_request srv (lit ''DEL'' # keys) s)) = view s |` (- set keys)"
    using assms unfolding value_server_def by blast+
  have "card (set keys \<inter> dom (view s)) \<le> length keys"
    by (meson card_length card_mono finite_set inf_le1 le_trans)
  then have "card (set keys \<inter> dom (view s)) < 2 ^ 31"
    using assms(2) by (simp add: small_args_def)
  from number_reply [OF this] a show ?thesis
    by (simp del: resp_result.simps add: del_keys_def run_with_def build_names_def build_head_def)
qed

text \<open>A server for the witnesses.\<close>

fun value_answer :: "byte list list \<Rightarrow> (byte list \<Rightarrow> byte list option) \<Rightarrow> resp \<times> (byte list \<Rightarrow> byte list option)" where
  "value_answer (cmd # args) s =
     (if cmd = lit ''SET'' then
        (case args of [k, v] \<Rightarrow> (RStatus (lit ''OK''), s(k := Some v)) | _ \<Rightarrow> (RError (lit ''ERR''), s))
      else if cmd = lit ''GET'' then
        (case args of [k] \<Rightarrow> (bulk_reply (s k), s) | _ \<Rightarrow> (RError (lit ''ERR''), s))
      else if cmd = lit ''DEL'' then
        (RInteger (dec_of_nat (card (set args \<inter> dom s))), s |` (- set args))
      else (RError (lit ''ERR''), s))"
| "value_answer [] s = (RError (lit ''ERR''), s)"

definition value_demo :: "(byte list \<Rightarrow> byte list option) server" where
  "value_demo bytes s =
     (case read_args bytes of
        None \<Rightarrow> (None, s)
      | Some argv \<Rightarrow> map_prod (Some \<circ> resp_result) id (value_answer argv s))"

lemma value_demo_run:
  "small_args argv \<Longrightarrow> run_request value_demo argv s = map_prod (Some \<circ> resp_result) id (value_answer argv s)"
  by (simp add: run_request_def value_demo_def read_args_request)

lemma value_demo_server: "value_server value_demo id"
proof -
  have lits: "lit ''GET'' \<noteq> lit ''SET''" "lit ''DEL'' \<noteq> lit ''SET''" "lit ''DEL'' \<noteq> lit ''GET''"
    by (simp_all add: lit_def)
  show ?thesis
    unfolding value_server_def
    by (intro allI conjI impI) (simp_all add: answers_def value_demo_run lits del: resp_result.simps)
qed

section \<open>Properties\<close>

lemma sint_u32: "sint (n :: u32) = (if uint n < 2 ^ 31 then uint n else uint n - 2 ^ 32)"
proof -
  have r: "0 \<le> uint n" "uint n < 2 ^ 32" using uint_lt2p [of n] by simp_all
  have "(uint n + 2 ^ 31) mod 2 ^ 32 = (if uint n < 2 ^ 31 then uint n + 2 ^ 31 else uint n - 2 ^ 31)"
  proof (cases "uint n < 2 ^ 31")
    case False
    have "(uint n + 2 ^ 31) mod 2 ^ 32 = (uint n + 2 ^ 31 - 2 ^ 32) mod 2 ^ 32"
      by (simp only: minus_mod_self2)
    also have "\<dots> = uint n + 2 ^ 31 - 2 ^ 32" using False r by (intro mod_pos_pos_trivial) simp_all
    finally show ?thesis using False by simp
  qed (use r in simp)
  moreover have "sint n = (uint n + 2 ^ 31) mod 2 ^ 32 - 2 ^ 31"
    by (simp add: sint_uint signed_take_bit_eq_take_bit_shift take_bit_eq_mod)
  ultimately show ?thesis by simp
qed

lemma int_arg_u32:
  "int_arg (sint (n :: u32)) =
    (if unat n < 2 ^ 31 then dec_of_nat (unat n) else take 10 (45 # dec_of_nat (2 ^ 32 - unat n)))"
proof -
  define x where "x = unat n"
  have x: "unat n = x" "uint n = int x" by (simp_all only: x_def uint_nat)
  have lt: "x < 2 ^ 32" unfolding x_def using unsigned_less [where w = n] by simp
  show ?thesis
  proof (cases "x < 2 ^ 31")
    case True
    then have "length (dec_of_nat x) \<le> Suc 9" by (intro dec_length) simp
    with True show ?thesis unfolding int_arg_def sint_u32 x by (simp add: dec_of_int_def c_snprintf_def)
  next
    case False
    have "nat (2 ^ 32 - int x) = 2 ^ 32 - x" by (simp add: nat_diff_distrib)
    with False lt show ?thesis
      unfolding int_arg_def sint_u32 x by (simp add: dec_of_int_def c_snprintf_def)
  qed
qed

text \<open>SETBIT and GETBIT take an offset up to \<open>2^32 - 1\<close>, and the functions an \<open>unsigned\<close>, but
  they print it as an \<open>int\<close>. An offset below \<open>2^31\<close> reaches the server as it is; any other one
  is sent as a negative number, cut to ten characters.\<close>

theorem setbit_offset:
  "setbit srv key offset b s =
     run_with (\<lambda>r. fst (get_number r) \<ge> 0) srv
       [lit ''SETBIT'', key,
        if unat offset < 2 ^ 31 then dec_of_nat (unat offset)
        else take 10 (45 # dec_of_nat (2 ^ 32 - unat offset)),
        if b then lit ''1'' else lit ''0''] s \<and>
   getbit srv key offset s =
     run_with (\<lambda>r. let ret = fst (get_number r) in
         if ret < 0 then (False, None) else (True, Some (if ret = 0 then 0 else 1))) srv
       [lit ''GETBIT'', key,
        if unat offset < 2 ^ 31 then dec_of_nat (unat offset)
        else take 10 (45 # dec_of_nat (2 ^ 32 - unat offset))] s"
  by (simp only: setbit_def getbit_def int_arg_u32)

end
