(* ===== verification/Redis_Zset.thy ===== *)
theory Redis_Zset
  imports Redis_Key
begin

text \<open>
  \<^verbatim>\<open>aclredis/src/redis/redis_zset.cpp\<close>: the commands on sorted sets, in the manner of
  \<open>Redis_List\<close>. A score is a \<open>double\<close>; here it is a value of some type \<open>'d\<close>, with the functions of
  the C library that the code uses on it as arguments: \<open>fmt\<close> is the text of \<open>%.8f\<close>, \<open>atof\<close> reads
  a text. The code writes scores into \<open>BUFLEN\<close> = 32 bytes and 32-bit numbers into \<open>INTLEN\<close> = 11.

  The argument vectors of \<open>zstore\<close> are filled by index; they are cells that a write can miss
  (\<open>Overrun\<close>) and that can be sent without ever having been written (\<open>Uninit\<close>).
\<close>

section \<open>Scores\<close>

definition score_arg :: "('d \<Rightarrow> cstr) \<Rightarrow> 'd \<Rightarrow> cstr" where
  "score_arg fmt d = c_snprintf 32 (fmt d)"

text \<open>With the length that \<open>snprintf\<close> returns, that of the whole text: more than the 32 bytes of
  the buffer are read when it is longer (\<open>None\<close>), its final zero when it has 32 characters.\<close>

definition score_arg_len :: "('d \<Rightarrow> cstr) \<Rightarrow> 'd \<Rightarrow> byte list option" where
  "score_arg_len fmt d =
     (if length (fmt d) < 32 then Some (fmt d)
      else if length (fmt d) = 32 then Some (take 31 (fmt d) @ [0])
      else None)"

definition score_args :: "('d \<Rightarrow> cstr) \<Rightarrow> ('m \<Rightarrow> byte list) \<Rightarrow> ('m \<times> 'd) list \<Rightarrow> byte list list" where
  "score_args fmt f ms = concat (map (\<lambda>(m, d). [score_arg fmt d, f m]) ms)"

section \<open>Adding\<close>

text \<open>A map or a vector of pairs of strings, and of C strings.\<close>

definition zadd :: "'s server \<Rightarrow> ('d \<Rightarrow> cstr) \<Rightarrow> cstr \<Rightarrow> (byte list \<times> 'd) list \<Rightarrow> 's \<Rightarrow> int \<times> 's" where
  "zadd srv fmt key ms = run_with (fst \<circ> get_number) srv ([lit ''ZADD'', key] @ score_args fmt id ms)"

definition zadd_cstr :: "'s server \<Rightarrow> ('d \<Rightarrow> cstr) \<Rightarrow> cstr \<Rightarrow> (byte list \<times> 'd) list \<Rightarrow> 's \<Rightarrow> int \<times> 's" where
  "zadd_cstr srv fmt key ms =
     run_with (fst \<circ> get_number) srv ([lit ''ZADD'', key] @ score_args fmt cstr_of ms)"

definition zadd_vectors ::
  "'s server \<Rightarrow> ('d \<Rightarrow> cstr) \<Rightarrow> cstr \<Rightarrow> byte list list \<Rightarrow> 'd list \<Rightarrow> 's \<Rightarrow> int \<times> 's"
where
  "zadd_vectors srv fmt key members scores s =
     (if length scores \<noteq> length members then (-1, s) else zadd srv fmt key (zip members scores) s)"

definition zadd_vectors_cstr ::
  "'s server \<Rightarrow> ('d \<Rightarrow> cstr) \<Rightarrow> cstr \<Rightarrow> byte list list \<Rightarrow> 'd list \<Rightarrow> 's \<Rightarrow> int \<times> 's"
where
  "zadd_vectors_cstr srv fmt key members scores s =
     (if length scores \<noteq> length members then (-1, s) else zadd_cstr srv fmt key (zip members scores) s)"

text \<open>Arrays with lengths; \<open>None\<close> when it reads behind a buffer.\<close>

fun score_args_len :: "('d \<Rightarrow> cstr) \<Rightarrow> (byte list \<times> 'd) list \<Rightarrow> byte list list option" where
  "score_args_len fmt [] = Some []"
| "score_args_len fmt ((m, d) # ms) =
     (case (score_arg_len fmt d, score_args_len fmt ms) of
        (Some a, Some as) \<Rightarrow> Some (a # m # as) | _ \<Rightarrow> None)"

definition zadd_arrays_len ::
  "'s server \<Rightarrow> ('d \<Rightarrow> cstr) \<Rightarrow> cstr \<Rightarrow> (byte list \<times> 'd) list \<Rightarrow> 's \<Rightarrow> (int \<times> 's) option"
where
  "zadd_arrays_len srv fmt key ms s =
     map_option (\<lambda>as. run_with (fst \<circ> get_number) srv ([lit ''ZADD'', key] @ as) s) (score_args_len fmt ms)"

section \<open>Reading and removing\<close>

definition zcard :: "'s server \<Rightarrow> cstr \<Rightarrow> 's \<Rightarrow> int \<times> 's" where
  "zcard srv key = run_with (fst \<circ> get_number) srv [lit ''ZCARD'', key]"

definition zcount :: "'s server \<Rightarrow> ('d \<Rightarrow> cstr) \<Rightarrow> cstr \<Rightarrow> 'd \<Rightarrow> 'd \<Rightarrow> 's \<Rightarrow> int \<times> 's" where
  "zcount srv fmt key lo hi =
     run_with (fst \<circ> get_number) srv [lit ''ZCOUNT'', key, score_arg fmt lo, score_arg fmt hi]"

text \<open>The score that a reply gives, through a buffer of 32 bytes.\<close>

definition got_score :: "(cstr \<Rightarrow> 'd) \<Rightarrow> redis_result option \<Rightarrow> bool \<times> 'd option" where
  "got_score atof r =
     (case get_string_buf r 32 of (ret, buf) \<Rightarrow>
        if ret \<le> 0 then (False, None) else (True, map_option (atof \<circ> cstr_of) buf))"

definition zincrby ::
  "'s server \<Rightarrow> ('d \<Rightarrow> cstr) \<Rightarrow> (cstr \<Rightarrow> 'd) \<Rightarrow> cstr \<Rightarrow> 'd \<Rightarrow> byte list \<Rightarrow> 's \<Rightarrow> (bool \<times> 'd option) \<times> 's"
where
  "zincrby srv fmt atof key inc member =
     run_with (got_score atof) srv [lit ''ZINCRBY'', key, score_arg fmt inc, member]"

definition zscore ::
  "'s server \<Rightarrow> (cstr \<Rightarrow> 'd) \<Rightarrow> cstr \<Rightarrow> byte list \<Rightarrow> 's \<Rightarrow> (bool \<times> 'd option) \<times> 's"
where
  "zscore srv atof key member = run_with (got_score atof) srv [lit ''ZSCORE'', key, member]"

definition zrange_get ::
  "'s server \<Rightarrow> cstr \<Rightarrow> cstr \<Rightarrow> int \<Rightarrow> int \<Rightarrow> 's \<Rightarrow> (int \<times> byte list list option) \<times> 's"
where
  "zrange_get srv cmd key start stop = run_with get_strings srv [cmd, key, int_arg start, int_arg stop]"

definition zrange :: "'s server \<Rightarrow> cstr \<Rightarrow> int \<Rightarrow> int \<Rightarrow> 's \<Rightarrow> (int \<times> byte list list option) \<times> 's" where
  "zrange srv key start stop = zrange_get srv (lit ''ZRANGE'') key start stop"

definition zrevrange :: "'s server \<Rightarrow> cstr \<Rightarrow> int \<Rightarrow> int \<Rightarrow> 's \<Rightarrow> (int \<times> byte list list option) \<times> 's" where
  "zrevrange srv key start stop = zrange_get srv (lit ''ZREVRANGE'') key start stop"

text \<open>Members and scores, two elements at a time.\<close>

fun score_pairs :: "(cstr \<Rightarrow> 'd) \<Rightarrow> redis_result list \<Rightarrow> (byte list \<times> 'd) list" where
  "score_pairs atof (m # v # ch) =
     (rr_argv_to_string m, atof (cstr_of (rr_argv_to_string v))) # score_pairs atof ch"
| "score_pairs atof _ = []"

text \<open>The result, and the pairs when there are any (\<open>None\<close>: none were written).\<close>

definition got_scores ::
  "(cstr \<Rightarrow> 'd) \<Rightarrow> redis_result option \<Rightarrow> int \<times> (byte list \<times> 'd) list option"
where
  "got_scores atof r =
     (if \<not> is_type REDIS_RESULT_ARRAY r then (-1, None)
      else let ch = rr_children (the r) in
        if ch = [] then (0, None)
        else if length ch mod 2 \<noteq> 0 then (-1, None)
        else (int (length ch div 2), Some (score_pairs atof ch)))"

text \<open>The vector is cleared first.\<close>

definition zrange_get_with_scores ::
  "'s server \<Rightarrow> (cstr \<Rightarrow> 'd) \<Rightarrow> cstr \<Rightarrow> cstr \<Rightarrow> int \<Rightarrow> int \<Rightarrow> 's \<Rightarrow> (int \<times> (byte list \<times> 'd) list) \<times> 's"
where
  "zrange_get_with_scores srv atof cmd key start stop =
     run_with (\<lambda>r. case got_scores atof r of (ret, ps) \<Rightarrow> (ret, case ps of None \<Rightarrow> [] | Some ps \<Rightarrow> ps)) srv
       [cmd, key, int_arg start, int_arg stop, lit ''WITHSCORES'']"

definition zrange_with_scores ::
  "'s server \<Rightarrow> (cstr \<Rightarrow> 'd) \<Rightarrow> cstr \<Rightarrow> int \<Rightarrow> int \<Rightarrow> 's \<Rightarrow> (int \<times> (byte list \<times> 'd) list) \<times> 's"
where
  "zrange_with_scores srv atof key start stop = zrange_get_with_scores srv atof (lit ''ZRANGE'') key start stop"

definition zrevrange_with_scores ::
  "'s server \<Rightarrow> (cstr \<Rightarrow> 'd) \<Rightarrow> cstr \<Rightarrow> int \<Rightarrow> int \<Rightarrow> 's \<Rightarrow> (int \<times> (byte list \<times> 'd) list) \<times> 's"
where
  "zrevrange_with_scores srv atof key start stop = zrange_get_with_scores srv atof (lit ''ZREVRANGE'') key start stop"

text \<open>A limit is given by two pointers; it counts when neither is NULL.\<close>

definition limit_args :: "int option \<Rightarrow> int option \<Rightarrow> byte list list" where
  "limit_args offset cnt =
     (case (offset, cnt) of (Some o', Some n) \<Rightarrow> [lit ''LIMIT'', int_arg o', int_arg n] | _ \<Rightarrow> [])"

definition zrangebyscore_get ::
  "'s server \<Rightarrow> cstr \<Rightarrow> cstr \<Rightarrow> cstr \<Rightarrow> cstr \<Rightarrow> int option \<Rightarrow> int option \<Rightarrow> 's \<Rightarrow>
   (int \<times> byte list list option) \<times> 's"
where
  "zrangebyscore_get srv cmd key lo hi offset cnt =
     run_with get_strings srv ([cmd, key, lo, hi] @ limit_args offset cnt)"

definition zrangebyscore ::
  "'s server \<Rightarrow> cstr \<Rightarrow> cstr \<Rightarrow> cstr \<Rightarrow> int option \<Rightarrow> int option \<Rightarrow> 's \<Rightarrow> (int \<times> byte list list option) \<times> 's"
where
  "zrangebyscore srv key lo hi offset cnt =
     zrangebyscore_get srv (lit ''ZRANGEBYSCORE'') key lo hi offset cnt"

definition zrangebyscore_double ::
  "'s server \<Rightarrow> ('d \<Rightarrow> cstr) \<Rightarrow> cstr \<Rightarrow> 'd \<Rightarrow> 'd \<Rightarrow> int option \<Rightarrow> int option \<Rightarrow> 's \<Rightarrow>
   (int \<times> byte list list option) \<times> 's"
where
  "zrangebyscore_double srv fmt key lo hi offset cnt =
     zrangebyscore srv key (score_arg fmt lo) (score_arg fmt hi) offset cnt"

text \<open>The vector of the caller is cleared when the reply has elements and is well formed.\<close>

definition zrangebyscore_get_with_scores ::
  "'s server \<Rightarrow> (cstr \<Rightarrow> 'd) \<Rightarrow> cstr \<Rightarrow> cstr \<Rightarrow> cstr \<Rightarrow> cstr \<Rightarrow> (byte list \<times> 'd) list \<Rightarrow>
   int option \<Rightarrow> int option \<Rightarrow> 's \<Rightarrow> (int \<times> (byte list \<times> 'd) list) \<times> 's"
where
  "zrangebyscore_get_with_scores srv atof cmd key lo hi out offset cnt =
     run_with (\<lambda>r. case got_scores atof r of (ret, ps) \<Rightarrow> (ret, case ps of None \<Rightarrow> out | Some ps \<Rightarrow> ps)) srv
       ([cmd, key, lo, hi, lit ''WITHSCORES''] @ limit_args offset cnt)"

definition zrangebyscore_with_scores ::
  "'s server \<Rightarrow> (cstr \<Rightarrow> 'd) \<Rightarrow> cstr \<Rightarrow> cstr \<Rightarrow> cstr \<Rightarrow> (byte list \<times> 'd) list \<Rightarrow> int option \<Rightarrow>
   int option \<Rightarrow> 's \<Rightarrow> (int \<times> (byte list \<times> 'd) list) \<times> 's"
where
  "zrangebyscore_with_scores srv atof key lo hi out offset cnt =
     zrangebyscore_get_with_scores srv atof (lit ''ZRANGEBYSCORE'') key lo hi out offset cnt"

definition zrangebyscore_with_scores_double ::
  "'s server \<Rightarrow> ('d \<Rightarrow> cstr) \<Rightarrow> (cstr \<Rightarrow> 'd) \<Rightarrow> cstr \<Rightarrow> 'd \<Rightarrow> 'd \<Rightarrow> (byte list \<times> 'd) list \<Rightarrow>
   int option \<Rightarrow> int option \<Rightarrow> 's \<Rightarrow> (int \<times> (byte list \<times> 'd) list) \<times> 's"
where
  "zrangebyscore_with_scores_double srv fmt atof key lo hi out offset cnt =
     zrangebyscore_with_scores srv atof key (score_arg fmt lo) (score_arg fmt hi) out offset cnt"

definition zrevrangebyscore_with_scores ::
  "'s server \<Rightarrow> (cstr \<Rightarrow> 'd) \<Rightarrow> cstr \<Rightarrow> cstr \<Rightarrow> cstr \<Rightarrow> (byte list \<times> 'd) list \<Rightarrow> int option \<Rightarrow>
   int option \<Rightarrow> 's \<Rightarrow> (int \<times> (byte list \<times> 'd) list) \<times> 's"
where
  "zrevrangebyscore_with_scores srv atof key lo hi out offset cnt =
     zrangebyscore_get_with_scores srv atof (lit ''ZREVRANGEBYSCORE'') key lo hi out offset cnt"

definition zrevrangebyscore_with_scores_double ::
  "'s server \<Rightarrow> ('d \<Rightarrow> cstr) \<Rightarrow> (cstr \<Rightarrow> 'd) \<Rightarrow> cstr \<Rightarrow> 'd \<Rightarrow> 'd \<Rightarrow> (byte list \<times> 'd) list \<Rightarrow>
   int option \<Rightarrow> int option \<Rightarrow> 's \<Rightarrow> (int \<times> (byte list \<times> 'd) list) \<times> 's"
where
  "zrevrangebyscore_with_scores_double srv fmt atof key lo hi out offset cnt =
     zrevrangebyscore_with_scores srv atof key (score_arg fmt lo) (score_arg fmt hi) out offset cnt"

definition zrank :: "'s server \<Rightarrow> cstr \<Rightarrow> byte list \<Rightarrow> 's \<Rightarrow> int \<times> 's" where
  "zrank srv key member = run_with (fst \<circ> get_number) srv [lit ''ZRANK'', key, member]"

definition zrevrank :: "'s server \<Rightarrow> cstr \<Rightarrow> byte list \<Rightarrow> 's \<Rightarrow> int \<times> 's" where
  "zrevrank srv key member = run_with (fst \<circ> get_number) srv [lit ''ZREVRANK'', key, member]"

definition zrem :: "'s server \<Rightarrow> cstr \<Rightarrow> byte list list \<Rightarrow> 's \<Rightarrow> int \<times> 's" where
  "zrem srv key members = run_with (fst \<circ> get_number) srv (build_names (lit ''ZREM'') (Some key) members)"

definition zrem_cstr :: "'s server \<Rightarrow> cstr \<Rightarrow> byte list list \<Rightarrow> 's \<Rightarrow> int \<times> 's" where
  "zrem_cstr srv key members =
     run_with (fst \<circ> get_number) srv (build_names_cstr (lit ''ZREM'') (Some key) members)"

definition zremrangebyrank :: "'s server \<Rightarrow> cstr \<Rightarrow> int \<Rightarrow> int \<Rightarrow> 's \<Rightarrow> int \<times> 's" where
  "zremrangebyrank srv key start stop =
     run_with (fst \<circ> get_number) srv [lit ''ZREMRANGEBYRANK'', key, int_arg start, int_arg stop]"

definition zremrangebyscore :: "'s server \<Rightarrow> cstr \<Rightarrow> cstr \<Rightarrow> cstr \<Rightarrow> 's \<Rightarrow> int \<times> 's" where
  "zremrangebyscore srv key lo hi = run_with (fst \<circ> get_number) srv [lit ''ZREMRANGEBYSCORE'', key, lo, hi]"

definition zremrangebyscore_double ::
  "'s server \<Rightarrow> ('d \<Rightarrow> cstr) \<Rightarrow> cstr \<Rightarrow> 'd \<Rightarrow> 'd \<Rightarrow> 's \<Rightarrow> int \<times> 's"
where
  "zremrangebyscore_double srv fmt key lo hi = zremrangebyscore srv key (score_arg fmt lo) (score_arg fmt hi)"

definition zrangebylex ::
  "'s server \<Rightarrow> cstr \<Rightarrow> cstr \<Rightarrow> cstr \<Rightarrow> int option \<Rightarrow> int option \<Rightarrow> 's \<Rightarrow> (int \<times> byte list list option) \<times> 's"
where
  "zrangebylex srv key lo hi offset cnt =
     run_with get_strings srv ([lit ''ZRANGEBYLEX'', key, lo, hi] @
       (case (offset, cnt) of (Some _, Some _) \<Rightarrow> [lo, hi] | _ \<Rightarrow> []))"

definition zlexcount :: "'s server \<Rightarrow> cstr \<Rightarrow> cstr \<Rightarrow> cstr \<Rightarrow> 's \<Rightarrow> int \<times> 's" where
  "zlexcount srv key lo hi = run_with (fst \<circ> get_number) srv [lit ''ZLEXCOUNT'', key, lo, hi]"

definition zremrangebylex :: "'s server \<Rightarrow> cstr \<Rightarrow> cstr \<Rightarrow> cstr \<Rightarrow> 's \<Rightarrow> int \<times> 's" where
  "zremrangebylex srv key lo hi = run_with (fst \<circ> get_number) srv [lit ''ZREMRANGEBYLEX'', key, lo, hi]"

definition zscan ::
  "'s server \<Rightarrow> (cstr \<Rightarrow> 'd) \<Rightarrow> cstr \<Rightarrow> int \<Rightarrow> (byte list \<times> 'd) list \<Rightarrow> cstr option \<Rightarrow> nat option \<Rightarrow> 's \<Rightarrow>
   (int \<times> (byte list \<times> 'd) list) \<times> 's"
where
  "zscan srv atof key cursor out pattern cnt s =
     (if key = [] \<or> cursor < 0 then ((-1, out), s)
      else apfst (\<lambda>(cursor, ch). (case ch of
            None \<Rightarrow> (cursor, out)
          | Some ch \<Rightarrow> if length ch mod 2 \<noteq> 0 then (-1, out) else (cursor, out @ score_pairs atof ch)))
        (scan_keys srv (lit ''ZSCAN'') (Some key) cursor pattern cnt s))"

section \<open>Unions and intersections\<close>

datatype 'a sent = Sent 'a | Overrun | Uninit

type_synonym cells = "byte list option list"

definition put_cell :: "nat \<Rightarrow> byte list \<Rightarrow> cells \<Rightarrow> cells option" where
  "put_cell i x cs = (if i < length cs then Some (cs[i := Some x]) else None)"

text \<open>\<open>argv[i] = ...; i++\<close> for each element; the loop over the keys of a map has a second
  \<open>i++\<close>.\<close>

fun put_cells :: "nat \<Rightarrow> nat \<Rightarrow> byte list list \<Rightarrow> cells \<Rightarrow> (nat \<times> cells) option" where
  "put_cells step i [] cs = Some (i, cs)"
| "put_cells step i (x # xs) cs = Option.bind (put_cell i x cs) (put_cells step (i + step) xs)"

definition send_cells :: "'s server \<Rightarrow> cells option \<Rightarrow> 's \<Rightarrow> int sent \<times> 's" where
  "send_cells srv cs s =
     (case cs of None \<Rightarrow> (Overrun, s)
      | Some cs \<Rightarrow>
          if None \<in> set cs then (Uninit, s)
          else apfst Sent (run_with (fst \<circ> get_number) srv (map the cs) s))"

definition zstore_map_cells ::
  "('d \<Rightarrow> cstr) \<Rightarrow> cstr \<Rightarrow> cstr \<Rightarrow> (byte list \<times> 'd) list \<Rightarrow> cstr option \<Rightarrow> cells option"
where
  "zstore_map_cells fmt cmd dst keys aggregate =
     (let argc = length keys * 2 + 6;
          agg = (case aggregate of None \<Rightarrow> lit ''SUM'' | Some a \<Rightarrow> if a = [] then lit ''SUM'' else a)
      in Option.bind (put_cells 1 0 [cmd, dst, c_snprintf 32 (dec_of_int (signed_take_bit 31 (int (length keys))))]
                        (replicate argc None)) (\<lambda>(i, cs).
         Option.bind (put_cells 2 i (map fst keys) cs) (\<lambda>(i, cs).
         Option.bind (put_cell i (lit ''WEIGHTS'') cs) (\<lambda>cs.
         Option.bind (put_cells 1 i (map (score_arg fmt \<circ> snd) keys) cs) (\<lambda>(i, cs).
         map_option snd (put_cells 1 i [lit ''AGGREGATE'', agg] cs))))))"

definition zstore_map ::
  "'s server \<Rightarrow> ('d \<Rightarrow> cstr) \<Rightarrow> cstr \<Rightarrow> cstr \<Rightarrow> (byte list \<times> 'd) list \<Rightarrow> cstr option \<Rightarrow> 's \<Rightarrow> int sent \<times> 's"
where
  "zstore_map srv fmt cmd dst keys aggregate s =
     (if keys = [] then (Sent (-1), s)
      else send_cells srv (zstore_map_cells fmt cmd dst keys aggregate) s)"

definition zunionstore_map ::
  "'s server \<Rightarrow> ('d \<Rightarrow> cstr) \<Rightarrow> cstr \<Rightarrow> (byte list \<times> 'd) list \<Rightarrow> cstr option \<Rightarrow> 's \<Rightarrow> int sent \<times> 's"
where
  "zunionstore_map srv fmt dst keys aggregate s = zstore_map srv fmt (lit ''ZUNIONSTORE'') dst keys aggregate s"

definition zinterstore_map ::
  "'s server \<Rightarrow> ('d \<Rightarrow> cstr) \<Rightarrow> cstr \<Rightarrow> (byte list \<times> 'd) list \<Rightarrow> cstr option \<Rightarrow> 's \<Rightarrow> int sent \<times> 's"
where
  "zinterstore_map srv fmt dst keys aggregate s = zstore_map srv fmt (lit ''ZINTERSTORE'') dst keys aggregate s"

definition zstore_cells ::
  "('d \<Rightarrow> cstr) \<Rightarrow> cstr \<Rightarrow> cstr \<Rightarrow> byte list list \<Rightarrow> 'd list option \<Rightarrow> cstr option \<Rightarrow> cells option"
where
  "zstore_cells fmt cmd dst keys weights aggregate =
     (let argc = 3 + length keys + (case weights of None \<Rightarrow> 0 | Some ws \<Rightarrow> length ws + 1)
            + (case aggregate of None \<Rightarrow> 0 | Some a \<Rightarrow> if a = [] then 0 else 2)
      in Option.bind (put_cells 1 0 [cmd, dst, c_snprintf 11 (dec_of_int (signed_take_bit 31 (int (length keys))))]
                        (replicate argc None)) (\<lambda>(i, cs).
         Option.bind (put_cells 1 i keys cs) (\<lambda>(i, cs).
         Option.bind (case weights of None \<Rightarrow> Some (i, cs)
             | Some ws \<Rightarrow> put_cells 1 i (lit ''WEIGHTS'' # map (score_arg fmt) ws) cs) (\<lambda>(i, cs).
         case aggregate of None \<Rightarrow> Some cs
         | Some a \<Rightarrow> map_option snd (put_cells 1 i [lit ''AGGREGATE'', a] cs)))))"

definition zstore ::
  "'s server \<Rightarrow> ('d \<Rightarrow> cstr) \<Rightarrow> cstr \<Rightarrow> cstr \<Rightarrow> byte list list \<Rightarrow> 'd list option \<Rightarrow> cstr option \<Rightarrow> 's \<Rightarrow>
   int sent \<times> 's"
where
  "zstore srv fmt cmd dst keys weights aggregate s =
     (if (case weights of None \<Rightarrow> False | Some ws \<Rightarrow> length ws \<noteq> length keys) then (Sent (-1), s)
      else send_cells srv (zstore_cells fmt cmd dst keys weights aggregate) s)"

definition zunionstore ::
  "'s server \<Rightarrow> ('d \<Rightarrow> cstr) \<Rightarrow> cstr \<Rightarrow> byte list list \<Rightarrow> 'd list option \<Rightarrow> cstr option \<Rightarrow> 's \<Rightarrow> int sent \<times> 's"
where
  "zunionstore srv fmt dst keys weights aggregate s =
     zstore srv fmt (lit ''ZUNIONSTORE'') dst keys weights aggregate s"

definition zinterstore ::
  "'s server \<Rightarrow> ('d \<Rightarrow> cstr) \<Rightarrow> cstr \<Rightarrow> byte list list \<Rightarrow> 'd list option \<Rightarrow> cstr option \<Rightarrow> 's \<Rightarrow> int sent \<times> 's"
where
  "zinterstore srv fmt dst keys weights aggregate s =
     zstore srv fmt (lit ''ZINTERSTORE'') dst keys weights aggregate s"

section \<open>What the cells hold\<close>

lemma put_cells_None_iff:
  "put_cells (Suc k) i xs cs = None \<longleftrightarrow> xs \<noteq> [] \<and> length cs \<le> i + (length xs - 1) * Suc k"
proof (induction xs arbitrary: i cs)
  case (Cons x xs)
  show ?case
  proof (cases "i < length cs")
    case True
    then show ?thesis using Cons.IH [of "i + Suc k" "cs[i := Some x]"]
      by (cases xs) (auto simp: put_cell_def algebra_simps)
  next
    case False
    then show ?thesis by (simp add: put_cell_def)
  qed
qed simp

lemma put_cells_index:
  "put_cells k i xs cs = Some (j, cs') \<Longrightarrow> j = i + length xs * k \<and> length cs' = length cs"
proof (induction xs arbitrary: i cs)
  case (Cons x xs)
  from Cons.prems have "put_cells k (i + k) xs (cs[i := Some x]) = Some (j, cs')"
    by (auto simp: put_cell_def split: if_splits)
  from Cons.IH [OF this] show ?case by simp
qed simp

lemma put_cells_keeps:
  "put_cells k i xs cs = Some (j, cs') \<Longrightarrow> n < i \<or> (\<forall>m < length xs. n \<noteq> i + m * k) \<Longrightarrow> cs' ! n = cs ! n"
proof (induction xs arbitrary: i cs)
  case (Cons x xs)
  from Cons.prems(1) have rec: "put_cells k (i + k) xs (cs[i := Some x]) = Some (j, cs')"
    by (auto simp: put_cell_def split: if_splits)
  have "n \<noteq> i" using Cons.prems(2) by (auto dest: spec [of _ 0])
  moreover have "n < i + k \<or> (\<forall>m < length xs. n \<noteq> (i + k) + m * k)"
    using Cons.prems(2) by (force dest: spec [of _ "Suc _"] simp: algebra_simps)
  ultimately show ?case using Cons.IH [OF rec] by simp
qed simp

text \<open>Writing one after the other into fresh cells.\<close>

lemma put_cells_fresh:
  "put_cells 1 (length pre) xs (pre @ replicate (length xs + n) None) =
   Some (length pre + length xs, pre @ map Some xs @ replicate n None)"
proof (induction xs arbitrary: pre)
  case (Cons x xs)
  from Cons.IH [of "pre @ [Some x]"] show ?case
    by (simp add: put_cell_def list_update_append)
qed simp

lemma put_cells_some:
  assumes "0 < k" "i + (length xs - 1) * k < length cs \<or> xs = []"
  shows "\<exists>cs'. put_cells k i xs cs = Some (i + length xs * k, cs') \<and> length cs' = length cs"
proof -
  obtain k' where k: "k = Suc k'" using assms(1) by (cases k) auto
  have "put_cells k i xs cs \<noteq> None"
    using assms(2) unfolding k by (auto simp: put_cells_None_iff)
  then obtain j cs' where p: "put_cells k i xs cs = Some (j, cs')" by auto
  with put_cells_index [OF p] show ?thesis by simp
qed

lemma put_cells_append:
  "put_cells k i (xs @ ys) cs = Option.bind (put_cells k i xs cs) (\<lambda>(j, cs). put_cells k j ys cs)"
proof (induction xs arbitrary: i cs)
  case (Cons x xs)
  then show ?case by (cases "put_cell i x cs") simp_all
qed simp

lemma put_cells_chain:
  "Option.bind (put_cells 1 0 head cs) (\<lambda>(i, cs).
     Option.bind (put_cells 1 i keys cs) (\<lambda>(i, cs).
     Option.bind (case weights of None \<Rightarrow> Some (i, cs) | Some ws \<Rightarrow> put_cells 1 i (w # f ws) cs) (\<lambda>(i, cs).
     case aggregate of None \<Rightarrow> Some cs | Some a \<Rightarrow> map_option snd (put_cells 1 i [g, a] cs)))) =
   map_option snd (Option.bind (put_cells 1 0 head cs) (\<lambda>(j, cs).
     Option.bind (put_cells 1 j keys cs) (\<lambda>(j, cs).
     Option.bind (put_cells 1 j (case weights of None \<Rightarrow> [] | Some ws \<Rightarrow> w # f ws) cs) (\<lambda>(j, cs).
     put_cells 1 j (case aggregate of None \<Rightarrow> [] | Some a \<Rightarrow> [g, a]) cs))))"
  by (cases weights; cases aggregate; simp del: put_cells.simps(2) split: Option.bind_splits prod.splits)

section \<open>Properties\<close>

lemma zstore_map_cells_many:
  assumes "length keys \<ge> 2"
  shows "zstore_map_cells fmt cmd dst keys aggregate = None"
proof -
  let ?n = "length keys" and ?ws = "map (score_arg fmt \<circ> snd) keys"
  define head where "head = [cmd, dst, c_snprintf 32 (dec_of_int (signed_take_bit 31 (int (length keys))))]"
  have h: "length head = 3" by (simp add: head_def)
  obtain c1 where 1: "put_cells 1 0 head (replicate (?n * 2 + 6) None) = Some (3, c1)" "length c1 = ?n * 2 + 6"
    using put_cells_some [of 1 0 head "replicate (?n * 2 + 6) None"] h by auto
  have "(?n - 1) * 2 \<le> ?n * 2" by simp
  then have "3 + (length (map fst keys) - 1) * 2 < length c1" using 1(2) by simp
  then obtain c2 where 2: "put_cells 2 3 (map fst keys) c1 = Some (3 + ?n * 2, c2)" "length c2 = ?n * 2 + 6"
    using put_cells_some [of 2 3 "map fst keys" c1] 1(2) by auto
  let ?c3 = "c2[3 + ?n * 2 := Some (lit ''WEIGHTS'')]"
  have 3: "put_cell (3 + ?n * 2) (lit ''WEIGHTS'') c2 = Some ?c3" using 2 by (simp add: put_cell_def)
  have 4: "Option.bind (put_cells 1 (3 + ?n * 2) ?ws ?c3)
      (\<lambda>(i, cs). map_option snd (put_cells 1 i [lit ''AGGREGATE'', agg] cs)) = None" for agg
  proof (cases "put_cells 1 (3 + ?n * 2) ?ws ?c3")
    case (Some p)
    obtain i c4 where p: "p = (i, c4)" by (cases p)
    with put_cells_index [of 1 "3 + ?n * 2" ?ws ?c3 i c4] Some 2
    have "i = 3 + ?n * 2 + ?n" "length c4 = ?n * 2 + 6" by auto
    then have "put_cells 1 i [lit ''AGGREGATE'', agg] c4 = None"
      using put_cells_None_iff [of 0 i "[lit ''AGGREGATE'', agg]" c4] assms by simp
    with Some p show ?thesis by simp
  qed simp
  show ?thesis
    unfolding zstore_map_cells_def Let_def head_def [symmetric] 1 bind.bind_lunit prod.case 2 3 4 ..
qed

lemma zstore_map_cells_one:
  "\<exists>cs. zstore_map_cells fmt cmd dst [kd] aggregate = Some cs \<and> None \<in> set cs"
  by (simp add: zstore_map_cells_def put_cell_def numeral_eq_Suc)

text \<open>ZUNIONSTORE and ZINTERSTORE with the keys and weights in a map never send a correct
  request. The loop over the keys counts its index twice, and that of WEIGHTS is not counted:
  with one key, an argument is sent that was never set; with two keys or more, the arguments
  are written behind the end of the allocated vector.\<close>

theorem zstore_map_never_sends:
  assumes "keys \<noteq> []"
  shows "zunionstore_map srv fmt dst keys aggregate s = (if length keys = 1 then Uninit else Overrun, s) \<and>
    zinterstore_map srv fmt dst keys aggregate s = (if length keys = 1 then Uninit else Overrun, s)"
proof (cases "length keys = 1")
  case True
  then obtain kd where "keys = [kd]" by (auto simp: length_Suc_conv)
  moreover have "send_cells srv (zstore_map_cells fmt cmd dst [kd] aggregate) s = (Uninit, s)" for cmd
    using zstore_map_cells_one [of fmt cmd dst kd aggregate] by (auto simp: send_cells_def)
  ultimately show ?thesis by (simp add: zunionstore_map_def zinterstore_map_def zstore_map_def)
next
  case False
  then have "length keys \<ge> 2" using assms by (cases keys) (auto simp: Suc_le_eq)
  then show ?thesis using False assms
    by (simp add: zunionstore_map_def zinterstore_map_def zstore_map_def send_cells_def zstore_map_cells_many)
qed

lemma zstore_map_never_sends_witness:
  "fst (zunionstore_map (\<lambda>b s. (None, s)) dec_of_int (lit ''d'') [(lit ''a'', 1), (lit ''b'', 2)] None ()) = Overrun"
  using zstore_map_never_sends [of "[(lit ''a'', 1 :: int), (lit ''b'', 2)]"
    "\<lambda>b s. (None, s)" dec_of_int "lit ''d''" None "()"] by simp

text \<open>The variant with vectors sends what redis documents, except for an empty aggregate: it is
  not counted in the length of the vector but written to it.\<close>

lemma zstore_sends:
  assumes "case weights of None \<Rightarrow> True | Some ws \<Rightarrow> length ws = length keys" "aggregate \<noteq> Some []"
  shows "zstore srv fmt cmd dst keys weights aggregate s =
    apfst Sent (run_with (fst \<circ> get_number) srv
      ([cmd, dst, c_snprintf 11 (dec_of_int (signed_take_bit 31 (int (length keys))))] @ keys
       @ (case weights of None \<Rightarrow> [] | Some ws \<Rightarrow> lit ''WEIGHTS'' # map (score_arg fmt) ws)
       @ (case aggregate of None \<Rightarrow> [] | Some a \<Rightarrow> [lit ''AGGREGATE'', a])) s)"
proof -
  let ?head = "[cmd, dst, c_snprintf 11 (dec_of_int (signed_take_bit 31 (int (length keys))))]"
  let ?w = "case weights of None \<Rightarrow> [] | Some ws \<Rightarrow> lit ''WEIGHTS'' # map (score_arg fmt) ws"
  let ?a = "case aggregate of None \<Rightarrow> [] | Some a \<Rightarrow> [lit ''AGGREGATE'', a]"
  let ?all = "?head @ keys @ ?w @ ?a"
  have argc: "3 + length keys + (case weights of None \<Rightarrow> 0 | Some ws \<Rightarrow> length ws + 1)
      + (case aggregate of None \<Rightarrow> 0 | Some a \<Rightarrow> if a = [] then 0 else 2) = length ?all"
    using assms(2) by (auto split: option.splits)
  have "zstore_cells fmt cmd dst keys weights aggregate =
      map_option snd (put_cells 1 0 ?all (replicate (length ?all) None))"
    unfolding zstore_cells_def argc Let_def put_cells_append
    by (rule put_cells_chain)
  also have "\<dots> = Some (map Some ?all)"
    using put_cells_fresh [of "[]" ?all 0] by (simp del: append_Cons)
  finally show ?thesis
    using assms(1) by (auto simp: zstore_def send_cells_def split: option.splits)
qed

text \<open>ZRANGEBYLEX does not send the offset and the count it is given: in their place goes the
  range once more, without the word LIMIT, so the request is the same for every offset and count
  (redis refuses it) and a limited range query never succeeds.\<close>

theorem zrangebylex_no_limit:
  "zrangebylex srv key lo hi (Some offset) (Some cnt) s =
   run_with get_strings srv [lit ''ZRANGEBYLEX'', key, lo, hi, lo, hi] s"
  by (simp add: zrangebylex_def)

end
