(* ===== verification/Mw_Store.thy ===== *)
theory Mw_Store
  imports Mw_Redis Redis_Zset
begin

text \<open>
  The rest of \<^verbatim>\<open>aclredis/include/mw/mwredisimpl.cpp\<close>: the operations of the client on hashes,
  sets, sorted sets and keys, in the manner of \<open>Mw_Redis\<close>. A \<open>std::map\<close> given to an operation is
  the list of its entries in the order of its iterator (\<open>acl::string\<close> orders by bytes as
  \<open>std::string\<close> does), one that an operation adds to is a map.

  The lemmas follow a client through any sequence of its updates of a hash: the hash that it
  reads back is the one that the same updates make of a map.
\<close>

section \<open>Hashes\<close>

definition mw_hmset :: "'s server \<Rightarrow> mw \<Rightarrow> byte list \<Rightarrow> (byte list \<times> byte list) list \<Rightarrow> 's \<Rightarrow> int \<times> 's" where
  "mw_hmset srv m key kvmap s =
     (if \<not> mw_inited m then (-1, s)
      else apfst (\<lambda>ok. if ok then 0 else -2) (hmset srv (cstr_of key) kvmap s))"

definition mw_hset :: "'s server \<Rightarrow> mw \<Rightarrow> byte list \<Rightarrow> byte list \<Rightarrow> byte list \<Rightarrow> 's \<Rightarrow> int \<times> 's" where
  "mw_hset srv m key name v s =
     (if \<not> mw_inited m then (-1, s)
      else apfst (\<lambda>ret. if ret < 0 then -2 else ret) (hset srv (cstr_of key) name v s))"

text \<open>\<open>hmget\<close> looks at the result itself: as many elements as it has, named by \<open>names\<close>. With more
  elements than names it reads behind the vector (\<open>None\<close>).\<close>

definition result_size :: "redis_result option \<Rightarrow> nat" where
  "result_size r = (case r of None \<Rightarrow> 0 | Some rr \<Rightarrow> rr_get_size rr)"

fun hmget_fill ::
  "byte list list \<Rightarrow> byte list option list \<Rightarrow> (byte list \<rightharpoonup> byte list) \<Rightarrow> (byte list \<rightharpoonup> byte list) option"
where
  "hmget_fill names [] kv = Some kv"
| "hmget_fill (n # names) (v # vs) kv =
     hmget_fill names vs (kv(n \<mapsto> (case v of None \<Rightarrow> [] | Some b \<Rightarrow> b)))"
| "hmget_fill [] (v # vs) kv = None"

definition mw_hmget ::
  "'s server \<Rightarrow> mw \<Rightarrow> byte list \<Rightarrow> byte list list \<Rightarrow> (byte list \<rightharpoonup> byte list) \<Rightarrow> 's \<Rightarrow>
   (int \<times> (byte list \<rightharpoonup> byte list)) option \<times> 's"
where
  "mw_hmget srv m key names kv s =
     (if \<not> mw_inited m then (Some (-1, kv), s)
      else run_with (\<lambda>r.
          if \<not> fst (got_strings r) then Some (-2, kv)
          else map_option (Pair 0) (hmget_fill names (map (result_value r) [0..<result_size r]) kv))
        srv (build_names (lit ''HMGET'') (Some (cstr_of key)) names) s)"

definition mw_hget ::
  "'s server \<Rightarrow> mw \<Rightarrow> byte list \<Rightarrow> byte list \<Rightarrow> 's \<Rightarrow> (int \<times> byte list option) \<times> 's"
where
  "mw_hget srv m key name s =
     (if \<not> mw_inited m then ((-1, None), s)
      else apfst (\<lambda>(ok, out). if \<not> ok then (-2, None) else (0, out)) (hget srv (cstr_of key) name s))"

text \<open>\<open>emplace\<close> leaves an entry alone that the map has already.\<close>

definition mw_hgetall ::
  "'s server \<Rightarrow> mw \<Rightarrow> byte list \<Rightarrow> (byte list \<rightharpoonup> byte list) \<Rightarrow> 's \<Rightarrow> (int \<times> (byte list \<rightharpoonup> byte list)) \<times> 's"
where
  "mw_hgetall srv m key kv s =
     (if \<not> mw_inited m then ((-1, kv), s)
      else apfst (\<lambda>r. case r of None \<Rightarrow> (-2, kv) | Some res \<Rightarrow> (0, res ++ kv))
        (hgetall srv (cstr_of key) s))"

definition mw_hdel :: "'s server \<Rightarrow> mw \<Rightarrow> byte list \<Rightarrow> byte list \<Rightarrow> 's \<Rightarrow> int \<times> 's" where
  "mw_hdel srv m key name s = (if \<not> mw_inited m then (-1, s) else hdel srv (cstr_of key) [name] s)"

definition mw_hlen :: "'s server \<Rightarrow> mw \<Rightarrow> byte list \<Rightarrow> 's \<Rightarrow> int \<times> 's" where
  "mw_hlen srv m key s = (if \<not> mw_inited m then (-1, s) else hlen srv (cstr_of key) s)"

text \<open>The number is written to the result pointer, if it is not NULL, in any case.\<close>

definition mw_hincrby ::
  "'s server \<Rightarrow> mw \<Rightarrow> byte list \<Rightarrow> byte list \<Rightarrow> u64 \<Rightarrow> 's \<Rightarrow> (int \<times> int option) \<times> 's"
where
  "mw_hincrby srv m key name inc s =
     (if \<not> mw_inited m then ((-1, None), s)
      else apfst (\<lambda>(ok, n). (if ok then 0 else -2, Some n)) (hincrby srv (cstr_of key) name inc s))"

section \<open>Sets\<close>

definition mw_sadd :: "'s server \<Rightarrow> mw \<Rightarrow> byte list \<Rightarrow> byte list list \<Rightarrow> 's \<Rightarrow> int \<times> 's" where
  "mw_sadd srv m key members s =
     (if \<not> mw_inited m then (-1, s)
      else apfst (\<lambda>ret. if ret < 0 then ret else 0) (sadd srv (cstr_of key) members s))"

definition mw_spop :: "'s server \<Rightarrow> mw \<Rightarrow> byte list \<Rightarrow> 's \<Rightarrow> (int \<times> byte list option) \<times> 's" where
  "mw_spop srv m key s =
     (if \<not> mw_inited m then ((-1, None), s)
      else apfst (\<lambda>(ok, out). if \<not> ok then (-1, None) else (0, out)) (spop srv (cstr_of key) s))"

text \<open>The elements are added to the vector that the caller gives.\<close>

definition add_strings :: "byte list list \<Rightarrow> int \<times> byte list list option \<Rightarrow> int \<times> byte list list" where
  "add_strings out = (\<lambda>(ret, res).
     (ret, if ret < 0 then out else out @ (case res of None \<Rightarrow> [] | Some bs \<Rightarrow> bs)))"

definition mw_smembers ::
  "'s server \<Rightarrow> mw \<Rightarrow> byte list \<Rightarrow> byte list list \<Rightarrow> 's \<Rightarrow> (int \<times> byte list list) \<times> 's"
where
  "mw_smembers srv m key out s =
     (if \<not> mw_inited m then ((-1, out), s) else apfst (add_strings out) (smembers srv (cstr_of key) s))"

definition mw_srem :: "'s server \<Rightarrow> mw \<Rightarrow> cstr \<Rightarrow> byte list list \<Rightarrow> 's \<Rightarrow> int \<times> 's" where
  "mw_srem srv m key members s = (if \<not> mw_inited m then (-1, s) else srem srv key members s)"

definition mw_sismember :: "'s server \<Rightarrow> mw \<Rightarrow> byte list \<Rightarrow> byte list \<Rightarrow> 's \<Rightarrow> int \<times> 's" where
  "mw_sismember srv m key member s =
     (if \<not> mw_inited m then (-1, s)
      else apfst (\<lambda>ok. if ok then 0 else -2) (sismember srv (cstr_of key) member s))"

definition mw_scard :: "'s server \<Rightarrow> mw \<Rightarrow> cstr \<Rightarrow> 's \<Rightarrow> int \<times> 's" where
  "mw_scard srv m key s = (if \<not> mw_inited m then (-1, s) else scard srv key s)"

section \<open>Sorted sets\<close>

definition mw_zadd_map ::
  "'s server \<Rightarrow> mw \<Rightarrow> ('d \<Rightarrow> cstr) \<Rightarrow> byte list \<Rightarrow> (byte list \<times> 'd) list \<Rightarrow> 's \<Rightarrow> int \<times> 's"
where
  "mw_zadd_map srv m fmt key items s =
     (if \<not> mw_inited m then (-1, s) else zadd srv fmt (cstr_of key) items s)"

definition mw_zadd ::
  "'s server \<Rightarrow> mw \<Rightarrow> ('d \<Rightarrow> cstr) \<Rightarrow> byte list \<Rightarrow> byte list \<Rightarrow> 'd \<Rightarrow> 's \<Rightarrow> int \<times> 's"
where
  "mw_zadd srv m fmt key item score s =
     (if \<not> mw_inited m then (-1, s) else zadd srv fmt (cstr_of key) [(item, score)] s)"

definition mw_zpush_queue ::
  "'s server \<Rightarrow> mw \<Rightarrow> ('d \<Rightarrow> cstr) \<Rightarrow> byte list \<Rightarrow> byte list \<Rightarrow> 'd \<Rightarrow> 's \<Rightarrow> int \<times> 's"
where
  "mw_zpush_queue srv m fmt key item score s = mw_zadd srv m fmt key item score s"

definition mw_zrem :: "'s server \<Rightarrow> mw \<Rightarrow> cstr \<Rightarrow> byte list list \<Rightarrow> 's \<Rightarrow> int \<times> 's" where
  "mw_zrem srv m key members s = (if \<not> mw_inited m then (-1, s) else zrem srv key members s)"

definition mw_zremrangebyscore :: "'s server \<Rightarrow> mw \<Rightarrow> cstr \<Rightarrow> cstr \<Rightarrow> cstr \<Rightarrow> 's \<Rightarrow> int \<times> 's" where
  "mw_zremrangebyscore srv m key lo hi s =
     (if \<not> mw_inited m then (-1, s) else zremrangebyscore srv key lo hi s)"

definition mw_zcard :: "'s server \<Rightarrow> mw \<Rightarrow> cstr \<Rightarrow> 's \<Rightarrow> int \<times> 's" where
  "mw_zcard srv m key s = (if \<not> mw_inited m then (-1, s) else zcard srv key s)"

definition mw_zcount :: "'s server \<Rightarrow> mw \<Rightarrow> ('d \<Rightarrow> cstr) \<Rightarrow> cstr \<Rightarrow> 'd \<Rightarrow> 'd \<Rightarrow> 's \<Rightarrow> int \<times> 's" where
  "mw_zcount srv m fmt key lo hi s = (if \<not> mw_inited m then (-1, s) else zcount srv fmt key lo hi s)"

definition mw_zrange ::
  "'s server \<Rightarrow> mw \<Rightarrow> byte list \<Rightarrow> int \<Rightarrow> int \<Rightarrow> byte list list \<Rightarrow> 's \<Rightarrow> (int \<times> byte list list) \<times> 's"
where
  "mw_zrange srv m key start stop out s =
     (if \<not> mw_inited m then ((-1, out), s)
      else apfst (add_strings out) (zrange srv (cstr_of key) start stop s))"

definition mw_zrangebyscore_with_scores_double ::
  "'s server \<Rightarrow> mw \<Rightarrow> ('d \<Rightarrow> cstr) \<Rightarrow> (cstr \<Rightarrow> 'd) \<Rightarrow> cstr \<Rightarrow> 'd \<Rightarrow> 'd \<Rightarrow> (byte list \<times> 'd) list \<Rightarrow> 's \<Rightarrow>
   (int \<times> (byte list \<times> 'd) list) \<times> 's"
where
  "mw_zrangebyscore_with_scores_double srv m fmt atof key lo hi out s =
     (if \<not> mw_inited m then ((-1, out), s)
      else apfst (\<lambda>(ret, tmp). (ret, if ret < 0 then out else out @ tmp))
        (zrangebyscore_with_scores_double srv fmt atof key lo hi [] None None s))"

definition mw_zrangebyscore_with_scores ::
  "'s server \<Rightarrow> mw \<Rightarrow> (cstr \<Rightarrow> 'd) \<Rightarrow> cstr \<Rightarrow> cstr \<Rightarrow> cstr \<Rightarrow> (byte list \<times> 'd) list \<Rightarrow> 's \<Rightarrow>
   (int \<times> (byte list \<times> 'd) list) \<times> 's"
where
  "mw_zrangebyscore_with_scores srv m atof key lo hi out s =
     (if \<not> mw_inited m then ((-1, out), s)
      else apfst (\<lambda>(ret, tmp). (ret, if ret < 0 then out else out @ tmp))
        (zrangebyscore_with_scores srv atof key lo hi [] None None s))"

definition mw_zscore ::
  "'s server \<Rightarrow> mw \<Rightarrow> (cstr \<Rightarrow> 'd) \<Rightarrow> cstr \<Rightarrow> byte list \<Rightarrow> 's \<Rightarrow> (int \<times> 'd option) \<times> 's"
where
  "mw_zscore srv m atof key member s =
     (if \<not> mw_inited m then ((-1, None), s)
      else apfst (\<lambda>(ok, d). (if ok then 0 else -2, d)) (zscore srv atof key member s))"

section \<open>Keys\<close>

definition mw_set :: "'s server \<Rightarrow> mw \<Rightarrow> byte list \<Rightarrow> byte list \<Rightarrow> 's \<Rightarrow> bool \<times> 's" where
  "mw_set srv m key v s = (if \<not> mw_inited m then (False, s) else set_str srv key v s)"

definition mw_setex :: "'s server \<Rightarrow> mw \<Rightarrow> byte list \<Rightarrow> byte list \<Rightarrow> int \<Rightarrow> 's \<Rightarrow> bool \<times> 's" where
  "mw_setex srv m key v timeout s = (if \<not> mw_inited m then (False, s) else setex srv key v timeout s)"

definition mw_get :: "'s server \<Rightarrow> mw \<Rightarrow> byte list \<Rightarrow> 's \<Rightarrow> (bool \<times> byte list option) \<times> 's" where
  "mw_get srv m key s =
     (if \<not> mw_inited m then ((False, None), s)
      else apfst (\<lambda>(ok, out). if \<not> ok then (False, None) else (True, out)) (get_str srv key s))"

definition mw_rename_key :: "'s server \<Rightarrow> mw \<Rightarrow> cstr \<Rightarrow> cstr \<Rightarrow> 's \<Rightarrow> bool \<times> 's" where
  "mw_rename_key srv m key newkey s = (if \<not> mw_inited m then (False, s) else rename_key srv key newkey s)"

definition mw_pexpire :: "'s server \<Rightarrow> mw \<Rightarrow> cstr \<Rightarrow> int \<Rightarrow> 's \<Rightarrow> int \<times> 's" where
  "mw_pexpire srv m key n s = (if \<not> mw_inited m then (-1, s) else pexpire srv key n s)"

definition mw_expire :: "'s server \<Rightarrow> mw \<Rightarrow> cstr \<Rightarrow> int \<Rightarrow> 's \<Rightarrow> int \<times> 's" where
  "mw_expire srv m key n s = (if \<not> mw_inited m then (-1, s) else expire srv key n s)"

definition mw_exists :: "'s server \<Rightarrow> mw \<Rightarrow> cstr \<Rightarrow> 's \<Rightarrow> bool \<times> 's" where
  "mw_exists srv m key s = (if \<not> mw_inited m then (False, s) else key_exists srv key s)"

definition mw_del :: "'s server \<Rightarrow> mw \<Rightarrow> byte list list \<Rightarrow> 's \<Rightarrow> int \<times> 's" where
  "mw_del srv m keys s = (if \<not> mw_inited m then (-1, s) else del_keys srv keys s)"

definition mw_incrby :: "'s server \<Rightarrow> mw \<Rightarrow> byte list \<Rightarrow> u64 \<Rightarrow> 's \<Rightarrow> (bool \<times> int option) \<times> 's" where
  "mw_incrby srv m key inc s =
     (if \<not> mw_inited m then ((False, None), s)
      else apfst (\<lambda>(ok, n). (ok, Some n)) (incrby srv (cstr_of key) inc s))"

section \<open>A client that updates a hash\<close>

datatype hash_op = HSet "byte list" "byte list" | HMSet "(byte list \<times> byte list) list" | HDel "byte list"

fun hash_exec :: "'s server \<Rightarrow> mw \<Rightarrow> byte list \<Rightarrow> hash_op \<Rightarrow> 's \<Rightarrow> 's" where
  "hash_exec srv m key (HSet f v) s = snd (mw_hset srv m key f v s)"
| "hash_exec srv m key (HMSet ps) s = snd (mw_hmset srv m key ps s)"
| "hash_exec srv m key (HDel f) s = snd (mw_hdel srv m key f s)"

fun hash_spec :: "hash_op \<Rightarrow> (byte list \<rightharpoonup> byte list) \<Rightarrow> (byte list \<rightharpoonup> byte list)" where
  "hash_spec (HSet f v) h = h(f \<mapsto> v)"
| "hash_spec (HMSet ps) h = h ++ map_of (rev ps)"
| "hash_spec (HDel f) h = h(f := None)"

fun hash_op_fits :: "byte list \<Rightarrow> hash_op \<Rightarrow> bool" where
  "hash_op_fits key (HSet f v) \<longleftrightarrow> small_args [lit ''HSET'', key, f, v]"
| "hash_op_fits key (HMSet ps) \<longleftrightarrow> ps \<noteq> [] \<and> small_args (lit ''HMSET'' # key # flatten_pairs id id ps)"
| "hash_op_fits key (HDel f) \<longleftrightarrow> small_args [lit ''HDEL'', key, f]"

lemma snd_apfst [simp]: "snd (apfst f p) = snd p"
  by (cases p) simp

lemma hash_exec_view:
  assumes "hash_server srv view" "mw_inited m" "c_string key" "hash_op_fits key op"
  shows "view (hash_exec srv m key op s) = (view s)(key := hash_spec op (view s key))"
proof (cases op)
  case (HSet f v)
  then show ?thesis using assms hset_server [OF assms(1), of key f v s] by (simp add: mw_hset_def)
next
  case (HMSet ps)
  then show ?thesis using assms hmset_server [OF assms(1), of key ps s] by (simp add: mw_hmset_def)
next
  case (HDel f)
  have "view s key |` (- {f}) = (view s key)(f := None)" by (auto simp: restrict_map_def fun_eq_iff)
  with HDel show ?thesis using assms hdel_server [of srv view key "[f]" s] by (simp add: mw_hdel_def)
qed

lemma hash_execs_view:
  assumes "hash_server srv view" "mw_inited m" "c_string key" "list_all (hash_op_fits key) ops"
  shows "view (fold (hash_exec srv m key) ops s) = (view s)(key := fold hash_spec ops (view s key))"
  using assms(4)
proof (induction ops arbitrary: s)
  case (Cons op ops)
  then show ?case by (auto simp: hash_exec_view [OF assms(1-3)] fun_eq_iff)
qed simp

section \<open>Properties\<close>

text \<open>C6: On a server that keeps redis' promises for hashes, any sequence of \<open>hset\<close>, \<open>hmset\<close> and
  \<open>hdel\<close> does to the hash what the same updates do to a map, and to no other key anything:
  \<open>hgetall\<close> into an empty map and \<open>hget\<close> of any field read back exactly that map.\<close>

theorem hash_client_refines:
  assumes "hash_server srv view" "mw_inited m" "c_string key" "list_all (hash_op_fits key) ops"
    "small_args [lit ''HGETALL'', key, f]"
  shows "let s' = fold (hash_exec srv m key) ops s; h = fold hash_spec ops (view s key) in
    view s' = (view s)(key := h) \<and>
    fst (mw_hgetall srv m key Map.empty s') = (0, h) \<and>
    fst (mw_hget srv m key f s') = (0, Some (case h f of None \<Rightarrow> [] | Some v \<Rightarrow> v))"
proof -
  let ?s = "fold (hash_exec srv m key) ops s"
  have sm: "small_args [lit ''HGETALL'', key]" "small_args [lit ''HGET'', key, f]"
    using assms(5) by (auto simp: small_args_def lit_def)
  have v: "view ?s = (view s)(key := fold hash_spec ops (view s key))"
    by (rule hash_execs_view [OF assms(1-4)])
  show ?thesis
    using hgetall_server [OF assms(1) sm(1) assms(3), of ?s] hget_server [OF assms(1) sm(2), of ?s]
      v assms(2,3)
    by (simp add: Let_def mw_hgetall_def mw_hget_def)
qed

lemma hash_client_refines_witness:
  "fst (mw_hgetall hash_demo (mw_new\<lparr>mw_inited := True\<rparr>) (lit ''h'') Map.empty
     (fold (hash_exec hash_demo (mw_new\<lparr>mw_inited := True\<rparr>) (lit ''h''))
       [HSet (lit ''a'') (lit ''1''), HMSet [(lit ''b'', lit ''2''), (lit ''a'', [])], HDel (lit ''b'')] (\<lambda>_. []))) =
   (0, [lit ''a'' \<mapsto> []])"
  using hash_client_refines [OF hash_demo_server, of "mw_new\<lparr>mw_inited := True\<rparr>" "lit ''h''"
      "[HSet (lit ''a'') (lit ''1''), HMSet [(lit ''b'', lit ''2''), (lit ''a'', [])], HDel (lit ''b'')]"
      "lit ''a''" "\<lambda>_. []"]
  by (simp add: Let_def small_args_def lit_def flatten_pairs_def hash_view_def fun_upd_twist)

text \<open>\<open>hgetall\<close> into a map that is not empty does not update it: an entry that the map has
  already keeps its old value, whatever the hash holds, and the call reports success.\<close>

theorem hgetall_keeps_stale:
  assumes "hash_server srv view" "mw_inited m" "c_string key" "small_args [lit ''HGETALL'', key]"
    "kv f = Some old"
  shows "fst (fst (mw_hgetall srv m key kv s)) = 0 \<and>
    snd (fst (mw_hgetall srv m key kv s)) f = Some old"
  using hgetall_server [OF assms(1,4,3), of s] assms(2,3,5) by (simp add: mw_hgetall_def)

lemma hgetall_keeps_stale_witness:
  "snd (fst (mw_hgetall hash_demo (mw_new\<lparr>mw_inited := True\<rparr>) (lit ''h'') [lit ''a'' \<mapsto> lit ''old'']
     (\<lambda>_. [(lit ''a'', lit ''new'')]))) (lit ''a'') = Some (lit ''old'')"
  using hgetall_keeps_stale [OF hash_demo_server, of "mw_new\<lparr>mw_inited := True\<rparr>" "lit ''h''"
      "[lit ''a'' \<mapsto> lit ''old'']" "lit ''a''" "lit ''old''" "\<lambda>_. [(lit ''a'', lit ''new'')]"]
  by (simp add: small_args_def lit_def)

text \<open>C7: On a server that keeps redis' promises for strings, \<open>get\<close> after \<open>set\<close> gives the value
  back, whatever bytes key and value hold, and changes nothing, and \<open>set\<close> changes no other key.
  A \<open>del\<close> of any keys after that, the one that was set or others, known or not and even named
  twice, removes exactly these and tells how many of them there were.\<close>

theorem set_get_del:
  assumes "value_server srv view" "mw_inited m" "small_args [lit ''SETEX'', key, v]"
    "keys \<noteq> []" "small_args (lit ''DEL'' # keys)"
  shows "case mw_set srv m key v s of (ok, s1) \<Rightarrow>
    ok \<and> view s1 = (view s)(key \<mapsto> v) \<and>
    (case mw_get srv m key s1 of (out, s2) \<Rightarrow> out = (True, Some v) \<and> view s2 = view s1 \<and>
      (case mw_del srv m keys s2 of (n, s3) \<Rightarrow>
        n = int (card (set keys \<inter> dom ((view s)(key \<mapsto> v)))) \<and>
        view s3 = (\<lambda>k. if k \<in> set keys then None else if k = key then Some v else view s k)))"
proof -
  have sm: "small_args [lit ''SET'', key, v]" "small_args [lit ''GET'', key]"
    using assms(3) by (auto simp: small_args_def lit_def)
  obtain ok s1 where 1: "set_str srv key v s = (ok, s1)" by fastforce
  obtain out s2 where 2: "get_str srv key s1 = (out, s2)" by fastforce
  obtain n s3 where 3: "del_keys srv keys s2 = (n, s3)" by fastforce
  have "((view s)(key \<mapsto> v)) |` (- set keys) = (\<lambda>k. if k \<in> set keys then None else if k = key then Some v else view s k)"
    by (auto simp: restrict_map_def fun_eq_iff)
  then show ?thesis
    using set_server [OF assms(1) sm(1), of s] get_server [OF assms(1) sm(2), of s1]
      del_server [OF assms(1,5,4), of s2] assms(2) 1 2 3
    by (simp add: mw_set_def mw_get_def mw_del_def)
qed

text \<open>Two of the three keys named are there.\<close>

lemma set_get_del_witness:
  "fst (mw_del value_demo (mw_new\<lparr>mw_inited := True\<rparr>) [[0, 1], [7], [9]]
     (snd (mw_get value_demo (mw_new\<lparr>mw_inited := True\<rparr>) [0, 1]
     (snd (mw_set value_demo (mw_new\<lparr>mw_inited := True\<rparr>) [0, 1] [2, 0] [[7] \<mapsto> [3]]))))) = 2"
proof -
  have c: "set [[0, 1], [7], [9 :: byte]] \<inter> dom ([[7] \<mapsto> [3 :: byte]]([0, 1] \<mapsto> [2, 0])) = {[0, 1], [7]}"
    by auto
  show ?thesis
    using set_get_del [OF value_demo_server, of "mw_new\<lparr>mw_inited := True\<rparr>" "[0, 1]" "[2, 0]" "[[0, 1], [7], [9]]"
        "[[7] \<mapsto> [3]]"]
    unfolding c by (auto simp: small_args_def lit_def split: prod.splits)
qed

end
