(* ===== verification/Conn_Pool.thy ===== *)
theory Conn_Pool
  imports Cstdlib
begin

text \<open>
  \<^verbatim>\<open>aclredis/src/connpool/connect_pool.cpp\<close> and \<^verbatim>\<open>aclredis/src/redis/redis_client_pool.cpp\<close>: the
  connections to one server, those in use counted and the idle ones kept in a list. A
  connection is an object of some type \<open>'c\<close> with the pool it is bound to (this one or not) and
  the time it was given back. The current time is an argument, and so is what opening a
  connection does (\<open>create_connect\<close> and \<open>open\<close>): no connection when it fails. The macro
  \<open>AUTO_SET_ALIVE\<close> is not set. The counter \<open>count_\<close> is a \<open>size_t\<close> and wraps around.

  \<open>pool_run\<close> is any use of a pool by callers that give back what they have taken;
  \<open>pool_ok\<close> ties the counter to the connections and to the limit.
\<close>

section \<open>State\<close>

record 'c pconn =
  pc_obj :: 'c
  pc_mine :: bool
  pc_when :: int

record 'c pool =
  p_addr :: cstr
  p_key :: cstr
  p_alive :: bool
  p_delay_destroy :: bool
  p_retry_inter :: int
  p_last_dead :: int
  p_conn_timeout :: int
  p_rw_timeout :: int
  p_idx :: nat
  p_max :: nat
  p_count :: u64
  p_idle_ttl :: int
  p_last_check :: int
  p_check_inter :: int
  p_total_used :: u64
  p_current_used :: u64
  p_last :: int
  p_idle :: "'c pconn list"
  p_pass :: "cstr option"
  p_db :: int

text \<open>\<open>ACL_SAFE_STRNCPY\<close> into 256 bytes.\<close>

definition pool_new :: "cstr \<Rightarrow> nat \<Rightarrow> nat \<Rightarrow> 'c pool" where
  "pool_new addr max_count idx =
     \<lparr>p_addr = take 255 addr, p_key = map tolower (take 255 addr), p_alive = True,
      p_delay_destroy = False, p_retry_inter = 1, p_last_dead = 0, p_conn_timeout = 30,
      p_rw_timeout = 30, p_idx = idx, p_max = max_count, p_count = 0, p_idle_ttl = -1,
      p_last_check = 0, p_check_inter = 30, p_total_used = 0, p_current_used = 0, p_last = 0,
      p_idle = [], p_pass = None, p_db = 0\<rparr>"

definition pool_set_key :: "'c pool \<Rightarrow> cstr \<Rightarrow> 'c pool" where
  "pool_set_key p key = p\<lparr>p_key := map tolower (take 255 key)\<rparr>"

definition pool_set_timeout :: "'c pool \<Rightarrow> int \<Rightarrow> int \<Rightarrow> 'c pool" where
  "pool_set_timeout p conn_t rw_t = p\<lparr>p_conn_timeout := conn_t, p_rw_timeout := rw_t\<rparr>"

definition pool_set_idle_ttl :: "'c pool \<Rightarrow> int \<Rightarrow> 'c pool" where
  "pool_set_idle_ttl p ttl = p\<lparr>p_idle_ttl := ttl\<rparr>"

definition pool_set_retry_inter :: "'c pool \<Rightarrow> int \<Rightarrow> 'c pool" where
  "pool_set_retry_inter p n = p\<lparr>p_retry_inter := n\<rparr>"

definition pool_set_check_inter :: "'c pool \<Rightarrow> int \<Rightarrow> 'c pool" where
  "pool_set_check_inter p n = p\<lparr>p_check_inter := n\<rparr>"

definition pool_reset_statistics :: "'c pool \<Rightarrow> int \<Rightarrow> int \<Rightarrow> 'c pool" where
  "pool_reset_statistics p now every =
     (if now - p_last p \<ge> every then p\<lparr>p_last := now, p_current_used := 0\<rparr> else p)"

definition pool_set_password :: "'c pool \<Rightarrow> cstr option \<Rightarrow> 'c pool" where
  "pool_set_password p pass =
     (case pass of None \<Rightarrow> p\<lparr>p_pass := None\<rparr>
      | Some w \<Rightarrow> if w \<noteq> [] then p\<lparr>p_pass := Some w\<rparr> else p\<lparr>p_pass := None\<rparr>)"

definition pool_set_db :: "'c pool \<Rightarrow> int \<Rightarrow> 'c pool" where
  "pool_set_db p dbnum = (if dbnum > 0 then p\<lparr>p_db := dbnum\<rparr> else p)"

definition pool_set_delay_destroy :: "'c pool \<Rightarrow> 'c pool" where
  "pool_set_delay_destroy p = p\<lparr>p_delay_destroy := True\<rparr>"

definition pool_set_alive :: "'c pool \<Rightarrow> int \<Rightarrow> bool \<Rightarrow> 'c pool" where
  "pool_set_alive p now yes =
     (if yes then p\<lparr>p_alive := True\<rparr> else p\<lparr>p_alive := False, p_last_dead := now\<rparr>)"

definition pool_aliving :: "'c pool \<Rightarrow> int \<Rightarrow> bool \<times> 'c pool" where
  "pool_aliving p now =
     (if p_alive p then (True, p)
      else if p_retry_inter p > 0 \<and> now - p_last_dead p \<ge> p_retry_inter p then (True, p\<lparr>p_alive := True\<rparr>)
      else (False, p))"

section \<open>Taking and giving back\<close>

text \<open>Opening is a function of the pool, for its address and settings, and of the state of the
  surroundings.\<close>

definition pool_peek ::
  "'c pool \<Rightarrow> int \<Rightarrow> bool \<Rightarrow> ('c pool \<Rightarrow> 's \<Rightarrow> 'c option \<times> 's) \<Rightarrow> 's \<Rightarrow> 'c pconn option \<times> 'c pool \<times> 's"
where
  "pool_peek p now on open_conn s =
     (if \<not> p_alive p \<and> (p_retry_inter p \<le> 0 \<or> now - p_last_dead p < p_retry_inter p) then (None, p, s)
      else let p = p\<lparr>p_alive := True\<rparr> in
        case p_idle p of
          c # cs \<Rightarrow>
            (Some c, p\<lparr>p_idle := cs, p_total_used := p_total_used p + 1, p_current_used := p_current_used p + 1\<rparr>, s)
        | [] \<Rightarrow>
            if p_max p > 0 \<and> unat (p_count p) \<ge> p_max p then (None, p, s)
            else if \<not> on then (None, p, s)
            else (case open_conn p s of
              (None, s) \<Rightarrow> (None, p, s)
            | (Some c, s) \<Rightarrow>
                (Some \<lparr>pc_obj = c, pc_mine = True, pc_when = 0\<rparr>,
                 p\<lparr>p_count := p_count p + 1, p_total_used := p_total_used p + 1,
                   p_current_used := p_current_used p + 1\<rparr>, s)))"

definition pool_bind_one :: "'c pool \<Rightarrow> 'c pconn \<Rightarrow> 'c pconn \<times> 'c pool" where
  "pool_bind_one p c =
     (if \<not> pc_mine c then (c\<lparr>pc_mine := True\<rparr>, p\<lparr>p_count := p_count p + 1\<rparr>) else (c, p))"

text \<open>The loop of \<open>check_idle\<close> from the end of the list: what is left of the reversed list, how
  many were deleted and how many of these were bound to this pool.\<close>

fun idle_sweep :: "int \<Rightarrow> int \<Rightarrow> 'c pconn list \<Rightarrow> 'c pconn list \<times> nat \<times> nat" where
  "idle_sweep now ttl [] = ([], 0, 0)"
| "idle_sweep now ttl (c # cs) =
     (if pc_when c \<le> 0 then (case idle_sweep now ttl cs of (ks, n, d) \<Rightarrow> (c # ks, n, d))
      else if now - pc_when c < ttl then (c # cs, 0, 0)
      else (case idle_sweep now ttl cs of (ks, n, d) \<Rightarrow> (ks, n + 1, if pc_mine c then d + 1 else d)))"

definition pool_check_idle :: "'c pool \<Rightarrow> int \<Rightarrow> int \<Rightarrow> nat \<times> 'c pool" where
  "pool_check_idle p now ttl =
     (if ttl < 0 then (0, p)
      else if p_idle p = [] then (0, p)
      else if ttl = 0 then (length (p_idle p), p\<lparr>p_idle := [], p_count := 0\<rparr>)
      else (case idle_sweep now ttl (rev (p_idle p)) of
        (ks, n, d) \<Rightarrow> (n, p\<lparr>p_idle := rev ks, p_count := p_count p - of_nat d\<rparr>)))"

text \<open>\<open>put\<close> may destroy the pool itself, or stop at its assertion.\<close>

datatype 'p put_result = Kept 'p | Destroyed | Aborted

definition pool_put :: "'c pool \<Rightarrow> int \<Rightarrow> 'c pconn \<Rightarrow> bool \<Rightarrow> 'c pool put_result" where
  "pool_put p now c keep =
     (if p_delay_destroy p then
        (let p = (if pc_mine c then p\<lparr>p_count := p_count p - 1\<rparr> else p)
         in if p_count p \<le> 0 then Destroyed else Kept p)
      else if \<not> (keep \<and> p_alive p) \<and> \<not> p_count p > 0 then Aborted
      else let
        p = (if keep \<and> p_alive p then p\<lparr>p_idle := c\<lparr>pc_when := now\<rparr> # p_idle p\<rparr>
             else if pc_mine c then p\<lparr>p_count := p_count p - 1\<rparr> else p)
        in Kept (if p_idle_ttl p \<ge> 0 \<and> now - p_last_check p \<ge> p_check_inter p
                 then (snd (pool_check_idle p now (p_idle_ttl p)))\<lparr>p_last_check := now\<rparr>
                 else p))"

section \<open>Accounting\<close>

text \<open>\<open>out\<close> connections of the pool are in use.\<close>

definition pool_ok :: "'c pool \<Rightarrow> nat \<Rightarrow> bool" where
  "pool_ok p out \<longleftrightarrow>
     unat (p_count p) = length (p_idle p) + out \<and> (\<forall>c \<in> set (p_idle p). pc_mine c) \<and>
     (p_max p > 0 \<longrightarrow> length (p_idle p) + out \<le> p_max p)"

lemma pool_ok_new: "pool_ok (pool_new addr n idx) 0"
  by (simp add: pool_ok_def pool_new_def)

lemma pool_ok_settings [simp]:
  "pool_ok (p\<lparr>p_alive := a\<rparr>) out = pool_ok p out"
  "pool_ok (p\<lparr>p_last_dead := t\<rparr>) out = pool_ok p out"
  "pool_ok (p\<lparr>p_last_check := t\<rparr>) out = pool_ok p out"
  "pool_ok (p\<lparr>p_retry_inter := t\<rparr>) out = pool_ok p out"
  "pool_ok (p\<lparr>p_total_used := u\<rparr>) out = pool_ok p out"
  "pool_ok (p\<lparr>p_current_used := u\<rparr>) out = pool_ok p out"
  "pool_ok (p\<lparr>p_pass := w\<rparr>) out = pool_ok p out"
  "pool_ok (p\<lparr>p_key := k\<rparr>) out = pool_ok p out"
  "pool_ok (p\<lparr>p_conn_timeout := t\<rparr>) out = pool_ok p out"
  "pool_ok (p\<lparr>p_rw_timeout := t\<rparr>) out = pool_ok p out"
  "pool_ok (p\<lparr>p_idle_ttl := t\<rparr>) out = pool_ok p out"
  "pool_ok (p\<lparr>p_check_inter := t\<rparr>) out = pool_ok p out"
  by (simp_all add: pool_ok_def)

lemma pool_set_alive_ok: "pool_ok p out \<Longrightarrow> pool_ok (pool_set_alive p now yes) out"
  by (simp add: pool_set_alive_def)

lemma pool_aliving_ok: "pool_ok p out \<Longrightarrow> pool_ok (snd (pool_aliving p now)) out"
  by (simp add: pool_aliving_def)

lemma pool_peek_ok:
  assumes "pool_ok p out" "pool_peek p now on op s = (r, p', s')"
    "p_max p = 0 \<longrightarrow> unat (p_count p) + 1 < 2 ^ 64" "p_max p < 2 ^ 64"
  shows "pool_ok p' (case r of None \<Rightarrow> out | Some c \<Rightarrow> Suc out) \<and> (\<forall>c. r = Some c \<longrightarrow> pc_mine c)"
proof (cases "p_max p > 0 \<and> unat (p_count p) \<ge> p_max p")
  case True
  then show ?thesis using assms(1,2)
    by (auto simp: pool_peek_def pool_ok_def Let_def split: if_splits list.splits)
next
  case False
  then have "unat (p_count p) + 1 < 2 ^ 64" using assms(3,4) by (cases "p_max p") auto
  then have "unat (p_count p + 1) = unat (p_count p) + 1"
    by (subst unat_word_ariths) simp
  then show ?thesis using assms(1,2) False
    by (auto simp: pool_peek_def pool_ok_def Let_def split: if_splits list.splits option.splits prod.splits)
qed

lemma idle_sweep_length:
  "idle_sweep now ttl cs = (ks, n, d) \<Longrightarrow>
   length cs = length ks + n \<and> set ks \<subseteq> set cs \<and> ((\<forall>c \<in> set cs. pc_mine c) \<longrightarrow> d = n)"
  by (induction cs arbitrary: ks n d) (auto split: if_splits prod.splits)

lemma unat_minus_of_nat: "d \<le> unat (x :: u64) \<Longrightarrow> unat (x - of_nat d) = unat x - d"
proof -
  assume d: "d \<le> unat x"
  have "unat x < 2 ^ 64" using unsigned_less [of x] by simp
  with d have "unat (of_nat d :: u64) = d" by (simp add: unsigned_of_nat take_bit_nat_eq_self)
  with d show ?thesis by (simp add: unat_sub word_le_nat_alt)
qed

lemma pool_check_idle_ok:
  assumes "pool_ok p out" "ttl \<noteq> 0"
  shows "pool_ok (snd (pool_check_idle p now ttl)) out"
proof (cases "ttl < 0 \<or> p_idle p = []")
  case True
  then show ?thesis using assms(1) by (auto simp: pool_check_idle_def)
next
  case False
  obtain ks n d where sw: "idle_sweep now ttl (rev (p_idle p)) = (ks, n, d)" by (metis surj_pair)
  from idle_sweep_length [OF sw] assms(1) have len: "length (p_idle p) = length ks + n"
    and sub: "set ks \<subseteq> set (p_idle p)" and d: "d = n" by (auto simp: pool_ok_def)
  have "unat (p_count p - of_nat d) = unat (p_count p) - d"
    using assms(1) len d by (intro unat_minus_of_nat) (simp add: pool_ok_def)
  with assms False sw len sub d show ?thesis by (auto simp: pool_check_idle_def pool_ok_def)
qed

lemma pool_settings [simp]:
  "p_max (snd (pool_check_idle p now ttl)) = p_max p"
  "p_idle_ttl (snd (pool_check_idle p now ttl)) = p_idle_ttl p"
  "p_delay_destroy (snd (pool_check_idle p now ttl)) = p_delay_destroy p"
  "p_max (pool_set_alive p now yes) = p_max p"
  "p_idle_ttl (pool_set_alive p now yes) = p_idle_ttl p"
  "p_delay_destroy (pool_set_alive p now yes) = p_delay_destroy p"
  "p_max (snd (pool_aliving p now)) = p_max p"
  "p_idle_ttl (snd (pool_aliving p now)) = p_idle_ttl p"
  "p_delay_destroy (snd (pool_aliving p now)) = p_delay_destroy p"
  by (auto simp: pool_check_idle_def pool_set_alive_def pool_aliving_def split: prod.splits)

lemma pool_put_ok:
  assumes "pool_ok p (Suc out)" "pc_mine c" "\<not> p_delay_destroy p" "p_idle_ttl p \<noteq> 0"
  shows "\<exists>p'. pool_put p now c keep = Kept p' \<and> pool_ok p' out \<and> \<not> p_delay_destroy p' \<and> p_idle_ttl p' = p_idle_ttl p"
proof -
  have c0: "p_count p > 0" "1 \<le> unat (p_count p)"
    using assms(1) by (auto simp: pool_ok_def word_greater_zero_iff unat_eq_0 intro!: gr0I)
  let ?p = "if keep \<and> p_alive p then p\<lparr>p_idle := c\<lparr>pc_when := now\<rparr> # p_idle p\<rparr> else p\<lparr>p_count := p_count p - 1\<rparr>"
  have ok: "pool_ok ?p out" using assms(1,2) c0 unat_minus_of_nat [of 1 "p_count p"]
    by (auto simp: pool_ok_def)
  show ?thesis
    using assms(2-4) c0(1) ok pool_check_idle_ok [OF ok assms(4)]
    by (cases "keep \<and> p_alive p") (auto simp: pool_put_def Let_def)
qed

section \<open>Any use of a pool\<close>

text \<open>The pool and the connections in use. Callers take and give back in any order, and the
  settings may change, but an idle time of zero is not set (see \<open>pool_zero_ttl\<close>).\<close>

inductive pool_run :: "'c pool \<times> 'c pconn list \<Rightarrow> 'c pool \<times> 'c pconn list \<Rightarrow> bool" for start where
  run_start: "pool_run start start"
| run_take: "pool_run start (p, outs) \<Longrightarrow> length (p_idle p) + length outs + 1 < 2 ^ 64 \<Longrightarrow>
    pool_peek p now on op () = (Some c, p', ()) \<Longrightarrow> pool_run start (p', c # outs)"
| run_refused: "pool_run start (p, outs) \<Longrightarrow> length (p_idle p) + length outs + 1 < 2 ^ 64 \<Longrightarrow>
    pool_peek p now on op () = (None, p', ()) \<Longrightarrow> pool_run start (p', outs)"
| run_give: "pool_run start (p, outs) \<Longrightarrow> c \<in> set outs \<Longrightarrow> pool_put p now c keep = Kept p' \<Longrightarrow>
    pool_run start (p', remove1 c outs)"
| run_sweep: "pool_run start (p, outs) \<Longrightarrow> ttl \<noteq> 0 \<Longrightarrow>
    pool_run start (snd (pool_check_idle p now ttl), outs)"
| run_ttl: "pool_run start (p, outs) \<Longrightarrow> ttl \<noteq> 0 \<Longrightarrow> pool_run start (pool_set_idle_ttl p ttl, outs)"
| run_alive: "pool_run start (p, outs) \<Longrightarrow> pool_run start (pool_set_alive p now yes, outs)"
| run_aliving: "pool_run start (p, outs) \<Longrightarrow> pool_run start (snd (pool_aliving p now), outs)"

definition pool_inv :: "nat \<Rightarrow> 'c pool \<times> 'c pconn list \<Rightarrow> bool" where
  "pool_inv n = (\<lambda>(p, outs). pool_ok p (length outs) \<and> (\<forall>c \<in> set outs. pc_mine c) \<and>
     \<not> p_delay_destroy p \<and> p_idle_ttl p \<noteq> 0 \<and> p_max p = n)"

lemma pool_peek_settings:
  "pool_peek p now on op s = (r, p', s') \<Longrightarrow>
   p_max p' = p_max p \<and> p_idle_ttl p' = p_idle_ttl p \<and> p_delay_destroy p' = p_delay_destroy p"
  by (auto simp: pool_peek_def Let_def split: if_splits list.splits option.splits prod.splits)

lemma pool_put_max: "pool_put p now c keep = Kept p' \<Longrightarrow> p_max p' = p_max p"
  by (auto simp: pool_put_def Let_def split: if_splits)

lemma pool_run_inv:
  assumes "pool_run start c" "pool_inv n start" and n: "n < 2 ^ 64"
  shows "pool_inv n c"
  using assms(1,2)
proof (induction rule: pool_run.induct)
  case (run_take p outs now on op c p')
  then have inv: "pool_inv n (p, outs)" by simp
  then have "p_max p = 0 \<longrightarrow> unat (p_count p) + 1 < 2 ^ 64" "p_max p < 2 ^ 64"
    using run_take.hyps(2) n by (simp_all add: pool_inv_def pool_ok_def)
  from pool_peek_ok [OF _ run_take.hyps(3) this, of "length outs"] pool_peek_settings [OF run_take.hyps(3)] inv
  show ?case by (simp add: pool_inv_def)
next
  case (run_refused p outs now on op p')
  then have inv: "pool_inv n (p, outs)" by simp
  then have "p_max p = 0 \<longrightarrow> unat (p_count p) + 1 < 2 ^ 64" "p_max p < 2 ^ 64"
    using run_refused.hyps(2) n by (simp_all add: pool_inv_def pool_ok_def)
  from pool_peek_ok [OF _ run_refused.hyps(3) this, of "length outs"] pool_peek_settings [OF run_refused.hyps(3)] inv
  show ?case by (simp add: pool_inv_def)
next
  case (run_give p outs c now keep p')
  then have inv: "pool_inv n (p, outs)" by simp
  from run_give.hyps(2) have len: "length outs = Suc (length (remove1 c outs))"
    by (simp add: length_remove1) (metis Suc_pred length_pos_if_in_set)
  have "set (remove1 c outs) \<subseteq> set outs" by (rule set_remove1_subset)
  with pool_put_ok [of p "length (remove1 c outs)" c now keep] run_give.hyps(2,3) inv len
    pool_put_max [OF run_give.hyps(3)]
  show ?case by (auto simp: pool_inv_def)
next
  case (run_sweep p outs ttl now)
  then show ?case by (auto simp: pool_inv_def intro: pool_check_idle_ok)
next
  case (run_ttl p outs ttl)
  then show ?case by (simp add: pool_inv_def pool_set_idle_ttl_def)
next
  case (run_alive p outs now yes)
  then show ?case by (simp add: pool_inv_def pool_set_alive_ok)
next
  case (run_aliving p outs now)
  then show ?case by (simp add: pool_inv_def pool_aliving_ok)
qed

section \<open>Properties\<close>

text \<open>C8: In every run of \<open>peek\<close>, \<open>put\<close>, \<open>check_idle\<close>, \<open>set_idle_ttl\<close>, \<open>set_alive\<close> and \<open>aliving\<close> on a
  new pool, in any order, \<open>count_\<close> is the number of its connections, idle or in use; when the
  pool has a limit they are never more than that; and whatever connection is in use can be
  given back, kept or closed, without the assertion of \<open>put\<close> failing. The runs are those that
  never set or check an idle time of 0 (with it the accounts go wrong, \<open>pool_zero_ttl\<close>) and do
  not destroy the pool while connections are out, with fewer than 2^64 connections.\<close>

theorem pool_accounts:
  assumes "pool_run (pool_new addr n idx, []) (p, outs)" "n < 2 ^ 64"
  shows "unat (p_count p) = length (p_idle p) + length outs \<and>
    (n > 0 \<longrightarrow> length (p_idle p) + length outs \<le> n) \<and>
    (\<forall>c \<in> set outs. \<forall>now keep. \<exists>p'. pool_put p now c keep = Kept p')"
proof -
  have "pool_inv n (pool_new addr n idx, [] :: 'a pconn list)"
    by (simp add: pool_inv_def pool_ok_new) (simp add: pool_new_def)
  from pool_run_inv [OF assms(1) this assms(2)] have inv: "pool_inv n (p, outs)" .
  have "\<exists>p'. pool_put p now c keep = Kept p'" if "c \<in> set outs" for c now keep
  proof -
    have "length outs = Suc (length outs - 1)" using that by (cases outs) auto
    with pool_put_ok [of p "length outs - 1" c now keep] inv that show ?thesis
      by (auto simp: pool_inv_def)
  qed
  with inv show ?thesis by (auto simp: pool_inv_def pool_ok_def)
qed

lemma pool_accounts_witness:
  "\<exists>p c p'. pool_run (pool_new (lit ''h:1'') 1 0, []) (p, [c]) \<and> p_count p = 1 \<and>
     pool_put p 5 (c :: unit pconn) False = Kept p'"
proof -
  let ?c = "\<lparr>pc_obj = (), pc_mine = True, pc_when = 0\<rparr>"
  let ?q = "pool_new (lit ''h:1'') 1 0 :: unit pool"
  let ?p = "?q\<lparr>p_count := 1, p_total_used := 1, p_current_used := 1\<rparr>"
  have run: "pool_run (?q, []) (?p, [?c])"
    by (rule run_take [OF run_start, of _ _ 0 True "\<lambda>p s. (Some (), s)"]) (simp_all add: pool_new_def pool_peek_def)
  from pool_accounts [OF run] obtain p' where "pool_put ?p 5 ?c False = Kept p'" by auto
  with run show ?thesis by (intro exI [of _ ?p] exI [of _ ?c] exI [of _ p']) simp
qed

text \<open>\<open>check_idle\<close> with a time of zero, which \<open>set_idle_ttl(0)\<close> asks for at every \<open>put\<close>,
  closes the idle connections and sets \<open>count_\<close> to zero, although connections are still in
  use: the pool then opens a full set of new ones, beyond its limit, and the next connection
  that is given back to be closed stops the process at the assertion.\<close>

theorem pool_zero_ttl:
  assumes "pool_ok p out" "p_idle p \<noteq> []" "p_alive p" "\<not> p_delay_destroy p"
  shows "p_count (snd (pool_check_idle p now 0)) = 0 \<and> p_idle (snd (pool_check_idle p now 0)) = [] \<and>
    (p_max p > 0 \<longrightarrow> (\<exists>c p'. pool_peek (snd (pool_check_idle p now 0)) now True (\<lambda>p s. (Some x, s)) s = (Some c, p', s))) \<and>
    pool_put (snd (pool_check_idle p now 0)) now c False = Aborted"
  using assms by (simp add: pool_check_idle_def pool_peek_def pool_put_def Let_def)

lemma pool_zero_ttl_witness:
  "pool_put (snd (pool_check_idle ((pool_new (lit ''h:1'') 2 0)\<lparr>p_count := 2,
      p_idle := [\<lparr>pc_obj = (), pc_mine = True, pc_when = 1\<rparr>]\<rparr>) 9 0)) 9 \<lparr>pc_obj = (), pc_mine = True, pc_when = 0\<rparr> False
   = Aborted"
  using pool_zero_ttl [of "(pool_new (lit ''h:1'') 2 0)\<lparr>p_count := 2,
      p_idle := [\<lparr>pc_obj = (), pc_mine = True, pc_when = 1\<rparr>]\<rparr>" 1 9 "()" "()" "\<lparr>pc_obj = (), pc_mine = True, pc_when = 0\<rparr>"]
  by (simp add: pool_ok_def pool_new_def)

text \<open>A pool that is to destroy itself when its last connection is given back does so only
  if it has no idle ones: these are counted too, so otherwise the pool and its idle connections
  stay for good.\<close>

theorem pool_delayed_destroy:
  assumes "pool_ok p 1" "p_delay_destroy p" "pc_mine c"
  shows "(pool_put p now c keep = Destroyed) = (p_idle p = [])"
proof -
  have "unat (p_count p - 1) = unat (p_count p) - 1"
    using assms(1) unat_minus_of_nat [of 1 "p_count p"] by (simp add: pool_ok_def)
  then have "unat (p_count p - 1) = length (p_idle p)" using assms(1) by (simp add: pool_ok_def)
  then have "p_count p - 1 \<le> 0 \<longleftrightarrow> p_idle p = []"
    by (metis length_0_conv unat_eq_0 word_le_0_iff)
  with assms(2,3) show ?thesis by (simp add: pool_put_def Let_def)
qed

lemma pool_delayed_destroy_witness:
  "pool_put ((pool_new (lit ''h:1'') 2 0)\<lparr>p_count := 1, p_delay_destroy := True\<rparr>) 9
     \<lparr>pc_obj = (), pc_mine = True, pc_when = 0\<rparr> True = Destroyed"
  by (subst pool_delayed_destroy) (simp_all add: pool_ok_def pool_new_def)

end
