(* ===== verification/Conn_Manager.thy ===== *)
theory Conn_Manager
  imports Conn_Pool
begin

text \<open>
  \<^verbatim>\<open>aclredis/src/connpool/connect_manager.cpp\<close>: the pools of a set of servers. The manager knows
  the address of every server (\<open>addrs_\<close>) and makes the pools when they are first asked for;
  \<open>peek\<close> hands out the pools in turn and skips those that are down. The virtual
  \<open>create_pool\<close> is an argument. The pools are those of one thread id: without thread binding
  there is only one. The monitor thread, the statistics and \<open>peek(addr)\<close>, which picks a pool by
  a checksum, are left out.

  A \<open>std::map\<close> is the list of its entries in the order of its iterator. A pool is named by its
  index in the vector.
\<close>

section \<open>State\<close>

record conn_config =
  cf_addr :: cstr
  cf_count :: nat
  cf_conn_timeout :: int
  cf_rw_timeout :: int

record 'c manager =
  mg_default_addr :: cstr
  mg_default_pool :: "nat option"
  mg_retry_inter :: int
  mg_idle_ttl :: int
  mg_check_inter :: int
  mg_addrs :: "(cstr \<times> conn_config) list"
  mg_pools :: "'c pool list"
  mg_check_next :: u64
  mg_conns_next :: u64

definition manager_new :: "'c manager" where
  "manager_new = \<lparr>mg_default_addr = [], mg_default_pool = None, mg_retry_inter = 1, mg_idle_ttl = -1,
     mg_check_inter = -1, mg_addrs = [], mg_pools = [], mg_check_next = 0, mg_conns_next = 0\<rparr>"

text \<open>The order of \<open>acl::string\<close>: \<open>memcmp\<close>, then the length.\<close>

fun bytes_less :: "byte list \<Rightarrow> byte list \<Rightarrow> bool" where
  "bytes_less [] ys = (ys \<noteq> [])"
| "bytes_less (x # xs) [] = False"
| "bytes_less (x # xs) (y # ys) = (x < y \<or> x = y \<and> bytes_less xs ys)"

fun map_put :: "cstr \<Rightarrow> 'v \<Rightarrow> (cstr \<times> 'v) list \<Rightarrow> (cstr \<times> 'v) list" where
  "map_put k v [] = [(k, v)]"
| "map_put k v ((k', v') # es) =
     (if k = k' then (k, v) # es else if bytes_less k k' then (k, v) # (k', v') # es else (k', v') # map_put k v es)"

section \<open>Addresses\<close>

text \<open>\<open>check_addr\<close> on \<open>IP:PORT[:MAX_CONN]\<close>: the limit and the address in its short form, or
  \<open>None\<close> (-1).\<close>

definition check_addr :: "cstr \<Rightarrow> int \<Rightarrow> (int \<times> cstr) option" where
  "check_addr addr default_count =
     (case strtok_tokens addr {58, 124} of
        ip # p # rest \<Rightarrow>
          (let port = c_atoi p in
           if port \<le> 0 \<or> port \<ge> 65535 then None
           else let
             conn_max = (case rest of [] \<Rightarrow> default_count | t # _ \<Rightarrow> c_atoi t);
             conn_max = (if conn_max < 0 then default_count else conn_max)
             in Some (conn_max, ip @ [58] @ dec_of_int port))
      | _ \<Rightarrow> None)"

definition get_key :: "cstr \<Rightarrow> cstr" where
  "get_key addr = map tolower addr"

section \<open>Settings\<close>

definition manager_set_retry_inter :: "('c, 'z) manager_scheme \<Rightarrow> int \<Rightarrow> ('c, 'z) manager_scheme" where
  "manager_set_retry_inter m n =
     (if n = mg_retry_inter m then m
      else m\<lparr>mg_retry_inter := n, mg_pools := map (\<lambda>p. pool_set_retry_inter p n) (mg_pools m)\<rparr>)"

definition manager_set_check_inter :: "('c, 'z) manager_scheme \<Rightarrow> int \<Rightarrow> ('c, 'z) manager_scheme" where
  "manager_set_check_inter m n = m\<lparr>mg_check_inter := n\<rparr>"

definition manager_set_idle_ttl :: "('c, 'z) manager_scheme \<Rightarrow> int \<Rightarrow> ('c, 'z) manager_scheme" where
  "manager_set_idle_ttl m ttl = m\<lparr>mg_idle_ttl := ttl\<rparr>"

text \<open>\<open>set\<close>: a server that is known already keeps its configuration.\<close>

definition manager_set ::
  "('c, 'z) manager_scheme \<Rightarrow> cstr \<Rightarrow> nat \<Rightarrow> int \<Rightarrow> int \<Rightarrow> ('c, 'z) manager_scheme"
where
  "manager_set m addr cnt conn_t rw_t =
     (let buf = map tolower addr in
      case map_of (mg_addrs m) buf of
        None \<Rightarrow> m\<lparr>mg_addrs := map_put buf
          \<lparr>cf_addr = addr, cf_count = cnt, cf_conn_timeout = conn_t, cf_rw_timeout = rw_t\<rparr> (mg_addrs m)\<rparr>
      | Some _ \<Rightarrow> m)"

text \<open>A configured limit is an \<open>int\<close> that becomes a \<open>size_t\<close>; it is not negative.\<close>

fun set_services ::
  "('c, 'z) manager_scheme \<Rightarrow> cstr list \<Rightarrow> int \<Rightarrow> int \<Rightarrow> int \<Rightarrow> ('c, 'z) manager_scheme"
where
  "set_services m [] cnt conn_t rw_t = m"
| "set_services m (t # ts) cnt conn_t rw_t =
     (case check_addr t cnt of
        None \<Rightarrow> set_services m ts cnt conn_t rw_t
      | Some (conn_max, addr) \<Rightarrow>
          if conn_max < 0 then set_services m ts cnt conn_t rw_t
          else set_services (manager_set m addr (nat conn_max) conn_t rw_t) ts cnt conn_t rw_t)"

definition set_service_list ::
  "('c, 'z) manager_scheme \<Rightarrow> cstr \<Rightarrow> int \<Rightarrow> int \<Rightarrow> int \<Rightarrow> ('c, 'z) manager_scheme"
where
  "set_service_list m addr_list cnt conn_t rw_t =
     (if addr_list = [] then m
      else set_services m (strtok_tokens (acl_strtrim addr_list) {59, 44}) cnt conn_t rw_t)"

section \<open>Pools\<close>

type_synonym 'c pool_maker = "cstr \<Rightarrow> nat \<Rightarrow> nat \<Rightarrow> 'c pool"

definition manager_create_pool ::
  "'c pool_maker \<Rightarrow> ('c, 'z) manager_scheme \<Rightarrow> conn_config \<Rightarrow> nat \<Rightarrow> 'c pool"
where
  "manager_create_pool mk m cf idx =
     (let
        p = mk (cf_addr cf) (cf_count cf) idx;
        p = pool_set_key p (get_key (cf_addr cf));
        p = pool_set_retry_inter p (mg_retry_inter m);
        p = pool_set_timeout p (cf_conn_timeout cf) (cf_rw_timeout cf);
        p = (if mg_idle_ttl m \<ge> 0 then pool_set_idle_ttl p (mg_idle_ttl m) else p)
      in if mg_check_inter m > 0 then pool_set_check_inter p (mg_check_inter m) else p)"

fun find_pool :: "'c pool list \<Rightarrow> cstr \<Rightarrow> nat option" where
  "find_pool [] key = None"
| "find_pool (p # ps) key = (if key = p_key p then Some 0 else map_option Suc (find_pool ps key))"

text \<open>\<open>get\<close>, with its \<open>restore\<close>.\<close>

definition manager_get ::
  "'c pool_maker \<Rightarrow> ('c, 'z) manager_scheme \<Rightarrow> cstr \<Rightarrow> bool \<Rightarrow> int \<Rightarrow> nat option \<times> ('c, 'z) manager_scheme"
where
  "manager_get mk m addr restore now =
     (case find_pool (mg_pools m) (get_key addr) of
        Some i \<Rightarrow>
          (if restore then
             (case pool_aliving (mg_pools m ! i) now of
                (alive, p) \<Rightarrow>
                  (Some i, m\<lparr>mg_pools := (mg_pools m)[i := if \<not> alive then pool_set_alive p now True else p]\<rparr>))
           else (Some i, m))
      | None \<Rightarrow>
          (case map_of (mg_addrs m) (map tolower addr) of
             None \<Rightarrow> (None, m)
           | Some cf \<Rightarrow>
               (Some (length (mg_pools m)),
                m\<lparr>mg_pools := mg_pools m @ [manager_create_pool mk m cf (length (mg_pools m))]\<rparr>)))"

definition manager_init ::
  "'c pool_maker \<Rightarrow> ('c, 'z) manager_scheme \<Rightarrow> cstr option \<Rightarrow> cstr option \<Rightarrow> nat \<Rightarrow> int \<Rightarrow> int \<Rightarrow> int \<Rightarrow>
   ('c, 'z) manager_scheme"
where
  "manager_init mk m default_addr addr_list cnt conn_t rw_t now =
     (let m = (case addr_list of None \<Rightarrow> m
               | Some l \<Rightarrow> if l \<noteq> [] then set_service_list m l (int cnt) conn_t rw_t else m)
      in case default_addr of
        None \<Rightarrow> m
      | Some d \<Rightarrow>
          if d = [] then m
          else (case check_addr d (int cnt) of
            None \<Rightarrow> m
          | Some (conn_max, addr) \<Rightarrow>
              if conn_max < 0 then m\<lparr>mg_default_addr := addr\<rparr>
              else (case manager_get mk (manager_set (m\<lparr>mg_default_addr := addr\<rparr>) addr (nat conn_max) conn_t rw_t)
                      addr False now of
                (i, m) \<Rightarrow> m\<lparr>mg_default_pool := i\<rparr>)))"

text \<open>\<open>remove\<close>: the pool leaves the vector, and destroys itself later.\<close>

definition manager_remove :: "('c, 'z) manager_scheme \<Rightarrow> cstr \<Rightarrow> 'c pool option \<times> ('c, 'z) manager_scheme" where
  "manager_remove m addr =
     (case find_pool (mg_pools m) (map tolower addr) of
        None \<Rightarrow> (None, m)
      | Some i \<Rightarrow> (Some (pool_set_delay_destroy (mg_pools m ! i)),
          m\<lparr>mg_pools := take i (mg_pools m) @ drop (Suc i) (mg_pools m)\<rparr>))"

fun create_pools_for ::
  "'c pool_maker \<Rightarrow> ('c, 'z) manager_scheme \<Rightarrow> (cstr \<times> conn_config) list \<Rightarrow> 'c pool list \<Rightarrow> 'c pool list"
where
  "create_pools_for mk m [] ps = ps"
| "create_pools_for mk m ((k, cf) # es) ps =
     create_pools_for mk m es (ps @ [manager_create_pool mk m cf (length ps)])"

text \<open>The loop of \<open>peek\<close> over \<open>service_size\<close> pools.\<close>

fun peek_loop ::
  "nat \<Rightarrow> ('c, 'z) manager_scheme \<Rightarrow> int \<Rightarrow> nat option \<times> ('c, 'z) manager_scheme"
where
  "peek_loop 0 m now = (None, m)"
| "peek_loop (Suc k) m now =
     (let n = unat (mg_conns_next m) mod length (mg_pools m) in
      case pool_aliving (mg_pools m ! n) now of
        (alive, p) \<Rightarrow>
          let m = m\<lparr>mg_conns_next := mg_conns_next m + 1, mg_pools := (mg_pools m)[n := p]\<rparr>
          in if alive then (Some n, m) else peek_loop k m now)"

definition manager_peek ::
  "'c pool_maker \<Rightarrow> ('c, 'z) manager_scheme \<Rightarrow> int \<Rightarrow> nat option \<times> ('c, 'z) manager_scheme"
where
  "manager_peek mk m now =
     (if mg_addrs m = [] then (None, m)
      else let m = (if mg_pools m = [] then m\<lparr>mg_pools := create_pools_for mk m (mg_addrs m) []\<rparr> else m)
           in peek_loop (length (mg_pools m)) m now)"

definition manager_set_pools_status ::
  "('c, 'z) manager_scheme \<Rightarrow> cstr \<Rightarrow> bool \<Rightarrow> int \<Rightarrow> ('c, 'z) manager_scheme"
where
  "manager_set_pools_status m addr alive now =
     (if addr = [] then m
      else case find_pool (mg_pools m) (map tolower addr) of
        None \<Rightarrow> m
      | Some i \<Rightarrow> m\<lparr>mg_pools := (mg_pools m)[i := pool_set_alive (mg_pools m ! i) now alive]\<rparr>)"

text \<open>\<open>check_idle\<close>: the number freed and the number left, over at most \<open>step\<close> pools.\<close>

fun check_idle_loop ::
  "nat \<Rightarrow> ('c, 'z) manager_scheme \<Rightarrow> nat \<Rightarrow> int \<Rightarrow> nat \<Rightarrow> nat \<Rightarrow> (nat \<times> nat) \<times> ('c, 'z) manager_scheme"
where
  "check_idle_loop 0 m pos now nfreed nleft = ((nfreed, nleft), m)"
| "check_idle_loop (Suc k) m pos now nfreed nleft =
     (if pos < length (mg_pools m) then
        (case pool_check_idle (mg_pools m ! pos) now (mg_idle_ttl m) of
           (n, p) \<Rightarrow> check_idle_loop k (m\<lparr>mg_pools := (mg_pools m)[pos := p]\<rparr>) (pos + 1) now
                      (nfreed + n) (nleft + unat (p_count p)))
      else ((nfreed, nleft), m))"

definition manager_check_idle ::
  "('c, 'z) manager_scheme \<Rightarrow> nat \<Rightarrow> int \<Rightarrow> (nat \<times> nat) \<times> ('c, 'z) manager_scheme"
where
  "manager_check_idle m step now =
     (let step = (if step = 0 then 1 else step) in
      if mg_pools m = [] then ((0, 0), m)
      else check_idle_loop step (m\<lparr>mg_check_next := mg_check_next m + 1\<rparr>)
             (unat (mg_check_next m) mod length (mg_pools m)) now 0 0)"

definition manager_size :: "('c, 'z) manager_scheme \<Rightarrow> nat" where
  "manager_size m = length (mg_pools m)"

section \<open>Lemmas\<close>

lemma find_pool_some: "find_pool ps key = Some i \<Longrightarrow> i < length ps \<and> p_key (ps ! i) = key"
  by (induction ps arbitrary: i) (auto split: if_splits)

lemma find_pool_none: "find_pool ps key = None \<longleftrightarrow> key \<notin> p_key ` set ps"
  by (induction ps) auto

lemma map_put_of: "map_of (map_put k v es) = (map_of es)(k \<mapsto> v)"
  by (induction k v es rule: map_put.induct) (auto simp: fun_eq_iff)

lemma map_put_ne [simp]: "map_put k v es \<noteq> []"
  by (cases "(k, v, es)" rule: map_put.cases) auto

text \<open>Making the pools for all servers.\<close>

lemma create_pools_for_map:
  "create_pools_for mk m es ps =
   ps @ map (\<lambda>(i, k, cf). manager_create_pool mk m cf (length ps + i)) (enumerate 0 es)"
proof (induction es arbitrary: ps)
  case (Cons e es)
  obtain k cf where e: "e = (k, cf)" by fastforce
  have "enumerate (Suc 0) es = map (\<lambda>(i, x). (Suc i, x)) (enumerate 0 es)"
    by (simp add: enumerate_eq_zip map_Suc_upt [symmetric] zip_map1 del: map_Suc_upt upt_Suc)
  then show ?case by (simp add: e Cons.IH comp_def split_beta)
qed simp

lemma create_pools_for_length [simp]: "length (create_pools_for mk m es ps) = length ps + length es"
  by (simp add: create_pools_for_map)

text \<open>The loop of \<open>peek\<close>: a pool that is tried and found down is as before.\<close>

lemma pool_aliving_false: "pool_aliving p now = (False, p') \<Longrightarrow> p' = p"
  by (auto simp: pool_aliving_def split: if_splits)

definition would_live :: "'c pool \<Rightarrow> int \<Rightarrow> bool" where
  "would_live p now \<longleftrightarrow> fst (pool_aliving p now)"

lemma peek_loop_none:
  "fst (peek_loop k m now) = None \<Longrightarrow> unat (mg_conns_next m) + k < 2 ^ 64 \<Longrightarrow> j < k \<Longrightarrow>
   \<not> would_live (mg_pools m ! ((unat (mg_conns_next m) + j) mod length (mg_pools m))) now"
proof (induction k m now arbitrary: j rule: peek_loop.induct)
  case (2 k m now)
  let ?n = "unat (mg_conns_next m) mod length (mg_pools m)"
  obtain alive p where a: "pool_aliving (mg_pools m ! ?n) now = (alive, p)" by fastforce
  with 2(2) have dead: "alive = False" by (auto simp: Let_def split: if_splits)
  with a have p: "p = mg_pools m ! ?n" using pool_aliving_false by blast
  let ?m = "m\<lparr>mg_conns_next := mg_conns_next m + 1, mg_pools := (mg_pools m)[?n := p]\<rparr>"
  have c: "unat (mg_conns_next m + 1) = unat (mg_conns_next m) + 1"
    using 2(3) by (subst unat_word_ariths) simp
  have same: "mg_pools ?m = mg_pools m" by (simp add: p)
  show ?case
  proof (cases j)
    case 0
    then show ?thesis using a dead by (simp add: would_live_def)
  next
    case (Suc i)
    have "fst (peek_loop k ?m now) = None" using 2(2) a dead by (simp add: Let_def)
    from 2(1) [OF refl a [symmetric] refl _ this, of i] dead 2(3,4) Suc c same show ?thesis by simp
  qed
qed simp

lemma peek_loop_some:
  "fst (peek_loop k m now) = Some i \<Longrightarrow> mg_pools m \<noteq> [] \<Longrightarrow>
   i < length (mg_pools m) \<and> would_live (mg_pools m ! i) now \<and>
   p_alive (mg_pools (snd (peek_loop k m now)) ! i)"
proof (induction k m now rule: peek_loop.induct)
  case (2 k m now)
  let ?n = "unat (mg_conns_next m) mod length (mg_pools m)"
  obtain alive p where a: "pool_aliving (mg_pools m ! ?n) now = (alive, p)" by fastforce
  have n: "?n < length (mg_pools m)" using 2(3) by simp
  show ?case
  proof (cases alive)
    case True
    with a have "p_alive p" by (auto simp: pool_aliving_def split: if_splits)
    with 2(2) a True n show ?thesis by (auto simp: Let_def would_live_def)
  next
    case False
    with a have "pool_aliving (mg_pools m ! ?n) now = (False, p)" by simp
    then have p: "p = mg_pools m ! ?n" by (rule pool_aliving_false)
    from 2(1) [OF refl a [symmetric] refl] 2(2,3) a False p show ?thesis by (simp add: Let_def)
  qed
qed simp

section \<open>Properties\<close>

text \<open>C9: \<open>peek\<close> of a manager that has its pools gives a pool exactly when one of them is up, or
  due for a new try; the pool it gives is such a one and is marked as up. So no server that
  can be reached is passed over for good while the others are down.\<close>

theorem manager_peek_live:
  assumes "mg_addrs m \<noteq> []" "mg_pools m \<noteq> []"
    and "unat (mg_conns_next m) + length (mg_pools m) < 2 ^ 64"
  shows "(fst (manager_peek mk m now) = None \<longleftrightarrow> (\<forall>p \<in> set (mg_pools m). \<not> would_live p now)) \<and>
    (\<forall>i. fst (manager_peek mk m now) = Some i \<longrightarrow>
      i < length (mg_pools m) \<and> would_live (mg_pools m ! i) now \<and>
      p_alive (mg_pools (snd (manager_peek mk m now)) ! i))"
proof -
  let ?n = "length (mg_pools m)" and ?c = "unat (mg_conns_next m)"
  have peek: "manager_peek mk m now = peek_loop ?n m now"
    using assms(1,2) by (simp add: manager_peek_def)
  have all: "\<forall>p \<in> set (mg_pools m). \<not> would_live p now" if "fst (peek_loop ?n m now) = None"
  proof
    fix p assume "p \<in> set (mg_pools m)"
    then obtain i where i: "i < ?n" "mg_pools m ! i = p" by (auto simp: in_set_conv_nth)
    let ?j = "(i + (?n - ?c mod ?n)) mod ?n"
    have "(?c + ?j) mod ?n = (?c mod ?n + (i + (?n - ?c mod ?n))) mod ?n"
      by (simp add: mod_simps)
    also have "?c mod ?n + (i + (?n - ?c mod ?n)) = i + ?n"
      using assms(2) mod_less_divisor [of ?n ?c] by (simp del: mod_less_divisor)
    also have "(i + ?n) mod ?n = i mod ?n" by simp
    also have "\<dots> = i" using i(1) by (rule mod_less)
    finally have "(?c + ?j) mod ?n = i" .
    moreover have "?j < ?n" using assms(2) by simp
    ultimately show "\<not> would_live p now" using peek_loop_none [OF that assms(3)] i(2) by fastforce
  qed
  have some: "i < ?n \<and> would_live (mg_pools m ! i) now \<and> p_alive (mg_pools (snd (peek_loop ?n m now)) ! i)"
    if "fst (peek_loop ?n m now) = Some i" for i
    using peek_loop_some [OF that assms(2)] .
  show ?thesis unfolding peek
    using all some by (metis not_None_eq nth_mem)
qed

lemma manager_peek_live_witness:
  "\<exists>i. fst (manager_peek pool_new (manager_new
      \<lparr>mg_addrs := [(lit ''h:1'', \<lparr>cf_addr = lit ''h:1'', cf_count = 8, cf_conn_timeout = 3, cf_rw_timeout = 3\<rparr>)],
       mg_pools := [pool_new (lit ''h:1'') 8 0 :: unit pool]\<rparr>) 7) = Some i"
  using manager_peek_live [of "manager_new
      \<lparr>mg_addrs := [(lit ''h:1'', \<lparr>cf_addr = lit ''h:1'', cf_count = 8, cf_conn_timeout = 3, cf_rw_timeout = 3\<rparr>)],
       mg_pools := [pool_new (lit ''h:1'') 8 0 :: unit pool]\<rparr>" pool_new 7]
  by (auto simp: manager_new_def would_live_def pool_aliving_def pool_new_def)

text \<open>Asking for the pool of one server before the first \<open>peek\<close>, as \<open>init\<close> does for a
  default server, hides all other servers from \<open>peek\<close>: it makes the pools of the configured
  servers only while there is no pool at all, so from then on it hands out that one pool or
  none.\<close>

theorem manager_get_hides_servers:
  assumes "mg_pools m = []" "map_of (mg_addrs m) (map tolower addr) = Some cf"
  shows "fst (manager_get mk m addr restore now) = Some 0 \<and>
    (let m' = snd (manager_get mk m addr restore now) in
      length (mg_pools m') = 1 \<and>
      (fst (manager_peek mk m' now') = None \<or> fst (manager_peek mk m' now') = Some 0) \<and>
      length (mg_pools (snd (manager_peek mk m' now'))) = 1)"
proof -
  have "mg_addrs m \<noteq> []" using assms(2) by auto
  with assms show ?thesis
    by (auto simp: manager_get_def manager_peek_def Let_def split: prod.splits)
qed

lemma manager_get_hides_servers_witness:
  "length (mg_pools (snd (manager_peek pool_new (snd (manager_get pool_new (manager_new
      \<lparr>mg_addrs := [(lit ''a:1'', \<lparr>cf_addr = lit ''a:1'', cf_count = 8, cf_conn_timeout = 3, cf_rw_timeout = 3\<rparr>),
        (lit ''b:1'', \<lparr>cf_addr = lit ''b:1'', cf_count = 8, cf_conn_timeout = 3, cf_rw_timeout = 3\<rparr>)]\<rparr>)
      (lit ''b:1'') False 7) :: unit manager) 8))) = 1"
proof -
  let ?m = "manager_new
      \<lparr>mg_addrs := [(lit ''a:1'', \<lparr>cf_addr = lit ''a:1'', cf_count = 8, cf_conn_timeout = 3, cf_rw_timeout = 3\<rparr>),
        (lit ''b:1'', \<lparr>cf_addr = lit ''b:1'', cf_count = 8, cf_conn_timeout = 3, cf_rw_timeout = 3\<rparr>)]\<rparr> :: unit manager"
  have "map tolower (lit ''b:1'') = lit ''b:1''" "lit ''b:1'' \<noteq> lit ''a:1''" by (simp_all add: lit_def tolower_def isupper_def)
  then have "map_of (mg_addrs ?m) (map tolower (lit ''b:1'')) =
      Some \<lparr>cf_addr = lit ''b:1'', cf_count = 8, cf_conn_timeout = 3, cf_rw_timeout = 3\<rparr>"
    by (simp add: manager_new_def)
  from manager_get_hides_servers [OF _ this, of pool_new False 7 8] show ?thesis
    by (simp add: manager_new_def Let_def)
qed

end
