(* ===== verification/Redis_Cluster.thy ===== *)
theory Redis_Cluster
  imports Redis_Command Conn_Manager
begin

text \<open>
  \<^verbatim>\<open>aclredis/src/redis/redis_client_cluster.cpp\<close>, the manager that also knows which server has
  which hash slot and the servers' passwords, and from \<^verbatim>\<open>aclredis/src/redis/redis_command.cpp\<close>
  what a command does on a cluster: \<open>peek_conn\<close>, \<open>redirect\<close> and the loop \<open>run(cluster, ...)\<close>
  that follows MOVED, ASK and CLUSTERDOWN and starts again when a connection breaks.

  The connections are objects of a type \<open>'c\<close>; \<open>env\<close> says what the surroundings do: the time,
  opening a connection, running one request on it, and whether it is at its end. A connection
  in hand goes with the index of its pool. Waiting and logging are left out. Giving a
  connection back may stop at the assertion of \<open>put\<close>: then the outcome is \<open>None\<close>.

  \<open>cluster_loop\<close> goes down in the number of rounds left, \<open>redirect_max\<close> at first.
\<close>

section \<open>The cluster\<close>

record 'c cluster = "'c manager" +
  cl_slot_addrs :: "cstr option list"
  cl_known :: "cstr list"
  cl_redirect_max :: int
  cl_passwds :: "cstr \<rightharpoonup> cstr"

definition cluster_new :: "nat \<Rightarrow> 'c cluster" where
  "cluster_new max_slot = manager.extend manager_new
     \<lparr>cl_slot_addrs = replicate max_slot None, cl_known = [], cl_redirect_max = 15, cl_passwds = Map.empty\<rparr>"

definition set_redirect_max :: "'c cluster \<Rightarrow> int \<Rightarrow> 'c cluster" where
  "set_redirect_max cl n = (if n > 0 then cl\<lparr>cl_redirect_max := n\<rparr> else cl)"

definition cluster_create_pool :: "'c cluster \<Rightarrow> 'c pool_maker" where
  "cluster_create_pool cl addr cnt idx =
     (let p = pool_new addr cnt idx in
      case cl_passwds cl (map tolower addr) of
        Some w \<Rightarrow> pool_set_password p (Some w)
      | None \<Rightarrow>
          (case cl_passwds cl (lit ''default'') of
             Some w \<Rightarrow> pool_set_password p (Some w)
           | None \<Rightarrow> p))"

definition in_slots :: "'c cluster \<Rightarrow> int \<Rightarrow> bool" where
  "in_slots cl slot \<longleftrightarrow> 0 \<le> slot \<and> slot < int (length (cl_slot_addrs cl))"

definition peek_slot :: "'c cluster \<Rightarrow> int \<Rightarrow> int \<Rightarrow> nat option \<times> 'c cluster" where
  "peek_slot cl slot now =
     (if \<not> in_slots cl slot then (None, cl)
      else case cl_slot_addrs cl ! nat slot of
        None \<Rightarrow> (None, cl)
      | Some addr \<Rightarrow> manager_get (cluster_create_pool cl) cl addr False now)"

definition clear_slot :: "'c cluster \<Rightarrow> int \<Rightarrow> 'c cluster" where
  "clear_slot cl slot =
     (if in_slots cl slot then cl\<lparr>cl_slot_addrs := (cl_slot_addrs cl)[nat slot := None]\<rparr> else cl)"

text \<open>Every address is kept once, for good (\<open>addrs_\<close>).\<close>

definition set_slot :: "'c cluster \<Rightarrow> int \<Rightarrow> cstr \<Rightarrow> 'c cluster" where
  "set_slot cl slot addr =
     (if \<not> in_slots cl slot \<or> addr = [] then cl
      else cl\<lparr>cl_known := (if addr \<in> set (cl_known cl) then cl_known cl else cl_known cl @ [addr]),
              cl_slot_addrs := (cl_slot_addrs cl)[nat slot := Some addr]\<rparr>)"

text \<open>What CLUSTER SLOTS answers: the range of slots and the master's address.\<close>

record redis_slot =
  rs_min :: nat
  rs_max :: nat
  rs_ip :: cstr
  rs_port :: int

fun set_slots :: "'c cluster \<Rightarrow> nat list \<Rightarrow> cstr \<Rightarrow> 'c cluster" where
  "set_slots cl [] addr = cl"
| "set_slots cl (i # is) addr = set_slots (set_slot cl (signed_take_bit 31 (int i)) addr) is addr"

definition set_one_slot :: "'c cluster \<Rightarrow> nat \<Rightarrow> int \<Rightarrow> int \<Rightarrow> int \<Rightarrow> redis_slot \<Rightarrow> 'c cluster" where
  "set_one_slot cl max_conns conn_t rw_t now rs =
     (if rs_ip rs = [] \<or> rs_port rs \<le> 0 then cl
      else if signed_take_bit 31 (int (rs_max rs)) \<ge> int (length (cl_slot_addrs cl)) \<or> rs_max rs < rs_min rs then cl
      else let
        buf = c_snprintf 128 (rs_ip rs @ [58] @ dec_of_int (rs_port rs));
        cl = (case manager_get (cluster_create_pool cl) cl buf False now of
          (None, cl) \<Rightarrow> manager_set cl buf max_conns conn_t rw_t
        | (Some _, cl) \<Rightarrow> cl)
        in set_slots cl [rs_min rs..<Suc (rs_max rs)] buf)"

definition set_all_slot ::
  "'c cluster \<Rightarrow> nat \<Rightarrow> int \<Rightarrow> int \<Rightarrow> int \<Rightarrow> redis_slot list option \<Rightarrow> 'c cluster"
where
  "set_all_slot cl max_conns conn_t rw_t now slots =
     (case slots of None \<Rightarrow> cl
      | Some rs \<Rightarrow> foldl (\<lambda>cl r. set_one_slot cl max_conns conn_t rw_t now r) cl rs)"

text \<open>The password is given to every pool whose address has one by now, not only to that of
  \<open>addr\<close>.\<close>

definition cluster_set_password :: "'c cluster \<Rightarrow> cstr option \<Rightarrow> cstr option \<Rightarrow> 'c cluster" where
  "cluster_set_password cl addr pass =
     (case (addr, pass) of
        (Some a, Some w) \<Rightarrow>
          (if a = [] \<or> w = [] then cl
           else let cl = cl\<lparr>cl_passwds := (cl_passwds cl)(map tolower a \<mapsto> w)\<rparr> in
             cl\<lparr>mg_pools := map (\<lambda>p.
                 if cl_passwds cl (map tolower (p_addr p)) \<noteq> None \<or> c_strcasecmp_eq a (lit ''default'')
                 then pool_set_password p (Some w) else p) (mg_pools cl)\<rparr>)
      | _ \<Rightarrow> cl)"

definition get_password :: "'c cluster \<Rightarrow> cstr option \<Rightarrow> cstr option" where
  "get_password cl addr =
     (case addr of
        None \<Rightarrow> None
      | Some a \<Rightarrow>
          if a = [] then None
          else case cl_passwds cl a of
            Some w \<Rightarrow> Some w
          | None \<Rightarrow> cl_passwds cl (lit ''default''))"

section \<open>A command on the cluster\<close>

record ('c, 's) env =
  env_now :: "'s \<Rightarrow> int"
  env_open :: "'c pool \<Rightarrow> 's \<Rightarrow> 'c option \<times> 's"
  env_run :: "'c \<Rightarrow> byte list \<Rightarrow> 's \<Rightarrow> redis_result option \<times> 'c \<times> 's"
  env_eof :: "'c \<Rightarrow> bool"

text \<open>A connection in hand: the index of its pool, and the connection.\<close>

type_synonym 'c held = "nat \<times> 'c pconn"

definition cluster_pool_peek ::
  "('c, 's) env \<Rightarrow> 'c cluster \<Rightarrow> nat \<Rightarrow> 's \<Rightarrow> 'c held option \<times> 'c cluster \<times> 's"
where
  "cluster_pool_peek env cl i s =
     (case pool_peek (mg_pools cl ! i) (env_now env s) True (env_open env) s of
        (r, p, s) \<Rightarrow> (map_option (Pair i) r, cl\<lparr>mg_pools := (mg_pools cl)[i := p]\<rparr>, s))"

definition cluster_put :: "('c, 's) env \<Rightarrow> 'c cluster \<Rightarrow> 'c held \<Rightarrow> bool \<Rightarrow> 's \<Rightarrow> 'c cluster option" where
  "cluster_put env cl h keep s =
     (case pool_put (mg_pools cl ! fst h) (env_now env s) (snd h) keep of
        Kept p \<Rightarrow> Some (cl\<lparr>mg_pools := (mg_pools cl)[fst h := p]\<rparr>)
      | _ \<Rightarrow> None)"

text \<open>\<open>peek_conn\<close>. Its loop ends after one round, whatever happens in it.\<close>

definition peek_conn ::
  "('c, 's) env \<Rightarrow> 'c cluster \<Rightarrow> int \<Rightarrow> 's \<Rightarrow> 'c held option \<times> 'c cluster \<times> 's"
where
  "peek_conn env cl slot s =
     (case (if slot < 0 then (None, cl) else peek_slot cl slot (env_now env s)) of
        (pi, cl) \<Rightarrow>
          (case (case pi of
                   None \<Rightarrow> manager_peek (cluster_create_pool cl) cl (env_now env s)
                 | Some i \<Rightarrow> (Some i, cl)) of
             (None, cl) \<Rightarrow> (None, cl, s)
           | (Some i, cl) \<Rightarrow>
               (case cluster_pool_peek env cl i s of
                  (Some h, cl, s) \<Rightarrow> (Some h, cl, s)
                | (None, cl, s) \<Rightarrow> (None, clear_slot cl slot, s))))"

text \<open>\<open>redirect\<close>. When the server's pool has no connection, the next pool of the manager is
  looked up, and nothing is done with it.\<close>

definition redirect ::
  "('c, 's) env \<Rightarrow> 'c cluster \<Rightarrow> cstr \<Rightarrow> nat \<Rightarrow> 's \<Rightarrow> 'c held option \<times> 'c cluster \<times> 's"
where
  "redirect env cl addr max_conns s =
     (case (case manager_get (cluster_create_pool cl) cl addr False (env_now env s) of
              (Some i, cl) \<Rightarrow> (Some i, cl)
            | (None, cl) \<Rightarrow>
                let cl = manager_set cl addr max_conns 30 30
                in manager_get (cluster_create_pool cl) cl addr False (env_now env s)) of
        (None, cl) \<Rightarrow> (None, cl, s)
      | (Some i, cl) \<Rightarrow>
          (case cluster_pool_peek env cl i s of
             (Some h, cl, s) \<Rightarrow> (Some h, cl, s)
           | (None, cl, s) \<Rightarrow>
               (None, snd (manager_peek (cluster_create_pool cl) cl (env_now env s)), s)))"

definition asking_request :: "byte list" where
  "asking_request = lit ''ASKING'' @ [13, 10]"

text \<open>What is decided after the reply of one round: to end with a result, or to go on with
  another connection and the new \<open>last_moved\<close>.\<close>

datatype ('c, 's) round_end =
    Done "redis_result option" "'c cluster" 's
  | Again "'c held" bool "'c cluster" 's

definition done_put ::
  "('c, 's) env \<Rightarrow> 'c cluster \<Rightarrow> 'c held \<Rightarrow> bool \<Rightarrow> redis_result option \<Rightarrow> 's \<Rightarrow> ('c, 's) round_end option"
where
  "done_put env cl h keep r s = map_option (\<lambda>cl. Done r cl s) (cluster_put env cl h keep s)"

definition held_eof :: "('c, 's) env \<Rightarrow> 'c held \<Rightarrow> bool" where
  "held_eof env h = env_eof env (pc_obj (snd h))"

definition held_run ::
  "('c, 's) env \<Rightarrow> 'c held \<Rightarrow> byte list \<Rightarrow> 's \<Rightarrow> redis_result option \<times> 'c held \<times> 's"
where
  "held_run env h req s =
     (case env_run env (pc_obj (snd h)) req s of (r, c, s) \<Rightarrow> (r, (fst h, (snd h)\<lparr>pc_obj := c\<rparr>), s))"

text \<open>The connection is at its end.\<close>

definition round_eof ::
  "('c, 's) env \<Rightarrow> 'c cluster \<Rightarrow> int \<Rightarrow> byte list \<Rightarrow> 'c held \<Rightarrow> redis_result option \<Rightarrow> 's \<Rightarrow> ('c, 's) round_end option"
where
  "round_eof env cl slot req h r s =
     Option.bind (cluster_put env (clear_slot cl slot) h False s) (\<lambda>cl.
       if req = [] then Some (Done None cl s)
       else (case peek_conn env cl slot s of
           (None, cl, s) \<Rightarrow> Some (Done r cl s)
         | (Some h, cl, s) \<Rightarrow> Some (Again h True cl s)))"

definition round_moved ::
  "('c, 's) env \<Rightarrow> 'c cluster \<Rightarrow> nat \<Rightarrow> 'c held \<Rightarrow> redis_result \<Rightarrow> cstr \<Rightarrow> 's \<Rightarrow> ('c, 's) round_end option"
where
  "round_moved env cl max_conns h rr ptr s =
     Option.bind (cluster_put env cl h True s) (\<lambda>cl.
       case get_addr ptr of
         None \<Rightarrow> Some (Done (Some rr) cl s)
       | Some addr \<Rightarrow>
           (case redirect env cl addr max_conns s of
              (None, cl, s) \<Rightarrow> Some (Done (Some rr) cl s)
            | (Some h, cl, s) \<Rightarrow> Some (Again h True cl s)))"

definition round_ask ::
  "('c, 's) env \<Rightarrow> 'c cluster \<Rightarrow> nat \<Rightarrow> 'c held \<Rightarrow> redis_result \<Rightarrow> cstr \<Rightarrow> 's \<Rightarrow> ('c, 's) round_end option"
where
  "round_ask env cl max_conns h rr ptr s =
     Option.bind (cluster_put env cl h True s) (\<lambda>cl.
       case get_addr ptr of
         None \<Rightarrow> Some (Done (Some rr) cl s)
       | Some addr \<Rightarrow>
           (case redirect env cl addr max_conns s of
              (None, cl, s) \<Rightarrow> Some (Done (Some rr) cl s)
            | (Some h, cl, s) \<Rightarrow>
                (case held_run env h asking_request s of
                   (r, h, s) \<Rightarrow>
                     (case r of
                        None \<Rightarrow> done_put env cl h (\<not> held_eof env h) None s
                      | Some rr \<Rightarrow>
                          if \<not> c_strcasecmp_eq (rr_get_status rr) (lit ''OK'')
                          then done_put env cl h (\<not> held_eof env h) None s
                          else Some (Again h False cl s)))))"

definition round_down ::
  "('c, 's) env \<Rightarrow> 'c cluster \<Rightarrow> int \<Rightarrow> bool \<Rightarrow> 'c held \<Rightarrow> redis_result \<Rightarrow> 's \<Rightarrow> ('c, 's) round_end option"
where
  "round_down env cl slot last_moved h rr s =
     Option.bind (cluster_put env (clear_slot cl slot) h True s) (\<lambda>cl.
       case peek_conn env cl (-1) s of
         (None, cl, s) \<Rightarrow> Some (Done (Some rr) cl s)
       | (Some h, cl, s) \<Rightarrow> Some (Again h last_moved cl s))"

text \<open>One round of the loop.\<close>

definition cluster_round ::
  "('c, 's) env \<Rightarrow> 'c cluster \<Rightarrow> int \<Rightarrow> byte list \<Rightarrow> nat \<Rightarrow> 'c held \<Rightarrow> bool \<Rightarrow> 's \<Rightarrow> ('c, 's) round_end option"
where
  "cluster_round env cl slot req max_conns h last_moved s =
     (case held_run env h req s of
        (r, h, s) \<Rightarrow>
          if held_eof env h then round_eof env cl slot req h r s
          else (case r of
            None \<Rightarrow> done_put env cl h True None s
          | Some rr \<Rightarrow>
              if result_type rr = REDIS_RESULT_UNKOWN then done_put env cl h True None s
              else if result_type rr \<noteq> REDIS_RESULT_ERROR then
                (if slot < 0 \<or> \<not> last_moved then done_put env cl h True (Some rr) s
                 else done_put env (set_slot cl slot (p_addr (mg_pools cl ! fst h))) h True (Some rr) s)
              else let ptr = rr_get_error rr in
                if ptr = [] then done_put env cl h True (Some rr) s
                else if c_strncasecmp_eq ptr (lit ''MOVED'') 5 then round_moved env cl max_conns h rr ptr s
                else if c_strncasecmp_eq ptr (lit ''ASK'') 3 then round_ask env cl max_conns h rr ptr s
                else if c_strncasecmp_eq ptr (lit ''CLUSTERDOWN'') 11 then round_down env cl slot last_moved h rr s
                else done_put env cl h True (Some rr) s))"

fun cluster_loop ::
  "nat \<Rightarrow> ('c, 's) env \<Rightarrow> 'c cluster \<Rightarrow> int \<Rightarrow> byte list \<Rightarrow> nat \<Rightarrow> 'c held \<Rightarrow> bool \<Rightarrow> 's \<Rightarrow>
   (redis_result option \<times> 'c cluster \<times> 's) option"
where
  "cluster_loop 0 env cl slot req max_conns h last_moved s =
     map_option (\<lambda>cl. (None, cl, s)) (cluster_put env cl h True s)"
| "cluster_loop (Suc n) env cl slot req max_conns h last_moved s =
     Option.bind (cluster_round env cl slot req max_conns h last_moved s) (\<lambda>e.
       case e of
         Done r cl s \<Rightarrow> Some (r, cl, s)
       | Again h last_moved cl s \<Rightarrow> cluster_loop n env cl slot req max_conns h last_moved s)"

text \<open>\<open>set_cluster\<close> takes the number of rounds over, and 15 if it is not positive.\<close>

definition rounds_max :: "'c cluster \<Rightarrow> nat" where
  "rounds_max cl = nat (if cl_redirect_max cl \<le> 0 then 15 else cl_redirect_max cl)"

definition cluster_run ::
  "('c, 's) env \<Rightarrow> 'c cluster \<Rightarrow> int \<Rightarrow> byte list \<Rightarrow> nat \<Rightarrow> 's \<Rightarrow> (redis_result option \<times> 'c cluster \<times> 's) option"
where
  "cluster_run env cl slot req max_conns s =
     (let n = rounds_max cl in
      case peek_conn env cl slot s of
        (None, cl, s) \<Rightarrow> Some (None, cl, s)
      | (Some h, cl, s) \<Rightarrow> cluster_loop n env cl slot req max_conns h False s)"

section \<open>Connections in use\<close>

definition pool_good :: "'c pool \<Rightarrow> nat \<Rightarrow> bool" where
  "pool_good p out \<longleftrightarrow> pool_ok p out \<and> \<not> p_delay_destroy p \<and> p_idle_ttl p \<noteq> 0 \<and>
     0 < p_max p \<and> p_max p < 2 ^ 64"

text \<open>\<open>out i\<close> connections of pool \<open>i\<close> are in use; every server has a limit.\<close>

definition cluster_ok :: "'c cluster \<Rightarrow> (nat \<Rightarrow> nat) \<Rightarrow> bool" where
  "cluster_ok cl out \<longleftrightarrow>
     (\<forall>i < length (mg_pools cl). pool_good (mg_pools cl ! i) (out i)) \<and>
     (\<forall>i \<ge> length (mg_pools cl). out i = 0) \<and> mg_idle_ttl cl \<noteq> 0 \<and>
     (\<forall>e \<in> set (mg_addrs cl). 0 < cf_count (snd e) \<and> cf_count (snd e) < 2 ^ 64)"

definition held_ok :: "'c cluster \<Rightarrow> 'c held \<Rightarrow> bool" where
  "held_ok cl h \<longleftrightarrow> fst h < length (mg_pools cl) \<and> pc_mine (snd h)"

definition took :: "(nat \<Rightarrow> nat) \<Rightarrow> 'c held \<Rightarrow> nat \<Rightarrow> nat" where
  "took out h = out(fst h := Suc (out (fst h)))"

lemma slot_pools [simp]:
  "mg_pools (clear_slot cl slot) = mg_pools cl" "mg_pools (set_slot cl slot addr) = mg_pools cl"
  by (simp_all add: clear_slot_def set_slot_def)

lemma slot_ok [simp]:
  "cluster_ok (clear_slot cl slot) out = cluster_ok cl out" "cluster_ok (set_slot cl slot addr) out = cluster_ok cl out"
  "held_ok (clear_slot cl slot) h = held_ok cl h" "held_ok (set_slot cl slot addr) h = held_ok cl h"
  by (simp_all add: clear_slot_def set_slot_def cluster_ok_def held_ok_def)

lemma cluster_ok_cong:
  "mg_pools a = mg_pools b \<Longrightarrow> mg_idle_ttl a = mg_idle_ttl b \<Longrightarrow> mg_addrs a = mg_addrs b \<Longrightarrow>
   cluster_ok a out = cluster_ok b out"
  by (simp add: cluster_ok_def)

lemma pool_good_new:
  assumes "0 < cf_count cf" "cf_count cf < 2 ^ 64" "mg_idle_ttl m \<noteq> 0"
  shows "pool_good (manager_create_pool (cluster_create_pool cl) m cf idx) 0"
  using assms
  by (auto simp: pool_good_def pool_ok_def manager_create_pool_def cluster_create_pool_def pool_new_def
      pool_set_key_def pool_set_retry_inter_def pool_set_timeout_def pool_set_idle_ttl_def
      pool_set_check_inter_def pool_set_password_def Let_def split: option.splits)

lemma cluster_ok_add:
  assumes "cluster_ok cl out" "pool_good p 0"
  shows "cluster_ok (cl\<lparr>mg_pools := mg_pools cl @ [p]\<rparr>) out"
  using assms by (auto simp: cluster_ok_def nth_append less_Suc_eq)

lemma cluster_ok_upd:
  assumes "cluster_ok cl out" "i < length (mg_pools cl)" "pool_good p n"
  shows "cluster_ok (cl\<lparr>mg_pools := (mg_pools cl)[i := p]\<rparr>) (out(i := n))"
  using assms by (auto simp: cluster_ok_def nth_list_update)

lemma cluster_ok_at: "cluster_ok cl out \<Longrightarrow> i < length (mg_pools cl) \<Longrightarrow> pool_good (mg_pools cl ! i) (out i)"
  by (simp add: cluster_ok_def)

lemma pool_aliving_good: "pool_good p n \<Longrightarrow> pool_aliving p now = (a, p') \<Longrightarrow> pool_good p' n"
  by (auto simp: pool_good_def pool_aliving_def split: if_splits)

lemma manager_get_ok:
  assumes "cluster_ok cl out" "manager_get (cluster_create_pool cl0) cl addr False now = (r, cl')"
  shows "cluster_ok cl' out \<and> (\<forall>i. r = Some i \<longrightarrow> i < length (mg_pools cl'))"
proof (cases "find_pool (mg_pools cl) (get_key addr)")
  case (Some i)
  with assms find_pool_some [OF Some] show ?thesis by (auto simp: manager_get_def)
next
  case None
  show ?thesis
  proof (cases "map_of (mg_addrs cl) (map tolower addr)")
    case (Some cf)
    then have "(map tolower addr, cf) \<in> set (mg_addrs cl)" by (rule map_of_SomeD)
    with assms(1) have "0 < cf_count cf" "cf_count cf < 2 ^ 64" "mg_idle_ttl cl \<noteq> 0"
      by (auto simp: cluster_ok_def)
    from cluster_ok_add [OF assms(1) pool_good_new [OF this]] assms(2) None Some show ?thesis
      by (auto simp: manager_get_def)
  qed (use assms None in \<open>auto simp: manager_get_def\<close>)
qed

lemma map_put_set: "set (map_put k v es) \<subseteq> insert (k, v) (set es)"
  by (induction k v es rule: map_put.induct) auto

lemma manager_set_ok:
  assumes "cluster_ok cl out" "0 < n" "n < 2 ^ 64"
  shows "cluster_ok (manager_set cl addr n conn_t rw_t) out"
proof (cases "map_of (mg_addrs cl) (map tolower addr)")
  case None
  let ?cf = "\<lparr>cf_addr = addr, cf_count = n, cf_conn_timeout = conn_t, cf_rw_timeout = rw_t\<rparr>"
  have "\<forall>e \<in> set (map_put (map tolower addr) ?cf (mg_addrs cl)). 0 < cf_count (snd e) \<and> cf_count (snd e) < 2 ^ 64"
    using map_put_set [of "map tolower addr" ?cf "mg_addrs cl"] assms by (fastforce simp: cluster_ok_def)
  with assms None show ?thesis by (simp add: manager_set_def cluster_ok_def)
qed (use assms in \<open>simp add: manager_set_def Let_def\<close>)

lemma peek_loop_ok:
  "cluster_ok cl out \<Longrightarrow> mg_pools cl \<noteq> [] \<Longrightarrow> peek_loop k cl now = (r, cl') \<Longrightarrow>
   cluster_ok cl' out \<and> (\<forall>i. r = Some i \<longrightarrow> i < length (mg_pools cl'))"
proof (induction k cl now rule: peek_loop.induct)
  case (2 k m now)
  let ?n = "unat (mg_conns_next m) mod length (mg_pools m)"
  obtain a p where ap: "pool_aliving (mg_pools m ! ?n) now = (a, p)" by fastforce
  have n: "?n < length (mg_pools m)" using 2(3) by simp
  let ?m = "m\<lparr>mg_conns_next := mg_conns_next m + 1, mg_pools := (mg_pools m)[?n := p]\<rparr>"
  have "pool_good p (out ?n)" using pool_aliving_good [OF cluster_ok_at [OF 2(2) n] ap] .
  from cluster_ok_upd [OF 2(2) n this] have "cluster_ok (m\<lparr>mg_pools := (mg_pools m)[?n := p]\<rparr>) out" by simp
  then have ok: "cluster_ok ?m out" by (subst cluster_ok_cong) simp_all
  show ?case
  proof (cases a)
    case True
    with 2(4) ap ok n show ?thesis by (auto simp: Let_def)
  next
    case False
    from 2(1) [OF refl ap [symmetric] refl False ok] 2(3,4) ap False show ?thesis by (simp add: Let_def)
  qed
qed simp

lemma create_pools_ok:
  assumes "\<forall>e \<in> set es. 0 < cf_count (snd e) \<and> cf_count (snd e) < 2 ^ 64" "mg_idle_ttl m \<noteq> 0"
  shows "(\<forall>p \<in> set ps. pool_good p 0) \<Longrightarrow>
    \<forall>p \<in> set (create_pools_for (cluster_create_pool cl) m es ps). pool_good p 0"
  using assms(1)
proof (induction es arbitrary: ps)
  case (Cons e es)
  obtain k cf where e: "e = (k, cf)" by fastforce
  have "pool_good (manager_create_pool (cluster_create_pool cl) m cf (length ps)) 0"
    using Cons.prems(2) e assms(2) by (intro pool_good_new) auto
  then show ?case unfolding e create_pools_for.simps
    by (intro Cons.IH) (use Cons.prems in auto)
qed simp

lemma manager_peek_ok:
  assumes "cluster_ok cl out" "manager_peek (cluster_create_pool cl0) cl now = (r, cl')"
  shows "cluster_ok cl' out \<and> (\<forall>i. r = Some i \<longrightarrow> i < length (mg_pools cl'))"
proof (cases "mg_addrs cl = []")
  case True
  with assms show ?thesis by (auto simp: manager_peek_def)
next
  case False
  let ?cl = "if mg_pools cl = [] then cl\<lparr>mg_pools := create_pools_for (cluster_create_pool cl0) cl (mg_addrs cl) []\<rparr> else cl"
  have "\<forall>p \<in> set (create_pools_for (cluster_create_pool cl0) cl (mg_addrs cl) []). pool_good p 0"
    using assms(1) by (intro create_pools_ok) (auto simp: cluster_ok_def)
  then have ok: "cluster_ok ?cl out" using assms(1)
    by (cases "mg_pools cl = []") (simp_all add: cluster_ok_def)
  have "create_pools_for (cluster_create_pool cl0) cl (mg_addrs cl) [] \<noteq> []"
  proof
    assume "create_pools_for (cluster_create_pool cl0) cl (mg_addrs cl) [] = []"
    from arg_cong [OF this, of length] False show False by simp
  qed
  then have "mg_pools ?cl \<noteq> []" by simp
  from peek_loop_ok [OF ok this] assms(2) False show ?thesis by (simp add: manager_peek_def Let_def)
qed

lemma cluster_pool_peek_ok:
  assumes "cluster_ok cl out" "i < length (mg_pools cl)" "cluster_pool_peek env cl i s = (r, cl', s')"
  shows "case r of None \<Rightarrow> cluster_ok cl' out | Some h \<Rightarrow> cluster_ok cl' (took out h) \<and> held_ok cl' h"
proof -
  obtain c p s1 where pp: "pool_peek (mg_pools cl ! i) (env_now env s) True (env_open env) s = (c, p, s1)"
    by (metis prod_cases3)
  have good: "pool_good (mg_pools cl ! i) (out i)" using assms(1,2) by (rule cluster_ok_at)
  then have "pool_ok p (case c of None \<Rightarrow> out i | Some x \<Rightarrow> Suc (out i)) \<and> (\<forall>x. c = Some x \<longrightarrow> pc_mine x)"
    using pp by (intro pool_peek_ok) (auto simp: pool_good_def)
  with pool_peek_settings [OF pp] good
  have p: "pool_good p (case c of None \<Rightarrow> out i | Some x \<Rightarrow> Suc (out i))" "\<forall>x. c = Some x \<longrightarrow> pc_mine x"
    by (auto simp: pool_good_def)
  from cluster_ok_upd [OF assms(1,2) p(1)] p(2) pp assms(2,3) show ?thesis
    by (auto simp: cluster_pool_peek_def took_def held_ok_def split: option.splits)
qed

lemma cluster_put_ok:
  assumes "cluster_ok cl (took out h)" "held_ok cl h"
  shows "\<exists>cl'. cluster_put env cl h keep s = Some cl' \<and> cluster_ok cl' out \<and> length (mg_pools cl') = length (mg_pools cl)"
proof -
  let ?i = "fst h"
  have i: "?i < length (mg_pools cl)" and mine: "pc_mine (snd h)" using assms(2) by (auto simp: held_ok_def)
  have good: "pool_good (mg_pools cl ! ?i) (Suc (out ?i))"
    using cluster_ok_at [OF assms(1) i] by (simp add: took_def)
  then obtain p where put: "pool_put (mg_pools cl ! ?i) (env_now env s) (snd h) keep = Kept p"
    and "pool_ok p (out ?i)" "\<not> p_delay_destroy p" "p_idle_ttl p = p_idle_ttl (mg_pools cl ! ?i)"
    using pool_put_ok [of "mg_pools cl ! ?i" "out ?i" "snd h" "env_now env s" keep] mine
    by (auto simp: pool_good_def)
  with good pool_put_max [OF put] have p: "pool_good p (out ?i)" by (simp add: pool_good_def)
  have "(took out h)(?i := out ?i) = out" by (simp add: took_def)
  with cluster_ok_upd [OF assms(1) i p] put show ?thesis by (simp add: cluster_put_def)
qed

lemma peek_conn_ok:
  assumes "cluster_ok cl out" "peek_conn env cl slot s = (r, cl', s')"
  shows "case r of None \<Rightarrow> cluster_ok cl' out | Some h \<Rightarrow> cluster_ok cl' (took out h) \<and> held_ok cl' h"
proof -
  obtain pi cl1 where 1: "(if slot < 0 then (None, cl) else peek_slot cl slot (env_now env s)) = (pi, cl1)"
    by fastforce
  have ok1: "cluster_ok cl1 out \<and> (\<forall>i. pi = Some i \<longrightarrow> i < length (mg_pools cl1))"
    using 1 assms(1) manager_get_ok [OF assms(1)]
    by (auto simp: peek_slot_def split: if_splits option.splits)
  obtain pj cl2 where 2: "(case pi of None \<Rightarrow> manager_peek (cluster_create_pool cl1) cl1 (env_now env s)
      | Some i \<Rightarrow> (Some i, cl1)) = (pj, cl2)" by fastforce
  have ok2: "cluster_ok cl2 out \<and> (\<forall>i. pj = Some i \<longrightarrow> i < length (mg_pools cl2))"
    using 2 ok1 manager_peek_ok [of cl1 out cl1] by (auto split: option.splits)
  show ?thesis
  proof (cases pj)
    case None
    with assms(2) 1 2 ok2 show ?thesis by (auto simp: peek_conn_def)
  next
    case (Some i)
    obtain h cl3 s3 where 3: "cluster_pool_peek env cl2 i s = (h, cl3, s3)" by (metis prod_cases3)
    from cluster_pool_peek_ok [OF _ _ 3, of out] ok2 Some
    have "case h of None \<Rightarrow> cluster_ok cl3 out | Some h \<Rightarrow> cluster_ok cl3 (took out h) \<and> held_ok cl3 h" by simp
    with assms(2) 1 2 3 Some show ?thesis by (auto simp: peek_conn_def split: option.splits)
  qed
qed

lemma redirect_ok:
  assumes "cluster_ok cl out" "0 < max_conns" "max_conns < 2 ^ 64" "redirect env cl addr max_conns s = (r, cl', s')"
  shows "case r of None \<Rightarrow> cluster_ok cl' out | Some h \<Rightarrow> cluster_ok cl' (took out h) \<and> held_ok cl' h"
proof -
  let ?now = "env_now env s"
  obtain pj cl2 where 2: "(case manager_get (cluster_create_pool cl) cl addr False ?now of
        (Some i, cl) \<Rightarrow> (Some i, cl)
      | (None, cl) \<Rightarrow> let cl = manager_set cl addr max_conns 30 30
                      in manager_get (cluster_create_pool cl) cl addr False ?now) = (pj, cl2)" by fastforce
  obtain a cl1 where 1: "manager_get (cluster_create_pool cl) cl addr False ?now = (a, cl1)" by fastforce
  note ok1 = manager_get_ok [OF assms(1) 1]
  have "cluster_ok (manager_set cl1 addr max_conns 30 30) out"
    using ok1 assms(2,3) by (intro manager_set_ok) auto
  from manager_get_ok [OF this] ok1 1 2
  have ok2: "cluster_ok cl2 out \<and> (\<forall>i. pj = Some i \<longrightarrow> i < length (mg_pools cl2))"
    by (auto simp: Let_def split: option.splits)
  show ?thesis
  proof (cases pj)
    case None
    with assms(4) 2 ok2 show ?thesis by (auto simp: redirect_def)
  next
    case (Some i)
    obtain h cl3 s3 where 3: "cluster_pool_peek env cl2 i s = (h, cl3, s3)" by (metis prod_cases3)
    from cluster_pool_peek_ok [OF _ _ 3, of out] ok2 Some
    have ok3: "case h of None \<Rightarrow> cluster_ok cl3 out | Some h \<Rightarrow> cluster_ok cl3 (took out h) \<and> held_ok cl3 h" by simp
    show ?thesis
    proof (cases h)
      case None
      with ok3 have "cluster_ok cl3 out" by simp
      from manager_peek_ok [OF this, of cl3 "env_now env s3"] assms(4) 2 3 Some None show ?thesis
        by (cases "manager_peek (cluster_create_pool cl3) cl3 (env_now env s3)") (auto simp: redirect_def)
    next
      case (Some h')
      with ok3 assms(4) 2 3 \<open>pj = Some i\<close> show ?thesis by (auto simp: redirect_def)
    qed
  qed
qed

lemma held_run_same:
  "held_run env h req s = (r, h', s') \<Longrightarrow> fst h' = fst h \<and> took out h' = took out h \<and> held_ok cl h' = held_ok cl h"
  by (auto simp: held_run_def took_def held_ok_def split: prod.splits)

text \<open>What a round leaves.\<close>

definition round_ok :: "(nat \<Rightarrow> nat) \<Rightarrow> ('c, 's) round_end option \<Rightarrow> bool" where
  "round_ok out e \<longleftrightarrow>
     (case e of None \<Rightarrow> False
      | Some (Done r cl s) \<Rightarrow> cluster_ok cl out
      | Some (Again h lm cl s) \<Rightarrow> cluster_ok cl (took out h) \<and> held_ok cl h)"

lemma round_ok_simps [simp]:
  "round_ok out (Some (Done r cl s)) = cluster_ok cl out"
  "round_ok out (Some (Again h lm cl s)) = (cluster_ok cl (took out h) \<and> held_ok cl h)"
  "\<not> round_ok out None"
  by (simp_all add: round_ok_def)

lemma done_put_ok:
  "cluster_ok cl (took out h) \<Longrightarrow> held_ok cl h \<Longrightarrow> round_ok out (done_put env cl h keep r s)"
  using cluster_put_ok [of cl out h env keep s] by (auto simp: done_put_def)

lemma bind_put_ok:
  assumes "cluster_ok cl (took out h)" "held_ok cl h" "\<And>cl'. cluster_ok cl' out \<Longrightarrow> round_ok out (f cl')"
  shows "round_ok out (Option.bind (cluster_put env cl h keep s) f)"
  using cluster_put_ok [OF assms(1,2), of env keep s] assms(3) by auto

lemma peek_round_ok:
  assumes "cluster_ok cl out"
  shows "round_ok out (case peek_conn env cl slot s of
      (None, cl, s) \<Rightarrow> Some (Done r cl s) | (Some h, cl, s) \<Rightarrow> Some (Again h lm cl s))"
  using peek_conn_ok [OF assms, of env slot s]
  by (cases "peek_conn env cl slot s") (auto split: option.splits)

lemma round_eof_ok:
  "cluster_ok cl (took out h) \<Longrightarrow> held_ok cl h \<Longrightarrow> round_ok out (round_eof env cl slot req h r s)"
  unfolding round_eof_def by (rule bind_put_ok) (simp_all add: peek_round_ok)

lemma round_down_ok:
  "cluster_ok cl (took out h) \<Longrightarrow> held_ok cl h \<Longrightarrow> round_ok out (round_down env cl slot lm h rr s)"
  unfolding round_down_def by (rule bind_put_ok) (simp_all add: peek_round_ok)

lemma round_moved_ok:
  assumes "cluster_ok cl (took out h)" "held_ok cl h" "0 < max_conns" "max_conns < 2 ^ 64"
  shows "round_ok out (round_moved env cl max_conns h rr ptr s)"
  unfolding round_moved_def
proof (rule bind_put_ok [OF assms(1,2)])
  fix cl' :: "'a cluster" assume "cluster_ok cl' out"
  note ok = redirect_ok [OF this assms(3,4)] this
  show "round_ok out (case get_addr ptr of None \<Rightarrow> Some (Done (Some rr) cl' s)
      | Some addr \<Rightarrow> (case redirect env cl' addr max_conns s of
          (None, cl, s) \<Rightarrow> Some (Done (Some rr) cl s) | (Some h, cl, s) \<Rightarrow> Some (Again h True cl s)))"
  proof (cases "get_addr ptr")
    case (Some addr)
    obtain h1 cl2 s1 where 1: "redirect env cl' addr max_conns s = (h1, cl2, s1)" by (metis prod_cases3)
    from ok(1) [OF 1] Some 1 show ?thesis by (cases h1) simp_all
  qed (use ok in simp)
qed

lemma round_ask_ok:
  assumes "cluster_ok cl (took out h)" "held_ok cl h" "0 < max_conns" "max_conns < 2 ^ 64"
  shows "round_ok out (round_ask env cl max_conns h rr ptr s)"
  unfolding round_ask_def
proof (rule bind_put_ok [OF assms(1,2)])
  fix cl1 :: "'a cluster" assume ok: "cluster_ok cl1 out"
  show "round_ok out (case get_addr ptr of None \<Rightarrow> Some (Done (Some rr) cl1 s)
      | Some addr \<Rightarrow> (case redirect env cl1 addr max_conns s of
          (None, cl, s) \<Rightarrow> Some (Done (Some rr) cl s)
        | (Some h, cl, s) \<Rightarrow>
            (case held_run env h asking_request s of
              (r, h, s) \<Rightarrow> (case r of
                 None \<Rightarrow> done_put env cl h (\<not> held_eof env h) None s
               | Some rr \<Rightarrow>
                   if \<not> c_strcasecmp_eq (rr_get_status rr) (lit ''OK'')
                   then done_put env cl h (\<not> held_eof env h) None s
                   else Some (Again h False cl s)))))"
  proof (cases "get_addr ptr")
    case None
    with ok show ?thesis by simp
  next
    case (Some addr)
    obtain h1 cl2 s1 where 1: "redirect env cl1 addr max_conns s = (h1, cl2, s1)" by (metis prod_cases3)
    note ok1 = redirect_ok [OF ok assms(3,4) 1]
    show ?thesis
    proof (cases h1)
      case None
      with Some 1 ok1 show ?thesis by simp
    next
      case (Some h2)
      obtain r h3 s2 where 2: "held_run env h2 asking_request s1 = (r, h3, s2)" by (metis prod_cases3)
      have ok3: "cluster_ok cl2 (took out h3)" "held_ok cl2 h3"
        using ok1 Some held_run_same [OF 2] by auto
      with Some \<open>get_addr ptr = Some addr\<close> 1 2 show ?thesis
        by (cases r) (simp_all add: done_put_ok)
    qed
  qed
qed

lemma cluster_round_ok:
  assumes "cluster_ok cl (took out h)" "held_ok cl h" "0 < max_conns" "max_conns < 2 ^ 64"
  shows "round_ok out (cluster_round env cl slot req max_conns h lm s)"
proof -
  obtain r h1 s1 where 1: "held_run env h req s = (r, h1, s1)" by (metis prod_cases3)
  have ok: "cluster_ok cl (took out h1)" "held_ok cl h1" using assms(1,2) held_run_same [OF 1] by auto
  show ?thesis
    unfolding cluster_round_def 1 prod.case Let_def
    by (cases r) (simp_all add: ok round_eof_ok done_put_ok round_down_ok
      round_moved_ok [OF ok assms(3,4)] round_ask_ok [OF ok assms(3,4)])
qed

lemma cluster_loop_ok:
  assumes "0 < max_conns" "max_conns < 2 ^ 64"
  shows "cluster_ok cl (took out h) \<Longrightarrow> held_ok cl h \<Longrightarrow>
    \<exists>r cl' s'. cluster_loop n env cl slot req max_conns h lm s = Some (r, cl', s') \<and> cluster_ok cl' out"
proof (induction n arbitrary: cl h lm s)
  case 0
  then show ?case using cluster_put_ok [of cl out h env True s] by auto
next
  case (Suc n)
  from cluster_round_ok [OF Suc.prems assms, of env slot req lm s]
  show ?case using Suc.IH
    by (cases "cluster_round env cl slot req max_conns h lm s") (auto simp: round_ok_def split: round_end.splits)
qed

section \<open>The number of requests\<close>

text \<open>A measure \<open>f\<close> of the surroundings that counts requests.\<close>

definition counts :: "('c, 's) env \<Rightarrow> ('s \<Rightarrow> nat) \<Rightarrow> bool" where
  "counts env f \<longleftrightarrow> (\<forall>c req s. f (snd (snd (env_run env c req s))) \<le> Suc (f s)) \<and>
     (\<forall>p s. f (snd (env_open env p s)) = f s)"

lemma counts_run: "counts env f \<Longrightarrow> held_run env h req s = (r, h', s') \<Longrightarrow> f s' \<le> Suc (f s)"
  unfolding counts_def held_run_def by (auto split: prod.splits) (metis snd_conv)

lemma counts_peek: "counts env f \<Longrightarrow> cluster_pool_peek env cl i s = (r, cl', s') \<Longrightarrow> f s' = f s"
  unfolding counts_def cluster_pool_peek_def pool_peek_def Let_def
  by (auto split: prod.splits if_splits list.splits option.splits) (metis snd_conv)+

lemma counts_peek_conn: "counts env f \<Longrightarrow> peek_conn env cl slot s = (r, cl', s') \<Longrightarrow> f s' = f s"
  unfolding peek_conn_def by (auto split: prod.splits option.splits dest: counts_peek)

lemma counts_redirect: "counts env f \<Longrightarrow> redirect env cl addr n s = (r, cl', s') \<Longrightarrow> f s' = f s"
  unfolding redirect_def by (auto split: prod.splits option.splits dest: counts_peek)

definition round_count :: "('s \<Rightarrow> nat) \<Rightarrow> ('c, 's) round_end option \<Rightarrow> nat \<Rightarrow> bool" where
  "round_count f e n \<longleftrightarrow>
     (case e of None \<Rightarrow> True | Some (Done r cl s) \<Rightarrow> f s \<le> n | Some (Again h lm cl s) \<Rightarrow> f s \<le> n)"

lemma round_count_simps [simp]:
  "round_count f None n" "round_count f (Some (Done r cl s)) n = (f s \<le> n)"
  "round_count f (Some (Again h lm cl s)) n = (f s \<le> n)"
  by (simp_all add: round_count_def)

lemma done_put_count: "f s \<le> n \<Longrightarrow> round_count f (done_put env cl h keep r s) n"
  by (cases "cluster_put env cl h keep s") (simp_all add: done_put_def)

lemma bind_put_count:
  "(\<And>cl'. round_count f (g cl') n) \<Longrightarrow> round_count f (Option.bind (cluster_put env cl h keep s) g) n"
  by (cases "cluster_put env cl h keep s") simp_all

lemma cluster_round_count:
  assumes "counts env f"
  shows "round_count f (cluster_round env cl slot req max_conns h lm s) (f s + 2)"
proof -
  define N where "N = f s + 2"
  obtain r h1 s1 where 1: "held_run env h req s = (r, h1, s1)" by (metis prod_cases3)
  have s1: "f s1 + 1 \<le> N" using counts_run [OF assms 1] by (simp add: N_def)
  have eof: "round_count f (round_eof env cl slot req h1 q s1) N" for q
    unfolding round_eof_def
    by (rule bind_put_count) (use s1 in \<open>auto split: prod.splits option.splits dest!: counts_peek_conn [OF assms]\<close>)
  have down: "round_count f (round_down env cl slot b h1 rr s1) N" for b rr
    unfolding round_down_def
    by (rule bind_put_count) (use s1 in \<open>auto split: prod.splits option.splits dest!: counts_peek_conn [OF assms]\<close>)
  have moved: "round_count f (round_moved env cl max_conns h1 rr ptr s1) N" for rr ptr
    unfolding round_moved_def
    by (rule bind_put_count) (use s1 in \<open>auto split: prod.splits option.splits dest!: counts_redirect [OF assms]\<close>)
  have ask: "round_count f (round_ask env cl max_conns h1 rr ptr s1) N" for rr ptr
    unfolding round_ask_def
  proof (rule bind_put_count)
    fix cl1 :: "'a cluster"
    show "round_count f (case get_addr ptr of None \<Rightarrow> Some (Done (Some rr) cl1 s1)
      | Some addr \<Rightarrow> (case redirect env cl1 addr max_conns s1 of
          (None, cl, s) \<Rightarrow> Some (Done (Some rr) cl s)
        | (Some h, cl, s) \<Rightarrow>
            (case held_run env h asking_request s of
              (r, h, s) \<Rightarrow> (case r of
                 None \<Rightarrow> done_put env cl h (\<not> held_eof env h) None s
               | Some rr \<Rightarrow>
                   if \<not> c_strcasecmp_eq (rr_get_status rr) (lit ''OK'')
                   then done_put env cl h (\<not> held_eof env h) None s
                   else Some (Again h False cl s))))) N"
    proof (cases "get_addr ptr")
      case (Some addr)
      obtain h2 cl2 s2 where 2: "redirect env cl1 addr max_conns s1 = (h2, cl2, s2)" by (metis prod_cases3)
      have s2: "f s2 = f s1" using counts_redirect [OF assms 2] .
      show ?thesis
      proof (cases h2)
        case (Some h3)
        obtain r4 h4 s4 where 4: "held_run env h3 asking_request s2 = (r4, h4, s4)" by (metis prod_cases3)
        have "f s4 \<le> N" using counts_run [OF assms 4] s2 s1 by simp
        with \<open>get_addr ptr = Some addr\<close> 2 Some 4 show ?thesis
          by (cases r4) (simp_all add: done_put_count)
      qed (use Some 2 s2 s1 in simp)
    qed (use s1 in simp)
  qed
  show ?thesis
    unfolding cluster_round_def 1 prod.case Let_def N_def [symmetric]
    by (cases r) (use s1 in \<open>simp_all add: eof down moved ask done_put_count\<close>)
qed

lemma cluster_loop_count:
  assumes "counts env f"
  shows "cluster_loop n env cl slot req max_conns h lm s = Some (r, cl', s') \<Longrightarrow> f s' \<le> f s + 2 * n"
proof (induction n arbitrary: cl h lm s)
  case (Suc n)
  from cluster_round_count [OF assms, of cl slot req max_conns h lm s] Suc.prems
  obtain e where e: "cluster_round env cl slot req max_conns h lm s = Some e" "round_count f (Some e) (f s + 2)"
    by (auto split: bind_splits)
  show ?case
  proof (cases e)
    case (Done r1 cl1 s1)
    with e Suc.prems show ?thesis by simp
  next
    case (Again h1 lm1 cl1 s1)
    with e Suc.prems Suc.IH [of cl1 h1 lm1 s1] show ?thesis by simp
  qed
qed auto

lemma cluster_run_ok:
  assumes "cluster_ok cl out" "0 < max_conns" "max_conns < 2 ^ 64"
  shows "\<exists>r cl' s'. cluster_run env cl slot req max_conns s = Some (r, cl', s') \<and> cluster_ok cl' out"
proof -
  obtain h cl1 s1 where 1: "peek_conn env cl slot s = (h, cl1, s1)" by (metis prod_cases3)
  from peek_conn_ok [OF assms(1) 1] cluster_loop_ok [OF assms(2,3)] 1 show ?thesis
    by (auto simp: cluster_run_def Let_def split: option.splits)
qed

text \<open>The same surroundings with a counter of the calls of \<open>env_run\<close>, the model of
  \<open>redis_client::run\<close>, beside the state.\<close>

definition counted :: "('c, 's) env \<Rightarrow> ('c, 's \<times> nat) env" where
  "counted env = \<lparr>env_now = (\<lambda>s. env_now env (fst s)),
     env_open = (\<lambda>p s. (case env_open env p (fst s) of (c, t) \<Rightarrow> (c, (t, snd s)))),
     env_run = (\<lambda>c req s. (case env_run env c req (fst s) of (r, c, t) \<Rightarrow> (r, c, (t, snd s + 1)))),
     env_eof = env_eof env\<rparr>"

lemma counts_counted: "counts (counted env) snd"
  by (simp add: counts_def counted_def split_beta)

section \<open>A cluster in which one server has the slot\<close>

text \<open>A connection is known by the address of its server; every server but \<open>owner\<close> answers
  MOVED. The state counts the requests.\<close>

definition moved_env :: "cstr \<Rightarrow> nat \<Rightarrow> redis_result \<Rightarrow> (cstr, nat) env" where
  "moved_env owner slot reply = \<lparr>env_now = (\<lambda>s. 0), env_open = (\<lambda>p s. (Some (p_addr p), s)),
     env_run = (\<lambda>c req s. (Some (if c = owner then reply
         else resp_result (RError (lit ''MOVED '' @ dec_of_nat slot @ [32] @ owner))), c, s + 1)),
     env_eof = (\<lambda>c. False)\<rparr>"

lemma moved_env_simps [simp]:
  "env_now (moved_env owner slot reply) s = 0" "env_eof (moved_env owner slot reply) c = False"
  by (simp_all add: moved_env_def)

definition quiet_pool :: "cstr pool \<Rightarrow> bool" where
  "quiet_pool p \<longleftrightarrow> p_alive p \<and> p_key p = p_addr p \<and> p_addr p \<noteq> [] \<and> (\<forall>c \<in> set (p_idle p). pc_obj c = p_addr p)"

definition plain_addr :: "cstr \<Rightarrow> bool" where
  "plain_addr a \<longleftrightarrow> a \<noteq> [] \<and> map tolower a = a \<and> length a \<le> 255"

definition quiet :: "cstr cluster \<Rightarrow> bool" where
  "quiet cl \<longleftrightarrow> (\<forall>p \<in> set (mg_pools cl). quiet_pool p) \<and> mg_addrs cl \<noteq> [] \<and>
     (\<forall>e \<in> set (mg_addrs cl). cf_addr (snd e) = fst e \<and> plain_addr (fst e))"

text \<open>The connection in hand is one to the server \<open>a\<close>.\<close>

definition held_to :: "cstr cluster \<Rightarrow> cstr held \<Rightarrow> cstr \<Rightarrow> bool" where
  "held_to cl h a \<longleftrightarrow> held_ok cl h \<and> pc_obj (snd h) = a \<and> p_addr (mg_pools cl ! fst h) = a"

lemma quiet_slot [simp]:
  "quiet (clear_slot cl slot) = quiet cl" "quiet (set_slot cl slot addr) = quiet cl"
  "held_to (set_slot cl slot addr) h a = held_to cl h a"
  by (simp_all add: clear_slot_def set_slot_def quiet_def held_to_def held_ok_def)

lemma quiet_pool_new:
  assumes "plain_addr (cf_addr cf)"
  shows "quiet_pool (manager_create_pool (cluster_create_pool cl0) m cf idx) \<and>
    p_addr (manager_create_pool (cluster_create_pool cl0) m cf idx) = cf_addr cf"
  using assms
  by (auto simp: quiet_pool_def plain_addr_def manager_create_pool_def cluster_create_pool_def pool_new_def
      pool_set_key_def pool_set_retry_inter_def pool_set_timeout_def pool_set_idle_ttl_def get_key_def
      pool_set_check_inter_def pool_set_password_def Let_def split: option.splits)

lemma quiet_get:
  assumes "quiet cl" "plain_addr addr" "manager_get (cluster_create_pool cl0) cl addr False now = (r, cl')"
  shows "quiet cl' \<and> cl_slot_addrs cl' = cl_slot_addrs cl \<and>
    (\<forall>i. r = Some i \<longrightarrow> i < length (mg_pools cl') \<and> p_addr (mg_pools cl' ! i) = addr) \<and>
    (r = None \<longrightarrow> cl' = cl \<and> map_of (mg_addrs cl) addr = None \<and> find_pool (mg_pools cl) addr = None)"
proof -
  have low: "map tolower addr = addr" "get_key addr = addr" using assms(2) by (simp_all add: plain_addr_def get_key_def)
  show ?thesis
  proof (cases "find_pool (mg_pools cl) addr")
    case (Some i)
    with find_pool_some [OF Some] assms(1,3) low show ?thesis
      by (auto simp: manager_get_def quiet_def quiet_pool_def)
  next
    case None
    show ?thesis
    proof (cases "map_of (mg_addrs cl) addr")
      case (Some cf)
      then have "(addr, cf) \<in> set (mg_addrs cl)" by (rule map_of_SomeD)
      with assms(1) have "cf_addr cf = addr" by (auto simp: quiet_def)
      with quiet_pool_new [of cf cl0 cl "length (mg_pools cl)"] assms None Some low show ?thesis
        by (auto simp: manager_get_def quiet_def nth_append)
    qed (use assms None low in \<open>auto simp: manager_get_def\<close>)
  qed
qed

lemma quiet_set:
  assumes "quiet cl" "plain_addr addr"
  shows "quiet (manager_set cl addr n conn_t rw_t) \<and> map_of (mg_addrs (manager_set cl addr n conn_t rw_t)) addr \<noteq> None \<and>
    cl_slot_addrs (manager_set cl addr n conn_t rw_t) = cl_slot_addrs cl"
proof (cases "map_of (mg_addrs cl) (map tolower addr)")
  case None
  let ?cf = "\<lparr>cf_addr = addr, cf_count = n, cf_conn_timeout = conn_t, cf_rw_timeout = rw_t\<rparr>"
  have low: "map tolower addr = addr" using assms(2) by (simp add: plain_addr_def)
  have "\<forall>e \<in> set (map_put addr ?cf (mg_addrs cl)). cf_addr (snd e) = fst e \<and> plain_addr (fst e)"
    using map_put_set [of addr ?cf "mg_addrs cl"] assms by (fastforce simp: quiet_def)
  with assms None low show ?thesis by (simp add: manager_set_def quiet_def map_put_of Let_def)
next
  case (Some cf)
  with assms show ?thesis by (simp add: manager_set_def quiet_def plain_addr_def Let_def)
qed

lemma quiet_peek:
  assumes "quiet cl" "manager_peek (cluster_create_pool cl0) cl now = (r, cl')"
  shows "quiet cl' \<and> cl_slot_addrs cl' = cl_slot_addrs cl \<and> (\<exists>i < length (mg_pools cl'). r = Some i)"
proof -
  let ?ps = "create_pools_for (cluster_create_pool cl0) cl (mg_addrs cl) []"
  have new: "\<forall>p \<in> set ?ps. quiet_pool p"
  proof
    fix p assume "p \<in> set ?ps"
    then obtain i k cf where e: "(k, cf) \<in> set (mg_addrs cl)"
      and p: "p = manager_create_pool (cluster_create_pool cl0) cl cf i"
      by (auto simp: create_pools_for_map in_set_enumerate_eq) (metis nth_mem prod.collapse)
    from assms(1) e have "plain_addr (cf_addr cf)" by (fastforce simp: quiet_def)
    with p quiet_pool_new [of cf cl0 cl i] show "quiet_pool p" by simp
  qed
  define cl1 where "cl1 = (if mg_pools cl = [] then cl\<lparr>mg_pools := ?ps\<rparr> else cl)"
  have q1: "quiet cl1" using assms(1) new by (auto simp: cl1_def quiet_def)
  have ne: "length (mg_pools cl1) > 0"
  proof (cases "mg_pools cl = []")
    case True
    have "length ?ps = length (mg_addrs cl)" by simp
    with True assms(1) show ?thesis by (simp add: cl1_def quiet_def del: length_greater_0_conv) simp
  qed (simp add: cl1_def)
  let ?n = "unat (mg_conns_next cl1) mod length (mg_pools cl1)"
  have n: "?n < length (mg_pools cl1)" using ne by simp
  then have alive: "p_alive (mg_pools cl1 ! ?n)" using q1 by (auto simp: quiet_def quiet_pool_def)
  obtain k where k: "length (mg_pools cl1) = Suc k" using ne by (cases "length (mg_pools cl1)") auto
  have "manager_peek (cluster_create_pool cl0) cl now = peek_loop (length (mg_pools cl1)) cl1 now"
    using assms(1) by (simp add: manager_peek_def cl1_def quiet_def Let_def)
  with assms(2) alive k have "r = Some ?n" "cl' = cl1\<lparr>mg_conns_next := mg_conns_next cl1 + 1\<rparr>"
    by (simp_all add: pool_aliving_def Let_def)
  moreover have "cl_slot_addrs cl1 = cl_slot_addrs cl" by (simp add: cl1_def)
  ultimately show ?thesis using q1 n by (auto simp: quiet_def)
qed

lemma quiet_take:
  assumes "quiet cl" "cluster_ok cl (\<lambda>_. 0)" "i < length (mg_pools cl)"
    "cluster_pool_peek (moved_env owner slot reply) cl i s = (r, cl', s')"
  shows "quiet cl' \<and> cl_slot_addrs cl' = cl_slot_addrs cl \<and> s' = s \<and>
    (\<exists>h. r = Some h \<and> cluster_ok cl' (took (\<lambda>_. 0) h) \<and> held_to cl' h (p_addr (mg_pools cl ! i)))"
proof -
  let ?p = "mg_pools cl ! i"
  have good: "pool_good ?p 0" using cluster_ok_at [OF assms(2,3)] .
  have q: "quiet_pool ?p" using assms(1,3) by (simp add: quiet_def)
  obtain c p s1 where pp: "pool_peek ?p 0 True (env_open (moved_env owner slot reply)) s = (c, p, s1)"
    by (metis prod_cases3)
  have "\<not> (p_idle ?p = [] \<and> unat (p_count ?p) \<ge> p_max ?p)"
    using good by (auto simp: pool_good_def pool_ok_def)
  with pp q have c: "\<exists>x. c = Some x \<and> pc_obj x = p_addr ?p" and p: "quiet_pool p" "p_addr p = p_addr ?p" "s1 = s"
    by (auto simp: pool_peek_def quiet_pool_def moved_env_def Let_def split: list.splits if_splits)
  have cl': "cl' = cl\<lparr>mg_pools := (mg_pools cl)[i := p]\<rparr>" "r = map_option (Pair i) c" "s' = s1"
    using assms(4) pp by (auto simp: cluster_pool_peek_def moved_env_def)
  from cluster_pool_peek_ok [OF assms(2,3,4)] c cl' p assms(1,3) show ?thesis
    by (auto simp: quiet_def held_to_def dest!: set_update_subset_insert [THEN subsetD])
qed

lemma pool_put_keeps:
  assumes "pool_put p now c keep = Kept p'"
  shows "set (p_idle p') \<subseteq> insert (c\<lparr>pc_when := now\<rparr>) (set (p_idle p)) \<and>
    p_addr p' = p_addr p \<and> p_key p' = p_key p \<and> p_alive p' = p_alive p"
proof -
  have "set (p_idle (snd (pool_check_idle q now ttl))) \<subseteq> set (p_idle q)" for q :: "'a pool" and ttl
  proof (cases "idle_sweep now ttl (rev (p_idle q))")
    case (fields ks n d)
    with idle_sweep_length [OF fields] show ?thesis by (auto simp: pool_check_idle_def)
  qed
  moreover have "p_addr (snd (pool_check_idle q now ttl)) = p_addr q \<and> p_key (snd (pool_check_idle q now ttl)) = p_key q \<and>
      p_alive (snd (pool_check_idle q now ttl)) = p_alive q" for q :: "'a pool" and ttl
    by (auto simp: pool_check_idle_def split: prod.splits)
  ultimately show ?thesis using assms
    by (auto simp: pool_put_def Let_def split: if_splits; fastforce)
qed

lemma quiet_put:
  assumes "quiet cl" "cluster_ok cl (took (\<lambda>_. 0) h)" "held_to cl h a"
  shows "\<exists>cl'. cluster_put (moved_env owner slot reply) cl h True s = Some cl' \<and> quiet cl' \<and>
    cluster_ok cl' (\<lambda>_. 0) \<and> cl_slot_addrs cl' = cl_slot_addrs cl"
proof -
  let ?p = "mg_pools cl ! fst h"
  have h: "held_ok cl h" "pc_obj (snd h) = p_addr ?p" "fst h < length (mg_pools cl)"
    using assms(3) by (auto simp: held_to_def held_ok_def)
  obtain cl' where put: "cluster_put (moved_env owner slot reply) cl h True s = Some cl'" "cluster_ok cl' (\<lambda>_. 0)"
    using cluster_put_ok [OF assms(2) h(1), of "moved_env owner slot reply" True s] by blast
  then obtain p where p: "pool_put ?p 0 (snd h) True = Kept p" "cl' = cl\<lparr>mg_pools := (mg_pools cl)[fst h := p]\<rparr>"
    by (auto simp: cluster_put_def split: put_result.splits)
  have "quiet_pool ?p" using assms(1) h(3) by (simp add: quiet_def)
  with pool_put_keeps [OF p(1)] h(2) have "quiet_pool p" by (auto simp: quiet_pool_def)
  with put p(2) assms(1) show ?thesis
    by (auto simp: quiet_def dest!: set_update_subset_insert [THEN subsetD])
qed

lemma quiet_peek_conn:
  assumes "quiet cl" "cluster_ok cl (\<lambda>_. 0)" "\<forall>a. Some a \<in> set (cl_slot_addrs cl) \<longrightarrow> plain_addr a"
    "peek_conn (moved_env owner slot0 reply) cl slot s = (r, cl', s')"
  shows "quiet cl' \<and> cl_slot_addrs cl' = cl_slot_addrs cl \<and> s' = s \<and>
    (\<exists>h a. r = Some h \<and> cluster_ok cl' (took (\<lambda>_. 0) h) \<and> held_to cl' h a \<and>
      (\<forall>b. in_slots cl slot \<and> cl_slot_addrs cl ! nat slot = Some b \<and>
           (find_pool (mg_pools cl) b \<noteq> None \<or> map_of (mg_addrs cl) b \<noteq> None) \<longrightarrow> a = b))"
proof -
  obtain pi cl1 where 1: "(if slot < 0 then (None, cl) else peek_slot cl slot 0) = (pi, cl1)" by fastforce
  have s1: "quiet cl1 \<and> cluster_ok cl1 (\<lambda>_. 0) \<and> cl_slot_addrs cl1 = cl_slot_addrs cl \<and>
    (\<forall>i. pi = Some i \<longrightarrow> i < length (mg_pools cl1) \<and>
       (\<forall>b. in_slots cl slot \<and> cl_slot_addrs cl ! nat slot = Some b \<longrightarrow> p_addr (mg_pools cl1 ! i) = b)) \<and>
    (pi = None \<longrightarrow> (\<forall>b. in_slots cl slot \<and> cl_slot_addrs cl ! nat slot = Some b \<longrightarrow>
       find_pool (mg_pools cl) b = None \<and> map_of (mg_addrs cl) b = None))"
  proof (cases "in_slots cl slot \<and> cl_slot_addrs cl ! nat slot \<noteq> None")
    case True
    then obtain b where b: "cl_slot_addrs cl ! nat slot = Some b" "0 \<le> slot" "nat slot < length (cl_slot_addrs cl)"
      by (auto simp: in_slots_def)
    then have "Some b \<in> set (cl_slot_addrs cl)" by (metis nth_mem)
    with assms(3) have plain: "plain_addr b" by blast
    from True b 1 have g: "manager_get (cluster_create_pool cl) cl b False 0 = (pi, cl1)"
      by (simp add: peek_slot_def)
    from quiet_get [OF assms(1) plain g] manager_get_ok [OF assms(2) g] b show ?thesis by auto
  next
    case False
    with 1 have "pi = None" "cl1 = cl" by (auto simp: peek_slot_def split: if_splits)
    with False assms(1,2) show ?thesis by auto
  qed
  obtain pj cl2 where 2: "(case pi of None \<Rightarrow> manager_peek (cluster_create_pool cl1) cl1 0
      | Some i \<Rightarrow> (Some i, cl1)) = (pj, cl2)" by fastforce
  have s2: "quiet cl2 \<and> cluster_ok cl2 (\<lambda>_. 0) \<and> cl_slot_addrs cl2 = cl_slot_addrs cl \<and>
    (\<exists>i < length (mg_pools cl2). pj = Some i \<and> (pi \<noteq> None \<longrightarrow> pj = pi \<and> cl2 = cl1))"
  proof (cases pi)
    case None
    with 2 have m: "manager_peek (cluster_create_pool cl1) cl1 0 = (pj, cl2)" by simp
    from quiet_peek [OF _ m] manager_peek_ok [OF _ m] s1 None show ?thesis by auto
  qed (use 2 s1 in auto)
  then obtain i where i: "i < length (mg_pools cl2)" "pj = Some i" by blast
  obtain h cl3 s3 where 3: "cluster_pool_peek (moved_env owner slot0 reply) cl2 i s = (h, cl3, s3)" by (metis prod_cases3)
  from quiet_take [OF _ _ i(1) 3] s2 obtain h' where h':
    "quiet cl3" "cl_slot_addrs cl3 = cl_slot_addrs cl" "s3 = s" "h = Some h'"
    "cluster_ok cl3 (took (\<lambda>_. 0) h')" "held_to cl3 h' (p_addr (mg_pools cl2 ! i))" by auto
  have "r = Some h'" "cl' = cl3" "s' = s3"
    using assms(4) 1 2 3 i h' unfolding peek_conn_def moved_env_simps by simp_all
  with h' s1 s2 i show ?thesis by (intro conjI exI [of _ h'] exI [of _ "p_addr (mg_pools cl2 ! i)"]) auto
qed

lemma quiet_redirect:
  assumes "quiet cl" "cluster_ok cl (\<lambda>_. 0)" "plain_addr addr" "0 < n" "n < 2 ^ 64"
    "redirect (moved_env owner slot reply) cl addr n s = (r, cl', s')"
  shows "quiet cl' \<and> cl_slot_addrs cl' = cl_slot_addrs cl \<and> s' = s \<and>
    (\<exists>h. r = Some h \<and> cluster_ok cl' (took (\<lambda>_. 0) h) \<and> held_to cl' h addr)"
proof -
  obtain a cl1 where 1: "manager_get (cluster_create_pool cl) cl addr False 0 = (a, cl1)" by fastforce
  note q1 = quiet_get [OF assms(1,3) 1] and ok1 = manager_get_ok [OF assms(2) 1]
  let ?cl = "manager_set cl1 addr n 30 30"
  have q2: "quiet ?cl" "map_of (mg_addrs ?cl) addr \<noteq> None" "cl_slot_addrs ?cl = cl_slot_addrs cl"
    using quiet_set [of cl1 addr n 30 30] q1 assms(3) by auto
  have ok2: "cluster_ok ?cl (\<lambda>_. 0)" using ok1 assms(4,5) by (intro manager_set_ok) auto
  obtain b cl2 where 2: "manager_get (cluster_create_pool ?cl) ?cl addr False 0 = (b, cl2)" by fastforce
  obtain pj cl3 where 3: "(case a of Some i \<Rightarrow> (Some i, cl1) | None \<Rightarrow> (b, cl2)) = (pj, cl3)" by fastforce
  have s3: "quiet cl3 \<and> cluster_ok cl3 (\<lambda>_. 0) \<and> cl_slot_addrs cl3 = cl_slot_addrs cl \<and>
      (\<exists>i < length (mg_pools cl3). pj = Some i \<and> p_addr (mg_pools cl3 ! i) = addr)"
    using 3 q1 ok1 quiet_get [OF q2(1) assms(3) 2] manager_get_ok [OF ok2 2] q2 by (cases a) auto
  then obtain i where i: "i < length (mg_pools cl3)" "pj = Some i" "p_addr (mg_pools cl3 ! i) = addr" by blast
  obtain h cl4 s4 where 4: "cluster_pool_peek (moved_env owner slot reply) cl3 i s = (h, cl4, s4)" by (metis prod_cases3)
  from quiet_take [OF _ _ i(1) 4] s3 i(3) obtain h' where h':
    "quiet cl4" "cl_slot_addrs cl4 = cl_slot_addrs cl" "s4 = s" "h = Some h'"
    "cluster_ok cl4 (took (\<lambda>_. 0) h')" "held_to cl4 h' addr" by auto
  have "r = Some h'" "cl' = cl4" "s' = s4"
    using assms(6) 1 2 3 4 i h' unfolding redirect_def moved_env_simps Let_def by (cases a; simp)+
  with h' show ?thesis by auto
qed

lemma moved_reply:
  assumes "c_string owner"
  shows "rr_get_error (resp_result (RError (lit ''MOVED '' @ dec_of_nat slot @ [32] @ owner))) =
      lit ''MOVED '' @ dec_of_nat slot @ [32] @ owner"
    and "c_strncasecmp_eq (lit ''MOVED '' @ dec_of_nat slot @ [32] @ owner) (lit ''MOVED'') 5"
    and "owner \<noteq> [] \<Longrightarrow> get_addr (lit ''MOVED '' @ dec_of_nat slot @ [32] @ owner) = Some owner"
proof -
  have "c_string (lit ''MOVED '' @ dec_of_nat slot @ [32] @ owner)"
    using assms dec_not_in [of 0 slot] by (auto simp: c_string_def lit_def isdigit_def word_le_nat_alt)
  then have "cstr_of (lit ''MOVED '' @ dec_of_nat slot @ [32] @ owner) = lit ''MOVED '' @ dec_of_nat slot @ [32] @ owner"
    by (auto simp: cstr_of_def c_string_def takeWhile_eq_all_conv)
  then show "rr_get_error (resp_result (RError (lit ''MOVED '' @ dec_of_nat slot @ [32] @ owner))) =
      lit ''MOVED '' @ dec_of_nat slot @ [32] @ owner"
    by (simp add: rr_get_error_def rr_get_def)
  show "c_strncasecmp_eq (lit ''MOVED '' @ dec_of_nat slot @ [32] @ owner) (lit ''MOVED'') 5"
    by (simp add: c_strncasecmp_eq_def lit_def)
  have "dropWhile (\<lambda>c. c \<noteq> 32) (dec_of_nat slot @ 32 # owner) = 32 # owner"
    using dec_not_in [of 32 slot] by (subst dropWhile_append2) (auto simp: isdigit_def word_le_nat_alt)
  then show "owner \<noteq> [] \<Longrightarrow> get_addr (lit ''MOVED '' @ dec_of_nat slot @ [32] @ owner) = Some owner"
    by (simp add: get_addr_def lit_def)
qed

section \<open>Properties\<close>

text \<open>C4: A command on the cluster returns, and gives back every connection it has taken: if the
  pools account for \<open>out\<close> connections in use before it, they do so after it, whatever the
  servers answer, however often it is redirected, and whichever connections break or cannot be
  opened; and the assertion in \<open>put\<close> never fails. (The pools have limits, and no idle time of
  zero is set.)\<close>

theorem cluster_run_returns_connections:
  assumes "cluster_ok cl out" "0 < max_conns" "max_conns < 2 ^ 64"
  shows "\<exists>r cl' s'. cluster_run env cl slot req max_conns s = Some (r, cl', s') \<and> cluster_ok cl' out"
  using assms by (rule cluster_run_ok)

text \<open>A cluster of one server that sends every command on to itself; the state counts the
  requests.\<close>

definition demo_cluster :: "unit cluster" where
  "demo_cluster = manager_set (cluster_new 4) (lit ''h:1'') 8 3 3"

definition demo_env :: "(unit, nat) env" where
  "demo_env = \<lparr>env_now = (\<lambda>s. 100), env_open = (\<lambda>p s. (Some (), s)),
     env_run = (\<lambda>c req s. (Some (resp_result (RError (lit ''MOVED 1 h:1''))), c, s + 1)), env_eof = (\<lambda>c. False)\<rparr>"

lemma demo_cluster_ok: "cluster_ok demo_cluster (\<lambda>_. 0)"
  unfolding demo_cluster_def
  by (rule manager_set_ok) (simp_all add: cluster_ok_def cluster_new_def manager_new_def manager.extend_def)

lemma cluster_run_returns_connections_witness:
  "\<exists>r cl' s'. cluster_run demo_env demo_cluster 1 [42] 8 0 = Some (r, cl', s') \<and> cluster_ok cl' (\<lambda>_. 0)"
  by (rule cluster_run_returns_connections [OF demo_cluster_ok]) simp_all

text \<open>C5: However the servers redirect it, a command on the cluster ends, and it has called
  \<open>redis_client::run\<close> at most twice for each of its \<open>redirect_max\<close> rounds, once for the request
  and once for ASKING: servers that point at each other cannot keep it going. The surroundings are
  any at all; \<open>counted\<close> only adds the counter of the calls. (A call of
  \<open>run\<close> may itself write its request twice, when the connection breaks.)\<close>

theorem cluster_run_bounded:
  assumes "cluster_ok cl out" "0 < max_conns" "max_conns < 2 ^ 64"
  shows "\<exists>r cl' s' n. cluster_run (counted env) cl slot req max_conns (s, 0) = Some (r, cl', (s', n)) \<and>
    n \<le> 2 * rounds_max cl"
proof -
  let ?env = "counted env"
  obtain r cl' t where run: "cluster_run ?env cl slot req max_conns (s, 0) = Some (r, cl', t)"
    using cluster_run_ok [OF assms, of ?env slot req "(s, 0)"] by blast
  obtain h cl1 s1 where 1: "peek_conn ?env cl slot (s, 0) = (h, cl1, s1)" by (metis prod_cases3)
  have "snd s1 = 0" using counts_peek_conn [OF counts_counted 1] by simp
  with run 1 have "snd t \<le> 2 * rounds_max cl"
    by (auto simp: cluster_run_def Let_def split: option.splits dest!: cluster_loop_count [OF counts_counted])
  with run show ?thesis by (cases t) auto
qed

lemma cluster_run_bounded_witness:
  "\<exists>r cl' s' n. cluster_run (counted demo_env) demo_cluster 1 [42] 8 (0, 0) = Some (r, cl', (s', n)) \<and> n \<le> 30"
proof -
  have "rounds_max demo_cluster = 15"
    by (simp add: rounds_max_def demo_cluster_def manager_set_def cluster_new_def manager_new_def manager.extend_def)
  with cluster_run_bounded [OF demo_cluster_ok, of 8 demo_env 1 "[42]" 0] show ?thesis by simp
qed

text \<open>Giving one server its password gives it to every pool whose server has a password of
  its own as well: the check is whether the pool's address has any, not whether it is the
  address that was named. These pools then open their connections with the wrong password,
  although the table still holds the right one.\<close>

theorem set_password_overwrites:
  assumes "i < length (mg_pools cl)" "cl_passwds cl (map tolower (p_addr (mg_pools cl ! i))) = Some w"
    and "map tolower addr \<noteq> map tolower (p_addr (mg_pools cl ! i))" "addr \<noteq> []" "v \<noteq> []"
  shows "p_pass (mg_pools (cluster_set_password cl (Some addr) (Some v)) ! i) = Some v \<and>
    cl_passwds (cluster_set_password cl (Some addr) (Some v)) (map tolower (p_addr (mg_pools cl ! i))) = Some w"
  using assms by (simp add: cluster_set_password_def pool_set_password_def)

lemma set_password_overwrites_witness:
  "p_pass (mg_pools (cluster_set_password ((cluster_new 4 :: unit cluster)
       \<lparr>mg_pools := [pool_set_password (pool_new (lit ''a:1'') 8 0) (Some (lit ''x''))],
        cl_passwds := [lit ''a:1'' \<mapsto> lit ''x'']\<rparr>) (Some (lit ''b:1'')) (Some (lit ''y''))) ! 0) = Some (lit ''y'')"
  by (rule conjunct1 [OF set_password_overwrites [where w = "lit ''x''"]])
    (simp_all add: pool_set_password_def pool_new_def lit_def tolower_def isupper_def)

text \<open>C3: MOVED is followed to the server that has the slot. In a cluster of live servers where
  \<open>owner\<close> has the slot and the others answer MOVED, a command returns the owner's reply: with one
  request if the slot table knows the owner, otherwise with at most two, and if it took two,
  the table has the owner for the slot afterwards. The other slots stay as they were, and no
  connection stays in use, so the same holds for the next command.\<close>

theorem cluster_follows_moved:
  assumes "quiet cl" "cluster_ok cl (\<lambda>_. 0)" "0 < n" "n < 2 ^ 64" "2 \<le> rounds_max cl"
    and "\<forall>a. Some a \<in> set (cl_slot_addrs cl) \<longrightarrow> plain_addr a"
    and "plain_addr owner" "c_string owner" "in_slots cl (int slot)"
    and "result_type reply \<noteq> REDIS_RESULT_ERROR" "result_type reply \<noteq> REDIS_RESULT_UNKOWN"
  shows "\<exists>cl' s'. cluster_run (moved_env owner slot reply) cl (int slot) req n s = Some (Some reply, cl', s') \<and>
    quiet cl' \<and> cluster_ok cl' (\<lambda>_. 0) \<and>
    (s' = s + 1 \<and> cl_slot_addrs cl' = cl_slot_addrs cl \<or>
     s' = s + 2 \<and> cl_slot_addrs cl' = (cl_slot_addrs cl)[slot := Some owner]) \<and>
    (cl_slot_addrs cl ! slot = Some owner \<and> find_pool (mg_pools cl) owner \<noteq> None \<longrightarrow> s' = s + 1)"
proof -
  let ?env = "moved_env owner slot reply"
  let ?moved = "lit ''MOVED '' @ dec_of_nat slot @ [32] @ owner"
  obtain h0 cl1 s1 where 1: "peek_conn ?env cl (int slot) s = (h0, cl1, s1)" by (metis prod_cases3)
  from quiet_peek_conn [OF assms(1,2,6) 1] obtain h a where h: "h0 = Some h" "quiet cl1" "s1 = s"
    "cl_slot_addrs cl1 = cl_slot_addrs cl" "cluster_ok cl1 (took (\<lambda>_. 0) h)" "held_to cl1 h a"
    and known: "cl_slot_addrs cl ! slot = Some owner \<and> find_pool (mg_pools cl) owner \<noteq> None \<longrightarrow> a = owner"
    using assms(9) by auto
  obtain k where k: "rounds_max cl = Suc (Suc k)" using assms(5) by (metis add_2_eq_Suc le_Suc_ex)
  have run: "held_run ?env g req t = (Some (if b = owner then reply else resp_result (RError ?moved)), g, t + 1)"
    if "held_to c g b" for c g b t
    using that by (cases g) (auto simp: held_run_def moved_env_def held_to_def)
  have noeof: "held_eof ?env g = False" for g by (simp add: held_eof_def)
  show ?thesis
  proof (cases "a = owner")
    case True
    obtain cl2 where p: "cluster_put ?env cl1 h True (s + 1) = Some cl2" "quiet cl2" "cluster_ok cl2 (\<lambda>_. 0)"
      "cl_slot_addrs cl2 = cl_slot_addrs cl1" using quiet_put [OF h(2,5,6)] by blast
    have "cluster_round ?env cl1 (int slot) req n h False s = Some (Done (Some reply) cl2 (s + 1))"
      using run [OF h(6)] True p(1) assms(10,11)
      by (simp add: cluster_round_def noeof done_put_def)
    then show ?thesis using 1 h p k by (simp add: cluster_run_def)
  next
    case False
    obtain cl2 where p: "cluster_put ?env cl1 h True (s + 1) = Some cl2" "quiet cl2" "cluster_ok cl2 (\<lambda>_. 0)"
      "cl_slot_addrs cl2 = cl_slot_addrs cl1" using quiet_put [OF h(2,5,6)] by blast
    obtain g0 cl3 s3 where r: "redirect ?env cl2 owner n (s + 1) = (g0, cl3, s3)" by (metis prod_cases3)
    from quiet_redirect [OF p(2,3) assms(7,3,4) r] obtain g where g: "g0 = Some g" "quiet cl3" "s3 = s + 1"
      "cl_slot_addrs cl3 = cl_slot_addrs cl2" "cluster_ok cl3 (took (\<lambda>_. 0) g)" "held_to cl3 g owner" by auto
    have owner: "owner \<noteq> []" using assms(7) by (simp add: plain_addr_def)
    have one: "cluster_round ?env cl1 (int slot) req n h False s = Some (Again g True cl3 (s + 1))"
      using run [OF h(6)] False p(1) r g moved_reply [OF assms(8), of slot] owner
      by (simp add: cluster_round_def noeof round_moved_def Let_def)
    let ?cl4 = "set_slot cl3 (int slot) owner"
    have h4: "quiet ?cl4" "cluster_ok ?cl4 (took (\<lambda>_. 0) g)" "held_to ?cl4 g owner" using g by simp_all
    obtain cl5 where q: "cluster_put ?env ?cl4 g True (s + 2) = Some cl5" "quiet cl5" "cluster_ok cl5 (\<lambda>_. 0)"
      "cl_slot_addrs cl5 = cl_slot_addrs ?cl4" using quiet_put [OF h4] by blast
    have "in_slots cl3 (int slot)" using assms(9) g p h by (simp add: in_slots_def)
    then have slots: "cl_slot_addrs ?cl4 = (cl_slot_addrs cl)[slot := Some owner]"
      using owner g p h by (simp add: set_slot_def)
    have addr: "p_addr (mg_pools cl3 ! fst g) = owner" using g(6) by (simp add: held_to_def)
    have two: "cluster_round ?env cl3 (int slot) req n g True (s + 1) = Some (Done (Some reply) cl5 (s + 2))"
      using run [OF g(6)] q(1) assms(10,11) addr
      by (simp add: cluster_round_def noeof done_put_def)
    show ?thesis using 1 h q k one two slots known False by (simp add: cluster_run_def)
  qed
qed

lemma cluster_follows_moved_witness:
  "\<exists>cl' s'. cluster_run (moved_env (lit ''b:2'') 1 (resp_result (RInteger (lit ''7''))))
      (manager_set (cluster_new 4) (lit ''a:1'') 8 3 3) 1 [42] 8 0 = Some (Some (resp_result (RInteger (lit ''7''))), cl', s')"
proof -
  let ?cl = "manager_set (cluster_new 4) (lit ''a:1'') 8 3 3 :: cstr cluster"
  have low: "map tolower (lit ''a:1'') = lit ''a:1''" "map tolower (lit ''b:2'') = lit ''b:2''"
    by (simp_all add: lit_def tolower_def isupper_def)
  have plain: "plain_addr (lit ''a:1'')" "plain_addr (lit ''b:2'')"
    using low by (simp_all add: plain_addr_def) (simp_all add: lit_def)
  have q: "quiet ?cl"
    using plain low by (simp add: quiet_def manager_set_def cluster_new_def manager_new_def manager.extend_def Let_def)
  have ok: "cluster_ok ?cl (\<lambda>_. 0)"
    by (rule manager_set_ok) (simp_all add: cluster_ok_def cluster_new_def manager_new_def manager.extend_def)
  have s: "cl_slot_addrs ?cl = replicate 4 None" "rounds_max ?cl = 15"
    by (simp_all add: rounds_max_def manager_set_def cluster_new_def manager_new_def manager.extend_def)
  from cluster_follows_moved [OF q ok, of 8 "lit ''b:2''" 1 "resp_result (RInteger (lit ''7''))" "[42]" 0] plain s
  show ?thesis by (auto simp: in_slots_def c_string_def) (auto simp: lit_def)
qed

end
