(* ===== verification/Redis_Slots.thy ===== *)
theory Redis_Slots
  imports Redis_Cluster Redis_Zset Cpp_String
begin

text \<open>
  \<^verbatim>\<open>aclredis/src/redis/redis_cluster.cpp\<close>, the CLUSTER commands, and \<^verbatim>\<open>redis_slot.cpp\<close>, in the manner of
  \<open>Redis_List\<close>; CLUSTER NODES and CLUSTER SLAVES are in \<open>Redis_Nodes\<close>. A variadic command is given by its
  first argument and the others before the negative one that ends them. The map of CLUSTER INFO is that of the
  caller, which the command adds to.
\<close>

section \<open>Slots, keys and nodes\<close>

definition cluster_addslots_array :: "'s server \<Rightarrow> int list \<Rightarrow> 's \<Rightarrow> bool \<times> 's" where
  "cluster_addslots_array srv slots = run_with status_ok srv (build_ints (lit ''CLUSTER'') (Some (lit ''ADDSLOTS'')) slots)"

definition cluster_addslots :: "'s server \<Rightarrow> int list \<Rightarrow> 's \<Rightarrow> bool \<times> 's" where
  "cluster_addslots srv slots = run_with status_ok srv (build_ints (lit ''CLUSTER'') (Some (lit ''ADDSLOTS'')) slots)"

definition cluster_addslots_va :: "'s server \<Rightarrow> int \<Rightarrow> int list \<Rightarrow> 's \<Rightarrow> bool \<times> 's" where
  "cluster_addslots_va srv first ap s =
     (let slot_list = takeWhile (\<lambda>n. n \<ge> 0) ap
      in if slot_list = [] then (True, s) else cluster_addslots srv slot_list s)"

definition cluster_delslots_array :: "'s server \<Rightarrow> int list \<Rightarrow> 's \<Rightarrow> bool \<times> 's" where
  "cluster_delslots_array srv slots = run_with status_ok srv (build_ints (lit ''CLUSTER'') (Some (lit ''DELSLOTS'')) slots)"

definition cluster_delslots :: "'s server \<Rightarrow> int list \<Rightarrow> 's \<Rightarrow> bool \<times> 's" where
  "cluster_delslots srv slots = run_with status_ok srv (build_ints (lit ''CLUSTER'') (Some (lit ''DELSLOTS'')) slots)"

definition cluster_delslots_va :: "'s server \<Rightarrow> int \<Rightarrow> int list \<Rightarrow> 's \<Rightarrow> bool \<times> 's" where
  "cluster_delslots_va srv first ap s =
     (let slot_list = takeWhile (\<lambda>n. n \<ge> 0) ap
      in if slot_list = [] then (True, s) else cluster_delslots srv slot_list s)"

definition cluster_getkeysinslot :: "'s server \<Rightarrow> nat \<Rightarrow> nat \<Rightarrow> 's \<Rightarrow> (int \<times> byte list list option) \<times> 's" where
  "cluster_getkeysinslot srv slot mx =
     run_with get_strings srv [lit ''CLUSTER'', lit ''GETKEYSINSLOT'', lu21 slot, lu21 mx]"

definition cluster_meet :: "'s server \<Rightarrow> cstr \<Rightarrow> int \<Rightarrow> 's \<Rightarrow> bool \<times> 's" where
  "cluster_meet srv ip port = run_with status_ok srv [lit ''CLUSTER'', lit ''MEET'', ip, int_arg port]"

definition cluster_reset :: "'s server \<Rightarrow> 's \<Rightarrow> bool \<times> 's" where
  "cluster_reset srv = run_with status_ok srv [lit ''CLUSTER'', lit ''RESET'']"

definition cluster_reset_hard :: "'s server \<Rightarrow> 's \<Rightarrow> bool \<times> 's" where
  "cluster_reset_hard srv = run_with status_ok srv [lit ''CLUSTER'', lit ''RESET'', lit ''HARD'']"

definition cluster_reset_soft :: "'s server \<Rightarrow> 's \<Rightarrow> bool \<times> 's" where
  "cluster_reset_soft srv = run_with status_ok srv [lit ''CLUSTER'', lit ''RESET'', lit ''SOFT'']"

definition cluster_setslot_importing :: "'s server \<Rightarrow> nat \<Rightarrow> cstr \<Rightarrow> 's \<Rightarrow> bool \<times> 's" where
  "cluster_setslot_importing srv slot src_node =
     run_with status_ok srv [lit ''CLUSTER'', lit ''SETSLOT'', lu21 slot, lit ''IMPORTING'', src_node]"

definition cluster_setslot_migrating :: "'s server \<Rightarrow> nat \<Rightarrow> cstr \<Rightarrow> 's \<Rightarrow> bool \<times> 's" where
  "cluster_setslot_migrating srv slot dst_node =
     run_with status_ok srv [lit ''CLUSTER'', lit ''SETSLOT'', lu21 slot, lit ''MIGRATING'', dst_node]"

definition cluster_setslot_stable :: "'s server \<Rightarrow> nat \<Rightarrow> 's \<Rightarrow> bool \<times> 's" where
  "cluster_setslot_stable srv slot =
     run_with status_ok srv [lit ''CLUSTER'', lit ''SETSLOT'', lu21 slot, lit ''STABLE'']"

definition cluster_setslot_node :: "'s server \<Rightarrow> nat \<Rightarrow> cstr \<Rightarrow> 's \<Rightarrow> bool \<times> 's" where
  "cluster_setslot_node srv slot node =
     run_with status_ok srv [lit ''CLUSTER'', lit ''SETSLOT'', lu21 slot, lit ''NODE'', node]"

definition cluster_count_failure_reports :: "'s server \<Rightarrow> cstr \<Rightarrow> 's \<Rightarrow> int \<times> 's" where
  "cluster_count_failure_reports srv node =
     run_with (fst \<circ> get_number) srv [lit ''CLUSTER'', lit ''COUNT-FAILURE-REPORTS'', node]"

definition cluster_failover :: "'s server \<Rightarrow> 's \<Rightarrow> bool \<times> 's" where
  "cluster_failover srv = run_with status_ok srv [lit ''CLUSTER'', lit ''FAILOVER'']"

definition cluster_failover_force :: "'s server \<Rightarrow> 's \<Rightarrow> bool \<times> 's" where
  "cluster_failover_force srv = run_with status_ok srv [lit ''CLUSTER'', lit ''FAILOVER'', lit ''FORCE'']"

definition cluster_failover_takeover :: "'s server \<Rightarrow> 's \<Rightarrow> bool \<times> 's" where
  "cluster_failover_takeover srv = run_with status_ok srv [lit ''CLUSTER'', lit ''FAILOVER'', lit ''TAKEOVER'']"

definition cluster_saveconfig :: "'s server \<Rightarrow> 's \<Rightarrow> bool \<times> 's" where
  "cluster_saveconfig srv = run_with status_ok srv [lit ''CLUSTER'', lit ''SAVECONFIG'']"

definition cluster_countkeysinslot :: "'s server \<Rightarrow> nat \<Rightarrow> 's \<Rightarrow> int \<times> 's" where
  "cluster_countkeysinslot srv slot =
     run_with (fst \<circ> get_number) srv [lit ''CLUSTER'', lit ''COUNTKEYSINSLOT'', lu21 slot]"

definition cluster_forget :: "'s server \<Rightarrow> cstr \<Rightarrow> 's \<Rightarrow> bool \<times> 's" where
  "cluster_forget srv node = run_with status_ok srv [lit ''CLUSTER'', lit ''FORGET'', node]"

definition cluster_keyslot :: "'s server \<Rightarrow> cstr \<Rightarrow> 's \<Rightarrow> int \<times> 's" where
  "cluster_keyslot srv key = run_with (fst \<circ> get_number) srv [lit ''CLUSTER'', lit ''KEYSLOT'', key]"

definition cluster_replicate :: "'s server \<Rightarrow> cstr \<Rightarrow> 's \<Rightarrow> bool \<times> 's" where
  "cluster_replicate srv node = run_with status_ok srv [lit ''CLUSTER'', lit ''REPLICATE'', node]"

definition cluster_set_config_epoch :: "'s server \<Rightarrow> cstr \<Rightarrow> 's \<Rightarrow> bool \<times> 's" where
  "cluster_set_config_epoch srv epoch = run_with status_ok srv [lit ''CLUSETR'', lit ''SET-CONFIG-EPOCH'', epoch]"

section \<open>CLUSTER INFO\<close>

text \<open>One line \<open>name:value\<close>, read as a C string; a name without a value is passed over.\<close>

definition info_line :: "(cstr \<rightharpoonup> cstr) \<Rightarrow> byte list \<Rightarrow> (cstr \<rightharpoonup> cstr)" where
  "info_line result line =
     (let name = cstr_of (line @ [0]) in
      case strchr_idx name 58 of
        None \<Rightarrow> result
      | Some i \<Rightarrow> if drop (i + 1) name = [] then result else result(take i name \<mapsto> drop (i + 1) name))"

definition string_with :: "(nat \<Rightarrow> byte) \<Rightarrow> byte list \<Rightarrow> cpp_string option" where
  "string_with junk t = do { s \<leftarrow> cs_new junk; append_bytes s t }"

definition info_text :: "(nat \<Rightarrow> byte) \<Rightarrow> (cstr \<rightharpoonup> cstr) \<Rightarrow> byte list \<Rightarrow> (cstr \<rightharpoonup> cstr) option" where
  "info_text junk result t = do {
     buf \<leftarrow> string_with junk t;
     (ls, buf) \<leftarrow> scan_lines (Suc (length t)) buf False;
     Some (foldl info_line result ls) }"

definition cluster_info ::
  "'s server \<Rightarrow> (nat \<Rightarrow> byte) \<Rightarrow> (cstr \<rightharpoonup> cstr) \<Rightarrow> 's \<Rightarrow> (bool \<times> (cstr \<rightharpoonup> cstr)) option \<times> 's"
where
  "cluster_info srv junk result =
     run_with (\<lambda>r. case get_string r of
        (n, None) \<Rightarrow> Some (False, result)
      | (n, Some t) \<Rightarrow> if n \<le> 0 then Some (False, result) else map_option (Pair True) (info_text junk result t))
       srv [lit ''CLUSTER'', lit ''INFO'']"

section \<open>CLUSTER SLOTS\<close>

text \<open>A range of slots with its master, and the slaves.\<close>

datatype slot_node = SlotNode (sn_master: redis_slot) (sn_slaves: "redis_slot list")

definition redis_slot_new :: "nat \<Rightarrow> nat \<Rightarrow> cstr \<Rightarrow> int \<Rightarrow> redis_slot" where
  "redis_slot_new mn mx ip port = \<lparr>rs_min = mn, rs_max = mx, rs_ip = c_snprintf 128 ip, rs_port = port\<rparr>"

definition get_slot :: "redis_result \<Rightarrow> nat \<Rightarrow> nat \<Rightarrow> redis_slot option" where
  "get_slot rr slot_max slot_min =
     (case rr_children rr of
        c0 # c1 # ch \<Rightarrow>
          (case rr_argv_to_buf c0 128 of
             None \<Rightarrow> None
           | Some ip \<Rightarrow>
               if length ip - 1 = 0 then None
               else let port = fst (rr_get_integer c1) in
                 if port \<le> 0 then None else Some (redis_slot_new slot_min slot_max (cstr_of ip) port))
      | _ \<Rightarrow> None)"

definition get_slot_master :: "redis_result \<Rightarrow> slot_node option" where
  "get_slot_master rr =
     (case rr_children rr of
        c0 # c1 # c2 # ch \<Rightarrow>
          (let slot_min = fst (rr_get_integer c0) in
           if slot_min < 0 then None
           else let slot_max = fst (rr_get_integer c1) in
             if slot_max < slot_min then None
             else case get_slot c2 (nat slot_max) (nat slot_min) of
               None \<Rightarrow> None
             | Some master \<Rightarrow>
                 Some (SlotNode master (List.map_filter (\<lambda>c. get_slot c (nat slot_max) (nat slot_min)) ch)))
      | _ \<Rightarrow> None)"

definition slots_of_result :: "redis_result option \<Rightarrow> slot_node list option" where
  "slots_of_result r =
     (if \<not> is_type REDIS_RESULT_ARRAY r then None
      else let ch = rr_children (the r) in
        if ch = [] then None
        else Some (List.map_filter (\<lambda>c. if result_type c \<noteq> REDIS_RESULT_ARRAY then None else get_slot_master c) ch))"

definition cluster_slots :: "'s server \<Rightarrow> 's \<Rightarrow> slot_node list option \<times> 's" where
  "cluster_slots srv = run_with slots_of_result srv [lit ''CLUSTER'', lit ''SLOTS'']"

text \<open>\<open>set_all_slot\<close> of the manager, with the command it sends.\<close>

definition set_all_slot_by ::
  "'s server \<Rightarrow> 'c cluster \<Rightarrow> nat \<Rightarrow> int \<Rightarrow> int \<Rightarrow> int \<Rightarrow> 's \<Rightarrow> 'c cluster \<times> 's"
where
  "set_all_slot_by srv cl max_conns conn_t rw_t now s =
     (case cluster_slots srv s of
        (slots, s) \<Rightarrow> (set_all_slot cl max_conns conn_t rw_t now (map_option (map sn_master) slots), s))"

section \<open>What any server can make of it\<close>

text \<open>A well-typed range: an interval of slots that fit in an \<open>int\<close>, a C string that fits in the buffer of the
  address, a positive port.\<close>

definition slot_typed :: "nat \<Rightarrow> nat \<Rightarrow> redis_slot \<Rightarrow> bool" where
  "slot_typed mn mx rs \<longleftrightarrow> rs_min rs = mn \<and> rs_max rs = mx \<and> mn \<le> mx \<and> mx < 2 ^ 31 \<and>
     c_string (rs_ip rs) \<and> length (rs_ip rs) < 128 \<and> 0 < rs_port rs \<and> rs_port rs < 2 ^ 31"

lemma signed31_less: "signed_take_bit 31 (i :: int) < 2 ^ 31"
  using signed_take_bit_int_less_exp [of 31 i] by simp

lemma rr_get_integer_less: "fst (rr_get_integer rr) < 2 ^ 31"
  using signed31_less by (auto simp: rr_get_integer_def c_atoi_def split: option.splits)

lemma get_slot_typed:
  assumes "get_slot rr mx mn = Some rs" "mn \<le> mx" "mx < 2 ^ 31"
  shows "slot_typed mn mx rs"
proof -
  from assms(1) obtain c0 c1 ch ip where c: "rr_children rr = c0 # c1 # ch" "0 < fst (rr_get_integer c1)"
    and rs: "rs = redis_slot_new mn mx (cstr_of ip) (fst (rr_get_integer c1))"
    by (auto simp: get_slot_def Let_def split: list.splits option.splits if_splits)
  have "c_string (take 127 (cstr_of ip))"
    using c_string_cstr_of [of ip] by (auto simp: c_string_def dest: in_set_takeD)
  with c rs assms(2,3) rr_get_integer_less [of c1] show ?thesis
    by (simp add: slot_typed_def redis_slot_new_def c_snprintf_def)
qed

lemma map_filter_mem: "y \<in> set (List.map_filter f xs) \<longleftrightarrow> (\<exists>x \<in> set xs. f x = Some y)"
  by (induction xs) (auto simp: List.map_filter_simps split: option.splits)

text \<open>C29: Whatever CLUSTER SLOTS is answered, what \<open>cluster_slots\<close> gives is well typed: every range is an interval of
  slots that fit in an \<open>int\<close>, with an address that is a C string shorter than its buffer and a positive port, and every
  slave of a range has the bounds of its master. So \<open>set_all_slot\<close>, which counts from the lower bound to the upper one,
  works on a finite interval and never on a wrapped number.\<close>

theorem cluster_slots_typed:
  assumes "fst (cluster_slots srv s) = Some ns" "n \<in> set ns"
  shows "\<exists>mn mx. slot_typed mn mx (sn_master n) \<and> (\<forall>sl \<in> set (sn_slaves n). slot_typed mn mx sl)"
proof -
  from assms obtain c where "get_slot_master c = Some n"
    by (auto simp: cluster_slots_def run_with_def slots_of_result_def Let_def map_filter_mem apfst_def map_prod_def
        split: if_splits prod.splits)
  then obtain c0 c1 c2 ch master where
    b: "0 \<le> fst (rr_get_integer c0)" "fst (rr_get_integer c0) \<le> fst (rr_get_integer c1)"
    and m: "get_slot c2 (nat (fst (rr_get_integer c1))) (nat (fst (rr_get_integer c0))) = Some master"
    and n: "n = SlotNode master (List.map_filter
      (\<lambda>c. get_slot c (nat (fst (rr_get_integer c1))) (nat (fst (rr_get_integer c0)))) ch)"
    by (auto simp: get_slot_master_def Let_def not_less split: list.splits option.splits if_splits)
  have le: "nat (fst (rr_get_integer c0)) \<le> nat (fst (rr_get_integer c1))" using b by simp
  have less: "nat (fst (rr_get_integer c1)) < 2 ^ 31" using b rr_get_integer_less [of c1] by simp
  show ?thesis
    using m n get_slot_typed [OF _ le less]
    by (intro exI [of _ "nat (fst (rr_get_integer c0))"] exI [of _ "nat (fst (rr_get_integer c1))"])
      (auto simp: map_filter_mem)
qed

section \<open>The topology of a cluster, there and back\<close>

text \<open>A server is its address, its port, and what else the answer says of it (its id, from redis 4 on); a range has
  its bounds, its master and the slaves.\<close>

type_synonym host = "cstr \<times> nat \<times> resp list"
type_synonym topo_range = "(nat \<times> nat) \<times> host \<times> host list"

definition resp_host :: "host \<Rightarrow> resp" where
  "resp_host h = (case h of (ip, port, ext) \<Rightarrow> RArray (RBulk ip # RInteger (dec_of_nat port) # ext))"

definition resp_range :: "topo_range \<Rightarrow> resp" where
  "resp_range e = (case e of ((mn, mx), m, ss) \<Rightarrow>
     RArray (RInteger (dec_of_nat mn) # RInteger (dec_of_nat mx) # resp_host m # map resp_host ss))"

definition slots_reply :: "topo_range list \<Rightarrow> resp" where
  "slots_reply es = RArray (map resp_range es)"

definition host_ok :: "host \<Rightarrow> bool" where
  "host_ok h \<longleftrightarrow> (case h of (ip, port, ext) \<Rightarrow>
     c_string ip \<and> ip \<noteq> [] \<and> length ip < 128 \<and> 0 < port \<and> port < 2 ^ 31)"

definition range_ok :: "topo_range \<Rightarrow> bool" where
  "range_ok e \<longleftrightarrow> (case e of ((mn, mx), m, ss) \<Rightarrow> mn \<le> mx \<and> mx < 2 ^ 31 \<and> host_ok m \<and> list_all host_ok ss)"

definition host_slot :: "nat \<times> nat \<Rightarrow> host \<Rightarrow> redis_slot" where
  "host_slot b h = \<lparr>rs_min = fst b, rs_max = snd b, rs_ip = fst h, rs_port = int (fst (snd h))\<rparr>"

definition range_node :: "topo_range \<Rightarrow> slot_node" where
  "range_node e = (case e of (b, m, ss) \<Rightarrow> SlotNode (host_slot b m) (map (host_slot b) ss))"

lemma integer_reply: "n < 2 ^ 31 \<Longrightarrow> fst (rr_get_integer (RedisResult REDIS_RESULT_INTEGER k [dec_of_nat n] ch)) = int n"
  by (simp add: rr_get_integer_def rr_get_def cstr_of_dec)

lemma get_slot_host:
  assumes "host_ok h" shows "get_slot (resp_result (resp_host h)) mx mn = Some (host_slot (mn, mx) h)"
proof -
  obtain ip port ext where h: "h = (ip, port, ext)" by (cases h)
  have ip: "c_string ip" "ip \<noteq> []" "length ip < 128" "0 < port" "port < 2 ^ 31" using assms by (auto simp: host_ok_def h)
  then have t: "take 127 ip = ip" "rr_argv_to_buf (RedisResult REDIS_RESULT_STRING (Suc 0) [ip] []) 128 = Some (ip @ [0])"
    by (simp_all add: rr_argv_to_buf_def copy_pieces_take)
  with ip integer_reply [OF ip(5)] show ?thesis
    by (simp add: get_slot_def resp_host_def h redis_slot_new_def host_slot_def c_snprintf_def)
qed

lemma map_filter_all: "(\<And>x. x \<in> set xs \<Longrightarrow> f x = Some (g x)) \<Longrightarrow> List.map_filter f xs = map g xs"
  by (induction xs) (auto simp: List.map_filter_simps)

lemma map_filter_map: "List.map_filter f (map h xs) = List.map_filter (\<lambda>x. f (h x)) xs"
  by (simp add: List.map_filter_def filter_map comp_def)

lemma get_slot_master_range:
  assumes "range_ok e" shows "get_slot_master (resp_result (resp_range e)) = Some (range_node e)"
proof -
  obtain mn mx m ss where e: "e = ((mn, mx), m, ss)" by (metis prod.exhaust)
  have ok: "mn \<le> mx" "mx < 2 ^ 31" "mn < 2 ^ 31" "host_ok m" "list_all host_ok ss"
    using assms by (auto simp: range_ok_def e)
  have "List.map_filter (\<lambda>c. get_slot c mx mn) (map (\<lambda>h. resp_result (resp_host h)) ss) = map (host_slot (mn, mx)) ss"
    using ok(5) get_slot_host unfolding map_filter_map by (intro map_filter_all) (auto simp: list_all_iff)
  with ok integer_reply [OF ok(2)] integer_reply [OF ok(3)] get_slot_host [OF ok(4)] show ?thesis
    by (simp add: get_slot_master_def resp_range_def e range_node_def comp_def)
qed

lemma slots_of_reply:
  assumes "es \<noteq> []" "\<forall>e \<in> set es. range_ok e"
  shows "slots_of_result (Some (resp_result (slots_reply es))) = Some (map range_node es)"
proof -
  have "List.map_filter (\<lambda>c. if result_type c \<noteq> REDIS_RESULT_ARRAY then None else get_slot_master c)
      (map (\<lambda>e. resp_result (resp_range e)) es) = map range_node es"
    unfolding map_filter_map
    by (rule map_filter_all) (use assms(2) get_slot_master_range in \<open>auto simp: resp_range_def split: prod.splits\<close>)
  with assms(1) show ?thesis by (simp add: slots_of_result_def slots_reply_def is_type_def comp_def)
qed

theorem cluster_slots_typed_witness:
  "fst (cluster_slots (\<lambda>req n. (Some (resp_result (slots_reply [((0, 5), (lit ''h'', 7, []), [])])), n)) (0 :: nat)) =
     Some [SlotNode \<lparr>rs_min = 0, rs_max = 5, rs_ip = lit ''h'', rs_port = 7\<rparr> []] \<and>
   (\<exists>mn mx. slot_typed mn mx \<lparr>rs_min = 0, rs_max = 5, rs_ip = lit ''h'', rs_port = 7\<rparr>)"
proof -
  let ?srv = "\<lambda>req (n :: nat). (Some (resp_result (slots_reply [((0, 5), (lit ''h'', 7, []), [])])), n)"
  let ?n = "SlotNode \<lparr>rs_min = 0, rs_max = 5, rs_ip = lit ''h'', rs_port = 7\<rparr> []"
  have "fst (cluster_slots ?srv 0) = Some [?n]"
    by (simp add: cluster_slots_def run_with_def run_request_def slots_of_reply range_ok_def host_ok_def c_string_def
        lit_def range_node_def host_slot_def)
  with cluster_slots_typed [of ?srv 0 "[?n]" ?n] show ?thesis by auto
qed

section \<open>Where the slots lead\<close>

definition host_addr :: "host \<Rightarrow> cstr" where
  "host_addr h = c_snprintf 128 (fst h @ [58] @ dec_of_nat (fst (snd h)))"

definition covers :: "nat \<Rightarrow> topo_range \<Rightarrow> bool" where
  "covers i e \<longleftrightarrow> fst (fst e) \<le> i \<and> i \<le> snd (fst e)"

text \<open>A server that the manager has a pool for, or a configuration to make one from.\<close>

definition known :: "'c cluster \<Rightarrow> cstr \<Rightarrow> bool" where
  "known cl a \<longleftrightarrow> find_pool (mg_pools cl) (get_key a) \<noteq> None \<or> map_of (mg_addrs cl) (map tolower a) \<noteq> None"

definition addrs_ok :: "'c cluster \<Rightarrow> bool" where
  "addrs_ok cl \<longleftrightarrow> (\<forall>(k, cf) \<in> set (mg_addrs cl). map tolower (cf_addr cf) = k)"

lemma set_map_put: "set (map_put k v es) \<subseteq> insert (k, v) (set es)"
  by (induction k v es rule: map_put.induct) auto

lemma map_of_put: "map_of (map_put k v es) k' \<noteq> None \<longleftrightarrow> k' = k \<or> map_of es k' \<noteq> None"
  by (induction k v es rule: map_put.induct) auto

lemma find_pool_app: "find_pool ps k \<noteq> None \<Longrightarrow> find_pool (ps @ qs) k \<noteq> None"
  by (induction ps) auto

lemma set_slots_fields [simp]:
  "mg_pools (set_slots cl is a) = mg_pools cl" "mg_addrs (set_slots cl is a) = mg_addrs cl"
  "length (cl_slot_addrs (set_slots cl is a)) = length (cl_slot_addrs cl)"
  by (induction cl "is" a rule: set_slots.induct) (auto simp: set_slot_def)

lemma set_slots_addrs:
  assumes "i < length (cl_slot_addrs cl)" "a \<noteq> []" "\<forall>j \<in> set is. j < 2 ^ 31"
  shows "cl_slot_addrs (set_slots cl is a) ! i = (if i \<in> set is then Some a else cl_slot_addrs cl ! i)"
  using assms
proof (induction cl "is" a rule: set_slots.induct)
  case (2 cl j js a)
  have "signed_take_bit 31 (int j) = int j" using 2(4) by (simp add: signed_take_bit_int_eq_self)
  with 2 show ?case by (auto simp: set_slot_def in_slots_def nth_list_update)
qed simp

text \<open>One range of an answer.\<close>

lemma set_one_slot_ok:
  fixes cl :: "'c cluster" and h :: host and mn mx mc :: nat and ct rt now :: int
  defines "a \<equiv> host_addr h" and "cl' \<equiv> set_one_slot cl mc ct rt now (host_slot (mn, mx) h)"
  assumes h: "host_ok h" and b: "mn \<le> mx" "mx < 2 ^ 31" "mx < length (cl_slot_addrs cl)" and ok: "addrs_ok cl"
  shows "length (cl_slot_addrs cl') = length (cl_slot_addrs cl) \<and> addrs_ok cl' \<and> known cl' a \<and>
    (\<forall>x. known cl x \<longrightarrow> known cl' x) \<and>
    (\<forall>i < length (cl_slot_addrs cl). cl_slot_addrs cl' ! i = (if mn \<le> i \<and> i \<le> mx then Some a else cl_slot_addrs cl ! i))"
proof -
  obtain ip port ext where hd: "h = (ip, port, ext)" by (cases h)
  have a: "a \<noteq> []" "c_snprintf 128 (ip @ [58] @ dec_of_int (int port)) = a"
    using h by (auto simp: a_def host_addr_def c_snprintf_def host_ok_def hd dec_of_int_def)
  let ?mk = "cluster_create_pool cl"
  define g where "g = manager_get ?mk cl a False now"
  define cl1 where "cl1 = (case g of (None, c) \<Rightarrow> manager_set c a mc ct rt | (Some _, c) \<Rightarrow> c)"
  have one: "cl' = set_slots cl1 [mn..<Suc mx] a"
    using h b a
    by (auto simp: cl'_def set_one_slot_def host_slot_def hd host_ok_def Let_def cl1_def g_def
        signed_take_bit_int_eq_self)
  have g: "(find_pool (mg_pools cl) (get_key a) \<noteq> None \<and> cl1 = cl) \<or>
      (\<exists>p. cl1 = cl\<lparr>mg_pools := mg_pools cl @ [p]\<rparr> \<and> map_of (mg_addrs cl) (map tolower a) \<noteq> None) \<or>
      (\<exists>cf. cl1 = cl\<lparr>mg_addrs := map_put (map tolower a) cf (mg_addrs cl)\<rparr> \<and> cf_addr cf = a)"
    by (auto simp: cl1_def g_def manager_get_def manager_set_def split: option.splits)
  have len: "cl_slot_addrs cl1 = cl_slot_addrs cl" using g by auto
  have "addrs_ok cl1 \<and> known cl1 a \<and> (\<forall>x. known cl x \<longrightarrow> known cl1 x)"
    using g
  proof (elim disjE exE conjE)
    assume "find_pool (mg_pools cl) (get_key a) \<noteq> None" "cl1 = cl"
    with ok show ?thesis by (simp add: known_def)
  next
    fix p assume c: "cl1 = cl\<lparr>mg_pools := mg_pools cl @ [p]\<rparr>" "map_of (mg_addrs cl) (map tolower a) \<noteq> None"
    have "known cl1 x" if "known cl x" for x using that find_pool_app [of "mg_pools cl" "get_key x" "[p]"] c(1)
      by (simp only: known_def) auto
    with c ok show ?thesis by (simp add: known_def addrs_ok_def)
  next
    fix cf assume c: "cl1 = cl\<lparr>mg_addrs := map_put (map tolower a) cf (mg_addrs cl)\<rparr>" "cf_addr cf = a"
    have "addrs_ok cl1" using ok set_map_put [of "map tolower a" cf "mg_addrs cl"] c by (fastforce simp: addrs_ok_def)
    moreover have "known cl1 a" using c(1) by (simp add: known_def map_of_put del: not_None_eq)
    moreover have "known cl x \<Longrightarrow> known cl1 x" for x using c(1) by (simp add: known_def map_of_put del: not_None_eq)
    ultimately show ?thesis by blast
  qed
  then show ?thesis
    using one len a(1) b by (auto simp: addrs_ok_def known_def set_slots_addrs)
qed

text \<open>The ranges of an answer, the last that covers a slot counts.\<close>

lemma set_all_slot_ok:
  fixes mc :: nat and ct rt now :: int
  assumes "\<forall>e \<in> set es. range_ok e \<and> snd (fst e) < length (cl_slot_addrs cl)" "addrs_ok cl"
  defines "cl' \<equiv> set_all_slot cl mc ct rt now (Some (map (\<lambda>e. sn_master (range_node e)) es))"
  shows "length (cl_slot_addrs cl') = length (cl_slot_addrs cl) \<and> addrs_ok cl' \<and>
    (\<forall>e \<in> set es. known cl' (host_addr (fst (snd e)))) \<and>
    (\<forall>i < length (cl_slot_addrs cl). cl_slot_addrs cl' ! i =
      (case find (covers i) (rev es) of Some e \<Rightarrow> Some (host_addr (fst (snd e))) | None \<Rightarrow> cl_slot_addrs cl ! i))"
  using assms(1) unfolding cl'_def
proof (induction es rule: rev_induct)
  case Nil
  with assms(2) show ?case by (simp add: set_all_slot_def)
next
  case (snoc e es)
  obtain mn mx h ss where e: "e = ((mn, mx), h, ss)" by (metis prod.exhaust)
  let ?c = "set_all_slot cl mc ct rt now (Some (map (\<lambda>e. sn_master (range_node e)) es))"
  let ?d = "set_one_slot ?c mc ct rt now (host_slot (mn, mx) h)"
  have IH: "length (cl_slot_addrs ?c) = length (cl_slot_addrs cl)" "addrs_ok ?c"
    "\<forall>e \<in> set es. known ?c (host_addr (fst (snd e)))"
    "\<forall>i < length (cl_slot_addrs cl). cl_slot_addrs ?c ! i =
      (case find (covers i) (rev es) of Some e \<Rightarrow> Some (host_addr (fst (snd e))) | None \<Rightarrow> cl_slot_addrs cl ! i)"
    using snoc by auto
  have ok: "host_ok h" "mn \<le> mx" "mx < 2 ^ 31" "mx < length (cl_slot_addrs ?c)"
    using snoc.prems IH(1) by (auto simp: e range_ok_def)
  note one = set_one_slot_ok [OF ok IH(2), of mc ct rt now]
  have "set_all_slot cl mc ct rt now (Some (map (\<lambda>e. sn_master (range_node e)) (es @ [e]))) = ?d"
    by (simp add: set_all_slot_def e range_node_def)
  moreover have "covers i e \<longleftrightarrow> mn \<le> i \<and> i \<le> mx" for i by (simp add: covers_def e)
  ultimately show ?case using one IH by (simp add: e)
qed

lemma find_pool_key: "find_pool ps k = Some j \<Longrightarrow> j < length ps \<and> p_key (ps ! j) = k"
  by (induction ps arbitrary: j) (auto split: if_splits)

lemma created_key:
  "length (cf_addr cf) \<le> 255 \<Longrightarrow> p_key (manager_create_pool (cluster_create_pool cl) m cf i) = map tolower (cf_addr cf)"
  by (simp add: manager_create_pool_def Let_def pool_set_key_def pool_set_retry_inter_def pool_set_timeout_def
      pool_set_idle_ttl_def pool_set_check_inter_def get_key_def take_map)

lemma peek_slot_known:
  assumes "addrs_ok cl" "known cl a" "length a \<le> 255" "i < length (cl_slot_addrs cl)" "cl_slot_addrs cl ! i = Some a"
  shows "\<exists>j cl'. peek_slot cl (int i) now = (Some j, cl') \<and> j < length (mg_pools cl') \<and>
    p_key (mg_pools cl' ! j) = map tolower a"
proof (cases "find_pool (mg_pools cl) (get_key a)")
  case (Some j)
  with find_pool_key [OF Some] assms(4,5) show ?thesis
    by (simp add: peek_slot_def in_slots_def manager_get_def get_key_def)
next
  case None
  with assms(2) obtain cf where cf: "map_of (mg_addrs cl) (map tolower a) = Some cf" by (auto simp: known_def)
  with assms(1) have eq: "map tolower (cf_addr cf) = map tolower a" by (fastforce simp: addrs_ok_def dest: map_of_SomeD)
  then have "length (cf_addr cf) \<le> 255" using assms(3) by (metis length_map)
  with created_key [OF this] None cf eq assms(4,5) show ?thesis
    by (simp add: peek_slot_def in_slots_def manager_get_def)
qed

text \<open>C20: A command finds the server of its slot. When the server asked answers CLUSTER SLOTS with the ranges of the
  cluster, each with a master and slaves, then after \<open>set_all_slot\<close> every slot that a range covers leads to the pool of
  the master of that range (of the last one, if ranges overlap), which is there already or is made at the first use; a
  slot that no range covers keeps the server it had.\<close>

theorem cluster_slots_route:
  fixes mc :: nat and ct rt now later :: int
  assumes "fst (run_request srv [lit ''CLUSTER'', lit ''SLOTS''] s) = Some (resp_result (slots_reply es))" "es \<noteq> []"
    and "\<forall>e \<in> set es. range_ok e \<and> snd (fst e) < length (cl_slot_addrs cl)" "addrs_ok cl" "i < length (cl_slot_addrs cl)"
  defines "cl' \<equiv> fst (set_all_slot_by srv cl mc ct rt now s)"
  shows "case find (covers i) (rev es) of
      Some e \<Rightarrow> (\<exists>j cl''. peek_slot cl' (int i) later = (Some j, cl'') \<and> j < length (mg_pools cl'') \<and>
        p_key (mg_pools cl'' ! j) = map tolower (host_addr (fst (snd e))))
    | None \<Rightarrow> cl_slot_addrs cl' ! i = cl_slot_addrs cl ! i"
proof -
  have "slots_of_result (Some (resp_result (slots_reply es))) = Some (map range_node es)"
    using assms(2,3) by (intro slots_of_reply) auto
  with assms(1) have "fst (cluster_slots srv s) = Some (map range_node es)"
    by (simp add: cluster_slots_def run_with_def)
  then have cl': "cl' = set_all_slot cl mc ct rt now (Some (map (\<lambda>e. sn_master (range_node e)) es))"
    by (simp add: cl'_def set_all_slot_by_def split_beta comp_def)
  note ok = set_all_slot_ok [OF assms(3,4), of mc ct rt now, folded cl']
  show ?thesis
  proof (cases "find (covers i) (rev es)")
    case None
    with ok assms(5) show ?thesis by simp
  next
    case (Some e)
    then have e: "e \<in> set es" by (metis find_Some_iff length_rev nth_mem set_rev)
    have "length (host_addr (fst (snd e))) \<le> 255" by (simp add: host_addr_def c_snprintf_def)
    with peek_slot_known [of cl' "host_addr (fst (snd e))" i later] ok Some e assms(5) show ?thesis by simp
  qed
qed

theorem cluster_slots_route_witness:
  "\<exists>j cl''. peek_slot (fst (set_all_slot_by (\<lambda>req n. (Some (resp_result (slots_reply
      [((0, 1), (lit ''a'', 7, []), []), ((2, 3), (lit ''b'', 8, []), [])])), n)) (cluster_new 4 :: nat cluster)
      1 1 1 0 (0 :: nat))) 2 0 = (Some j, cl'') \<and> p_key (mg_pools cl'' ! j) = lit ''b:8''"
proof -
  let ?es = "[((0, 1), (lit ''a'', 7, []), []), ((2, 3), (lit ''b'', 8, []), [])] :: topo_range list"
  let ?srv = "\<lambda>req (n :: nat). (Some (resp_result (slots_reply ?es)), n)"
  have c: "addrs_ok (cluster_new 4 :: nat cluster)" "length (cl_slot_addrs (cluster_new 4 :: nat cluster)) = 4"
    by (simp_all only: addrs_ok_def cluster_new_def manager_new_def manager.defs) (simp_all)
  have m: "map tolower (host_addr (lit ''b'', 8, [])) = lit ''b:8''" by code_simp
  have r: "fst (run_request ?srv [lit ''CLUSTER'', lit ''SLOTS''] 0) = Some (resp_result (slots_reply ?es))"
    by (simp add: run_request_def)
  have f: "find (covers 2) (rev ?es) = Some ((2, 3), (lit ''b'', 8, []), [])" by (simp add: covers_def)
  have o': "\<forall>e \<in> set ?es. range_ok e \<and> snd (fst e) < length (cl_slot_addrs (cluster_new 4 :: nat cluster))"
    unfolding c(2) by (simp add: range_ok_def host_ok_def c_string_def lit_def)
  show ?thesis
    using cluster_slots_route [OF r _ o' c(1), where i = 2 and mc = 1 and ct = 1 and rt = 1 and now = 0 and later = 0] unfolding f option.case fst_conv snd_conv m c(2) by auto
qed

section \<open>CLUSTER INFO read\<close>

lemma string_with_ok:
  "\<exists>s. string_with junk t = Some s \<and> cs_plain s \<and> cs_text s = t"
proof -
  let ?v = "acl_vstring_alloc junk 64"
  have "vs_open ?v" "vs_text ?v = []"
    by (simp_all add: acl_vstring_alloc_def vs_new_def vs_open_def vs_text_def)
  then obtain v where v: "vs_terminate ?v = Some v" "vs_ok v" "vs_text v = []"
    by (metis vs_terminate_open)
  let ?s = "with_buf (cs_init junk 64) v"
  have s: "cs_new junk = Some ?s" "cs_plain ?s" "cs_text ?s = []"
    using v by (simp_all add: cs_new_def cs_sized_def on_buf_def cs_init_def cs_plain_def cs_text_def with_buf_def new_buf_def)
  have "does (append_bytes ?s t) ?s (cs_text ?s @ t)" using s(2) by (intro cs_ops) (simp add: cs_plain_def)
  from does_plain [OF this s(2)] s(1,3) show ?thesis by (simp add: string_with_def)
qed

lemma info_text_lines: "info_text junk result t = Some (foldl info_line result (fst (lines_of t)))"
proof -
  obtain s where s: "string_with junk t = Some s" "cs_plain s" "cs_text s = t" using string_with_ok by blast
  then have "cs_rest s = t" by simp
  with scan_lines_ok [OF cs_plain_ok [OF s(2)], of False "Suc (length t)"] obtain s' where
    "scan_lines (Suc (length t)) s False = Some (fst (lines_of t), s')" by auto
  with s(1) show ?thesis by (simp add: info_text_def del: scan_lines.simps)
qed

definition info_entry :: "cstr \<times> cstr \<Rightarrow> bool" where
  "info_entry e \<longleftrightarrow> (case e of (n, v) \<Rightarrow> c_string n \<and> c_string v \<and> 10 \<notin> set (n @ v) \<and> 58 \<notin> set n \<and> v \<noteq> [] \<and> last v \<noteq> 13)"

lemma info_line_entry: "info_entry (n, v) \<Longrightarrow> info_line m (n @ 58 # v) = m(n \<mapsto> v)"
proof -
  assume e: "info_entry (n, v)"
  then have "cstr_of ((n @ 58 # v) @ [0]) = n @ 58 # v"
    by (intro cstr_of_c_string) (auto simp: info_entry_def c_string_def)
  with e strchr_idx_app [of 58 n v] show ?thesis by (simp add: info_line_def info_entry_def)
qed

lemma lines_of_line: "10 \<notin> set l \<Longrightarrow> lines_of (l @ 10 # r) = (chop_cr l # fst (lines_of r), snd (lines_of r))"
  using strchr_idx_app [of 10 l r] by (subst lines_of.simps) (simp add: split_beta)

lemma lines_of_entries:
  "\<forall>e \<in> set ps. info_entry e \<Longrightarrow>
   lines_of (concat (map (\<lambda>(n, v). n @ 58 # v @ [13, 10]) ps)) = (map (\<lambda>(n, v). n @ 58 # v) ps, [])"
proof (induction ps)
  case Nil
  then show ?case by (subst lines_of.simps) simp
next
  case (Cons e ps)
  obtain n v where e: "e = (n, v)" by (cases e)
  let ?l = "n @ 58 # v @ [13]" and ?r = "concat (map (\<lambda>(n, v). n @ 58 # v @ [13, 10]) ps)"
  have nl: "10 \<notin> set ?l" "v \<noteq> []" "last v \<noteq> 13" using Cons.prems by (auto simp: e info_entry_def)
  note lines_of_line [OF nl(1), of ?r]
  moreover have "chop_cr ?l = n @ 58 # v" by (simp add: chop_cr_def butlast_append)
  ultimately show ?case using Cons by (simp add: e)
qed

text \<open>CLUSTER INFO. The lines \<open>name:value\<close> of the answer are added to the caller's map, a later value of the same name
  counting; the answer is success.\<close>

theorem cluster_info_read:
  assumes "fst (run_request srv [lit ''CLUSTER'', lit ''INFO''] s) =
      Some (resp_result (RBulk (concat (map (\<lambda>(n, v). n @ 58 # v @ [13, 10]) ps))))"
    and "ps \<noteq> []" "\<forall>e \<in> set ps. info_entry e"
  shows "fst (cluster_info srv junk result s) = Some (True, result ++ map_of (rev ps))"
proof -
  let ?t = "concat (map (\<lambda>(n, v). n @ 58 # v @ [13, 10]) ps)"
  have fold: "foldl info_line m (map (\<lambda>(n, v). n @ 58 # v) ps) = m ++ map_of (rev ps)" for m
    using assms(3)
  proof (induction ps arbitrary: m)
    case (Cons e ps)
    obtain n v where "e = (n, v)" by (cases e)
    with Cons info_line_entry [of n v m] show ?case by (auto simp: map_add_def fun_eq_iff split: option.splits)
  qed simp
  have "length ?t > 0" using assms(2) by (cases ps) auto
  then have "get_string (Some (resp_result (RBulk ?t))) = (int (length ?t), Some ?t)" "int (length ?t) > 0"
    using string_reply by auto
  with assms(1) info_text_lines [of junk result ?t] fold [of result] lines_of_entries [OF assms(3)]
  show ?thesis by (simp add: cluster_info_def run_with_def)
qed

theorem cluster_info_read_witness:
  "fst (cluster_info (\<lambda>req (n :: nat). (Some (resp_result (RBulk (lit ''ab:c'' @ [13, 10]))), n)) (\<lambda>i. 0) Map.empty 0) =
     Some (True, [lit ''ab'' \<mapsto> lit ''c''])"
  using cluster_info_read [of "\<lambda>req (n :: nat). (Some (resp_result (RBulk (lit ''ab:c'' @ [13, 10]))), n)" 0
      "[(lit ''ab'', lit ''c'')]" "\<lambda>i. 0" Map.empty]
  by (simp add: run_request_def info_entry_def c_string_def lit_def)

text \<open>The variadic CLUSTER ADDSLOTS and DELSLOTS drop their first slot: they send what the command with the other slots
  sends, and with one slot nothing at all, which they call a success.\<close>

theorem variadic_slots_drop_first:
  assumes "list_all (\<lambda>n. 0 \<le> n) ap" "stop < 0"
  shows "cluster_addslots_va srv first (ap @ [stop]) s = (if ap = [] then (True, s) else cluster_addslots srv ap s) \<and>
    cluster_delslots_va srv first (ap @ [stop]) s = (if ap = [] then (True, s) else cluster_delslots srv ap s)"
proof -
  have "takeWhile (\<lambda>n. 0 \<le> n) (ap @ [stop]) = ap"
    using assms by (simp add: takeWhile_append2 list_all_iff)
  then show ?thesis by (simp add: cluster_addslots_va_def cluster_delslots_va_def Let_def)
qed

theorem variadic_slots_drop_first_witness:
  "cluster_addslots_va (\<lambda>req n. (None, n + 1)) 7 [-1] (0 :: nat) = (True, 0)"
  using variadic_slots_drop_first [of "[]" "-1" "\<lambda>req n. (None, n + 1)" 7 "0 :: nat"] by simp

end
