(* ===== verification/Redis_Nodes.thy ===== *)
theory Redis_Nodes
  imports Redis_Slots "HOL-Library.AList"
begin

text \<open>
  \<^verbatim>\<open>aclredis/src/redis/redis_node.cpp\<close> and the commands CLUSTER NODES and CLUSTER SLAVES of
  \<^verbatim>\<open>redis_cluster.cpp\<close>. The nodes are objects at addresses: masters point to their slaves, and a node
  that is a master points to itself. Memory is a map from addresses to nodes; an address that is not in it has
  never been handed out, or was deleted, and using it is \<open>None\<close>. A node that nothing points to stays in memory:
  that is a leak. The map \<open>masters_\<close> is its list of entries, in no particular order.
\<close>

section \<open>Nodes\<close>

record redis_node =
  rn_id :: cstr
  rn_addr :: cstr
  rn_addr_info :: cstr
  rn_type :: cstr
  rn_myself :: bool
  rn_handshaking :: bool
  rn_connected :: bool
  rn_master :: "nat option"
  rn_master_id :: cstr
  rn_slaves :: "nat list"
  rn_slots :: "(u64 \<times> u64) list"

type_synonym nodes = "nat \<rightharpoonup> redis_node"

definition redis_node_new :: redis_node where
  "redis_node_new = \<lparr>rn_id = [], rn_addr = [], rn_addr_info = [], rn_type = [], rn_myself = False,
     rn_handshaking = False, rn_connected = False, rn_master = None, rn_master_id = [], rn_slaves = [], rn_slots = []\<rparr>"

definition set_id :: "redis_node \<Rightarrow> cstr \<Rightarrow> redis_node" where
  "set_id n t = n\<lparr>rn_id := t\<rparr>"

text \<open>The address is what is before the cluster port, if there is something.\<close>

definition set_addr :: "redis_node \<Rightarrow> cstr \<Rightarrow> redis_node" where
  "set_addr n addr = n\<lparr>rn_addr_info := addr, rn_addr :=
     (case strchr_idx addr 64 of None \<Rightarrow> addr | Some pos \<Rightarrow> if pos = 0 then addr else take pos addr)\<rparr>"

definition set_type :: "redis_node \<Rightarrow> cstr \<Rightarrow> redis_node" where
  "set_type n t = n\<lparr>rn_type := t\<rparr>"

definition set_myself :: "redis_node \<Rightarrow> bool \<Rightarrow> redis_node" where
  "set_myself n yesno = n\<lparr>rn_myself := yesno\<rparr>"

definition set_handshaking :: "redis_node \<Rightarrow> bool \<Rightarrow> redis_node" where
  "set_handshaking n yesno = n\<lparr>rn_handshaking := yesno\<rparr>"

definition set_connected :: "redis_node \<Rightarrow> bool \<Rightarrow> redis_node" where
  "set_connected n yesno = n\<lparr>rn_connected := yesno\<rparr>"

definition set_master :: "redis_node \<Rightarrow> nat option \<Rightarrow> redis_node" where
  "set_master n master = n\<lparr>rn_master := master\<rparr>"

definition set_master_id :: "redis_node \<Rightarrow> cstr option \<Rightarrow> redis_node" where
  "set_master_id n p = (case p of None \<Rightarrow> n | Some t \<Rightarrow> if t \<noteq> [] then n\<lparr>rn_master_id := t\<rparr> else n)"

definition node_add_slot_range :: "redis_node \<Rightarrow> u64 \<Rightarrow> u64 \<Rightarrow> redis_node" where
  "node_add_slot_range n mn mx = n\<lparr>rn_slots := rn_slots n @ [(mn, mx)]\<rparr>"

definition is_master :: "nat \<Rightarrow> redis_node \<Rightarrow> bool" where
  "is_master a n \<longleftrightarrow> rn_master n = Some a"

text \<open>Whether the slave, or one of its id, is among those that are there.\<close>

fun slave_exists :: "nodes \<Rightarrow> nat list \<Rightarrow> nat \<Rightarrow> bool option" where
  "slave_exists h [] a = Some False"
| "slave_exists h (c # cs) a =
     (if c = a then Some True
      else do {
        sn \<leftarrow> h a;
        if rn_id sn = [] then slave_exists h cs a
        else do {
          cn \<leftarrow> h c;
          if rn_id sn = rn_id cn then Some True else slave_exists h cs a } })"

definition node_add_slave :: "nodes \<Rightarrow> nat \<Rightarrow> nat option \<Rightarrow> (bool \<times> nodes) option" where
  "node_add_slave h m slave = (case slave of
     None \<Rightarrow> Some (False, h)
   | Some a \<Rightarrow> do {
       mn \<leftarrow> h m;
       there \<leftarrow> slave_exists h (rn_slaves mn) a;
       Some (if there then (False, h) else (True, h(m \<mapsto> mn\<lparr>rn_slaves := rn_slaves mn @ [a]\<rparr>))) })"

text \<open>\<open>remove_slave\<close>: the position of the first slave with the id, and what it returns: the element
  that the iterator is at after \<open>erase\<close>.\<close>

fun slave_at :: "nodes \<Rightarrow> nat list \<Rightarrow> cstr \<Rightarrow> nat option option" where
  "slave_at h [] t = Some None"
| "slave_at h (c # cs) t = do {
     cn \<leftarrow> h c;
     if rn_id cn = t then Some (Some 0) else map_option (map_option Suc) (slave_at h cs t) }"

definition node_remove_slave :: "nodes \<Rightarrow> nat \<Rightarrow> cstr \<Rightarrow> (nat option \<times> nodes) option" where
  "node_remove_slave h m t = do {
     mn \<leftarrow> h m;
     k \<leftarrow> slave_at h (rn_slaves mn) t;
     case k of
       None \<Rightarrow> Some (None, h)
     | Some i \<Rightarrow>
         (let sl = take i (rn_slaves mn) @ drop (Suc i) (rn_slaves mn) in
          if i < length sl then Some (Some (sl ! i), h(m \<mapsto> mn\<lparr>rn_slaves := sl\<rparr>)) else None) }"

definition node_delete :: "nodes \<Rightarrow> nat \<Rightarrow> nodes option" where
  "node_delete h a = (case h a of None \<Rightarrow> None | Some n \<Rightarrow> Some (h(a := None)))"

fun nodes_delete :: "nodes \<Rightarrow> nat list \<Rightarrow> nodes option" where
  "nodes_delete h [] = Some h"
| "nodes_delete h (a # as) = do { h \<leftarrow> node_delete h a; nodes_delete h as }"

definition node_clear_slaves :: "nodes \<Rightarrow> nat \<Rightarrow> bool \<Rightarrow> nodes option" where
  "node_clear_slaves h m free_all = do {
     mn \<leftarrow> h m;
     h \<leftarrow> (if free_all then nodes_delete h (rn_slaves mn) else Some h);
     mn \<leftarrow> h m;
     Some (h(m \<mapsto> mn\<lparr>rn_slaves := []\<rparr>)) }"

text \<open>\<open>get_slots\<close> follows the master pointers; a cycle of them would not end.\<close>

partial_function (option) node_get_slots :: "nodes \<Rightarrow> nat \<Rightarrow> (u64 \<times> u64) list option" where
  "node_get_slots h a =
     (case h a of
        None \<Rightarrow> None
      | Some n \<Rightarrow>
          if is_master a n then Some (rn_slots n)
          else case rn_master n of
            Some m \<Rightarrow> node_get_slots h m
          | None \<Rightarrow> Some (rn_slots n))"

section \<open>The object of the command\<close>

record cluster_cmd =
  cc_heap :: nodes
  cc_next :: nat
  cc_masters :: "(cstr \<times> nat) list"
  cc_slaves :: "nat list"

definition cluster_cmd_new :: cluster_cmd where
  "cluster_cmd_new = \<lparr>cc_heap = Map.empty, cc_next = 0, cc_masters = [], cc_slaves = []\<rparr>"

definition free_slaves :: "cluster_cmd \<Rightarrow> cluster_cmd option" where
  "free_slaves c = map_option (\<lambda>h. c\<lparr>cc_heap := h, cc_slaves := []\<rparr>) (nodes_delete (cc_heap c) (cc_slaves c))"

fun masters_delete :: "nodes \<Rightarrow> (cstr \<times> nat) list \<Rightarrow> nodes option" where
  "masters_delete h [] = Some h"
| "masters_delete h ((k, m) # ms) = do {
     h \<leftarrow> node_clear_slaves h m True; h \<leftarrow> node_delete h m; masters_delete h ms }"

definition free_masters :: "cluster_cmd \<Rightarrow> cluster_cmd option" where
  "free_masters c = map_option (\<lambda>h. c\<lparr>cc_heap := h, cc_masters := []\<rparr>) (masters_delete (cc_heap c) (cc_masters c))"

section \<open>Lines and tokens\<close>

text \<open>A line is read as a C string and split at the blanks.\<close>

definition line_tokens :: "byte list \<Rightarrow> cstr list" where
  "line_tokens line = argv_strings (acl_argv_split (cstr_of (line @ [0])) [32])"

text \<open>\<open>add_slot_range\<close> on a token like \<open>0-5460\<close> or \<open>7\<close>: \<open>atol\<close> of what is before and behind the first
  minus sign, as unsigned numbers.\<close>

definition c_atol :: "cstr \<Rightarrow> u64" where
  "c_atol s = of_int (c_strtol s)"

definition token_range :: "cstr \<Rightarrow> u64 \<times> u64" where
  "token_range t =
     (case strchr_idx t 45 of
        Some i \<Rightarrow>
          if drop (i + 1) t \<noteq> []
          then let mn = c_atol (take i t); mx = c_atol (drop (i + 1) t) in (mn, if mx < mn then mn else mx)
          else (c_atol t, c_atol t)
      | None \<Rightarrow> (c_atol t, c_atol t))"

definition add_slot_token :: "redis_node \<Rightarrow> cstr \<Rightarrow> redis_node" where
  "add_slot_token n t = (case token_range t of (mn, mx) \<Rightarrow> node_add_slot_range n mn mx)"

text \<open>The flags: what is behind the first comma is the type, and whether \<open>myself\<close> is before it.\<close>

definition node_flags :: "cstr \<Rightarrow> bool \<times> cstr" where
  "node_flags t =
     (case strchr_idx t 44 of
        Some i \<Rightarrow> if drop (i + 1) t \<noteq> [] then (c_strcasecmp_eq (take i t) (lit ''myself''), drop (i + 1) t) else (False, t)
      | None \<Rightarrow> (False, t))"

section \<open>CLUSTER NODES\<close>

text \<open>A node for a line of eight tokens or more, at the next address.\<close>

definition get_node :: "cluster_cmd \<Rightarrow> byte list \<Rightarrow> nat option \<times> cluster_cmd" where
  "get_node c line =
     (let tokens = line_tokens line in
      if length tokens < 8 then (None, c)
      else let
        (myself, node_type) = node_flags (tokens ! 2);
        a = cc_next c;
        n = set_id redis_node_new (tokens ! 0);
        n = set_addr n (tokens ! 1);
        n = set_myself n myself;
        n = set_connected n (c_strcasecmp_eq (tokens ! 7) (lit ''connected''));
        n = set_master_id n (Some (tokens ! 3));
        c = c\<lparr>cc_next := Suc a\<rparr>
      in if c_strcasecmp_eq node_type (lit ''master'')
        then let n = foldl add_slot_token (set_type (set_master n (Some a)) (lit ''master'')) (drop 8 tokens)
          in (Some a, c\<lparr>cc_heap := (cc_heap c)(a \<mapsto> n), cc_masters := AList.update (tokens ! 0) a (cc_masters c)\<rparr>)
        else if c_strcasecmp_eq node_type (lit ''slave'')
        then (Some a, c\<lparr>cc_heap := (cc_heap c)(a \<mapsto> set_type n (lit ''slave''))\<rparr>)
        else if c_strcasecmp_eq node_type (lit ''handshake'')
        then let n = foldl add_slot_token
              (set_handshaking (set_type (set_master n (Some a)) (lit ''handshake'')) True) (drop 8 tokens)
          in (Some a, c\<lparr>cc_heap := (cc_heap c)(a \<mapsto> n), cc_masters := AList.update (tokens ! 0) a (cc_masters c)\<rparr>)
        else (Some a, c\<lparr>cc_heap := (cc_heap c)(a \<mapsto> n)\<rparr>))"

text \<open>The loop over the lines: the slaves in their order.\<close>

fun get_nodes :: "cluster_cmd \<Rightarrow> byte list list \<Rightarrow> (nat list \<times> cluster_cmd) option" where
  "get_nodes c [] = Some ([], c)"
| "get_nodes c (l # ls) = (case get_node c l of
     (None, c) \<Rightarrow> get_nodes c ls
   | (Some a, c) \<Rightarrow> do {
       n \<leftarrow> cc_heap c a;
       (slaves, c) \<leftarrow> get_nodes c ls;
       Some (if \<not> is_master a n then a # slaves else slaves, c) })"

text \<open>Every slave goes to the master of its id, or is deleted.\<close>

definition attach_slave :: "(cstr \<times> nat) list \<Rightarrow> nodes \<Rightarrow> nat \<Rightarrow> nodes option" where
  "attach_slave masters h a = do {
     n \<leftarrow> h a;
     case map_of masters (rn_master_id n) of
       Some m \<Rightarrow> map_option snd (node_add_slave h m (Some a))
     | None \<Rightarrow> node_delete h a }"

fun attach_slaves :: "(cstr \<times> nat) list \<Rightarrow> nodes \<Rightarrow> nat list \<Rightarrow> nodes option" where
  "attach_slaves masters h [] = Some h"
| "attach_slaves masters h (a # as) = do { h \<leftarrow> attach_slave masters h a; attach_slaves masters h as }"

definition nodes_of_text :: "(nat \<Rightarrow> byte) \<Rightarrow> cluster_cmd \<Rightarrow> byte list \<Rightarrow> cluster_cmd option" where
  "nodes_of_text junk c t = do {
     buf \<leftarrow> string_with junk t;
     (ls, buf) \<leftarrow> scan_lines (Suc (length t)) buf False;
     (slaves, c) \<leftarrow> get_nodes c ls;
     h \<leftarrow> attach_slaves (cc_masters c) (cc_heap c) slaves;
     Some (c\<lparr>cc_heap := h\<rparr>) }"

text \<open>The result is whether there is a map (\<open>masters_\<close>), and the object.\<close>

definition cluster_nodes :: "'s server \<Rightarrow> (nat \<Rightarrow> byte) \<Rightarrow> cluster_cmd \<Rightarrow> 's \<Rightarrow> (bool \<times> cluster_cmd) option \<times> 's" where
  "cluster_nodes srv junk c s =
     (case free_masters c of
        None \<Rightarrow> (None, s)
      | Some c \<Rightarrow>
          run_with (\<lambda>r. case get_string r of
              (n, None) \<Rightarrow> Some (False, c)
            | (n, Some t) \<Rightarrow> if n \<le> 0 then Some (False, c) else map_option (Pair True) (nodes_of_text junk c t))
            srv [lit ''CLUSTER'', lit ''NODES''] s)"

section \<open>CLUSTER SLAVES\<close>

definition get_slave :: "cluster_cmd \<Rightarrow> cstr list \<Rightarrow> nat option \<times> cluster_cmd" where
  "get_slave c tokens =
     (if length tokens < 8 then (None, c)
      else let
        a = cc_next c;
        n = set_id redis_node_new (tokens ! 0);
        n = set_addr n (tokens ! 1);
        n = set_myself n False;
        n = set_connected n (c_strcasecmp_eq (tokens ! 7) (lit ''connected''));
        n = set_master_id n (Some (tokens ! 3));
        n = set_type n (lit ''slave'')
      in (Some a, c\<lparr>cc_next := Suc a, cc_heap := (cc_heap c)(a \<mapsto> n)\<rparr>))"

definition slave_line :: "cluster_cmd \<Rightarrow> byte list \<Rightarrow> cluster_cmd" where
  "slave_line c line =
     (let tokens = line_tokens line in
      if length tokens < 3 then c
      else if \<not> c_strcasecmp_eq (snd (node_flags (tokens ! 2))) (lit ''slave'') then c
      else case get_slave c tokens of
        (None, c) \<Rightarrow> c
      | (Some a, c) \<Rightarrow> c\<lparr>cc_slaves := cc_slaves c @ [a]\<rparr>)"

definition cluster_slaves :: "'s server \<Rightarrow> cluster_cmd \<Rightarrow> cstr \<Rightarrow> 's \<Rightarrow> (bool \<times> cluster_cmd) option \<times> 's" where
  "cluster_slaves srv c node s =
     (case free_slaves c of
        None \<Rightarrow> (None, s)
      | Some c \<Rightarrow>
          run_with (\<lambda>r. case get_strings r of
              (n, None) \<Rightarrow> Some (False, c)
            | (n, Some ls) \<Rightarrow> if n < 0 then Some (False, c) else Some (True, foldl slave_line c ls))
            srv [lit ''CLUSTER'', lit ''SLAVES'', node] s)"

section \<open>What a line says\<close>

text \<open>The lines that count are those of eight tokens or more; a node that heads others is a master, or one that is in
  its handshake.\<close>

definition node_lines :: "byte list list \<Rightarrow> cstr list list" where
  "node_lines ls = filter (\<lambda>ts. 8 \<le> length ts) (map line_tokens ls)"

abbreviation node_kind :: "cstr list \<Rightarrow> cstr" where
  "node_kind ts \<equiv> snd (node_flags (ts ! 2))"

definition is_head :: "cstr list \<Rightarrow> bool" where
  "is_head ts \<longleftrightarrow> c_strcasecmp_eq (node_kind ts) (lit ''master'') \<or> c_strcasecmp_eq (node_kind ts) (lit ''handshake'')"

lemma line_tokens_eq: "line_tokens l = strtok_tokens (cstr_of (l @ [0])) {32}"
proof -
  have ok: "argv_ok (acl_argv_alloc k)" for k using acl_argv_alloc_ok(1) by (rule argv_closedD)
  from split_loop_ok [OF ok, of 1 "cstr_of (l @ [0])" "{32}"] acl_argv_terminate_ok
  show ?thesis by (auto simp: line_tokens_def acl_argv_split_def)
qed

lemma line_tokens_nonempty: "t \<in> set (line_tokens l) \<Longrightarrow> t \<noteq> []"
  using strtok_tokens_ok by (simp add: line_tokens_eq)

lemma node_lines_nonempty: "ts \<in> set (node_lines ls) \<Longrightarrow> 8 \<le> length ts \<and> (\<forall>t \<in> set ts. t \<noteq> [])"
  using line_tokens_nonempty by (auto simp: node_lines_def)

text \<open>The object of such a line at the address \<open>a\<close>.\<close>

definition line_node :: "nat \<Rightarrow> cstr list \<Rightarrow> redis_node" where
  "line_node a ts = (let k = node_kind ts; master = c_strcasecmp_eq k (lit ''master'') in
     \<lparr>rn_id = ts ! 0,
      rn_addr = rn_addr (set_addr redis_node_new (ts ! 1)),
      rn_addr_info = ts ! 1,
      rn_type = (if master then lit ''master'' else if c_strcasecmp_eq k (lit ''slave'') then lit ''slave''
        else if is_head ts then lit ''handshake'' else []),
      rn_myself = fst (node_flags (ts ! 2)),
      rn_handshaking = (is_head ts \<and> \<not> master),
      rn_connected = c_strcasecmp_eq (ts ! 7) (lit ''connected''),
      rn_master = (if is_head ts then Some a else None),
      rn_master_id = ts ! 3,
      rn_slaves = [],
      rn_slots = (if is_head ts then map token_range (drop 8 ts) else [])\<rparr>)"

lemma line_node_simps [simp]:
  "rn_id (line_node a ts) = ts ! 0" "rn_master_id (line_node a ts) = ts ! 3" "rn_slaves (line_node a ts) = []"
  "is_master a (line_node a ts) \<longleftrightarrow> is_head ts"
  by (simp_all add: line_node_def Let_def is_master_def)

lemma add_slot_tokens: "foldl add_slot_token n ts = n\<lparr>rn_slots := rn_slots n @ map token_range ts\<rparr>"
  by (induction ts arbitrary: n) (simp_all add: add_slot_token_def node_add_slot_range_def split: prod.split)

lemmas node_setters = set_id_def set_addr_def set_type_def set_myself_def set_handshaking_def set_connected_def
  set_master_def set_master_id_def redis_node_new_def

lemma get_node_short: "length (line_tokens l) < 8 \<Longrightarrow> get_node c l = (None, c)"
  by (simp add: get_node_def)

lemma kinds_differ:
  "c_strcasecmp_eq k (lit ''slave'') \<Longrightarrow> \<not> c_strcasecmp_eq k (lit ''master'') \<and> \<not> c_strcasecmp_eq k (lit ''handshake'')"
proof -
  assume "c_strcasecmp_eq k (lit ''slave'')"
  moreover have "\<not> c_strcasecmp_eq (lit ''slave'') (lit ''master'')" "\<not> c_strcasecmp_eq (lit ''slave'') (lit ''handshake'')"
    by code_simp+
  ultimately show ?thesis by (auto simp: c_strcasecmp_eq_def)
qed

lemma get_node_long:
  fixes c :: cluster_cmd
  assumes "8 \<le> length (line_tokens l)"
  defines "ts \<equiv> line_tokens l" and "a \<equiv> cc_next c"
  shows "get_node c l = (Some a, c\<lparr>cc_next := Suc a, cc_heap := (cc_heap c)(a \<mapsto> line_node a ts),
    cc_masters := (if is_head ts then AList.update (ts ! 0) a (cc_masters c) else cc_masters c)\<rparr>)"
proof -
  have "ts ! 3 \<in> set ts" using assms(1) by (simp add: ts_def)
  then have ne: "ts ! 3 \<noteq> []" using line_tokens_nonempty by (simp add: ts_def)
  obtain my k where fl: "node_flags (ts ! 2) = (my, k)" by (cases "node_flags (ts ! 2)")
  have u: "get_node c l = (let
        n = set_master_id (set_connected (set_myself (set_addr (set_id redis_node_new (ts ! 0)) (ts ! 1)) my)
          (c_strcasecmp_eq (ts ! 7) (lit ''connected''))) (Some (ts ! 3));
        c = c\<lparr>cc_next := Suc a\<rparr>
      in if c_strcasecmp_eq k (lit ''master'')
        then let n = foldl add_slot_token (set_type (set_master n (Some a)) (lit ''master'')) (drop 8 ts)
          in (Some a, c\<lparr>cc_heap := (cc_heap c)(a \<mapsto> n), cc_masters := AList.update (ts ! 0) a (cc_masters c)\<rparr>)
        else if c_strcasecmp_eq k (lit ''slave'')
        then (Some a, c\<lparr>cc_heap := (cc_heap c)(a \<mapsto> set_type n (lit ''slave''))\<rparr>)
        else if c_strcasecmp_eq k (lit ''handshake'')
        then let n = foldl add_slot_token
              (set_handshaking (set_type (set_master n (Some a)) (lit ''handshake'')) True) (drop 8 ts)
          in (Some a, c\<lparr>cc_heap := (cc_heap c)(a \<mapsto> n), cc_masters := AList.update (ts ! 0) a (cc_masters c)\<rparr>)
        else (Some a, c\<lparr>cc_heap := (cc_heap c)(a \<mapsto> n)\<rparr>))"
    using assms(1) fl by (simp add: get_node_def Let_def ts_def a_def)
  show ?thesis
    unfolding u Let_def add_slot_tokens using ne kinds_differ [of k]
    by (cases "c_strcasecmp_eq k (lit ''master'')"; cases "c_strcasecmp_eq k (lit ''slave'')";
        cases "c_strcasecmp_eq k (lit ''handshake'')")
      (simp_all add: line_node_def Let_def is_head_def fl node_setters)
qed

section \<open>All lines\<close>

abbreviation heads :: "(nat \<times> cstr list) list \<Rightarrow> (nat \<times> cstr list) list" where
  "heads E \<equiv> filter (\<lambda>(a, ts). is_head ts) E"

abbreviation others :: "(nat \<times> cstr list) list \<Rightarrow> (nat \<times> cstr list) list" where
  "others E \<equiv> filter (\<lambda>(a, ts). \<not> is_head ts) E"

definition nodes_at :: "(nat \<times> cstr list) list \<Rightarrow> nodes" where
  "nodes_at E = map_of (map (\<lambda>(a, ts). (a, line_node a ts)) E)"

lemma nodes_at_simps [simp]:
  "nodes_at [] = Map.empty" "nodes_at ((a, ts) # E) = (nodes_at E)(a \<mapsto> line_node a ts)"
  by (simp_all add: nodes_at_def)

lemma dom_nodes_at [simp]: "dom (nodes_at E) = fst ` set E"
  by (auto simp: nodes_at_def dom_map_of_conv_image_fst image_image split_beta)

lemma nodes_at_mem: "distinct (map fst E) \<Longrightarrow> (a, ts) \<in> set E \<Longrightarrow> nodes_at E a = Some (line_node a ts)"
  by (simp add: nodes_at_def map_of_eq_Some_iff comp_def split_beta) (force simp: image_iff)

lemma fst_enumerate: "a \<in> fst ` set (enumerate n xs) \<longleftrightarrow> n \<le> a \<and> a < n + length xs"
  by (metis atLeastLessThan_iff map_fst_enumerate set_map set_upt)

lemma get_nodes_ok:
  "\<exists>c'. get_nodes c ls = Some (map fst (others (enumerate (cc_next c) (node_lines ls))), c') \<and>
     cc_next c' = cc_next c + length (node_lines ls) \<and>
     cc_heap c' = cc_heap c ++ nodes_at (enumerate (cc_next c) (node_lines ls)) \<and>
     cc_masters c' = foldl (\<lambda>ms (a, ts). AList.update (ts ! 0) a ms) (cc_masters c)
       (heads (enumerate (cc_next c) (node_lines ls))) \<and> cc_slaves c' = cc_slaves c"
proof (induction ls arbitrary: c)
  case Nil
  show ?case by (simp add: node_lines_def)
next
  case (Cons l ls)
  let ?ts = "line_tokens l" and ?b = "cc_next c"
  show ?case
  proof (cases "length ?ts < 8")
    case True
    with Cons.IH [of c] get_node_short [OF True, of c] show ?thesis by (simp add: node_lines_def)
  next
    case False
    let ?E = "enumerate (Suc ?b) (node_lines ls)"
    obtain d where g: "get_node c l = (Some ?b, d)" and d: "cc_next d = Suc ?b"
      "cc_heap d = (cc_heap c)(?b \<mapsto> line_node ?b ?ts)" "cc_slaves d = cc_slaves c"
      "cc_masters d = (if is_head ?ts then AList.update (?ts ! 0) ?b (cc_masters c) else cc_masters c)"
      using get_node_long [of l c] False
      by (intro that [of "snd (get_node c l)"]) (simp_all add: prod_eq_iff)
    have nl: "node_lines (l # ls) = ?ts # node_lines ls" using False by (simp add: node_lines_def)
    have "?b \<notin> dom (nodes_at ?E)" unfolding dom_nodes_at fst_enumerate by simp
    then have h: "(cc_heap c)(?b \<mapsto> line_node ?b ?ts) ++ nodes_at ?E = cc_heap c ++ (nodes_at ?E)(?b \<mapsto> line_node ?b ?ts)"
      by (simp add: map_add_upd_left)
    have hd: "cc_heap d ?b = Some (line_node ?b ?ts)" by (simp add: d)
    from Cons.IH [of d, unfolded d h] obtain c' where c': "get_nodes d ls = Some (map fst (others ?E), c')"
      "cc_next c' = Suc ?b + length (node_lines ls)" "cc_heap c' = cc_heap c ++ (nodes_at ?E)(?b \<mapsto> line_node ?b ?ts)"
      "cc_masters c' = foldl (\<lambda>ms (a, ts). AList.update (ts ! 0) a ms)
         (if is_head ?ts then AList.update (?ts ! 0) ?b (cc_masters c) else cc_masters c) (heads ?E)"
      "cc_slaves c' = cc_slaves c" by blast
    have "get_nodes c (l # ls) = Some (map fst (others (enumerate ?b (?ts # node_lines ls))), c')"
      using c'(1) hd by (simp add: g)
    with c'(2-) show ?thesis unfolding nl
      by (intro exI [of _ c']) (simp add: fun_eq_iff map_add_def)
  qed
qed

section \<open>Attaching the slaves\<close>

lemma slave_exists_none:
  assumes "h a = Some sn" "\<forall>c \<in> set cs. c \<noteq> a \<and> (\<exists>cn. h c = Some cn \<and> rn_id cn \<noteq> rn_id sn)"
  shows "slave_exists h cs a = Some False"
  using assms by (induction cs) auto

text \<open>Where each slave has gone.\<close>

definition attached :: "(cstr \<times> nat) list \<Rightarrow> nodes \<Rightarrow> (nat \<times> cstr list) list \<Rightarrow> nodes" where
  "attached ms h S = (\<lambda>x. case h x of
     None \<Rightarrow> None
   | Some n \<Rightarrow> if \<exists>e \<in> set S. fst e = x \<and> map_of ms (snd e ! 3) = None then None
       else Some (n\<lparr>rn_slaves := rn_slaves n @ map fst (filter (\<lambda>e. map_of ms (snd e ! 3) = Some x) S)\<rparr>))"

text \<open>What the loop needs of the slaves still to come, and of the masters.\<close>

definition to_attach :: "nat set \<Rightarrow> nodes \<Rightarrow> (nat \<times> cstr list) list \<Rightarrow> bool" where
  "to_attach M h S \<longleftrightarrow> distinct (map fst S) \<and> distinct (map (\<lambda>e. snd e ! 0) S) \<and>
     (\<forall>e \<in> set S. fst e \<notin> M \<and> (\<exists>n. h (fst e) = Some n \<and> rn_id n = snd e ! 0 \<and> rn_master_id n = snd e ! 3))"

definition new_to :: "nodes \<Rightarrow> (nat \<times> cstr list) list \<Rightarrow> nat \<Rightarrow> bool" where
  "new_to h S c \<longleftrightarrow> (\<exists>cn. h c = Some cn \<and> (\<forall>e \<in> set S. fst e \<noteq> c \<and> snd e ! 0 \<noteq> rn_id cn))"

definition master_ready :: "nodes \<Rightarrow> (nat \<times> cstr list) list \<Rightarrow> nat \<Rightarrow> bool" where
  "master_ready h S m \<longleftrightarrow> (\<exists>n. h m = Some n \<and> (\<forall>c \<in> set (rn_slaves n). new_to h S c))"

lemma to_attach_Cons:
  "to_attach M h ((a, ts) # S) \<longleftrightarrow> a \<notin> fst ` set S \<and> (\<forall>e \<in> set S. snd e ! 0 \<noteq> ts ! 0) \<and> a \<notin> M \<and>
     (\<exists>n. h a = Some n \<and> rn_id n = ts ! 0 \<and> rn_master_id n = ts ! 3) \<and> to_attach M h S"
  by (auto simp: to_attach_def image_iff)

text \<open>One slave deleted, or given to its master.\<close>

lemma delete_ready:
  assumes "to_attach M h ((a, ts) # S)" "m \<in> M" "master_ready h ((a, ts) # S) m"
  shows "to_attach M (h(a := None)) S" "master_ready (h(a := None)) S m"
proof -
  show "to_attach M (h(a := None)) S" using assms(1) by (auto simp: to_attach_def)
  have "m \<noteq> a" using assms(1,2) by (auto simp: to_attach_Cons)
  moreover have "new_to (h(a := None)) S c" if "new_to h ((a, ts) # S) c" for c using that by (auto simp: new_to_def)
  ultimately show "master_ready (h(a := None)) S m" using assms(3) by (auto simp: master_ready_def)
qed

lemma give_ready:
  assumes t: "to_attach M h ((a, ts) # S)" and m: "m \<in> M" "h m = Some k" "master_ready h ((a, ts) # S) m'" "m' \<in> M"
  defines "h' \<equiv> h(m \<mapsto> k\<lparr>rn_slaves := rn_slaves k @ [a]\<rparr>)"
  shows "to_attach M h' S" "master_ready h' S m'"
proof -
  show "to_attach M h' S" using t m by (auto simp: to_attach_def h'_def)
  have keep: "\<exists>cn'. h' c = Some cn' \<and> rn_id cn' = rn_id cn" if "h c = Some cn" for c cn using that m(2) by (auto simp: h'_def)
  have old: "new_to h' S c" if c: "new_to h ((a, ts) # S) c" for c
  proof -
    from c obtain cn where "h c = Some cn" "\<forall>e \<in> set S. fst e \<noteq> c \<and> snd e ! 0 \<noteq> rn_id cn" by (auto simp: new_to_def)
    with keep [of c cn] show ?thesis unfolding new_to_def by metis
  qed
  have self: "new_to h' S a" using t m(1) by (auto simp: to_attach_Cons new_to_def h'_def image_iff)
  from m(3) obtain k' where k': "h m' = Some k'" "\<forall>c \<in> set (rn_slaves k'). new_to h ((a, ts) # S) c"
    by (auto simp: master_ready_def)
  show "master_ready h' S m'"
  proof (cases "m' = m")
    case True
    with k' m(2) old self show ?thesis by (auto simp: master_ready_def h'_def)
  next
    case False
    with k' old show ?thesis by (auto simp: master_ready_def h'_def)
  qed
qed

lemma attach_slaves_ok:
  assumes "to_attach (ran (map_of ms)) h S" "\<forall>m \<in> ran (map_of ms). master_ready h S m"
  shows "attach_slaves ms h (map fst S) = Some (attached ms h S)"
  using assms
proof (induction S arbitrary: h)
  case Nil
  have "attached ms h [] = h" by (auto simp: attached_def fun_eq_iff split: option.split)
  then show ?case by simp
next
  case (Cons e S)
  obtain a ts where e: "e = (a, ts)" by (cases e)
  note t = Cons.prems(1) [unfolded e]
  obtain n where n: "h a = Some n" "rn_id n = ts ! 0" "rn_master_id n = ts ! 3" using t by (auto simp: to_attach_Cons)
  have aS: "a \<notin> fst ` set S" using t by (simp add: to_attach_Cons)
  show ?case
  proof (cases "map_of ms (ts ! 3)")
    case None
    let ?h = "h(a := None)"
    have st: "attach_slave ms h a = Some ?h" using n None by (simp add: attach_slave_def node_delete_def)
    have "to_attach (ran (map_of ms)) ?h S" using t by (auto simp: to_attach_def)
    moreover have "\<forall>m \<in> ran (map_of ms). master_ready ?h S m"
      using delete_ready(2) [OF t] Cons.prems(2) by (simp add: e)
    ultimately have "attach_slaves ms ?h (map fst S) = Some (attached ms ?h S)" by (rule Cons.IH)
    moreover have "attached ms ?h S = attached ms h (e # S)"
      using None n(1) by (auto simp: attached_def e fun_eq_iff split: option.split)
    ultimately show ?thesis using st by (simp add: e)
  next
    case (Some m)
    then have mr: "m \<in> ran (map_of ms)" by (auto intro: ranI)
    with Cons.prems(2) obtain k where k: "h m = Some k" "\<forall>c \<in> set (rn_slaves k). new_to h (e # S) c"
      by (auto simp: master_ready_def)
    let ?h = "h(m \<mapsto> k\<lparr>rn_slaves := rn_slaves k @ [a]\<rparr>)"
    have "slave_exists h (rn_slaves k) a = Some False"
      using n(1,2) k(2) by (intro slave_exists_none) (auto simp: new_to_def e)
    then have st: "attach_slave ms h a = Some ?h" using n Some k(1) by (simp add: attach_slave_def node_add_slave_def)
    have "attach_slaves ms ?h (map fst S) = Some (attached ms ?h S)"
    proof (rule Cons.IH)
      show "to_attach (ran (map_of ms)) ?h S" "\<forall>m \<in> ran (map_of ms). master_ready ?h S m"
        using give_ready [OF t mr k(1)] Cons.prems(2) mr by (auto simp: e)
    qed
    moreover have "a \<noteq> m" using t mr by (auto simp: to_attach_Cons)
    then have "attached ms ?h S = attached ms h (e # S)"
      using Some k(1) aS by (auto simp: attached_def e fun_eq_iff image_iff split: option.split)
    ultimately show ?thesis using st by (simp add: e)
  qed
qed

section \<open>Who owns which node\<close>

text \<open>The nodes that the object can reach: a master with its slaves, and the slaves of CLUSTER SLAVES.\<close>

definition slaves_at :: "nodes \<Rightarrow> nat \<Rightarrow> nat list" where
  "slaves_at h m = (case h m of None \<Rightarrow> [] | Some n \<Rightarrow> rn_slaves n)"

definition masters_own :: "nodes \<Rightarrow> (cstr \<times> nat) list \<Rightarrow> nat list" where
  "masters_own h ms = concat (map (\<lambda>(k, m). m # slaves_at h m) ms)"

text \<open>No node is owned twice, every node in memory is owned (nothing has leaked) and every owned one is in memory
  (nothing dangles).\<close>

definition cc_ok :: "cluster_cmd \<Rightarrow> bool" where
  "cc_ok c \<longleftrightarrow>
     (let own = masters_own (cc_heap c) (cc_masters c) @ cc_slaves c in
      distinct own \<and> dom (cc_heap c) = set own \<and> (\<forall>a \<in> set own. a < cc_next c))"

lemma nodes_delete_ok:
  "distinct as \<Longrightarrow> set as \<subseteq> dom h \<Longrightarrow> nodes_delete h as = Some (h |` (- set as))"
proof (induction as arbitrary: h)
  case (Cons a as)
  then obtain n where "h a = Some n" by auto
  moreover have "nodes_delete (h(a := None)) as = Some ((h(a := None)) |` (- set as))"
    using Cons.prems by (intro Cons.IH) auto
  moreover have "(h(a := None)) |` (- set as) = h |` (- set (a # as))" by (auto simp: restrict_map_def fun_eq_iff)
  ultimately show ?case by (simp add: node_delete_def)
qed (simp add: restrict_map_def)

lemma masters_own_cong:
  "(\<And>k m. (k, m) \<in> set ms \<Longrightarrow> h m = h' m) \<Longrightarrow> masters_own h ms = masters_own h' ms"
  unfolding masters_own_def slaves_at_def by (intro arg_cong [where f = concat] map_cong) auto

lemma masters_own_mem: "(k, m) \<in> set ms \<Longrightarrow> m \<in> set (masters_own h ms)"
  by (force simp: masters_own_def)

lemma masters_delete_ok:
  "distinct (masters_own h ms) \<Longrightarrow> set (masters_own h ms) \<subseteq> dom h \<Longrightarrow>
   masters_delete h ms = Some (h |` (- set (masters_own h ms)))"
proof (induction ms arbitrary: h)
  case Nil
  then show ?case by (simp add: masters_own_def)
next
  case (Cons e ms)
  obtain k m where e: "e = (k, m)" by (cases e)
  let ?own = "masters_own h ms"
  have own: "masters_own h (e # ms) = m # slaves_at h m @ ?own" by (simp add: masters_own_def e)
  from Cons.prems obtain n where n: "h m = Some n" by (auto simp: own)
  then have sl: "slaves_at h m = rn_slaves n" by (simp add: slaves_at_def)
  have ne: "m \<notin> set (rn_slaves n)" "distinct (rn_slaves n)" "set (rn_slaves n) \<subseteq> dom h"
    using Cons.prems by (simp_all add: own sl)
  let ?h = "h |` (- set (rn_slaves n))"
  have "node_clear_slaves h m True = Some (?h(m \<mapsto> n\<lparr>rn_slaves := []\<rparr>))"
    using n ne nodes_delete_ok [OF ne(2,3)] by (simp add: node_clear_slaves_def)
  moreover have "node_delete (?h(m \<mapsto> n\<lparr>rn_slaves := []\<rparr>)) m = Some (?h(m := None))"
    by (simp add: node_delete_def)
  ultimately have st: "masters_delete h (e # ms) = masters_delete (?h(m := None)) ms" by (simp add: e)
  have out: "x \<noteq> m \<and> x \<notin> set (rn_slaves n)" if "x \<in> set ?own" for x using that Cons.prems(1) by (auto simp: own sl)
  let ?g = "?h(m := None)"
  have same: "masters_own ?g ms = ?own"
  proof (rule masters_own_cong)
    fix k' m' assume "(k', m') \<in> set ms"
    then have "m' \<in> set ?own" by (rule masters_own_mem)
    from out [OF this] show "?g m' = h m'" by (simp add: restrict_map_def)
  qed
  have IH: "masters_delete ?g ms = Some (?g |` (- set (masters_own ?g ms)))"
  proof (rule Cons.IH)
    show "distinct (masters_own ?g ms)" using Cons.prems(1) unfolding same by (simp add: own)
    show "set (masters_own ?g ms) \<subseteq> dom ?g"
    proof
      fix x assume "x \<in> set (masters_own ?g ms)"
      then have x: "x \<in> set ?own" by (simp only: same)
      with Cons.prems(2) have "x \<in> dom h" by (auto simp: own)
      with out [OF x] show "x \<in> dom ?g" by (simp add: domIff restrict_map_def)
    qed
  qed
  have "?g |` (- set ?own) = h |` (- set (masters_own h (e # ms)))"
    by (simp add: own sl restrict_map_def fun_eq_iff)
  with IH [unfolded same] st show ?case by simp
qed

lemma free_masters_ok:
  assumes "cc_ok c"
  shows "\<exists>c'. free_masters c = Some c' \<and> cc_masters c' = [] \<and> cc_slaves c' = cc_slaves c \<and> cc_next c' = cc_next c \<and>
    cc_heap c' = cc_heap c |` set (cc_slaves c) \<and> dom (cc_heap c') = set (cc_slaves c) \<and>
    distinct (cc_slaves c) \<and> (\<forall>a \<in> set (cc_slaves c). a < cc_next c)"
proof -
  let ?own = "masters_own (cc_heap c) (cc_masters c)"
  have own: "distinct ?own" "set ?own \<subseteq> dom (cc_heap c)" "dom (cc_heap c) = set ?own \<union> set (cc_slaves c)"
    "set ?own \<inter> set (cc_slaves c) = {}" "distinct (cc_slaves c)" "\<forall>a \<in> set (cc_slaves c). a < cc_next c"
    using assms by (auto simp: cc_ok_def Let_def)
  have "cc_heap c |` (- set ?own) = cc_heap c |` set (cc_slaves c)"
    using own(3,4) by (auto simp: restrict_map_def fun_eq_iff domIff)
  with masters_delete_ok [OF own(1,2)] own(3-6) show ?thesis by (simp add: free_masters_def)
qed

section \<open>The topology\<close>

lemma update_new: "k \<notin> fst ` set ms \<Longrightarrow> AList.update k v ms = ms @ [(k, v)]"
  by (induction ms) auto

lemma updates_new:
  "distinct (map (\<lambda>e. snd e ! 0) H) \<Longrightarrow> \<forall>e \<in> set H. snd e ! 0 \<notin> fst ` set ms \<Longrightarrow>
   foldl (\<lambda>ms (a, ts). AList.update (ts ! 0) a ms) ms H = ms @ map (\<lambda>e. (snd e ! 0, fst e)) H"
proof (induction H arbitrary: ms)
  case (Cons e H)
  let ?ms = "ms @ [(snd e ! 0, fst e)]"
  have "foldl (\<lambda>ms (a, ts). AList.update (ts ! 0) a ms) ?ms H = ?ms @ map (\<lambda>e. (snd e ! 0, fst e)) H"
  proof (rule Cons.IH)
    have "snd e ! 0 \<notin> (\<lambda>e. snd e ! 0) ` set H" using Cons.prems(1) by simp
    then have "snd e' ! 0 \<noteq> snd e ! 0" if "e' \<in> set H" for e' using that by (metis (no_types, lifting) image_eqI)
    then show "\<forall>e' \<in> set H. snd e' ! 0 \<notin> fst ` set ?ms" using Cons.prems(2) by simp
  qed (use Cons.prems(1) in simp)
  moreover have "AList.update (snd e ! 0) (fst e) ms = ?ms" using Cons.prems(2) by (intro update_new) simp
  ultimately show ?case by (cases e) simp
qed simp

lemma snd_enumerate_filter: "map snd (filter (\<lambda>(a, ts). P ts) (enumerate n xs)) = filter P xs"
  by (induction xs arbitrary: n) auto

lemma distinct_groups:
  assumes "distinct (map fst H)" "distinct (map (\<lambda>e. snd e ! 0) H)" "distinct (map fst U)" "fst ` set H \<inter> fst ` set U = {}"
  shows "distinct (concat (map (\<lambda>e. fst e # map fst (filter (\<lambda>u. snd u ! 3 = snd e ! 0) U)) H))"
  using assms
proof (induction H)
  case (Cons e H)
  have one: "snd u = snd u'" if "u \<in> set U" "u' \<in> set U" "fst u = fst u'" for u u'
    using Cons.prems(3) that by (metis (no_types) distinct_map inj_on_def)
  have dis: "distinct (map fst (filter (\<lambda>u. snd u ! 3 = snd e ! 0) U))"
    using Cons.prems(3) by (simp add: distinct_map_filter)
  let ?G = "\<lambda>e. map fst (filter (\<lambda>u. snd u ! 3 = snd e ! 0) U)"
  have IH: "distinct (concat (map (\<lambda>e. fst e # ?G e) H))" using Cons by simp
  have e: "fst e \<notin> fst ` set H" "fst e \<notin> fst ` set U" "snd e ! 0 \<notin> (\<lambda>e. snd e ! 0) ` set H" using Cons.prems by auto
  have False if x: "x \<in> set (fst e # ?G e)" "x \<in> set (concat (map (\<lambda>e. fst e # ?G e) H))" for x
  proof -
    from x(2) obtain e' where e': "e' \<in> set H" "x = fst e' \<or> (\<exists>u \<in> set U. x = fst u \<and> snd u ! 3 = snd e' ! 0)" by auto
    have "fst e' \<notin> fst ` set U" using Cons.prems(4) e'(1) by auto
    moreover have "fst e' \<noteq> fst e" "snd e' ! 0 \<noteq> snd e ! 0" using e(1,3) e'(1) by (metis (no_types, lifting) image_eqI)+
    moreover from x(1) consider "x = fst e" | u where "u \<in> set U" "x = fst u" "snd u ! 3 = snd e ! 0" by auto
    ultimately show False using e'(2) e(2) one by cases (metis image_eqI)+
  qed
  then have "set (fst e # ?G e) \<inter> set (concat (map (\<lambda>e. fst e # ?G e) H)) = {}" by blast
  moreover have "distinct (fst e # ?G e)" using dis e(2) by auto
  ultimately have "distinct ((fst e # ?G e) @ concat (map (\<lambda>e. fst e # ?G e) H))"
    using IH by (simp only: distinct_append simp_thms)
  then show ?case by simp
qed simp

text \<open>A node without its slaves, 0 for a pointer to itself and 1 for one to another node; the object as the list of its
  masters, each with its slaves; what the lines say.\<close>

definition node_data :: "nat \<Rightarrow> redis_node \<Rightarrow> redis_node" where
  "node_data a n = n\<lparr>rn_master := map_option (\<lambda>m. if m = a then 0 else 1) (rn_master n), rn_slaves := []\<rparr>"

definition line_data :: "cstr list \<Rightarrow> redis_node" where
  "line_data ts = node_data 0 (line_node 0 ts)"

definition cc_view :: "cluster_cmd \<Rightarrow> (cstr \<times> redis_node \<times> redis_node option list) option list" where
  "cc_view c = map (\<lambda>(k, m). map_option (\<lambda>n. (k, node_data m n, map (\<lambda>s. map_option (node_data s) (cc_heap c s)) (rn_slaves n)))
     (cc_heap c m)) (cc_masters c)"

definition topology :: "cstr list list \<Rightarrow> (cstr \<times> redis_node \<times> redis_node option list) option list" where
  "topology tss = map (\<lambda>ts. Some (ts ! 0, line_data ts,
     map (Some \<circ> line_data) (filter (\<lambda>u. \<not> is_head u \<and> u ! 3 = ts ! 0) tss))) (filter is_head tss)"

lemma node_data_line [simp]: "node_data a (line_node a ts) = line_data ts" "node_data a (n\<lparr>rn_slaves := sl\<rparr>) = node_data a n"
  by (simp_all add: node_data_def line_data_def line_node_def Let_def)

text \<open>What \<open>cluster_nodes\<close> does with the lines, on an object that has no masters (any more).\<close>

lemma get_attach_ok:
  assumes c: "cc_masters c = []" "dom (cc_heap c) = set (cc_slaves c)" "distinct (cc_slaves c)" "\<forall>a \<in> set (cc_slaves c). a < cc_next c"
    and ids: "distinct (map (\<lambda>ts. ts ! 0) (node_lines ls))"
  shows "\<exists>sl c1 h. get_nodes c ls = Some (sl, c1) \<and> attach_slaves (cc_masters c1) (cc_heap c1) sl = Some h \<and>
    cc_ok (c1\<lparr>cc_heap := h\<rparr>) \<and> cc_view (c1\<lparr>cc_heap := h\<rparr>) = topology (node_lines ls)"
proof -
  let ?b = "cc_next c" and ?tss = "node_lines ls"
  define E where "E = enumerate ?b ?tss"
  define H where "H = heads E"
  define U where "U = others E"
  have dE: "distinct (map fst E)" "map snd E = ?tss" by (simp_all add: E_def)
  have dI: "distinct (map (\<lambda>e. snd e ! 0) E)"
    using ids unfolding dE(2) [symmetric] by (simp add: comp_def)
  have HU: "distinct (map fst H)" "distinct (map fst U)" "distinct (map (\<lambda>e. snd e ! 0) H)" "distinct (map (\<lambda>e. snd e ! 0) U)"
    "set H \<union> set U = set E" "\<forall>e \<in> set H. is_head (snd e)" "\<forall>e \<in> set U. \<not> is_head (snd e)"
    using dE(1) dI by (auto simp: H_def U_def distinct_map_filter)
  have HE: "e \<in> set E" if "e \<in> set H" for e using HU(5) that by blast
  have UE: "e \<in> set E" if "e \<in> set U" for e using HU(5) that by blast
  have uniq: "e = e'" if "e \<in> set E" "e' \<in> set E" "fst e = fst e'" for e e'
    using dE(1) that by (auto simp: distinct_map inj_on_def)
  have disj: "fst ` set H \<inter> fst ` set U = {}"
  proof -
    have "fst e \<noteq> fst e'" if "e \<in> set H" "e' \<in> set U" for e e' using uniq [of e e'] HU(5-7) that by auto
    then show ?thesis by auto
  qed
  have HU_ne: "fst e \<noteq> fst u" if "e \<in> set H" "u \<in> set U" for e u
    using uniq [OF HE [OF that(1)] UE [OF that(2)]] HU(6,7) that by auto
  have high: "?b \<le> fst e" if "e \<in> set E" for e using that fst_enumerate [of "fst e" ?b ?tss] by (auto simp: E_def)
  have low: "fst e < ?b + length ?tss" if "e \<in> set E" for e using that fst_enumerate [of "fst e" ?b ?tss] by (auto simp: E_def)
  obtain c1 where c1: "get_nodes c ls = Some (map fst U, c1)" "cc_next c1 = ?b + length ?tss"
    "cc_heap c1 = cc_heap c ++ nodes_at E" "cc_slaves c1 = cc_slaves c"
    "cc_masters c1 = foldl (\<lambda>ms (a, ts). AList.update (ts ! 0) a ms) [] H"
    using get_nodes_ok [of c ls] c(1) by (auto simp: E_def H_def U_def)
  define ms where "ms = map (\<lambda>e. (snd e ! 0, fst e)) H"
  have ms: "cc_masters c1 = ms" using updates_new [OF HU(3), of "[]"] by (simp add: c1(5) ms_def)
  have dms: "distinct (map fst ms)" using HU(3) by (simp add: ms_def comp_def)
  have look: "map_of ms k = Some m \<longleftrightarrow> (\<exists>e \<in> set H. snd e ! 0 = k \<and> fst e = m)" for k m
    using map_of_eq_Some_iff [OF dms] by (auto simp: ms_def)
  have ran: "ran (map_of ms) = fst ` set H" using ran_distinct [OF dms] by (simp add: ms_def image_image)
  have at: "cc_heap c1 (fst e) = Some (line_node (fst e) (snd e))" if "e \<in> set E" for e
    using nodes_at_mem [OF dE(1), of "fst e" "snd e"] that by (simp add: c1(3))
  have old: "cc_heap c1 a = cc_heap c a" if "a < ?b" for a
  proof -
    have "a \<notin> dom (nodes_at E)" using high that by (auto simp: not_le [symmetric])
    then show ?thesis by (simp add: c1(3) map_add_dom_app_simps(3))
  qed
  define h where "h = attached ms (cc_heap c1) U"
  have at_ok: "attach_slaves (cc_masters c1) (cc_heap c1) (map fst U) = Some h"
    unfolding h_def ms
  proof (rule attach_slaves_ok)
    have "\<exists>n. cc_heap c1 (fst e) = Some n \<and> rn_id n = snd e ! 0 \<and> rn_master_id n = snd e ! 3" if "e \<in> set U" for e
      using at [OF UE [OF that]] by simp
    then show "to_attach (ran (map_of ms)) (cc_heap c1) U" using HU(2,4) disj by (auto simp: to_attach_def ran)
    have "master_ready (cc_heap c1) U (fst e)" if "e \<in> set H" for e
      using at [OF HE [OF that]] by (simp add: master_ready_def)
    then show "\<forall>m \<in> ran (map_of ms). master_ready (cc_heap c1) U m" by (auto simp: ran)
  qed
  let ?G = "\<lambda>e. map fst (filter (\<lambda>u. snd u ! 3 = snd e ! 0) U)"
  have head_at: "h (fst e) = Some (line_node (fst e) (snd e)\<lparr>rn_slaves := ?G e\<rparr>)" if e: "e \<in> set H" for e
  proof -
    have "\<not> (\<exists>u \<in> set U. fst u = fst e \<and> map_of ms (snd u ! 3) = None)" by (auto dest: HU_ne [OF e])
    moreover have "map_of ms k = Some (fst e) \<longleftrightarrow> k = snd e ! 0" for k
      using look [of k "fst e"] e uniq HU(5) by (metis UnI1)
    ultimately show ?thesis using at [OF HE [OF e]] by (simp add: h_def attached_def)
  qed
  have noG: "filter (\<lambda>e. map_of ms (snd e ! 3) = Some x) U = []" if "x \<notin> fst ` set H" for x
    using that look [of _ x] by (auto simp: filter_empty_conv image_iff)
  have other_at: "h (fst u) = (if \<exists>e \<in> set H. snd e ! 0 = snd u ! 3 then Some (line_node (fst u) (snd u)) else None)"
    if u: "u \<in> set U" for u
  proof -
    have nH: "fst u \<notin> fst ` set H" using disj u by auto
    have "(\<exists>v \<in> set U. fst v = fst u \<and> map_of ms (snd v ! 3) = None) \<longleftrightarrow> map_of ms (snd u ! 3) = None"
      using u uniq UE by blast
    moreover have "map_of ms (snd u ! 3) = None \<longleftrightarrow> \<not> (\<exists>e \<in> set H. snd e ! 0 = snd u ! 3)"
      using look [of "snd u ! 3"] by (auto simp: not_Some_eq [symmetric] simp del: not_Some_eq)
    ultimately show ?thesis
      using at [OF UE [OF u]] noG [OF nH] by (auto simp: h_def attached_def line_node_def Let_def)
  qed
  have rest_at: "h a = cc_heap c a" if "a < ?b" for a
  proof -
    have nE: "a \<notin> fst ` set E" using high that by (auto simp: not_le [symmetric])
    then have "\<not> (\<exists>u \<in> set U. fst u = a \<and> map_of ms (snd u ! 3) = None)" "a \<notin> fst ` set H" using UE HE by auto
    with old [OF that] noG [of a] show ?thesis by (auto simp: h_def attached_def split: option.split)
  qed
  have none_at: "h a = None" if "a \<notin> set (cc_slaves c)" "a \<notin> fst ` set E" for a
  proof -
    have "a \<notin> dom (cc_heap c)" using that c(2) by simp
    then have "cc_heap c1 a = None" using that(2) by (simp add: c1(3) map_add_dom_app_simps(3) domIff)
    then show ?thesis by (simp add: h_def attached_def)
  qed
  show ?thesis
  proof (intro exI conjI)
    show "get_nodes c ls = Some (map fst U, c1)" by (rule c1(1))
    show "attach_slaves (cc_masters c1) (cc_heap c1) (map fst U) = Some h" by (rule at_ok)
    have own: "masters_own h ms = concat (map (\<lambda>e. fst e # ?G e) H)"
      unfolding masters_own_def ms_def map_map
      by (intro arg_cong [where f = concat] map_cong refl) (simp add: slaves_at_def head_at)
    have inE: "set (masters_own h ms) \<subseteq> fst ` set E" using HU(5) by (auto simp: own)
    have "distinct (masters_own h ms)" unfolding own by (rule distinct_groups [OF HU(1,3,2) disj])
    moreover have "set (masters_own h ms) \<inter> set (cc_slaves c) = {}" using inE high c(4) by force
    moreover have "dom h = set (masters_own h ms) \<union> set (cc_slaves c)"
    proof (intro set_eqI)
      fix a
      consider (head) e where "e \<in> set H" "a = fst e" | (other) u where "u \<in> set U" "a = fst u" | (out) "a \<notin> fst ` set E"
        using HU(5) by (metis UnE imageE)
      then show "a \<in> dom h \<longleftrightarrow> a \<in> set (masters_own h ms) \<union> set (cc_slaves c)"
      proof cases
        case head
        have "a \<in> set (masters_own h ms)" using head by (auto simp: own)
        with head_at [OF head(1)] head(2) show ?thesis by (simp add: domIff)
      next
        case other
        have a: "a \<notin> set (cc_slaves c)" using high [OF UE [OF other(1)]] other(2) c(4) by (metis leD)
        have nH: "a \<noteq> fst e" if "e \<in> set H" for e using HU_ne [OF that other(1)] other(2) by simp
        have only: "v = u" if "v \<in> set U" "fst v = a" for v
          using uniq [OF UE [OF that(1)] UE [OF other(1)]] that(2) other(2) by simp
        have "a \<in> set (?G e) \<longleftrightarrow> snd u ! 3 = snd e ! 0" for e
          unfolding set_map set_filter using only other by (blast intro: rev_image_eqI)
        then have "a \<in> set (masters_own h ms) \<longleftrightarrow> (\<exists>e \<in> set H. snd e ! 0 = snd u ! 3)"
          using nH unfolding own by (simp add: eq_commute) blast
        with a other_at [OF other(1)] other(2) show ?thesis by (auto simp: domIff)
      next
        case out
        then show ?thesis
        proof (cases "a \<in> set (cc_slaves c)")
          case True
          with rest_at [of a] c(2,4) show ?thesis by (auto simp: domIff)
        next
          case False
          with none_at [of a] out inE show ?thesis by auto
        qed
      qed
    qed
    moreover have "\<forall>a \<in> set (masters_own h ms) \<union> set (cc_slaves c). a < ?b + length ?tss"
      using inE low c(4) by force
    ultimately show "cc_ok (c1\<lparr>cc_heap := h\<rparr>)" using c(3) by (simp add: cc_ok_def ms c1(2,4))
    have grp: "map (\<lambda>s. map_option (node_data s) (h s)) (?G e) =
        map (Some \<circ> line_data) (filter (\<lambda>u. \<not> is_head u \<and> u ! 3 = snd e ! 0) ?tss)" if e: "e \<in> set H" for e
    proof -
      have "map (\<lambda>s. map_option (node_data s) (h s)) (?G e) =
          map (\<lambda>u. Some (line_data (snd u))) (filter (\<lambda>u. snd u ! 3 = snd e ! 0) U)"
        using e other_at by auto
      also have "\<dots> = map (Some \<circ> line_data) (map snd (filter (\<lambda>(a, ts). \<not> is_head ts \<and> ts ! 3 = snd e ! 0) E))"
        by (simp add: U_def case_prod_unfold comp_def conj_commute)
      finally show ?thesis by (simp only: E_def snd_enumerate_filter)
    qed
    have "cc_view (c1\<lparr>cc_heap := h\<rparr>) = map (\<lambda>e. Some (snd e ! 0, line_data (snd e),
        map (Some \<circ> line_data) (filter (\<lambda>u. \<not> is_head u \<and> u ! 3 = snd e ! 0) ?tss))) H"
      using head_at grp by (simp add: cc_view_def ms ms_def)
    also have "\<dots> = map (\<lambda>ts. Some (ts ! 0, line_data ts,
        map (Some \<circ> line_data) (filter (\<lambda>u. \<not> is_head u \<and> u ! 3 = ts ! 0) ?tss))) (map snd H)" by simp
    also have "map snd H = filter is_head ?tss" by (simp only: H_def E_def snd_enumerate_filter)
    finally show "cc_view (c1\<lparr>cc_heap := h\<rparr>) = topology ?tss" by (simp only: topology_def)
  qed
qed

lemma nodes_of_text_ok:
  assumes c: "cc_masters c = []" "dom (cc_heap c) = set (cc_slaves c)" "distinct (cc_slaves c)" "\<forall>a \<in> set (cc_slaves c). a < cc_next c"
    and ids: "distinct (map (\<lambda>ts. ts ! 0) (node_lines (fst (lines_of t))))"
  shows "\<exists>c'. nodes_of_text junk c t = Some c' \<and> cc_ok c' \<and> cc_view c' = topology (node_lines (fst (lines_of t)))"
proof -
  obtain s where s: "string_with junk t = Some s" "cs_plain s" "cs_text s = t" using string_with_ok by blast
  then have "cs_rest s = t" by simp
  with scan_lines_ok [OF cs_plain_ok [OF s(2)], of False "Suc (length t)"] obtain s' where
    sc: "scan_lines (Suc (length t)) s False = Some (fst (lines_of t), s')" by auto
  from get_attach_ok [OF c ids] obtain sl c1 h where
    "get_nodes c (fst (lines_of t)) = Some (sl, c1)" "attach_slaves (cc_masters c1) (cc_heap c1) sl = Some h"
    "cc_ok (c1\<lparr>cc_heap := h\<rparr>)" "cc_view (c1\<lparr>cc_heap := h\<rparr>) = topology (node_lines (fst (lines_of t)))" by blast
  with s(1) sc show ?thesis by (simp add: nodes_of_text_def del: scan_lines.simps)
qed


section \<open>An answer of a server\<close>

text \<open>What a server knows of a node, and how it writes that down in the documented format of CLUSTER NODES: a line for
  a node, its words with blanks between them: id, address (with the cluster port behind an \<open>@\<close>), flags, id of the
  master, the times of the last ping and pong, the epoch, the state of the link, and the ranges of slots.\<close>

datatype node_role = Primary | Replica | Handshaking

record node_desc =
  nd_id :: cstr
  nd_host :: cstr
  nd_bus :: "cstr option"
  nd_myself :: bool
  nd_role :: node_role
  nd_master :: cstr
  nd_ping :: cstr
  nd_pong :: cstr
  nd_epoch :: cstr
  nd_up :: bool
  nd_ranges :: "(nat \<times> nat) list"

fun role_name :: "node_role \<Rightarrow> cstr" where
  "role_name Primary = lit ''master''"
| "role_name Replica = lit ''slave''"
| "role_name Handshaking = lit ''handshake''"


definition desc_flags :: "node_desc \<Rightarrow> cstr" where
  "desc_flags d = (if nd_myself d then lit ''myself'' @ 44 # role_name (nd_role d) else role_name (nd_role d))"

fun range_text :: "nat \<times> nat \<Rightarrow> cstr" where
  "range_text (a, b) = (if a = b then dec_of_nat a else dec_of_nat a @ 45 # dec_of_nat b)"




text \<open>Words without blanks and ends of lines, a host without \<open>@\<close>, ranges of slots that go up.\<close>

definition word_ok :: "cstr \<Rightarrow> bool" where
  "word_ok w \<longleftrightarrow> w \<noteq> [] \<and> 0 \<notin> set w \<and> 10 \<notin> set w \<and> 13 \<notin> set w \<and> 32 \<notin> set w"



lemma lit_words [simp]: "word_ok (lit ''connected'')" "word_ok (lit ''disconnected'')" "word_ok (role_name r)"
  by (cases r; simp add: word_ok_def lit_def)+

lemma desc_flags_word [simp]: "word_ok (desc_flags d)"
  using lit_words(3) [of "nd_role d"] by (simp add: desc_flags_def word_ok_def lit_def)

lemma range_text_word [simp]: "word_ok (range_text p)"
  by (cases p) (simp add: word_ok_def dec_not_in isdigit_def)


















definition sample_nodes :: "byte list" where
  "sample_nodes =
     lit ''m1 h:1@5 myself,master - 0 0 1 connected 0-9 11'' @ [10] @
     lit ''s1 h:2 slave m1 0 0 1 connected'' @ [10]"

text \<open>CLUSTER SLAVES keeps the nodes accounted for, and the masters as they are, whatever the answer.\<close>

lemma cc_ok_add_slave:
  assumes "cc_ok c" "a = cc_next c"
  shows "cc_ok (c\<lparr>cc_next := Suc a, cc_heap := (cc_heap c)(a \<mapsto> n), cc_slaves := cc_slaves c @ [a]\<rparr>)"
proof -
  let ?own = "masters_own (cc_heap c) (cc_masters c)"
  have ok: "distinct (?own @ cc_slaves c)" "dom (cc_heap c) = set (?own @ cc_slaves c)" "\<forall>x \<in> set (?own @ cc_slaves c). x < a"
    using assms by (auto simp: cc_ok_def Let_def)
  have "masters_own ((cc_heap c)(a \<mapsto> n)) (cc_masters c) = ?own"
  proof (rule masters_own_cong)
    fix k m assume "(k, m) \<in> set (cc_masters c)"
    then have "m \<in> set ?own" by (rule masters_own_mem)
    with ok(3) show "((cc_heap c)(a \<mapsto> n)) m = cc_heap c m" by auto
  qed
  with ok show ?thesis by (auto simp: cc_ok_def less_SucI)
qed

lemma slave_line_ok: "cc_ok c \<Longrightarrow> cc_ok (slave_line c l) \<and> cc_masters (slave_line c l) = cc_masters c"
  using cc_ok_add_slave [OF _ refl] by (simp add: slave_line_def get_slave_def Let_def)

lemma slave_lines_ok: "cc_ok c \<Longrightarrow> cc_ok (foldl slave_line c ls) \<and> cc_masters (foldl slave_line c ls) = cc_masters c"
  using slave_line_ok by (induction ls rule: rev_induct) auto

lemma free_slaves_ok:
  assumes "cc_ok c" shows "\<exists>c'. free_slaves c = Some c' \<and> cc_ok c' \<and> cc_masters c' = cc_masters c"
proof -
  let ?own = "masters_own (cc_heap c) (cc_masters c)" and ?h = "cc_heap c |` (- set (cc_slaves c))"
  have ok: "distinct ?own" "distinct (cc_slaves c)" "set ?own \<inter> set (cc_slaves c) = {}"
    "dom (cc_heap c) = set ?own \<union> set (cc_slaves c)" "\<forall>x \<in> set ?own. x < cc_next c"
    using assms by (auto simp: cc_ok_def Let_def)
  have "masters_own ?h (cc_masters c) = ?own"
  proof (rule masters_own_cong)
    fix k m assume "(k, m) \<in> set (cc_masters c)"
    then have "m \<in> set ?own" by (rule masters_own_mem)
    with ok(3) show "?h m = cc_heap c m" by (auto simp: restrict_map_def)
  qed
  then have "cc_ok (c\<lparr>cc_heap := ?h, cc_slaves := []\<rparr>)" using ok by (auto simp: cc_ok_def Let_def)
  with nodes_delete_ok [OF ok(2), of "cc_heap c"] ok(4) show ?thesis by (simp add: free_slaves_def)
qed

theorem cluster_slaves_keeps:
  assumes "cc_ok c"
  shows "\<exists>b c'. fst (cluster_slaves srv c node s) = Some (b, c') \<and> cc_ok c' \<and> cc_masters c' = cc_masters c"
proof -
  from free_slaves_ok [OF assms] obtain c0 where c0: "free_slaves c = Some c0" "cc_ok c0" "cc_masters c0 = cc_masters c" by blast
  with slave_lines_ok [OF c0(2)] show ?thesis
    by (auto simp: cluster_slaves_def run_with_def split: prod.split option.split)
qed

theorem cluster_slaves_keeps_witness:
  "\<exists>b c'. fst (cluster_slaves (\<lambda>req n. (None, n)) cluster_cmd_new (lit ''x'') (0 :: nat)) = Some (b, c') \<and> cc_ok c' \<and> cc_masters c' = []"
  using cluster_slaves_keeps [of cluster_cmd_new "\<lambda>req n. (None, n)" "lit ''x''" "0 :: nat"]
  by (simp add: cc_ok_def cluster_cmd_new_def masters_own_def)

section \<open>What goes wrong\<close>

lemma sample_nodes_ids:
  "distinct (map (\<lambda>ts. ts ! 0) (node_lines (fst (lines_of sample_nodes))))" "sample_nodes \<noteq> []"
proof -
  have "map (\<lambda>ts. ts ! 0) (node_lines (fst (lines_of sample_nodes))) = [lit ''m1'', lit ''s1'']" by code_simp
  then show "distinct (map (\<lambda>ts. ts ! 0) (node_lines (fst (lines_of sample_nodes))))" by (simp add: lit_def)
qed (simp add: sample_nodes_def lit_def)

lemma cc_ok_new: "cc_ok cluster_cmd_new"
  by (simp add: cc_ok_def cluster_cmd_new_def masters_own_def)

text \<open>A node below a master has no pointer to it: \<open>get_slots\<close>, which is to give a slave the ranges of its master, gives
  none.\<close>

theorem slaves_have_no_slots:
  assumes "cc_ok c" "fst (run_request srv [lit ''CLUSTER'', lit ''NODES''] s) = Some (resp_result (RBulk t))" "t \<noteq> []"
    and "distinct (map (\<lambda>ts. ts ! 0) (node_lines (fst (lines_of t))))"
  shows "\<exists>c'. fst (cluster_nodes srv junk c s) = Some (True, c') \<and>
    (\<forall>(k, m) \<in> set (cc_masters c'). \<exists>n. cc_heap c' m = Some n \<and>
      (\<forall>sl \<in> set (rn_slaves n). node_get_slots (cc_heap c') sl = Some []))"
proof -
  obtain c0 where c0: "free_masters c = Some c0" "cc_masters c0 = []" "dom (cc_heap c0) = set (cc_slaves c0)"
    "distinct (cc_slaves c0)" "\<forall>a \<in> set (cc_slaves c0). a < cc_next c0" using free_masters_ok [OF assms(1)] by auto
  from nodes_of_text_ok [OF c0(2-5) assms(4), of junk] obtain c' where
    c': "nodes_of_text junk c0 t = Some c'" "cc_view c' = topology (node_lines (fst (lines_of t)))" by blast
  have "\<exists>n. cc_heap c' m = Some n \<and> (\<forall>sl \<in> set (rn_slaves n). node_get_slots (cc_heap c') sl = Some [])"
    if km: "(k, m) \<in> set (cc_masters c')" for k m
  proof -
    let ?v = "map_option (\<lambda>n. (k, node_data m n, map (\<lambda>s. map_option (node_data s) (cc_heap c' s)) (rn_slaves n))) (cc_heap c' m)"
    have "?v \<in> set (cc_view c')" using km by (force simp: cc_view_def)
    then have "?v \<in> set (topology (node_lines (fst (lines_of t))))" by (simp only: c'(2))
    then obtain ts where "?v = Some (ts ! 0, line_data ts, map (Some \<circ> line_data)
        (filter (\<lambda>u. \<not> is_head u \<and> u ! 3 = ts ! 0) (node_lines (fst (lines_of t)))))"
      by (auto simp: topology_def)
    then obtain n where n: "cc_heap c' m = Some n" "map (\<lambda>s. map_option (node_data s) (cc_heap c' s)) (rn_slaves n) =
        map (Some \<circ> line_data) (filter (\<lambda>u. \<not> is_head u \<and> u ! 3 = ts ! 0) (node_lines (fst (lines_of t))))"
      by auto
    have "node_get_slots (cc_heap c') sl = Some []" if sl: "sl \<in> set (rn_slaves n)" for sl
    proof -
      have "map_option (node_data sl) (cc_heap c' sl) \<in> set (map (\<lambda>s. map_option (node_data s) (cc_heap c' s)) (rn_slaves n))"
        using sl by simp
      then obtain u where u: "map_option (node_data sl) (cc_heap c' sl) = Some (line_data u)" "\<not> is_head u"
        unfolding n(2) by auto
      then obtain sn where sn: "cc_heap c' sl = Some sn" "node_data sl sn = line_data u" by auto
      from arg_cong [OF sn(2), of rn_master] arg_cong [OF sn(2), of rn_slots] u(2) have "rn_master sn = None" "rn_slots sn = []"
        by (simp_all add: node_data_def line_data_def line_node_def Let_def)
      with sn(1) show ?thesis by (subst node_get_slots.simps) (simp add: is_master_def)
    qed
    with n(1) show ?thesis by blast
  qed
  with assms(2,3) c0(1) c'(1) string_reply [of t] show ?thesis
    by (auto simp: cluster_nodes_def run_with_def)
qed

theorem slaves_have_no_slots_witness:
  "\<exists>c'. fst (cluster_nodes (\<lambda>req (n :: nat). (Some (resp_result (RBulk sample_nodes)), n)) (\<lambda>i. 0) cluster_cmd_new 0) =
     Some (True, c') \<and> (\<forall>(k, m) \<in> set (cc_masters c'). \<exists>n. cc_heap c' m = Some n \<and>
      (\<forall>sl \<in> set (rn_slaves n). node_get_slots (cc_heap c') sl = Some []))"
  by (rule slaves_have_no_slots [OF cc_ok_new _ sample_nodes_ids(2,1)]) (simp add: run_request_def)

text \<open>A master that is being found to have failed has the flags \<open>master,fail?\<close> or \<open>master,fail\<close>: what is behind the
  comma is taken for its type, so it heads nothing. It is not in the map, and the slaves that could take over for it are
  deleted as orphans.\<close>

theorem failed_master_lost:
  assumes "cc_masters c = []" "dom (cc_heap c) = set (cc_slaves c)" "distinct (cc_slaves c)" "\<forall>a \<in> set (cc_slaves c). a < cc_next c"
    and ids: "distinct (map (\<lambda>ts. ts ! 0) (node_lines (fst (lines_of t))))"
    and u: "u \<in> set (node_lines (fst (lines_of t)))" "u ! 2 = lit ''master,fail'' \<or> u ! 2 = lit ''master,fail?''"
  shows "\<exists>c'. nodes_of_text junk c t = Some c' \<and> (\<forall>v \<in> set (cc_view c'). \<forall>k n sl. v = Some (k, n, sl) \<longrightarrow>
    k \<noteq> u ! 0 \<and> (\<forall>x \<in> set sl. \<forall>sn. x = Some sn \<longrightarrow> rn_master_id sn \<noteq> u ! 0))"
proof -
  have kinds: "\<not> is_head ts" if "ts ! 2 = lit ''master,fail'' \<or> ts ! 2 = lit ''master,fail?''" for ts
  proof -
    have "\<not> (c_strcasecmp_eq (snd (node_flags f)) (lit ''master'') \<or> c_strcasecmp_eq (snd (node_flags f)) (lit ''handshake''))"
      if "f \<in> {lit ''master,fail'', lit ''master,fail?''}" for f using that by (elim insertE emptyE) (simp_all only:, code_simp+)
    with that show ?thesis by (auto simp: is_head_def)
  qed
  have ne: "ts ! 0 \<noteq> u ! 0" if "ts \<in> set (node_lines (fst (lines_of t)))" "is_head ts" for ts
  proof
    assume "ts ! 0 = u ! 0"
    with ids that(1) u(1) have "ts = u" by (auto simp: distinct_map dest: inj_onD)
    with that(2) kinds u(2) show False by blast
  qed
  obtain c' where "nodes_of_text junk c t = Some c'" "cc_view c' = topology (node_lines (fst (lines_of t)))"
    using nodes_of_text_ok [OF assms(1-5)] by blast
  with ne show ?thesis
    by (auto simp: topology_def line_data_def node_data_def line_node_def Let_def)
qed

theorem failed_master_lost_witness:
  "\<exists>c'. nodes_of_text (\<lambda>i. 0) cluster_cmd_new (lit ''m1 h:1 master,fail - 0 0 1 connected 0-9'' @ [10]) = Some c' \<and>
     (\<forall>v \<in> set (cc_view c'). \<forall>k n sl. v = Some (k, n, sl) \<longrightarrow> k \<noteq> lit ''m1'')"
proof -
  let ?t = "lit ''m1 h:1 master,fail - 0 0 1 connected 0-9'' @ [10]"
  let ?u = "[lit ''m1'', lit ''h:1'', lit ''master,fail'', lit ''-'', lit ''0'', lit ''0'', lit ''1'', lit ''connected'', lit ''0-9'']"
  have l: "node_lines (fst (lines_of ?t)) = [?u]" by code_simp
  then have "distinct (map (\<lambda>ts. ts ! 0) (node_lines (fst (lines_of ?t))))" "?u \<in> set (node_lines (fst (lines_of ?t)))"
    by simp_all
  from failed_master_lost [OF _ _ _ _ this, of cluster_cmd_new "\<lambda>i. 0"] obtain c' where
    "nodes_of_text (\<lambda>i. 0) cluster_cmd_new ?t = Some c'" "\<forall>v \<in> set (cc_view c'). \<forall>k n sl. v = Some (k, n, sl) \<longrightarrow> k \<noteq> ?u ! 0"
    by (auto simp: cluster_cmd_new_def) metis
  then show ?thesis by (intro exI [of _ c'] conjI) simp_all
qed

text \<open>A slot that is being moved, \<open>[93->-id]\<close> or \<open>[93-<-id]\<close> at the end of the line of a master, becomes the range
  from slot 0 to slot 0, whoever has slot 0.\<close>

lemma c_strtol_nondigit: "c \<noteq> 45 \<Longrightarrow> c \<noteq> 43 \<Longrightarrow> \<not> isspace c \<Longrightarrow> \<not> isdigit c \<Longrightarrow> c_strtol (c # t) = 0"
  by (simp add: c_strtol_def c_sign_def dec_value_def)

theorem moving_slot_is_slot_0:
  assumes "d = 60 \<or> d = 62"
  shows "token_range (91 # dec_of_nat n @ [45, d, 45] @ node) = (0, 0)"
proof -
  have "45 \<notin> set (91 # dec_of_nat n)" by (simp add: dec_not_in isdigit_def)
  then have "strchr_idx ((91 # dec_of_nat n) @ 45 # [d, 45] @ node) 45 = Some (length (91 # dec_of_nat n))"
    by (rule strchr_idx_app)
  moreover have "c_strtol (91 # dec_of_nat n) = 0" "c_strtol (d # 45 # node) = 0"
    using assms by (auto intro!: c_strtol_nondigit simp: isspace_def isdigit_def)
  ultimately show ?thesis by (simp add: token_range_def c_atol_def)
qed

theorem moving_slot_is_slot_0_witness: "token_range (lit ''[93->-m2]'') = (0, 0)"
proof -
  have "lit ''[93->-m2]'' = 91 # dec_of_nat 93 @ [45, 62, 45] @ lit ''m2]''" by code_simp
  with moving_slot_is_slot_0 [of 62 93 "lit ''m2]''"] show ?thesis by simp
qed

text \<open>\<open>remove_slave\<close> returns the slave behind the one it removes, and for the last one reads behind the end of the
  vector.\<close>

theorem remove_slave_returns_next:
  assumes "h m = Some n" "rn_slaves n = xs @ a # ys" "h a = Some an" "\<forall>x \<in> set xs. \<exists>xn. h x = Some xn \<and> rn_id xn \<noteq> rn_id an"
  shows "node_remove_slave h m (rn_id an) =
    (case ys of [] \<Rightarrow> None | b # bs \<Rightarrow> Some (Some b, h(m \<mapsto> n\<lparr>rn_slaves := xs @ ys\<rparr>)))"
proof -
  have "slave_at h (xs @ a # ys) (rn_id an) = Some (Some (length xs))" using assms(3,4) by (induction xs) auto
  with assms(1,2) show ?thesis by (simp add: node_remove_slave_def nth_append split: list.split)
qed

theorem remove_slave_returns_next_witness:
  "map_option fst (node_remove_slave
     [0 \<mapsto> redis_node_new\<lparr>rn_slaves := [1, 2]\<rparr>, 1 \<mapsto> redis_node_new\<lparr>rn_id := [65]\<rparr>, 2 \<mapsto> redis_node_new] 0 [65]) = Some (Some 2)"
proof -
  let ?h = "[0 \<mapsto> redis_node_new\<lparr>rn_slaves := [1, 2]\<rparr>, 1 \<mapsto> redis_node_new\<lparr>rn_id := [65]\<rparr>, 2 \<mapsto> redis_node_new] :: nodes"
  show ?thesis
    using remove_slave_returns_next [of ?h 0 "redis_node_new\<lparr>rn_slaves := [1, 2]\<rparr>" "[]" 1 "[2]" "redis_node_new\<lparr>rn_id := [65]\<rparr>"]
    by simp
qed

text \<open>A node that is named twice: the first object of a master stays in memory, with nothing that points to it.\<close>

theorem duplicate_master_leaks:
  "map_option (\<lambda>c. (cc_masters c, Option.is_none (cc_heap c 0)))
     (nodes_of_text (\<lambda>i. 0) cluster_cmd_new
       (lit ''m h:1 master - 0 0 1 connected'' @ [10] @ lit ''m h:2 master - 0 0 1 connected'' @ [10])) =
   Some ([(lit ''m'', 1)], False)"
  by code_simp

end
