(* ===== verification/Redis_Stream.thy ===== *)
theory Redis_Stream
  imports Redis_Zset Conn_Manager Acl_Strings
begin

text \<open>
  \<^verbatim>\<open>aclredis/src/redis/redis_stream.cpp\<close>: the stream commands, in the manner of \<open>Redis_List\<close>. The
  structures of \<^verbatim>\<open>redis_stream.hpp\<close> are records; an output that the code appends to is an argument
  and a result. A \<open>std::map\<close> given to a command is the list of its entries in the order of its
  iterator, one filled by a command is such a list too (\<open>map_put\<close>). An id is a C string; where
  the code looks for NULL it is an option.

  The lemmas say what the decoders make of the replies the redis documentation describes, and where
  a request is not laid out as it is described there: XREAD of several streams, XCLAIM with an
  option, XCLAIM for ids only.
\<close>

section \<open>Data\<close>

record redis_stream_field =
  sf_name :: "byte list"
  sf_value :: "byte list"

record redis_stream_message =
  sm_id :: "byte list"
  sm_fields :: "redis_stream_field list"

record redis_stream_messages =
  sms_key :: "byte list"
  sms_messages :: "redis_stream_message list"

record redis_xinfo_consumer =
  xc_name :: "byte list"
  xc_pending :: u64
  xc_idle :: u64

record redis_xinfo_group =
  xg_name :: "byte list"
  xg_last_delivered_id :: "byte list"
  xg_consumers :: u64
  xg_pending :: u64

record redis_stream_info =
  xs_length :: u64
  xs_radix_tree_keys :: u64
  xs_radix_tree_nodes :: u64
  xs_groups :: u64
  xs_last_generated_id :: "byte list"
  xs_first_entry :: redis_stream_message
  xs_last_entry :: redis_stream_message

record redis_pending_consumer =
  pc_name :: "byte list"
  pc_pending_number :: u64

record redis_pending_summary =
  ps_smallest_id :: "byte list"
  ps_greatest_id :: "byte list"
  ps_consumers :: "redis_pending_consumer list"

record redis_pending_message =
  pm_id :: "byte list"
  pm_consumer :: "byte list"
  pm_elapsed :: u64
  pm_delivered :: u64

definition stream_message_new :: redis_stream_message where
  "stream_message_new = \<lparr>sm_id = [], sm_fields = []\<rparr>"

definition xinfo_consumer_new :: redis_xinfo_consumer where
  "xinfo_consumer_new = \<lparr>xc_name = [], xc_pending = 0, xc_idle = 0\<rparr>"

definition xinfo_group_new :: redis_xinfo_group where
  "xinfo_group_new = \<lparr>xg_name = [], xg_last_delivered_id = [], xg_consumers = 0, xg_pending = 0\<rparr>"

definition stream_info_new :: redis_stream_info where
  "stream_info_new = \<lparr>xs_length = 0, xs_radix_tree_keys = 0, xs_radix_tree_nodes = 0, xs_groups = 0,
     xs_last_generated_id = [], xs_first_entry = stream_message_new, xs_last_entry = stream_message_new\<rparr>"

definition pending_consumer_new :: redis_pending_consumer where
  "pending_consumer_new = \<lparr>pc_name = [], pc_pending_number = 0\<rparr>"

definition pending_message_new :: redis_pending_message where
  "pending_message_new = \<lparr>pm_id = [], pm_consumer = [], pm_elapsed = 0, pm_delivered = 0\<rparr>"

section \<open>XADD and XLEN\<close>

text \<open>The four \<open>build\<close> functions with a command, a key and an id.\<close>

definition stream_build :: "cstr \<Rightarrow> cstr \<Rightarrow> cstr \<Rightarrow> (byte list \<times> byte list) list \<Rightarrow> byte list list" where
  "stream_build cmd key xid attrs = [cmd, key, xid] @ flatten_pairs id id attrs"

definition stream_build_names ::
  "cstr \<Rightarrow> cstr \<Rightarrow> cstr \<Rightarrow> byte list list \<Rightarrow> byte list list \<Rightarrow> byte list list"
where
  "stream_build_names cmd key xid names values = [cmd, key, xid] @ flatten_pairs id id (zip names values)"

definition stream_build_names_cstr ::
  "cstr \<Rightarrow> cstr \<Rightarrow> cstr \<Rightarrow> byte list list \<Rightarrow> byte list list \<Rightarrow> byte list list"
where
  "stream_build_names_cstr cmd key xid names values =
     [cmd, key, xid] @ flatten_pairs cstr_of cstr_of (zip names values)"

definition stream_build_arrays :: "cstr \<Rightarrow> cstr \<Rightarrow> cstr \<Rightarrow> (byte list \<times> byte list) list \<Rightarrow> byte list list" where
  "stream_build_arrays cmd key xid ps = [cmd, key, xid] @ flatten_pairs id id ps"

definition xadd ::
  "'s server \<Rightarrow> cstr \<Rightarrow> (byte list \<times> byte list) list \<Rightarrow> cstr option \<Rightarrow> 's \<Rightarrow> (bool \<times> byte list option) \<times> 's"
where
  "xadd srv key attrs xid s =
     (if attrs = [] then ((False, None), s)
      else case xid of
        None \<Rightarrow> ((False, None), s)
      | Some i \<Rightarrow>
          if i = [] then ((False, None), s)
          else run_with got_string srv (stream_build (lit ''XADD'') key i attrs) s)"

definition xadd_names ::
  "'s server \<Rightarrow> cstr \<Rightarrow> byte list list \<Rightarrow> byte list list \<Rightarrow> cstr option \<Rightarrow> 's \<Rightarrow> (bool \<times> byte list option) \<times> 's"
where
  "xadd_names srv key names values xid s =
     (if length names \<noteq> length values \<or> length names = 0 then ((False, None), s)
      else case xid of
        None \<Rightarrow> ((False, None), s)
      | Some i \<Rightarrow>
          if i = [] then ((False, None), s)
          else run_with got_string srv (stream_build_names (lit ''XADD'') key i names values) s)"

definition xadd_names_cstr ::
  "'s server \<Rightarrow> cstr \<Rightarrow> byte list list \<Rightarrow> byte list list \<Rightarrow> cstr option \<Rightarrow> 's \<Rightarrow> (bool \<times> byte list option) \<times> 's"
where
  "xadd_names_cstr srv key names values xid s =
     (if length names \<noteq> length values \<or> length names = 0 then ((False, None), s)
      else case xid of
        None \<Rightarrow> ((False, None), s)
      | Some i \<Rightarrow>
          if i = [] then ((False, None), s)
          else run_with got_string srv (stream_build_names_cstr (lit ''XADD'') key i names values) s)"

definition xadd_arrays ::
  "'s server \<Rightarrow> cstr \<Rightarrow> (byte list \<times> byte list) list \<Rightarrow> cstr option \<Rightarrow> 's \<Rightarrow> (bool \<times> byte list option) \<times> 's"
where
  "xadd_arrays srv key ps xid s =
     (if length ps = 0 then ((False, None), s)
      else case xid of
        None \<Rightarrow> ((False, None), s)
      | Some i \<Rightarrow>
          if i = [] then ((False, None), s)
          else run_with got_string srv (stream_build_arrays (lit ''XADD'') key i ps) s)"

text \<open>The length, a \<open>size_t\<close>, is printed as a \<open>long\<close>; neither the fields nor the id are looked at
  (a NULL id is not modelled: \<open>strlen\<close> reads it).\<close>

definition xadd_with_maxlen ::
  "'s server \<Rightarrow> cstr \<Rightarrow> nat \<Rightarrow> (byte list \<times> byte list) list \<Rightarrow> cstr \<Rightarrow> 's \<Rightarrow> (bool \<times> byte list option) \<times> 's"
where
  "xadd_with_maxlen srv key maxlen attrs xid s =
     (if maxlen = 0 then xadd srv key attrs (Some xid) s
      else run_with got_string srv
        ([lit ''XADD'', key, lit ''MAXLEN'', lit ''~'',
          c_snprintf 21 (dec_of_int (signed_take_bit 63 (int maxlen))), xid] @ flatten_pairs id id attrs) s)"

definition xlen :: "'s server \<Rightarrow> cstr \<Rightarrow> 's \<Rightarrow> int \<times> 's" where
  "xlen srv key = run_with (fst \<circ> get_number) srv [lit ''XLEN'', key]"

section \<open>XREAD, XREADGROUP, XRANGE and XREVRANGE\<close>

definition read_options :: "nat \<Rightarrow> nat \<Rightarrow> bool \<Rightarrow> byte list list" where
  "read_options cnt block noack =
     (if cnt > 0 then [lit ''COUNT'', lu21 cnt] else []) @
     (if block > 0 then [lit ''BLOCK'', lu21 block] else []) @
     (if noack then [lit ''NOACK''] else [])"

definition stream_read_build ::
  "byte list list \<Rightarrow> (byte list \<times> byte list) list \<Rightarrow> nat \<Rightarrow> nat \<Rightarrow> bool \<Rightarrow> byte list list"
where
  "stream_read_build head streams cnt block noack =
     head @ read_options cnt block noack @ [lit ''STREAMS''] @ flatten_pairs id id streams"

definition xread_build :: "(byte list \<times> byte list) list \<Rightarrow> nat \<Rightarrow> nat \<Rightarrow> byte list list" where
  "xread_build streams cnt block = stream_read_build [lit ''XREAD''] streams cnt block False"

definition xreadgroup_build ::
  "cstr \<Rightarrow> cstr \<Rightarrow> (byte list \<times> byte list) list \<Rightarrow> nat \<Rightarrow> nat \<Rightarrow> bool \<Rightarrow> byte list list"
where
  "xreadgroup_build grp consumer streams cnt block noack =
     stream_read_build [lit ''XREADGROUP'', lit ''GROUP'', grp, consumer] streams cnt block noack"

definition get_one_message ::
  "redis_result \<Rightarrow> redis_stream_message \<Rightarrow> bool \<times> redis_stream_message"
where
  "get_one_message rr m =
     (let ch = rr_children rr in
      if length ch = 0 then (False, m)
      else if length ch \<noteq> 2 then (False, m)
      else if result_type (ch ! 0) \<noteq> REDIS_RESULT_STRING then (False, m)
      else let m1 = m\<lparr>sm_id := rr_argv_to_string (ch ! 0)\<rparr>; fs = rr_children (ch ! 1)
        in if length fs = 0 then (False, m1)
           else if length fs mod 2 \<noteq> 0 then (False, m1)
           else (True, m1\<lparr>sm_fields := sm_fields m1 @
             map (\<lambda>(n, v). \<lparr>sf_name = rr_argv_to_string n, sf_value = rr_argv_to_string v\<rparr>) (string_pairs fs)\<rparr>))"

text \<open>The loop over messages that \<open>get_messages\<close> and \<open>range\<close> share: a message without fields is
  left out.\<close>

definition kept_message :: "redis_result \<Rightarrow> redis_stream_message option" where
  "kept_message child =
     (if result_type child \<noteq> REDIS_RESULT_ARRAY then None
      else let (ret, m) = get_one_message child stream_message_new
        in if ret \<and> sm_fields m \<noteq> [] then Some m else None)"

definition add_messages :: "redis_result list \<Rightarrow> redis_stream_messages \<Rightarrow> redis_stream_messages" where
  "add_messages ch ms = ms\<lparr>sms_messages := sms_messages ms @ List.map_filter kept_message ch\<rparr>"

definition get_messages :: "redis_result \<Rightarrow> redis_stream_messages \<Rightarrow> bool \<times> redis_stream_messages" where
  "get_messages rr ms =
     (let ch = rr_children rr in
      if length ch \<noteq> 2 then (False, ms)
      else if result_type (ch ! 0) \<noteq> REDIS_RESULT_STRING then (False, ms)
      else let ms1 = ms\<lparr>sms_key := rr_argv_to_string (ch ! 0)\<rparr>
        in if result_type (ch ! 1) \<noteq> REDIS_RESULT_ARRAY then (False, ms1)
           else if rr_children (ch ! 1) = [] then (False, ms1)
           else (True, add_messages (rr_children (ch ! 1)) ms1))"

definition get_results :: "redis_stream_messages \<Rightarrow> redis_result option \<Rightarrow> bool \<times> redis_stream_messages" where
  "get_results ms r =
     (if \<not> is_type REDIS_RESULT_ARRAY r then (False, ms)
      else (True, foldl (\<lambda>ms child. if result_type child \<noteq> REDIS_RESULT_ARRAY then ms
                                     else snd (get_messages child ms)) ms (rr_children (the r))))"

definition xread ::
  "'s server \<Rightarrow> redis_stream_messages \<Rightarrow> (byte list \<times> byte list) list \<Rightarrow> nat \<Rightarrow> nat \<Rightarrow> 's \<Rightarrow>
   (bool \<times> redis_stream_messages) \<times> 's"
where
  "xread srv ms streams cnt block = run_with (get_results ms) srv (xread_build streams cnt block)"

definition xreadgroup ::
  "'s server \<Rightarrow> redis_stream_messages \<Rightarrow> cstr \<Rightarrow> cstr \<Rightarrow> (byte list \<times> byte list) list \<Rightarrow> nat \<Rightarrow> nat \<Rightarrow>
   bool \<Rightarrow> 's \<Rightarrow> (bool \<times> redis_stream_messages) \<times> 's"
where
  "xreadgroup srv ms grp consumer streams cnt block noack =
     run_with (get_results ms) srv (xreadgroup_build grp consumer streams cnt block noack)"

definition xreadgroup_with_noack ::
  "'s server \<Rightarrow> redis_stream_messages \<Rightarrow> cstr \<Rightarrow> cstr \<Rightarrow> (byte list \<times> byte list) list \<Rightarrow> nat \<Rightarrow> nat \<Rightarrow>
   's \<Rightarrow> (bool \<times> redis_stream_messages) \<times> 's"
where
  "xreadgroup_with_noack srv ms grp consumer streams cnt block =
     xreadgroup srv ms grp consumer streams cnt block True"

definition range_result ::
  "redis_stream_messages \<Rightarrow> cstr \<Rightarrow> redis_result option \<Rightarrow> bool \<times> redis_stream_messages"
where
  "range_result ms key r =
     (if \<not> is_type REDIS_RESULT_ARRAY r then (False, ms)
      else (True, add_messages (rr_children (the r)) (ms\<lparr>sms_key := key\<rparr>)))"

definition stream_range ::
  "'s server \<Rightarrow> redis_stream_messages \<Rightarrow> cstr \<Rightarrow> cstr \<Rightarrow> cstr \<Rightarrow> cstr \<Rightarrow> nat \<Rightarrow> 's \<Rightarrow>
   (bool \<times> redis_stream_messages) \<times> 's"
where
  "stream_range srv ms cmd key from till cnt =
     run_with (range_result ms key) srv
       ([cmd, key, from, till] @ (if cnt > 0 then [lit ''COUNT'', lu21 cnt] else []))"

definition xrange ::
  "'s server \<Rightarrow> redis_stream_messages \<Rightarrow> cstr \<Rightarrow> cstr \<Rightarrow> cstr \<Rightarrow> nat \<Rightarrow> 's \<Rightarrow> (bool \<times> redis_stream_messages) \<times> 's"
where
  "xrange srv ms key from till cnt = stream_range srv ms (lit ''XRANGE'') key from till cnt"

definition xrevrange ::
  "'s server \<Rightarrow> redis_stream_messages \<Rightarrow> cstr \<Rightarrow> cstr \<Rightarrow> cstr \<Rightarrow> nat \<Rightarrow> 's \<Rightarrow> (bool \<times> redis_stream_messages) \<times> 's"
where
  "xrevrange srv ms key from till cnt = stream_range srv ms (lit ''XREVRANGE'') key from till cnt"

section \<open>XCLAIM\<close>

definition xclaim_build ::
  "cstr \<Rightarrow> cstr \<Rightarrow> cstr \<Rightarrow> int \<Rightarrow> byte list list \<Rightarrow> nat \<Rightarrow> int \<Rightarrow> int \<Rightarrow> bool \<Rightarrow> bool \<Rightarrow> byte list list"
where
  "xclaim_build key grp consumer min_idle ids idle time_ms retry_count force justid =
     [lit ''XCLAIM'', key, grp, consumer, lu21 (unat (word_of_int min_idle :: u64))] @ ids @
     (if idle > 0 then [lu21 idle]
      else if time_ms > 0 then [c_snprintf 21 (dec_of_int time_ms)] else []) @
     (if retry_count > 0 then [int_arg retry_count] else []) @
     (if force then [lit ''FORCE''] else []) @
     (if justid then [lit ''JUSTID''] else [])"

text \<open>Here a message without fields would be kept.\<close>

definition claimed_message :: "redis_result \<Rightarrow> redis_stream_message option" where
  "claimed_message child =
     (if result_type child \<noteq> REDIS_RESULT_ARRAY then None
      else let (ret, m) = get_one_message child stream_message_new in if ret then Some m else None)"

definition xclaim ::
  "'s server \<Rightarrow> redis_stream_message list \<Rightarrow> cstr \<Rightarrow> cstr \<Rightarrow> cstr \<Rightarrow> int \<Rightarrow> byte list list \<Rightarrow> nat \<Rightarrow> int \<Rightarrow>
   int \<Rightarrow> bool \<Rightarrow> 's \<Rightarrow> (bool \<times> redis_stream_message list) \<times> 's"
where
  "xclaim srv ms key grp consumer min_idle ids idle time_ms retry_count force =
     run_with (\<lambda>r. if \<not> is_type REDIS_RESULT_ARRAY r then (False, ms)
                    else (True, ms @ List.map_filter claimed_message (rr_children (the r))))
       srv (xclaim_build key grp consumer min_idle ids idle time_ms retry_count force False)"

definition claimed_id :: "redis_result \<Rightarrow> byte list option" where
  "claimed_id child =
     (if result_type child \<noteq> REDIS_RESULT_STRING then None
      else if rr_argv_to_string child = [] then None else Some (rr_argv_to_string child))"

definition xclaim_with_justid ::
  "'s server \<Rightarrow> byte list list \<Rightarrow> cstr \<Rightarrow> cstr \<Rightarrow> cstr \<Rightarrow> int \<Rightarrow> byte list list \<Rightarrow> nat \<Rightarrow> int \<Rightarrow> int \<Rightarrow>
   bool \<Rightarrow> 's \<Rightarrow> (bool \<times> byte list list) \<times> 's"
where
  "xclaim_with_justid srv out key grp consumer min_idle ids idle time_ms retry_count force =
     run_with (\<lambda>r. if \<not> is_type REDIS_RESULT_ARRAY r then (False, out)
                    else (True, out @ List.map_filter claimed_id (rr_children (the r))))
       srv (xclaim_build key grp consumer min_idle ids idle time_ms retry_count force False)"

section \<open>XACK, XDEL and XTRIM\<close>

definition xack_one :: "'s server \<Rightarrow> cstr \<Rightarrow> cstr \<Rightarrow> cstr \<Rightarrow> 's \<Rightarrow> int \<times> 's" where
  "xack_one srv key grp xid = run_with (fst \<circ> get_number) srv [lit ''XACK'', key, grp, xid]"

definition xack :: "'s server \<Rightarrow> cstr \<Rightarrow> cstr \<Rightarrow> byte list list \<Rightarrow> 's \<Rightarrow> int \<times> 's" where
  "xack srv key grp ids s =
     (if ids = [] then (-1, s)
      else run_with (fst \<circ> get_number) srv ([lit ''XACK'', key, grp] @ ids) s)"

definition xack_cstr :: "'s server \<Rightarrow> cstr \<Rightarrow> cstr \<Rightarrow> byte list list \<Rightarrow> 's \<Rightarrow> int \<times> 's" where
  "xack_cstr srv key grp ids s =
     (if ids = [] then (-1, s)
      else run_with (fst \<circ> get_number) srv ([lit ''XACK'', key, grp] @ map cstr_of ids) s)"

text \<open>With a \<open>std::list\<close> the caller gives the number of ids too, and only that many cells are asked
  of \<open>argv_space\<close>, which keeps the cells \<open>had\<close> it has when they are enough.\<close>

definition argv_cells :: "nat \<Rightarrow> nat \<Rightarrow> cells" where
  "argv_cells had n = replicate (if had \<ge> n then had else n) None"

definition send_first :: "'s server \<Rightarrow> (nat \<times> cells) option \<Rightarrow> 's \<Rightarrow> int sent \<times> 's" where
  "send_first srv ics s = send_cells srv (map_option (\<lambda>(i, cs). take i cs) ics) s"

definition xack_list :: "'s server \<Rightarrow> nat \<Rightarrow> cstr \<Rightarrow> cstr \<Rightarrow> byte list list \<Rightarrow> nat \<Rightarrow> 's \<Rightarrow> int sent \<times> 's" where
  "xack_list srv had key grp ids n s =
     (if ids = [] \<or> n = 0 then (Sent (-1), s)
      else send_first srv (put_cells 1 0 ([lit ''XACK'', key, grp] @ ids) (argv_cells had (3 + n))) s)"

definition xack_list_cstr :: "'s server \<Rightarrow> nat \<Rightarrow> cstr \<Rightarrow> cstr \<Rightarrow> byte list list \<Rightarrow> nat \<Rightarrow> 's \<Rightarrow> int sent \<times> 's" where
  "xack_list_cstr srv had key grp ids n s =
     (if ids = [] \<or> n = 0 then (Sent (-1), s)
      else send_first srv (put_cells 1 0 ([lit ''XACK'', key, grp] @ map cstr_of ids) (argv_cells had (3 + n))) s)"

definition xdel :: "'s server \<Rightarrow> cstr \<Rightarrow> byte list list \<Rightarrow> 's \<Rightarrow> int \<times> 's" where
  "xdel srv key ids = run_with (fst \<circ> get_number) srv (build_names (lit ''XDEL'') (Some key) ids)"

definition xdel_cstr :: "'s server \<Rightarrow> cstr \<Rightarrow> byte list list \<Rightarrow> 's \<Rightarrow> int \<times> 's" where
  "xdel_cstr srv key ids = run_with (fst \<circ> get_number) srv (build_names_cstr (lit ''XDEL'') (Some key) ids)"

definition xdel_one :: "'s server \<Rightarrow> cstr \<Rightarrow> cstr \<Rightarrow> 's \<Rightarrow> int \<times> 's" where
  "xdel_one srv key xid = xdel_cstr srv key [xid]"

text \<open>The slot that these three leave in the command: of the first id, when there is one id.\<close>

definition xdel_slot :: "int option \<Rightarrow> int \<Rightarrow> byte list list \<Rightarrow> int" where
  "xdel_slot max_slot slot ids = (if length ids = 1 then hash_slot max_slot slot (ids ! 0) else slot)"

definition xdel_one_slot :: "int option \<Rightarrow> int \<Rightarrow> cstr \<Rightarrow> cstr \<Rightarrow> int" where
  "xdel_one_slot max_slot slot key xid = xdel_slot max_slot (hash_slot max_slot slot key) [xid]"

definition xtrim :: "'s server \<Rightarrow> cstr \<Rightarrow> nat \<Rightarrow> bool \<Rightarrow> 's \<Rightarrow> int \<times> 's" where
  "xtrim srv key maxlen tilde = run_with (fst \<circ> get_number) srv
     ([lit ''XTRIM'', key, lit ''MAXLEN''] @ (if tilde then [lit ''~''] else []) @ [lu21 maxlen])"

section \<open>XPENDING\<close>

definition get_pending_consumer ::
  "redis_result \<Rightarrow> redis_pending_consumer \<Rightarrow> bool \<times> redis_pending_consumer"
where
  "get_pending_consumer rr pc =
     (if result_type rr \<noteq> REDIS_RESULT_ARRAY then (False, pc)
      else let ch = rr_children rr in
        if length ch < 2 then (False, pc)
        else if result_type (ch ! 0) \<noteq> REDIS_RESULT_STRING then (False, pc)
        else let pc1 = pc\<lparr>pc_name := rr_argv_to_string (ch ! 0)\<rparr> in
          if result_type (ch ! 1) \<noteq> REDIS_RESULT_STRING then (False, pc1)
          else let n = c_atoi (cstr_of (rr_argv_to_string (ch ! 1))) in
            if n < 0 then (False, pc1) else (True, pc1\<lparr>pc_pending_number := word_of_int n\<rparr>))"

definition some_if :: "bool \<times> 'a \<Rightarrow> 'a option" where
  "some_if p = (if fst p then Some (snd p) else None)"

definition summary_result ::
  "redis_pending_summary \<Rightarrow> redis_result option \<Rightarrow> bool \<times> redis_pending_summary"
where
  "summary_result su r =
     (if \<not> is_type REDIS_RESULT_ARRAY r then (False, su)
      else let ch = rr_children (the r) in
        if length ch < 4 then (False, su)
        else if result_type (ch ! 0) \<noteq> REDIS_RESULT_INTEGER then (False, su)
        else let n = fst (rr_get_integer (ch ! 0)) in
          if n < 0 then (False, su)
          else if n = 0 then (True, su)
          else let su1 = (if result_type (ch ! 1) = REDIS_RESULT_STRING
                          then su\<lparr>ps_smallest_id := rr_argv_to_string (ch ! 1)\<rparr> else su);
                   su2 = (if result_type (ch ! 2) = REDIS_RESULT_STRING
                          then su1\<lparr>ps_greatest_id := rr_argv_to_string (ch ! 2)\<rparr> else su1)
            in if result_type (ch ! 3) \<noteq> REDIS_RESULT_ARRAY then (False, su2)
               else if rr_children (ch ! 3) = [] then (False, su2)
               else let su3 = su2\<lparr>ps_consumers := ps_consumers su2 @
                      List.map_filter (\<lambda>c. some_if (get_pending_consumer c pending_consumer_new)) (rr_children (ch ! 3))\<rparr>
                 in (ps_consumers su3 \<noteq> [], su3))"

definition xpending_summary ::
  "'s server \<Rightarrow> cstr \<Rightarrow> cstr \<Rightarrow> redis_pending_summary \<Rightarrow> 's \<Rightarrow> (bool \<times> redis_pending_summary) \<times> 's"
where
  "xpending_summary srv key grp su = run_with (summary_result su) srv [lit ''XPENDING'', key, grp]"

text \<open>The number of deliveries is read from the same element as the elapsed time, as an \<open>int\<close>.\<close>

definition get_pending_message ::
  "redis_result \<Rightarrow> redis_pending_message \<Rightarrow> bool \<times> redis_pending_message"
where
  "get_pending_message rr pm =
     (if result_type rr \<noteq> REDIS_RESULT_ARRAY then (False, pm)
      else let ch = rr_children rr in
        if length ch < 4 then (False, pm)
        else if result_type (ch ! 0) \<noteq> REDIS_RESULT_STRING then (False, pm)
        else let pm1 = pm\<lparr>pm_id := rr_argv_to_string (ch ! 0)\<rparr> in
          if result_type (ch ! 1) \<noteq> REDIS_RESULT_STRING then (False, pm1)
          else let pm2 = pm1\<lparr>pm_consumer := rr_argv_to_string (ch ! 1)\<rparr> in
            if result_type (ch ! 2) \<noteq> REDIS_RESULT_INTEGER then (False, pm2)
            else let (n, ok) = rr_get_integer64 (ch ! 2) in
              if n < 0 \<or> \<not> ok then (False, pm2)
              else let pm3 = pm2\<lparr>pm_elapsed := word_of_int n\<rparr>; (d, ok) = rr_get_integer (ch ! 2) in
                if d < 0 \<or> \<not> ok then (False, pm3)
                else (True, pm3\<lparr>pm_delivered := word_of_int d\<rparr>))"

definition add_pending ::
  "redis_result \<Rightarrow> (byte list \<times> redis_pending_message) list \<Rightarrow> (byte list \<times> redis_pending_message) list"
where
  "add_pending child d =
     (let (ret, m) = get_pending_message child pending_message_new in if ret then map_put (pm_id m) m d else d)"

definition detail_result ::
  "(byte list \<times> redis_pending_message) list \<Rightarrow> redis_result option \<Rightarrow>
   bool \<times> (byte list \<times> redis_pending_message) list"
where
  "detail_result d r =
     (if \<not> is_type REDIS_RESULT_ARRAY r then (False, d)
      else (True, fold add_pending (rr_children (the r)) d))"

definition xpending_detail ::
  "'s server \<Rightarrow> (byte list \<times> redis_pending_message) list \<Rightarrow> cstr \<Rightarrow> cstr \<Rightarrow> cstr option \<Rightarrow> cstr option \<Rightarrow>
   nat \<Rightarrow> cstr option \<Rightarrow> 's \<Rightarrow> (bool \<times> (byte list \<times> redis_pending_message) list) \<times> 's"
where
  "xpending_detail srv d key grp start_id end_id cnt consumer s =
     (case (start_id, end_id) of
        (Some a, Some b) \<Rightarrow>
          if a = [] \<or> b = [] then ((False, d), s)
          else run_with (detail_result d) srv
            ([lit ''XPENDING'', key, grp, a, b, lu21 cnt] @
             (case consumer of None \<Rightarrow> [] | Some c \<Rightarrow> if c = [] then [] else [c])) s
      | _ \<Rightarrow> ((False, d), s))"

section \<open>XGROUP\<close>

definition help_result :: "byte list list \<Rightarrow> redis_result option \<Rightarrow> bool \<times> byte list list" where
  "help_result out r =
     (if \<not> is_type REDIS_RESULT_ARRAY r then (False, out)
      else if rr_children (the r) = [] then (False, out)
      else (True, out @ map rr_argv_to_string (rr_children (the r))))"

definition xgroup_help :: "'s server \<Rightarrow> byte list list \<Rightarrow> 's \<Rightarrow> (bool \<times> byte list list) \<times> 's" where
  "xgroup_help srv out = run_with (help_result out) srv [lit ''XGROUP'', lit ''HELP'']"

definition xgroup_create :: "'s server \<Rightarrow> cstr \<Rightarrow> cstr \<Rightarrow> cstr \<Rightarrow> bool \<Rightarrow> 's \<Rightarrow> bool \<times> 's" where
  "xgroup_create srv key grp xid mkstream = run_with status_ok srv
     ([lit ''XGROUP'', lit ''CREATE'', key, grp, xid] @ (if mkstream then [lit ''MKSTREAM''] else []))"

definition xgroup_destroy :: "'s server \<Rightarrow> cstr \<Rightarrow> cstr \<Rightarrow> 's \<Rightarrow> int \<times> 's" where
  "xgroup_destroy srv key grp = run_with (fst \<circ> get_number) srv [lit ''XGROUP'', lit ''DESTROY'', key, grp]"

definition xgroup_setid :: "'s server \<Rightarrow> cstr \<Rightarrow> cstr \<Rightarrow> cstr \<Rightarrow> 's \<Rightarrow> bool \<times> 's" where
  "xgroup_setid srv key grp xid = run_with status_ok srv [lit ''XGROUP'', lit ''SETID'', key, grp, xid]"

definition xgroup_delconsumer :: "'s server \<Rightarrow> cstr \<Rightarrow> cstr \<Rightarrow> cstr \<Rightarrow> 's \<Rightarrow> int \<times> 's" where
  "xgroup_delconsumer srv key grp consumer =
     run_with (fst \<circ> get_number) srv [lit ''XGROUP'', lit ''DELCONSUMER'', key, grp, consumer]"

section \<open>XINFO\<close>

definition xinfo_help :: "'s server \<Rightarrow> byte list list \<Rightarrow> 's \<Rightarrow> (bool \<times> byte list list) \<times> 's" where
  "xinfo_help srv out = run_with (help_result out) srv [lit ''XINFO'', lit ''HELP'']"

text \<open>\<open>string::equal\<close> without regard to case.\<close>

definition eq_name :: "byte list \<Rightarrow> cstr \<Rightarrow> bool" where
  "eq_name name t \<longleftrightarrow> length name = length t \<and> acl_strcasecmp (cstr_of name) t = 0"

text \<open>The loop over names and values that the three share: a value is a string that is not empty, an
  integer that can be read (as a \<open>size_t\<close>), or, for the stream alone, an array. \<open>None\<close>: go on with
  the next pair.\<close>

datatype info_item = InfoString "byte list" | InfoInteger u64 | InfoArray redis_result

definition info_value :: "bool \<Rightarrow> redis_result \<Rightarrow> info_item option" where
  "info_value arrays second =
     (if result_type second = REDIS_RESULT_STRING then
        (if rr_argv_to_string second = [] then None else Some (InfoString (rr_argv_to_string second)))
      else if result_type second = REDIS_RESULT_INTEGER then
        (let (n, ok) = rr_get_integer second in if \<not> ok then None else Some (InfoInteger (word_of_int n)))
      else if arrays \<and> result_type second = REDIS_RESULT_ARRAY then Some (InfoArray second)
      else None)"

fun info_loop :: "bool \<Rightarrow> (byte list \<Rightarrow> info_item \<Rightarrow> 'a \<Rightarrow> 'a) \<Rightarrow> redis_result list \<Rightarrow> 'a \<Rightarrow> 'a" where
  "info_loop arrays upd (first # second # ch) x =
     (if result_type first \<noteq> REDIS_RESULT_STRING then info_loop arrays upd ch x
      else case info_value arrays second of
        None \<Rightarrow> info_loop arrays upd ch x
      | Some v \<Rightarrow> info_loop arrays upd ch (upd (rr_argv_to_string first) v x))"
| "info_loop arrays upd _ x = x"

definition consumer_entry :: "byte list \<Rightarrow> info_item \<Rightarrow> redis_xinfo_consumer \<Rightarrow> redis_xinfo_consumer" where
  "consumer_entry name v c = (case v of
     InfoString t \<Rightarrow> if eq_name name (lit ''name'') then c\<lparr>xc_name := t\<rparr> else c
   | InfoInteger n \<Rightarrow>
       if eq_name name (lit ''pending'') then c\<lparr>xc_pending := n\<rparr>
       else if eq_name name (lit ''idle'') then c\<lparr>xc_idle := n\<rparr> else c
   | InfoArray _ \<Rightarrow> c)"

definition get_one_consumer :: "redis_result \<Rightarrow> redis_xinfo_consumer \<Rightarrow> bool \<times> redis_xinfo_consumer" where
  "get_one_consumer rr c =
     (if result_type rr \<noteq> REDIS_RESULT_ARRAY then (False, c)
      else let ch = rr_children rr in
        if length ch = 0 \<or> length ch mod 2 \<noteq> 0 then (False, c)
        else let c1 = info_loop False consumer_entry ch c in (xc_name c1 \<noteq> [], c1))"

definition add_consumer ::
  "redis_result \<Rightarrow> (byte list \<times> redis_xinfo_consumer) list \<Rightarrow> (byte list \<times> redis_xinfo_consumer) list"
where
  "add_consumer child d =
     (let (ret, c) = get_one_consumer child xinfo_consumer_new in if ret then map_put (xc_name c) c d else d)"

definition xinfo_consumers ::
  "'s server \<Rightarrow> cstr \<Rightarrow> cstr \<Rightarrow> (byte list \<times> redis_xinfo_consumer) list \<Rightarrow> 's \<Rightarrow>
   (bool \<times> (byte list \<times> redis_xinfo_consumer) list) \<times> 's"
where
  "xinfo_consumers srv key grp d =
     run_with (\<lambda>r. if \<not> is_type REDIS_RESULT_ARRAY r then (False, d)
                    else (True, fold add_consumer (rr_children (the r)) d))
       srv [lit ''XINFO'', lit ''CONSUMERS'', key, grp]"

definition group_entry :: "byte list \<Rightarrow> info_item \<Rightarrow> redis_xinfo_group \<Rightarrow> redis_xinfo_group" where
  "group_entry name v g = (case v of
     InfoString t \<Rightarrow>
       if eq_name name (lit ''name'') then g\<lparr>xg_name := t\<rparr>
       else if eq_name name (lit ''last-delivered-id'') then g\<lparr>xg_last_delivered_id := t\<rparr> else g
   | InfoInteger n \<Rightarrow>
       if eq_name name (lit ''consumers'') then g\<lparr>xg_consumers := n\<rparr>
       else if eq_name name (lit ''pending'') then g\<lparr>xg_pending := n\<rparr> else g
   | InfoArray _ \<Rightarrow> g)"

definition get_one_group :: "redis_result \<Rightarrow> redis_xinfo_group \<Rightarrow> bool \<times> redis_xinfo_group" where
  "get_one_group rr g =
     (if result_type rr \<noteq> REDIS_RESULT_ARRAY then (False, g)
      else let ch = rr_children rr in
        if length ch = 0 \<or> length ch mod 2 \<noteq> 0 then (False, g)
        else let g1 = info_loop False group_entry ch g in (xg_name g1 \<noteq> [], g1))"

definition add_group ::
  "redis_result \<Rightarrow> (byte list \<times> redis_xinfo_group) list \<Rightarrow> (byte list \<times> redis_xinfo_group) list"
where
  "add_group child d =
     (let (ret, g) = get_one_group child xinfo_group_new in if ret then map_put (xg_name g) g d else d)"

definition xinfo_groups ::
  "'s server \<Rightarrow> cstr \<Rightarrow> (byte list \<times> redis_xinfo_group) list \<Rightarrow> 's \<Rightarrow>
   (bool \<times> (byte list \<times> redis_xinfo_group) list) \<times> 's"
where
  "xinfo_groups srv key d =
     run_with (\<lambda>r. if \<not> is_type REDIS_RESULT_ARRAY r then (False, d)
                    else (True, fold add_group (rr_children (the r)) d))
       srv [lit ''XINFO'', lit ''GROUPS'', key]"

definition stream_entry :: "byte list \<Rightarrow> info_item \<Rightarrow> redis_stream_info \<Rightarrow> redis_stream_info" where
  "stream_entry name v x = (case v of
     InfoInteger n \<Rightarrow>
       if eq_name name (lit ''length'') then x\<lparr>xs_length := n\<rparr>
       else if eq_name name (lit ''radix-tree-keys'') then x\<lparr>xs_radix_tree_keys := n\<rparr>
       else if eq_name name (lit ''radix-tree-nodes'') then x\<lparr>xs_radix_tree_nodes := n\<rparr>
       else if eq_name name (lit ''groups'') then x\<lparr>xs_groups := n\<rparr> else x
   | InfoString t \<Rightarrow> if eq_name name (lit ''last-generated-id'') then x\<lparr>xs_last_generated_id := t\<rparr> else x
   | InfoArray rr \<Rightarrow>
       if eq_name name (lit ''first-entry'') then x\<lparr>xs_first_entry := snd (get_one_message rr (xs_first_entry x))\<rparr>
       else if eq_name name (lit ''last-entry'') then x\<lparr>xs_last_entry := snd (get_one_message rr (xs_last_entry x))\<rparr>
       else x)"

definition stream_info_result :: "redis_stream_info \<Rightarrow> redis_result option \<Rightarrow> bool \<times> redis_stream_info" where
  "stream_info_result x r =
     (if \<not> is_type REDIS_RESULT_ARRAY r then (False, x)
      else let ch = rr_children (the r) in
        if length ch = 0 then (False, x)
        else if length ch mod 2 \<noteq> 0 then (False, x)
        else (True, info_loop True stream_entry ch x))"

definition xinfo_stream :: "'s server \<Rightarrow> cstr \<Rightarrow> redis_stream_info \<Rightarrow> 's \<Rightarrow> (bool \<times> redis_stream_info) \<times> 's" where
  "xinfo_stream srv key x = run_with (stream_info_result x) srv [lit ''XINFO'', lit ''STREAM'', key]"

section \<open>The replies of the documentation\<close>

type_synonym entry = "byte list \<times> (byte list \<times> byte list) list"

definition resp_pairs :: "(byte list \<times> byte list) list \<Rightarrow> resp list" where
  "resp_pairs ps = concat (map (\<lambda>(n, v). [RBulk n, RBulk v]) ps)"

definition resp_entry :: "entry \<Rightarrow> resp" where
  "resp_entry e = RArray [RBulk (fst e), RArray (resp_pairs (snd e))]"

definition resp_stream :: "byte list \<times> entry list \<Rightarrow> resp" where
  "resp_stream k = RArray [RBulk (fst k), RArray (map resp_entry (snd k))]"

definition entry_fields :: "(byte list \<times> byte list) list \<Rightarrow> redis_stream_field list" where
  "entry_fields ps = map (\<lambda>(n, v). \<lparr>sf_name = n, sf_value = v\<rparr>) ps"

definition entry_message :: "entry \<Rightarrow> redis_stream_message" where
  "entry_message e = \<lparr>sm_id = fst e, sm_fields = entry_fields (snd e)\<rparr>"

lemma argv_pieces [simp]: "rr_argv_to_string (RedisResult ty n av ch) = concat av"
  by (simp add: rr_argv_to_string_def)

lemma resp_pairs_results:
  "map resp_result (resp_pairs ps) = concat (map (\<lambda>(n, v). [resp_result (RBulk n), resp_result (RBulk v)]) ps)"
  by (induction ps) (auto simp: resp_pairs_def)

lemma resp_pairs_length [simp]: "length (resp_pairs ps) = 2 * length ps"
  by (induction ps) (auto simp: resp_pairs_def)

lemma resp_pairs_Nil [simp]: "resp_pairs ps = [] \<longleftrightarrow> ps = []"
  using resp_pairs_length [of ps] by (metis length_0_conv mult_is_0 zero_neq_numeral)

lemma get_one_message_entry:
  "attrs \<noteq> [] \<Longrightarrow> get_one_message (resp_result (resp_entry (i, attrs))) m =
     (True, m\<lparr>sm_id := i, sm_fields := sm_fields m @ entry_fields attrs\<rparr>)"
proof -
  assume "attrs \<noteq> []"
  moreover have "map (\<lambda>(n, v). \<lparr>sf_name = rr_argv_to_string n, sf_value = rr_argv_to_string v\<rparr>)
      (string_pairs (map resp_result (resp_pairs attrs))) = entry_fields attrs"
    unfolding resp_pairs_results string_pairs_bulk by (auto simp: entry_fields_def)
  ultimately show ?thesis
    by (simp add: get_one_message_def resp_entry_def Let_def)
qed

lemma resp_entry_array [simp]: "result_type (resp_result (resp_entry e)) = REDIS_RESULT_ARRAY"
  by (simp add: resp_entry_def)

lemma kept_entry: "snd e \<noteq> [] \<Longrightarrow> kept_message (resp_result (resp_entry e)) = Some (entry_message e)"
  using get_one_message_entry [of "snd e" "fst e"]
  by (simp add: kept_message_def stream_message_new_def entry_message_def entry_fields_def)

lemma map_filter_known: "\<forall>x \<in> set xs. f (g x) = Some (h x) \<Longrightarrow> List.map_filter f (map g xs) = map h xs"
  by (induction xs) (auto simp: List.map_filter_simps)

lemma add_messages_entries:
  "\<forall>e \<in> set es. snd e \<noteq> [] \<Longrightarrow>
   add_messages (map (resp_result \<circ> resp_entry) es) ms = ms\<lparr>sms_messages := sms_messages ms @ map entry_message es\<rparr>"
  by (simp add: add_messages_def map_filter_known [where h = entry_message] kept_entry)

lemma get_messages_stream:
  assumes "es \<noteq> []" "\<forall>e \<in> set es. snd e \<noteq> []"
  shows "get_messages (resp_result (resp_stream (k, es))) ms =
    (True, ms\<lparr>sms_key := k, sms_messages := sms_messages ms @ map entry_message es\<rparr>)"
  using assms(1) add_messages_entries [OF assms(2)]
  by (simp add: get_messages_def resp_stream_def)

lemma get_results_streams:
  assumes "\<forall>k \<in> set ks. snd k \<noteq> [] \<and> (\<forall>e \<in> set (snd k). snd e \<noteq> [])"
  shows "get_results ms (Some (resp_result (RArray (map resp_stream ks)))) =
    (True, ms\<lparr>sms_key := (if ks = [] then sms_key ms else fst (last ks)),
              sms_messages := sms_messages ms @ map entry_message (concat (map snd ks))\<rparr>)"
proof -
  let ?f = "\<lambda>ms child. if result_type child \<noteq> REDIS_RESULT_ARRAY then ms else snd (get_messages child ms)"
  have "foldl ?f ms (map (resp_result \<circ> resp_stream) ks) =
    ms\<lparr>sms_key := (if ks = [] then sms_key ms else fst (last ks)),
       sms_messages := sms_messages ms @ map entry_message (concat (map snd ks))\<rparr>" using assms
  proof (induction ks arbitrary: ms)
    case (Cons k ks)
    have "result_type (resp_result (resp_stream k)) = REDIS_RESULT_ARRAY" by (simp add: resp_stream_def)
    with Cons get_messages_stream [of "snd k" "fst k" ms] show ?case by simp
  qed simp
  then show ?thesis by (simp add: get_results_def is_type_def comp_def)
qed

text \<open>XREAD and XREADGROUP of several streams. What is returned has the messages of all streams of the reply, one
  after the other, under the key of the last one: which stream a message is from is lost.\<close>

theorem xread_messages:
  assumes "fst (run_request srv (xread_build streams cnt block) s) = Some (resp_result (RArray (map resp_stream ks)))"
    and "\<forall>k \<in> set ks. snd k \<noteq> [] \<and> (\<forall>e \<in> set (snd k). snd e \<noteq> [])"
  shows "fst (xread srv ms streams cnt block s) =
    (True, \<lparr>sms_key = (if ks = [] then sms_key ms else fst (last ks)),
            sms_messages = sms_messages ms @ map entry_message (concat (map snd ks))\<rparr>)"
  using assms(1) get_results_streams [OF assms(2), of ms] by (simp add: xread_def run_with_def)

theorem xread_messages_witness:
  "fst (xread (\<lambda>req (n :: nat). (Some (resp_result (RArray (map resp_stream
       [(lit ''a'', [(lit ''1'', [(lit ''f'', lit ''v'')])]), (lit ''b'', [(lit ''2'', [(lit ''g'', lit ''w'')])])]))), n))
     \<lparr>sms_key = [], sms_messages = []\<rparr> [(lit ''a'', lit ''0''), (lit ''b'', lit ''0'')] 0 0 0) =
   (True, \<lparr>sms_key = lit ''b'', sms_messages =
     [\<lparr>sm_id = lit ''1'', sm_fields = [\<lparr>sf_name = lit ''f'', sf_value = lit ''v''\<rparr>]\<rparr>,
      \<lparr>sm_id = lit ''2'', sm_fields = [\<lparr>sf_name = lit ''g'', sf_value = lit ''w''\<rparr>]\<rparr>]\<rparr>)"
  by (subst xread_messages [where ks = "[(lit ''a'', [(lit ''1'', [(lit ''f'', lit ''v'')])]), (lit ''b'', [(lit ''2'', [(lit ''g'', lit ''w'')])])]"])
    (simp_all add: run_request_def entry_message_def entry_fields_def)

section \<open>How XREAD is laid out\<close>

text \<open>The documented form has all keys first and then all ids.\<close>

definition xread_documented :: "(byte list \<times> byte list) list \<Rightarrow> nat \<Rightarrow> nat \<Rightarrow> byte list list" where
  "xread_documented streams cnt block =
     [lit ''XREAD''] @ read_options cnt block False @ [lit ''STREAMS''] @ map fst streams @ map snd streams"

lemma flatten_pairs_simps [simp]:
  "flatten_pairs f g [] = []" "flatten_pairs f g ((a, b) # ps) = f a # g b # flatten_pairs f g ps"
  by (simp_all add: flatten_pairs_def)

text \<open>for one stream the request is as documented; for several streams, none of whose ids is
  one of the keys, it never is.\<close>

theorem xread_layout:
  assumes "set (map fst streams) \<inter> set (map snd streams) = {}"
  shows "xread_build streams cnt block = xread_documented streams cnt block \<longleftrightarrow> length streams \<le> 1"
proof -
  have "flatten_pairs id id streams = map fst streams @ map snd streams \<longleftrightarrow> length streams \<le> 1"
  proof (cases streams)
    case (Cons p ps)
    obtain k i where p: "p = (k, i)" by fastforce
    show ?thesis
    proof (cases ps)
      case (Cons q qs)
      with assms \<open>streams = p # ps\<close> show ?thesis by (auto simp: p)
    qed (simp add: \<open>streams = p # ps\<close> p)
  qed simp
  then show ?thesis by (simp add: xread_build_def stream_read_build_def xread_documented_def)
qed

theorem xread_layout_witness:
  "xread_build [(lit ''a'', lit ''0''), (lit ''b'', lit ''1'')] 0 0 \<noteq>
   xread_documented [(lit ''a'', lit ''0''), (lit ''b'', lit ''1'')] 0 0"
  using xread_layout [of "[(lit ''a'', lit ''0''), (lit ''b'', lit ''1'')]" 0 0] by (simp add: lit_def)

section \<open>XCLAIM\<close>

text \<open>The option is one more id for the server.\<close>

theorem xclaim_idle_is_id:
  "0 < idle \<Longrightarrow> xclaim_build key grp consumer mi ids idle t r f j =
   xclaim_build key grp consumer mi (ids @ [lu21 idle]) 0 0 r f j"
  by (simp add: xclaim_build_def)

theorem xclaim_idle_is_id_witness:
  "xclaim_build (lit ''k'') (lit ''g'') (lit ''c'') 0 [lit ''1''] 5 (-1) (-1) False False =
   xclaim_build (lit ''k'') (lit ''g'') (lit ''c'') 0 ([lit ''1''] @ [lu21 5]) 0 0 (-1) False False"
  by (rule xclaim_idle_is_id) simp

theorem xclaim_with_justid_nothing:
  assumes "fst (run_request srv (xclaim_build key grp consumer mi ids idle t r f False) s) =
      Some (resp_result (RArray (map resp_entry es)))"
  shows "fst (xclaim_with_justid srv out key grp consumer mi ids idle t r f s) = (True, out)"
proof -
  have "List.map_filter claimed_id (map (resp_result \<circ> resp_entry) es) = []"
    by (induction es) (auto simp: List.map_filter_simps claimed_id_def)
  with assms show ?thesis by (simp add: xclaim_with_justid_def run_with_def is_type_def comp_def)
qed

theorem xclaim_with_justid_nothing_witness:
  "fst (xclaim_with_justid (\<lambda>req (n :: nat). (Some (resp_result (RArray (map resp_entry [(lit ''1'', [(lit ''f'', lit ''v'')])]))), n))
     [] (lit ''k'') (lit ''g'') (lit ''c'') 0 [lit ''1''] 0 (-1) (-1) False 0) = (True, [])"
  by (rule xclaim_with_justid_nothing [where es = "[(lit ''1'', [(lit ''f'', lit ''v'')])]"]) (simp add: run_request_def)

section \<open>XACK with a list\<close>

lemma argv_cells_max: "argv_cells had n = replicate (max had n) None"
  by (auto simp: argv_cells_def max_def)

text \<open>XACK with a list of ids and its length as given by the caller. Nothing is written behind the cells exactly
  when there is room for the whole list, and then the request and the result are those of the vector of the same ids.\<close>

theorem xack_list_room:
  assumes "ids \<noteq> []" "0 < n"
  shows "fst (xack_list srv had key grp ids n s) =
    (if 3 + length ids \<le> max had (3 + n) then Sent (fst (xack srv key grp ids s)) else Overrun)"
proof (cases "3 + length ids \<le> max had (3 + n)")
  case True
  let ?xs = "[lit ''XACK'', key, grp] @ ids"
  obtain k where k: "max had (3 + n) = length ?xs + k" using le_Suc_ex [OF True] by auto
  have "argv_cells had (3 + n) = replicate (length ?xs + k) None" unfolding argv_cells_max k ..
  with put_cells_fresh [of "[]" ?xs k] have "put_cells 1 0 ?xs (argv_cells had (3 + n)) =
      Some (length ?xs, map Some ?xs @ replicate k None)" by simp
  moreover have "take (length ?xs) (map Some ?xs @ replicate k None) = map Some ?xs" by simp
  ultimately show ?thesis using True assms
    by (simp add: xack_list_def xack_def send_first_def send_cells_def comp_def del: put_cells.simps)
next
  case False
  then have "put_cells (Suc 0) 0 ([lit ''XACK'', key, grp] @ ids) (argv_cells had (3 + n)) = None"
    unfolding put_cells_None_iff by (auto simp: argv_cells_def)
  with False assms show ?thesis by (simp add: xack_list_def send_first_def send_cells_def del: put_cells.simps)
qed

theorem xack_list_room_witness:
  "fst (xack_list (\<lambda>req (n :: nat). (Some (resp_result (RInteger (lit ''2''))), n)) 0 (lit ''k'') (lit ''g'')
     [lit ''1'', lit ''2''] 1 0) = Overrun"
  using xack_list_room [of "[lit ''1'', lit ''2'']" 1 "\<lambda>req (n :: nat). (Some (resp_result (RInteger (lit ''2''))), n)" 0 "lit ''k''" "lit ''g''" 0]
  by simp

section \<open>XDEL\<close>

theorem xdel_slot_of_id:
  "xdel_slot (Some 16384) (-1) [lit ''1-1''] \<noteq> hash_slot (Some 16384) (-1) (lit ''k'')"
  by code_simp

section \<open>XPENDING\<close>

lemma atoi64_dec: "n < 2 ^ 63 \<Longrightarrow> acl_atoi64 (dec_of_nat n) = int n"
proof -
  assume n: "n < 2 ^ 63"
  then have "c_strtoull (dec_of_nat n) = of_nat n" by (simp add: c_strtoull_def Let_def)
  with n show ?thesis by (simp add: acl_atoi64_def sint_uint unsigned_of_nat take_bit_nat_eq_self signed_take_bit_int_eq_self_iff)
qed

lemma atoi_dec: "n < 2 ^ 63 \<Longrightarrow> c_atoi (dec_of_nat n) = signed_take_bit 31 (int n)"
  by (simp add: c_atoi_def c_strtol_nat)

definition resp_pending :: "byte list \<Rightarrow> byte list \<Rightarrow> nat \<Rightarrow> nat \<Rightarrow> resp" where
  "resp_pending i consumer elapsed delivered =
     RArray [RBulk i, RBulk consumer, RInteger (dec_of_nat elapsed), RInteger (dec_of_nat delivered)]"

lemma get_pending_message_reply:
  assumes "elapsed < 2 ^ 63"
  shows "get_pending_message (resp_result (resp_pending i consumer elapsed delivered)) m =
    (let m1 = m\<lparr>pm_id := i, pm_consumer := consumer, pm_elapsed := of_nat elapsed\<rparr>;
         d = signed_take_bit 31 (int elapsed)
     in if d < 0 then (False, m1) else (True, m1\<lparr>pm_delivered := word_of_int d\<rparr>))"
  using assms
  by (simp add: get_pending_message_def resp_pending_def rr_get_integer64_def rr_get_integer_def rr_get_def
      cstr_of_dec atoi64_dec atoi_dec Let_def)

text \<open>XPENDING in detail. A message is given the number of milliseconds since its last delivery as the number of its
  deliveries, whatever that number is in the reply; and when bit 31 of the milliseconds is set, it is left out.\<close>

theorem pending_delivered_is_elapsed:
  assumes "fst (run_request srv [lit ''XPENDING'', key, grp, [45], [43], lu21 cnt] s) =
      Some (resp_result (RArray [resp_pending i consumer elapsed delivered]))"
    and "elapsed < 2 ^ 63"
  shows "fst (xpending_detail srv [] key grp (Some [45]) (Some [43]) cnt None s) =
    (True, if signed_take_bit 31 (int elapsed) < 0 then []
           else [(i, \<lparr>pm_id = i, pm_consumer = consumer, pm_elapsed = of_nat elapsed,
                      pm_delivered = word_of_int (signed_take_bit 31 (int elapsed))\<rparr>)])"
proof -
  have "detail_result [] (Some (resp_result (RArray [resp_pending i consumer elapsed delivered]))) =
    (True, if signed_take_bit 31 (int elapsed) < 0 then []
           else [(i, \<lparr>pm_id = i, pm_consumer = consumer, pm_elapsed = of_nat elapsed,
                      pm_delivered = word_of_int (signed_take_bit 31 (int elapsed))\<rparr>)])"
    using get_pending_message_reply [OF assms(2), of i consumer delivered pending_message_new]
    by (auto simp: detail_result_def is_type_def add_pending_def Let_def pending_message_new_def)
  with assms(1) show ?thesis by (simp add: xpending_detail_def run_with_def)
qed

theorem pending_delivered_is_elapsed_witness:
  "fst (xpending_detail (\<lambda>req (n :: nat). (Some (resp_result (RArray [resp_pending (lit ''1'') (lit ''c'') 7 1])), n)) []
     (lit ''k'') (lit ''g'') (Some [45]) (Some [43]) 9 None 0) =
   (True, [(lit ''1'', \<lparr>pm_id = lit ''1'', pm_consumer = lit ''c'', pm_elapsed = 7, pm_delivered = 7\<rparr>)])"
  by (subst pending_delivered_is_elapsed [where i = "lit ''1''" and consumer = "lit ''c''" and elapsed = 7 and delivered = 1])
    (simp_all add: run_request_def)

section \<open>XINFO\<close>

lemma info_loop_pairs:
  "info_loop arrays upd (n # v # ch) x =
    (if result_type n \<noteq> REDIS_RESULT_STRING then info_loop arrays upd ch x
     else info_loop arrays upd ch
       (case info_value arrays v of None \<Rightarrow> x | Some w \<Rightarrow> upd (rr_argv_to_string n) w x))"
  by (simp split: option.split)

lemma info_value_bulk: "info_value arrays (resp_result (RBulk b)) = (if b = [] then None else Some (InfoString b))"
  by (simp add: info_value_def)

lemma info_value_number:
  "n < 2 ^ 31 \<Longrightarrow> info_value arrays (resp_result (RInteger (dec_of_nat n))) = Some (InfoInteger (of_nat n))"
  by (simp add: info_value_def rr_get_integer_def rr_get_def cstr_of_dec)

definition resp_group :: "byte list \<Rightarrow> nat \<Rightarrow> nat \<Rightarrow> byte list \<Rightarrow> resp" where
  "resp_group name consumers waiting xid = RArray
     [RBulk (lit ''name''), RBulk name, RBulk (lit ''consumers''), RInteger (dec_of_nat consumers),
      RBulk (lit ''pending''), RInteger (dec_of_nat waiting), RBulk (lit ''last-delivered-id''), RBulk xid]"

lemma eq_names:
  "eq_name (lit ''name'') (lit ''name'')" "\<not> eq_name (lit ''last-delivered-id'') (lit ''name'')"
  "eq_name (lit ''last-delivered-id'') (lit ''last-delivered-id'')"
  "eq_name (lit ''consumers'') (lit ''consumers'')" "\<not> eq_name (lit ''pending'') (lit ''consumers'')"
  "eq_name (lit ''pending'') (lit ''pending'')"
proof -
  have same: "c_string t \<Longrightarrow> eq_name t t" for t :: cstr
    by (simp add: eq_name_def acl_strcasecmp_zero)
  show "eq_name (lit ''name'') (lit ''name'')" "eq_name (lit ''last-delivered-id'') (lit ''last-delivered-id'')"
    "eq_name (lit ''consumers'') (lit ''consumers'')" "eq_name (lit ''pending'') (lit ''pending'')"
    by (rule same, simp add: c_string_def lit_def)+
  show "\<not> eq_name (lit ''last-delivered-id'') (lit ''name'')" "\<not> eq_name (lit ''pending'') (lit ''consumers'')"
    by (simp_all add: eq_name_def lit_def)
qed

lemma get_one_group_reply:
  assumes "name \<noteq> []" "consumers < 2 ^ 31" "waiting < 2 ^ 31" "xid \<noteq> []"
  shows "get_one_group (resp_result (resp_group name consumers waiting xid)) xinfo_group_new =
    (True, \<lparr>xg_name = name, xg_last_delivered_id = xid, xg_consumers = of_nat consumers, xg_pending = of_nat waiting\<rparr>)"
proof -
  have "info_loop False group_entry (map resp_result
      [RBulk (lit ''name''), RBulk name, RBulk (lit ''consumers''), RInteger (dec_of_nat consumers),
       RBulk (lit ''pending''), RInteger (dec_of_nat waiting), RBulk (lit ''last-delivered-id''), RBulk xid]) xinfo_group_new =
    \<lparr>xg_name = name, xg_last_delivered_id = xid, xg_consumers = of_nat consumers, xg_pending = of_nat waiting\<rparr>"
    unfolding list.map info_loop_pairs info_value_bulk info_value_number [OF assms(2)] info_value_number [OF assms(3)]
    using assms(1,4) by (simp add: group_entry_def eq_names xinfo_group_new_def)
  with assms(1) show ?thesis by (simp add: get_one_group_def resp_group_def Let_def)
qed

text \<open>XINFO GROUPS. Every group of the reply is in the map under its name with its numbers and its last id.\<close>

theorem xinfo_groups_read:
  assumes "fst (run_request srv [lit ''XINFO'', lit ''GROUPS'', key] s) =
      Some (resp_result (RArray (map (\<lambda>(n, c, p, i). resp_group n c p i) gs)))"
    and "\<forall>(n, c, p, i) \<in> set gs. n \<noteq> [] \<and> i \<noteq> [] \<and> c < 2 ^ 31 \<and> p < 2 ^ 31"
  shows "fst (fst (xinfo_groups srv key d s)) \<and>
    map_of (snd (fst (xinfo_groups srv key d s))) = map_of d ++ map_of (rev (map
      (\<lambda>(n, c, p, i). (n, \<lparr>xg_name = n, xg_last_delivered_id = i, xg_consumers = of_nat c, xg_pending = of_nat p\<rparr>)) gs))"
proof -
  have "map_of (fold add_group (map (resp_result \<circ> (\<lambda>(n, c, p, i). resp_group n c p i)) gs) d) = map_of d ++ map_of (rev (map
      (\<lambda>(n, c, p, i). (n, \<lparr>xg_name = n, xg_last_delivered_id = i, xg_consumers = of_nat c, xg_pending = of_nat p\<rparr>)) gs))"
    using assms(2)
  proof (induction gs arbitrary: d)
    case (Cons g gs)
    obtain n c p i where g: "g = (n, c, p, i)" by (cases g) auto
    from Cons.prems have "add_group (resp_result (resp_group n c p i)) d = map_put n
      \<lparr>xg_name = n, xg_last_delivered_id = i, xg_consumers = of_nat c, xg_pending = of_nat p\<rparr> d"
      by (simp add: g add_group_def get_one_group_reply)
    with Cons show ?case by (simp add: g map_put_of)
  qed simp
  with assms(1) show ?thesis by (simp add: xinfo_groups_def run_with_def is_type_def comp_def)
qed

theorem xinfo_groups_read_witness:
  "map_of (snd (fst (xinfo_groups (\<lambda>req (n :: nat). (Some (resp_result (RArray [resp_group (lit ''g'') 1 2 (lit ''5-0'')])), n))
     (lit ''k'') [] 0))) (lit ''g'') =
   Some \<lparr>xg_name = lit ''g'', xg_last_delivered_id = lit ''5-0'', xg_consumers = 1, xg_pending = 2\<rparr>"
  using xinfo_groups_read [of "\<lambda>req (n :: nat). (Some (resp_result (RArray [resp_group (lit ''g'') 1 2 (lit ''5-0'')])), n)" "lit ''k''" 0
    "[(lit ''g'', 1, 2, lit ''5-0'')]" "[]"]
  by (simp add: run_request_def lit_def)

section \<open>Streams on a server\<close>

text \<open>XADD as it is documented, with a new id. \<open>view s key\<close> is the stream at the key: ids with names and values. The promises
  are those of the documentation of XADD, XRANGE of everything and XLEN.\<close>

definition xadd_request :: "cstr \<Rightarrow> (byte list \<times> byte list) list \<Rightarrow> byte list list" where
  "xadd_request key attrs = lit ''XADD'' # key # lit ''*'' # concat (map (\<lambda>(n, v). [n, v]) attrs)"

definition stream_server :: "'s server \<Rightarrow> ('s \<Rightarrow> byte list \<Rightarrow> entry list) \<Rightarrow> bool" where
  "stream_server srv view \<longleftrightarrow> (\<forall>s key. length key < 2 ^ 31 \<longrightarrow>
     (\<forall>attrs. attrs \<noteq> [] \<and> small_args (xadd_request key attrs) \<longrightarrow>
        (\<exists>i. fst (run_request srv (xadd_request key attrs) s) = Some (resp_result (RBulk i)) \<and>
             view (snd (run_request srv (xadd_request key attrs) s)) =
               (view s)(key := view s key @ [(i, attrs)]))) \<and>
     fst (run_request srv [lit ''XRANGE'', key, lit ''-'', lit ''+''] s) =
       Some (resp_result (RArray (map resp_entry (view s key)))) \<and>
     view (snd (run_request srv [lit ''XRANGE'', key, lit ''-'', lit ''+''] s)) = view s \<and>
     (length (view s key) < 2 ^ 31 \<longrightarrow>
        fst (run_request srv [lit ''XLEN'', key] s) = Some (resp_result (RInteger (dec_of_nat (length (view s key)))))))"

lemma xrange_server:
  assumes "stream_server srv view" "length key < 2 ^ 31" "\<forall>e \<in> set (view s key). snd e \<noteq> []"
  shows "fst (xrange srv ms key (lit ''-'') (lit ''+'') 0 s) =
    (True, \<lparr>sms_key = key, sms_messages = sms_messages ms @ map entry_message (view s key)\<rparr>)"
  using assms(1,2) add_messages_entries [OF assms(3)]
  by (simp add: stream_server_def xrange_def stream_range_def run_with_def range_result_def is_type_def comp_def)

lemma xadd_layout: "stream_build (lit ''XADD'') key (lit ''*'') attrs = xadd_request key attrs"
  by (simp add: stream_build_def xadd_request_def flatten_pairs_def)

lemma xadd_server:
  assumes "stream_server srv view" "attrs \<noteq> []" "small_args (xadd_request key attrs)"
  obtains i where "fst (xadd srv key attrs (Some (lit ''*'')) s) = (True, Some i)"
    "view (snd (xadd srv key attrs (Some (lit ''*'')) s)) = (view s)(key := view s key @ [(i, attrs)])"
proof -
  have "length key < 2 ^ 31" using assms(3) by (simp add: small_args_def xadd_request_def)
  with assms obtain i where "fst (run_request srv (xadd_request key attrs) s) = Some (resp_result (RBulk i))"
    "view (snd (run_request srv (xadd_request key attrs) s)) = (view s)(key := view s key @ [(i, attrs)])"
    unfolding stream_server_def by metis
  moreover have "lit ''*'' \<noteq> []" by (simp add: lit_def)
  ultimately show ?thesis
    using assms(2) string_reply [of i]
    by (intro that [of i]) (simp_all add: xadd_def run_with_def got_string_def xadd_layout)
qed

text \<open>C19: a round trip through the server. What XADD has written, XRANGE returns behind the messages the stream had, with
  the id that XADD gave, its names and its values, whatever bytes they hold; and XLEN counts it.\<close>

theorem xadd_then_xrange:
  assumes "stream_server srv view" "attrs \<noteq> []" "small_args (xadd_request key attrs)"
    and "\<forall>e \<in> set (view s key). snd e \<noteq> []" "length (view s key) < 2 ^ 31 - 1"
  shows "\<exists>i s'. xadd srv key attrs (Some (lit ''*'')) s = ((True, Some i), s') \<and>
    fst (xrange srv ms key (lit ''-'') (lit ''+'') 0 s') =
      (True, \<lparr>sms_key = key, sms_messages = sms_messages ms @ map entry_message (view s key @ [(i, attrs)])\<rparr>) \<and>
    fst (xlen srv key s') = int (length (view s key)) + 1"
proof -
  have key: "length key < 2 ^ 31" using assms(3) by (simp add: small_args_def xadd_request_def)
  obtain i s' where i: "xadd srv key attrs (Some (lit ''*'')) s = ((True, Some i), s')"
    "view s' = (view s)(key := view s key @ [(i, attrs)])"
    using xadd_server [OF assms(1-3)] by (metis prod.collapse)
  have len: "length (view s' key) < 2 ^ 31" using assms(5) by (simp add: i(2))
  have "fst (xlen srv key s') = int (length (view s' key))"
    using assms(1) key len number_reply [OF len] by (simp add: stream_server_def xlen_def run_with_def)
  with i xrange_server [OF assms(1) key, of s' ms] assms(2,4) show ?thesis by simp
qed

fun stream_answer :: "byte list list \<Rightarrow> (byte list \<Rightarrow> entry list) \<Rightarrow> resp \<times> (byte list \<Rightarrow> entry list)" where
  "stream_answer (cmd # key # args) s =
     (if cmd = lit ''XADD'' then
        (let i = dec_of_nat (length (s key)) in (RBulk i, s(key := s key @ [(i, unflatten (tl args))])))
      else if cmd = lit ''XRANGE'' then (RArray (map resp_entry (s key)), s)
      else if cmd = lit ''XLEN'' then (RInteger (dec_of_nat (length (s key))), s)
      else (RError (lit ''ERR''), s))"
| "stream_answer _ s = (RError (lit ''ERR''), s)"

definition stream_demo :: "(byte list \<Rightarrow> entry list) server" where
  "stream_demo bytes s =
     (case read_args bytes of
        None \<Rightarrow> (None, s)
      | Some argv \<Rightarrow> map_prod (Some \<circ> resp_result) id (stream_answer argv s))"

lemma stream_demo_run:
  "small_args argv \<Longrightarrow> run_request stream_demo argv s = map_prod (Some \<circ> resp_result) id (stream_answer argv s)"
  by (simp add: run_request_def stream_demo_def read_args_request)

lemma unflatten_request: "unflatten (concat (map (\<lambda>(n, v). [n, v]) attrs)) = attrs"
  using unflatten_flatten [of attrs] by (simp add: flatten_pairs_def)

lemma stream_demo_server: "stream_server stream_demo id"
proof -
  have lits: "lit ''XRANGE'' \<noteq> lit ''XADD''" "lit ''XLEN'' \<noteq> lit ''XADD''" "lit ''XLEN'' \<noteq> lit ''XRANGE''"
    by (simp_all add: lit_def)
  have small: "length key < 2 ^ 31 \<Longrightarrow> small_args [lit ''XRANGE'', key, lit ''-'', lit ''+'']"
    "length key < 2 ^ 31 \<Longrightarrow> small_args [lit ''XLEN'', key]" for key
    by (simp_all add: small_args_def lit_def)
  have "small_args (xadd_request key attrs) \<Longrightarrow>
      run_request stream_demo (xadd_request key attrs) s =
        (Some (resp_result (RBulk (dec_of_nat (length (s key))))),
         s(key := s key @ [(dec_of_nat (length (s key)), attrs)]))" for s key attrs
    by (simp add: stream_demo_run) (simp add: xadd_request_def unflatten_request Let_def)
  with small show ?thesis
    unfolding stream_server_def by (simp add: stream_demo_run lits)
qed

theorem xadd_then_xrange_witness:
  "let s' = snd (xadd stream_demo (lit ''k'') [(lit ''f'', [0, 13])] (Some (lit ''*'')) (\<lambda>_. []))
   in fst (xlen stream_demo (lit ''k'') s') = 1"
  using xadd_then_xrange [OF stream_demo_server, of "[(lit ''f'', [0, 13])]" "lit ''k''" "\<lambda>_. []" "\<lparr>sms_key = [], sms_messages = []\<rparr>"]
  by (auto simp: small_args_def xadd_request_def lit_def)

end
