(* ===== verification/Redis_Pubsub.thy ===== *)
theory Redis_Pubsub
  imports Redis_Stream
begin

text \<open>
  \<^verbatim>\<open>aclredis/src/redis/redis_pubsub.cpp\<close>, \<^verbatim>\<open>redis_transaction.cpp\<close> and \<^verbatim>\<open>redis_hyperloglog.cpp\<close>, in the
  manner of \<open>Redis_List\<close>. A command that reads a reply without sending a request calls the server
  with the empty request. Reading the confirmations of a subscription is a loop that skips messages
  for as long as they come, so it is a partial function: \<open>None\<close> is a call that does not return.

  Shown: what a subscription returns and what it takes from the connection (all messages that come
  between the confirmations are lost), that it waits forever where only messages come, that a
  message is delivered as it was published, and when a transaction on a server as documented succeeds,
  with every command paired with its result.
\<close>

section \<open>Subscribing\<close>

definition publish :: "'s server \<Rightarrow> cstr \<Rightarrow> byte list \<Rightarrow> 's \<Rightarrow> int \<times> 's" where
  "publish srv channel msg = run_with (fst \<circ> get_number) srv [lit ''PUBLISH'', channel, msg]"

definition check_channel :: "redis_result \<Rightarrow> cstr \<Rightarrow> cstr \<Rightarrow> int" where
  "check_channel obj cmd channel =
     (if result_type obj \<noteq> REDIS_RESULT_ARRAY then -1
      else case rr_get_child obj 0 of
        None \<Rightarrow> -1
      | Some rr \<Rightarrow>
          if result_type rr \<noteq> REDIS_RESULT_STRING then -1
          else if \<not> c_strcasecmp_eq (cstr_of (rr_argv_to_string rr)) cmd then -1
          else case rr_get_child obj 1 of
            None \<Rightarrow> -1
          | Some rr \<Rightarrow>
              if result_type rr \<noteq> REDIS_RESULT_STRING then -1
              else if \<not> c_strcasecmp_eq (cstr_of (rr_argv_to_string rr)) channel then -1
              else case rr_get_child obj 2 of
                None \<Rightarrow> -1
              | Some rr \<Rightarrow> if result_type rr \<noteq> REDIS_RESULT_INTEGER then -1 else fst (rr_get_integer rr))"

text \<open>One round of \<open>subop_result\<close>. \<open>OutOfRange\<close>: \<open>channels[i]\<close> of an empty vector.\<close>

datatype sub_step = Return int | OutOfRange | Next nat int

definition is_message :: "byte list \<Rightarrow> bool" where
  "is_message t \<longleftrightarrow> eq_name t (lit ''message'') \<or> eq_name t (lit ''pmessage'')"

definition subop_step :: "cstr \<Rightarrow> cstr list \<Rightarrow> nat \<Rightarrow> int \<Rightarrow> redis_result option \<Rightarrow> sub_step" where
  "subop_step cmd channels i nchannels res =
     (if \<not> is_type REDIS_RESULT_ARRAY res then Return (-1)
      else case rr_get_child (the res) 0 of
        None \<Rightarrow> Return (-1)
      | Some obj \<Rightarrow>
          if result_type obj \<noteq> REDIS_RESULT_STRING then Return (-1)
          else if is_message (rr_argv_to_string obj) then Next i nchannels
          else if i \<ge> length channels then OutOfRange
          else (let ret = check_channel (the res) cmd (channels ! i) in
            if ret < 0 then Return (-1)
            else Next (i + 1) (if ret > nchannels then ret else nchannels)))"

datatype sub_result = SubCount int | SubOutOfRange

text \<open>The \<open>continue\<close> of a message goes to the test of the loop too. After the first round the
  request is empty.\<close>

partial_function (option) subop_loop ::
  "'s server \<Rightarrow> cstr \<Rightarrow> cstr list \<Rightarrow> byte list \<Rightarrow> nat \<Rightarrow> int \<Rightarrow> 's \<Rightarrow> (sub_result \<times> 's) option"
where
  "subop_loop srv cmd channels req i nchannels s =
     (case subop_step cmd channels i nchannels (fst (srv req s)) of
        Return n \<Rightarrow> Some (SubCount n, snd (srv req s))
      | OutOfRange \<Rightarrow> Some (SubOutOfRange, snd (srv req s))
      | Next j n \<Rightarrow>
          if j < length channels then subop_loop srv cmd channels [] j n (snd (srv req s))
          else Some (SubCount n, snd (srv req s)))"

definition subop_result ::
  "'s server \<Rightarrow> cstr \<Rightarrow> cstr list \<Rightarrow> byte list \<Rightarrow> 's \<Rightarrow> (sub_result \<times> 's) option"
where
  "subop_result srv cmd channels req s = subop_loop srv cmd channels req 0 0 s"

definition subop :: "'s server \<Rightarrow> cstr \<Rightarrow> cstr list \<Rightarrow> 's \<Rightarrow> (sub_result \<times> 's) option" where
  "subop srv cmd channels s = subop_result srv cmd channels (build_request1 (cmd # channels)) s"

text \<open>With strings the whole strings are sent and compared as C strings.\<close>

definition subop_strings :: "'s server \<Rightarrow> cstr \<Rightarrow> byte list list \<Rightarrow> 's \<Rightarrow> (sub_result \<times> 's) option" where
  "subop_strings srv cmd channels s =
     subop_result srv cmd (map cstr_of channels) (build_request1 (cmd # channels)) s"

definition subscribe :: "'s server \<Rightarrow> cstr list \<Rightarrow> 's \<Rightarrow> (sub_result \<times> 's) option" where
  "subscribe srv channels = subop srv (lit ''SUBSCRIBE'') channels"

definition subscribe_strings :: "'s server \<Rightarrow> byte list list \<Rightarrow> 's \<Rightarrow> (sub_result \<times> 's) option" where
  "subscribe_strings srv channels = subop_strings srv (lit ''SUBSCRIBE'') channels"

definition unsubscribe :: "'s server \<Rightarrow> cstr list \<Rightarrow> 's \<Rightarrow> (sub_result \<times> 's) option" where
  "unsubscribe srv channels = subop srv (lit ''UNSUBSCRIBE'') channels"

definition unsubscribe_strings :: "'s server \<Rightarrow> byte list list \<Rightarrow> 's \<Rightarrow> (sub_result \<times> 's) option" where
  "unsubscribe_strings srv channels = subop_strings srv (lit ''UNSUBSCRIBE'') channels"

definition psubscribe :: "'s server \<Rightarrow> cstr list \<Rightarrow> 's \<Rightarrow> (sub_result \<times> 's) option" where
  "psubscribe srv patterns = subop srv (lit ''PSUBSCRIBE'') patterns"

definition psubscribe_strings :: "'s server \<Rightarrow> byte list list \<Rightarrow> 's \<Rightarrow> (sub_result \<times> 's) option" where
  "psubscribe_strings srv patterns = subop_strings srv (lit ''PSUBSCRIBE'') patterns"

definition punsubscribe :: "'s server \<Rightarrow> cstr list \<Rightarrow> 's \<Rightarrow> (sub_result \<times> 's) option" where
  "punsubscribe srv patterns = subop srv (lit ''PUNSUBSCRIBE'') patterns"

definition punsubscribe_strings :: "'s server \<Rightarrow> byte list list \<Rightarrow> 's \<Rightarrow> (sub_result \<times> 's) option" where
  "punsubscribe_strings srv patterns = subop_strings srv (lit ''PUNSUBSCRIBE'') patterns"

text \<open>The variants with a list of arguments that NULL ends; the first one is not looked at.\<close>

definition subscribe_va :: "'s server \<Rightarrow> cstr \<Rightarrow> cstr list \<Rightarrow> 's \<Rightarrow> (sub_result \<times> 's) option" where
  "subscribe_va srv first rest = subscribe srv (first # rest)"

definition unsubscribe_va :: "'s server \<Rightarrow> cstr \<Rightarrow> cstr list \<Rightarrow> 's \<Rightarrow> (sub_result \<times> 's) option" where
  "unsubscribe_va srv first rest = unsubscribe srv (first # rest)"

definition psubscribe_va :: "'s server \<Rightarrow> cstr \<Rightarrow> cstr list \<Rightarrow> 's \<Rightarrow> (sub_result \<times> 's) option" where
  "psubscribe_va srv first rest = psubscribe srv (first # rest)"

definition punsubscribe_va :: "'s server \<Rightarrow> cstr \<Rightarrow> cstr list \<Rightarrow> 's \<Rightarrow> (sub_result \<times> 's) option" where
  "punsubscribe_va srv first rest = punsubscribe srv (first # rest)"

section \<open>Messages\<close>

text \<open>The strings that \<open>get_message\<close> fills; \<open>None\<close> is a NULL pointer.\<close>

record message_out =
  mo_channel :: "byte list"
  mo_msg :: "byte list"
  mo_type :: "byte list option"
  mo_pattern :: "byte list option"

definition string_child :: "redis_result \<Rightarrow> nat \<Rightarrow> byte list option" where
  "string_child rr i = (case rr_get_child rr i of
     None \<Rightarrow> None
   | Some obj \<Rightarrow> if result_type obj \<noteq> REDIS_RESULT_STRING then None else Some (rr_argv_to_string obj))"

definition fill_message :: "redis_result \<Rightarrow> nat \<Rightarrow> message_out \<Rightarrow> bool \<times> message_out" where
  "fill_message rr i out = (case string_child rr i of
     None \<Rightarrow> (False, out)
   | Some channel \<Rightarrow> (let out = out\<lparr>mo_channel := channel\<rparr> in
       case string_child rr (i + 1) of
         None \<Rightarrow> (False, out)
       | Some msg \<Rightarrow> (True, out\<lparr>mo_msg := msg\<rparr>)))"

definition message_result :: "message_out \<Rightarrow> redis_result option \<Rightarrow> bool \<times> message_out" where
  "message_result out r =
     (if \<not> is_type REDIS_RESULT_ARRAY r then (False, out)
      else let rr = the r in
        if rr_get_size rr < 3 then (False, out)
        else case string_child rr 0 of
          None \<Rightarrow> (False, out)
        | Some tmp \<Rightarrow> (let out = out\<lparr>mo_type := map_option (\<lambda>_. tmp) (mo_type out)\<rparr> in
            if tmp = lit ''message'' then
              fill_message rr 1 (out\<lparr>mo_pattern := map_option (\<lambda>_. []) (mo_pattern out)\<rparr>)
            else if \<not> eq_name tmp (lit ''pmessage'') then (False, out)
            else if rr_get_size rr < 4 then (False, out)
            else case mo_pattern out of
              None \<Rightarrow> fill_message rr 2 out
            | Some _ \<Rightarrow> (case string_child rr 1 of
                None \<Rightarrow> (False, out)
              | Some p \<Rightarrow> fill_message rr 2 (out\<lparr>mo_pattern := Some p\<rparr>))))"

definition get_message :: "'s server \<Rightarrow> message_out \<Rightarrow> 's \<Rightarrow> (bool \<times> message_out) \<times> 's" where
  "get_message srv out s = apfst (message_result out) (srv [] s)"

section \<open>PUBSUB\<close>

definition pubsub_channels :: "'s server \<Rightarrow> byte list list \<Rightarrow> 's \<Rightarrow> (int \<times> byte list list option) \<times> 's" where
  "pubsub_channels srv patterns =
     run_with get_strings srv (build_names (lit ''PUBSUB'') (Some (lit ''CHANNELS'')) patterns)"

definition pubsub_channels_cstr :: "'s server \<Rightarrow> byte list list \<Rightarrow> 's \<Rightarrow> (int \<times> byte list list option) \<times> 's" where
  "pubsub_channels_cstr srv patterns =
     run_with get_strings srv (build_names_cstr (lit ''PUBSUB'') (Some (lit ''CHANNELS'')) patterns)"

fun numsub_loop :: "redis_result list \<Rightarrow> (byte list \<times> int) list \<Rightarrow> (byte list \<times> int) list" where
  "numsub_loop (c # n # ch) out = numsub_loop ch (map_put (rr_argv_to_string c) (fst (rr_get_integer n)) out)"
| "numsub_loop _ out = out"

definition numsub_result ::
  "(byte list \<times> int) list \<Rightarrow> redis_result option \<Rightarrow> int \<times> (byte list \<times> int) list"
where
  "numsub_result out r = (case r of
     None \<Rightarrow> (-1, out)
   | Some rr \<Rightarrow>
       (let ch = rr_children rr in
        if length ch = 0 then (0, out)
        else if length ch mod 2 \<noteq> 0 then (-1, out)
        else (int (length ch) div 2, numsub_loop ch [])))"

definition pubsub_numsub ::
  "'s server \<Rightarrow> byte list list \<Rightarrow> (byte list \<times> int) list \<Rightarrow> 's \<Rightarrow> (int \<times> (byte list \<times> int) list) \<times> 's"
where
  "pubsub_numsub srv channels out =
     run_with (numsub_result out) srv (build_names (lit ''PUBSUB'') (Some (lit ''NUMSUB'')) channels)"

definition pubsub_numsub_cstr ::
  "'s server \<Rightarrow> byte list list \<Rightarrow> (byte list \<times> int) list \<Rightarrow> 's \<Rightarrow> (int \<times> (byte list \<times> int) list) \<times> 's"
where
  "pubsub_numsub_cstr srv channels out =
     run_with (numsub_result out) srv (build_names_cstr (lit ''PUBSUB'') (Some (lit ''NUMSUB'')) channels)"

text \<open>With a list of arguments, empty when the first one is NULL.\<close>

definition va_args :: "cstr option \<Rightarrow> cstr list \<Rightarrow> cstr list" where
  "va_args first rest = (case first of None \<Rightarrow> [] | Some a \<Rightarrow> a # rest)"

definition pubsub_channels_va ::
  "'s server \<Rightarrow> cstr option \<Rightarrow> cstr list \<Rightarrow> 's \<Rightarrow> (int \<times> byte list list option) \<times> 's"
where
  "pubsub_channels_va srv first rest = pubsub_channels_cstr srv (va_args first rest)"

definition pubsub_numsub_va ::
  "'s server \<Rightarrow> (byte list \<times> int) list \<Rightarrow> cstr option \<Rightarrow> cstr list \<Rightarrow> 's \<Rightarrow> (int \<times> (byte list \<times> int) list) \<times> 's"
where
  "pubsub_numsub_va srv out first rest = pubsub_numsub_cstr srv (va_args first rest) out"

definition pubsub_numpat :: "'s server \<Rightarrow> 's \<Rightarrow> int \<times> 's" where
  "pubsub_numpat srv = run_with (fst \<circ> get_number) srv [lit ''PUBSUB'', lit ''NUMPAT'']"

section \<open>HyperLogLog\<close>

definition pfadd :: "'s server \<Rightarrow> cstr \<Rightarrow> byte list list \<Rightarrow> 's \<Rightarrow> int \<times> 's" where
  "pfadd srv key elements = run_with (fst \<circ> get_number) srv (build_names (lit ''PFADD'') (Some key) elements)"

definition pfadd_cstr :: "'s server \<Rightarrow> cstr \<Rightarrow> byte list list \<Rightarrow> 's \<Rightarrow> int \<times> 's" where
  "pfadd_cstr srv key elements =
     run_with (fst \<circ> get_number) srv (build_names_cstr (lit ''PFADD'') (Some key) elements)"

definition pfcount :: "'s server \<Rightarrow> byte list list \<Rightarrow> 's \<Rightarrow> int \<times> 's" where
  "pfcount srv keys = run_with (fst \<circ> get_number) srv (build_names (lit ''PFCOUNT'') None keys)"

definition pfcount_cstr :: "'s server \<Rightarrow> byte list list \<Rightarrow> 's \<Rightarrow> int \<times> 's" where
  "pfcount_cstr srv keys = run_with (fst \<circ> get_number) srv (build_names_cstr (lit ''PFCOUNT'') None keys)"

definition pfmerge :: "'s server \<Rightarrow> cstr \<Rightarrow> byte list list \<Rightarrow> 's \<Rightarrow> bool \<times> 's" where
  "pfmerge srv dst keys = run_with status_ok srv (build_names (lit ''PFMERGE'') (Some dst) keys)"

definition pfmerge_cstr :: "'s server \<Rightarrow> cstr \<Rightarrow> byte list list \<Rightarrow> 's \<Rightarrow> bool \<times> 's" where
  "pfmerge_cstr srv dst keys = run_with status_ok srv (build_names_cstr (lit ''PFMERGE'') (Some dst) keys)"

definition pfadd_va :: "'s server \<Rightarrow> cstr \<Rightarrow> cstr \<Rightarrow> cstr list \<Rightarrow> 's \<Rightarrow> int \<times> 's" where
  "pfadd_va srv key first rest = pfadd_cstr srv key (first # rest)"

definition pfcount_va :: "'s server \<Rightarrow> cstr \<Rightarrow> cstr list \<Rightarrow> 's \<Rightarrow> int \<times> 's" where
  "pfcount_va srv first rest = pfcount_cstr srv (first # rest)"

definition pfmerge_va :: "'s server \<Rightarrow> cstr \<Rightarrow> cstr \<Rightarrow> cstr list \<Rightarrow> 's \<Rightarrow> bool \<times> 's" where
  "pfmerge_va srv dst first rest = pfmerge_cstr srv dst (first # rest)"

section \<open>Transactions\<close>

text \<open>The queued commands, and the last result of the base class.\<close>

record redis_transaction =
  tr_cmds :: "byte list list"
  tr_result :: "redis_result option"

definition tr_run ::
  "(redis_result option \<Rightarrow> bool) \<Rightarrow> 's server \<Rightarrow> byte list list \<Rightarrow> redis_transaction \<Rightarrow> 's \<Rightarrow>
   bool \<times> redis_transaction \<times> 's"
where
  "tr_run decode srv argv t s =
     (case run_request srv argv s of (r, s') \<Rightarrow> (decode r, t\<lparr>tr_result := r\<rparr>, s'))"

definition watch :: "'s server \<Rightarrow> byte list list \<Rightarrow> redis_transaction \<Rightarrow> 's \<Rightarrow> bool \<times> redis_transaction \<times> 's" where
  "watch srv keys = tr_run status_ok srv (build_names (lit ''WATCH'') None keys)"

text \<open>\<open>unwatch\<close> sends the one element of an array that nothing has been written to.\<close>

definition unwatch ::
  "'s server \<Rightarrow> redis_transaction \<Rightarrow> 's \<Rightarrow> (bool \<times> redis_transaction \<times> 's) sent"
where
  "unwatch srv t s =
     (let argv = [None] :: cells in
      if None \<in> set argv then Uninit else Sent (tr_run status_ok srv (map the argv) t s))"

definition multi :: "'s server \<Rightarrow> redis_transaction \<Rightarrow> 's \<Rightarrow> bool \<times> redis_transaction \<times> 's" where
  "multi srv t = tr_run status_ok srv [lit ''MULTI''] (t\<lparr>tr_cmds := []\<rparr>)"

definition exec :: "'s server \<Rightarrow> redis_transaction \<Rightarrow> 's \<Rightarrow> bool \<times> redis_transaction \<times> 's" where
  "exec srv t =
     tr_run (\<lambda>r. is_type REDIS_RESULT_ARRAY r \<and> rr_get_size (the r) = length (tr_cmds t)) srv [lit ''EXEC''] t"

definition discard :: "'s server \<Rightarrow> redis_transaction \<Rightarrow> 's \<Rightarrow> bool \<times> redis_transaction \<times> 's" where
  "discard srv t = tr_run status_ok srv [lit ''DISCARD''] t"

text \<open>Both forms of \<open>run_cmd\<close>.\<close>

definition queue_cmd ::
  "'s server \<Rightarrow> cstr \<Rightarrow> byte list list \<Rightarrow> redis_transaction \<Rightarrow> 's \<Rightarrow> bool \<times> redis_transaction \<times> 's"
where
  "queue_cmd srv cmd args t s =
     (case tr_run (\<lambda>r. check_status r (Some (lit ''QUEUED''))) srv (build_names cmd None args) t s of
        (ok, t', s') \<Rightarrow> if \<not> ok then (False, t', s') else (True, t'\<lparr>tr_cmds := tr_cmds t' @ [cmd]\<rparr>, s'))"

definition tr_get_size :: "redis_transaction \<Rightarrow> nat" where
  "tr_get_size t = (case tr_result t of None \<Rightarrow> 0 | Some rr \<Rightarrow> rr_get_size rr)"

definition tr_get_child ::
  "redis_transaction \<Rightarrow> nat \<Rightarrow> byte list option \<Rightarrow> redis_result option \<times> byte list option"
where
  "tr_get_child t i cmd =
     (Option.bind (tr_result t) (\<lambda>rr. rr_get_child rr i),
      map_option (\<lambda>c. if i < length (tr_cmds t) then tr_cmds t ! i else c) cmd)"

section \<open>A connection that replies come from\<close>

text \<open>The replies that wait to be read; a request adds what the server answerswers.\<close>

definition feed :: "(byte list \<Rightarrow> resp list) \<Rightarrow> resp list server" where
  "feed ans req q =
     (case q @ (if req = [] then [] else ans req) of
        [] \<Rightarrow> (None, [])
      | r # q' \<Rightarrow> (Some (resp_result r), q'))"

definition resp_message :: "byte list \<times> byte list \<Rightarrow> resp" where
  "resp_message m = RArray [RBulk (lit ''message''), RBulk (fst m), RBulk (snd m)]"

definition resp_confirm :: "cstr \<Rightarrow> cstr \<Rightarrow> nat \<Rightarrow> resp" where
  "resp_confirm kind channel n = RArray [RBulk kind, RBulk channel, RInteger (dec_of_nat n)]"

text \<open>Messages before each confirmation.\<close>

type_synonym confirmation = "(byte list \<times> byte list) list \<times> cstr \<times> nat"

definition incoming :: "cstr \<Rightarrow> confirmation list \<Rightarrow> resp list" where
  "incoming kind cs = concat (map (\<lambda>(ms, c, n). map resp_message ms @ [resp_confirm kind c n]) cs)"

lemma is_message_message: "is_message (lit ''message'')"
proof -
  have "c_string (lit ''message'')" by (simp add: c_string_def lit_def)
  then show ?thesis by (simp add: is_message_def eq_name_def acl_strcasecmp_zero)
qed

lemma step_message: "subop_step cmd channels i n (Some (resp_result (resp_message m))) = Next i n"
  by (simp add: subop_step_def resp_message_def is_type_def rr_get_child_def is_message_message)

lemma step_confirm:
  assumes "c_strcasecmp_eq (cstr_of kind) cmd" "\<not> is_message kind" "c_string c" "k < 2 ^ 31" "i < length channels"
    "channels ! i = c"
  shows "subop_step cmd channels i n (Some (resp_result (resp_confirm kind c k))) = Next (i + 1) (max n (int k))"
  using assms
  by (auto simp: subop_step_def resp_confirm_def is_type_def rr_get_child_def check_channel_def rr_get_integer_def rr_get_def
      cstr_of_dec c_strcasecmp_eq_def Let_def max_def)

lemma loop_messages:
  "channels \<noteq> [] \<Longrightarrow> i < length channels \<Longrightarrow>
   subop_loop (feed ans) cmd channels [] i n (map resp_message ms @ q) = subop_loop (feed ans) cmd channels [] i n q"
proof (induction ms)
  case (Cons m ms)
  have "feed ans [] (map resp_message (m # ms) @ q) = (Some (resp_result (resp_message m)), map resp_message ms @ q)"
    by (simp add: feed_def)
  then show ?case using Cons by (subst subop_loop.simps) (simp add: step_message)
qed simp

lemma loop_confirmations:
  assumes "c_strcasecmp_eq (cstr_of kind) cmd" "\<not> is_message kind"
  shows "cs \<noteq> [] \<Longrightarrow> channels = pre @ map (fst \<circ> snd) cs \<Longrightarrow> \<forall>(ms, c, k) \<in> set cs. c_string c \<and> k < 2 ^ 31 \<Longrightarrow>
    subop_loop (feed ans) cmd channels [] (length pre) n (incoming kind cs @ rest) =
      Some (SubCount (foldl max n (map (int \<circ> snd \<circ> snd) cs)), rest)"
proof (induction cs arbitrary: pre n)
  case (Cons x cs)
  obtain ms c k where x: "x = (ms, c, k)" by (cases x) auto
  let ?q = "incoming kind cs @ rest"
  have len: "length pre < length channels" and at: "channels ! length pre = c" using Cons.prems(2) by (simp_all add: x)
  have "incoming kind (x # cs) @ rest = map resp_message ms @ resp_confirm kind c k # ?q" by (simp add: incoming_def x)
  then have "subop_loop (feed ans) cmd channels [] (length pre) n (incoming kind (x # cs) @ rest) =
      subop_loop (feed ans) cmd channels [] (length pre) n (resp_confirm kind c k # ?q)"
    using loop_messages [OF _ len] len by (metis length_0_conv less_nat_zero_code)
  also have "\<dots> = (if length pre + 1 < length channels
      then subop_loop (feed ans) cmd channels [] (length pre + 1) (max n (int k)) ?q
      else Some (SubCount (max n (int k)), ?q))"
  proof -
    have "subop_step cmd channels (length pre) n (Some (resp_result (resp_confirm kind c k))) =
        Next (length pre + 1) (max n (int k))"
      using Cons.prems(3) by (intro step_confirm assms len at) (auto simp: x)
    then show ?thesis by (subst subop_loop.simps) (simp add: feed_def)
  qed
  also have "\<dots> = Some (SubCount (foldl max n (map (int \<circ> snd \<circ> snd) (x # cs))), rest)"
  proof (cases "cs = []")
    case True
    then show ?thesis using Cons.prems(2) by (simp add: x incoming_def)
  next
    case False
    then have "length pre + 1 < length channels" using Cons.prems(2) by (cases cs) auto
    with Cons.IH [of "pre @ [c]" "max n (int k)"] False Cons.prems(2,3) show ?thesis by (simp add: x comp_def)
  qed
  finally show ?case .
qed simp

lemma build_request_ne: "build_request1 argv \<noteq> []"
  by (simp add: build_request1_def)

lemma loop_request:
  "subop_loop (feed ans) cmd channels req i n q = subop_loop (feed ans) cmd channels [] i n (q @ (if req = [] then [] else ans req))"
proof -
  let ?q = "q @ (if req = [] then [] else ans req)"
  have "feed ans req q = feed ans [] ?q" by (simp add: feed_def)
  then show ?thesis
    using subop_loop.simps [of "feed ans" cmd channels req i n q] subop_loop.simps [of "feed ans" cmd channels "[]" i n ?q]
    by (elim ssubst) (rule refl)
qed

text \<open>C21: subscribing. When the confirmations of all channels come in order, with any messages before each of them, the
  call returns the largest of the counts and leaves what is behind the last confirmation to be read; the messages before it
  have been taken from the connection and are given to nobody.\<close>

theorem subscribe_confirmed:
  assumes "cs \<noteq> []" "\<forall>(ms, c, k) \<in> set cs. c_string c \<and> k < 2 ^ 31"
    and "q @ ans (build_request1 (lit ''SUBSCRIBE'' # map (fst \<circ> snd) cs)) = incoming (lit ''subscribe'') cs @ rest"
  shows "subscribe (feed ans) (map (fst \<circ> snd) cs) q = Some (SubCount (Max (insert 0 (set (map (int \<circ> snd \<circ> snd) cs)))), rest)"
proof -
  have kind: "c_strcasecmp_eq (cstr_of (lit ''subscribe'')) (lit ''SUBSCRIBE'')" by code_simp
  have nm: "\<not> is_message (lit ''subscribe'')" by (simp add: is_message_def eq_name_def lit_def)
  have "(\<lambda>x y :: int. max y x) = max" by (simp add: fun_eq_iff max.commute)
  then have "foldl max 0 xs = Max (insert 0 (set xs))" for xs :: "int list"
    using Max.set_eq_fold [of 0 xs] by (simp add: foldl_conv_fold)
  with loop_confirmations [OF kind nm assms(1) _ assms(2), of "map (fst \<circ> snd) cs" "[]" ans 0 rest] assms(3) show ?thesis
    by (simp add: subscribe_def subop_def subop_result_def loop_request [of ans _ _ "build_request1 _"] build_request_ne)
qed

theorem subscribe_confirmed_witness:
  "subscribe (feed (\<lambda>_. [resp_message (lit ''n'', lit ''lost''), resp_confirm (lit ''subscribe'') (lit ''c'') 2,
       resp_message (lit ''c'', lit ''kept'')])) [lit ''c''] [] =
   Some (SubCount 2, [resp_message (lit ''c'', lit ''kept'')])"
  using subscribe_confirmed [of "[([(lit ''n'', lit ''lost'')], lit ''c'', 2)]" "[]"
      "\<lambda>_. [resp_message (lit ''n'', lit ''lost''), resp_confirm (lit ''subscribe'') (lit ''c'') 2, resp_message (lit ''c'', lit ''kept'')]"
      "[resp_message (lit ''c'', lit ''kept'')]"]
  by (simp add: incoming_def c_string_def lit_def)

text \<open>UNSUBSCRIBE returns the largest of the counts too, and not the number of channels that are left, as its comment says.\<close>

theorem unsubscribe_returns_max:
  "unsubscribe (feed (\<lambda>_. [resp_confirm (lit ''unsubscribe'') (lit ''a'') 1, resp_confirm (lit ''unsubscribe'') (lit ''b'') 0]))
     [lit ''a'', lit ''b''] [] = Some (SubCount 1, [])"
proof -
  let ?ans = "\<lambda>_. [resp_confirm (lit ''unsubscribe'') (lit ''a'') 1, resp_confirm (lit ''unsubscribe'') (lit ''b'') 0]"
  have kind: "c_strcasecmp_eq (cstr_of (lit ''unsubscribe'')) (lit ''UNSUBSCRIBE'')" by code_simp
  have nm: "\<not> is_message (lit ''unsubscribe'')" by (simp add: is_message_def eq_name_def lit_def)
  have "\<forall>(ms, c, k) \<in> set [([] :: (byte list \<times> byte list) list, lit ''a'', 1 :: nat), ([], lit ''b'', 0)]. c_string c \<and> k < 2 ^ 31" by (simp add: c_string_def lit_def)
  from loop_confirmations [OF kind nm _ _ this, of "[lit ''a'', lit ''b'']" "[]" ?ans 0 "[]"] show ?thesis
    unfolding unsubscribe_def subop_def subop_result_def
    by (subst loop_request) (simp add: build_request_ne incoming_def)
qed

text \<open>Where only messages come, a subscription never returns.\<close>

lemma loop_only_messages:
  "subop_loop srv cmd channels req i n s = Some y \<Longrightarrow>
   \<forall>req s. \<exists>m. fst (srv req s) = Some (resp_result (resp_message m)) \<Longrightarrow> \<not> i < length channels"
proof (induction rule: subop_loop.raw_induct [rotated, consumes 1, case_names step])
  case (step loop srv cmd channels req i n s y)
  obtain m where "fst (srv req s) = Some (resp_result (resp_message m))" using step.prems by blast
  with step.hyps have "\<not> i < length channels \<or> loop srv cmd channels [] i n (snd (srv req s)) = Some y"
    by (auto simp: step_message split: if_splits)
  with step.IH step.prems show ?case by blast
qed

theorem subscribe_never_returns:
  assumes "\<And>req s. \<exists>m. fst (srv req s) = Some (resp_result (resp_message m))" "channels \<noteq> []"
  shows "subscribe srv channels s = None"
proof (rule ccontr)
  assume "subscribe srv channels s \<noteq> None"
  then obtain y where "subop_loop srv (lit ''SUBSCRIBE'') channels (build_request1 (lit ''SUBSCRIBE'' # channels)) 0 0 s = Some y"
    by (auto simp: subscribe_def subop_def subop_result_def)
  with loop_only_messages [OF this] assms show False by simp
qed

theorem subscribe_never_returns_witness:
  "subscribe (\<lambda>req n. (Some (resp_result (resp_message ([], []))), n)) [lit ''c''] (0 :: nat) = None"
  by (rule subscribe_never_returns) auto

section \<open>Delivery\<close>

text \<open>delivery. A message published to a channel is read with the channel and the bytes it was published with, and
  nothing else is taken from the connection.\<close>

theorem message_delivered:
  "get_message (feed ans) out (resp_message (channel, msg) # q) =
     ((True, \<lparr>mo_channel = channel, mo_msg = msg, mo_type = map_option (\<lambda>_. lit ''message'') (mo_type out),
              mo_pattern = map_option (\<lambda>_. []) (mo_pattern out)\<rparr>), q)"
  by (simp add: get_message_def feed_def message_result_def resp_message_def is_type_def string_child_def rr_get_child_def
      fill_message_def)

definition resp_pmessage :: "byte list \<Rightarrow> byte list \<Rightarrow> byte list \<Rightarrow> resp" where
  "resp_pmessage pattern channel msg = RArray [RBulk (lit ''pmessage''), RBulk pattern, RBulk channel, RBulk msg]"

theorem pmessage_delivered:
  "get_message (feed ans) out (resp_pmessage pattern channel msg # q) =
     ((True, \<lparr>mo_channel = channel, mo_msg = msg, mo_type = map_option (\<lambda>_. lit ''pmessage'') (mo_type out),
              mo_pattern = map_option (\<lambda>_. pattern) (mo_pattern out)\<rparr>), q)"
proof -
  have "c_string (lit ''pmessage'')" "lit ''pmessage'' \<noteq> lit ''message''" by (simp_all add: c_string_def lit_def)
  then have "eq_name (lit ''pmessage'') (lit ''pmessage'')" "lit ''pmessage'' \<noteq> lit ''message''"
    by (simp_all add: eq_name_def acl_strcasecmp_zero)
  then show ?thesis
    by (cases "mo_pattern out") (simp_all add: get_message_def feed_def message_result_def resp_pmessage_def is_type_def
        string_child_def rr_get_child_def fill_message_def numeral_2_eq_2)
qed

section \<open>A transaction on a server\<close>

text \<open>\<open>view s\<close> is \<open>None\<close> outside of a transaction; inside it is the requests queued so far, and whether
  one was refused. The promises are those of the documentation of MULTI, EXEC and WATCH. The names of
  commands are taken in any case; \<open>tx_control\<close> are those that the server does not queue. \<open>acc s argv\<close> says
  whether the server knows the command and can queue it; otherwise it answers an error, and EXEC will
  abort. \<open>stale s\<close> says that another client has changed a watched key by now: EXEC then answers nil.\<close>

definition tx_control :: "byte list \<Rightarrow> bool" where
  "tx_control cmd \<longleftrightarrow> map tolower cmd \<in>
     {lit ''multi'', lit ''exec'', lit ''discard'', lit ''watch'', lit ''quit'', lit ''reset''}"

text \<open>The reply and the view after a request.\<close>

definition tx_replies ::
  "'s server \<Rightarrow> ('s \<Rightarrow> 'v) \<Rightarrow> byte list list \<Rightarrow> 's \<Rightarrow> resp \<Rightarrow> 'v \<Rightarrow> bool"
where
  "tx_replies srv view argv s r w \<longleftrightarrow>
     fst (run_request srv argv s) = Some (resp_result r) \<and> view (snd (run_request srv argv s)) = w"

definition tx_promises ::
  "'s server \<Rightarrow> ('s \<Rightarrow> (byte list list list \<times> bool) option) \<Rightarrow> ('s \<Rightarrow> byte list list \<Rightarrow> bool) \<Rightarrow> ('s \<Rightarrow> bool) \<Rightarrow> 's \<Rightarrow> bool"
where
  "tx_promises srv view acc stale s \<longleftrightarrow>
     (view s = None \<longrightarrow> tx_replies srv view [lit ''MULTI''] s (RStatus (lit ''OK'')) (Some ([], False))) \<and>
     (\<forall>q bad. view s = Some (q, bad) \<longrightarrow>
        (\<forall>argv. argv \<noteq> [] \<and> \<not> tx_control (hd argv) \<and> small_args argv \<longrightarrow>
           (if acc s argv then tx_replies srv view argv s (RStatus (lit ''QUEUED'')) (Some (q @ [argv], bad))
            else \<exists>e. tx_replies srv view argv s (RError e) (Some (q, True)))) \<and>
        (if bad then \<exists>e. tx_replies srv view [lit ''EXEC''] s (RError e) None
         else if stale s then tx_replies srv view [lit ''EXEC''] s RNullArray None
         else \<exists>rs. length rs = length q \<and> tx_replies srv view [lit ''EXEC''] s (RArray rs) None))"

definition tx_server ::
  "'s server \<Rightarrow> ('s \<Rightarrow> (byte list list list \<times> bool) option) \<Rightarrow> ('s \<Rightarrow> byte list list \<Rightarrow> bool) \<Rightarrow> ('s \<Rightarrow> bool) \<Rightarrow> bool"
where
  "tx_server srv view acc stale \<longleftrightarrow> (\<forall>s. tx_promises srv view acc stale s)"

lemma tx_promisesI:
  assumes "view s = None \<Longrightarrow> tx_replies srv view [lit ''MULTI''] s (RStatus (lit ''OK'')) (Some ([], False))"
    and "\<And>q bad argv. view s = Some (q, bad) \<Longrightarrow> \<not> tx_control (hd argv) \<Longrightarrow> small_args argv \<Longrightarrow>
      if acc s argv then tx_replies srv view argv s (RStatus (lit ''QUEUED'')) (Some (q @ [argv], bad))
      else \<exists>e. tx_replies srv view argv s (RError e) (Some (q, True))"
    and "\<And>q bad. view s = Some (q, bad) \<Longrightarrow>
      if bad then \<exists>e. tx_replies srv view [lit ''EXEC''] s (RError e) None
      else if stale s then tx_replies srv view [lit ''EXEC''] s RNullArray None
      else \<exists>rs. length rs = length q \<and> tx_replies srv view [lit ''EXEC''] s (RArray rs) None"
  shows "tx_promises srv view acc stale s"
  unfolding tx_promises_def using assms by blast

lemma tx_repliesE:
  assumes "tx_replies srv view argv s r w"
  obtains s' where "run_request srv argv s = (Some (resp_result r), s')" "view s' = w"
  using assms unfolding tx_replies_def by (metis prod.collapse)

text \<open>The caller queues all commands and keeps what \<open>run_cmd\<close> returned for each.\<close>

fun queue_all ::
  "'s server \<Rightarrow> (cstr \<times> byte list list) list \<Rightarrow> redis_transaction \<Rightarrow> 's \<Rightarrow> bool list \<times> redis_transaction \<times> 's"
where
  "queue_all srv [] t s = ([], t, s)"
| "queue_all srv ((cmd, args) # cs) t s =
     (case queue_cmd srv cmd args t s of
        (ok, t', s') \<Rightarrow> (case queue_all srv cs t' s' of (oks, t'', s'') \<Rightarrow> (ok # oks, t'', s'')))"

text \<open>The commands that were taken, by what \<open>run_cmd\<close> returned.\<close>

definition taken :: "bool list \<Rightarrow> 'a list \<Rightarrow> 'a list" where
  "taken oks cs = map snd (filter fst (zip oks cs))"

lemma taken_simps [simp]: "taken [] cs = []" "taken (ok # oks) (c # cs) = (if ok then c # taken oks cs else taken oks cs)"
  by (simp_all add: taken_def)

lemma taken_all: "length oks = length cs \<Longrightarrow> False \<notin> set oks \<Longrightarrow> taken oks cs = cs"
  by (induction oks cs rule: list_induct2) auto

lemma tx_status_reply:
  "check_status (Some (resp_result (RStatus (lit ''QUEUED'')))) (Some (lit ''QUEUED''))"
  "status_ok (Some (resp_result (RStatus (lit ''OK''))))"
  by code_simp+

lemma queue_cmd_reply:
  assumes "run_request srv (cmd # args) s = (Some (resp_result r), s')"
  shows "r = RStatus (lit ''QUEUED'') \<Longrightarrow> queue_cmd srv cmd args t s =
      (True, t\<lparr>tr_result := Some (resp_result r), tr_cmds := tr_cmds t @ [cmd]\<rparr>, s')"
    "r = RError e \<Longrightarrow> queue_cmd srv cmd args t s = (False, t\<lparr>tr_result := Some (resp_result r)\<rparr>, s')"
  using assms tx_status_reply(1)
  by (simp_all add: queue_cmd_def tr_run_def build_names_def build_head_def check_status_def is_type_def)

lemma queue_all_server:
  assumes "tx_server srv view acc stale"
  shows "view s = Some (q, bad) \<Longrightarrow> \<forall>(cmd, args) \<in> set cs. \<not> tx_control cmd \<and> small_args (cmd # args) \<Longrightarrow>
    \<exists>oks t' s'. queue_all srv cs t s = (oks, t', s') \<and> length oks = length cs \<and>
      tr_cmds t' = tr_cmds t @ map fst (taken oks cs) \<and>
      view s' = Some (q @ map (\<lambda>(cmd, args). cmd # args) (taken oks cs), bad \<or> False \<in> set oks)"
proof (induction cs arbitrary: q bad t s)
  case (Cons c cs)
  obtain cmd args where c: "c = (cmd, args)" by fastforce
  let ?argv = "cmd # args"
  have r: "if acc s ?argv then tx_replies srv view ?argv s (RStatus (lit ''QUEUED'')) (Some (q @ [?argv], bad))
      else \<exists>e. tx_replies srv view ?argv s (RError e) (Some (q, True))"
    using assms Cons.prems unfolding tx_server_def tx_promises_def by (auto simp: c)
  show ?case
  proof (cases "acc s ?argv")
    case True
    with r obtain s1 where s1: "run_request srv ?argv s = (Some (resp_result (RStatus (lit ''QUEUED''))), s1)"
      "view s1 = Some (q @ [?argv], bad)" by (auto elim: tx_repliesE)
    let ?t = "t\<lparr>tr_result := Some (resp_result (RStatus (lit ''QUEUED''))), tr_cmds := tr_cmds t @ [cmd]\<rparr>"
    obtain oks t' s' where "queue_all srv cs ?t s1 = (oks, t', s')" "length oks = length cs"
      "tr_cmds t' = tr_cmds ?t @ map fst (taken oks cs)"
      "view s' = Some ((q @ [?argv]) @ map (\<lambda>(cmd, args). cmd # args) (taken oks cs), bad \<or> False \<in> set oks)"
      using Cons.IH [OF s1(2), of ?t] Cons.prems(2) by auto
    with queue_cmd_reply(1) [OF s1(1) refl, of t] show ?thesis by (simp add: c del: resp_result.simps)
  next
    case False
    with r obtain e s1 where s1: "run_request srv ?argv s = (Some (resp_result (RError e)), s1)"
      "view s1 = Some (q, True)" by (auto elim: tx_repliesE)
    let ?t = "t\<lparr>tr_result := Some (resp_result (RError e))\<rparr>"
    obtain oks t' s' where "queue_all srv cs ?t s1 = (oks, t', s')" "length oks = length cs"
      "tr_cmds t' = tr_cmds ?t @ map fst (taken oks cs)"
      "view s' = Some (q @ map (\<lambda>(cmd, args). cmd # args) (taken oks cs), True \<or> False \<in> set oks)"
      using Cons.IH [OF s1(2), of ?t] Cons.prems(2) by auto
    with queue_cmd_reply(2) [OF s1(1) refl, of t] show ?thesis by (simp add: c del: resp_result.simps)
  qed
qed simp

lemma exec_reply:
  assumes "run_request srv [lit ''EXEC''] s = (Some (resp_result r), s')"
  shows "exec srv t s = (case r of RArray rs \<Rightarrow> length rs = length (tr_cmds t) | RNullArray \<Rightarrow> tr_cmds t = [] | _ \<Rightarrow> False,
    t\<lparr>tr_result := Some (resp_result r)\<rparr>, s')"
  using assms by (cases r) (auto simp: exec_def tr_run_def is_type_def)

text \<open>C24: a transaction, on a server as documented that refuses some commands and whose watched keys others may
  change. The server has queued exactly the commands for which \<open>run_cmd\<close> returned true. After EXEC, which
  always ends the transaction, \<open>exec\<close> returns true exactly if all commands were queued and no watched key had
  changed; for an empty transaction, whose size says nothing, also if one had. And when it returns true, the reply has
  one result for each command, and \<open>get_child\<close> gives the i-th result with the name of the i-th command.\<close>

theorem transaction_executes:
  assumes "tx_server srv view acc stale" "view s = None"
    "\<forall>(cmd, args) \<in> set cs. \<not> tx_control cmd \<and> small_args (cmd # args)"
  shows "\<exists>t1 s1 oks t2 s2 ok t3 s3. multi srv t s = (True, t1, s1) \<and> queue_all srv cs t1 s1 = (oks, t2, s2) \<and>
    exec srv t2 s2 = (ok, t3, s3) \<and> view s3 = None \<and>
    length oks = length cs \<and> view s2 = Some (map (\<lambda>(cmd, args). cmd # args) (taken oks cs), False \<in> set oks) \<and>
    (ok \<longleftrightarrow> False \<notin> set oks \<and> (stale s2 \<longrightarrow> cs = [])) \<and>
    (ok \<longrightarrow> (\<exists>rr. fst (run_request srv [lit ''EXEC''] s2) = Some rr \<and> length (rr_children rr) = length cs \<and>
       tr_get_size t3 = length cs \<and>
       (\<forall>i < length cs. tr_get_child t3 i (Some []) = (Some (rr_children rr ! i), Some (fst (cs ! i))))))"
proof -
  have "tx_replies srv view [lit ''MULTI''] s (RStatus (lit ''OK'')) (Some ([], False))"
    using assms(1,2) unfolding tx_server_def tx_promises_def by blast
  then obtain s1 where s1: "run_request srv [lit ''MULTI''] s = (Some (resp_result (RStatus (lit ''OK''))), s1)"
    "view s1 = Some ([], False)" by (rule tx_repliesE)
  let ?t1 = "t\<lparr>tr_cmds := [], tr_result := Some (resp_result (RStatus (lit ''OK'')))\<rparr>"
  have 1: "multi srv t s = (True, ?t1, s1)" using s1(1) tx_status_reply(2) by (simp add: multi_def tr_run_def)
  obtain oks t2 s2 where 2: "queue_all srv cs ?t1 s1 = (oks, t2, s2)" "length oks = length cs"
    "tr_cmds t2 = map fst (taken oks cs)"
    "view s2 = Some (map (\<lambda>(cmd, args). cmd # args) (taken oks cs), False \<in> set oks)"
    using queue_all_server [OF assms(1) s1(2) assms(3), of ?t1] by auto
  have ex: "if False \<in> set oks then \<exists>e. tx_replies srv view [lit ''EXEC''] s2 (RError e) None
      else if stale s2 then tx_replies srv view [lit ''EXEC''] s2 RNullArray None
      else \<exists>rs. length rs = length (taken oks cs) \<and> tx_replies srv view [lit ''EXEC''] s2 (RArray rs) None"
    using assms(1) 2(4) unfolding tx_server_def tx_promises_def by (metis (no_types, lifting) length_map)
  have all: "taken oks cs = cs" if "False \<notin> set oks" using taken_all [OF 2(2) that] .
  obtain r s3 where r: "run_request srv [lit ''EXEC''] s2 = (Some (resp_result r), s3)" "view s3 = None"
    "if False \<in> set oks then \<exists>e. r = RError e else if stale s2 then r = RNullArray
     else \<exists>rs. length rs = length cs \<and> r = RArray rs"
    using ex all by (auto split: if_splits elim!: tx_repliesE)
  note e = exec_reply [OF r(1), of t2]
  let ?ok = "case r of RArray rs \<Rightarrow> length rs = length (tr_cmds t2) | RNullArray \<Rightarrow> tr_cmds t2 = [] | _ \<Rightarrow> False"
  let ?t3 = "t2\<lparr>tr_result := Some (resp_result r)\<rparr>"
  have ok: "?ok \<longleftrightarrow> False \<notin> set oks \<and> (stale s2 \<longrightarrow> cs = [])"
    using r(3) 2(3) all by (auto split: if_splits)
  have "\<exists>rr. fst (run_request srv [lit ''EXEC''] s2) = Some rr \<and> length (rr_children rr) = length cs \<and>
       tr_get_size ?t3 = length cs \<and>
       (\<forall>i < length cs. tr_get_child ?t3 i (Some []) = (Some (rr_children rr ! i), Some (fst (cs ! i))))" if ?ok
  proof -
    from that ok have n: "False \<notin> set oks" "stale s2 \<longrightarrow> cs = []" by auto
    then have c: "tr_cmds t2 = map fst cs" using 2(3) all by simp
    show ?thesis
      using r(1,3) n c by (auto simp: tr_get_size_def tr_get_child_def rr_get_child_def split: if_splits)
  qed
  with 1 2 e r(2) ok show ?thesis by blast
qed

text \<open>A server that knows every command but one, with a flag for a changed key.\<close>

type_synonym tx_state = "(byte list list list \<times> bool) option \<times> bool"

definition tx_answer :: "byte list list \<Rightarrow> tx_state \<Rightarrow> resp \<times> tx_state" where
  "tx_answer argv s = (case s of
     (None, st) \<Rightarrow> if argv = [lit ''MULTI''] then (RStatus (lit ''OK''), Some ([], False), st) else (RError (lit ''ERR''), s)
   | (Some (q, bad), st) \<Rightarrow>
       if argv = [lit ''EXEC'']
       then (if bad then RError (lit ''EXECABORT'') else if st then RNullArray else RArray (map (\<lambda>a. RBulk (hd a)) q),
         None, False)
       else if hd argv = lit ''NOPE'' then (RError (lit ''ERR''), Some (q, True), st)
       else (RStatus (lit ''QUEUED''), Some (q @ [argv], bad), st))"

definition tx_demo :: "tx_state server" where
  "tx_demo bytes s =
     (case read_args bytes of
        None \<Rightarrow> (None, s)
      | Some argv \<Rightarrow> map_prod (Some \<circ> resp_result) id (tx_answer argv s))"

lemma tx_demo_run:
  "small_args argv \<Longrightarrow> run_request tx_demo argv s = map_prod (Some \<circ> resp_result) id (tx_answer argv s)"
  by (simp add: run_request_def tx_demo_def read_args_request)

lemma tx_demo_server: "tx_server tx_demo fst (\<lambda>s argv. hd argv \<noteq> lit ''NOPE'') snd"
proof -
  have small: "small_args [lit ''MULTI'']" "small_args [lit ''EXEC'']" by (simp_all add: small_args_def lit_def)
  have ne: "argv \<noteq> [lit ''EXEC'']" if "\<not> tx_control (hd argv)" for argv
    using that by (auto simp: tx_control_def lit_def tolower_def isupper_def)
  have rep: "tx_replies tx_demo fst argv s r w" if "tx_answer argv s = (r, w, st)" "small_args argv" for argv s r w st
    using that by (simp add: tx_replies_def tx_demo_run del: resp_result.simps)
  let ?P = "\<lambda>s. tx_promises tx_demo fst (\<lambda>s argv. hd argv \<noteq> lit ''NOPE'') snd s"
  have "?P (None, st)" for st
    using small by (simp add: tx_promises_def rep tx_answer_def)
  moreover have "?P (Some (q, bad), st)" for q bad st
  proof -
    let ?s = "(Some (q, bad), st)"
    have a: "if hd argv \<noteq> lit ''NOPE'' then tx_replies tx_demo fst argv ?s (RStatus (lit ''QUEUED'')) (Some (q @ [argv], bad))
        else \<exists>e. tx_replies tx_demo fst argv ?s (RError e) (Some (q, True))"
      if "\<not> tx_control (hd argv)" "small_args argv" for argv
    proof (cases "hd argv = lit ''NOPE''")
      case True
      then have "tx_replies tx_demo fst argv ?s (RError (lit ''ERR'')) (Some (q, True))"
        using that ne [OF that(1)] by (intro rep [of _ _ _ _ st]) (simp_all add: tx_answer_def)
      with True show ?thesis by auto
    next
      case False
      then have "tx_replies tx_demo fst argv ?s (RStatus (lit ''QUEUED'')) (Some (q @ [argv], bad))"
        using that ne [OF that(1)] by (intro rep [of _ _ _ _ st]) (simp_all add: tx_answer_def)
      with False show ?thesis by simp
    qed
    have ex: "tx_replies tx_demo fst [lit ''EXEC''] ?s
        (if bad then RError (lit ''EXECABORT'') else if st then RNullArray else RArray (map (\<lambda>a. RBulk (hd a)) q)) None"
      using small by (intro rep [of _ _ _ _ False]) (simp_all add: tx_answer_def)
    have b: "if bad then \<exists>e. tx_replies tx_demo fst [lit ''EXEC''] ?s (RError e) None
      else if st then tx_replies tx_demo fst [lit ''EXEC''] ?s RNullArray None
      else \<exists>rs. length rs = length q \<and> tx_replies tx_demo fst [lit ''EXEC''] ?s (RArray rs) None"
    proof (cases "bad \<or> st")
      case False
      with ex show ?thesis by (intro if_split [THEN iffD2]) (auto intro!: exI [of _ "map (\<lambda>a. RBulk (hd a)) q"])
    qed (use ex in \<open>auto split: if_splits\<close>)
    show ?thesis
    proof (rule tx_promisesI)
      fix q' bad' argv
      assume "fst ?s = Some (q', bad')"
      then have eq: "q' = q" "bad' = bad" by simp_all
      show "if hd argv \<noteq> lit ''NOPE'' then tx_replies tx_demo fst argv ?s (RStatus (lit ''QUEUED'')) (Some (q' @ [argv], bad'))
          else \<exists>e. tx_replies tx_demo fst argv ?s (RError e) (Some (q', True))"
        if "\<not> tx_control (hd argv)" "small_args argv"
        unfolding eq by (rule a [OF that])
      show "if bad' then \<exists>e. tx_replies tx_demo fst [lit ''EXEC''] ?s (RError e) None
          else if snd ?s then tx_replies tx_demo fst [lit ''EXEC''] ?s RNullArray None
          else \<exists>rs. length rs = length q' \<and> tx_replies tx_demo fst [lit ''EXEC''] ?s (RArray rs) None"
        unfolding eq snd_conv by (rule b)
    qed simp
  qed
  ultimately have "?P s" for s by (cases s; cases "fst s") auto
  then show ?thesis unfolding tx_server_def by blast
qed

text \<open>Both outcomes: a transaction that is executed, and one with a command that the server refuses.\<close>

theorem transaction_executes_witness:
  "(\<exists>t1 s1 oks t2 s2 ok t3 s3. multi tx_demo \<lparr>tr_cmds = [], tr_result = None\<rparr> (None, False) = (True, t1, s1) \<and>
     queue_all tx_demo [(lit ''GET'', [lit ''k''])] t1 s1 = (oks, t2, s2) \<and> exec tx_demo t2 s2 = (ok, t3, s3) \<and>
     (ok \<longleftrightarrow> False \<notin> set oks \<and> \<not> snd s2)) \<and>
   (\<exists>t1 s1 oks t2 s2 ok t3 s3. multi tx_demo \<lparr>tr_cmds = [], tr_result = None\<rparr> (None, True) = (True, t1, s1) \<and>
     queue_all tx_demo [(lit ''get'', [lit ''k'']), (lit ''NOPE'', [])] t1 s1 = (oks, t2, s2) \<and>
     exec tx_demo t2 s2 = (ok, t3, s3) \<and> (ok \<longleftrightarrow> False \<notin> set oks \<and> \<not> snd s2))"
proof -
  have c: "\<forall>(cmd, args) \<in> set [(lit ''GET'', [lit ''k''])]. \<not> tx_control cmd \<and> small_args (cmd # args)"
    "\<forall>(cmd, args) \<in> set [(lit ''get'', [lit ''k'']), (lit ''NOPE'', [])]. \<not> tx_control cmd \<and> small_args (cmd # args)"
    by (simp_all add: tx_control_def small_args_def lit_def tolower_def isupper_def)
  from transaction_executes [OF tx_demo_server _ c(1), of "(None, False)" "\<lparr>tr_cmds = [], tr_result = None\<rparr>"]
    transaction_executes [OF tx_demo_server _ c(2), of "(None, True)" "\<lparr>tr_cmds = [], tr_result = None\<rparr>"]
  show ?thesis by fastforce
qed

section \<open>UNWATCH\<close>

theorem unwatch_sends_unset: "unwatch srv t s = Uninit"
  by (simp add: unwatch_def)

end
