(* ===== verification/Redis_Geo.thy ===== *)
theory Redis_Geo
  imports Redis_Hash Redis_Zset
begin

text \<open>
  \<^verbatim>\<open>aclredis/src/redis/redis_geo.cpp\<close>: the geo commands, in the manner of \<open>Redis_List\<close>. The numbers are
  floating-point numbers of any type \<open>'d\<close>: how they are printed, read and compared, and the
  constants of \<^verbatim>\<open>redis_geo.hpp\<close>, are the fields of a record that the definitions take. The members
  found by a search are kept in the command (\<open>positions_\<close>), which every search clears first, so a
  search is a function to the list of members.

  Shown: what the position and search commands make of the replies the redis documentation
  describes, and that GEOPOS and GEOHASH for one member never succeed.
\<close>

section \<open>Numbers and members\<close>

record 'd geo_double =
  gd_print :: "'d \<Rightarrow> cstr"
  gd_atof :: "cstr \<Rightarrow> 'd"
  gd_less :: "'d \<Rightarrow> 'd \<Rightarrow> bool"
  gd_invalid :: 'd
  gd_lo_min :: 'd
  gd_lo_max :: 'd
  gd_la_min :: 'd
  gd_la_max :: 'd
  gd_minus_one :: 'd

record 'd geo_member =
  gm_name :: cstr
  gm_dist :: 'd
  gm_hash :: int
  gm_longitude :: 'd
  gm_latitude :: 'd

definition geo_member_new :: "'d geo_double \<Rightarrow> cstr \<Rightarrow> 'd geo_member" where
  "geo_member_new D name = \<lparr>gm_name = name, gm_dist = gd_minus_one D, gm_hash = -1,
     gm_longitude = gd_invalid D, gm_latitude = gd_invalid D\<rparr>"

text \<open>\<open>a >= b\<close> of the code is \<open>b < a\<close> or \<open>b = a\<close>.\<close>

definition gd_le :: "'d geo_double \<Rightarrow> 'd \<Rightarrow> 'd \<Rightarrow> bool" where
  "gd_le D a b \<longleftrightarrow> gd_less D a b \<or> a = b"

definition set_coordinate :: "'d geo_double \<Rightarrow> 'd \<Rightarrow> 'd \<Rightarrow> 'd geo_member \<Rightarrow> 'd geo_member" where
  "set_coordinate D lo la m =
     (if gd_le D (gd_lo_min D) lo \<and> gd_le D lo (gd_lo_max D) \<and> gd_le D (gd_la_min D) la \<and> gd_le D la (gd_la_max D)
      then m\<lparr>gm_longitude := lo, gm_latitude := la\<rparr> else m)"

text \<open>\<open>redis_result::get_double\<close>, and \<open>%.8f\<close> into a buffer of 32 bytes.\<close>

definition rr_get_double :: "'d geo_double \<Rightarrow> redis_result \<Rightarrow> 'd" where
  "rr_get_double D rr =
     (if result_type rr \<noteq> REDIS_RESULT_STRING then gd_minus_one D
      else case rr_get rr 0 of
        None \<Rightarrow> gd_minus_one D
      | Some p \<Rightarrow> if cstr_of p = [] then gd_minus_one D else gd_atof D (cstr_of p))"

definition gd_arg :: "'d geo_double \<Rightarrow> 'd \<Rightarrow> cstr" where
  "gd_arg D x = c_snprintf 32 (gd_print D x)"

datatype geo_unit = GEO_UNIT_FT | GEO_UNIT_M | GEO_UNIT_MI | GEO_UNIT_KM

text \<open>The unit is an \<open>int\<close>; \<open>None\<close> is NULL.\<close>

definition get_unit :: "int \<Rightarrow> cstr option" where
  "get_unit u =
     (if u < 0 \<or> u > 3 then None
      else Some ([lit ''ft'', lit ''m'', lit ''mi'', lit ''km''] ! nat u))"

section \<open>GEOADD\<close>

definition geoadd :: "'s server \<Rightarrow> 'd geo_double \<Rightarrow> cstr \<Rightarrow> cstr \<Rightarrow> 'd \<Rightarrow> 'd \<Rightarrow> 's \<Rightarrow> int \<times> 's" where
  "geoadd srv D key member lo la =
     run_with (fst \<circ> get_number) srv [lit ''GEOADD'', key, gd_arg D lo, gd_arg D la, member]"

definition geoadd_args :: "'d geo_double \<Rightarrow> cstr \<Rightarrow> (byte list \<times> 'd \<times> 'd) list \<Rightarrow> byte list list" where
  "geoadd_args D key ms =
     [lit ''GEOADD'', key] @ concat (map (\<lambda>(m, lo, la). [gd_arg D lo, gd_arg D la, m]) ms)"

text \<open>Plain arrays of C strings and of numbers, all of \<open>size\<close> elements.\<close>

definition geoadd_arrays :: "'s server \<Rightarrow> 'd geo_double \<Rightarrow> cstr \<Rightarrow> (byte list \<times> 'd \<times> 'd) list \<Rightarrow> 's \<Rightarrow> int \<times> 's" where
  "geoadd_arrays srv D key ms =
     run_with (fst \<circ> get_number) srv (geoadd_args D key (map (apfst cstr_of) ms))"

definition geoadd_vectors ::
  "'s server \<Rightarrow> 'd geo_double \<Rightarrow> cstr \<Rightarrow> byte list list \<Rightarrow> 'd list \<Rightarrow> 'd list \<Rightarrow> 's \<Rightarrow> int \<times> 's"
where
  "geoadd_vectors srv D key members los las s =
     (if members = [] then (-1, s)
      else if length members \<noteq> length los then (-1, s)
      else if length las \<noteq> length los then (-1, s)
      else run_with (fst \<circ> get_number) srv (geoadd_args D key (zip members (zip los las))) s)"

section \<open>GEOHASH, GEOPOS and GEODIST\<close>

definition geohash ::
  "'s server \<Rightarrow> cstr \<Rightarrow> byte list list \<Rightarrow> 's \<Rightarrow> (bool \<times> byte list list option) \<times> 's"
where
  "geohash srv key members =
     run_with (\<lambda>r. case get_strings r of (n, rs) \<Rightarrow>
         if n < 0 then (False, rs)
         else (case rs of None \<Rightarrow> (False, rs) | Some xs \<Rightarrow> (length xs = length members, rs)))
       srv (build_names (lit ''GEOHASH'') (Some key) members)"

definition geohash_one :: "'s server \<Rightarrow> cstr \<Rightarrow> byte list \<Rightarrow> 's \<Rightarrow> (bool \<times> byte list option) \<times> 's" where
  "geohash_one srv key member =
     run_with (\<lambda>r. (\<not> fst (get_string r) < 0, snd (get_string r))) srv
       (build_names_cstr (lit ''GEOHASH'') (Some key) [member])"

definition in_bounds :: "'d geo_double \<Rightarrow> 'd \<Rightarrow> 'd \<Rightarrow> bool" where
  "in_bounds D lo la \<longleftrightarrow>
     \<not> (gd_less D lo (gd_lo_min D) \<or> gd_less D (gd_lo_max D) lo) \<and>
     \<not> (gd_less D la (gd_la_min D) \<or> gd_less D (gd_la_max D) la)"

definition one_position :: "'d geo_double \<Rightarrow> redis_result \<Rightarrow> 'd \<times> 'd" where
  "one_position D child =
     (let invalid = (gd_invalid D, gd_invalid D) in
      if result_type child \<noteq> REDIS_RESULT_ARRAY then invalid
      else case rr_children child of
        [rr_lo, rr_la] \<Rightarrow>
          if result_type rr_lo \<noteq> REDIS_RESULT_STRING \<or> result_type rr_la \<noteq> REDIS_RESULT_STRING then invalid
          else (let lo = rr_get_double D rr_lo; la = rr_get_double D rr_la
                in if in_bounds D lo la then (lo, la) else invalid)
      | _ \<Rightarrow> invalid)"

text \<open>The positions are appended to the caller's vector.\<close>

definition geopos ::
  "'s server \<Rightarrow> 'd geo_double \<Rightarrow> cstr \<Rightarrow> byte list list \<Rightarrow> ('d \<times> 'd) list \<Rightarrow> 's \<Rightarrow> (bool \<times> ('d \<times> 'd) list) \<times> 's"
where
  "geopos srv D key members out =
     run_with (\<lambda>r. if \<not> is_type REDIS_RESULT_ARRAY r then (False, out)
                    else if rr_children (the r) = [] then (False, out)
                    else (True, out @ map (one_position D) (rr_children (the r))))
       srv (build_names (lit ''GEOPOS'') (Some key) members)"

text \<open>For one member the request is GEOHASH.\<close>

definition position_result :: "'d geo_double \<Rightarrow> redis_result option \<Rightarrow> bool \<times> ('d \<times> 'd)" where
  "position_result D r =
     (let invalid = (gd_invalid D, gd_invalid D) in
      if \<not> is_type REDIS_RESULT_ARRAY r then (False, invalid)
      else case rr_children (the r) of
        [child] \<Rightarrow>
          if result_type child \<noteq> REDIS_RESULT_ARRAY then (False, invalid)
          else (case rr_children child of
            [rr_lo, rr_la] \<Rightarrow>
              (let lo = rr_get_double D rr_lo; la = rr_get_double D rr_la
               in if in_bounds D lo la then (True, (lo, la)) else (False, invalid))
          | _ \<Rightarrow> (False, invalid))
      | _ \<Rightarrow> (False, invalid))"

definition geopos_one :: "'s server \<Rightarrow> 'd geo_double \<Rightarrow> cstr \<Rightarrow> byte list \<Rightarrow> 's \<Rightarrow> (bool \<times> ('d \<times> 'd)) \<times> 's" where
  "geopos_one srv D key member =
     run_with (position_result D) srv (build_names_cstr (lit ''GEOHASH'') (Some key) [member])"

text \<open>An error leaves the buffer empty and is not 0.\<close>

definition geodist :: "'s server \<Rightarrow> 'd geo_double \<Rightarrow> cstr \<Rightarrow> byte list \<Rightarrow> byte list \<Rightarrow> int \<Rightarrow> 's \<Rightarrow> 'd \<times> 's" where
  "geodist srv D key m1 m2 u =
     run_with (\<lambda>r. case get_string r of (n, b) \<Rightarrow>
         if n = 0 then gd_minus_one D else gd_atof D (cstr_of (case b of None \<Rightarrow> [] | Some t \<Rightarrow> t)))
       srv (build_names_cstr (lit ''GEODIST'') (Some key)
         ([m1, m2] @ (case get_unit u of None \<Rightarrow> [] | Some t \<Rightarrow> [t])))"

section \<open>GEORADIUS and GEORADIUSBYMEMBER\<close>

datatype geo_sort = GEO_SORT_NONE | GEO_SORT_ASC | GEO_SORT_DESC

text \<open>What the two requests share. The flags are the bits 0 (coordinates), 1 (distance) and 2 (hash).\<close>

definition radius_options :: "int \<Rightarrow> u32 \<Rightarrow> geo_sort \<Rightarrow> byte list list" where
  "radius_options u flags srt =
     [case get_unit u of None \<Rightarrow> lit ''m'' | Some t \<Rightarrow> t] @
     (if bit flags 0 then [lit ''WITHCOORD''] else []) @
     (if bit flags 1 then [lit ''WITHDIST''] else []) @
     (if bit flags 2 then [lit ''WITHHASH''] else []) @
     (case srt of GEO_SORT_ASC \<Rightarrow> [lit ''ASC''] | GEO_SORT_DESC \<Rightarrow> [lit ''DESC''] | GEO_SORT_NONE \<Rightarrow> [])"

text \<open>One more element of an entry: a distance, a hash, or coordinates. After a distance or a hash the
  code looks for coordinates in the same element, which has no children then.\<close>

definition pos_element :: "'d geo_double \<Rightarrow> redis_result \<Rightarrow> 'd geo_member \<Rightarrow> 'd geo_member" where
  "pos_element D c m =
     (let coordinates = (\<lambda>m. case rr_children c of
            [a, b] \<Rightarrow> if result_type a = REDIS_RESULT_STRING \<and> result_type b = REDIS_RESULT_STRING
                      then set_coordinate D (rr_get_double D a) (rr_get_double D b) m else m
          | _ \<Rightarrow> m)
      in if result_type c = REDIS_RESULT_STRING then coordinates (m\<lparr>gm_dist := rr_get_double D c\<rparr>)
         else if result_type c = REDIS_RESULT_INTEGER then
           (case rr_get_integer64 c of (h, ok) \<Rightarrow> coordinates (if ok then m\<lparr>gm_hash := h\<rparr> else m))
         else if result_type c \<noteq> REDIS_RESULT_ARRAY then m
         else coordinates m)"

definition add_one_pos :: "'d geo_double \<Rightarrow> redis_result \<Rightarrow> 'd geo_member list \<Rightarrow> 'd geo_member list" where
  "add_one_pos D rr ps =
     (if result_type rr = REDIS_RESULT_STRING then ps @ [geo_member_new D (cstr_of (rr_argv_to_string rr))]
      else if result_type rr \<noteq> REDIS_RESULT_ARRAY then ps
      else case rr_children rr of
        [] \<Rightarrow> ps
      | c # ch \<Rightarrow>
          if result_type c \<noteq> REDIS_RESULT_STRING then ps
          else ps @ [fold (pos_element D) ch (geo_member_new D (cstr_of (rr_argv_to_string c)))])"

definition radius_result :: "'d geo_double \<Rightarrow> redis_result option \<Rightarrow> 'd geo_member list" where
  "radius_result D r =
     (if \<not> is_type REDIS_RESULT_ARRAY r then [] else fold (add_one_pos D) (rr_children (the r)) [])"

definition georadius ::
  "'s server \<Rightarrow> 'd geo_double \<Rightarrow> cstr \<Rightarrow> 'd \<Rightarrow> 'd \<Rightarrow> 'd \<Rightarrow> int \<Rightarrow> u32 \<Rightarrow> geo_sort \<Rightarrow> 's \<Rightarrow> 'd geo_member list \<times> 's"
where
  "georadius srv D key lo la radius u flags srt = run_with (radius_result D) srv
     ([lit ''GEORADIUS'', key, gd_arg D lo, gd_arg D la, gd_arg D radius] @ radius_options u flags srt)"

definition georadiusbymember ::
  "'s server \<Rightarrow> 'd geo_double \<Rightarrow> cstr \<Rightarrow> cstr \<Rightarrow> 'd \<Rightarrow> int \<Rightarrow> u32 \<Rightarrow> geo_sort \<Rightarrow> 's \<Rightarrow> 'd geo_member list \<times> 's"
where
  "georadiusbymember srv D key member radius u flags srt = run_with (radius_result D) srv
     ([lit ''GEORADIUSBYMEMBER'', key, member, gd_arg D radius] @ radius_options u flags srt)"

section \<open>The replies of the documentation\<close>

text \<open>A number as the server prints it: a C string that is not empty and reads as the number.\<close>

definition prints :: "'d geo_double \<Rightarrow> cstr \<Rightarrow> 'd \<Rightarrow> bool" where
  "prints D t x \<longleftrightarrow> c_string t \<and> t \<noteq> [] \<and> gd_atof D t = x"

lemma get_double_prints: "prints D t x \<Longrightarrow> rr_get_double D (resp_result (RBulk t)) = x"
  by (simp add: prints_def rr_get_double_def rr_get_def)

definition resp_found :: "cstr \<times> cstr \<times> nat \<times> cstr \<times> cstr \<Rightarrow> resp" where
  "resp_found f = (case f of (name, dist, hash, lo, la) \<Rightarrow>
     RArray [RBulk name, RBulk dist, RInteger (dec_of_nat hash), RArray [RBulk lo, RBulk la]])"

text \<open>a search with distance, hash and coordinates. Every entry of the reply becomes one member, in the order of the
  reply, with its name, its distance, its hash and its coordinates.\<close>

theorem georadius_found:
  assumes "fst (run_request srv ([lit ''GEORADIUS'', key, gd_arg D lo, gd_arg D la, gd_arg D radius] @ radius_options u flags srt) s) =
      Some (resp_result (RArray (map (\<lambda>(n, d, h, x, y). resp_found (n, gd_print D d, h, gd_print D x, gd_print D y)) ms)))"
    and "\<forall>x. prints D (gd_print D x) x"
    and "\<forall>(n, d, h, x, y) \<in> set ms. c_string n \<and> h < 2 ^ 63 \<and>
      gd_le D (gd_lo_min D) x \<and> gd_le D x (gd_lo_max D) \<and> gd_le D (gd_la_min D) y \<and> gd_le D y (gd_la_max D)"
  shows "fst (georadius srv D key lo la radius u flags srt s) =
    map (\<lambda>(n, d, h, x, y). \<lparr>gm_name = n, gm_dist = d, gm_hash = int h, gm_longitude = x, gm_latitude = y\<rparr>) ms"
proof -
  have one: "add_one_pos D (resp_result (resp_found (n, gd_print D d, h, gd_print D x, gd_print D y))) ps =
      ps @ [\<lparr>gm_name = n, gm_dist = d, gm_hash = int h, gm_longitude = x, gm_latitude = y\<rparr>]"
    if "c_string n" "h < 2 ^ 63" "gd_le D (gd_lo_min D) x" "gd_le D x (gd_lo_max D)" "gd_le D (gd_la_min D) y"
      "gd_le D y (gd_la_max D)" for n d h x y ps
  proof -
    have "acl_atoi64 (dec_of_nat h) = int h"
    proof -
      have "c_strtoull (dec_of_nat h) = of_nat h" using that(2) by (simp add: c_strtoull_def Let_def)
      with that(2) show ?thesis
        by (simp add: acl_atoi64_def sint_uint unsigned_of_nat take_bit_nat_eq_self signed_take_bit_int_eq_self_iff)
    qed
    then have "rr_get_integer64 (resp_result (RInteger (dec_of_nat h))) = (int h, True)"
      by (simp add: rr_get_integer64_def rr_get_def cstr_of_dec)
    with that(1,3-) show ?thesis
      using get_double_prints [OF assms(2) [THEN spec]]
      by (simp add: add_one_pos_def resp_found_def pos_element_def geo_member_new_def set_coordinate_def rr_argv_to_string_def Let_def)
  qed
  have "fold (add_one_pos D) (map (resp_result \<circ> (\<lambda>(n, d, h, x, y). resp_found (n, gd_print D d, h, gd_print D x, gd_print D y))) ms) ps =
      ps @ map (\<lambda>(n, d, h, x, y). \<lparr>gm_name = n, gm_dist = d, gm_hash = int h, gm_longitude = x, gm_latitude = y\<rparr>) ms" for ps
    using assms(3)
  proof (induction ms arbitrary: ps)
    case (Cons m ms)
    obtain n d h x y where m: "m = (n, d, h, x, y)" by (cases m) auto
    from Cons.prems one [of n h x y d ps] Cons.IH show ?case by (simp add: m)
  qed simp
  from this [of "[]"] assms(1) show ?thesis
    by (simp add: georadius_def run_with_def radius_result_def is_type_def comp_def)
qed

text \<open>Numbers without a fraction, for the witnesses.\<close>

definition geo_demo :: "nat geo_double" where
  "geo_demo = \<lparr>gd_print = dec_of_nat, gd_atof = dec_value, gd_less = (<), gd_invalid = 360, gd_lo_min = 0, gd_lo_max = 180,
     gd_la_min = 0, gd_la_max = 85, gd_minus_one = 999\<rparr>"

lemma geo_demo_prints: "prints geo_demo (gd_print geo_demo x) x"
proof -
  have "c_string (dec_of_nat x)" using dec_not_in [of 0 x] by (simp add: c_string_def isdigit_def)
  then show ?thesis by (simp add: prints_def geo_demo_def)
qed

theorem georadius_found_witness:
  "fst (georadius (\<lambda>req (n :: nat). (Some (resp_result (RArray [resp_found (lit ''rome'', dec_of_nat 3, 7, dec_of_nat 1, dec_of_nat 2)])), n))
     geo_demo (lit ''k'') 1 1 9 1 7 GEO_SORT_ASC 0) =
   [\<lparr>gm_name = lit ''rome'', gm_dist = 3, gm_hash = 7, gm_longitude = 1, gm_latitude = 2\<rparr>]"
proof -
  let ?srv = "\<lambda>req (n :: nat). (Some (resp_result (RArray [resp_found (lit ''rome'', dec_of_nat 3, 7, dec_of_nat 1, dec_of_nat 2)])), n)"
  have "fst (run_request ?srv ([lit ''GEORADIUS'', lit ''k'', gd_arg geo_demo 1, gd_arg geo_demo 1, gd_arg geo_demo 9] @
      radius_options 1 7 GEO_SORT_ASC) 0) =
    Some (resp_result (RArray (map (\<lambda>(n, d, h, x, y).
      resp_found (n, gd_print geo_demo d, h, gd_print geo_demo x, gd_print geo_demo y)) [(lit ''rome'', 3, 7, 1, 2)])))"
    by (simp add: run_request_def geo_demo_def)
  from georadius_found [OF this] geo_demo_prints show ?thesis
    by (simp add: c_string_def lit_def gd_le_def geo_demo_def)
qed

section \<open>One member\<close>

text \<open>a documented reply to GEOHASH is an array of strings, with one element for every member. The call for the position of
  one member sends GEOHASH too and looks for an array in the array; the call for the hash of one member looks for a string.
  Neither succeeds on any such reply, whatever hashes it holds.\<close>

theorem one_member_never_found:
  assumes "fst (run_request srv (build_names_cstr (lit ''GEOHASH'') (Some key) [member]) s) =
      Some (resp_result (RArray (map RBulk hs)))"
  shows "fst (geopos_one srv D key member s) = (False, (gd_invalid D, gd_invalid D)) \<and>
    fst (geohash_one srv key member s) = (False, None)"
  using assms
  by (cases hs) (auto simp: geopos_one_def geohash_one_def run_with_def position_result_def get_string_def is_type_def
      Let_def split: list.splits)

theorem one_member_never_found_witness:
  "fst (geohash_one (\<lambda>req (n :: nat). (Some (resp_result (RArray (map RBulk [lit ''sqc8'']))), n)) (lit ''k'') (lit ''rome'') 0) =
     (False, None)"
  using one_member_never_found [of "\<lambda>req (n :: nat). (Some (resp_result (RArray (map RBulk [lit ''sqc8'']))), n)" "lit ''k''" "lit ''rome''" 0
      "[lit ''sqc8'']" geo_demo]
  by (simp add: run_request_def)

text \<open>An error reply is not told from a distance: it reads as the number of the empty text.\<close>

theorem geodist_error:
  assumes "fst (run_request srv (build_names_cstr (lit ''GEODIST'') (Some key)
      ([m1, m2] @ (case get_unit u of None \<Rightarrow> [] | Some t \<Rightarrow> [t]))) s) = Some (resp_result (RError e))"
  shows "fst (geodist srv D key m1 m2 u s) = gd_atof D []"
proof -
  have "get_string (Some (resp_result (RError e))) = (-1, None)" by (simp add: get_string_def is_type_def)
  with assms show ?thesis by (simp add: geodist_def run_with_def cstr_of_def)
qed

theorem geodist_error_witness:
  "fst (geodist (\<lambda>req (n :: nat). (Some (resp_result (RError (lit ''ERR''))), n)) geo_demo (lit ''k'') (lit ''a'') (lit ''b'') 1 0) = 0"
  using geodist_error [of "\<lambda>req (n :: nat). (Some (resp_result (RError (lit ''ERR''))), n)" "lit ''k''" "lit ''a''" "lit ''b''" 1 0
      "lit ''ERR''" geo_demo]
  by (simp add: run_request_def geo_demo_def)

section \<open>Positions\<close>

definition resp_position :: "'d geo_double \<Rightarrow> ('d \<times> 'd) option \<Rightarrow> resp" where
  "resp_position D p = (case p of None \<Rightarrow> RNull | Some (lo, la) \<Rightarrow> RArray [RBulk (gd_print D lo), RBulk (gd_print D la)])"

text \<open>GEOPOS of several members: a position for each, the invalid one for a member that the server does not have.\<close>

theorem geopos_read:
  assumes "fst (run_request srv (build_names (lit ''GEOPOS'') (Some key) members) s) =
      Some (resp_result (RArray (map (resp_position D) ps)))"
    and "\<forall>x. prints D (gd_print D x) x" "\<forall>lo la. Some (lo, la) \<in> set ps \<longrightarrow> in_bounds D lo la" "ps \<noteq> []"
  shows "fst (geopos srv D key members out s) =
    (True, out @ map (\<lambda>p. case p of None \<Rightarrow> (gd_invalid D, gd_invalid D) | Some q \<Rightarrow> q) ps)"
proof -
  have one: "one_position D (resp_result (resp_position D p)) = (case p of None \<Rightarrow> (gd_invalid D, gd_invalid D) | Some q \<Rightarrow> q)"
    if "\<forall>lo la. p = Some (lo, la) \<longrightarrow> in_bounds D lo la" for p
    using that get_double_prints [OF assms(2) [THEN spec]]
    by (cases p) (auto simp: one_position_def resp_position_def Let_def)
  have "map (one_position D \<circ> (resp_result \<circ> resp_position D)) ps =
      map (\<lambda>p. case p of None \<Rightarrow> (gd_invalid D, gd_invalid D) | Some q \<Rightarrow> q) ps"
  proof (intro map_cong refl)
    fix p
    assume "p \<in> set ps"
    with assms(3) have "\<forall>lo la. p = Some (lo, la) \<longrightarrow> in_bounds D lo la" by blast
    from one [OF this] show "(one_position D \<circ> (resp_result \<circ> resp_position D)) p =
        (case p of None \<Rightarrow> (gd_invalid D, gd_invalid D) | Some q \<Rightarrow> q)" by simp
  qed
  with assms(1,4) show ?thesis by (simp add: geopos_def run_with_def is_type_def comp_def)
qed

theorem geopos_read_witness:
  "fst (geopos (\<lambda>req (n :: nat). (Some (resp_result (RArray [resp_position geo_demo (Some (1, 2)), resp_position geo_demo None])), n))
     geo_demo (lit ''k'') [lit ''a'', lit ''b''] [] 0) = (True, [(1, 2), (360, 360)])"
proof -
  let ?srv = "\<lambda>req (n :: nat). (Some (resp_result (RArray [resp_position geo_demo (Some (1, 2)), resp_position geo_demo None])), n)"
  have "fst (run_request ?srv (build_names (lit ''GEOPOS'') (Some (lit ''k'')) [lit ''a'', lit ''b'']) 0) =
    Some (resp_result (RArray (map (resp_position geo_demo) [Some (1, 2), None])))"
    by (simp add: run_request_def)
  from geopos_read [OF this] geo_demo_prints show ?thesis
    by (simp add: in_bounds_def geo_demo_def)
qed

end
