(* ===== verification/Redis_Server.thy ===== *)
theory Redis_Server
  imports Redis_Stream Redis_Slots
begin

text \<open>
  \<^verbatim>\<open>aclredis/src/redis/redis_server.cpp\<close>, \<^verbatim>\<open>redis_sentinel.cpp\<close> and \<^verbatim>\<open>redis_role.cpp\<close>, with the classes
  of \<^verbatim>\<open>redis_master.hpp\<close>, \<^verbatim>\<open>redis_slave.hpp\<close> and \<^verbatim>\<open>redis_role.hpp\<close>, in the manner of \<open>Redis_List\<close>.
  INFO into a map is a loop over the string of the reply that ends when the string is empty, so it
  is a partial function: the outer \<open>None\<close> is a call that does not return, an inner one a fault.

  Shown: for which replies INFO into a map returns, and what; what a sentinel's reply makes of a
  master's record; that the documented replies to ROLE of a master, and those to BGSAVE and
  BGREWRITEAOF, are taken for failures.
\<close>

section \<open>Server commands\<close>

definition bgrewriteaof :: "'s server \<Rightarrow> 's \<Rightarrow> bool \<times> 's" where
  "bgrewriteaof srv = run_with (\<lambda>r. check_status r (Some (lit ''Background''))) srv [lit ''BGREWRITEAOF'']"

definition bgsave :: "'s server \<Rightarrow> 's \<Rightarrow> bool \<times> 's" where
  "bgsave srv = run_with status_ok srv [lit ''BGSAVE'']"

definition client_getname :: "'s server \<Rightarrow> 's \<Rightarrow> (bool \<times> byte list option) \<times> 's" where
  "client_getname srv =
     run_with (\<lambda>r. (fst (get_string r) > 0, snd (get_string r))) srv [lit ''CLIENT'', lit ''GETNAME'']"

definition client_kill :: "'s server \<Rightarrow> cstr \<Rightarrow> 's \<Rightarrow> bool \<times> 's" where
  "client_kill srv addr = run_with status_ok srv [lit ''CLIENT'', lit ''KILL'', addr]"

definition client_list :: "'s server \<Rightarrow> 's \<Rightarrow> (int \<times> byte list option) \<times> 's" where
  "client_list srv = run_with get_string srv [lit ''CLIENT'', lit ''LIST'']"

definition client_setname :: "'s server \<Rightarrow> cstr \<Rightarrow> 's \<Rightarrow> bool \<times> 's" where
  "client_setname srv name = run_with status_ok srv [lit ''CLIENT'', lit ''SETNAME'', name]"

definition config_get :: "'s server \<Rightarrow> cstr \<Rightarrow> 's \<Rightarrow> (byte list \<rightharpoonup> byte list) option \<times> 's" where
  "config_get srv parameter = run_with get_string_map srv [lit ''CONFIG'', lit ''GET'', parameter]"

definition config_resetstat :: "'s server \<Rightarrow> 's \<Rightarrow> bool \<times> 's" where
  "config_resetstat srv = run_with status_ok srv [lit ''CONFIG'', lit ''RESETSTAT'']"

definition config_rewrite :: "'s server \<Rightarrow> 's \<Rightarrow> bool \<times> 's" where
  "config_rewrite srv = run_with status_ok srv [lit ''CONFIG'', lit ''REWRITE'']"

definition config_set :: "'s server \<Rightarrow> cstr \<Rightarrow> cstr \<Rightarrow> 's \<Rightarrow> bool \<times> 's" where
  "config_set srv name v = run_with status_ok srv [lit ''CONFIG'', lit ''SET'', name, v]"

definition dbsize :: "'s server \<Rightarrow> 's \<Rightarrow> int \<times> 's" where
  "dbsize srv = run_with (fst \<circ> get_number) srv [lit ''DBSIZE'']"

definition flushall :: "'s server \<Rightarrow> 's \<Rightarrow> bool \<times> 's" where
  "flushall srv = run_with status_ok srv [lit ''FLUSHALL'']"

definition flushdb :: "'s server \<Rightarrow> 's \<Rightarrow> bool \<times> 's" where
  "flushdb srv = run_with status_ok srv [lit ''FLUSHDB'']"

definition server_info :: "'s server \<Rightarrow> 's \<Rightarrow> (int \<times> byte list option) \<times> 's" where
  "server_info srv = run_with get_string srv [lit ''INFO'']"

text \<open>One line: a colon at its beginning is passed over, a name without a value left out.\<close>

definition server_info_line :: "(cstr \<times> cstr) list \<Rightarrow> byte list \<Rightarrow> (cstr \<times> cstr) list" where
  "server_info_line out line =
     (let name = cstr_of (line @ [0]); name = (if name \<noteq> [] \<and> hd name = 58 then tl name else name) in
      case strchr_idx name 58 of
        None \<Rightarrow> out
      | Some i \<Rightarrow> if drop (i + 1) name = [] then out else map_put (take i name) (drop (i + 1) name) out)"

partial_function (option) server_info_loop ::
  "cpp_string \<Rightarrow> (cstr \<times> cstr) list \<Rightarrow> (cstr \<times> cstr) list option option"
where
  "server_info_loop buf out =
     (if cs_empty buf then Some (Some out)
      else case scan_line buf True False of
        None \<Rightarrow> Some None
      | Some r \<Rightarrow> server_info_loop (snd (snd r))
          (if fst (snd r) = [] then out else server_info_line out (fst (snd r))))"

definition server_info_map ::
  "'s server \<Rightarrow> (nat \<Rightarrow> byte) \<Rightarrow> 's \<Rightarrow> (int \<times> (cstr \<times> cstr) list) option option \<times> 's"
where
  "server_info_map srv junk =
     run_with (\<lambda>r. case get_string r of
        (n, None) \<Rightarrow> Some (Some (n, []))
      | (n, Some t) \<Rightarrow>
          if n \<le> 0 then Some (Some (n, []))
          else (case string_with junk t of
            None \<Rightarrow> Some None
          | Some buf \<Rightarrow> map_option (map_option (\<lambda>out. (int (length out), out))) (server_info_loop buf [])))
       srv [lit ''INFO'']"

definition lastsave :: "'s server \<Rightarrow> 's \<Rightarrow> int \<times> 's" where
  "lastsave srv = run_with (fst \<circ> get_number64) srv [lit ''LASTSAVE'']"

definition monitor :: "'s server \<Rightarrow> 's \<Rightarrow> bool \<times> 's" where
  "monitor srv = run_with status_ok srv [lit ''MONITOR'']"

text \<open>Read without a request.\<close>

definition get_command :: "'s server \<Rightarrow> 's \<Rightarrow> (bool \<times> cstr option) \<times> 's" where
  "get_command srv s =
     apfst (\<lambda>r. if \<not> is_type REDIS_RESULT_STATUS r then (False, None)
                 else if rr_get_status (the r) = [] then (False, None)
                 else (True, Some (rr_get_status (the r)))) (srv [] s)"

definition save :: "'s server \<Rightarrow> 's \<Rightarrow> bool \<times> 's" where
  "save srv = run_with status_ok srv [lit ''SAVE'']"

definition shutdown :: "'s server \<Rightarrow> bool \<Rightarrow> 's \<Rightarrow> unit \<times> 's" where
  "shutdown srv save_data =
     run_with (\<lambda>_. ()) srv [lit ''SHUTDOWN'', if save_data then lit ''save'' else lit ''nosave'']"

definition slaveof :: "'s server \<Rightarrow> cstr \<Rightarrow> int \<Rightarrow> 's \<Rightarrow> bool \<times> 's" where
  "slaveof srv ip port = run_with status_ok srv [lit ''SLAVEOF'', ip, int_arg port]"

definition slowlog_get :: "'s server \<Rightarrow> int \<Rightarrow> 's \<Rightarrow> redis_result option \<times> 's" where
  "slowlog_get srv num =
     run_request srv ([lit ''SLOWLOG'', lit ''GET''] @ (if num > 0 then [int_arg num] else []))"

definition slowlog_len :: "'s server \<Rightarrow> 's \<Rightarrow> int \<times> 's" where
  "slowlog_len srv = run_with (fst \<circ> get_number) srv [lit ''SLOWLOG'', lit ''LEN'']"

definition slowlog_reset :: "'s server \<Rightarrow> 's \<Rightarrow> bool \<times> 's" where
  "slowlog_reset srv = run_with status_ok srv [lit ''SLOWLOG'', lit ''RESET'']"

definition time_result :: "redis_result option \<Rightarrow> (int \<times> int) option" where
  "time_result r = (case get_strings r of (n, ts) \<Rightarrow>
     if n \<le> 0 then None
     else case ts of
       Some (a # b # _) \<Rightarrow> Some (c_strtol (cstr_of a), c_atoi (cstr_of b))
     | _ \<Rightarrow> None)"

definition get_time :: "'s server \<Rightarrow> 's \<Rightarrow> (int \<times> int) option \<times> 's" where
  "get_time srv = run_with time_result srv [lit ''TIME'']"

section \<open>Sentinel\<close>

record redis_master =
  rm_name :: cstr
  rm_ip :: cstr
  rm_port :: int
  rm_runid :: cstr
  rm_flags :: cstr
  rm_link_pending_commands :: u32
  rm_link_refcount :: u32
  rm_last_ping_sent :: u32
  rm_last_ok_ping_reply :: u32
  rm_last_ping_reply :: u32
  rm_down_after_milliseconds :: u32
  rm_info_refresh :: u32
  rm_role_reported :: cstr
  rm_role_reported_time :: int
  rm_config_epoch :: int
  rm_num_slaves :: u32
  rm_num_other_sentinels :: u32
  rm_quorum :: u32
  rm_failover_timeout :: u32
  rm_parallel_syncs :: u32

definition redis_master_new :: redis_master where
  "redis_master_new = \<lparr>rm_name = [], rm_ip = [], rm_port = 0, rm_runid = [], rm_flags = [],
     rm_link_pending_commands = 0, rm_link_refcount = 0, rm_last_ping_sent = 0,
     rm_last_ok_ping_reply = 0, rm_last_ping_reply = 0, rm_down_after_milliseconds = 0,
     rm_info_refresh = 0, rm_role_reported = [], rm_role_reported_time = 0, rm_config_epoch = 0,
     rm_num_slaves = 0, rm_num_other_sentinels = 0, rm_quorum = 0, rm_failover_timeout = 0,
     rm_parallel_syncs = 0\<rparr>"

definition master_add_member :: "cstr \<Rightarrow> cstr \<Rightarrow> redis_master \<Rightarrow> redis_master" where
  "master_add_member n v out =
     (if c_strcasecmp_eq n (lit ''name'') then out\<lparr>rm_name := v\<rparr>
      else if c_strcasecmp_eq n (lit ''ip'') then out\<lparr>rm_ip := v\<rparr>
      else if c_strcasecmp_eq n (lit ''port'') then out\<lparr>rm_port := c_atoi v\<rparr>
      else if c_strcasecmp_eq n (lit ''runid'') then out\<lparr>rm_runid := v\<rparr>
      else if c_strcasecmp_eq n (lit ''flags'') then out\<lparr>rm_flags := v\<rparr>
      else if c_strcasecmp_eq n (lit ''link-pending-commands'') then out\<lparr>rm_link_pending_commands := word_of_int (c_atoi v)\<rparr>
      else if c_strcasecmp_eq n (lit ''link-refcount'') then out\<lparr>rm_link_refcount := word_of_int (c_atoi v)\<rparr>
      else if c_strcasecmp_eq n (lit ''last-ping-sent'') then out\<lparr>rm_last_ping_sent := word_of_int (c_atoi v)\<rparr>
      else if c_strcasecmp_eq n (lit ''last-ok-ping-reply'') then out\<lparr>rm_last_ok_ping_reply := word_of_int (c_atoi v)\<rparr>
      else if c_strcasecmp_eq n (lit ''last-ping-reply'') then out\<lparr>rm_last_ping_reply := word_of_int (c_atoi v)\<rparr>
      else if c_strcasecmp_eq n (lit ''down-after-milliseconds'') then out\<lparr>rm_down_after_milliseconds := word_of_int (c_atoi v)\<rparr>
      else if c_strcasecmp_eq n (lit ''info-refresh'') then out\<lparr>rm_info_refresh := word_of_int (c_atoi v)\<rparr>
      else if c_strcasecmp_eq n (lit ''role-reported'') then out\<lparr>rm_role_reported := v\<rparr>
      else if c_strcasecmp_eq n (lit ''role-reported-time'') then out\<lparr>rm_role_reported_time := c_strtol v\<rparr>
      else if c_strcasecmp_eq n (lit ''config-epoch'') then out\<lparr>rm_config_epoch := c_strtol v\<rparr>
      else if c_strcasecmp_eq n (lit ''num-slaves'') then out\<lparr>rm_num_slaves := word_of_int (c_atoi v)\<rparr>
      else if c_strcasecmp_eq n (lit ''num-other-sentinels'') then out\<lparr>rm_num_other_sentinels := word_of_int (c_atoi v)\<rparr>
      else if c_strcasecmp_eq n (lit ''quorum'') then out\<lparr>rm_quorum := word_of_int (c_atoi v)\<rparr>
      else if c_strcasecmp_eq n (lit ''failover-timeout'') then out\<lparr>rm_failover_timeout := word_of_int (c_atoi v)\<rparr>
      else if c_strcasecmp_eq n (lit ''parallel-syncs'') then out\<lparr>rm_parallel_syncs := word_of_int (c_atoi v)\<rparr>
      else out)"

record redis_slave =
  rs_name :: cstr
  rs_ip :: cstr
  rs_port :: int
  rs_runid :: cstr
  rs_flags :: cstr
  rs_link_pending_commands :: u32
  rs_link_refcount :: u32
  rs_last_ping_sent :: u32
  rs_last_ok_ping_reply :: u32
  rs_last_ping_reply :: u32
  rs_down_after_milliseconds :: u32
  rs_info_refresh :: u32
  rs_role_reported :: cstr
  rs_role_reported_time :: int
  rs_master_link_down_time :: int
  rs_master_link_status :: cstr
  rs_master_host :: cstr
  rs_master_port :: int
  rs_slave_priority :: u32
  rs_slave_repl_offset :: u64

definition redis_slave_new :: redis_slave where
  "redis_slave_new = \<lparr>rs_name = [], rs_ip = [], rs_port = 0, rs_runid = [], rs_flags = [],
     rs_link_pending_commands = 0, rs_link_refcount = 0, rs_last_ping_sent = 0,
     rs_last_ok_ping_reply = 0, rs_last_ping_reply = 0, rs_down_after_milliseconds = 0,
     rs_info_refresh = 0, rs_role_reported = [], rs_role_reported_time = 0,
     rs_master_link_down_time = 0, rs_master_link_status = [], rs_master_host = [],
     rs_master_port = 0, rs_slave_priority = 0, rs_slave_repl_offset = 0\<rparr>"

definition slave_add_member :: "cstr \<Rightarrow> cstr \<Rightarrow> redis_slave \<Rightarrow> redis_slave" where
  "slave_add_member n v out =
     (if c_strcasecmp_eq n (lit ''name'') then out\<lparr>rs_name := v\<rparr>
      else if c_strcasecmp_eq n (lit ''ip'') then out\<lparr>rs_ip := v\<rparr>
      else if c_strcasecmp_eq n (lit ''port'') then out\<lparr>rs_port := c_atoi v\<rparr>
      else if c_strcasecmp_eq n (lit ''runid'') then out\<lparr>rs_runid := v\<rparr>
      else if c_strcasecmp_eq n (lit ''flags'') then out\<lparr>rs_flags := v\<rparr>
      else if c_strcasecmp_eq n (lit ''link-pending-commands'') then out\<lparr>rs_link_pending_commands := word_of_int (c_atoi v)\<rparr>
      else if c_strcasecmp_eq n (lit ''link-refcount'') then out\<lparr>rs_link_refcount := word_of_int (c_atoi v)\<rparr>
      else if c_strcasecmp_eq n (lit ''last-ping-sent'') then out\<lparr>rs_last_ping_sent := word_of_int (c_atoi v)\<rparr>
      else if c_strcasecmp_eq n (lit ''last-ok-ping-reply'') then out\<lparr>rs_last_ok_ping_reply := word_of_int (c_atoi v)\<rparr>
      else if c_strcasecmp_eq n (lit ''last-ping-reply'') then out\<lparr>rs_last_ping_reply := word_of_int (c_atoi v)\<rparr>
      else if c_strcasecmp_eq n (lit ''down-after-milliseconds'') then out\<lparr>rs_down_after_milliseconds := word_of_int (c_atoi v)\<rparr>
      else if c_strcasecmp_eq n (lit ''info-refresh'') then out\<lparr>rs_info_refresh := word_of_int (c_atoi v)\<rparr>
      else if c_strcasecmp_eq n (lit ''role-reported'') then out\<lparr>rs_role_reported := v\<rparr>
      else if c_strcasecmp_eq n (lit ''role-reported-time'') then out\<lparr>rs_role_reported_time := c_strtol v\<rparr>
      else if c_strcasecmp_eq n (lit ''master-link-down-time'') then out\<lparr>rs_master_link_down_time := c_strtol v\<rparr>
      else if c_strcasecmp_eq n (lit ''master-link-status'') then out\<lparr>rs_master_link_status := v\<rparr>
      else if c_strcasecmp_eq n (lit ''master-host'') then out\<lparr>rs_master_host := v\<rparr>
      else if c_strcasecmp_eq n (lit ''master-port'') then out\<lparr>rs_master_port := c_atoi v\<rparr>
      else if c_strcasecmp_eq n (lit ''slave-priority'') then out\<lparr>rs_slave_priority := word_of_int (c_atoi v)\<rparr>
      else if c_strcasecmp_eq n (lit ''slave-repl-offset'') then out\<lparr>rs_slave_repl_offset := word_of_int (c_strtol v)\<rparr>
      else out)"

text \<open>The loop over names and values: each is read as a C string.\<close>

definition add_members ::
  "(cstr \<Rightarrow> cstr \<Rightarrow> 'm \<Rightarrow> 'm) \<Rightarrow> (redis_result \<times> redis_result) list \<Rightarrow> 'm \<Rightarrow> 'm"
where
  "add_members add ps m =
     fold (\<lambda>(n, v). add (cstr_of (rr_argv_to_string n)) (cstr_of (rr_argv_to_string v))) ps m"

text \<open>With one master the names and values go through a map first, so they come in the order of the
  names and the last value of a name counts.\<close>

definition map_entries :: "(redis_result \<times> redis_result) list \<Rightarrow> (byte list \<times> byte list) list" where
  "map_entries ps = fold (\<lambda>(n, v). map_put (rr_argv_to_string n) (rr_argv_to_string v)) ps []"

definition sentinel_master :: "'s server \<Rightarrow> cstr \<Rightarrow> redis_master \<Rightarrow> 's \<Rightarrow> (bool \<times> redis_master) \<times> 's" where
  "sentinel_master srv name out =
     run_with (\<lambda>r. case result_pairs r of
        None \<Rightarrow> (False, out)
      | Some ps \<Rightarrow> (True, fold (\<lambda>(n, v). master_add_member (cstr_of n) (cstr_of v)) (map_entries ps) out))
       srv [lit ''SENTINEL'', lit ''MASTER'', name]"

definition add_record ::
  "(cstr \<Rightarrow> cstr \<Rightarrow> 'm \<Rightarrow> 'm) \<Rightarrow> 'm \<Rightarrow> redis_result \<Rightarrow> 'm list \<Rightarrow> 'm list"
where
  "add_record add new rr out =
     (if result_type rr \<noteq> REDIS_RESULT_ARRAY then out
      else if rr_children rr = [] then out
      else if length (rr_children rr) mod 2 \<noteq> 0 then out
      else out @ [add_members add (string_pairs (rr_children rr)) new])"

definition add_master :: "redis_result \<Rightarrow> redis_master list \<Rightarrow> redis_master list" where
  "add_master = add_record master_add_member redis_master_new"

definition add_slave :: "redis_result \<Rightarrow> redis_slave list \<Rightarrow> redis_slave list" where
  "add_slave = add_record slave_add_member redis_slave_new"

definition sentinel_masters :: "'s server \<Rightarrow> redis_master list \<Rightarrow> 's \<Rightarrow> (bool \<times> redis_master list) \<times> 's" where
  "sentinel_masters srv out =
     run_with (\<lambda>r. if \<not> is_type REDIS_RESULT_ARRAY r then (False, out)
                    else (True, fold add_master (rr_children (the r)) out))
       srv [lit ''SENTINEL'', lit ''MASTERS'']"

definition sentinel_slaves ::
  "'s server \<Rightarrow> cstr \<Rightarrow> redis_slave list \<Rightarrow> 's \<Rightarrow> (bool \<times> redis_slave list) \<times> 's"
where
  "sentinel_slaves srv master_name out =
     run_with (\<lambda>r. if \<not> is_type REDIS_RESULT_ARRAY r then (False, out)
                    else (True, fold add_slave (rr_children (the r)) out))
       srv [lit ''SENTINEL'', lit ''SLAVES'', master_name]"

text \<open>The success, and the address and port; without success the port is -1.\<close>

definition master_addr_result :: "byte list \<Rightarrow> redis_result option \<Rightarrow> bool \<times> byte list \<times> int" where
  "master_addr_result ip r =
     (case get_strings r of (n, ts) \<Rightarrow>
        if n \<noteq> 2 then (False, ip, -1)
        else case ts of
          Some (a # p # _) \<Rightarrow> (True, a, c_atoi (cstr_of p))
        | _ \<Rightarrow> (False, ip, -1))"

definition sentinel_get_master_addr_by_name ::
  "'s server \<Rightarrow> cstr \<Rightarrow> byte list \<Rightarrow> 's \<Rightarrow> (bool \<times> byte list \<times> int) \<times> 's"
where
  "sentinel_get_master_addr_by_name srv master_name ip =
     run_with (master_addr_result ip) srv [lit ''SENTINEL'', lit ''get-master-addr-by-name'', master_name]"

text \<open>The length of \<open>reset\<close> goes into the element of SENTINEL: that one is cut to its first five
  bytes, and the length of the second has not been set.\<close>

definition sentinel_reset :: "'s server \<Rightarrow> cstr \<Rightarrow> 's \<Rightarrow> int sent \<times> 's" where
  "sentinel_reset srv pattern =
     send_cells srv (Some [Some (take 5 (lit ''SENTINEL'')), None, Some pattern])"

definition sentinel_failover :: "'s server \<Rightarrow> cstr \<Rightarrow> 's \<Rightarrow> bool \<times> 's" where
  "sentinel_failover srv master_name = run_with status_ok srv [lit ''SENTINEL'', lit ''failover'', master_name]"

definition sentinel_flushconfig :: "'s server \<Rightarrow> 's \<Rightarrow> bool \<times> 's" where
  "sentinel_flushconfig srv = run_with status_ok srv [lit ''SENTINEL'', lit ''flushconfig'']"

definition sentinel_remove :: "'s server \<Rightarrow> cstr \<Rightarrow> 's \<Rightarrow> bool \<times> 's" where
  "sentinel_remove srv master_name = run_with status_ok srv [lit ''SENTINEL'', lit ''remove'', master_name]"

definition sentinel_monitor :: "'s server \<Rightarrow> cstr \<Rightarrow> cstr \<Rightarrow> int \<Rightarrow> int \<Rightarrow> 's \<Rightarrow> bool \<times> 's" where
  "sentinel_monitor srv master_name ip port quorum = run_with status_ok srv
     [lit ''SENTINEL'', lit ''monitor'', master_name, ip, c_snprintf 64 (dec_of_int port),
      c_snprintf 64 (dec_of_int quorum)]"

definition sentinel_set :: "'s server \<Rightarrow> cstr \<Rightarrow> cstr \<Rightarrow> cstr \<Rightarrow> 's \<Rightarrow> bool \<times> 's" where
  "sentinel_set srv master_name name v = run_with status_ok srv [lit ''SENTINEL'', lit ''SET'', master_name, name, v]"

definition sentinel_set_number :: "'s server \<Rightarrow> cstr \<Rightarrow> cstr \<Rightarrow> u32 \<Rightarrow> 's \<Rightarrow> bool \<times> 's" where
  "sentinel_set_number srv master_name name v =
     sentinel_set srv master_name name (c_snprintf 64 (dec_of_nat (unat v)))"

section \<open>ROLE\<close>

record redis_role4slave =
  r4s_ip :: cstr
  r4s_port :: int
  r4s_off :: int
  r4s_status :: cstr

record redis_role4master =
  r4m_off :: int
  r4m_slaves :: "redis_role4slave list"

record redis_role =
  ro_name :: "byte list"
  ro_masters :: "byte list list"
  ro_master :: redis_role4master
  ro_slave :: redis_role4slave

definition role4slave_new :: redis_role4slave where
  "role4slave_new = \<lparr>r4s_ip = [], r4s_port = 0, r4s_off = 0, r4s_status = []\<rparr>"

definition redis_role_new :: redis_role where
  "redis_role_new = \<lparr>ro_name = [], ro_masters = [], ro_master = \<lparr>r4m_off = 0, r4m_slaves = []\<rparr>, ro_slave = role4slave_new\<rparr>"

definition role_sentinel :: "redis_result list \<Rightarrow> redis_role \<Rightarrow> bool \<times> redis_role" where
  "role_sentinel a ro = (True, ro\<lparr>ro_masters := ro_masters ro @ map rr_argv_to_string (tl a)\<rparr>)"

definition add_one_slave :: "redis_result \<Rightarrow> redis_role4master \<Rightarrow> redis_role4master option" where
  "add_one_slave a out =
     (case rr_children a of
        c0 # c1 # c2 # _ \<Rightarrow>
          if result_type c0 \<noteq> REDIS_RESULT_STRING then None
          else if result_type c1 \<noteq> REDIS_RESULT_STRING then None
          else if result_type c2 \<noteq> REDIS_RESULT_STRING then None
          else Some (out\<lparr>r4m_slaves := r4m_slaves out @
            [\<lparr>r4s_ip = cstr_of (rr_argv_to_string c0), r4s_port = c_atoi (cstr_of (rr_argv_to_string c1)),
              r4s_off = acl_atoi64 (cstr_of (rr_argv_to_string c2)), r4s_status = []\<rparr>]\<rparr>)
      | _ \<Rightarrow> None)"

text \<open>The first element that is no slave ends the loop; what has been added before it stays.\<close>

fun add_slaves :: "redis_result list \<Rightarrow> redis_role4master \<Rightarrow> bool \<times> redis_role4master" where
  "add_slaves [] out = (True, out)"
| "add_slaves (a # as) out = (case add_one_slave a out of None \<Rightarrow> (False, out) | Some out \<Rightarrow> add_slaves as out)"

definition role_master :: "redis_result list \<Rightarrow> redis_role \<Rightarrow> bool \<times> redis_role" where
  "role_master a ro = (case add_slaves (tl a) (ro_master ro) of (ok, m) \<Rightarrow> (ok, ro\<lparr>ro_master := m\<rparr>))"

definition role_slave :: "redis_result list \<Rightarrow> redis_role \<Rightarrow> bool \<times> redis_role" where
  "role_slave a ro =
     (case a of
        a0 # a1 # a2 # a3 # a4 # _ \<Rightarrow>
          if result_type a1 \<noteq> REDIS_RESULT_STRING then (False, ro)
          else (let sl = (ro_slave ro)\<lparr>r4s_ip := cstr_of (rr_argv_to_string a1)\<rparr> in
            if result_type a2 \<noteq> REDIS_RESULT_INTEGER then (False, ro\<lparr>ro_slave := sl\<rparr>)
            else (let sl = sl\<lparr>r4s_port := fst (rr_get_integer a2)\<rparr> in
              if result_type a3 \<noteq> REDIS_RESULT_STRING then (False, ro\<lparr>ro_slave := sl\<rparr>)
              else (let sl = sl\<lparr>r4s_status := cstr_of (rr_argv_to_string a3)\<rparr> in
                if result_type a4 \<noteq> REDIS_RESULT_INTEGER then (False, ro\<lparr>ro_slave := sl\<rparr>)
                else (True, ro\<lparr>ro_slave := sl\<lparr>r4s_off := fst (rr_get_integer64 a4)\<rparr>\<rparr>))))
      | _ \<Rightarrow> (False, ro))"

definition role_result :: "redis_role \<Rightarrow> redis_result option \<Rightarrow> bool \<times> redis_role" where
  "role_result ro r =
     (if \<not> is_type REDIS_RESULT_ARRAY r then (False, ro)
      else case rr_children (the r) of
        [] \<Rightarrow> (False, ro)
      | first # rest \<Rightarrow>
          (let name = rr_argv_to_string first; ro = ro\<lparr>ro_name := name\<rparr>; a = first # rest in
           if eq_name name (lit ''sentinel'') then role_sentinel a ro
           else if eq_name name (lit ''master'') then role_master a ro
           else if eq_name name (lit ''slave'') then role_slave a ro
           else (False, ro)))"

definition role :: "'s server \<Rightarrow> redis_role \<Rightarrow> 's \<Rightarrow> (bool \<times> redis_role) \<times> 's" where
  "role srv ro = run_with (role_result ro) srv [lit ''ROLE'']"

section \<open>INFO into a map\<close>

lemma scan_line_empty:
  assumes "cs_ok s" "cs_rest s = []"
  obtains s' where "scan_line s nonl mv = Some (False, [], s')" "cs_empty s'"
proof -
  have l: "length (cs_text s) = cs_len s" using assms(1) by (simp add: cs_ok_def cs_len_text)
  define p where "p = (case cs_scan s of ScanAt p \<Rightarrow> p | _ \<Rightarrow> 0)"
  have r: "cs_rest s = drop p (cs_text s)" "cs_scan s \<noteq> ScanFreed"
    using assms(1) by (auto simp: cs_rest_def p_def cs_ok_def split: scan_ptr.splits)
  with assms(2) l have p: "cs_len s \<le> p" by simp
  let ?s = "s\<lparr>cs_scan := ScanAt p\<rparr>"
  have b: "buf_end s = map_option (\<lambda>s. (False, s)) (if \<not> cs_empty ?s then cs_clear ?s else Some ?s)"
    using r(2) p by (cases "cs_scan s") (auto simp: buf_end_def p_def Let_def)
  show thesis
  proof (cases "cs_empty ?s")
    case True
    with that [of ?s] b show thesis by (simp add: scan_line_def)
  next
    case False
    have "vs_ok (cs_vbf ?s)" using assms(1) by (simp add: cs_ok_def)
    then obtain s' where s': "cs_clear ?s = Some s'" "cs_plain s'" "cs_text s' = []" by (rule cs_clear_ok)
    then have "cs_empty s'" using cs_len_text [of s'] by (simp add: cs_plain_def cs_empty_def)
    with that [of s'] b False s'(1) show thesis by (simp add: scan_line_def)
  qed
qed

lemma cs_empty_rest: "cs_ok s \<Longrightarrow> cs_empty s \<Longrightarrow> cs_rest s = []"
  using cs_len_text [of s] by (auto simp: cs_ok_def cs_empty_def cs_rest_def split: scan_ptr.splits)

lemma lines_of_none: "strchr_idx t 10 = None \<Longrightarrow> lines_of t = ([], t)"
  by (subst lines_of.simps) simp

lemma lines_of_some:
  "strchr_idx t 10 = Some i \<Longrightarrow> lines_of t = (chop_cr (take i t) # fst (lines_of (drop (i + 1) t)), snd (lines_of (drop (i + 1) t)))"
  by (subst lines_of.simps) (simp add: split_beta)

definition info_step :: "(cstr \<times> cstr) list \<Rightarrow> byte list \<Rightarrow> (cstr \<times> cstr) list" where
  "info_step out line = (if line = [] then out else server_info_line out line)"

lemma info_loop_returns:
  "cs_ok buf \<Longrightarrow> snd (lines_of (cs_rest buf)) = [] \<Longrightarrow>
   server_info_loop buf out = Some (Some (foldl info_step out (fst (lines_of (cs_rest buf)))))"
proof (induction "length (cs_rest buf)" arbitrary: buf out rule: less_induct)
  case less
  show ?case
  proof (cases "cs_rest buf = []")
    case True
    then have l: "lines_of (cs_rest buf) = ([], [])" by (simp add: lines_of_none)
    show ?thesis
    proof (cases "cs_empty buf")
      case False
      obtain s' where "scan_line buf True False = Some (False, [], s')" "cs_empty s'"
        using scan_line_empty [OF less.prems(1) True] by blast
      with False l show ?thesis by (subst server_info_loop.simps) (simp add: server_info_loop.simps [of s'])
    qed (use l in \<open>subst server_info_loop.simps, simp\<close>)
  next
    case False
    then obtain i where i: "strchr_idx (cs_rest buf) 10 = Some i"
      using less.prems(2) lines_of_none by (cases "strchr_idx (cs_rest buf) 10") auto
    obtain s' where s': "scan_line buf True False = Some (True, chop_cr (take i (cs_rest buf)), s')" "cs_ok s'"
      "cs_rest s' = drop (i + 1) (cs_rest buf)"
      using scan_line_some [OF less.prems(1) i, of False True] by (metis (full_types))
    have "length (cs_rest s') < length (cs_rest buf)" using s'(3) False by simp
    moreover have "snd (lines_of (cs_rest s')) = []" using less.prems(2) lines_of_some [OF i] s'(3) by simp
    ultimately have "server_info_loop s' out = Some (Some (foldl info_step out (fst (lines_of (cs_rest s')))))" for out
      using less.hyps s'(2) by blast
    moreover have "\<not> cs_empty buf" using cs_empty_rest [OF less.prems(1)] False by blast
    ultimately show ?thesis
      using s'(1) lines_of_some [OF i] s'(3) by (subst server_info_loop.simps) (simp add: info_step_def)
  qed
qed

lemma info_loop_hangs:
  "server_info_loop buf out = Some y \<Longrightarrow> cs_ok buf \<Longrightarrow> snd (lines_of (cs_rest buf)) = []"
proof (induction rule: server_info_loop.raw_induct [rotated, consumes 1, case_names step])
  case (step loop buf out y)
  show ?case
  proof (cases "cs_empty buf")
    case True
    then show ?thesis using cs_empty_rest [OF step.prems] by (simp add: lines_of_none)
  next
    case False
    obtain ok line s' where s': "scan_line buf True False = Some (ok, line, s')" "cs_ok s'"
      "snd (lines_of (cs_rest s')) = snd (lines_of (cs_rest buf))"
    proof (cases "strchr_idx (cs_rest buf) 10")
      case None
      from scan_line_none [OF step.prems None, of True False] obtain s' where
        "scan_line buf True False = Some (False, [], s')" "cs_ok s'" "cs_rest s' = cs_rest buf" by blast
      with that show thesis by metis
    next
      case (Some i)
      from scan_line_some [OF step.prems Some, of False True] obtain s' line where
        "scan_line buf True False = Some (True, line, s')" "cs_ok s'" "cs_rest s' = drop (i + 1) (cs_rest buf)" by metis
      with that [of True line s'] lines_of_some [OF Some] show thesis by simp
    qed
    from step.hyps False s'(1) obtain out' where "loop s' out' = Some y" by simp
    with step.IH s'(2,3) show ?thesis by metis
  qed
qed

lemma lines_of_complete: "snd (lines_of t) = [] \<longleftrightarrow> t = [] \<or> last t = 10"
proof (induction t rule: lines_of.induct)
  case (1 t)
  show ?case
  proof (cases "strchr_idx t 10")
    case None
    then have "10 \<notin> set t" by (simp add: strchr_idx_None)
    then have "t = [] \<or> last t \<noteq> 10" by (cases t rule: rev_cases) auto
    with None show ?thesis by (auto simp: lines_of_none)
  next
    case (Some i)
    have i: "i < length t" "t ! i = 10" using strchr_idx_Some [OF Some] by auto
    show ?thesis
    proof (cases "drop (i + 1) t = []")
      case True
      then have "i = length t - 1" using i(1) by simp
      with i have "last t = 10" by (metis last_conv_nth length_0_conv not_less_zero)
      with True show ?thesis by (simp add: lines_of_some [OF Some] lines_of_none)
    next
      case False
      then have "last (drop (i + 1) t) = last t" by (intro last_drop) simp
      with False "1.IH" [OF Some] i(1) show ?thesis by (auto simp: lines_of_some [OF Some])
    qed
  qed
qed

text \<open>C35: INFO into a map returns for exactly those texts that end with a line feed, and then with the map of their lines and its
  size; on any other text the loop goes on forever, as the rest behind the last line is neither a line nor taken away.\<close>

theorem info_map_returns:
  assumes "fst (run_request srv [lit ''INFO''] s) = Some (resp_result (RBulk t))" "t \<noteq> []"
  shows "fst (server_info_map srv junk s) =
    (if last t = 10 then (let out = foldl info_step [] (fst (lines_of t)) in Some (Some (int (length out), out))) else None)"
proof -
  obtain buf where buf: "string_with junk t = Some buf" "cs_plain buf" "cs_text buf = t" using string_with_ok by blast
  then have r: "cs_ok buf" "cs_rest buf = t" by (simp_all add: cs_plain_ok)
  have n: "get_string (Some (resp_result (RBulk t))) = (int (length t), Some t)" "\<not> int (length t) \<le> 0"
    using string_reply assms(2) by auto
  show ?thesis
  proof (cases "last t = 10")
    case True
    then have "snd (lines_of (cs_rest buf)) = []" using r(2) lines_of_complete by simp
    from info_loop_returns [OF r(1) this, of "[]"] assms(1) n buf(1) r(2) True show ?thesis
      by (simp add: server_info_map_def run_with_def Let_def del: resp_result.simps)
  next
    case False
    then have "server_info_loop buf [] = None"
      using info_loop_hangs [of buf "[]"] r lines_of_complete [of t] assms(2) by (metis not_None_eq)
    with assms(1) n buf(1) False show ?thesis
      by (simp add: server_info_map_def run_with_def del: resp_result.simps)
  qed
qed

theorem info_map_returns_witness:
  "fst (server_info_map (\<lambda>req (n :: nat). (Some (resp_result (RBulk (lit ''a:b''))), n)) (\<lambda>_. 0) 0) = None"
  by (subst info_map_returns [where t = "lit ''a:b''"]) (simp_all add: run_request_def lit_def)

section \<open>Sentinel replies\<close>

text \<open>The value of the last pair with a name, without regard to case.\<close>

definition last_value :: "cstr \<Rightarrow> (byte list \<times> byte list) list \<Rightarrow> cstr option" where
  "last_value f ps = (let qs = filter (\<lambda>p. c_strcasecmp_eq (cstr_of (fst p)) f) ps in
     if qs = [] then None else Some (cstr_of (snd (last qs))))"

definition master_of :: "(byte list \<times> byte list) list \<Rightarrow> redis_master" where
  "master_of ps = fold (\<lambda>(n, v). master_add_member (cstr_of n) (cstr_of v)) ps redis_master_new"

lemma last_value_snoc:
  "last_value f (ps @ [(n, v)]) = (if c_strcasecmp_eq (cstr_of n) f then Some (cstr_of v) else last_value f ps)"
  by (simp add: last_value_def Let_def)

lemma fields_differ: "map tolower (lit ''name'') \<noteq> map tolower (lit ''ip'')" "map tolower (lit ''ip'') \<noteq> map tolower (lit ''name'')"
  "map tolower (lit ''port'') \<noteq> map tolower (lit ''name'')" "map tolower (lit ''port'') \<noteq> map tolower (lit ''ip'')"
  by code_simp+

lemma master_add_port:
  "rm_port (master_add_member n v m) = (if c_strcasecmp_eq n (lit ''port'') then c_atoi v else rm_port m)"
  using fields_differ by (simp add: master_add_member_def c_strcasecmp_eq_def)

lemma master_add_ip:
  "rm_ip (master_add_member n v m) = (if c_strcasecmp_eq n (lit ''ip'') then v else rm_ip m)"
  using fields_differ by (simp add: master_add_member_def c_strcasecmp_eq_def)

lemma master_add_name:
  "rm_name (master_add_member n v m) = (if c_strcasecmp_eq n (lit ''name'') then v else rm_name m)"
  by (simp add: master_add_member_def)

lemma master_of_fields:
  "rm_name (master_of ps) = (case last_value (lit ''name'') ps of None \<Rightarrow> [] | Some v \<Rightarrow> v) \<and>
   rm_ip (master_of ps) = (case last_value (lit ''ip'') ps of None \<Rightarrow> [] | Some v \<Rightarrow> v) \<and>
   rm_port (master_of ps) = (case last_value (lit ''port'') ps of None \<Rightarrow> 0 | Some v \<Rightarrow> c_atoi v)"
proof (induction ps rule: rev_induct)
  case Nil
  show ?case by (simp add: master_of_def redis_master_new_def last_value_def)
next
  case (snoc p ps)
  obtain n v where p: "p = (n, v)" by fastforce
  have "master_of (ps @ [p]) = master_add_member (cstr_of n) (cstr_of v) (master_of ps)" by (simp add: master_of_def p)
  with snoc show ?case by (simp add: p last_value_snoc master_add_port master_add_ip master_add_name)
qed

lemma add_members_pairs:
  "add_members add (string_pairs (map resp_result (resp_pairs ps))) m = fold (\<lambda>(n, v). add (cstr_of n) (cstr_of v)) ps m"
  unfolding resp_pairs_results string_pairs_bulk add_members_def
  by (induction ps arbitrary: m) (auto split: prod.splits)

text \<open>SENTINEL MASTERS. Every master of the reply becomes one record behind those the caller had, in the order of the reply, and
  its name, address and port are those of the last pair with that name in its array, the names compared without regard to case.\<close>

theorem sentinel_masters_read:
  assumes "fst (run_request srv [lit ''SENTINEL'', lit ''MASTERS''] s) =
      Some (resp_result (RArray (map (\<lambda>ps. RArray (resp_pairs ps)) mss)))"
    and "\<forall>ps \<in> set mss. ps \<noteq> []"
  shows "\<exists>ms. fst (sentinel_masters srv out s) = (True, out @ ms) \<and> length ms = length mss \<and>
    (\<forall>i < length mss.
       rm_name (ms ! i) = (case last_value (lit ''name'') (mss ! i) of None \<Rightarrow> [] | Some v \<Rightarrow> v) \<and>
       rm_ip (ms ! i) = (case last_value (lit ''ip'') (mss ! i) of None \<Rightarrow> [] | Some v \<Rightarrow> v) \<and>
       rm_port (ms ! i) = (case last_value (lit ''port'') (mss ! i) of None \<Rightarrow> 0 | Some v \<Rightarrow> c_atoi v))"
proof -
  have "fold add_master (map (resp_result \<circ> (\<lambda>ps. RArray (resp_pairs ps))) mss) out = out @ map master_of mss" using assms(2)
  proof (induction mss arbitrary: out)
    case (Cons ps mss)
    then have "add_master (resp_result (RArray (resp_pairs ps))) out = out @ [master_of ps]"
      by (simp add: add_master_def add_record_def add_members_pairs master_of_def)
    with Cons show ?case by simp
  qed simp
  with assms(1) master_of_fields show ?thesis
    by (intro exI [of _ "map master_of mss"]) (simp add: sentinel_masters_def run_with_def is_type_def comp_def)
qed

theorem sentinel_masters_read_witness:
  "\<exists>m. fst (sentinel_masters (\<lambda>req (n :: nat). (Some (resp_result (RArray (map (\<lambda>ps. RArray (resp_pairs ps))
       [ [(lit ''name'', lit ''m''), (lit ''port'', lit ''7'')] ]))), n)) [] 0) = (True, [m]) \<and> rm_name m = lit ''m''"
proof -
  let ?mss = "[ [(lit ''name'', lit ''m''), (lit ''port'', lit ''7'')] ]"
  have v: "last_value (lit ''name'') (?mss ! 0) = Some (lit ''m'')" by code_simp
  obtain ms where "fst (sentinel_masters (\<lambda>req (n :: nat). (Some (resp_result (RArray (map (\<lambda>ps. RArray (resp_pairs ps)) ?mss))), n)) [] 0) =
      (True, [] @ ms)" "length ms = length ?mss"
    "\<forall>i < length ?mss. rm_name (ms ! i) = (case last_value (lit ''name'') (?mss ! i) of None \<Rightarrow> [] | Some v \<Rightarrow> v)"
    using sentinel_masters_read [of "\<lambda>req (n :: nat). (Some (resp_result (RArray (map (\<lambda>ps. RArray (resp_pairs ps)) ?mss))), n)" 0 ?mss "[]"]
    by (auto simp: run_request_def)
  moreover from this(2) obtain m where "ms = [m]" by (auto simp: length_Suc_conv)
  ultimately show ?thesis using v by auto
qed

section \<open>Replies taken for failures\<close>

text \<open>The documented reply of a master has its offset and the array of its slaves behind the name; the offset is taken for a slave.\<close>

theorem role_of_master_fails:
  assumes "fst (run_request srv [lit ''ROLE''] s) = Some (resp_result (RArray [RBulk (lit ''master''), RInteger off, RArray slaves]))"
  shows "fst (role srv ro s) = (False, ro\<lparr>ro_name := lit ''master''\<rparr>)"
proof -
  have same: "c_string t \<Longrightarrow> eq_name t t" for t :: cstr by (simp add: eq_name_def acl_strcasecmp_zero)
  have "eq_name (lit ''master'') (lit ''master'')" by (rule same) (simp add: c_string_def lit_def)
  moreover have "\<not> eq_name (lit ''master'') (lit ''sentinel'')" by (simp add: eq_name_def lit_def)
  ultimately show ?thesis
    using assms by (simp add: role_def run_with_def role_result_def is_type_def role_master_def add_one_slave_def Let_def)
qed

theorem role_of_master_fails_witness:
  "fst (fst (role (\<lambda>req (n :: nat). (Some (resp_result (RArray [RBulk (lit ''master''), RInteger (lit ''9''), RArray []])), n))
     redis_role_new 0)) = False"
  by (subst role_of_master_fails [where off = "lit ''9''" and slaves = "[]"]) (simp_all add: run_request_def)

theorem role_of_slave_read:
  assumes "fst (run_request srv [lit ''ROLE''] s) = Some (resp_result (RArray
      [RBulk (lit ''slave''), RBulk ip, RInteger (dec_of_nat port), RBulk status, RInteger (dec_of_nat off)]))"
    and "c_string ip" "c_string status" "port < 2 ^ 31" "off < 2 ^ 63"
  shows "fst (role srv ro s) = (True, ro\<lparr>ro_name := lit ''slave'',
    ro_slave := \<lparr>r4s_ip = ip, r4s_port = int port, r4s_off = int off, r4s_status = status\<rparr>\<rparr>)"
proof -
  have same: "c_string t \<Longrightarrow> eq_name t t" for t :: cstr by (simp add: eq_name_def acl_strcasecmp_zero)
  have "eq_name (lit ''slave'') (lit ''slave'')" by (rule same) (simp add: c_string_def lit_def)
  moreover have "\<not> eq_name (lit ''slave'') (lit ''sentinel'')" "\<not> eq_name (lit ''slave'') (lit ''master'')"
    by (simp_all add: eq_name_def lit_def)
  ultimately show ?thesis
    using assms by (simp add: role_def run_with_def role_result_def is_type_def role_slave_def Let_def rr_get_integer_def
        rr_get_integer64_def rr_get_def cstr_of_dec atoi64_dec)
qed

theorem role_of_slave_read_witness:
  "fst (fst (role (\<lambda>req (n :: nat). (Some (resp_result (RArray
     [RBulk (lit ''slave''), RBulk (lit ''h''), RInteger (dec_of_nat 7), RBulk (lit ''connected''), RInteger (dec_of_nat 9)])), n))
     redis_role_new 0))"
  by (subst role_of_slave_read [where ip = "lit ''h''" and port = 7 and status = "lit ''connected''" and off = 9])
    (simp_all add: run_request_def c_string_def lit_def)

text \<open>The replies of the documentation to BGSAVE and BGREWRITEAOF; only \<open>OK\<close> and \<open>Background\<close> count.\<close>

theorem background_not_seen:
  "fst (run_request srv [lit ''BGSAVE''] s) = Some (resp_result (RStatus (lit ''Background saving started''))) \<Longrightarrow>
   \<not> fst (bgsave srv s)"
  by (simp add: bgsave_def run_with_def status_ok_def check_status_def is_type_def rr_get_status_def rr_get_def
      c_strcasecmp_eq_def lit_def cstr_of_def)

theorem background_not_seen_witness:
  "\<not> fst (bgsave (\<lambda>req (n :: nat). (Some (resp_result (RStatus (lit ''Background saving started''))), n)) 0)"
  by (rule background_not_seen) (simp add: run_request_def)

theorem rewrite_not_seen:
  "fst (run_request srv [lit ''BGREWRITEAOF''] s) =
     Some (resp_result (RStatus (lit ''Background append only file rewriting started''))) \<Longrightarrow>
   \<not> fst (bgrewriteaof srv s)"
  by (simp add: bgrewriteaof_def run_with_def check_status_def is_type_def rr_get_status_def rr_get_def
      c_strcasecmp_eq_def lit_def cstr_of_def)

theorem rewrite_not_seen_witness:
  "\<not> fst (bgrewriteaof (\<lambda>req (n :: nat).
     (Some (resp_result (RStatus (lit ''Background append only file rewriting started''))), n)) 0)"
  by (rule rewrite_not_seen) (simp add: run_request_def)

theorem sentinel_reset_unset: "fst (sentinel_reset srv pattern s) = Uninit"
  by (simp add: sentinel_reset_def send_cells_def)

end
