(* ===== verification/Spec2Isabelle.thy ===== *)
theory Spec2Isabelle
  imports Acl_Array Acl_Dlink Acl_Mystring Acl_Htable Acl_Fifo Acl_Stack Acl_Ypipe Acl_Argv Acl_Vprint Acl_Vwrite Cpp_String Acl_Codec Acl_Rfc1035
    Redis_Run Mw_SliceList Mw_Store Redis_Cluster Redis_Slots Redis_Nodes Redis_Stream Redis_Pubsub Redis_Geo
    Redis_Server
begin

text \<open>
  \<^bold>\<open>libmwredis\<close> is a client library for redis. Its callers see \<open>MWRedisRedisImpl\<close>
  (\<^verbatim>\<open>aclredis/include/mw/\<close>), which makes a command object of \<^verbatim>\<open>aclredis/src/redis/\<close> for each
  operation. A command lays out its arguments (\<open>redis_command::build\<close>), hashes its key to a slot,
  borrows a connection from the pool of the slot's server (\<open>redis_client_cluster\<close>,
  \<open>connect_manager\<close>, \<open>connect_pool\<close>), writes the request, reads the reply (\<open>redis_client\<close>) and
  decodes it. All of it stands on \<^verbatim>\<open>acllib\<close>, a C library of containers, strings, codecs, DNS
  messages and buffered streams. Paths below are relative to \<^verbatim>\<open>src/\<close>.

  \<^bold>\<open>The theories, from the bottom.\<close>
  \<^item> \<open>Prelude\<close>, \<open>Cstdlib\<close>: C types, ctype.h, string.h, decimal printing and reading; the cell
    shifting loops of the arrays. \<open>Acl_Interfaces\<close>: the iterator of
    \<^verbatim>\<open>acllib/include/stdlib/acl_iterator.h\<close> and the interfaces, as locales: \<open>iteration\<close> (the
    \<open>acl_foreach\<close> loop visits every element once), \<open>back_queue\<close> and \<open>deque\<close> (the
    \<open>push_back ... pop_front\<close> function pointers), \<open>kv_store\<close> (enter, find, delete), \<open>codec\<close>
    (encode and decode). Each is interpreted where its provider is: the array, chain, queue and
    hash table, the codecs, and the redis request with the client's own reader.
  \<^item> \<open>Acl_Array\<close>, \<open>Acl_Stack\<close>, \<open>Acl_Argv\<close>, \<open>Acl_Dlink\<close>, \<open>Acl_Htable\<close>, \<open>Acl_Fifo\<close> (on \<open>Acl_Heap\<close>,
    nodes at addresses with faults as \<open>None\<close>): \<^verbatim>\<open>acllib/src/stdlib/common/\<close>. Their properties are
    refinements: any run of operations does to the abstract list, set of numbers or map what it
    should. \<open>Acl_Ypipe\<close>: the lock-free pipe, whose reader and writer are two sequences of steps that
    interleave in every order; what is read is what was flushed, in order, and nothing leaks.
  \<^item> \<open>Acl_Mystring\<close>, \<open>Acl_Strings\<close>, \<open>Acl_Codec\<close>, \<open>Acl_Rfc1035\<close>: string functions, comparing,
    searching and splitting strings, base64, URL and hex codecs, DNS messages (\<^verbatim>\<open>acllib/src/stdlib/string/\<close>, \<^verbatim>\<open>acllib/src/code/\<close>,
    \<^verbatim>\<open>acllib/src/net/dns/rfc1035.c\<close>); round trips, and the buffers they overrun.
    \<open>Acl_Vstring\<close>: the growing string of \<^verbatim>\<open>acllib/src/stdlib/acl_vstring.c\<close>, its bytes, write position
    and limit, refined by lists of bytes; \<open>None\<close> is a read of a buffer that was reallocated.
  \<^item> \<open>Acl_Vprint\<close>: the printf of \<^verbatim>\<open>acllib/src/stdlib/acl_vbuf_print.c\<close> over growing strings, refined by a
    printing function on lists, and the formats that write past the room made for them. \<open>Cpp_String\<close>:
    \<^verbatim>\<open>acl::string\<close> (\<^verbatim>\<open>aclredis/src/stdlib/string.cpp\<close>), a growing string with a scan pointer: what each
    operation does to the text, that the lines scanned are the lines of the text, the order its
    comparisons decide, and the operations after which the scan pointer dangles.
  \<^item> \<open>Acl_Vstream\<close>: the reading side of \<^verbatim>\<open>acllib/src/stdlib/acl_vstream.c\<close> and of \<open>istream\<close>. The
    input of a socket is a list of segments, so the lemmas hold for whatever way the network
    cuts a reply. \<open>Acl_Vwrite\<close>: the writing side, direct, buffered, gathering and printing writes over
    the replies of the system to its calls: what reaches a socket or a file is what was written, in
    order and once, as long as no write fails. \<open>Acl_Crc16\<close>: the table-driven checksum, equal to the bitwise XMODEM one.
  \<^item> \<open>Redis_Result\<close>, \<open>Redis_Client\<close>: the reply objects and the reader of replies, checked
    against the wire format \<open>resp_encode\<close>. \<open>Redis_Request\<close>: argument layout and both encoders.
    \<open>Redis_Run\<close>: \<open>open\<close> and \<open>run\<close> of a connection, its one retry, AUTH and SELECT.
  \<^item> \<open>Redis_Command\<close>, \<open>Redis_List\<close>, \<open>Redis_Hash\<close>, \<open>Redis_Key\<close> (keys, sets and strings),
    \<open>Redis_Zset\<close>: the result decoders and the commands, each a function of the server.
    \<open>Redis_Stream\<close>, \<open>Redis_Pubsub\<close> (with transactions and HyperLogLog), \<open>Redis_Geo\<close>, \<open>Redis_Server\<close> (server
    administration, sentinel, ROLE): the families the client does not offer, in the same manner: what the decoders make
    of the documented replies, what a subscription takes from the connection, when INFO into a map returns.
    \<open>Mw_Redis\<close>, \<open>Mw_SliceList\<close>, \<open>Mw_Store\<close>: the client's own operations. \<open>slice_run\<close> is any sequence
    of pushes and pops of a sliced list, with its invariant; the hash operations are shown to do to
    a hash what the same updates do to a map.
  \<^item> \<open>Conn_Pool\<close>, \<open>Conn_Manager\<close>, \<open>Redis_Cluster\<close>: the pools with \<open>pool_run\<close> and its invariant,
    the round robin over the servers, the slot table and the loop of \<open>redis_command::run\<close> that
    follows MOVED and ASK. \<open>Redis_Slots\<close>: the CLUSTER commands, and that the slot table made from CLUSTER SLOTS
    leads every slot to its master. \<open>Redis_Nodes\<close>: CLUSTER NODES and SLAVES, with the nodes as objects at
    addresses: the topology read is the one that the nodes were described by (\<open>desc_text\<close>), and each
    node in memory has one owner.

  \<^bold>\<open>How state and effects are given.\<close> A structure or class is a record with the code's members;
  an operation takes it and returns it updated. Numbers of C keep their width (\<open>u32\<close>, \<open>u64\<close>)
  where they wrap around; a cast to \<open>int\<close> is \<open>signed_take_bit 31\<close>, and the successor of an \<open>acl_int64\<close> in the
  chain of ranges is \<open>succ64\<close>; an \<open>int\<close> that stays within the bounds of a buffer is an \<open>int\<close> or a \<open>nat\<close>.
  An output argument the code leaves alone is \<open>None\<close>. The network of a connection is a function from the
  number of the connection attempt to its outcome; for the commands, the server is a function
  from its state and the request's bytes to the result and the next state. What is assumed of a
  server is \<open>list_server\<close> in \<open>Redis_List\<close>, \<open>hash_server\<close> in \<open>Redis_Hash\<close>, \<open>value_server\<close> in
  \<open>Redis_Key\<close>, \<open>stream_server\<close> in \<open>Redis_Stream\<close> and \<open>tx_server\<close> in \<open>Redis_Pubsub\<close>: its documented behaviour for the commands of each kind, and the witnesses use
  servers that have it. A floating point score is a value of some type whose printing and reading
  are arguments.

  \<^bold>\<open>Fuel and bounds.\<close> \<open>lpop_loop\<close> has the number of slices as fuel, which \<open>lpop_loop_pop_first\<close>
  shows to be enough. The loops that may go on forever, of a subscription and of INFO into a map, are partial functions without
  fuel: \<open>None\<close> is not returning, and \<open>subscribe_confirmed\<close> and \<open>info_map_returns\<close> say when they return. \<open>client_open\<close> and \<open>client_run\<close> share a fuel that bounds their calls of each
  other: \<open>None\<close> is a stack overflow; \<open>run_returns_reply\<close> and \<open>run_writes_at_most_twice\<close> show a result with fuel,
  \<open>auth_recursion_endless\<close> that against a hostile server none is enough. The depth of \<open>get_redis_object\<close> is the nesting of
  arrays that the stack allows. \<open>cluster_loop\<close> has the code's own bound, \<open>redirect_max\<close>.

  The length of a text is bounded where the code keeps it in an \<open>int\<close>: by \<open>2^31\<close> in \<open>compare_is_lexicographic\<close>,
  \<open>scan_lines_all\<close> and the writes; beyond it \<open>compare_wraps\<close> and \<open>huge_write_does_nothing\<close> say what happens. The chain of
  ranges is used below the largest number (\<open>dlink_int64_max\<close> for that one), the hash table not with the two flags that
  make a key dangle (\<open>htable_enter_dangles\<close>).

  \<^bold>\<open>Configuration.\<close> A Unix release build: \<open>assert\<close> is nothing, \<open>AUTO_SET_ALIVE\<close> is not set, thread
  binding is off. Memory allocation does not fail (the code ends the process). Operations under
  a lock are single steps, and interleavings are sequences of them.

  \<^bold>\<open>Not modelled.\<close> The files that hand work to the operating system or
  to other programs (event engines, aio, threads, processes, sockets, log files, MySQL), floating
  point results, the memory pools that only change where bytes come from, and \<^verbatim>\<open>demo/\<close>. The manifest lists each with its reason.
\<close>

end
